(* ===== verification/Prelude.thy ===== *)
theory Prelude
  imports Main "HOL-Library.Word" "HOL-Library.Monad_Syntax"
begin

text \<open>
  Shared vocabulary of the development: the machine integer types of \<^verbatim>\<open>libs/defs.h\<close>, the error
  codes of \<^verbatim>\<open>libs/error.h\<close>, the treatment of \<^verbatim>\<open>assert\<close> and \<^verbatim>\<open>panic\<close>, the rounding macros, and
  the generic lemmas on lists, options and words that the components use.

  A kernel operation that can reach \<^verbatim>\<open>panic\<close> (directly, or through a failed \<^verbatim>\<open>assert\<close>) returns an
  \<open>option\<close>: \<open>None\<close> is the stopped machine, \<open>Some (r, s)\<close> the C return value with the new state.
  C return codes are \<open>int\<close>, with the negative error codes of the source.
\<close>

unbundle bit_operations_syntax

section \<open>Automation\<close>

named_theorems kspec \<open>unfolding and inversion rules for the panic monad\<close>

section \<open>Machine integers\<close>

type_synonym u8 = "8 word"
type_synonym u16 = "16 word"
type_synonym u32 = "32 word"
type_synonym u64 = "64 word"

section \<open>Error codes\<close>

text \<open>\<^verbatim>\<open>libs/error.h\<close>; the functions return their negations.\<close>

abbreviation (input) E_BAD_PROC :: int where "E_BAD_PROC \<equiv> 2"
abbreviation (input) E_INVAL :: int where "E_INVAL \<equiv> 3"
abbreviation (input) E_NO_MEM :: int where "E_NO_MEM \<equiv> 4"
abbreviation (input) E_NO_FREE_PROC :: int where "E_NO_FREE_PROC \<equiv> 5"
abbreviation (input) E_INVAL_ELF :: int where "E_INVAL_ELF \<equiv> 8"
abbreviation (input) E_KILLED :: int where "E_KILLED \<equiv> 9"
abbreviation (input) E_TOO_BIG :: int where "E_TOO_BIG \<equiv> 12"
abbreviation (input) E_NO_DEV :: int where "E_NO_DEV \<equiv> 13"
abbreviation (input) E_NA_DEV :: int where "E_NA_DEV \<equiv> 14"
abbreviation (input) E_BUSY :: int where "E_BUSY \<equiv> 15"
abbreviation (input) E_NOENT :: int where "E_NOENT \<equiv> 16"
abbreviation (input) E_ISDIR :: int where "E_ISDIR \<equiv> 17"
abbreviation (input) E_NOTDIR :: int where "E_NOTDIR \<equiv> 18"
abbreviation (input) E_UNIMP :: int where "E_UNIMP \<equiv> 20"
abbreviation (input) E_MAX_OPEN :: int where "E_MAX_OPEN \<equiv> 22"
abbreviation (input) E_EXISTS :: int where "E_EXISTS \<equiv> 23"

section \<open>Assertions and panics\<close>

definition kassert :: "bool \<Rightarrow> unit option" where
  "kassert b = (if b then Some () else None)"

definition panic :: "'a option" where
  "panic = None"

lemma kassert_True [simp]: "kassert True = Some ()"
  by (simp add: kassert_def)

lemma kassert_False [simp]: "kassert False = None"
  by (simp add: kassert_def)

lemma kassert_eq_Some [simp, kspec]: "kassert b = Some u \<longleftrightarrow> b"
  by (simp add: kassert_def)

lemma kassert_bind_Some [simp, kspec]: "Option.bind (kassert b) f = Some x \<longleftrightarrow> b \<and> f () = Some x"
  by (simp add: kassert_def)

lemma kassert_bind [kspec]: "b \<Longrightarrow> Option.bind (kassert b) f = f ()"
  by (simp add: kassert_def)

lemma bind_panic [simp]: "Option.bind panic f = None"
  by (simp add: panic_def)

lemmas bind_Some_conv [kspec] = Option.bind_eq_Some_conv

section \<open>Rounding (libs/defs.h)\<close>

definition ROUNDDOWN :: "u64 \<Rightarrow> u64 \<Rightarrow> u64" where
  "ROUNDDOWN a n = a - a mod n"

definition ROUNDUP :: "u64 \<Rightarrow> u64 \<Rightarrow> u64" where
  "ROUNDUP a n = ROUNDDOWN (a + n - 1) n"

definition ROUNDUP_DIV :: "u64 \<Rightarrow> u64 \<Rightarrow> u64" where
  "ROUNDUP_DIV a n = (a + n - 1) div n"

lemma unat_mod_le: "unat (a mod n) \<le> unat (a :: 'a::len word)"
  by (simp add: unat_mod)

lemma unat_ROUNDDOWN: "unat (ROUNDDOWN a n) = unat a div unat n * unat n"
proof -
  have "a mod n \<le> a" by (simp add: word_le_nat_alt unat_mod)
  then have "unat (ROUNDDOWN a n) = unat a - unat a mod unat n"
    by (simp add: ROUNDDOWN_def unat_sub unat_mod)
  then show ?thesis by (metis minus_mod_eq_div_mult)
qed

lemma unat_ROUNDUP:
  assumes "0 < n" "unat a + unat n \<le> 2 ^ 64"
  shows "unat (ROUNDUP a n) = (unat a + unat n - 1) div unat n * unat n"
proof -
  have n: "1 \<le> unat n" using assms(1) by (simp add: word_less_nat_alt)
  have "unat (a + (n - 1)) = unat a + unat (n - 1)"
    using assms n by (subst unat_add_lem [THEN iffD1]) (simp_all add: unat_sub word_le_nat_alt)
  then have "unat (a + n - 1) = unat a + unat n - 1"
    using n by (simp add: unat_sub word_le_nat_alt add_diff_eq)
  then show ?thesis by (simp add: ROUNDUP_def unat_ROUNDDOWN)
qed

lemma ROUNDDOWN_le: "ROUNDDOWN a n \<le> a"
  by (simp add: word_le_nat_alt unat_ROUNDDOWN)

lemma ROUNDDOWN_aligned: "unat n dvd unat (ROUNDDOWN a n)"
  by (simp add: unat_ROUNDDOWN)

section \<open>Hashing (libs/hash.c)\<close>

definition hash32 :: "u32 \<Rightarrow> nat \<Rightarrow> u32" where
  "hash32 val bits = drop_bit (32 - bits) (val * 0x9e370001)"

section \<open>Lists\<close>

text \<open>
  The linked lists of the kernel are modelled by HOL lists; the following functions are what
  \<^verbatim>\<open>list_add_before\<close>, \<^verbatim>\<open>list_add_after\<close> and \<^verbatim>\<open>list_del\<close> do to the sequence of entries. The theory
  \<open>LinkedList\<close> proves that the pointer operations compute them.
\<close>

fun insert_before :: "'a \<Rightarrow> 'a \<Rightarrow> 'a list \<Rightarrow> 'a list" where
  "insert_before x e [] = []"
| "insert_before x e (y # ys) = (if y = x then e # y # ys else y # insert_before x e ys)"

fun insert_after :: "'a \<Rightarrow> 'a \<Rightarrow> 'a list \<Rightarrow> 'a list" where
  "insert_after x e [] = []"
| "insert_after x e (y # ys) = (if y = x then y # e # ys else y # insert_after x e ys)"

lemma set_insert_before: "x \<in> set ys \<Longrightarrow> set (insert_before x e ys) = insert e (set ys)"
  by (induction ys) auto

lemma set_insert_after: "x \<in> set ys \<Longrightarrow> set (insert_after x e ys) = insert e (set ys)"
  by (induction ys) auto

lemma insert_before_split:
  "x \<notin> set ys \<Longrightarrow> insert_before x e (ys @ x # zs) = ys @ e # x # zs"
  by (induction ys) auto

lemma insert_after_split:
  "x \<notin> set ys \<Longrightarrow> insert_after x e (ys @ x # zs) = ys @ x # e # zs"
  by (induction ys) auto

lemma remove1_split: "x \<notin> set ys \<Longrightarrow> remove1 x (ys @ x # zs) = ys @ zs"
  by (induction ys) auto

text \<open>Updating a range of an array, what a counting loop over it does.\<close>

definition upd_range :: "('a \<Rightarrow> 'a) \<Rightarrow> nat \<Rightarrow> nat \<Rightarrow> (nat \<Rightarrow> 'a) \<Rightarrow> nat \<Rightarrow> 'a" where
  "upd_range f p k a = (\<lambda>q. if p \<le> q \<and> q < p + k then f (a q) else a q)"

lemma upd_range_0 [simp]: "upd_range f p 0 a = a"
  by (rule ext) (auto simp: upd_range_def)

lemma upd_range_Suc: "upd_range f (Suc p) k (a(p := f (a p))) = upd_range f p (Suc k) a"
proof
  fix q
  have "p \<le> q \<longleftrightarrow> q = p \<or> Suc p \<le> q" by auto
  then show "upd_range f (Suc p) k (a(p := f (a p))) q = upd_range f p (Suc k) a q"
    by (auto simp: upd_range_def)
qed

lemma upd_range_apply: "upd_range f p k a q = (if q \<in> {p..<p + k} then f (a q) else a q)"
  by (simp add: upd_range_def)

lemma range_Suc: "{p..<p + Suc k} = insert p {Suc p..<Suc p + k}"
  by auto

lemma sum_list_remove1:
  fixes f :: "'a \<Rightarrow> nat"
  shows "x \<in> set xs \<Longrightarrow> sum_list (map f xs) = f x + sum_list (map f (remove1 x xs))"
  by (induction xs) auto

lemma sum_list_update_fun:
  "x \<notin> set xs \<Longrightarrow> sum_list (map (f(x := v)) xs) = sum_list (map f xs)"
  by (induction xs) auto

end
