(* ===== verification/LinkedList.thy ===== *)
theory LinkedList
  imports Prelude
begin

text \<open>
  The circular doubly linked lists of \<^verbatim>\<open>libs/list.h\<close> at the level of their pointers: a store of
  \<^verbatim>\<open>next\<close> and \<^verbatim>\<open>prev\<close> fields indexed by entry addresses, and the operations as field assignments in
  the order of the C code. \<open>dll L h xs\<close> says that the entry \<open>h\<close> heads a circular list whose further
  entries are \<open>xs\<close>; the refinement lemmas show which HOL list operation each pointer operation is.
  The components of the kernel use those HOL list operations.
\<close>

section \<open>The entries and the operations\<close>

record list_links =
  lprev :: "nat \<Rightarrow> nat"
  lnext :: "nat \<Rightarrow> nat"

definition list_init :: "nat \<Rightarrow> list_links \<Rightarrow> list_links" where
  "list_init elm L = L\<lparr>lnext := (lnext L)(elm := elm), lprev := (lprev L)(elm := elm)\<rparr>"

text \<open>\<^verbatim>\<open>__list_add\<close>: \<^verbatim>\<open>prev->next = next->prev = elm; elm->next = next; elm->prev = prev\<close>.\<close>

definition list_add_raw :: "nat \<Rightarrow> nat \<Rightarrow> nat \<Rightarrow> list_links \<Rightarrow> list_links" where
  "list_add_raw elm prev nxt L =
     (let L1 = L\<lparr>lprev := (lprev L)(nxt := elm)\<rparr>;
          L2 = L1\<lparr>lnext := (lnext L1)(prev := elm)\<rparr>;
          L3 = L2\<lparr>lnext := (lnext L2)(elm := nxt)\<rparr>
      in L3\<lparr>lprev := (lprev L3)(elm := prev)\<rparr>)"

text \<open>\<^verbatim>\<open>__list_del\<close>.\<close>

definition list_del_raw :: "nat \<Rightarrow> nat \<Rightarrow> list_links \<Rightarrow> list_links" where
  "list_del_raw prev nxt L =
     (let L1 = L\<lparr>lnext := (lnext L)(prev := nxt)\<rparr>
      in L1\<lparr>lprev := (lprev L1)(nxt := prev)\<rparr>)"

definition list_add_before :: "nat \<Rightarrow> nat \<Rightarrow> list_links \<Rightarrow> list_links" where
  "list_add_before listelm elm L = list_add_raw elm (lprev L listelm) listelm L"

definition list_add_after :: "nat \<Rightarrow> nat \<Rightarrow> list_links \<Rightarrow> list_links" where
  "list_add_after listelm elm L = list_add_raw elm listelm (lnext L listelm) L"

definition list_add :: "nat \<Rightarrow> nat \<Rightarrow> list_links \<Rightarrow> list_links" where
  "list_add listelm elm L = list_add_after listelm elm L"

definition list_del :: "nat \<Rightarrow> list_links \<Rightarrow> list_links" where
  "list_del listelm L = list_del_raw (lprev L listelm) (lnext L listelm) L"

definition list_del_init :: "nat \<Rightarrow> list_links \<Rightarrow> list_links" where
  "list_del_init listelm L = list_init listelm (list_del listelm L)"

definition list_empty :: "nat \<Rightarrow> list_links \<Rightarrow> bool" where
  "list_empty lst L \<longleftrightarrow> lnext L lst = lst"

definition list_next :: "nat \<Rightarrow> list_links \<Rightarrow> nat" where
  "list_next listelm L = lnext L listelm"

definition list_prev :: "nat \<Rightarrow> list_links \<Rightarrow> nat" where
  "list_prev listelm L = lprev L listelm"

section \<open>The list an entry heads\<close>

text \<open>\<open>seg L a xs b\<close>: from \<open>a\<close>, following \<^verbatim>\<open>next\<close>, the entries \<open>xs\<close> and then \<open>b\<close>, with matching
  \<^verbatim>\<open>prev\<close> fields.\<close>

fun seg :: "list_links \<Rightarrow> nat \<Rightarrow> nat list \<Rightarrow> nat \<Rightarrow> bool" where
  "seg L a [] b \<longleftrightarrow> lnext L a = b \<and> lprev L b = a"
| "seg L a (x # xs) b \<longleftrightarrow> lnext L a = x \<and> lprev L x = a \<and> seg L x xs b"

definition dll :: "list_links \<Rightarrow> nat \<Rightarrow> nat list \<Rightarrow> bool" where
  "dll L h xs \<longleftrightarrow> distinct (h # xs) \<and> seg L h xs h"

lemma seg_append: "seg L a (xs @ y # ys) b \<longleftrightarrow> seg L a xs y \<and> seg L y ys b"
  by (induction xs arbitrary: a) auto

lemma seg_next_upd: "p \<noteq> a \<Longrightarrow> p \<notin> set xs \<Longrightarrow>
    seg (L\<lparr>lnext := (lnext L)(p := v)\<rparr>) a xs b \<longleftrightarrow> seg L a xs b"
  by (induction xs arbitrary: a) auto

lemma seg_prev_upd: "p \<noteq> b \<Longrightarrow> p \<notin> set xs \<Longrightarrow>
    seg (L\<lparr>lprev := (lprev L)(p := v)\<rparr>) a xs b \<longleftrightarrow> seg L a xs b"
  by (induction xs arbitrary: a) auto

lemma seg_upd:
  assumes "\<forall>x \<in> insert a (set xs). lnext L' x = lnext L x"
    and "\<forall>x \<in> insert b (set xs). lprev L' x = lprev L x"
  shows "seg L' a xs b \<longleftrightarrow> seg L a xs b"
  using assms by (induction xs arbitrary: a) auto

lemma seg_snocD: "seg L a (xs @ [y]) b \<Longrightarrow> lprev L b = y"
  by (induction xs arbitrary: a) auto

lemma dll_Nil: "dll L h [] \<longleftrightarrow> lnext L h = h \<and> lprev L h = h"
  by (simp add: dll_def)

text \<open>The links determine the list.\<close>

lemma seg_unique: "seg L a xs h \<Longrightarrow> seg L a ys h \<Longrightarrow> h \<notin> set xs \<Longrightarrow> h \<notin> set ys \<Longrightarrow> xs = ys"
proof (induction xs arbitrary: a ys)
  case Nil
  then show ?case by (cases ys) auto
next
  case (Cons x xs)
  then show ?case by (cases ys) auto
qed

lemma dll_unique: "dll L h xs \<Longrightarrow> dll L h ys \<Longrightarrow> xs = ys"
  by (auto simp: dll_def intro: seg_unique)

lemma list_init_dll: "dll (list_init h L) h []"
  by (simp add: dll_Nil list_init_def)

lemma list_empty_dll: "dll L h xs \<Longrightarrow> list_empty h L \<longleftrightarrow> xs = []"
  by (cases xs) (auto simp: dll_def list_empty_def)

lemma list_next_head: "dll L h xs \<Longrightarrow> list_next h L = hd (xs @ [h])"
  by (cases xs) (auto simp: dll_def list_next_def)

lemma list_prev_head: "dll L h xs \<Longrightarrow> list_prev h L = last (h # xs)"
  by (cases xs rule: rev_cases) (auto simp: dll_def list_prev_def dest: seg_snocD)

lemma list_next_inner: "dll L h (xs @ x # ys) \<Longrightarrow> list_next x L = hd (ys @ [h])"
  by (cases ys) (auto simp: dll_def list_next_def seg_append)

lemma list_prev_inner: "dll L h (xs @ x # ys) \<Longrightarrow> list_prev x L = last (h # xs)"
  by (cases xs rule: rev_cases) (auto simp: dll_def list_prev_def seg_append dest: seg_snocD)

section \<open>Insertion and removal refine list operations\<close>

lemma list_add_raw_sel [simp]:
  "lnext (list_add_raw e p n L) = (lnext L)(p := e, e := n)"
  "lprev (list_add_raw e p n L) = (lprev L)(n := e, e := p)"
  by (simp_all add: list_add_raw_def Let_def)

lemma list_del_raw_sel [simp]:
  "lnext (list_del_raw p n L) = (lnext L)(p := n)"
  "lprev (list_del_raw p n L) = (lprev L)(n := p)"
  by (simp_all add: list_del_raw_def Let_def)

text \<open>One lemma on splitting a segment between two neighbours carries all insertions.\<close>

lemma seg_list_add_raw:
  assumes "seg L a (xs @ ys) b" and "e \<notin> insert a (insert b (set (xs @ ys)))"
    and "distinct (a # xs @ ys)" and "b = a \<or> b \<notin> set (a # xs @ ys)"
  shows "seg (list_add_raw e (last (a # xs)) (hd (ys @ [b])) L) a (xs @ e # ys) b"
proof -
  let ?p = "last (a # xs)" let ?n = "hd (ys @ [b])"
  let ?L = "list_add_raw e ?p ?n L"
  have e: "e \<noteq> ?p" "e \<noteq> ?n" using assms(2) by (cases xs rule: rev_cases; cases ys; auto)+
  have left: "seg ?L a xs e"
  proof (cases xs rule: rev_cases)
    case Nil
    then show ?thesis using e by simp
  next
    case (snoc zs z)
    have "seg L a zs z" using assms(1) snoc by (simp add: seg_append)
    moreover have "\<forall>x \<in> insert a (set zs). lnext ?L x = lnext L x"
      using snoc assms(2,3) by auto
    moreover have "?n \<notin> insert z (set zs)" using assms(3,4) snoc by (cases ys) auto
    then have "\<forall>x \<in> insert z (set zs). lprev ?L x = lprev L x"
      using snoc assms(2) by auto
    ultimately have "seg ?L a zs z" by (blast intro: seg_upd [THEN iffD2])
    with snoc e show ?thesis by (simp add: seg_append)
  qed
  have right: "seg ?L e ys b"
  proof (cases ys)
    case Nil
    then show ?thesis using e by simp
  next
    case (Cons z zs)
    have "seg L z zs b" using assms(1) Cons by (simp add: seg_append)
    moreover have "?p \<notin> insert z (set zs)"
      using assms(3) Cons by (cases xs rule: rev_cases) auto
    then have "\<forall>x \<in> insert z (set zs). lnext ?L x = lnext L x"
      using Cons assms(2) by auto
    moreover have "\<forall>x \<in> insert b (set zs). lprev ?L x = lprev L x"
      using Cons assms(2,3,4) by auto
    ultimately have "seg ?L z zs b" by (blast intro: seg_upd [THEN iffD2])
    with Cons e show ?thesis by simp
  qed
  from left right show ?thesis by (simp add: seg_append)
qed

text \<open>Insertion behind a given prefix, and in front of a given suffix, of the list.\<close>

lemma list_add_at_dll:
  assumes "dll L h (as @ bs)" "e \<notin> set (h # as @ bs)"
  shows "dll (list_add (last (h # as)) e L) h (as @ e # bs)"
proof -
  have "lnext L (last (h # as)) = hd (bs @ [h])"
  proof (cases as rule: rev_cases)
    case Nil
    then show ?thesis using list_next_head [OF assms(1)] by (simp add: list_next_def)
  next
    case (snoc us u)
    then show ?thesis using list_next_inner [of L h us u bs] assms(1) by (simp add: list_next_def)
  qed
  then show ?thesis
    using assms seg_list_add_raw [of L h as bs h e]
    by (auto simp: dll_def list_add_def list_add_after_def)
qed

lemma list_add_before_at_dll:
  assumes "dll L h (as @ bs)" "e \<notin> set (h # as @ bs)"
  shows "dll (list_add_before (hd (bs @ [h])) e L) h (as @ e # bs)"
proof -
  have "lprev L (hd (bs @ [h])) = last (h # as)"
  proof (cases bs)
    case Nil
    then show ?thesis using list_prev_head [of L h as] assms(1) by (simp add: list_prev_def)
  next
    case (Cons b bs')
    then show ?thesis using list_prev_inner [of L h as b bs'] assms(1) by (simp add: list_prev_def)
  qed
  then show ?thesis
    using assms seg_list_add_raw [of L h as bs h e]
    by (auto simp: dll_def list_add_before_def)
qed

lemma list_add_dll:
  assumes "dll L h xs" "e \<notin> set (h # xs)"
  shows "dll (list_add h e L) h (e # xs)"
  using list_add_at_dll [of L h "[]" xs e] assms by simp

lemma list_add_before_head_dll:
  assumes "dll L h xs" "e \<notin> set (h # xs)"
  shows "dll (list_add_before h e L) h (xs @ [e])"
  using list_add_before_at_dll [of L h xs "[]" e] assms by simp

lemma list_add_before_dll:
  assumes "dll L h xs" "x \<in> set xs" "e \<notin> set (h # xs)"
  shows "dll (list_add_before x e L) h (insert_before x e xs)"
proof -
  obtain ys zs where xs: "xs = ys @ x # zs" "x \<notin> set ys" using assms(2) by (meson split_list_first)
  then show ?thesis
    using list_add_before_at_dll [of L h ys "x # zs" e] assms(1,3) by (simp add: insert_before_split)
qed

lemma list_add_after_dll:
  assumes "dll L h xs" "x \<in> set xs" "e \<notin> set (h # xs)"
  shows "dll (list_add_after x e L) h (insert_after x e xs)"
proof -
  obtain ys zs where xs: "xs = ys @ x # zs" "x \<notin> set ys" using assms(2) by (meson split_list_first)
  then show ?thesis
    using list_add_at_dll [of L h "ys @ [x]" zs e] assms(1,3)
    by (simp add: insert_after_split list_add_def)
qed

lemma list_del_dll:
  assumes "dll L h xs" "x \<in> set xs"
  shows "dll (list_del x L) h (remove1 x xs)"
proof -
  obtain ys zs where xs: "xs = ys @ x # zs" "x \<notin> set ys" using assms(2) by (meson split_list_first)
  let ?p = "last (h # ys)" let ?n = "hd (zs @ [h])"
  have d: "distinct (h # ys @ x # zs)" and sg: "seg L h ys x" "seg L x zs h"
    using assms(1) xs by (auto simp: dll_def seg_append)
  have "lprev L x = ?p" "lnext L x = ?n"
    using list_prev_inner [of L h ys x zs] list_next_inner [of L h ys x zs] assms(1) xs
    by (simp_all add: list_prev_def list_next_def)
  then have del: "list_del x L = list_del_raw ?p ?n L" by (simp add: list_del_def)
  have "seg (list_del x L) h (ys @ zs) h"
  proof (cases zs)
    case Nil
    show ?thesis
    proof (cases ys rule: rev_cases)
      case Nil' : Nil
      then show ?thesis using Nil by (simp add: del)
    next
      case (snoc us u)
      then have "seg L h us u" using sg(1) by (simp add: seg_append)
      then have "seg (list_del x L) h us u"
        using snoc Nil d by (subst seg_upd) (auto simp: del)
      then show ?thesis using snoc Nil by (simp add: del seg_append)
    qed
  next
    case (Cons z zs')
    have "seg (list_del x L) z zs' h"
      using sg(2) Cons d by (subst seg_upd [where L = L]) (cases ys rule: rev_cases; auto simp: del)+
    moreover have "seg (list_del x L) h ys z"
    proof (cases ys rule: rev_cases)
      case Nil
      then show ?thesis using Cons by (simp add: del)
    next
      case (snoc us u)
      then have "seg L h us u" using sg(1) by (simp add: seg_append)
      then have "seg (list_del x L) h us u"
        using snoc Cons d by (subst seg_upd) (auto simp: del)
      then show ?thesis using snoc Cons by (simp add: del seg_append)
    qed
    ultimately show ?thesis using Cons by (simp add: seg_append)
  qed
  then show ?thesis using d xs by (auto simp: dll_def remove1_split)
qed

lemma list_del_at_dll: "dll L h (as @ x # bs) \<Longrightarrow> dll (list_del x L) h (as @ bs)"
  using list_del_dll [of L h "as @ x # bs" x] by (auto simp: dll_def remove1_split)

text \<open>\<^verbatim>\<open>list_del_init\<close> leaves the removed entry a list of its own, which is how the scheduler and the
  wait queues test membership with \<^verbatim>\<open>list_empty\<close>.\<close>

lemma list_del_init_dll:
  assumes "dll L h xs" "x \<in> set xs"
  shows "dll (list_del_init x L) h (remove1 x xs) \<and> list_empty x (list_del_init x L)"
proof -
  have 1: "dll (list_del x L) h (remove1 x xs)" by (rule list_del_dll [OF assms])
  have "x \<notin> set (h # remove1 x xs)" using assms by (auto simp: dll_def)
  then have "seg (list_init x (list_del x L)) h (remove1 x xs) h"
    using 1 by (subst seg_upd [where L = "list_del x L"]) (auto simp: dll_def list_init_def)
  then show ?thesis using 1 by (simp add: dll_def list_del_init_def list_empty_def list_init_def)
qed

end
