(* ===== verification/PmmInterface.thy ===== *)
theory PmmInterface
  imports Prelude
begin

text \<open>
  The interface of a physical memory manager, \<^verbatim>\<open>struct pmm_manager\<close> of \<^verbatim>\<open>kern/mm/pmm.h\<close>, and the
  wrappers of \<^verbatim>\<open>kern/mm/pmm.c\<close> that call it with interrupts disabled (\<^verbatim>\<open>kern/sync/sync.h\<close>). The
  locale \<open>page_allocator\<close> states what its clients rely on; the first-fit, best-fit and buddy managers
  interpret it in their own theories; \<open>counted_allocator\<close> adds that the count of free
  pages is right, which the buddy manager does not promise (see the theory \<open>Buddy\<close>).
\<close>

section \<open>Interrupt state\<close>

text \<open>The state is the \<^verbatim>\<open>SIE\<close> bit of \<^verbatim>\<open>sstatus\<close>; \<open>intr_save\<close> returns the flag and the new bit.\<close>

definition intr_save :: "bool \<Rightarrow> bool \<times> bool" where
  "intr_save sie = (if sie then (True, False) else (False, sie))"

definition intr_restore :: "bool \<Rightarrow> bool \<Rightarrow> bool" where
  "intr_restore flag sie = (if flag then True else sie)"

lemma intr_save_restore [simp]: "intr_save sie = (flag, sie') \<Longrightarrow> intr_restore flag sie' = sie"
  by (auto simp: intr_save_def intr_restore_def split: if_splits)

section \<open>The manager and its wrappers\<close>

record 's pmm_manager =
  mgr_init :: "'s \<Rightarrow> 's"
  mgr_init_memmap :: "nat \<Rightarrow> nat \<Rightarrow> 's \<Rightarrow> 's option"
  mgr_alloc_pages :: "nat \<Rightarrow> 's \<Rightarrow> (nat option \<times> 's) option"
  mgr_free_pages :: "nat \<Rightarrow> nat \<Rightarrow> 's \<Rightarrow> 's option"
  mgr_nr_free_pages :: "'s \<Rightarrow> nat"

definition alloc_pages :: "'s pmm_manager \<Rightarrow> nat \<Rightarrow> bool \<times> 's \<Rightarrow> (nat option \<times> bool \<times> 's) option" where
  "alloc_pages mgr n k = do {
     let (intr_flag, sie) = intr_save (fst k);
     (page, s) \<leftarrow> mgr_alloc_pages mgr n (snd k);
     Some (page, intr_restore intr_flag sie, s)
   }"

definition free_pages :: "'s pmm_manager \<Rightarrow> nat \<Rightarrow> nat \<Rightarrow> bool \<times> 's \<Rightarrow> (bool \<times> 's) option" where
  "free_pages mgr base n k = do {
     let (intr_flag, sie) = intr_save (fst k);
     s \<leftarrow> mgr_free_pages mgr base n (snd k);
     Some (intr_restore intr_flag sie, s)
   }"

definition nr_free_pages :: "'s pmm_manager \<Rightarrow> bool \<times> 's \<Rightarrow> nat \<times> bool \<times> 's" where
  "nr_free_pages mgr k =
     (let (intr_flag, sie) = intr_save (fst k); ret = mgr_nr_free_pages mgr (snd k)
      in (ret, intr_restore intr_flag sie, snd k))"

section \<open>Clients\<close>

text \<open>What a client holds: the blocks it was given, with the sizes it asked for. A client only gives
  back a block it holds, and only where the manager can take it (\<open>place\<close>).\<close>

type_synonym 's client = "(bool \<times> 's) \<times> (nat \<times> nat) list"

inductive client_step :: "'s pmm_manager \<Rightarrow> (nat \<Rightarrow> 's \<Rightarrow> bool) \<Rightarrow> 's client \<Rightarrow> 's client \<Rightarrow> bool"
  for mgr place where
  step_alloc: "0 < n \<Longrightarrow> alloc_pages mgr n k = Some (Some p, k') \<Longrightarrow>
     client_step mgr place (k, held) (k', (p, n) # held)"
| step_alloc_fail: "0 < n \<Longrightarrow> alloc_pages mgr n k = Some (None, k') \<Longrightarrow>
     client_step mgr place (k, held) (k', held)"
| step_free: "(p, n) \<in> set held \<Longrightarrow> place p (snd k) \<Longrightarrow> free_pages mgr p n k = Some k' \<Longrightarrow>
     client_step mgr place (k, held) (k', remove1 (p, n) held)"

inductive_cases client_stepE: "client_step mgr place (k, held) c'"

abbreviation client_run :: "'s pmm_manager \<Rightarrow> (nat \<Rightarrow> 's \<Rightarrow> bool) \<Rightarrow> 's client \<Rightarrow> 's client \<Rightarrow> bool" where
  "client_run mgr place \<equiv> (client_step mgr place)\<^sup>*\<^sup>*"

definition held_disjoint :: "(nat \<Rightarrow> nat) \<Rightarrow> (nat \<times> nat) list \<Rightarrow> bool" where
  "held_disjoint blk held \<longleftrightarrow>
     sorted_wrt (\<lambda>(p, n) (q, m). {p..<p + blk n} \<inter> {q..<q + blk m} = {}) held"

definition held_pages :: "(nat \<Rightarrow> nat) \<Rightarrow> (nat \<times> nat) list \<Rightarrow> nat set" where
  "held_pages blk held = (\<Union>(p, n) \<in> set held. {p..<p + blk n})"

lemma held_pages_simps [simp]:
  "held_pages blk [] = {}" "held_pages blk ((p, n) # held) = {p..<p + blk n} \<union> held_pages blk held"
  by (simp_all add: held_pages_def)

lemma held_pages_sub: "(p, n) \<in> set held \<Longrightarrow> {p..<p + blk n} \<subseteq> held_pages blk held"
  by (fastforce simp: held_pages_def)

lemma held_pages_mono: "set xs \<subseteq> set ys \<Longrightarrow> held_pages blk xs \<subseteq> held_pages blk ys"
  by (fastforce simp: held_pages_def)

lemma held_disjoint_Cons [simp]:
  "held_disjoint blk ((p, n) # held) \<longleftrightarrow>
     {p..<p + blk n} \<inter> held_pages blk held = {} \<and> held_disjoint blk held"
  unfolding held_disjoint_def held_pages_def Int_UN_distrib sorted_wrt.simps
  by (simp add: case_prod_beta)

lemma held_disjoint_Nil [simp]: "held_disjoint blk []"
  by (simp add: held_disjoint_def)

lemma held_remove1:
  "held_disjoint blk held \<Longrightarrow> (p, n) \<in> set held \<Longrightarrow> 
     held_disjoint blk (remove1 (p, n) held) \<and>
     {p..<p + blk n} \<inter> held_pages blk (remove1 (p, n) held) = {} \<and>
     held_pages blk held = {p..<p + blk n} \<union> held_pages blk (remove1 (p, n) held)"
proof (induction held)
  case (Cons h held)
  obtain q m where h: "h = (q, m)" by force
  show ?case
  proof (cases "h = (p, n)")
    case True
    then show ?thesis using Cons.prems by auto
  next
    case False
    then have "(p, n) \<in> set held" using Cons.prems by simp
    moreover have "held_disjoint blk held" "{q..<q + blk m} \<inter> held_pages blk held = {}"
      using Cons.prems h by simp_all
    ultimately show ?thesis using Cons.IH h False by auto
  qed
qed simp

section \<open>The contract\<close>

text \<open>\<open>inv s F\<close>: the manager is in a consistent state and \<open>F\<close> is its set of free pages. \<open>blk n\<close> is the
  number of pages a request for \<open>n\<close> really takes. \<open>rel p n s\<close>: the descriptors of an allocated block
  are as \<^verbatim>\<open>free_pages\<close> wants them; no operation on other pages changes that.\<close>

locale page_allocator =
  fixes mgr :: "'s pmm_manager" and inv :: "'s \<Rightarrow> nat set \<Rightarrow> bool" and blk :: "nat \<Rightarrow> nat"
    and rel :: "nat \<Rightarrow> nat \<Rightarrow> 's \<Rightarrow> bool" and place :: "nat \<Rightarrow> 's \<Rightarrow> bool"
  assumes blk_ge: "n \<le> blk n"
    and alloc_total: "inv s F \<Longrightarrow> 0 < n \<Longrightarrow> \<exists>r s'. mgr_alloc_pages mgr n s = Some (r, s')"
    and alloc_None: "inv s F \<Longrightarrow> 0 < n \<Longrightarrow> mgr_alloc_pages mgr n s = Some (None, s') \<Longrightarrow> s' = s"
    and alloc_Some: "inv s F \<Longrightarrow> 0 < n \<Longrightarrow> mgr_alloc_pages mgr n s = Some (Some p, s') \<Longrightarrow>
      {p..<p + blk n} \<subseteq> F \<and> inv s' (F - {p..<p + blk n}) \<and> rel p n s'"
    and alloc_frame: "inv s F \<Longrightarrow> 0 < n \<Longrightarrow> mgr_alloc_pages mgr n s = Some (Some p, s') \<Longrightarrow>
      rel q m s \<Longrightarrow> {q..<q + blk m} \<inter> F = {} \<Longrightarrow> rel q m s'"
    and free_ok: "inv s F \<Longrightarrow> 0 < n \<Longrightarrow> {p..<p + blk n} \<inter> F = {} \<Longrightarrow> rel p n s \<Longrightarrow> place p s \<Longrightarrow>
      \<exists>s'. mgr_free_pages mgr p n s = Some s' \<and> inv s' (F \<union> {p..<p + blk n})"
    and free_frame: "inv s F \<Longrightarrow> 0 < n \<Longrightarrow> {p..<p + blk n} \<inter> F = {} \<Longrightarrow> rel p n s \<Longrightarrow> place p s \<Longrightarrow>
      mgr_free_pages mgr p n s = Some s' \<Longrightarrow> rel q m s \<Longrightarrow>
      {q..<q + blk m} \<inter> (F \<union> {p..<p + blk n}) = {} \<Longrightarrow> rel q m s'"
begin

text \<open>Giving a block back right after taking it restores the set of free pages.\<close>

lemma alloc_then_free:
  assumes i: "inv s F" and n: "0 < n" and a: "mgr_alloc_pages mgr n s = Some (Some p, s')"
    and pl: "place p s'"
  shows "\<exists>s''. mgr_free_pages mgr p n s' = Some s'' \<and> inv s'' F"
proof -
  have "{p..<p + blk n} \<subseteq> F" "inv s' (F - {p..<p + blk n})" "rel p n s'"
    using alloc_Some [OF i n a] by auto
  moreover have "F - {p..<p + blk n} \<union> {p..<p + blk n} = F" using calculation(1) by blast
  ultimately show ?thesis using free_ok [of s' "F - {p..<p + blk n}" n p] n pl by auto
qed

text \<open>The invariant of a client: the blocks it holds are disjoint from each other and from the free
  pages, can be given back, and together with the free pages are all of the pool.\<close>

definition held_inv :: "nat set \<Rightarrow> 's client \<Rightarrow> bool" where
  "held_inv U c \<longleftrightarrow> (\<exists>F. inv (snd (fst c)) F \<and> held_disjoint blk (snd c) \<and>
     F \<inter> held_pages blk (snd c) = {} \<and> F \<union> held_pages blk (snd c) = U \<and>
     (\<forall>(p, n) \<in> set (snd c). 0 < n \<and> rel p n (snd (fst c))))"

lemma held_inv_step:
  assumes inv: "held_inv U (k, held)" and step: "client_step mgr place (k, held) c'"
  shows "held_inv U c'"
proof -
  obtain F where F: "inv (snd k) F" "held_disjoint blk held" "F \<inter> held_pages blk held = {}"
    "F \<union> held_pages blk held = U" "\<forall>(p, n) \<in> set held. 0 < n \<and> rel p n (snd k)"
    using inv by (auto simp: held_inv_def)
  have dj: "{q..<q + blk m} \<inter> F = {}" if "(q, m) \<in> set held" for q m
    using F(3) held_pages_sub [OF that, of blk] by blast
  show ?thesis using step
  proof (cases rule: client_stepE [consumes 1, case_names alloc alloc_fail free])
    case (alloc n p k')
    obtain s' where s': "mgr_alloc_pages mgr n (snd k) = Some (Some p, s')" "snd k' = s'"
      using alloc by (auto simp: alloc_pages_def kspec split: prod.splits)
    note A = alloc_Some [OF F(1) alloc(2) s'(1)]
    have "\<forall>(q, m) \<in> set held. 0 < m \<and> rel q m s'"
      using F(5) alloc_frame [OF F(1) alloc(2) s'(1)] dj by blast
    then show ?thesis unfolding held_inv_def using A F alloc(1,2) s'(2)
      by (intro exI [of _ "F - {p..<p + blk n}"]) auto
  next
    case (alloc_fail n k')
    then have "snd k' = snd k" using alloc_None [OF F(1) alloc_fail(2)]
      by (auto simp: alloc_pages_def kspec split: prod.splits)
    then show ?thesis using F alloc_fail by (auto simp: held_inv_def)
  next
    case (free p n k')
    obtain s' where s': "mgr_free_pages mgr p n (snd k) = Some s'" "snd k' = s'"
      using free by (auto simp: free_pages_def kspec split: prod.splits)
    have n: "0 < n" "rel p n (snd k)" using F(5) free(2) by auto
    note R = held_remove1 [OF F(2) free(2)]
    have i': "inv s' (F \<union> {p..<p + blk n})" using free_ok [OF F(1) n(1) dj [OF free(2)] n(2) free(3)] s'(1) by simp
    have "\<forall>(q, m) \<in> set (remove1 (p, n) held). 0 < m \<and> rel q m s'"
    proof clarify
      fix q m assume q: "(q, m) \<in> set (remove1 (p, n) held)"
      then have "(q, m) \<in> set held" by (meson notin_set_remove1)
      moreover have "{q..<q + blk m} \<inter> {p..<p + blk n} = {}"
        using R held_pages_sub [OF q, of blk] by blast
      ultimately have "{q..<q + blk m} \<inter> (F \<union> {p..<p + blk n}) = {}" "0 < m" "rel q m (snd k)"
        using F(5) dj [of q m] by (blast, auto)
      then show "0 < m \<and> rel q m s'"
        using free_frame [OF F(1) n(1) dj [OF free(2)] n(2) free(3) s'(1), of q m] by blast
    qed
    then show ?thesis unfolding held_inv_def using i' R F free(1) s'(2)
      by (intro exI [of _ "F \<union> {p..<p + blk n}"]) auto
  qed
qed

lemma held_inv_run:
  "client_run mgr place c c' \<Longrightarrow> held_inv U c \<Longrightarrow> held_inv U c'"
proof (induction rule: rtranclp_induct)
  case (step y z)
  then show ?case using held_inv_step by (metis prod.collapse)
qed

text \<open>No page is ever given out twice, and the pool never shrinks or grows: with the free pages, the
  held ones are always all of it.\<close>

lemma run_partition:
  assumes i: "inv (snd k) U" and r: "client_run mgr place (k, []) (k', held)"
  shows "\<exists>F. inv (snd k') F \<and> held_disjoint blk held \<and> F \<inter> held_pages blk held = {} \<and>
    F \<union> held_pages blk held = U"
proof -
  have "held_inv U (k, [])" using i by (simp add: held_inv_def)
  from held_inv_run [OF r this] show ?thesis by (auto simp: held_inv_def)
qed

end

text \<open>A manager that also counts its free pages correctly.\<close>

locale counted_allocator = page_allocator +
  assumes nr_card: "inv s F \<Longrightarrow> finite F \<and> mgr_nr_free_pages mgr s = card F"
begin

lemma alloc_count:
  assumes "inv s F" "0 < n" "mgr_alloc_pages mgr n s = Some (Some p, s')"
  shows "mgr_nr_free_pages mgr s = mgr_nr_free_pages mgr s' + blk n"
proof -
  have "{p..<p + blk n} \<subseteq> F" "inv s' (F - {p..<p + blk n})" using alloc_Some [OF assms] by auto
  moreover have "finite F" using nr_card assms(1) by blast
  ultimately have "card F = card (F - {p..<p + blk n}) + blk n"
    by (metis card_Diff_subset card_atLeastLessThan card_mono diff_add_inverse finite_atLeastLessThan
        le_add_diff_inverse2)
  then show ?thesis using nr_card assms(1) \<open>inv s' _\<close> by metis
qed

lemma run_count:
  assumes i: "inv (snd k) U" and r: "client_run mgr place (k, []) (k', held)"
  shows "held_disjoint blk held \<and> held_pages blk held \<subseteq> U \<and>
    mgr_nr_free_pages mgr (snd k') + card (held_pages blk held) = mgr_nr_free_pages mgr (snd k)"
proof -
  from run_partition [OF i r] obtain F where
    F: "inv (snd k') F" "held_disjoint blk held" "F \<inter> held_pages blk held = {}" "F \<union> held_pages blk held = U"
    by auto
  have "finite (held_pages blk held)" by (auto simp: held_pages_def)
  then have "card U = card F + card (held_pages blk held)"
    using F nr_card by (metis card_Un_disjoint)
  then show ?thesis using F nr_card i by auto
qed

end

end
