(* ===== verification/PageAlloc.thy ===== *)
theory PageAlloc
  imports LinkedList PmmInterface
begin

text \<open>
  The page descriptors of \<^verbatim>\<open>kern/mm/memlayout.h\<close> and the first-fit physical memory manager
  \<^verbatim>\<open>kern/mm/default_pmm.c\<close>. A \<^verbatim>\<open>struct Page *\<close> is the index of its descriptor in the array
  \<^verbatim>\<open>pages\<close>. The free list is modelled at the level of its pointers (theory \<open>LinkedList\<close>), because
  \<^verbatim>\<open>default_free_pages\<close> and \<^verbatim>\<open>default_init_memmap\<close> can link an entry to itself, which a HOL list
  could not express. Page counts are natural numbers: the fields are \<^verbatim>\<open>unsigned int\<close>, and every
  value stored in them is a number of pages of the machine, far below \<open>2 ^ 32\<close>.
\<close>

section \<open>Page descriptors\<close>

record page =
  ref :: int
  flags :: u64
  property :: nat
  pra_vaddr :: u64

abbreviation (input) PG_reserved :: nat where "PG_reserved \<equiv> 0"
abbreviation (input) PG_property :: nat where "PG_property \<equiv> 1"

definition SetPageReserved :: "page \<Rightarrow> page" where
  "SetPageReserved p = p\<lparr>flags := set_bit PG_reserved (flags p)\<rparr>"
definition PageReserved :: "page \<Rightarrow> bool" where
  "PageReserved p \<longleftrightarrow> bit (flags p) PG_reserved"
definition SetPageProperty :: "page \<Rightarrow> page" where
  "SetPageProperty p = p\<lparr>flags := set_bit PG_property (flags p)\<rparr>"
definition ClearPageProperty :: "page \<Rightarrow> page" where
  "ClearPageProperty p = p\<lparr>flags := unset_bit PG_property (flags p)\<rparr>"
definition PageProperty :: "page \<Rightarrow> bool" where
  "PageProperty p \<longleftrightarrow> bit (flags p) PG_property"

lemma page_flag_simps [simp]:
  "PageProperty (SetPageProperty p)" "\<not> PageProperty (ClearPageProperty p)"
  "PageReserved (SetPageReserved p)"
  "PageReserved (SetPageProperty p) = PageReserved p"
  "PageReserved (ClearPageProperty p) = PageReserved p"
  "property (SetPageProperty p) = property p" "property (ClearPageProperty p) = property p"
  "ref (SetPageProperty p) = ref p" "ref (ClearPageProperty p) = ref p"
  by (simp_all add: PageProperty_def SetPageProperty_def ClearPageProperty_def PageReserved_def
      SetPageReserved_def bit_set_bit_iff bit_unset_bit_iff)

lemma page_flags_upd [simp]:
  "PageProperty (p\<lparr>property := v\<rparr>) = PageProperty p" "PageReserved (p\<lparr>property := v\<rparr>) = PageReserved p"
  "PageProperty (p\<lparr>ref := r\<rparr>) = PageProperty p" "PageReserved (p\<lparr>ref := r\<rparr>) = PageReserved p"
  "\<not> PageProperty (p\<lparr>flags := 0\<rparr>)" "\<not> PageReserved (p\<lparr>flags := 0\<rparr>)"
  by (simp_all add: PageProperty_def PageReserved_def)

section \<open>The free area\<close>

text \<open>\<open>links\<close> holds the \<^verbatim>\<open>page_link\<close> fields. The list header \<^verbatim>\<open>free_area.free_list\<close> is entry \<open>0\<close>, the
  link of page \<open>p\<close> is entry \<open>p + 1\<close> (\<^verbatim>\<open>le2page\<close> is the inverse).\<close>

record pmm =
  pages :: "nat \<Rightarrow> page"
  links :: list_links
  nr_free :: nat

abbreviation (input) free_list :: nat where "free_list \<equiv> 0"
abbreviation (input) page_link :: "nat \<Rightarrow> nat" where "page_link p \<equiv> Suc p"
abbreviation (input) le2page :: "nat \<Rightarrow> nat" where "le2page le \<equiv> le - 1"

definition upd_page :: "nat \<Rightarrow> (page \<Rightarrow> page) \<Rightarrow> 'a pmm_scheme \<Rightarrow> 'a pmm_scheme" where
  "upd_page p f s = s\<lparr>pages := (pages s)(p := f (pages s p))\<rparr>"

lemma upd_page_simps [simp]:
  "pages (upd_page p f s) = (pages s)(p := f (pages s p))"
  "links (upd_page p f s) = links s" "nr_free (upd_page p f s) = nr_free s"
  by (simp_all add: upd_page_def)

definition default_init :: "'a pmm_scheme \<Rightarrow> 'a pmm_scheme" where
  "default_init s = s\<lparr>links := list_init free_list (links s), nr_free := 0\<rparr>"

text \<open>The initialising loop of \<^verbatim>\<open>default_init_memmap\<close> over the pages of the block.\<close>

fun init_block :: "nat \<Rightarrow> nat \<Rightarrow> (nat \<Rightarrow> page) \<Rightarrow> (nat \<Rightarrow> page) option" where
  "init_block p 0 pg = Some pg"
| "init_block p (Suc k) pg = do {
     kassert (PageReserved (pg p));
     init_block (Suc p) k (pg(p := (pg p)\<lparr>flags := 0, property := 0, ref := 0\<rparr>))
   }"

text \<open>The search for the place of a block in the list, shared by \<^verbatim>\<open>init_memmap\<close> and \<^verbatim>\<open>free_pages\<close>.
  After \<^verbatim>\<open>list_add(le, ...)\<close> at the end of the list the C loop has no \<^verbatim>\<open>break\<close>, so it goes on from
  \<open>le\<close> in the changed list.\<close>

partial_function (option) insert_loop :: "nat \<Rightarrow> nat \<Rightarrow> list_links \<Rightarrow> list_links option" where
  "insert_loop base le L =
     (let le' = list_next le L in
      if le' = free_list then Some L
      else if base < le2page le' then Some (list_add_before le' (page_link base) L)
      else if list_next le' L = free_list then insert_loop base le' (list_add le' (page_link base) L)
      else insert_loop base le' L)"

declare insert_loop.simps [code]

definition insert_free :: "nat \<Rightarrow> list_links \<Rightarrow> list_links option" where
  "insert_free base L =
     (if list_empty free_list L then Some (list_add free_list (page_link base) L)
      else insert_loop base free_list L)"

definition default_init_memmap :: "nat \<Rightarrow> nat \<Rightarrow> 'a pmm_scheme \<Rightarrow> 'a pmm_scheme option" where
  "default_init_memmap base n s = do {
     kassert (n > 0);
     pg \<leftarrow> init_block base n (pages s);
     let s1 = s\<lparr>pages := pg\<rparr>;
     let s2 = upd_page base (\<lambda>p. SetPageProperty (p\<lparr>property := n\<rparr>)) s1;
     let s3 = s2\<lparr>nr_free := nr_free s2 + n\<rparr>;
     L \<leftarrow> insert_free base (links s3);
     Some (s3\<lparr>links := L\<rparr>)
   }"

partial_function (option) first_fit :: "(nat \<Rightarrow> page) \<Rightarrow> nat \<Rightarrow> nat \<Rightarrow> list_links \<Rightarrow> nat option option" where
  "first_fit pg n le L =
     (let le' = list_next le L in
      if le' = free_list then Some None
      else if property (pg (le2page le')) \<ge> n then Some (Some (le2page le'))
      else first_fit pg n le' L)"

declare first_fit.simps [code]

text \<open>Unlinking the chosen block and giving its tail back, the second half of \<^verbatim>\<open>alloc_pages\<close>.\<close>

definition take_block :: "nat \<Rightarrow> nat \<Rightarrow> 'a pmm_scheme \<Rightarrow> 'a pmm_scheme" where
  "take_block page n s =
     (let prev = list_prev (page_link page) (links s);
          s1 = s\<lparr>links := list_del (page_link page) (links s)\<rparr>;
          s2 = (if property (pages s1 page) > n
                then let p = page + n;
                         s' = upd_page p (\<lambda>q. SetPageProperty (q\<lparr>property := property (pages s1 page) - n\<rparr>)) s1
                     in s'\<lparr>links := list_add prev (page_link p) (links s')\<rparr>
                else s1);
          s3 = s2\<lparr>nr_free := nr_free s2 - n\<rparr>
      in upd_page page ClearPageProperty s3)"

definition default_alloc_pages :: "nat \<Rightarrow> 'a pmm_scheme \<Rightarrow> (nat option \<times> 'a pmm_scheme) option" where
  "default_alloc_pages n s = do {
     kassert (n > 0);
     if n > nr_free s then Some (None, s)
     else do {
       r \<leftarrow> first_fit (pages s) n free_list (links s);
       case r of
         None \<Rightarrow> Some (None, s)
       | Some page \<Rightarrow> Some (Some page, take_block page n s)
     }
   }"

fun clear_block :: "nat \<Rightarrow> nat \<Rightarrow> (nat \<Rightarrow> page) \<Rightarrow> (nat \<Rightarrow> page) option" where
  "clear_block p 0 pg = Some pg"
| "clear_block p (Suc k) pg = do {
     kassert (\<not> PageReserved (pg p) \<and> \<not> PageProperty (pg p));
     clear_block (Suc p) k (pg(p := (pg p)\<lparr>flags := 0, ref := 0\<rparr>))
   }"

text \<open>Merging with the block before and with the block after: in both cases block \<open>p\<close> absorbs the
  block \<open>q\<close> that follows it.\<close>

definition absorb :: "nat \<Rightarrow> nat \<Rightarrow> 'a pmm_scheme \<Rightarrow> 'a pmm_scheme" where
  "absorb p q s =
     (let s1 = upd_page p (\<lambda>x. x\<lparr>property := property x + property (pages s q)\<rparr>) s;
          s2 = upd_page q ClearPageProperty s1
      in s2\<lparr>links := list_del (page_link q) (links s2)\<rparr>)"

definition merge_prev :: "nat \<Rightarrow> 'a pmm_scheme \<Rightarrow> nat \<times> 'a pmm_scheme" where
  "merge_prev base s =
     (let le = list_prev (page_link base) (links s); p = le2page le in
      if le \<noteq> free_list \<and> p + property (pages s p) = base then (p, absorb p base s) else (base, s))"

definition merge_next :: "nat \<Rightarrow> 'a pmm_scheme \<Rightarrow> 'a pmm_scheme" where
  "merge_next base s =
     (let le = list_next (page_link base) (links s); p = le2page le in
      if le \<noteq> free_list \<and> base + property (pages s base) = p then absorb base p s else s)"

definition default_free_pages :: "nat \<Rightarrow> nat \<Rightarrow> 'a pmm_scheme \<Rightarrow> 'a pmm_scheme option" where
  "default_free_pages base n s = do {
     kassert (n > 0);
     pg \<leftarrow> clear_block base n (pages s);
     let s1 = s\<lparr>pages := pg\<rparr>;
     let s2 = upd_page base (\<lambda>p. SetPageProperty (p\<lparr>property := n\<rparr>)) s1;
     let s3 = s2\<lparr>nr_free := nr_free s2 + n\<rparr>;
     L \<leftarrow> insert_free base (links s3);
     let (base', s4) = merge_prev base (s3\<lparr>links := L\<rparr>);
     Some (merge_next base' s4)
   }"

definition default_nr_free_pages :: "'a pmm_scheme \<Rightarrow> nat" where
  "default_nr_free_pages s = nr_free s"

section \<open>Well-formed free lists\<close>

text \<open>\<open>blocks s xs\<close>: the pages of the blocks headed by \<open>xs\<close>. \<open>fl_wf s xs\<close>: the free list holds
  exactly the blocks headed by \<open>xs\<close>, in address order and disjoint, every head carries
  \<^verbatim>\<open>PG_property\<close> and no other free page does, no free page is reserved, and \<^verbatim>\<open>nr_free\<close> counts the free
  pages.\<close>

definition blocks :: "'a pmm_scheme \<Rightarrow> nat list \<Rightarrow> nat set" where
  "blocks s xs = (\<Union>x \<in> set xs. {x..<x + property (pages s x)})"

definition addr_sorted :: "(nat \<Rightarrow> nat) \<Rightarrow> nat list \<Rightarrow> bool" where
  "addr_sorted sz xs \<longleftrightarrow> sorted_wrt (\<lambda>x y. x + sz x \<le> y) xs"

lemma addr_sorted_append [simp]:
  "addr_sorted sz (as @ bs) \<longleftrightarrow>
     addr_sorted sz as \<and> addr_sorted sz bs \<and> (\<forall>a \<in> set as. \<forall>b \<in> set bs. a + sz a \<le> b)"
  by (simp add: addr_sorted_def sorted_wrt_append)

lemma addr_sorted_Cons [simp]:
  "addr_sorted sz (x # xs) \<longleftrightarrow> (\<forall>y \<in> set xs. x + sz x \<le> y) \<and> addr_sorted sz xs"
  by (simp add: addr_sorted_def)

lemma addr_sorted_Nil [simp]: "addr_sorted sz []"
  by (simp add: addr_sorted_def)

lemma addr_sorted_cong:
  "\<forall>x \<in> set xs. sz' x = sz x \<Longrightarrow> addr_sorted sz' xs = addr_sorted sz xs"
  by (induction xs) auto

definition fl_wf :: "'a pmm_scheme \<Rightarrow> nat list \<Rightarrow> bool" where
  "fl_wf s xs \<longleftrightarrow>
     dll (links s) free_list (map Suc xs) \<and>
     addr_sorted (\<lambda>x. property (pages s x)) xs \<and>
     (\<forall>x \<in> set xs. 0 < property (pages s x)) \<and>
     (\<forall>q \<in> blocks s xs. \<not> PageReserved (pages s q) \<and> (PageProperty (pages s q) \<longleftrightarrow> q \<in> set xs)) \<and>
     nr_free s = sum_list (map (\<lambda>x. property (pages s x)) xs)"

lemma last_map_Suc: "last (0 # map Suc xs) = (if xs = [] then 0 else Suc (last xs))"
  by (simp add: last_map)

lemma hd_map_Suc: "hd (map Suc xs @ [0]) = (if xs = [] then 0 else Suc (hd xs))"
  by (cases xs) simp_all

lemma dll_map_distinct: "dll L 0 (map Suc xs) \<Longrightarrow> distinct xs"
  by (auto simp: dll_def distinct_map)

lemma list_next_page:
  assumes "dll L 0 (map Suc (as @ bs))"
  shows "list_next (last (0 # map Suc as)) L = hd (map Suc bs @ [0])"
proof (cases as rule: rev_cases)
  case Nil
  then show ?thesis using list_next_head [OF assms] by simp
next
  case (snoc us u)
  then show ?thesis using list_next_inner [of L 0 "map Suc us" "Suc u" "map Suc bs"] assms by simp
qed

text \<open>The search loop is \<open>find\<close> on the list of block heads.\<close>

lemma first_fit_find:
  "dll L 0 (map Suc (as @ bs)) \<Longrightarrow>
     first_fit pg n (last (0 # map Suc as)) L = Some (find (\<lambda>p. n \<le> property (pg p)) bs)"
proof (induction bs arbitrary: as)
  case Nil
  then show ?case
    using list_next_page [of L as "[]"] by (subst first_fit.simps) (simp add: Let_def)
next
  case (Cons b bs)
  from Cons.prems have "dll L 0 (map Suc ((as @ [b]) @ bs))" by simp
  from Cons.IH [OF this] have
    "first_fit pg n (Suc b) L = Some (find (\<lambda>p. n \<le> property (pg p)) bs)" by simp
  then show ?case
    using list_next_page [OF Cons.prems] by (subst first_fit.simps) (simp add: Let_def)
qed

text \<open>When some listed block lies above \<open>base\<close>, the insertion loop stops at the first one.\<close>

lemma insert_loop_before:
  "dll L 0 (map Suc (as @ bs @ z # zs)) \<Longrightarrow> \<forall>b \<in> set bs. \<not> base < b \<Longrightarrow> base < z \<Longrightarrow>
     insert_loop base (last (0 # map Suc as)) L = Some (list_add_before (Suc z) (Suc base) L)"
proof (induction bs arbitrary: as)
  case Nil
  then show ?case
    using list_next_page [of L as "z # zs"] by (subst insert_loop.simps) (simp add: Let_def)
next
  case (Cons b bs)
  from Cons.prems have d: "dll L 0 (map Suc ((as @ [b]) @ bs @ z # zs))" by simp
  from Cons.IH [OF d] Cons.prems have
    "insert_loop base (Suc b) L = Some (list_add_before (Suc z) (Suc base) L)" by simp
  moreover have "list_next (Suc b) L \<noteq> 0"
    using list_next_page [OF d] by (cases bs) simp_all
  ultimately show ?case
    using list_next_page [of L as "b # bs @ z # zs"] Cons.prems
    by (subst insert_loop.simps) (simp add: Let_def)
qed

lemma insert_free_spec:
  assumes d: "dll L 0 (map Suc xs)" and "xs = [] \<or> base < last xs" and "base \<notin> set xs"
  obtains as bs L' where "xs = as @ bs" "\<forall>a \<in> set as. \<not> base < a" "bs \<noteq> [] \<longrightarrow> base < hd bs"
    "xs \<noteq> [] \<longrightarrow> bs \<noteq> []"
    "insert_free base L = Some L'" "dll L' 0 (map Suc (as @ base # bs))"
proof (cases "xs = []")
  case True
  then show ?thesis
    using that [of "[]" "[]"] d list_add_dll [OF d, of "Suc base"] list_empty_dll [OF d]
    by (simp add: insert_free_def)
next
  case False
  with assms(2) have "\<exists>z \<in> set xs. base < z" by (auto intro: bexI [of _ "last xs"])
  then obtain as z zs where xs: "xs = as @ z # zs" "base < z" "\<forall>a \<in> set as. \<not> base < a"
    using split_list_first_prop [of xs "\<lambda>z. base < z"] by blast
  have "insert_loop base 0 L = Some (list_add_before (Suc z) (Suc base) L)"
    using insert_loop_before [of L "[]" as z zs base] d xs by simp
  moreover have "\<not> list_empty 0 L" using False list_empty_dll [OF d] by simp
  moreover have "dll (list_add_before (Suc z) (Suc base) L) 0 (map Suc (as @ base # z # zs))"
    using list_add_before_at_dll [of L 0 "map Suc as" "map Suc (z # zs)" "Suc base"] d xs assms(3)
    by auto
  ultimately show ?thesis using that [of as "z # zs"] xs by (simp add: insert_free_def)
qed

section \<open>Allocation\<close>

text \<open>What a chosen block may look like inside the list, and how \<open>blocks\<close> splits around it.\<close>

lemma blocks_append [simp]: "blocks s (as @ bs) = blocks s as \<union> blocks s bs"
  by (auto simp: blocks_def)

lemma blocks_Cons [simp]: "blocks s (x # xs) = {x..<x + property (pages s x)} \<union> blocks s xs"
  by (auto simp: blocks_def)

lemma blocks_Nil [simp]: "blocks s [] = {}"
  by (simp add: blocks_def)

lemma blocks_cong:
  "\<forall>x \<in> set xs. property (pages s' x) = property (pages s x) \<Longrightarrow> blocks s' xs = blocks s xs"
  by (simp add: blocks_def)

lemma fl_wf_heads: "fl_wf s xs \<Longrightarrow> set xs \<subseteq> blocks s xs"
  by (force simp: fl_wf_def blocks_def)

lemma sorted_blocks_below:
  "addr_sorted (\<lambda>x. property (pages s x)) (as @ p # bs) \<Longrightarrow> q \<in> blocks s as \<Longrightarrow> q < p"
  by (auto simp: blocks_def)

lemma sorted_blocks_above:
  "addr_sorted (\<lambda>x. property (pages s x)) (as @ p # bs) \<Longrightarrow> q \<in> blocks s bs \<Longrightarrow>
     p + property (pages s p) \<le> q"
  by (auto simp: blocks_def)

lemma fl_wf_finite: "finite (blocks s xs)"
  by (simp add: blocks_def)

lemma card_blocks:
  "addr_sorted (\<lambda>x. property (pages s x)) xs \<Longrightarrow>
     card (blocks s xs) = sum_list (map (\<lambda>x. property (pages s x)) xs)"
proof (induction xs)
  case (Cons x xs)
  have "{x..<x + property (pages s x)} \<inter> blocks s xs = {}"
    using sorted_blocks_above [of s "[]" x xs] Cons.prems by force
  then show ?case using Cons by (simp add: card_Un_disjoint fl_wf_finite)
qed simp

lemma fl_wf_nr_free: "fl_wf s xs \<Longrightarrow> nr_free s = card (blocks s xs)"
  by (simp add: fl_wf_def card_blocks)

text \<open>Taking \<open>n\<close> pages off the front of a listed block removes exactly those pages from the free set
  and keeps the list well formed. This serves every fit policy.\<close>

lemma take_block_wf:
  assumes wf: "fl_wf s xs" and p: "p \<in> set xs" and n: "0 < n" "n \<le> property (pages s p)"
  shows "\<exists>xs'. fl_wf (take_block p n s) xs' \<and>
    blocks (take_block p n s) xs' = blocks s xs - {p..<p + n}"
proof -
  obtain as bs where xs: "xs = as @ p # bs" using p by (meson split_list)
  let ?L = "list_del (Suc p) (links s)"
  let ?t = "take_block p n s"
  have srt: "addr_sorted (\<lambda>x. property (pages s x)) (as @ p # bs)"
    and d: "dll (links s) 0 (map Suc as @ Suc p # map Suc bs)"
    and pos: "\<forall>x \<in> set xs. 0 < property (pages s x)"
    and fl: "\<forall>q \<in> blocks s xs. \<not> PageReserved (pages s q) \<and> (PageProperty (pages s q) \<longleftrightarrow> q \<in> set xs)"
    and nr: "nr_free s = sum_list (map (\<lambda>x. property (pages s x)) xs)"
    using wf xs by (auto simp: fl_wf_def)
  have dist: "distinct (as @ p # bs)" using d by (intro dll_map_distinct [of "links s"]) simp
  have dL: "dll ?L 0 (map Suc as @ map Suc bs)" by (rule list_del_at_dll [OF d])
  have below: "\<And>q. q \<in> blocks s as \<Longrightarrow> q < p" by (rule sorted_blocks_below [OF srt])
  have above: "\<And>q. q \<in> blocks s bs \<Longrightarrow> p + property (pages s p) \<le> q" by (rule sorted_blocks_above [OF srt])
  have hds: "set as \<subseteq> blocks s as" "set bs \<subseteq> blocks s bs" using pos xs by (force simp: blocks_def)+
  show ?thesis
  proof (cases "property (pages s p) > n")
    case False
    then have n': "property (pages s p) = n" using n by simp
    have t: "?t = upd_page p ClearPageProperty (s\<lparr>links := ?L, nr_free := nr_free s - n\<rparr>)"
      using n' by (simp add: take_block_def Let_def)
    have pr: "property (pages ?t x) = property (pages s x)" for x
      by (simp add: t)
    have bl: "blocks ?t (as @ bs) = blocks s (as @ bs)"
      by (rule blocks_cong) (simp add: pr)
    have "blocks s (as @ bs) = blocks s xs - {p..<p + n}"
      using below above n' xs by fastforce
    moreover have "fl_wf ?t (as @ bs)"
      unfolding fl_wf_def bl
    proof (intro conjI ballI)
      show "dll (links ?t) free_list (map Suc (as @ bs))" using dL by (simp add: t)
      show "addr_sorted (\<lambda>x. property (pages ?t x)) (as @ bs)"
        using srt by (auto simp: pr)
      show "nr_free ?t = (\<Sum>x\<leftarrow>as @ bs. property (pages ?t x))"
        using nr n' xs by (simp add: pr) (simp add: t)
    next
      fix x assume "x \<in> set (as @ bs)"
      then show "0 < property (pages ?t x)" using pos xs by (auto simp: t)
    next
      fix q assume q: "q \<in> blocks s (as @ bs)"
      then have "q \<noteq> p" using below above n by force
      then show "\<not> PageReserved (pages ?t q)" "PageProperty (pages ?t q) \<longleftrightarrow> q \<in> set (as @ bs)"
        using fl q xs by (auto simp: t)
    qed
    ultimately show ?thesis using bl by metis
  next
    case True
    let ?L' = "list_add (last (0 # map Suc as)) (Suc (p + n)) ?L"
    let ?r = "property (pages s p) - n"
    have prev: "list_prev (Suc p) (links s) = last (0 # map Suc as)"
      by (rule list_prev_inner [OF d])
    have t: "?t = upd_page p ClearPageProperty (upd_page (p + n)
         (\<lambda>q. SetPageProperty (q\<lparr>property := ?r\<rparr>)) (s\<lparr>links := ?L', nr_free := nr_free s - n\<rparr>))"
      using True prev by (simp add: take_block_def Let_def upd_page_def)
    have pn: "p + n \<notin> set as" "p + n \<notin> set bs"
      using below above hds True by force+
    have dL': "dll ?L' 0 (map Suc as @ Suc (p + n) # map Suc bs)"
      by (rule list_add_at_dll [OF dL]) (use pn in auto)
    have bl: "blocks ?t (as @ (p + n) # bs) = blocks s as \<union> {p + n..<p + property (pages s p)} \<union> blocks s bs"
    proof -
      have "blocks ?t as = blocks s as" "blocks ?t bs = blocks s bs"
        using pn dist by (auto intro!: blocks_cong simp: t)
      then show ?thesis using True n by (auto simp: t)
    qed
    have eq: "blocks ?t (as @ (p + n) # bs) = blocks s xs - {p..<p + n}"
      unfolding bl using below above True xs by fastforce
    moreover have "fl_wf ?t (as @ (p + n) # bs)"
      unfolding fl_wf_def eq
    proof (intro conjI ballI)
      show "dll (links ?t) free_list (map Suc (as @ (p + n) # bs))" using dL' by (simp add: t)
      show "addr_sorted (\<lambda>x. property (pages ?t x)) (as @ (p + n) # bs)"
        using srt dist pn True n by (fastforce simp: t intro: addr_sorted_cong [THEN iffD1, rotated])
      have "(\<Sum>x\<leftarrow>as. property (pages ?t x)) = (\<Sum>x\<leftarrow>as. property (pages s x))"
        "(\<Sum>x\<leftarrow>bs. property (pages ?t x)) = (\<Sum>x\<leftarrow>bs. property (pages s x))"
        using pn dist by (auto intro!: arg_cong [where f = sum_list] simp: t)
      then show "nr_free ?t = (\<Sum>x\<leftarrow>as @ (p + n) # bs. property (pages ?t x))"
        using nr xs True n by (simp add: t)
    next
      fix x assume "x \<in> set (as @ (p + n) # bs)"
      then show "0 < property (pages ?t x)" using pos xs True by (auto simp: t)
    next
      fix q assume q: "q \<in> blocks s xs - {p..<p + n}"
      then have "q \<noteq> p" using n by auto
      moreover have "p + n \<in> blocks s xs" using xs True by auto
      ultimately show "\<not> PageReserved (pages ?t q)"
        "PageProperty (pages ?t q) \<longleftrightarrow> q \<in> set (as @ (p + n) # bs)"
        using fl q xs n by (auto simp: t)
    qed
    ultimately show ?thesis by blast
  qed
qed

text \<open>\<^verbatim>\<open>default_alloc_pages\<close> takes the first listed block that is large enough; the early test of
  \<^verbatim>\<open>nr_free\<close> only cuts short searches that fail.\<close>

lemma property_le_nr_free: "fl_wf s xs \<Longrightarrow> x \<in> set xs \<Longrightarrow> property (pages s x) \<le> nr_free s"
  by (simp add: fl_wf_def member_le_sum_list)

lemma first_fit_head: "fl_wf s xs \<Longrightarrow>
    first_fit (pages s) n 0 (links s) = Some (find (\<lambda>p. n \<le> property (pages s p)) xs)"
  using first_fit_find [of "links s" "[]" xs "pages s" n] by (simp add: fl_wf_def)

lemma default_alloc_find:
  assumes "fl_wf s xs" "0 < n"
  shows "default_alloc_pages n s =
    Some (case find (\<lambda>p. n \<le> property (pages s p)) xs of
            None \<Rightarrow> (None, s) | Some p \<Rightarrow> (Some p, take_block p n s))"
proof (cases "n > nr_free s")
  case True
  then have "find (\<lambda>p. n \<le> property (pages s p)) xs = None"
    using property_le_nr_free [OF assms(1)] by (fastforce simp: find_None_iff)
  then show ?thesis using True assms(2) by (simp add: default_alloc_pages_def)
next
  case False
  then show ?thesis using assms first_fit_head [OF assms(1), of n]
    by (simp add: default_alloc_pages_def split: option.split)
qed

section \<open>Release\<close>

lemma clear_block_Some:
  "clear_block p k pg = Some pg' \<longleftrightarrow>
     (\<forall>q \<in> {p..<p + k}. \<not> PageReserved (pg q) \<and> \<not> PageProperty (pg q)) \<and>
     pg' = upd_range (\<lambda>x. x\<lparr>flags := 0, ref := 0\<rparr>) p k pg"
proof (induction k arbitrary: p pg)
  case (Suc k)
  show ?case
    unfolding clear_block.simps kassert_bind_Some Suc.IH upd_range_Suc [of "\<lambda>x. x\<lparr>flags := 0, ref := 0\<rparr>"] range_Suc
    by auto
qed auto

lemma init_block_Some:
  "init_block p k pg = Some pg' \<longleftrightarrow>
     (\<forall>q \<in> {p..<p + k}. PageReserved (pg q)) \<and>
     pg' = upd_range (\<lambda>x. x\<lparr>flags := 0, property := 0, ref := 0\<rparr>) p k pg"
proof (induction k arbitrary: p pg)
  case (Suc k)
  show ?case
    unfolding init_block.simps kassert_bind_Some Suc.IH
      upd_range_Suc [of "\<lambda>x. x\<lparr>flags := 0, property := 0, ref := 0\<rparr>"] range_Suc
    by auto
qed auto

text \<open>Linking a block of fresh pages in its place. \<open>s'\<close> is the state after the loop over the pages and
  the assignments to the head, before the list operation. The block must not go behind the last
  listed one, see \<open>tail_insert_alloc_twice\<close>.\<close>

lemma insert_free_wf:
  assumes wf: "fl_wf s xs" and n: "0 < n" and fresh: "{base..<base + n} \<inter> blocks s xs = {}"
    and pos: "xs = [] \<or> base < last xs"
    and out: "\<forall>q. q \<notin> {base..<base + n} \<longrightarrow> pages s' q = pages s q"
    and inn: "\<forall>q \<in> {base..<base + n}. \<not> PageReserved (pages s' q) \<and> (PageProperty (pages s' q) \<longleftrightarrow> q = base)"
    and hd: "property (pages s' base) = n"
    and lk: "links s' = links s" and nr: "nr_free s' = nr_free s + n"
  obtains as bs L where "xs = as @ bs" "insert_free base (links s') = Some L"
    "fl_wf (s'\<lparr>links := L\<rparr>) (as @ base # bs)"
    "blocks (s'\<lparr>links := L\<rparr>) (as @ base # bs) = blocks s xs \<union> {base..<base + n}"
    "\<forall>x \<in> set xs. property (pages s' x) = property (pages s x)"
proof -
  have hds: "set xs \<subseteq> blocks s xs" by (rule fl_wf_heads [OF wf])
  have d: "dll (links s) 0 (map Suc xs)" using wf by (simp add: fl_wf_def)
  have nb: "base \<notin> set xs" using fresh n hds by fastforce
  obtain as bs L where L: "xs = as @ bs" "\<forall>a \<in> set as. \<not> base < a" "bs \<noteq> [] \<longrightarrow> base < hd bs"
    "insert_free base (links s) = Some L" "dll L 0 (map Suc (as @ base # bs))"
    using insert_free_spec [OF d pos nb] by metis
  have pr: "property (pages s' x) = property (pages s x)" if "x \<in> set xs" for x
    using out hds fresh that by (metis disjoint_iff subsetD)
  have bl: "blocks (s'\<lparr>links := L\<rparr>) (as @ base # bs) = blocks s xs \<union> {base..<base + n}"
    using pr hd L(1) by (auto simp: blocks_def)
  have srt: "addr_sorted (\<lambda>x. property (pages s x)) (as @ bs)" using wf L(1) by (simp add: fl_wf_def)
  have ps: "\<forall>x \<in> set xs. 0 < property (pages s x)" using wf by (simp add: fl_wf_def)
  have 1: "a + property (pages s a) \<le> base" if "a \<in> set as" for a
  proof (rule ccontr)
    assume "\<not> a + property (pages s a) \<le> base"
    then have "base \<in> blocks s xs" using that L(1,2) by (force simp: blocks_def)
    then show False using fresh n by (auto simp: disjoint_iff)
  qed
  have 2: "base + n \<le> b" if "b \<in> set bs" for b
  proof -
    have "hd bs \<in> set xs" "base < hd bs" "hd bs \<le> b"
      using that L(1,3) srt by (cases bs; auto)+
    moreover have "hd bs \<notin> {base..<base + n}" using calculation(1) fresh hds by blast
    ultimately show ?thesis by simp
  qed
  have "fl_wf (s'\<lparr>links := L\<rparr>) (as @ base # bs)"
    unfolding fl_wf_def bl
  proof (intro conjI ballI)
    show "addr_sorted (\<lambda>x. property (pages (s'\<lparr>links := L\<rparr>) x)) (as @ base # bs)"
      using srt 1 2 pr hd L(1) by (auto cong: addr_sorted_cong)
        (auto intro: addr_sorted_cong [THEN iffD1, rotated])
    have "(\<Sum>x\<leftarrow>as. property (pages s' x)) = (\<Sum>x\<leftarrow>as. property (pages s x))"
      "(\<Sum>x\<leftarrow>bs. property (pages s' x)) = (\<Sum>x\<leftarrow>bs. property (pages s x))"
      using pr L(1) by (auto intro!: arg_cong [where f = sum_list])
    then show "nr_free (s'\<lparr>links := L\<rparr>) = (\<Sum>x\<leftarrow>as @ base # bs. property (pages (s'\<lparr>links := L\<rparr>) x))"
      using wf L(1) nr hd by (simp add: fl_wf_def)
  next
    fix x assume "x \<in> set (as @ base # bs)"
    then show "0 < property (pages (s'\<lparr>links := L\<rparr>) x)" using ps pr hd n L(1) by auto
  next
    fix q assume q: "q \<in> blocks s xs \<union> {base..<base + n}"
    have "\<not> PageReserved (pages s' q) \<and> (PageProperty (pages s' q) \<longleftrightarrow> q \<in> insert base (set xs))"
    proof (cases "q \<in> {base..<base + n}")
      case True
      then have "q \<notin> set xs" using fresh hds by blast
      then show ?thesis using inn True by simp
    next
      case False
      then have "q \<in> blocks s xs" "pages s' q = pages s q" "q \<noteq> base" using q out n by auto
      then show ?thesis using wf by (simp add: fl_wf_def)
    qed
    then show "\<not> PageReserved (pages (s'\<lparr>links := L\<rparr>) q)"
      "PageProperty (pages (s'\<lparr>links := L\<rparr>) q) \<longleftrightarrow> q \<in> set (as @ base # bs)"
      using L(1) by auto
  qed (use L(5) in simp)
  then show ?thesis using that L(1,4) lk bl pr by auto
qed

lemma absorb_wf:
  assumes wf: "fl_wf s (as @ p # q # bs)" and adj: "p + property (pages s p) = q"
  shows "fl_wf (absorb p q s) (as @ p # bs)"
    and "blocks (absorb p q s) (as @ p # bs) = blocks s (as @ p # q # bs)"
proof -
  let ?s = "absorb p q s" and ?xs = "as @ p # q # bs"
  have d: "dll (links s) 0 (map Suc (as @ [p]) @ Suc q # map Suc bs)"
    and srt: "addr_sorted (\<lambda>x. property (pages s x)) ?xs"
    and pos: "\<forall>x \<in> set ?xs. 0 < property (pages s x)"
    and fl: "\<forall>r \<in> blocks s ?xs. \<not> PageReserved (pages s r) \<and> (PageProperty (pages s r) \<longleftrightarrow> r \<in> set ?xs)"
    and nr: "nr_free s = (\<Sum>x\<leftarrow>?xs. property (pages s x))"
    using wf by (simp_all add: fl_wf_def)
  have dist: "distinct ?xs" using d by (intro dll_map_distinct [of "links s"]) simp
  have pg: "pages ?s = (pages s)(p := (pages s p)\<lparr>property := property (pages s p) + property (pages s q)\<rparr>,
      q := ClearPageProperty (pages s q))"
    and lk: "links ?s = list_del (Suc q) (links s)" and nr': "nr_free ?s = nr_free s"
    using dist by (auto simp: absorb_def Let_def)
  have other: "pages ?s x = pages s x" if "x \<in> set as \<union> set bs" for x
    using that dist by (auto simp: pg)
  have pp: "property (pages ?s p) = property (pages s p) + property (pages s q)"
    using dist by (simp add: pg)
  have "blocks ?s as = blocks s as" "blocks ?s bs = blocks s bs" 
    by (rule blocks_cong, use other in simp)+
  moreover have "{p..<p + (property (pages s p) + property (pages s q))} =
      {p..<p + property (pages s p)} \<union> {q..<q + property (pages s q)}"
    using adj by auto
  ultimately show bl: "blocks ?s (as @ p # bs) = blocks s ?xs" by (simp add: pp Un_assoc)
  have qx: "q \<in> blocks s ?xs" using pos by auto
  show "fl_wf ?s (as @ p # bs)"
    unfolding fl_wf_def bl
  proof (intro conjI ballI)
    show "dll (links ?s) free_list (map Suc (as @ p # bs))" using list_del_at_dll [OF d] by (simp add: lk)
    have "addr_sorted (\<lambda>x. property (pages ?s x)) as = addr_sorted (\<lambda>x. property (pages s x)) as"
      "addr_sorted (\<lambda>x. property (pages ?s x)) bs = addr_sorted (\<lambda>x. property (pages s x)) bs"
      by (rule addr_sorted_cong, use other in simp)+
    then show "addr_sorted (\<lambda>x. property (pages ?s x)) (as @ p # bs)"
      using srt adj other pp by (auto simp: add.assoc)
    have "(\<Sum>x\<leftarrow>as. property (pages ?s x)) = (\<Sum>x\<leftarrow>as. property (pages s x))"
      "(\<Sum>x\<leftarrow>bs. property (pages ?s x)) = (\<Sum>x\<leftarrow>bs. property (pages s x))"
      using other by (auto intro!: arg_cong [where f = sum_list])
    then show "nr_free ?s = (\<Sum>x\<leftarrow>as @ p # bs. property (pages ?s x))" using nr pp by (simp add: nr')
  next
    fix x assume "x \<in> set (as @ p # bs)"
    then show "0 < property (pages ?s x)" using pos other pp by auto
  next
    fix r assume "r \<in> blocks s ?xs"
    then show "\<not> PageReserved (pages ?s r)" "PageProperty (pages ?s r) \<longleftrightarrow> r \<in> set (as @ p # bs)"
      using fl dist qx by (auto simp: pg)
  qed
qed

lemma merge_next_wf:
  assumes wf: "fl_wf s (as @ base # bs)"
  obtains bs' where "fl_wf (merge_next base s) (as @ base # bs')"
    "blocks (merge_next base s) (as @ base # bs') = blocks s (as @ base # bs)"
proof (cases bs)
  case Nil
  have "list_next (Suc base) (links s) = 0"
    using wf Nil list_next_inner [of "links s" 0 "map Suc as" "Suc base" "[]"] by (simp add: fl_wf_def)
  then show ?thesis using that wf by (simp add: merge_next_def)
next
  case (Cons q bs')
  have nx: "list_next (Suc base) (links s) = Suc q"
    using wf Cons list_next_inner [of "links s" 0 "map Suc as" "Suc base" "Suc q # map Suc bs'"]
    by (simp add: fl_wf_def)
  show ?thesis
  proof (cases "base + property (pages s base) = q")
    case True
    then show ?thesis using that absorb_wf [of s as base q bs'] wf nx Cons by (simp add: merge_next_def)
  next
    case False
    then show ?thesis using that wf nx Cons by (simp add: merge_next_def)
  qed
qed

lemma merge_prev_wf:
  assumes wf: "fl_wf s (as @ base # bs)"
  obtains b s' as' where "merge_prev base s = (b, s')" "fl_wf s' (as' @ b # bs)"
    "blocks s' (as' @ b # bs) = blocks s (as @ base # bs)"
proof (cases as rule: rev_cases)
  case Nil
  have "list_prev (Suc base) (links s) = 0"
    using wf Nil list_prev_inner [of "links s" 0 "[]" "Suc base" "map Suc bs"] by (simp add: fl_wf_def)
  then show ?thesis using that wf by (simp add: merge_prev_def)
next
  case (snoc us u)
  have pv: "list_prev (Suc base) (links s) = Suc u"
    using wf snoc list_prev_inner [of "links s" 0 "map Suc (us @ [u])" "Suc base" "map Suc bs"]
    by (simp add: fl_wf_def)
  show ?thesis
  proof (cases "u + property (pages s u) = base")
    case True
    then show ?thesis using that absorb_wf [of s us u base bs] wf pv snoc by (simp add: merge_prev_def)
  next
    case False
    then have "merge_prev base s = (base, s)" using pv by (simp add: merge_prev_def)
    then show ?thesis using that [of base s as] wf by simp
  qed
qed

text \<open>The release of a block: it succeeds, and adds exactly its pages to the free set.\<close>

definition releasable :: "nat \<Rightarrow> nat \<Rightarrow> 'a pmm_scheme \<Rightarrow> bool" where
  "releasable base n s \<longleftrightarrow> (\<forall>q \<in> {base..<base + n}. \<not> PageReserved (pages s q) \<and> \<not> PageProperty (pages s q))"

lemma default_free_wf:
  assumes wf: "fl_wf s xs" and n: "0 < n" and fresh: "{base..<base + n} \<inter> blocks s xs = {}"
    and pos: "xs = [] \<or> base < last xs" and rel: "releasable base n s"
  obtains s' xs' where "default_free_pages base n s = Some s'" "fl_wf s' xs'"
    "blocks s' xs' = blocks s xs \<union> {base..<base + n}"
proof -
  let ?pg = "upd_range (\<lambda>x. x\<lparr>flags := 0, ref := 0\<rparr>) base n (pages s)"
  let ?s2 = "upd_page base (\<lambda>p. SetPageProperty (p\<lparr>property := n\<rparr>)) (s\<lparr>pages := ?pg\<rparr>)"
  let ?s3 = "?s2\<lparr>nr_free := nr_free ?s2 + n\<rparr>"
  obtain as bs L where L: "insert_free base (links ?s3) = Some L"
    "fl_wf (?s3\<lparr>links := L\<rparr>) (as @ base # bs)"
    "blocks (?s3\<lparr>links := L\<rparr>) (as @ base # bs) = blocks s xs \<union> {base..<base + n}"
    by (rule insert_free_wf [OF wf n fresh pos, where s' = ?s3])
      (use n in \<open>auto simp: upd_range_apply PageReserved_def PageProperty_def SetPageProperty_def bit_set_bit_iff\<close>)
  obtain b s4 as' where m: "merge_prev base (?s3\<lparr>links := L\<rparr>) = (b, s4)" "fl_wf s4 (as' @ b # bs)"
    "blocks s4 (as' @ b # bs) = blocks (?s3\<lparr>links := L\<rparr>) (as @ base # bs)"
    using merge_prev_wf [OF L(2)] by metis
  obtain bs' where m': "fl_wf (merge_next b s4) (as' @ b # bs')"
    "blocks (merge_next b s4) (as' @ b # bs') = blocks s4 (as' @ b # bs)"
    using merge_next_wf [OF m(2)] by metis
  have "clear_block base n (pages s) = Some ?pg"
    using rel by (simp add: clear_block_Some releasable_def)
  then have "default_free_pages base n s = Some (merge_next b s4)"
    using n L(1) m(1) by (simp add: default_free_pages_def)
  then show ?thesis using that m' m(3) L(3) by simp
qed

lemma default_init_memmap_wf:
  assumes wf: "fl_wf s xs" and n: "0 < n" and fresh: "{base..<base + n} \<inter> blocks s xs = {}"
    and pos: "xs = [] \<or> base < last xs" and res: "\<forall>q \<in> {base..<base + n}. PageReserved (pages s q)"
  obtains s' xs' where "default_init_memmap base n s = Some s'" "fl_wf s' xs'"
    "blocks s' xs' = blocks s xs \<union> {base..<base + n}"
proof -
  let ?pg = "upd_range (\<lambda>x. x\<lparr>flags := 0, property := 0, ref := 0\<rparr>) base n (pages s)"
  let ?s2 = "upd_page base (\<lambda>p. SetPageProperty (p\<lparr>property := n\<rparr>)) (s\<lparr>pages := ?pg\<rparr>)"
  let ?s3 = "?s2\<lparr>nr_free := nr_free ?s2 + n\<rparr>"
  obtain as bs L where L: "insert_free base (links ?s3) = Some L"
    "fl_wf (?s3\<lparr>links := L\<rparr>) (as @ base # bs)"
    "blocks (?s3\<lparr>links := L\<rparr>) (as @ base # bs) = blocks s xs \<union> {base..<base + n}"
    by (rule insert_free_wf [OF wf n fresh pos, where s' = ?s3])
      (use n in \<open>auto simp: upd_range_apply PageReserved_def PageProperty_def SetPageProperty_def bit_set_bit_iff\<close>)
  have "init_block base n (pages s) = Some ?pg" using res by (simp add: init_block_Some)
  then have "default_init_memmap base n s = Some (?s3\<lparr>links := L\<rparr>)"
    using n L(1) by (simp add: default_init_memmap_def)
  then show ?thesis using that L by simp
qed

section \<open>Frame conditions\<close>

text \<open>No operation touches the descriptor of a page that is neither free nor in its block.\<close>

lemma take_block_frame:
  assumes "fl_wf s xs" "p \<in> set xs" "0 < n" "q \<notin> blocks s xs"
  shows "pages (take_block p n s) q = pages s q"
proof -
  have "p \<in> blocks s xs" using assms fl_wf_heads by blast
  moreover have "p + n \<in> blocks s xs" if "n < property (pages s p)"
    using assms(2) that unfolding blocks_def by (intro UN_I [of p]) auto
  ultimately show ?thesis using assms(4) by (auto simp: take_block_def Let_def)
qed

lemma releasable_cong:
  "\<forall>r \<in> {q..<q + m}. pages s' r = pages s r \<Longrightarrow> releasable q m s' = releasable q m s"
  by (simp add: releasable_def)

lemma take_block_releasable:
  assumes wf: "fl_wf s xs" and p: "p \<in> set xs" and n: "0 < n" "n \<le> property (pages s p)"
  shows "releasable p n (take_block p n s)"
proof -
  have *: "\<not> PageReserved (pages s q) \<and> (PageProperty (pages s q) \<longleftrightarrow> q = p)" if "q \<in> {p..<p + n}" for q
  proof -
    have b: "q \<in> blocks s xs" using p n that by (force simp: blocks_def)
    obtain as bs where xs: "xs = as @ p # bs" using p by (meson split_list)
    have "q = p" if qx: "q \<in> set xs"
    proof (rule ccontr)
      assume "q \<noteq> p"
      then consider "q \<in> set as" | "q \<in> set bs" using qx xs \<open>q \<noteq> p\<close> by auto
      moreover have "addr_sorted (\<lambda>x. property (pages s x)) (as @ p # bs)"
        using wf xs by (simp add: fl_wf_def)
      moreover have "0 < property (pages s q)" using wf qx unfolding fl_wf_def by blast
      ultimately show False using \<open>q \<in> {p..<p + n}\<close> n by cases force+
    qed
    then show ?thesis using wf b p by (auto simp: fl_wf_def)
  qed
  then show ?thesis using n by (auto simp: releasable_def take_block_def Let_def)
qed

lemma absorb_frame: "q \<noteq> a \<Longrightarrow> q \<noteq> b \<Longrightarrow> pages (absorb a b s) q = pages s q"
  by (simp add: absorb_def Let_def)

lemma merge_prev_frame:
  assumes "fl_wf s (as @ base # bs)" "q \<notin> blocks s (as @ base # bs)" "merge_prev base s = (b, s')"
  shows "pages s' q = pages s q"
proof -
  let ?p = "list_prev (Suc base) (links s)"
  have "?p = last (0 # map Suc as)"
    using assms(1) list_prev_inner [of "links s" 0 "map Suc as" "Suc base" "map Suc bs"]
    by (simp add: fl_wf_def)
  then have "?p \<noteq> 0 \<Longrightarrow> ?p - 1 \<in> set as" by (cases as rule: rev_cases) auto
  moreover have "set (as @ base # bs) \<subseteq> blocks s (as @ base # bs)" by (rule fl_wf_heads [OF assms(1)])
  ultimately have "?p \<noteq> 0 \<Longrightarrow> q \<noteq> ?p - 1" "q \<noteq> base" using assms(2) by auto
  then show ?thesis using assms(3) by (auto simp: merge_prev_def absorb_frame Let_def split: if_splits)
qed

lemma merge_next_frame:
  assumes "fl_wf s (as @ base # bs)" "q \<notin> blocks s (as @ base # bs)"
  shows "pages (merge_next base s) q = pages s q"
proof -
  let ?p = "list_next (Suc base) (links s)"
  have "?p = hd (map Suc bs @ [0])"
    using assms(1) list_next_inner [of "links s" 0 "map Suc as" "Suc base" "map Suc bs"]
    by (simp add: fl_wf_def)
  then have "?p \<noteq> 0 \<Longrightarrow> ?p - 1 \<in> set bs" by (cases bs) auto
  moreover have "set (as @ base # bs) \<subseteq> blocks s (as @ base # bs)" by (rule fl_wf_heads [OF assms(1)])
  ultimately have "?p \<noteq> 0 \<Longrightarrow> q \<noteq> ?p - 1" "q \<noteq> base" using assms(2) by auto
  then show ?thesis by (auto simp: merge_next_def absorb_frame Let_def)
qed

lemma default_free_frame:
  assumes wf: "fl_wf s xs" and n: "0 < n" and fresh: "{base..<base + n} \<inter> blocks s xs = {}"
    and pos: "xs = [] \<or> base < last xs" and rel: "releasable base n s"
    and q: "q \<notin> {base..<base + n}" "q \<notin> blocks s xs" and f: "default_free_pages base n s = Some s'"
  shows "pages s' q = pages s q"
proof -
  let ?pg = "upd_range (\<lambda>x. x\<lparr>flags := 0, ref := 0\<rparr>) base n (pages s)"
  let ?s2 = "upd_page base (\<lambda>p. SetPageProperty (p\<lparr>property := n\<rparr>)) (s\<lparr>pages := ?pg\<rparr>)"
  let ?s3 = "?s2\<lparr>nr_free := nr_free ?s2 + n\<rparr>"
  obtain as bs L where L: "insert_free base (links ?s3) = Some L"
    "fl_wf (?s3\<lparr>links := L\<rparr>) (as @ base # bs)"
    "blocks (?s3\<lparr>links := L\<rparr>) (as @ base # bs) = blocks s xs \<union> {base..<base + n}"
    by (rule insert_free_wf [OF wf n fresh pos, where s' = ?s3])
      (use n in \<open>auto simp: upd_range_apply PageReserved_def PageProperty_def SetPageProperty_def bit_set_bit_iff\<close>)
  obtain b s4 as' where m: "merge_prev base (?s3\<lparr>links := L\<rparr>) = (b, s4)" "fl_wf s4 (as' @ b # bs)"
    "blocks s4 (as' @ b # bs) = blocks (?s3\<lparr>links := L\<rparr>) (as @ base # bs)"
    using merge_prev_wf [OF L(2)] by metis
  have "clear_block base n (pages s) = Some ?pg"
    using rel by (simp add: clear_block_Some releasable_def)
  then have s': "s' = merge_next b s4"
    using f n L(1) m(1) by (simp add: default_free_pages_def)
  have "pages s4 q = pages (?s3\<lparr>links := L\<rparr>) q"
    by (rule merge_prev_frame [OF L(2) _ m(1)]) (use L(3) q in auto)
  moreover have "pages s' q = pages s4 q" unfolding s'
    by (rule merge_next_frame [OF m(2)]) (use L(3) m(3) q in auto)
  ultimately show ?thesis using q n by (auto simp: upd_range_apply)
qed

section \<open>The manager\<close>

definition default_pmm_manager :: "pmm pmm_manager" where
  "default_pmm_manager = \<lparr>mgr_init = default_init, mgr_init_memmap = default_init_memmap,
     mgr_alloc_pages = default_alloc_pages, mgr_free_pages = default_free_pages,
     mgr_nr_free_pages = default_nr_free_pages\<rparr>"

text \<open>The free set of a well-formed state, and the place condition of the release: some listed block
  lies above the one given back.\<close>

definition pmm_inv :: "'a pmm_scheme \<Rightarrow> nat set \<Rightarrow> bool" where
  "pmm_inv s F \<longleftrightarrow> (\<exists>xs. fl_wf s xs \<and> blocks s xs = F)"

definition below_last :: "nat \<Rightarrow> 'a pmm_scheme \<Rightarrow> bool" where
  "below_last base s \<longleftrightarrow>
     list_empty free_list (links s) \<or> base < le2page (list_prev free_list (links s))"

lemma below_last_conv: "fl_wf s xs \<Longrightarrow> below_last base s \<longleftrightarrow> xs = [] \<or> base < last xs"
  using list_prev_head [of "links s" 0 "map Suc xs"] list_empty_dll [of "links s" 0 "map Suc xs"]
  by (cases "xs = []") (simp_all add: fl_wf_def below_last_def last_map)

lemma find_SomeE:
  assumes "find P xs = Some x" shows "x \<in> set xs" "P x"
  using assms by (auto simp: find_Some_iff)

text \<open>The laws that hold for every fit policy: what is given out is the front of a listed block.\<close>

lemma take_block_laws:
  assumes wf: "fl_wf s xs" and p: "p \<in> set xs" and n: "0 < n" "n \<le> property (pages s p)"
  shows "{p..<p + n} \<subseteq> blocks s xs"
    and "pmm_inv (take_block p n s) (blocks s xs - {p..<p + n})"
    and "releasable p n (take_block p n s)"
    and "releasable q m s \<Longrightarrow> {q..<q + m} \<inter> blocks s xs = {} \<Longrightarrow> releasable q m (take_block p n s)"
proof -
  have "{p..<p + n} \<subseteq> {p..<p + property (pages s p)}" using n by auto
  then show "{p..<p + n} \<subseteq> blocks s xs" using p by (auto simp: blocks_def)
  show "pmm_inv (take_block p n s) (blocks s xs - {p..<p + n})"
    using take_block_wf [OF wf p n] by (auto simp: pmm_inv_def)
  show "releasable p n (take_block p n s)" by (rule take_block_releasable [OF wf p n])
  assume "releasable q m s" "{q..<q + m} \<inter> blocks s xs = {}"
  moreover have "\<forall>r \<in> {q..<q + m}. pages (take_block p n s) r = pages s r"
    using take_block_frame [OF wf p n(1)] calculation(2) by (meson disjoint_iff)
  ultimately show "releasable q m (take_block p n s)" using releasable_cong by metis
qed

lemma default_free_law:
  assumes i: "pmm_inv s F" and n: "0 < n" "{p..<p + n} \<inter> F = {}" "releasable p n s" "below_last p s"
  shows "\<exists>s'. default_free_pages p n s = Some s' \<and> pmm_inv s' (F \<union> {p..<p + n})"
proof -
  obtain xs where xs: "fl_wf s xs" "blocks s xs = F" using i by (auto simp: pmm_inv_def)
  obtain s' xs' where "default_free_pages p n s = Some s'" "fl_wf s' xs'"
    "blocks s' xs' = blocks s xs \<union> {p..<p + n}"
    using default_free_wf [OF xs(1) n(1) _ _ n(3)] n(2,4) xs by (auto simp: below_last_conv [OF xs(1)])
  then show ?thesis using xs(2) by (auto simp: pmm_inv_def)
qed

lemma default_free_frame_law:
  assumes i: "pmm_inv s F" and n: "0 < n" "{p..<p + n} \<inter> F = {}" "releasable p n s" "below_last p s"
    and f: "default_free_pages p n s = Some s'" and q: "releasable q m s" "{q..<q + m} \<inter> (F \<union> {p..<p + n}) = {}"
  shows "releasable q m s'"
proof -
  obtain xs where xs: "fl_wf s xs" "blocks s xs = F" using i by (auto simp: pmm_inv_def)
  have "pages s' r = pages s r" if "r \<in> {q..<q + m}" for r
    using default_free_frame [OF xs(1) n(1) _ _ n(3) _ _ f, of r] n q that xs
    by (auto simp: below_last_conv [OF xs(1)] disjoint_iff)
  then show ?thesis using q(1) by (simp add: releasable_def)
qed

lemma pmm_inv_card: "pmm_inv s F \<Longrightarrow> finite F \<and> nr_free s = card F"
  by (auto simp: pmm_inv_def fl_wf_finite fl_wf_nr_free)

interpretation default: counted_allocator default_pmm_manager pmm_inv "\<lambda>n. n" releasable below_last
proof (unfold_locales, simp_all only: default_pmm_manager_def pmm_manager.simps)
  fix s :: pmm and F n
  assume i: "pmm_inv s F" and n: "0 < (n :: nat)"
  then obtain xs where xs: "fl_wf s xs" "blocks s xs = F" by (auto simp: pmm_inv_def)
  note [simp] = default_alloc_find [OF xs(1) n]
  show "\<exists>r s'. default_alloc_pages n s = Some (r, s')" by (simp split: option.split)
  show "s' = s" if "default_alloc_pages n s = Some (None, s')" for s'
    using that by (simp split: option.splits)
  fix p s' assume "default_alloc_pages n s = Some (Some p, s')"
  then have f: "find (\<lambda>p. n \<le> property (pages s p)) xs = Some p" and s': "s' = take_block p n s"
    by (auto split: option.splits)
  note L = take_block_laws [OF xs(1) find_SomeE(1) [OF f] n find_SomeE(2) [OF f]]
  show "{p..<p + n} \<subseteq> F \<and> pmm_inv s' (F - {p..<p + n}) \<and> releasable p n s'"
    using L(1-3) xs s' by auto
  fix q m assume "releasable q m s" "{q..<q + m} \<inter> F = {}"
  then show "releasable q m s'" using L(4) xs s' by simp
qed (auto simp: default_nr_free_pages_def pmm_inv_card dest: default_free_law default_free_frame_law)

section \<open>The properties of the first-fit manager\<close>

lemma find_split_first:
  "find P xs = Some p \<Longrightarrow> \<exists>as bs. xs = as @ p # bs \<and> (\<forall>a \<in> set as. \<not> P a)"
proof (induction xs)
  case (Cons x xs)
  show ?case
  proof (cases "P x")
    case True
    then have "x # xs = [] @ p # xs" using Cons.prems by simp
    then show ?thesis by (metis empty_iff empty_set)
  next
    case False
    then obtain as bs where "xs = as @ p # bs" "\<forall>a \<in> set as. \<not> P a" using Cons by auto
    then have "x # xs = (x # as) @ p # bs" "\<forall>a \<in> set (x # as). \<not> P a" using False by simp_all
    then show ?thesis by blast
  qed
qed simp

lemma take_block_split:
  assumes "fl_wf s [p]" "0 < n" "n < property (pages s p)"
  shows "fl_wf (take_block p n s) [p + n]" "blocks (take_block p n s) [p + n] = {p + n..<p + property (pages s p)}"
proof -
  have d: "dll (links s) 0 ([] @ Suc p # [])" and b: "blocks s [p] = {p..<p + property (pages s p)}"
    using assms by (simp_all add: fl_wf_def)
  obtain xs' where xs': "fl_wf (take_block p n s) xs'" "blocks (take_block p n s) xs' = blocks s [p] - {p..<p + n}"
    using take_block_wf [OF assms(1), of p n] assms by auto
  have "dll (links (take_block p n s)) 0 (map Suc [p + n])"
    using list_add_dll [OF list_del_at_dll [OF d], of "Suc (p + n)"] list_prev_inner [OF d] assms(3)
    by (simp add: take_block_def Let_def)
  then have "xs' = [p + n]"
    using xs'(1) dll_unique [of _ 0 "map Suc xs'" "map Suc [p + n]"] by (auto simp: fl_wf_def)
  then show "fl_wf (take_block p n s) [p + n]"
    "blocks (take_block p n s) [p + n] = {p + n..<p + property (pages s p)}"
    using xs' b assms by auto
qed

text \<open>A machine whose only free region is the first \<open>n\<close> pages, as \<^verbatim>\<open>page_init\<close> leaves it.\<close>

definition reserved_pmm :: pmm where
  "reserved_pmm = \<lparr>pages = (\<lambda>_. \<lparr>ref = 0, flags = 1, property = 0, pra_vaddr = 0\<rparr>),
     links = \<lparr>lprev = (\<lambda>_. 0), lnext = (\<lambda>_. 0)\<rparr>, nr_free = 0\<rparr>"

definition region0 :: "nat \<Rightarrow> pmm" where
  "region0 n = the (default_init_memmap 0 n (default_init reserved_pmm))"

lemma default_init_wf: "fl_wf (default_init s) []"
  by (simp add: fl_wf_def default_init_def list_init_dll)

lemma region0_wf:
  assumes "0 < n" shows "fl_wf (region0 n) [0]" "property (pages (region0 n) 0) = n" "blocks (region0 n) [0] = {0..<n}"
proof -
  let ?s = "default_init reserved_pmm"
  have res: "\<forall>q \<in> {0..<0 + n}. PageReserved (pages ?s q)"
    by (simp add: default_init_def reserved_pmm_def PageReserved_def)
  obtain s' xs' where s': "default_init_memmap 0 n ?s = Some s'" "fl_wf s' xs'" "blocks s' xs' = {0..<n}"
    using default_init_memmap_wf [OF default_init_wf assms _ _ res] by auto
  then have r: "region0 n = s'" by (simp add: region0_def)
  have emp: "list_empty 0 (links ?s)" by (simp add: default_init_def list_empty_dll [OF list_init_dll])
  have pr: "property (pages s' 0) = n" "dll (links s') 0 (map Suc [0])"
    using s'(1) assms emp list_add_dll [OF list_init_dll, of "Suc 0" 0 "links reserved_pmm"]
    by (auto simp: default_init_memmap_def kspec insert_free_def Let_def default_init_def)
  moreover have "xs' = [0]"
    using pr(2) s'(2) dll_unique [of "links s'" 0 "map Suc xs'" "map Suc [0]"] by (auto simp: fl_wf_def)
  ultimately show "fl_wf (region0 n) [0]" "property (pages (region0 n) 0) = n" "blocks (region0 n) [0] = {0..<n}"
    using s' r by auto
qed

text \<open>C10. First fit: on a well-formed free list the allocation never panics; it returns the first block
  of the list, in address order, that has at least \<open>n\<close> pages, takes exactly the pages \<open>p..p+n-1\<close> out of
  the free set, keeps the list well formed, and returns NULL, changing nothing, exactly when every
  block is too small.\<close>

theorem default_alloc_first_fit:
  assumes "fl_wf s xs" and "0 < n"
  shows "\<exists>r s'. default_alloc_pages n s = Some (r, s') \<and>
    (case r of
       None \<Rightarrow> s' = s \<and> (\<forall>x \<in> set xs. property (pages s x) < n)
     | Some p \<Rightarrow> (\<exists>as bs xs'. xs = as @ p # bs \<and> (\<forall>a \<in> set as. property (pages s a) < n) \<and>
         n \<le> property (pages s p) \<and> fl_wf s' xs' \<and> blocks s' xs' = blocks s xs - {p..<p + n} \<and>
         nr_free s' + n = nr_free s))"
proof (cases "find (\<lambda>p. n \<le> property (pages s p)) xs")
  case None
  moreover have "\<forall>x \<in> set xs. property (pages s x) < n" using None by (auto simp: find_None_iff not_le)
  ultimately show ?thesis using default_alloc_find [OF assms] by simp
next
  case (Some p)
  note mem = find_SomeE [OF Some]
  obtain as bs where s: "xs = as @ p # bs" "\<forall>a \<in> set as. property (pages s a) < n"
    using Some find_SomeE find_split_first [OF Some] by (auto simp: not_le)
  obtain xs' where xs': "fl_wf (take_block p n s) xs'"
    "blocks (take_block p n s) xs' = blocks s xs - {p..<p + n}"
    using take_block_wf [OF assms(1) mem(1) assms(2) mem(2)] by auto
  have "nr_free (take_block p n s) + n = nr_free s"
    using property_le_nr_free [OF assms(1) mem(1)] mem(2) by (simp add: take_block_def Let_def)
  then show ?thesis using default_alloc_find [OF assms] Some s xs' mem(2) by fastforce
qed

lemma default_alloc_first_fit_witness:
  "\<exists>r s'. default_alloc_pages 3 (region0 8) = Some (r, s')"
  using default_alloc_first_fit [OF region0_wf(1), of 8 3] by auto

text \<open>C14. The release of an allocated block that lies below the last free block never panics, makes
  exactly its pages free again, and keeps the list sorted, disjoint and counted.\<close>

theorem default_free_correct:
  assumes "fl_wf s xs" and "0 < n" and "{base..<base + n} \<inter> blocks s xs = {}"
    and "xs = [] \<or> base < last xs"
    and "\<forall>q \<in> {base..<base + n}. \<not> PageReserved (pages s q) \<and> \<not> PageProperty (pages s q)"
  shows "\<exists>s' xs'. default_free_pages base n s = Some s' \<and> fl_wf s' xs' \<and>
    blocks s' xs' = blocks s xs \<union> {base..<base + n} \<and> nr_free s' = nr_free s + n"
proof -
  obtain s' xs' where *: "default_free_pages base n s = Some s'" "fl_wf s' xs'"
    "blocks s' xs' = blocks s xs \<union> {base..<base + n}"
    using default_free_wf [OF assms(1-4)] assms(5) by (auto simp: releasable_def)
  then have "nr_free s' = card (blocks s xs \<union> {base..<base + n})" using fl_wf_nr_free by metis
  then have "nr_free s' = nr_free s + n"
    using assms(3) fl_wf_nr_free [OF assms(1)] by (simp add: card_Un_disjoint fl_wf_finite Int_commute)
  then show ?thesis using * by blast
qed

lemma default_free_correct_witness:
  "\<exists>s' xs'. default_free_pages 0 3 (take_block 0 3 (region0 8)) = Some s' \<and> fl_wf s' xs'"
proof -
  let ?s = "take_block 0 3 (region0 8)"
  note w = region0_wf [of 8, simplified]
  have s: "fl_wf ?s [3]" "blocks ?s [3] = {3..<8}" "releasable 0 3 ?s"
    using take_block_split [OF w(1), of 3] take_block_releasable [OF w(1), of 0 3] w by simp_all
  show ?thesis
    using default_free_correct [OF s(1), of 3 0] s(2,3) by (auto simp: releasable_def)
qed




end
