(* ===== verification/BestFit.thy ===== *)
theory BestFit
  imports PageAlloc
begin

text \<open>
  The best-fit physical memory manager \<^verbatim>\<open>lab02/kern/mm/best_fit_pmm.c\<close>. It has the free area and the
  insertion and merging code of the first-fit manager; only the search differs. The state and the
  helpers are those of the theory \<open>PageAlloc\<close>, and it fulfils the same contract \<open>page_allocator\<close>.
\<close>

section \<open>Operations\<close>

definition best_fit_init :: "'a pmm_scheme \<Rightarrow> 'a pmm_scheme" where
  "best_fit_init s = s\<lparr>links := list_init free_list (links s), nr_free := 0\<rparr>"

definition best_fit_init_memmap :: "nat \<Rightarrow> nat \<Rightarrow> 'a pmm_scheme \<Rightarrow> 'a pmm_scheme option" where
  "best_fit_init_memmap base n s = do {
     kassert (n > 0);
     pg \<leftarrow> init_block base n (pages s);
     let s1 = s\<lparr>pages := pg\<rparr>;
     let s2 = upd_page base (\<lambda>p. SetPageProperty (p\<lparr>property := n\<rparr>)) s1;
     let s3 = s2\<lparr>nr_free := nr_free s2 + n\<rparr>;
     L \<leftarrow> insert_free base (links s3);
     Some (s3\<lparr>links := L\<rparr>)
   }"

text \<open>The loop over the whole list, with the smallest size seen so far and its block.\<close>

partial_function (option) best_fit_scan ::
  "(nat \<Rightarrow> page) \<Rightarrow> nat \<Rightarrow> nat \<Rightarrow> nat \<Rightarrow> nat option \<Rightarrow> list_links \<Rightarrow> nat option option" where
  "best_fit_scan pg n le min_size page L =
     (let le' = list_next le L in
      if le' = free_list then Some page
      else let p = le2page le' in
        if property (pg p) \<ge> n then
          if property (pg p) < min_size then best_fit_scan pg n le' (property (pg p)) (Some p) L
          else best_fit_scan pg n le' min_size page L
        else best_fit_scan pg n le' min_size page L)"

declare best_fit_scan.simps [code]

definition best_fit_alloc_pages :: "nat \<Rightarrow> 'a pmm_scheme \<Rightarrow> (nat option \<times> 'a pmm_scheme) option" where
  "best_fit_alloc_pages n s = do {
     kassert (n > 0);
     if n > nr_free s then Some (None, s)
     else do {
       r \<leftarrow> best_fit_scan (pages s) n free_list (nr_free s + 1) None (links s);
       case r of
         None \<Rightarrow> Some (None, s)
       | Some page \<Rightarrow> Some (Some page, take_block page n s)
     }
   }"

definition best_fit_free_pages :: "nat \<Rightarrow> nat \<Rightarrow> 'a pmm_scheme \<Rightarrow> 'a pmm_scheme option" where
  "best_fit_free_pages base n s = do {
     kassert (n > 0);
     pg \<leftarrow> clear_block base n (pages s);
     let s1 = s\<lparr>pages := pg\<rparr>;
     let s2 = upd_page base (\<lambda>p. SetPageProperty (p\<lparr>property := n\<rparr>)) s1;
     let s3 = s2\<lparr>nr_free := nr_free s2 + n\<rparr>;
     L \<leftarrow> insert_free base (links s3);
     let (base', s4) = merge_prev base (s3\<lparr>links := L\<rparr>);
     Some (merge_next base' s4)
   }"

definition best_fit_nr_free_pages :: "'a pmm_scheme \<Rightarrow> nat" where
  "best_fit_nr_free_pages s = nr_free s"

definition best_fit_pmm_manager :: "pmm pmm_manager" where
  "best_fit_pmm_manager = \<lparr>mgr_init = best_fit_init, mgr_init_memmap = best_fit_init_memmap,
     mgr_alloc_pages = best_fit_alloc_pages, mgr_free_pages = best_fit_free_pages,
     mgr_nr_free_pages = best_fit_nr_free_pages\<rparr>"

text \<open>Apart from the search the two managers run the same code.\<close>

lemma best_fit_free_default: "best_fit_free_pages = default_free_pages"
  by (intro ext) (simp add: best_fit_free_pages_def default_free_pages_def)

section \<open>The search\<close>

fun best_of :: "(nat \<Rightarrow> nat) \<Rightarrow> nat \<Rightarrow> nat \<Rightarrow> nat option \<Rightarrow> nat list \<Rightarrow> nat option" where
  "best_of sz n m r [] = r"
| "best_of sz n m r (x # xs) =
     (if n \<le> sz x \<and> sz x < m then best_of sz n (sz x) (Some x) xs else best_of sz n m r xs)"

lemma best_fit_scan_best_of:
  "dll L 0 (map Suc (as @ bs)) \<Longrightarrow>
     best_fit_scan pg n (last (0 # map Suc as)) m r L = Some (best_of (\<lambda>x. property (pg x)) n m r bs)"
proof (induction bs arbitrary: as m r)
  case Nil
  then show ?case using list_next_page [of L as "[]"]
    by (subst best_fit_scan.simps) (simp add: Let_def)
next
  case (Cons b bs)
  from Cons.prems have d: "dll L 0 (map Suc ((as @ [b]) @ bs))" by simp
  have IH: "best_fit_scan pg n (Suc b) m' r' L = Some (best_of (\<lambda>x. property (pg x)) n m' r' bs)" for m' r'
    using Cons.IH [OF d] by simp
  show ?case using list_next_page [OF Cons.prems]
    by (subst best_fit_scan.simps) (simp add: Let_def IH)
qed

text \<open>The loop keeps the first of the smallest fitting blocks.\<close>

lemma best_of_None: "best_of sz n m None xs = None \<Longrightarrow> \<forall>x \<in> set xs. \<not> (n \<le> sz x \<and> sz x < m)"
proof (induction xs arbitrary: m)
  case (Cons x xs)
  have "best_of sz n m' (Some y) ys \<noteq> None" for m' y ys
    by (induction ys arbitrary: m' y) auto
  from this [of "sz x" x xs] show ?case using Cons by (auto split: if_splits)
qed simp

lemma best_of_Some:
  "best_of sz n m r xs = Some p \<Longrightarrow> r = Some p \<and> (\<forall>x \<in> set xs. n \<le> sz x \<longrightarrow> m \<le> sz x) \<or>
     (\<exists>as bs. xs = as @ p # bs \<and> n \<le> sz p \<and> sz p < m \<and>
        (\<forall>a \<in> set as. n \<le> sz a \<longrightarrow> sz p < sz a) \<and> (\<forall>b \<in> set bs. n \<le> sz b \<longrightarrow> sz p \<le> sz b))"
proof (induction xs arbitrary: m r)
  case (Cons x xs)
  show ?case
  proof (cases "n \<le> sz x \<and> sz x < m")
    case True
    then have "best_of sz n (sz x) (Some x) xs = Some p" using Cons.prems by simp
    from Cons.IH [OF this] show ?thesis
    proof
      assume "Some x = Some p \<and> (\<forall>y \<in> set xs. n \<le> sz y \<longrightarrow> sz x \<le> sz y)"
      then have "x # xs = [] @ p # xs \<and> n \<le> sz p \<and> sz p < m \<and> (\<forall>b \<in> set xs. n \<le> sz b \<longrightarrow> sz p \<le> sz b)"
        using True by auto
      then show ?thesis by (metis empty_iff empty_set)
    next
      assume "\<exists>as bs. xs = as @ p # bs \<and> n \<le> sz p \<and> sz p < sz x \<and>
        (\<forall>a \<in> set as. n \<le> sz a \<longrightarrow> sz p < sz a) \<and> (\<forall>b \<in> set bs. n \<le> sz b \<longrightarrow> sz p \<le> sz b)"
      then obtain as bs where "xs = as @ p # bs" "n \<le> sz p" "sz p < sz x"
        "\<forall>a \<in> set as. n \<le> sz a \<longrightarrow> sz p < sz a" "\<forall>b \<in> set bs. n \<le> sz b \<longrightarrow> sz p \<le> sz b" by auto
      then have "x # xs = (x # as) @ p # bs \<and> n \<le> sz p \<and> sz p < m \<and>
        (\<forall>a \<in> set (x # as). n \<le> sz a \<longrightarrow> sz p < sz a) \<and> (\<forall>b \<in> set bs. n \<le> sz b \<longrightarrow> sz p \<le> sz b)"
        using True by auto
      then show ?thesis by blast
    qed
  next
    case False
    then have "best_of sz n m r xs = Some p" using Cons.prems by auto
    from Cons.IH [OF this] show ?thesis
    proof
      assume "r = Some p \<and> (\<forall>x \<in> set xs. n \<le> sz x \<longrightarrow> m \<le> sz x)"
      then show ?thesis using False by auto
    next
      assume "\<exists>as bs. xs = as @ p # bs \<and> n \<le> sz p \<and> sz p < m \<and>
        (\<forall>a \<in> set as. n \<le> sz a \<longrightarrow> sz p < sz a) \<and> (\<forall>b \<in> set bs. n \<le> sz b \<longrightarrow> sz p \<le> sz b)"
      then obtain as bs where "xs = as @ p # bs" "n \<le> sz p" "sz p < m"
        "\<forall>a \<in> set as. n \<le> sz a \<longrightarrow> sz p < sz a" "\<forall>b \<in> set bs. n \<le> sz b \<longrightarrow> sz p \<le> sz b" by auto
      then have "x # xs = (x # as) @ p # bs \<and> n \<le> sz p \<and> sz p < m \<and>
        (\<forall>a \<in> set (x # as). n \<le> sz a \<longrightarrow> sz p < sz a) \<and> (\<forall>b \<in> set bs. n \<le> sz b \<longrightarrow> sz p \<le> sz b)"
        using False by auto
      then show ?thesis by blast
    qed
  qed
qed simp

lemma best_fit_alloc_best_of:
  assumes "fl_wf s xs" "0 < n"
  shows "best_fit_alloc_pages n s =
    Some (case best_of (\<lambda>x. property (pages s x)) n (nr_free s + 1) None xs of
            None \<Rightarrow> (None, s) | Some p \<Rightarrow> (Some p, take_block p n s))"
proof (cases "n > nr_free s")
  case True
  have "best_of (\<lambda>x. property (pages s x)) n (nr_free s + 1) None xs = None"
  proof (rule ccontr)
    assume "best_of (\<lambda>x. property (pages s x)) n (nr_free s + 1) None xs \<noteq> None"
    then obtain p where "best_of (\<lambda>x. property (pages s x)) n (nr_free s + 1) None xs = Some p" by auto
    from best_of_Some [OF this] have "p \<in> set xs" "n \<le> property (pages s p)" by auto
    then show False using property_le_nr_free [OF assms(1)] True by fastforce
  qed
  then show ?thesis using True assms(2) by (simp add: best_fit_alloc_pages_def)
next
  case False
  have "best_fit_scan (pages s) n 0 (nr_free s + 1) None (links s) =
      Some (best_of (\<lambda>x. property (pages s x)) n (nr_free s + 1) None xs)"
    using best_fit_scan_best_of [of "links s" "[]" xs] assms(1) by (simp add: fl_wf_def)
  then show ?thesis using False assms(2)
    by (simp add: best_fit_alloc_pages_def split: option.split)
qed

section \<open>The manager\<close>

interpretation best_fit: counted_allocator best_fit_pmm_manager pmm_inv "\<lambda>n. n" releasable below_last
proof (unfold_locales, simp_all only: best_fit_pmm_manager_def pmm_manager.simps best_fit_free_default)
  fix s :: pmm and F n
  assume i: "pmm_inv s F" and n: "0 < (n :: nat)"
  then obtain xs where xs: "fl_wf s xs" "blocks s xs = F" by (auto simp: pmm_inv_def)
  note [simp] = best_fit_alloc_best_of [OF xs(1) n]
  show "\<exists>r s'. best_fit_alloc_pages n s = Some (r, s')" by (simp split: option.split)
  show "s' = s" if "best_fit_alloc_pages n s = Some (None, s')" for s'
    using that by (simp split: option.splits)
  fix p s' assume "best_fit_alloc_pages n s = Some (Some p, s')"
  then have f: "best_of (\<lambda>x. property (pages s x)) n (nr_free s + 1) None xs = Some p"
    and s': "s' = take_block p n s"
    by (auto split: option.splits)
  from best_of_Some [OF f] have p: "p \<in> set xs" "n \<le> property (pages s p)" by auto
  note L = take_block_laws [OF xs(1) p(1) n p(2)]
  show "{p..<p + n} \<subseteq> F \<and> pmm_inv s' (F - {p..<p + n}) \<and> releasable p n s'"
    using L(1-3) xs s' by auto
  fix q m assume "releasable q m s" "{q..<q + m} \<inter> F = {}"
  then show "releasable q m s'" using L(4) xs s' by simp
qed (auto simp: best_fit_nr_free_pages_def pmm_inv_card dest: default_free_law default_free_frame_law)

section \<open>Properties\<close>

text \<open>Best fit: on a well-formed free list the allocation never panics; it returns a block with at
  least \<open>n\<close> pages that no other fitting block undercuts, the first such in address order, takes exactly
  \<open>n\<close> pages out of the free set and keeps the list well formed; NULL exactly when no block fits.\<close>

theorem best_fit_alloc_smallest:
  assumes "fl_wf s xs" and "0 < n"
  shows "\<exists>r s'. best_fit_alloc_pages n s = Some (r, s') \<and>
    (case r of
       None \<Rightarrow> s' = s \<and> (\<forall>x \<in> set xs. property (pages s x) < n)
     | Some p \<Rightarrow> (\<exists>as bs xs'. xs = as @ p # bs \<and> n \<le> property (pages s p) \<and>
         (\<forall>a \<in> set as. n \<le> property (pages s a) \<longrightarrow> property (pages s p) < property (pages s a)) \<and>
         (\<forall>b \<in> set bs. n \<le> property (pages s b) \<longrightarrow> property (pages s p) \<le> property (pages s b)) \<and>
         fl_wf s' xs' \<and> blocks s' xs' = blocks s xs - {p..<p + n}))"
proof (cases "best_of (\<lambda>x. property (pages s x)) n (nr_free s + 1) None xs")
  case None
  have "\<forall>x \<in> set xs. property (pages s x) < n"
    using best_of_None [OF None] property_le_nr_free [OF assms(1)] by (metis less_Suc_eq_le add.commute plus_1_eq_Suc not_le)
  then show ?thesis using best_fit_alloc_best_of [OF assms] None by simp
next
  case (Some p)
  obtain as bs where s: "xs = as @ p # bs" "n \<le> property (pages s p)"
    "\<forall>a \<in> set as. n \<le> property (pages s a) \<longrightarrow> property (pages s p) < property (pages s a)"
    "\<forall>b \<in> set bs. n \<le> property (pages s b) \<longrightarrow> property (pages s p) \<le> property (pages s b)"
    using best_of_Some [OF Some] by auto
  obtain xs' where "fl_wf (take_block p n s) xs'"
    "blocks (take_block p n s) xs' = blocks s xs - {p..<p + n}"
    using take_block_wf [OF assms(1) _ assms(2) s(2)] s(1) by auto
  then show ?thesis using best_fit_alloc_best_of [OF assms] Some s by fastforce
qed

lemma best_fit_alloc_smallest_witness: "\<exists>r s'. best_fit_alloc_pages 3 (region0 8) = Some (r, s')"
  using best_fit_alloc_smallest [OF region0_wf(1), of 8 3] by auto

text \<open>The best-fit manager gives its clients the guarantee of the first-fit one: in every run the
  held blocks are disjoint, inside the pool, and accounted for.\<close>

theorem best_fit_runs_disjoint:
  assumes "fl_wf s xs"
    and "client_run best_fit_pmm_manager below_last ((sie, s), []) ((sie', s'), held)"
  shows "held_disjoint (\<lambda>n. n) held \<and> held_pages (\<lambda>n. n) held \<subseteq> blocks s xs \<and>
    nr_free s' + card (held_pages (\<lambda>n. n) held) = nr_free s"
  using best_fit.run_count [of "(sie, s)" "blocks s xs" "(sie', s')" held] assms
  by (auto simp: pmm_inv_def best_fit_pmm_manager_def best_fit_nr_free_pages_def)

lemma best_fit_runs_disjoint_witness:
  "\<exists>s'. client_run best_fit_pmm_manager below_last ((True, region0 8), []) ((True, s'), [(0, 3)]) \<and>
     nr_free s' + card (held_pages (\<lambda>n. n) [(0, 3)]) = nr_free (region0 8)"
proof -
  note w = region0_wf [of 8, simplified]
  have "alloc_pages best_fit_pmm_manager 3 (True, region0 8) =
      Some (Some 0, True, take_block 0 3 (region0 8))"
    using best_fit_alloc_best_of [OF w(1), of 3] w(2) property_le_nr_free [OF w(1), of 0]
    by (simp add: alloc_pages_def best_fit_pmm_manager_def intr_save_def intr_restore_def)
  then have "client_run best_fit_pmm_manager below_last ((True, region0 8), [])
      ((True, take_block 0 3 (region0 8)), [(0, 3)])"
    by (intro r_into_rtranclp step_alloc) simp_all
  then show ?thesis using best_fit_runs_disjoint [OF w(1)] by blast
qed

end
