(* ===== verification/Buddy.thy ===== *)
theory Buddy
  imports PageAlloc "HOL-Library.While_Combinator"
begin

text \<open>
  The buddy page allocator \<^verbatim>\<open>lab02/kern/mm/buddy_system_pmm.c\<close>. The lists \<^verbatim>\<open>free_list[i]\<close> are HOL lists
  of the heads of the free blocks of order \<open>i\<close> (the pointer operations on them are those of the theory
  \<open>LinkedList\<close>); a \<^verbatim>\<open>struct Page *\<close> is an index into the descriptor array.
\<close>

section \<open>Powers of two\<close>

definition is_order_of_two :: "nat \<Rightarrow> bool" where
  "is_order_of_two n \<longleftrightarrow> n > 0 \<and> n AND (n - 1) = 0"

definition fix_size :: "nat \<Rightarrow> nat" where
  "fix_size n = while (\<lambda>res. res < n) (\<lambda>res. res * 2) 1"

fun get_order :: "nat \<Rightarrow> nat" where
  "get_order n = (if n > 1 then Suc (get_order (n div 2)) else 0)"

declare get_order.simps [simp del]

definition power_of_two :: "nat \<Rightarrow> nat" where
  "power_of_two order = 2 ^ order"

lemma get_order_power: "get_order (2 ^ k) = k"
proof (induction k)
  case (Suc k)
  have "1 < (2 :: nat) ^ Suc k" by (rule one_less_power) simp_all
  then have "get_order (2 ^ Suc k) = Suc (get_order (2 ^ Suc k div 2))"
    by (subst get_order.simps) simp
  also have "2 ^ Suc k div 2 = (2 :: nat) ^ k" by simp
  finally show ?case using Suc by simp
qed (simp add: get_order.simps)

lemma is_order_of_two_power: "is_order_of_two (2 ^ k)"
proof -
  have "2 ^ k AND (2 ^ k - 1) = (0 :: nat)"
    unfolding mask_eq_exp_minus_1 [symmetric]
    by (rule bit_eqI) (auto simp: bit_and_iff bit_exp_iff bit_mask_iff)
  then show ?thesis by (simp add: is_order_of_two_def)
qed

text \<open>The rounding loop stops at the least power of two that is at least \<open>n\<close>.\<close>

lemma fix_size_power: "\<exists>k. fix_size n = 2 ^ k \<and> n \<le> 2 ^ k \<and> (\<forall>j < k. 2 ^ j < n)"
  unfolding fix_size_def
proof (rule while_rule [where P = "\<lambda>res. \<exists>k. res = 2 ^ k \<and> (\<forall>j < k. 2 ^ j < n)"
      and r = "measure (\<lambda>res. n - res)" and b = "\<lambda>res. res < n" and c = "\<lambda>res. res * 2"])
  fix res :: nat assume p: "\<exists>k. res = 2 ^ k \<and> (\<forall>j < k. 2 ^ j < n)" and l: "res < n"
  then obtain k where k: "res = 2 ^ k" "\<forall>j < k. 2 ^ j < n" by auto
  have "\<forall>j < Suc k. 2 ^ j < n" using k l by (auto simp: less_Suc_eq)
  then show "\<exists>k. res * 2 = 2 ^ k \<and> (\<forall>j < k. 2 ^ j < n)"
    using k(1) by (intro exI [of _ "Suc k"]) simp
  show "(res * 2, res) \<in> measure (\<lambda>res. n - res)"
    using l k(1) by (simp add: diff_less_mono2)
next
  show "\<exists>k. 1 = 2 ^ k \<and> (\<forall>j < k. 2 ^ j < n)" by (intro exI [of _ 0]) simp
qed (auto simp: not_less)

lemma fix_size_small: "fix_size (Suc 0) = 1" "fix_size 2 = 2"
  by (simp_all add: fix_size_def while_unfold)

definition order_of :: "nat \<Rightarrow> nat" where
  "order_of n = get_order (fix_size n)"

lemma fix_size_order_of: "fix_size n = 2 ^ order_of n"
  using fix_size_power [of n] by (auto simp: order_of_def get_order_power)

lemma order_of_2: "order_of 2 = 1"
  using get_order_power [of 1] by (simp add: order_of_def fix_size_small)

lemma order_of_ge: "n \<le> 2 ^ order_of n"
  using fix_size_power [of n] fix_size_order_of [of n] by auto

lemma order_of_least: "1 < n \<Longrightarrow> 2 ^ order_of n < 2 * n"
proof -
  assume n: "1 < n"
  obtain k where k: "fix_size n = 2 ^ k" "\<forall>j < k. 2 ^ j < n" "n \<le> 2 ^ k"
    using fix_size_power by blast
  have "k \<noteq> 0" using k(3) n by (cases k) auto
  then obtain j where j: "k = Suc j" by (cases k) auto
  then show ?thesis using k fix_size_order_of [of n] by (metis lessI mult_less_mono2 power_Suc zero_less_numeral)
qed

section \<open>State and operations\<close>

record buddy_system =
  bd_pages :: "nat \<Rightarrow> page"
  total_pages :: nat
  bd_base :: nat
  bd_free_list :: "nat \<Rightarrow> nat list"
  max_order :: nat
  bd_nr_free :: nat

definition buddy_init_system :: "nat \<Rightarrow> nat \<Rightarrow> buddy_system \<Rightarrow> buddy_system" where
  "buddy_init_system n base s =
     (if n < 1 \<or> \<not> is_order_of_two n then s\<lparr>total_pages := 0\<rparr>
      else let m = get_order n;
               pg = upd_range (\<lambda>p. p\<lparr>flags := 0, property := 0, ref := 0\<rparr>) base n (bd_pages s)
           in s\<lparr>total_pages := n, bd_base := base, max_order := m, bd_nr_free := n,
                bd_pages := pg(base := (pg base)\<lparr>property := n\<rparr>),
                bd_free_list := (\<lambda>i. if i = m then [base] else if i < m then [] else bd_free_list s i)\<rparr>)"

text \<open>The place of a block in its list: before the first block above it, and otherwise (also when the
  list is empty) at the front, where \<^verbatim>\<open>list_add\<close> to the header puts it.\<close>

fun before_first_above :: "nat \<Rightarrow> nat list \<Rightarrow> nat list option" where
  "before_first_above block [] = None"
| "before_first_above block (page # ps) =
     (if block < page then Some (block # page # ps)
      else map_option (Cons page) (before_first_above block ps))"

definition buddy_insert_block :: "nat \<Rightarrow> nat \<Rightarrow> buddy_system \<Rightarrow> buddy_system" where
  "buddy_insert_block block order s =
     (if order > max_order s then s
      else let s1 = s\<lparr>bd_pages := (bd_pages s)(block := (bd_pages s block)\<lparr>property := power_of_two order\<rparr>)\<rparr>;
               l = bd_free_list s order;
               l' = (case before_first_above block l of Some l' \<Rightarrow> l' | None \<Rightarrow> block # l)
           in s1\<lparr>bd_free_list := (bd_free_list s)(order := l')\<rparr>)"

text \<open>The search for the first non-empty list from \<open>required_order\<close> up.\<close>

function find_order :: "nat \<Rightarrow> buddy_system \<Rightarrow> nat option" where
  "find_order i s =
     (if i \<le> max_order s then (if bd_free_list s i \<noteq> [] then Some i else find_order (Suc i) s) else None)"
  by auto
termination by (relation "measure (\<lambda>(i, s). Suc (max_order s) - i)") auto

declare find_order.simps [simp del]

text \<open>The splitting loop: \<open>d\<close> is \<open>current_order - required_order\<close>.\<close>

fun split_block :: "nat \<Rightarrow> nat \<Rightarrow> nat \<Rightarrow> buddy_system \<Rightarrow> buddy_system" where
  "split_block block req 0 s = s"
| "split_block block req (Suc d) s =
     split_block block req d (buddy_insert_block (block + power_of_two (req + d)) (req + d) s)"

definition buddy_alloc_block :: "nat \<Rightarrow> buddy_system \<Rightarrow> nat option \<times> buddy_system" where
  "buddy_alloc_block n s =
     (if n = 0 \<or> n > bd_nr_free s then (None, s)
      else let req = get_order (fix_size n) in
        case find_order req s of
          None \<Rightarrow> (None, s)
        | Some cur \<Rightarrow>
            let block = hd (bd_free_list s cur);
                s1 = s\<lparr>bd_free_list := (bd_free_list s)(cur := tl (bd_free_list s cur))\<rparr>;
                s2 = split_block block req (cur - req) s1;
                s3 = s2\<lparr>bd_pages := (bd_pages s2)(block := (bd_pages s2 block)\<lparr>property := 0\<rparr>)\<rparr>
            in (Some block, s3\<lparr>bd_nr_free := bd_nr_free s3 - power_of_two req\<rparr>))"

text \<open>The merging loop; it returns the merged block and its order.\<close>

function merge_buddies :: "nat \<Rightarrow> nat \<Rightarrow> buddy_system \<Rightarrow> nat \<times> nat \<times> buddy_system" where
  "merge_buddies block order s =
     (if order < max_order s then
        let buddy_block = bd_base s + ((block - bd_base s) XOR power_of_two order) in
        if buddy_block \<in> set (bd_free_list s order) then
          let s1 = s\<lparr>bd_free_list := (bd_free_list s)(order := remove1 buddy_block (bd_free_list s order))\<rparr>;
              block' = (if buddy_block < block then buddy_block else block);
              s2 = s1\<lparr>bd_pages := (bd_pages s1)(block' := (bd_pages s1 block')\<lparr>property := power_of_two (Suc order)\<rparr>)\<rparr>
          in merge_buddies block' (Suc order) s2
        else (block, order, s)
      else (block, order, s))"
  by auto
termination by (relation "measure (\<lambda>(b, i, s). max_order s - i)") auto

declare merge_buddies.simps [simp del]

definition buddy_free_block :: "nat \<Rightarrow> nat \<Rightarrow> buddy_system \<Rightarrow> buddy_system" where
  "buddy_free_block block n s =
     (if n = 0 then s
      else let order = get_order (fix_size n);
               pg = upd_range (\<lambda>p. p\<lparr>flags := 0, ref := 0\<rparr>) block n (bd_pages s);
               s1 = s\<lparr>bd_pages := pg(block := (pg block)\<lparr>property := power_of_two order\<rparr>)\<rparr>;
               (block', order', s2) = merge_buddies block order s1;
               s3 = buddy_insert_block block' order' s2
           in s3\<lparr>bd_nr_free := bd_nr_free s3 + power_of_two order'\<rparr>)"

definition buddy_init :: "buddy_system \<Rightarrow> buddy_system" where
  "buddy_init s = s\<lparr>total_pages := 0, bd_nr_free := 0, max_order := 0, bd_base := 0\<rparr>"

definition buddy_init_memmap :: "nat \<Rightarrow> nat \<Rightarrow> buddy_system \<Rightarrow> buddy_system option" where
  "buddy_init_memmap base n s = do {
     kassert (n > 0);
     let n = (if is_order_of_two n then n else fix_size n);
     Some (buddy_init_system n base s)
   }"

definition buddy_alloc_pages :: "nat \<Rightarrow> buddy_system \<Rightarrow> (nat option \<times> buddy_system) option" where
  "buddy_alloc_pages n s = do {
     kassert (n > 0);
     if n > bd_nr_free s then Some (None, s) else Some (buddy_alloc_block n s)
   }"

definition buddy_free_pages :: "nat \<Rightarrow> nat \<Rightarrow> buddy_system \<Rightarrow> buddy_system option" where
  "buddy_free_pages base n s = do {
     kassert (n > 0);
     kassert (bd_base s \<le> base \<and> base < bd_base s + total_pages s);
     Some (buddy_free_block base n s)
   }"

definition buddy_nr_free_pages :: "buddy_system \<Rightarrow> nat" where
  "buddy_nr_free_pages s = bd_nr_free s"

definition buddy_pmm_manager :: "buddy_system pmm_manager" where
  "buddy_pmm_manager = \<lparr>mgr_init = buddy_init, mgr_init_memmap = buddy_init_memmap,
     mgr_alloc_pages = buddy_alloc_pages, mgr_free_pages = buddy_free_pages,
     mgr_nr_free_pages = buddy_nr_free_pages\<rparr>"

section \<open>The invariant\<close>

text \<open>\<open>aligned s i x\<close>: a block of order \<open>i\<close> may start at \<open>x\<close>. \<open>bd_wf s F\<close>: the lists hold disjoint
  aligned blocks, each once, and \<open>F\<close> is the set of their pages.\<close>

definition aligned :: "buddy_system \<Rightarrow> nat \<Rightarrow> nat \<Rightarrow> bool" where
  "aligned s i x \<longleftrightarrow>
     bd_base s \<le> x \<and> 2 ^ i dvd (x - bd_base s) \<and> x - bd_base s + 2 ^ i \<le> total_pages s"

definition bd_blocks :: "buddy_system \<Rightarrow> (nat \<times> nat) set" where
  "bd_blocks s = {(i, x). i \<le> max_order s \<and> x \<in> set (bd_free_list s i)}"

definition brange :: "nat \<times> nat \<Rightarrow> nat set" where
  "brange b = {snd b..<snd b + 2 ^ fst b}"

definition bd_wf :: "buddy_system \<Rightarrow> nat set \<Rightarrow> bool" where
  "bd_wf s F \<longleftrightarrow> total_pages s = 2 ^ max_order s \<and>
     (\<forall>i \<le> max_order s. distinct (bd_free_list s i)) \<and>
     (\<forall>(i, x) \<in> bd_blocks s. aligned s i x) \<and>
     pairwise (\<lambda>b c. brange b \<inter> brange c = {}) (bd_blocks s) \<and>
     F = \<Union> (brange ` bd_blocks s)"

lemma brange_pair [simp]: "brange (i, x) = {x..<x + 2 ^ i}"
  by (simp add: brange_def)

lemma bd_wf_pages [simp]:
  "bd_wf (s\<lparr>bd_pages := pg\<rparr>) F = bd_wf s F" "bd_wf (s\<lparr>bd_nr_free := k\<rparr>) F = bd_wf s F"
  "aligned (s\<lparr>bd_pages := pg\<rparr>) = aligned s" "aligned (s\<lparr>bd_nr_free := k\<rparr>) = aligned s"
  "aligned (s\<lparr>bd_free_list := fl\<rparr>) = aligned s"
  by (simp_all add: bd_wf_def aligned_def bd_blocks_def fun_eq_iff)

lemma bd_wf_block:
  assumes "bd_wf s F" "i \<le> max_order s" "x \<in> set (bd_free_list s i)"
  shows "aligned s i x \<and> {x..<x + 2 ^ i} \<subseteq> F"
proof -
  have "(i, x) \<in> bd_blocks s" using assms by (simp add: bd_blocks_def)
  then show ?thesis using assms(1) unfolding bd_wf_def by (metis (no_types, lifting) UN_upper brange_pair case_prodD)
qed

lemma before_first_above_set:
  "before_first_above x l = Some l' \<Longrightarrow> set l' = insert x (set l) \<and> (distinct l' = (x \<notin> set l \<and> distinct l))"
proof (induction l arbitrary: l')
  case (Cons y l)
  then show ?case by (fastforce split: if_splits)
qed simp

definition placed :: "nat \<Rightarrow> nat list \<Rightarrow> nat list" where
  "placed x l = (case before_first_above x l of Some l' \<Rightarrow> l' | None \<Rightarrow> x # l)"

lemma set_placed: "set (placed x l) = insert x (set l)" "distinct (placed x l) = (x \<notin> set l \<and> distinct l)"
  using before_first_above_set [of x l] by (auto simp: placed_def split: option.split)

lemma buddy_insert_block_sel [simp]:
  "max_order (buddy_insert_block x i s) = max_order s" "bd_base (buddy_insert_block x i s) = bd_base s"
  "total_pages (buddy_insert_block x i s) = total_pages s" "bd_nr_free (buddy_insert_block x i s) = bd_nr_free s"
  "aligned (buddy_insert_block x i s) = aligned s"
  "i \<le> max_order s \<Longrightarrow>
     bd_free_list (buddy_insert_block x i s) = (bd_free_list s)(i := placed x (bd_free_list s i))"
  by (auto simp: buddy_insert_block_def Let_def aligned_def placed_def fun_eq_iff)

lemma bd_wf_insert:
  assumes wf: "bd_wf s F" and i: "i \<le> max_order s" and al: "aligned s i x" and fr: "{x..<x + 2 ^ i} \<inter> F = {}"
  shows "bd_wf (buddy_insert_block x i s) (F \<union> {x..<x + 2 ^ i})"
proof -
  let ?s = "buddy_insert_block x i s"
  have B: "bd_blocks ?s = insert (i, x) (bd_blocks s)"
    using i by (auto simp: bd_blocks_def set_placed split: if_splits)
  have F: "F = \<Union> (brange ` bd_blocks s)" using wf by (simp add: bd_wf_def)
  have sep: "brange (i, x) \<inter> brange b = {}" "brange b \<inter> brange (i, x) = {}" if "b \<in> bd_blocks s" for b
    using fr that unfolding F by auto
  have "x \<notin> set (bd_free_list s i)" using sep [of "(i, x)"] i by (auto simp: bd_blocks_def)
  then have "\<forall>j \<le> max_order ?s. distinct (bd_free_list ?s j)"
    using wf i by (auto simp: bd_wf_def set_placed)
  moreover have "\<forall>(j, y) \<in> bd_blocks ?s. aligned ?s j y"
    using wf al by (auto simp: bd_wf_def B)
  moreover have "pairwise (\<lambda>b c. brange b \<inter> brange c = {}) (bd_blocks ?s)"
    using wf sep unfolding B pairwise_insert bd_wf_def by blast
  moreover have "total_pages ?s = 2 ^ max_order ?s" using wf by (simp add: bd_wf_def)
  moreover have "F \<union> {x..<x + 2 ^ i} = \<Union> (brange ` bd_blocks ?s)" unfolding B F by auto
  ultimately show ?thesis unfolding bd_wf_def by blast
qed

lemma bd_wf_remove:
  assumes wf: "bd_wf s F" and i: "i \<le> max_order s" "x \<in> set (bd_free_list s i)"
    and l: "set l = set (bd_free_list s i) - {x}" "distinct l"
  shows "bd_wf (s\<lparr>bd_free_list := (bd_free_list s)(i := l)\<rparr>) (F - {x..<x + 2 ^ i})"
proof -
  let ?s = "s\<lparr>bd_free_list := (bd_free_list s)(i := l)\<rparr>"
  have "y \<in> set (bd_free_list ?s k) \<longleftrightarrow> y \<in> set (bd_free_list s k) \<and> (k, y) \<noteq> (i, x)" for k y
    using l(1) by (cases "k = i") simp_all
  then have B: "bd_blocks ?s = bd_blocks s - {(i, x)}" unfolding bd_blocks_def by auto
  have ix: "(i, x) \<in> bd_blocks s" using i by (simp add: bd_blocks_def)
  have F: "F = \<Union> (brange ` bd_blocks s)"
    and dj: "pairwise (\<lambda>b c. brange b \<inter> brange c = {}) (bd_blocks s)"
    using wf unfolding bd_wf_def by blast+
  have sep: "brange b \<inter> brange (i, x) = {}" if "b \<in> bd_blocks s - {(i, x)}" for b
    using dj ix that unfolding pairwise_def by blast
  have "F - brange (i, x) = \<Union> (brange ` bd_blocks ?s)"
    unfolding F B using sep by blast
  moreover have "\<forall>j \<le> max_order ?s. distinct (bd_free_list ?s j)" "total_pages ?s = 2 ^ max_order ?s"
    using wf l(2) by (auto simp: bd_wf_def)
  moreover have "\<forall>(j, y) \<in> bd_blocks ?s. aligned ?s j y" using wf by (auto simp: bd_wf_def B)
  moreover have "pairwise (\<lambda>b c. brange b \<inter> brange c = {}) (bd_blocks ?s)"
    unfolding B by (rule pairwise_subset [OF dj]) auto
  ultimately show ?thesis unfolding bd_wf_def brange_pair by blast
qed

section \<open>Splitting\<close>

lemma split_block_sel [simp]:
  "max_order (split_block x r d s) = max_order s" "bd_base (split_block x r d s) = bd_base s"
  "total_pages (split_block x r d s) = total_pages s" "bd_nr_free (split_block x r d s) = bd_nr_free s"
  by (induction x r d s rule: split_block.induct) auto

lemma aligned_half:
  assumes "aligned s (Suc i) x" shows "aligned s i x" "aligned s i (x + 2 ^ i)"
proof -
  obtain k where "x - bd_base s = 2 ^ Suc i * k" using assms by (auto simp: aligned_def elim: dvdE)
  then have "x - bd_base s = 2 ^ i * (2 * k)" "bd_base s \<le> x \<Longrightarrow> x + 2 ^ i - bd_base s = 2 ^ i * (2 * k + 1)"
    by (auto simp: algebra_simps)
  then have "2 ^ i dvd x - bd_base s" "bd_base s \<le> x \<Longrightarrow> 2 ^ i dvd x + 2 ^ i - bd_base s"
    by (metis dvd_triv_left)+
  then show "aligned s i x" "aligned s i (x + 2 ^ i)" using assms by (auto simp: aligned_def)
qed

lemma split_block_wf:
  "bd_wf s F \<Longrightarrow> r + d \<le> max_order s \<Longrightarrow> aligned s (r + d) x \<Longrightarrow> {x..<x + 2 ^ (r + d)} \<inter> F = {} \<Longrightarrow>
     bd_wf (split_block x r d s) (F \<union> {x + 2 ^ r..<x + 2 ^ (r + d)})"
proof (induction x r d s arbitrary: F rule: split_block.induct)
  case (2 x r d s)
  let ?s = "buddy_insert_block (x + power_of_two (r + d)) (r + d) s"
  let ?F = "F \<union> {x + 2 ^ (r + d)..<x + 2 ^ (r + d) + 2 ^ (r + d)}"
  have al: "aligned s (r + d) x" "aligned s (r + d) (x + 2 ^ (r + d))"
    using aligned_half [of s "r + d" x] "2.prems"(3) by simp_all
  have dj: "{x + 2 ^ (r + d)..<x + 2 ^ (r + d) + 2 ^ (r + d)} \<inter> F = {}" "{x..<x + 2 ^ (r + d)} \<inter> ?F = {}"
    using "2.prems"(4) by (auto simp: disjoint_iff)
  have "bd_wf ?s ?F"
    using bd_wf_insert [OF "2.prems"(1) _ al(2) dj(1)] "2.prems"(2) by (simp add: power_of_two_def)
  from "2.IH" [OF this] have
    "bd_wf (split_block x r d ?s) (?F \<union> {x + 2 ^ r..<x + 2 ^ (r + d)})"
    using al(1) dj(2) "2.prems"(2) by simp
  moreover have "{x + 2 ^ r..<x + 2 ^ (r + d)} \<union> {x + 2 ^ (r + d)..<x + 2 ^ (r + d) + 2 ^ (r + d)} =
      {x + 2 ^ r..<x + 2 ^ (r + d) + 2 ^ (r + d)}"
    by (rule ivl_disj_un_two) simp_all
  then have "?F \<union> {x + 2 ^ r..<x + 2 ^ (r + d)} = F \<union> {x + 2 ^ r..<x + 2 ^ (r + d) + 2 ^ (r + d)}"
    by blast
  moreover have "x + 2 ^ (r + Suc d) = x + 2 ^ (r + d) + 2 ^ (r + d)" by simp
  ultimately show ?case by (simp only: split_block.simps)
qed simp

lemma find_order_Some: "find_order i s = Some j \<Longrightarrow> i \<le> j \<and> j \<le> max_order s \<and> bd_free_list s j \<noteq> []"
proof (induction i s rule: find_order.induct)
  case (1 i s)
  then show ?case by (subst (asm) (2) find_order.simps) (auto split: if_splits)
qed

lemma find_order_None: "find_order i s = None \<Longrightarrow> i \<le> j \<Longrightarrow> j \<le> max_order s \<Longrightarrow> bd_free_list s j = []"
proof (induction i s rule: find_order.induct)
  case (1 i s)
  then show ?case by (subst (asm) (2) find_order.simps) (auto split: if_splits dest: le_neq_implies_less [of i j] simp: Suc_le_eq)
qed

section \<open>Allocation and merging\<close>

lemma split_blocks_free:
  assumes wf: "bd_wf s F" and f: "find_order (order_of n) s = Some cur"
    and s1: "s1 = s\<lparr>bd_free_list := (bd_free_list s)(cur := tl (bd_free_list s cur))\<rparr>"
    and b: "b = hd (bd_free_list s cur)"
  shows "bd_wf (split_block b (order_of n) (cur - order_of n) s1) (F - {b..<b + 2 ^ order_of n})"
    and "{b..<b + 2 ^ order_of n} \<subseteq> F" and "aligned s (order_of n) b"
proof -
  let ?r = "order_of n"
  have c: "?r \<le> cur" "cur \<le> max_order s" "bd_free_list s cur \<noteq> []"
    using find_order_Some [OF f] by auto
  have d: "distinct (bd_free_list s cur)" using wf c by (simp add: bd_wf_def)
  have m: "b \<in> set (bd_free_list s cur)" using c(3) b by simp
  have blk: "aligned s cur b" "{b..<b + 2 ^ cur} \<subseteq> F" using bd_wf_block [OF wf c(2) m] by auto
  have "bd_wf s1 (F - {b..<b + 2 ^ cur})" unfolding s1
    by (rule bd_wf_remove [OF wf c(2) m]) (use d b c(3) in \<open>cases "bd_free_list s cur"; auto\<close>)+
  moreover have "aligned s1 (?r + (cur - ?r)) b" "max_order s1 = max_order s" using blk(1) c(1) by (simp_all add: s1)
  ultimately have w: "bd_wf (split_block b ?r (cur - ?r) s1)
      ((F - {b..<b + 2 ^ cur}) \<union> {b + 2 ^ ?r..<b + 2 ^ cur})"
    using split_block_wf [of s1 "F - {b..<b + 2 ^ cur}" ?r "cur - ?r" b] c(1,2) by auto
  have le: "(2 :: nat) ^ ?r \<le> 2 ^ cur" using c(1) by simp
  have sub: "{b..<b + 2 ^ ?r} \<subseteq> {b..<b + 2 ^ cur}" using c(1) by simp
  have "{b + 2 ^ ?r..<b + 2 ^ cur} = {b..<b + 2 ^ cur} - {b..<b + 2 ^ ?r}" by auto
  then have "(F - {b..<b + 2 ^ cur}) \<union> {b + 2 ^ ?r..<b + 2 ^ cur} = F - {b..<b + 2 ^ ?r}"
    using blk(2) sub by blast
  with w show "bd_wf (split_block b ?r (cur - ?r) s1) (F - {b..<b + 2 ^ ?r})" by simp
  show "{b..<b + 2 ^ ?r} \<subseteq> F" using blk(2) sub by blast
  have "(2 :: nat) ^ ?r dvd 2 ^ cur" by (rule le_imp_power_dvd [OF c(1)])
  moreover have "b - bd_base s + 2 ^ ?r \<le> total_pages s"
    by (rule order_trans [OF add_left_mono [OF le]]) (use blk(1) in \<open>unfold aligned_def, blast\<close>)
  ultimately show "aligned s ?r b" using blk(1) by (auto simp: aligned_def intro: dvd_trans)
qed

text \<open>The address of the buddy: the neighbour of the same order inside the pair.\<close>

lemma xor_power_aligned:
  fixes off :: nat
  assumes "2 ^ i dvd off"
  shows "off XOR 2 ^ i = (if 2 ^ Suc i dvd off then off + 2 ^ i else off - 2 ^ i)"
proof -
  obtain m where m: "off = 2 ^ i * m" using assms by blast
  have "off = push_bit i m" "2 ^ i = push_bit i (1 :: nat)" by (simp_all add: m push_bit_eq_mult)
  then have "off XOR 2 ^ i = push_bit i (m XOR 1)" by (simp only: push_bit_xor)
  also have "m XOR 1 = (if even m then m + 1 else m - 1)" using xor_one_eq [of m] by auto
  finally show ?thesis
    by (auto simp: m push_bit_eq_mult algebra_simps diff_mult_distrib2)
qed

lemma buddy_pair:
  assumes al: "aligned s i x" and i: "i < max_order s" and tot: "total_pages s = 2 ^ max_order s"
    and b: "b = bd_base s + ((x - bd_base s) XOR power_of_two i)"
  shows "aligned s (Suc i) (min b x)"
    and "{min b x..<min b x + 2 ^ Suc i} = {x..<x + 2 ^ i} \<union> {b..<b + 2 ^ i}"
proof -
  let ?o = "x - bd_base s"
  have dv: "2 ^ i dvd ?o" and x: "x = bd_base s + ?o" and le: "?o + 2 ^ i \<le> total_pages s"
    using al by (auto simp: aligned_def)
  obtain k where k: "?o = 2 ^ i * k" using dv by blast
  show "aligned s (Suc i) (min b x)"
  proof (cases "even k")
    case True
    then have d: "2 ^ Suc i dvd ?o" using k by (auto elim!: evenE)
    then have mn: "min b x = x" using b x xor_power_aligned [OF dv] by (simp add: power_of_two_def)
    have "(2 :: nat) ^ Suc i dvd total_pages s" using i tot by (simp add: le_imp_power_dvd Suc_le_eq del: power_Suc)
    then obtain t o' where "total_pages s = 2 ^ Suc i * t" "?o = 2 ^ Suc i * o'" using d by blast
    moreover have "?o < total_pages s" using le by (metis add_leE le_neq_implies_less less_add_same_cancel1 not_less zero_less_numeral zero_less_power)
    ultimately have "?o + 2 ^ Suc i \<le> total_pages s"
      by (metis Suc_leI mult_Suc_right mult_le_mono2 mult_less_cancel1 add.commute)
    then show ?thesis using d al mn by (simp add: aligned_def)
  next
    case False
    then obtain j where j: "k = Suc (2 * j)" by (auto elim!: oddE)
    have "\<not> 2 ^ i * 2 dvd 2 ^ i * k" using False by (subst dvd_times_left_cancel_iff) auto
    then have nd: "\<not> 2 ^ Suc i dvd ?o" by (simp only: k power_Suc2 not_False_eq_True)
    have o: "?o - 2 ^ i = 2 ^ Suc i * j" "2 ^ i \<le> ?o" using k j by auto
    have "b = bd_base s + 2 ^ Suc i * j"
      using b o xor_power_aligned [OF dv] nd by (simp add: power_of_two_def)
    moreover have "x = bd_base s + 2 ^ Suc i * j + 2 ^ i" using x k j by (simp add: algebra_simps)
    moreover have "b < x" unfolding calculation by simp
    ultimately show ?thesis using le o by (simp add: aligned_def)
  qed
  show "{min b x..<min b x + 2 ^ Suc i} = {x..<x + 2 ^ i} \<union> {b..<b + 2 ^ i}"
  proof (cases "2 ^ Suc i dvd ?o")
    case True
    then have "b = x + 2 ^ i" using b x xor_power_aligned [OF dv] by (simp add: power_of_two_def)
    then show ?thesis by auto
  next
    case False
    then have "?o \<noteq> 0" by auto
    then have "2 ^ i \<le> ?o" using dv by (simp add: dvd_imp_le)
    then have "x = b + 2 ^ i" using b x xor_power_aligned [OF dv] False by (simp add: power_of_two_def)
    then show ?thesis by auto
  qed
qed

lemma merge_buddies_wf:
  "bd_wf s F \<Longrightarrow> i \<le> max_order s \<Longrightarrow> aligned s i x \<Longrightarrow> {x..<x + 2 ^ i} \<inter> F = {} \<Longrightarrow>
     merge_buddies x i s = (x', i', s') \<Longrightarrow>
     max_order s' = max_order s \<and> bd_base s' = bd_base s \<and> total_pages s' = total_pages s \<and>
     bd_nr_free s' = bd_nr_free s \<and> i \<le> i' \<and> i' \<le> max_order s \<and> aligned s i' x' \<and>
     (\<exists>F'. bd_wf s' F' \<and> {x'..<x' + 2 ^ i'} \<inter> F' = {} \<and> F' \<union> {x'..<x' + 2 ^ i'} = F \<union> {x..<x + 2 ^ i})"
proof (induction x i s arbitrary: F rule: merge_buddies.induct)
  case (1 x i s)
  define b where "b = bd_base s + ((x - bd_base s) XOR power_of_two i)"
  show ?case
  proof (cases "i < max_order s \<and> b \<in> set (bd_free_list s i)")
    case False
    then have "merge_buddies x i s = (x, i, s)" by (subst merge_buddies.simps) (auto simp: b_def Let_def)
    then show ?thesis using "1.prems" by auto
  next
    case True
    define y where "y = (if b < x then b else x)"
    have y: "y = min b x" by (simp add: y_def min_def)
    let ?s1 = "s\<lparr>bd_free_list := (bd_free_list s)(i := remove1 b (bd_free_list s i))\<rparr>"
    let ?s2 = "?s1\<lparr>bd_pages := (bd_pages ?s1)(y := (bd_pages ?s1 y)\<lparr>property := power_of_two (Suc i)\<rparr>)\<rparr>"
    have "merge_buddies x i s = merge_buddies y (Suc i) ?s2"
      using True unfolding y_def b_def by (subst merge_buddies.simps) (simp add: Let_def split del: if_split)
    then have m: "merge_buddies y (Suc i) ?s2 = (x', i', s')" using "1.prems"(5) by simp
    have w1: "bd_wf ?s1 (F - {b..<b + 2 ^ i})"
      by (rule bd_wf_remove) (use "1.prems" True in \<open>auto simp: bd_wf_def\<close>)
    have tot: "total_pages s = 2 ^ max_order s" using "1.prems"(1) by (simp add: bd_wf_def)
    note P = buddy_pair [OF "1.prems"(3) _ tot b_def]
    have sub: "{b..<b + 2 ^ i} \<subseteq> F" using bd_wf_block [OF "1.prems"(1,2)] True by blast
    have "{y..<y + 2 ^ Suc i} \<inter> (F - {b..<b + 2 ^ i}) = {}"
      using P(2) True "1.prems"(4) unfolding y by blast
    then have "max_order s' = max_order s \<and> bd_base s' = bd_base s \<and> total_pages s' = total_pages s \<and>
     bd_nr_free s' = bd_nr_free s \<and> Suc i \<le> i' \<and> i' \<le> max_order s \<and> aligned s i' x' \<and>
     (\<exists>F'. bd_wf s' F' \<and> {x'..<x' + 2 ^ i'} \<inter> F' = {} \<and>
        F' \<union> {x'..<x' + 2 ^ i'} = (F - {b..<b + 2 ^ i}) \<union> {y..<y + 2 ^ Suc i})"
      using "1.IH" [OF _ b_def _ refl y_def refl, of "F - {b..<b + 2 ^ i}"] True w1 m P(1) y
      by (simp del: power_Suc)
    moreover have "(F - {b..<b + 2 ^ i}) \<union> {y..<y + 2 ^ Suc i} = F \<union> {x..<x + 2 ^ i}"
      using P(2) True sub unfolding y by blast
    ultimately show ?thesis by auto
  qed
qed

section \<open>The manager\<close>

text \<open>An allocation gives out an aligned block of \<open>2 ^ order_of n\<close> pages taken from the free set.\<close>

lemma buddy_alloc_Some:
  assumes wf: "bd_wf s F" and a: "buddy_alloc_pages n s = Some (Some p, s')"
  shows "{p..<p + 2 ^ order_of n} \<subseteq> F \<and> bd_wf s' (F - {p..<p + 2 ^ order_of n}) \<and>
    aligned s (order_of n) p \<and> aligned s' = aligned s"
proof -
  obtain cur where f: "find_order (order_of n) s = Some cur"
    using a by (auto simp: buddy_alloc_pages_def kspec buddy_alloc_block_def Let_def order_of_def
        split: if_splits option.splits)
  let ?b = "hd (bd_free_list s cur)"
  let ?s1 = "s\<lparr>bd_free_list := (bd_free_list s)(cur := tl (bd_free_list s cur))\<rparr>"
  let ?s2 = "split_block ?b (order_of n) (cur - order_of n) ?s1"
  have s': "p = ?b" "s' = ?s2\<lparr>bd_pages := (bd_pages ?s2)(?b := (bd_pages ?s2 ?b)\<lparr>property := 0\<rparr>),
      bd_nr_free := bd_nr_free ?s2 - power_of_two (order_of n)\<rparr>"
    using a f by (auto simp: buddy_alloc_pages_def kspec buddy_alloc_block_def Let_def order_of_def
        split: if_splits)
  have "aligned ?s2 = aligned s" by (simp add: aligned_def fun_eq_iff)
  then show ?thesis using split_blocks_free [OF wf f refl refl] s' by simp
qed

lemma buddy_free_wf:
  assumes wf: "bd_wf s F" and n: "0 < n" and al: "aligned s (order_of n) p"
    and fr: "{p..<p + 2 ^ order_of n} \<inter> F = {}" and i: "order_of n \<le> max_order s"
  shows "\<exists>s'. buddy_free_pages p n s = Some s' \<and> bd_wf s' (F \<union> {p..<p + 2 ^ order_of n}) \<and>
    aligned s' = aligned s \<and> max_order s' = max_order s"
proof -
  let ?pg = "upd_range (\<lambda>p. p\<lparr>flags := 0, ref := 0\<rparr>) p n (bd_pages s)"
  let ?s1 = "s\<lparr>bd_pages := ?pg(p := (?pg p)\<lparr>property := power_of_two (order_of n)\<rparr>)\<rparr>"
  obtain x' i' s2 where m: "merge_buddies p (order_of n) ?s1 = (x', i', s2)" by (metis prod_cases3)
  have M: "max_order s2 = max_order s \<and> bd_base s2 = bd_base s \<and> total_pages s2 = total_pages s \<and>
     i' \<le> max_order s \<and> aligned ?s1 i' x' \<and>
     (\<exists>F'. bd_wf s2 F' \<and> {x'..<x' + 2 ^ i'} \<inter> F' = {} \<and>
        F' \<union> {x'..<x' + 2 ^ i'} = F \<union> {p..<p + 2 ^ order_of n})"
    using merge_buddies_wf [of ?s1 F "order_of n" p x' i' s2] wf i al fr m by auto
  then obtain F' where F': "bd_wf s2 F'" "{x'..<x' + 2 ^ i'} \<inter> F' = {}"
    "F' \<union> {x'..<x' + 2 ^ i'} = F \<union> {p..<p + 2 ^ order_of n}" by auto
  let ?s3 = "buddy_insert_block x' i' s2"
  have al2: "aligned s2 = aligned s" using M by (simp add: aligned_def fun_eq_iff)
  have w: "bd_wf ?s3 (F \<union> {p..<p + 2 ^ order_of n})"
    using bd_wf_insert [of s2 F' i' x'] F' M al2 by simp
  have "bd_base s \<le> p \<and> p < bd_base s + total_pages s"
    using al unfolding aligned_def
    by (metis add_gr_0 le_add_diff_inverse less_add_same_cancel1 nat_add_left_cancel_less
        order_less_le_trans zero_less_numeral zero_less_power)
  then have "buddy_free_pages p n s = Some (?s3\<lparr>bd_nr_free := bd_nr_free ?s3 + power_of_two i'\<rparr>)"
    using n m by (simp add: buddy_free_pages_def buddy_free_block_def order_of_def Let_def)
  then show ?thesis using w al2 M by auto
qed

lemma aligned_order_le:
  assumes "aligned s i p" "total_pages s = 2 ^ max_order s" shows "i \<le> max_order s"
proof -
  have "(2 :: nat) ^ i \<le> 2 ^ max_order s" using assms unfolding aligned_def by linarith
  then show ?thesis by simp
qed

interpretation buddy: page_allocator buddy_pmm_manager bd_wf "\<lambda>n. 2 ^ order_of n"
  "\<lambda>p n s. aligned s (order_of n) p" "\<lambda>_ _. True"
proof (unfold_locales, simp_all only: buddy_pmm_manager_def pmm_manager.simps)
  show "n \<le> 2 ^ order_of n" for n by (rule order_of_ge)
  fix s F n assume i: "bd_wf s F" and n: "0 < (n :: nat)"
  show "\<exists>r s'. buddy_alloc_pages n s = Some (r, s')" using n
    by (auto simp: buddy_alloc_pages_def intro: prod.exhaust)
  show "s' = s" if "buddy_alloc_pages n s = Some (None, s')" for s'
    using that n by (auto simp: buddy_alloc_pages_def buddy_alloc_block_def Let_def split: if_splits option.splits)
  show "{p..<p + 2 ^ order_of n} \<subseteq> F \<and> bd_wf s' (F - {p..<p + 2 ^ order_of n}) \<and> aligned s' (order_of n) p"
    if "buddy_alloc_pages n s = Some (Some p, s')" for p s' using buddy_alloc_Some [OF i that] by simp
  show "aligned s' (order_of m) q"
    if "buddy_alloc_pages n s = Some (Some p, s')" "aligned s (order_of m) q" for p s' q m
    using buddy_alloc_Some [OF i that(1)] that(2) by simp
  fix p assume f: "{p..<p + 2 ^ order_of n} \<inter> F = {}" and al: "aligned s (order_of n) p"
  have "order_of n \<le> max_order s" by (rule aligned_order_le [OF al]) (use i in \<open>simp add: bd_wf_def\<close>)
  note W = buddy_free_wf [OF i n al f this]
  show "\<exists>s'. buddy_free_pages p n s = Some s' \<and> bd_wf s' (F \<union> {p..<p + 2 ^ order_of n})" using W by blast
  show "aligned s' (order_of m) q" if "buddy_free_pages p n s = Some s'" "aligned s (order_of m) q" for s' q m
    using W that by auto
qed

section \<open>Properties\<close>

definition buddy0 :: "nat \<Rightarrow> buddy_system" where
  "buddy0 n = the (buddy_init_memmap 0 n (buddy_init \<lparr>bd_pages = (\<lambda>_. \<lparr>ref = 0, flags = 1, property = 0, pra_vaddr = 0\<rparr>),
     total_pages = 0, bd_base = 0, bd_free_list = (\<lambda>_. []), max_order = 0, bd_nr_free = 0\<rparr>))"

lemma buddy_init_wf:
  assumes "is_order_of_two n" "n = 2 ^ k"
  shows "bd_wf (buddy_init_system n base s) {base..<base + n}"
proof -
  have "n AND (n - 1) = 0" "\<not> n < 1" using assms by (simp_all add: is_order_of_two_def)
  moreover have "bd_blocks (buddy_init_system n base s) = {(k, base)}"
    using assms by (auto simp: bd_blocks_def buddy_init_system_def get_order_power Let_def split: if_splits)
  ultimately show ?thesis using assms
    by (auto simp: bd_wf_def buddy_init_system_def get_order_power Let_def aligned_def pairwise_singleton)
qed

text \<open>C3. In every run of allocations and releases on the buddy manager the blocks it hands out, each of
  the size rounded up to a power of two, never overlap and stay inside the pool, and with the free
  blocks they always make up the whole pool: no page is lost or handed out twice.\<close>

theorem buddy_runs_disjoint:
  assumes "bd_wf s U"
    and "client_run buddy_pmm_manager (\<lambda>_ _. True) ((sie, s), []) ((sie', s'), held)"
  shows "\<exists>F. bd_wf s' F \<and> held_disjoint fix_size held \<and> F \<inter> held_pages fix_size held = {} \<and>
    F \<union> held_pages fix_size held = U"
proof -
  have "fix_size = (\<lambda>n. 2 ^ order_of n)" by (rule ext) (rule fix_size_order_of)
  then show ?thesis using buddy.run_partition [of "(sie, s)" U "(sie', s')" held] assms by simp
qed

lemma buddy_init_memmap_power:
  "is_order_of_two n \<Longrightarrow> buddy_init_memmap base n s = Some (buddy_init_system n base s)"
  by (simp add: buddy_init_memmap_def is_order_of_two_def)

lemma power_of_two_4: "is_order_of_two 4" "get_order 4 = 2"
  using is_order_of_two_power [of 2] get_order_power [of 2] by simp_all

lemma buddy0_wf: "bd_wf (buddy0 4) {0..<4}"
  unfolding buddy0_def buddy_init_memmap_power [OF power_of_two_4(1)] option.sel
  by (rule buddy_init_wf [of 4 2 0, unfolded add_0]) (simp_all add: power_of_two_4)

lemma buddy_runs_disjoint_witness:
  "\<exists>s' F. client_run buddy_pmm_manager (\<lambda>_ _. True) ((True, buddy0 4), []) ((True, s'), [(0, 2)]) \<and>
     F \<union> held_pages fix_size [(0, 2)] = {0..<4}"
proof -
  have b: "max_order (buddy0 4) = 2" "bd_nr_free (buddy0 4) = 4" "bd_free_list (buddy0 4) 2 = [0]"
    "bd_free_list (buddy0 4) (Suc 0) = []"
    unfolding buddy0_def buddy_init_memmap_power [OF power_of_two_4(1)] option.sel
    by (simp_all add: buddy_init_system_def power_of_two_4 Let_def)
  have "find_order 1 (buddy0 4) = Some 2"
    by (subst find_order.simps, subst find_order.simps) (simp add: b numeral_2_eq_2 [symmetric])
  then have "map_option (\<lambda>(r, sie, s). (r, sie)) (alloc_pages buddy_pmm_manager 2 (True, buddy0 4)) = Some (Some 0, True)"
    using fix_size_order_of [of 2] order_of_2
    by (simp add: alloc_pages_def buddy_pmm_manager_def intr_save_def intr_restore_def buddy_alloc_pages_def
        buddy_alloc_block_def Let_def b order_of_def)
  then obtain s' where a: "alloc_pages buddy_pmm_manager 2 (True, buddy0 4) = Some (Some 0, True, s')" by auto
  have r: "client_run buddy_pmm_manager (\<lambda>_ _. True) ((True, buddy0 4), []) ((True, s'), [(0, 2)])"
    by (rule r_into_rtranclp, rule step_alloc [OF _ a]) simp
  show ?thesis using buddy_runs_disjoint [OF buddy0_wf r] r by blast
qed

text \<open>The count of free pages is not kept: a release that merges adds the size of the merged block,
  although the buddy was already counted. After one page of a pool of two is taken and given back, the
  manager reports three free pages.\<close>

theorem buddy_count_drifts:
  "(do { s0 \<leftarrow> buddy_init_memmap 0 2 (buddy0 1);
         (r, s1) \<leftarrow> buddy_alloc_pages 1 s0;
         s2 \<leftarrow> buddy_free_pages (the r) 1 s1;
         Some (buddy_nr_free_pages s0, buddy_nr_free_pages s1, buddy_nr_free_pages s2, total_pages s2) }) =
   Some (2, 1, 3, 2)"
proof -
  have i: "buddy_init_memmap 0 2 s = Some (buddy_init_system 2 0 s)" for s
    by (simp add: buddy_init_memmap_def is_order_of_two_def)
  have o: "get_order 2 = 1" "get_order (Suc 0) = 0" using get_order_power [of 1] get_order_power [of 0] by simp_all
  show ?thesis
    by (simp add: i buddy_init_system_def is_order_of_two_def Let_def o buddy_alloc_pages_def buddy_free_pages_def
        buddy_alloc_block_def buddy_free_block_def fix_size_small find_order.simps merge_buddies.simps
        power_of_two_def buddy_insert_block_def buddy_nr_free_pages_def)
qed

text \<open>A region whose size is not a power of two is rounded up, not down: of a region of \<open>n\<close> pages
  \<^verbatim>\<open>buddy_init_memmap\<close> makes a pool of \<open>fix_size n > n\<close> pages, all of them free, of which the last are not
  part of the region.\<close>

theorem buddy_init_overruns:
  assumes "0 < n" and "\<not> is_order_of_two n"
  shows "\<exists>s'. buddy_init_memmap base n s = Some s' \<and> bd_wf s' {base..<base + fix_size n} \<and>
    n < fix_size n \<and> buddy_nr_free_pages s' = fix_size n"
proof -
  let ?k = "order_of n"
  have n: "n \<noteq> 2 ^ ?k" using assms is_order_of_two_power by metis
  then have "n < fix_size n" using order_of_ge [of n] by (simp add: fix_size_order_of)
  moreover have "is_order_of_two (fix_size n)" by (simp add: fix_size_order_of is_order_of_two_power)
  moreover have "\<not> fix_size n < 1" by (simp add: fix_size_order_of not_less Suc_leI)
  ultimately show ?thesis using assms buddy_init_wf [of "fix_size n" ?k base s]
    by (simp add: buddy_init_memmap_def fix_size_order_of buddy_nr_free_pages_def buddy_init_system_def Let_def)
qed

lemma buddy_init_overruns_witness:
  "\<exists>s'. buddy_init_memmap 0 5 (buddy0 1) = Some s' \<and> 5 < fix_size 5"
proof -
  have "\<not> is_order_of_two 5" by (simp add: is_order_of_two_def)
  then show ?thesis using buddy_init_overruns [of 5 0 "buddy0 1"] by auto
qed

end
