(* ===== verification/Slob.thy ===== *)
theory Slob
  imports PmmInterface "HOL-Library.Multiset"
begin

text \<open>
  The kernel heap, \<^verbatim>\<open>kern/mm/kmalloc.c\<close>: the SLOB allocator, a circular list of free blocks in address order that
  grows by one page at a time, and \<^verbatim>\<open>kmalloc\<close>, \<^verbatim>\<open>kfree\<close> and \<^verbatim>\<open>ksize\<close> above it, which give large requests whole
  pages of the physical memory manager. This theory holds the definitions and the lemmas on the free list;
  \<open>SlobProps\<close> has those on the heap as a whole.

  An address is a number, \<open>0\<close> the null pointer. The headers \<^verbatim>\<open>slob_t\<close> are a map from addresses; a block of \<open>u\<close>
  units at \<open>a\<close> is the bytes \<open>{a..<a + 16 * u}\<close>, and the header at \<open>a\<close> its first 16. The number of units is an
  \<^verbatim>\<open>int\<close> that no heap in the memory of the machine brings near its bound, and natural here. The list of large blocks
  is an HOL list; its nodes lie in blocks of the heap, whose headers they overwrite, which is why the properties
  hold for every value of the headers there. The two locks disable interrupts, so that a section between them is one step.
\<close>

section \<open>Data\<close>

record slob_block =
  units :: nat
  next_block :: nat

record bigblock =
  bb_addr :: nat
  bb_order :: nat
  bb_pages :: nat

record 's slob =
  slob_mem :: "nat \<Rightarrow> slob_block"
  slobfree :: nat
  bigblocks :: "bigblock list"
  slob_pmm :: "bool \<times> 's"

text \<open>Where things are: the address of the static \<^verbatim>\<open>arena\<close>, the address at which the kernel sees page \<open>0\<close> of the
  array \<^verbatim>\<open>pages\<close>, and the number of pages.\<close>

record slob_layout =
  arena :: nat
  kva_base :: nat
  slob_npage :: nat

definition slob_start :: "slob_layout \<Rightarrow> bool \<times> 's \<Rightarrow> (nat \<Rightarrow> slob_block) \<Rightarrow> 's slob" where
  "slob_start lay k m = \<lparr>slob_mem = m(arena lay := \<lparr>units = 1, next_block = arena lay\<rparr>),
     slobfree = arena lay, bigblocks = [], slob_pmm = k\<rparr>"

definition SLOB_UNITS :: "nat \<Rightarrow> nat" where
  "SLOB_UNITS sz = (sz + 16 - 1) div 16"

definition ALIGN :: "nat \<Rightarrow> nat \<Rightarrow> nat" where
  "ALIGN addr sz = unat ((word_of_nat addr + word_of_nat sz - 1 :: u64) AND NOT (word_of_nat sz - 1))"

definition set_units :: "nat \<Rightarrow> nat \<Rightarrow> 's slob \<Rightarrow> 's slob" where
  "set_units a u st = st\<lparr>slob_mem := (slob_mem st)(a := (slob_mem st a)\<lparr>units := u\<rparr>)\<rparr>"

definition set_next :: "nat \<Rightarrow> nat \<Rightarrow> 's slob \<Rightarrow> 's slob" where
  "set_next a n st = st\<lparr>slob_mem := (slob_mem st)(a := (slob_mem st a)\<lparr>next_block := n\<rparr>)\<rparr>"

abbreviation units_of :: "'s slob \<Rightarrow> nat \<Rightarrow> nat" where
  "units_of st a \<equiv> units (slob_mem st a)"

abbreviation next_of :: "'s slob \<Rightarrow> nat \<Rightarrow> nat" where
  "next_of st a \<equiv> next_block (slob_mem st a)"

section \<open>Pages\<close>

definition slob_kva :: "slob_layout \<Rightarrow> nat \<Rightarrow> nat" where
  "slob_kva lay page = kva_base lay + 4096 * page"

definition slob_kva2page :: "slob_layout \<Rightarrow> nat \<Rightarrow> nat option" where
  "slob_kva2page lay kva = do {
     kassert (kva_base lay \<le> kva \<and> (kva - kva_base lay) div 4096 < slob_npage lay);
     Some ((kva - kva_base lay) div 4096)
   }"

definition slob_get_free_pages :: "slob_layout \<Rightarrow> 's pmm_manager \<Rightarrow> nat \<Rightarrow> 's slob \<Rightarrow> (nat \<times> 's slob) option" where
  "slob_get_free_pages lay mgr order st = do {
     (page, k) \<leftarrow> alloc_pages mgr (2 ^ order) (slob_pmm st);
     Some (case page of None \<Rightarrow> 0 | Some p \<Rightarrow> slob_kva lay p, st\<lparr>slob_pmm := k\<rparr>)
   }"

definition slob_free_pages :: "slob_layout \<Rightarrow> 's pmm_manager \<Rightarrow> nat \<Rightarrow> nat \<Rightarrow> 's slob \<Rightarrow> 's slob option" where
  "slob_free_pages lay mgr kva order st = do {
     page \<leftarrow> slob_kva2page lay kva;
     k \<leftarrow> free_pages mgr page (2 ^ order) (slob_pmm st);
     Some (st\<lparr>slob_pmm := k\<rparr>)
   }"

section \<open>Giving a block back\<close>

partial_function (option) insertion_point :: "(nat \<Rightarrow> slob_block) \<Rightarrow> nat \<Rightarrow> nat \<Rightarrow> nat option" where
  "insertion_point m b cur =
     (if cur < b \<and> b < next_block (m cur) then Some cur
      else if next_block (m cur) \<le> cur \<and> (cur < b \<or> b < next_block (m cur)) then Some cur
      else insertion_point m b (next_block (m cur)))"

definition join_next :: "nat \<Rightarrow> nat \<Rightarrow> 's slob \<Rightarrow> 's slob" where
  "join_next cur b st =
     (let n = next_of st cur
      in if b + 16 * units_of st b = n
         then (let st = set_units b (units_of st b + units_of st n) st in set_next b (next_of st n) st)
         else set_next b n st)"

definition join_cur :: "nat \<Rightarrow> nat \<Rightarrow> 's slob \<Rightarrow> 's slob" where
  "join_cur cur b st =
     (if cur + 16 * units_of st cur = b
      then (let st = set_units cur (units_of st cur + units_of st b) st in set_next cur (next_of st b) st)
      else set_next cur b st)"

definition slob_free :: "nat \<Rightarrow> nat \<Rightarrow> 's slob \<Rightarrow> 's slob option" where
  "slob_free b sz st =
     (if b = 0 then Some st
      else do {
        let st = (if sz \<noteq> 0 then set_units b (SLOB_UNITS sz) st else st);
        cur \<leftarrow> insertion_point (slob_mem st) b (slobfree st);
        Some ((join_cur cur b (join_next cur b st))\<lparr>slobfree := cur\<rparr>)
      })"

section \<open>Taking a block\<close>

definition split_head :: "nat \<Rightarrow> nat \<Rightarrow> nat \<Rightarrow> 's slob \<Rightarrow> 's slob" where
  "split_head cur aligned delta st =
     (let st = set_units aligned (units_of st cur - delta) st;
          st = set_next aligned (next_of st cur) st;
          st = set_next cur aligned st
      in set_units cur delta st)"

definition take_units :: "nat \<Rightarrow> nat \<Rightarrow> nat \<Rightarrow> 's slob \<Rightarrow> 's slob" where
  "take_units prev cur u st =
     (if units_of st cur = u then set_next prev (next_of st cur) st
      else let r = cur + 16 * u;
               st = set_next prev r st;
               st = set_units r (units_of st cur - u) st;
               st = set_next r (next_of st cur) st
           in set_units cur u st)"

partial_function (option) slob_alloc_loop ::
  "slob_layout \<Rightarrow> 's pmm_manager \<Rightarrow> nat \<Rightarrow> nat \<Rightarrow> nat \<Rightarrow> nat \<Rightarrow> 's slob \<Rightarrow> (nat \<times> 's slob) option" where
  "slob_alloc_loop lay mgr sz align prev cur st =
     (let aligned = (if align \<noteq> 0 then ALIGN cur align else 0);
          delta = (if align \<noteq> 0 then (aligned - cur) div 16 else 0);
          u = SLOB_UNITS sz
      in if u + delta \<le> units_of st cur
         then (let (prev, cur, st) = (if delta \<noteq> 0 then (cur, aligned, split_head cur aligned delta st)
                                      else (prev, cur, st))
               in Some (cur, (take_units prev cur u st)\<lparr>slobfree := prev\<rparr>))
         else if cur = slobfree st
         then (if sz = 4096 then Some (0, st)
               else do {
                 (page, st) \<leftarrow> slob_get_free_pages lay mgr 0 st;
                 if page = 0 then Some (0, st)
                 else do {
                   st \<leftarrow> slob_free page 4096 st;
                   slob_alloc_loop lay mgr sz align (slobfree st) (next_of st (slobfree st)) st
                 }
               })
         else slob_alloc_loop lay mgr sz align cur (next_of st cur) st)"

definition slob_alloc ::
  "slob_layout \<Rightarrow> 's pmm_manager \<Rightarrow> nat \<Rightarrow> nat \<Rightarrow> 's slob \<Rightarrow> (nat \<times> 's slob) option" where
  "slob_alloc lay mgr sz align st = do {
     kassert (sz + 16 < 4096);
     slob_alloc_loop lay mgr sz align (slobfree st) (next_of st (slobfree st)) st
   }"

section \<open>kmalloc, kfree, ksize\<close>

text \<open>The parameter of \<^verbatim>\<open>find_order\<close> is an \<^verbatim>\<open>int\<close>: \<open>order_of_size\<close> is the call with a \<^verbatim>\<open>size_t\<close>.\<close>

function slob_find_order :: "int \<Rightarrow> nat" where
  "slob_find_order sz = (if 4096 < sz then Suc (slob_find_order (sz div 2)) else 0)"
  by auto
termination by (relation "measure nat") auto

declare slob_find_order.simps [simp del]

definition order_of_size :: "nat \<Rightarrow> nat" where
  "order_of_size sz = slob_find_order (sint (word_of_nat sz :: u32))"

definition kmalloc :: "slob_layout \<Rightarrow> 's pmm_manager \<Rightarrow> nat \<Rightarrow> 's slob \<Rightarrow> (nat \<times> 's slob) option" where
  "kmalloc lay mgr sz st =
     (if sz < 4096 - 16
      then do {
        (m, st) \<leftarrow> slob_alloc lay mgr (sz + 16) 0 st;
        Some (if m \<noteq> 0 then m + 16 else 0, st)
      }
      else do {
        (bb, st) \<leftarrow> slob_alloc lay mgr 24 0 st;
        if bb = 0 then Some (0, st)
        else do {
          let order = order_of_size sz;
          (pages, st) \<leftarrow> slob_get_free_pages lay mgr order st;
          if pages \<noteq> 0
          then Some (pages, st\<lparr>bigblocks := \<lparr>bb_addr = bb, bb_order = order, bb_pages = pages\<rparr> # bigblocks st\<rparr>)
          else do {
            st \<leftarrow> slob_free bb 24 st;
            Some (0, st)
          }
        }
      })"

fun take_big :: "nat \<Rightarrow> bigblock list \<Rightarrow> (bigblock \<times> bigblock list) option" where
  "take_big block [] = None"
| "take_big block (bb # bbs) =
     (if bb_pages bb = block then Some (bb, bbs)
      else map_option (\<lambda>(b, rest). (b, bb # rest)) (take_big block bbs))"

definition kfree :: "slob_layout \<Rightarrow> 's pmm_manager \<Rightarrow> nat \<Rightarrow> 's slob \<Rightarrow> 's slob option" where
  "kfree lay mgr block st =
     (if block = 0 then Some st
      else case (if block mod 4096 = 0 then take_big block (bigblocks st) else None) of
        Some (bb, rest) \<Rightarrow> do {
          st \<leftarrow> slob_free_pages lay mgr block (bb_order bb) (st\<lparr>bigblocks := rest\<rparr>);
          slob_free (bb_addr bb) 24 st
        }
      | None \<Rightarrow> slob_free (block - 16) 0 st)"

definition ksize :: "nat \<Rightarrow> 's slob \<Rightarrow> nat" where
  "ksize block st =
     (if block = 0 then 0
      else case (if block mod 4096 = 0 then take_big block (bigblocks st) else None) of
        Some (bb, rest) \<Rightarrow> 4096 * 2 ^ bb_order bb
      | None \<Rightarrow> units_of st (block - 16) * 16)"

section \<open>The free list\<close>

definition ring :: "(nat \<Rightarrow> slob_block) \<Rightarrow> nat list \<Rightarrow> bool" where
  "ring m zs \<longleftrightarrow> map (\<lambda>a. next_block (m a)) zs = rotate1 zs"

text \<open>\<open>lk m xs e\<close>: the pointers lead through \<open>xs\<close> and on to \<open>e\<close>.\<close>

fun lk :: "(nat \<Rightarrow> slob_block) \<Rightarrow> nat list \<Rightarrow> nat \<Rightarrow> bool" where
  "lk m [] e \<longleftrightarrow> True"
| "lk m (x # xs) e \<longleftrightarrow> next_block (m x) = hd (xs @ [e]) \<and> lk m xs e"

lemma lk_append [simp]: "lk m (xs @ ys) e \<longleftrightarrow> lk m xs (hd (ys @ [e])) \<and> lk m ys e"
  by (induction xs) (auto simp: hd_append)

lemma lk_cong: "(\<And>a. a \<in> set xs \<Longrightarrow> next_block (m' a) = next_block (m a)) \<Longrightarrow> lk m' xs e \<longleftrightarrow> lk m xs e"
  by (induction xs) auto

lemma lk_map: "lk m xs e \<longleftrightarrow> map (\<lambda>a. next_block (m a)) xs = tl (xs @ [e])"
proof (induction xs)
  case (Cons x xs)
  have "xs @ [e] = hd (xs @ [e]) # tl (xs @ [e])" by (cases xs) auto
  then show ?case using Cons by (metis append_Cons lk.simps(2) list.inject list.sel(3) list.simps(9))
qed simp

lemma ring_lk: "ring m (x # xs) \<longleftrightarrow> lk m (x # xs) x"
  by (simp only: ring_def lk_map rotate1.simps append_Cons list.sel)

lemma ring_rotate: "ring m (xs @ ys) \<longleftrightarrow> ring m (ys @ xs)"
  by (cases xs; cases ys) (auto simp: ring_lk hd_append)

lemma ring_inj:
  assumes "ring m zs" "distinct zs" "a \<in> set zs" "b \<in> set zs" "next_block (m a) = next_block (m b)"
  shows "a = b"
proof -
  have "distinct (map (\<lambda>a. next_block (m a)) zs)" using assms(1,2) by (simp add: ring_def)
  then show ?thesis using assms(3-5) by (auto simp: distinct_map dest: inj_onD)
qed

text \<open>The blocks of the list are in address order and never touch, the arena first, with one unit; so no request for
  more than one unit ever takes it.\<close>

definition free_list :: "nat \<Rightarrow> (nat \<Rightarrow> slob_block) \<Rightarrow> nat list \<Rightarrow> bool" where
  "free_list A m zs \<longleftrightarrow> (\<exists>ys. zs = A # ys) \<and> ring m zs \<and> units (m A) = 1 \<and>
     sorted_wrt (\<lambda>x y. x + 16 * units (m x) < y) zs \<and> (\<forall>y \<in> set (tl zs). 0 < units (m y) \<and> 16 dvd y)"

definition span :: "(nat \<Rightarrow> slob_block) \<Rightarrow> nat \<Rightarrow> nat set" where
  "span m a = {a..<a + 16 * units (m a)}"

definition free_bytes :: "(nat \<Rightarrow> slob_block) \<Rightarrow> nat list \<Rightarrow> nat set" where
  "free_bytes m ys = (\<Union>a \<in> set ys. span m a)"

lemma free_bytes_simps [simp]:
  "free_bytes m [] = {}" "free_bytes m (x # xs) = span m x \<union> free_bytes m xs"
  "free_bytes m (xs @ ys) = free_bytes m xs \<union> free_bytes m ys"
  by (auto simp: free_bytes_def)

lemma free_bytes_cong:
  "(\<And>a. a \<in> set ys \<Longrightarrow> units (m' a) = units (m a)) \<Longrightarrow> free_bytes m' ys = free_bytes m ys"
  by (auto simp: free_bytes_def span_def)

lemma sorted_cong:
  "(\<And>a. a \<in> set zs \<Longrightarrow> units (m' a) = units (m a)) \<Longrightarrow>
     sorted_wrt (\<lambda>x y. x + 16 * units (m' x) < y) zs \<longleftrightarrow> sorted_wrt (\<lambda>x y. x + 16 * units (m x) < y) zs"
  by (induction zs) auto

lemma free_list_cong:
  assumes "\<And>a. a \<in> set zs \<Longrightarrow> m' a = m a" "free_list A m zs"
  shows "free_list A m' zs \<and> free_bytes m' (tl zs) = free_bytes m (tl zs)"
proof -
  obtain ys where zs: "zs = A # ys" using assms(2) by (auto simp: free_list_def)
  have "lk m' (A # ys) A \<longleftrightarrow> lk m (A # ys) A" by (rule lk_cong) (use assms(1) zs in auto)
  moreover have "sorted_wrt (\<lambda>x y. x + 16 * units (m' x) < y) (A # ys) \<longleftrightarrow>
    sorted_wrt (\<lambda>x y. x + 16 * units (m x) < y) (A # ys)" by (rule sorted_cong) (use assms(1) zs in auto)
  moreover have "free_bytes m' ys = free_bytes m ys" by (rule free_bytes_cong) (use assms(1) zs in auto)
  moreover have "units (m' A) = units (m A)" "\<forall>y \<in> set ys. m' y = m y" using assms(1) zs by auto
  ultimately show ?thesis using assms(2) by (simp add: free_list_def zs ring_lk del: lk.simps sorted_wrt.simps)
qed

lemma sorted_distinct: "sorted_wrt (\<lambda>x y. x + 16 * units (m x) < y) zs \<Longrightarrow> distinct zs"
  by (induction zs) auto

lemma free_list_distinct: "free_list A m zs \<Longrightarrow> distinct zs"
  by (auto simp: free_list_def dest: sorted_distinct)

lemma fl_blocks:
  assumes "free_list A m (P @ c # Q)" "x \<in> set (P @ [c])" "y \<in> set Q"
  shows "x + 16 * units (m x) < y"
  using assms by (auto simp: free_list_def sorted_wrt_append)

lemma fl_next: "free_list A m (P @ c # Q) \<Longrightarrow> next_block (m c) = hd (Q @ [A])"
  by (cases P) (auto simp: free_list_def ring_lk)

text \<open>Where a block goes: before the first free block above it.\<close>

lemma fl_point:
  assumes "free_list A m zs" "A < b" "b \<notin> set zs"
  obtains P c Q where "zs = P @ c # Q" "c < b" "\<forall>x \<in> set P. x < c" "\<forall>x \<in> set Q. b < x"
proof -
  have srt: "sorted_wrt (\<lambda>x y. x + 16 * units (m x) < y) zs" using assms(1) by (simp add: free_list_def)
  let ?L = "takeWhile (\<lambda>x. x < b) zs"
  have ne: "?L \<noteq> []" using assms(1,2) by (auto simp: free_list_def)
  then obtain P c where L: "?L = P @ [c]" by (metis rev_exhaust)
  define Q where "Q = dropWhile (\<lambda>x. x < b) zs"
  have zs: "zs = P @ c # Q" using takeWhile_dropWhile_id [of "\<lambda>x. x < b" zs] by (simp add: L Q_def)
  have "c \<in> set ?L" by (simp add: L)
  then have c: "c < b" by (meson set_takeWhileD)
  have "\<forall>x \<in> set Q. b < x"
  proof (cases Q)
    case (Cons q Q')
    then have "\<not> q < b" using hd_dropWhile [of "\<lambda>x. x < b" zs] by (auto simp: Q_def)
    then have q: "b < q" using assms(3) zs Cons by auto
    have "\<forall>x \<in> set Q'. q < x" using srt zs Cons by (auto simp: sorted_wrt_append)
    then show ?thesis using q Cons by auto
  qed simp
  moreover have "\<forall>x \<in> set P. x < c" using srt zs by (auto simp: sorted_wrt_append)
  ultimately show thesis using that zs c by blast
qed

lemma insertion_point_skip:
  "lk m xs e \<Longrightarrow> (\<And>x. x \<in> set xs \<Longrightarrow> \<not> (x < b \<and> b < next_block (m x)) \<and>
      \<not> (next_block (m x) \<le> x \<and> (x < b \<or> b < next_block (m x)))) \<Longrightarrow>
   insertion_point m b (hd (xs @ [e])) = insertion_point m b e"
proof (induction xs)
  case (Cons x xs)
  have "insertion_point m b x = insertion_point m b (next_block (m x))"
    by (subst insertion_point.simps) (use Cons.prems(2) [of x] in auto)
  then show ?case using Cons by simp
qed simp

lemma fl_blocks_next:
  assumes fl: "free_list A m (P @ x # Q)" and A: "A < b" and nb: "b \<notin> set (P @ x # Q)"
  shows "x < b \<and> b < next_block (m x) \<or> next_block (m x) \<le> x \<and> (x < b \<or> b < next_block (m x)) \<longleftrightarrow>
    x < b \<and> (\<forall>y \<in> set Q. b < y)"
proof (cases Q)
  case Nil
  have "A \<le> x" using fl by (cases P) (auto simp: free_list_def)
  then show ?thesis using fl_next [OF fl] A Nil by auto
next
  case (Cons q Q')
  have "x < q" "\<forall>y \<in> set Q'. q < y" using fl Cons by (auto simp: free_list_def sorted_wrt_append)
  then show ?thesis using fl_next [OF fl] Cons by auto
qed

lemma insertion_point_fl:
  assumes fl: "free_list A m (P @ c # Q)" and b: "A < b" "b \<notin> set (P @ c # Q)" "c < b" "\<forall>x \<in> set Q. b < x"
    and cur: "cur \<in> set (P @ c # Q)"
  shows "insertion_point m b cur = Some c"
proof -
  let ?zs = "P @ c # Q"
  have PQ: "\<forall>x \<in> set P. x < c" using fl by (auto simp: free_list_def sorted_wrt_append)
  have at_c: "insertion_point m b c = Some c"
    by (subst insertion_point.simps) (use fl_blocks_next [OF fl b(1,2)] b in auto)
  have skip: "\<not> (x < b \<and> b < next_block (m x)) \<and> \<not> (next_block (m x) \<le> x \<and> (x < b \<or> b < next_block (m x)))"
    if x: "x \<in> set P \<union> set Q" for x
  proof -
    obtain P' Q' where s: "?zs = P' @ x # Q'" using x by (metis UnE in_set_conv_decomp_first set_append Un_iff list.set_intros(2))
    have "\<not> (x < b \<and> (\<forall>y \<in> set Q'. b < y))"
    proof (cases "x < b")
      case True
      then have "x \<in> set P" using x b(4) by auto
      then have "x < c" using PQ by blast
      have "c \<in> set (P' @ x # Q')" using s by (metis in_set_conv_decomp)
      moreover have "c \<notin> set P'" using fl_blocks [of A m P' x Q' c x] fl s \<open>x < c\<close>
        by (auto simp: free_list_def sorted_wrt_append)
      ultimately have "c \<in> set Q'" using \<open>x < c\<close> by auto
      then show ?thesis by (meson b(3) less_asym)
    qed simp
    then show ?thesis using fl_blocks_next [of A m P' x Q' b] fl s b(1,2) by auto
  qed
  have "ring m ((c # Q) @ P)" using fl ring_rotate [of m P "c # Q"] by (simp add: free_list_def)
  then have lk: "lk m (Q @ P) c" by (simp add: ring_lk)
  show ?thesis
  proof (cases "cur = c")
    case False
    then obtain R1 R2 where R: "Q @ P = R1 @ cur # R2" using cur by (metis Un_iff in_set_conv_decomp list.set_intros(2) set_ConsD set_append)
    then have "set (cur # R2) \<subseteq> set P \<union> set Q" by (metis Un_commute append_eq_append_conv2 set_append sup_ge2)
    moreover have "lk m (cur # R2) c" using lk R by simp
    ultimately have "insertion_point m b (hd ((cur # R2) @ [c])) = insertion_point m b c"
      using skip by (intro insertion_point_skip) blast+
    then show ?thesis using at_c by simp
  qed (simp add: at_c)
qed

section \<open>Putting a block into the free list\<close>

text \<open>\<open>join_next\<close> hangs the block before what follows \<open>c\<close>, or merges it with that.\<close>

lemma slob_mem_set [simp]:
  "slob_mem (set_units a u st) = (slob_mem st)(a := (slob_mem st a)\<lparr>units := u\<rparr>)"
  "slob_mem (set_next a n st) = (slob_mem st)(a := (slob_mem st a)\<lparr>next_block := n\<rparr>)"
  by (simp_all add: set_units_def set_next_def)

lemma slob_set_more [simp]:
  "slobfree (set_units a u st) = slobfree st" "slobfree (set_next a n st) = slobfree st"
  "bigblocks (set_units a u st) = bigblocks st" "bigblocks (set_next a n st) = bigblocks st"
  "slob_pmm (set_units a u st) = slob_pmm st" "slob_pmm (set_next a n st) = slob_pmm st"
  by (simp_all add: set_units_def set_next_def)

lemma join_more [simp]:
  "slobfree (join_next c b st) = slobfree st" "slobfree (join_cur c b st) = slobfree st"
  "bigblocks (join_next c b st) = bigblocks st" "bigblocks (join_cur c b st) = bigblocks st"
  "slob_pmm (join_next c b st) = slob_pmm st" "slob_pmm (join_cur c b st) = slob_pmm st"
  by (simp_all add: join_next_def join_cur_def Let_def)

lemma span_merge: "a + 16 * units (m a) = c \<Longrightarrow> {a..<a + 16 * (units (m a) + units (m c))} = span m a \<union> span m c"
  by (auto simp: span_def)

lemma join_next_ok:
  assumes fl: "free_list A m (P @ c # Q)" and b: "A < b" "0 < units (m b)" "\<forall>x \<in> set Q. b + 16 * units (m b) \<le> x"
    and m: "m = slob_mem st" "m' = slob_mem (join_next c b st)"
  obtains Q' where "set Q' \<subseteq> set Q" "lk m' (b # Q') A" "\<forall>x \<in> set Q'. b + 16 * units (m' b) < x" 
    "free_bytes m' (b # Q') = span m b \<union> free_bytes m Q" "0 < units (m' b)"
    "\<forall>a. a \<noteq> b \<longrightarrow> m' a = m a" "sorted_wrt (\<lambda>x y. x + 16 * units (m x) < y) (P @ c # Q')"
proof (cases "b + 16 * units (m b) = next_block (m c)")
  case True
  then have "Q \<noteq> []" using fl_next [OF fl] b by auto
  then obtain q Q' where Q: "Q = q # Q'" by (cases Q) auto
  then have q: "b + 16 * units (m b) = q" using fl_next [OF fl] True by simp
  have m': "m' = m(b := \<lparr>units = units (m b) + units (m q), next_block = next_block (m q)\<rparr>)"
    using True fl_next [OF fl] Q q b m by (auto simp: join_next_def Let_def)
  have srt: "sorted_wrt (\<lambda>x y. x + 16 * units (m x) < y) (P @ c # q # Q')" using fl Q by (simp add: free_list_def)
  have lkQ: "lk m (q # Q') A" using fl Q by (cases P) (auto simp: free_list_def ring_lk)
  have bQ: "b \<notin> set Q'" "q \<noteq> b" using b(2,3) Q by auto
  have "lk m' Q' A \<longleftrightarrow> lk m Q' A" by (rule lk_cong) (use m' bQ in auto)
  then have "lk m' (b # Q') A" using lkQ m' by simp
  moreover have "free_bytes m' Q' = free_bytes m Q'" by (rule free_bytes_cong) (use m' bQ in auto)
  then have "free_bytes m' (b # Q') = span m b \<union> free_bytes m Q"
    using span_merge [of b m q, OF q] m' by (auto simp: Q span_def)
  moreover have "\<forall>x \<in> set Q'. b + 16 * units (m' b) < x" using srt q m' by (auto simp: sorted_wrt_append)
  moreover have "sorted_wrt (\<lambda>x y. x + 16 * units (m x) < y) (P @ c # Q')" using srt by (auto simp: sorted_wrt_append)
  moreover have "set Q' \<subseteq> set Q" "0 < units (m' b)" "\<forall>a. a \<noteq> b \<longrightarrow> m' a = m a" using Q m' b(2) by auto
  ultimately show ?thesis by (intro that [of Q']) blast+
next
  case False
  have m': "m' = m(b := (m b)\<lparr>next_block := next_block (m c)\<rparr>)"
    using False m by (auto simp: join_next_def Let_def)
  have srt: "sorted_wrt (\<lambda>x y. x + 16 * units (m x) < y) (P @ c # Q)" using fl by (simp add: free_list_def)
  have lkQ: "lk m Q A" using fl by (cases P) (auto simp: free_list_def ring_lk)
  have bQ: "b \<notin> set Q" using b(2,3) by auto
  have "lk m' Q A \<longleftrightarrow> lk m Q A" by (rule lk_cong) (use m' bQ in auto)
  then have "lk m' (b # Q) A" using lkQ m' fl_next [OF fl] by simp
  moreover have "free_bytes m' Q = free_bytes m Q" by (rule free_bytes_cong) (use m' bQ in auto)
  then have "free_bytes m' (b # Q) = span m b \<union> free_bytes m Q" using m' by (auto simp: span_def)
  moreover have "\<forall>x \<in> set Q. b + 16 * units (m' b) < x"
  proof (cases Q)
    case (Cons q Q')
    then have "b + 16 * units (m b) < q" using b(3) False fl_next [OF fl] by force
    then show ?thesis using srt Cons m' by (fastforce simp: sorted_wrt_append)
  qed simp
  moreover have "0 < units (m' b)" "\<forall>a. a \<noteq> b \<longrightarrow> m' a = m a" using m' b(2) by auto
  ultimately show ?thesis using srt by (intro that [of Q]) blast+
qed

text \<open>\<open>join_cur\<close> links it to \<open>c\<close>, or merges it with \<open>c\<close>.\<close>

lemma join_cur_ok:
  assumes srt: "sorted_wrt (\<lambda>x y. x + 16 * units (m x) < y) (P @ c # Q)" "\<forall>x \<in> set Q. b + 16 * units (m b) < x"
    and lk: "lk m (b # Q) A" "lk m P c" and zs: "hd (P @ [c]) = A" "units (m A) = 1" "A + 16 < b" "c + 16 * units (m c) \<le> b"
    and al: "\<forall>y \<in> set (tl (P @ c # Q)). 0 < units (m y) \<and> 16 dvd y" "0 < units (m b)" "16 dvd b"
    and m: "m = slob_mem st" "m' = slob_mem (join_cur c b st)"
  obtains zs where "free_list A m' zs" "c \<in> set zs" "free_bytes m' (tl zs) = free_bytes m (tl (P @ c # b # Q))"
    "\<forall>a. a \<noteq> c \<longrightarrow> m' a = m a"
proof (cases "c + 16 * units (m c) = b")
  case True
  then have cA: "c \<noteq> A" using zs by auto
  then obtain P' where P: "P = A # P'" using zs by (cases P) auto
  have bc: "b \<noteq> c" "c \<notin> set P" "c \<notin> set Q" using True al(1) P srt by (auto simp: sorted_wrt_append)
  have m': "m' = m(c := \<lparr>units = units (m c) + units (m b), next_block = next_block (m b)\<rparr>)"
    using True m bc by (auto simp: join_cur_def Let_def)
  have "lk m' (P @ c # Q) A"
  proof -
    have "lk m' P c \<longleftrightarrow> lk m P c" "lk m' Q A \<longleftrightarrow> lk m Q A" by (rule lk_cong; use m' bc in auto)+
    then show ?thesis using lk m' by simp
  qed
  then have "ring m' (P @ c # Q)" using P by (simp add: ring_lk)
  moreover have "sorted_wrt (\<lambda>x y. x + 16 * units (m' x) < y) (P @ c # Q)"
  proof -
    have "sorted_wrt (\<lambda>x y. x + 16 * units (m' x) < y) P \<longleftrightarrow> sorted_wrt (\<lambda>x y. x + 16 * units (m x) < y) P"
      "sorted_wrt (\<lambda>x y. x + 16 * units (m' x) < y) Q \<longleftrightarrow> sorted_wrt (\<lambda>x y. x + 16 * units (m x) < y) Q"
      by (rule sorted_cong; use m' bc in auto)+
    moreover have "\<forall>x \<in> set P. units (m' x) = units (m x)" using m' bc by auto
    moreover have "c + 16 * units (m' c) = b + 16 * units (m b)" using m' True by simp
    ultimately show ?thesis using srt by (simp add: sorted_wrt_append)
  qed
  moreover have "units (m' A) = 1" using m' cA zs by simp
  moreover have "\<forall>y \<in> set (tl (P @ c # Q)). 0 < units (m' y) \<and> 16 dvd y" using al m' P by auto
  ultimately have fl: "free_list A m' (P @ c # Q)" using P by (simp add: free_list_def)
  have "free_bytes m' P' = free_bytes m P'" "free_bytes m' Q = free_bytes m Q"
    by (rule free_bytes_cong; use m' bc P in auto)+
  then have "free_bytes m' (tl (P @ c # Q)) = free_bytes m (tl (P @ c # b # Q))"
    using span_merge [of c m b, OF True] m' by (auto simp: P span_def)
  then show ?thesis using that [of "P @ c # Q"] fl m' by simp
next
  case False
  have m': "m' = m(c := (m c)\<lparr>next_block := b\<rparr>)" using False m by (auto simp: join_cur_def Let_def)
  have un: "units (m' x) = units (m x)" for x using m' by simp
  have bc: "b \<noteq> c" "c \<notin> set P" "c \<notin> set Q" using zs srt al(2)
    by (auto simp: sorted_wrt_append)
  have "lk m' (P @ c # b # Q) A"
  proof -
    have "lk m' P c \<longleftrightarrow> lk m P c" "lk m' (b # Q) A \<longleftrightarrow> lk m (b # Q) A" by (rule lk_cong; use m' bc in auto)+
    then show ?thesis using lk m' by (simp del: lk.simps(2) add: lk.simps(2) [of _ c])
  qed
  then have "ring m' (P @ c # b # Q)" using zs by (cases P) (simp_all add: ring_lk)
  moreover have "sorted_wrt (\<lambda>x y. x + 16 * units (m' x) < y) (P @ c # b # Q)"
  proof -
    have "c + 16 * units (m c) < b" using zs(4) False by simp
    moreover have "\<forall>x \<in> set P. x + 16 * units (m x) < b" using srt calculation by (fastforce simp: sorted_wrt_append)
    ultimately show ?thesis using srt by (simp add: un sorted_wrt_append)
  qed
  moreover have "\<forall>y \<in> set (tl (P @ c # b # Q)). 0 < units (m' y) \<and> 16 dvd y" using al by (cases P) (auto simp: un)
  moreover have "\<exists>ys. P @ c # b # Q = A # ys" using zs(1) by (cases P) auto
  ultimately have fl: "free_list A m' (P @ c # b # Q)" using zs(2) by (simp add: free_list_def un)
  have "free_bytes m' (tl (P @ c # b # Q)) = free_bytes m (tl (P @ c # b # Q))" by (rule free_bytes_cong) (rule un)
  then show ?thesis using fl m' by (intro that [of "P @ c # b # Q"]) auto
qed

text \<open>A block that overlaps no free one becomes free, whatever the headers outside the list hold; only the headers
  of free blocks and its own change.\<close>

lemma slob_link_ok:
  assumes fl: "free_list A (slob_mem st) zs" "slobfree st \<in> set zs"
    and b: "A + 16 < b" "0 < units_of st b" "16 dvd b" "span (slob_mem st) b \<inter> free_bytes (slob_mem st) (tl zs) = {}"
  shows "\<exists>c st' zs'. insertion_point (slob_mem st) b (slobfree st) = Some c \<and>
    st' = (join_cur c b (join_next c b st))\<lparr>slobfree := c\<rparr> \<and>
    free_list A (slob_mem st') zs' \<and> slobfree st' \<in> set zs' \<and>
    free_bytes (slob_mem st') (tl zs') = free_bytes (slob_mem st) (tl zs) \<union> span (slob_mem st) b \<and>
    (\<forall>a. a \<noteq> A \<longrightarrow> a \<noteq> b \<longrightarrow> a \<notin> free_bytes (slob_mem st) (tl zs) \<longrightarrow> slob_mem st' a = slob_mem st a)"
proof -
  define m where m: "m = slob_mem st"
  note fl' = fl [folded m] and b' = b [folded m]
  have inb: "x \<in> free_bytes m (tl zs)" if "x \<in> set (tl zs)" for x
    using that fl'(1) by (fastforce simp: free_list_def free_bytes_def span_def)
  have "b \<in> span m b" using b'(2) by (simp add: span_def)
  then have nb: "b \<notin> set zs" using b' inb fl'(1) by (fastforce simp: free_list_def)
  obtain P c Q where zs: "zs = P @ c # Q" and c: "c < b" and P: "\<forall>x \<in> set P. x < c" and Q: "\<forall>x \<in> set Q. b < x"
    using fl_point [OF fl'(1) _ nb] b'(1) by auto
  note flz = fl'(1) [unfolded zs]
  have ip: "insertion_point m b (slobfree st) = Some c"
    using insertion_point_fl [OF flz _ _ c Q] nb b'(1) fl'(2) zs by auto
  have cnil: "c = A \<or> c \<in> set (tl zs)" "\<forall>x \<in> set Q. x \<in> set (tl zs)" using flz zs by (cases P; auto simp: free_list_def)+
  have bQ: "\<forall>x \<in> set Q. b + 16 * units (m b) \<le> x"
  proof
    fix x assume x: "x \<in> set Q"
    then have "x \<notin> span m b" using b'(4) inb cnil(2) by blast
    then show "b + 16 * units (m b) \<le> x" using Q x by (auto simp: span_def)
  qed
  have cb: "c + 16 * units (m c) \<le> b"
  proof (cases "c = A")
    case True
    then show ?thesis using b'(1) fl'(1) by (simp add: free_list_def)
  next
    case False
    then have "span m c \<subseteq> free_bytes m (tl zs)" using cnil by (auto simp: free_bytes_def)
    then have "b \<notin> span m c" using b'(4) \<open>b \<in> span m b\<close> by blast
    then show ?thesis using c by (auto simp: span_def)
  qed
  have Ab: "A < b" using b'(1) by simp
  define m1 where m1: "m1 = slob_mem (join_next c b st)"
  obtain Q' where Q': "set Q' \<subseteq> set Q" "lk m1 (b # Q') A" "\<forall>x \<in> set Q'. b + 16 * units (m1 b) < x"
    "free_bytes m1 (b # Q') = span m b \<union> free_bytes m Q" "0 < units (m1 b)" and keep1: "\<forall>a. a \<noteq> b \<longrightarrow> m1 a = m a" 
    and srt: "sorted_wrt (\<lambda>x y. x + 16 * units (m x) < y) (P @ c # Q')"
    by (rule join_next_ok [OF flz Ab b'(2) bQ m m1])
  have nb': "b \<notin> set (P @ c # Q')" using nb zs Q'(1) by auto
  have lkP: "lk m1 P c"
  proof -
    have "lk m P c" using flz by (cases P) (auto simp: free_list_def ring_lk hd_append)
    moreover have "lk m1 P c \<longleftrightarrow> lk m P c" by (rule lk_cong) (use keep1 nb' in auto)
    ultimately show ?thesis by simp
  qed
  have srt1: "sorted_wrt (\<lambda>x y. x + 16 * units (m1 x) < y) (P @ c # Q')"
    using srt sorted_cong [of "P @ c # Q'" m1 m] keep1 nb' by (metis (no_types, lifting))
  have hdA: "hd (P @ [c]) = A" using flz by (cases P) (auto simp: free_list_def)
  have tls: "set (tl (P @ c # Q')) \<subseteq> set (tl zs)" using Q'(1) zs by (cases P) auto
  have "\<forall>y \<in> set (tl (P @ c # Q')). 0 < units (m y) \<and> 16 dvd y" using tls fl'(1) by (auto simp: free_list_def)
  moreover have "set (tl (P @ c # Q')) \<subseteq> set (P @ c # Q')" by (cases P) auto
  ultimately have al: "\<forall>y \<in> set (tl (P @ c # Q')). 0 < units (m1 y) \<and> 16 dvd y" using nb' keep1 by (metis subsetD)
  have mA: "units (m1 A) = 1" "c + 16 * units (m1 c) \<le> b" using keep1 b'(1) c cb fl'(1)
    by (auto simp: free_list_def)
  define m2 where m2: "m2 = slob_mem (join_cur c b (join_next c b st))"
  obtain zs' where zs': "free_list A m2 zs'" "c \<in> set zs'" "free_bytes m2 (tl zs') = free_bytes m1 (tl (P @ c # b # Q'))"
    and keep2: "\<forall>a. a \<noteq> c \<longrightarrow> m2 a = m1 a"
    by (rule join_cur_ok [OF srt1 Q'(3,2) lkP hdA mA(1) b'(1) mA(2) al Q'(5) b'(3) m1 m2])
  have "free_bytes m2 (tl zs') = free_bytes m (tl zs) \<union> span m b"
  proof (cases P)
    case Nil
    then show ?thesis using zs'(3) Q'(4) zs by auto
  next
    case (Cons p P')
    have "free_bytes m1 (P' @ [c]) = free_bytes m (P' @ [c])" by (rule free_bytes_cong) (use keep1 nb' Cons in auto)
    then show ?thesis using zs'(3) Q'(4) zs Cons by auto
  qed
  moreover have "\<forall>a. a \<noteq> A \<longrightarrow> a \<noteq> b \<longrightarrow> a \<notin> free_bytes m (tl zs) \<longrightarrow> m2 a = m a"
    using keep1 keep2 cnil(1) inb by metis
  ultimately show ?thesis using ip zs' by (simp add: m m2 [symmetric]) blast
qed

abbreviation free_of :: "'s slob \<Rightarrow> nat list \<Rightarrow> nat set" where
  "free_of st zs \<equiv> free_bytes (slob_mem st) (tl zs)"

definition slob_ok :: "nat \<Rightarrow> 's slob \<Rightarrow> nat list \<Rightarrow> bool" where
  "slob_ok A st zs \<longleftrightarrow> free_list A (slob_mem st) zs \<and> slobfree st \<in> set zs"

lemma slob_ok_head: "slob_ok A st zs \<Longrightarrow> x \<in> set zs \<Longrightarrow> x = A \<or> x \<in> free_of st zs"
  by (fastforce simp: slob_ok_def free_list_def free_bytes_def span_def)

lemma slob_free_ok:
  assumes ok: "slob_ok A st zs" and b: "A + 16 < b" "16 dvd b"
    and u: "u = (if sz \<noteq> 0 then SLOB_UNITS sz else units_of st b)" "0 < u" "{b..<b + 16 * u} \<inter> free_of st zs = {}"
  shows "\<exists>st' zs'. slob_free b sz st = Some st' \<and> slob_ok A st' zs' \<and>
    free_of st' zs' = free_of st zs \<union> {b..<b + 16 * u} \<and> bigblocks st' = bigblocks st \<and> slob_pmm st' = slob_pmm st \<and>
    (\<forall>a. a \<noteq> A \<longrightarrow> a \<noteq> b \<longrightarrow> a \<notin> free_of st zs \<longrightarrow> slob_mem st' a = slob_mem st a)"
proof -
  define st1 where st1: "st1 = (if sz \<noteq> 0 then set_units b (SLOB_UNITS sz) st else st)"
  have b1: "units_of st1 b = u" "slobfree st1 = slobfree st" "bigblocks st1 = bigblocks st" "slob_pmm st1 = slob_pmm st"
    and same: "\<forall>a. a \<noteq> b \<longrightarrow> slob_mem st1 a = slob_mem st a" using u(1) by (auto simp: st1)
  have "b \<in> {b..<b + 16 * u}" using u(2) by simp
  then have "b \<notin> set zs" using slob_ok_head [OF ok, of b] u(3) b(1) by (metis IntI add_lessD1 emptyE less_irrefl)
  then have "free_list A (slob_mem st1) zs \<and> free_of st1 zs = free_of st zs"
    using free_list_cong [of zs "slob_mem st1" "slob_mem st" A] same ok by (metis slob_ok_def)
  moreover from this have "\<exists>c st' zs'. insertion_point (slob_mem st1) b (slobfree st1) = Some c \<and>
    st' = (join_cur c b (join_next c b st1))\<lparr>slobfree := c\<rparr> \<and>
    free_list A (slob_mem st') zs' \<and> slobfree st' \<in> set zs' \<and>
    free_of st' zs' = free_of st1 zs \<union> span (slob_mem st1) b \<and>
    (\<forall>a. a \<noteq> A \<longrightarrow> a \<noteq> b \<longrightarrow> a \<notin> free_of st1 zs \<longrightarrow> slob_mem st' a = slob_mem st1 a)"
    by (intro slob_link_ok) (use b u b1 ok in \<open>auto simp: slob_ok_def span_def\<close>)
  ultimately obtain c st' zs' where c: "insertion_point (slob_mem st1) b (slobfree st1) = Some c"
    "st' = (join_cur c b (join_next c b st1))\<lparr>slobfree := c\<rparr>" 
    "free_list A (slob_mem st') zs'" "slobfree st' \<in> set zs'" "free_of st' zs' = free_of st zs \<union> span (slob_mem st1) b"
    "\<forall>a. a \<noteq> A \<longrightarrow> a \<noteq> b \<longrightarrow> a \<notin> free_of st zs \<longrightarrow> slob_mem st' a = slob_mem st1 a" by metis
  have "slob_free b sz st = Option.bind (insertion_point (slob_mem st1) b (slobfree st1))
    (\<lambda>cur. Some ((join_cur cur b (join_next cur b st1))\<lparr>slobfree := cur\<rparr>))"
    using b(1) unfolding slob_free_def Let_def st1 by simp
  then have "slob_free b sz st = Some st'" using c(1,2) by simp
  moreover have "bigblocks st' = bigblocks st" "slob_pmm st' = slob_pmm st" using c(2) b1 by simp_all
  moreover have "span (slob_mem st1) b = {b..<b + 16 * u}" using b1(1) by (simp add: span_def)
  ultimately show ?thesis using c(3-6) same unfolding slob_ok_def by metis
qed

section \<open>Taking a block from the free list\<close>

lemma take_units_more [simp]:
  "slobfree (take_units p x u st) = slobfree st" "bigblocks (take_units p x u st) = bigblocks st"
  "slob_pmm (take_units p x u st) = slob_pmm st"
  by (simp_all add: take_units_def Let_def)

lemma fl_prev:
  assumes fl: "free_list A m zs" and x: "x \<in> set zs" "x \<noteq> A" and p: "p \<in> set zs" "next_block (m p) = x"
  obtains P Q where "zs = P @ p # x # Q"
proof -
  obtain Z Q where zs: "zs = Z @ x # Q" using x(1) by (metis in_set_conv_decomp)
  have "Z \<noteq> []" using zs x(2) fl by (auto simp: free_list_def)
  then obtain P p' where Z: "Z = P @ [p']" by (metis rev_exhaust)
  have "next_block (m p') = x" using fl_next [of A m P p' "x # Q"] fl zs Z by simp
  then have "p' = p" using ring_inj [of m zs p' p] fl free_list_distinct [OF fl] p zs Z by (auto simp: free_list_def)
  then show thesis using that [of P Q] zs Z by simp
qed

lemma take_units_ok:
  assumes ok: "slob_ok A st zs" and x: "x \<in> set zs" "x \<noteq> A" "0 < u" "u \<le> units_of st x"
    and p: "p \<in> set zs" "next_of st p = x" and st': "st' = (take_units p x u st)\<lparr>slobfree := p\<rparr>"
  shows "\<exists>zs'. slob_ok A st' zs' \<and> {x..<x + 16 * u} \<subseteq> free_of st zs \<and> 
    free_of st' zs' = free_of st zs - {x..<x + 16 * u} \<and> units_of st' x = u \<and> 16 dvd x \<and>
    (\<forall>a. a \<noteq> A \<longrightarrow> a \<notin> free_of st zs \<longrightarrow> slob_mem st' a = slob_mem st a)"
proof -
  define m where m: "m = slob_mem st"
  have fl: "free_list A m zs" using ok by (simp add: slob_ok_def m)
  obtain P Q where zs: "zs = P @ p # x # Q" using fl_prev [OF fl x(1,2) p(1)] p(2) m by auto
  have hdA: "hd (P @ [p]) = A" using fl zs by (cases P) (auto simp: free_list_def)
  have "x \<in> set (tl zs)" "p = A \<or> p \<in> set (tl zs)" using zs hdA by (cases P; auto)+
  have srt: "sorted_wrt (\<lambda>x y. x + 16 * units (m x) < y) (P @ p # x # Q)" using fl zs by (simp add: free_list_def)
  have rg: "ring n (P @ p # R) \<longleftrightarrow> lk n P p \<and> next_block (n p) = hd (R @ [A]) \<and> lk n R A" for n R
    using hdA by (cases P) (simp_all add: ring_lk hd_append)
  have lk: "lk m P p" "next_block (m x) = hd (Q @ [A])" "lk m Q A" using fl zs rg [of m "x # Q"] by (simp_all add: free_list_def)
  have tl: "set (tl (P @ p # Q)) \<subseteq> set (tl zs)" "set (tl (P @ p # Q)) \<subseteq> set (P @ p # Q)" using zs by (cases P; auto)+
  have wf: "units (m A) = 1" "\<forall>y \<in> set (tl zs). 0 < units (m y) \<and> 16 dvd y" using fl by (simp_all add: free_list_def)
  have split: "free_bytes m (tl zs) = free_bytes m (tl (P @ [p])) \<union> span m x \<union> free_bytes m Q" using zs by (cases P) auto
  have sub: "{x..<x + 16 * u} \<subseteq> span m x" using x(4) m by (auto simp: span_def)
  have out: "free_bytes m (tl (P @ [p])) \<inter> {x..} = {}" "free_bytes m Q \<inter> {..<x + 16 * units (m x)} = {}"
    using srt zs by (cases P; fastforce simp: free_bytes_def span_def sorted_wrt_append)+
  have px: "p \<noteq> x" "p \<notin> set P" "p \<notin> set Q" "x \<notin> set P" "x \<notin> set Q" using free_list_distinct [OF fl] zs by auto
  have xin: "x \<in> set (tl zs)" using zs by (cases P) auto
  have keep: "y = A \<or> y \<in> free_bytes m (tl zs)" if "y \<in> set zs" for y using slob_ok_head [OF ok that] m by simp
  show ?thesis
  proof (cases "units (m x) = u")
    case True
    have m': "slob_mem st' = m(p := (m p)\<lparr>next_block := next_block (m x)\<rparr>)" (is "_ = ?m")
      using True st' by (simp add: take_units_def m)
    have un: "units (?m y) = units (m y)" for y by simp
    have "lk ?m P p \<longleftrightarrow> lk m P p" "lk ?m Q A \<longleftrightarrow> lk m Q A" by (rule lk_cong; use px in auto)+
    then have "ring ?m (P @ p # Q)" using lk by (simp add: rg)
    moreover have "sorted_wrt (\<lambda>x y. x + 16 * units (?m x) < y) (P @ p # Q)"
      unfolding un using srt by (auto simp: sorted_wrt_append)
    moreover have "\<exists>ys. P @ p # Q = A # ys" using hdA by (cases P) auto
    ultimately have "free_list A ?m (P @ p # Q)" using wf tl(1) unfolding free_list_def un by blast
    moreover have "free_bytes ?m (tl (P @ p # Q)) = free_bytes m (tl (P @ p # Q))" by (rule free_bytes_cong) (rule un)
    moreover have "free_bytes m (tl (P @ p # Q)) = free_bytes m (tl (P @ [p])) \<union> free_bytes m Q" by (cases P) auto
    ultimately have "slob_ok A st' (P @ p # Q)" "free_of st' (P @ p # Q) = free_of st zs - {x..<x + 16 * u}"
      using m' st' out split True m by (auto simp: slob_ok_def span_def)
    then show ?thesis using m' keep [OF p(1)] sub split True wf(2) xin px(1)
      by (intro exI [of _ "P @ p # Q"]) (auto simp: m)
  next
    case False
    define r where r: "r = x + 16 * u"
    have m': "slob_mem st' = m(p := (m p)\<lparr>next_block := r\<rparr>, r := \<lparr>units = units (m x) - u, next_block = next_block (m x)\<rparr>,
      x := (m x)\<lparr>units := u\<rparr>)" (is "_ = ?m")
      using False st' px x(3) r zs srt by (auto simp: take_units_def Let_def m)
    have rx: "x < r" "r < x + 16 * units (m x)" using r x(3,4) False m by auto
    have rn: "r \<notin> set P" "r \<notin> set Q" "r \<noteq> p" "r \<noteq> x" using srt rx by (fastforce simp: sorted_wrt_append)+
    have un: "units (?m y) = units (m y)" if "y \<noteq> r" "y \<noteq> x" for y using that by simp
    have "lk ?m P p \<longleftrightarrow> lk m P p" "lk ?m Q A \<longleftrightarrow> lk m Q A" by (rule lk_cong; use px rn in auto)+
    then have "ring ?m (P @ p # r # Q)" using lk rn px by (simp add: rg)
    moreover have "sorted_wrt (\<lambda>x y. x + 16 * units (?m x) < y) (P @ p # r # Q)"
    proof -
      have "sorted_wrt (\<lambda>x y. x + 16 * units (?m x) < y) (P @ p # Q) \<longleftrightarrow>
        sorted_wrt (\<lambda>x y. x + 16 * units (m x) < y) (P @ p # Q)" by (rule sorted_cong) (use rn px in auto)
      moreover have "\<forall>y \<in> set P. units (?m y) = units (m y)" using rn px by auto
      moreover have "r + 16 * units (?m r) = x + 16 * units (m x)" using r rx x(4) m by (simp add: algebra_simps)
      moreover have "units (?m p) = units (m p)" using rn px by simp
      ultimately show ?thesis using srt rx(1)
        by (auto simp: sorted_wrt_append simp del: fun_upd_apply)
    qed
    moreover have "\<exists>ys. P @ p # r # Q = A # ys" using hdA by (cases P) auto
    moreover have "\<forall>y \<in> set (tl (P @ p # r # Q)). 0 < units (?m y) \<and> 16 dvd y"
    proof
      fix y assume "y \<in> set (tl (P @ p # r # Q))"
      then have "y = r \<or> y \<in> set (tl (P @ p # Q))" by (cases P) auto
      then show "0 < units (?m y) \<and> 16 dvd y"
      proof
        assume "y \<in> set (tl (P @ p # Q))"
        then have "y \<in> set (tl zs)" "y \<noteq> r" "y \<noteq> x" using tl rn px by auto
        then show ?thesis using wf(2) un by metis
      qed (use rx r xin wf(2) in auto)
    qed
    moreover have "units (?m A) = 1" using rn hdA x(2) wf(1) by (cases P) auto
    ultimately have "free_list A ?m (P @ p # r # Q)" unfolding free_list_def by blast
    moreover have "free_bytes ?m (tl (P @ p # r # Q)) = free_bytes m (tl (P @ [p])) \<union> {r..<x + 16 * units (m x)} \<union> free_bytes m Q"
    proof -
      have "set (tl (P @ [p])) \<subseteq> set (P @ [p])" by (cases P) auto
      then have "free_bytes ?m (tl (P @ [p])) = free_bytes m (tl (P @ [p]))" by (intro free_bytes_cong un) (use rn px in auto)
      moreover have "free_bytes ?m Q = free_bytes m Q" by (intro free_bytes_cong un) (use rn px in auto)
      moreover have "span ?m r = {r..<x + 16 * units (m x)}" using r rx x(4) m by (simp add: span_def algebra_simps)
      moreover have "tl (P @ p # r # Q) = tl (P @ [p]) @ r # Q" by (cases P) auto
      ultimately show ?thesis by (simp add: Un_assoc)
    qed
    ultimately have "slob_ok A st' (P @ p # r # Q)" "free_of st' (P @ p # r # Q) = free_of st zs - {x..<x + 16 * u}"
      using m' st' out split r m sub rx by (auto simp: slob_ok_def span_def)
    then show ?thesis using m' keep [OF p(1)] keep [OF x(1)] sub split wf(2) xin px(1) rx
      by (intro exI [of _ "P @ p # r # Q"]) (auto simp: m span_def)
  qed
qed

text \<open>Free blocks never touch, so that a stretch of free bytes lies in one block.\<close>

lemma fl_contiguous:
  assumes fl: "free_list A m zs" and s: "{a..<b} \<subseteq> free_bytes m (tl zs)" "a < b"
  shows "\<exists>y \<in> set (tl zs). {a..<b} \<subseteq> span m y"
proof -
  obtain y where y: "y \<in> set (tl zs)" "a \<in> span m y" using s by (auto simp: free_bytes_def)
  have "b \<le> y + 16 * units (m y)"
  proof (rule ccontr)
    let ?e = "y + 16 * units (m y)"
    assume "\<not> b \<le> ?e"
    then have "?e \<in> {a..<b}" using y(2) by (auto simp: span_def)
    then obtain z where z: "z \<in> set (tl zs)" "?e \<in> span m z" using s(1) by (auto simp: free_bytes_def)
    have "z \<noteq> y" using z(2) by (auto simp: span_def)
    obtain ys where ys: "zs = A # ys" using fl by (auto simp: free_list_def)
    have "sorted_wrt (\<lambda>x y. x + 16 * units (m x) < y) ys" using fl ys by (simp add: free_list_def)
    then have "z + 16 * units (m z) < y \<or> y + 16 * units (m y) < z" using y(1) z(1) \<open>z \<noteq> y\<close> ys
      by (induction ys arbitrary: zs) auto
    then show False using z(2) by (auto simp: span_def)
  qed
  then show ?thesis using y by (auto simp: span_def)
qed

section \<open>The search for a block\<close>

lemma loop_step:
  "slob_alloc_loop lay mgr sz 0 prev cur st =
     (if SLOB_UNITS sz \<le> units_of st cur
      then Some (cur, (take_units prev cur (SLOB_UNITS sz) st)\<lparr>slobfree := prev\<rparr>)
      else if cur = slobfree st
      then (if sz = 4096 then Some (0, st)
            else do {
              (page, st) \<leftarrow> slob_get_free_pages lay mgr 0 st;
              if page = 0 then Some (0, st)
              else do {
                st \<leftarrow> slob_free page 4096 st;
                slob_alloc_loop lay mgr sz 0 (slobfree st) (next_of st (slobfree st)) st
              }
            })
      else slob_alloc_loop lay mgr sz 0 cur (next_of st cur) st)"
  by (subst slob_alloc_loop.simps) simp

lemma loop_skip:
  "lk (slob_mem st) R x \<Longrightarrow> \<forall>r \<in> set R. units_of st r < SLOB_UNITS sz \<and> r \<noteq> slobfree st \<Longrightarrow>
   slob_alloc_loop lay mgr sz 0 prev (hd (R @ [x])) st = slob_alloc_loop lay mgr sz 0 (last (prev # R)) x st"
proof (induction R arbitrary: prev)
  case (Cons r R)
  have "slob_alloc_loop lay mgr sz 0 prev r st = slob_alloc_loop lay mgr sz 0 r (next_of st r) st"
    using Cons.prems(2) by (subst loop_step) simp
  then show ?case using Cons.IH [of r] Cons.prems by simp
qed simp

text \<open>The scan starts behind \<^verbatim>\<open>slobfree\<close> and ends there: it takes a block with room, or finds that there is none.\<close>

lemma loop_scan:
  fixes lay mgr
  assumes ok: "slob_ok A st zs" and u: "1 < SLOB_UNITS sz"
  defines "run \<equiv> slob_alloc_loop lay mgr sz 0 (slobfree st) (next_of st (slobfree st)) st"
  shows "(\<exists>x p. run = Some (x, (take_units p x (SLOB_UNITS sz) st)\<lparr>slobfree := p\<rparr>) \<and> x \<in> set zs \<and> x \<noteq> A \<and>
      SLOB_UNITS sz \<le> units_of st x \<and> p \<in> set zs \<and> next_of st p = x) \<or>
    (\<forall>x \<in> set zs. units_of st x < SLOB_UNITS sz) \<and>
      (\<exists>p. run = slob_alloc_loop lay mgr sz 0 p (slobfree st) st)"
proof -
  let ?u = "SLOB_UNITS sz" and ?m = "slob_mem st" and ?s = "slobfree st"
  have fl: "free_list A ?m zs" using ok by (simp add: slob_ok_def)
  obtain P Q where zs: "zs = P @ ?s # Q" using ok by (metis in_set_conv_decomp slob_ok_def)
  define ws where "ws = Q @ P"
  have "ring ?m (?s # ws)" using fl zs ring_rotate [of ?m P "?s # Q"] by (simp add: free_list_def ws_def)
  then have lk: "lk ?m ws ?s" "next_of st ?s = hd (ws @ [?s])" by (simp_all add: ring_lk)
  have set: "set zs = insert ?s (set ws)" "?s \<notin> set ws" using free_list_distinct [OF fl] zs by (auto simp: ws_def)
  then have ns: "\<forall>r \<in> set ws. r \<noteq> ?s" by blast
  show ?thesis
  proof (cases "\<forall>x \<in> set zs. units_of st x < ?u")
    case True
    then have "run = slob_alloc_loop lay mgr sz 0 (last (?s # ws)) ?s st"
      using loop_skip [of st ws ?s sz lay mgr ?s] lk ns True set(1) by (simp add: run_def)
    then show ?thesis using True by blast
  next
    case False
    then have "\<exists>x \<in> set (ws @ [?s]). ?u \<le> units_of st x" using set by (auto simp: not_less)
    from split_list_first_prop [OF this] obtain R x T where R: "ws @ [?s] = R @ x # T" "?u \<le> units_of st x" "\<forall>r \<in> set R. \<not> ?u \<le> units_of st r"
      by blast
    have lkR: "lk ?m R x"
    proof -
      have "lk ?m (ws @ [?s]) (next_of st ?s)" using lk by simp
      then show ?thesis unfolding R(1) by simp
    qed
    have Rs: "set R \<subseteq> set ws" "x \<in> set zs"
      using R(1) set by (cases T rule: rev_cases; auto)+
    have "\<forall>r \<in> set R. units_of st r < ?u \<and> r \<noteq> ?s" using R(3) Rs(1) ns by (meson not_le subsetD)
    moreover have "next_of st ?s = hd (R @ [x])" using lk(2) R(1) by (cases R) auto
    ultimately have "run = slob_alloc_loop lay mgr sz 0 (last (?s # R)) x st"
      using loop_skip [OF lkR, of sz lay mgr ?s] by (simp add: run_def)
    moreover have "next_of st (last (?s # R)) = x"
    proof (cases R rule: rev_cases)
      case Nil
      then show ?thesis using lk(2) R(1) by (cases ws) auto
    next
      case (snoc R' r)
      then show ?thesis using lkR by simp
    qed
    moreover have "x \<noteq> A" using R(2) u fl by (auto simp: free_list_def)
    moreover have "last (?s # R) \<in> set zs" using Rs set by (cases R rule: rev_cases) auto
    ultimately show ?thesis using R(2) Rs(2) loop_step [of lay mgr sz "last (?s # R)" x st] by auto
  qed
qed

end
