(* ===== verification/SlobHeap.thy ===== *)
theory SlobHeap
  imports Slob
begin

text \<open>
  The kernel heap on top of a physical memory manager: what \<open>slob_alloc\<close>, \<open>kmalloc\<close> and \<open>kfree\<close> do to the free bytes,
  and the invariant of a heap with its clients, which may write into the blocks they hold. The lemmas are stated in
  the locale \<open>page_allocator\<close>, hence hold with each of the three managers.
\<close>

section \<open>Pages as bytes\<close>

definition kbytes :: "slob_layout \<Rightarrow> nat set \<Rightarrow> nat set" where
  "kbytes lay P = {b. kva_base lay \<le> b \<and> (b - kva_base lay) div 4096 \<in> P}"

definition layout_ok :: "slob_layout \<Rightarrow> bool" where
  "layout_ok lay \<longleftrightarrow> 4096 dvd kva_base lay \<and> arena lay + 16 < kva_base lay"

lemma kbytes_simps [simp]:
  "kbytes lay {} = {}" "kbytes lay (P \<union> Q) = kbytes lay P \<union> kbytes lay Q"
  by (auto simp: kbytes_def)

lemma kbytes_mono: "P \<subseteq> Q \<Longrightarrow> kbytes lay P \<subseteq> kbytes lay Q"
  by (auto simp: kbytes_def)

lemma kbytes_disjoint: "P \<inter> Q = {} \<Longrightarrow> kbytes lay P \<inter> kbytes lay Q = {}"
  by (auto simp: kbytes_def)

lemma kbytes_range: "kbytes lay {p..<p + n} = {slob_kva lay p..<slob_kva lay p + 4096 * n}"
proof -
  have "p \<le> d div 4096 \<longleftrightarrow> 4096 * p \<le> d" "d div 4096 < p + n \<longleftrightarrow> d < 4096 * (p + n)" for d :: nat
    by (simp_all add: less_eq_div_iff_mult_less_eq div_less_iff_less_mult mult.commute)
  then show ?thesis by (auto simp: kbytes_def slob_kva_def)
qed

lemma kbytes_page [simp]: "kbytes lay {p} = {slob_kva lay p..<slob_kva lay p + 4096}"
  using kbytes_range [of lay p 1] by simp

lemma kbytes_insert: "kbytes lay (insert p P) = {slob_kva lay p..<slob_kva lay p + 4096} \<union> kbytes lay P"
  using kbytes_simps(2) [of lay "{p}" P] by simp

lemma kva_facts:
  assumes "layout_ok lay"
  shows "arena lay + 16 < slob_kva lay p" "16 dvd slob_kva lay p" "slob_kva lay p \<noteq> 0" "slob_kva lay p mod 4096 = 0"
proof -
  have d: "4096 dvd slob_kva lay p" using assms by (simp add: layout_ok_def slob_kva_def)
  then show "slob_kva lay p mod 4096 = 0" by simp
  have "(16 :: nat) dvd 4096" by simp
  then show "16 dvd slob_kva lay p" using d dvd_trans by blast
  show "arena lay + 16 < slob_kva lay p" "slob_kva lay p \<noteq> 0" using assms by (auto simp: layout_ok_def slob_kva_def)
qed

lemma slob_kva2page_kva: "p < slob_npage lay \<Longrightarrow> slob_kva2page lay (slob_kva lay p) = Some p"
  by (simp add: slob_kva2page_def slob_kva_def)

lemma slob_kva_inj [simp]: "slob_kva lay p = slob_kva lay q \<longleftrightarrow> p = q"
  by (simp add: slob_kva_def)

lemma kbytes_arena: "layout_ok lay \<Longrightarrow> b \<in> kbytes lay P \<Longrightarrow> arena lay + 16 < b"
  by (auto simp: kbytes_def layout_ok_def)

lemma SLOB_UNITS_gt1: "16 < sz \<Longrightarrow> 1 < SLOB_UNITS sz"
  by (simp add: SLOB_UNITS_def)

lemma SLOB_UNITS_bounds: "sz \<le> 16 * SLOB_UNITS sz" "16 * SLOB_UNITS sz < sz + 16"
  by (simp_all add: SLOB_UNITS_def)

section \<open>Taking a block, with the pages it needs\<close>

lemma fl_large:
  assumes ok: "slob_ok A st zs" and s: "{a..<a + 4096} \<subseteq> free_of st zs" and u: "u \<le> 256"
  shows "\<exists>y \<in> set zs. u \<le> units_of st y"
proof -
  obtain y where y: "y \<in> set (tl zs)" "{a..<a + 4096} \<subseteq> span (slob_mem st) y"
    using fl_contiguous [of A "slob_mem st" zs a "a + 4096"] ok s by (auto simp: slob_ok_def)
  then have "a + 4096 \<le> y + 16 * units_of st y \<and> y \<le> a"
    using atLeastLessThan_subset_iff [of a "a + 4096" y] by (simp add: span_def)
  then have "256 \<le> units_of st y" by simp
  moreover have "y \<in> set zs" using y(1) by (cases zs) auto
  ultimately show ?thesis using u by (meson le_trans)
qed

context page_allocator
begin

lemma slob_get_free_pages_ok:
  assumes i: "inv (snd (slob_pmm st)) F"
  shows "slob_get_free_pages lay mgr ord st = Some (0, st) \<or>
    (\<exists>p k. slob_get_free_pages lay mgr ord st = Some (slob_kva lay p, st\<lparr>slob_pmm := k\<rparr>) \<and> {p..<p + blk (2 ^ ord)} \<subseteq> F \<and>
       (\<forall>hp. client_step mgr place (slob_pmm st, hp) (k, (p, 2 ^ ord) # hp)))"
proof -
  obtain r s where r: "mgr_alloc_pages mgr (2 ^ ord) (snd (slob_pmm st)) = Some (r, s)"
    using alloc_total [OF i, of "2 ^ ord"] by auto
  then have a: "alloc_pages mgr (2 ^ ord) (slob_pmm st) = Some (r, fst (slob_pmm st), s)"
    by (simp add: alloc_pages_def split: prod.split)
  show ?thesis
  proof (cases r)
    case None
    then have "s = snd (slob_pmm st)" using alloc_None [OF i, of "2 ^ ord"] r by simp
    then show ?thesis using a None by (simp add: slob_get_free_pages_def)
  next
    case (Some p)
    then have "{p..<p + blk (2 ^ ord)} \<subseteq> F" using alloc_Some [OF i, of "2 ^ ord"] r by auto
    moreover have "client_step mgr place (slob_pmm st, hp) ((fst (slob_pmm st), s), (p, 2 ^ ord) # hp)" for hp
      using a Some by (intro step_alloc) simp_all
    ultimately show ?thesis using a Some by (auto simp: slob_get_free_pages_def)
  qed
qed

lemma slob_alloc_ok:
  assumes ok: "slob_ok (arena lay) st zs" and lay: "layout_ok lay" and sz: "16 < sz" "sz + 16 < 4096"
    and i: "inv (snd (slob_pmm st)) F" and dj: "kbytes lay F \<inter> free_of st zs = {}"
  defines "u \<equiv> SLOB_UNITS sz"
  shows "slob_alloc lay mgr sz 0 st = Some (0, st) \<or>
    (\<exists>x st' zs' new. slob_alloc lay mgr sz 0 st = Some (x, st') \<and> slob_ok (arena lay) st' zs' \<and> 
      (\<forall>hp. client_run mgr place (slob_pmm st, hp) (slob_pmm st', map (\<lambda>p. (p, 1)) new @ hp)) \<and> set new \<subseteq> F \<and>
      bigblocks st' = bigblocks st \<and> {x..<x + 16 * u} \<subseteq> free_of st zs \<union> kbytes lay (set new) \<and>
      free_of st' zs' = free_of st zs \<union> kbytes lay (set new) - {x..<x + 16 * u} \<and> units_of st' x = u \<and> 16 dvd x \<and>
      (\<forall>a. a \<noteq> arena lay \<longrightarrow> a \<notin> free_of st zs \<union> kbytes lay (set new) \<longrightarrow> slob_mem st' a = slob_mem st a))"
    (is "?fail \<or> ?take")
proof -
  let ?A = "arena lay"
  let ?run = "\<lambda>st. slob_alloc_loop lay mgr sz 0 (slobfree st) (next_of st (slobfree st)) st"
  have u: "1 < u" "u \<le> 256" using sz SLOB_UNITS_gt1 SLOB_UNITS_bounds(2) [of sz] by (simp_all add: u_def)
  have alloc: "slob_alloc lay mgr sz 0 st = ?run st" using sz by (simp add: slob_alloc_def)
  have took: "\<exists>x st' zs'. ?run st1 = Some (x, st') \<and> slob_ok ?A st' zs' \<and> slob_pmm st' = slob_pmm st1 \<and>
      bigblocks st' = bigblocks st1 \<and> {x..<x + 16 * u} \<subseteq> free_of st1 zs1 \<and>
      free_of st' zs' = free_of st1 zs1 - {x..<x + 16 * u} \<and> units_of st' x = u \<and> 16 dvd x \<and>
      (\<forall>a. a \<noteq> ?A \<longrightarrow> a \<notin> free_of st1 zs1 \<longrightarrow> slob_mem st' a = slob_mem st1 a)"
    if ok1: "slob_ok ?A st1 zs1" and room: "\<exists>y \<in> set zs1. u \<le> units_of st1 y" for st1 :: "'s slob" and zs1
  proof -
    obtain x p where x: "?run st1 = Some (x, (take_units p x u st1)\<lparr>slobfree := p\<rparr>)" "x \<in> set zs1" "x \<noteq> ?A"
      "u \<le> units_of st1 x" "p \<in> set zs1" "next_of st1 p = x"
      using loop_scan [OF ok1, of sz lay mgr] u room by (auto simp: u_def not_le [symmetric])
    show ?thesis using take_units_ok [OF ok1 x(2,3) _ x(4,5,6) refl] x(1) u by fastforce
  qed
  show ?thesis
  proof (cases "\<exists>y \<in> set zs. u \<le> units_of st y")
    case True
    from took [OF ok this] obtain x st' zs' where "?run st = Some (x, st')" "slob_ok ?A st' zs'" "slob_pmm st' = slob_pmm st"
      "bigblocks st' = bigblocks st" "{x..<x + 16 * u} \<subseteq> free_of st zs"
      "free_of st' zs' = free_of st zs - {x..<x + 16 * u}" "units_of st' x = u" "16 dvd x"
      "\<forall>a. a \<noteq> ?A \<longrightarrow> a \<notin> free_of st zs \<longrightarrow> slob_mem st' a = slob_mem st a" by blast
    then have ?take unfolding alloc by (intro exI [of _ x] exI [of _ st'] exI [of _ zs'] exI [of _ "[]"]) simp
    then show ?thesis ..
  next
    case False
    then obtain p0 where run: "?run st = slob_alloc_loop lay mgr sz 0 p0 (slobfree st) st"
      using loop_scan [OF ok, of sz lay mgr] u by (auto simp: u_def)
    have "\<not> u \<le> units_of st (slobfree st)" using False ok by (auto simp: slob_ok_def)
    then have run: "?run st = do {
        (page, st) \<leftarrow> slob_get_free_pages lay mgr 0 st;
        if page = 0 then Some (0, st)
        else do { st \<leftarrow> slob_free page 4096 st; ?run st } }"
      unfolding run using sz by (subst loop_step) (simp add: u_def cong: if_cong)
    from slob_get_free_pages_ok [OF i, of lay 0] show ?thesis
    proof
      assume "slob_get_free_pages lay mgr 0 st = Some (0, st)"
      then show ?thesis using alloc run by simp
    next
      assume "\<exists>p k. slob_get_free_pages lay mgr 0 st = Some (slob_kva lay p, st\<lparr>slob_pmm := k\<rparr>) \<and> {p..<p + blk (2 ^ 0)} \<subseteq> F \<and>
        (\<forall>hp. client_step mgr place (slob_pmm st, hp) (k, (p, 2 ^ 0) # hp))"
      then obtain p k where p: "slob_get_free_pages lay mgr 0 st = Some (slob_kva lay p, st\<lparr>slob_pmm := k\<rparr>)" 
        "{p..<p + blk 1} \<subseteq> F" "\<And>hp. client_step mgr place (slob_pmm st, hp) (k, (p, 1) # hp)" by auto
      have pF: "p \<in> F" using p(2) blk_ge [of 1] by (auto simp: subset_eq)
      let ?st1 = "st\<lparr>slob_pmm := k\<rparr>" and ?b = "slob_kva lay p"
      have pg: "{?b..<?b + 16 * 256} = kbytes lay {p}" by simp
      have "kbytes lay {p} \<inter> free_of ?st1 zs = {}" using kbytes_mono [of "{p}" F lay] pF dj by auto
      then have "\<exists>st2 zs2. slob_free ?b 4096 ?st1 = Some st2 \<and> slob_ok ?A st2 zs2 \<and>
        free_of st2 zs2 = free_of ?st1 zs \<union> {?b..<?b + 16 * 256} \<and> bigblocks st2 = bigblocks ?st1 \<and> slob_pmm st2 = slob_pmm ?st1 \<and>
        (\<forall>a. a \<noteq> ?A \<longrightarrow> a \<noteq> ?b \<longrightarrow> a \<notin> free_of ?st1 zs \<longrightarrow> slob_mem st2 a = slob_mem ?st1 a)"
        by (intro slob_free_ok) (use ok kva_facts [OF lay, of p] in \<open>simp_all add: slob_ok_def SLOB_UNITS_def\<close>)
      then obtain st2 zs2 where st2: "slob_free ?b 4096 ?st1 = Some st2" "slob_ok ?A st2 zs2"
        "free_of st2 zs2 = free_of st zs \<union> kbytes lay {p}" "bigblocks st2 = bigblocks st" "slob_pmm st2 = k"
        and raw: "\<forall>a. a \<noteq> ?A \<longrightarrow> a \<noteq> ?b \<longrightarrow> a \<notin> free_of st zs \<longrightarrow> slob_mem st2 a = slob_mem st a" by auto
      have keep: "\<forall>a. a \<noteq> ?A \<longrightarrow> a \<notin> free_of st zs \<union> kbytes lay {p} \<longrightarrow> slob_mem st2 a = slob_mem st a" using raw by auto
      have "\<exists>y \<in> set zs2. u \<le> units_of st2 y" using fl_large [OF st2(2) _ u(2), of ?b] st2(3) by auto
      from took [OF st2(2) this] obtain x st' zs' where x: "?run st2 = Some (x, st')" "slob_ok ?A st' zs'" "slob_pmm st' = k"
        "bigblocks st' = bigblocks st" "{x..<x + 16 * u} \<subseteq> free_of st zs \<union> kbytes lay {p}"
        "free_of st' zs' = free_of st zs \<union> kbytes lay {p} - {x..<x + 16 * u}" "units_of st' x = u" "16 dvd x"
        "\<forall>a. a \<noteq> ?A \<longrightarrow> a \<notin> free_of st zs \<union> kbytes lay {p} \<longrightarrow> slob_mem st' a = slob_mem st2 a"
        by (simp add: st2(3-5)) blast
      have "slob_alloc lay mgr sz 0 st = Some (x, st')"
        unfolding alloc run using p(1) kva_facts(3) [OF lay, of p] st2(1) x(1) by simp
      then have ?take using x keep pF p(3)
        by (intro exI [of _ x] exI [of _ st'] exI [of _ zs'] exI [of _ "[p]"]) (auto simp: kbytes_insert)
      then show ?thesis ..
    qed
  qed
qed

end

section \<open>Blocks in use\<close>

text \<open>Of two different blocks in a disjoint list no byte is shared, in whatever order the list is.\<close>

lemma held_disjointD:
  "held_disjoint blk held \<Longrightarrow> x \<in> set held \<Longrightarrow> y \<in> set held \<Longrightarrow> x \<noteq> y \<Longrightarrow>
     {fst x..<fst x + blk (snd x)} \<inter> {fst y..<fst y + blk (snd y)} = {}"
proof (induction held)
  case (Cons h held)
  obtain q m where h: "h = (q, m)" by force
  have "{q..<q + blk m} \<inter> {fst z..<fst z + blk (snd z)} = {}" if "z \<in> set held" for z
  proof -
    have "{q..<q + blk m} \<inter> held_pages blk held = {}" using Cons.prems(1) h by simp
    moreover have "{fst z..<fst z + blk (snd z)} \<subseteq> held_pages blk held" using that by (intro held_pages_sub) simp
    ultimately show ?thesis by blast
  qed
  then show ?case using Cons h by (metis Int_commute fst_conv held_disjoint_Cons set_ConsD snd_conv)
qed simp

lemma held_distinct: "held_disjoint blk held \<Longrightarrow> (\<And>p n. (p, n) \<in> set held \<Longrightarrow> 0 < blk n) \<Longrightarrow> distinct held"
proof (induction held)
  case (Cons h held)
  obtain q m where h: "h = (q, m)" by force
  have "h \<notin> set held"
  proof
    assume "h \<in> set held"
    then have "{q..<q + blk m} \<subseteq> held_pages blk held" using held_pages_sub h by blast
    moreover have "{q..<q + blk m} \<inter> held_pages blk held = {}" using Cons.prems(1) h by simp
    ultimately have "{q..<q + blk m} = {}" by blast
    then show False using Cons.prems(2) [of q m] h by simp
  qed
  then show ?case using Cons by (cases h) (metis distinct.simps(2) held_disjoint_Cons list.set_intros(2))
qed simp

lemma held_split_disjoint:
  assumes d: "held_disjoint blk held" and pos: "\<And>p n. (p, n) \<in> set held \<Longrightarrow> 0 < blk n"
    and m: "mset held = mset xs + mset ys"
  shows "held_pages blk xs \<inter> held_pages blk ys = {}"
proof -
  have "count (mset held) x \<le> 1" for x using held_distinct [OF d pos] by (cases x) (simp add: distinct_count_atmost_1)
  then have cnt: "count (mset xs) x + count (mset ys) x \<le> 1" for x using m by (metis count_union)
  have set_held: "set held = set xs \<union> set ys" using arg_cong [OF m, of set_mset] by simp
  have "{fst x..<fst x + blk (snd x)} \<inter> {fst y..<fst y + blk (snd y)} = {}" if xy: "x \<in> set xs" "y \<in> set ys" for x y
  proof -
    have "x \<noteq> y"
    proof
      assume "x = y"
      then have "0 < count (mset xs) x" "0 < count (mset ys) x" using xy by auto
      then show False using cnt [of x] by linarith
    qed
    then show ?thesis using held_disjointD [OF d] xy set_held by blast
  qed
  then show ?thesis unfolding held_pages_def by fastforce
qed

abbreviation "used_bytes \<equiv> held_pages (\<lambda>u. 16 * u)"

abbreviation "used_disjoint \<equiv> held_disjoint (\<lambda>u. 16 * u)"

definition big_bytes :: "slob_layout \<Rightarrow> (nat \<times> nat) list \<Rightarrow> nat set" where
  "big_bytes lay bigs = kbytes lay (held_pages (\<lambda>n. n) bigs)"

context page_allocator
begin

lemma held_inv_free:
  assumes i: "held_inv U (k, hp)" and p: "(p, n) \<in> set hp" "place p (snd k)"
  shows "\<exists>k'. free_pages mgr p n k = Some k' \<and> held_inv U (k', remove1 (p, n) hp)"
proof -
  obtain F where F: "inv (snd k) F" "F \<inter> held_pages blk hp = {}" "\<forall>(p, n) \<in> set hp. 0 < n \<and> rel p n (snd k)"
    using i by (auto simp: held_inv_def)
  have n: "0 < n" "rel p n (snd k)" "{p..<p + blk n} \<inter> F = {}" 
    using F p(1) held_pages_sub [OF p(1), of blk] by auto
  obtain s where "mgr_free_pages mgr p n (snd k) = Some s" using free_ok [OF F(1) n(1,3,2) p(2)] by auto
  then have k': "free_pages mgr p n k = Some (fst k, s)" by (simp add: free_pages_def split: prod.split)
  have "client_step mgr place (k, hp) ((fst k, s), remove1 (p, n) hp)" using p k' by (intro step_free)
  then show ?thesis using k' held_inv_step [OF i] by blast
qed

text \<open>\<open>us\<close>: the blocks of the free list that are in use, as addresses with units; \<open>bigs\<close>: the page blocks taken for large
  requests. With the free blocks the used ones are the bytes of the pages \<open>sp\<close> the list was grown by.\<close>

definition raw_inv :: "slob_layout \<Rightarrow> nat set \<Rightarrow> 's slob \<Rightarrow> (nat \<times> nat) list \<Rightarrow> (nat \<times> nat) list \<Rightarrow> bool" where
  "raw_inv lay U st us bigs \<longleftrightarrow> (\<exists>zs sp hp. held_inv U (slob_pmm st, hp) \<and>
     mset hp = mset bigs + mset (map (\<lambda>p. (p, 1)) sp) \<and> slob_ok (arena lay) st zs \<and>
     used_disjoint us \<and> free_of st zs \<inter> used_bytes us = {} \<and> free_of st zs \<union> used_bytes us = kbytes lay (set sp) \<and>
     (\<forall>(a, u) \<in> set us. 16 dvd a \<and> 0 < u))"

lemma raw_pages:
  assumes hp: "held_inv U (k, hp)" "mset hp = mset bigs + mset (map (\<lambda>p. (p, 1)) sp)" "inv (snd k) F" 
    and pool: "F \<inter> held_pages blk hp = {}"
  shows "set sp \<inter> F = {}" "held_pages (\<lambda>n. n) bigs \<inter> F = {}" "held_pages (\<lambda>n. n) bigs \<inter> set sp = {}"
proof -
  have hd: "held_disjoint blk hp" and pos: "\<forall>(p, n) \<in> set hp. 0 < n" using hp(1) by (auto simp: held_inv_def)
  have set_hp: "set hp = set bigs \<union> (\<lambda>p. (p, 1)) ` set sp" using arg_cong [OF hp(2), of set_mset] by simp
  have one: "p \<in> {p..<p + blk 1}" for p using blk_ge [of 1] by simp
  have sub: "{p..<p + n} \<subseteq> {p..<p + blk n}" for p n using blk_ge [of n] by auto
  show "set sp \<inter> F = {}" using pool held_pages_sub [of _ 1 hp blk] set_hp one by blast
  show "held_pages (\<lambda>n. n) bigs \<inter> F = {}"
  proof -
    have "held_pages (\<lambda>n. n) bigs \<subseteq> held_pages blk bigs" using sub unfolding held_pages_def by blast
    also have "\<dots> \<subseteq> held_pages blk hp" using set_hp by (intro held_pages_mono) simp
    finally show ?thesis using pool by blast
  qed
  have "0 < blk n" if "(p, n) \<in> set hp" for p n using pos that blk_ge [of n] by fastforce
  then have "held_pages blk bigs \<inter> held_pages blk (map (\<lambda>p. (p, 1)) sp) = {}" by (rule held_split_disjoint [OF hd _ hp(2)])
  moreover have "held_pages (\<lambda>n. n) bigs \<subseteq> held_pages blk bigs" using sub unfolding held_pages_def by blast
  moreover have "set sp \<subseteq> held_pages blk (map (\<lambda>p. (p, 1)) sp)" using one unfolding held_pages_def by auto
  ultimately show "held_pages (\<lambda>n. n) bigs \<inter> set sp = {}" by blast
qed

lemma raw_big_apart: "raw_inv lay U st us bigs \<Longrightarrow> big_bytes lay bigs \<inter> used_bytes us = {}"
proof -
  assume "raw_inv lay U st us bigs"
  then obtain zs sp hp where r: "held_inv U (slob_pmm st, hp)" "mset hp = mset bigs + mset (map (\<lambda>p. (p, 1)) sp)"
    "free_of st zs \<union> used_bytes us = kbytes lay (set sp)" by (auto simp: raw_inv_def)
  then obtain F where F: "inv (snd (slob_pmm st)) F" "F \<inter> held_pages blk hp = {}" by (auto simp: held_inv_def)
  show ?thesis using kbytes_disjoint [OF raw_pages(3) [OF r(1,2) F], of lay] r(3) by (auto simp: big_bytes_def)
qed

end

context page_allocator
begin

lemma raw_inv_mset: "raw_inv lay U st us bigs \<Longrightarrow> mset bigs = mset bigs' \<Longrightarrow> raw_inv lay U st us bigs'"
  by (simp add: raw_inv_def)

lemma raw_alloc:
  assumes r: "raw_inv lay U st us bigs" and lay: "layout_ok lay" and sz: "16 < sz" "sz + 16 < 4096"
  shows "slob_alloc lay mgr sz 0 st = Some (0, st) \<or>
    (\<exists>x st'. slob_alloc lay mgr sz 0 st = Some (x, st') \<and> raw_inv lay U st' ((x, SLOB_UNITS sz) # us) bigs \<and>
       bigblocks st' = bigblocks st \<and> units_of st' x = SLOB_UNITS sz \<and> arena lay + 16 < x \<and>
       (\<forall>a \<in> used_bytes us. slob_mem st' a = slob_mem st a))"
proof -
  let ?u = "SLOB_UNITS sz"
  obtain zs sp hp where z: "held_inv U (slob_pmm st, hp)" "mset hp = mset bigs + mset (map (\<lambda>p. (p, 1)) sp)"
    "slob_ok (arena lay) st zs" "used_disjoint us" "free_of st zs \<inter> used_bytes us = {}"
    "free_of st zs \<union> used_bytes us = kbytes lay (set sp)" "\<forall>(a, u) \<in> set us. 16 dvd a \<and> 0 < u"
    using r by (auto simp: raw_inv_def)
  obtain F where F: "inv (snd (slob_pmm st)) F" "F \<inter> held_pages blk hp = {}" using z(1) by (auto simp: held_inv_def)
  have dF: "kbytes lay F \<inter> kbytes lay (set sp) = {}" using raw_pages(1) [OF z(1,2) F] by (intro kbytes_disjoint) blast
  then have dj: "kbytes lay F \<inter> free_of st zs = {}" using z(6) by blast
  from slob_alloc_ok [OF z(3) lay sz F(1) dj] show ?thesis
  proof (elim disjE exE conjE)
    fix x st' zs' new
    assume x: "slob_alloc lay mgr sz 0 st = Some (x, st')" "slob_ok (arena lay) st' zs'" "set new \<subseteq> F" "bigblocks st' = bigblocks st"
      "{x..<x + 16 * ?u} \<subseteq> free_of st zs \<union> kbytes lay (set new)"
      "free_of st' zs' = free_of st zs \<union> kbytes lay (set new) - {x..<x + 16 * ?u}" "units_of st' x = ?u" "16 dvd x"
      and run: "\<forall>hp. client_run mgr place (slob_pmm st, hp) (slob_pmm st', map (\<lambda>p. (p, 1)) new @ hp)"
      and keep: "\<forall>a. a \<noteq> arena lay \<longrightarrow> a \<notin> free_of st zs \<union> kbytes lay (set new) \<longrightarrow> slob_mem st' a = slob_mem st a"
    have u: "0 < ?u" using SLOB_UNITS_gt1 [OF sz(1)] by simp
    have knew: "kbytes lay (set new) \<inter> kbytes lay (set sp) = {}" using kbytes_mono [OF x(3), of lay] dF by blast
    then have d: "{x..<x + 16 * ?u} \<inter> used_bytes us = {}" "kbytes lay (set new) \<inter> used_bytes us = {}"
      using x(5) z(5,6) by blast+
    have "x \<in> {x..<x + 16 * ?u}" using u by simp
    then have "x \<in> kbytes lay (set sp \<union> set new)" using x(5) z(6) kbytes_simps(2) by blast
    then have Ax: "arena lay + 16 < x" using kbytes_arena [OF lay] by blast
    have "held_inv U (slob_pmm st', map (\<lambda>p. (p, 1)) new @ hp)" using held_inv_run run z(1) by blast
    moreover have "mset (map (\<lambda>p. (p, 1)) new @ hp) = mset bigs + mset (map (\<lambda>p. (p, 1)) (new @ sp))" using z(2) by simp
    moreover have "used_disjoint ((x, ?u) # us)" using z(4) d(1) by simp
    moreover have "free_of st' zs' \<inter> used_bytes ((x, ?u) # us) = {}" using x(6) z(5) d(2) by auto
    moreover have "free_of st' zs' \<union> used_bytes ((x, ?u) # us) = kbytes lay (set (new @ sp))"
      using x(5,6) z(6) by (simp add: set_eq_iff subset_iff) blast
    moreover have "\<forall>(a, u) \<in> set ((x, ?u) # us). 16 dvd a \<and> 0 < u" using z(7) x(8) u by simp
    ultimately have "raw_inv lay U st' ((x, ?u) # us) bigs" using x(2) unfolding raw_inv_def by blast
    moreover have "\<forall>a \<in> used_bytes us. slob_mem st' a = slob_mem st a"
    proof
      fix a assume a: "a \<in> used_bytes us"
      then have "a \<in> kbytes lay (set sp)" using z(6) by blast
      then have "a \<noteq> arena lay" using kbytes_arena [OF lay] by fastforce
      then show "slob_mem st' a = slob_mem st a" using keep a z(5) d(2) by blast
    qed
    ultimately show ?thesis using x Ax by blast
  qed simp
qed

lemma raw_free:
  assumes r: "raw_inv lay U st us bigs" and lay: "layout_ok lay" and a: "(a, u) \<in> set us"
    and u: "u = (if sz \<noteq> 0 then SLOB_UNITS sz else units_of st a)"
  shows "\<exists>st'. slob_free a sz st = Some st' \<and> raw_inv lay U st' (remove1 (a, u) us) bigs \<and>
    bigblocks st' = bigblocks st \<and> (\<forall>b \<in> used_bytes (remove1 (a, u) us). slob_mem st' b = slob_mem st b)"
proof -
  obtain zs sp hp where z: "held_inv U (slob_pmm st, hp)" "mset hp = mset bigs + mset (map (\<lambda>p. (p, 1)) sp)"
    "slob_ok (arena lay) st zs" "used_disjoint us" "free_of st zs \<inter> used_bytes us = {}"
    "free_of st zs \<union> used_bytes us = kbytes lay (set sp)" "\<forall>(a, u) \<in> set us. 16 dvd a \<and> 0 < u"
    using r by (auto simp: raw_inv_def)
  have a': "16 dvd a" "0 < u" "a \<in> {a..<a + 16 * u}" using z(7) a by auto
  note rm = held_remove1 [OF z(4) a]
  have sub: "{a..<a + 16 * u} \<subseteq> used_bytes us" using held_pages_sub [OF a, of "\<lambda>u. 16 * u"] .
  have "a \<in> kbytes lay (set sp)" using sub a'(3) z(6) by blast
  then have Aa: "arena lay + 16 < a" by (rule kbytes_arena [OF lay])
  have "{a..<a + 16 * u} \<inter> free_of st zs = {}" using sub z(5) by blast
  from slob_free_ok [OF z(3) Aa a'(1) u a'(2) this] obtain st' zs' where st': "slob_free a sz st = Some st'"
    "slob_ok (arena lay) st' zs'" "free_of st' zs' = free_of st zs \<union> {a..<a + 16 * u}" "bigblocks st' = bigblocks st"
    "slob_pmm st' = slob_pmm st"
    "\<forall>b. b \<noteq> arena lay \<longrightarrow> b \<noteq> a \<longrightarrow> b \<notin> free_of st zs \<longrightarrow> slob_mem st' b = slob_mem st b" by blast
  have keep: "\<forall>b \<in> used_bytes (remove1 (a, u) us). slob_mem st' b = slob_mem st b"
  proof
    fix b assume b: "b \<in> used_bytes (remove1 (a, u) us)"
    then have "b \<in> kbytes lay (set sp)" "b \<notin> free_of st zs" "b \<noteq> a" using rm z(5,6) a'(3) by blast+
    moreover from this(1) have "b \<noteq> arena lay" using kbytes_arena [OF lay] by fastforce
    ultimately show "slob_mem st' b = slob_mem st b" using st'(6) by blast
  qed
  have "free_of st' zs' \<inter> used_bytes (remove1 (a, u) us) = {}" using rm st'(3) z(5) by blast
  moreover have "free_of st' zs' \<union> used_bytes (remove1 (a, u) us) = kbytes lay (set sp)" using rm st'(3) z(6) by blast
  moreover have "\<forall>(a, u) \<in> set (remove1 (a, u) us). 16 dvd a \<and> 0 < u" using z(7) by (meson notin_set_remove1)
  moreover have "held_inv U (slob_pmm st', hp)" using z(1) st'(5) by simp
  ultimately have "raw_inv lay U st' (remove1 (a, u) us) bigs" using z(2) st'(2) rm unfolding raw_inv_def by blast
  then show ?thesis using st'(1,4) keep by blast
qed

lemma first_page: "p \<in> {p..<p + blk (2 ^ ord)}"
  using blk_ge [of "2 ^ ord"] less_le_trans [of 0 "2 ^ ord" "blk (2 ^ ord)"] by simp

lemma raw_pages_alloc:
  assumes r: "raw_inv lay U st us bigs"
  shows "slob_get_free_pages lay mgr ord st = Some (0, st) \<or>
    (\<exists>p k. slob_get_free_pages lay mgr ord st = Some (slob_kva lay p, st\<lparr>slob_pmm := k\<rparr>) \<and>
       {p..<p + 2 ^ ord} \<subseteq> U \<and> {p..<p + 2 ^ ord} \<inter> held_pages (\<lambda>n. n) bigs = {} \<and>
       raw_inv lay U (st\<lparr>slob_pmm := k\<rparr>) us ((p, 2 ^ ord) # bigs))"
proof -
  obtain zs sp hp where z: "held_inv U (slob_pmm st, hp)" "mset hp = mset bigs + mset (map (\<lambda>p. (p, 1)) sp)"
    "slob_ok (arena lay) st zs" "used_disjoint us" "free_of st zs \<inter> used_bytes us = {}"
    "free_of st zs \<union> used_bytes us = kbytes lay (set sp)" "\<forall>(a, u) \<in> set us. 16 dvd a \<and> 0 < u"
    using r by (auto simp: raw_inv_def)
  obtain F where F: "inv (snd (slob_pmm st)) F" "F \<inter> held_pages blk hp = {}" "F \<subseteq> U" using z(1) by (auto simp: held_inv_def)
  from slob_get_free_pages_ok [OF F(1), of lay ord] show ?thesis
  proof (elim disjE exE conjE)
    fix p k assume p: "slob_get_free_pages lay mgr ord st = Some (slob_kva lay p, st\<lparr>slob_pmm := k\<rparr>)" 
      "{p..<p + blk (2 ^ ord)} \<subseteq> F" "\<forall>hp. client_step mgr place (slob_pmm st, hp) (k, (p, 2 ^ ord) # hp)"
    have "held_inv U (k, (p, 2 ^ ord) # hp)" using held_inv_step [OF z(1)] p(3) by blast
    moreover have "mset ((p, 2 ^ ord) # hp) = mset ((p, 2 ^ ord) # bigs) + mset (map (\<lambda>p. (p, 1)) sp)" using z(2) by simp
    ultimately have "raw_inv lay U (st\<lparr>slob_pmm := k\<rparr>) us ((p, 2 ^ ord) # bigs)"
      unfolding raw_inv_def using z(3-7) by (intro exI [of _ zs] exI [of _ sp] exI [of _ "(p, 2 ^ ord) # hp"]) (simp add: slob_ok_def)
    moreover have "{p..<p + 2 ^ ord} \<subseteq> F" using p(2) blk_ge [of "2 ^ ord"] by (auto simp: subset_eq)
    ultimately show ?thesis using p(1) F(3) raw_pages(2) [OF z(1,2) F(1,2)] by blast
  qed simp
qed

end

context page_allocator
begin

lemma raw_pages_free:
  assumes r: "raw_inv lay U st us bigs" and U: "U \<subseteq> {..<slob_npage lay}" and p: "(p, 2 ^ ord) \<in> set bigs"
    and pl: "place p (snd (slob_pmm st))"
  shows "\<exists>k. slob_free_pages lay mgr (slob_kva lay p) ord st = Some (st\<lparr>slob_pmm := k\<rparr>) \<and>
    raw_inv lay U (st\<lparr>slob_pmm := k\<rparr>) us (remove1 (p, 2 ^ ord) bigs)"
proof -
  obtain zs sp hp where z: "held_inv U (slob_pmm st, hp)" "mset hp = mset bigs + mset (map (\<lambda>p. (p, 1)) sp)"
    "slob_ok (arena lay) st zs" "used_disjoint us" "free_of st zs \<inter> used_bytes us = {}"
    "free_of st zs \<union> used_bytes us = kbytes lay (set sp)" "\<forall>(a, u) \<in> set us. 16 dvd a \<and> 0 < u"
    using r by (auto simp: raw_inv_def)
  have set_hp: "(p, 2 ^ ord) \<in> set hp" using arg_cong [OF z(2), of set_mset] p by simp
  obtain k where k: "free_pages mgr p (2 ^ ord) (slob_pmm st) = Some k" "held_inv U (k, remove1 (p, 2 ^ ord) hp)"
    using held_inv_free [OF z(1) set_hp pl] by auto
  have "p \<in> held_pages blk hp" using held_pages_sub [OF set_hp, of blk] first_page [of p ord] by blast
  then have "p < slob_npage lay" using z(1) U by (auto simp: held_inv_def)
  then have "slob_free_pages lay mgr (slob_kva lay p) ord st = Some (st\<lparr>slob_pmm := k\<rparr>)"
    using k(1) by (simp add: slob_free_pages_def slob_kva2page_kva)
  moreover have "mset (remove1 (p, 2 ^ ord) hp) = mset (remove1 (p, 2 ^ ord) bigs) + mset (map (\<lambda>p. (p, 1)) sp)"
    using z(2) p by simp
  then have "raw_inv lay U (st\<lparr>slob_pmm := k\<rparr>) us (remove1 (p, 2 ^ ord) bigs)"
    unfolding raw_inv_def using z(3-7) k(2)
    by (intro exI [of _ zs] exI [of _ sp] exI [of _ "remove1 (p, 2 ^ ord) hp"]) (simp add: slob_ok_def)
  ultimately show ?thesis by blast
qed

text \<open>Whatever is written into blocks in use does no harm, their headers included.\<close>

lemma raw_write:
  assumes r: "raw_inv lay U st us bigs" and lay: "layout_ok lay"
    and w: "\<And>a. a \<notin> used_bytes us \<Longrightarrow> a \<notin> big_bytes lay bigs \<Longrightarrow> m a = slob_mem st a"
  shows "raw_inv lay U (st\<lparr>slob_mem := m\<rparr>) us bigs"
proof -
  obtain zs sp hp where z: "held_inv U (slob_pmm st, hp)" "mset hp = mset bigs + mset (map (\<lambda>p. (p, 1)) sp)"
    "slob_ok (arena lay) st zs" "used_disjoint us" "free_of st zs \<inter> used_bytes us = {}"
    "free_of st zs \<union> used_bytes us = kbytes lay (set sp)" "\<forall>(a, u) \<in> set us. 16 dvd a \<and> 0 < u"
    using r by (auto simp: raw_inv_def)
  obtain F where F: "inv (snd (slob_pmm st)) F" "F \<inter> held_pages blk hp = {}" using z(1) by (auto simp: held_inv_def)
  have apart: "big_bytes lay bigs \<inter> kbytes lay (set sp) = {}" unfolding big_bytes_def
    using kbytes_disjoint [OF raw_pages(3) [OF z(1,2) F]] .
  have "m a = slob_mem st a" if "a \<in> set zs" for a
  proof -
    from slob_ok_head [OF z(3) that] show ?thesis
    proof
      assume a: "a = arena lay"
      have "arena lay \<notin> kbytes lay P" for P using kbytes_arena [OF lay, of "arena lay" P] by auto
      then show ?thesis using w [of a] a z(6) unfolding big_bytes_def by blast
    next
      assume "a \<in> free_of st zs"
      then show ?thesis using w [of a] z(5,6) apart by blast
    qed
  qed
  then have "slob_ok (arena lay) (st\<lparr>slob_mem := m\<rparr>) zs \<and> free_of (st\<lparr>slob_mem := m\<rparr>) zs = free_of st zs"
    using free_list_cong [of zs m "slob_mem st" "arena lay"] z(3) by (simp add: slob_ok_def)
  then show ?thesis unfolding raw_inv_def using z
    by (intro exI [of _ zs] exI [of _ sp] exI [of _ hp]) simp
qed

end

end
