(* ===== verification/SlobProps.thy ===== *)
theory SlobProps
  imports SlobHeap PageAlloc
begin

text \<open>
  The properties of \<^verbatim>\<open>kmalloc\<close> and \<^verbatim>\<open>kfree\<close>: a heap together with its clients, its invariant, and what holds in every
  run on the first-fit manager. The requests that the code does not serve well are stated as such: sizes for which it
  stops, sizes for which it gives too little, and size \<open>0\<close>.
\<close>

section \<open>The order of a large request\<close>

lemma slob_find_order_bounds:
  "0 \<le> sz \<Longrightarrow> sz < 4097 * 2 ^ slob_find_order sz \<and>
     (0 < slob_find_order sz \<longrightarrow> 4097 * 2 ^ (slob_find_order sz - 1) \<le> sz)"
proof (induction sz rule: slob_find_order.induct)
  case (1 sz)
  show ?case
  proof (cases "4096 < sz")
    case True
    let ?o = "slob_find_order (sz div 2)"
    have o: "slob_find_order sz = Suc ?o" using True by (subst slob_find_order.simps) simp
    have IH: "sz div 2 < 4097 * 2 ^ ?o" "0 < ?o \<longrightarrow> 4097 * 2 ^ (?o - 1) \<le> sz div 2" using 1 True by auto
    have "4097 * 2 ^ ?o \<le> sz"
    proof (cases ?o)
      case 0
      then show ?thesis using True by simp
    next
      case (Suc k)
      then have "4097 * 2 ^ k \<le> sz div 2" using IH(2) by simp
      then have "4097 * 2 ^ k * 2 \<le> sz" by linarith
      then show ?thesis using Suc by simp
    qed
    moreover have "sz < 4097 * 2 ^ Suc ?o" using IH(1) by simp
    ultimately show ?thesis using o by simp
  next
    case False
    then have "slob_find_order sz = 0" by (subst slob_find_order.simps) simp
    then show ?thesis using False by simp
  qed
qed

lemma order_of_size_int:
  assumes "n < 2 ^ 31"
  shows "order_of_size n = slob_find_order (int n)"
proof -
  have "sint (word_of_nat n :: u32) = int n"
    using assms by (simp add: signed_of_nat signed_take_bit_int_eq_self)
  then show ?thesis by (simp add: order_of_size_def)
qed

lemma order_of_size_bounds:
  assumes "n < 2 ^ 31"
  shows "n < 4097 * 2 ^ order_of_size n" "0 < order_of_size n \<Longrightarrow> 4097 * 2 ^ (order_of_size n - 1) \<le> n"
proof -
  have "int n < int (4097 * 2 ^ order_of_size n)"
    "0 < order_of_size n \<longrightarrow> int (4097 * 2 ^ (order_of_size n - 1)) \<le> int n"
    using slob_find_order_bounds [of "int n"] order_of_size_int [OF assms] by auto
  then show "n < 4097 * 2 ^ order_of_size n" "0 < order_of_size n \<Longrightarrow> 4097 * 2 ^ (order_of_size n - 1) \<le> n"
    by (auto simp only: of_nat_less_iff of_nat_le_iff)
qed

section \<open>A heap and its clients\<close>

type_synonym 's heap = "'s slob \<times> (nat \<times> nat) list"

definition served :: "nat \<Rightarrow> bool" where
  "served n \<longleftrightarrow> 0 < n \<and> (4080 \<le> n \<longrightarrow> n \<le> 4096 * 2 ^ order_of_size n)"

definition page_of :: "slob_layout \<Rightarrow> nat \<Rightarrow> nat" where
  "page_of lay a = (a - kva_base lay) div 4096"

definition page_block :: "slob_layout \<Rightarrow> bigblock \<Rightarrow> nat \<times> nat" where
  "page_block lay bb = (page_of lay (bb_pages bb), 2 ^ bb_order bb)"

definition bb_raw :: "bigblock \<Rightarrow> nat \<times> nat" where
  "bb_raw bb = (bb_addr bb, 2)"

definition held_raw :: "nat \<times> nat \<Rightarrow> nat \<times> nat" where
  "held_raw h = (fst h - 16, SLOB_UNITS (snd h + 16))"

definition small :: "nat \<times> nat \<Rightarrow> bool" where
  "small h \<longleftrightarrow> snd h < 4080"

text \<open>A client may write into its blocks at any time, and the kernel into the nodes of the list of large blocks.\<close>

inductive heap_step :: "slob_layout \<Rightarrow> 's pmm_manager \<Rightarrow> (nat \<Rightarrow> 's \<Rightarrow> bool) \<Rightarrow> 's heap \<Rightarrow> 's heap \<Rightarrow> bool"
  for lay mgr place where
  heap_alloc: "served n \<Longrightarrow> kmalloc lay mgr n st = Some (p, st') \<Longrightarrow> p \<noteq> 0 \<Longrightarrow>
     heap_step lay mgr place (st, held) (st', (p, n) # held)"
| heap_alloc_fail: "0 < n \<Longrightarrow> kmalloc lay mgr n st = Some (0, st') \<Longrightarrow>
     heap_step lay mgr place (st, held) (st', held)"
| heap_free: "(p, n) \<in> set held \<Longrightarrow> (4080 \<le> n \<longrightarrow> place (page_of lay p) (snd (slob_pmm st))) \<Longrightarrow>
     kfree lay mgr p st = Some st' \<Longrightarrow> heap_step lay mgr place (st, held) (st', remove1 (p, n) held)"
| heap_write: "(\<And>a. a \<notin> held_pages (\<lambda>n. n) held \<Longrightarrow> a \<notin> used_bytes (map bb_raw (bigblocks st)) \<Longrightarrow> m a = slob_mem st a) \<Longrightarrow>
     heap_step lay mgr place (st, held) (st\<lparr>slob_mem := m\<rparr>, held)"

inductive_cases heap_stepE: "heap_step lay mgr place (st, held) c"

abbreviation heap_run :: "slob_layout \<Rightarrow> 's pmm_manager \<Rightarrow> (nat \<Rightarrow> 's \<Rightarrow> bool) \<Rightarrow> 's heap \<Rightarrow> 's heap \<Rightarrow> bool" where
  "heap_run lay mgr place \<equiv> (heap_step lay mgr place)\<^sup>*\<^sup>*"

lemma page_of_kva [simp]: "page_of lay (slob_kva lay p) = p"
  by (simp add: page_of_def slob_kva_def)

lemma take_big_None: "take_big p bbs = None \<longleftrightarrow> (\<forall>bb \<in> set bbs. bb_pages bb \<noteq> p)"
  by (induction bbs) auto

lemma take_big_Some: "take_big p bbs = Some (bb, rest) \<Longrightarrow> bb_pages bb = p \<and> mset bbs = add_mset bb (mset rest)"
  by (induction bbs arbitrary: rest) (auto split: if_splits)

lemma take_big_same: "take_big p bbs = Some (bb, rest) \<Longrightarrow> bb \<in> set bbs"
  using take_big_Some by (metis set_mset_mset union_single_eq_member)

context page_allocator
begin

lemma raw_inv_bigblocks [simp]: "raw_inv lay U (st\<lparr>bigblocks := b\<rparr>) us bigs \<longleftrightarrow> raw_inv lay U st us bigs"
  by (simp add: raw_inv_def slob_ok_def)

definition heap_inv :: "slob_layout \<Rightarrow> nat set \<Rightarrow> 's heap \<Rightarrow> bool" where
  "heap_inv lay U c \<longleftrightarrow> (case c of (st, held) \<Rightarrow> \<exists>us.
     raw_inv lay U st us (map (page_block lay) (bigblocks st)) \<and>
     mset us = mset (map held_raw (filter small held)) + mset (map bb_raw (bigblocks st)) \<and>
     mset (map (\<lambda>bb. (bb_pages bb, bb_order bb)) (bigblocks st)) =
       mset (map (\<lambda>h. (fst h, order_of_size (snd h))) (filter (\<lambda>h. \<not> small h) held)) \<and>
     (\<forall>bb \<in> set (bigblocks st). slob_kva lay (page_of lay (bb_pages bb)) = bb_pages bb) \<and>
     (\<forall>(p, n) \<in> set held. served n \<and> (n < 4080 \<longrightarrow> 16 < p \<and> units_of st (p - 16) = SLOB_UNITS (n + 16))) \<and>
     held_disjoint (\<lambda>n. n) held)"

lemma heap_invE:
  assumes "heap_inv lay U (st, held)"
  obtains us where "raw_inv lay U st us (map (page_block lay) (bigblocks st))"
    "mset us = mset (map held_raw (filter small held)) + mset (map bb_raw (bigblocks st))"
    "mset (map (\<lambda>bb. (bb_pages bb, bb_order bb)) (bigblocks st)) =
       mset (map (\<lambda>h. (fst h, order_of_size (snd h))) (filter (\<lambda>h. \<not> small h) held))"
    "\<forall>bb \<in> set (bigblocks st). slob_kva lay (page_of lay (bb_pages bb)) = bb_pages bb"
    "\<forall>(p, n) \<in> set held. served n \<and> (n < 4080 \<longrightarrow> 16 < p \<and> units_of st (p - 16) = SLOB_UNITS (n + 16))"
    "held_disjoint (\<lambda>n. n) held"
  using assms by (auto simp: heap_inv_def)

text \<open>Where the blocks lie: a small one behind its header in a used block, a large one in its pages.\<close>

lemma small_payload:
  assumes "mset us = mset (map held_raw (filter small held)) + mset (map bb_raw bbs)"
    and "(p, n) \<in> set held" "n < 4080" "16 < p"
  shows "{p - 16..<p + n} \<subseteq> {p - 16..<p - 16 + 16 * SLOB_UNITS (n + 16)}" "held_raw (p, n) \<in> set us"
    "{p - 16..<p + n} \<subseteq> used_bytes us"
proof -
  show sub: "{p - 16..<p + n} \<subseteq> {p - 16..<p - 16 + 16 * SLOB_UNITS (n + 16)}"
    using SLOB_UNITS_bounds(1) [of "n + 16"] assms(4) by auto
  have "held_raw (p, n) \<in># mset (map held_raw (filter small held))" using assms(2,3) by (auto simp: small_def)
  then show *: "held_raw (p, n) \<in> set us" using assms(1) by (metis in_multiset_in_set union_iff)
  show "{p - 16..<p + n} \<subseteq> used_bytes us" 
    using held_pages_sub [of "p - 16" "SLOB_UNITS (n + 16)" us "\<lambda>u. 16 * u"] * sub by (auto simp: held_raw_def)
qed

lemma big_payload:
  assumes "mset (map (\<lambda>bb. (bb_pages bb, bb_order bb)) bbs) =
       mset (map (\<lambda>h. (fst h, order_of_size (snd h))) (filter (\<lambda>h. \<not> small h) held))"
    and "\<forall>bb \<in> set bbs. slob_kva lay (page_of lay (bb_pages bb)) = bb_pages bb"
    and "(p, n) \<in> set held" "\<not> n < 4080" "served n"
  shows "\<exists>bb \<in> set bbs. bb_pages bb = p \<and> bb_order bb = order_of_size n" "{p..<p + n} \<subseteq> big_bytes lay (map (page_block lay) bbs)"
proof -
  have "(p, order_of_size n) \<in># mset (map (\<lambda>h. (fst h, order_of_size (snd h))) (filter (\<lambda>h. \<not> small h) held))"
    using assms(3,4) by (force simp: small_def)
  then have "(p, order_of_size n) \<in> (\<lambda>bb. (bb_pages bb, bb_order bb)) ` set bbs" using assms(1) by (metis in_multiset_in_set set_map)
  then obtain bb where bb: "bb \<in> set bbs" "bb_pages bb = p" "bb_order bb = order_of_size n" by auto
  then show "\<exists>bb \<in> set bbs. bb_pages bb = p \<and> bb_order bb = order_of_size n" by blast
  let ?q = "page_of lay p"
  have q: "slob_kva lay ?q = p" using assms(2) bb by auto
  have "{p..<p + n} \<subseteq> kbytes lay {?q..<?q + 2 ^ order_of_size n}"
    using assms(4,5) unfolding kbytes_range q served_def by auto
  moreover have "{?q..<?q + 2 ^ order_of_size n} \<subseteq> held_pages (\<lambda>n. n) (map (page_block lay) bbs)"
    using bb by (intro held_pages_sub) (auto simp: page_block_def image_iff)
  ultimately show "{p..<p + n} \<subseteq> big_bytes lay (map (page_block lay) bbs)" unfolding big_bytes_def
    using kbytes_mono by blast
qed

lemma payload_cover:
  assumes "mset us = mset (map held_raw (filter small held)) + mset (map bb_raw bbs)"
    and "mset (map (\<lambda>bb. (bb_pages bb, bb_order bb)) bbs) =
       mset (map (\<lambda>h. (fst h, order_of_size (snd h))) (filter (\<lambda>h. \<not> small h) held))"
    and "\<forall>bb \<in> set bbs. slob_kva lay (page_of lay (bb_pages bb)) = bb_pages bb"
    and "\<forall>(p, n) \<in> set held. served n \<and> (n < 4080 \<longrightarrow> 16 < p \<and> P p n)"
  shows "held_pages (\<lambda>n. n) held \<subseteq> used_bytes us \<union> big_bytes lay (map (page_block lay) bbs)"
proof -
  have "{p..<p + n} \<subseteq> used_bytes us \<union> big_bytes lay (map (page_block lay) bbs)" if h: "(p, n) \<in> set held" for p n
  proof (cases "n < 4080")
    case True
    then have "16 < p" using assms(4) h by auto
    then have "{p - 16..<p + n} \<subseteq> used_bytes us" using small_payload(3) [OF assms(1) h True] by blast
    moreover have "{p..<p + n} \<subseteq> {p - 16..<p + n}" by auto
    ultimately show ?thesis by blast
  next
    case False
    then show ?thesis using big_payload(2) [OF assms(2,3) h] assms(4) h by blast
  qed
  then show ?thesis unfolding held_pages_def by blast
qed

end

section \<open>Every operation keeps the invariant\<close>

context page_allocator
begin

lemma kmalloc_small:
  assumes h: "heap_inv lay U (st, held)" and lay: "layout_ok lay" and n: "0 < n" "n < 4064"
  shows "\<exists>p st'. kmalloc lay mgr n st = Some (p, st') \<and> (p = 0 \<longrightarrow> heap_inv lay U (st', held)) \<and>
    (p \<noteq> 0 \<longrightarrow> heap_inv lay U (st', (p, n) # held))"
proof -
  from h obtain us where us: "raw_inv lay U st us (map (page_block lay) (bigblocks st))"
    "mset us = mset (map held_raw (filter small held)) + mset (map bb_raw (bigblocks st))"
    "mset (map (\<lambda>bb. (bb_pages bb, bb_order bb)) (bigblocks st)) =
       mset (map (\<lambda>h. (fst h, order_of_size (snd h))) (filter (\<lambda>h. \<not> small h) held))"
    "\<forall>bb \<in> set (bigblocks st). slob_kva lay (page_of lay (bb_pages bb)) = bb_pages bb"
    "\<forall>(p, n) \<in> set held. served n \<and> (n < 4080 \<longrightarrow> 16 < p \<and> units_of st (p - 16) = SLOB_UNITS (n + 16))"
    "held_disjoint (\<lambda>n. n) held" by (rule heap_invE)
  let ?u = "SLOB_UNITS (n + 16)"
  have "16 < n + 16" "n + 16 + 16 < 4096" using n by auto
  from raw_alloc [OF us(1) lay this] show ?thesis
  proof (elim disjE exE conjE)
    assume "slob_alloc lay mgr (n + 16) 0 st = Some (0, st)"
    then show ?thesis using n h by (simp add: kmalloc_def)
  next
    fix x st'
    assume x: "slob_alloc lay mgr (n + 16) 0 st = Some (x, st')" "raw_inv lay U st' ((x, ?u) # us) (map (page_block lay) (bigblocks st))"
       "bigblocks st' = bigblocks st" "units_of st' x = ?u" "arena lay + 16 < x"
       "\<forall>a \<in> used_bytes us. slob_mem st' a = slob_mem st a"
    have "kmalloc lay mgr n st = Some (x + 16, st')" using x(1,5) n by (simp add: kmalloc_def)
    moreover have "heap_inv lay U (st', (x + 16, n) # held)" unfolding heap_inv_def prod.case
    proof (rule exI [of _ "(x, ?u) # us"], intro conjI)
      show "raw_inv lay U st' ((x, ?u) # us) (map (page_block lay) (bigblocks st'))" using x(2,3) by simp
      show "mset ((x, ?u) # us) = mset (map held_raw (filter small ((x + 16, n) # held))) + mset (map bb_raw (bigblocks st'))"
        using us(2) x(3) n(2) by (simp add: held_raw_def small_def)
      show "mset (map (\<lambda>bb. (bb_pages bb, bb_order bb)) (bigblocks st')) =
         mset (map (\<lambda>h. (fst h, order_of_size (snd h))) (filter (\<lambda>h. \<not> small h) ((x + 16, n) # held)))" using us(3) x(3) n(2) by (simp add: small_def)
      show "\<forall>bb \<in> set (bigblocks st'). slob_kva lay (page_of lay (bb_pages bb)) = bb_pages bb" using us(4) x(3) by simp
      have "units_of st' (p - 16) = SLOB_UNITS (m + 16)" if "(p, m) \<in> set held" "m < 4080" "16 < p" for p m
      proof -
        have "p - 16 \<in> used_bytes us" using small_payload(3) [OF us(2) that] that(3) by auto
        then show ?thesis using x(6) us(5) that by fastforce
      qed
      then show "\<forall>(p, m) \<in> set ((x + 16, n) # held). served m \<and>
          (m < 4080 \<longrightarrow> 16 < p \<and> units_of st' (p - 16) = SLOB_UNITS (m + 16))"
        using us(5) x(4,5) n by (auto simp: served_def)
      have "{x + 16..<x + 16 + n} \<subseteq> {x..<x + 16 * ?u}" using SLOB_UNITS_bounds(1) [of "n + 16"] by auto
      moreover have "{x..<x + 16 * ?u} \<inter> used_bytes us = {}" using x(2) by (auto simp: raw_inv_def)
      moreover have "{x..<x + 16 * ?u} \<inter> big_bytes lay (map (page_block lay) (bigblocks st)) = {}"
        using raw_big_apart [OF x(2)] by auto
      ultimately show "held_disjoint (\<lambda>n. n) ((x + 16, n) # held)"
        using payload_cover [OF us(2-5)] us(6) by (simp only: held_disjoint_Cons) blast
    qed
    ultimately show ?thesis by auto
  qed
qed

lemma kmalloc_big:
  assumes h: "heap_inv lay U (st, held)" and lay: "layout_ok lay" and n: "4080 \<le> n"
  shows "\<exists>p st'. kmalloc lay mgr n st = Some (p, st') \<and> (p = 0 \<longrightarrow> heap_inv lay U (st', held)) \<and>
    (p \<noteq> 0 \<and> served n \<longrightarrow> heap_inv lay U (st', (p, n) # held))"
proof -
  from h obtain us where us: "raw_inv lay U st us (map (page_block lay) (bigblocks st))"
    "mset us = mset (map held_raw (filter small held)) + mset (map bb_raw (bigblocks st))"
    "mset (map (\<lambda>bb. (bb_pages bb, bb_order bb)) (bigblocks st)) =
       mset (map (\<lambda>h. (fst h, order_of_size (snd h))) (filter (\<lambda>h. \<not> small h) held))"
    "\<forall>bb \<in> set (bigblocks st). slob_kva lay (page_of lay (bb_pages bb)) = bb_pages bb"
    "\<forall>(p, n) \<in> set held. served n \<and> (n < 4080 \<longrightarrow> 16 < p \<and> units_of st (p - 16) = SLOB_UNITS (n + 16))"
    "held_disjoint (\<lambda>n. n) held" by (rule heap_invE)
  have n': "\<not> n < 4080" using n by simp
  have u2: "SLOB_UNITS 24 = 2" by (simp add: SLOB_UNITS_def)
  let ?o = "order_of_size n"
  have sz: "16 < (24 :: nat)" "24 + 16 < (4096 :: nat)" by simp_all
  from raw_alloc [OF us(1) lay sz, unfolded u2] show ?thesis
  proof (elim disjE exE conjE)
    assume "slob_alloc lay mgr 24 0 st = Some (0, st)"
    then show ?thesis using n h by (simp add: kmalloc_def)
  next
    fix x st'
    assume x: "slob_alloc lay mgr 24 0 st = Some (x, st')" "raw_inv lay U st' ((x, 2) # us) (map (page_block lay) (bigblocks st))"
       "bigblocks st' = bigblocks st" "units_of st' x = 2" "arena lay + 16 < x"
       "\<forall>a \<in> used_bytes us. slob_mem st' a = slob_mem st a"
    have keep: "units_of st' (p - 16) = SLOB_UNITS (m + 16)" if "(p, m) \<in> set held" "m < 4080" "16 < p" for p m
    proof -
      have "p - 16 \<in> used_bytes us" using small_payload(3) [OF us(2) that] that(3) by auto
      then show ?thesis using x(6) us(5) that by fastforce
    qed
    from raw_pages_alloc [OF x(2), of ?o] show ?thesis
    proof (elim disjE exE conjE)
      assume g: "slob_get_free_pages lay mgr ?o st' = Some (0, st')"
      have a: "(x, 2) \<in> set ((x, 2) # us)" "2 = (if 24 \<noteq> (0 :: nat) then SLOB_UNITS 24 else units_of st' x)" using u2 by simp_all
      from raw_free [OF x(2) lay a] obtain st'' where f: "slob_free x 24 st' = Some st''"
        "raw_inv lay U st'' us (map (page_block lay) (bigblocks st))" "bigblocks st'' = bigblocks st'"
        "\<forall>b \<in> used_bytes us. slob_mem st'' b = slob_mem st' b" by auto
      have "units_of st'' (p - 16) = SLOB_UNITS (m + 16)" if "(p, m) \<in> set held" "m < 4080" "16 < p" for p m
      proof -
        have "p - 16 \<in> used_bytes us" using small_payload(3) [OF us(2) that] that(3) by auto
        then show ?thesis using f(4) keep [OF that] by simp
      qed
      then have "\<forall>(p, n) \<in> set held. served n \<and> (n < 4080 \<longrightarrow> 16 < p \<and> units_of st'' (p - 16) = SLOB_UNITS (n + 16))"
        using us(5) by auto
      then have "heap_inv lay U (st'', held)" unfolding heap_inv_def prod.case
        using f(2,3) x(3) us(2,3,4,6) by (intro exI [of _ us]) simp
      moreover have "kmalloc lay mgr n st = Some (0, st'')" using n x(1,5) g f(1) by (simp add: kmalloc_def)
      ultimately show ?thesis by blast
    next
      fix p k
      assume g: "slob_get_free_pages lay mgr ?o st' = Some (slob_kva lay p, st'\<lparr>slob_pmm := k\<rparr>)" 
        "{p..<p + 2 ^ ?o} \<inter> held_pages (\<lambda>n. n) (map (page_block lay) (bigblocks st)) = {}"
        "raw_inv lay U (st'\<lparr>slob_pmm := k\<rparr>) ((x, 2) # us) ((p, 2 ^ ?o) # map (page_block lay) (bigblocks st))"
      let ?p = "slob_kva lay p" and ?bb = "\<lparr>bb_addr = x, bb_order = ?o, bb_pages = slob_kva lay p\<rparr>"
      let ?st = "st'\<lparr>slob_pmm := k, bigblocks := ?bb # bigblocks st\<rparr>"
      have run: "kmalloc lay mgr n st = Some (?p, ?st)"
        using n x(1,3,5) g(1) kva_facts(3) [OF lay, of p] by (simp add: kmalloc_def Let_def)
      have "heap_inv lay U (?st, (?p, n) # held)" if sv: "served n" unfolding heap_inv_def prod.case
      proof (rule exI [of _ "(x, 2) # us"], intro conjI)
        show "raw_inv lay U ?st ((x, 2) # us) (map (page_block lay) (bigblocks ?st))" using g(3) by (simp add: page_block_def)
        show "mset ((x, 2) # us) = mset (map held_raw (filter small ((?p, n) # held))) + mset (map bb_raw (bigblocks ?st))"
          using us(2) n' by (simp add: bb_raw_def small_def)
        show "mset (map (\<lambda>bb. (bb_pages bb, bb_order bb)) (bigblocks ?st)) =
          mset (map (\<lambda>h. (fst h, order_of_size (snd h))) (filter (\<lambda>h. \<not> small h) ((?p, n) # held)))" using us(3) n' by (simp add: small_def)
        show "\<forall>bb \<in> set (bigblocks ?st). slob_kva lay (page_of lay (bb_pages bb)) = bb_pages bb" using us(4) by simp
        show "\<forall>(p, m) \<in> set ((?p, n) # held). served m \<and>
          (m < 4080 \<longrightarrow> 16 < p \<and> units_of ?st (p - 16) = SLOB_UNITS (m + 16))" using us(5) keep sv n' by auto
        have sub: "{?p..<?p + n} \<subseteq> kbytes lay {p..<p + 2 ^ ?o}" using sv n unfolding kbytes_range served_def by auto
        also have "\<dots> \<subseteq> big_bytes lay ((p, 2 ^ ?o) # map (page_block lay) (bigblocks st))"
          unfolding big_bytes_def by (intro kbytes_mono) simp
        finally have "{?p..<?p + n} \<inter> used_bytes us = {}" using raw_big_apart [OF g(3)] by auto
        moreover have "{?p..<?p + n} \<inter> big_bytes lay (map (page_block lay) (bigblocks st)) = {}"
          using kbytes_disjoint [OF g(2), of lay] sub unfolding big_bytes_def by blast
        ultimately show "held_disjoint (\<lambda>n. n) ((?p, n) # held)"
          using payload_cover [OF us(2-5)] us(6) by (simp only: held_disjoint_Cons) blast
      qed
      then show ?thesis using run kva_facts(3) [OF lay, of p] by (intro exI [of _ ?p] exI [of _ ?st]) simp
    qed
  qed
qed

lemma kmalloc_stops_iff:
  assumes h: "heap_inv lay U (st, held)" and lay: "layout_ok lay" and n: "0 < n"
  shows "kmalloc lay mgr n st = None \<longleftrightarrow> 4064 \<le> n \<and> n < 4080"
proof (cases "4064 \<le> n \<and> n < 4080")
  case True
  then show ?thesis by (simp add: kmalloc_def slob_alloc_def)
next
  case False
  then show ?thesis using kmalloc_small [OF h lay n] kmalloc_big [OF h lay, of n] by force
qed

end

lemma mset_filter_remove1:
  "x \<in> set xs \<Longrightarrow> mset (filter P xs) = (if P x then {#x#} else {#}) + mset (filter P (remove1 x xs))"
  by (induction xs) auto

context page_allocator
begin

lemma kfree_small:
  assumes h: "heap_inv lay U (st, held)" and lay: "layout_ok lay" and p: "(p, n) \<in> set held" "n < 4080"
  shows "\<exists>st'. kfree lay mgr p st = Some st' \<and> heap_inv lay U (st', remove1 (p, n) held)"
proof -
  from h obtain us where us: "raw_inv lay U st us (map (page_block lay) (bigblocks st))"
    "mset us = mset (map held_raw (filter small held)) + mset (map bb_raw (bigblocks st))"
    "mset (map (\<lambda>bb. (bb_pages bb, bb_order bb)) (bigblocks st)) =
       mset (map (\<lambda>h. (fst h, order_of_size (snd h))) (filter (\<lambda>h. \<not> small h) held))"
    "\<forall>bb \<in> set (bigblocks st). slob_kva lay (page_of lay (bb_pages bb)) = bb_pages bb"
    "\<forall>(p, n) \<in> set held. served n \<and> (n < 4080 \<longrightarrow> 16 < p \<and> units_of st (p - 16) = SLOB_UNITS (n + 16))"
    "held_disjoint (\<lambda>n. n) held" by (rule heap_invE)
  let ?held = "remove1 (p, n) held" and ?a = "p - 16" and ?u = "SLOB_UNITS (n + 16)"
  have pn: "0 < n" "16 < p" "units_of st ?a = ?u" using us(5) p by (auto simp: served_def)
  note pay = small_payload [OF us(2) p pn(2)]
  have "take_big p (bigblocks st) = None"
  proof -
    have "p \<in> used_bytes us" using pay(3) pn(1,2) by auto
    then have "p \<notin> big_bytes lay (map (page_block lay) (bigblocks st))" using raw_big_apart [OF us(1)] by blast
    moreover have "bb_pages bb \<in> big_bytes lay (map (page_block lay) (bigblocks st))" if bb: "bb \<in> set (bigblocks st)" for bb
    proof -
      let ?q = "page_of lay (bb_pages bb)"
      have "bb_pages bb \<in> kbytes lay {?q..<?q + 2 ^ bb_order bb}" unfolding kbytes_range using us(4) bb by auto
      moreover have "{?q..<?q + 2 ^ bb_order bb} \<subseteq> held_pages (\<lambda>n. n) (map (page_block lay) (bigblocks st))"
        using bb by (intro held_pages_sub) (auto simp: page_block_def image_iff)
      ultimately show ?thesis unfolding big_bytes_def using kbytes_mono by blast
    qed
    ultimately show ?thesis unfolding take_big_None by blast
  qed
  then have run: "kfree lay mgr p st = slob_free ?a 0 st" using pn(2) by (simp add: kfree_def)
  have a: "(?a, ?u) \<in> set us" "?u = (if 0 \<noteq> (0 :: nat) then SLOB_UNITS 0 else units_of st ?a)"
    using pay(2) pn(3) by (simp_all add: held_raw_def)
  from raw_free [OF us(1) lay a] obtain st' where f: "slob_free ?a 0 st = Some st'"
    "raw_inv lay U st' (remove1 (?a, ?u) us) (map (page_block lay) (bigblocks st))" "bigblocks st' = bigblocks st"
    "\<forall>b \<in> used_bytes (remove1 (?a, ?u) us). slob_mem st' b = slob_mem st b" by blast
  have "mset (filter small held) = add_mset (p, n) (mset (filter small ?held))"
    using mset_filter_remove1 [OF p(1), of small] p(2) by (simp add: small_def del: mset_filter mset_remove1)
  then have "mset (map held_raw (filter small held)) = add_mset (?a, ?u) (mset (map held_raw (filter small ?held)))"
    by (simp only: mset_map image_mset_add_mset held_raw_def fst_conv snd_conv)
  then have "mset us = add_mset (?a, ?u) (mset (map held_raw (filter small ?held)) + mset (map bb_raw (bigblocks st)))"
    using us(2) by (simp only: union_mset_add_mset_left)
  then have us': "mset (remove1 (?a, ?u) us) = mset (map held_raw (filter small ?held)) + mset (map bb_raw (bigblocks st))" by simp
  have nb: "mset (filter (\<lambda>h. \<not> small h) held) = mset (filter (\<lambda>h. \<not> small h) ?held)"
    using mset_filter_remove1 [OF p(1), of "\<lambda>h. \<not> small h"] p(2) by (simp add: small_def del: mset_filter mset_remove1)
  have bigs: "mset (map (\<lambda>bb. (bb_pages bb, bb_order bb)) (bigblocks st')) =
    mset (map (\<lambda>h. (fst h, order_of_size (snd h))) (filter (\<lambda>h. \<not> small h) ?held))" using us(3) unfolding f(3) mset_map nb .
  have "served m \<and> (m < 4080 \<longrightarrow> 16 < q \<and> units_of st' (q - 16) = SLOB_UNITS (m + 16))" if q: "(q, m) \<in> set ?held" for q m
  proof -
    have "(q, m) \<in> set held" using q by (meson notin_set_remove1)
    then have *: "served m \<and> (m < 4080 \<longrightarrow> 16 < q \<and> units_of st (q - 16) = SLOB_UNITS (m + 16))" using us(5) by auto
    then have "q - 16 \<in> used_bytes (remove1 (?a, ?u) us)" if "m < 4080"
      using small_payload(3) [OF us' q that] that by auto
    then show ?thesis using * f(4) by auto
  qed
  then have "heap_inv lay U (st', ?held)" unfolding heap_inv_def prod.case
    using f(2,3) us' bigs us(4) held_remove1 [OF us(6) p(1)] by (intro exI [of _ "remove1 (?a, ?u) us"]) auto
  then show ?thesis using run f(1) by simp
qed

end

context page_allocator
begin

lemma kfree_big:
  assumes h: "heap_inv lay U (st, held)" and lay: "layout_ok lay" and U: "U \<subseteq> {..<slob_npage lay}"
    and p: "(p, n) \<in> set held" "\<not> n < 4080" and pl: "place (page_of lay p) (snd (slob_pmm st))"
  shows "\<exists>st'. kfree lay mgr p st = Some st' \<and> heap_inv lay U (st', remove1 (p, n) held)"
proof -
  from h obtain us where us: "raw_inv lay U st us (map (page_block lay) (bigblocks st))"
    "mset us = mset (map held_raw (filter small held)) + mset (map bb_raw (bigblocks st))"
    "mset (map (\<lambda>bb. (bb_pages bb, bb_order bb)) (bigblocks st)) =
       mset (map (\<lambda>h. (fst h, order_of_size (snd h))) (filter (\<lambda>h. \<not> small h) held))"
    "\<forall>bb \<in> set (bigblocks st). slob_kva lay (page_of lay (bb_pages bb)) = bb_pages bb"
    "\<forall>(p, n) \<in> set held. served n \<and> (n < 4080 \<longrightarrow> 16 < p \<and> units_of st (p - 16) = SLOB_UNITS (n + 16))"
    "held_disjoint (\<lambda>n. n) held" by (rule heap_invE)
  let ?held = "remove1 (p, n) held" and ?q = "page_of lay p"
  have sv: "served n" using us(5) p by auto
  obtain b0 where b0: "b0 \<in> set (bigblocks st)" "bb_pages b0 = p" using big_payload(1) [OF us(3,4) p sv] by blast
  then obtain bb rest where tb: "take_big p (bigblocks st) = Some (bb, rest)" using take_big_None [of p "bigblocks st"] by fastforce
  have bb: "bb_pages bb = p" "mset (bigblocks st) = add_mset bb (mset rest)" using take_big_Some [OF tb] by auto
  have inb: "bb \<in> set (bigblocks st)" using take_big_same [OF tb] .
  have q: "slob_kva lay ?q = p" using us(4) inb bb(1) by auto
  have ord: "bb_order bb = order_of_size n"
  proof -
    have "(p, bb_order bb) \<in># mset (map (\<lambda>bb. (bb_pages bb, bb_order bb)) (bigblocks st))" using inb bb(1) by force
    then obtain m where m: "(p, m) \<in> set held" "bb_order bb = order_of_size m" unfolding us(3) by auto
    have "0 < m" "0 < n" using us(5) m(1) p(1) by (auto simp: served_def)
    then have "{p..<p + m} \<inter> {p..<p + n} \<noteq> {}" by auto
    then have "m = n" using held_disjointD [OF us(6) m(1) p(1)] by auto
    then show ?thesis using m(2) by simp
  qed
  let ?pb = "(?q, 2 ^ bb_order bb)" and ?st1 = "st\<lparr>bigblocks := rest\<rparr>"
  have pb: "page_block lay bb = ?pb" using bb(1) by (simp add: page_block_def)
  have "raw_inv lay U ?st1 us (map (page_block lay) (bigblocks st))" using us(1) by simp
  moreover have "?pb \<in> set (map (page_block lay) (bigblocks st))" using inb pb by (metis image_eqI set_map)
  ultimately obtain k where k: "slob_free_pages lay mgr p (bb_order bb) ?st1 = Some (?st1\<lparr>slob_pmm := k\<rparr>)"
    "raw_inv lay U (?st1\<lparr>slob_pmm := k\<rparr>) us (remove1 ?pb (map (page_block lay) (bigblocks st)))"
    using raw_pages_free [OF _ U, of ?st1 us "map (page_block lay) (bigblocks st)" ?q "bb_order bb"] pl q by auto
  let ?st2 = "?st1\<lparr>slob_pmm := k\<rparr>"
  have "mset (remove1 ?pb (map (page_block lay) (bigblocks st))) = mset (map (page_block lay) rest)"
    using bb(2) pb by (simp only: mset_remove1 mset_map image_mset_add_mset add_mset_remove_trivial)
  then have r2: "raw_inv lay U ?st2 us (map (page_block lay) rest)" by (rule raw_inv_mset [OF k(2)])
  have "mset us = add_mset (bb_addr bb, 2) (mset (map held_raw (filter small held)) + mset (map bb_raw rest))"
    using us(2) unfolding mset_map bb(2) by (simp add: bb_raw_def)
  then have us': "mset (remove1 (bb_addr bb, 2) us) = mset (map held_raw (filter small held)) + mset (map bb_raw rest)"
    and a: "(bb_addr bb, 2) \<in> set us" by (simp, metis set_mset_mset union_single_eq_member)
  have u: "2 = (if 24 \<noteq> (0 :: nat) then SLOB_UNITS 24 else units_of ?st2 (bb_addr bb))" by (simp add: SLOB_UNITS_def)
  from raw_free [OF r2 lay a u] obtain st' where f: "slob_free (bb_addr bb) 24 ?st2 = Some st'"
    "raw_inv lay U st' (remove1 (bb_addr bb, 2) us) (map (page_block lay) rest)" "bigblocks st' = rest"
    "\<forall>b \<in> used_bytes (remove1 (bb_addr bb, 2) us). slob_mem st' b = slob_mem st b" by auto
  have p0: "p \<noteq> 0" "p mod 4096 = 0" using kva_facts(3,4) [OF lay, of ?q] q by simp_all
  have run: "kfree lay mgr p st = Some st'" unfolding kfree_def using p0 tb k(1) f(1) by simp
  have ns: "mset (filter small held) = mset (filter small ?held)"
    using mset_filter_remove1 [OF p(1), of small] p(2) by (simp add: small_def del: mset_filter mset_remove1)
  have nb: "mset (filter (\<lambda>h. \<not> small h) held) = add_mset (p, n) (mset (filter (\<lambda>h. \<not> small h) ?held))"
    using mset_filter_remove1 [OF p(1), of "\<lambda>h. \<not> small h"] p(2) by (simp add: small_def del: mset_filter mset_remove1)
  have us'': "mset (remove1 (bb_addr bb, 2) us) = mset (map held_raw (filter small ?held)) + mset (map bb_raw rest)"
    using us' unfolding mset_map ns .
  have bigs: "mset (map (\<lambda>bb. (bb_pages bb, bb_order bb)) rest) =
    mset (map (\<lambda>h. (fst h, order_of_size (snd h))) (filter (\<lambda>h. \<not> small h) ?held))"
    using us(3) unfolding mset_map bb(2) nb by (simp add: bb(1) ord del: mset_filter mset_remove1)
  have "served m \<and> (m < 4080 \<longrightarrow> 16 < r \<and> units_of st' (r - 16) = SLOB_UNITS (m + 16))" if r: "(r, m) \<in> set ?held" for r m
  proof -
    have "(r, m) \<in> set held" using r by (meson notin_set_remove1)
    then have *: "served m \<and> (m < 4080 \<longrightarrow> 16 < r \<and> units_of st (r - 16) = SLOB_UNITS (m + 16))" using us(5) by auto
    then have "r - 16 \<in> used_bytes (remove1 (bb_addr bb, 2) us)" if "m < 4080"
      using small_payload(3) [OF us'' r that] that by auto
    then show ?thesis using * f(4) by auto
  qed
  moreover have "\<forall>bb \<in> set rest. slob_kva lay (page_of lay (bb_pages bb)) = bb_pages bb"
    using us(4) bb(2) by (metis insert_iff set_mset_add_mset_insert set_mset_mset)
  ultimately have "heap_inv lay U (st', ?held)" unfolding heap_inv_def prod.case
    using f(2,3) us'' bigs held_remove1 [OF us(6) p(1)] by (intro exI [of _ "remove1 (bb_addr bb, 2) us"]) auto
  then show ?thesis using run by blast
qed

lemma heap_write_ok:
  assumes h: "heap_inv lay U (st, held)" and lay: "layout_ok lay"
    and w: "\<And>a. a \<notin> held_pages (\<lambda>n. n) held \<Longrightarrow> a \<notin> used_bytes (map bb_raw (bigblocks st)) \<Longrightarrow> m a = slob_mem st a"
  shows "heap_inv lay U (st\<lparr>slob_mem := m\<rparr>, held)"
proof -
  from h obtain us where us: "raw_inv lay U st us (map (page_block lay) (bigblocks st))"
    "mset us = mset (map held_raw (filter small held)) + mset (map bb_raw (bigblocks st))"
    "mset (map (\<lambda>bb. (bb_pages bb, bb_order bb)) (bigblocks st)) =
       mset (map (\<lambda>h. (fst h, order_of_size (snd h))) (filter (\<lambda>h. \<not> small h) held))"
    "\<forall>bb \<in> set (bigblocks st). slob_kva lay (page_of lay (bb_pages bb)) = bb_pages bb"
    "\<forall>(p, n) \<in> set held. served n \<and> (n < 4080 \<longrightarrow> 16 < p \<and> units_of st (p - 16) = SLOB_UNITS (n + 16))"
    "held_disjoint (\<lambda>n. n) held" by (rule heap_invE)
  have ud: "used_disjoint us" and pos: "\<And>a u. (a, u) \<in> set us \<Longrightarrow> 0 < 16 * u" using us(1) by (auto simp: raw_inv_def)
  have apart: "used_bytes (map held_raw (filter small held)) \<inter> used_bytes (map bb_raw (bigblocks st)) = {}"
    by (rule held_split_disjoint [OF ud _ us(2)]) (rule pos)
  have recs: "used_bytes (map bb_raw (bigblocks st)) \<subseteq> used_bytes us"
    using arg_cong [OF us(2), of set_mset] by (intro held_pages_mono) auto
  have "held_pages (\<lambda>n. n) held \<subseteq> used_bytes us \<union> big_bytes lay (map (page_block lay) (bigblocks st))"
    by (rule payload_cover [OF us(2-5)])
  then have "raw_inv lay U (st\<lparr>slob_mem := m\<rparr>) us (map (page_block lay) (bigblocks st))"
    using recs by (intro raw_write [OF us(1) lay] w) blast+
  moreover have "units (m (p - 16)) = SLOB_UNITS (n + 16)" if p: "(p, n) \<in> set held" "n < 4080" "16 < p" for p n
  proof -
    note pay = small_payload [OF us(2) p]
    have hd: "p - 16 \<in> {p - 16..<p + n}" using p(3) by auto
    have raw: "p - 16 \<in> {p - 16..<p - 16 + 16 * SLOB_UNITS (n + 16)}" using pay(1) hd by blast
    have inr: "held_raw (p, n) \<in> set (map held_raw (filter small held))" using p by (auto simp: small_def)
    have "p - 16 \<in> used_bytes (map held_raw (filter small held))"
      using held_pages_sub [of "p - 16" "SLOB_UNITS (n + 16)" "map held_raw (filter small held)" "\<lambda>u. 16 * u"] inr raw
      by (auto simp: held_raw_def)
    then have 1: "p - 16 \<notin> used_bytes (map bb_raw (bigblocks st))" using apart by blast
    have "p - 16 \<notin> {q..<q + k}" if q: "(q, k) \<in> set held" for q k
    proof (cases "k < 4080")
      case True
      have q16: "16 < q" "0 < k" using us(5) q True by (auto simp: served_def)
      note payq = small_payload [OF us(2) q True q16(1)]
      show ?thesis
      proof (cases "held_raw (q, k) = held_raw (p, n)")
        case True
        then have "q - 16 = p - 16" by (simp add: held_raw_def)
        then have "q = p" using q16(1) p(3) by linarith
        then show ?thesis using q16(1) by auto
      next
        case False
        then have "{q - 16..<q - 16 + 16 * SLOB_UNITS (k + 16)} \<inter> {p - 16..<p - 16 + 16 * SLOB_UNITS (n + 16)} = {}"
          using held_disjointD [OF ud payq(2) pay(2)] by (simp add: held_raw_def)
        then have "p - 16 \<notin> {q - 16..<q + k}" using payq(1) raw by blast
        then show ?thesis by auto
      qed
    next
      case False
      have "served k" using us(5) q by auto
      then have "{q..<q + k} \<subseteq> big_bytes lay (map (page_block lay) (bigblocks st))" using big_payload(2) [OF us(3,4) q False] by blast
      then show ?thesis using raw_big_apart [OF us(1)] pay(3) hd by blast
    qed
    then have "p - 16 \<notin> held_pages (\<lambda>n. n) held" unfolding held_pages_def by blast
    then show ?thesis using w [OF _ 1] us(5) p by auto
  qed
  ultimately show ?thesis unfolding heap_inv_def prod.case using us(2-6) by (intro exI [of _ us]) auto
qed

end

context page_allocator
begin

lemma heap_inv_step:
  assumes h: "heap_inv lay U (st, held)" and lay: "layout_ok lay" and U: "U \<subseteq> {..<slob_npage lay}"
    and step: "heap_step lay mgr place (st, held) c"
  shows "heap_inv lay U c"
  using step
proof (cases rule: heap_stepE [consumes 1, case_names alloc fail free client_write])
  case (alloc n p st')
  then have n: "0 < n" "\<not> (4064 \<le> n \<and> n < 4080)" using kmalloc_stops_iff [OF h lay, of n] by (auto simp: served_def)
  then show ?thesis using kmalloc_small [OF h lay n(1)] kmalloc_big [OF h lay, of n] alloc by force
next
  case (fail n st')
  then have n: "\<not> (4064 \<le> n \<and> n < 4080)" using kmalloc_stops_iff [OF h lay, of n] by auto
  then show ?thesis using kmalloc_small [OF h lay fail(2)] kmalloc_big [OF h lay, of n] fail by force
next
  case (free p n st')
  then show ?thesis using kfree_small [OF h lay free(2)] kfree_big [OF h lay U free(2)] by fastforce
next
  case (client_write m)
  then show ?thesis using heap_write_ok [OF h lay, of m] by simp
qed

lemma heap_inv_run:
  assumes "heap_run lay mgr place c c'" and "heap_inv lay U c" and "layout_ok lay" and "U \<subseteq> {..<slob_npage lay}"
  shows "heap_inv lay U c'"
  using assms(1,2)
proof (induction rule: rtranclp_induct)
  case (step y z)
  then show ?case using heap_inv_step [OF _ assms(3,4)] by (metis prod.collapse)
qed

lemma heap_inv_start: 
  assumes "inv (snd k) U"
  shows "heap_inv lay U (slob_start lay k m, [])"
proof -
  let ?st = "slob_start lay k m"
  have "held_inv U (k, [])" using assms by (simp add: held_inv_def)
  moreover have "slob_ok (arena lay) ?st [arena lay]" by (simp add: slob_ok_def free_list_def ring_def slob_start_def)
  ultimately have "raw_inv lay U ?st [] []" unfolding raw_inv_def
    by (intro exI [of _ "[arena lay]"] exI [of _ "[]"]) (simp add: slob_start_def)
  then show ?thesis by (simp add: heap_inv_def slob_start_def)
qed

lemma heap_inv_safe:
  assumes h: "heap_inv lay U (st, held)"
  shows "held_disjoint (\<lambda>n. n) held \<and> held_pages (\<lambda>n. n) held \<subseteq> kbytes lay U"
proof -
  from h obtain us where us: "raw_inv lay U st us (map (page_block lay) (bigblocks st))"
    "mset us = mset (map held_raw (filter small held)) + mset (map bb_raw (bigblocks st))"
    "mset (map (\<lambda>bb. (bb_pages bb, bb_order bb)) (bigblocks st)) =
       mset (map (\<lambda>h. (fst h, order_of_size (snd h))) (filter (\<lambda>h. \<not> small h) held))"
    "\<forall>bb \<in> set (bigblocks st). slob_kva lay (page_of lay (bb_pages bb)) = bb_pages bb"
    "\<forall>(p, n) \<in> set held. served n \<and> (n < 4080 \<longrightarrow> 16 < p \<and> units_of st (p - 16) = SLOB_UNITS (n + 16))"
    "held_disjoint (\<lambda>n. n) held" by (rule heap_invE)
  obtain zs sp hp where z: "held_inv U (slob_pmm st, hp)"
    "mset hp = mset (map (page_block lay) (bigblocks st)) + mset (map (\<lambda>p. (p, 1)) sp)"
    "free_of st zs \<union> used_bytes us = kbytes lay (set sp)" using us(1) by (auto simp: raw_inv_def)
  have hp: "held_pages blk hp \<subseteq> U" using z(1) by (auto simp: held_inv_def)
  have "{p..<p + n} \<subseteq> {p..<p + blk n}" for p n using blk_ge [of n] by auto
  then have wide: "held_pages (\<lambda>n. n) xs \<subseteq> held_pages blk xs" for xs unfolding held_pages_def by blast
  have set_hp: "set hp = set (map (page_block lay) (bigblocks st)) \<union> set (map (\<lambda>p. (p, 1)) sp)"
    using arg_cong [OF z(2), of set_mset] by simp
  have sub: "held_pages (\<lambda>n. n) xs \<subseteq> U" if "set xs \<subseteq> set hp" for xs
    using wide [of xs] held_pages_mono [OF that, of blk] hp by blast
  have "held_pages (\<lambda>n. n) (map (page_block lay) (bigblocks st)) \<subseteq> U" using sub set_hp by simp
  then have big: "big_bytes lay (map (page_block lay) (bigblocks st)) \<subseteq> kbytes lay U" unfolding big_bytes_def by (rule kbytes_mono)
  have "set sp \<subseteq> held_pages (\<lambda>n. n) (map (\<lambda>p. (p, 1)) sp)" by (auto simp: held_pages_def)
  also have "\<dots> \<subseteq> U" using sub set_hp by simp
  finally have "used_bytes us \<subseteq> kbytes lay U" using z(3) kbytes_mono by blast
  with big show ?thesis using payload_cover [OF us(2-5)] us(6) by blast
qed

text \<open>When nothing is held, all that was ever taken is free again: every byte of the pages the list was grown by is in
  it, and the manager has all other pages.\<close>

lemma heap_inv_empty:
  assumes h: "heap_inv lay U (st, [])"
  shows "bigblocks st = [] \<and> (\<exists>zs sp F. slob_ok (arena lay) st zs \<and> free_of st zs = kbytes lay (set sp) \<and>
    inv (snd (slob_pmm st)) F \<and> F \<inter> set sp = {} \<and> F \<union> held_pages blk (map (\<lambda>p. (p, 1)) sp) = U)"
proof -
  from h obtain us where us: "raw_inv lay U st us (map (page_block lay) (bigblocks st))"
    "mset us = mset (map bb_raw (bigblocks st))" "bigblocks st = []"
    by (rule heap_invE) auto
  then have r: "raw_inv lay U st [] []" by simp
  then obtain zs sp hp where z: "held_inv U (slob_pmm st, hp)" "mset hp = mset (map (\<lambda>p. (p, 1)) sp)"
    "slob_ok (arena lay) st zs" "free_of st zs = kbytes lay (set sp)" by (auto simp: raw_inv_def)
  obtain F where F: "inv (snd (slob_pmm st)) F" "F \<inter> held_pages blk hp = {}" "F \<union> held_pages blk hp = U"
    using z(1) by (auto simp: held_inv_def)
  have "held_pages blk hp = held_pages blk (map (\<lambda>p. (p, 1)) sp)" using arg_cong [OF z(2), of set_mset] by (simp add: held_pages_def)
  moreover have "set sp \<inter> F = {}" using raw_pages(1) [of U "slob_pmm st" hp "[]" sp F] z(1,2) F by simp
  ultimately show ?thesis using us(3) z(3,4) F by blast
qed

end

context page_allocator
begin

lemma heap_inv_aligned:
  assumes h: "heap_inv lay U (st, held)" and lay: "layout_ok lay" and p: "(p, n) \<in> set held"
  shows "16 dvd p"
proof -
  from h obtain us where us: "raw_inv lay U st us (map (page_block lay) (bigblocks st))"
    "mset us = mset (map held_raw (filter small held)) + mset (map bb_raw (bigblocks st))"
    "mset (map (\<lambda>bb. (bb_pages bb, bb_order bb)) (bigblocks st)) =
       mset (map (\<lambda>h. (fst h, order_of_size (snd h))) (filter (\<lambda>h. \<not> small h) held))"
    "\<forall>bb \<in> set (bigblocks st). slob_kva lay (page_of lay (bb_pages bb)) = bb_pages bb"
    "\<forall>(p, n) \<in> set held. served n \<and> (n < 4080 \<longrightarrow> 16 < p \<and> units_of st (p - 16) = SLOB_UNITS (n + 16))"
    "held_disjoint (\<lambda>n. n) held" by (rule heap_invE)
  show ?thesis
  proof (cases "n < 4080")
    case True
    then have p16: "16 < p" using us(5) p by auto
    have "16 dvd p - 16" using small_payload(2) [OF us(2) p True p16] us(1) by (auto simp: raw_inv_def held_raw_def)
    then show ?thesis using p16 dvd_diffD [of 16 p 16] by simp
  next
    case False
    then obtain bb where "bb \<in> set (bigblocks st)" "bb_pages bb = p" using big_payload(1) [OF us(3,4) p] us(5) p by blast
    then have "slob_kva lay (page_of lay p) = p" using us(4) by auto
    then show ?thesis using kva_facts(2) [OF lay, of "page_of lay p"] by simp
  qed
qed

end

section \<open>The heap on the first-fit manager\<close>

lemma default_heap_inv:
  assumes "fl_wf s xs" "layout_ok lay" "blocks s xs \<subseteq> {..<slob_npage lay}"
    and "heap_run lay default_pmm_manager below_last (slob_start lay (sie, s) m, []) (st, held)"
  shows "default.heap_inv lay (blocks s xs) (st, held)"
proof -
  have "default.heap_inv lay (blocks s xs) (slob_start lay (sie, s) m, [])"
    by (rule default.heap_inv_start) (use assms(1) in \<open>auto simp: pmm_inv_def\<close>)
  then show ?thesis by (rule default.heap_inv_run [OF assms(4) _ assms(2,3)])
qed

definition lay0 :: slob_layout where
  "lay0 = \<lparr>arena = 4096, kva_base = 65536, slob_npage = 8\<rparr>"

abbreviation "heap0 \<equiv> slob_start lay0 (True, region0 8) (\<lambda>_. \<lparr>units = 0, next_block = 0\<rparr>)"

lemma lay0_ok: "layout_ok lay0" "blocks (region0 8) [0] \<subseteq> {..<slob_npage lay0}"
  using region0_wf(2) [of 8] by (auto simp: layout_ok_def lay0_def)

lemma heap0_alloc: "\<exists>st. kmalloc lay0 default_pmm_manager 100 heap0 = Some (65552, st)"
proof -
  have a: "alloc_pages default_pmm_manager 1 (True, region0 8) = Some (Some 0, True, take_block 0 1 (region0 8))"
    using default_alloc_find [OF region0_wf(1), of 8 1] region0_wf(2) [of 8]
    by (simp add: alloc_pages_def default_pmm_manager_def intr_save_def intr_restore_def)
  let ?st = "heap0\<lparr>slob_pmm := (True, take_block 0 1 (region0 8))\<rparr>"
  have g: "slob_get_free_pages lay0 default_pmm_manager 0 heap0 = Some (65536, ?st)"
    using a by (simp add: slob_get_free_pages_def slob_start_def slob_kva_def lay0_def)
  have i: "insertion_point m 65536 4096 = Some 4096" if "next_block (m 4096) = 4096" for m
    using that by (subst insertion_point.simps) simp
  obtain st where st: "slob_free 65536 4096 ?st = Some st" "slobfree st = 4096" "next_of st 4096 = 65536"
    "units_of st 4096 = 1" "units_of st 65536 = 256"
    by (simp add: slob_free_def i slob_start_def lay0_def SLOB_UNITS_def join_next_def join_cur_def Let_def)
  have "slob_alloc lay0 default_pmm_manager 116 0 heap0 = Some (65536, (take_units 4096 65536 8 st)\<lparr>slobfree := 4096\<rparr>)"
  proof -
    have h: "slobfree heap0 = 4096" "next_of heap0 4096 = 4096" "units_of heap0 4096 = 1" by (simp_all add: slob_start_def lay0_def)
    have u: "SLOB_UNITS 116 = 8" by (simp add: SLOB_UNITS_def)
    have "slob_alloc_loop lay0 default_pmm_manager 116 0 4096 65536 st = Some (65536, (take_units 4096 65536 8 st)\<lparr>slobfree := 4096\<rparr>)"
      by (subst loop_step) (simp add: u st)
    moreover have "slob_alloc_loop lay0 default_pmm_manager 116 0 4096 4096 heap0 =
        slob_alloc_loop lay0 default_pmm_manager 116 0 4096 65536 st"
      by (subst loop_step) (simp add: u h g st st(1) [simplified])
    ultimately show ?thesis by (simp add: slob_alloc_def h)
  qed
  then show ?thesis by (simp add: kmalloc_def)
qed

lemma heap0_run: "\<exists>st. heap_run lay0 default_pmm_manager below_last (heap0, []) (st, [(65552, 100)])"
  using heap0_alloc heap_alloc [of 100 lay0 default_pmm_manager heap0 65552 _ below_last "[]"]
  by (fastforce simp: served_def)







section \<open>Requests that are not served well\<close>

text \<open>C39. \<^verbatim>\<open>find_order\<close> halves the size and loses the remainder: the pages that it finds for a large request are too few exactly for the
  sizes a little above 4096 times a power of two. For 8193 bytes \<^verbatim>\<open>kmalloc\<close> gives two pages.\<close>

theorem large_request_short:
  assumes "n < 2 ^ 31"
  shows "4096 * 2 ^ order_of_size n < n \<longleftrightarrow> (\<exists>ord. 4096 * 2 ^ ord < n \<and> n < 4097 * 2 ^ ord)"
proof
  show "\<exists>ord. 4096 * 2 ^ ord < n \<and> n < 4097 * 2 ^ ord" if "4096 * 2 ^ order_of_size n < n"
    using that order_of_size_bounds(1) [OF assms] by blast
next
  assume "\<exists>ord. 4096 * 2 ^ ord < n \<and> n < 4097 * 2 ^ ord"
  then obtain k where k: "4096 * 2 ^ k < n" "n < 4097 * 2 ^ k" by blast
  let ?o = "order_of_size n"
  have "\<not> k < ?o"
  proof
    assume lt: "k < ?o"
    then have "(2 :: nat) ^ k \<le> 2 ^ (?o - 1)" by (intro power_increasing) auto
    moreover have "4097 * 2 ^ (?o - 1) \<le> n" using order_of_size_bounds(2) [OF assms] lt by simp
    ultimately show False using k(2) by linarith
  qed
  then have "(2 :: nat) ^ ?o \<le> 2 ^ k" by (intro power_increasing) auto
  then show "4096 * 2 ^ ?o < n" using k(1) by linarith
qed

lemma large_request_short_witness: "4096 * 2 ^ order_of_size 8193 < (8193 :: nat)"
proof -
  have "\<exists>ord. 4096 * 2 ^ ord < (8193 :: nat) \<and> (8193 :: nat) < 4097 * 2 ^ ord" by (rule exI [of _ 1]) simp
  moreover have "(8193 :: nat) < 2 ^ 31" by simp
  ultimately show ?thesis using large_request_short by blast
qed

lemma insertion_point_stuck:
  assumes "next_block (m A) = A"
  shows "insertion_point m A A = None"
proof -
  have "\<not> (m' = m \<and> b = A \<and> cur = A)" if "insertion_point m' b cur = Some c" for m' b cur c
    by (rule insertion_point.raw_induct [OF _ that]) (use assms in \<open>auto split: if_splits\<close>)
  then show ?thesis by (metis not_None_eq)
qed

text \<open>C40. On a fresh heap \<^verbatim>\<open>kmalloc(0)\<close> takes the one unit of the static \<^verbatim>\<open>arena\<close>, and because the arena follows itself in the list it stays in
  it: the heap is as before, the next \<^verbatim>\<open>kmalloc(0)\<close> gives the same block, and \<^verbatim>\<open>kfree\<close> of it never returns.\<close>

theorem kmalloc_zero:
  assumes "arena lay \<noteq> 0"
  shows "kmalloc lay mgr 0 (slob_start lay k m) = Some (arena lay + 16, slob_start lay k m) \<and>
    kfree lay mgr (arena lay + 16) (slob_start lay k m) = None"
proof -
  let ?st = "slob_start lay k m"
  have st: "slob_mem ?st (arena lay) = \<lparr>units = 1, next_block = arena lay\<rparr>" "slobfree ?st = arena lay" "bigblocks ?st = []"
    by (simp_all add: slob_start_def)
  have "(set_next (arena lay) (arena lay) ?st)\<lparr>slobfree := arena lay\<rparr> = ?st"
    by (simp add: set_next_def slob_start_def fun_upd_idem)
  then have "slob_alloc lay mgr 16 0 ?st = Some (arena lay, ?st)"
    by (simp add: slob_alloc_def loop_step [of _ _ 16] SLOB_UNITS_def st take_units_def)
  then have "kmalloc lay mgr 0 ?st = Some (arena lay + 16, ?st)" using assms by (simp add: kmalloc_def)
  moreover have "slob_free (arena lay) 0 ?st = None"
    using assms insertion_point_stuck [of "slob_mem ?st" "arena lay"] by (simp add: slob_free_def st)
  then have "kfree lay mgr (arena lay + 16) ?st = None" using assms by (simp add: kfree_def st)
  ultimately show ?thesis by blast
qed

lemma kmalloc_zero_witness:
  "kmalloc lay0 default_pmm_manager 0 heap0 = Some (4112, heap0) \<and> kfree lay0 default_pmm_manager 4112 heap0 = None"
  using kmalloc_zero [of lay0 default_pmm_manager "(True, region0 8)"] by (simp add: lay0_def)

end
