(* ===== verification/PageTable.thy ===== *)
theory PageTable
  imports PageAlloc
begin

text \<open>
  The page tables of \<^verbatim>\<open>kern/mm/pmm.c\<close> (Sv39, three levels), with the address macros of \<^verbatim>\<open>kern/mm/mmu.h\<close> and
  \<^verbatim>\<open>kern/mm/pmm.h\<close>. Physical memory is a function from frame numbers to the 512 words of a frame; a kernel virtual
  address of a frame stands for its frame number, and a \<^verbatim>\<open>pte_t *\<close> is a frame number with the index of the entry in it.
  Pages come from the first-fit manager, which \<^verbatim>\<open>init_pmm_manager\<close> selects. Flushing the TLB has no effect on this state.
\<close>

section \<open>State\<close>

record kvm =
  kv_sie :: bool
  kv_pmm :: pmm
  kv_mem :: "nat \<Rightarrow> nat \<Rightarrow> u64"
  npage :: nat

abbreviation (input) nbase :: nat where "nbase \<equiv> 0x80000"
abbreviation (input) PGSIZE :: u64 where "PGSIZE \<equiv> 4096"
abbreviation (input) PTSIZE :: u64 where "PTSIZE \<equiv> 0x200000"
abbreviation (input) PDSIZE :: u64 where "PDSIZE \<equiv> 0x40000000"
abbreviation (input) NPTEENTRY :: nat where "NPTEENTRY \<equiv> 512"
abbreviation (input) PTE_V :: u64 where "PTE_V \<equiv> 0x001"
abbreviation (input) PTE_U :: u64 where "PTE_U \<equiv> 0x010"
abbreviation (input) PTE_USER :: u64 where "PTE_USER \<equiv> 0x01F"
abbreviation (input) USERBASE :: u64 where "USERBASE \<equiv> 0x00200000"
abbreviation (input) USERTOP :: u64 where "USERTOP \<equiv> 0x80000000"

definition USER_ACCESS :: "u64 \<Rightarrow> u64 \<Rightarrow> bool" where
  "USER_ACCESS start end \<longleftrightarrow> USERBASE \<le> start \<and> start < end \<and> end \<le> USERTOP"

section \<open>Addresses and entries\<close>

definition PDX1 :: "u64 \<Rightarrow> nat" where "PDX1 la = unat (drop_bit 30 la AND 0x1FF)"
definition PDX0 :: "u64 \<Rightarrow> nat" where "PDX0 la = unat (drop_bit 21 la AND 0x1FF)"
definition PTX :: "u64 \<Rightarrow> nat" where "PTX la = unat (drop_bit 12 la AND 0x1FF)"
definition PPN :: "u64 \<Rightarrow> u64" where "PPN la = drop_bit 12 la"
definition PTE_ADDR :: "u64 \<Rightarrow> u64" where "PTE_ADDR pte = push_bit 2 (pte AND NOT 0x3FF)"

definition pte_create :: "u64 \<Rightarrow> u64 \<Rightarrow> u64" where
  "pte_create ppn type = push_bit 10 ppn OR PTE_V OR type"

definition pte_valid :: "u64 \<Rightarrow> bool" where
  "pte_valid pte \<longleftrightarrow> pte AND PTE_V \<noteq> 0"

text \<open>\<^verbatim>\<open>KADDR\<close> gives the frame; a frame below \<^verbatim>\<open>nbase\<close> has no descriptor in the array \<^verbatim>\<open>pages\<close>.\<close>

definition KADDR :: "kvm \<Rightarrow> u64 \<Rightarrow> nat option" where
  "KADDR s pa = do {
     kassert (unat (PPN pa) < npage s);
     Some (unat (PPN pa))
   }"

definition pa2page :: "kvm \<Rightarrow> u64 \<Rightarrow> nat option" where
  "pa2page s pa = do {
     kassert (unat (PPN pa) < npage s);
     kassert (nbase \<le> unat (PPN pa));
     Some (unat (PPN pa) - nbase)
   }"

definition page2ppn :: "nat \<Rightarrow> u64" where
  "page2ppn page = word_of_nat (page + nbase)"

definition page2pa :: "nat \<Rightarrow> u64" where
  "page2pa page = push_bit 12 (page2ppn page)"

definition page2kva :: "kvm \<Rightarrow> nat \<Rightarrow> nat option" where
  "page2kva s page = KADDR s (page2pa page)"

definition pte2page :: "kvm \<Rightarrow> u64 \<Rightarrow> nat option" where
  "pte2page s pte = do {
     kassert (pte_valid pte);
     pa2page s (PTE_ADDR pte)
   }"

definition pde2page :: "kvm \<Rightarrow> u64 \<Rightarrow> nat option" where
  "pde2page s pde = pa2page s (PTE_ADDR pde)"

section \<open>Pages and their reference counts\<close>

definition alloc_page :: "kvm \<Rightarrow> (nat option \<times> kvm) option" where
  "alloc_page s = do {
     (page, sie, p) \<leftarrow> alloc_pages default_pmm_manager 1 (kv_sie s, kv_pmm s);
     Some (page, s\<lparr>kv_sie := sie, kv_pmm := p\<rparr>)
   }"

definition free_page :: "nat \<Rightarrow> kvm \<Rightarrow> kvm option" where
  "free_page page s = do {
     (sie, p) \<leftarrow> free_pages default_pmm_manager page 1 (kv_sie s, kv_pmm s);
     Some (s\<lparr>kv_sie := sie, kv_pmm := p\<rparr>)
   }"

definition page_ref :: "nat \<Rightarrow> kvm \<Rightarrow> int" where
  "page_ref page s = ref (pages (kv_pmm s) page)"

definition set_page_ref :: "nat \<Rightarrow> int \<Rightarrow> kvm \<Rightarrow> kvm" where
  "set_page_ref page val s = s\<lparr>kv_pmm := upd_page page (\<lambda>p. p\<lparr>ref := val\<rparr>) (kv_pmm s)\<rparr>"

definition page_ref_inc :: "nat \<Rightarrow> kvm \<Rightarrow> kvm" where
  "page_ref_inc page s = set_page_ref page (page_ref page s + 1) s"

definition page_ref_dec :: "nat \<Rightarrow> kvm \<Rightarrow> kvm" where
  "page_ref_dec page s = set_page_ref page (page_ref page s - 1) s"

section \<open>Looking up and changing entries\<close>

definition put_frame :: "nat \<Rightarrow> (nat \<Rightarrow> u64) \<Rightarrow> kvm \<Rightarrow> kvm" where
  "put_frame f c s = s\<lparr>kv_mem := (kv_mem s)(f := c)\<rparr>"

definition put_entry :: "nat \<times> nat \<Rightarrow> u64 \<Rightarrow> kvm \<Rightarrow> kvm" where
  "put_entry p v s = put_frame (fst p) ((kv_mem s (fst p))(snd p := v)) s"

text \<open>One level of \<^verbatim>\<open>get_pte\<close>: the table that entry \<open>i\<close> of directory \<open>dir\<close> points to, allocated if it is missing and
  \<open>create\<close> is set; \<open>None\<close> is the null pointer.\<close>

definition get_table :: "nat \<Rightarrow> nat \<Rightarrow> bool \<Rightarrow> kvm \<Rightarrow> (nat option \<times> kvm) option" where
  "get_table dir i create s =
     (if \<not> pte_valid (kv_mem s dir i) then
        if \<not> create then Some (None, s)
        else do {
          (page, s1) \<leftarrow> alloc_page s;
          (case page of
             None \<Rightarrow> Some (None, s1)
           | Some p \<Rightarrow> do {
               let s2 = set_page_ref p 1 s1;
               f \<leftarrow> KADDR s2 (page2pa p);
               let s3 = put_frame f (\<lambda>_. 0) s2;
               let s4 = put_entry (dir, i) (pte_create (page2ppn p) (PTE_U OR PTE_V)) s3;
               t \<leftarrow> KADDR s4 (PTE_ADDR (kv_mem s4 dir i));
               Some (Some t, s4)
             })
        }
      else do {
        t \<leftarrow> KADDR s (PTE_ADDR (kv_mem s dir i));
        Some (Some t, s)
      })"

definition get_pte :: "nat \<Rightarrow> u64 \<Rightarrow> bool \<Rightarrow> kvm \<Rightarrow> ((nat \<times> nat) option \<times> kvm) option" where
  "get_pte pgdir la create s = do {
     (d, s1) \<leftarrow> get_table pgdir (PDX1 la) create s;
     (case d of
        None \<Rightarrow> Some (None, s1)
      | Some d \<Rightarrow> do {
          (t, s2) \<leftarrow> get_table d (PDX0 la) create s1;
          Some (map_option (\<lambda>t. (t, PTX la)) t, s2)
        })
   }"

definition pte_at :: "nat \<times> nat \<Rightarrow> kvm \<Rightarrow> u64" where
  "pte_at p s = kv_mem s (fst p) (snd p)"

definition get_page :: "nat \<Rightarrow> u64 \<Rightarrow> kvm \<Rightarrow> (nat option \<times> (nat \<times> nat) option \<times> kvm) option" where
  "get_page pgdir la s = do {
     (ptep, s1) \<leftarrow> get_pte pgdir la False s;
     (case ptep of
        None \<Rightarrow> Some (None, ptep, s1)
      | Some p \<Rightarrow>
          if pte_valid (pte_at p s1) then do {
            page \<leftarrow> pte2page s1 (pte_at p s1);
            Some (Some page, ptep, s1)
          } else Some (None, ptep, s1))
   }"

definition page_remove_pte :: "nat \<times> nat \<Rightarrow> kvm \<Rightarrow> kvm option" where
  "page_remove_pte ptep s =
     (if pte_valid (pte_at ptep s) then do {
        page \<leftarrow> pte2page s (pte_at ptep s);
        let s1 = page_ref_dec page s;
        s2 \<leftarrow> (if page_ref page s1 = 0 then free_page page s1 else Some s1);
        Some (put_entry ptep 0 s2)
      } else Some s)"

definition page_remove :: "nat \<Rightarrow> u64 \<Rightarrow> kvm \<Rightarrow> kvm option" where
  "page_remove pgdir la s = do {
     (ptep, s1) \<leftarrow> get_pte pgdir la False s;
     (case ptep of None \<Rightarrow> Some s1 | Some p \<Rightarrow> page_remove_pte p s1)
   }"

definition page_insert :: "nat \<Rightarrow> nat \<Rightarrow> u64 \<Rightarrow> u64 \<Rightarrow> kvm \<Rightarrow> (int \<times> kvm) option" where
  "page_insert pgdir page la perm s = do {
     (ptep, s1) \<leftarrow> get_pte pgdir la True s;
     (case ptep of
        None \<Rightarrow> Some (- E_NO_MEM, s1)
      | Some ptep \<Rightarrow> do {
          let s2 = page_ref_inc page s1;
          s3 \<leftarrow> (if pte_valid (pte_at ptep s2) then do {
                    p \<leftarrow> pte2page s2 (pte_at ptep s2);
                    if p = page then Some (page_ref_dec page s2) else page_remove_pte ptep s2
                  } else Some s2);
          Some (0, put_entry ptep (pte_create (page2ppn page) (PTE_V OR perm)) s3)
        })
   }"

definition pgdir_alloc_page :: "nat \<Rightarrow> u64 \<Rightarrow> u64 \<Rightarrow> kvm \<Rightarrow> (nat option \<times> kvm) option" where
  "pgdir_alloc_page pgdir la perm s = do {
     (page, s1) \<leftarrow> alloc_page s;
     (case page of
        None \<Rightarrow> Some (None, s1)
      | Some p \<Rightarrow> do {
          (ret, s2) \<leftarrow> page_insert pgdir p la perm s1;
          if ret \<noteq> 0 then do {
            s3 \<leftarrow> free_page p s2;
            Some (None, s3)
          } else do {
            let s3 = s2\<lparr>kv_pmm := upd_page p (\<lambda>q. q\<lparr>pra_vaddr := la\<rparr>) (kv_pmm s2)\<rparr>;
            kassert (page_ref p s3 = 1);
            Some (Some p, s3)
          }
        })
   }"


section \<open>Ranges\<close>

text \<open>The loops are \<^verbatim>\<open>do ... while\<close> loops: the step is made before the test of the new start.\<close>

partial_function (option) unmap_loop :: "nat \<Rightarrow> u64 \<Rightarrow> u64 \<Rightarrow> kvm \<Rightarrow> kvm option" where
  "unmap_loop pgdir start end s = do {
     (ptep, s1) \<leftarrow> get_pte pgdir start False s;
     (start1, s2) \<leftarrow> (case ptep of
         None \<Rightarrow> Some (ROUNDDOWN (start + PTSIZE) PTSIZE, s1)
       | Some p \<Rightarrow> do {
           s2 \<leftarrow> (if pte_at p s1 \<noteq> 0 then page_remove_pte p s1 else Some s1);
           Some (start + PGSIZE, s2)
         });
     if start1 \<noteq> 0 \<and> start1 < end then unmap_loop pgdir start1 end s2 else Some s2
   }"

definition unmap_range :: "nat \<Rightarrow> u64 \<Rightarrow> u64 \<Rightarrow> kvm \<Rightarrow> kvm option" where
  "unmap_range pgdir start end s = do {
     kassert (start mod PGSIZE = 0 \<and> end mod PGSIZE = 0);
     kassert (USER_ACCESS start end);
     unmap_loop pgdir start end s
   }"

text \<open>The inner loop of \<^verbatim>\<open>exit_range\<close> over the entries of one directory; \<open>free_pd0\<close> is the flag with which it ends.\<close>

partial_function (option) exit_tables :: "nat \<Rightarrow> u64 \<Rightarrow> u64 \<Rightarrow> u64 \<Rightarrow> bool \<Rightarrow> kvm \<Rightarrow> (bool \<times> kvm) option" where
  "exit_tables pd0 d0start d1start end free_pd0 s = do {
     let pde0 = kv_mem s pd0 (PDX0 d0start);
     (free_pd01, s1) \<leftarrow>
       (if pte_valid pde0 then do {
          page \<leftarrow> pde2page s pde0;
          pt \<leftarrow> page2kva s page;
          let free_pt = list_all (\<lambda>i. \<not> pte_valid (kv_mem s pt i)) [0..<NPTEENTRY];
          if free_pt then do {
            s1 \<leftarrow> free_page page s;
            Some (free_pd0, put_entry (pd0, PDX0 d0start) 0 s1)
          } else Some (free_pd0, s)
        } else Some (False, s));
     let d0start1 = d0start + PTSIZE;
     if d0start1 \<noteq> 0 \<and> d0start1 < d1start + PDSIZE \<and> d0start1 < end
     then exit_tables pd0 d0start1 d1start end free_pd01 s1 else Some (free_pd01, s1)
   }"

partial_function (option) exit_loop :: "nat \<Rightarrow> u64 \<Rightarrow> u64 \<Rightarrow> u64 \<Rightarrow> kvm \<Rightarrow> kvm option" where
  "exit_loop pgdir d1start d0start end s = do {
     let pde1 = kv_mem s pgdir (PDX1 d1start);
     s1 \<leftarrow> (if pte_valid pde1 then do {
               page \<leftarrow> pde2page s pde1;
               pd0 \<leftarrow> page2kva s page;
               (free_pd0, s1) \<leftarrow> exit_tables pd0 d0start d1start end True s;
               if free_pd0 then do {
                 s2 \<leftarrow> free_page page s1;
                 Some (put_entry (pgdir, PDX1 d1start) 0 s2)
               } else Some s1
             } else Some s);
     let d1start1 = d1start + PDSIZE;
     if d1start1 \<noteq> 0 \<and> d1start1 < end then exit_loop pgdir d1start1 d1start1 end s1 else Some s1
   }"

definition exit_range :: "nat \<Rightarrow> u64 \<Rightarrow> u64 \<Rightarrow> kvm \<Rightarrow> kvm option" where
  "exit_range pgdir start end s = do {
     kassert (start mod PGSIZE = 0 \<and> end mod PGSIZE = 0);
     kassert (USER_ACCESS start end);
     exit_loop pgdir (ROUNDDOWN start PDSIZE) (ROUNDDOWN start PTSIZE) end s
   }"

partial_function (option) copy_loop :: "nat \<Rightarrow> nat \<Rightarrow> u64 \<Rightarrow> u64 \<Rightarrow> kvm \<Rightarrow> (int \<times> kvm) option" where
  "copy_loop to from start end s = do {
     (ptep, s1) \<leftarrow> get_pte from start False s;
     (case ptep of
        None \<Rightarrow>
          let start1 = ROUNDDOWN (start + PTSIZE) PTSIZE in
          if start1 \<noteq> 0 \<and> start1 < end then copy_loop to from start1 end s1 else Some (0, s1)
      | Some p \<Rightarrow> do {
          (ret, s2) \<leftarrow>
            (if pte_valid (pte_at p s1) then do {
               (nptep, s2) \<leftarrow> get_pte to start True s1;
               if nptep = None then Some (- E_NO_MEM, s2)
               else do {
                 let perm = pte_at p s2 AND PTE_USER;
                 page \<leftarrow> pte2page s2 (pte_at p s2);
                 (npg, s3) \<leftarrow> alloc_page s2;
                 kassert (npg \<noteq> None);
                 src \<leftarrow> page2kva s3 page;
                 dst \<leftarrow> page2kva s3 (the npg);
                 page_insert to (the npg) start perm (put_frame dst (kv_mem s3 src) s3)
               }
             } else Some (0, s1));
          if ret \<noteq> 0 then Some (ret, s2)
          else
            let start1 = start + PGSIZE in
            if start1 \<noteq> 0 \<and> start1 < end then copy_loop to from start1 end s2 else Some (0, s2)
        })
   }"

definition copy_range :: "nat \<Rightarrow> nat \<Rightarrow> u64 \<Rightarrow> u64 \<Rightarrow> bool \<Rightarrow> kvm \<Rightarrow> (int \<times> kvm) option" where
  "copy_range to from start end share s = do {
     kassert (start mod PGSIZE = 0 \<and> end mod PGSIZE = 0);
     kassert (USER_ACCESS start end);
     copy_loop to from start end s
   }"

section \<open>Setting up the kernel's tables\<close>

definition boot_alloc_page :: "kvm \<Rightarrow> (nat \<times> kvm) option" where
  "boot_alloc_page s = do {
     (page, s1) \<leftarrow> alloc_page s;
     (case page of
        None \<Rightarrow> panic
      | Some p \<Rightarrow> do {
          f \<leftarrow> page2kva s1 p;
          Some (f, s1)
        })
   }"

fun boot_map :: "nat \<Rightarrow> u64 \<Rightarrow> u64 \<Rightarrow> u64 \<Rightarrow> nat \<Rightarrow> kvm \<Rightarrow> kvm option" where
  "boot_map pgdir la pa perm 0 s = Some s"
| "boot_map pgdir la pa perm (Suc n) s = do {
     (ptep, s1) \<leftarrow> get_pte pgdir la True s;
     kassert (ptep \<noteq> None);
     boot_map pgdir (la + PGSIZE) (pa + PGSIZE) perm n (put_entry (the ptep) (pte_create (drop_bit 12 pa) (PTE_V OR perm)) s1)
   }"

definition PGOFF :: "u64 \<Rightarrow> u64" where
  "PGOFF la = la AND 0xFFF"

definition boot_map_segment :: "nat \<Rightarrow> u64 \<Rightarrow> u64 \<Rightarrow> u64 \<Rightarrow> u64 \<Rightarrow> kvm \<Rightarrow> kvm option" where
  "boot_map_segment pgdir la sz pa perm s = do {
     kassert (PGOFF la = PGOFF pa);
     let n = unat (ROUNDUP (sz + PGOFF la) PGSIZE div PGSIZE);
     boot_map pgdir (ROUNDDOWN la PGSIZE) (ROUNDDOWN pa PGSIZE) perm n s
   }"

end
