(* ===== verification/PageMap.thy ===== *)
theory PageMap
  imports PageTable
begin

text \<open>
  What a page table means, and that the operations change exactly the mappings they are asked to: \<open>tab\<close> follows a path
  of indices from the root to a table, \<open>pt_ok\<close> says that the tables of a root form a tree of allocated frames, \<open>mapped\<close> is
  the valid entry for an address.
\<close>

section \<open>Entries\<close>

definition pte_frame :: "u64 \<Rightarrow> nat" where
  "pte_frame pte = unat (PPN (PTE_ADDR pte))"

lemma pte_valid_bit: "pte_valid pte \<longleftrightarrow> bit pte 0"
  by (simp add: pte_valid_def and_one_eq odd_iff_mod_2_eq_one [symmetric] bit_0)

lemma not_bit_above: "unat w < 2 ^ k \<Longrightarrow> k \<le> n \<Longrightarrow> \<not> bit w n" for w :: "'a::len word"
proof
  assume w: "unat w < 2 ^ k" "k \<le> n" "bit w n"
  have "unat w < 2 ^ n" using w(1,2) by (meson less_le_trans one_le_numeral power_increasing)
  then have "\<not> bit (unat w) n" by (simp add: bit_iff_odd)
  moreover have "n < LENGTH('a)" using w(3) by (rule bit_imp_le_length)
  ultimately show False using w(3) by (simp add: bit_unsigned_iff)
qed

lemma pte_valid_create: "pte_valid (pte_create p t)"
  by (simp add: pte_valid_bit pte_create_def bit_or_iff)

lemma not_valid_0 [simp]: "\<not> pte_valid 0"
  by (simp add: pte_valid_def)

lemma pte_frame_create:
  assumes "unat p < 2 ^ 52" "\<And>n. 10 \<le> n \<Longrightarrow> \<not> bit t n"
  shows "pte_frame (pte_create p t) = unat p"
proof -
  have "\<not> bit t n" if "10 \<le> n" for n using assms(2) that by blast
  moreover have "\<not> bit p n" if "52 \<le> n" for n using assms(1) that by (rule not_bit_above)
  moreover have "bit (0x3FF :: u64) n \<longleftrightarrow> n < 10" for n
  proof -
    have "(0x3FF :: u64) = mask 10" by (simp add: mask_eq_exp_minus_1)
    then show ?thesis by (simp only: bit_mask_iff) auto
  qed
  ultimately have "bit (PPN (PTE_ADDR (pte_create p t))) n = bit p n" if "n < 64" for n
    using that unfolding PPN_def PTE_ADDR_def pte_create_def
    by (cases "52 \<le> n") (simp_all only: bit_drop_bit_eq bit_push_bit_iff bit_and_iff bit_not_iff bit_or_iff comp_def possible_bit_word bit_1_iff, auto)
  then have "PPN (PTE_ADDR (pte_create p t)) = p" by (intro bit_word_eqI) simp
  then show ?thesis by (simp add: pte_frame_def)
qed


section \<open>Single pages\<close>

text \<open>What a step on the page descriptors leaves alone: everything but the manager's state.\<close>

definition only_pmm :: "kvm \<Rightarrow> kvm \<Rightarrow> bool" where
  "only_pmm s s' \<longleftrightarrow> s' = s\<lparr>kv_pmm := kv_pmm s'\<rparr>"

lemma only_pmm_simps: "only_pmm s s' \<Longrightarrow> kv_mem s' = kv_mem s \<and> npage s' = npage s \<and> kv_sie s' = kv_sie s"
  by (simp add: only_pmm_def) (metis kvm.select_convs kvm.surjective kvm.update_convs(2))

lemma pmm_inv_cong:
  assumes "pmm_inv s F" "links s' = links s" "nr_free s' = nr_free s"
    "\<And>q. property (pages s' q) = property (pages s q) \<and> flags (pages s' q) = flags (pages s q)"
  shows "pmm_inv s' F"
proof -
  obtain xs where xs: "fl_wf s xs" "blocks s xs = F" using assms(1) by (auto simp: pmm_inv_def)
  have "blocks s' xs = blocks s xs" using assms(4) by (intro blocks_cong) simp
  moreover have "fl_wf s' xs" using xs(1) assms(2-4) calculation by (simp add: fl_wf_def PageReserved_def PageProperty_def)
  ultimately show ?thesis using xs(2) by (auto simp: pmm_inv_def)
qed

lemma set_page_ref_simps [simp]:
  "kv_mem (set_page_ref p v s) = kv_mem s" "npage (set_page_ref p v s) = npage s" "kv_sie (set_page_ref p v s) = kv_sie s"
  "pages (kv_pmm (set_page_ref p v s)) q = (if q = p then (pages (kv_pmm s) q)\<lparr>ref := v\<rparr> else pages (kv_pmm s) q)"
  by (simp_all add: set_page_ref_def)

lemma set_page_ref_only [simp]: "only_pmm s (set_page_ref p v s)"
  by (simp add: only_pmm_def set_page_ref_def)

lemma set_page_ref_inv [simp]: "pmm_inv (kv_pmm (set_page_ref p v s)) F \<longleftrightarrow> pmm_inv (kv_pmm s) F"
  by (auto elim!: pmm_inv_cong simp: set_page_ref_def)

lemma put_frame_simps [simp]:
  "kv_mem (put_frame f c s) = (kv_mem s)(f := c)" "npage (put_frame f c s) = npage s" "kv_pmm (put_frame f c s) = kv_pmm s"
  "kv_sie (put_frame f c s) = kv_sie s"
  by (simp_all add: put_frame_def)

lemma put_entry_simps [simp]:
  "kv_mem (put_entry (f, k) v s) = (kv_mem s)(f := (kv_mem s f)(k := v))" "npage (put_entry p v s) = npage s"
  "kv_pmm (put_entry p v s) = kv_pmm s" "kv_sie (put_entry p v s) = kv_sie s"
  by (simp_all add: put_entry_def)

lemma alloc_page_ok:
  assumes i: "pmm_inv (kv_pmm s) F"
  shows "F = {} \<and> alloc_page s = Some (None, s) \<or>
    (\<exists>p s'. alloc_page s = Some (Some p, s') \<and> p \<in> F \<and> pmm_inv (kv_pmm s') (F - {p}) \<and> only_pmm s s' \<and>
       releasable p 1 (kv_pmm s') \<and> (\<forall>q. q \<notin> F \<longrightarrow> pages (kv_pmm s') q = pages (kv_pmm s) q))"
proof -
  obtain xs where xs: "fl_wf (kv_pmm s) xs" "blocks (kv_pmm s) xs = F" using i by (auto simp: pmm_inv_def)
  let ?f = "find (\<lambda>p. 1 \<le> property (pages (kv_pmm s) p)) xs"
  obtain flag sie where sv: "intr_save (kv_sie s) = (flag, sie)" by force
  then have rs: "intr_restore flag sie = kv_sie s" by simp
  have a: "default_alloc_pages 1 (kv_pmm s) = Some (case ?f of None \<Rightarrow> (None, kv_pmm s) | Some p \<Rightarrow> (Some p, take_block p 1 (kv_pmm s)))"
    using default_alloc_find [OF xs(1), of 1] by simp
  show ?thesis
  proof (cases ?f)
    case None
    then have "xs = []" using xs(1) by (cases xs) (auto simp: fl_wf_def find_None_iff Suc_le_eq)
    then have "F = {}" using xs(2) by (simp add: blocks_def)
    moreover have "alloc_page s = Some (None, s)"
      using a None sv rs by (simp add: alloc_page_def alloc_pages_def default_pmm_manager_def)
    ultimately show ?thesis by simp
  next
    case (Some p)
    let ?s = "s\<lparr>kv_pmm := take_block p 1 (kv_pmm s)\<rparr>"
    have p: "p \<in> set xs" "1 \<le> property (pages (kv_pmm s) p)" using find_SomeE [OF Some] by auto
    note L = take_block_laws [OF xs(1) p(1) _ p(2)]
    have "alloc_page s = Some (Some p, ?s)"
      using a Some sv rs by (simp add: alloc_page_def alloc_pages_def default_pmm_manager_def)
    moreover have "{p..<p + 1} = {p}" by auto
    moreover have "only_pmm s ?s" by (simp add: only_pmm_def)
    ultimately show ?thesis using L(1-3) take_block_frame [OF xs(1) p(1), of 1] xs(2)
      by (intro disjI2 exI [of _ p] exI [of _ ?s]) simp
  qed
qed

lemma below_lastI:
  assumes i: "pmm_inv s F" and q: "q \<notin> F" "f \<in> F" "q < f"
  shows "below_last q s"
proof -
  obtain xs where xs: "fl_wf s xs" "blocks s xs = F" using i by (auto simp: pmm_inv_def)
  show ?thesis
  proof (cases "xs = []")
    case True then show ?thesis using below_last_conv [OF xs(1)] by simp
  next
    case False
    then obtain ys l where ys: "xs = ys @ [l]" by (metis rev_exhaust)
    have srt: "addr_sorted (\<lambda>x. property (pages s x)) (ys @ l # [])" using xs(1) ys by (simp add: fl_wf_def)
    have F: "F = blocks s ys \<union> {l..<l + property (pages s l)}" using xs(2) ys by (auto simp: blocks_def)
    have "q < l"
    proof (rule ccontr)
      assume "\<not> q < l"
      moreover then have "f \<notin> blocks s ys" using sorted_blocks_below [OF srt] q(3) by fastforce
      ultimately show False using q F by auto
    qed
    then show ?thesis using below_last_conv [OF xs(1)] ys by simp
  qed
qed

lemma free_page_ok:
  assumes i: "pmm_inv (kv_pmm s) F" and p: "p \<notin> F" "releasable p 1 (kv_pmm s)" "f \<in> F" "p < f"
  shows "\<exists>s'. free_page p s = Some s' \<and> pmm_inv (kv_pmm s') (insert p F) \<and> only_pmm s s' \<and>
    (\<forall>q. q \<notin> insert p F \<longrightarrow> pages (kv_pmm s') q = pages (kv_pmm s) q)"
proof -
  have b: "below_last p (kv_pmm s)" by (rule below_lastI [OF i p(1,3,4)])
  obtain xs where xs: "fl_wf (kv_pmm s) xs" "blocks (kv_pmm s) xs = F" using i by (auto simp: pmm_inv_def)
  obtain flag sie where sv: "intr_save (kv_sie s) = (flag, sie)" by force
  then have rs: "intr_restore flag sie = kv_sie s" by simp
  have d: "{p..<p + 1} \<inter> F = {}" "{p..<p + 1} = {p}" using p(1) by auto
  obtain m where m: "default_free_pages p 1 (kv_pmm s) = Some m" "pmm_inv m (insert p F)"
    using default_free_law [OF i _ d(1) p(2) b] d(2) by auto
  let ?s = "s\<lparr>kv_pmm := m\<rparr>"
  have "free_page p s = Some ?s" using m(1) sv rs by (simp add: free_page_def free_pages_def default_pmm_manager_def)
  moreover have "pages m q = pages (kv_pmm s) q" if "q \<notin> insert p F" for q
    using default_free_frame [OF xs(1) _ _ _ p(2) _ _ m(1), of q] that xs(2) d b by (simp add: below_last_conv [OF xs(1)])
  moreover have "only_pmm s ?s" by (simp add: only_pmm_def)
  ultimately show ?thesis using m(2) by auto
qed


section \<open>The tree of tables\<close>

fun tab :: "(nat \<Rightarrow> nat \<Rightarrow> u64) \<Rightarrow> nat \<Rightarrow> nat list \<Rightarrow> nat option" where
  "tab m r [] = Some r"
| "tab m r (i # is) = (if pte_valid (m r i) then tab m (pte_frame (m r i)) is else None)"

definition is_path :: "nat list \<Rightarrow> bool" where
  "is_path is \<longleftrightarrow> length is \<le> 2 \<and> set is \<subseteq> {..<NPTEENTRY}"

text \<open>Every table is reached by one path only.\<close>

definition tree_ok :: "(nat \<Rightarrow> nat \<Rightarrow> u64) \<Rightarrow> nat \<Rightarrow> bool" where
  "tree_ok m r \<longleftrightarrow> (\<forall>is js f. is_path is \<and> is_path js \<and> tab m r is = Some f \<and> tab m r js = Some f \<longrightarrow> is = js)"

definition tables :: "(nat \<Rightarrow> nat \<Rightarrow> u64) \<Rightarrow> nat \<Rightarrow> nat set" where
  "tables m r = {f. \<exists>is. is_path is \<and> tab m r is = Some f}"

lemma tab_snoc: "tab m r (is @ [i]) =
    (case tab m r is of None \<Rightarrow> None | Some f \<Rightarrow> if pte_valid (m f i) then Some (pte_frame (m f i)) else None)"
  by (induction "is" arbitrary: r) auto

lemma tab_append_None: "tab m r is = None \<Longrightarrow> tab m r (is @ js) = None"
  by (induction "is" arbitrary: r) (auto split: if_splits)

lemma is_path_append: "is_path (is @ js) \<Longrightarrow> is_path is"
  by (auto simp: is_path_def)

abbreviation m_put :: "(nat \<Rightarrow> nat \<Rightarrow> u64) \<Rightarrow> nat \<Rightarrow> nat \<Rightarrow> u64 \<Rightarrow> nat \<Rightarrow> nat \<Rightarrow> u64" where
  "m_put m f k v \<equiv> m(f := (m f)(k := v))"

text \<open>Writing an entry changes only the paths through it; frames that are no tables do not matter.\<close>

lemma tab_put_other:
  assumes t: "tree_ok m r" and f: "is_path is" "tab m r is = Some f" and js: "is_path js" "\<nexists>zs. js = is @ k # zs"
  shows "tab (m_put m f k v) r js = tab m r js"
  using js
proof (induction js rule: rev_induct)
  case (snoc j js)
  have IH: "tab (m_put m f k v) r js = tab m r js"
  proof (rule snoc.IH)
    show "is_path js" using snoc.prems(1) by (rule is_path_append)
    show "\<nexists>zs. js = is @ k # zs" using snoc.prems(2) by auto
  qed
  show ?case
  proof (cases "tab m r js")
    case (Some g)
    have "\<not> (g = f \<and> j = k)"
    proof
      assume g: "g = f \<and> j = k"
      then have "js = is" using t f Some is_path_append [OF snoc.prems(1)] by (auto simp: tree_ok_def)
      then show False using g snoc.prems(2) by auto
    qed
    then have e: "m_put m f k v g j = m g j" by auto
    show ?thesis unfolding tab_snoc IH Some option.case e ..
  next
    case None
    show ?thesis unfolding tab_snoc IH None option.case ..
  qed
qed simp

lemma tab_frame:
  assumes "is_path is" "\<And>g. g \<in> tables m r \<Longrightarrow> m' g = m g"
  shows "tab m' r is = tab m r is"
  using assms(1)
proof (induction "is" rule: rev_induct)
  case (snoc i "is")
  have IH: "tab m' r is = tab m r is" using snoc is_path_append by blast
  show ?case
  proof (cases "tab m r is")
    case (Some g)
    then have "g \<in> tables m r" using is_path_append [OF snoc.prems] by (auto simp: tables_def)
    then show ?thesis using IH Some assms(2) by (simp add: tab_snoc)
  qed (simp add: IH tab_snoc)
qed simp

text \<open>Linking a new empty table into an empty entry adds one path.\<close>

lemma tab_link:
  assumes t: "tree_ok m r" and f: "is_path (is @ [k])" "tab m r is = Some f" and e: "\<not> pte_valid (m f k)"
    and g: "g \<notin> tables m r" and v: "pte_valid v" "pte_frame v = g" and js: "is_path js"
  shows "tab (m_put (m(g := \<lambda>_. 0)) f k v) r js = (if js = is @ [k] then Some g else tab m r js)"
proof -
  have p: "is_path is" by (rule is_path_append [OF f(1)])
  have "f \<in> tables m r" using p f(2) by (auto simp: tables_def)
  then have fg: "f \<noteq> g" using g by auto
  let ?m = "m(g := \<lambda>_. 0)" and ?m' = "m_put (m(g := \<lambda>_. 0)) f k v"
  have same: "tab ?m r xs = tab m r xs" if "is_path xs" for xs
    using that g by (intro tab_frame) auto
  then have t': "tree_ok ?m r" using t by (simp add: tree_ok_def) metis
  have f': "tab ?m r is = Some f" using same [OF p] f(2) by simp
  show ?thesis
  proof (cases "\<exists>zs. js = is @ k # zs")
    case False
    then have "tab ?m' r js = tab m r js" using tab_put_other [OF t' p f' js] same [OF js] by simp
    then show ?thesis using False by auto
  next
    case True
    then obtain zs where zs: "js = is @ k # zs" by blast
    have "tab ?m' r is = Some f" using tab_put_other [OF t' p f' p, of k v] f' by simp
    then have k: "tab ?m' r (is @ [k]) = Some g" using v by (simp add: tab_snoc)
    show ?thesis
    proof (cases zs)
      case Nil then show ?thesis using k zs by simp
    next
      case (Cons z ws)
      have "tab m r (is @ [k]) = None" using f(2) e by (simp add: tab_snoc)
      then have "tab m r js = None" using tab_append_None [of m r "is @ [k]" zs] zs by simp
      moreover have "tab ?m' r ((is @ [k]) @ [z]) = None" using k fg unfolding tab_snoc [of ?m' r "is @ [k]"] by simp
      then have "tab ?m' r js = None" using tab_append_None [of ?m' r "(is @ [k]) @ [z]" ws] zs Cons by simp
      ultimately show ?thesis using zs Cons by simp
    qed
  qed
qed

lemma tree_link:
  assumes t: "tree_ok m r" and f: "is_path (is @ [k])" "tab m r is = Some f" and e: "\<not> pte_valid (m f k)"
    and g: "g \<notin> tables m r" and v: "pte_valid v" "pte_frame v = g"
  shows "tree_ok (m_put (m(g := \<lambda>_. 0)) f k v) r"
    and "tables (m_put (m(g := \<lambda>_. 0)) f k v) r = insert g (tables m r)"
proof -
  note T = tab_link [OF assms]
  have no: "tab m r js \<noteq> Some g" if "is_path js" for js using that g by (auto simp: tables_def)
  show "tree_ok (m_put (m(g := \<lambda>_. 0)) f k v) r"
    unfolding tree_ok_def
  proof (intro allI impI, elim conjE)
    fix xs ys h
    assume a: "is_path xs" "is_path ys" "tab (m_put (m(g := \<lambda>_. 0)) f k v) r xs = Some h"
      "tab (m_put (m(g := \<lambda>_. 0)) f k v) r ys = Some h"
    show "xs = ys"
      using a(3,4) no [OF a(1)] no [OF a(2)] t a(1,2) unfolding T [OF a(1)] T [OF a(2)]
      by (auto simp: tree_ok_def split: if_splits)
  qed
  have n: "tab m r (is @ [k]) = None" using f(2) e by (simp add: tab_snoc)
  show "tables (m_put (m(g := \<lambda>_. 0)) f k v) r = insert g (tables m r)"
  proof (rule set_eqI)
    fix h
    show "h \<in> tables (m_put (m(g := \<lambda>_. 0)) f k v) r \<longleftrightarrow> h \<in> insert g (tables m r)"
    proof
      assume "h \<in> tables (m_put (m(g := \<lambda>_. 0)) f k v) r"
      then obtain js where js: "is_path js" "tab (m_put (m(g := \<lambda>_. 0)) f k v) r js = Some h" by (auto simp: tables_def)
      then show "h \<in> insert g (tables m r)" unfolding T [OF js(1)] by (auto simp: tables_def split: if_splits)
    next
      assume "h \<in> insert g (tables m r)"
      then consider "h = g" | js where "is_path js" "tab m r js = Some h" by (auto simp: tables_def)
      then show "h \<in> tables (m_put (m(g := \<lambda>_. 0)) f k v) r"
      proof cases
        case 1 then show ?thesis using T [OF f(1)] f(1) by (auto simp: tables_def)
      next
        case 2
        then have "js \<noteq> is @ [k]" using n by auto
        then have "tab (m_put (m(g := \<lambda>_. 0)) f k v) r js = Some h" unfolding T [OF 2(1)] using 2(2) by simp
        then show ?thesis using 2(1) unfolding tables_def by blast
      qed
    qed
  qed
qed


section \<open>The state of an address space\<close>

definition kvm_ok :: "kvm \<Rightarrow> nat set \<Rightarrow> bool" where
  "kvm_ok s F \<longleftrightarrow> pmm_inv (kv_pmm s) F \<and> (\<forall>p \<in> F. p + nbase < npage s) \<and> npage s \<le> 2 ^ 44"

definition pt_ok :: "kvm \<Rightarrow> nat set \<Rightarrow> nat \<Rightarrow> bool" where
  "pt_ok s F r \<longleftrightarrow> tree_ok (kv_mem s) r \<and>
     (\<forall>f \<in> tables (kv_mem s) r. nbase \<le> f \<and> f < npage s \<and> f - nbase \<notin> F)"

text \<open>The valid entry for a page, which is given by its three indices, and for an address in it.\<close>

type_synonym vpn = "nat \<times> nat \<times> nat"

definition is_vpn :: "vpn \<Rightarrow> bool" where
  "is_vpn v \<longleftrightarrow> (case v of (i, j, k) \<Rightarrow> i < NPTEENTRY \<and> j < NPTEENTRY \<and> k < NPTEENTRY)"

definition leaf :: "kvm \<Rightarrow> nat \<Rightarrow> vpn \<Rightarrow> u64 option" where
  "leaf s r v = (case v of (i, j, k) \<Rightarrow>
     (case tab (kv_mem s) r [i, j] of
        None \<Rightarrow> None
      | Some t \<Rightarrow> if pte_valid (kv_mem s t k) then Some (kv_mem s t k) else None))"

definition vpn :: "u64 \<Rightarrow> vpn" where
  "vpn la = (PDX1 la, PDX0 la, PTX la)"

definition mapped :: "kvm \<Rightarrow> nat \<Rightarrow> u64 \<Rightarrow> u64 option" where
  "mapped s r la = leaf s r (vpn la)"

text \<open>A step that may add tables: no mapping changes, and only tables and free pages are written.\<close>

definition grow_step :: "nat \<Rightarrow> kvm \<Rightarrow> nat set \<Rightarrow> kvm \<Rightarrow> nat set \<Rightarrow> bool" where
  "grow_step r s F s' F' \<longleftrightarrow>
     F' \<subseteq> F \<and> npage s' = npage s \<and> kv_sie s' = kv_sie s \<and>
     (\<forall>p. p \<notin> F \<longrightarrow> pages (kv_pmm s') p = pages (kv_pmm s) p) \<and>
     (\<forall>f. f \<notin> tables (kv_mem s) r \<and> (\<forall>p \<in> F. f \<noteq> p + nbase) \<longrightarrow> kv_mem s' f = kv_mem s f) \<and>
     (\<forall>v. is_vpn v \<longrightarrow> leaf s' r v = leaf s r v) \<and>
     (\<forall>js f. is_path js \<and> tab (kv_mem s) r js = Some f \<longrightarrow> tab (kv_mem s') r js = Some f) \<and>
     tables (kv_mem s') r \<subseteq> tables (kv_mem s) r \<union> (\<lambda>p. p + nbase) ` F"

lemma grow_step_refl [simp]: "grow_step r s F s F"
  by (simp add: grow_step_def)

lemma grow_step_trans:
  assumes a: "grow_step r s F s1 F1" and b: "grow_step r s1 F1 s2 F2"
  shows "grow_step r s F s2 F2"
proof -
  note A = a [unfolded grow_step_def] and B = b [unfolded grow_step_def]
  have "kv_mem s2 f = kv_mem s f" if "f \<notin> tables (kv_mem s) r" "\<forall>p \<in> F. f \<noteq> p + nbase" for f
  proof -
    have "f \<notin> tables (kv_mem s1) r" using A that by blast
    then show ?thesis using A B that by (metis subsetD)
  qed
  moreover have "tables (kv_mem s2) r \<subseteq> tables (kv_mem s) r \<union> (\<lambda>p. p + nbase) ` F"
    using A B by blast
  moreover have "F2 \<subseteq> F" "npage s2 = npage s" "kv_sie s2 = kv_sie s" using A B by auto
  moreover have "pages (kv_pmm s2) p = pages (kv_pmm s) p" if "p \<notin> F" for p using A B that by (metis subsetD)
  moreover have "leaf s2 r v = leaf s r v" if "is_vpn v" for v using A B that by metis
  moreover have "tab (kv_mem s2) r js = Some f" if "is_path js" "tab (kv_mem s) r js = Some f" for js f
    using A B that by blast
  ultimately show ?thesis unfolding grow_step_def by blast
qed

lemma PD_less [simp]: "PDX1 la < 512" "PDX0 la < 512" "PTX la < 512"
proof -
  have "unat (w AND 0x1FF :: u64) < 512" for w
  proof -
    have "w AND 0x1FF = take_bit 9 w" by (simp add: take_bit_eq_mask mask_eq_exp_minus_1)
    also have "\<dots> = w mod 512" by (simp add: take_bit_eq_mod)
    finally show ?thesis by (simp add: unat_mod)
  qed
  then show "PDX1 la < 512" "PDX0 la < 512" "PTX la < 512" by (simp_all add: PDX1_def PDX0_def PTX_def)
qed

lemma is_vpn_vpn [simp]: "is_vpn (vpn la)"
  by (simp add: is_vpn_def vpn_def)

lemma is_path_Nil [simp]: "is_path []"
  by (simp add: is_path_def)

lemma is_vpn_path: "is_vpn (i, j, k) \<Longrightarrow> is_path [i, j]" "is_vpn (i, j, k) \<Longrightarrow> is_path [i]"
  by (auto simp: is_vpn_def is_path_def)

lemma page2ppn_unat: "p + nbase < 2 ^ 52 \<Longrightarrow> unat (page2ppn p) = p + nbase"
  unfolding page2ppn_def unat_of_nat by simp

lemma PPN_page2pa: "p + nbase < 2 ^ 52 \<Longrightarrow> unat (PPN (page2pa p)) = p + nbase"
proof -
  assume p: "p + nbase < 2 ^ 52"
  have "\<not> bit (page2ppn p) n" if "52 \<le> n" for n
    using not_bit_above [of "page2ppn p" 52 n] page2ppn_unat [OF p] p that by simp
  then have "PPN (page2pa p) = page2ppn p" unfolding PPN_def page2pa_def
    by (intro bit_word_eqI) (simp only: bit_drop_bit_eq bit_push_bit_iff comp_def possible_bit_word, force simp: not_le)
  then show ?thesis using page2ppn_unat [OF p] by simp
qed

lemma pte_frame_page:
  assumes "p + nbase < 2 ^ 52" "\<And>n. 10 \<le> n \<Longrightarrow> \<not> bit perm n"
  shows "pte_frame (pte_create (page2ppn p) perm) = p + nbase"
proof -
  have "unat (page2ppn p) < 2 ^ 52" unfolding page2ppn_unat [OF assms(1)] by (rule assms(1))
  from pte_frame_create [OF this assms(2)] show ?thesis unfolding page2ppn_unat [OF assms(1)] .
qed


section \<open>Finding entries\<close>

lemma leaf_cong:
  assumes "tab (kv_mem s') r [i, j] = tab (kv_mem s) r [i, j]"
    "\<And>t. tab (kv_mem s) r [i, j] = Some t \<Longrightarrow> kv_mem s' t k = kv_mem s t k"
  shows "leaf s' r (i, j, k) = leaf s r (i, j, k)"
  using assms unfolding leaf_def by (auto split: option.split)

lemma KADDR_entry: "pte_frame e < npage s \<Longrightarrow> KADDR s (PTE_ADDR e) = Some (pte_frame e)"
  by (simp add: KADDR_def pte_frame_def)

text \<open>Linking a new empty table changes no mapping.\<close>

lemma leaf_link:
  assumes t: "tree_ok (kv_mem s) r" and f: "is_path (is @ [k])" "tab (kv_mem s) r is = Some d" and e: "\<not> pte_valid (kv_mem s d k)"
    and g: "g \<notin> tables (kv_mem s) r" and v: "pte_valid v" "pte_frame v = g"
    and m: "kv_mem s' = m_put ((kv_mem s)(g := \<lambda>_. 0)) d k v"
    and ij: "is_path [i, j]"
  shows "leaf s' r (i, j, l) = leaf s r (i, j, l)"
proof (cases "[i, j] = is @ [k]")
  case True
  have "tab (kv_mem s) r (is @ [k]) = None" using f(2) e by (simp add: tab_snoc)
  moreover have "tab (kv_mem s') r (is @ [k]) = Some g" using tab_link [OF t f e g v f(1)] m by simp
  moreover have "d \<noteq> g" using f is_path_append [OF f(1)] g by (auto simp: tables_def)
  ultimately show ?thesis unfolding leaf_def prod.case True by (simp add: m)
next
  case False
  have T: "tab (kv_mem s') r [i, j] = tab (kv_mem s) r [i, j]"
    unfolding m tab_link [OF t f e g v ij] by (rule if_not_P [OF False])
  show ?thesis
  proof (rule leaf_cong [OF T])
    fix t1 assume t1: "tab (kv_mem s) r [i, j] = Some t1"
    have "t1 \<noteq> g" using t1 g ij unfolding tables_def by blast
    moreover have "t1 \<noteq> d"
    proof
      assume "t1 = d"
      then have "is = [i, j]" using t f(2) t1 is_path_append [OF f(1)] ij unfolding tree_ok_def by blast
      then show False using f(1) by (simp add: is_path_def)
    qed
    ultimately show "kv_mem s' t1 (l) = kv_mem s t1 (l)" by (simp add: m)
  qed
qed

lemma get_table_ok:
  assumes ok: "kvm_ok s F" "pt_ok s F r" and f: "is_path (is @ [k])" "tab (kv_mem s) r is = Some d"
  shows "\<exists>res s' F'. get_table d k create s = Some (res, s') \<and> kvm_ok s' F' \<and> pt_ok s' F' r \<and> grow_step r s F s' F' \<and>
    res = tab (kv_mem s') r (is @ [k]) \<and> (res = None \<longrightarrow> s' = s \<and> F' = F \<and> (create \<longrightarrow> F = {})) \<and> (\<not> create \<longrightarrow> s' = s \<and> F' = F) \<and>
    (\<exists>q. F \<subseteq> insert q F')"
proof -
  have p: "is_path is" by (rule is_path_append [OF f(1)])
  have tree: "tree_ok (kv_mem s) r" and tb: "\<And>g. g \<in> tables (kv_mem s) r \<Longrightarrow> nbase \<le> g \<and> g < npage s \<and> g - nbase \<notin> F"
    using ok(2) by (auto simp: pt_ok_def)
  let ?e = "kv_mem s d k"
  show ?thesis
  proof (cases "pte_valid ?e")
    case True
    then have T: "tab (kv_mem s) r (is @ [k]) = Some (pte_frame ?e)" using f(2) by (simp add: tab_snoc)
    then have "pte_frame ?e \<in> tables (kv_mem s) r" using f(1) unfolding tables_def by blast
    then have "pte_frame ?e < npage s" using tb by blast
    then have "get_table d k create s = Some (Some (pte_frame ?e), s)" using True by (simp add: get_table_def KADDR_entry)
    then show ?thesis using ok T by (intro exI [of _ "Some (pte_frame ?e)"] exI [of _ s] exI [of _ F]) auto
  next
    case False
    then have T: "tab (kv_mem s) r (is @ [k]) = None" using f(2) by (simp add: tab_snoc)
    show ?thesis
    proof (cases create)
      case nc: False
      then have "get_table d k create s = Some (None, s)" using False by (simp add: get_table_def)
      then show ?thesis using ok T nc by (intro exI [of _ None] exI [of _ s] exI [of _ F]) auto
    next
      case c: True
      have pi: "pmm_inv (kv_pmm s) F" using ok(1) by (simp add: kvm_ok_def)
      show ?thesis using alloc_page_ok [OF pi]
      proof (elim disjE exE conjE)
        assume "F = {}" "alloc_page s = Some (None, s)"
        moreover then have "get_table d k create s = Some (None, s)" using False c by (simp add: get_table_def)
        ultimately show ?thesis using ok T by (intro exI [of _ None] exI [of _ s] exI [of _ F]) auto
      next
        fix q s1
        assume a: "alloc_page s = Some (Some q, s1)" "q \<in> F" "pmm_inv (kv_pmm s1) (F - {q})" "only_pmm s s1"
          "\<forall>x. x \<notin> F \<longrightarrow> pages (kv_pmm s1) x = pages (kv_pmm s) x"
        have s1: "kv_mem s1 = kv_mem s" "npage s1 = npage s" "kv_sie s1 = kv_sie s" using only_pmm_simps [OF a(4)] by auto
        have qn: "q + nbase < npage s" "q + nbase < 2 ^ 52" using ok(1) a(2) by (auto simp: kvm_ok_def)
        let ?g = "q + nbase" and ?v = "pte_create (page2ppn q) (PTE_U OR PTE_V)"
        have v: "pte_valid ?v" "pte_frame ?v = ?g" using pte_valid_create pte_frame_page [OF qn(2), of "PTE_U OR PTE_V"] not_bit_above [of "PTE_U OR PTE_V" 10] by simp_all
        have g: "?g \<notin> tables (kv_mem s) r" using tb [of ?g] a(2) by auto
        let ?s' = "put_entry (d, k) ?v (put_frame ?g (\<lambda>_. 0) (set_page_ref q 1 s1))"
        have dg: "d \<noteq> ?g" using f(2) p g by (auto simp: tables_def)
        have m: "kv_mem ?s' = m_put ((kv_mem s)(?g := \<lambda>_. 0)) d k ?v" by (simp add: s1)
        have "KADDR (set_page_ref q 1 s1) (page2pa q) = Some ?g" using PPN_page2pa [OF qn(2)] qn(1) by (simp add: KADDR_def s1)
        moreover have "KADDR ?s' (PTE_ADDR (kv_mem ?s' d k)) = Some ?g"
          using KADDR_entry [of ?v ?s'] v(2) qn(1) by (simp add: s1)
        ultimately have gt: "get_table d k create s = Some (Some ?g, ?s')"
          using False c a(1) by (simp add: get_table_def)
        note L = tree_link [OF tree f False g v, folded m] tab_link [OF tree f False g v, folded m]
        have pt: "pt_ok ?s' (F - {q}) r" using L(1,2) tb qn(1) by (auto simp: pt_ok_def s1)
        have pi': "pmm_inv (kv_pmm ?s') (F - {q})" using a(3) by (simp only: put_entry_simps put_frame_simps set_page_ref_inv)
        have k': "kvm_ok ?s' (F - {q})" unfolding kvm_ok_def using pi' ok(1) by (simp add: kvm_ok_def s1)
        have st: "grow_step r s F ?s' (F - {q})"
          unfolding grow_step_def
        proof (intro conjI allI impI)
          fix v' assume "is_vpn v'"
          then show "leaf ?s' r v' = leaf s r v'"
            by (cases v') (use leaf_link [OF tree f False g v m] is_vpn_path(1) in blast)
        next
          fix js h assume h: "is_path js \<and> tab (kv_mem s) r js = Some h"
          then have "js \<noteq> is @ [k]" using T by auto
          then show "tab (kv_mem ?s') r js = Some h" using L(3) h by (simp add: m)
        next
          fix h assume h: "h \<notin> tables (kv_mem s) r \<and> (\<forall>p\<in>F. h \<noteq> p + nbase)"
          have "d \<in> tables (kv_mem s) r" using f(2) p by (auto simp: tables_def)
          then show "kv_mem ?s' h = kv_mem s h" using h a(2) by (auto simp: m s1)
        next
          fix x assume "x \<notin> F"
          then show "pages (kv_pmm ?s') x = pages (kv_pmm s) x" using a(2,5) by auto
        next
          show "tables (kv_mem ?s') r \<subseteq> tables (kv_mem s) r \<union> (\<lambda>p. p + nbase) ` F" using L(2) a(2) by auto
        qed (auto simp: s1)
        have "tab (kv_mem ?s') r (is @ [k]) = Some ?g" using L(3) [OF f(1)] by simp
        moreover have "\<exists>x. F \<subseteq> insert x (F - {q})" by blast
        ultimately show ?thesis using gt k' pt st c by (intro exI [of _ "Some ?g"] exI [of _ ?s'] exI [of _ "F - {q}"]) simp
      qed
    qed
  qed
qed


lemma get_pte_ok:
  assumes ok: "kvm_ok s F" "pt_ok s F r"
  shows "\<exists>res s' F'. get_pte r la create s = Some (map_option (\<lambda>t. (t, PTX la)) res, s') \<and> kvm_ok s' F' \<and> pt_ok s' F' r \<and>
    grow_step r s F s' F' \<and> res = tab (kv_mem s') r [PDX1 la, PDX0 la] \<and> (res = None \<and> create \<longrightarrow> F' = {} \<and> (\<exists>q. F \<subseteq> {q})) \<and>
    (\<not> create \<longrightarrow> s' = s \<and> F' = F)"
proof -
  have p: "is_path ([] @ [PDX1 la])" "is_path ([PDX1 la] @ [PDX0 la])" by (simp_all add: is_path_def)
  have r: "tab (kv_mem s) r [] = Some r" by simp
  obtain d s1 F1 where d: "get_table r (PDX1 la) create s = Some (d, s1)" "kvm_ok s1 F1" "pt_ok s1 F1 r" "grow_step r s F s1 F1"
    "d = tab (kv_mem s1) r [PDX1 la]" "d = None \<longrightarrow> s1 = s \<and> F1 = F \<and> (create \<longrightarrow> F = {})" "\<not> create \<longrightarrow> s1 = s \<and> F1 = F"
    "\<exists>q. F \<subseteq> insert q F1"
    using get_table_ok [OF ok p(1) r, of create] unfolding append_Nil by (elim exE conjE) (rule that, assumption+, rule exI, assumption)
  show ?thesis
  proof (cases d)
    case None
    have "tab (kv_mem s1) r ([PDX1 la] @ [PDX0 la]) = None" using d(5) None by (intro tab_append_None) simp
    moreover have "get_pte r la create s = Some (map_option (\<lambda>t. (t, PTX la)) None, s1)" using d(1) None by (simp add: get_pte_def)
    moreover have "F1 = {} \<and> (\<exists>q. F \<subseteq> {q})" if create using d(6) None that by simp
    moreover have "\<not> create \<longrightarrow> s1 = s \<and> F1 = F" by (rule d(7))
    ultimately show ?thesis unfolding append_Cons append_Nil using d(2-4) by metis
  next
    case (Some d0)
    then have t0: "tab (kv_mem s1) r [PDX1 la] = Some d0" using d(5) by simp
    obtain t s2 F2 where t: "get_table d0 (PDX0 la) create s1 = Some (t, s2)" "kvm_ok s2 F2" "pt_ok s2 F2 r" "grow_step r s1 F1 s2 F2"
      "t = tab (kv_mem s2) r [PDX1 la, PDX0 la]" "t = None \<longrightarrow> s2 = s1 \<and> F2 = F1 \<and> (create \<longrightarrow> F1 = {})"
      "\<not> create \<longrightarrow> s2 = s1 \<and> F2 = F1" "\<exists>q. F1 \<subseteq> insert q F2"
      using get_table_ok [OF d(2,3) p(2) t0, of create] unfolding append_Cons append_Nil by (elim exE conjE) (rule that, assumption+, rule exI, assumption)
    have "get_pte r la create s = Some (map_option (\<lambda>t. (t, PTX la)) t, s2)" using d(1) t(1) Some by (simp add: get_pte_def)
    moreover have "t = None \<and> create \<longrightarrow> F2 = {} \<and> (\<exists>q. F \<subseteq> {q})" using t(6) d(8) by auto
    moreover have "\<not> create \<longrightarrow> s2 = s \<and> F2 = F" using t(7) d(7) by blast
    ultimately show ?thesis using t(2,3,5) grow_step_trans [OF d(4) t(4)] by metis
  qed
qed

section \<open>Changing one mapping\<close>

lemma put_leaf:
  assumes t: "tree_ok (kv_mem s) r" and v: "is_vpn (i, j, k)" "tab (kv_mem s) r [i, j] = Some f"
    and m: "kv_mem s' = m_put (kv_mem s) f k e"
  shows "is_path js \<Longrightarrow> tab (kv_mem s') r js = tab (kv_mem s) r js"
    and "tables (kv_mem s') r = tables (kv_mem s) r" and "tree_ok (kv_mem s') r"
    and "is_vpn w \<Longrightarrow> leaf s' r w = (if w = (i, j, k) then if pte_valid e then Some e else None else leaf s r w)"
proof -
  have T: "tab (kv_mem s') r js = tab (kv_mem s) r js" if "is_path js" for js
    unfolding m
  proof (rule tab_put_other [OF t is_vpn_path(1) [OF v(1)] v(2) that])
    show "\<nexists>zs. js = [i, j] @ k # zs" using that by (auto simp: is_path_def)
  qed
  then show "is_path js \<Longrightarrow> tab (kv_mem s') r js = tab (kv_mem s) r js" .
  show "tables (kv_mem s') r = tables (kv_mem s) r" using T by (auto simp: tables_def)
  show "tree_ok (kv_mem s') r" using T t unfolding tree_ok_def by metis
  assume w: "is_vpn w"
  obtain i' j' k' where w': "w = (i', j', k')" by (cases w)
  note W = is_vpn_path(1) [OF w [unfolded w']]
  show "leaf s' r w = (if w = (i, j, k) then if pte_valid e then Some e else None else leaf s r w)"
  proof (cases "w = (i, j, k)")
    case True
    then show ?thesis using T [OF is_vpn_path(1) [OF v(1)]] v(2) by (simp add: leaf_def m)
  next
    case False
    have "leaf s' r (i', j', k') = leaf s r (i', j', k')"
    proof (rule leaf_cong [OF T [OF W]])
      fix g assume g: "tab (kv_mem s) r [i', j'] = Some g"
      have "\<not> (g = f \<and> k' = k)"
      proof
        assume e: "g = f \<and> k' = k"
        then have "[i', j'] = [i, j]" using t g v(2) W is_vpn_path(1) [OF v(1)] unfolding tree_ok_def by blast
        then show False using e False w' by simp
      qed
      then show "kv_mem s' g k' = kv_mem s g k'" by (auto simp: m)
    qed
    then show ?thesis using False unfolding w' by (simp only: if_False)
  qed
qed

text \<open>How often a page is mapped in an address space; the reference count is at least that.\<close>

definition maps :: "kvm \<Rightarrow> nat \<Rightarrow> nat \<Rightarrow> vpn set" where
  "maps s r p = {v. is_vpn v \<and> (\<exists>e. leaf s r v = Some e \<and> pte_frame e = p + nbase)}"

definition leaves_ok :: "kvm \<Rightarrow> nat set \<Rightarrow> nat \<Rightarrow> bool" where
  "leaves_ok s F r \<longleftrightarrow>
     (\<forall>v e. is_vpn v \<and> leaf s r v = Some e \<longrightarrow>
        nbase \<le> pte_frame e \<and> pte_frame e < npage s \<and> pte_frame e - nbase \<notin> F \<and> pte_frame e \<notin> tables (kv_mem s) r \<and>
        releasable (pte_frame e - nbase) 1 (kv_pmm s)) \<and>
     (\<forall>p. maps s r p \<noteq> {} \<longrightarrow> int (card (maps s r p)) \<le> page_ref p s)"

definition space_ok :: "kvm \<Rightarrow> nat set \<Rightarrow> nat \<Rightarrow> bool" where
  "space_ok s F r \<longleftrightarrow> kvm_ok s F \<and> pt_ok s F r \<and> leaves_ok s F r"

text \<open>Some free page lies above all mapped ones, so that the first-fit manager can take any of them back.\<close>

definition room_above :: "kvm \<Rightarrow> nat set \<Rightarrow> nat \<Rightarrow> bool" where
  "room_above s F r \<longleftrightarrow> (\<exists>f \<in> F. \<forall>v e. is_vpn v \<and> leaf s r v = Some e \<longrightarrow> pte_frame e < f + nbase)"

lemma finite_vpns: "finite {v. is_vpn v}"
proof -
  have "{v. is_vpn v} \<subseteq> {..<512} \<times> {..<512} \<times> {..<512}" by (auto simp: is_vpn_def)
  then show ?thesis by (rule finite_subset) simp
qed

lemma finite_maps [simp]: "finite (maps s r p)"
  by (rule finite_subset [OF _ finite_vpns]) (auto simp: maps_def)


lemma leaves_okD:
  assumes "leaves_ok s F r" "is_vpn v" "leaf s r v = Some e"
  shows "nbase \<le> pte_frame e" "pte_frame e < npage s" "pte_frame e - nbase \<notin> F" "pte_frame e \<notin> tables (kv_mem s) r"
    "releasable (pte_frame e - nbase) 1 (kv_pmm s)"
  using assms unfolding leaves_ok_def by blast+

lemma leaves_ok_ref: "leaves_ok s F r \<Longrightarrow> maps s r p \<noteq> {} \<Longrightarrow> int (card (maps s r p)) \<le> page_ref p s"
  unfolding leaves_ok_def by blast

lemma maps_not_free: "leaves_ok s F r \<Longrightarrow> v \<in> maps s r p \<Longrightarrow> p \<notin> F"
  using leaves_okD(3) [of s F r v] by (auto simp: maps_def)

lemma maps_cong: "(\<And>v. is_vpn v \<Longrightarrow> leaf s' r v = leaf s r v) \<Longrightarrow> maps s' r p = maps s r p"
  by (auto simp: maps_def)

lemma releasable_pages: "pages s' p = pages s p \<Longrightarrow> releasable p 1 s' \<longleftrightarrow> releasable p 1 s"
  by (simp add: releasable_def)

lemma grow_leaves:
  assumes l: "leaves_ok s F r" and g: "grow_step r s F s' F'"
  shows "leaves_ok s' F' r"
proof -
  note G = g [unfolded grow_step_def]
  have lf: "leaf s' r v = leaf s r v" if "is_vpn v" for v using G that by blast
  show ?thesis
    unfolding leaves_ok_def
  proof (intro conjI allI impI)
    fix v e assume a: "is_vpn v \<and> leaf s' r v = Some e"
    then have v: "is_vpn v" "leaf s r v = Some e" using lf [of v] by simp_all
    note L = leaves_okD [OF l v]
    show "nbase \<le> pte_frame e" "pte_frame e < npage s'" "pte_frame e - nbase \<notin> F'" using L(1-3) G by auto
    show "pte_frame e \<notin> tables (kv_mem s') r"
    proof
      assume "pte_frame e \<in> tables (kv_mem s') r"
      then obtain q where "q \<in> F" "pte_frame e = q + nbase" using G L(4) by blast
      then show False using L(3) by simp
    qed
    have "pages (kv_pmm s') (pte_frame e - nbase) = pages (kv_pmm s) (pte_frame e - nbase)" using G L(3) by blast
    then show "releasable (pte_frame e - nbase) 1 (kv_pmm s')" using L(5) releasable_pages by blast
  next
    fix p assume "maps s' r p \<noteq> {}"
    then have m: "maps s r p \<noteq> {}" "maps s' r p = maps s r p" using maps_cong [of s' r s] lf by blast+
    then have "p \<notin> F" using maps_not_free [OF l] by blast
    then have "page_ref p s' = page_ref p s" using G by (simp add: page_ref_def)
    then show "int (card (maps s' r p)) \<le> page_ref p s'" using leaves_ok_ref [OF l m(1)] m(2) by simp
  qed
qed

text \<open>What removing one mapping does to the descriptors.\<close>

definition unref_step :: "u64 option \<Rightarrow> kvm \<Rightarrow> nat set \<Rightarrow> kvm \<Rightarrow> nat set \<Rightarrow> bool" where
  "unref_step old s F s' F' \<longleftrightarrow>
     (case old of
        None \<Rightarrow> F' = F \<and> kv_pmm s' = kv_pmm s
      | Some e \<Rightarrow> let p = pte_frame e - nbase in
          F' = (if page_ref p s = 1 then insert p F else F) \<and>
          (page_ref p s \<noteq> 1 \<longrightarrow> page_ref p s' = page_ref p s - 1) \<and>
          (\<forall>q. q \<notin> F \<and> q \<noteq> p \<longrightarrow> pages (kv_pmm s') q = pages (kv_pmm s) q))"

lemma pte2page_leaf:
  assumes "leaves_ok s F r" "is_vpn v" "leaf s r v = Some e"
  shows "pte_valid e" "pte2page s e = Some (pte_frame e - nbase)"
proof -
  show v: "pte_valid e" using assms(3) by (auto simp: leaf_def split: prod.splits option.splits if_splits)
  show "pte2page s e = Some (pte_frame e - nbase)"
    using v leaves_okD(1,2) [OF assms] by (simp add: pte2page_def pa2page_def pte_frame_def)
qed


lemma remove_pte_ok:
  assumes ok: "space_ok s F r" and room: "room_above s F r" and v: "is_vpn (i, j, k)" "tab (kv_mem s) r [i, j] = Some f"
  shows "\<exists>s' F'. page_remove_pte (f, k) s = Some s' \<and> space_ok s' F' r \<and> F \<subseteq> F' \<and> npage s' = npage s \<and>
    (\<forall>w. is_vpn w \<longrightarrow> leaf s' r w = (if w = (i, j, k) then None else leaf s r w)) \<and>
    (\<forall>js. is_path js \<longrightarrow> tab (kv_mem s') r js = tab (kv_mem s) r js) \<and>
    (\<forall>g. g \<noteq> f \<longrightarrow> kv_mem s' g = kv_mem s g) \<and> unref_step (leaf s r (i, j, k)) s F s' F'"
proof -
  have ok': "kvm_ok s F" "tree_ok (kv_mem s) r" "leaves_ok s F r" "pt_ok s F r" using ok by (auto simp: space_ok_def pt_ok_def)
  let ?e = "kv_mem s f k"
  show ?thesis
  proof (cases "pte_valid ?e")
    case False
    then have l: "leaf s r (i, j, k) = None" using v(2) by (simp add: leaf_def)
    have "page_remove_pte (f, k) s = Some s" using False by (simp add: page_remove_pte_def pte_at_def)
    then show ?thesis using ok l by (intro exI [of _ s] exI [of _ F]) (auto simp: unref_step_def)
  next
    case True
    then have l: "leaf s r (i, j, k) = Some ?e" using v(2) by (simp add: leaf_def)
    let ?p = "pte_frame ?e - nbase"
    note L = leaves_okD [OF ok'(3) v(1) l]
    have vm: "(i, j, k) \<in> maps s r ?p" using v(1) l L(1) by (simp add: maps_def)
    define s1 where "s1 = page_ref_dec ?p s"
    have s1: "kv_mem s1 = kv_mem s" "npage s1 = npage s" "page_ref ?p s1 = page_ref ?p s - 1"
      "\<And>q. q \<noteq> ?p \<Longrightarrow> pages (kv_pmm s1) q = pages (kv_pmm s) q" "pmm_inv (kv_pmm s1) F"
      using ok'(1) by (simp_all add: s1_def page_ref_dec_def page_ref_def kvm_ok_def)
    have rel: "releasable ?p 1 (kv_pmm s1)" using L(5) by (simp add: s1_def page_ref_dec_def releasable_def)
    obtain h where h: "h \<in> F" "?p < h" using room v(1) l L(1) unfolding room_above_def by force
    obtain s2 F2 where s2: "(if page_ref ?p s1 = 0 then free_page ?p s1 else Some s1) = Some s2"
      "pmm_inv (kv_pmm s2) F2" "kv_mem s2 = kv_mem s" "npage s2 = npage s"
      "F2 = (if page_ref ?p s = 1 then insert ?p F else F)" "page_ref ?p s \<noteq> 1 \<longrightarrow> page_ref ?p s2 = page_ref ?p s - 1"
      "\<forall>q. q \<notin> F \<and> q \<noteq> ?p \<longrightarrow> pages (kv_pmm s2) q = pages (kv_pmm s) q"
    proof (cases "page_ref ?p s = 1")
      case True
      obtain s2 where "free_page ?p s1 = Some s2" "pmm_inv (kv_pmm s2) (insert ?p F)" "only_pmm s1 s2"
        "\<forall>q. q \<notin> insert ?p F \<longrightarrow> pages (kv_pmm s2) q = pages (kv_pmm s1) q"
        using free_page_ok [OF s1(5) L(3) rel h] by blast
      then show ?thesis using that [of s2 "insert ?p F"] True s1 only_pmm_simps [of s1 s2] by simp
    next
      case False
      then show ?thesis using that [of s1 F] s1 by simp
    qed
    let ?s' = "put_entry (f, k) 0 s2"
    have eq: "page_remove_pte (f, k) s = Some ?s'"
      using True pte2page_leaf(2) [OF ok'(3) v(1) l] s2(1) by (simp add: page_remove_pte_def pte_at_def s1_def [symmetric])
    have m: "kv_mem ?s' = m_put (kv_mem s) f k 0" by (simp add: s2(3))
    note P = put_leaf [OF ok'(2) v m, simplified]
    have lf: "leaf ?s' r w = (if w = (i, j, k) then None else leaf s r w)" if "is_vpn w" for w using P(4) that by simp
    have kv: "kvm_ok ?s' F2" using s2(2,4,5) ok'(1) L(1,2) by (auto simp: kvm_ok_def split: if_splits)
    have tb: "nbase \<le> g \<and> g < npage s \<and> g - nbase \<notin> F \<and> g - nbase \<noteq> ?p" if "g \<in> tables (kv_mem s) r" for g
    proof -
      have g: "nbase \<le> g" "g < npage s" "g - nbase \<notin> F" using ok'(4) that by (auto simp: pt_ok_def)
      moreover have "g \<noteq> pte_frame ?e" using that L(4) by blast
      then have "g - nbase \<noteq> ?p" using g(1) L(1) by linarith
      ultimately show ?thesis by simp
    qed
    have pt: "pt_ok ?s' F2 r" using P(2,3) s2(4,5) tb by (simp add: pt_ok_def)
    have mp: "maps ?s' r q = maps s r q - {(i, j, k)}" for q using lf by (auto simp: maps_def split: if_splits)
    have lv: "leaves_ok ?s' F2 r"
      unfolding leaves_ok_def
    proof (intro conjI allI impI)
      fix w e assume a: "is_vpn w \<and> leaf ?s' r w = Some e"
      then have w: "is_vpn w" "leaf s r w = Some e" "w \<noteq> (i, j, k)" using lf [of w] by (auto split: if_splits)
      note W = leaves_okD [OF ok'(3) w(1,2)]
      have other: "pte_frame e - nbase \<notin> F2"
      proof
        assume "pte_frame e - nbase \<in> F2"
        then have r1: "pte_frame e - nbase = ?p" "page_ref ?p s = 1" using s2(5) W(3) by (auto split: if_splits)
        then have "w \<in> maps s r ?p" using w W(1) by (simp add: maps_def)
        then have "{w, (i, j, k)} \<subseteq> maps s r ?p" using vm by blast
        then have "card {w, (i, j, k)} \<le> card (maps s r ?p)" by (intro card_mono) simp_all
        moreover have "int (card (maps s r ?p)) \<le> 1" using leaves_ok_ref [OF ok'(3), of ?p] vm r1(2) by force
        ultimately show False using w(3) by simp
      qed
      show "nbase \<le> pte_frame e" "pte_frame e < npage ?s'" "pte_frame e \<notin> tables (kv_mem ?s') r"
        using W P(2) s2(4) by auto
      show "pte_frame e - nbase \<notin> F2" by (rule other)
      show "releasable (pte_frame e - nbase) 1 (kv_pmm ?s')"
      proof (cases "pte_frame e - nbase = ?p")
        case False
        then have "pages (kv_pmm s2) (pte_frame e - nbase) = pages (kv_pmm s) (pte_frame e - nbase)" using s2(7) W(3) by blast
        then show ?thesis using W(5) releasable_pages by simp blast
      next
        case True
        then have "page_ref ?p s \<noteq> 1" using other s2(5) by auto
        then have "s2 = s1" using s2(1) s1(3) by simp
        then show ?thesis using rel True by simp
      qed
    next
      fix q assume ne: "maps ?s' r q \<noteq> {}"
      then have q: "maps s r q \<noteq> {}" "q \<notin> F" using mp maps_not_free [OF ok'(3)] by (blast, blast)
      have c: "int (card (maps s r q)) \<le> page_ref q s" by (rule leaves_ok_ref [OF ok'(3) q(1)])
      show "int (card (maps ?s' r q)) \<le> page_ref q ?s'"
      proof (cases "q = ?p")
        case False
        then have "page_ref q ?s' = page_ref q s" using s2(7) q(2) by (simp add: page_ref_def)
        moreover have "card (maps ?s' r q) \<le> card (maps s r q)" unfolding mp by (intro card_mono) auto
        ultimately show ?thesis using c by linarith
      next
        case True
        have "card (maps ?s' r q) + 1 = card (maps s r q)" unfolding mp True
          using card_Suc_Diff1 [OF finite_maps vm] by (simp only: Suc_eq_plus1)
        moreover then have "page_ref ?p s \<noteq> 1" using c True ne by (metis card_gt_0_iff finite_maps leD less_add_same_cancel2 of_nat_1 of_nat_less_iff)
        ultimately show ?thesis using c s2(6) True by (simp add: page_ref_def)
      qed
    qed
    have "unref_step (leaf s r (i, j, k)) s F ?s' F2" using l s2(5-7) by (simp add: unref_step_def Let_def page_ref_def)
    moreover have "F \<subseteq> F2" using s2(5) by auto
    moreover have "kv_mem ?s' g = kv_mem s g" if "g \<noteq> f" for g using that by (simp add: s2(3))
    ultimately show ?thesis using eq kv pt lv lf P(1) s2(4)
      by (intro exI [of _ ?s'] exI [of _ F2]) (simp add: space_ok_def)
  qed
qed


text \<open>A page that can be mapped: allocated, with a frame of the machine, and no table.\<close>

definition mappable :: "kvm \<Rightarrow> nat set \<Rightarrow> nat \<Rightarrow> nat \<Rightarrow> bool" where
  "mappable s F r p \<longleftrightarrow> p \<notin> F \<and> p + nbase < npage s \<and> p + nbase \<notin> tables (kv_mem s) r \<and> releasable p 1 (kv_pmm s)"

abbreviation entry_for :: "nat \<Rightarrow> u64 \<Rightarrow> u64" where
  "entry_for p perm \<equiv> pte_create (page2ppn p) (PTE_V OR perm)"

lemma put_new:
  assumes ok: "space_ok s F r" and v: "is_vpn (i, j, k)" "tab (kv_mem s) r [i, j] = Some f" and p: "mappable s F r p"
    and c: "int (card (insert (i, j, k) (maps s r p))) \<le> page_ref p s" and perm: "perm < 2 ^ 10"
  shows "space_ok (put_entry (f, k) (entry_for p perm) s) F r"
    and "is_vpn w \<Longrightarrow> leaf (put_entry (f, k) (entry_for p perm) s) r w = (if w = (i, j, k) then Some (entry_for p perm) else leaf s r w)"
    and "is_path js \<Longrightarrow> tab (kv_mem (put_entry (f, k) (entry_for p perm) s)) r js = tab (kv_mem s) r js"
proof -
  let ?e = "entry_for p perm" and ?s' = "put_entry (f, k) (entry_for p perm) s"
  have ok': "kvm_ok s F" "tree_ok (kv_mem s) r" "leaves_ok s F r" "pt_ok s F r" using ok by (auto simp: space_ok_def pt_ok_def)
  have p52: "p + nbase < 2 ^ 52" using p ok'(1) by (auto simp: mappable_def kvm_ok_def)
  have pm: "\<not> bit (PTE_V OR perm) n" if "10 \<le> n" for n
    using not_bit_above [of perm 10 n] perm that by (simp add: bit_or_iff word_less_nat_alt bit_1_iff)
  have fr: "pte_frame ?e = p + nbase" "pte_valid ?e" using pte_frame_page [OF p52 pm] pte_valid_create by blast+
  have m: "kv_mem ?s' = m_put (kv_mem s) f k ?e" by simp
  note P = put_leaf [OF ok'(2) v m]
  show lf: "leaf ?s' r w = (if w = (i, j, k) then Some ?e else leaf s r w)" if "is_vpn w" for w
    using P(4) [OF that] fr(2) by simp
  show "is_path js \<Longrightarrow> tab (kv_mem ?s') r js = tab (kv_mem s) r js" by (rule P(1))
  have mp: "maps ?s' r q \<subseteq> (if q = p then insert (i, j, k) (maps s r p) else maps s r q)" for q
    using lf fr(1) by (auto simp: maps_def split: if_splits)
  have "leaves_ok ?s' F r"
    unfolding leaves_ok_def
  proof (intro conjI allI impI)
    fix w e assume a: "is_vpn w \<and> leaf ?s' r w = Some e"
    have "nbase \<le> pte_frame e \<and> pte_frame e < npage s \<and> pte_frame e - nbase \<notin> F \<and> pte_frame e \<notin> tables (kv_mem s) r \<and>
        releasable (pte_frame e - nbase) 1 (kv_pmm s)"
    proof (cases "w = (i, j, k)")
      case True
      then have "e = ?e" using a lf [of w] by simp
      then show ?thesis using p fr(1) by (simp add: mappable_def)
    next
      case False
      then have w: "is_vpn w" "leaf s r w = Some e" using a lf [of w] by simp_all
      show ?thesis using leaves_okD [OF ok'(3) w] by blast
    qed
    then show "nbase \<le> pte_frame e" "pte_frame e < npage ?s'" "pte_frame e - nbase \<notin> F" "pte_frame e \<notin> tables (kv_mem ?s') r"
      "releasable (pte_frame e - nbase) 1 (kv_pmm ?s')" unfolding P(2) by simp_all
  next
    fix q assume ne: "maps ?s' r q \<noteq> {}"
    show "int (card (maps ?s' r q)) \<le> page_ref q ?s'"
    proof (cases "q = p")
      case True
      then have "card (maps ?s' r q) \<le> card (insert (i, j, k) (maps s r p))" using mp [of q] by (intro card_mono) auto
      then show ?thesis using c True by (simp add: page_ref_def)
    next
      case False
      then have sub: "maps ?s' r q \<subseteq> maps s r q" using mp [of q] by simp
      then have "card (maps ?s' r q) \<le> card (maps s r q)" by (intro card_mono) auto
      moreover have "int (card (maps s r q)) \<le> page_ref q s" using sub ne by (intro leaves_ok_ref [OF ok'(3)]) auto
      ultimately show ?thesis by (simp add: page_ref_def)
    qed
  qed
  then show "space_ok ?s' F r" using ok'(1,4) P(2,3) by (simp add: space_ok_def pt_ok_def kvm_ok_def)
qed


lemma get_pte_found:
  assumes pt: "pt_ok s F r" and t: "tab (kv_mem s) r [PDX1 la, PDX0 la] = Some f"
  shows "get_pte r la create s = Some (Some (f, PTX la), s)"
proof -
  obtain d where d: "pte_valid (kv_mem s r (PDX1 la))" "d = pte_frame (kv_mem s r (PDX1 la))" "tab (kv_mem s) r [PDX1 la] = Some d"
    "pte_valid (kv_mem s d (PDX0 la))" "f = pte_frame (kv_mem s d (PDX0 la))"
    using t by (auto split: if_splits)
  have "is_path [PDX1 la]" "is_path [PDX1 la, PDX0 la]" by (simp_all add: is_path_def)
  then have "d \<in> tables (kv_mem s) r" "f \<in> tables (kv_mem s) r" using d(3) t unfolding tables_def by blast+
  then have "d < npage s" "f < npage s" using pt by (auto simp: pt_ok_def)
  then have "get_table r (PDX1 la) create s = Some (Some d, s)" "get_table d (PDX0 la) create s = Some (Some f, s)"
    using d KADDR_entry by (simp_all add: get_table_def)
  then show ?thesis by (simp add: get_pte_def)
qed

lemma ref_space:
  assumes ok: "space_ok s F r" and p: "page_ref p s \<le> v"
  shows "space_ok (set_page_ref p v s) F r"
proof -
  let ?s = "set_page_ref p v s"
  have lf: "leaf ?s r w = leaf s r w" for w unfolding leaf_def set_page_ref_simps(1) ..
  have rel: "releasable q 1 (kv_pmm ?s) = releasable q 1 (kv_pmm s)" for q by (simp add: releasable_def)
  have "maps ?s r q = maps s r q" for q using lf by (simp add: maps_def)
  moreover have "page_ref q s \<le> page_ref q ?s" for q using p by (simp add: page_ref_def)
  ultimately have "leaves_ok ?s F r" using ok unfolding space_ok_def leaves_ok_def lf rel
    by (simp add: set_page_ref_simps(1,2)) (meson order_trans)
  then show ?thesis using ok by (simp add: space_ok_def kvm_ok_def pt_ok_def)
qed

lemma page_remove_ok:
  assumes ok: "space_ok s F r" and room: "room_above s F r"
  shows "\<exists>s' F'. page_remove r la s = Some s' \<and> space_ok s' F' r \<and> F \<subseteq> F' \<and>
    (\<forall>w. is_vpn w \<longrightarrow> leaf s' r w = (if w = vpn la then None else leaf s r w)) \<and>
    unref_step (mapped s r la) s F s' F'"
proof -
  have pt: "pt_ok s F r" "kvm_ok s F" using ok by (simp_all add: space_ok_def)
  obtain res where g: "get_pte r la False s = Some (map_option (\<lambda>t. (t, PTX la)) res, s)" "res = tab (kv_mem s) r [PDX1 la, PDX0 la]"
    using get_pte_ok [OF pt(2,1), of la False] by metis
  show ?thesis
  proof (cases res)
    case None
    then have "mapped s r la = None" using g(2) by (simp add: mapped_def vpn_def leaf_def)
    moreover have "page_remove r la s = Some s" using g(1) None by (simp add: page_remove_def)
    ultimately show ?thesis using ok by (intro exI [of _ s] exI [of _ F]) (auto simp: unref_step_def mapped_def)
  next
    case (Some f)
    have v: "is_vpn (PDX1 la, PDX0 la, PTX la)" using is_vpn_vpn [of la] by (simp add: vpn_def)
    have "page_remove r la s = page_remove_pte (f, PTX la) s" using g(1) Some by (simp add: page_remove_def)
    then show ?thesis using remove_pte_ok [OF ok room v, of f] g(2) Some unfolding mapped_def vpn_def by metis
  qed
qed


lemma mappable_ref: "mappable s F r p \<Longrightarrow> mappable (set_page_ref q v s) F r p"
  by (auto simp: mappable_def releasable_def)

lemma leaf_ref: "leaf (set_page_ref p v s) r w = leaf s r w"
  unfolding leaf_def set_page_ref_simps(1) ..

lemma page_ref_set: "page_ref q (set_page_ref p v s) = (if q = p then v else page_ref q s)"
  by (simp add: page_ref_def)

lemma card_maps_le: "leaves_ok s F r \<Longrightarrow> 0 \<le> page_ref p s \<Longrightarrow> int (card (maps s r p)) \<le> page_ref p s"
  using leaves_ok_ref [of s F r p] by (cases "maps s r p = {}") simp_all

text \<open>Mapping a page at an address that has no mapping, and again where it is mapped already.\<close>

lemma insert_fresh:
  assumes ok: "space_ok s F r" and v: "is_vpn (i, j, k)" "tab (kv_mem s) r [i, j] = Some f" and p: "mappable s F r p"
    and n: "leaf s r (i, j, k) = None" and r0: "0 \<le> page_ref p s" and perm: "perm < 2 ^ 10"
  shows "space_ok (put_entry (f, k) (entry_for p perm) (page_ref_inc p s)) F r"
    and "is_vpn w \<Longrightarrow> leaf (put_entry (f, k) (entry_for p perm) (page_ref_inc p s)) r w =
      (if w = (i, j, k) then Some (entry_for p perm) else leaf s r w)"
    and "is_path js \<Longrightarrow> tab (kv_mem (put_entry (f, k) (entry_for p perm) (page_ref_inc p s))) r js = tab (kv_mem s) r js"
proof -
  have l: "leaves_ok s F r" using ok by (simp add: space_ok_def)
  let ?s = "page_ref_inc p s"
  have s: "space_ok ?s F r" unfolding page_ref_inc_def using ok by (intro ref_space) simp_all
  have m: "mappable ?s F r p" unfolding page_ref_inc_def by (rule mappable_ref [OF p])
  have mp: "maps ?s r p = maps s r p" by (simp add: maps_def page_ref_inc_def leaf_ref)
  have "(i, j, k) \<notin> maps s r p" using n by (simp add: maps_def)
  then have c: "int (card (insert (i, j, k) (maps ?s r p))) \<le> page_ref p ?s"
    unfolding mp using card_maps_le [OF l r0] by (simp add: page_ref_inc_def page_ref_set)
  have v2: "tab (kv_mem ?s) r [i, j] = Some f" using v(2) by (simp add: page_ref_inc_def)
  note P = put_new [OF s v(1) v2 m c perm]
  show "space_ok (put_entry (f, k) (entry_for p perm) ?s) F r" by (rule P(1))
  show "is_path js \<Longrightarrow> tab (kv_mem (put_entry (f, k) (entry_for p perm) ?s)) r js = tab (kv_mem s) r js"
    using P(3) [of js] by (simp add: page_ref_inc_def)
  assume "is_vpn w"
  then show "leaf (put_entry (f, k) (entry_for p perm) ?s) r w = (if w = (i, j, k) then Some (entry_for p perm) else leaf s r w)"
    using P(2) by (simp add: page_ref_inc_def leaf_ref)
qed

lemma insert_same:
  assumes ok: "space_ok s F r" and v: "is_vpn (i, j, k)" "tab (kv_mem s) r [i, j] = Some f" and p: "mappable s F r p"
    and n: "(i, j, k) \<in> maps s r p" and perm: "perm < 2 ^ 10"
  shows "space_ok (put_entry (f, k) (entry_for p perm) s) F r"
    and "is_vpn w \<Longrightarrow> leaf (put_entry (f, k) (entry_for p perm) s) r w =
      (if w = (i, j, k) then Some (entry_for p perm) else leaf s r w)"
proof -
  have l: "leaves_ok s F r" using ok by (simp add: space_ok_def)
  have "insert (i, j, k) (maps s r p) = maps s r p" using n by blast
  then have c: "int (card (insert (i, j, k) (maps s r p))) \<le> page_ref p s" using leaves_ok_ref [OF l, of p] n by auto
  note P = put_new [OF ok v p c perm]
  show "space_ok (put_entry (f, k) (entry_for p perm) s) F r" by (rule P(1))
  show "is_vpn w \<Longrightarrow> leaf (put_entry (f, k) (entry_for p perm) s) r w = (if w = (i, j, k) then Some (entry_for p perm) else leaf s r w)"
    by (rule P(2))
qed

lemma ref_inc_dec: "page_ref_dec p (page_ref_inc p s) = s"
  by (cases s, cases "kv_pmm s") (simp add: page_ref_dec_def page_ref_inc_def set_page_ref_def page_ref_def upd_page_def)

lemma page_ref_pages: "pages (kv_pmm s') q = pages (kv_pmm s) q \<Longrightarrow> page_ref q s' = page_ref q s"
  by (simp add: page_ref_def)

lemma page_ref_put: "page_ref q (put_entry x e s) = page_ref q s"
  by (simp add: page_ref_def)


text \<open>Mapping a page over another one: the other one loses a reference.\<close>

lemma insert_over:
  assumes ok: "space_ok s F r" and room: "room_above s F r" and v: "is_vpn (i, j, k)" "tab (kv_mem s) r [i, j] = Some f"
    and p: "mappable s F r p" and r0: "0 \<le> page_ref p s" and perm: "perm < 2 ^ 10"
    and old: "leaf s r (i, j, k) = Some e" "pte_frame e - nbase = q" "q \<noteq> p"
  shows "\<exists>s3 F'. page_remove_pte (f, k) (page_ref_inc p s) = Some s3 \<and> space_ok (put_entry (f, k) (entry_for p perm) s3) F' r \<and>
    (\<forall>w. is_vpn w \<longrightarrow> leaf (put_entry (f, k) (entry_for p perm) s3) r w = (if w = (i, j, k) then Some (entry_for p perm) else leaf s r w)) \<and>
    page_ref p s3 = page_ref p s + 1 \<and> (if page_ref q s = 1 then q \<in> F' else page_ref q s3 = page_ref q s - 1) \<and>
    F \<subseteq> F' \<and> F' \<subseteq> insert q F"
proof -
  have l: "leaves_ok s F r" using ok by (simp add: space_ok_def)
  let ?s = "page_ref_inc p s"
  have s: "space_ok ?s F r" unfolding page_ref_inc_def using ok by (intro ref_space) simp_all
  have rm: "room_above ?s F r" using room by (simp add: room_above_def page_ref_inc_def leaf_ref)
  have v2: "tab (kv_mem ?s) r [i, j] = Some f" using v(2) by (simp add: page_ref_inc_def)
  have lf: "leaf ?s r w = leaf s r w" for w by (simp add: page_ref_inc_def leaf_ref)
  obtain s3 F3 where s3: "page_remove_pte (f, k) ?s = Some s3" "space_ok s3 F3 r" "F \<subseteq> F3" "npage s3 = npage ?s"
    "\<forall>w. is_vpn w \<longrightarrow> leaf s3 r w = (if w = (i, j, k) then None else leaf ?s r w)"
    "\<forall>js. is_path js \<longrightarrow> tab (kv_mem s3) r js = tab (kv_mem ?s) r js" "unref_step (leaf ?s r (i, j, k)) ?s F s3 F3"
    using remove_pte_ok [OF s rm v(1) v2] by blast
  have pF: "p \<notin> F" "p + nbase < npage s" "p + nbase \<notin> tables (kv_mem s) r" "releasable p 1 (kv_pmm s)" using p by (auto simp: mappable_def)
  have u: "F3 = (if page_ref q s = 1 then insert q F else F)" "page_ref q s \<noteq> 1 \<longrightarrow> page_ref q s3 = page_ref q s - 1"
    "pages (kv_pmm s3) p = pages (kv_pmm ?s) p"
    using s3(7) old pF(1) unfolding lf old(1) unref_step_def by (simp_all add: Let_def page_ref_inc_def page_ref_set)
  have tb: "tables (kv_mem s3) r = tables (kv_mem s) r" using s3(6) by (auto simp: tables_def page_ref_inc_def)
  have rp: "page_ref p s3 = page_ref p s + 1" using page_ref_pages [OF u(3)] by (simp add: page_ref_inc_def page_ref_set)
  have "releasable p 1 (kv_pmm ?s)" using pF(4) by (simp add: releasable_def page_ref_inc_def)
  then have "releasable p 1 (kv_pmm s3)" using releasable_pages [OF u(3)] by blast
  then have m3: "mappable s3 F3 r p" using pF(1-3) u(1) old(3) s3(4) tb by (simp add: mappable_def page_ref_inc_def)
  have "leaf s r w = Some e'" if "is_vpn w" "leaf s3 r w = Some e'" for w e'
    using s3(5) that lf [of w] by (metis option.distinct(1))
  then have mp: "maps s3 r p \<subseteq> maps s r p" unfolding maps_def by blast
  have vn: "(i, j, k) \<notin> maps s r p" using old by (auto simp: maps_def)
  have "card (insert (i, j, k) (maps s3 r p)) \<le> card (insert (i, j, k) (maps s r p))" using mp by (intro card_mono) auto
  also have "\<dots> = card (maps s r p) + 1" using vn by simp
  finally have c: "int (card (insert (i, j, k) (maps s3 r p))) \<le> page_ref p s3"
    unfolding rp using card_maps_le [OF l r0] by linarith
  have "tab (kv_mem s3) r [i, j] = tab (kv_mem ?s) r [i, j]" using s3(6) is_vpn_path(1) [OF v(1)] by blast
  then have v3: "tab (kv_mem s3) r [i, j] = Some f" unfolding v2 .
  note P = put_new [OF s3(2) v(1) v3 m3 c perm]
  have "leaf (put_entry (f, k) (entry_for p perm) s3) r w = (if w = (i, j, k) then Some (entry_for p perm) else leaf s r w)"
    if "is_vpn w" for w
  proof -
    have "leaf s3 r w = (if w = (i, j, k) then None else leaf s r w)" using s3(5) that unfolding lf by blast
    then show ?thesis unfolding P(2) [OF that] by simp
  qed
  then show ?thesis using s3(1,3) P(1) rp u(1,2) by (intro exI [of _ s3] exI [of _ F3]) auto
qed

definition insert_refs :: "u64 option \<Rightarrow> nat \<Rightarrow> kvm \<Rightarrow> kvm \<Rightarrow> nat set \<Rightarrow> bool" where
  "insert_refs old p s s' F' \<longleftrightarrow>
     (case old of
        None \<Rightarrow> page_ref p s' = page_ref p s + 1
      | Some e \<Rightarrow> let q = pte_frame e - nbase in
          if q = p then page_ref p s' = page_ref p s
          else page_ref p s' = page_ref p s + 1 \<and> (if page_ref q s = 1 then q \<in> F' else page_ref q s' = page_ref q s - 1))"

lemma page_insert_mapped:
  assumes ok: "space_ok s F r" and room: "room_above s F r" and p: "mappable s F r p" and r0: "0 \<le> page_ref p s"
    and perm: "perm < 2 ^ 10" and t: "tab (kv_mem s) r [PDX1 la, PDX0 la] = Some f"
  shows "\<exists>s' F'. page_insert r p la perm s = Some (0, s') \<and> space_ok s' F' r \<and>
    (\<forall>w. is_vpn w \<longrightarrow> leaf s' r w = (if w = vpn la then Some (entry_for p perm) else leaf s r w)) \<and>
    insert_refs (mapped s r la) p s s' F'"
proof -
  have l: "leaves_ok s F r" and pt: "pt_ok s F r" using ok by (simp_all add: space_ok_def)
  have v: "is_vpn (PDX1 la, PDX0 la, PTX la)" using is_vpn_vpn [of la] by (simp add: vpn_def)
  note g = get_pte_found [OF pt t, of True]
  let ?at = "(f, PTX la)" and ?s2 = "page_ref_inc p s"
  have at: "pte_at ?at ?s2 = kv_mem s f (PTX la)" by (simp add: pte_at_def page_ref_inc_def)
  show ?thesis
  proof (cases "mapped s r la")
    case None
    then have n: "leaf s r (PDX1 la, PDX0 la, PTX la) = None" by (simp add: mapped_def vpn_def)
    then have "\<not> pte_valid (kv_mem s f (PTX la))" using t by (simp add: leaf_def split: if_splits)
    then have "page_insert r p la perm s = Some (0, put_entry ?at (entry_for p perm) ?s2)"
      using g by (simp add: page_insert_def at)
    moreover have "insert_refs None p s (put_entry ?at (entry_for p perm) ?s2) F"
      by (simp add: insert_refs_def page_ref_put page_ref_inc_def page_ref_set)
    ultimately show ?thesis using insert_fresh [OF ok v t p n r0 perm] unfolding None vpn_def by blast
  next
    case (Some e)
    then have e: "leaf s r (PDX1 la, PDX0 la, PTX la) = Some e" by (simp add: mapped_def vpn_def)
    then have ev: "e = kv_mem s f (PTX la)" using t by (simp add: leaf_def split: if_splits)
    note L = leaves_okD [OF l v e] pte2page_leaf [OF l v e]
    let ?q = "pte_frame e - nbase"
    have q2: "pte2page ?s2 e = Some ?q" using L(7) by (simp add: pte2page_def pa2page_def page_ref_inc_def)
    show ?thesis
    proof (cases "?q = p")
      case True
      then have m: "(PDX1 la, PDX0 la, PTX la) \<in> maps s r p" using v e L(1) by (auto simp: maps_def)
      have "page_insert r p la perm s = Some (0, put_entry ?at (entry_for p perm) s)"
        using g L(6) q2 True by (simp add: page_insert_def at ev [symmetric] ref_inc_dec)
      moreover have "insert_refs (Some e) p s (put_entry ?at (entry_for p perm) s) F"
        using True by (simp add: insert_refs_def page_ref_put)
      ultimately show ?thesis using insert_same [OF ok v t p m perm] unfolding Some vpn_def by blast
    next
      case False
      obtain s3 F' where s3: "page_remove_pte ?at ?s2 = Some s3" "space_ok (put_entry ?at (entry_for p perm) s3) F' r"
        "\<forall>w. is_vpn w \<longrightarrow> leaf (put_entry ?at (entry_for p perm) s3) r w =
          (if w = (PDX1 la, PDX0 la, PTX la) then Some (entry_for p perm) else leaf s r w)"
        "page_ref p s3 = page_ref p s + 1" "if page_ref ?q s = 1 then ?q \<in> F' else page_ref ?q s3 = page_ref ?q s - 1"
        using insert_over [OF ok room v t p r0 perm e refl False] by blast
      have "page_insert r p la perm s = Some (0, put_entry ?at (entry_for p perm) s3)"
        using g L(6) q2 False s3(1) by (simp add: page_insert_def at ev [symmetric])
      moreover have "insert_refs (Some e) p s (put_entry ?at (entry_for p perm) s3) F'"
        using False s3(4,5) by (simp add: insert_refs_def page_ref_put Let_def)
      ultimately show ?thesis using s3(2,3) unfolding Some vpn_def by blast
    qed
  qed
qed


lemma page_insert_ok:
  assumes ok: "space_ok s F r" and room: "room_above s F r" and p: "mappable s F r p" and r0: "0 \<le> page_ref p s"
    and perm: "perm < 2 ^ 10"
  shows "\<exists>ret s' F'. page_insert r p la perm s = Some (ret, s') \<and> space_ok s' F' r \<and>
    (ret = 0 \<and> (\<forall>w. is_vpn w \<longrightarrow> leaf s' r w = (if w = vpn la then Some (entry_for p perm) else leaf s r w)) \<and>
       insert_refs (mapped s r la) p s s' F'
     \<or> ret = - E_NO_MEM \<and> F' = {} \<and> (\<exists>q. F \<subseteq> {q}) \<and> mapped s r la = None \<and> (\<forall>w. is_vpn w \<longrightarrow> leaf s' r w = leaf s r w) \<and> page_ref p s' = page_ref p s)"
proof (cases "tab (kv_mem s) r [PDX1 la, PDX0 la]")
  case (Some f)
  then show ?thesis using page_insert_mapped [OF ok room p r0 perm Some] by blast
next
  case None
  have l: "leaves_ok s F r" and pt: "pt_ok s F r" "kvm_ok s F" using ok by (simp_all add: space_ok_def)
  have v: "is_vpn (PDX1 la, PDX0 la, PTX la)" using is_vpn_vpn [of la] by (simp add: vpn_def)
  have n: "leaf s r (PDX1 la, PDX0 la, PTX la) = None" using None by (simp only: leaf_def prod.case option.case)
  then have n': "mapped s r la = None" by (simp add: mapped_def vpn_def)
  obtain res s1 F1 where g: "get_pte r la True s = Some (map_option (\<lambda>t. (t, PTX la)) res, s1)" "kvm_ok s1 F1" "pt_ok s1 F1 r"
    "grow_step r s F s1 F1" "res = tab (kv_mem s1) r [PDX1 la, PDX0 la]" "res = None \<longrightarrow> F1 = {} \<and> (\<exists>q. F \<subseteq> {q})"
    using get_pte_ok [OF pt(2,1), of la True, simplified simp_thms] by (elim exE conjE) (rule that, assumption+)
  note G = g(4) [unfolded grow_step_def]
  have s1: "space_ok s1 F1 r" using g(2,3) grow_leaves [OF l g(4)] by (simp add: space_ok_def)
  have lf: "leaf s1 r w = leaf s r w" if "is_vpn w" for w using G that by blast
  have pF: "p \<notin> F" using p by (simp add: mappable_def)
  have pg: "pages (kv_pmm s1) p = pages (kv_pmm s) p" using G pF by blast
  have rp: "page_ref p s1 = page_ref p s" by (rule page_ref_pages [OF pg])
  show ?thesis
  proof (cases res)
    case None
    then have "page_insert r p la perm s = Some (- E_NO_MEM, s1)" using g(1) by (simp add: page_insert_def)
    then show ?thesis using s1 lf rp n' g(6) None by blast
  next
    case (Some f)
    have n1: "leaf s1 r (PDX1 la, PDX0 la, PTX la) = None" using lf [OF v] n by simp
    have t1: "tab (kv_mem s1) r [PDX1 la, PDX0 la] = Some f" using g(5) Some by (simp only: option.inject)
    have "\<not> pte_valid (kv_mem s1 f (PTX la))" using n1 t1 unfolding leaf_def prod.case t1 option.case by (simp split: if_splits)
    then have eq: "page_insert r p la perm s = Some (0, put_entry (f, PTX la) (entry_for p perm) (page_ref_inc p s1))"
      using g(1) Some by (simp add: page_insert_def pte_at_def page_ref_inc_def)
    have "p + nbase \<notin> tables (kv_mem s1) r"
    proof
      assume "p + nbase \<in> tables (kv_mem s1) r"
      then have "p + nbase \<in> tables (kv_mem s) r \<union> (\<lambda>p. p + nbase) ` F" using G by blast
      then show False using p by (auto simp: mappable_def)
    qed
    then have m1: "mappable s1 F1 r p" using p G releasable_pages [OF pg] by (auto simp: mappable_def)
    have "0 \<le> page_ref p s1" using r0 rp by simp
    note P = insert_fresh [OF s1 v t1 m1 n1 this perm]
    have "insert_refs None p s (put_entry (f, PTX la) (entry_for p perm) (page_ref_inc p s1)) F1"
      using rp by (simp add: insert_refs_def page_ref_put page_ref_inc_def page_ref_set)
    then have "insert_refs (mapped s r la) p s (put_entry (f, PTX la) (entry_for p perm) (page_ref_inc p s1)) F1" unfolding n' .
    moreover have "leaf (put_entry (f, PTX la) (entry_for p perm) (page_ref_inc p s1)) r w =
        (if w = vpn la then Some (entry_for p perm) else leaf s r w)" if "is_vpn w" for w
      using P(2) [OF that] lf [OF that] unfolding vpn_def by simp
    ultimately show ?thesis using eq P(1) by blast
  qed
qed

end
