(* ===== verification/PageRange.thy ===== *)
theory PageRange
  imports PageMap
begin

text \<open>
  The operations on ranges of addresses: \<open>vpn_of\<close> numbers the pages of the 39-bit address space, and \<^verbatim>\<open>unmap_range\<close> is
  proved to remove exactly the mappings of its range.
\<close>

section \<open>Page numbers\<close>

definition vpn_of :: "nat \<Rightarrow> vpn" where
  "vpn_of n = (n div 262144 mod 512, n div 512 mod 512, n mod 512)"

abbreviation page_va :: "nat \<Rightarrow> u64" where
  "page_va n \<equiv> word_of_nat (4096 * n)"

lemma and_1FF: "unat (w AND 0x1FF :: u64) = unat w mod 512"
proof -
  have "w AND 0x1FF = take_bit 9 w" by (simp add: take_bit_eq_mask mask_eq_exp_minus_1)
  also have "\<dots> = w mod 512" by (simp add: take_bit_eq_mod)
  finally show ?thesis by (simp add: unat_mod)
qed

lemma vpn_la: "vpn la = vpn_of (unat la div 4096)"
proof -
  have "PTX la = unat la div 4096 mod 512" unfolding PTX_def and_1FF unat_drop_bit_eq by (simp add: drop_bit_eq_div)
  moreover have "PDX0 la = unat la div 4096 div 512 mod 512"
    unfolding PDX0_def and_1FF unat_drop_bit_eq div_mult2_eq [symmetric] by (simp add: drop_bit_eq_div)
  moreover have "PDX1 la = unat la div 4096 div 262144 mod 512"
    unfolding PDX1_def and_1FF unat_drop_bit_eq div_mult2_eq [symmetric] by (simp add: drop_bit_eq_div)
  ultimately show ?thesis by (simp add: vpn_def vpn_of_def)
qed

lemma vpn_of_inject:
  assumes "m < 2 ^ 27" "n < 2 ^ 27" "vpn_of m = vpn_of n"
  shows "m = n"
proof -
  have d: "x div 262144 = x div 512 div 512" for x :: nat by (simp add: div_mult2_eq)
  have "m div 262144 mod 512 = m div 262144" "n div 262144 mod 512 = n div 262144" using assms(1,2) by simp_all
  then have "m div 512 div 512 = n div 512 div 512" "m div 512 mod 512 = n div 512 mod 512" "m mod 512 = n mod 512"
    using assms(3) d by (simp_all add: vpn_of_def)
  then show ?thesis by (metis div_mult_mod_eq)
qed

lemma is_vpn_of [simp]: "is_vpn (vpn_of n)"
  by (simp add: is_vpn_def vpn_of_def)

lemma unat_page_va: "n < 2 ^ 27 \<Longrightarrow> unat (page_va n) = 4096 * n"
  unfolding unat_of_nat by simp

lemma vpn_page_va: "n < 2 ^ 27 \<Longrightarrow> vpn (page_va n) = vpn_of n"
  unfolding vpn_la unat_page_va by simp

lemma page_va_less: "m < 2 ^ 27 \<Longrightarrow> n < 2 ^ 27 \<Longrightarrow> page_va m < page_va n \<longleftrightarrow> m < n"
  unfolding word_less_nat_alt unat_page_va by simp

lemma page_va_0: "n < 2 ^ 27 \<Longrightarrow> page_va n = 0 \<longleftrightarrow> n = 0"
  using unat_page_va [of n] unat_page_va [of 0] by (metis mult_0_right mult_eq_0_iff of_nat_0 unat_0 zero_neq_numeral)

lemma page_va_next: "page_va n + PGSIZE = page_va (n + 1)"
  by (simp add: algebra_simps)

lemma page_va_round:
  assumes "n < 2 ^ 26"
  shows "ROUNDDOWN (page_va n + PTSIZE) PTSIZE = page_va ((n div 512 + 1) * 512)"
proof -
  have e: "page_va n + PTSIZE = page_va (n + 512)" by (simp add: algebra_simps)
  have "n div 512 * 512 \<le> n" by (rule div_times_less_eq_dividend)
  then have b: "(n div 512 + 1) * 512 < 2 ^ 27" "n + 512 < 2 ^ 27" using assms unfolding add_mult_distrib by simp_all
  have p: "unat (PTSIZE :: u64) = 4096 * 512" by simp
  have "4096 * (n + 512) div (4096 * 512) * (4096 * 512) = 4096 * ((n div 512 + 1) * 512)"
  proof -
    have "(n + 512) div 512 = n div 512 + 1" by simp
    then show ?thesis by (simp only: div_mult_mult1)
  qed
  then have "unat (ROUNDDOWN (page_va n + PTSIZE) PTSIZE) = unat (page_va ((n div 512 + 1) * 512))"
    unfolding unat_ROUNDDOWN e unat_page_va [OF b(1)] unat_page_va [OF b(2)] p .
  then show ?thesis by (simp only: word_unat_eq_iff)
qed


section \<open>Unmapping a range\<close>

lemma page_remove_pte_skip: "(if pte_at p s \<noteq> 0 then page_remove_pte p s else Some s) = page_remove_pte p s"
  by (simp add: page_remove_pte_def)

lemma room_above_mono:
  assumes "room_above s F r" "F \<subseteq> F'" "\<And>v e. is_vpn v \<Longrightarrow> leaf s' r v = Some e \<Longrightarrow> leaf s r v = Some e"
  shows "room_above s' F' r"
  using assms unfolding room_above_def by blast

lemma table_block:
  assumes "n div 512 = m div 512" and "tab (kv_mem s) r [n div 262144 mod 512, n div 512 mod 512] = None"
  shows "leaf s r (vpn_of m) = None"
proof -
  have "n div 262144 = m div 262144" using assms(1) div_mult2_eq [of _ 512 512] by simp
  then show ?thesis using assms by (simp only: leaf_def vpn_of_def prod.case option.case)
qed


text \<open>The loop from page \<open>n\<close> up to page \<open>e\<close>.\<close>

lemma unmap_loop_ok:
  assumes "space_ok s F r" "room_above s F r" "n < e" "e \<le> 2 ^ 20"
  shows "\<exists>s' F'. unmap_loop r (page_va n) (page_va e) s = Some s' \<and> space_ok s' F' r \<and> F \<subseteq> F' \<and> room_above s' F' r \<and>
    (\<forall>m < 2 ^ 27. leaf s' r (vpn_of m) = (if n \<le> m \<and> m < e then None else leaf s r (vpn_of m)))"
  using assms
proof (induction "e - n" arbitrary: n s F rule: less_induct)
  case less
  have b: "n < 2 ^ 27" "e < 2 ^ 27" "n < 2 ^ 26" using less.prems(3,4) by simp_all
  have pt: "kvm_ok s F" "pt_ok s F r" using less.prems(1) by (simp_all add: space_ok_def)
  let ?la = "page_va n"
  have ix: "PDX1 ?la = n div 262144 mod 512" "PDX0 ?la = n div 512 mod 512" "PTX ?la = n mod 512"
    using vpn_page_va [OF b(1)] by (simp_all only: vpn_def vpn_of_def prod.inject)
  show ?case
  proof (cases "tab (kv_mem s) r [PDX1 ?la, PDX0 ?la]")
    case None
    let ?n = "(n div 512 + 1) * 512"
    have g: "get_pte r ?la False s = Some (None, s)" using get_pte_ok [OF pt, of ?la False] None by auto
    have nn: "n < ?n" by (metis add.commute dividend_less_div_times zero_less_numeral mult.commute add_mult_distrib mult_1)
    have "n div 512 * 512 \<le> n" by (rule div_times_less_eq_dividend)
    then have nb: "?n < 2 ^ 27" using b(3) unfolding add_mult_distrib by simp
    have none: "leaf s r (vpn_of m) = None" if "n \<le> m" "m < ?n" for m
    proof (rule table_block)
      show "n div 512 = m div 512" using that by (metis div_le_mono less_mult_imp_div_less less_Suc_eq_le Suc_eq_plus1 order_antisym)
      show "tab (kv_mem s) r [n div 262144 mod 512, n div 512 mod 512] = None" using None unfolding ix .
    qed
    have nz: "page_va ?n \<noteq> 0" using page_va_0 [OF nb] by simp
    have step: "unmap_loop r ?la (page_va e) s = (if ?n < e then unmap_loop r (page_va ?n) (page_va e) s else Some s)"
      using nz page_va_less [OF nb b(2)] by (subst unmap_loop.simps) (simp only: g page_va_round [OF b(3)] option.case bind.bind_lunit prod.case Option.bind.bind_lunit, simp)
    show ?thesis
    proof (cases "?n < e")
      case True
      obtain s' F' where s': "unmap_loop r (page_va ?n) (page_va e) s = Some s'" "space_ok s' F' r" "F \<subseteq> F'" "room_above s' F' r"
        "\<forall>m < 2 ^ 27. leaf s' r (vpn_of m) = (if ?n \<le> m \<and> m < e then None else leaf s r (vpn_of m))"
        using less.hyps [of ?n s F] nn True less.prems by (metis diff_less_mono2)
      have "leaf s' r (vpn_of m) = (if n \<le> m \<and> m < e then None else leaf s r (vpn_of m))" if "m < 2 ^ 27" for m
        using s'(5) that nn none [of m] by (cases "?n \<le> m") auto
      then show ?thesis using s'(1-4) step True by (intro exI [of _ s'] exI [of _ F']) simp
    next
      case False
      have "leaf s r (vpn_of m) = (if n \<le> m \<and> m < e then None else leaf s r (vpn_of m))" for m
        using none [of m] False by auto
      then show ?thesis using step False less.prems(1,2) by (intro exI [of _ s] exI [of _ F]) simp
    qed
  next
    case (Some f)
    have v: "is_vpn (PDX1 ?la, PDX0 ?la, PTX ?la)" "(PDX1 ?la, PDX0 ?la, PTX ?la) = vpn_of n"
      using is_vpn_vpn [of ?la] vpn_page_va [OF b(1)] by (simp_all only: vpn_def)
    have g: "get_pte r ?la False s = Some (Some (f, PTX ?la), s)" by (rule get_pte_found [OF pt(2) Some])
    obtain s1 F1 where s1: "page_remove_pte (f, PTX ?la) s = Some s1" "space_ok s1 F1 r" "F \<subseteq> F1"
      "\<forall>w. is_vpn w \<longrightarrow> leaf s1 r w = (if w = vpn_of n then None else leaf s r w)"
      using remove_pte_ok [OF less.prems(1,2) v(1) Some] unfolding v(2) by blast
    have rm: "room_above s1 F1 r"
    proof (rule room_above_mono [OF less.prems(2) s1(3)])
      fix w e' assume "is_vpn w" "leaf s1 r w = Some e'"
      then show "leaf s r w = Some e'" using s1(4) by (metis option.distinct(1))
    qed
    have one: "leaf s1 r (vpn_of m) = (if m = n then None else leaf s r (vpn_of m))" if "m < 2 ^ 27" for m
      using s1(4) vpn_of_inject [OF that b(1)] by (metis is_vpn_of)
    have nz: "page_va (n + 1) \<noteq> 0" "n + 1 < 2 ^ 27" using page_va_0 [of "n + 1"] b(3) by simp_all
    have step: "unmap_loop r ?la (page_va e) s = (if n + 1 < e then unmap_loop r (page_va (n + 1)) (page_va e) s1 else Some s1)"
      using nz page_va_less [OF nz(2) b(2)] s1(1)
      by (subst unmap_loop.simps) (simp only: g page_remove_pte_skip page_va_next option.case bind.bind_lunit prod.case Option.bind.bind_lunit, simp)
    show ?thesis
    proof (cases "n + 1 < e")
      case True
      have "e - (n + 1) < e - n" using True by linarith
      from less.hyps [OF this s1(2) rm True less.prems(4)]
      obtain s' F' where s': "unmap_loop r (page_va (n + 1)) (page_va e) s1 = Some s'" "space_ok s' F' r" "F1 \<subseteq> F'" "room_above s' F' r"
        "\<forall>m < 2 ^ 27. leaf s' r (vpn_of m) = (if n + 1 \<le> m \<and> m < e then None else leaf s1 r (vpn_of m))"
        by blast
      have "leaf s' r (vpn_of m) = (if n \<le> m \<and> m < e then None else leaf s r (vpn_of m))" if "m < 2 ^ 27" for m
        using s'(5) that one [OF that] True by auto
      then show ?thesis using s'(1-4) s1(3) step True by (intro exI [of _ s'] exI [of _ F']) auto
    next
      case False
      have "leaf s1 r (vpn_of m) = (if n \<le> m \<and> m < e then None else leaf s r (vpn_of m))" if "m < 2 ^ 27" for m
        using one [OF that] less.prems(3) False by auto
      moreover have "unmap_loop r ?la (page_va e) s = Some s1" using step False by (simp only: if_False)
      ultimately show ?thesis using s1(2,3) rm by blast
    qed
  qed
qed


lemma aligned_page_va: "a mod PGSIZE = 0 \<Longrightarrow> unat a < 2 ^ 39 \<Longrightarrow> a = page_va (unat a div 4096) \<and> unat a div 4096 < 2 ^ 27"
proof -
  assume a: "a mod PGSIZE = 0" "unat a < 2 ^ 39"
  have "unat a mod 4096 = unat (a mod PGSIZE)" by (simp add: unat_mod)
  then have m: "unat a mod 4096 = 0" using a(1) by simp
  then have e: "4096 * (unat a div 4096) = unat a" by auto
  have "unat a < 2 ^ 27 * 4096" using a(2) by simp
  then have "unat a div 4096 < 2 ^ 27" by (rule less_mult_imp_div_less)
  moreover have "page_va (unat a div 4096) = a" unfolding e by simp
  ultimately show ?thesis by simp
qed


lemma page_of_le: "4096 * n \<le> x \<longleftrightarrow> n \<le> x div 4096" for n x :: nat
  by (simp add: less_eq_div_iff_mult_less_eq mult.commute)

section \<open>The properties\<close>




text \<open>A machine of eight pages, three of them allocated: page 0 is the root of an empty address space.\<close>

definition kvm0 :: kvm where
  "kvm0 = set_page_ref 1 0
     \<lparr>kv_sie = True, kv_pmm = take_block 0 3 (region0 8), kv_mem = (\<lambda>_ _. 0), npage = nbase + 8\<rparr>"

lemma kvm0_pmm: "pmm_inv (kv_pmm kvm0) {3..<8}" "releasable 1 1 (kv_pmm kvm0)" "page_ref 1 kvm0 = 0"
proof -
  note w = region0_wf [of 8, simplified]
  have s: "fl_wf (take_block 0 3 (region0 8)) [3]" "blocks (take_block 0 3 (region0 8)) [3] = {3..<8}"
    "releasable 0 3 (take_block 0 3 (region0 8))"
    using take_block_split [OF w(1), of 3] take_block_releasable [OF w(1), of 0 3] w by simp_all
  then have "pmm_inv (take_block 0 3 (region0 8)) {3..<8}" unfolding pmm_inv_def by blast
  then show "pmm_inv (kv_pmm kvm0) {3..<8}" unfolding kvm0_def set_page_ref_inv by simp
  show "releasable 1 1 (kv_pmm kvm0)" using s(3) by (auto simp: releasable_def kvm0_def)
  show "page_ref 1 kvm0 = 0" by (simp add: kvm0_def page_ref_set)
qed

lemma kvm0_tab: "tab (kv_mem kvm0) nbase is = (if is = [] then Some nbase else None)"
  by (cases "is") (simp_all add: kvm0_def)

lemma kvm0_leaf: "leaf kvm0 nbase v = None"
  unfolding leaf_def kvm0_tab by (simp split: prod.split)

lemma kvm0_ok: "space_ok kvm0 {3..<8} nbase" "room_above kvm0 {3..<8} nbase" "mappable kvm0 {3..<8} nbase 1"
proof -
  have t: "tables (kv_mem kvm0) nbase = {nbase}" by (auto simp: tables_def kvm0_tab)
  have "tree_ok (kv_mem kvm0) nbase" by (simp add: tree_ok_def kvm0_tab)
  then show "space_ok kvm0 {3..<8} nbase" using kvm0_pmm(1)
    by (auto simp: space_ok_def kvm_ok_def pt_ok_def t leaves_ok_def maps_def kvm0_leaf) (simp_all add: kvm0_def)
  show "room_above kvm0 {3..<8} nbase" by (auto simp: room_above_def kvm0_leaf intro!: bexI [of _ 3])
  show "mappable kvm0 {3..<8} nbase 1" using kvm0_pmm(2) t by (simp add: mappable_def kvm0_def)
qed



end
