(* ===== verification/Bytes.thy ===== *)
theory Bytes
  imports Prelude
begin

text \<open>
  Bytes in memory: parts of a buffer, \<^verbatim>\<open>memcpy\<close> into a buffer, memory as a function from addresses, and the
  little-endian layout of unsigned integers that the on-disk structures use.
\<close>

section \<open>Buffers\<close>

text \<open>\<open>overwrite xs k ys\<close> is the buffer \<open>xs\<close> after \<open>ys\<close> has been copied to its index \<open>k\<close>.\<close>

definition chunk :: "nat \<Rightarrow> nat \<Rightarrow> 'a list \<Rightarrow> 'a list" where
  "chunk k n xs = take n (drop k xs)"

definition overwrite :: "'a list \<Rightarrow> nat \<Rightarrow> 'a list \<Rightarrow> 'a list" where
  "overwrite xs k ys = take k xs @ ys @ drop (k + length ys) xs"

lemma length_chunk [simp]: "k + n \<le> length xs \<Longrightarrow> length (chunk k n xs) = n"
  by (simp add: chunk_def)

lemma chunk_full [simp]: "n = length xs \<Longrightarrow> chunk 0 n xs = xs"
  by (simp add: chunk_def)

lemma chunk_0 [simp]: "chunk k 0 xs = []"
  by (simp add: chunk_def)

lemma nth_chunk: "i < n \<Longrightarrow> k + n \<le> length xs \<Longrightarrow> chunk k n xs ! i = xs ! (k + i)"
  by (simp add: chunk_def)

lemma chunk_add: "chunk k (m + n) xs = chunk k m xs @ chunk (k + m) n xs"
  by (simp add: chunk_def take_add drop_drop add.commute)

lemma length_overwrite [simp]: "k + length ys \<le> length xs \<Longrightarrow> length (overwrite xs k ys) = length xs"
  by (simp add: overwrite_def)

lemma overwrite_Nil [simp]: "overwrite xs k [] = xs"
  by (simp add: overwrite_def)

lemma overwrite_full [simp]: "length ys = length xs \<Longrightarrow> overwrite xs 0 ys = ys"
  by (simp add: overwrite_def)

lemma nth_overwrite:
  assumes "k + length ys \<le> length xs" "i < length xs"
  shows "overwrite xs k ys ! i = (if k \<le> i \<and> i < k + length ys then ys ! (i - k) else xs ! i)"
  using assms by (auto simp: overwrite_def nth_append min_def)

lemma chunk_overwrite_same:
  "n = length ys \<Longrightarrow> k + n \<le> length xs \<Longrightarrow> chunk k n (overwrite xs k ys) = ys"
  by (simp add: chunk_def overwrite_def)

lemma chunk_overwrite_disjoint:
  assumes "k + length ys \<le> length xs" "j + n \<le> length xs" "j + n \<le> k \<or> k + length ys \<le> j"
  shows "chunk j n (overwrite xs k ys) = chunk j n xs"
  using assms by (intro nth_equalityI) (auto simp: nth_chunk nth_overwrite)

lemma overwrite_append:
  assumes "k + length ys + length zs \<le> length xs"
  shows "overwrite (overwrite xs k ys) (k + length ys) zs = overwrite xs k (ys @ zs)"
  using assms by (intro nth_equalityI) (auto simp: nth_overwrite nth_append)

section \<open>Memory\<close>

definition mem_read :: "(nat \<Rightarrow> u8) \<Rightarrow> nat \<Rightarrow> nat \<Rightarrow> u8 list" where
  "mem_read m a n = map m [a..<a + n]"

definition mem_write :: "(nat \<Rightarrow> u8) \<Rightarrow> nat \<Rightarrow> u8 list \<Rightarrow> nat \<Rightarrow> u8" where
  "mem_write m a ys i = (if a \<le> i \<and> i < a + length ys then ys ! (i - a) else m i)"

lemma length_mem_read [simp]: "length (mem_read m a n) = n"
  by (simp add: mem_read_def)

lemma mem_read_0 [simp]: "mem_read m a 0 = []"
  by (simp add: mem_read_def)

lemma nth_mem_read: "i < n \<Longrightarrow> mem_read m a n ! i = m (a + i)"
  by (simp add: mem_read_def)

lemma mem_read_add: "mem_read m a (n + k) = mem_read m a n @ mem_read m (a + n) k"
  by (intro nth_equalityI) (auto simp: nth_mem_read nth_append)

lemma mem_write_Nil [simp]: "mem_write m a [] = m"
  by (auto simp: mem_write_def fun_eq_iff)

lemma mem_write_append: "mem_write (mem_write m a ys) (a + length ys) zs = mem_write m a (ys @ zs)"
  by (auto simp: mem_write_def fun_eq_iff nth_append)

lemma mem_read_write_same: "n = length ys \<Longrightarrow> mem_read (mem_write m a ys) a n = ys"
  by (intro nth_equalityI) (auto simp: nth_mem_read mem_write_def)

lemma mem_read_write_disjoint:
  "a + length ys \<le> b \<or> b + n \<le> a \<Longrightarrow> mem_read (mem_write m a ys) b n = mem_read m b n"
  by (intro nth_equalityI) (auto simp: nth_mem_read mem_write_def)

section \<open>Little-endian integers\<close>

fun le_bytes :: "nat \<Rightarrow> nat \<Rightarrow> u8 list" where
  "le_bytes 0 n = []"
| "le_bytes (Suc k) n = word_of_nat n # le_bytes k (n div 256)"

fun of_le :: "u8 list \<Rightarrow> nat" where
  "of_le [] = 0"
| "of_le (b # bs) = unat b + 256 * of_le bs"

lemma length_le_bytes [simp]: "length (le_bytes k n) = k"
  by (induction k arbitrary: n) auto

lemma of_le_bytes: "of_le (le_bytes k n) = n mod 256 ^ k"
proof (induction k arbitrary: n)
  case (Suc k)
  have "of_le (le_bytes (Suc k) n) = n mod 256 + 256 * (n div 256 mod 256 ^ k)"
    by (simp add: Suc unat_of_nat)
  also have "\<dots> = n mod 256 ^ Suc k" by (simp add: mod_mult2_eq)
  finally show ?case .
qed simp

lemma le_bytes_of_le: "le_bytes (length bs) (of_le bs) = bs"
proof (induction bs)
  case (Cons b bs)
  have "unat b < 256" using unsigned_less [of b] by simp
  then have "(unat b + 256 * of_le bs) div 256 = of_le bs" by simp
  moreover have "(word_of_nat (unat b + 256 * of_le bs) :: u8) = b"
  proof -
    have "unat (word_of_nat (unat b + 256 * of_le bs) :: u8) = unat b"
      unfolding unat_of_nat using \<open>unat b < 256\<close> by simp
    then show ?thesis by (simp only: word_unat_eq_iff)
  qed
  ultimately show ?case using Cons by simp
qed simp

lemma of_le_less: "of_le bs < 256 ^ length bs"
  by (metis le_bytes_of_le of_le_bytes mod_less_divisor zero_less_numeral zero_less_power)

end
