(* ===== verification/Vmm.thy ===== *)
theory Vmm
  imports PageRange Bytes
begin

text \<open>
  Virtual memory areas and access to user memory (\<^verbatim>\<open>kern/mm/vmm.c\<close>). The list of areas of a \<^verbatim>\<open>struct mm_struct\<close> is a
  list; an area does not change once it is in the list, so the cached pointer is represented by the area it points to. The
  outcome of an allocation is a parameter; memory is a function from addresses to bytes.
\<close>

section \<open>State\<close>

record vma_struct =
  vm_start :: u64
  vm_end :: u64
  vm_flags :: u32

record mm_struct =
  mmap_list :: "vma_struct list"
  mmap_cache :: "vma_struct option"
  mm_pgdir :: "nat option"
  map_count :: int
  mm_users :: int

abbreviation (input) VM_READ :: u32 where "VM_READ \<equiv> 0x1"
abbreviation (input) VM_WRITE :: u32 where "VM_WRITE \<equiv> 0x2"
abbreviation (input) VM_STACK :: u32 where "VM_STACK \<equiv> 0x8"
abbreviation (input) KERNBASE :: u64 where "KERNBASE \<equiv> 0xFFFFFFFFC0200000"
abbreviation (input) KERNTOP :: u64 where "KERNTOP \<equiv> 0xFFFFFFFFC8000000"

definition KERN_ACCESS :: "u64 \<Rightarrow> u64 \<Rightarrow> bool" where
  "KERN_ACCESS start end \<longleftrightarrow> KERNBASE \<le> start \<and> start < end \<and> end \<le> KERNTOP"

section \<open>Areas\<close>

definition mm_create :: "bool \<Rightarrow> mm_struct option" where
  "mm_create got =
     (if got then Some \<lparr>mmap_list = [], mmap_cache = None, mm_pgdir = None, map_count = 0, mm_users = 0\<rparr> else None)"

definition vma_create :: "bool \<Rightarrow> u64 \<Rightarrow> u64 \<Rightarrow> u32 \<Rightarrow> vma_struct option" where
  "vma_create got start end vflags = (if got then Some \<lparr>vm_start = start, vm_end = end, vm_flags = vflags\<rparr> else None)"

definition in_vma :: "u64 \<Rightarrow> vma_struct \<Rightarrow> bool" where
  "in_vma addr v \<longleftrightarrow> vm_start v \<le> addr \<and> addr < vm_end v"

text \<open>\<^verbatim>\<open>find_vma\<close> for an \<^verbatim>\<open>mm\<close> that is not null, as all callers pass it.\<close>

definition find_vma :: "mm_struct \<Rightarrow> u64 \<Rightarrow> vma_struct option \<times> mm_struct" where
  "find_vma mm addr =
     (let vma = (case mmap_cache mm of
          Some v \<Rightarrow> if in_vma addr v then Some v else find (in_vma addr) (mmap_list mm)
        | None \<Rightarrow> find (in_vma addr) (mmap_list mm))
      in (vma, if vma \<noteq> None then mm\<lparr>mmap_cache := vma\<rparr> else mm))"

definition check_vma_overlap :: "vma_struct \<Rightarrow> vma_struct \<Rightarrow> unit option" where
  "check_vma_overlap prev nxt = do {
     kassert (vm_start prev < vm_end prev);
     kassert (vm_end prev \<le> vm_start nxt);
     kassert (vm_start nxt < vm_end nxt)
   }"

text \<open>The new area goes behind the last one of the leading areas that start no later.\<close>

definition insert_vma_struct :: "mm_struct \<Rightarrow> vma_struct \<Rightarrow> mm_struct option" where
  "insert_vma_struct mm vma = do {
     kassert (vm_start vma < vm_end vma);
     let before = takeWhile (\<lambda>v. \<not> vm_start v > vm_start vma) (mmap_list mm);
     let after = dropWhile (\<lambda>v. \<not> vm_start v > vm_start vma) (mmap_list mm);
     (if before \<noteq> [] then check_vma_overlap (last before) vma else Some ());
     (if after \<noteq> [] then check_vma_overlap vma (hd after) else Some ());
     Some (mm\<lparr>mmap_list := before @ vma # after, map_count := map_count mm + 1\<rparr>)
   }"

definition mm_destroy :: "mm_struct \<Rightarrow> unit option" where
  "mm_destroy mm = kassert (mm_users mm = 0)"

definition mm_map :: "bool \<Rightarrow> mm_struct \<Rightarrow> u64 \<Rightarrow> u64 \<Rightarrow> u32 \<Rightarrow> (int \<times> vma_struct option \<times> mm_struct) option" where
  "mm_map got mm addr len vflags =
     (let start = ROUNDDOWN addr PGSIZE; end = ROUNDUP (addr + len) PGSIZE in
      if \<not> USER_ACCESS start end then Some (- E_INVAL, None, mm)
      else
        let (vma, mm1) = find_vma mm start in
        if (case vma of Some v \<Rightarrow> end > vm_start v | None \<Rightarrow> False) then Some (- E_INVAL, None, mm1)
        else case vma_create got start end vflags of
          None \<Rightarrow> Some (- E_NO_MEM, None, mm1)
        | Some v \<Rightarrow> do {
            mm2 \<leftarrow> insert_vma_struct mm1 v;
            Some (0, Some v, mm2)
          })"

text \<open>\<^verbatim>\<open>dup_mmap\<close> goes through the areas from the last to the first; \<open>got v\<close> is the outcome of the allocation of the
  copy of \<open>v\<close>. A copy that fails leaves what was done so far.\<close>

fun dup_vmas :: "(vma_struct \<Rightarrow> bool) \<Rightarrow> vma_struct list \<Rightarrow> mm_struct \<Rightarrow> nat \<Rightarrow> nat \<Rightarrow> kvm \<Rightarrow> (int \<times> mm_struct \<times> kvm) option" where
  "dup_vmas got [] mm to from s = Some (0, mm, s)"
| "dup_vmas got (v # vs) mm to from s =
     (case vma_create (got v) (vm_start v) (vm_end v) (vm_flags v) of
        None \<Rightarrow> Some (- E_NO_MEM, mm, s)
      | Some nv \<Rightarrow> do {
          mm1 \<leftarrow> insert_vma_struct mm nv;
          (ret, s1) \<leftarrow> copy_range to from (vm_start v) (vm_end v) False s;
          if ret \<noteq> 0 then Some (- E_NO_MEM, mm1, s1)
          else dup_vmas got vs mm1 to from s1
        })"

definition dup_mmap :: "(vma_struct \<Rightarrow> bool) \<Rightarrow> mm_struct \<Rightarrow> mm_struct \<Rightarrow> kvm \<Rightarrow> (int \<times> mm_struct \<times> kvm) option" where
  "dup_mmap got to from s = dup_vmas got (rev (mmap_list from)) to (the (mm_pgdir to)) (the (mm_pgdir from)) s"

fun exit_vmas :: "(u64 \<Rightarrow> u64 \<Rightarrow> kvm \<Rightarrow> kvm option) \<Rightarrow> vma_struct list \<Rightarrow> kvm \<Rightarrow> kvm option" where
  "exit_vmas f [] s = Some s"
| "exit_vmas f (v # vs) s = do {
     s1 \<leftarrow> f (vm_start v) (vm_end v) s;
     exit_vmas f vs s1
   }"

definition exit_mmap :: "mm_struct \<Rightarrow> kvm \<Rightarrow> kvm option" where
  "exit_mmap mm s = do {
     kassert (mm_users mm = 0);
     s1 \<leftarrow> exit_vmas (unmap_range (the (mm_pgdir mm))) (mmap_list mm) s;
     exit_vmas (exit_range (the (mm_pgdir mm))) (mmap_list mm) s1
   }"

section \<open>Access to user memory\<close>

lemma find_vma_in: "find_vma mm addr = (Some v, mm') \<Longrightarrow> in_vma addr v"
  by (auto simp: find_vma_def Let_def find_Some_iff split: option.splits if_splits)

lemma find_vma_grows: "find_vma mm addr = (Some v, mm') \<Longrightarrow> unat addr < unat (vm_end v)"
  by (drule find_vma_in) (simp add: in_vma_def word_less_nat_alt)

function mem_check_loop :: "mm_struct \<Rightarrow> u64 \<Rightarrow> u64 \<Rightarrow> bool \<Rightarrow> bool \<times> mm_struct" where
  "mem_check_loop mm start end wr =
     (if start < end then
        (case find_vma mm start of
           (None, mm1) \<Rightarrow> (False, mm1)
         | (Some vma, mm1) \<Rightarrow>
             if start < vm_start vma then (False, mm1)
             else if vm_flags vma AND (if wr then VM_WRITE else VM_READ) = 0 then (False, mm1)
             else if wr \<and> vm_flags vma AND VM_STACK \<noteq> 0 \<and> start < vm_start vma + PGSIZE then (False, mm1)
             else mem_check_loop mm1 (vm_end vma) end wr)
      else (True, mm))"
  by auto
termination
  by (relation "measure (\<lambda>(mm, start, end, wr). unat end - unat start)")
    (auto simp: word_less_nat_alt intro: diff_less_mono2 dest: find_vma_grows [OF sym])

declare mem_check_loop.simps [simp del]

definition user_mem_check :: "mm_struct option \<Rightarrow> u64 \<Rightarrow> u64 \<Rightarrow> bool \<Rightarrow> bool \<times> mm_struct option" where
  "user_mem_check mm addr len wr =
     (case mm of
        Some m \<Rightarrow>
          if \<not> USER_ACCESS addr (addr + len) then (False, mm)
          else let (ok, m1) = mem_check_loop m addr (addr + len) wr in (ok, Some m1)
      | None \<Rightarrow> (KERN_ACCESS addr (addr + len), mm))"

definition copy_from_user ::
  "mm_struct option \<Rightarrow> (nat \<Rightarrow> u8) \<Rightarrow> u64 \<Rightarrow> u64 \<Rightarrow> u64 \<Rightarrow> bool \<Rightarrow> bool \<times> (nat \<Rightarrow> u8) \<times> mm_struct option" where
  "copy_from_user mm mem dst src len writable =
     (let (ok, mm1) = user_mem_check mm src len writable in
      if \<not> ok then (False, mem, mm1)
      else (True, mem_write mem (unat dst) (mem_read mem (unat src) (unat len)), mm1))"

definition copy_to_user ::
  "mm_struct option \<Rightarrow> (nat \<Rightarrow> u8) \<Rightarrow> u64 \<Rightarrow> u64 \<Rightarrow> u64 \<Rightarrow> bool \<times> (nat \<Rightarrow> u8) \<times> mm_struct option" where
  "copy_to_user mm mem dst src len =
     (let (ok, mm1) = user_mem_check mm dst len True in
      if \<not> ok then (False, mem, mm1)
      else (True, mem_write mem (unat dst) (mem_read mem (unat src) (unat len)), mm1))"

text \<open>\<^verbatim>\<open>copy_string\<close>: the result is the flag and the memory; \<open>part\<close> is the number of bytes tried next.\<close>

definition strnlen :: "(nat \<Rightarrow> u8) \<Rightarrow> nat \<Rightarrow> nat \<Rightarrow> nat" where
  "strnlen mem a n = length (takeWhile (\<lambda>i. mem i \<noteq> 0) [a..<a + n])"

lemma user_mem_check_pos: "fst (user_mem_check mm addr len wr) \<Longrightarrow> 0 < len"
  by (auto simp: user_mem_check_def USER_ACCESS_def KERN_ACCESS_def word_neq_0_conv [symmetric]
      split: option.splits if_splits)

function copy_str_loop ::
  "mm_struct option \<Rightarrow> (nat \<Rightarrow> u8) \<Rightarrow> u64 \<Rightarrow> u64 \<Rightarrow> u64 \<Rightarrow> u64 \<Rightarrow> bool \<times> (nat \<Rightarrow> u8) \<times> mm_struct option" where
  "copy_str_loop mm mem dst src maxn part0 =
     (let part = (if part0 > maxn then maxn else part0);
          chk = user_mem_check mm src part False in
      if \<not> fst chk then (False, mem, snd chk)
      else
        let alen = strnlen mem (unat src) (unat part) in
        if alen < unat part then
          (True, mem_write mem (unat dst) (mem_read mem (unat src) (alen + 1)), snd chk)
        else if part = maxn then (False, mem, snd chk)
        else copy_str_loop (snd chk) (mem_write mem (unat dst) (mem_read mem (unat src) (unat part)))
               (dst + part) (src + part) (maxn - part) PGSIZE)"
  by auto
termination
proof (relation "measure (\<lambda>(mm, mem, dst, src, maxn, part). unat maxn)", goal_cases)
  case (2 mm mem dst src maxn part0 part chk alen)
  then have "0 < part" "part < maxn" using user_mem_check_pos by (blast, auto split: if_splits)
  then have "unat (maxn - part) < unat maxn" by (simp add: unat_sub word_less_nat_alt less_imp_le)
  then show ?case by simp
qed simp

declare copy_str_loop.simps [simp del]

definition copy_string ::
  "mm_struct option \<Rightarrow> (nat \<Rightarrow> u8) \<Rightarrow> u64 \<Rightarrow> u64 \<Rightarrow> u64 \<Rightarrow> bool \<times> (nat \<Rightarrow> u8) \<times> mm_struct option" where
  "copy_string mm mem dst src maxn = copy_str_loop mm mem dst src maxn (ROUNDDOWN (src + PGSIZE) PGSIZE - src)"

end
