(* ===== verification/LoadIcode.thy ===== *)
theory LoadIcode
  imports Vmm
begin

text \<open>
  Loading a program, \<^verbatim>\<open>load_icode\<close> of \<^verbatim>\<open>kern/process/proc.c\<close> with the ELF structures of \<^verbatim>\<open>libs/elf.h\<close>: the headers are
  read from the file, each segment gets an area and pages that are filled from the file and with zeros, and the user
  stack gets its area, four pages and the arguments. The two file calls that \<^verbatim>\<open>load_icode_read\<close> makes are parameters: \<open>seek\<close> is
  \<^verbatim>\<open>sysfile_seek\<close> of the descriptor to an absolute position, \<open>rd\<close> is \<^verbatim>\<open>sysfile_read\<close>, with the bytes it puts into the
  buffer as a further result. So are the outcomes of \<^verbatim>\<open>kmalloc\<close>; which of its blocks are in use is part of the state, and
  giving back a block that is not in use has no result.
\<close>

section \<open>Bytes of a frame\<close>

definition word_byte :: "u64 \<Rightarrow> nat \<Rightarrow> u8" where
  "word_byte w j = word_of_nat (unat w div 256 ^ j)"

definition frame_byte :: "(nat \<Rightarrow> u64) \<Rightarrow> nat \<Rightarrow> u8" where
  "frame_byte c i = word_byte (c (i div 8)) (i mod 8)"

definition frame_put :: "(nat \<Rightarrow> u64) \<Rightarrow> nat \<Rightarrow> u8 list \<Rightarrow> nat \<Rightarrow> u64" where
  "frame_put c k bs = (\<lambda>w. word_of_nat (of_le (map (\<lambda>j.
     let i = 8 * w + j in if k \<le> i \<and> i < k + length bs then bs ! (i - k) else frame_byte c i) [0..<8])))"

definition page_put :: "nat \<Rightarrow> nat \<Rightarrow> u8 list \<Rightarrow> kvm \<Rightarrow> kvm" where
  "page_put f k bs s = put_frame f (frame_put (kv_mem s f) k bs) s"

section \<open>ELF headers\<close>

record elfhdr =
  e_magic :: u32
  e_elf :: "u8 list"
  e_type :: u16
  e_machine :: u16
  e_version :: u32
  e_entry :: u64
  e_phoff :: u64
  e_shoff :: u64
  e_flags :: u32
  e_ehsize :: u16
  e_phentsize :: u16
  e_phnum :: u16
  e_shentsize :: u16
  e_shnum :: u16
  e_shstrndx :: u16

record proghdr =
  p_type :: u32
  p_flags :: u32
  p_offset :: u64
  p_va :: u64
  p_pa :: u64
  p_filesz :: u64
  p_memsz :: u64
  p_align :: u64

text \<open>The structures as they lie in the file, little endian and without padding between the fields.\<close>

definition le_field :: "nat \<Rightarrow> nat \<Rightarrow> u8 list \<Rightarrow> 'a::len word" where
  "le_field k n bs = word_of_nat (of_le (chunk k n bs))"

definition elfhdr_of :: "u8 list \<Rightarrow> elfhdr" where
  "elfhdr_of bs = \<lparr>e_magic = le_field 0 4 bs, e_elf = chunk 4 12 bs, e_type = le_field 16 2 bs, e_machine = le_field 18 2 bs,
     e_version = le_field 20 4 bs, e_entry = le_field 24 8 bs, e_phoff = le_field 32 8 bs, e_shoff = le_field 40 8 bs,
     e_flags = le_field 48 4 bs, e_ehsize = le_field 52 2 bs, e_phentsize = le_field 54 2 bs, e_phnum = le_field 56 2 bs,
     e_shentsize = le_field 58 2 bs, e_shnum = le_field 60 2 bs, e_shstrndx = le_field 62 2 bs\<rparr>"

definition proghdr_of :: "u8 list \<Rightarrow> proghdr" where
  "proghdr_of bs = \<lparr>p_type = le_field 0 4 bs, p_flags = le_field 4 4 bs, p_offset = le_field 8 8 bs, p_va = le_field 16 8 bs,
     p_pa = le_field 24 8 bs, p_filesz = le_field 32 8 bs, p_memsz = le_field 40 8 bs, p_align = le_field 48 8 bs\<rparr>"

definition proghdrs_of :: "nat \<Rightarrow> u8 list \<Rightarrow> proghdr list" where
  "proghdrs_of n bs = map (\<lambda>i. proghdr_of (chunk (56 * i) 56 bs)) [0..<n]"

abbreviation (input) ELF_MAGIC :: u32 where "ELF_MAGIC \<equiv> 0x464C457F"
abbreviation (input) VM_EXEC :: u32 where "VM_EXEC \<equiv> 0x4"
abbreviation (input) USTACKTOP :: u64 where "USTACKTOP \<equiv> 0x80000000"
abbreviation (input) USTACKSIZE :: u64 where "USTACKSIZE \<equiv> 0x100000"

section \<open>Reading from the file\<close>

type_synonym 'f seek_op = "int \<Rightarrow> 'f \<Rightarrow> (int \<times> 'f) option"
type_synonym 'f read_op = "nat \<Rightarrow> 'f \<Rightarrow> (int \<times> u8 list \<times> 'f) option"

definition load_icode_read :: "'f seek_op \<Rightarrow> 'f read_op \<Rightarrow> nat \<Rightarrow> u64 \<Rightarrow> 'f \<Rightarrow> (int \<times> u8 list \<times> 'f) option" where
  "load_icode_read seek rd len pos f = do {
     (ret, f1) \<leftarrow> seek (sint pos) f;
     if ret \<noteq> 0 then Some (ret, [], f1)
     else do {
       (ret, bs, f2) \<leftarrow> rd len f1;
       Some (if ret \<noteq> int len then (if ret < 0 then ret else -1) else 0, bs, f2)
     }
   }"

section \<open>A segment\<close>

text \<open>The loops leave with \<open>Inl ret\<close> for \<^verbatim>\<open>goto bad_cleanup_mmap\<close>, where \<open>ret\<close> is the value the variable has then.\<close>

record cursor =
  cu_start :: u64
  cu_la :: u64
  cu_page :: nat
  cu_ret :: int

partial_function (option) load_text ::
  "'f seek_op \<Rightarrow> 'f read_op \<Rightarrow> nat \<Rightarrow> u64 \<Rightarrow> u64 \<Rightarrow> cursor \<Rightarrow> u64 \<Rightarrow> kvm \<Rightarrow> 'f \<Rightarrow> ((int + cursor) \<times> kvm \<times> 'f) option" where
  "load_text seek rd pgdir perm end c bin_offset s f =
     (if cu_start c < end then do {
        (page, s1) \<leftarrow> pgdir_alloc_page pgdir (cu_la c) perm s;
        (case page of
           None \<Rightarrow> Some (Inl (cu_ret c), s1, f)
         | Some p \<Rightarrow> do {
             let k = cu_start c - cu_la c;
             let sz = (if end < cu_la c + PGSIZE then end - cu_start c else PGSIZE - k);
             (ret, bs, f1) \<leftarrow> load_icode_read seek rd (unat sz) bin_offset f;
             kva \<leftarrow> page2kva s1 p;
             let s2 = page_put kva (unat k) bs s1;
             if ret \<noteq> 0 then Some (Inl ret, s2, f1)
             else load_text seek rd pgdir perm end
               \<lparr>cu_start = cu_start c + sz, cu_la = cu_la c + PGSIZE, cu_page = p, cu_ret = ret\<rparr> (bin_offset + sz) s2 f1
           })
      } else Some (Inr c, s, f))"

partial_function (option) zero_pages ::
  "nat \<Rightarrow> u64 \<Rightarrow> u64 \<Rightarrow> int \<Rightarrow> u64 \<Rightarrow> u64 \<Rightarrow> kvm \<Rightarrow> (int option \<times> kvm) option" where
  "zero_pages pgdir perm end ret start la s =
     (if start < end then do {
        (page, s1) \<leftarrow> pgdir_alloc_page pgdir la perm s;
        (case page of
           None \<Rightarrow> Some (Some ret, s1)
         | Some p \<Rightarrow> do {
             let k = start - la;
             let la1 = la + PGSIZE;
             let sz = (if end < la1 then PGSIZE - k - (la1 - end) else PGSIZE - k);
             kva \<leftarrow> page2kva s1 p;
             zero_pages pgdir perm end ret (start + sz) la1 (page_put kva (unat k) (replicate (unat sz) 0) s1)
           })
      } else Some (None, s))"

text \<open>The part of the last page of the file's bytes that lies behind them; \<open>None\<close> as the result is \<^verbatim>\<open>continue\<close>.\<close>

definition zero_tail :: "u64 \<Rightarrow> cursor \<Rightarrow> kvm \<Rightarrow> (u64 option \<times> kvm) option" where
  "zero_tail end c s =
     (if cu_start c < cu_la c then
        if cu_start c = end then Some (None, s)
        else do {
          let k = cu_start c + PGSIZE - cu_la c;
          let sz = (if end < cu_la c then PGSIZE - k - (cu_la c - end) else PGSIZE - k);
          kva \<leftarrow> page2kva s (cu_page c);
          let s1 = page_put kva (unat k) (replicate (unat sz) 0) s;
          let start = cu_start c + sz;
          kassert ((end < cu_la c \<and> start = end) \<or> (end \<ge> cu_la c \<and> start = cu_la c));
          Some (Some start, s1)
        }
      else Some (Some (cu_start c), s))"

definition seg_flags :: "proghdr \<Rightarrow> u32" where
  "seg_flags ph = (if p_flags ph AND 1 \<noteq> 0 then VM_EXEC else 0) OR (if p_flags ph AND 2 \<noteq> 0 then VM_WRITE else 0)
     OR (if p_flags ph AND 4 \<noteq> 0 then VM_READ else 0)"

definition seg_perm :: "u32 \<Rightarrow> u64" where
  "seg_perm vflags = 0x11 OR (if vflags AND VM_READ \<noteq> 0 then 0x2 else 0) OR (if vflags AND VM_WRITE \<noteq> 0 then 0x6 else 0)
     OR (if vflags AND VM_EXEC \<noteq> 0 then 0x8 else 0)"

text \<open>\<open>load_segment\<close> is one round of the loop over the program headers; the result is the code of a \<^verbatim>\<open>goto bad_cleanup_mmap\<close>.
  \<open>got\<close> is the outcome of the allocation in \<^verbatim>\<open>mm_map\<close>.\<close>

definition load_segment ::
  "'f seek_op \<Rightarrow> 'f read_op \<Rightarrow> bool \<Rightarrow> proghdr \<Rightarrow> mm_struct \<Rightarrow> kvm \<Rightarrow> 'f \<Rightarrow> (int option \<times> mm_struct \<times> kvm \<times> 'f) option" where
  "load_segment seek rd got ph mm s f =
     (if p_type ph \<noteq> 1 then Some (None, mm, s, f)
      else if p_filesz ph > p_memsz ph then Some (Some (- E_INVAL_ELF), mm, s, f)
      else do {
        let vflags = seg_flags ph;
        let perm = seg_perm vflags;
        (ret, _, mm1) \<leftarrow> mm_map got mm (p_va ph) (p_memsz ph) vflags;
        if ret \<noteq> 0 then Some (Some ret, mm1, s, f)
        else do {
          pgdir \<leftarrow> mm_pgdir mm1;
          (r, s1, f1) \<leftarrow> load_text seek rd pgdir perm (p_va ph + p_filesz ph)
             \<lparr>cu_start = p_va ph, cu_la = ROUNDDOWN (p_va ph) PGSIZE, cu_page = 0, cu_ret = - E_NO_MEM\<rparr> (p_offset ph) s f;
          (case r of
             Inl ret \<Rightarrow> Some (Some ret, mm1, s1, f1)
           | Inr c \<Rightarrow> do {
               (start, s2) \<leftarrow> zero_tail (p_va ph + p_memsz ph) c s1;
               (case start of
                  None \<Rightarrow> Some (None, mm1, s2, f1)
                | Some start \<Rightarrow> do {
                    (r, s3) \<leftarrow> zero_pages pgdir perm (p_va ph + p_memsz ph) (cu_ret c) start (cu_la c) s2;
                    Some (r, mm1, s3, f1)
                  })
             })
        }
      })"

fun load_segments ::
  "'f seek_op \<Rightarrow> 'f read_op \<Rightarrow> (proghdr \<Rightarrow> bool) \<Rightarrow> proghdr list \<Rightarrow> mm_struct \<Rightarrow> kvm \<Rightarrow> 'f \<Rightarrow>
    (int option \<times> mm_struct \<times> kvm \<times> 'f) option" where
  "load_segments seek rd got [] mm s f = Some (None, mm, s, f)"
| "load_segments seek rd got (ph # phs) mm s f = do {
     (r, mm1, s1, f1) \<leftarrow> load_segment seek rd (got ph) ph mm s f;
     if r \<noteq> None then Some (r, mm1, s1, f1) else load_segments seek rd got phs mm1 s1 f1
   }"

section \<open>The stack and the arguments\<close>

fun stack_pages :: "nat \<Rightarrow> u64 list \<Rightarrow> kvm \<Rightarrow> kvm option" where
  "stack_pages pgdir [] s = Some s"
| "stack_pages pgdir (la # las) s = do {
     (page, s1) \<leftarrow> pgdir_alloc_page pgdir la PTE_USER s;
     kassert (page \<noteq> None);
     stack_pages pgdir las s1
   }"

definition stack_writable :: "nat \<Rightarrow> kvm \<Rightarrow> kvm option" where
  "stack_writable pgdir s = do {
     (ptep, s1) \<leftarrow> get_pte pgdir (USTACKTOP - PGSIZE) False s;
     p \<leftarrow> ptep;
     kassert (pte_at p s1 AND 0x4 \<noteq> 0);
     Some s1
   }"

text \<open>A store of the kernel to a user address, through the page table; without a mapping it faults, and the fault of the kernel
  has no result.\<close>

fun user_store :: "nat \<Rightarrow> u64 \<Rightarrow> u8 list \<Rightarrow> kvm \<Rightarrow> kvm option" where
  "user_store pgdir a [] s = Some s"
| "user_store pgdir a (b # bs) s = do {
     pte \<leftarrow> mapped s pgdir a;
     user_store pgdir (a + 1) bs (page_put (pte_frame pte) (unat (a AND 0xFFF)) [b] s)
   }"

definition put_user :: "u64 \<Rightarrow> u8 list \<Rightarrow> mm_struct \<Rightarrow> kvm \<Rightarrow> (bool \<times> mm_struct \<times> kvm) option" where
  "put_user dst bs mm s =
     (case user_mem_check (Some mm) dst (word_of_nat (length bs)) True of (ok, mm1) \<Rightarrow>
        if \<not> ok then Some (False, the mm1, s)
        else do {
          pgdir \<leftarrow> mm_pgdir mm;
          s1 \<leftarrow> user_store pgdir dst bs s;
          Some (True, the mm1, s1)
        })"

text \<open>The strings go onto the stack from the last to the first; the list of their addresses is the vector \<^verbatim>\<open>uargv\<close>. The first result is
  \<open>None\<close> when a copy is refused.\<close>

fun push_args :: "u8 list list \<Rightarrow> u64 \<Rightarrow> u64 list \<Rightarrow> mm_struct \<Rightarrow> kvm \<Rightarrow> ((u64 \<times> u64 list) option \<times> mm_struct \<times> kvm) option" where
  "push_args [] tp uargv mm s = Some (Some (tp, uargv), mm, s)"
| "push_args (arg # args) tp uargv mm s = do {
     let top1 = tp - word_of_nat (length arg + 1);
     (ok, mm1, s1) \<leftarrow> put_user top1 (arg @ [0]) mm s;
     if \<not> ok then Some (None, mm1, s1) else push_args args top1 (top1 # uargv) mm1 s1
   }"

definition push_argv :: "u8 list list \<Rightarrow> mm_struct \<Rightarrow> kvm \<Rightarrow> (u64 option \<times> mm_struct \<times> kvm) option" where
  "push_argv kargv mm s = do {
     (r, mm1, s1) \<leftarrow> push_args (rev kargv) USTACKTOP [] mm s;
     (case r of
        None \<Rightarrow> Some (None, mm1, s1)
      | Some (tp, uargv) \<Rightarrow> do {
          let top1 = ROUNDDOWN tp 8 - word_of_nat ((length kargv + 1) * 8);
          (ok, mm2, s2) \<leftarrow> put_user top1 (concat (map (\<lambda>a. le_bytes 8 (unat a)) (uargv @ [0]))) mm1 s1;
          Some (if ok then Some top1 else None, mm2, s2)
        })
   }"

section \<open>The address space of the program\<close>

definition setup_root :: "nat \<Rightarrow> mm_struct \<Rightarrow> kvm \<Rightarrow> (int \<times> mm_struct \<times> kvm) option" where
  "setup_root boot mm s = do {
     (page, s1) \<leftarrow> alloc_page s;
     (case page of
        None \<Rightarrow> Some (- E_NO_MEM, mm, s1)
      | Some p \<Rightarrow> do {
          pgdir \<leftarrow> page2kva s1 p;
          Some (0, mm\<lparr>mm_pgdir := Some pgdir\<rparr>, put_frame pgdir (kv_mem s1 boot) s1)
        })
   }"

definition put_root :: "mm_struct \<Rightarrow> kvm \<Rightarrow> kvm option" where
  "put_root mm s = do {
     pgdir \<leftarrow> mm_pgdir mm;
     kassert (pgdir < npage s \<and> nbase \<le> pgdir);
     free_page (pgdir - nbase) s
   }"

section \<open>load_icode\<close>

text \<open>The registers of the trap frame that the program sees; all others are zero.\<close>

record uframe =
  tf_sp :: u64
  tf_a0 :: u64
  tf_a1 :: u64
  tf_epc :: u64
  tf_status :: u64

record 'f loader =
  ld_kvm :: kvm
  ld_file :: 'f
  ld_blocks :: "nat set"
  ld_mm :: "mm_struct option"
  ld_root :: nat
  ld_tf :: uframe

record load_env =
  le_mm :: bool
  le_phdrs :: "nat option"
  le_vma :: "proghdr \<Rightarrow> bool"
  le_stack :: bool
  le_uargv :: "nat option"
  le_boot :: nat

text \<open>\<open>load_env\<close> is what the allocations give: of \<^verbatim>\<open>mm_create\<close>, of the block for the program headers, of the area of each segment, of
  the area of the stack and of the block for \<^verbatim>\<open>uargv\<close>; and the root of the boot directory. \<open>ld_blocks\<close> are the blocks of the heap
  that are in use.\<close>

definition ld_kfree :: "nat option \<Rightarrow> 'f loader \<Rightarrow> 'f loader option" where
  "ld_kfree b st =
     (case b of
        None \<Rightarrow> Some st
      | Some a \<Rightarrow> do {
          kassert (a \<in> ld_blocks st);
          Some (st\<lparr>ld_blocks := ld_blocks st - {a}\<rparr>)
        })"

definition ld_out :: "nat option \<Rightarrow> nat option \<Rightarrow> int \<Rightarrow> 'f loader \<Rightarrow> (int \<times> 'f loader) option" where
  "ld_out phdrs uargv ret st = do {
     st1 \<leftarrow> ld_kfree phdrs st;
     st2 \<leftarrow> ld_kfree uargv st1;
     Some (ret, st2)
   }"

definition bad_elf_cleanup_pgdir :: "nat option \<Rightarrow> mm_struct \<Rightarrow> int \<Rightarrow> 'f loader \<Rightarrow> (int \<times> 'f loader) option" where
  "bad_elf_cleanup_pgdir phdrs mm ret st = do {
     s \<leftarrow> put_root mm (ld_kvm st);
     mm_destroy mm;
     ld_out phdrs None ret (st\<lparr>ld_kvm := s\<rparr>)
   }"

definition bad_free_phdrs :: "nat option \<Rightarrow> mm_struct \<Rightarrow> int \<Rightarrow> 'f loader \<Rightarrow> (int \<times> 'f loader) option" where
  "bad_free_phdrs phdrs mm ret st = do {
     st1 \<leftarrow> ld_kfree phdrs st;
     bad_elf_cleanup_pgdir phdrs mm ret st1
   }"

definition bad_cleanup_mmap :: "nat option \<Rightarrow> mm_struct \<Rightarrow> int \<Rightarrow> 'f loader \<Rightarrow> (int \<times> 'f loader) option" where
  "bad_cleanup_mmap phdrs mm ret st = do {
     s \<leftarrow> exit_mmap mm (ld_kvm st);
     bad_elf_cleanup_pgdir phdrs mm ret (st\<lparr>ld_kvm := s\<rparr>)
   }"

definition bad_cleanup_user :: "load_env \<Rightarrow> nat option \<Rightarrow> nat option \<Rightarrow> mm_struct \<Rightarrow> int \<Rightarrow> 'f loader \<Rightarrow> (int \<times> 'f loader) option" where
  "bad_cleanup_user env phdrs uargv mm ret st = do {
     let mm1 = mm\<lparr>mm_users := mm_users mm - 1\<rparr>;
     let st1 = st\<lparr>ld_mm := None, ld_root := le_boot env\<rparr>;
     st2 \<leftarrow> (if mm_users mm1 = 0 then do {
               s \<leftarrow> exit_mmap mm1 (ld_kvm st1);
               s1 \<leftarrow> put_root mm1 s;
               mm_destroy mm1;
               Some (st1\<lparr>ld_kvm := s1\<rparr>)
             } else Some st1);
     ld_out phdrs uargv ret st2
   }"

definition user_frame :: "nat \<Rightarrow> u64 \<Rightarrow> u64 \<Rightarrow> u64 \<Rightarrow> uframe" where
  "user_frame argc tp entry status =
     \<lparr>tf_sp = ROUNDDOWN tp 16, tf_a0 = word_of_nat argc, tf_a1 = tp, tf_epc = entry,
      tf_status = (status AND NOT 0x102) OR 0x20 OR 0x40000\<rparr>"

text \<open>From the stack on; the parts before are \<open>load_icode\<close>.\<close>

definition load_stack ::
  "load_env \<Rightarrow> u8 list list \<Rightarrow> elfhdr \<Rightarrow> nat option \<Rightarrow> mm_struct \<Rightarrow> 'f loader \<Rightarrow> (int \<times> 'f loader) option" where
  "load_stack env kargv elf phdrs mm st = do {
     (ret, _, mm1) \<leftarrow> mm_map (le_stack env) mm (USTACKTOP - USTACKSIZE) USTACKSIZE (VM_READ OR VM_WRITE OR VM_STACK);
     if ret \<noteq> 0 then bad_cleanup_mmap phdrs mm1 ret st
     else do {
       pgdir \<leftarrow> mm_pgdir mm1;
       s1 \<leftarrow> stack_pages pgdir [USTACKTOP - PGSIZE, USTACKTOP - 2 * PGSIZE, USTACKTOP - 3 * PGSIZE, USTACKTOP - 4 * PGSIZE] (ld_kvm st);
       s2 \<leftarrow> stack_writable pgdir s1;
       let mm2 = mm1\<lparr>mm_users := mm_users mm1 + 1\<rparr>;
       let st1 = st\<lparr>ld_kvm := s2, ld_mm := Some mm2, ld_root := pgdir\<rparr>;
       if kargv = [] then
         ld_out phdrs None 0 (st1\<lparr>ld_tf := user_frame 0 USTACKTOP (e_entry elf) (tf_status (ld_tf st))\<rparr>)
       else
         (case le_uargv env of
            None \<Rightarrow> bad_cleanup_user env phdrs None mm2 (- E_NO_MEM) st1
          | Some u \<Rightarrow> do {
              let st2 = st1\<lparr>ld_blocks := insert u (ld_blocks st1)\<rparr>;
              (tp, mm3, s3) \<leftarrow> push_argv kargv mm2 (ld_kvm st2);
              let st3 = st2\<lparr>ld_kvm := s3, ld_mm := Some mm3\<rparr>;
              (case tp of
                 None \<Rightarrow> bad_cleanup_user env phdrs (Some u) mm3 (- E_INVAL) st3
               | Some tp \<Rightarrow>
                   ld_out phdrs (Some u) 0
                     (st3\<lparr>ld_tf := user_frame (length kargv) tp (e_entry elf) (tf_status (ld_tf st))\<rparr>))
            })
     }
   }"

definition load_icode ::
  "'f seek_op \<Rightarrow> 'f read_op \<Rightarrow> load_env \<Rightarrow> u8 list list \<Rightarrow> 'f loader \<Rightarrow> (int \<times> 'f loader) option" where
  "load_icode seek rd env kargv st = do {
     kassert (ld_mm st = None);
     (case mm_create (le_mm env) of
        None \<Rightarrow> ld_out None None (- E_NO_MEM) st
      | Some mm0 \<Rightarrow> do {
          (ret, mm, s) \<leftarrow> setup_root (le_boot env) mm0 (ld_kvm st);
          let st1 = st\<lparr>ld_kvm := s\<rparr>;
          if ret \<noteq> 0 then do { mm_destroy mm; ld_out None None (- E_NO_MEM) st1 }
          else do {
            (ret, bs, f) \<leftarrow> load_icode_read seek rd 64 0 (ld_file st1);
            let st2 = st1\<lparr>ld_file := f\<rparr>;
            let elf = elfhdr_of bs;
            if ret \<noteq> 0 then bad_elf_cleanup_pgdir None mm ret st2
            else
              (case le_phdrs env of
                 None \<Rightarrow> bad_elf_cleanup_pgdir None mm (- E_NO_MEM) st2
               | Some ph \<Rightarrow> do {
                   let st3 = st2\<lparr>ld_blocks := insert ph (ld_blocks st2)\<rparr>;
                   (ret, pbs, f) \<leftarrow> load_icode_read seek rd (56 * unat (e_phnum elf)) (e_phoff elf) (ld_file st3);
                   let st4 = st3\<lparr>ld_file := f\<rparr>;
                   if ret \<noteq> 0 then bad_free_phdrs (Some ph) mm ret st4
                   else if e_magic elf \<noteq> ELF_MAGIC then bad_free_phdrs (Some ph) mm (- E_INVAL_ELF) st4
                   else do {
                     (r, mm1, s1, f) \<leftarrow> load_segments seek rd (le_vma env) (proghdrs_of (unat (e_phnum elf)) pbs) mm (ld_kvm st4) (ld_file st4);
                     let st5 = st4\<lparr>ld_kvm := s1, ld_file := f\<rparr>;
                     (case r of
                        Some ret \<Rightarrow> bad_cleanup_mmap (Some ph) mm1 ret st5
                      | None \<Rightarrow> load_stack env kargv elf (Some ph) mm1 st5)
                   }
                 })
          }
        })
   }"

end
