(* ===== verification/LoadMap.thy ===== *)
theory LoadMap
  imports LoadIcode
begin

text \<open>
  Mapping fresh pages: \<^verbatim>\<open>pgdir_alloc_page\<close> at an address that has no mapping needs no page in reserve, takes a free page,
  changes no other mapping and no page that is mapped; and the bytes of an address space as a program sees them.
\<close>

section \<open>Bytes of a word and of a frame\<close>

lemma nth_le_bytes: "j < k \<Longrightarrow> le_bytes k n ! j = word_of_nat (n div 256 ^ j)"
  by (induction k n arbitrary: j rule: le_bytes.induct) (auto simp: nth_Cons div_mult2_eq split: nat.split)

lemma word_byte_of_le:
  assumes "length bs = 8" "j < 8"
  shows "word_byte (word_of_nat (of_le bs)) j = bs ! j"
proof -
  have "of_le bs < 256 ^ 8" using of_le_less [of bs] assms(1) by simp
  then have "unat (word_of_nat (of_le bs) :: u64) = of_le bs" by (simp add: unat_of_nat)
  then have "word_byte (word_of_nat (of_le bs)) j = le_bytes 8 (of_le bs) ! j"
    using nth_le_bytes [OF assms(2), of "of_le bs"] by (simp add: word_byte_def)
  then show ?thesis using le_bytes_of_le [of bs] assms(1) by simp
qed

lemma frame_byte_put:
  "frame_byte (frame_put c k bs) i = (if k \<le> i \<and> i < k + length bs then bs ! (i - k) else frame_byte c i)"
proof -
  let ?g = "\<lambda>i. if k \<le> i \<and> i < k + length bs then bs ! (i - k) else frame_byte c i"
  have "frame_byte (frame_put c k bs) i = word_byte (frame_put c k bs (i div 8)) (i mod 8)" by (rule frame_byte_def)
  also have "\<dots> = map (\<lambda>j. ?g (8 * (i div 8) + j)) [0..<8] ! (i mod 8)"
    unfolding frame_put_def Let_def by (rule word_byte_of_le) simp_all
  also have "\<dots> = ?g (8 * (i div 8) + i mod 8)" by (rule nth_map [THEN trans]) simp_all
  finally show ?thesis by simp
qed

lemma page_put_simps [simp]:
  "kv_mem (page_put f k bs s) = (kv_mem s)(f := frame_put (kv_mem s f) k bs)" "npage (page_put f k bs s) = npage s"
  "kv_pmm (page_put f k bs s) = kv_pmm s" "kv_sie (page_put f k bs s) = kv_sie s"
  by (simp_all add: page_put_def)

section \<open>Free pages have no references\<close>

definition refs_free :: "kvm \<Rightarrow> nat set \<Rightarrow> bool" where
  "refs_free s F \<longleftrightarrow> (\<forall>p \<in> F. page_ref p s = 0)"

lemma pmm_inv_unique: "pmm_inv s F \<Longrightarrow> pmm_inv s G \<Longrightarrow> F = G"
proof -
  assume "pmm_inv s F" "pmm_inv s G"
  then obtain xs ys where xs: "fl_wf s xs" "blocks s xs = F" and ys: "fl_wf s ys" "blocks s ys = G" by (auto simp: pmm_inv_def)
  then have "map Suc xs = map Suc ys" using dll_unique [of "links s" 0 "map Suc xs" "map Suc ys"] by (simp add: fl_wf_def)
  then have "xs = ys" by (simp add: inj_map_eq_map)
  then show "F = G" using xs ys by simp
qed

lemma take_block_ref: "ref (pages (take_block p n s) q) = ref (pages s q)"
  by (simp add: take_block_def Let_def upd_page_def SetPageProperty_def ClearPageProperty_def)

lemma alloc_page_ref:
  assumes "pmm_inv (kv_pmm s) F" "alloc_page s = Some (r, s')"
  shows "page_ref q s' = page_ref q s"
proof -
  obtain xs where xs: "fl_wf (kv_pmm s) xs" using assms(1) by (auto simp: pmm_inv_def)
  show ?thesis using assms(2) default_alloc_find [OF xs, of 1]
    by (auto simp: alloc_page_def alloc_pages_def default_pmm_manager_def page_ref_def take_block_ref split: option.splits prod.splits)
qed

lemma get_table_refs:
  assumes i: "kvm_ok s F" and rf: "refs_free s F" and g: "get_table d k c s = Some (res, s')" and i': "kvm_ok s' F'"
  shows "refs_free s' F'"
proof -
  have same: "refs_free s F'" if "s' = s" using pmm_inv_unique [of "kv_pmm s" F F'] i i' rf that by (auto simp: kvm_ok_def)
  show ?thesis
  proof (cases "\<not> pte_valid (kv_mem s d k) \<and> c")
    case False
    then have "s' = s" using g by (auto simp: get_table_def bind_Some_conv split: if_splits)
    then show ?thesis using same by simp
  next
    case True
    from alloc_page_ok [of s F] i have "alloc_page s = Some (None, s) \<or> (\<exists>p s1. alloc_page s = Some (Some p, s1) \<and> p \<in> F \<and>
        pmm_inv (kv_pmm s1) (F - {p}))" by (auto simp: kvm_ok_def)
    then show ?thesis
    proof
      assume "alloc_page s = Some (None, s)"
      then have "s' = s" using g True by (simp add: get_table_def)
      then show ?thesis using same by simp
    next
      assume "\<exists>p s1. alloc_page s = Some (Some p, s1) \<and> p \<in> F \<and> pmm_inv (kv_pmm s1) (F - {p})"
      then obtain p s1 where p: "alloc_page s = Some (Some p, s1)" "pmm_inv (kv_pmm s1) (F - {p})" by blast
      have pm: "kv_pmm s' = kv_pmm (set_page_ref p 1 s1)"
        using g True p(1) by (auto simp: get_table_def bind_Some_conv Let_def)
      then have "pmm_inv (kv_pmm s') (F - {p})" using p(2) by simp
      then have F': "F' = F - {p}" using i' pmm_inv_unique unfolding kvm_ok_def by blast
      have "page_ref q s' = page_ref q s" if "q \<noteq> p" for q
      proof -
        have "page_ref q s' = page_ref q (set_page_ref p 1 s1)" using pm by (simp add: page_ref_def)
        also have "\<dots> = page_ref q s1" using that by (simp add: page_ref_set)
        also have "\<dots> = page_ref q s" using alloc_page_ref p(1) i unfolding kvm_ok_def by blast
        finally show ?thesis .
      qed
      then show ?thesis using rf F' by (simp add: refs_free_def)
    qed
  qed
qed

lemma get_pte_refs:
  assumes ok: "kvm_ok s F" "pt_ok s F r" and rf: "refs_free s F" and g: "get_pte r la c s = Some (res, s')" and i': "kvm_ok s' F'"
  shows "refs_free s' F'"
proof -
  have p: "is_path ([] @ [PDX1 la])" "is_path ([PDX1 la] @ [PDX0 la])" by (simp_all add: is_path_def)
  obtain d s1 F1 where d: "get_table r (PDX1 la) c s = Some (d, s1)" "kvm_ok s1 F1" "pt_ok s1 F1 r" "d = tab (kv_mem s1) r [PDX1 la]"
    using get_table_ok [OF ok p(1), of r c] by auto
  have rf1: "refs_free s1 F1" by (rule get_table_refs [OF ok(1) rf d(1,2)])
  show ?thesis
  proof (cases d)
    case None
    then have "s' = s1" using g d(1) by (simp add: get_pte_def)
    then show ?thesis using rf1 pmm_inv_unique [of "kv_pmm s1" F1 F'] d(2) i' by (auto simp: kvm_ok_def)
  next
    case (Some f)
    then obtain t where "get_table f (PDX0 la) c s1 = Some (t, s')" using g d(1) by (auto simp: get_pte_def bind_Some_conv)
    then show ?thesis using get_table_refs [OF d(2) rf1 _ i'] by blast
  qed
qed

lemma free_finite: "kvm_ok s F \<Longrightarrow> finite F"
  by (rule finite_subset [of _ "{..<npage s}"]) (auto simp: kvm_ok_def)

lemma card_insert_le: "finite B \<Longrightarrow> A \<subseteq> insert q B \<Longrightarrow> card A \<le> card B + 1"
  by (rule order_trans [OF card_mono]) (auto simp: card_insert_if)

lemma get_pte_uses:
  assumes ok: "kvm_ok s F" "pt_ok s F r" and g: "get_pte r la True s = Some (res, s')" and i': "kvm_ok s' F'"
  shows "card F \<le> card F' + 2"
proof -
  have p: "is_path ([] @ [PDX1 la])" "is_path ([PDX1 la] @ [PDX0 la])" by (simp_all add: is_path_def)
  obtain d s1 F1 q where d: "get_table r (PDX1 la) True s = Some (d, s1)" "kvm_ok s1 F1" "pt_ok s1 F1 r" "d = tab (kv_mem s1) r [PDX1 la]"
    "F \<subseteq> insert q F1" using get_table_ok [OF ok p(1), of r True] by auto
  have c1: "card F \<le> card F1 + 1" by (rule card_insert_le [OF free_finite [OF d(2)] d(5)])
  show ?thesis
  proof (cases d)
    case None
    then have "s' = s1" using g d(1) by (simp add: get_pte_def)
    then have "F' = F1" using pmm_inv_unique [of "kv_pmm s1" F1 F'] d(2) i' by (simp add: kvm_ok_def)
    then show ?thesis using c1 by simp
  next
    case (Some f)
    then have tf: "tab (kv_mem s1) r [PDX1 la] = Some f" using d(4) by simp
    obtain t where t: "get_table f (PDX0 la) True s1 = Some (t, s')" using g d(1) Some by (auto simp: get_pte_def bind_Some_conv)
    obtain F2 q2 where e: "kvm_ok s' F2" "F1 \<subseteq> insert q2 F2" using get_table_ok [OF d(2,3) p(2) tf, of True] t by auto
    have "F2 = F'" using pmm_inv_unique [of "kv_pmm s'" F2 F'] e(1) i' by (simp add: kvm_ok_def)
    then show ?thesis using c1 card_insert_le [OF free_finite [OF e(1)] e(2)] by simp
  qed
qed

section \<open>Mapping a fresh page\<close>

definition keeps_frames :: "nat \<Rightarrow> kvm \<Rightarrow> nat set \<Rightarrow> kvm \<Rightarrow> bool" where
  "keeps_frames r s F s' \<longleftrightarrow> npage s' = npage s \<and> tables (kv_mem s') r \<subseteq> tables (kv_mem s) r \<union> (\<lambda>p. p + nbase) ` F \<and>
     (\<forall>f. f \<notin> tables (kv_mem s) r \<longrightarrow> (\<forall>q \<in> F. f \<noteq> q + nbase) \<longrightarrow> kv_mem s' f = kv_mem s f)"

lemma page_insert_fresh:
  assumes ok: "space_ok s F r" and rf: "refs_free s F" and p: "mappable s F r p" and r0: "page_ref p s = 0"
    and perm: "perm < 2 ^ 10" and n: "mapped s r la = None"
  shows "\<exists>ret s' F'. page_insert r p la perm s = Some (ret, s') \<and> space_ok s' F' r \<and> F' \<subseteq> F \<and> refs_free s' F' \<and>
    keeps_frames r s F s' \<and> card F \<le> card F' + 2 \<and> pages (kv_pmm s') p = (pages (kv_pmm s) p)\<lparr>ref := (if ret = 0 then 1 else 0)\<rparr> \<and>
    (ret = 0 \<and> (\<forall>w. is_vpn w \<longrightarrow> leaf s' r w = (if w = vpn la then Some (entry_for p perm) else leaf s r w))
     \<or> ret = - E_NO_MEM \<and> F' = {} \<and> (\<exists>q. F \<subseteq> {q}) \<and> (\<forall>w. is_vpn w \<longrightarrow> leaf s' r w = leaf s r w) \<and>
         p + nbase \<notin> tables (kv_mem s') r)"
proof -
  have l: "leaves_ok s F r" and pt: "pt_ok s F r" "kvm_ok s F" using ok by (simp_all add: space_ok_def)
  have v: "is_vpn (PDX1 la, PDX0 la, PTX la)" using is_vpn_vpn [of la] by (simp add: vpn_def)
  obtain res s1 F1 where g: "get_pte r la True s = Some (map_option (\<lambda>t. (t, PTX la)) res, s1)" "kvm_ok s1 F1" "pt_ok s1 F1 r"
    "grow_step r s F s1 F1" "res = tab (kv_mem s1) r [PDX1 la, PDX0 la]" "res = None \<longrightarrow> F1 = {} \<and> (\<exists>q. F \<subseteq> {q})"
    using get_pte_ok [OF pt(2,1), of la True, simplified simp_thms] by (elim exE conjE) (rule that, assumption+)
  note G = g(4) [unfolded grow_step_def]
  have rf1: "refs_free s1 F1" by (rule get_pte_refs [OF pt(2,1) rf g(1,2)])
  have s1: "space_ok s1 F1 r" using g(2,3) grow_leaves [OF l g(4)] by (simp add: space_ok_def)
  have lf: "leaf s1 r w = leaf s r w" if "is_vpn w" for w using G that by blast
  have kf: "keeps_frames r s F s1" using G by (simp add: keeps_frames_def)
  have cf: "card F \<le> card F1 + 2" by (rule get_pte_uses [OF pt(2,1) g(1,2)])
  have pF: "p \<notin> F" using p by (simp add: mappable_def)
  have pg: "pages (kv_pmm s1) p = pages (kv_pmm s) p" using G pF by blast
  have rp: "page_ref p s1 = 0" using page_ref_pages [OF pg] r0 by simp
  have pg0: "(pages (kv_pmm s) p)\<lparr>ref := 0\<rparr> = pages (kv_pmm s) p" using r0 by (simp add: page_ref_def)
  have pt1: "p + nbase \<notin> tables (kv_mem s1) r"
  proof
    assume "p + nbase \<in> tables (kv_mem s1) r"
    then have pt1: "p + nbase \<in> tables (kv_mem s) r \<union> (\<lambda>p. p + nbase) ` F" using G by blast
    then show False using p by (auto simp: mappable_def)
  qed
  show ?thesis
  proof (cases res)
    case None
    then have "page_insert r p la perm s = Some (- E_NO_MEM, s1)" using g(1) by (simp add: page_insert_def)
    then show ?thesis using s1 lf rf1 kf cf pg pg0 pt1 g(6) None G by (intro exI [of _ "- E_NO_MEM"] exI [of _ s1] exI [of _ F1]) simp
  next
    case (Some f)
    have n1: "leaf s1 r (PDX1 la, PDX0 la, PTX la) = None" using lf [OF v] n by (simp add: mapped_def vpn_def)
    have t1: "tab (kv_mem s1) r [PDX1 la, PDX0 la] = Some f" using g(5) Some by (simp only: option.inject)
    have "\<not> pte_valid (kv_mem s1 f (PTX la))" using n1 t1 unfolding leaf_def prod.case t1 option.case by (simp split: if_splits)
    then have eq: "page_insert r p la perm s = Some (0, put_entry (f, PTX la) (entry_for p perm) (page_ref_inc p s1))"
      using g(1) Some by (simp add: page_insert_def pte_at_def page_ref_inc_def)
    let ?s' = "put_entry (f, PTX la) (entry_for p perm) (page_ref_inc p s1)"
    have m1: "mappable s1 F1 r p" using p G pt1 releasable_pages [OF pg] by (auto simp: mappable_def)
    have "0 \<le> page_ref p s1" using rp by simp
    note P = insert_fresh [OF s1 v t1 m1 n1 this perm]
    have lfs: "leaf ?s' r w = (if w = vpn la then Some (entry_for p perm) else leaf s r w)" if "is_vpn w" for w
      using P(2) [OF that] lf [OF that] unfolding vpn_def by simp
    have "f \<in> tables (kv_mem s1) r" unfolding tables_def
      by (intro CollectI exI [of _ "[PDX1 la, PDX0 la]"] conjI t1) (simp add: is_path_def)
    then have ft: "f \<in> tables (kv_mem s) r \<union> (\<lambda>p. p + nbase) ` F" using G by blast
    have "kv_mem ?s' h = kv_mem s h" if "h \<notin> tables (kv_mem s) r" "\<forall>q \<in> F. h \<noteq> q + nbase" for h
    proof -
      have "h \<noteq> f" using ft that by auto
      then show ?thesis using kf that by (simp add: keeps_frames_def page_ref_inc_def)
    qed
    moreover have "tables (kv_mem ?s') r = tables (kv_mem s1) r" using P(3) by (auto simp: tables_def)
    ultimately have kf': "keeps_frames r s F ?s'" using kf by (simp add: keeps_frames_def page_ref_inc_def)
    have "page_ref q ?s' = page_ref q s1" if "q \<noteq> p" for q using that by (simp add: page_ref_put page_ref_inc_def page_ref_set)
    moreover have "p \<notin> F1" using pF G by blast
    ultimately have "refs_free ?s' F1" using rf1 unfolding refs_free_def by metis
    moreover have "pages (kv_pmm ?s') p = (pages (kv_pmm s) p)\<lparr>ref := 1\<rparr>"
      using pg rp by (simp add: page_ref_inc_def set_page_ref_def upd_page_def)
    moreover have "F1 \<subseteq> F" using G by blast
    ultimately show ?thesis using eq P(1) lfs kf' cf by (intro exI [of _ 0] exI [of _ ?s'] exI [of _ F1]) simp
  qed
qed

lemma pra_space:
  assumes "space_ok s F r"
  shows "space_ok (s\<lparr>kv_pmm := upd_page p (\<lambda>q. q\<lparr>pra_vaddr := la\<rparr>) (kv_pmm s)\<rparr>) F r"
    and "leaf (s\<lparr>kv_pmm := upd_page p (\<lambda>q. q\<lparr>pra_vaddr := la\<rparr>) (kv_pmm s)\<rparr>) r w = leaf s r w"
    and "page_ref q (s\<lparr>kv_pmm := upd_page p (\<lambda>q. q\<lparr>pra_vaddr := la\<rparr>) (kv_pmm s)\<rparr>) = page_ref q s"
proof -
  let ?s = "s\<lparr>kv_pmm := upd_page p (\<lambda>q. q\<lparr>pra_vaddr := la\<rparr>) (kv_pmm s)\<rparr>"
  have m: "kv_mem ?s = kv_mem s" by simp
  have lf: "leaf ?s r w = leaf s r w" for w unfolding leaf_def m ..
  then show "leaf ?s r w = leaf s r w" .
  have rf: "page_ref q ?s = page_ref q s" for q by (simp add: page_ref_def upd_page_def)
  then show "page_ref q ?s = page_ref q s" .
  have rel: "releasable q 1 (kv_pmm ?s) = releasable q 1 (kv_pmm s)" for q
    by (simp add: releasable_def upd_page_def PageReserved_def PageProperty_def)
  have "pmm_inv (kv_pmm ?s) F" if "pmm_inv (kv_pmm s) F" by (rule pmm_inv_cong [OF that]) (simp_all add: upd_page_def)
  moreover have "maps ?s r q = maps s r q" for q using lf by (simp add: maps_def)
  ultimately show "space_ok ?s F r" using assms by (simp add: space_ok_def kvm_ok_def pt_ok_def leaves_ok_def lf rf rel [simplified])
qed

lemma alloc_grow:
  assumes ok: "space_ok s F r" and rf: "refs_free s F"
  shows "F = {} \<and> alloc_page s = Some (None, s) \<or>
    (\<exists>p s'. alloc_page s = Some (Some p, s') \<and> p \<in> F \<and> space_ok s' (F - {p}) r \<and> refs_free s' (F - {p}) \<and>
       kv_mem s' = kv_mem s \<and> npage s' = npage s \<and> mappable s' (F - {p}) r p \<and> page_ref p s' = 0)"
proof -
  have i: "pmm_inv (kv_pmm s) F" "\<forall>p \<in> F. p + nbase < npage s" "npage s \<le> 2 ^ 44" and pt: "pt_ok s F r" and l: "leaves_ok s F r"
    using ok by (simp_all add: space_ok_def kvm_ok_def)
  from alloc_page_ok [OF i(1)] show ?thesis
  proof (elim disjE exE conjE)
    fix p s' assume a: "alloc_page s = Some (Some p, s')" "p \<in> F" "pmm_inv (kv_pmm s') (F - {p})" "only_pmm s s'"
      "releasable p 1 (kv_pmm s')" "\<forall>q. q \<notin> F \<longrightarrow> pages (kv_pmm s') q = pages (kv_pmm s) q"
    note S = only_pmm_simps [OF a(4)]
    have m: "kv_mem s' = kv_mem s" using S by blast
    have "leaf s' r w = leaf s r w" for w unfolding leaf_def m ..
    then have "grow_step r s F s' (F - {p})" using S a(6) by (auto simp: grow_step_def)
    then have "leaves_ok s' (F - {p}) r" by (rule grow_leaves [OF l])
    moreover have "pt_ok s' (F - {p}) r" using pt S by (simp add: pt_ok_def)
    moreover have "kvm_ok s' (F - {p})" using a(3) i S by (simp add: kvm_ok_def)
    ultimately have "space_ok s' (F - {p}) r" by (simp add: space_ok_def)
    moreover have r: "page_ref q s' = page_ref q s" for q by (rule alloc_page_ref [OF i(1) a(1)])
    moreover have "p + nbase \<notin> tables (kv_mem s) r" using pt a(2) by (auto simp: pt_ok_def)
    then have "mappable s' (F - {p}) r p" using a(2,5) i(2) S by (simp add: mappable_def)
    ultimately show ?thesis using a(1,2) rf S by (intro disjI2 exI [of _ p] exI [of _ s']) (simp add: refs_free_def)
  qed simp
qed

lemma default_free_ref:
  assumes "default_free_pages p 1 s = Some s'"
  shows "ref (pages s' q) = (if q = p then 0 else ref (pages s q))"
proof -
  have n: "ref (pages (merge_next b x) q) = ref (pages x q)" for b and x :: "'a pmm_scheme"
    by (simp add: merge_next_def absorb_def Let_def upd_page_def ClearPageProperty_def)
  have m: "ref (pages (snd (merge_prev b x)) q) = ref (pages x q)" for b and x :: "'a pmm_scheme"
    by (simp add: merge_prev_def absorb_def Let_def upd_page_def ClearPageProperty_def)
  obtain L where "s' = (case merge_prev p ((upd_page p (\<lambda>p. SetPageProperty (p\<lparr>property := 1\<rparr>))
      (s\<lparr>pages := (pages s)(p := (pages s p)\<lparr>flags := 0, ref := 0\<rparr>)\<rparr>))\<lparr>nr_free := nr_free s + 1, links := L\<rparr>) of (b, x) \<Rightarrow> merge_next b x)"
    using assms by (auto simp: default_free_pages_def bind_Some_conv case_prod_beta Let_def)
  then show ?thesis using m n by (simp add: case_prod_beta SetPageProperty_def)
qed

text \<open>The page that is given back when a table could not be allocated is the only free one then.\<close>

lemma free_last:
  assumes ok: "space_ok s {} r" and p: "releasable p 1 (kv_pmm s)" "p + nbase < npage s" "p + nbase \<notin> tables (kv_mem s) r"
    and nm: "maps s r p = {}"
  shows "\<exists>s'. free_page p s = Some s' \<and> space_ok s' {p} r \<and> refs_free s' {p} \<and> kv_mem s' = kv_mem s \<and> npage s' = npage s"
proof -
  have i: "pmm_inv (kv_pmm s) {}" "npage s \<le> 2 ^ 44" and pt: "pt_ok s {} r" and l: "leaves_ok s {} r"
    using ok by (simp_all add: space_ok_def kvm_ok_def)
  obtain xs where xs: "fl_wf (kv_pmm s) xs" "blocks (kv_pmm s) xs = {}" using i by (auto simp: pmm_inv_def)
  then have nil: "xs = []" by (cases xs) (auto simp: fl_wf_def blocks_def)
  then have b: "below_last p (kv_pmm s)" using below_last_conv [OF xs(1)] by simp
  obtain flag sie where sv: "intr_save (kv_sie s) = (flag, sie)" by force
  then have rs: "intr_restore flag sie = kv_sie s" by simp
  have d: "{p..<p + 1} = {p}" by auto
  obtain m where m: "default_free_pages p 1 (kv_pmm s) = Some m" "pmm_inv m {p}"
    using default_free_law [OF i(1) _ _ p(1) b] d by auto
  let ?s = "s\<lparr>kv_pmm := m\<rparr>"
  have f: "free_page p s = Some ?s" using m(1) sv rs by (simp add: free_page_def free_pages_def default_pmm_manager_def)
  have pg: "pages m q = pages (kv_pmm s) q" if "q \<noteq> p" for q
    using default_free_frame [OF xs(1) _ _ _ p(1) _ _ m(1), of q] that nil by (simp add: blocks_def)
  have mem: "kv_mem ?s = kv_mem s" by simp
  have lf: "leaf ?s r w = leaf s r w" for w unfolding leaf_def mem ..
  have mp: "maps ?s r q = maps s r q" for q using lf by (simp add: maps_def)
  have "leaves_ok ?s {p} r" unfolding leaves_ok_def
  proof (intro conjI allI impI)
    fix v e assume "is_vpn v \<and> leaf ?s r v = Some e"
    then have v: "is_vpn v" "leaf s r v = Some e" using lf by simp_all
    note L = leaves_okD [OF l v]
    show "nbase \<le> pte_frame e" "pte_frame e < npage ?s" "pte_frame e \<notin> tables (kv_mem ?s) r" using L by simp_all
    have "pte_frame e \<noteq> p + nbase" using nm v unfolding maps_def by blast
    then have ne: "pte_frame e - nbase \<noteq> p" using L(1) by linarith
    then show "pte_frame e - nbase \<notin> {p}" by simp
    show "releasable (pte_frame e - nbase) 1 (kv_pmm ?s)" using L(5) releasable_pages [OF pg [OF ne]] by simp
  next
    fix q assume q: "maps ?s r q \<noteq> {}"
    then have "q \<noteq> p" using nm mp by auto
    then have "page_ref q ?s = page_ref q s" using pg by (simp add: page_ref_def)
    then show "int (card (maps ?s r q)) \<le> page_ref q ?s" using leaves_ok_ref [OF l, of q] q mp by simp
  qed
  moreover have "pt_ok ?s {p} r" using pt p(3) by (auto simp: pt_ok_def)
  moreover have "kvm_ok ?s {p}" using m(2) i(2) p(2) by (simp add: kvm_ok_def)
  ultimately have "space_ok ?s {p} r" by (simp add: space_ok_def)
  moreover have "refs_free ?s {p}" using default_free_ref [OF m(1)] by (simp add: refs_free_def page_ref_def)
  ultimately show ?thesis using f by (intro exI [of _ ?s]) simp
qed

lemma pgdir_alloc_page_fresh:
  assumes ok: "space_ok s F r" and rf: "refs_free s F" and perm: "perm < 2 ^ 10" and n: "mapped s r la = None"
  shows "\<exists>res s' F'. pgdir_alloc_page r la perm s = Some (res, s') \<and> space_ok s' F' r \<and> F' \<subseteq> F \<and> refs_free s' F' \<and>
    keeps_frames r s F s' \<and> card F \<le> card F' + 3 \<and>
    (case res of
       None \<Rightarrow> card F \<le> 2 \<and> (\<forall>w. is_vpn w \<longrightarrow> leaf s' r w = leaf s r w)
     | Some p \<Rightarrow> p \<in> F \<and> p \<notin> F' \<and> (\<forall>w. is_vpn w \<longrightarrow> leaf s' r w = (if w = vpn la then Some (entry_for p perm) else leaf s r w)))"
proof -
  from alloc_grow [OF ok rf] show ?thesis
  proof (elim disjE exE conjE)
    assume "F = {}" "alloc_page s = Some (None, s)"
    then show ?thesis using ok rf by (intro exI [of _ None] exI [of _ s] exI [of _ F]) (simp add: pgdir_alloc_page_def keeps_frames_def)
  next
    fix p s1 assume a: "alloc_page s = Some (Some p, s1)" "p \<in> F" "space_ok s1 (F - {p}) r" "refs_free s1 (F - {p})"
      "kv_mem s1 = kv_mem s" "npage s1 = npage s" "mappable s1 (F - {p}) r p" "page_ref p s1 = 0"
    have lf1: "leaf s1 r w = leaf s r w" for w unfolding leaf_def a(5) ..
    have n1: "mapped s1 r la = None" using n lf1 by (simp add: mapped_def)
    have kf1: "keeps_frames r s F s'" if "keeps_frames r s1 (F - {p}) s'" for s'
      using that a(5,6) by (auto simp: keeps_frames_def)
    have fin: "finite F" using ok by (auto simp: space_ok_def intro: free_finite)
    then have cF: "card F = card (F - {p}) + 1" using a(2) card.remove by fastforce
    from page_insert_fresh [OF a(3,4,7,8) perm n1] obtain ret s2 F2 where
      b: "page_insert r p la perm s1 = Some (ret, s2)" "space_ok s2 F2 r" "F2 \<subseteq> F - {p}" "refs_free s2 F2"
        "keeps_frames r s1 (F - {p}) s2" "card (F - {p}) \<le> card F2 + 2" "pages (kv_pmm s2) p = (pages (kv_pmm s1) p)\<lparr>ref := if ret = 0 then 1 else 0\<rparr>"
      and c: "ret = 0 \<and> (\<forall>w. is_vpn w \<longrightarrow> leaf s2 r w = (if w = vpn la then Some (entry_for p perm) else leaf s1 r w))
        \<or> ret = - E_NO_MEM \<and> F2 = {} \<and> (\<exists>q. F - {p} \<subseteq> {q}) \<and> (\<forall>w. is_vpn w \<longrightarrow> leaf s2 r w = leaf s1 r w) \<and>
          p + nbase \<notin> tables (kv_mem s2) r" by blast
    from c show ?thesis
    proof (elim disjE conjE)
      assume r: "ret = 0" "\<forall>w. is_vpn w \<longrightarrow> leaf s2 r w = (if w = vpn la then Some (entry_for p perm) else leaf s1 r w)"
      let ?s3 = "s2\<lparr>kv_pmm := upd_page p (\<lambda>q. q\<lparr>pra_vaddr := la\<rparr>) (kv_pmm s2)\<rparr>"
      note P = pra_space [OF b(2), where p = p and la = la]
      have "page_ref p s2 = 1" using b(7) r(1) by (simp add: page_ref_def)
      then have "pgdir_alloc_page r la perm s = Some (Some p, ?s3)"
        using a(1) b(1) r(1) P(3) by (simp add: pgdir_alloc_page_def Let_def)
      moreover have "refs_free ?s3 F2" using b(4) P(3) by (simp add: refs_free_def)
      moreover have "keeps_frames r s F ?s3" using kf1 [OF b(5)] by (simp add: keeps_frames_def)
      moreover have "card F \<le> card F2 + 3" using cF b(6) by linarith
      moreover have "F2 \<subseteq> F" "p \<notin> F2" using b(3) by auto
      moreover have "\<forall>w. is_vpn w \<longrightarrow> leaf ?s3 r w = (if w = vpn la then Some (entry_for p perm) else leaf s r w)"
        using r(2) lf1 unfolding P(2) by simp
      ultimately show ?thesis using P(1) a(2)
        by (intro exI [of _ "Some p"] exI [of _ ?s3] exI [of _ F2]) simp
    next
      assume "\<exists>q. F - {p} \<subseteq> {q}"
      then obtain q where q: "F - {p} \<subseteq> {q}" by blast
      assume r: "ret = - E_NO_MEM" "F2 = {}" "\<forall>w. is_vpn w \<longrightarrow> leaf s2 r w = leaf s1 r w"
        "p + nbase \<notin> tables (kv_mem s2) r"
      have ok2: "space_ok s2 {} r" using b(2) r(2) by simp
      have rel: "releasable p 1 (kv_pmm s2)" using a(7) b(7) by (simp add: mappable_def releasable_def PageReserved_def PageProperty_def)
      have "npage s2 = npage s1" using b(5) by (simp add: keeps_frames_def)
      then have np: "p + nbase < npage s2" using a(7) by (simp add: mappable_def)
      have "page_ref p s2 = 0" using b(7) r(1) by (simp add: page_ref_def)
      then have nm: "maps s2 r p = {}" using leaves_ok_ref [of s2 "{}" r p] ok2 finite_maps [of s2 r p] 
        by (auto simp: space_ok_def)
      obtain s3 where s3: "free_page p s2 = Some s3" "space_ok s3 {p} r" "refs_free s3 {p}" "kv_mem s3 = kv_mem s2" "npage s3 = npage s2"
        using free_last [OF ok2 rel np r(4) nm] by blast
      have "leaf s3 r w = leaf s2 r w" for w unfolding leaf_def s3(4) ..
      then have lf3: "\<forall>w. is_vpn w \<longrightarrow> leaf s3 r w = leaf s r w" using r(3) lf1 by simp
      have "pgdir_alloc_page r la perm s = Some (None, s3)" using a(1) b(1) r(1) s3(1) by (simp add: pgdir_alloc_page_def)
      moreover have "keeps_frames r s F s3" using kf1 [OF b(5)] s3(4,5) by (simp add: keeps_frames_def)
      moreover have "card F \<le> 2"
      proof -
        have "F \<subseteq> {p, q}" using q by blast
        then have "card F \<le> card {p, q}" by (rule card_mono [rotated]) simp
        also have "\<dots> \<le> 2" by (simp add: card_insert_if)
        finally show ?thesis .
      qed
      moreover have "card F \<le> card {p} + 3" using cF b(6) r(2) by simp
      moreover have "{p} \<subseteq> F" using a(2) by simp
      ultimately show ?thesis using s3(2,3) lf3 by (intro exI [of _ None] exI [of _ s3] exI [of _ "{p}"]) (simp del: card.insert card.empty)
    qed
  qed
qed

end
