(* ===== verification/LoadFill.thy ===== *)
theory LoadFill
  imports LoadMap
begin

text \<open>
  Filling fresh pages: the loops of \<^verbatim>\<open>load_icode\<close> that map the pages of a segment one after the other, put the bytes of the file
  into them and zeros behind. \<open>filled\<close> is what they have done at any time; its transitivity carries the induction.
\<close>

declare split_paired_All [simp del]

section \<open>The bytes of an address space\<close>

definition user_byte :: "kvm \<Rightarrow> nat \<Rightarrow> nat \<Rightarrow> u8 option" where
  "user_byte s r x = map_option (\<lambda>e. frame_byte (kv_mem s (pte_frame e)) (x mod 4096)) (leaf s r (vpn_of (x div 4096)))"

definition filled :: "nat \<Rightarrow> u64 \<Rightarrow> nat \<Rightarrow> nat \<Rightarrow> nat set \<Rightarrow> (nat \<Rightarrow> u8) \<Rightarrow> kvm \<Rightarrow> nat set \<Rightarrow> kvm \<Rightarrow> nat set \<Rightarrow> bool" where
  "filled r perm n n' X g s F s' F' \<longleftrightarrow>
     space_ok s' F' r \<and> refs_free s' F' \<and> F' \<subseteq> F \<and> card F' + (n' - n) \<le> card F \<and>
     keeps_frames r s F s' \<and>
     (\<forall>q \<in> {n..<n'}. \<exists>p \<in> F. leaf s' r (vpn_of q) = Some (entry_for p perm)) \<and>
     (\<forall>w. is_vpn w \<and> w \<notin> vpn_of ` {n..<n'} \<longrightarrow> leaf s' r w = leaf s r w) \<and>
     (\<forall>x \<in> X. user_byte s' r x = Some (g x))"

definition owns :: "kvm \<Rightarrow> nat \<Rightarrow> u64 \<Rightarrow> nat \<Rightarrow> nat \<Rightarrow> bool" where
  "owns s r perm q p \<longleftrightarrow> q < 2 ^ 27 \<and> p + nbase < npage s \<and> leaf s r (vpn_of q) = Some (entry_for p perm) \<and>
     (\<forall>w e. is_vpn w \<and> w \<noteq> vpn_of q \<and> leaf s r w = Some e \<longrightarrow> pte_frame e \<noteq> p + nbase)"

lemma entry_frame:
  assumes "p + nbase < 2 ^ 52" "perm < 2 ^ 10"
  shows "pte_frame (entry_for p perm) = p + nbase"
proof (rule pte_frame_page [OF assms(1)])
  fix n :: nat assume n: "10 \<le> n"
  have "unat perm < 2 ^ 10" using assms(2) by (simp add: word_less_nat_alt)
  then have "\<not> bit perm n" using n by (rule not_bit_above)
  moreover have "\<not> bit (1 :: u64) n" using n by (simp add: bit_1_iff)
  ultimately show "\<not> bit (PTE_V OR perm) n" by (simp add: bit_or_iff)
qed

lemma space_frames: "space_ok s F r \<Longrightarrow> npage s \<le> 2 ^ 44"
  by (simp add: space_ok_def kvm_ok_def)

lemma user_byte_cong:
  assumes "leaf s' r (vpn_of (x div 4096)) = leaf s r (vpn_of (x div 4096))"
    "\<And>e. leaf s r (vpn_of (x div 4096)) = Some e \<Longrightarrow> kv_mem s' (pte_frame e) = kv_mem s (pte_frame e)"
  shows "user_byte s' r x = user_byte s r x"
  using assms by (cases "leaf s r (vpn_of (x div 4096))") (simp_all add: user_byte_def)

lemma keeps_mapped:
  assumes "space_ok s F r" "keeps_frames r s F s'" "is_vpn w" "leaf s r w = Some e"
  shows "kv_mem s' (pte_frame e) = kv_mem s (pte_frame e)"
proof -
  have l: "leaves_ok s F r" using assms(1) by (simp add: space_ok_def)
  note L = leaves_okD [OF l assms(3,4)]
  have "pte_frame e \<noteq> q + nbase" if "q \<in> F" for q using L(3) that by auto
  then show ?thesis using assms(2) L by (simp add: keeps_frames_def)
qed

lemma keeps_bytes:
  assumes "space_ok s F r" "keeps_frames r s F s'" "leaf s' r (vpn_of (x div 4096)) = leaf s r (vpn_of (x div 4096))"
  shows "user_byte s' r x = user_byte s r x"
  using assms by (intro user_byte_cong keeps_mapped) simp_all

lemma keeps_frames_trans:
  assumes "keeps_frames r s F s1" "keeps_frames r s1 F1 s2" "F1 \<subseteq> F"
  shows "keeps_frames r s F s2"
proof -
  note A = assms(1) [unfolded keeps_frames_def] and B = assms(2) [unfolded keeps_frames_def]
  have "tables (kv_mem s2) r \<subseteq> tables (kv_mem s) r \<union> (\<lambda>p. p + nbase) ` F" using A B assms(3) by blast
  moreover have "kv_mem s2 f = kv_mem s f" if f: "f \<notin> tables (kv_mem s) r" "\<forall>q \<in> F. f \<noteq> q + nbase" for f
  proof -
    have "f \<notin> tables (kv_mem s1) r" using A f by blast
    moreover have "\<forall>q \<in> F1. f \<noteq> q + nbase" using f(2) assms(3) by blast
    ultimately show ?thesis using A B f by simp
  qed
  ultimately show ?thesis using A B by (simp add: keeps_frames_def)
qed

lemma filled_refl: "space_ok s F r \<Longrightarrow> refs_free s F \<Longrightarrow> filled r perm n n {} g s F s F"
  by (simp add: filled_def keeps_frames_def)

lemma filled_trans:
  assumes a: "filled r perm n n1 X1 g s F s1 F1" and b: "filled r perm n1 n2 X2 g s1 F1 s2 F2"
    and n: "n \<le> n1" "n1 \<le> n2" "n2 \<le> 2 ^ 27" and X: "\<forall>x \<in> X1. x div 4096 < n1" "X \<subseteq> X1 \<union> X2"
  shows "filled r perm n n2 X g s F s2 F2"
proof -
  note A = a [unfolded filled_def] and B = b [unfolded filled_def]
  have ok1: "space_ok s1 F1 r" and k: "keeps_frames r s F s1" "keeps_frames r s1 F1 s2" "F1 \<subseteq> F" using A B by blast+
  have d: "vpn_of q \<notin> vpn_of ` {n1..<n2}" if "q < n1" for q
  proof
    assume "vpn_of q \<in> vpn_of ` {n1..<n2}"
    then obtain m where m: "m \<in> {n1..<n2}" "vpn_of q = vpn_of m" by blast
    then have "q = m" using that n by (intro vpn_of_inject) auto
    then show False using m(1) that by simp
  qed
  have lf: "leaf s2 r (vpn_of q) = leaf s1 r (vpn_of q)" if "q < n1" for q using B d [OF that] is_vpn_of by blast
  have "\<exists>p \<in> F. leaf s2 r (vpn_of q) = Some (entry_for p perm)" if "q \<in> {n..<n2}" for q
  proof (cases "q < n1")
    case True
    then show ?thesis using A lf that by simp
  next
    case False
    then have "q \<in> {n1..<n2}" using that by simp
    then obtain p where "p \<in> F1" "leaf s2 r (vpn_of q) = Some (entry_for p perm)" using B by blast
    then show ?thesis using k(3) by blast
  qed
  moreover have "leaf s2 r w = leaf s r w" if "is_vpn w" "w \<notin> vpn_of ` {n..<n2}" for w
  proof -
    have "w \<notin> vpn_of ` {n..<n1}" "w \<notin> vpn_of ` {n1..<n2}" using that(2) n(1,2) by auto
    then show ?thesis using A B that(1) by simp
  qed
  moreover have "user_byte s2 r x = Some (g x)" if "x \<in> X" for x
  proof (cases "x \<in> X2")
    case True
    then show ?thesis using B by blast
  next
    case False
    then have x: "x \<in> X1" using X(2) that by blast
    then have "leaf s2 r (vpn_of (x div 4096)) = leaf s1 r (vpn_of (x div 4096))" using X(1) by (intro lf) blast
    then have "user_byte s2 r x = user_byte s1 r x" by (rule keeps_bytes [OF ok1 k(2)])
    then show ?thesis using A x by simp
  qed
  moreover have "card F2 + (n2 - n) \<le> card F" using A B n by linarith
  ultimately show ?thesis using B k(3) keeps_frames_trans [OF k] unfolding filled_def by blast
qed

section \<open>Putting bytes into a page\<close>

lemma page_put_space:
  assumes ok: "space_ok s F r" and f: "f \<notin> tables (kv_mem s) r"
  shows "space_ok (page_put f k bs s) F r" "is_vpn w \<Longrightarrow> leaf (page_put f k bs s) r w = leaf s r w"
    "tables (kv_mem (page_put f k bs s)) r = tables (kv_mem s) r" "page_ref p (page_put f k bs s) = page_ref p s"
proof -
  let ?s = "page_put f k bs s"
  have m: "kv_mem ?s g = kv_mem s g" if "g \<in> tables (kv_mem s) r" for g using that f by auto
  have tb: "tab (kv_mem ?s) r js = tab (kv_mem s) r js" if "is_path js" for js by (rule tab_frame [OF that m])
  show ts: "tables (kv_mem ?s) r = tables (kv_mem s) r" using tb by (auto simp: tables_def)
  have lf: "leaf ?s r v = leaf s r v" if v: "is_vpn v" for v
  proof -
    obtain i j l where ijl: "v = (i, j, l)" by (cases v)
    have ip: "is_path [i, j]" using is_vpn_path(1) v ijl by blast
    show ?thesis unfolding ijl
    proof (rule leaf_cong)
      show "tab (kv_mem ?s) r [i, j] = tab (kv_mem s) r [i, j]" by (rule tb [OF ip])
      fix t assume "tab (kv_mem s) r [i, j] = Some t"
      then have "t \<in> tables (kv_mem s) r" using ip unfolding tables_def by blast
      then show "kv_mem ?s t l = kv_mem s t l" by (simp add: m del: page_put_simps)
    qed
  qed
  then show "is_vpn w \<Longrightarrow> leaf ?s r w = leaf s r w" .
  have rf: "page_ref q ?s = page_ref q s" for q by (simp add: page_ref_def)
  then show "page_ref p ?s = page_ref p s" .
  have "maps ?s r q = maps s r q" for q using lf by (auto simp: maps_def)
  then have "leaves_ok ?s F r" using ok lf rf ts unfolding space_ok_def leaves_ok_def
    by (simp del: page_put_simps(1) cong: conj_cong)
  moreover have "pt_ok ?s F r" using ok tb unfolding space_ok_def pt_ok_def tree_ok_def ts by (simp cong: conj_cong)
  moreover have "kvm_ok ?s F" using ok by (simp add: space_ok_def kvm_ok_def)
  ultimately show "space_ok ?s F r" by (simp add: space_ok_def)
qed

lemma owns_frame: "owns s r perm q p \<Longrightarrow> space_ok s F r \<Longrightarrow> perm < 2 ^ 10 \<Longrightarrow> pte_frame (entry_for p perm) = p + nbase"
  using space_frames [of s F r] by (intro entry_frame) (auto simp: owns_def)

lemma owns_no_table:
  assumes "owns s r perm q p" "space_ok s F r" "perm < 2 ^ 10"
  shows "p + nbase \<notin> tables (kv_mem s) r"
  using leaves_okD(4) [of s F r "vpn_of q" "entry_for p perm"] owns_frame [OF assms] assms(1,2) by (simp add: owns_def space_ok_def)

lemma owns_byte:
  assumes "owns s r perm q p" "space_ok s F r" "perm < 2 ^ 10" "x div 4096 = q"
  shows "user_byte s r x = Some (frame_byte (kv_mem s (p + nbase)) (x mod 4096))"
  using owns_frame [OF assms(1-3)] assms(1,4) by (simp add: owns_def user_byte_def)

lemma owns_put:
  assumes o: "owns s r perm q p" and ok: "space_ok s F r" and perm: "perm < 2 ^ 10"
  shows "owns (page_put (p + nbase) k bs s) r perm q p"
    and "x < 4096 * 2 ^ 27 \<Longrightarrow> user_byte (page_put (p + nbase) k bs s) r x =
      (if x div 4096 = q \<and> k \<le> x mod 4096 \<and> x mod 4096 < k + length bs then Some (bs ! (x mod 4096 - k)) else user_byte s r x)"
proof -
  let ?s = "page_put (p + nbase) k bs s"
  note P = page_put_space [OF ok owns_no_table [OF o ok perm]]
  show o': "owns ?s r perm q p" using o P(2) unfolding owns_def by (simp cong: conj_cong)
  assume x: "x < 4096 * 2 ^ 27"
  show "user_byte ?s r x = (if x div 4096 = q \<and> k \<le> x mod 4096 \<and> x mod 4096 < k + length bs then Some (bs ! (x mod 4096 - k)) else user_byte s r x)"
  proof (cases "x div 4096 = q")
    case True
    then show ?thesis using owns_byte [OF o ok perm True] owns_byte [OF o' P(1) perm True] by (simp add: frame_byte_put)
  next
    case False
    have "x div 4096 < 2 ^ 27" using x by (intro less_mult_imp_div_less) simp
    then have ne: "vpn_of (x div 4096) \<noteq> vpn_of q" using False vpn_of_inject o by (auto simp: owns_def)
    have "user_byte ?s r x = user_byte s r x"
    proof (rule user_byte_cong)
      show "leaf ?s r (vpn_of (x div 4096)) = leaf s r (vpn_of (x div 4096))" by (rule P(2)) simp
      fix e assume "leaf s r (vpn_of (x div 4096)) = Some e"
      then have "pte_frame e \<noteq> p + nbase" using o ne unfolding owns_def by (metis is_vpn_of)
      then show "kv_mem ?s (pte_frame e) = kv_mem s (pte_frame e)" by simp
    qed
    then show ?thesis using False by simp
  qed
qed

lemma filled_put:
  assumes fl: "filled r perm n n' X g s F s' F'" and o: "owns s' r perm q p" and pF: "p \<in> F" and perm: "perm < 2 ^ 10"
    and q: "k + length bs \<le> 4096" "\<forall>i < length bs. g (4096 * q + k + i) = bs ! i"
    and X: "Y \<subseteq> X \<union> {4096 * q + k..<4096 * q + k + length bs}" "\<forall>x \<in> Y. x < 4096 * 2 ^ 27"
  shows "filled r perm n n' Y g s F (page_put (p + nbase) k bs s') F'" "owns (page_put (p + nbase) k bs s') r perm q p"
proof -
  let ?s = "page_put (p + nbase) k bs s'"
  note A = fl [unfolded filled_def]
  have ok: "space_ok s' F' r" using A by blast
  note P = page_put_space [OF ok owns_no_table [OF o ok perm]] and O = owns_put [OF o ok perm]
  show "owns ?s r perm q p" by (rule O(1))
  have "user_byte ?s r x = Some (g x)" if x: "x \<in> Y" for x
  proof -
    have "x < 4096 * 2 ^ 27" using X(2) x by blast
    note ub = O(2) [OF this, of k bs]
    show ?thesis
  proof (cases "x div 4096 = q \<and> k \<le> x mod 4096 \<and> x mod 4096 < k + length bs")
    case True
    then have e: "x = 4096 * q + k + (x mod 4096 - k)" by (metis le_add_diff_inverse add.assoc mult_div_mod_eq)
    have "x mod 4096 - k < length bs" using True by linarith
    then have "g x = bs ! (x mod 4096 - k)" using q(2) e by metis
    then show ?thesis using ub True by simp
  next
    case False
    have "x \<notin> {4096 * q + k..<4096 * q + k + length bs}"
    proof
      assume a: "x \<in> {4096 * q + k..<4096 * q + k + length bs}"
      then have "x div 4096 = q" using q(1) by (intro div_nat_eqI) simp_all
      then have "x = 4096 * q + x mod 4096" by (metis mult_div_mod_eq)
      then show False using a False \<open>x div 4096 = q\<close> by simp
    qed
    then have "x \<in> X" using X(1) x by blast
    then show ?thesis using ub False A by (simp only: if_False)
  qed
  qed
  moreover have "keeps_frames r s F ?s" using A pF P(3) by (auto simp: keeps_frames_def)
  moreover have "refs_free ?s F'" using A P(4) by (simp add: refs_free_def)
  ultimately show "filled r perm n n' Y g s F ?s F'" using A P(1,2) is_vpn_of unfolding filled_def by simp
qed

section \<open>A fresh page\<close>

lemma fresh_page:
  assumes ok: "space_ok s F r" and rf: "refs_free s F" and perm: "perm < 2 ^ 10" and q: "q < 2 ^ 27" and n: "leaf s r (vpn_of q) = None"
  shows "\<exists>res s' F'. pgdir_alloc_page r (page_va q) perm s = Some (res, s') \<and>
    (case res of
       None \<Rightarrow> card F \<le> 2 \<and> filled r perm q q {} g s F s' F'
     | Some p \<Rightarrow> p \<in> F \<and> page2kva s' p = Some (p + nbase) \<and> filled r perm q (q + 1) {} g s F s' F' \<and> card F \<le> card F' + 3 \<and>
         owns s' r perm q p)"
proof -
  have v: "vpn (page_va q) = vpn_of q" by (rule vpn_page_va [OF q])
  have m: "mapped s r (page_va q) = None" unfolding mapped_def v by (rule n)
  obtain res s' F' where a: "pgdir_alloc_page r (page_va q) perm s = Some (res, s')" "space_ok s' F' r" "F' \<subseteq> F" "refs_free s' F'"
    "keeps_frames r s F s'" "card F \<le> card F' + 3"
    and c: "case res of None \<Rightarrow> card F \<le> 2 \<and> (\<forall>w. is_vpn w \<longrightarrow> leaf s' r w = leaf s r w)
     | Some p \<Rightarrow> p \<in> F \<and> p \<notin> F' \<and> (\<forall>w. is_vpn w \<longrightarrow> leaf s' r w = (if w = vpn_of q then Some (entry_for p perm) else leaf s r w))"
    using pgdir_alloc_page_fresh [OF ok rf perm m] unfolding v by blast
  have fin: "finite F" using ok by (auto simp: space_ok_def intro: free_finite)
  have cF: "card F' \<le> card F" by (rule card_mono [OF fin a(3)])
  show ?thesis
  proof (cases res)
    case None
    then have "filled r perm q q {} g s F s' F'" using a cF c by (simp add: filled_def)
    then show ?thesis using a(1) c None by (intro exI [of _ None] exI [of _ s'] exI [of _ F']) simp
  next
    case (Some p)
    then have p: "p \<in> F" "p \<notin> F'" and lf: "\<And>w. is_vpn w \<Longrightarrow> leaf s' r w = (if w = vpn_of q then Some (entry_for p perm) else leaf s r w)"
      using c by simp_all
    have "F' \<subset> F" using a(3) p by blast
    then have "card F' < card F" by (rule psubset_card_mono [OF fin])
    then have f: "filled r perm q (q + 1) {} g s F s' F'" using a p lf by (auto simp: filled_def)
    have np: "p + nbase < npage s" "npage s' = npage s" "npage s \<le> 2 ^ 44" using ok p(1) a(5) by (simp_all add: space_ok_def kvm_ok_def keeps_frames_def)
    then have k: "page2kva s' p = Some (p + nbase)"
      using PPN_page2pa [of p] by (simp add: page2kva_def KADDR_def)
    have l: "leaves_ok s F r" using ok by (simp add: space_ok_def)
    have "pte_frame e \<noteq> p + nbase" if "is_vpn w" "w \<noteq> vpn_of q" "leaf s' r w = Some e" for w e
      using leaves_okD(3) [OF l that(1), of e] lf [OF that(1)] that p(1) by auto
    then have "owns s' r perm q p" using q np lf [of "vpn_of q"] unfolding owns_def by auto
    then show ?thesis using a(1,6) p(1) k f Some by (intro exI [of _ "Some p"] exI [of _ s'] exI [of _ F']) simp
  qed
qed

section \<open>The file\<close>

text \<open>The file holds the bytes \<open>d\<close> at every state of \<open>I\<close>: a seek within it and a read from there succeed, the read is short only
  at its end, and both lead to states of \<open>I\<close>.\<close>

definition holds_file :: "'f seek_op \<Rightarrow> 'f read_op \<Rightarrow> u8 list \<Rightarrow> ('f \<Rightarrow> bool) \<Rightarrow> bool" where
  "holds_file seek rd d I \<longleftrightarrow> length d < 2 ^ 31 \<and>
     (\<forall>f pos. I f \<and> pos \<le> length d \<longrightarrow>
        (\<exists>f1. seek (int pos) f = Some (0, f1) \<and>
           (\<forall>n. \<exists>f2. rd n f1 = Some (int (length (chunk pos n d)), chunk pos n d, f2) \<and> I f2)))"

lemma sint_small: "n < 2 ^ 63 \<Longrightarrow> sint (word_of_nat n :: u64) = int n"
  by (simp add: signed_of_nat signed_take_bit_int_eq_self)

lemma load_icode_read_ok:
  assumes "holds_file seek rd d I" "I f" "pos + n \<le> length d"
  shows "\<exists>f'. load_icode_read seek rd n (word_of_nat pos) f = Some (0, chunk pos n d, f') \<and> I f'"
proof -
  have l: "pos \<le> length d" "length d < 2 ^ 31" "length (chunk pos n d) = n" using assms(1,3) by (simp_all add: holds_file_def chunk_def)
  obtain f1 f2 where "seek (int pos) f = Some (0, f1)" "rd n f1 = Some (int (length (chunk pos n d)), chunk pos n d, f2)" "I f2"
    using assms(1,2) l(1) unfolding holds_file_def by meson
  then show ?thesis using l by (intro exI [of _ f2]) (simp add: load_icode_read_def sint_small)
qed

section \<open>Addresses of a round\<close>

lemma of_nat_less_64: "a < 2 ^ 64 \<Longrightarrow> b < 2 ^ 64 \<Longrightarrow> (word_of_nat a :: u64) < word_of_nat b \<longleftrightarrow> a < b"
  by (simp add: word_less_nat_alt unat_of_nat)

lemma round_addresses:
  assumes S: "S < E" "E \<le> 2 ^ 31" and n: "n = S div 4096" and z: "z = min E (4096 * (n + 1)) - S"
  shows "(word_of_nat S :: u64) < word_of_nat E"
    "unat ((word_of_nat S :: u64) - page_va n) = S mod 4096"
    "(if word_of_nat E < page_va n + PGSIZE then word_of_nat E - word_of_nat S else PGSIZE - (word_of_nat S - page_va n)) = (word_of_nat z :: u64)"
    "(if word_of_nat E < page_va n + PGSIZE then PGSIZE - (word_of_nat S - page_va n) - (page_va n + PGSIZE - word_of_nat E)
      else PGSIZE - (word_of_nat S - page_va n)) = (word_of_nat z :: u64)"
    "unat (word_of_nat z :: u64) = z" "0 < z" "S mod 4096 + z \<le> 4096" "4096 * n + S mod 4096 = S"
proof -
  have b: "4096 * n \<le> S" "S < 4096 * (n + 1)" "4096 * n + S mod 4096 = S" unfolding n by simp_all
  show "4096 * n + S mod 4096 = S" "S mod 4096 + z \<le> 4096" "0 < z" using b S(1) z by auto
  show "(word_of_nat S :: u64) < word_of_nat E" using of_nat_less_64 [of S E] S by simp
  have k: "(word_of_nat S :: u64) - page_va n = word_of_nat (S - 4096 * n)" using b(1) by (simp add: of_nat_diff)
  show "unat ((word_of_nat S :: u64) - page_va n) = S mod 4096"
  proof -
    have "S - 4096 * n = S mod 4096" using b(3) by linarith
    moreover have "S mod 4096 < 2 ^ 64" by (rule less_trans [OF mod_less_divisor]) simp_all
    ultimately show ?thesis unfolding k by (simp only: unat_of_nat take_bit_nat_eq_self mod_less len_num0 len_num1 len_bit0 len_bit1)
       (simp add: unat_of_nat)
  qed
  show "unat (word_of_nat z :: u64) = z" using z S by (simp add: unat_of_nat)
  have pg: "page_va n + PGSIZE = (word_of_nat (4096 * (n + 1)) :: u64)" by (simp add: algebra_simps)
  have lt: "(word_of_nat E :: u64) < word_of_nat (4096 * (n + 1)) \<longleftrightarrow> E < 4096 * (n + 1)"
    by (rule of_nat_less_64) (use S b in simp_all)
  have d: "(PGSIZE :: u64) - (word_of_nat S - page_va n) = word_of_nat (4096 * (n + 1) - S)"
    unfolding k using b by (simp add: of_nat_diff algebra_simps)
  have d2: "E < 4096 * (n + 1) \<Longrightarrow> (word_of_nat (4096 * (n + 1) - S) :: u64) - (word_of_nat (4096 * (n + 1)) - word_of_nat E) = word_of_nat (E - S)"
    using b S by (simp add: of_nat_diff)
  show "(if word_of_nat E < page_va n + PGSIZE then word_of_nat E - word_of_nat S else PGSIZE - (word_of_nat S - page_va n)) = (word_of_nat z :: u64)"
    unfolding pg lt d z using S b by (simp add: min_def of_nat_diff)
  show "(if word_of_nat E < page_va n + PGSIZE then PGSIZE - (word_of_nat S - page_va n) - (page_va n + PGSIZE - word_of_nat E)
      else PGSIZE - (word_of_nat S - page_va n)) = (word_of_nat z :: u64)"
    unfolding pg lt d z using d2 by (simp add: min_def)
qed

section \<open>The loops\<close>

definition text_done :: "nat \<Rightarrow> u64 \<Rightarrow> nat \<Rightarrow> nat \<Rightarrow> nat \<Rightarrow> nat \<Rightarrow> cursor \<Rightarrow> kvm \<Rightarrow> nat set \<Rightarrow> (int + cursor) \<Rightarrow> kvm \<Rightarrow> nat set \<Rightarrow> bool" where
  "text_done r perm n n' S E c s F res s' F' \<longleftrightarrow>
     (case res of
        Inl e \<Rightarrow> 4096 * n' < E \<and> e = (if n' = n then cu_ret c else 0) \<and> card F \<le> 3 * (n' - n) + 2
      | Inr c' \<Rightarrow> card F \<le> card F' + 3 * (n' - n) \<and>
          (if S < E then n' = (E - 1) div 4096 + 1 \<and> cu_page c' \<in> F \<and> owns s' r perm (n' - 1) (cu_page c') \<and>
             c' = \<lparr>cu_start = word_of_nat E, cu_la = page_va n', cu_page = cu_page c', cu_ret = 0\<rparr>
           else c' = c \<and> n' = n \<and> s' = s \<and> F' = F))"

lemma filled_leaf:
  assumes "filled r perm n n' X g s F s' F'" "n' \<le> q" "q < 2 ^ 27"
  shows "leaf s' r (vpn_of q) = leaf s r (vpn_of q)"
proof -
  have "vpn_of q \<notin> vpn_of ` {n..<n'}"
  proof
    assume "vpn_of q \<in> vpn_of ` {n..<n'}"
    then obtain m where m: "m \<in> {n..<n'}" "vpn_of q = vpn_of m" by blast
    then have "q = m" using assms(2,3) by (intro vpn_of_inject) auto
    then show False using m(1) assms(2) by simp
  qed
  then show ?thesis using assms(1) is_vpn_of unfolding filled_def by blast
qed

lemma filled_sub: "filled r perm n n' X g s F s' F' \<Longrightarrow> Y \<subseteq> X \<Longrightarrow> filled r perm n n' Y g s F s' F'"
  unfolding filled_def by blast

lemma filled_empty: "filled r perm n n' {} g s F s' F' \<Longrightarrow> 4096 * n' \<le> S \<or> E \<le> S \<Longrightarrow>
    filled r perm n n' {x. S \<le> x \<and> x < E \<and> x < 4096 * n'} g s F s' F'"
  by (auto simp: filled_def)

lemma load_text_runs:
  assumes hf: "holds_file seek rd d I" and perm: "perm < 2 ^ 10" and E: "E \<le> 2 ^ 31"
  shows "\<lbrakk>space_ok s F r; refs_free s F; I f; S < E \<longrightarrow> n = S div 4096; off + (E - S) \<le> length d;
     \<forall>q. n \<le> q \<and> 4096 * q < E \<longrightarrow> leaf s r (vpn_of q) = None; \<forall>i < E - S. g (S + i) = d ! (off + i);
     c = \<lparr>cu_start = word_of_nat S, cu_la = page_va n, cu_page = pg, cu_ret = rt\<rparr>; S < 2 ^ 64\<rbrakk> \<Longrightarrow>
   \<exists>res s' f' F' n'. load_text seek rd r perm (word_of_nat E) c (word_of_nat off) s f = Some (res, s', f') \<and> I f' \<and> n \<le> n' \<and>
     filled r perm n n' {x. S \<le> x \<and> x < E \<and> x < 4096 * n'} g s F s' F' \<and> text_done r perm n n' S E c s F res s' F'"
proof (induction "E - S" arbitrary: S n pg rt off s f F c rule: less_induct)
  case less
  note ok = less.prems(1) and rf = less.prems(2) and c = less.prems(8)
  show ?case
  proof (cases "S < E")
    case False
    then have "\<not> (word_of_nat S :: u64) < word_of_nat E" using of_nat_less_64 [of S E] E less.prems(9) by simp
    then have "load_text seek rd r perm (word_of_nat E) c (word_of_nat off) s f = Some (Inr c, s, f)"
      unfolding c by (subst load_text.simps) simp
    moreover have "filled r perm n n {x. S \<le> x \<and> x < E \<and> x < 4096 * n} g s F s F"
      using False by (intro filled_empty filled_refl [OF ok rf]) simp
    ultimately show ?thesis using False less.prems(3)
      by (intro exI [of _ "Inr c"] exI [of _ s] exI [of _ f] exI [of _ F] exI [of _ n]) (simp add: text_done_def)
  next
    case S: True
    then have n: "n = S div 4096" using less.prems(4) by simp
    define z where "z = min E (4096 * (n + 1)) - S"
    note R = round_addresses [OF S E n z_def]
    have "4096 * n < 2 ^ 31" using R(8) S E by linarith
    then have n27: "n < 2 ^ 19" by simp
    have lf: "leaf s r (vpn_of n) = None" using less.prems(6) R(8) S by simp
    obtain res s1 F1 where a: "pgdir_alloc_page r (page_va n) perm s = Some (res, s1)"
      and ac: "case res of None \<Rightarrow> card F \<le> 2 \<and> filled r perm n n {} g s F s1 F1
       | Some p \<Rightarrow> p \<in> F \<and> page2kva s1 p = Some (p + nbase) \<and> filled r perm n (n + 1) {} g s F s1 F1 \<and> card F \<le> card F1 + 3 \<and>
           owns s1 r perm n p"
      using fresh_page [OF ok rf perm _ lf, of g] n27 by auto
    show ?thesis
    proof (cases res)
      case None
      then have "load_text seek rd r perm (word_of_nat E) c (word_of_nat off) s f = Some (Inl rt, s1, f)"
        using a R(1) unfolding c by (subst load_text.simps) simp
      moreover have "filled r perm n n {x. S \<le> x \<and> x < E \<and> x < 4096 * n} g s F s1 F1"
        using ac None R(8) by (intro filled_empty) auto
      moreover have "4096 * n < E" using R(8) S by linarith
      ultimately show ?thesis using ac None less.prems(3) c
        by (intro exI [of _ "Inl rt"] exI [of _ s1] exI [of _ f] exI [of _ F1] exI [of _ n]) (simp add: text_done_def)
    next
      case (Some p)
      have p: "p \<in> F" "page2kva s1 p = Some (p + nbase)" "filled r perm n (n + 1) {} g s F s1 F1" "card F \<le> card F1 + 3" "owns s1 r perm n p"
        using ac Some by simp_all
      have offz: "off + z \<le> length d" using less.prems(5) S unfolding z_def by linarith
      obtain f1 where f1: "load_icode_read seek rd z (word_of_nat off) f = Some (0, chunk off z d, f1)" "I f1"
        using load_icode_read_ok [OF hf less.prems(3) offz] by blast
      let ?s2 = "page_put (p + nbase) (S mod 4096) (chunk off z d) s1"
      let ?c = "\<lparr>cu_start = word_of_nat (S + z), cu_la = page_va (n + 1), cu_page = p, cu_ret = 0\<rparr>"
      have lz: "length (chunk off z d) = z" using offz by simp
      have gz: "\<forall>i < length (chunk off z d). g (4096 * n + S mod 4096 + i) = chunk off z d ! i"
      proof (intro allI impI)
        fix i assume "i < length (chunk off z d)"
        then have i: "i < z" "i < E - S" using lz by (simp_all add: z_def)
        then show "g (4096 * n + S mod 4096 + i) = chunk off z d ! i" using less.prems(7) offz unfolding R(8) by (simp add: nth_chunk)
      qed
      have X1: "{x. S \<le> x \<and> x < E \<and> x < 4096 * (n + 1)} \<subseteq> {} \<union> {4096 * n + S mod 4096..<4096 * n + S mod 4096 + length (chunk off z d)}"
        unfolding lz R(8) by (auto simp: z_def)
      have "\<forall>x \<in> {x. S \<le> x \<and> x < E \<and> x < 4096 * (n + 1)}. x < 4096 * 2 ^ 27" using E by auto
      note P = filled_put [OF p(3,5,1) perm _ gz X1 this, unfolded lz, OF R(7)]
      have A: "space_ok ?s2 F1 r" "refs_free ?s2 F1" using P(1) by (simp_all add: filled_def)
      have step: "load_text seek rd r perm (word_of_nat E) c (word_of_nat off) s f =
          load_text seek rd r perm (word_of_nat E) ?c (word_of_nat (off + z)) ?s2 f1"
        using a R(1-3,5) Some f1(1) p(2) unfolding c by (subst load_text.simps) (simp add: Let_def ac_simps cong: if_cong)
      have n1: "S + z < E \<longrightarrow> n + 1 = (S + z) div 4096" using R(7,8) by (auto simp: z_def min_def)
      have lf1: "\<forall>q. n + 1 \<le> q \<and> 4096 * q < E \<longrightarrow> leaf ?s2 r (vpn_of q) = None"
        using filled_leaf [OF P(1)] less.prems(6) E by simp
      have sz: "off + z + (E - (S + z)) \<le> length d" "E - (S + z) < E - S" "S + z < 2 ^ 64"
        using less.prems(5) S R(6) E by (auto simp: z_def)
      have g1: "\<forall>i < E - (S + z). g (S + z + i) = d ! (off + z + i)"
      proof (intro allI impI)
        fix i assume "i < E - (S + z)"
        then have "z + i < E - S" by linarith
        then show "g (S + z + i) = d ! (off + z + i)" using less.prems(7) by (simp add: add.assoc)
      qed
      obtain res s' f' F' n' where L: "load_text seek rd r perm (word_of_nat E) ?c (word_of_nat (off + z)) ?s2 f1 = Some (res, s', f')"
        "I f'" "n + 1 \<le> n'" "filled r perm (n + 1) n' {x. S + z \<le> x \<and> x < E \<and> x < 4096 * n'} g ?s2 F1 s' F'"
        "text_done r perm (n + 1) n' (S + z) E ?c ?s2 F1 res s' F'"
        using less.hyps [OF sz(2) A f1(2) n1 sz(1) lf1 g1 refl sz(3)] by blast
      note T = L(5) [unfolded text_done_def]
      have "(E - 1) div 4096 \<le> 2 ^ 31 div 4096" using E by (intro div_le_mono) simp
      then have e: "(E - 1) div 4096 \<le> 2 ^ 19" by simp
      have n': "n' \<le> 2 ^ 27" using T L(3) e n27 E by (auto split: sum.splits if_splits)
      have fl: "filled r perm n n' {x. S \<le> x \<and> x < E \<and> x < 4096 * n'} g s F s' F'"
        by (rule filled_trans [OF P(1) L(4) _ L(3) n']) (auto simp: z_def)
      have FF: "F1 \<subseteq> F" using p(3) by (simp add: filled_def)
      have td: "text_done r perm n n' S E c s F res s' F'"
      proof (cases res)
        case (Inl e)
        then have T1: "4096 * n' < E" "e = 0" "card F1 \<le> 3 * (n' - (n + 1)) + 2" using T by (simp_all split: if_splits)
        then have "card F \<le> 3 * (n' - n) + 2" using p(4) L(3) by linarith
        then show ?thesis using T1 Inl L(3) by (simp add: text_done_def)
      next
        case (Inr c')
        show ?thesis
        proof (cases "S + z < E")
          case True
          then show ?thesis using T Inr p(4) L(3) S FF by (auto simp: text_done_def Suc_diff_le)
        next
          case False
          then have sE: "S + z = E" using S by (simp add: z_def)
          have "4096 * n \<le> S" "E \<le> 4096 * (n + 1)" using R(7,8) sE by simp_all
          then have "E - 1 \<ge> 4096 * n" "E - 1 < 4096 * (n + 1)" using S by linarith+
          then have "(E - 1) div 4096 = n" by (intro div_nat_eqI) simp_all
          then show ?thesis using T Inr False sE p(1,4) P(2) S by (simp add: text_done_def)
        qed
      qed
      show ?thesis unfolding step using L(1,2,3) fl td
        by (intro exI [of _ res] exI [of _ s'] exI [of _ f'] exI [of _ F'] exI [of _ n']) simp
    qed
  qed
qed

lemma zero_pages_runs:
  assumes perm: "perm < 2 ^ 10" and E: "E \<le> 2 ^ 31"
  shows "\<lbrakk>space_ok s F r; refs_free s F; S < E \<longrightarrow> n = S div 4096;
     \<forall>q. n \<le> q \<and> 4096 * q < E \<longrightarrow> leaf s r (vpn_of q) = None; \<forall>x. S \<le> x \<and> x < E \<longrightarrow> g x = 0; S < 2 ^ 64\<rbrakk> \<Longrightarrow>
   \<exists>res s' F' n'. zero_pages r perm (word_of_nat E) rt (word_of_nat S) (page_va n) s = Some (res, s') \<and> n \<le> n' \<and> n' \<le> max n (2 ^ 20) \<and>
     filled r perm n n' {x. S \<le> x \<and> x < E \<and> x < 4096 * n'} g s F s' F' \<and>
     (case res of
        Some e \<Rightarrow> e = rt \<and> 4096 * n' < E \<and> card F \<le> 3 * (n' - n) + 2
      | None \<Rightarrow> card F \<le> card F' + 3 * (n' - n) \<and> n' = (if S < E then (E - 1) div 4096 + 1 else n))"
proof (induction "E - S" arbitrary: S n s F rule: less_induct)
  case less
  note ok = less.prems(1) and rf = less.prems(2)
  show ?case
  proof (cases "S < E")
    case False
    then have "\<not> (word_of_nat S :: u64) < word_of_nat E" using of_nat_less_64 [of S E] E less.prems(6) by simp
    then have "zero_pages r perm (word_of_nat E) rt (word_of_nat S) (page_va n) s = Some (None, s)"
      by (subst zero_pages.simps) simp
    moreover have "filled r perm n n {x. S \<le> x \<and> x < E \<and> x < 4096 * n} g s F s F"
      using False by (intro filled_empty filled_refl [OF ok rf]) simp
    ultimately show ?thesis using False by (intro exI [of _ None] exI [of _ s] exI [of _ F] exI [of _ n]) simp
  next
    case S: True
    then have n: "n = S div 4096" using less.prems(3) by simp
    define z where "z = min E (4096 * (n + 1)) - S"
    note R = round_addresses [OF S E n z_def]
    have "4096 * n < 2 ^ 31" using R(8) S E by linarith
    then have n27: "n < 2 ^ 19" by simp
    have lf: "leaf s r (vpn_of n) = None" using less.prems(4) R(8) S by simp
    obtain res s1 F1 where a: "pgdir_alloc_page r (page_va n) perm s = Some (res, s1)"
      and ac: "case res of None \<Rightarrow> card F \<le> 2 \<and> filled r perm n n {} g s F s1 F1
       | Some p \<Rightarrow> p \<in> F \<and> page2kva s1 p = Some (p + nbase) \<and> filled r perm n (n + 1) {} g s F s1 F1 \<and> card F \<le> card F1 + 3 \<and>
           owns s1 r perm n p"
      using fresh_page [OF ok rf perm _ lf, of g] n27 by auto
    show ?thesis
    proof (cases res)
      case None
      then have "zero_pages r perm (word_of_nat E) rt (word_of_nat S) (page_va n) s = Some (Some rt, s1)"
        using a R(1) by (subst zero_pages.simps) simp
      moreover have "filled r perm n n {x. S \<le> x \<and> x < E \<and> x < 4096 * n} g s F s1 F1"
        using ac None R(8) by (intro filled_empty) auto
      moreover have "4096 * n < E" using R(8) S by linarith
      ultimately show ?thesis using ac None
        by (intro exI [of _ "Some rt"] exI [of _ s1] exI [of _ F1] exI [of _ n]) simp
    next
      case (Some p)
      have p: "p \<in> F" "page2kva s1 p = Some (p + nbase)" "filled r perm n (n + 1) {} g s F s1 F1" "card F \<le> card F1 + 3" "owns s1 r perm n p"
        using ac Some by simp_all
      let ?z = "replicate z (0 :: u8)"
      let ?s2 = "page_put (p + nbase) (S mod 4096) ?z s1"
      have gz: "\<forall>i < length ?z. g (4096 * n + S mod 4096 + i) = ?z ! i"
        using less.prems(5) unfolding R(8) by (simp add: z_def)
      have X1: "{x. S \<le> x \<and> x < E \<and> x < 4096 * (n + 1)} \<subseteq> {} \<union> {4096 * n + S mod 4096..<4096 * n + S mod 4096 + length ?z}"
        unfolding R(8) by (auto simp: z_def)
      have "\<forall>x \<in> {x. S \<le> x \<and> x < E \<and> x < 4096 * (n + 1)}. x < 4096 * 2 ^ 27" using E by auto
      note P = filled_put [OF p(3,5,1) perm _ gz X1 this, unfolded length_replicate, OF R(7)]
      have A: "space_ok ?s2 F1 r" "refs_free ?s2 F1" using P(1) by (simp_all add: filled_def)
      have step: "zero_pages r perm (word_of_nat E) rt (word_of_nat S) (page_va n) s =
          zero_pages r perm (word_of_nat E) rt (word_of_nat (S + z)) (page_va (n + 1)) ?s2"
        using a R(1,2,4,5) Some p(2) by (subst zero_pages.simps) (simp add: Let_def ac_simps cong: if_cong)
      have n1: "S + z < E \<longrightarrow> n + 1 = (S + z) div 4096" using R(7,8) by (auto simp: z_def min_def)
      have lf1: "\<forall>q. n + 1 \<le> q \<and> 4096 * q < E \<longrightarrow> leaf ?s2 r (vpn_of q) = None"
        using filled_leaf [OF P(1)] less.prems(4) E by simp
      have sz: "E - (S + z) < E - S" "S + z < 2 ^ 64" using S R(6) E by (auto simp: z_def)
      have g1: "\<forall>x. S + z \<le> x \<and> x < E \<longrightarrow> g x = 0" using less.prems(5) by simp
      obtain res s' F' n' where L: "zero_pages r perm (word_of_nat E) rt (word_of_nat (S + z)) (page_va (n + 1)) ?s2 = Some (res, s')"
        "n + 1 \<le> n'" "n' \<le> max (n + 1) (2 ^ 20)" "filled r perm (n + 1) n' {x. S + z \<le> x \<and> x < E \<and> x < 4096 * n'} g ?s2 F1 s' F'"
        and T: "case res of Some e \<Rightarrow> e = rt \<and> 4096 * n' < E \<and> card F1 \<le> 3 * (n' - (n + 1)) + 2
          | None \<Rightarrow> card F1 \<le> card F' + 3 * (n' - (n + 1)) \<and> n' = (if S + z < E then (E - 1) div 4096 + 1 else n + 1)"
        using less.hyps [OF sz(1) A n1 lf1 g1 sz(2)] by blast
      have n': "n' \<le> 2 ^ 27" "n' \<le> max n (2 ^ 20)" using L(3) n27 by auto
      have fl: "filled r perm n n' {x. S \<le> x \<and> x < E \<and> x < 4096 * n'} g s F s' F'"
        by (rule filled_trans [OF P(1) L(4) _ L(2) n'(1)]) (auto simp: z_def)
      have "E - 1 \<ge> 4096 * n" "S + z < E \<or> E - 1 < 4096 * (n + 1)" using S R(7,8) unfolding z_def by linarith+
      then have "S + z < E \<or> (E - 1) div 4096 = n" by (auto intro!: div_nat_eqI)
      then have "case res of Some e \<Rightarrow> e = rt \<and> 4096 * n' < E \<and> card F \<le> 3 * (n' - n) + 2
          | None \<Rightarrow> card F \<le> card F' + 3 * (n' - n) \<and> n' = (if S < E then (E - 1) div 4096 + 1 else n)"
        using T p(4) L(2) S by (cases res) (auto simp: Suc_diff_le)
      then show ?thesis unfolding step using L(1,2) fl n'(2)
        by (intro exI [of _ res] exI [of _ s'] exI [of _ F'] exI [of _ n']) simp
    qed
  qed
qed

end
