(* ===== verification/VmmProps.thy ===== *)
theory VmmProps
  imports Vmm
begin

text \<open>
  Properties of the memory areas: the list of areas is a finite map from addresses to access flags (\<open>prot\<close>), on which
  \<^verbatim>\<open>mm_map\<close> is an update; \<^verbatim>\<open>user_mem_check\<close> decides whether every address of a range may be accessed.
\<close>

section \<open>The areas as a map from addresses\<close>

definition vmas_ok :: "vma_struct list \<Rightarrow> bool" where
  "vmas_ok vs \<longleftrightarrow> sorted_wrt (\<lambda>a b. vm_end a \<le> vm_start b) vs \<and> (\<forall>v\<in>set vs. vm_start v < vm_end v)"

definition mm_ok :: "mm_struct \<Rightarrow> bool" where
  "mm_ok mm \<longleftrightarrow> vmas_ok (mmap_list mm) \<and> set_option (mmap_cache mm) \<subseteq> set (mmap_list mm) \<and>
     map_count mm = int (length (mmap_list mm))"

definition area :: "mm_struct \<Rightarrow> u64 \<Rightarrow> vma_struct option" where
  "area mm a = find (in_vma a) (mmap_list mm)"

definition prot :: "mm_struct \<Rightarrow> u64 \<Rightarrow> u32 option" where
  "prot mm a = map_option vm_flags (area mm a)"

lemma vmas_ok_unique:
  assumes "vmas_ok vs" "v \<in> set vs" "w \<in> set vs" "in_vma a v" "in_vma a w"
  shows "v = w"
proof -
  obtain i j where ij: "i < length vs" "j < length vs" "v = vs ! i" "w = vs ! j"
    using assms(2,3) by (metis in_set_conv_nth)
  have "\<not> i < j" "\<not> j < i"
    using assms(1,4,5) ij unfolding vmas_ok_def in_vma_def sorted_wrt_iff_nth_less by fastforce+
  then show ?thesis using ij by (metis linorder_neqE_nat)
qed

lemma find_vmas_iff:
  assumes "vmas_ok vs"
  shows "find (in_vma a) vs = Some v \<longleftrightarrow> v \<in> set vs \<and> in_vma a v"
proof
  assume "v \<in> set vs \<and> in_vma a v"
  moreover from this obtain w where "find (in_vma a) vs = Some w" by (metis find_None_iff option.exhaust)
  moreover from this have "w \<in> set vs \<and> in_vma a w" by (auto simp: find_Some_iff)
  ultimately show "find (in_vma a) vs = Some v" using vmas_ok_unique [OF assms] by metis
qed (auto simp: find_Some_iff)

lemma area_Some_iff: "mm_ok mm \<Longrightarrow> area mm a = Some v \<longleftrightarrow> v \<in> set (mmap_list mm) \<and> in_vma a v"
  unfolding area_def by (rule find_vmas_iff) (simp add: mm_ok_def)

lemma area_None_iff: "area mm a = None \<longleftrightarrow> (\<forall>v\<in>set (mmap_list mm). \<not> in_vma a v)"
  by (auto simp: area_def find_None_iff)

lemma area_cache [simp]: "area (mm\<lparr>mmap_cache := c\<rparr>) = area mm"
  by (simp add: area_def fun_eq_iff)

text \<open>The cache is only a shortcut.\<close>

lemma find_vma_exact:
  assumes "mm_ok mm"
  shows "\<exists>c. find_vma mm a = (area mm a, mm\<lparr>mmap_cache := c\<rparr>) \<and> mm_ok (mm\<lparr>mmap_cache := c\<rparr>)"
proof -
  have f: "(case mmap_cache mm of Some v \<Rightarrow> if in_vma a v then Some v else find (in_vma a) (mmap_list mm)
      | None \<Rightarrow> find (in_vma a) (mmap_list mm)) = area mm a"
  proof (cases "mmap_cache mm")
    case (Some v)
    then have "v \<in> set (mmap_list mm)" using assms by (simp add: mm_ok_def)
    then have "in_vma a v \<Longrightarrow> area mm a = Some v" using area_Some_iff [OF assms] by simp
    then show ?thesis using Some by (simp add: area_def)
  qed (simp add: area_def)
  show ?thesis
  proof (cases "area mm a")
    case None
    then have "find_vma mm a = (None, mm\<lparr>mmap_cache := mmap_cache mm\<rparr>)" unfolding find_vma_def f by (simp add: Let_def)
    then show ?thesis using None assms by (metis mm_struct.surjective mm_struct.update_convs(2))
  next
    case (Some v)
    then have "find_vma mm a = (Some v, mm\<lparr>mmap_cache := Some v\<rparr>)" unfolding find_vma_def f by (simp add: Let_def)
    moreover have "mm_ok (mm\<lparr>mmap_cache := Some v\<rparr>)"
      using assms Some by (auto simp: mm_ok_def area_Some_iff)
    ultimately show ?thesis using Some by auto
  qed
qed

section \<open>Inserting an area\<close>

definition overlaps :: "vma_struct \<Rightarrow> vma_struct \<Rightarrow> bool" where
  "overlaps v w \<longleftrightarrow> vm_start v < vm_end w \<and> vm_start w < vm_end v"

lemma vmas_ok_split:
  "vmas_ok (xs @ ys) \<longleftrightarrow> vmas_ok xs \<and> vmas_ok ys \<and> (\<forall>x\<in>set xs. \<forall>y\<in>set ys. vm_end x \<le> vm_start y)"
  by (auto simp: vmas_ok_def sorted_wrt_append)

lemma vmas_ok_Cons:
  "vmas_ok (y # ys) \<longleftrightarrow> vm_start y < vm_end y \<and> vmas_ok ys \<and> (\<forall>x\<in>set ys. vm_end y \<le> vm_start x)"
  by (auto simp: vmas_ok_def)

lemma vmas_ok_before_last:
  assumes "vmas_ok xs" "xs \<noteq> []" "vm_end (last xs) \<le> a"
  shows "\<forall>x\<in>set xs. vm_end x \<le> a"
proof -
  have "vmas_ok (butlast xs @ [last xs])" using assms(1,2) by simp
  then have "\<forall>x\<in>set (butlast xs). vm_end x \<le> vm_start (last xs)" "vm_start (last xs) < vm_end (last xs)"
    unfolding vmas_ok_split by (auto simp: vmas_ok_Cons)
  then have "\<forall>x\<in>set (butlast xs @ [last xs]). vm_end x \<le> a" using assms(3) by fastforce
  then show ?thesis using assms(2) by simp
qed

lemma vmas_ok_after_hd:
  assumes "vmas_ok ys" "ys \<noteq> []" "a \<le> vm_start (hd ys)"
  shows "\<forall>y\<in>set ys. a \<le> vm_start y"
  using assms by (cases ys) (auto simp: vmas_ok_Cons intro: order_trans less_imp_le)

text \<open>The insertion stops the kernel exactly when the new area overlaps one in the list.\<close>

lemma insert_vma_exact:
  assumes ok: "mm_ok mm" and v: "vm_start v < vm_end (v :: vma_struct)"
  shows "case insert_vma_struct mm v of
      None \<Rightarrow> \<exists>w\<in>set (mmap_list mm). overlaps v w
    | Some mm' \<Rightarrow> (\<forall>w\<in>set (mmap_list mm). \<not> overlaps v w) \<and> mm_ok mm' \<and>
        set (mmap_list mm') = insert v (set (mmap_list mm)) \<and> mmap_cache mm' = mmap_cache mm"
proof -
  define P where "P = (\<lambda>w :: vma_struct. \<not> vm_start v < vm_start w)"
  define xs where "xs = takeWhile P (mmap_list mm)"
  define ys where "ys = dropWhile P (mmap_list mm)"
  have l: "mmap_list mm = xs @ ys" by (simp add: xs_def ys_def)
  have vs: "vmas_ok xs" "vmas_ok ys" "\<forall>x\<in>set xs. \<forall>y\<in>set ys. vm_end x \<le> vm_start y"
    using ok unfolding mm_ok_def l vmas_ok_split by blast+
  have xP: "x \<in> set xs \<Longrightarrow> vm_start x \<le> vm_start v" for x
    unfolding xs_def by (drule set_takeWhileD) (simp add: P_def not_less)
  have yP: "ys \<noteq> [] \<Longrightarrow> vm_start v < vm_start (hd ys)"
    unfolding ys_def using hd_dropWhile [of P "mmap_list mm"] by (auto simp: P_def)
  have pos: "\<And>w. w \<in> set xs \<union> set ys \<Longrightarrow> vm_start w < vm_end w" using vs(1,2) by (auto simp: vmas_ok_def)
  have i: "insert_vma_struct mm v = do {
     (if xs \<noteq> [] then check_vma_overlap (last xs) v else Some ());
     (if ys \<noteq> [] then check_vma_overlap v (hd ys) else Some ());
     Some (mm\<lparr>mmap_list := xs @ v # ys, map_count := map_count mm + 1\<rparr>)}"
    unfolding insert_vma_struct_def Let_def xs_def ys_def P_def using v by (simp add: not_less)
  show ?thesis
  proof (cases "(xs = [] \<or> vm_end (last xs) \<le> vm_start v) \<and> (ys = [] \<or> vm_end v \<le> vm_start (hd ys))")
    case True
    have b: "\<forall>x\<in>set xs. vm_end x \<le> vm_start v"
      using True vmas_ok_before_last [OF vs(1)] by (cases "xs = []") auto
    have a: "\<forall>y\<in>set ys. vm_end v \<le> vm_start y"
      using True vmas_ok_after_hd [OF vs(2)] by (cases "ys = []") auto
    have "vmas_ok (xs @ v # ys)" using vs a b v by (auto simp: vmas_ok_split vmas_ok_Cons)
    moreover have "insert_vma_struct mm v = Some (mm\<lparr>mmap_list := xs @ v # ys, map_count := map_count mm + 1\<rparr>)"
      unfolding i using True v pos by (auto simp: check_vma_overlap_def kassert_def last_in_set hd_in_set)
    ultimately show ?thesis using ok a b by (auto simp: mm_ok_def l overlaps_def not_less)
  next
    case False
    then consider "xs \<noteq> []" "vm_start v < vm_end (last xs)" | "ys \<noteq> []" "vm_start (hd ys) < vm_end v"
      by (auto simp: not_le)
    then have "\<exists>w\<in>set (mmap_list mm). overlaps v w"
    proof cases
      case 1
      then have "overlaps v (last xs)" using xP [of "last xs"] v by (auto simp: overlaps_def)
      then show ?thesis using 1 l by auto
    next
      case 2
      then have "overlaps v (hd ys)" using yP pos [of "hd ys"] by (auto simp: overlaps_def)
      then show ?thesis using 2 l by auto
    qed
    moreover have "insert_vma_struct mm v = None"
      unfolding i using False by (auto simp: check_vma_overlap_def kassert_def)
    ultimately show ?thesis by simp
  qed
qed


lemma overlaps_area:
  assumes "mm_ok mm" "vm_start v < vm_end v"
  shows "(\<exists>w\<in>set (mmap_list mm). overlaps v w) \<longleftrightarrow> (\<exists>a. in_vma a v \<and> area mm a \<noteq> None)"
proof
  assume "\<exists>w\<in>set (mmap_list mm). overlaps v w"
  then obtain w where w: "w \<in> set (mmap_list mm)" "overlaps v w" by blast
  have pos: "vm_start w < vm_end w" using assms(1) w(1) by (simp add: mm_ok_def vmas_ok_def)
  let ?a = "max (vm_start v) (vm_start w)"
  have "in_vma ?a v" "in_vma ?a w"
    using w(2) assms(2) pos by (auto simp: in_vma_def overlaps_def max_def not_le)
  then show "\<exists>a. in_vma a v \<and> area mm a \<noteq> None" using w(1) area_None_iff by blast
next
  assume "\<exists>a. in_vma a v \<and> area mm a \<noteq> None"
  then obtain a w where "in_vma a v" "w \<in> set (mmap_list mm)" "in_vma a w" using area_None_iff [of mm] by metis
  then show "\<exists>w\<in>set (mmap_list mm). overlaps v w"
    by (auto simp: in_vma_def overlaps_def intro!: bexI [of _ w] intro: le_less_trans)
qed

lemma area_insert:
  assumes "mm_ok mm" "mm_ok mm'" "set (mmap_list mm') = insert v (set (mmap_list mm))"
    "\<And>a. in_vma a v \<Longrightarrow> area mm a = None"
  shows "area mm' a = (if in_vma a v then Some v else area mm a)"
proof (cases "in_vma a v")
  case True
  then show ?thesis using area_Some_iff [OF assms(2)] assms(3) by simp
next
  case False
  have "area mm' a = Some w \<longleftrightarrow> area mm a = Some w" for w
    using False area_Some_iff [OF assms(1)] area_Some_iff [OF assms(2)] assms(3) by auto
  then have "area mm' a = area mm a" by (metis not_None_eq)
  then show ?thesis using False by simp
qed

section \<open>Mapping\<close>

lemma mm_map_ok:
  assumes "mm_ok mm" and "s = ROUNDDOWN addr PGSIZE" and "e = ROUNDUP (addr + len) PGSIZE"
  shows "case mm_map got mm addr len fl of
      None \<Rightarrow> USER_ACCESS s e \<and> got \<and> prot mm s = None \<and> (\<exists>a. s \<le> a \<and> a < e \<and> prot mm a \<noteq> None)
    | Some (ret, v, mm') \<Rightarrow> mm_ok mm' \<and>
        (if \<not> USER_ACCESS s e \<or> prot mm s \<noteq> None then ret = - E_INVAL \<and> prot mm' = prot mm
         else if \<not> got then ret = - E_NO_MEM \<and> prot mm' = prot mm
         else ret = 0 \<and> (\<forall>a. s \<le> a \<and> a < e \<longrightarrow> prot mm a = None) \<and>
           prot mm' = (\<lambda>a. if s \<le> a \<and> a < e then Some fl else prot mm a))"
proof -
  let ?v = "\<lparr>vm_start = s, vm_end = e, vm_flags = fl\<rparr>"
  obtain c where c: "find_vma mm s = (area mm s, mm\<lparr>mmap_cache := c\<rparr>)" "mm_ok (mm\<lparr>mmap_cache := c\<rparr>)"
    using find_vma_exact [OF assms(1)] by blast
  let ?m = "mm\<lparr>mmap_cache := c\<rparr>"
  have p: "prot ?m = prot mm" by (simp add: prot_def fun_eq_iff)
  note m = mm_map_def Let_def assms(2,3) [symmetric] c(1) prod.case vma_create_def
  consider "\<not> USER_ACCESS s e" | w where "USER_ACCESS s e" "area mm s = Some w" | "USER_ACCESS s e" "area mm s = None" "\<not> got"
    | "USER_ACCESS s e" "area mm s = None" got by fastforce
  then show ?thesis
  proof cases
    case 1
    then show ?thesis using assms(1) unfolding m by simp
  next
    case 2
    then have "in_vma s w" using area_Some_iff [OF assms(1)] by simp
    then have "vm_start w < e" using 2(1) by (auto simp: in_vma_def USER_ACCESS_def)
    then show ?thesis using 2 c(2) p unfolding m by (simp add: prot_def)
  next
    case 3
    then show ?thesis using c(2) p unfolding m by (simp add: prot_def)
  next
    case 4
    have lt: "vm_start ?v < vm_end ?v" using 4 by (simp add: USER_ACCESS_def)
    have eq: "mm_map got mm addr len fl = do { m2 \<leftarrow> insert_vma_struct ?m ?v; Some (0, Some ?v, m2) }"
      using 4 unfolding m by simp
    have o: "(\<exists>w\<in>set (mmap_list ?m). overlaps ?v w) \<longleftrightarrow> (\<exists>a. s \<le> a \<and> a < e \<and> prot mm a \<noteq> None)"
      using overlaps_area [OF c(2) lt] by (simp add: in_vma_def prot_def)
    show ?thesis
    proof (cases "insert_vma_struct ?m ?v")
      case None
      then show ?thesis using insert_vma_exact [OF c(2) lt] o 4 unfolding eq by (simp add: prot_def)
    next
      case (Some m2)
      then have i: "\<not> (\<exists>w\<in>set (mmap_list ?m). overlaps ?v w)" "mm_ok m2" "set (mmap_list m2) = insert ?v (set (mmap_list ?m))"
        using insert_vma_exact [OF c(2) lt] by simp_all
      have f: "prot mm a = None" if "s \<le> a" "a < e" for a using i(1) that unfolding o by blast
      have "area m2 a = (if in_vma a ?v then Some ?v else area ?m a)" for a
        by (rule area_insert [OF c(2) i(2,3)]) (use f in \<open>simp add: in_vma_def prot_def\<close>)
      then have "prot m2 = (\<lambda>a. if s \<le> a \<and> a < e then Some fl else prot mm a)"
        by (auto simp: prot_def in_vma_def fun_eq_iff)
      then show ?thesis using Some i(2) f 4 unfolding eq by (simp add: prot_def)
    qed
  qed
qed

text \<open>C29. \<^verbatim>\<open>mm_map\<close> is an update of the map from addresses to access flags. With the bounds rounded out to pages it returns
  \<^verbatim>\<open>-E_INVAL\<close> for a range outside user space or one whose first address has an area already, \<^verbatim>\<open>-E_NO_MEM\<close> when the area
  cannot be allocated, both without an effect; otherwise it returns 0 and exactly the addresses of the range, which had no
  area, now have the flags given. The areas stay sorted and disjoint. It stops the kernel exactly when the first address
  is free but a later one of the range is not.\<close>

theorem mm_map_exact:
  assumes "mm_ok mm" and "s = ROUNDDOWN addr PGSIZE" and "e = ROUNDUP (addr + len) PGSIZE"
  shows "case mm_map got mm addr len fl of
      None \<Rightarrow> USER_ACCESS s e \<and> got \<and> prot mm s = None \<and> (\<exists>a. s \<le> a \<and> a < e \<and> prot mm a \<noteq> None)
    | Some (ret, v, mm') \<Rightarrow> mm_ok mm' \<and>
        (if \<not> USER_ACCESS s e \<or> prot mm s \<noteq> None then ret = - E_INVAL \<and> prot mm' = prot mm
         else if \<not> got then ret = - E_NO_MEM \<and> prot mm' = prot mm
         else ret = 0 \<and> (\<forall>a. s \<le> a \<and> a < e \<longrightarrow> prot mm a = None) \<and>
           prot mm' = (\<lambda>a. if s \<le> a \<and> a < e then Some fl else prot mm a))"
  by (rule mm_map_ok [OF assms])

text \<open>A state with a text area and a stack area.\<close>

definition mm0 :: mm_struct where
  "mm0 = \<lparr>mmap_list = [\<lparr>vm_start = 0x800000, vm_end = 0x803000, vm_flags = 5\<rparr>, \<lparr>vm_start = 0x7FF00000, vm_end = 0x80000000, vm_flags = 0xB\<rparr>],
     mmap_cache = None, mm_pgdir = Some 0x80400, map_count = 2, mm_users = 1\<rparr>"

lemma mm0_ok: "mm_ok mm0"
  by (simp add: mm0_def mm_ok_def vmas_ok_def)

lemma mm_map_mm0:
  "\<exists>mm'. mm_map True mm0 0x804010 0x1000 3 = Some (0, Some \<lparr>vm_start = 0x804000, vm_end = 0x806000, vm_flags = 3\<rparr>, mm')"
  "mm_map True mm0 0x7FF010 0x1000 3 = None"
  by (simp_all add: mm_map_def ROUNDUP_def ROUNDDOWN_def Let_def mm0_def USER_ACCESS_def find_vma_def in_vma_def vma_create_def
      insert_vma_struct_def check_vma_overlap_def)

lemma mm_map_exact_witness:
  "(\<exists>mm'. mm_map True mm0 0x804010 0x1000 3 = Some (0, Some \<lparr>vm_start = 0x804000, vm_end = 0x806000, vm_flags = 3\<rparr>, mm') \<and> mm_ok mm') \<and>
    (\<exists>a. 0x7FF000 \<le> a \<and> a < 0x801000 \<and> prot mm0 a \<noteq> None)"
proof -
  obtain mm' where r: "mm_map True mm0 0x804010 0x1000 3 = Some (0, Some \<lparr>vm_start = 0x804000, vm_end = 0x806000, vm_flags = 3\<rparr>, mm')"
    using mm_map_mm0(1) by blast
  moreover have "mm_ok mm'"
    using mm_map_exact [OF mm0_ok refl refl, where got = True and addr = "0x804010" and len = "0x1000" and fl = "3"] unfolding r by simp
  moreover have "\<exists>a. 0x7FF000 \<le> a \<and> a < 0x801000 \<and> prot mm0 a \<noteq> None"
    using mm_map_exact [OF mm0_ok refl refl, where got = True and addr = "0x7FF010" and len = "0x1000" and fl = "3"] unfolding mm_map_mm0(2)
    by (simp add: ROUNDUP_def ROUNDDOWN_def)
  ultimately show ?thesis by blast
qed


section \<open>Access checks\<close>

definition accessible :: "mm_struct \<Rightarrow> bool \<Rightarrow> u64 \<Rightarrow> bool" where
  "accessible mm wr a =
     (case area mm a of
        None \<Rightarrow> False
      | Some v \<Rightarrow> vm_flags v AND (if wr then VM_WRITE else VM_READ) \<noteq> 0 \<and>
          \<not> (wr \<and> vm_flags v AND VM_STACK \<noteq> 0 \<and> a < vm_start v + PGSIZE))"

lemma accessible_iff:
  assumes "mm_ok mm"
  shows "accessible mm wr a \<longleftrightarrow> (\<exists>v\<in>set (mmap_list mm). in_vma a v \<and>
    vm_flags v AND (if wr then VM_WRITE else VM_READ) \<noteq> 0 \<and>
    (wr \<and> vm_flags v AND VM_STACK \<noteq> 0 \<longrightarrow> vm_start v + PGSIZE \<le> a))"
proof -
  have "accessible mm wr a \<longleftrightarrow> (\<exists>v. area mm a = Some v \<and> vm_flags v AND (if wr then VM_WRITE else VM_READ) \<noteq> 0 \<and>
    (wr \<and> vm_flags v AND VM_STACK \<noteq> 0 \<longrightarrow> vm_start v + PGSIZE \<le> a))"
    unfolding accessible_def by (cases "area mm a") (auto simp: not_less)
  then show ?thesis unfolding area_Some_iff [OF assms] by blast
qed

lemma accessible_cache [simp]: "accessible (mm\<lparr>mmap_cache := c\<rparr>) = accessible mm"
  by (simp add: accessible_def fun_eq_iff)

lemma mem_check_loop_exact:
  "mm_ok mm \<Longrightarrow> \<exists>c. mem_check_loop mm s e wr = ((\<forall>a. s \<le> a \<and> a < e \<longrightarrow> accessible mm wr a), mm\<lparr>mmap_cache := c\<rparr>) \<and>
     mm_ok (mm\<lparr>mmap_cache := c\<rparr>)"
proof (induction mm s e wr rule: mem_check_loop.induct)
  case (1 mm s e wr)
  obtain c where c: "find_vma mm s = (area mm s, mm\<lparr>mmap_cache := c\<rparr>)" "mm_ok (mm\<lparr>mmap_cache := c\<rparr>)"
    using find_vma_exact [OF 1(2)] by blast
  show ?case
  proof (cases "s < e")
    case False
    then have "\<not> (s \<le> a \<and> a < e)" for a by auto
    moreover have "mm = mm\<lparr>mmap_cache := mmap_cache mm\<rparr>" by simp
    moreover have "mem_check_loop mm s e wr = (True, mm)" using False by (simp add: mem_check_loop.simps)
    ultimately show ?thesis using 1(2) by (intro exI [of _ "mmap_cache mm"]) auto
  next
    case lt: True
    show ?thesis
    proof (cases "accessible mm wr s")
      case False
      then have "mem_check_loop mm s e wr = (False, mm\<lparr>mmap_cache := c\<rparr>)"
        using lt c(1) by (subst mem_check_loop.simps) (auto simp: accessible_def split: option.splits)
      then show ?thesis using False lt c(2) by auto
    next
      case True
      then obtain v where v: "area mm s = Some v" by (auto simp: accessible_def split: option.splits)
      then have "in_vma s v" using area_Some_iff [OF 1(2)] by simp
      then have sv: "vm_start v \<le> s" "s < vm_end v" by (simp_all add: in_vma_def)
      have step: "mem_check_loop mm s e wr = mem_check_loop (mm\<lparr>mmap_cache := c\<rparr>) (vm_end v) e wr"
        using lt c(1) v True sv by (subst mem_check_loop.simps) (auto simp: accessible_def)
      have "area mm a = Some v" if "s \<le> a" "a < vm_end v" for a
        using area_Some_iff [OF 1(2)] v that sv by (auto simp: in_vma_def)
      then have acc: "accessible mm wr a" if "s \<le> a" "a < vm_end v" for a
        using True v that by (auto simp: accessible_def)
      have "(\<forall>a. vm_end v \<le> a \<and> a < e \<longrightarrow> accessible mm wr a) \<longleftrightarrow> (\<forall>a. s \<le> a \<and> a < e \<longrightarrow> accessible mm wr a)"
      proof (intro iffI allI impI)
        fix a assume "\<forall>a. vm_end v \<le> a \<and> a < e \<longrightarrow> accessible mm wr a" "s \<le> a \<and> a < e"
        then show "accessible mm wr a" using acc [of a] by (cases "a < vm_end v") (auto simp: not_less)
      next
        fix a assume "\<forall>a. s \<le> a \<and> a < e \<longrightarrow> accessible mm wr a" "vm_end v \<le> a \<and> a < e"
        then show "accessible mm wr a" using sv by auto
      qed
      moreover have "\<exists>d. mem_check_loop (mm\<lparr>mmap_cache := c\<rparr>) (vm_end v) e wr =
          ((\<forall>a. vm_end v \<le> a \<and> a < e \<longrightarrow> accessible mm wr a), mm\<lparr>mmap_cache := d\<rparr>) \<and> mm_ok (mm\<lparr>mmap_cache := d\<rparr>)"
      proof -
        have "\<not> s < vm_start v" using sv by simp
        moreover have "vm_flags v AND (if wr then VM_WRITE else VM_READ) \<noteq> 0"
          "\<not> (wr \<and> vm_flags v AND VM_STACK \<noteq> 0 \<and> s < vm_start v + PGSIZE)"
          using True v unfolding accessible_def by simp_all
        moreover have "(Some v, mm\<lparr>mmap_cache := c\<rparr>) = find_vma mm s" using c(1) v by simp
        ultimately show ?thesis using 1(1) [OF lt _ refl _ _ _ c(2)] by simp
      qed
      ultimately show ?thesis unfolding step by simp
    qed
  qed
qed

lemma USER_ACCESS_len:
  "USER_ACCESS addr (addr + len) \<longleftrightarrow> 0 < len \<and> 0x200000 \<le> unat addr \<and> unat addr + unat len \<le> 0x80000000"
proof (cases "unat addr + unat len < 2 ^ 64")
  case True
  then have "unat (addr + len) = unat addr + unat len" by (simp add: unat_word_ariths)
  then show ?thesis by (auto simp: USER_ACCESS_def word_le_nat_alt word_less_nat_alt)
next
  case False
  have l: "unat addr < 2 ^ 64" "unat len < 2 ^ 64" using unsigned_less [of addr] unsigned_less [of len] by simp_all
  have "unat (addr + len) = (unat addr + unat len) mod 2 ^ 64" by (simp add: unat_word_ariths)
  also have "\<dots> = (unat addr + unat len - 2 ^ 64) mod 2 ^ 64" using False by (intro le_mod_geq) simp
  also have "\<dots> = unat addr + unat len - 2 ^ 64" using l by (intro mod_less) linarith
  finally have "\<not> addr < addr + len" using l by (simp add: word_less_nat_alt)
  then show ?thesis using False by (auto simp: USER_ACCESS_def)
qed

lemma unat_offset:
  assumes "unat (a :: u64) + i < 2 ^ 64"
  shows "unat (a + word_of_nat i) = unat a + i"
proof -
  have "i < 2 ^ 64" using assms by simp
  then have "unat (word_of_nat i :: u64) = i" by (simp add: unsigned_of_nat take_bit_nat_eq_self)
  then show ?thesis using assms by (simp add: unat_word_ariths)
qed

lemma range_offsets:
  assumes "unat (addr :: u64) + unat (len :: u64) < 2 ^ 64"
  shows "(\<forall>a. addr \<le> a \<and> a < addr + len \<longrightarrow> P a) \<longleftrightarrow> (\<forall>i<unat len. P (addr + word_of_nat i))"
proof
  assume l: "\<forall>a. addr \<le> a \<and> a < addr + len \<longrightarrow> P a"
  show "\<forall>i<unat len. P (addr + word_of_nat i)"
  proof (intro allI impI)
    fix i assume i: "i < unat len"
    then have "unat addr + i < 2 ^ 64" using assms by linarith
    then have "unat (addr + word_of_nat i) = unat addr + i" by (rule unat_offset)
    moreover have "unat (addr + len) = unat addr + unat len" using unat_offset [of addr "unat len"] assms by simp
    ultimately show "P (addr + word_of_nat i)" using l i by (simp add: word_le_nat_alt word_less_nat_alt)
  qed
next
  assume r: "\<forall>i<unat len. P (addr + word_of_nat i)"
  show "\<forall>a. addr \<le> a \<and> a < addr + len \<longrightarrow> P a"
  proof (intro allI impI)
    fix a assume a: "addr \<le> a \<and> a < addr + len"
    have "unat (addr + len) = unat addr + unat len" using assms by (simp add: unat_word_ariths)
    then have "unat (a - addr) < unat len" using a by (simp add: unat_sub word_less_nat_alt word_le_nat_alt) linarith
    then have "P (addr + word_of_nat (unat (a - addr)))" using r by blast
    then show "P a" by simp
  qed
qed

text \<open>The check without its effect on the cache.\<close>

definition may_access :: "mm_struct \<Rightarrow> u64 \<Rightarrow> u64 \<Rightarrow> bool \<Rightarrow> bool" where
  "may_access mm addr len wr \<longleftrightarrow> 0 < len \<and> 0x200000 \<le> unat addr \<and> unat addr + unat len \<le> 0x80000000 \<and>
     (\<forall>i<unat len. accessible mm wr (addr + word_of_nat i))"

lemma user_mem_check_eq:
  assumes "mm_ok mm"
  shows "\<exists>c. user_mem_check (Some mm) addr len wr = (may_access mm addr len wr, Some (mm\<lparr>mmap_cache := c\<rparr>)) \<and>
     mm_ok (mm\<lparr>mmap_cache := c\<rparr>)"
proof (cases "USER_ACCESS addr (addr + len)")
  case False
  then have "user_mem_check (Some mm) addr len wr = (may_access mm addr len wr, Some (mm\<lparr>mmap_cache := mmap_cache mm\<rparr>))"
    unfolding USER_ACCESS_len may_access_def user_mem_check_def by (auto simp: USER_ACCESS_len)
  then show ?thesis using assms by (metis mm_struct.surjective mm_struct.update_convs(2))
next
  case True
  then have b: "unat addr + unat len < 2 ^ 64" unfolding USER_ACCESS_len by simp
  obtain c where "mem_check_loop mm addr (addr + len) wr =
      ((\<forall>a. addr \<le> a \<and> a < addr + len \<longrightarrow> accessible mm wr a), mm\<lparr>mmap_cache := c\<rparr>)" "mm_ok (mm\<lparr>mmap_cache := c\<rparr>)"
    using mem_check_loop_exact [OF assms] by blast
  then show ?thesis using True
    unfolding range_offsets [OF b] user_mem_check_def may_access_def by (auto simp: USER_ACCESS_len)
qed


text \<open>C13. \<^verbatim>\<open>user_mem_check\<close> accepts a range of user memory exactly when it is not empty, lies within user space (without
  wrapping around), and every byte of it lies in an area with the right flag, for a write to a stack area not in its
  lowest page. It changes nothing but the cached area.\<close>

theorem user_mem_check_exact:
  assumes "mm_ok mm"
  shows "case user_mem_check (Some mm) addr len wr of (ok, mm') \<Rightarrow>
    (ok \<longleftrightarrow> 0 < len \<and> 0x200000 \<le> unat addr \<and> unat addr + unat len \<le> 0x80000000 \<and>
      (\<forall>i<unat len. \<exists>v\<in>set (mmap_list mm). in_vma (addr + word_of_nat i) v \<and>
         vm_flags v AND (if wr then VM_WRITE else VM_READ) \<noteq> 0 \<and>
         (wr \<and> vm_flags v AND VM_STACK \<noteq> 0 \<longrightarrow> vm_start v + PGSIZE \<le> addr + word_of_nat i))) \<and>
    (\<exists>c. mm' = Some (mm\<lparr>mmap_cache := c\<rparr>) \<and> mm_ok (mm\<lparr>mmap_cache := c\<rparr>))"
  using user_mem_check_eq [OF assms, of addr len wr] unfolding may_access_def accessible_iff [OF assms] by auto

lemma user_mem_check_exact_witness:
  "\<exists>c. user_mem_check (Some mm0) 0x800010 0x100 False = (True, Some (mm0\<lparr>mmap_cache := c\<rparr>)) \<and> mm_ok (mm0\<lparr>mmap_cache := c\<rparr>)"
proof -
  have "fst (user_mem_check (Some mm0) 0x800010 0x100 False)"
    by (simp add: user_mem_check_def USER_ACCESS_def mem_check_loop.simps find_vma_def mm0_def in_vma_def Let_def)
  moreover obtain ok mm' where r: "user_mem_check (Some mm0) 0x800010 0x100 False = (ok, mm')" by fastforce
  ultimately have "ok" by simp
  then show ?thesis using user_mem_check_exact [OF mm0_ok, where addr = "0x800010" and len = "0x100" and wr = False] unfolding r by auto
qed

end
