(* ===== verification/LoadProps.thy ===== *)
theory LoadProps
  imports LoadFill VmmProps
begin

text \<open>
  Properties of loading: after the loop over the program headers each segment is in memory as the file has it, with zeros
  behind the file's bytes, and nothing else has changed; or memory was short.
\<close>

section \<open>A segment\<close>

definition seg_lo :: "proghdr \<Rightarrow> nat" where
  "seg_lo ph = unat (p_va ph) div 4096"

definition seg_end :: "proghdr \<Rightarrow> nat" where
  "seg_end ph = unat (p_va ph) + unat (p_memsz ph)"

definition seg_hi :: "proghdr \<Rightarrow> nat" where
  "seg_hi ph = (seg_end ph - 1) div 4096 + 1"

definition seg_byte :: "u8 list \<Rightarrow> proghdr \<Rightarrow> nat \<Rightarrow> u8" where
  "seg_byte d ph x =
     (if x < unat (p_va ph) + unat (p_filesz ph) then d ! (unat (p_offset ph) + (x - unat (p_va ph))) else 0)"

text \<open>A segment to be loaded that lies in the file and in user memory.\<close>

definition seg_ok :: "u8 list \<Rightarrow> proghdr \<Rightarrow> bool" where
  "seg_ok d ph \<longleftrightarrow> p_type ph = 1 \<and> p_filesz ph \<le> p_memsz ph \<and> 0 < p_memsz ph \<and>
     unat (p_offset ph) + unat (p_filesz ph) \<le> length d \<and> 0x200000 \<le> unat (p_va ph) \<and> seg_end ph \<le> 0x80000000"

lemma mm_map_keeps:
  "mm_map got mm addr len fl = Some (ret, v, mm') \<Longrightarrow> mm_pgdir mm' = mm_pgdir mm \<and> mm_users mm' = mm_users mm"
  by (auto simp: mm_map_def Let_def find_vma_def insert_vma_struct_def bind_Some_conv split: if_splits option.splits prod.splits)

lemma seg_bounds:
  assumes "seg_ok d ph"
  shows "0x200 \<le> seg_lo ph" "seg_lo ph < seg_hi ph" "seg_hi ph \<le> 0x80000" "4096 * seg_lo ph \<le> unat (p_va ph)"
    "seg_end ph \<le> 4096 * seg_hi ph" "4096 * (seg_hi ph - 1) < seg_end ph"
    "ROUNDDOWN (p_va ph) PGSIZE = page_va (seg_lo ph)" "ROUNDUP (p_va ph + p_memsz ph) PGSIZE = page_va (seg_hi ph)"
proof -
  let ?a = "unat (p_va ph)" and ?e = "seg_end ph"
  have s: "0x200000 \<le> ?a" "?a < ?e" "?e \<le> 0x80000000" using assms by (simp_all add: seg_ok_def seg_end_def word_less_nat_alt)
  have "0x200000 div 4096 \<le> seg_lo ph" unfolding seg_lo_def using s(1) by (rule div_le_mono)
  then show "0x200 \<le> seg_lo ph" by simp
  have "seg_lo ph \<le> (?e - 1) div 4096" unfolding seg_lo_def by (rule div_le_mono) (use s in simp)
  then show "seg_lo ph < seg_hi ph" by (simp add: seg_hi_def)
  have "(?e - 1) div 4096 \<le> 0x7FFFFFFF div 4096" by (rule div_le_mono) (use s in simp)
  then show hi: "seg_hi ph \<le> 0x80000" by (simp add: seg_hi_def)
  show lo: "4096 * seg_lo ph \<le> ?a" by (simp add: seg_lo_def)
  show "?e \<le> 4096 * seg_hi ph" "4096 * (seg_hi ph - 1) < ?e" using s mult_div_mod_eq [of 4096 "?e - 1"] mod_less_divisor [of 4096 "?e - 1"] unfolding seg_hi_def by simp_all
  have "unat (ROUNDDOWN (p_va ph) PGSIZE) = unat (page_va (seg_lo ph))"
    using unat_page_va [of "seg_lo ph"] lo s by (simp add: unat_ROUNDDOWN seg_lo_def)
  then show "ROUNDDOWN (p_va ph) PGSIZE = page_va (seg_lo ph)" by (simp add: word_unat_eq_iff)
  have ue: "unat (p_va ph + p_memsz ph) = ?e" using s by (simp add: seg_end_def unat_word_ariths)
  have "unat (ROUNDUP (p_va ph + p_memsz ph) PGSIZE) = (?e + 4096 - 1) div 4096 * 4096"
    using unat_ROUNDUP [of "PGSIZE" "p_va ph + p_memsz ph"] s unfolding ue by simp
  also have "(?e + 4096 - 1) div 4096 = seg_hi ph"
  proof -
    have "?e + 4096 - 1 = ?e - 1 + 4096" using s by simp
    then show ?thesis by (simp add: seg_hi_def)
  qed
  also have "seg_hi ph * 4096 = unat (page_va (seg_hi ph))" using unat_page_va [of "seg_hi ph"] hi by simp
  finally show "ROUNDUP (p_va ph + p_memsz ph) PGSIZE = page_va (seg_hi ph)" by (simp add: word_unat_eq_iff)
qed

lemma owns_kva:
  assumes "owns s r perm q p" "space_ok s F r"
  shows "page2kva s p = Some (p + nbase)"
  using assms space_frames [OF assms(2)] PPN_page2pa [of p] by (simp add: owns_def page2kva_def KADDR_def)

lemma zero_tail_ok:
  assumes E: "E1 < E2" "E2 \<le> 2 ^ 31" and n: "n = E1 div 4096" and z: "z = min E2 (4096 * (n + 1)) - E1"
    and k: "page2kva s pg = Some (pg + nbase)"
  shows "zero_tail (word_of_nat E2) \<lparr>cu_start = word_of_nat E1, cu_la = page_va (n + 1), cu_page = pg, cu_ret = rt\<rparr> s =
    Some (Some (word_of_nat (min E2 (4096 * (n + 1)))), page_put (pg + nbase) (E1 mod 4096) (replicate z 0) s)"
proof -
  let ?la = "page_va (n + 1)"
  note R = round_addresses [OF E n z]
  have b: "E1 < 4096 * (n + 1)" unfolding n by simp
  have "4096 * n \<le> E1" unfolding n by simp
  then have n64: "4096 * (n + 1) < 2 ^ 64" using E by simp
  have la: "?la = page_va n + PGSIZE" by (simp add: algebra_simps)
  have lt: "(word_of_nat E1 :: u64) < ?la" "(word_of_nat E2 :: u64) < ?la \<longleftrightarrow> E2 < 4096 * (n + 1)"
    using of_nat_less_64 [of E1 "4096 * (n + 1)"] of_nat_less_64 [of E2 "4096 * (n + 1)"] b E n64 by (simp_all del: of_nat_mult of_nat_add)
  have k1: "(word_of_nat E1 :: u64) + PGSIZE - ?la = word_of_nat E1 - page_va n" unfolding la by simp
  have ez: "E1 + z = min E2 (4096 * (n + 1))" using E b unfolding z by simp
  have w: "(word_of_nat E1 :: u64) + word_of_nat z = word_of_nat (min E2 (4096 * (n + 1)))" unfolding ez [symmetric] by simp
  have a: "((word_of_nat E2 :: u64) < ?la \<and> (word_of_nat (min E2 (4096 * (n + 1))) :: u64) = word_of_nat E2) \<or>
      (word_of_nat E2 \<ge> ?la \<and> (word_of_nat (min E2 (4096 * (n + 1))) :: u64) = ?la)"
    unfolding not_less [symmetric] lt(2) by (cases "E2 < 4096 * (n + 1)") (simp_all add: min_absorb1 min_absorb2 not_less del: mult_Suc_right)
  show ?thesis unfolding zero_tail_def cursor.simps Let_def k1
    using lt(1) R(1,2,5) a k unfolding R(4) [folded la] w by simp
qed

definition covered :: "mm_struct \<Rightarrow> kvm \<Rightarrow> nat \<Rightarrow> bool" where
  "covered mm s r \<longleftrightarrow> (\<forall>q < 0x80000. leaf s r (vpn_of q) \<noteq> None \<longrightarrow> prot mm (page_va q) \<noteq> None)"

definition seg_free :: "mm_struct \<Rightarrow> proghdr \<Rightarrow> bool" where
  "seg_free mm ph \<longleftrightarrow> (\<forall>a. seg_lo ph \<le> unat a div 4096 \<and> unat a div 4096 < seg_hi ph \<longrightarrow> prot mm a = None)"

definition seg_done :: "proghdr \<Rightarrow> nat \<Rightarrow> nat set \<Rightarrow> int option \<Rightarrow> nat set \<Rightarrow> bool" where
  "seg_done ph n' F res F' \<longleftrightarrow>
     (case res of
        None \<Rightarrow> n' = seg_hi ph \<and> card F \<le> card F' + 3 * (n' - seg_lo ph)
      | Some e \<Rightarrow> 4096 * n' < seg_end ph \<and> e = (if n' = seg_lo ph \<or> p_filesz ph = 0 then - E_NO_MEM else 0) \<and>
          card F \<le> 3 * (n' - seg_lo ph) + 2)"

lemma page_range_iff:
  assumes "n \<le> 0x80000"
  shows "page_va n \<le> a \<longleftrightarrow> n \<le> unat a div 4096" "a < page_va n \<longleftrightarrow> unat a div 4096 < n"
proof -
  have u: "unat (page_va n) = 4096 * n" using assms by (intro unat_page_va) simp
  show "page_va n \<le> a \<longleftrightarrow> n \<le> unat a div 4096" unfolding word_le_nat_alt u by (rule page_of_le)
  then show "a < page_va n \<longleftrightarrow> unat a div 4096 < n" by (simp only: not_le [symmetric])
qed

lemma seg_map:
  assumes ok: "seg_ok d ph" and mm: "mm_ok mm" and fr: "seg_free mm ph"
  shows "\<exists>v mm'. mm_map True mm (p_va ph) (p_memsz ph) fl = Some (0, v, mm') \<and> mm_ok mm' \<and> mm_pgdir mm' = mm_pgdir mm \<and>
    mm_users mm' = mm_users mm \<and>
    prot mm' = (\<lambda>a. if seg_lo ph \<le> unat a div 4096 \<and> unat a div 4096 < seg_hi ph then Some fl else prot mm a)"
proof -
  note B = seg_bounds [OF ok]
  let ?s = "page_va (seg_lo ph)" and ?e = "page_va (seg_hi ph)"
  have lo: "seg_lo ph \<le> 0x80000" using B by simp
  note R = page_range_iff [OF lo] page_range_iff [OF B(3)]
  have us: "unat ?s = 4096 * seg_lo ph" "unat ?e = 4096 * seg_hi ph" using unat_page_va [of "seg_lo ph"] unat_page_va [of "seg_hi ph"] B(2,3) by (simp_all del: of_nat_mult)
  have ua: "USER_ACCESS ?s ?e" unfolding USER_ACCESS_def word_le_nat_alt word_less_nat_alt us using B by simp
  have none: "prot mm a = None" if "?s \<le> a" "a < ?e" for a using that fr R by (simp only: seg_free_def)
  have "?s < ?e" using B by (simp add: word_less_nat_alt us del: of_nat_mult)
  then have s0: "prot mm ?s = None" by (intro none) simp
  have m: "case mm_map True mm (p_va ph) (p_memsz ph) fl of
      None \<Rightarrow> \<exists>a. ?s \<le> a \<and> a < ?e \<and> prot mm a \<noteq> None
    | Some (ret, v, mm') \<Rightarrow> mm_ok mm' \<and> ret = 0 \<and> prot mm' = (\<lambda>a. if ?s \<le> a \<and> a < ?e then Some fl else prot mm a)"
    using mm_map_ok [OF mm B(7) [symmetric] B(8) [symmetric], of True fl] ua s0
    by (auto split: option.splits)
  then obtain v mm' where r: "mm_map True mm (p_va ph) (p_memsz ph) fl = Some (0, v, mm')" "mm_ok mm'"
      "prot mm' = (\<lambda>a. if ?s \<le> a \<and> a < ?e then Some fl else prot mm a)"
    using none by (auto split: option.splits)
  then show ?thesis using mm_map_keeps [OF r(1)] unfolding R by blast
qed

lemma seg_perm_less: "seg_perm fl < 2 ^ 10"
  by (auto simp: seg_perm_def)

lemma seg_zeros:
  assumes sok: "seg_ok d ph" and perm: "perm < 2 ^ 10"
    and fl: "filled r perm (seg_lo ph) n1 {x. unat (p_va ph) \<le> x \<and> x < S \<and> x < 4096 * n1} (seg_byte d ph) s F s2 F1"
    and c: "card F \<le> card F1 + 3 * (n1 - seg_lo ph)" and n1: "seg_lo ph \<le> n1" "n1 \<le> seg_hi ph" "S < seg_end ph \<longrightarrow> n1 = S div 4096"
    and S: "S \<le> 4096 * n1 \<or> S = unat (p_va ph)" "S \<le> seg_end ph" "S = seg_end ph \<longrightarrow> n1 = seg_hi ph"
      "unat (p_va ph) + unat (p_filesz ph) \<le> S" "p_filesz ph \<noteq> 0 \<longrightarrow> seg_lo ph < n1"
    and un: "\<And>q. seg_lo ph \<le> q \<Longrightarrow> q < seg_hi ph \<Longrightarrow> leaf s r (vpn_of q) = None"
  shows "\<exists>res s' F' n'. zero_pages r perm (word_of_nat (seg_end ph)) (if p_filesz ph = 0 then - E_NO_MEM else 0) (word_of_nat S) (page_va n1) s2 =
      Some (res, s') \<and> seg_lo ph \<le> n' \<and> n' \<le> seg_hi ph \<and>
    filled r perm (seg_lo ph) n' {x. unat (p_va ph) \<le> x \<and> x < seg_end ph \<and> x < 4096 * n'} (seg_byte d ph) s F s' F' \<and>
    seg_done ph n' F res F'"
proof -
  let ?E = "seg_end ph" and ?lo = "seg_lo ph" and ?hi = "seg_hi ph" and ?g = "seg_byte d ph"
  let ?rt = "if p_filesz ph = 0 then - E_NO_MEM else 0"
  note B = seg_bounds [OF sok]
  have E: "?E \<le> 2 ^ 31" "S < 2 ^ 64" using sok S(2) by (simp_all add: seg_ok_def)
  have A: "space_ok s2 F1 r" "refs_free s2 F1" using fl by (simp_all add: filled_def)
  have u: "\<forall>q. n1 \<le> q \<and> 4096 * q < ?E \<longrightarrow> leaf s2 r (vpn_of q) = None"
  proof (intro allI impI)
    fix q assume q: "n1 \<le> q \<and> 4096 * q < ?E"
    then have "4096 * q < 4096 * ?hi" using B(5) by linarith
    then have "q < ?hi" by simp
    then show "leaf s2 r (vpn_of q) = None" using filled_leaf [OF fl, of q] un [of q] q n1(1) B(3) by simp
  qed
  have g: "\<forall>x. S \<le> x \<and> x < ?E \<longrightarrow> ?g x = 0" using S(4) by (simp add: seg_byte_def)
  obtain res s' F' n' where Z: "zero_pages r perm (word_of_nat ?E) ?rt (word_of_nat S) (page_va n1) s2 = Some (res, s')" "n1 \<le> n'"
      "n' \<le> max n1 (2 ^ 20)" "filled r perm n1 n' {x. S \<le> x \<and> x < ?E \<and> x < 4096 * n'} ?g s2 F1 s' F'"
    and D: "case res of Some e \<Rightarrow> e = ?rt \<and> 4096 * n' < ?E \<and> card F1 \<le> 3 * (n' - n1) + 2
      | None \<Rightarrow> card F1 \<le> card F' + 3 * (n' - n1) \<and> n' = (if S < ?E then (?E - 1) div 4096 + 1 else n1)"
    using zero_pages_runs [OF perm E(1) A n1(3) u g E(2), of ?rt] by blast
  have "n' \<le> 2 ^ 27" using Z(3) n1(2) B(3) by simp
  then have f: "filled r perm ?lo n' {x. unat (p_va ph) \<le> x \<and> x < ?E \<and> x < 4096 * n'} ?g s F s' F'"
    using S(1,2) by (intro filled_trans [OF fl Z(4) n1(1) Z(2)]) auto
  have hi: "n' = ?hi" if "res = None" using D that S(2,3) by (auto simp: seg_hi_def)
  have le: "n' \<le> ?hi"
  proof (cases res)
    case (Some e)
    then have "4096 * n' < 4096 * ?hi" using D B(5) by simp
    then show ?thesis by simp
  qed (simp add: hi)
  have "seg_done ph n' F res F'"
  proof (cases res)
    case None
    have "card F1 \<le> card F' + 3 * (n' - n1)" using D unfolding None option.case by (rule conjunct1)
    then have "card F \<le> card F' + 3 * (n' - ?lo)" using c n1(1) Z(2) by linarith
    then show ?thesis using None hi by (simp add: seg_done_def)
  next
    case (Some e)
    then have D1: "e = ?rt" "4096 * n' < ?E" "card F1 \<le> 3 * (n' - n1) + 2" using D by simp_all
    then have "card F \<le> 3 * (n' - ?lo) + 2" using c n1(1) Z(2) by linarith
    then show ?thesis using Some D1 S(5) Z(2) by (auto simp: seg_done_def)
  qed
  then show ?thesis using Z(1) f le n1(1) Z(2) by (intro exI [of _ res] exI [of _ s'] exI [of _ F'] exI [of _ n']) simp
qed

lemma load_segment_runs:
  assumes hf: "holds_file seek rd d I" and sok: "seg_ok d ph" and mm: "mm_ok mm" "mm_pgdir mm = Some r" "seg_free mm ph" "covered mm s r"
    and ok: "space_ok s F r" "refs_free s F" "I f"
  shows "\<exists>res mm' s' f' F' n'. load_segment seek rd True ph mm s f = Some (res, mm', s', f') \<and> I f' \<and>
    mm_ok mm' \<and> mm_pgdir mm' = Some r \<and> mm_users mm' = mm_users mm \<and>
    prot mm' = (\<lambda>a. if seg_lo ph \<le> unat a div 4096 \<and> unat a div 4096 < seg_hi ph then Some (seg_flags ph) else prot mm a) \<and>
    seg_lo ph \<le> n' \<and> n' \<le> seg_hi ph \<and>
    filled r (seg_perm (seg_flags ph)) (seg_lo ph) n' {x. unat (p_va ph) \<le> x \<and> x < seg_end ph \<and> x < 4096 * n'} (seg_byte d ph) s F s' F' \<and>
    seg_done ph n' F res F'"
proof -
  let ?perm = "seg_perm (seg_flags ph)" and ?lo = "seg_lo ph" and ?hi = "seg_hi ph" and ?a = "unat (p_va ph)" and ?E = "seg_end ph"
  let ?E1 = "?a + unat (p_filesz ph)" and ?g = "seg_byte d ph"
  note B = seg_bounds [OF sok] and perm = seg_perm_less [of "seg_flags ph"]
  have S: "p_type ph = 1" "\<not> p_memsz ph < p_filesz ph" "?E1 \<le> ?E" "?a < ?E" "?E \<le> 2 ^ 31" "?E1 \<le> 2 ^ 31"
      "unat (p_offset ph) + (?E1 - ?a) \<le> length d"
    using sok by (auto simp: seg_ok_def seg_end_def word_le_nat_alt word_less_nat_alt)
  obtain v mm' where m: "mm_map True mm (p_va ph) (p_memsz ph) (seg_flags ph) = Some (0, v, mm')" "mm_ok mm'" "mm_pgdir mm' = mm_pgdir mm"
    "mm_users mm' = mm_users mm"
    "prot mm' = (\<lambda>a. if ?lo \<le> unat a div 4096 \<and> unat a div 4096 < ?hi then Some (seg_flags ph) else prot mm a)"
    using seg_map [OF sok mm(1,3), of "seg_flags ph"] by blast
  have un: "leaf s r (vpn_of q) = None" if "?lo \<le> q" "q < ?hi" for q
  proof -
    have q: "q < 0x80000" using that B(3) by simp
    then have "unat (page_va q) div 4096 = q" using unat_page_va [of q] by simp
    then have "prot mm (page_va q) = None" using mm(3) that unfolding seg_free_def by (metis)
    then show ?thesis using mm(4) q unfolding covered_def by blast
  qed
  have E1: "p_va ph + p_filesz ph = word_of_nat ?E1" and E2: "p_va ph + p_memsz ph = word_of_nat ?E" by (simp_all add: seg_end_def)
  let ?c = "\<lparr>cu_start = word_of_nat ?a, cu_la = page_va ?lo, cu_page = 0, cu_ret = - E_NO_MEM\<rparr>"
  have c: "\<lparr>cu_start = p_va ph, cu_la = ROUNDDOWN (p_va ph) PGSIZE, cu_page = 0, cu_ret = - E_NO_MEM\<rparr> = ?c" using B(7) by simp
  have hiq: "q < ?hi" if "4096 * q < ?E" for q using that B(5) by linarith
  have u1: "\<forall>q. ?lo \<le> q \<and> 4096 * q < ?E1 \<longrightarrow> leaf s r (vpn_of q) = None" using un hiq S(3) by (meson less_le_trans)
  have g1: "\<forall>i < ?E1 - ?a. ?g (?a + i) = d ! (unat (p_offset ph) + i)" by (auto simp: seg_byte_def)
  have n0: "?a < ?E1 \<longrightarrow> ?lo = ?a div 4096" and a64: "?a < 2 ^ 64" using S(4,5) by (simp_all add: seg_lo_def)
  obtain res1 s1 f1 F1 n1 where T: "load_text seek rd r ?perm (word_of_nat ?E1) ?c (word_of_nat (unat (p_offset ph))) s f = Some (res1, s1, f1)"
    "I f1" "?lo \<le> n1" "filled r ?perm ?lo n1 {x. ?a \<le> x \<and> x < ?E1 \<and> x < 4096 * n1} ?g s F s1 F1"
    "text_done r ?perm ?lo n1 ?a ?E1 ?c s F res1 s1 F1"
    using load_text_runs [OF hf perm S(6) ok n0 S(7) u1 g1 refl a64] by blast
  note D = T(5) [unfolded text_done_def]
  have pg: "mm_pgdir mm' = Some r" using m(3) mm(2) by simp
  have T1: "load_text seek rd r ?perm (p_va ph + p_filesz ph) \<lparr>cu_start = p_va ph, cu_la = ROUNDDOWN (p_va ph) PGSIZE, cu_page = 0, cu_ret = - E_NO_MEM\<rparr>
      (p_offset ph) s f = Some (res1, s1, f1)" using T(1) unfolding c E1 by simp
  have eq: "load_segment seek rd True ph mm s f = (case res1 of
      Inl ret \<Rightarrow> Some (Some ret, mm', s1, f1)
    | Inr c \<Rightarrow> do {
        (start, s2) \<leftarrow> zero_tail (p_va ph + p_memsz ph) c s1;
        (case start of
           None \<Rightarrow> Some (None, mm', s2, f1)
         | Some start \<Rightarrow> do {
             (r, s3) \<leftarrow> zero_pages r ?perm (p_va ph + p_memsz ph) (cu_ret c) start (cu_la c) s2;
             Some (r, mm', s3, f1)
           })
      })"
    unfolding load_segment_def Let_def using S(1,2) m(1) pg T1 by simp
  have fin: ?thesis if "load_segment seek rd True ph mm s f = Some (res, mm', s', f1)" "?lo \<le> n'" "n' \<le> ?hi"
      "filled r ?perm ?lo n' {x. ?a \<le> x \<and> x < ?E \<and> x < 4096 * n'} ?g s F s' F'" "seg_done ph n' F res F'" for res s' F' n'
    using that T(2) m(2,4,5) pg by blast
  show ?thesis
  proof (cases res1)
    case (Inl e)
    then have D1: "4096 * n1 < ?E1" "e = (if n1 = ?lo then - E_NO_MEM else 0)" "card F \<le> 3 * (n1 - ?lo) + 2" using D by simp_all
    have "n1 = ?lo" if "p_filesz ph = 0"
    proof -
      have "4096 * n1 < 4096 * (?lo + 1)" using D1(1) that by (simp add: seg_lo_def)
      then show ?thesis using T(3) by simp
    qed
    then have "seg_done ph n1 F (Some e) F1" using D1 S(3) by (auto simp: seg_done_def)
    moreover have "{x. ?a \<le> x \<and> x < ?E \<and> x < 4096 * n1} = {x. ?a \<le> x \<and> x < ?E1 \<and> x < 4096 * n1}" using D1(1) S(3) by auto
    moreover have "n1 \<le> ?hi" using hiq [of n1] D1(1) S(3) by simp
    ultimately show ?thesis using fin [of "Some e" s1 n1 F1] T(3,4) eq Inl by simp
  next
    case (Inr c')
    have zeros: ?thesis if Z: "zero_tail (word_of_nat ?E) c' s1 = Some (Some (word_of_nat x), s2)" "cu_la c' = page_va n1"
        "cu_ret c' = (if p_filesz ph = 0 then - E_NO_MEM else 0)"
        "filled r ?perm ?lo n1 {y. ?a \<le> y \<and> y < x \<and> y < 4096 * n1} ?g s F s2 F1" "card F \<le> card F1 + 3 * (n1 - ?lo)" "n1 \<le> ?hi"
        "x < ?E \<longrightarrow> n1 = x div 4096" "x \<le> 4096 * n1 \<or> x = ?a" "x \<le> ?E" "x = ?E \<longrightarrow> n1 = ?hi" "?E1 \<le> x"
        "p_filesz ph \<noteq> 0 \<longrightarrow> ?lo < n1" for x s2
    proof -
      obtain res s' F' n' where "zero_pages r ?perm (word_of_nat ?E) (cu_ret c') (word_of_nat x) (cu_la c') s2 = Some (res, s')" "?lo \<le> n'" "n' \<le> ?hi"
          "filled r ?perm ?lo n' {x. ?a \<le> x \<and> x < ?E \<and> x < 4096 * n'} ?g s F s' F'" "seg_done ph n' F res F'"
        using seg_zeros [OF sok perm Z(4,5) T(3) Z(6-12) un] unfolding Z(2,3) by blast
      then show ?thesis using fin [of res s' n' F'] eq [unfolded E2] Inr Z(1) by simp
    qed
    show ?thesis
    proof (cases "?a < ?E1")
      case False
      then have f0: "p_filesz ph = 0" "c' = ?c" "n1 = ?lo" "s1 = s" "F1 = F" using D Inr by (simp_all add: word_unat_eq_iff)
      have "page_va ?lo \<le> p_va ph" using ROUNDDOWN_le [of "p_va ph" PGSIZE] unfolding B(7) .
      then have "\<not> cu_start c' < cu_la c'" unfolding f0 by (simp add: not_less del: of_nat_mult)
      then have z: "zero_tail (word_of_nat ?E) c' s1 = Some (Some (word_of_nat ?a), s)" unfolding zero_tail_def by (simp add: f0)
      show ?thesis
      proof (rule zeros [OF z])
        show "filled r ?perm ?lo n1 {y. ?a \<le> y \<and> y < ?a \<and> y < 4096 * n1} ?g s F s F1"
          unfolding f0 by (intro filled_empty filled_refl ok(1,2)) simp
      qed (use f0 S(4) B(2) in \<open>simp_all add: seg_lo_def\<close>)
    next
      case True
      then have fs: "p_filesz ph \<noteq> 0" by auto
      have A: "n1 = (?E1 - 1) div 4096 + 1" "cu_page c' \<in> F" "owns s1 r ?perm (n1 - 1) (cu_page c')" "card F \<le> card F1 + 3 * (n1 - ?lo)"
          "c' = \<lparr>cu_start = word_of_nat ?E1, cu_la = page_va n1, cu_page = cu_page c', cu_ret = 0\<rparr>"
        using D [unfolded Inr sum.case if_P [OF True]] by blast+
      have b1: "4096 * (n1 - 1) < ?E1" "?E1 \<le> 4096 * n1"
        using True mult_div_mod_eq [of 4096 "?E1 - 1"] mod_less_divisor [of 4096 "?E1 - 1"] unfolding A(1) by simp_all
      have "(?E1 - 1) div 4096 \<le> (?E - 1) div 4096" using S(3) by (intro div_le_mono) simp
      then have nhi: "n1 \<le> ?hi" unfolding A(1) seg_hi_def by simp
      have nlo: "?lo < n1"
      proof -
        have "4096 * ?lo < 4096 * n1" using B(4) True b1(2) by linarith
        then show ?thesis by simp
      qed
      have hi1: "n1 = ?hi" if "?E \<le> 4096 * n1"
      proof -
        have "4096 * (?hi - 1) < 4096 * n1" using B(6) that by linarith
        then show ?thesis using nhi by simp
      qed
      have cs: "cu_la c' = page_va n1" "cu_ret c' = (if p_filesz ph = 0 then - E_NO_MEM else 0)" using A(5) fs by (metis cursor.simps(2), metis cursor.simps(4))
      have n64: "n1 < 2 ^ 27" using nhi B(3) by simp
      show ?thesis
      proof (cases "?E1 = 4096 * n1")
        case True
        then have "zero_tail (word_of_nat ?E) c' s1 = Some (Some (word_of_nat ?E1), s1)" by (subst A(5)) (simp add: zero_tail_def)
        then show ?thesis
        proof (rule zeros [OF _ cs])
          show "filled r ?perm ?lo n1 {y. ?a \<le> y \<and> y < ?E1 \<and> y < 4096 * n1} ?g s F s1 F1" by (rule T(4))
        qed (use A(4) nhi nlo hi1 True S(3) in \<open>simp_all del: of_nat_add of_nat_mult\<close>)
      next
        case False
        then have lt: "?E1 < 4096 * n1" using b1(2) by simp
        then have q: "n1 - 1 = ?E1 div 4096" "n1 - 1 + 1 = n1" using b1(1) nlo by (auto intro!: div_nat_eqI [symmetric])
        show ?thesis
        proof (cases "?E1 = ?E")
          case True
          have "(word_of_nat ?E1 :: u64) < page_va n1" by (rule of_nat_less_64 [THEN iffD2]) (use lt n64 S(6) in simp_all)
          then have "zero_tail (word_of_nat ?E) c' s1 = Some (None, s1)" using True by (subst A(5)) (simp add: zero_tail_def)
          moreover have "seg_done ph n1 F None F1" using A(4) hi1 lt True by (simp add: seg_done_def)
          ultimately show ?thesis using fin [of None s1 n1 F1] T(3,4) nhi eq [unfolded E2] Inr True by simp
        next
          case False
          then have E12: "?E1 < ?E" using S(3) by simp
          define z where "z = min ?E (4096 * (n1 - 1 + 1)) - ?E1"
          have "space_ok s1 F1 r" using T(4) by (simp add: filled_def)
          note kva = owns_kva [OF A(3) this]
          have len: "length (replicate z (0 :: u8)) = z" by simp
          have m4: "4096 * (n1 - 1) + ?E1 mod 4096 = ?E1" unfolding q(1) by simp
          let ?s2 = "page_put (cu_page c' + nbase) (?E1 mod 4096) (replicate z 0) s1" and ?x = "min ?E (4096 * n1)"
          have zt: "zero_tail (word_of_nat ?E) c' s1 = Some (Some (word_of_nat ?x), ?s2)"
            using zero_tail_ok [OF E12 S(5) q(1) z_def kva, of 0] unfolding q(2) A(5) [symmetric] .
          have f2: "filled r ?perm ?lo n1 {y. ?a \<le> y \<and> y < ?x \<and> y < 4096 * n1} ?g s F ?s2 F1"
          proof (rule filled_put(1) [OF T(4) A(3,2) perm])
            show "?E1 mod 4096 + length (replicate z (0 :: u8)) \<le> 4096"
              using round_addresses(7) [OF E12 S(5) q(1) z_def] len by simp
            show "\<forall>i < length (replicate z (0 :: u8)). ?g (4096 * (n1 - 1) + ?E1 mod 4096 + i) = replicate z 0 ! i"
              unfolding m4 by (simp add: seg_byte_def)
            show "{y. ?a \<le> y \<and> y < ?x \<and> y < 4096 * n1} \<subseteq> {x. ?a \<le> x \<and> x < ?E1 \<and> x < 4096 * n1} \<union>
                {4096 * (n1 - 1) + ?E1 mod 4096..<4096 * (n1 - 1) + ?E1 mod 4096 + length (replicate z (0 :: u8))}"
              unfolding m4 len z_def q(2) by auto
            show "\<forall>x \<in> {y. ?a \<le> y \<and> y < ?x \<and> y < 4096 * n1}. x < 4096 * 2 ^ 27" using S(5) by auto
          qed
          show ?thesis
          proof (rule zeros [OF zt cs f2 A(4) nhi])
            show "?x < ?E \<longrightarrow> n1 = ?x div 4096" by (simp add: min_def)
            show "?x = ?E \<longrightarrow> n1 = ?hi" using hi1 by (simp add: min_def split: if_splits)
          qed (use nlo E12 lt in simp_all)
        qed
      qed
    qed
  qed
qed

section \<open>All segments\<close>

text \<open>The headers that are loaded, the pages they take, and what it means that one is in memory: every byte of it is that of the
  file or zero, in a page with the permissions of the segment and in an area with its flags.\<close>

definition loads :: "proghdr list \<Rightarrow> proghdr list" where
  "loads phs = filter (\<lambda>ph. p_type ph = 1) phs"

definition seg_pages :: "proghdr \<Rightarrow> nat set" where
  "seg_pages ph = {seg_lo ph..<seg_hi ph}"

definition segs_size :: "proghdr list \<Rightarrow> nat" where
  "segs_size phs = sum_list (map (\<lambda>ph. seg_hi ph - seg_lo ph) (loads phs))"

definition segs_ok :: "u8 list \<Rightarrow> mm_struct \<Rightarrow> proghdr list \<Rightarrow> bool" where
  "segs_ok d mm phs \<longleftrightarrow> (\<forall>ph \<in> set (loads phs). seg_ok d ph \<and> seg_free mm ph) \<and>
     sorted_wrt (\<lambda>a b. seg_pages a \<inter> seg_pages b = {}) (loads phs)"

definition seg_loaded :: "u8 list \<Rightarrow> nat \<Rightarrow> mm_struct \<Rightarrow> kvm \<Rightarrow> proghdr \<Rightarrow> bool" where
  "seg_loaded d r mm s ph \<longleftrightarrow> (\<forall>x. unat (p_va ph) \<le> x \<and> x < seg_end ph \<longrightarrow>
     user_byte s r x = Some (seg_byte d ph x) \<and> prot mm (word_of_nat x) = Some (seg_flags ph) \<and>
     (\<exists>p. leaf s r (vpn_of (x div 4096)) = Some (entry_for p (seg_perm (seg_flags ph)))))"

text \<open>\<open>kept Q\<close>: everything but the pages \<open>Q\<close> of the address space is as before.\<close>

definition kept :: "nat set \<Rightarrow> nat \<Rightarrow> mm_struct \<Rightarrow> kvm \<Rightarrow> nat set \<Rightarrow> mm_struct \<Rightarrow> kvm \<Rightarrow> nat set \<Rightarrow> bool" where
  "kept Q r mm s F mm' s' F' \<longleftrightarrow> mm_pgdir mm' = mm_pgdir mm \<and> mm_users mm' = mm_users mm \<and> F' \<subseteq> F \<and> keeps_frames r s F s' \<and>
     (\<forall>a. unat a div 4096 \<notin> Q \<longrightarrow> prot mm' a = prot mm a) \<and>
     (\<forall>q < 2 ^ 27. q \<notin> Q \<longrightarrow> leaf s' r (vpn_of q) = leaf s r (vpn_of q))"

lemma kept_trans: "kept Q r mm s F mm1 s1 F1 \<Longrightarrow> kept P r mm1 s1 F1 mm2 s2 F2 \<Longrightarrow> kept (Q \<union> P) r mm s F mm2 s2 F2"
  unfolding kept_def using keeps_frames_trans by (elim conjE) (intro conjI, auto)

lemma kept_refl: "kept Q r mm s F mm s F"
  by (simp add: kept_def keeps_frames_def)

lemma seg_loaded_kept:
  assumes "seg_loaded d r mm s ph" "kept Q r mm s F mm' s' F'" "space_ok s F r" "seg_ok d ph" "seg_pages ph \<inter> Q = {}"
  shows "seg_loaded d r mm' s' ph"
  unfolding seg_loaded_def
proof (intro allI impI)
  fix x assume x: "unat (p_va ph) \<le> x \<and> x < seg_end ph"
  note B = seg_bounds [OF assms(4)] and K = assms(2) [unfolded kept_def]
  have lo: "seg_lo ph \<le> x div 4096" unfolding seg_lo_def using x by (intro div_le_mono) simp
  have "x div 4096 \<le> (seg_end ph - 1) div 4096" using x by (intro div_le_mono) linarith
  then have q: "x div 4096 \<in> seg_pages ph" using lo by (simp add: seg_pages_def seg_hi_def)
  have q27: "x div 4096 < 2 ^ 27" using q B(3) by (simp add: seg_pages_def)
  have "x < 2 ^ 64" using x B(3,5) by simp
  then have ux: "unat (word_of_nat x :: u64) = x" by (simp add: unat_of_nat)
  have nq: "x div 4096 \<notin> Q" using q assms(5) by blast
  have lf: "leaf s' r (vpn_of (x div 4096)) = leaf s r (vpn_of (x div 4096))" using K q27 nq by blast
  have "user_byte s' r x = user_byte s r x" using K by (intro keeps_bytes [OF assms(3) _ lf]) blast
  moreover have "prot mm' (word_of_nat x) = prot mm (word_of_nat x)" using K nq ux by simp
  ultimately show "user_byte s' r x = Some (seg_byte d ph x) \<and> prot mm' (word_of_nat x) = Some (seg_flags ph) \<and>
     (\<exists>p. leaf s' r (vpn_of (x div 4096)) = Some (entry_for p (seg_perm (seg_flags ph))))"
    using assms(1) x lf unfolding seg_loaded_def by simp
qed

lemma load_segment_step:
  assumes hf: "holds_file seek rd d I" and sok: "p_type ph = 1 \<longrightarrow> seg_ok d ph \<and> seg_free mm ph" and mm: "mm_ok mm" "mm_pgdir mm = Some r" "covered mm s r"
    and ok: "space_ok s F r" "refs_free s F" "I f"
  shows "\<exists>res mm' s' f' F'. load_segment seek rd True ph mm s f = Some (res, mm', s', f') \<and> I f' \<and> mm_ok mm' \<and>
    kept (if p_type ph = 1 then seg_pages ph else {}) r mm s F mm' s' F' \<and> covered mm' s' r \<and> space_ok s' F' r \<and> refs_free s' F' \<and>
    (case res of
       None \<Rightarrow> card F \<le> card F' + 3 * segs_size [ph] \<and> (p_type ph = 1 \<longrightarrow> seg_loaded d r mm' s' ph)
     | Some e \<Rightarrow> (e = - E_NO_MEM \<or> e = 0) \<and> card F \<le> 3 * segs_size [ph] + 2)"
proof (cases "p_type ph = 1")
  case False
  then have "load_segment seek rd True ph mm s f = Some (None, mm, s, f)" by (simp add: load_segment_def)
  then show ?thesis using False mm ok kept_refl by (intro exI [of _ None] exI [of _ mm] exI [of _ s] exI [of _ f] exI [of _ F]) simp
next
  case True
  let ?perm = "seg_perm (seg_flags ph)" and ?lo = "seg_lo ph" and ?hi = "seg_hi ph"
  have so: "seg_ok d ph" "seg_free mm ph" using sok True by simp_all
  note B = seg_bounds [OF so(1)]
  obtain res mm' s' f' F' n' where L: "load_segment seek rd True ph mm s f = Some (res, mm', s', f')" "I f'" "mm_ok mm'" "mm_pgdir mm' = Some r"
    "mm_users mm' = mm_users mm"
    "prot mm' = (\<lambda>a. if ?lo \<le> unat a div 4096 \<and> unat a div 4096 < ?hi then Some (seg_flags ph) else prot mm a)" "?lo \<le> n'" "n' \<le> ?hi"
    "filled r ?perm ?lo n' {x. unat (p_va ph) \<le> x \<and> x < seg_end ph \<and> x < 4096 * n'} (seg_byte d ph) s F s' F'" "seg_done ph n' F res F'"
    using load_segment_runs [OF hf so(1) mm(1,2) so(2) mm(3) ok] by blast
  note A = L(9) [unfolded filled_def]
  have lf: "leaf s' r (vpn_of q) = leaf s r (vpn_of q)" if "q < 2 ^ 27" "q \<notin> {?lo..<n'}" for q
  proof -
    have "vpn_of q \<notin> vpn_of ` {?lo..<n'}"
    proof
      assume "vpn_of q \<in> vpn_of ` {?lo..<n'}"
      then obtain m where m: "m \<in> {?lo..<n'}" "vpn_of q = vpn_of m" by blast
      moreover have "m < 2 ^ 27" using m(1) L(8) B(3) by simp
      ultimately show False using vpn_of_inject [of q m] that by blast
    qed
    then show ?thesis using A is_vpn_of by blast
  qed
  have k: "kept (seg_pages ph) r mm s F mm' s' F'" unfolding kept_def
  proof (intro conjI)
    show "\<forall>a. unat a div 4096 \<notin> seg_pages ph \<longrightarrow> prot mm' a = prot mm a" unfolding L(6) seg_pages_def by simp
    show "\<forall>q < 2 ^ 27. q \<notin> seg_pages ph \<longrightarrow> leaf s' r (vpn_of q) = leaf s r (vpn_of q)"
      using lf L(8) by (auto simp: seg_pages_def)
  qed (use A L(4,5) mm(2) in simp_all)
  have c: "covered mm' s' r" unfolding covered_def
  proof (intro allI impI)
    fix q assume q: "q < 0x80000" "leaf s' r (vpn_of q) \<noteq> None"
    then have u: "unat (page_va q) div 4096 = q" using unat_page_va [of q] by simp
    show "prot mm' (page_va q) \<noteq> None"
    proof (cases "q \<in> {?lo..<?hi}")
      case True
      then show ?thesis unfolding L(6) u by simp
    next
      case False
      then have "leaf s' r (vpn_of q) = leaf s r (vpn_of q)" using q(1) L(8) by (intro lf) auto
      then have "prot mm (page_va q) \<noteq> None" using mm(3) q unfolding covered_def by simp
      then show ?thesis using False unfolding L(6) u by auto
    qed
  qed
  have sz: "segs_size [ph] = ?hi - ?lo" using True by (simp add: segs_size_def loads_def)
  have r: "case res of
       None \<Rightarrow> card F \<le> card F' + 3 * segs_size [ph] \<and> (p_type ph = 1 \<longrightarrow> seg_loaded d r mm' s' ph)
     | Some e \<Rightarrow> (e = - E_NO_MEM \<or> e = 0) \<and> card F \<le> 3 * segs_size [ph] + 2"
  proof (cases res)
    case None
    then have n: "n' = ?hi" "card F \<le> card F' + 3 * (?hi - ?lo)" using L(10) by (auto simp: seg_done_def)
    have "seg_loaded d r mm' s' ph" unfolding seg_loaded_def
    proof (intro allI impI)
      fix x assume x: "unat (p_va ph) \<le> x \<and> x < seg_end ph"
      have xlt: "x < 4096 * ?hi" using x B(5) by simp
      then have "x < 2 ^ 64" using B(3) by simp
      then have ux: "unat (word_of_nat x :: u64) = x" by (simp add: unat_of_nat)
      have q: "?lo \<le> x div 4096" unfolding seg_lo_def using x by (intro div_le_mono) simp
      have q2: "x div 4096 < ?hi" using xlt by (intro less_mult_imp_div_less) simp
      have "user_byte s' r x = Some (seg_byte d ph x)" using A x xlt n(1) by blast
      moreover have "\<exists>p. leaf s' r (vpn_of (x div 4096)) = Some (entry_for p ?perm)"
        using A q q2 n(1) by (meson atLeastLessThan_iff)
      ultimately show "user_byte s' r x = Some (seg_byte d ph x) \<and> prot mm' (word_of_nat x) = Some (seg_flags ph) \<and>
        (\<exists>p. leaf s' r (vpn_of (x div 4096)) = Some (entry_for p ?perm))" unfolding L(6) ux using q q2 by simp
    qed
    then show ?thesis using None n(2) sz by simp
  next
    case (Some e)
    then have "e = - E_NO_MEM \<or> e = 0" "card F \<le> 3 * (n' - ?lo) + 2" using L(10) by (auto simp: seg_done_def)
    then show ?thesis using Some L(8) sz by auto
  qed
  show ?thesis using True L(1-3) k c r A by (intro exI [of _ res] exI [of _ mm'] exI [of _ s'] exI [of _ f'] exI [of _ F']) simp
qed

definition segs_pages :: "proghdr list \<Rightarrow> nat set" where
  "segs_pages phs = (\<Union>ph \<in> set (loads phs). seg_pages ph)"

lemma loads_simps [simp]:
  "loads [] = []" "loads (ph # phs) = (if p_type ph = 1 then ph # loads phs else loads phs)"
  by (simp_all add: loads_def)

lemma segs_size_Cons: "segs_size (ph # phs) = segs_size [ph] + segs_size phs"
  by (simp add: segs_size_def)

lemma segs_ok_kept:
  assumes "segs_ok d mm (ph # phs)" "kept (if p_type ph = 1 then seg_pages ph else {}) r mm s F mm' s' F'"
  shows "segs_ok d mm' phs"
proof -
  have "seg_free mm' q" if q: "q \<in> set (loads phs)" for q
  proof -
    have f: "seg_free mm q" using assms(1) q by (simp add: segs_ok_def split: if_splits)
    have f2: "seg_pages ph \<inter> seg_pages q = {}" if "p_type ph = 1" using assms(1) q that by (simp add: segs_ok_def)
    show ?thesis unfolding seg_free_def
    proof (intro allI impI)
      fix a assume a: "seg_lo q \<le> unat (a :: u64) div 4096 \<and> unat a div 4096 < seg_hi q"
      then have "unat a div 4096 \<in> seg_pages q" by (simp add: seg_pages_def)
      then have "unat a div 4096 \<notin> (if p_type ph = 1 then seg_pages ph else {})" using f2 by (auto split: if_splits)
      then have "prot mm' a = prot mm a" using assms(2) unfolding kept_def by blast
      then show "prot mm' a = None" using f a by (simp add: seg_free_def)
    qed
  qed
  then show ?thesis using assms(1) by (auto simp: segs_ok_def split: if_splits)
qed

lemma load_segments_runs:
  assumes hf: "holds_file seek rd d I"
  shows "\<lbrakk>\<forall>ph \<in> set phs. got ph; segs_ok d mm phs; mm_ok mm; mm_pgdir mm = Some r; covered mm s r; space_ok s F r; refs_free s F; I f\<rbrakk> \<Longrightarrow>
    \<exists>res mm' s' f' F'. load_segments seek rd got phs mm s f = Some (res, mm', s', f') \<and> I f' \<and> mm_ok mm' \<and>
    kept (segs_pages phs) r mm s F mm' s' F' \<and> covered mm' s' r \<and> space_ok s' F' r \<and> refs_free s' F' \<and>
    (case res of
       None \<Rightarrow> card F \<le> card F' + 3 * segs_size phs \<and> (\<forall>ph \<in> set (loads phs). seg_loaded d r mm' s' ph)
     | Some e \<Rightarrow> (e = - E_NO_MEM \<or> e = 0) \<and> card F \<le> 3 * segs_size phs + 2)"
proof (induction phs arbitrary: mm s f F)
  case Nil
  then show ?case using kept_refl
    by (intro exI [of _ None] exI [of _ mm] exI [of _ s] exI [of _ f] exI [of _ F]) (simp add: segs_pages_def segs_size_def)
next
  case (Cons ph phs)
  note pre = Cons.prems
  have so: "p_type ph = 1 \<longrightarrow> seg_ok d ph \<and> seg_free mm ph" using pre(2) by (simp add: segs_ok_def)
  have g: "got ph" using pre(1) by simp
  let ?Q = "if p_type ph = 1 then seg_pages ph else {}"
  have P: "segs_pages (ph # phs) = ?Q \<union> segs_pages phs" by (simp add: segs_pages_def)
  obtain res1 mm1 s1 f1 F1 where L: "load_segment seek rd (got ph) ph mm s f = Some (res1, mm1, s1, f1)" "I f1" "mm_ok mm1"
      "kept ?Q r mm s F mm1 s1 F1" "covered mm1 s1 r" "space_ok s1 F1 r" "refs_free s1 F1"
    and C: "case res1 of
       None \<Rightarrow> card F \<le> card F1 + 3 * segs_size [ph] \<and> (p_type ph = 1 \<longrightarrow> seg_loaded d r mm1 s1 ph)
     | Some e \<Rightarrow> (e = - E_NO_MEM \<or> e = 0) \<and> card F \<le> 3 * segs_size [ph] + 2"
    using load_segment_step [OF hf so pre(3-8)] g by auto
  show ?case
  proof (cases res1)
    case (Some e)
    have "kept (segs_pages (ph # phs)) r mm s F mm1 s1 F1" using L(4) unfolding P kept_def by auto
    moreover have "(e = - E_NO_MEM \<or> e = 0) \<and> card F \<le> 3 * segs_size (ph # phs) + 2" using C Some by (simp add: segs_size_Cons [of ph phs])
    ultimately show ?thesis using L Some
      by (intro exI [of _ "Some e"] exI [of _ mm1] exI [of _ s1] exI [of _ f1] exI [of _ F1]) (simp del: loads_simps)
  next
    case None
    have pd: "mm_pgdir mm1 = Some r" using L(4) pre(4) by (simp add: kept_def)
    have gs: "\<forall>ph \<in> set phs. got ph" using pre(1) by simp
    obtain res mm' s' f' F' where R: "load_segments seek rd got phs mm1 s1 f1 = Some (res, mm', s', f')" "I f'" "mm_ok mm'"
        "kept (segs_pages phs) r mm1 s1 F1 mm' s' F'" "covered mm' s' r" "space_ok s' F' r" "refs_free s' F'"
      and D: "case res of
       None \<Rightarrow> card F1 \<le> card F' + 3 * segs_size phs \<and> (\<forall>ph \<in> set (loads phs). seg_loaded d r mm' s' ph)
     | Some e \<Rightarrow> (e = - E_NO_MEM \<or> e = 0) \<and> card F1 \<le> 3 * segs_size phs + 2"
      using Cons.IH [OF gs segs_ok_kept [OF pre(2) L(4)] L(3) pd L(5-7,2)] by blast
    have k: "kept (segs_pages (ph # phs)) r mm s F mm' s' F'" unfolding P by (rule kept_trans [OF L(4) R(4)])
    have c1: "card F \<le> card F1 + 3 * segs_size [ph]" "p_type ph = 1 \<longrightarrow> seg_loaded d r mm1 s1 ph" using C None by simp_all
    have "p_type ph = 1 \<longrightarrow> seg_loaded d r mm' s' ph"
    proof
      assume t: "p_type ph = 1"
      then have "seg_pages ph \<inter> segs_pages phs = {}" using pre(2) by (auto simp: segs_ok_def segs_pages_def)
      then show "seg_loaded d r mm' s' ph" using seg_loaded_kept [OF _ R(4) L(6)] c1(2) t so by blast
    qed
    then have "case res of
       None \<Rightarrow> card F \<le> card F' + 3 * segs_size (ph # phs) \<and> (\<forall>ph \<in> set (loads (ph # phs)). seg_loaded d r mm' s' ph)
     | Some e \<Rightarrow> (e = - E_NO_MEM \<or> e = 0) \<and> card F \<le> 3 * segs_size (ph # phs) + 2"
      using D c1(1) unfolding segs_size_Cons [of ph phs] by (cases res) auto
    then show ?thesis using L(1) R k None
      by (intro exI [of _ res] exI [of _ mm'] exI [of _ s'] exI [of _ f'] exI [of _ F']) (simp del: loads_simps)
  qed
qed

end
