(* ===== verification/LoadStack.thy ===== *)
theory LoadStack
  imports LoadProps
begin

text \<open>
  The user stack: its four pages, stores of the kernel to user addresses, and the arguments that \<^verbatim>\<open>load_icode\<close> puts there.
\<close>

declare split_paired_All [simp del]

section \<open>Pages of the stack\<close>

lemma owns_filled:
  assumes o: "owns s r perm q p" and ok: "space_ok s F r" and perm: "perm < 2 ^ 10" and f: "filled r perm' n (n + 1) X g s F s' F'"
    and n: "n \<noteq> q" "n < 2 ^ 27" and perm': "perm' < 2 ^ 10"
  shows "owns s' r perm q p"
proof -
  note A = f [unfolded filled_def]
  have np: "npage s' = npage s" using A by (simp add: keeps_frames_def)
  have lf: "leaf s' r w = leaf s r w" if "is_vpn w" "w \<noteq> vpn_of n" for w using A that by simp
  have l: "leaves_ok s F r" using ok by (simp add: space_ok_def)
  have O: "q < 2 ^ 27" "p + nbase < npage s" "leaf s r (vpn_of q) = Some (entry_for p perm)"
    "\<And>w e. is_vpn w \<Longrightarrow> w \<noteq> vpn_of q \<Longrightarrow> leaf s r w = Some e \<Longrightarrow> pte_frame e \<noteq> p + nbase" using o unfolding owns_def by blast+
  have pF: "p \<notin> F" using leaves_okD(3) [OF l is_vpn_of O(3)] owns_frame [OF o ok perm] by simp
  have ne: "vpn_of q \<noteq> vpn_of n" using vpn_of_inject O(1) n by blast
  have "pte_frame e \<noteq> p + nbase" if w: "is_vpn w" "w \<noteq> vpn_of q" "leaf s' r w = Some e" for w e
  proof (cases "w = vpn_of n")
    case True
    obtain p' where p': "p' \<in> F" "leaf s' r (vpn_of n) = Some (entry_for p' perm')" using A by auto
    have "p' + nbase < 2 ^ 52" using ok p'(1) by (auto simp: space_ok_def kvm_ok_def)
    then have "pte_frame (entry_for p' perm') = p' + nbase" by (rule entry_frame [OF _ perm'])
    then have "pte_frame e = p' + nbase" using p'(2) w(3) True by auto
    then show ?thesis using p'(1) pF by auto
  next
    case False
    then show ?thesis using lf [OF w(1)] O(4) w by simp
  qed
  then have "\<forall>w e. is_vpn w \<and> w \<noteq> vpn_of q \<and> leaf s' r w = Some e \<longrightarrow> pte_frame e \<noteq> p + nbase" by blast
  then show ?thesis using O(1-3) lf [OF is_vpn_of ne] np unfolding owns_def by simp
qed

lemma stack_pages_runs:
  assumes perm: "PTE_USER < 2 ^ 10"
  shows "\<lbrakk>space_ok s F r; refs_free s F; distinct qs; \<forall>q \<in> set qs. q < 2 ^ 27 \<and> leaf s r (vpn_of q) = None; 3 * length qs \<le> card F\<rbrakk> \<Longrightarrow>
    \<exists>s' F'. stack_pages r (map page_va qs) s = Some s' \<and> space_ok s' F' r \<and> refs_free s' F' \<and> F' \<subseteq> F \<and> keeps_frames r s F s' \<and>
      (\<forall>q < 2 ^ 27. q \<notin> set qs \<longrightarrow> leaf s' r (vpn_of q) = leaf s r (vpn_of q)) \<and>
      (\<forall>q \<in> set qs. \<exists>p \<in> F. owns s' r PTE_USER q p) \<and>
      (\<forall>q p. owns s r PTE_USER q p \<and> q \<notin> set qs \<longrightarrow> owns s' r PTE_USER q p)"
proof (induction qs arbitrary: s F)
  case Nil
  then show ?case by (intro exI [of _ s] exI [of _ F]) (simp add: keeps_frames_def)
next
  case (Cons q qs)
  note pre = Cons.prems
  have q: "q < 2 ^ 27" "leaf s r (vpn_of q) = None" using pre(4) by simp_all
  obtain res s1 F1 where a: "pgdir_alloc_page r (page_va q) PTE_USER s = Some (res, s1)"
    and c: "case res of None \<Rightarrow> card F \<le> 2 \<and> filled r PTE_USER q q {} (\<lambda>_. 0) s F s1 F1
     | Some p \<Rightarrow> p \<in> F \<and> page2kva s1 p = Some (p + nbase) \<and> filled r PTE_USER q (q + 1) {} (\<lambda>_. 0) s F s1 F1 \<and> card F \<le> card F1 + 3 \<and>
         owns s1 r PTE_USER q p"
    using fresh_page [OF pre(1,2) perm q, of "\<lambda>_. 0"] by blast
  have "res \<noteq> None" using c pre(5) by (cases res) auto
  then obtain p where p: "res = Some p" "filled r PTE_USER q (q + 1) {} (\<lambda>_. 0) s F s1 F1" "card F \<le> card F1 + 3" "owns s1 r PTE_USER q p" "p \<in> F"
    using c by auto
  note A = p(2) [unfolded filled_def]
  have A1: "space_ok s1 F1 r" "refs_free s1 F1" "F1 \<subseteq> F" "keeps_frames r s F s1" using A by blast+
  have lf: "leaf s1 r (vpn_of m) = leaf s r (vpn_of m)" if "m < 2 ^ 27" "m \<noteq> q" for m
  proof -
    have "vpn_of m \<notin> vpn_of ` {q..<q + 1}" using that q(1) vpn_of_inject [of m q] by auto
    then show ?thesis using A is_vpn_of by blast
  qed
  have u: "\<forall>m \<in> set qs. m < 2 ^ 27 \<and> leaf s1 r (vpn_of m) = None"
  proof
    fix m assume "m \<in> set qs"
    then have "m < 2 ^ 27" "m \<noteq> q" "leaf s r (vpn_of m) = None" using pre(3,4) by auto
    then show "m < 2 ^ 27 \<and> leaf s1 r (vpn_of m) = None" using lf by simp
  qed
  have d: "distinct qs" and cd: "3 * length qs \<le> card F1" using pre(3,5) p(3) by simp_all
  obtain s' F' where R: "stack_pages r (map page_va qs) s1 = Some s'" "space_ok s' F' r" "refs_free s' F'" "F' \<subseteq> F1" "keeps_frames r s1 F1 s'"
      "\<forall>m < 2 ^ 27. m \<notin> set qs \<longrightarrow> leaf s' r (vpn_of m) = leaf s1 r (vpn_of m)" "\<forall>m \<in> set qs. \<exists>p \<in> F1. owns s' r PTE_USER m p"
      "\<forall>m p. owns s1 r PTE_USER m p \<and> m \<notin> set qs \<longrightarrow> owns s' r PTE_USER m p"
    using Cons.IH [OF A1(1,2) d u cd] by blast
  have "stack_pages r (map page_va (q # qs)) s = Some s'" using a p(1) R(1) by simp
  moreover have "keeps_frames r s F s'" by (rule keeps_frames_trans [OF A1(4) R(5) A1(3)])
  moreover have "\<forall>m < 2 ^ 27. m \<notin> set (q # qs) \<longrightarrow> leaf s' r (vpn_of m) = leaf s r (vpn_of m)" using R(6) lf by simp
  moreover have "\<forall>m \<in> set (q # qs). \<exists>p \<in> F. owns s' r PTE_USER m p" using R(7,8) p(4,5) pre(3) A1(3) by (simp, blast)
  moreover have "\<forall>m p. owns s r PTE_USER m p \<and> m \<notin> set (q # qs) \<longrightarrow> owns s' r PTE_USER m p"
    using R(8) owns_filled [OF _ pre(1) perm p(2) _ q(1) perm] by auto
  ultimately show ?case using R(2,3,4) A1(3) by (intro exI [of _ s'] exI [of _ F']) blast
qed

section \<open>Stores to user memory\<close>

lemma and_FFF: "unat (w AND 0xFFF :: u64) = unat w mod 4096"
proof -
  have "w AND 0xFFF = take_bit 12 w" by (simp add: take_bit_eq_mask mask_eq_exp_minus_1)
  also have "\<dots> = w mod 4096" by (simp add: take_bit_eq_mod)
  finally show ?thesis by (simp add: unat_mod)
qed

definition own_pages :: "kvm \<Rightarrow> nat \<Rightarrow> nat set \<Rightarrow> bool" where
  "own_pages s r Q \<longleftrightarrow> (\<forall>q \<in> Q. \<exists>p. owns s r PTE_USER q p)"

definition bytes_at :: "nat \<Rightarrow> u8 list \<Rightarrow> nat \<rightharpoonup> u8" where
  "bytes_at x bs = (\<lambda>y. if x \<le> y \<and> y < x + length bs then Some (bs ! (y - x)) else None)"

text \<open>\<open>stored r Q b s s'\<close>: the bytes of the map \<open>b\<close> are in user memory now, only frames of the pages \<open>Q\<close> were written, and the
  rest of the address space, its tables and the free pages are as before.\<close>

definition stored :: "nat \<Rightarrow> nat set \<Rightarrow> (nat \<rightharpoonup> u8) \<Rightarrow> kvm \<Rightarrow> kvm \<Rightarrow> bool" where
  "stored r Q b s s' \<longleftrightarrow> kv_pmm s' = kv_pmm s \<and> npage s' = npage s \<and>
     (\<forall>w. is_vpn w \<longrightarrow> leaf s' r w = leaf s r w) \<and> (\<forall>F. space_ok s F r \<longrightarrow> space_ok s' F r) \<and>
     tables (kv_mem s') r = tables (kv_mem s) r \<and>
     (\<forall>f. (\<forall>q \<in> Q. map_option pte_frame (leaf s r (vpn_of q)) \<noteq> Some f) \<longrightarrow> kv_mem s' f = kv_mem s f) \<and>
     (\<forall>x < 2 ^ 31. user_byte s' r x = (user_byte s r ++ b) x)"

lemma stored_refl: "stored r Q Map.empty s s"
  by (simp add: stored_def)

lemma stored_trans:
  assumes "stored r Q b s s1" "stored r Q c s1 s2" "\<forall>q \<in> Q. q < 2 ^ 27"
  shows "stored r Q (b ++ c) s s2"
proof -
  note A = assms(1) [unfolded stored_def] and B = assms(2) [unfolded stored_def]
  have "kv_mem s2 f = kv_mem s f" if "\<forall>q \<in> Q. map_option pte_frame (leaf s r (vpn_of q)) \<noteq> Some f" for f
  proof -
    have "\<forall>q \<in> Q. map_option pte_frame (leaf s1 r (vpn_of q)) \<noteq> Some f" using that A is_vpn_of by simp
    then show ?thesis using A B that by simp
  qed
  moreover have "user_byte s2 r x = (user_byte s r ++ (b ++ c)) x" if "x < 2 ^ 31" for x
    using A B that by (simp add: map_add_def split: option.split)
  moreover have "\<forall>w. is_vpn w \<longrightarrow> leaf s2 r w = leaf s r w" using A B by simp
  ultimately show ?thesis using A B unfolding stored_def by simp
qed

lemma stored_owns: "stored r Q b s s' \<Longrightarrow> owns s r perm q p \<Longrightarrow> owns s' r perm q p"
  unfolding stored_def owns_def by (simp cong: conj_cong)

lemma stored_own_pages: "stored r Q b s s' \<Longrightarrow> own_pages s r P \<Longrightarrow> own_pages s' r P"
  unfolding own_pages_def using stored_owns by blast

lemma bytes_at_Cons: "bytes_at x (b # bs) = [x \<mapsto> b] ++ bytes_at (x + 1) bs"
proof
  fix y show "bytes_at x (b # bs) y = ([x \<mapsto> b] ++ bytes_at (x + 1) bs) y"
    by (cases "y = x") (auto simp: bytes_at_def map_add_def nth_Cons' Suc_le_eq)
qed

lemma user_store_runs:
  "\<lbrakk>own_pages s r Q; space_ok s F r; \<forall>i < length bs. (x + i) div 4096 \<in> Q; x + length bs \<le> 2 ^ 31; \<forall>q \<in> Q. q < 2 ^ 27\<rbrakk> \<Longrightarrow>
    \<exists>s'. user_store r (word_of_nat x) bs s = Some s' \<and> stored r Q (bytes_at x bs) s s'"
proof (induction bs arbitrary: x s)
  case Nil
  have "bytes_at x [] = Map.empty" by (auto simp: bytes_at_def)
  then show ?case using stored_refl by simp
next
  case (Cons b bs)
  note pre = Cons.prems
  have perm: "(PTE_USER :: u64) < 2 ^ 10" by simp
  have x: "x < 2 ^ 31" "x div 4096 \<in> Q" using pre(3,4) by auto
  obtain p where o: "owns s r PTE_USER (x div 4096) p" using pre(1) x(2) unfolding own_pages_def by blast
  have ux: "unat (word_of_nat x :: u64) = x" using x(1) by (simp add: unat_of_nat)
  have m: "mapped s r (word_of_nat x) = Some (entry_for p PTE_USER)" using o unfolding mapped_def vpn_la ux owns_def by blast
  have fr: "pte_frame (entry_for p PTE_USER) = p + nbase" by (rule owns_frame [OF o pre(2) perm])
  let ?s = "page_put (p + nbase) (x mod 4096) [b] s"
  note P = page_put_space [OF _ owns_no_table [OF o pre(2) perm]] and O = owns_put [OF o pre(2) perm]
  have st: "stored r Q [x \<mapsto> b] s ?s" unfolding stored_def
  proof (intro conjI allI impI)
    fix f assume "\<forall>q \<in> Q. map_option pte_frame (leaf s r (vpn_of q)) \<noteq> Some f"
    then have "f \<noteq> p + nbase" using x(2) o fr by (auto simp: owns_def)
    then show "kv_mem ?s f = kv_mem s f" by simp
  next
    fix y :: nat assume y: "y < 2 ^ 31"
    have "y div 4096 = x div 4096 \<and> x mod 4096 \<le> y mod 4096 \<and> y mod 4096 < x mod 4096 + length [b] \<longleftrightarrow> y = x"
      by (metis div_mult_mod_eq le_antisym length_Cons list.size(3) less_Suc_eq_le One_nat_def add.right_neutral add_Suc_right order_refl lessI)
    then show "user_byte ?s r y = (user_byte s r ++ [x \<mapsto> b]) y" using O(2) [of y "x mod 4096" "[b]"] y by simp
  qed (use P(1) [OF _, of _ "x mod 4096" "[b]"] P(2,3) [OF pre(2)] in simp_all)
  have "\<forall>i < length bs. (x + 1 + i) div 4096 \<in> Q"
  proof (intro allI impI)
    fix i assume "i < length bs"
    then show "(x + 1 + i) div 4096 \<in> Q" using pre(3) [rule_format, of "Suc i"] by simp
  qed
  moreover have "space_ok ?s F r" using st pre(2) by (simp add: stored_def)
  ultimately obtain s' where s': "user_store r (word_of_nat (x + 1)) bs ?s = Some s'" "stored r Q (bytes_at (x + 1) bs) ?s s'"
    using Cons.IH [OF stored_own_pages [OF st pre(1)], of "x + 1"] pre(4,5) by auto
  have "user_store r (word_of_nat x) (b # bs) s = Some s'"
    using m s'(1) using fr by (simp add: and_FFF ux ac_simps)
  moreover have "stored r Q (bytes_at x (b # bs)) s s'" unfolding bytes_at_Cons by (rule stored_trans [OF st s'(2) pre(5)])
  ultimately show ?case by blast
qed

section \<open>The arguments\<close>

definition stack_area :: vma_struct where
  "stack_area = \<lparr>vm_start = USTACKTOP - USTACKSIZE, vm_end = USTACKTOP, vm_flags = VM_READ OR VM_WRITE OR VM_STACK\<rparr>"

abbreviation stack_lo :: nat where "stack_lo \<equiv> 0x7FFFC000"
abbreviation stack_hi :: nat where "stack_hi \<equiv> 0x80000000"

definition stack_set :: "nat set" where
  "stack_set = {0x7FFFC..<0x80000}"

text \<open>The state in which arguments are pushed.\<close>

definition has_stack :: "mm_struct \<Rightarrow> nat \<Rightarrow> kvm \<Rightarrow> nat set \<Rightarrow> bool" where
  "has_stack mm r s F \<longleftrightarrow> mm_ok mm \<and> mm_pgdir mm = Some r \<and> stack_area \<in> set (mmap_list mm) \<and> own_pages s r stack_set \<and> space_ok s F r"

lemma has_stack_cache: "has_stack mm r s F \<Longrightarrow> mm_ok (mm\<lparr>mmap_cache := c\<rparr>) \<Longrightarrow> stored r stack_set b s s' \<Longrightarrow>
    has_stack (mm\<lparr>mmap_cache := c\<rparr>) r s' F"
  using stored_own_pages [of r stack_set b s s' stack_set] unfolding has_stack_def by (simp add: stored_def)

lemma put_user_ok:
  assumes st: "has_stack mm r s F" and x: "stack_lo \<le> x" "x + length bs \<le> stack_hi" "bs \<noteq> []"
  shows "\<exists>c s'. put_user (word_of_nat x) bs mm s = Some (True, mm\<lparr>mmap_cache := c\<rparr>, s') \<and> has_stack (mm\<lparr>mmap_cache := c\<rparr>) r s' F \<and>
    stored r stack_set (bytes_at x bs) s s'"
proof -
  note S = st [unfolded has_stack_def]
  have mm: "mm_ok mm" using S by blast
  have ul: "unat (word_of_nat (length bs) :: u64) = length bs" and ux: "unat (word_of_nat x :: u64) = x" using x by (simp_all add: unat_of_nat)
  have "accessible mm True (word_of_nat x + word_of_nat i)" if i: "i < length bs" for i
  proof -
    have u: "unat (word_of_nat x + word_of_nat i :: u64) = x + i" using i x unat_offset [of "word_of_nat x" i] ux by simp
    show ?thesis unfolding accessible_iff [OF mm]
    proof (rule bexI [of _ stack_area])
      show "stack_area \<in> set (mmap_list mm)" using S by blast
      show "in_vma (word_of_nat x + word_of_nat i) stack_area \<and> vm_flags stack_area AND (if True then VM_WRITE else VM_READ) \<noteq> 0 \<and>
        (True \<and> vm_flags stack_area AND VM_STACK \<noteq> 0 \<longrightarrow> vm_start stack_area + PGSIZE \<le> word_of_nat x + word_of_nat i)"
        using i x u by (simp add: stack_area_def in_vma_def word_le_nat_alt word_less_nat_alt)
    qed
  qed
  then have acc: "may_access mm (word_of_nat x) (word_of_nat (length bs)) True"
    using x by (simp add: may_access_def ul ux word_less_nat_alt)
  obtain c where c: "user_mem_check (Some mm) (word_of_nat x) (word_of_nat (length bs)) True = (True, Some (mm\<lparr>mmap_cache := c\<rparr>))"
      "mm_ok (mm\<lparr>mmap_cache := c\<rparr>)"
    using user_mem_check_eq [OF mm, of "word_of_nat x" "word_of_nat (length bs)" True] acc by auto
  have "\<forall>i < length bs. (x + i) div 4096 \<in> stack_set"
  proof (intro allI impI)
    fix i assume i: "i < length bs"
    have "0x7FFFC000 div 4096 \<le> (x + i) div 4096" using x by (intro div_le_mono) simp
    moreover have "(x + i) div 4096 < 0x80000" using x i by (intro less_mult_imp_div_less) simp
    ultimately show "(x + i) div 4096 \<in> stack_set" by (simp add: stack_set_def)
  qed
  moreover have "\<forall>q \<in> stack_set. q < 2 ^ 27" by (simp add: stack_set_def)
  ultimately obtain s' where s': "user_store r (word_of_nat x) bs s = Some s'" "stored r stack_set (bytes_at x bs) s s'"
    using user_store_runs [of s r stack_set F bs x] S x by auto
  have "put_user (word_of_nat x) bs mm s = Some (True, mm\<lparr>mmap_cache := c\<rparr>, s')" using c(1) S s'(1) by (simp add: put_user_def)
  then show ?thesis using s'(2) has_stack_cache [OF st c(2) s'(2)] by blast
qed

abbreviation strz :: "u8 list list \<Rightarrow> u8 list" where
  "strz as \<equiv> concat (map (\<lambda>a. a @ [0]) as)"

fun str_addrs :: "nat \<Rightarrow> u8 list list \<Rightarrow> nat list" where
  "str_addrs x [] = []"
| "str_addrs x (a # as) = x # str_addrs (x + length a + 1) as"

lemma str_addrs_snoc: "str_addrs x (as @ [b]) = str_addrs x as @ [x + length (strz as)]"
  by (induction as arbitrary: x) (simp_all add: ac_simps)

lemma length_str_addrs [simp]: "length (str_addrs x as) = length as"
  by (induction as arbitrary: x) simp_all

lemma bytes_at_append: "bytes_at (x + length as) bs ++ bytes_at x as = bytes_at x (as @ bs)"
proof
  fix y
  show "(bytes_at (x + length as) bs ++ bytes_at x as) y = bytes_at x (as @ bs) y"
    by (cases "y < x + length as") (auto simp: bytes_at_def map_add_def nth_append not_less)
qed

lemma bytes_at_Nil [simp]: "bytes_at x [] = Map.empty"
  by (auto simp: bytes_at_def)

lemma push_args_runs:
  "\<lbrakk>has_stack mm r s F; stack_lo + length (strz args) \<le> x; x \<le> stack_hi\<rbrakk> \<Longrightarrow>
    \<exists>c s'. push_args args (word_of_nat x) ua mm s =
        Some (Some (word_of_nat (x - length (strz args)), map word_of_nat (str_addrs (x - length (strz args)) (rev args)) @ ua),
          mm\<lparr>mmap_cache := c\<rparr>, s') \<and>
      has_stack (mm\<lparr>mmap_cache := c\<rparr>) r s' F \<and> stored r stack_set (bytes_at (x - length (strz args)) (strz (rev args))) s s'"
proof (induction args arbitrary: x ua mm s)
  case Nil
  have "mm = mm\<lparr>mmap_cache := mmap_cache mm\<rparr>" by simp
  then show ?case using Nil stored_refl by (intro exI [of _ "mmap_cache mm"] exI [of _ s]) simp
next
  case (Cons a args)
  let ?x = "x - (length a + 1)"
  have xx: "stack_lo \<le> ?x" "?x + length (a @ [0]) \<le> stack_hi" "a @ [0] \<noteq> []" "length a + 1 \<le> x" using Cons.prems(2,3) by simp_all
  obtain c s1 where p: "put_user (word_of_nat ?x) (a @ [0]) mm s = Some (True, mm\<lparr>mmap_cache := c\<rparr>, s1)" "has_stack (mm\<lparr>mmap_cache := c\<rparr>) r s1 F"
      "stored r stack_set (bytes_at ?x (a @ [0])) s s1"
    using put_user_ok [OF Cons.prems(1) xx(1-3)] by blast
  have b: "stack_lo + length (strz args) \<le> ?x" "?x \<le> stack_hi" using Cons.prems(2,3) by simp_all
  let ?t = "?x - length (strz args)"
  obtain c' s' where q: "push_args args (word_of_nat ?x) (word_of_nat ?x # ua) (mm\<lparr>mmap_cache := c\<rparr>) s1 =
        Some (Some (word_of_nat ?t, map word_of_nat (str_addrs ?t (rev args)) @ word_of_nat ?x # ua), mm\<lparr>mmap_cache := c'\<rparr>, s')"
      "has_stack (mm\<lparr>mmap_cache := c'\<rparr>) r s' F" "stored r stack_set (bytes_at ?t (strz (rev args))) s1 s'"
    using Cons.IH [OF p(2) b, of "word_of_nat ?x # ua"] by auto
  have l: "length (strz (rev args)) = length (strz args)" by (simp add: length_concat rev_map [symmetric] comp_def)
  have t: "x - length (strz (a # args)) = ?t" by simp
  have tx: "?t + length (strz (rev args)) = ?x" using b l by simp
  have w: "(word_of_nat x :: u64) - word_of_nat (length a + 1) = word_of_nat ?x" using xx(4) by (simp only: of_nat_diff)
  have step: "push_args (a # args) (word_of_nat x) ua mm s = push_args args (word_of_nat ?x) (word_of_nat ?x # ua) (mm\<lparr>mmap_cache := c\<rparr>) s1"
    using p(1) by (simp only: push_args.simps Let_def w bind.bind_lunit prod.case not_True_eq_False if_False)
  have ads: "map word_of_nat (str_addrs ?t (rev (a # args))) @ ua = map word_of_nat (str_addrs ?t (rev args)) @ (word_of_nat ?x :: u64) # ua"
    using tx by (simp add: str_addrs_snoc)
  have "stored r stack_set (bytes_at ?t (strz (rev (a # args)))) s s'"
    using stored_trans [OF p(3) q(3)] bytes_at_append [of ?t "strz (rev args)" "a @ [0]"] unfolding tx by (simp add: stack_set_def)
  then show ?case unfolding t step q(1) ads using q(2) by blast
qed

definition holds_at :: "nat \<Rightarrow> kvm \<Rightarrow> nat \<Rightarrow> u8 list \<Rightarrow> bool" where
  "holds_at r s x bs \<longleftrightarrow> (\<forall>i < length bs. user_byte s r (x + i) = Some (bs ! i))"

text \<open>The arguments as a program finds them: a vector of addresses with a null behind, and a string at each of them.\<close>

definition args_at :: "u8 list list \<Rightarrow> nat \<Rightarrow> nat \<Rightarrow> kvm \<Rightarrow> bool" where
  "args_at kargv tp r s \<longleftrightarrow> tp mod 8 = 0 \<and> holds_at r s (tp + 8 * length kargv) (replicate 8 0) \<and>
     (\<forall>i < length kargv. \<exists>a < 2 ^ 31. holds_at r s (tp + 8 * i) (le_bytes 8 a) \<and> holds_at r s a (kargv ! i @ [0]))"

lemma holds_at_append: "holds_at r s x (as @ bs) \<longleftrightarrow> holds_at r s x as \<and> holds_at r s (x + length as) bs"
proof
  assume h: "holds_at r s x (as @ bs)"
  have "user_byte s r (x + length as + i) = Some (bs ! i)" if "i < length bs" for i
    using h [unfolded holds_at_def, rule_format, of "length as + i"] that by (simp add: nth_append add.assoc)
  then show "holds_at r s x as \<and> holds_at r s (x + length as) bs" using h by (auto simp: holds_at_def nth_append)
next
  assume h: "holds_at r s x as \<and> holds_at r s (x + length as) bs"
  show "holds_at r s x (as @ bs)" unfolding holds_at_def
  proof (intro allI impI)
    fix i assume i: "i < length (as @ bs)"
    show "user_byte s r (x + i) = Some ((as @ bs) ! i)"
    proof (cases "i < length as")
      case True
      then show ?thesis using h by (simp add: holds_at_def nth_append)
    next
      case False
      then have "i - length as < length bs" "x + length as + (i - length as) = x + i" using i by simp_all
      then show ?thesis using h False by (metis holds_at_def nth_append)
    qed
  qed
qed

lemma holds_strings: "holds_at r s x (strz as) \<Longrightarrow> i < length as \<Longrightarrow> holds_at r s (str_addrs x as ! i) (as ! i @ [0])"
proof (induction as arbitrary: x i)
  case (Cons a as)
  have h: "holds_at r s x (a @ [0])" "holds_at r s (x + length a + 1) (strz as)"
    using Cons.prems(1) holds_at_append [of r s x "a @ [0]" "strz as"] by (simp_all add: ac_simps)
  show ?case
  proof (cases i)
    case (Suc j)
    then show ?thesis using Cons.IH [OF h(2), of j] Cons.prems(2) by simp
  qed (use h(1) in simp)
qed simp

lemma str_addrs_bound: "i < length as \<Longrightarrow> str_addrs x as ! i < x + length (strz as)"
proof (induction as arbitrary: x i)
  case (Cons a as)
  show ?case
  proof (cases i)
    case (Suc j)
    then have "str_addrs (x + length a + 1) as ! j < x + length a + 1 + length (strz as)" using Cons.prems by (intro Cons.IH) simp
    then show ?thesis using Suc by simp
  qed simp
qed simp

lemma holds_words:
  "holds_at r s x (concat (map (\<lambda>a. le_bytes 8 (f a)) as)) \<Longrightarrow> i < length as \<Longrightarrow> holds_at r s (x + 8 * i) (le_bytes 8 (f (as ! i)))"
proof (induction as arbitrary: x i)
  case (Cons a as)
  have h: "holds_at r s x (le_bytes 8 (f a))" "holds_at r s (x + 8) (concat (map (\<lambda>a. le_bytes 8 (f a)) as))"
    using Cons.prems(1) holds_at_append [of r s x "le_bytes 8 (f a)"] by simp_all
  show ?case
  proof (cases i)
    case (Suc j)
    then show ?thesis using Cons.IH [OF h(2), of j] Cons.prems(2) by (simp add: ac_simps)
  qed (use h(1) in simp)
qed simp

lemma length_le_words [simp]: "length (concat (map (\<lambda>a. le_bytes 8 (f a)) as)) = 8 * length as"
  by (induction as) simp_all

lemma le_bytes_0: "le_bytes k 0 = replicate k 0"
  by (induction k) simp_all

lemma stored_holds:
  assumes "stored r Q (b ++ bytes_at x bs) s s'" "x + length bs \<le> 2 ^ 31"
  shows "holds_at r s' x bs"
    and "\<lbrakk>holds_at r s' x bs; b = bytes_at y cs; x + length bs \<le> y; y + length cs \<le> 2 ^ 31\<rbrakk> \<Longrightarrow> holds_at r s' y cs"
proof -
  have ub: "user_byte s' r z = (user_byte s r ++ (b ++ bytes_at x bs)) z" if "z < 2 ^ 31" for z using assms(1) that unfolding stored_def by blast
  show "holds_at r s' x bs" unfolding holds_at_def
  proof (intro allI impI)
    fix i assume "i < length bs"
    then show "user_byte s' r (x + i) = Some (bs ! i)" using ub [of "x + i"] assms(2) by (simp add: map_add_def bytes_at_def)
  qed
  assume y: "b = bytes_at y cs" "x + length bs \<le> y" "y + length cs \<le> 2 ^ 31"
  show "holds_at r s' y cs" unfolding holds_at_def
  proof (intro allI impI)
    fix i assume "i < length cs"
    then show "user_byte s' r (y + i) = Some (cs ! i)" using ub [of "y + i"] y by (simp add: map_add_def bytes_at_def)
  qed
qed

lemma push_argv_runs:
  assumes st: "has_stack mm r s F" and sz: "length (strz kargv) + 8 * (length kargv + 1) + 7 \<le> 0x4000"
  shows "\<exists>tp c b s'. push_argv kargv mm s = Some (Some (word_of_nat tp), mm\<lparr>mmap_cache := c\<rparr>, s') \<and> stack_lo \<le> tp \<and> tp < stack_hi \<and>
    has_stack (mm\<lparr>mmap_cache := c\<rparr>) r s' F \<and> args_at kargv tp r s' \<and> stored r stack_set b s s' \<and> dom b \<subseteq> {tp..<stack_hi}"
proof -
  have lr: "length (strz (rev kargv)) = length (strz kargv)" by (simp add: length_concat rev_map [symmetric] comp_def)
  let ?n = "length kargv" and ?t = "stack_hi - length (strz kargv)"
  let ?ads = "str_addrs ?t kargv"
  have b0: "stack_lo + length (strz (rev kargv)) \<le> stack_hi" using sz unfolding lr by simp
  obtain c s1 where a: "push_args (rev kargv) USTACKTOP [] mm s = Some (Some (word_of_nat ?t, map word_of_nat ?ads), mm\<lparr>mmap_cache := c\<rparr>, s1)"
      "has_stack (mm\<lparr>mmap_cache := c\<rparr>) r s1 F" "stored r stack_set (bytes_at ?t (strz kargv)) s s1"
    using push_args_runs [OF st b0 order_refl, of "[]"] unfolding lr by auto
  let ?v = "map word_of_nat ?ads @ [0 :: u64]"
  let ?bs = "concat (map (\<lambda>a. le_bytes 8 (unat a)) ?v)"
  define tp where "tp = ?t div 8 * 8 - 8 * (?n + 1)"
  have t: "stack_lo + 8 * (?n + 1) + 7 \<le> ?t" "?t \<le> stack_hi" using sz by simp_all
  have d8: "?t div 8 * 8 \<le> ?t" "?t < ?t div 8 * 8 + 8" by (simp_all add: div_times_less_eq_dividend)
  have lbs: "length ?bs = 8 * (?n + 1)" by (simp only: length_le_words) simp
  have tp: "stack_lo \<le> tp" "tp + length ?bs \<le> ?t" "tp < stack_hi" "8 * (?n + 1) \<le> ?t div 8 * 8"
    using t d8 unfolding tp_def lbs by (simp_all del: length_concat)
  have bn: "?bs \<noteq> []" using lbs by (metis length_0_conv mult_eq_0_iff add_is_0 zero_neq_numeral zero_neq_one)
  have w: "ROUNDDOWN (word_of_nat ?t) 8 - word_of_nat ((?n + 1) * 8) = (word_of_nat tp :: u64)"
  proof -
    have ut: "unat (word_of_nat ?t :: u64) = ?t" using t(2) by (simp add: unat_of_nat)
    have "unat (ROUNDDOWN (word_of_nat ?t) 8) = ?t div 8 * 8" unfolding unat_ROUNDDOWN ut by simp
    then have "word_of_nat (unat (ROUNDDOWN (word_of_nat ?t) 8)) = (word_of_nat (?t div 8 * 8) :: u64)" by (rule arg_cong)
    then have "ROUNDDOWN (word_of_nat ?t) 8 = word_of_nat (?t div 8 * 8)" by (simp only: word_of_nat_eq_0_iff unsigned_of_nat of_nat_unat ucast_id)
    then show ?thesis unfolding tp_def using tp(4) by (simp only: of_nat_diff mult.commute [of "?n + 1"])
  qed
  have tpl: "tp + length ?bs \<le> stack_hi" using tp(2) t(2) by linarith
  obtain c' s' where p: "put_user (word_of_nat tp) ?bs (mm\<lparr>mmap_cache := c\<rparr>) s1 = Some (True, mm\<lparr>mmap_cache := c'\<rparr>, s')"
      "has_stack (mm\<lparr>mmap_cache := c'\<rparr>) r s' F" "stored r stack_set (bytes_at tp ?bs) s1 s'"
    using put_user_ok [OF a(2) tp(1) tpl bn] by auto
  let ?b = "bytes_at ?t (strz kargv) ++ bytes_at tp ?bs"
  have sb: "stored r stack_set ?b s s'" by (rule stored_trans [OF a(3) p(3)]) (simp add: stack_set_def)
  have "dom ?b \<subseteq> {tp..<stack_hi}" using tp(2) tpl t(2) by (auto simp: bytes_at_def split: if_splits)
  have l31: "tp + length ?bs \<le> 2 ^ 31" "?t + length (strz kargv) \<le> 2 ^ 31" using tpl sz by simp_all
  have hv: "holds_at r s' tp ?bs" by (rule stored_holds(1) [OF sb l31(1)])
  have hs: "holds_at r s' ?t (strz kargv)" by (rule stored_holds(2) [OF sb l31(1) hv refl tp(2) l31(2)])
  have "args_at kargv tp r s'" unfolding args_at_def
  proof (intro conjI allI impI)
    show "tp mod 8 = 0" unfolding tp_def by (simp add: mod_eq_0_iff_dvd dvd_diff_nat)
    show "holds_at r s' (tp + 8 * ?n) (replicate 8 0)"
      using holds_words [OF hv, of ?n] by (simp add: nth_append le_bytes_0)
  next
    fix i assume i: "i < ?n"
    have "?ads ! i < ?t + length (strz kargv)" by (rule str_addrs_bound [OF i])
    then have ai: "?ads ! i < 2 ^ 31" using l31(2) by simp
    then have "unat (word_of_nat (?ads ! i) :: u64) = ?ads ! i" by (simp add: unat_of_nat)
    then have "holds_at r s' (tp + 8 * i) (le_bytes 8 (?ads ! i))" using holds_words [OF hv, of i] i by (simp add: nth_append)
    then show "\<exists>a < 2 ^ 31. holds_at r s' (tp + 8 * i) (le_bytes 8 a) \<and> holds_at r s' a (kargv ! i @ [0])"
      using ai holds_strings [OF hs i] by blast
  qed
  moreover have "push_argv kargv mm s = Some (Some (word_of_nat tp), mm\<lparr>mmap_cache := c'\<rparr>, s')"
    unfolding push_argv_def a(1) Let_def option.case bind.bind_lunit prod.case w p(1) by simp
  ultimately show ?thesis using tp(1,3) p(2) sb \<open>dom ?b \<subseteq> {tp..<stack_hi}\<close> by blast
qed

end
