(* ===== verification/LoadExec.thy ===== *)
theory LoadExec
  imports LoadStack
begin

text \<open>
  Loading as a whole: with memory for it, \<^verbatim>\<open>load_icode\<close> gives the process a new address space that holds the segments of the
  program and its arguments, and starts it at its entry point.
\<close>

section \<open>A new root\<close>

lemma copy_root:
  assumes ok: "space_ok s F boot" and g: "g \<notin> tables (kv_mem s) boot" "nbase \<le> g" "g < npage s" "g - nbase \<notin> F"
    and n: "\<forall>w e. is_vpn w \<and> leaf s boot w = Some e \<longrightarrow> pte_frame e \<noteq> g"
  shows "space_ok (put_frame g (kv_mem s boot) s) F g" "is_vpn w \<Longrightarrow> leaf (put_frame g (kv_mem s boot) s) g w = leaf s boot w"
    "tables (kv_mem (put_frame g (kv_mem s boot) s)) g \<subseteq> insert g (tables (kv_mem s) boot)"
proof -
  let ?s = "put_frame g (kv_mem s boot) s"
  have tb: "tab (kv_mem ?s) g js = (if js = [] then Some g else tab (kv_mem s) boot js)" if p: "is_path js" for js
  proof (cases js)
    case (Cons i ks)
    show ?thesis
    proof (cases ks)
      case (Cons j ls)
      have ij: "js = [i, j]" using p \<open>js = i # ks\<close> Cons by (simp add: is_path_def)
      show ?thesis
      proof (cases "pte_valid (kv_mem s boot i)")
        case True
        then have "tab (kv_mem s) boot [i] = Some (pte_frame (kv_mem s boot i))" by simp
        moreover have "is_path [i]" using p ij by (auto simp: is_path_def)
        ultimately have "pte_frame (kv_mem s boot i) \<in> tables (kv_mem s) boot" unfolding tables_def by blast
        then have "pte_frame (kv_mem s boot i) \<noteq> g" using g(1) by blast
        then show ?thesis using ij True by simp
      qed (simp add: ij)
    qed (simp add: \<open>js = i # ks\<close>)
  qed simp
  show ts: "tables (kv_mem ?s) g \<subseteq> insert g (tables (kv_mem s) boot)"
  proof
    fix f assume "f \<in> tables (kv_mem ?s) g"
    then obtain js where js: "is_path js" "tab (kv_mem ?s) g js = Some f" by (auto simp: tables_def)
    then show "f \<in> insert g (tables (kv_mem s) boot)" using tb [OF js(1)] by (auto simp: tables_def split: if_splits)
  qed
  have lf: "leaf ?s g v = leaf s boot v" if v: "is_vpn v" for v
  proof -
    obtain i j k where ijk: "v = (i, j, k)" by (cases v)
    have ip: "is_path [i, j]" using is_vpn_path(1) v ijk by blast
    have e: "tab (kv_mem ?s) g [i, j] = tab (kv_mem s) boot [i, j]" using tb [OF ip] by simp
    show ?thesis
    proof (cases "tab (kv_mem s) boot [i, j]")
      case None
      then show ?thesis unfolding ijk leaf_def prod.case e by simp
    next
      case (Some t)
      then have "t \<in> tables (kv_mem s) boot" using ip unfolding tables_def by blast
      then have "t \<noteq> g" using g(1) by blast
      then show ?thesis unfolding ijk leaf_def prod.case e using Some by simp
    qed
  qed
  then show "is_vpn w \<Longrightarrow> leaf ?s g w = leaf s boot w" .
  have rf: "page_ref q ?s = page_ref q s" for q by (simp add: page_ref_def)
  have mp: "maps ?s g q = maps s boot q" for q using lf by (auto simp: maps_def)
  have l: "leaves_ok s F boot" and pt: "pt_ok s F boot" using ok by (simp_all add: space_ok_def)
  have "leaves_ok ?s F g" unfolding leaves_ok_def
  proof (intro conjI allI impI)
    fix v e assume "is_vpn v \<and> leaf ?s g v = Some e"
    then have v: "is_vpn v" "leaf s boot v = Some e" using lf [of v] by auto
    note L = leaves_okD [OF l v]
    show "nbase \<le> pte_frame e" "pte_frame e < npage ?s" "pte_frame e - nbase \<notin> F" "releasable (pte_frame e - nbase) 1 (kv_pmm ?s)" using L by simp_all
    show "pte_frame e \<notin> tables (kv_mem ?s) g" using L(4) n v ts by blast
  next
    fix q assume "maps ?s g q \<noteq> {}"
    then show "int (card (maps ?s g q)) \<le> page_ref q ?s" using leaves_ok_ref [OF l, of q] mp rf by simp
  qed
  moreover have "tree_ok (kv_mem ?s) g" unfolding tree_ok_def
  proof (intro allI impI)
    fix "is" js f assume a: "is_path is \<and> is_path js \<and> tab (kv_mem ?s) g is = Some f \<and> tab (kv_mem ?s) g js = Some f"
    have ng: "tab (kv_mem s) boot ks \<noteq> Some g" if "is_path ks" for ks using g(1) that by (auto simp: tables_def)
    have tr: "tree_ok (kv_mem s) boot" using pt by (simp add: pt_ok_def)
    have A: "is_path is" "is_path js" "tab (kv_mem ?s) g is = Some f" "tab (kv_mem ?s) g js = Some f" using a by blast+
    show "is = js"
    proof (cases "is = [] \<or> js = []")
      case True
      then show ?thesis using A(3,4) ng [OF A(1)] ng [OF A(2)] unfolding tb [OF A(1)] tb [OF A(2)] by (cases "is = []"; cases "js = []") simp_all
    next
      case False
      then have "tab (kv_mem s) boot is = Some f" "tab (kv_mem s) boot js = Some f" using A(3,4) unfolding tb [OF A(1)] tb [OF A(2)] by simp_all
      then show ?thesis using tr A(1,2) unfolding tree_ok_def by blast
    qed
  qed
  then have "pt_ok ?s F g" using pt g(2-4) ts by (auto simp: pt_ok_def)
  moreover have "kvm_ok ?s F" using ok by (simp add: space_ok_def kvm_ok_def)
  ultimately show "space_ok ?s F g" by (simp add: space_ok_def)
qed

lemma setup_root_ok:
  assumes ok: "space_ok s F boot" and rf: "refs_free s F" and F: "F \<noteq> {}"
  shows "\<exists>p s'. setup_root boot mm s = Some (0, mm\<lparr>mm_pgdir := Some (p + nbase)\<rparr>, s') \<and> p \<in> F \<and> space_ok s' (F - {p}) (p + nbase) \<and>
    refs_free s' (F - {p}) \<and> (\<forall>w. is_vpn w \<longrightarrow> leaf s' (p + nbase) w = leaf s boot w) \<and> npage s' = npage s \<and>
    tables (kv_mem s') (p + nbase) \<subseteq> insert (p + nbase) (tables (kv_mem s) boot) \<and>
    (\<forall>f. f \<noteq> p + nbase \<longrightarrow> kv_mem s' f = kv_mem s f)"
proof -
  obtain p s1 where a: "alloc_page s = Some (Some p, s1)" "p \<in> F" "space_ok s1 (F - {p}) boot" "refs_free s1 (F - {p})"
      "kv_mem s1 = kv_mem s" "npage s1 = npage s" "mappable s1 (F - {p}) boot p"
    using alloc_grow [OF ok rf] F by blast
  let ?g = "p + nbase"
  have M: "?g < npage s1" "?g \<notin> tables (kv_mem s1) boot" "?g - nbase \<notin> F - {p}" using a(7) by (simp_all add: mappable_def)
  have lf: "leaf s1 boot w = leaf s boot w" for w unfolding leaf_def a(5) ..
  have l: "leaves_ok s F boot" using ok by (simp add: space_ok_def)
  have n: "\<forall>w e. is_vpn w \<and> leaf s1 boot w = Some e \<longrightarrow> pte_frame e \<noteq> ?g"
  proof (intro allI impI)
    fix w e assume "is_vpn w \<and> leaf s1 boot w = Some e"
    then show "pte_frame e \<noteq> ?g" using leaves_okD(3) [OF l, of w e] lf a(2) by auto
  qed
  note C = copy_root [OF a(3) M(2) _ M(1,3) n]
  let ?s = "put_frame ?g (kv_mem s1 boot) s1"
  have "page2kva s1 p = Some ?g" using M(1) space_frames [OF a(3)] PPN_page2pa [of p] by (simp add: page2kva_def KADDR_def)
  then have "setup_root boot mm s = Some (0, mm\<lparr>mm_pgdir := Some ?g\<rparr>, ?s)" using a(1) by (simp add: setup_root_def)
  moreover have "refs_free ?s (F - {p})" using a(4) by (simp add: refs_free_def page_ref_def)
  ultimately show ?thesis using C a(2,5,6) lf by (intro exI [of _ p] exI [of _ ?s]) simp
qed

section \<open>The stack of the program\<close>

lemma mm_map_stack:
  assumes mm: "mm_ok mm" and fr: "\<forall>a. 0x7FF00 \<le> unat a div 4096 \<and> unat a div 4096 < 0x80000 \<longrightarrow> prot mm a = None"
  shows "\<exists>v mm'. mm_map True mm (USTACKTOP - USTACKSIZE) USTACKSIZE (VM_READ OR VM_WRITE OR VM_STACK) = Some (0, v, mm') \<and> mm_ok mm' \<and>
    mm_pgdir mm' = mm_pgdir mm \<and> mm_users mm' = mm_users mm \<and> stack_area \<in> set (mmap_list mm') \<and>
    (\<forall>a. unat a div 4096 \<notin> {0x7FF00..<0x80000} \<longrightarrow> prot mm' a = prot mm a)"
proof -
  have r: "(0x7FF00000 :: u64) = ROUNDDOWN (USTACKTOP - USTACKSIZE) PGSIZE" "(0x80000000 :: u64) = ROUNDUP (USTACKTOP - USTACKSIZE + USTACKSIZE) PGSIZE"
    by (simp_all add: ROUNDUP_def ROUNDDOWN_def)
  have R: "(0x7FF00000 :: u64) \<le> a \<longleftrightarrow> 0x7FF00 \<le> unat a div 4096" "a < (0x80000000 :: u64) \<longleftrightarrow> unat a div 4096 < 0x80000" for a
    using page_range_iff [of "0x7FF00" a] page_range_iff [of "0x80000" a] by simp_all
  have none: "prot mm a = None" if "0x7FF00000 \<le> a" "a < 0x80000000" for a using that fr R by blast
  have ua: "USER_ACCESS 0x7FF00000 0x80000000" by (simp add: USER_ACCESS_def)
  have "prot mm 0x7FF00000 = None" by (rule none) simp_all
  then have "case mm_map True mm (USTACKTOP - USTACKSIZE) USTACKSIZE (VM_READ OR VM_WRITE OR VM_STACK) of
      None \<Rightarrow> \<exists>a. 0x7FF00000 \<le> a \<and> a < 0x80000000 \<and> prot mm a \<noteq> None
    | Some (ret, v, mm') \<Rightarrow> mm_ok mm' \<and> ret = 0 \<and> prot mm' = (\<lambda>a. if 0x7FF00000 \<le> a \<and> a < 0x80000000 then Some (VM_READ OR VM_WRITE OR VM_STACK) else prot mm a)"
    using mm_map_ok [OF mm r, of True "VM_READ OR VM_WRITE OR VM_STACK"] ua by (auto split: option.splits)
  then obtain v mm' where m: "mm_map True mm (USTACKTOP - USTACKSIZE) USTACKSIZE (VM_READ OR VM_WRITE OR VM_STACK) = Some (0, v, mm')" "mm_ok mm'"
      "prot mm' = (\<lambda>a. if 0x7FF00000 \<le> a \<and> a < 0x80000000 then Some (VM_READ OR VM_WRITE OR VM_STACK) else prot mm a)"
    using none by (auto split: option.splits)
  have ins: "stack_area \<in> set (mmap_list mm')"
    using m(1) ua unfolding mm_map_def Let_def r [symmetric] insert_vma_struct_def vma_create_def stack_area_def
    by (auto simp: bind_Some_conv split: if_splits option.splits prod.splits)
  show ?thesis using m ins mm_map_keeps [OF m(1)] R by (intro exI [of _ v] exI [of _ mm']) (auto simp: not_le not_less)
qed

lemma user_entry_writable: "entry_for p PTE_USER AND 0x4 \<noteq> 0"
proof -
  have "bit (entry_for p PTE_USER AND 0x4) 2" by (simp add: pte_create_def bit_and_iff bit_or_iff bit_push_bit_iff)
  then show ?thesis by (metis bit_0_eq bot_apply bot_bool_def)
qed

lemma stack_writable_ok:
  assumes "space_ok s F r" "owns s r PTE_USER 0x7FFFF p"
  shows "stack_writable r s = Some s"
proof -
  have pt: "pt_ok s F r" using assms(1) by (simp add: space_ok_def)
  have va: "page_va 0x7FFFF = USTACKTOP - PGSIZE" by simp
  have v: "vpn_of 0x7FFFF = vpn (USTACKTOP - PGSIZE)" using vpn_page_va [of "0x7FFFF"] unfolding va by simp
  let ?la = "USTACKTOP - PGSIZE"
  have "leaf s r (vpn ?la) = Some (entry_for p PTE_USER)" using assms(2) unfolding v [symmetric] by (simp add: owns_def)
  then obtain t where t: "tab (kv_mem s) r [PDX1 ?la, PDX0 ?la] = Some t" "kv_mem s t (PTX ?la) = entry_for p PTE_USER"
    unfolding leaf_def vpn_def prod.case by (auto split: option.splits if_splits simp del: tab.simps)
  have "get_pte r ?la False s = Some (Some (t, PTX ?la), s)" by (rule get_pte_found [OF pt t(1)])
  then show ?thesis using t(2) user_entry_writable [of p] unfolding stack_writable_def by (simp add: pte_at_def)
qed

lemma seg_loaded_stored:
  assumes "seg_loaded d r mm s ph" "stored r Q b s s'" "dom b \<subseteq> {x. seg_end ph \<le> x}" "seg_end ph \<le> 2 ^ 31" "prot mm' = prot mm"
  shows "seg_loaded d r mm' s' ph"
  unfolding seg_loaded_def
proof (intro allI impI)
  fix x assume x: "unat (p_va ph) \<le> x \<and> x < seg_end ph"
  then have "b x = None" using assms(3) by (auto simp: dom_def)
  moreover have "x < 2 ^ 31" using x assms(4) by simp
  ultimately have "user_byte s' r x = user_byte s r x" using assms(2) by (simp add: stored_def map_add_def)
  then show "user_byte s' r x = Some (seg_byte d ph x) \<and> prot mm' (word_of_nat x) = Some (seg_flags ph) \<and>
     (\<exists>p. leaf s' r (vpn_of (x div 4096)) = Some (entry_for p (seg_perm (seg_flags ph))))"
    using assms(1,2,5) x by (simp add: seg_loaded_def stored_def)
qed

lemma stack_setup:
  assumes mm: "mm_ok mm" "mm_pgdir mm = Some r" "covered mm s r" and fr: "\<forall>a. 0x7FF00 \<le> unat a div 4096 \<and> unat a div 4096 < 0x80000 \<longrightarrow> prot mm a = None"
    and ok: "space_ok s F r" "refs_free s F" "12 \<le> card F"
  shows "\<exists>v mm1 s1 F1. mm_map True mm (USTACKTOP - USTACKSIZE) USTACKSIZE (VM_READ OR VM_WRITE OR VM_STACK) = Some (0, v, mm1) \<and>
    stack_pages r [USTACKTOP - PGSIZE, USTACKTOP - 2 * PGSIZE, USTACKTOP - 3 * PGSIZE, USTACKTOP - 4 * PGSIZE] s = Some s1 \<and>
    stack_writable r s1 = Some s1 \<and> has_stack mm1 r s1 F1 \<and> mm_users mm1 = mm_users mm \<and> refs_free s1 F1 \<and>
    (\<forall>q \<in> stack_set. \<exists>p \<in> F. owns s1 r PTE_USER q p) \<and> kept {0x7FF00..<0x80000} r mm s F mm1 s1 F1"
proof -
  obtain v mm1 where m: "mm_map True mm (USTACKTOP - USTACKSIZE) USTACKSIZE (VM_READ OR VM_WRITE OR VM_STACK) = Some (0, v, mm1)" "mm_ok mm1"
      "mm_pgdir mm1 = mm_pgdir mm" "mm_users mm1 = mm_users mm" "stack_area \<in> set (mmap_list mm1)"
      "\<forall>a. unat a div 4096 \<notin> {0x7FF00..<0x80000} \<longrightarrow> prot mm1 a = prot mm a"
    using mm_map_stack [OF mm(1) fr] by blast
  let ?qs = "[0x7FFFF, 0x7FFFE, 0x7FFFD, 0x7FFFC] :: nat list"
  have qs: "map page_va ?qs = [USTACKTOP - PGSIZE, USTACKTOP - 2 * PGSIZE, USTACKTOP - 3 * PGSIZE, USTACKTOP - 4 * PGSIZE]" by simp
  have un: "q < 2 ^ 27 \<and> leaf s r (vpn_of q) = None" if "q \<in> set ?qs" for q
  proof -
    have q: "0x7FF00 \<le> q" "q < 0x80000" using that by auto
    then have "unat (page_va q) div 4096 = q" using unat_page_va [of q] by simp
    then have "prot mm (page_va q) = None" using fr q by metis
    then show ?thesis using mm(3) q(2) unfolding covered_def by auto
  qed
  have d: "distinct ?qs" by simp
  have c: "3 * length ?qs \<le> card F" using ok(3) by simp
  have perm: "(PTE_USER :: u64) < 2 ^ 10" by simp
  obtain s1 F1 where R: "stack_pages r (map page_va ?qs) s = Some s1" "space_ok s1 F1 r" "refs_free s1 F1" "F1 \<subseteq> F" "keeps_frames r s F s1"
      "\<forall>q < 2 ^ 27. q \<notin> set ?qs \<longrightarrow> leaf s1 r (vpn_of q) = leaf s r (vpn_of q)" "\<forall>q \<in> set ?qs. \<exists>p \<in> F. owns s1 r PTE_USER q p"
    using stack_pages_runs [OF perm ok(1,2) d _ c] un by blast
  have ss: "stack_set = set ?qs" by (auto simp: stack_set_def)
  have "own_pages s1 r stack_set" using R(7) unfolding ss own_pages_def by blast
  then have h: "has_stack mm1 r s1 F1" using m(2,3,5) mm(2) R(2) by (simp add: has_stack_def)
  obtain p where "owns s1 r PTE_USER 0x7FFFF p" using R(7) by auto
  then have w: "stack_writable r s1 = Some s1" by (rule stack_writable_ok [OF R(2)])
  have "kept {0x7FF00..<0x80000} r mm s F mm1 s1 F1" using m(3,4,6) R(4-6) by (auto simp: kept_def)
  then show ?thesis using m(1,4) R(1,3,7) w h unfolding qs ss by blast
qed

definition args_fit :: "u8 list list \<Rightarrow> bool" where
  "args_fit kargv \<longleftrightarrow> length (strz kargv) + 8 * (length kargv + 1) + 7 \<le> 0x4000"

text \<open>What the process has once its stack is there: the new space is its own, the stack pointer is known, and the arguments are on
  the stack.\<close>

definition entered :: "u8 list list \<Rightarrow> elfhdr \<Rightarrow> nat \<Rightarrow> 'f loader \<Rightarrow> 'f loader \<Rightarrow> mm_struct \<Rightarrow> nat \<Rightarrow> bool" where
  "entered kargv elf r st st' mm tp \<longleftrightarrow> ld_mm st' = Some mm \<and> mm_users mm = 1 \<and> mm_pgdir mm = Some r \<and> ld_root st' = r \<and>
     ld_tf st' = user_frame (length kargv) (word_of_nat tp) (e_entry elf) (tf_status (ld_tf st)) \<and>
     (if kargv = [] then tp = stack_hi else args_at kargv tp r (ld_kvm st')) \<and> stack_lo \<le> tp \<and> tp \<le> stack_hi \<and>
     own_pages (ld_kvm st') r stack_set \<and> stack_area \<in> set (mmap_list mm)"

lemma prot_cache [simp]: "prot (mm\<lparr>mmap_cache := c\<rparr>) = prot mm"
  by (simp add: prot_def fun_eq_iff)

lemma prot_users [simp]: "prot (mm\<lparr>mm_users := c\<rparr>) = prot mm"
  by (simp add: prot_def area_def fun_eq_iff)

lemma has_stack_users [simp]: "has_stack (mm\<lparr>mm_users := c\<rparr>) r s F = has_stack mm r s F"
  by (simp add: has_stack_def mm_ok_def)

lemma load_stack_runs:
  assumes mm: "mm_ok mm" "mm_pgdir mm = Some r" "covered mm (ld_kvm st) r" "mm_users mm = 0"
    and fr: "\<forall>a. 0x7FF00 \<le> unat a div 4096 \<and> unat a div 4096 < 0x80000 \<longrightarrow> prot mm a = None"
    and ok: "space_ok (ld_kvm st) F r" "refs_free (ld_kvm st) F" "12 \<le> card F"
    and env: "le_stack env" "le_uargv env = Some u" "u \<noteq> b" "b \<in> ld_blocks st" "u \<notin> ld_blocks st" and args: "args_fit kargv"
  shows "\<exists>st' mm' F' tp. load_stack env kargv elf (Some b) mm st = Some (0, st') \<and> entered kargv elf r st st' mm' tp \<and>
    ld_blocks st' = ld_blocks st - {b} \<and> space_ok (ld_kvm st') F' r \<and> F' \<subseteq> F \<and>
    (\<forall>f. f \<notin> tables (kv_mem (ld_kvm st)) r \<and> (\<forall>q \<in> F. f \<noteq> q + nbase) \<longrightarrow> kv_mem (ld_kvm st') f = kv_mem (ld_kvm st) f) \<and>
    (\<forall>d ph. seg_loaded d r mm (ld_kvm st) ph \<and> seg_ok d ph \<and> seg_end ph \<le> 0x7FF00000 \<longrightarrow> seg_loaded d r mm' (ld_kvm st') ph)"
proof -
  obtain v mm1 s1 F1 where S: "mm_map True mm (USTACKTOP - USTACKSIZE) USTACKSIZE (VM_READ OR VM_WRITE OR VM_STACK) = Some (0, v, mm1)"
    "stack_pages r [USTACKTOP - PGSIZE, USTACKTOP - 2 * PGSIZE, USTACKTOP - 3 * PGSIZE, USTACKTOP - 4 * PGSIZE] (ld_kvm st) = Some s1"
    "stack_writable r s1 = Some s1" "has_stack mm1 r s1 F1" "mm_users mm1 = mm_users mm" "refs_free s1 F1"
    "\<forall>q \<in> stack_set. \<exists>p \<in> F. owns s1 r PTE_USER q p" "kept {0x7FF00..<0x80000} r mm (ld_kvm st) F mm1 s1 F1"
    using stack_setup [OF mm(1-3) fr ok] by blast
  note K = S(8) [unfolded kept_def]
  have pg: "mm_pgdir mm1 = Some r" using K mm(2) by simp
  let ?mm2 = "mm1\<lparr>mm_users := 1\<rparr>" and ?st1 = "st\<lparr>ld_kvm := s1, ld_mm := Some (mm1\<lparr>mm_users := 1\<rparr>), ld_root := r\<rparr>"
  have sp: "space_ok s1 F1 r" "F1 \<subseteq> F" using S(4) K by (simp_all add: has_stack_def)
  have segs: "seg_loaded d r mm1 s1 ph" if "seg_loaded d r mm (ld_kvm st) ph" "seg_ok d ph" "seg_end ph \<le> 0x7FF00000" for d ph
  proof (rule seg_loaded_kept [OF that(1) S(8) ok(1) that(2)])
    have "4096 * (seg_hi ph - 1) < 4096 * 0x7FF00" using seg_bounds(6) [OF that(2)] that(3) by simp
    then show "seg_pages ph \<inter> {0x7FF00..<0x80000} = {}" by (auto simp: seg_pages_def)
  qed
  have e1: "le_stack env = True" and u1: "mm_users mm1 + 1 = 1" using env(1) S(5) mm(4) by simp_all
  have eq: "load_stack env kargv elf (Some b) mm st =
     (if kargv = [] then
        ld_out (Some b) None 0 (?st1\<lparr>ld_tf := user_frame 0 USTACKTOP (e_entry elf) (tf_status (ld_tf st))\<rparr>)
      else do {
        let st2 = ?st1\<lparr>ld_blocks := insert u (ld_blocks ?st1)\<rparr>;
        (tp, mm3, s3) \<leftarrow> push_argv kargv ?mm2 (ld_kvm st2);
        let st3 = st2\<lparr>ld_kvm := s3, ld_mm := Some mm3\<rparr>;
        (case tp of
           None \<Rightarrow> bad_cleanup_user env (Some b) (Some u) mm3 (- E_INVAL) st3
         | Some tp \<Rightarrow> ld_out (Some b) (Some u) 0 (st3\<lparr>ld_tf := user_frame (length kargv) tp (e_entry elf) (tf_status (ld_tf st))\<rparr>))
      })"
    unfolding load_stack_def e1 S(1) bind.bind_lunit prod.case pg S(2,3) Let_def u1 env(2) option.case by simp
  show ?thesis
  proof (cases "kargv = []")
    case True
    let ?st' = "?st1\<lparr>ld_tf := user_frame 0 USTACKTOP (e_entry elf) (tf_status (ld_tf st)), ld_blocks := ld_blocks st - {b}\<rparr>"
    have "load_stack env kargv elf (Some b) mm st = Some (0, ?st')" using True env(4) unfolding eq by (simp add: ld_out_def ld_kfree_def)
    moreover have "entered kargv elf r st ?st' ?mm2 stack_hi" using True pg S(4) by (simp add: entered_def has_stack_def)
    moreover have "seg_loaded d r ?mm2 s1 ph" if "seg_loaded d r mm1 s1 ph" for d ph using that by (simp add: seg_loaded_def)
    ultimately show ?thesis using sp segs K
      by (intro exI [of _ ?st'] exI [of _ ?mm2] exI [of _ F1] exI [of _ stack_hi]) (simp add: keeps_frames_def)
  next
    case False
    have h: "has_stack ?mm2 r s1 F1" using S(4) by simp
    obtain tp c bm s2 where P: "push_argv kargv ?mm2 s1 = Some (Some (word_of_nat tp), ?mm2\<lparr>mmap_cache := c\<rparr>, s2)" "stack_lo \<le> tp" "tp < stack_hi"
      "has_stack (?mm2\<lparr>mmap_cache := c\<rparr>) r s2 F1" "args_at kargv tp r s2" "stored r stack_set bm s1 s2" "dom bm \<subseteq> {tp..<stack_hi}"
      using push_argv_runs [OF h] args unfolding args_fit_def by blast
    let ?mm3 = "?mm2\<lparr>mmap_cache := c\<rparr>"
    let ?st' = "?st1\<lparr>ld_blocks := ld_blocks st - {b}, ld_kvm := s2, ld_mm := Some ?mm3, ld_tf := user_frame (length kargv) (word_of_nat tp) (e_entry elf) (tf_status (ld_tf st))\<rparr>"
    have bl: "insert u (ld_blocks st) - {b} - {u} = ld_blocks st - {b}" using env(5) by auto
    have "load_stack env kargv elf (Some b) mm st = Some (0, ?st')" using False env(3-5) unfolding eq
      by (simp add: Let_def P(1) ld_out_def ld_kfree_def bl)
    moreover have "entered kargv elf r st ?st' ?mm3 tp" using False pg P by (simp add: entered_def has_stack_def)
    moreover have "space_ok s2 F1 r" using P(4) by (simp add: has_stack_def)
    moreover have "kv_mem s2 f = kv_mem (ld_kvm st) f" if f: "f \<notin> tables (kv_mem (ld_kvm st)) r" "\<forall>q \<in> F. f \<noteq> q + nbase" for f
    proof -
      have "map_option pte_frame (leaf s1 r (vpn_of q)) \<noteq> Some f" if q: "q \<in> stack_set" for q
      proof -
        obtain p where p: "p \<in> F" "owns s1 r PTE_USER q p" using S(7) q by blast
        then have "pte_frame (entry_for p PTE_USER) = p + nbase" using owns_frame [OF p(2) sp(1)] by simp
        then show ?thesis using f(2) p by (auto simp: owns_def)
      qed
      then have "kv_mem s2 f = kv_mem s1 f" using P(6) unfolding stored_def by blast
      then show ?thesis using K f by (simp add: keeps_frames_def)
    qed
    moreover have "seg_loaded d r ?mm3 s2 ph" if "seg_loaded d r mm1 s1 ph" "seg_end ph \<le> 0x7FF00000" for d ph
      by (rule seg_loaded_stored [OF that(1) P(6)]) (use that(2) P(2,7) in auto)
    ultimately show ?thesis using sp(2) segs
      by (intro exI [of _ ?st'] exI [of _ ?mm3] exI [of _ F1] exI [of _ tp]) simp
  qed
qed

section \<open>The whole\<close>

definition elf_of :: "u8 list \<Rightarrow> elfhdr" where
  "elf_of d = elfhdr_of (chunk 0 64 d)"

definition phdrs_of :: "u8 list \<Rightarrow> proghdr list" where
  "phdrs_of d = proghdrs_of (unat (e_phnum (elf_of d))) (chunk (unat (e_phoff (elf_of d))) (56 * unat (e_phnum (elf_of d))) d)"

text \<open>A program that can be loaded: the headers lie in the file, the segments in the file and in user memory below the stack, in
  pages of their own.\<close>

definition program_ok :: "u8 list \<Rightarrow> bool" where
  "program_ok d \<longleftrightarrow> 64 \<le> length d \<and> e_magic (elf_of d) = ELF_MAGIC \<and>
     unat (e_phoff (elf_of d)) + 56 * unat (e_phnum (elf_of d)) \<le> length d \<and>
     (\<forall>ph \<in> set (loads (phdrs_of d)). seg_ok d ph \<and> seg_end ph \<le> 0x7FF00000) \<and>
     sorted_wrt (\<lambda>a b. seg_pages a \<inter> seg_pages b = {}) (loads (phdrs_of d))"

text \<open>The heap gives all that is asked for, in blocks that are not in use.\<close>

definition granted :: "load_env \<Rightarrow> nat set \<Rightarrow> bool" where
  "granted env B \<longleftrightarrow> le_mm env \<and> le_stack env \<and> (\<forall>ph. le_vma env ph) \<and>
     (\<exists>b u. le_phdrs env = Some b \<and> le_uargv env = Some u \<and> b \<noteq> u \<and> b \<notin> B \<and> u \<notin> B)"

definition no_user :: "kvm \<Rightarrow> nat \<Rightarrow> bool" where
  "no_user s r \<longleftrightarrow> (\<forall>q < 0x80000. leaf s r (vpn_of q) = None)"

text \<open>Up to the segments: the new space is empty, the headers have been read, and their block is in use.\<close>

lemma load_icode_headers:
  assumes hf: "holds_file seek rd d I" and I: "I (ld_file st)" and prog: "program_ok d"
    and st: "ld_mm st = None" "space_ok (ld_kvm st) F (le_boot env)" "refs_free (ld_kvm st) F" "no_user (ld_kvm st) (le_boot env)" "F \<noteq> {}"
    and env: "granted env (ld_blocks st)" and b: "le_phdrs env = Some b"
  shows "\<exists>p mm s1 f1. load_icode seek rd env kargv st = do {
      (r, mm1, s2, f) \<leftarrow> load_segments seek rd (le_vma env) (phdrs_of d) mm s1 f1;
      let st5 = st\<lparr>ld_blocks := insert b (ld_blocks st), ld_kvm := s2, ld_file := f\<rparr>;
      (case r of
         Some ret \<Rightarrow> bad_cleanup_mmap (Some b) mm1 ret st5
       | None \<Rightarrow> load_stack env kargv (elf_of d) (Some b) mm1 st5)} \<and>
    I f1 \<and> p \<in> F \<and> space_ok s1 (F - {p}) (p + nbase) \<and> refs_free s1 (F - {p}) \<and> mm_ok mm \<and> mm_pgdir mm = Some (p + nbase) \<and>
    mm_users mm = 0 \<and> (\<forall>a. prot mm a = None) \<and> covered mm s1 (p + nbase) \<and> segs_ok d mm (phdrs_of d) \<and> card (F - {p}) = card F - 1 \<and>
    tables (kv_mem s1) (p + nbase) \<subseteq> insert (p + nbase) (tables (kv_mem (ld_kvm st)) (le_boot env)) \<and>
    (\<forall>f. f \<noteq> p + nbase \<longrightarrow> kv_mem s1 f = kv_mem (ld_kvm st) f)"
proof -
  let ?boot = "le_boot env" and ?s = "ld_kvm st" and ?elf = "elf_of d"
  let ?mm0 = "\<lparr>mmap_list = [], mmap_cache = None, mm_pgdir = None, map_count = 0, mm_users = 0\<rparr> :: mm_struct"
  note P = prog [unfolded program_ok_def]
  have G: "le_mm env = True" using env by (simp add: granted_def)
  obtain p s1 where R: "setup_root ?boot ?mm0 ?s = Some (0, ?mm0\<lparr>mm_pgdir := Some (p + nbase)\<rparr>, s1)" "p \<in> F" "space_ok s1 (F - {p}) (p + nbase)"
    "refs_free s1 (F - {p})" "\<forall>w. is_vpn w \<longrightarrow> leaf s1 (p + nbase) w = leaf ?s ?boot w"
    "tables (kv_mem s1) (p + nbase) \<subseteq> insert (p + nbase) (tables (kv_mem ?s) ?boot)" "\<forall>f. f \<noteq> p + nbase \<longrightarrow> kv_mem s1 f = kv_mem ?s f"
    using setup_root_ok [OF st(2,3,5)] by blast
  let ?mm = "?mm0\<lparr>mm_pgdir := Some (p + nbase)\<rparr>"
  have mm: "mm_ok ?mm" "mm_pgdir ?mm = Some (p + nbase)" "mm_users ?mm = 0" by (simp_all add: mm_ok_def vmas_ok_def)
  have pn: "prot ?mm a = None" for a by (simp add: prot_def area_def)
  have cov: "covered ?mm s1 (p + nbase)" using R(5) st(4) is_vpn_of by (simp add: covered_def no_user_def)
  have so: "segs_ok d ?mm (phdrs_of d)" using P pn by (simp add: segs_ok_def seg_free_def)
  have l64: "0 + 64 \<le> length d" using P by simp
  obtain f1 where f1: "load_icode_read seek rd 64 0 (ld_file st) = Some (0, chunk 0 64 d, f1)" "I f1"
    using load_icode_read_ok [OF hf I l64] by auto
  have lph: "unat (e_phoff ?elf) + 56 * unat (e_phnum ?elf) \<le> length d" using P by blast
  obtain f2 where f2: "load_icode_read seek rd (56 * unat (e_phnum ?elf)) (e_phoff ?elf) f1 =
      Some (0, chunk (unat (e_phoff ?elf)) (56 * unat (e_phnum ?elf)) d, f2)" "I f2"
    using load_icode_read_ok [OF hf f1(2) lph] by auto
  have cF: "card (F - {p}) = card F - 1" using R(2) by (simp add: card_Diff_singleton)
  have "load_icode seek rd env kargv st = do {
      (r, mm1, s2, f) \<leftarrow> load_segments seek rd (le_vma env) (phdrs_of d) ?mm s1 f2;
      let st5 = st\<lparr>ld_blocks := insert b (ld_blocks st), ld_kvm := s2, ld_file := f\<rparr>;
      (case r of
         Some ret \<Rightarrow> bad_cleanup_mmap (Some b) mm1 ret st5
       | None \<Rightarrow> load_stack env kargv (elf_of d) (Some b) mm1 st5)}"
    unfolding load_icode_def st(1) G mm_create_def using R(1) f1(1) f2(1) b P
    by (simp add: Let_def elf_of_def [symmetric] phdrs_of_def [symmetric] cong: option.case_cong)
  then show ?thesis using R f2(2) mm pn cov so cF by blast
qed


text \<open>A program of four bytes in a segment of eight, and a machine of forty pages.\<close>

definition demo :: "u8 list" where
  "demo =
    [127, 69, 76, 70, 0, 0, 0, 0, 0, 0, 0, 0, 0, 0, 0, 0, 0, 0, 0, 0, 0, 0, 0, 0, 0, 0, 128, 0, 0, 0, 0, 0, 64, 0, 0, 0, 0, 0, 0, 0, 0, 0, 0, 0, 0, 0, 0, 0, 0, 0, 0, 0, 0, 0, 0, 0, 1, 0, 0, 0, 0, 0, 0, 0] @
    [1, 0, 0, 0, 5, 0, 0, 0, 120, 0, 0, 0, 0, 0, 0, 0, 0, 0, 128, 0, 0, 0, 0, 0, 0, 0, 0, 0, 0, 0, 0, 0, 4, 0, 0, 0, 0, 0, 0, 0, 8, 0, 0, 0, 0, 0, 0, 0, 0, 0, 0, 0, 0, 0, 0, 0] @
    [19, 1, 2, 3]"

definition demo_kvm :: kvm where
  "demo_kvm = \<lparr>kv_sie = True, kv_pmm = take_block 0 3 (region0 40), kv_mem = (\<lambda>_ _. 0), npage = nbase + 40\<rparr>"

definition demo_loader :: "nat loader" where
  "demo_loader = \<lparr>ld_kvm = demo_kvm, ld_file = 0, ld_blocks = {}, ld_mm = None, ld_root = nbase,
     ld_tf = \<lparr>tf_sp = 0, tf_a0 = 0, tf_a1 = 0, tf_epc = 0, tf_status = 0\<rparr>\<rparr>"

definition demo_env :: load_env where
  "demo_env = \<lparr>le_mm = True, le_phdrs = Some 1, le_vma = (\<lambda>_. True), le_stack = True, le_uargv = Some 2, le_boot = nbase\<rparr>"

definition demo_seek :: "nat seek_op" where
  "demo_seek pos f = Some (0, nat pos)"

definition demo_read :: "u8 list \<Rightarrow> nat read_op" where
  "demo_read d n f = Some (int (length (chunk f n d)), chunk f n d, f + length (chunk f n d))"

lemma demo_file: "length d < 2 ^ 31 \<Longrightarrow> holds_file demo_seek (demo_read d) d (\<lambda>_. True)"
  by (simp add: holds_file_def demo_seek_def demo_read_def)

lemma demo_elf: "elf_of demo = \<lparr>e_magic = 0x464C457F, e_elf = [0, 0, 0, 0, 0, 0, 0, 0, 0, 0, 0, 0], e_type = 0, e_machine = 0, e_version = 0, e_entry = 0x800000,
    e_phoff = 64, e_shoff = 0, e_flags = 0, e_ehsize = 0, e_phentsize = 0, e_phnum = 1, e_shentsize = 0, e_shnum = 0, e_shstrndx = 0\<rparr>"
  by (simp add: elf_of_def elfhdr_of_def demo_def chunk_def le_field_def)

lemma demo_phdrs: "phdrs_of demo = [\<lparr>p_type = 1, p_flags = 5, p_offset = 120, p_va = 0x800000, p_pa = 0, p_filesz = 4, p_memsz = 8, p_align = 0\<rparr>]"
  unfolding phdrs_of_def demo_elf by (simp add: proghdrs_of_def proghdr_of_def demo_def chunk_def le_field_def)

lemma demo_seg: "seg_lo (hd (phdrs_of demo)) = 0x800" "seg_hi (hd (phdrs_of demo)) = 0x801" "seg_end (hd (phdrs_of demo)) = 0x800008"
  by (simp_all add: demo_phdrs seg_lo_def seg_hi_def seg_end_def)

lemma demo_ok: "program_ok demo"
  unfolding program_ok_def demo_elf demo_phdrs by (simp add: seg_ok_def seg_end_def demo_def)

lemma demo_pmm: "pmm_inv (kv_pmm demo_kvm) {3..<40}" "refs_free demo_kvm {3..<40}"
proof -
  note w = region0_wf [of 40, simplified]
  have "fl_wf (take_block 0 3 (region0 40)) [3]" "blocks (take_block 0 3 (region0 40)) [3] = {3..<40}"
    using take_block_split [OF w(1), of 3] w by simp_all
  then show "pmm_inv (kv_pmm demo_kvm) {3..<40}" unfolding pmm_inv_def demo_kvm_def by auto
  have res: "\<forall>q \<in> {0..<0 + 40}. PageReserved (pages (default_init reserved_pmm) q)"
    by (simp add: default_init_def reserved_pmm_def PageReserved_def)
  obtain s' where s': "default_init_memmap 0 40 (default_init reserved_pmm) = Some s'"
    using default_init_memmap_wf [OF default_init_wf _ _ _ res] by auto
  then have "ref (pages s' q) = 0" for q
    by (auto simp: default_init_memmap_def init_block_Some upd_range_def default_init_def reserved_pmm_def bind_Some_conv Let_def SetPageProperty_def)
  then have "ref (pages (region0 40) q) = 0" for q using s' by (simp add: region0_def)
  then show "refs_free demo_kvm {3..<40}" by (simp add: refs_free_def page_ref_def demo_kvm_def take_block_ref)
qed

lemma demo_tab: "tab (kv_mem demo_kvm) nbase is = (if is = [] then Some nbase else None)"
  by (cases "is") (simp_all add: demo_kvm_def)

lemma demo_leaf: "leaf demo_kvm nbase v = None"
  unfolding leaf_def demo_tab by (simp split: prod.split)

lemma demo_space: "space_ok demo_kvm {3..<40} nbase" "no_user demo_kvm nbase"
proof -
  have t: "tables (kv_mem demo_kvm) nbase = {nbase}" by (auto simp: tables_def demo_tab)
  have "tree_ok (kv_mem demo_kvm) nbase" by (simp add: tree_ok_def demo_tab)
  then show "space_ok demo_kvm {3..<40} nbase" using demo_pmm(1)
    by (auto simp: space_ok_def kvm_ok_def pt_ok_def t leaves_ok_def maps_def demo_leaf) (simp_all add: demo_kvm_def)
  show "no_user demo_kvm nbase" by (simp add: no_user_def demo_leaf)
qed


end
