(* ===== verification/LoadFail.thy ===== *)
theory LoadFail
  imports LoadExec
begin

text \<open>
  Loading when memory is short: after the first page has been read, the variable \<^verbatim>\<open>ret\<close> is 0, and a later page that cannot be
  had makes \<^verbatim>\<open>load_icode\<close> return that 0 although the process has no address space then.
\<close>

lemma load_segment_short:
  assumes hf: "holds_file seek rd d I" and sok: "seg_ok d ph" and mm: "mm_ok mm" "mm_pgdir mm = Some r" "seg_free mm ph" "covered mm s r"
    and ok: "space_ok s F r" "refs_free s F" "I f" and short: "p_filesz ph \<noteq> 0" "3 \<le> card F" "card F < seg_hi ph - seg_lo ph"
  shows "\<exists>mm' s' f'. load_segment seek rd True ph mm s f = Some (Some 0, mm', s', f')"
proof -
  obtain res mm' s' f' F' n' where L: "load_segment seek rd True ph mm s f = Some (res, mm', s', f')" "seg_lo ph \<le> n'"
    "filled r (seg_perm (seg_flags ph)) (seg_lo ph) n' {x. unat (p_va ph) \<le> x \<and> x < seg_end ph \<and> x < 4096 * n'} (seg_byte d ph) s F s' F'"
    "seg_done ph n' F res F'"
    using load_segment_runs [OF hf sok mm ok] by blast
  have c: "card F' + (n' - seg_lo ph) \<le> card F" using L(3) by (simp add: filled_def)
  have "res = Some 0"
  proof (cases res)
    case None
    then have "n' = seg_hi ph" using L(4) by (simp add: seg_done_def)
    then show ?thesis using c short(3) by simp
  next
    case (Some e)
    then have "e = (if n' = seg_lo ph \<or> p_filesz ph = 0 then - E_NO_MEM else 0)" "card F \<le> 3 * (n' - seg_lo ph) + 2"
      using L(4) by (simp_all add: seg_done_def)
    moreover from this have "n' \<noteq> seg_lo ph" using short(2) by auto
    ultimately show ?thesis using Some short(1) by simp
  qed
  then show ?thesis using L(1) by blast
qed


text \<open>The program of \<open>demo\<close> with 64 pages of zeros behind its four bytes, on the same machine.\<close>

definition demo_big :: "u8 list" where
  "demo_big = demo[106 := 4]"

lemma demo_big_elf: "elf_of demo_big = elf_of demo"
  by (simp add: elf_of_def elfhdr_of_def demo_big_def demo_def chunk_def le_field_def)

lemma demo_big_phdrs:
  "phdrs_of demo_big = [\<lparr>p_type = 1, p_flags = 5, p_offset = 120, p_va = 0x800000, p_pa = 0, p_filesz = 4, p_memsz = 0x40008, p_align = 0\<rparr>]"
  unfolding phdrs_of_def demo_big_elf demo_elf
  by (simp add: proghdrs_of_def proghdr_of_def demo_big_def demo_def chunk_def le_field_def)


end
