(* ===== verification/SkewHeap.thy ===== *)
theory SkewHeap
  imports Prelude "HOL-Library.Tree_Multiset"
begin

text \<open>
  The skew heap of \<^verbatim>\<open>libs/skew_heap.h\<close>, at the level of its pointers: three maps for the fields
  \<^verbatim>\<open>parent\<close>, \<^verbatim>\<open>left\<close> and \<^verbatim>\<open>right\<close> of the entries, \<open>None\<close> for NULL. The functions are proved to compute
  the corresponding operations on binary trees, for any comparison function; when the comparison is
  that of a key, the root has the least key.
\<close>

section \<open>Operations\<close>

record skew_links =
  sk_parent :: "nat \<Rightarrow> nat option"
  sk_left :: "nat \<Rightarrow> nat option"
  sk_right :: "nat \<Rightarrow> nat option"

definition skew_heap_init :: "nat \<Rightarrow> skew_links \<Rightarrow> skew_links" where
  "skew_heap_init a L =
     L\<lparr>sk_left := (sk_left L)(a := None), sk_right := (sk_right L)(a := None),
       sk_parent := (sk_parent L)(a := None)\<rparr>"

definition set_parent :: "nat option \<Rightarrow> nat option \<Rightarrow> skew_links \<Rightarrow> skew_links" where
  "set_parent l p L = (case l of None \<Rightarrow> L | Some x \<Rightarrow> L\<lparr>sk_parent := (sk_parent L)(x := p)\<rparr>)"

partial_function (option) skew_heap_merge ::
  "(nat \<Rightarrow> nat \<Rightarrow> int) \<Rightarrow> nat option \<Rightarrow> nat option \<Rightarrow> skew_links \<Rightarrow> (nat option \<times> skew_links) option" where
  "skew_heap_merge cmp a b L =
     (case a of None \<Rightarrow> Some (b, L)
      | Some x \<Rightarrow>
        (case b of None \<Rightarrow> Some (a, L)
         | Some y \<Rightarrow>
            if cmp x y = -1 then do {
              let r = sk_left L x;
              (l, L1) \<leftarrow> skew_heap_merge cmp (sk_right L x) b L;
              let L2 = L1\<lparr>sk_left := (sk_left L1)(x := l), sk_right := (sk_right L1)(x := r)\<rparr>;
              Some (a, set_parent l (Some x) L2)
            } else do {
              let r = sk_left L y;
              (l, L1) \<leftarrow> skew_heap_merge cmp a (sk_right L y) L;
              let L2 = L1\<lparr>sk_left := (sk_left L1)(y := l), sk_right := (sk_right L1)(y := r)\<rparr>;
              Some (b, set_parent l (Some y) L2)
            }))"

declare skew_heap_merge.simps [code]

definition skew_heap_insert ::
  "(nat \<Rightarrow> nat \<Rightarrow> int) \<Rightarrow> nat option \<Rightarrow> nat \<Rightarrow> skew_links \<Rightarrow> (nat option \<times> skew_links) option" where
  "skew_heap_insert cmp a b L = skew_heap_merge cmp a (Some b) (skew_heap_init b L)"

definition skew_heap_remove ::
  "(nat \<Rightarrow> nat \<Rightarrow> int) \<Rightarrow> nat option \<Rightarrow> nat \<Rightarrow> skew_links \<Rightarrow> (nat option \<times> skew_links) option" where
  "skew_heap_remove cmp a b L = do {
     let p = sk_parent L b;
     (rep, L1) \<leftarrow> skew_heap_merge cmp (sk_left L b) (sk_right L b) L;
     let L2 = set_parent rep p L1;
     (case p of
        None \<Rightarrow> Some (rep, L2)
      | Some q \<Rightarrow>
          if sk_left L2 q = Some b then Some (a, L2\<lparr>sk_left := (sk_left L2)(q := rep)\<rparr>)
          else Some (a, L2\<lparr>sk_right := (sk_right L2)(q := rep)\<rparr>))
   }"

section \<open>Trees\<close>

fun troot :: "'a tree \<Rightarrow> 'a option" where
  "troot \<langle>\<rangle> = None"
| "troot \<langle>l, a, r\<rangle> = Some a"

function tmerge :: "('a \<Rightarrow> 'a \<Rightarrow> int) \<Rightarrow> 'a tree \<Rightarrow> 'a tree \<Rightarrow> 'a tree" where
  "tmerge cmp \<langle>\<rangle> t = t"
| "tmerge cmp \<langle>l1, a, r1\<rangle> \<langle>\<rangle> = \<langle>l1, a, r1\<rangle>"
| "tmerge cmp \<langle>l1, a, r1\<rangle> \<langle>l2, b, r2\<rangle> =
     (if cmp a b = -1 then \<langle>tmerge cmp r1 \<langle>l2, b, r2\<rangle>, a, l1\<rangle>
      else \<langle>tmerge cmp \<langle>l1, a, r1\<rangle> r2, b, l2\<rangle>)"
  by pat_completeness auto
termination by (relation "measure (\<lambda>(c, s, t). size s + size t)") auto

fun tremove :: "('a \<Rightarrow> 'a \<Rightarrow> int) \<Rightarrow> 'a \<Rightarrow> 'a tree \<Rightarrow> 'a tree" where
  "tremove cmp b \<langle>\<rangle> = \<langle>\<rangle>"
| "tremove cmp b \<langle>l, a, r\<rangle> =
     (if a = b then tmerge cmp l r
      else if b \<in> set_tree l then \<langle>tremove cmp b l, a, r\<rangle> else \<langle>l, a, tremove cmp b r\<rangle>)"

lemma tmerge_Leaf [simp]: "tmerge cmp t \<langle>\<rangle> = t"
  by (cases t) auto

lemma mset_tmerge: "mset_tree (tmerge cmp s t) = mset_tree s + mset_tree t"
  by (induction cmp s t rule: tmerge.induct) auto

lemma set_tmerge [simp]: "set_tree (tmerge cmp s t) = set_tree s \<union> set_tree t"
  by (induction cmp s t rule: tmerge.induct) auto

lemma mset_tremove: "b \<in> set_tree t \<Longrightarrow> mset_tree (tremove cmp b t) = mset_tree t - {#b#}"
proof (induction t)
  case (Node l a r)
  have "b \<in># mset_tree l" if "b \<in> set_tree l" using that by simp
  moreover have "b \<in># mset_tree r" if "b \<in> set_tree r" using that by simp
  ultimately show ?case using Node by (auto simp: mset_tmerge)
qed simp

lemma troot_None [simp]: "troot t = None \<longleftrightarrow> t = \<langle>\<rangle>"
  by (cases t) auto

lemma troot_in: "troot t = Some a \<Longrightarrow> a \<in> set_tree t"
  by (cases t) auto

section \<open>The pointers represent a tree\<close>

text \<open>\<open>sk_tree L p t\<close>: the entries of \<open>t\<close> are linked as \<open>t\<close> says, and the parent of its root is \<open>p\<close>.
  \<open>sk_sub L t\<close> says nothing about the parent of the root, which the merge sets last.\<close>

fun sk_tree :: "skew_links \<Rightarrow> nat option \<Rightarrow> nat tree \<Rightarrow> bool" where
  "sk_tree L p \<langle>\<rangle> \<longleftrightarrow> True"
| "sk_tree L p \<langle>l, a, r\<rangle> \<longleftrightarrow> sk_parent L a = p \<and> sk_left L a = troot l \<and> sk_right L a = troot r \<and>
     sk_tree L (Some a) l \<and> sk_tree L (Some a) r"

fun sk_sub :: "skew_links \<Rightarrow> nat tree \<Rightarrow> bool" where
  "sk_sub L \<langle>\<rangle> \<longleftrightarrow> True"
| "sk_sub L \<langle>l, a, r\<rangle> \<longleftrightarrow> sk_left L a = troot l \<and> sk_right L a = troot r \<and>
     sk_tree L (Some a) l \<and> sk_tree L (Some a) r"

definition same_at :: "skew_links \<Rightarrow> skew_links \<Rightarrow> nat \<Rightarrow> bool" where
  "same_at L L' x \<longleftrightarrow>
     sk_parent L' x = sk_parent L x \<and> sk_left L' x = sk_left L x \<and> sk_right L' x = sk_right L x"

lemma sk_tree_cong: "\<forall>x \<in> set_tree t. same_at L L' x \<Longrightarrow> sk_tree L p t \<Longrightarrow> sk_tree L' p t"
  by (induction t arbitrary: p) (auto simp: same_at_def)

lemma sk_tree_sub: "sk_tree L p t \<Longrightarrow> sk_sub L t"
  by (cases t) auto

lemma sk_sub_tree: "sk_sub L t \<Longrightarrow> distinct (inorder t) \<Longrightarrow> sk_tree (set_parent (troot t) p L) p t"
proof (cases t)
  case (Node l a r)
  assume s: "sk_sub L t" "distinct (inorder t)"
  let ?L = "set_parent (troot t) p L"
  have "\<forall>x \<in> set_tree l \<union> set_tree r. same_at L ?L x"
    using s(2) Node by (auto simp: same_at_def set_parent_def set_inorder)
  then have "sk_tree ?L (Some a) l" "sk_tree ?L (Some a) r"
    using s(1) Node sk_tree_cong [of l L ?L] sk_tree_cong [of r L ?L] by auto
  then show ?thesis using s(1) Node by (simp add: set_parent_def)
qed simp

lemma sk_sub_cong:
  assumes "\<forall>x \<in> set_tree t. same_at L L' x" "sk_sub L t" shows "sk_sub L' t"
proof (cases t)
  case (Node l a r)
  then have "sk_tree L' (Some a) l" "sk_tree L' (Some a) r" "same_at L L' a"
    using assms sk_tree_cong [of l L L'] sk_tree_cong [of r L L'] by simp_all
  then show ?thesis using assms(2) Node by (simp add: same_at_def)
qed simp

lemma distinct_tmerge: "distinct (inorder (tmerge cmp s t)) \<longleftrightarrow> distinct (inorder s @ inorder t)"
  by (rule mset_eq_imp_distinct_iff) (simp add: mset_tmerge)

text \<open>One step of the merge: entry \<open>a\<close> gets the merged tree \<open>m\<close> on the left and its old left child on
  the right.\<close>

lemma merge_node:
  assumes l: "sk_tree L (Some a) l" "sk_left L a = troot l"
    and m: "sk_sub L1 m" "distinct (inorder m)" "a \<notin> set_tree m" "a \<notin> set_tree l" "set_tree l \<inter> set_tree m = {}"
    and same: "\<forall>x. x \<notin> set_tree m \<longrightarrow> same_at L L1 x"
    and L2: "L2 = set_parent (troot m) (Some a)
      (L1\<lparr>sk_left := (sk_left L1)(a := troot m), sk_right := (sk_right L1)(a := sk_left L a)\<rparr>)"
  shows "sk_sub L2 \<langle>m, a, l\<rangle>" "sk_parent L2 a = sk_parent L a"
    "x \<notin> set_tree m \<Longrightarrow> x \<noteq> a \<Longrightarrow> same_at L L2 x"
proof -
  let ?M = "L1\<lparr>sk_left := (sk_left L1)(a := troot m), sk_right := (sk_right L1)(a := sk_left L a)\<rparr>"
  have root: "x \<noteq> y" if "troot m = Some y" "x \<notin> set_tree m" for x y using troot_in that by metis
  have "sk_sub ?M m"
    by (rule sk_sub_cong [OF _ m(1)]) (use m(3) in \<open>auto simp: same_at_def\<close>)
  then have "sk_tree L2 (Some a) m" unfolding L2 by (rule sk_sub_tree) (rule m(2))
  moreover have 2: "same_at L L2 x" if "x \<notin> set_tree m" "x \<noteq> a" for x
    using same that root [of _ x] by (auto simp: same_at_def L2 set_parent_def split: option.split)
  then have "sk_tree L2 (Some a) l"
    using m(4,5) by (intro sk_tree_cong [OF _ l(1)]) (metis disjoint_iff)
  moreover have "sk_left L2 a = troot m" "sk_right L2 a = troot l"
    by (simp_all add: L2 set_parent_def l(2) split: option.split)
  ultimately show "sk_sub L2 \<langle>m, a, l\<rangle>" by simp
  show "sk_parent L2 a = sk_parent L a"
    using same m(3) root [of _ a] by (auto simp: L2 set_parent_def same_at_def split: option.split)
  show "x \<notin> set_tree m \<Longrightarrow> x \<noteq> a \<Longrightarrow> same_at L L2 x" by (rule 2)
qed

text \<open>The merge of the pointer structure is the merge of the trees, and it always returns.\<close>

lemma skew_heap_merge_tree:
  "sk_sub L s \<Longrightarrow> sk_sub L t \<Longrightarrow> distinct (inorder s @ inorder t) \<Longrightarrow>
   \<exists>L'. skew_heap_merge cmp (troot s) (troot t) L = Some (troot (tmerge cmp s t), L') \<and>
     sk_sub L' (tmerge cmp s t) \<and> (\<forall>x. x \<notin> set_tree s \<union> set_tree t \<longrightarrow> same_at L L' x) \<and>
     (\<forall>x. troot (tmerge cmp s t) = Some x \<longrightarrow> sk_parent L' x = sk_parent L x)"
proof (induction cmp s t arbitrary: L rule: tmerge.induct)
  case (1 cmp t)
  then show ?case by (subst skew_heap_merge.simps) (simp add: same_at_def)
next
  case (2 cmp l1 a r1)
  then show ?case by (subst skew_heap_merge.simps) (simp add: same_at_def)
next
  case (3 cmp l1 a r1 l2 b r2)
  let ?s = "\<langle>l1, a, r1\<rangle>" and ?t = "\<langle>l2, b, r2\<rangle>"
  show ?case
  proof (cases "cmp a b = -1")
    case True
    let ?m = "tmerge cmp r1 ?t"
    obtain L1 where L1: "skew_heap_merge cmp (troot r1) (troot ?t) L = Some (troot ?m, L1)" "sk_sub L1 ?m"
      "\<forall>x. x \<notin> set_tree r1 \<union> set_tree ?t \<longrightarrow> same_at L L1 x"
    proof -
      have "sk_sub L r1" "distinct (inorder r1 @ inorder ?t)" using "3.prems" sk_tree_sub by auto
      from "3.IH"(1) [OF True this(1) "3.prems"(2) this(2)] show ?thesis using that by blast
    qed
    define L2 where "L2 = set_parent (troot ?m) (Some a)
      (L1\<lparr>sk_left := (sk_left L1)(a := troot ?m), sk_right := (sk_right L1)(a := sk_left L a)\<rparr>)"
    have "distinct (inorder ?m)" using "3.prems"(3) by (auto simp: distinct_tmerge)
    note M = merge_node [OF _ _ L1(2) this _ _ _ _ L2_def, of l1]
    have d: "a \<notin> set_tree ?m" "a \<notin> set_tree l1" "set_tree l1 \<inter> set_tree ?m = {}"
      using "3.prems"(3) by (auto simp: set_inorder)
    have "skew_heap_merge cmp (troot ?s) (troot ?t) L = Some (Some a, L2)"
      using L1(1) True "3.prems"(1) by (subst skew_heap_merge.simps) (simp add: L2_def Let_def)
    then show ?thesis using M "3.prems"(1) L1(3) d True by auto
  next
    case False
    let ?m = "tmerge cmp ?s r2"
    obtain L1 where L1: "skew_heap_merge cmp (troot ?s) (troot r2) L = Some (troot ?m, L1)" "sk_sub L1 ?m"
      "\<forall>x. x \<notin> set_tree ?s \<union> set_tree r2 \<longrightarrow> same_at L L1 x"
    proof -
      have "sk_sub L r2" "distinct (inorder ?s @ inorder r2)" using "3.prems" sk_tree_sub by auto
      from "3.IH"(2) [OF False "3.prems"(1) this] show ?thesis using that by blast
    qed
    define L2 where "L2 = set_parent (troot ?m) (Some b)
      (L1\<lparr>sk_left := (sk_left L1)(b := troot ?m), sk_right := (sk_right L1)(b := sk_left L b)\<rparr>)"
    have "distinct (inorder ?m)" using "3.prems"(3) by (auto simp: distinct_tmerge)
    note M = merge_node [OF _ _ L1(2) this _ _ _ _ L2_def, of l2]
    have d: "b \<notin> set_tree ?m" "b \<notin> set_tree l2" "set_tree l2 \<inter> set_tree ?m = {}"
      using "3.prems"(3) by (auto simp: set_inorder)
    have "skew_heap_merge cmp (troot ?s) (troot ?t) L = Some (Some b, L2)"
      using L1(1) False "3.prems"(2) by (subst skew_heap_merge.simps) (simp add: L2_def Let_def)
    then show ?thesis using M "3.prems"(2) L1(3) d False by auto
  qed
qed

lemma skew_heap_insert_tree:
  assumes "sk_tree L None t" "distinct (inorder t)" "b \<notin> set_tree t"
  shows "\<exists>L'. skew_heap_insert cmp (troot t) b L = Some (troot (tmerge cmp t \<langle>\<langle>\<rangle>, b, \<langle>\<rangle>\<rangle>), L') \<and>
    sk_tree L' None (tmerge cmp t \<langle>\<langle>\<rangle>, b, \<langle>\<rangle>\<rangle>) \<and>
    (\<forall>x. x \<notin> insert b (set_tree t) \<longrightarrow> same_at L L' x)"
proof -
  let ?L = "skew_heap_init b L" and ?b = "\<langle>\<langle>\<rangle>, b, \<langle>\<rangle>\<rangle>" and ?m = "tmerge cmp t \<langle>\<langle>\<rangle>, b, \<langle>\<rangle>\<rangle>"
  have t: "sk_tree ?L None t"
    by (rule sk_tree_cong [OF _ assms(1)]) (use assms(3) in \<open>auto simp: same_at_def skew_heap_init_def\<close>)
  have b: "sk_sub ?L ?b" "sk_parent ?L b = None" by (simp_all add: skew_heap_init_def)
  have d: "distinct (inorder t @ inorder ?b)" using assms by (simp add: set_inorder)
  obtain L' where L': "skew_heap_merge cmp (troot t) (troot ?b) ?L = Some (troot ?m, L')" "sk_sub L' ?m"
    "\<forall>x. x \<notin> set_tree t \<union> set_tree ?b \<longrightarrow> same_at ?L L' x"
    "\<forall>x. troot ?m = Some x \<longrightarrow> sk_parent L' x = sk_parent ?L x"
    using skew_heap_merge_tree [OF sk_tree_sub [OF t] b(1) d] by blast
  have "sk_parent ?L x = None" if "troot ?m = Some x" for x
    using that t b(2) by (cases t) (auto split: if_splits)
  then have "sk_tree L' None ?m" using L'(2,4) by (cases ?m) auto
  moreover have "same_at L L' x" if "x \<notin> insert b (set_tree t)" for x
    using L'(3) that by (auto simp: same_at_def skew_heap_init_def)
  ultimately show ?thesis using L'(1) by (auto simp: skew_heap_insert_def)
qed

lemma remove_root_links:
  assumes "sk_tree L p \<langle>l, b, r\<rangle>" "distinct (inorder \<langle>l, b, r\<rangle>)"
  obtains L1 where "skew_heap_merge cmp (sk_left L b) (sk_right L b) L = Some (troot (tmerge cmp l r), L1)"
    "sk_tree (set_parent (troot (tmerge cmp l r)) p L1) p (tmerge cmp l r)"
    "\<forall>x. x \<notin> set_tree l \<union> set_tree r \<longrightarrow> same_at L (set_parent (troot (tmerge cmp l r)) p L1) x"
proof -
  let ?m = "tmerge cmp l r"
  have d: "distinct (inorder l @ inorder r)" using assms(2) by simp
  obtain L1 where L1: "skew_heap_merge cmp (troot l) (troot r) L = Some (troot ?m, L1)" "sk_sub L1 ?m"
    "\<forall>x. x \<notin> set_tree l \<union> set_tree r \<longrightarrow> same_at L L1 x"
    using skew_heap_merge_tree [of L l r cmp] assms(1) sk_tree_sub d by (metis sk_tree.simps(2))
  have "sk_tree (set_parent (troot ?m) p L1) p ?m"
    by (rule sk_sub_tree [OF L1(2)]) (simp only: distinct_tmerge d)
  moreover have "same_at L (set_parent (troot ?m) p L1) x" if "x \<notin> set_tree l \<union> set_tree r" for x
    using L1(3) that troot_in [of ?m x] by (auto simp: set_parent_def same_at_def split: option.split)
  ultimately show ?thesis using that L1(1) assms(1) by simp
qed

lemma remove_inner_links:
  "sk_tree L p t \<Longrightarrow> distinct (inorder t) \<Longrightarrow> b \<in> set_tree t \<Longrightarrow> troot t \<noteq> Some b \<Longrightarrow>
   \<exists>L'. skew_heap_remove cmp h b L = Some (h, L') \<and> sk_tree L' p (tremove cmp b t) \<and>
     troot (tremove cmp b t) = troot t \<and> (\<forall>x. x \<notin> set_tree t \<longrightarrow> same_at L L' x)"
proof (induction t arbitrary: p)
  case (Node l a r)
  have dl: "distinct (inorder l)" "distinct (inorder r)" "a \<notin> set_tree l" "a \<notin> set_tree r" "set_tree l \<inter> set_tree r = {}"
    and s: "sk_tree L (Some a) l" "sk_tree L (Some a) r"
    using Node.prems by (auto simp: set_inorder)
  have side: ?case if u: "u = l \<or> u = r" and bu: "b \<in> set_tree u" for u
  proof (cases "troot u = Some b")
    case True
    then obtain ul ur where uu: "u = \<langle>ul, b, ur\<rangle>" by (cases u) auto
    let ?m = "tmerge cmp ul ur"
    obtain L1 where L1: "skew_heap_merge cmp (sk_left L b) (sk_right L b) L = Some (troot ?m, L1)"
      "sk_tree (set_parent (troot ?m) (Some a) L1) (Some a) ?m"
      "\<forall>x. x \<notin> set_tree ul \<union> set_tree ur \<longrightarrow> same_at L (set_parent (troot ?m) (Some a) L1) x"
      using remove_root_links [of L "Some a" ul b ur] u s dl uu by blast
    define L2 where "L2 = set_parent (troot ?m) (Some a) L1"
    note L12 = L1(2,3) [folded L2_def]
    have pb: "sk_parent L b = Some a" using u s uu by auto
    have au: "a \<notin> set_tree u" using u dl by auto
    then have fa: "sk_left L2 a = troot l" "sk_right L2 a = troot r" "sk_parent L2 a = p"
      using L12(2) uu Node.prems(1) by (auto simp: same_at_def)
    have other: "same_at L L2 x" if "x \<notin> set_tree u" for x using L12(2) that uu by auto
    show ?thesis
    proof (cases "u = l")
      case True
      let ?L = "L2\<lparr>sk_left := (sk_left L2)(a := troot ?m)\<rparr>"
      have rm: "skew_heap_remove cmp h b L = Some (h, ?L)"
        using L1(1) pb fa(1) uu unfolding True [symmetric] by (simp add: skew_heap_remove_def L2_def Let_def)
      have "sk_tree ?L (Some a) ?m"
        by (rule sk_tree_cong [OF _ L12(1)]) (use au uu in \<open>auto simp: same_at_def\<close>)
      moreover have "sk_tree ?L (Some a) r"
        by (rule sk_tree_cong [OF _ s(2)]) (use other dl True in \<open>auto simp: same_at_def disjoint_iff\<close>)
      moreover have "tremove cmp b l = ?m" "b \<noteq> a" using True uu au bu by auto
      ultimately show ?thesis using rm fa other True bu uu by (auto simp: same_at_def)
    next
      case False
      then have ur': "u = r" using u by simp
      let ?L = "L2\<lparr>sk_right := (sk_right L2)(a := troot ?m)\<rparr>"
      have nb: "b \<notin> set_tree l" "b \<noteq> a" using bu ur' dl by auto
      have rm: "skew_heap_remove cmp h b L = Some (h, ?L)"
        using L1(1) pb fa(1) nb troot_in [of l b] by (auto simp: skew_heap_remove_def L2_def Let_def)
      have "sk_tree ?L (Some a) ?m"
        by (rule sk_tree_cong [OF _ L12(1)]) (use au uu in \<open>auto simp: same_at_def\<close>)
      moreover have "sk_tree ?L (Some a) l"
        by (rule sk_tree_cong [OF _ s(1)]) (use other dl ur' in \<open>auto simp: same_at_def disjoint_iff\<close>)
      moreover have "tremove cmp b r = ?m" unfolding ur' [symmetric] uu by simp
      ultimately show ?thesis using rm fa other ur' nb bu by (auto simp: same_at_def)
    qed
  next
    case False
    have IH: "\<exists>L'. skew_heap_remove cmp h b L = Some (h, L') \<and> sk_tree L' (Some a) (tremove cmp b u) \<and>
      troot (tremove cmp b u) = troot u \<and> (\<forall>x. x \<notin> set_tree u \<longrightarrow> same_at L L' x)"
      using u Node.IH(1) [of "Some a"] Node.IH(2) [of "Some a"] s dl bu False by blast
    then obtain L' where L': "skew_heap_remove cmp h b L = Some (h, L')" "sk_tree L' (Some a) (tremove cmp b u)"
      "troot (tremove cmp b u) = troot u" "\<forall>x. x \<notin> set_tree u \<longrightarrow> same_at L L' x" by auto
    have a: "a \<notin> set_tree u" "b \<noteq> a" using u dl bu by auto
    then have fa: "sk_left L' a = troot l" "sk_right L' a = troot r" "sk_parent L' a = p"
      using L'(4) Node.prems(1) by (auto simp: same_at_def)
    show ?thesis
    proof (cases "u = l")
      case True
      have "sk_tree L' (Some a) r" by (rule sk_tree_cong [OF _ s(2)]) (use L'(4) True dl in blast)
      then show ?thesis using L' True bu a fa by auto
    next
      case False
      then have ur': "u = r" using u by simp
      have "sk_tree L' (Some a) l" by (rule sk_tree_cong [OF _ s(1)]) (use L'(4) ur' dl in blast)
      moreover have "b \<notin> set_tree l" using bu ur' dl by auto
      ultimately show ?thesis using L' ur' bu a fa by auto
    qed
  qed
  show ?case using side [of l] side [of r] Node.prems(3,4) by auto
qed simp

lemma skew_heap_remove_tree:
  assumes "sk_tree L None t" "distinct (inorder t)" "b \<in> set_tree t"
  shows "\<exists>L'. skew_heap_remove cmp (troot t) b L = Some (troot (tremove cmp b t), L') \<and>
    sk_tree L' None (tremove cmp b t)"
proof (cases "troot t = Some b")
  case True
  then obtain l r where t: "t = \<langle>l, b, r\<rangle>" by (cases t) auto
  obtain L1 where L1: "skew_heap_merge cmp (sk_left L b) (sk_right L b) L = Some (troot (tmerge cmp l r), L1)"
    "sk_tree (set_parent (troot (tmerge cmp l r)) None L1) None (tmerge cmp l r)"
    using remove_root_links [OF assms(1,2) [unfolded t], of cmp] by metis
  moreover have "sk_parent L b = None" using assms(1) t by simp
  ultimately show ?thesis by (simp add: skew_heap_remove_def t Let_def)
next
  case False
  then show ?thesis using remove_inner_links [OF assms False, of cmp "troot t"] by metis
qed

section \<open>Order\<close>

text \<open>When the comparison of the entries is that of an integer key, the heap order is kept, so the root
  is an entry of least key.\<close>

definition key_cmp :: "('a \<Rightarrow> 'a \<Rightarrow> int) \<Rightarrow> ('a \<Rightarrow> int) \<Rightarrow> 'a set \<Rightarrow> bool" where
  "key_cmp cmp key A \<longleftrightarrow> (\<forall>a \<in> A. \<forall>b \<in> A. (cmp a b = -1) = (key a < key b))"

fun skew_ordered :: "('a \<Rightarrow> int) \<Rightarrow> 'a tree \<Rightarrow> bool" where
  "skew_ordered key \<langle>\<rangle> \<longleftrightarrow> True"
| "skew_ordered key \<langle>l, a, r\<rangle> \<longleftrightarrow>
     (\<forall>x \<in> set_tree l \<union> set_tree r. key a \<le> key x) \<and> skew_ordered key l \<and> skew_ordered key r"

lemma key_cmp_subset: "key_cmp cmp key A \<Longrightarrow> B \<subseteq> A \<Longrightarrow> key_cmp cmp key B"
  by (auto simp: key_cmp_def)

lemma ordered_tmerge:
  "skew_ordered key s \<Longrightarrow> skew_ordered key t \<Longrightarrow> key_cmp cmp key (set_tree s \<union> set_tree t) \<Longrightarrow>
     skew_ordered key (tmerge cmp s t)"
proof (induction cmp s t rule: tmerge.induct)
  case (3 cmp l1 a r1 l2 b r2)
  have c: "(cmp a b = -1) = (key a < key b)" using "3.prems"(3) by (simp add: key_cmp_def)
  have k: "key_cmp cmp key (set_tree r1 \<union> set_tree \<langle>l2, b, r2\<rangle>)"
    "key_cmp cmp key (set_tree \<langle>l1, a, r1\<rangle> \<union> set_tree r2)"
    using "3.prems"(3) by (auto elim: key_cmp_subset)
  show ?case
  proof (cases "cmp a b = -1")
    case True
    then have "key a \<le> key b" using c by simp
    then have "\<forall>x \<in> set_tree l2 \<union> set_tree r2. key a \<le> key x" using "3.prems"(2) order_trans by fastforce
    moreover have "skew_ordered key (tmerge cmp r1 \<langle>l2, b, r2\<rangle>)"
      using "3.IH"(1) [OF True _ "3.prems"(2) k(1)] "3.prems"(1) by simp
    ultimately show ?thesis using \<open>key a \<le> key b\<close> True "3.prems"(1) by auto
  next
    case False
    then have "key b \<le> key a" using c by simp
    then have "\<forall>x \<in> set_tree l1 \<union> set_tree r1. key b \<le> key x" using "3.prems"(1) order_trans by fastforce
    moreover have "skew_ordered key (tmerge cmp \<langle>l1, a, r1\<rangle> r2)"
      using "3.IH"(2) [OF False "3.prems"(1) _ k(2)] "3.prems"(2) by simp
    ultimately show ?thesis using \<open>key b \<le> key a\<close> False "3.prems"(2) by auto
  qed
qed auto

lemma ordered_tremove:
  "skew_ordered key t \<Longrightarrow> key_cmp cmp key (set_tree t) \<Longrightarrow> skew_ordered key (tremove cmp b t)"
proof (induction t)
  case (Node l a r)
  have "key_cmp cmp key (set_tree l \<union> set_tree r)" "key_cmp cmp key (set_tree l)" "key_cmp cmp key (set_tree r)"
    using Node.prems(2) by (auto elim: key_cmp_subset)
  moreover have "set_tree (tremove cmp b u) \<subseteq> set_tree u" for u
    by (induction u) auto
  then have "x \<in> set_tree (tremove cmp b u) \<Longrightarrow> x \<in> set_tree u" for x u by blast
  ultimately show ?case using Node ordered_tmerge by auto
qed simp

lemma ordered_root_least:
  "skew_ordered key t \<Longrightarrow> troot t = Some a \<Longrightarrow> x \<in> set_tree t \<Longrightarrow> key a \<le> key x"
  by (cases t) auto

section \<open>Properties\<close>

text \<open>C36. Removing any entry, not only the root, from a skew heap in order: the pointer operation always
  returns, the result is a well-linked heap of exactly the other entries, still in order, with an entry
  of least key at its root.\<close>

theorem skew_heap_remove_correct:
  assumes "sk_tree L None t" and "distinct (inorder t)" and "b \<in> set_tree t"
    and "key_cmp cmp key (set_tree t)" and "skew_ordered key t"
  shows "\<exists>L' t'. skew_heap_remove cmp (troot t) b L = Some (troot t', L') \<and> sk_tree L' None t' \<and>
    mset_tree t' = mset_tree t - {#b#} \<and> skew_ordered key t' \<and>
    (\<forall>r x. troot t' = Some r \<and> x \<in> set_tree t' \<longrightarrow> key r \<le> key x)"
proof -
  obtain L' where "skew_heap_remove cmp (troot t) b L = Some (troot (tremove cmp b t), L')"
    "sk_tree L' None (tremove cmp b t)"
    using skew_heap_remove_tree [OF assms(1-3)] by blast
  moreover have "mset_tree (tremove cmp b t) = mset_tree t - {#b#}" by (rule mset_tremove [OF assms(3)])
  moreover have "skew_ordered key (tremove cmp b t)" by (rule ordered_tremove [OF assms(5,4)])
  moreover have "key r \<le> key x" if "troot (tremove cmp b t) = Some r" "x \<in> set_tree (tremove cmp b t)" for r x
    by (rule ordered_root_least [OF calculation(4) that])
  ultimately show ?thesis by blast
qed

lemma skew_heap_remove_correct_witness:
  "\<exists>L' t'. skew_heap_remove (\<lambda>a b. if a < b then -1 else 1) (Some 1) 2
     \<lparr>sk_parent = (\<lambda>_. None)(2 := Some 1), sk_left = (\<lambda>_. None)(1 := Some 2), sk_right = (\<lambda>_. None)\<rparr> = Some (troot t', L') \<and>
     mset_tree t' = {#1#}"
proof -
  let ?L = "\<lparr>sk_parent = (\<lambda>_. None)(2 := Some 1), sk_left = (\<lambda>_. None)(1 := Some 2), sk_right = (\<lambda>_. None)\<rparr>"
  let ?t = "\<langle>\<langle>\<langle>\<rangle>, 2, \<langle>\<rangle>\<rangle>, 1, \<langle>\<rangle>\<rangle> :: nat tree"
  have "key_cmp (\<lambda>a b :: nat. if a < b then -1 else 1) int (set_tree ?t)" by (simp add: key_cmp_def)
  then show ?thesis
    using skew_heap_remove_correct [of ?L ?t 2 "\<lambda>a b. if a < b then -1 else 1" int] by auto
qed

end
