(* ===== verification/ProcData.thy ===== *)
theory ProcData
  imports SkewHeap PmmInterface
begin

text \<open>
  The process descriptor \<^verbatim>\<open>struct proc_struct\<close> (\<^verbatim>\<open>kern/process/proc.h\<close>), the run queue and the timers
  (\<^verbatim>\<open>kern/schedule/sched.h\<close>) and the kernel state the scheduler works on. A \<^verbatim>\<open>struct proc_struct *\<close> is
  a number, NULL is \<open>None\<close>; the run list is the HOL list of its processes (its links are those of the
  theory \<open>LinkedList\<close>), so \<^verbatim>\<open>list_empty(&proc->run_link)\<close> is non-membership. The skew heap is kept at
  the level of its pointers.
\<close>

section \<open>Processes\<close>

datatype proc_state = PROC_UNINIT | PROC_SLEEPING | PROC_RUNNABLE | PROC_ZOMBIE

record proc_struct =
  state :: proc_state
  pid :: int
  runs :: int
  kstack :: "nat option"
  need_resched :: bool
  parent :: "nat option"
  pr_mm :: "nat option"
  ctx_ra :: u64
  ctx_sp :: u64
  tf :: u64
  pgdir :: u64
  pr_flags :: u32
  pr_name :: string
  exit_code :: int
  wait_state :: u32
  cptr :: "nat option"
  yptr :: "nat option"
  optr :: "nat option"
  on_rq :: bool
  time_slice :: int
  lab6_stride :: u32
  lab6_priority :: u32
  filesp :: "nat option"

abbreviation (input) PF_EXITING :: u32 where "PF_EXITING \<equiv> 1"
abbreviation (input) WT_INTERRUPTED :: u32 where "WT_INTERRUPTED \<equiv> 0x80000000"
abbreviation (input) WT_CHILD :: u32 where "WT_CHILD \<equiv> 0x80000001"
abbreviation (input) WT_KSEM :: u32 where "WT_KSEM \<equiv> 0x00000100"
abbreviation (input) WT_TIMER :: u32 where "WT_TIMER \<equiv> 0x80000002"
abbreviation (input) WT_KBD :: u32 where "WT_KBD \<equiv> 0x80000004"

section \<open>Run queue, timers and the scheduling class\<close>

record run_queue =
  run_list :: "nat list"
  proc_num :: nat
  max_time_slice :: int
  lab6_run_pool :: "nat option"
  run_pool_links :: skew_links

type_synonym proc_table = "nat \<Rightarrow> proc_struct"

type_synonym rq_state = "run_queue \<times> proc_table"

record sched_class =
  sc_init :: "run_queue \<Rightarrow> run_queue"
  sc_enqueue :: "nat \<Rightarrow> rq_state \<Rightarrow> rq_state option"
  sc_dequeue :: "nat \<Rightarrow> rq_state \<Rightarrow> rq_state option"
  sc_pick_next :: "rq_state \<Rightarrow> (nat option \<times> rq_state) option"
  sc_proc_tick :: "proc_struct \<Rightarrow> proc_struct"

record timer =
  expires :: nat
  timer_proc :: nat

record kstate =
  procs :: proc_table
  rq :: run_queue
  cls :: sched_class
  current :: nat
  idleproc :: nat
  initproc :: nat
  sie :: bool
  timers :: "nat \<Rightarrow> timer"
  timer_list :: "nat list"

definition upd_proc :: "nat \<Rightarrow> (proc_struct \<Rightarrow> proc_struct) \<Rightarrow> 'a kstate_scheme \<Rightarrow> 'a kstate_scheme" where
  "upd_proc p f s = s\<lparr>procs := (procs s)(p := f (procs s p))\<rparr>"

lemma upd_proc_sel [simp]:
  "procs (upd_proc p f s) = (procs s)(p := f (procs s p))" "rq (upd_proc p f s) = rq s"
  "cls (upd_proc p f s) = cls s" "current (upd_proc p f s) = current s"
  "idleproc (upd_proc p f s) = idleproc s" "initproc (upd_proc p f s) = initproc s"
  "sie (upd_proc p f s) = sie s" "timers (upd_proc p f s) = timers s"
  "timer_list (upd_proc p f s) = timer_list s"
  by (simp_all add: upd_proc_def)

text \<open>What the scheduler may change in a process: the fields that belong to it.\<close>

definition same_task :: "proc_struct \<Rightarrow> proc_struct \<Rightarrow> bool" where
  "same_task p q \<longleftrightarrow>
     p\<lparr>on_rq := on_rq q, time_slice := time_slice q, lab6_stride := lab6_stride q\<rparr> = q"

lemma same_task_refl [simp]: "same_task p p"
  by (simp add: same_task_def)

lemma same_task_trans [trans]: "same_task p q \<Longrightarrow> same_task q r \<Longrightarrow> same_task p r"
  by (cases p; cases q; cases r) (auto simp: same_task_def)

lemma same_task_fields:
  assumes "same_task p q"
  shows "state q = state p" "pid q = pid p" "wait_state q = wait_state p" "parent q = parent p"
    "cptr q = cptr p" "yptr q = yptr p" "optr q = optr p" "exit_code q = exit_code p"
    "need_resched q = need_resched p" "runs q = runs p" "pr_flags q = pr_flags p" "pr_mm q = pr_mm p"
    "lab6_priority q = lab6_priority p" "kstack q = kstack p" "pgdir q = pgdir p"
    "filesp q = filesp p" "tf q = tf p" "ctx_ra q = ctx_ra p" "ctx_sp q = ctx_sp p"
  using assms by (cases p; cases q; auto simp: same_task_def)+

end
