(* ===== verification/SchedClass.thy ===== *)
theory SchedClass
  imports ProcData
begin

text \<open>
  The scheduling classes: round robin (\<^verbatim>\<open>kern/schedule/default_sched.c\<close>) and stride
  (\<^verbatim>\<open>kern/schedule/default_sched_stride.c\<close>), the contract \<open>sched_policy\<close> that the core scheduler relies
  on, and its interpretation by both.
\<close>

section \<open>Round robin\<close>

definition RR_init :: "run_queue \<Rightarrow> run_queue" where
  "RR_init q = q\<lparr>run_list := [], proc_num := 0, lab6_run_pool := None\<rparr>"

text \<open>The time slice a process gets when it is enqueued, the same in both classes.\<close>

definition refill :: "run_queue \<Rightarrow> proc_struct \<Rightarrow> proc_struct" where
  "refill q p = (if time_slice p = 0 \<or> time_slice p > max_time_slice q
     then p\<lparr>time_slice := max_time_slice q\<rparr> else p)"

definition RR_enqueue :: "nat \<Rightarrow> rq_state \<Rightarrow> rq_state option" where
  "RR_enqueue p st = (case st of (q, ps) \<Rightarrow> do {
     kassert (p \<notin> set (run_list q));
     let ps1 = ps(p := refill q (ps p));
     let q1 = q\<lparr>run_list := run_list q @ [p]\<rparr>;
     let ps2 = ps1(p := (ps1 p)\<lparr>on_rq := True\<rparr>);
     Some (q1\<lparr>proc_num := proc_num q1 + 1\<rparr>, ps2)
   })"

definition RR_dequeue :: "nat \<Rightarrow> rq_state \<Rightarrow> rq_state option" where
  "RR_dequeue p st = (case st of (q, ps) \<Rightarrow> do {
     kassert (p \<in> set (run_list q) \<and> on_rq (ps p));
     let q1 = q\<lparr>run_list := remove1 p (run_list q)\<rparr>;
     Some (q1\<lparr>proc_num := proc_num q1 - 1\<rparr>, ps)
   })"

definition RR_pick_next :: "rq_state \<Rightarrow> (nat option \<times> rq_state) option" where
  "RR_pick_next st = (case st of (q, ps) \<Rightarrow>
     if run_list q = [] then Some (None, st) else Some (Some (hd (run_list q)), st))"

definition RR_proc_tick :: "proc_struct \<Rightarrow> proc_struct" where
  "RR_proc_tick p =
     (let p1 = (if time_slice p > 0 then p\<lparr>time_slice := time_slice p - 1\<rparr> else p)
      in if time_slice p1 = 0 then p1\<lparr>need_resched := True\<rparr> else p1)"

definition default_sched_class :: sched_class where
  "default_sched_class = \<lparr>sc_init = RR_init, sc_enqueue = RR_enqueue, sc_dequeue = RR_dequeue,
     sc_pick_next = RR_pick_next, sc_proc_tick = RR_proc_tick\<rparr>"

section \<open>Stride scheduling\<close>

abbreviation (input) BIG_STRIDE :: u32 where "BIG_STRIDE \<equiv> 0x40000000"

definition proc_stride_comp_f :: "proc_table \<Rightarrow> nat \<Rightarrow> nat \<Rightarrow> int" where
  "proc_stride_comp_f ps a b =
     (let c = sint (lab6_stride (ps a) - lab6_stride (ps b))
      in if c > 0 then 1 else if c = 0 then 0 else -1)"

definition stride_init :: "run_queue \<Rightarrow> run_queue" where
  "stride_init q = q\<lparr>run_list := [], lab6_run_pool := None, proc_num := 0\<rparr>"

definition stride_enqueue :: "nat \<Rightarrow> rq_state \<Rightarrow> rq_state option" where
  "stride_enqueue p st = (case st of (q, ps) \<Rightarrow> do {
     (h, L) \<leftarrow> skew_heap_insert (proc_stride_comp_f ps) (lab6_run_pool q) p (run_pool_links q);
     let q1 = q\<lparr>lab6_run_pool := h, run_pool_links := L\<rparr>;
     let ps1 = ps(p := refill q1 (ps p));
     let ps2 = ps1(p := (ps1 p)\<lparr>on_rq := True\<rparr>);
     Some (q1\<lparr>proc_num := proc_num q1 + 1\<rparr>, ps2)
   })"

definition stride_dequeue :: "nat \<Rightarrow> rq_state \<Rightarrow> rq_state option" where
  "stride_dequeue p st = (case st of (q, ps) \<Rightarrow> do {
     kassert (on_rq (ps p) \<and> proc_num q > 0);
     (h, L) \<leftarrow> skew_heap_remove (proc_stride_comp_f ps) (lab6_run_pool q) p (run_pool_links q);
     let q1 = q\<lparr>lab6_run_pool := h, run_pool_links := L\<rparr>;
     Some (q1\<lparr>proc_num := proc_num q1 - 1\<rparr>, ps)
   })"

text \<open>The division by a zero priority is undefined behaviour in C; it is \<open>None\<close> here.\<close>

definition stride_pick_next :: "rq_state \<Rightarrow> (nat option \<times> rq_state) option" where
  "stride_pick_next st = (case st of (q, ps) \<Rightarrow>
     case lab6_run_pool q of
       None \<Rightarrow> Some (None, st)
     | Some p \<Rightarrow> do {
         kassert (lab6_priority (ps p) \<noteq> 0);
         Some (Some p, q, ps(p := (ps p)\<lparr>lab6_stride := lab6_stride (ps p) + BIG_STRIDE div lab6_priority (ps p)\<rparr>))
       })"

definition stride_proc_tick :: "proc_struct \<Rightarrow> proc_struct" where
  "stride_proc_tick p =
     (let p1 = (if time_slice p > 0 then p\<lparr>time_slice := time_slice p - 1\<rparr> else p)
      in if time_slice p1 = 0 then p1\<lparr>need_resched := True\<rparr> else p1)"

definition stride_sched_class :: sched_class where
  "stride_sched_class = \<lparr>sc_init = stride_init, sc_enqueue = stride_enqueue, sc_dequeue = stride_dequeue,
     sc_pick_next = stride_pick_next, sc_proc_tick = stride_proc_tick\<rparr>"

section \<open>The contract\<close>

text \<open>\<open>inv st Q\<close>: the queue is consistent and holds exactly the processes \<open>Q\<close>. \<open>ready p\<close>: the class can
  pick \<open>p\<close>. \<open>frame ps ps' p\<close>: only the scheduling fields of \<open>p\<close> changed.\<close>

definition frame :: "proc_table \<Rightarrow> proc_table \<Rightarrow> nat \<Rightarrow> bool" where
  "frame ps ps' p \<longleftrightarrow> same_task (ps p) (ps' p) \<and> (\<forall>x. x \<noteq> p \<longrightarrow> ps' x = ps x)"

locale sched_policy =
  fixes c :: sched_class and inv :: "rq_state \<Rightarrow> nat set \<Rightarrow> bool" and ready :: "proc_struct \<Rightarrow> bool"
  assumes enqueue_ok: "inv (q, ps) Q \<Longrightarrow> p \<notin> Q \<Longrightarrow>
      \<exists>q' ps'. sc_enqueue c p (q, ps) = Some (q', ps') \<and> inv (q', ps') (insert p Q) \<and> frame ps ps' p"
    and pick_empty: "inv (q, ps) {} \<Longrightarrow> sc_pick_next c (q, ps) = Some (None, q, ps)"
    and pick_ok: "inv (q, ps) Q \<Longrightarrow> Q \<noteq> {} \<Longrightarrow> \<forall>p \<in> Q. ready (ps p) \<Longrightarrow>
      \<exists>p q1 ps1 q2. sc_pick_next c (q, ps) = Some (Some p, q1, ps1) \<and> p \<in> Q \<and> frame ps ps1 p \<and>
        sc_dequeue c p (q1, ps1) = Some (q2, ps1) \<and> inv (q2, ps1) (Q - {p})"
    and inv_finite: "inv (q, ps) Q \<Longrightarrow> finite Q \<and> proc_num q = card Q"
    and inv_frame: "inv (q, ps) Q \<Longrightarrow> \<forall>p \<in> Q. on_rq (ps' p) = on_rq (ps p) \<and> lab6_stride (ps' p) = lab6_stride (ps p) \<and>
        lab6_priority (ps' p) = lab6_priority (ps p) \<Longrightarrow> inv (q, ps') Q"
    and ready_prio: "lab6_priority x = lab6_priority y \<Longrightarrow> ready x = ready y"
    and tick_frame: "same_task (x\<lparr>need_resched := need_resched (sc_proc_tick c x)\<rparr>) (sc_proc_tick c x)"

section \<open>Round robin keeps the contract\<close>

definition RR_inv :: "rq_state \<Rightarrow> nat set \<Rightarrow> bool" where
  "RR_inv st Q \<longleftrightarrow> distinct (run_list (fst st)) \<and> set (run_list (fst st)) = Q \<and>
     proc_num (fst st) = length (run_list (fst st)) \<and> (\<forall>p \<in> Q. on_rq (snd st p))"

lemma same_task_refill: "same_task p (refill q p)"
  by (cases p) (simp add: same_task_def refill_def)

lemma same_task_on_rq: "same_task p (p\<lparr>on_rq := b\<rparr>)"
  by (cases p) (simp add: same_task_def)

lemma refill_stride [simp]: "lab6_stride (refill q p) = lab6_stride p"
  by (simp add: refill_def)

interpretation RR: sched_policy default_sched_class RR_inv "\<lambda>_. True"
proof (unfold_locales, simp_all only: default_sched_class_def sched_class.simps)
  fix q ps Q p assume i: "RR_inv (q, ps) Q" and p: "p \<notin> Q"
  have "same_task (ps p) ((refill q (ps p))\<lparr>on_rq := True\<rparr>)"
    using same_task_refill same_task_on_rq by (rule same_task_trans)
  then show "\<exists>q' ps'. RR_enqueue p (q, ps) = Some (q', ps') \<and> RR_inv (q', ps') (insert p Q) \<and> frame ps ps' p"
    using i p by (auto simp: RR_enqueue_def RR_inv_def frame_def)
next
  fix q ps assume "RR_inv (q, ps) {}"
  then show "RR_pick_next (q, ps) = Some (None, q, ps)" by (simp add: RR_inv_def RR_pick_next_def)
next
  fix q ps Q assume i: "RR_inv (q, ps) Q" and "Q \<noteq> {}"
  then obtain p xs where "run_list q = p # xs" by (cases "run_list q") (auto simp: RR_inv_def)
  then show "\<exists>p q1 ps1 q2. RR_pick_next (q, ps) = Some (Some p, q1, ps1) \<and> p \<in> Q \<and> frame ps ps1 p \<and>
        RR_dequeue p (q1, ps1) = Some (q2, ps1) \<and> RR_inv (q2, ps1) (Q - {p})"
    using i
    by (intro exI [of _ p], intro exI [of _ q], intro exI [of _ ps], intro exI [of _ "q\<lparr>run_list := xs, proc_num := length xs\<rparr>"])
      (auto simp: RR_pick_next_def RR_dequeue_def RR_inv_def frame_def)
next
  fix q ps Q assume "RR_inv (q, ps) Q"
  then show "finite Q \<and> proc_num q = card Q" by (auto simp: RR_inv_def distinct_card)
next
  fix q ps Q and ps' :: proc_table assume "RR_inv (q, ps) Q" "\<forall>p \<in> Q. on_rq (ps' p) = on_rq (ps p) \<and>
        lab6_stride (ps' p) = lab6_stride (ps p) \<and> lab6_priority (ps' p) = lab6_priority (ps p)"
  then show "RR_inv (q, ps') Q" by (simp add: RR_inv_def)
next
  fix x show "same_task (x\<lparr>need_resched := need_resched (RR_proc_tick x)\<rparr>) (RR_proc_tick x)"
    by (cases x) (simp add: same_task_def RR_proc_tick_def Let_def)
qed

section \<open>Stride keeps the contract\<close>

definition stride_inv :: "rq_state \<Rightarrow> nat set \<Rightarrow> bool" where
  "stride_inv st Q \<longleftrightarrow> (\<exists>t. sk_tree (run_pool_links (fst st)) None t \<and> distinct (inorder t) \<and>
     lab6_run_pool (fst st) = troot t \<and> set_tree t = Q) \<and>
     proc_num (fst st) = card Q \<and> (\<forall>p \<in> Q. on_rq (snd st p))"

lemma stride_enqueue_tree:
  assumes "sk_tree (run_pool_links q) None t" "distinct (inorder t)" "lab6_run_pool q = troot t" "p \<notin> set_tree t"
  shows "\<exists>L. stride_enqueue p (q, ps) = Some
      (q\<lparr>lab6_run_pool := troot (tmerge (proc_stride_comp_f ps) t \<langle>\<langle>\<rangle>, p, \<langle>\<rangle>\<rangle>), run_pool_links := L,
         proc_num := proc_num q + 1\<rparr>, ps(p := (refill q (ps p))\<lparr>on_rq := True\<rparr>)) \<and>
     sk_tree L None (tmerge (proc_stride_comp_f ps) t \<langle>\<langle>\<rangle>, p, \<langle>\<rangle>\<rangle>) \<and>
     distinct (inorder (tmerge (proc_stride_comp_f ps) t \<langle>\<langle>\<rangle>, p, \<langle>\<rangle>\<rangle>))"
proof -
  have r: "refill (q\<lparr>lab6_run_pool := h, run_pool_links := L\<rparr>) = refill q" for h L
    by (simp add: refill_def fun_eq_iff)
  have d: "distinct (inorder (tmerge (proc_stride_comp_f ps) t \<langle>\<langle>\<rangle>, p, \<langle>\<rangle>\<rangle>))"
    using assms(2,4) by (simp add: distinct_tmerge)
  obtain L where "skew_heap_insert (proc_stride_comp_f ps) (troot t) p (run_pool_links q) =
      Some (troot (tmerge (proc_stride_comp_f ps) t \<langle>\<langle>\<rangle>, p, \<langle>\<rangle>\<rangle>), L)"
    "sk_tree L None (tmerge (proc_stride_comp_f ps) t \<langle>\<langle>\<rangle>, p, \<langle>\<rangle>\<rangle>)"
    using skew_heap_insert_tree [OF assms(1,2,4), of "proc_stride_comp_f ps"] by blast
  then show ?thesis using assms(3) d by (intro exI [of _ L]) (simp add: stride_enqueue_def r)
qed

text \<open>Picking and removing the root: what is left is the merge of its subtrees.\<close>

lemma stride_pick_tree:
  assumes "sk_tree (run_pool_links q) None \<langle>l, p, r\<rangle>" "distinct (inorder \<langle>l, p, r\<rangle>)"
    "lab6_run_pool q = Some p" "proc_num q > 0" "on_rq (ps p)" "lab6_priority (ps p) \<noteq> 0"
    and ps1: "ps1 = ps(p := (ps p)\<lparr>lab6_stride := lab6_stride (ps p) + BIG_STRIDE div lab6_priority (ps p)\<rparr>)"
  shows "\<exists>L. stride_pick_next (q, ps) = Some (Some p, q, ps1) \<and>
     stride_dequeue p (q, ps1) = Some (q\<lparr>lab6_run_pool := troot (tmerge (proc_stride_comp_f ps1) l r),
        run_pool_links := L, proc_num := proc_num q - 1\<rparr>, ps1) \<and>
     sk_tree L None (tmerge (proc_stride_comp_f ps1) l r) \<and>
     distinct (inorder (tmerge (proc_stride_comp_f ps1) l r))"
proof -
  have d: "distinct (inorder (tmerge (proc_stride_comp_f ps1) l r))"
    using assms(2) by (auto simp: distinct_tmerge)
  obtain L where "skew_heap_remove (proc_stride_comp_f ps1) (Some p) p (run_pool_links q) =
      Some (troot (tmerge (proc_stride_comp_f ps1) l r), L)"
    "sk_tree L None (tmerge (proc_stride_comp_f ps1) l r)"
    using skew_heap_remove_tree [OF assms(1,2), of p "proc_stride_comp_f ps1"] by auto
  then show ?thesis using assms(3-6) d
    by (intro exI [of _ L]) (simp add: stride_pick_next_def stride_dequeue_def flip: ps1, simp add: ps1)
qed

lemma same_task_stride: "same_task p (p\<lparr>lab6_stride := b\<rparr>)"
  by (cases p) (simp add: same_task_def)

interpretation stride: sched_policy stride_sched_class stride_inv "\<lambda>p. lab6_priority p \<noteq> 0"
proof (unfold_locales, simp_all only: stride_sched_class_def sched_class.simps)
  fix q ps Q p assume i: "stride_inv (q, ps) Q" and p: "p \<notin> Q"
  then obtain t where t: "sk_tree (run_pool_links q) None t" "distinct (inorder t)" "lab6_run_pool q = troot t"
    "set_tree t = Q" by (auto simp: stride_inv_def)
  have "same_task (ps p) ((refill q (ps p))\<lparr>on_rq := True\<rparr>)"
    using same_task_refill same_task_on_rq by (rule same_task_trans)
  moreover have "finite Q" using t(4) by auto
  ultimately show "\<exists>q' ps'. stride_enqueue p (q, ps) = Some (q', ps') \<and> stride_inv (q', ps') (insert p Q) \<and> frame ps ps' p"
    using stride_enqueue_tree [OF t(1-3), of p ps] p i t(4) by (fastforce simp: stride_inv_def frame_def)
next
  fix q ps assume "stride_inv (q, ps) {}"
  then show "stride_pick_next (q, ps) = Some (None, q, ps)" by (auto simp: stride_inv_def stride_pick_next_def)
next
  fix q ps Q assume i: "stride_inv (q, ps) Q" and ne: "Q \<noteq> {}" and rd: "\<forall>p \<in> Q. lab6_priority (ps p) \<noteq> 0"
  obtain t where t: "sk_tree (run_pool_links q) None t" "distinct (inorder t)" "lab6_run_pool q = troot t"
    "set_tree t = Q" using i by (auto simp: stride_inv_def)
  obtain l p r where tp: "t = \<langle>l, p, r\<rangle>" using t(4) ne by (cases t) auto
  have fin: "finite Q" using t(4) by auto
  have n: "proc_num q = card Q" "proc_num q > 0" "on_rq (ps p)" "lab6_priority (ps p) \<noteq> 0"
    using i ne fin rd t(4) tp by (auto simp: stride_inv_def card_gt_0_iff)
  define ps1 where "ps1 = ps(p := (ps p)\<lparr>lab6_stride := lab6_stride (ps p) + BIG_STRIDE div lab6_priority (ps p)\<rparr>)"
  obtain L where L: "stride_pick_next (q, ps) = Some (Some p, q, ps1)"
    "stride_dequeue p (q, ps1) = Some (q\<lparr>lab6_run_pool := troot (tmerge (proc_stride_comp_f ps1) l r),
        run_pool_links := L, proc_num := proc_num q - 1\<rparr>, ps1)"
    "sk_tree L None (tmerge (proc_stride_comp_f ps1) l r)"
    "distinct (inorder (tmerge (proc_stride_comp_f ps1) l r))"
    using stride_pick_tree [OF t(1) [unfolded tp] t(2) [unfolded tp] _ n(2-4) ps1_def] t(3) tp by auto
  have Q: "set_tree l \<union> set_tree r = Q - {p}" "p \<in> Q" using t(2,4) tp by (auto simp: set_inorder)
  let ?q2 = "q\<lparr>lab6_run_pool := troot (tmerge (proc_stride_comp_f ps1) l r),
        run_pool_links := L, proc_num := proc_num q - 1\<rparr>"
  have "stride_inv (?q2, ps1) (Q - {p})"
    using i L(3,4) Q n(1) fin by (auto simp: stride_inv_def ps1_def intro!: exI [of _ "tmerge (proc_stride_comp_f ps1) l r"])
  moreover have "frame ps ps1 p" by (simp add: frame_def ps1_def same_task_stride)
  ultimately show "\<exists>p q1 ps1 q2. stride_pick_next (q, ps) = Some (Some p, q1, ps1) \<and> p \<in> Q \<and> frame ps ps1 p \<and>
        stride_dequeue p (q1, ps1) = Some (q2, ps1) \<and> stride_inv (q2, ps1) (Q - {p})"
    using L(1,2) Q(2) by blast
next
  fix q ps Q assume "stride_inv (q, ps) Q"
  then show "finite Q \<and> proc_num q = card Q" by (auto simp: stride_inv_def)
next
  fix q ps Q and ps' :: proc_table assume "stride_inv (q, ps) Q" "\<forall>p \<in> Q. on_rq (ps' p) = on_rq (ps p) \<and>
        lab6_stride (ps' p) = lab6_stride (ps p) \<and> lab6_priority (ps' p) = lab6_priority (ps p)"
  then show "stride_inv (q, ps') Q" by (simp add: stride_inv_def)
next
  fix x show "same_task (x\<lparr>need_resched := need_resched (stride_proc_tick x)\<rparr>) (stride_proc_tick x)"
    by (cases x) (simp add: same_task_def stride_proc_tick_def Let_def)
qed

section \<open>The order of strides\<close>

text \<open>Strides wrap around. Relative to a base \<open>m\<close> below all of them they are ordered as long as none
  is more than \<^verbatim>\<open>BIG_STRIDE\<close> ahead of it, and then the signed comparison of the code is right.\<close>

definition stride_key :: "u32 \<Rightarrow> proc_table \<Rightarrow> nat \<Rightarrow> int" where
  "stride_key m ps p = uint (lab6_stride (ps p) - m)"

definition stride_window :: "u32 \<Rightarrow> proc_table \<Rightarrow> nat set \<Rightarrow> bool" where
  "stride_window m ps Q \<longleftrightarrow> (\<forall>p \<in> Q. lab6_stride (ps p) - m \<le> BIG_STRIDE)"

lemma sint_diff_window:
  fixes x y :: u32
  assumes "x \<le> BIG_STRIDE" "y \<le> BIG_STRIDE" shows "sint (x - y) = uint x - uint y"
proof -
  have "uint x \<le> 1073741824" "uint y \<le> 1073741824" using assms by (simp_all add: word_le_def)
  moreover have "0 \<le> uint x" "0 \<le> uint y" by (rule uint_ge_0)+
  ultimately have b: "- 2147483648 \<le> uint x - uint y" "uint x - uint y < 2147483648" by linarith+
  have "sint (word_of_int k :: u32) = signed_take_bit 31 k" for k
    using sint_sbintrunc' [where 'a = 32, of k] by simp
  moreover have "x - y = word_of_int (uint x - uint y)" by simp
  ultimately have "sint (x - y) = signed_take_bit 31 (uint x - uint y)" by metis
  also have "\<dots> = uint x - uint y"
    by (rule signed_take_bit_int_eq_self) (use b in simp_all)
  finally show ?thesis .
qed

lemma window_key_cmp:
  assumes "stride_window m ps Q" shows "key_cmp (proc_stride_comp_f ps) (stride_key m ps) Q"
proof -
  have "(proc_stride_comp_f ps a b = -1) = (stride_key m ps a < stride_key m ps b)" if "a \<in> Q" "b \<in> Q" for a b
  proof -
    have "lab6_stride (ps a) - lab6_stride (ps b) = (lab6_stride (ps a) - m) - (lab6_stride (ps b) - m)" by simp
    then have "sint (lab6_stride (ps a) - lab6_stride (ps b)) = stride_key m ps a - stride_key m ps b"
      unfolding stride_key_def using assms that by (metis sint_diff_window stride_window_def)
    then show ?thesis by (simp add: proc_stride_comp_f_def Let_def)
  qed
  then show ?thesis by (simp add: key_cmp_def)
qed

text \<open>The base can move up to the least stride.\<close>

lemma stride_key_shift:
  assumes "lab6_stride (ps p) - m \<le> lab6_stride (ps x) - m"
  shows "stride_key (lab6_stride (ps p)) ps x = stride_key m ps x - stride_key m ps p"
proof -
  have "lab6_stride (ps x) - lab6_stride (ps p) = (lab6_stride (ps x) - m) - (lab6_stride (ps p) - m)" by simp
  then show ?thesis unfolding stride_key_def using assms by (metis uint_minus_simple_alt word_le_def)
qed

lemma window_shift:
  assumes "stride_window m ps Q" "\<forall>x \<in> Q. lab6_stride (ps p) - m \<le> lab6_stride (ps x) - m"
  shows "stride_window (lab6_stride (ps p)) ps Q"
proof -
  have "lab6_stride (ps x) - lab6_stride (ps p) \<le> BIG_STRIDE" if x: "x \<in> Q" for x
  proof -
    have "uint (lab6_stride (ps x) - lab6_stride (ps p)) = uint (lab6_stride (ps x) - m) - uint (lab6_stride (ps p) - m)"
      using stride_key_shift [of ps p m x] assms(2) x by (simp add: stride_key_def)
    also have "\<dots> \<le> uint (lab6_stride (ps x) - m)" by simp
    also have "\<dots> \<le> uint BIG_STRIDE" using assms(1) x by (simp add: stride_window_def word_le_def)
    finally show ?thesis by (simp add: word_le_def)
  qed
  then show ?thesis by (simp add: stride_window_def)
qed

lemma ordered_shift:
  "skew_ordered key t \<Longrightarrow> \<forall>x \<in> set_tree t. key' x = key x - k \<Longrightarrow> skew_ordered (key' :: 'a \<Rightarrow> int) t"
  by (induction t) auto

lemma ordered_cong:
  "skew_ordered key t \<Longrightarrow> \<forall>x \<in> set_tree t. key' x = key x \<Longrightarrow> skew_ordered (key' :: 'a \<Rightarrow> int) t"
  by (induction t) auto

text \<open>A stride queue in order, relative to the base \<open>m\<close>.\<close>

definition stride_wf :: "u32 \<Rightarrow> rq_state \<Rightarrow> nat set \<Rightarrow> bool" where
  "stride_wf m st Q \<longleftrightarrow> (\<exists>t. sk_tree (run_pool_links (fst st)) None t \<and> distinct (inorder t) \<and>
     lab6_run_pool (fst st) = troot t \<and> set_tree t = Q \<and> skew_ordered (stride_key m (snd st)) t) \<and>
     stride_window m (snd st) Q \<and> proc_num (fst st) = card Q \<and> (\<forall>p \<in> Q. on_rq (snd st p))"

lemma stride_enqueue_wf:
  assumes wf: "stride_wf m (q, ps) Q" and p: "p \<notin> Q" "lab6_stride (ps p) - m \<le> BIG_STRIDE"
  shows "\<exists>q' ps'. stride_enqueue p (q, ps) = Some (q', ps') \<and> stride_wf m (q', ps') (insert p Q) \<and>
    (\<forall>x. lab6_stride (ps' x) = lab6_stride (ps x))"
proof -
  obtain t where t: "sk_tree (run_pool_links q) None t" "distinct (inorder t)" "lab6_run_pool q = troot t"
    "set_tree t = Q" "skew_ordered (stride_key m ps) t" using wf by (auto simp: stride_wf_def)
  let ?t = "tmerge (proc_stride_comp_f ps) t \<langle>\<langle>\<rangle>, p, \<langle>\<rangle>\<rangle>"
  let ?ps = "ps(p := (refill q (ps p))\<lparr>on_rq := True\<rparr>)"
  have st: "lab6_stride (?ps x) = lab6_stride (ps x)" for x by simp
  have w: "stride_window m ps (insert p Q)" using wf p(2) by (simp add: stride_wf_def stride_window_def)
  have "skew_ordered (stride_key m ps) ?t"
    using ordered_tmerge [OF t(5)] window_key_cmp [OF w] t(4) by (simp add: insert_commute)
  then have o: "skew_ordered (stride_key m ?ps) ?t" by (rule ordered_cong) (simp add: stride_key_def)
  obtain L where L: "stride_enqueue p (q, ps) = Some
      (q\<lparr>lab6_run_pool := troot ?t, run_pool_links := L, proc_num := proc_num q + 1\<rparr>, ?ps)"
    "sk_tree L None ?t" "distinct (inorder ?t)"
    using stride_enqueue_tree [OF t(1-3)] p t(4) by blast
  have "finite Q" using t(4) by auto
  then have "stride_wf m (q\<lparr>lab6_run_pool := troot ?t, run_pool_links := L, proc_num := proc_num q + 1\<rparr>, ?ps) (insert p Q)"
    using wf L(2,3) o w t(4) p by (auto simp: stride_wf_def stride_window_def)
  then show ?thesis using L(1) st by blast
qed

text \<open>Picking takes a process of least stride; its old stride becomes the new base, and its new stride
  stays inside the window.\<close>

lemma stride_pick_wf:
  assumes wf: "stride_wf m (q, ps) Q" and ne: "Q \<noteq> {}" and rd: "\<forall>p \<in> Q. lab6_priority (ps p) \<noteq> 0"
  shows "\<exists>p ps1 q2. stride_pick_next (q, ps) = Some (Some p, q, ps1) \<and> stride_dequeue p (q, ps1) = Some (q2, ps1) \<and>
    p \<in> Q \<and> (\<forall>x \<in> Q. lab6_stride (ps p) - m \<le> lab6_stride (ps x) - m) \<and>
    ps1 = ps(p := (ps p)\<lparr>lab6_stride := lab6_stride (ps p) + BIG_STRIDE div lab6_priority (ps p)\<rparr>) \<and>
    stride_wf (lab6_stride (ps p)) (q2, ps1) (Q - {p}) \<and>
    lab6_stride (ps1 p) - lab6_stride (ps p) \<le> BIG_STRIDE"
proof -
  obtain t where t: "sk_tree (run_pool_links q) None t" "distinct (inorder t)" "lab6_run_pool q = troot t"
    "set_tree t = Q" "skew_ordered (stride_key m ps) t" using wf by (auto simp: stride_wf_def)
  obtain l p r where tp: "t = \<langle>l, p, r\<rangle>" using t(4) ne by (cases t) auto
  have fin: "finite Q" using t(4) by auto
  have n: "proc_num q = card Q" "proc_num q > 0" "on_rq (ps p)" "lab6_priority (ps p) \<noteq> 0"
    using wf ne fin rd t(4) tp by (auto simp: stride_wf_def card_gt_0_iff)
  define ps1 where "ps1 = ps(p := (ps p)\<lparr>lab6_stride := lab6_stride (ps p) + BIG_STRIDE div lab6_priority (ps p)\<rparr>)"
  define m' where "m' = lab6_stride (ps p)"
  let ?m = "tmerge (proc_stride_comp_f ps1) l r"
  obtain L where L: "stride_pick_next (q, ps) = Some (Some p, q, ps1)"
    "stride_dequeue p (q, ps1) = Some (q\<lparr>lab6_run_pool := troot ?m, run_pool_links := L, proc_num := proc_num q - 1\<rparr>, ps1)"
    "sk_tree L None ?m" "distinct (inorder ?m)"
    using stride_pick_tree [OF t(1) [unfolded tp] t(2) [unfolded tp] _ n(2-4) ps1_def] t(3) tp by auto
  have Q: "set_tree l \<union> set_tree r = Q - {p}" "p \<in> Q" using t(2,4) tp by (auto simp: set_inorder)
  have least: "\<forall>x \<in> Q. m' - m \<le> lab6_stride (ps x) - m"
    using ordered_root_least [OF t(5), of p] t(4) tp unfolding stride_key_def word_le_def m'_def by auto
  have w: "stride_window m' ps Q" unfolding m'_def
    by (rule window_shift [of m]) (use wf least in \<open>auto simp: stride_wf_def m'_def\<close>)
  then have w1: "stride_window m' ps1 (Q - {p})" by (auto simp: stride_window_def ps1_def)
  have sh: "stride_key m' ps1 x = stride_key m ps x - stride_key m ps p" if "x \<in> Q - {p}" for x
    using stride_key_shift [of ps p m x] least that by (simp add: m'_def stride_key_def ps1_def)
  have "skew_ordered (stride_key m' ps1) l" "skew_ordered (stride_key m' ps1) r"
    using t(5) tp sh Q by (auto intro: ordered_shift [where k = "stride_key m ps p"])
  then have "skew_ordered (stride_key m' ps1) ?m"
    by (rule ordered_tmerge) (use window_key_cmp [OF w1] Q in simp)
  then have "stride_wf m' (q\<lparr>lab6_run_pool := troot ?m, run_pool_links := L, proc_num := proc_num q - 1\<rparr>, ps1) (Q - {p})"
    using wf L(3,4) Q n(1) fin w1 by (auto simp: stride_wf_def ps1_def)
  moreover have "BIG_STRIDE div lab6_priority (ps p) \<le> BIG_STRIDE" by (simp add: word_le_nat_alt unat_div)
  then have "lab6_stride (ps1 p) - m' \<le> BIG_STRIDE" by (simp add: ps1_def m'_def)
  ultimately show ?thesis using L(1,2) Q(2) least ps1_def unfolding m'_def by blast
qed

section \<open>Properties\<close>


definition proc0 :: proc_struct where
  "proc0 = \<lparr>state = PROC_UNINIT, pid = -1, runs = 0, kstack = None, need_resched = False, parent = None,
     pr_mm = None, ctx_ra = 0, ctx_sp = 0, tf = 0, pgdir = 0, pr_flags = 0, pr_name = [], exit_code = 0,
     wait_state = 0, cptr = None, yptr = None, optr = None, on_rq = False, time_slice = 0, lab6_stride = 0,
     lab6_priority = 0, filesp = None\<rparr>"

definition queue0 :: run_queue where
  "queue0 = \<lparr>run_list = [], proc_num = 0, max_time_slice = 5, lab6_run_pool = None,
     run_pool_links = \<lparr>sk_parent = (\<lambda>_. None), sk_left = (\<lambda>_. None), sk_right = (\<lambda>_. None)\<rparr>\<rparr>"

lemma queue0_wf: "stride_wf m (stride_init queue0, ps) {}"
  by (auto simp: stride_wf_def stride_init_def queue0_def stride_window_def intro!: exI [of _ "\<langle>\<rangle>"])


text \<open>A process whose priority is still the initial 0 makes the next pick divide by zero when it is
  at the top of the queue.\<close>

theorem stride_zero_priority:
  assumes "lab6_run_pool q = Some p" and "lab6_priority (ps p) = 0"
  shows "stride_pick_next (q, ps) = None"
  using assms by (simp add: stride_pick_next_def)

lemma stride_zero_priority_witness: "stride_pick_next (queue0\<lparr>lab6_run_pool := Some 1\<rparr>, \<lambda>_. proc0) = None"
  by (rule stride_zero_priority) (simp_all add: proc0_def queue0_def)

end
