(* ===== verification/Sched.thy ===== *)
theory Sched
  imports SchedClass
begin

text \<open>
  The core scheduler \<^verbatim>\<open>kern/schedule/sched.c\<close>: \<^verbatim>\<open>wakeup_proc\<close>, \<^verbatim>\<open>schedule\<close> with \<^verbatim>\<open>proc_run\<close>, and the timer
  list. Its lemmas are proved from the contract \<open>sched_policy\<close> alone and hold for both scheduling
  classes. The timer list stores each expiry relative to the one before it.
\<close>

section \<open>Operations\<close>

definition sched_class_enqueue :: "nat \<Rightarrow> 'a kstate_scheme \<Rightarrow> 'a kstate_scheme option" where
  "sched_class_enqueue p s =
     (if p \<noteq> idleproc s then do {
        (q, ps) \<leftarrow> sc_enqueue (cls s) p (rq s, procs s);
        Some (s\<lparr>rq := q, procs := ps\<rparr>)
      } else Some s)"

definition sched_class_dequeue :: "nat \<Rightarrow> 'a kstate_scheme \<Rightarrow> 'a kstate_scheme option" where
  "sched_class_dequeue p s = do {
     (q, ps) \<leftarrow> sc_dequeue (cls s) p (rq s, procs s);
     Some (s\<lparr>rq := q, procs := ps\<rparr>)
   }"

definition sched_class_pick_next :: "'a kstate_scheme \<Rightarrow> (nat option \<times> 'a kstate_scheme) option" where
  "sched_class_pick_next s = do {
     (r, q, ps) \<leftarrow> sc_pick_next (cls s) (rq s, procs s);
     Some (r, s\<lparr>rq := q, procs := ps\<rparr>)
   }"

definition sched_class_proc_tick :: "nat \<Rightarrow> 'a kstate_scheme \<Rightarrow> 'a kstate_scheme" where
  "sched_class_proc_tick p s =
     (if p \<noteq> idleproc s then upd_proc p (sc_proc_tick (cls s)) s
      else upd_proc p (\<lambda>x. x\<lparr>need_resched := True\<rparr>) s)"

definition sched_init :: "'a kstate_scheme \<Rightarrow> 'a kstate_scheme" where
  "sched_init s =
     (let s1 = s\<lparr>timer_list := [], cls := stride_sched_class\<rparr>;
          q = (rq s1)\<lparr>max_time_slice := 5\<rparr>
      in s1\<lparr>rq := sc_init (cls s1) q\<rparr>)"

definition wakeup_proc :: "nat \<Rightarrow> 'a kstate_scheme \<Rightarrow> 'a kstate_scheme option" where
  "wakeup_proc p s = do {
     kassert (state (procs s p) \<noteq> PROC_ZOMBIE);
     let (intr_flag, b) = intr_save (sie s);
     let s1 = s\<lparr>sie := b\<rparr>;
     s2 \<leftarrow> (if state (procs s1 p) \<noteq> PROC_RUNNABLE then
              let s' = upd_proc p (\<lambda>x. x\<lparr>state := PROC_RUNNABLE, wait_state := 0\<rparr>) s1
              in if p \<noteq> current s' then sched_class_enqueue p s' else Some s'
            else Some s1);
     Some (s2\<lparr>sie := intr_restore intr_flag (sie s2)\<rparr>)
   }"

text \<open>\<^verbatim>\<open>proc_run\<close> switches to \<open>p\<close>: the page table and the registers are those of \<open>p\<close> from here on.\<close>

definition proc_run :: "nat \<Rightarrow> 'a kstate_scheme \<Rightarrow> 'a kstate_scheme" where
  "proc_run p s =
     (if p \<noteq> current s then
        let (intr_flag, b) = intr_save (sie s);
            s1 = s\<lparr>sie := b\<rparr>;
            s2 = s1\<lparr>current := p\<rparr>
        in s2\<lparr>sie := intr_restore intr_flag (sie s2)\<rparr>
      else s)"

text \<open>The part of \<^verbatim>\<open>schedule\<close> between saving and restoring the interrupt flag, up to the switch.\<close>

definition schedule_switch :: "'a kstate_scheme \<Rightarrow> 'a kstate_scheme option" where
  "schedule_switch s = do {
     let s1 = upd_proc (current s) (\<lambda>x. x\<lparr>need_resched := False\<rparr>) s;
     s2 \<leftarrow> (if state (procs s1 (current s1)) = PROC_RUNNABLE then sched_class_enqueue (current s1) s1
            else Some s1);
     (next, s3) \<leftarrow> sched_class_pick_next s2;
     s4 \<leftarrow> (case next of Some n \<Rightarrow> sched_class_dequeue n s3 | None \<Rightarrow> Some s3);
     let n = (case next of Some n \<Rightarrow> n | None \<Rightarrow> idleproc s4);
     let s5 = upd_proc n (\<lambda>x. x\<lparr>runs := runs x + 1\<rparr>) s4;
     Some (if n \<noteq> current s5 then proc_run n s5 else s5)
   }"

text \<open>The flag restored after the switch is the one the process that continues saved when it called
  \<^verbatim>\<open>schedule\<close> itself; \<open>schedule\<close> here is a call whose caller sees it return, with its own flag.\<close>

definition schedule :: "'a kstate_scheme \<Rightarrow> 'a kstate_scheme option" where
  "schedule s = do {
     let (intr_flag, b) = intr_save (sie s);
     s' \<leftarrow> schedule_switch (s\<lparr>sie := b\<rparr>);
     Some (s'\<lparr>sie := intr_restore intr_flag (sie s')\<rparr>)
   }"

section \<open>Timer operations\<close>

text \<open>\<^verbatim>\<open>add_timer\<close>: the walk along the list, decreasing the expiry by those passed, and the insertion.\<close>

fun timer_insert :: "(nat \<Rightarrow> timer) \<Rightarrow> nat \<Rightarrow> nat list \<Rightarrow> (nat \<Rightarrow> timer) \<times> nat list" where
  "timer_insert ts t [] = (ts, [t])"
| "timer_insert ts t (n # le) =
     (if expires (ts t) < expires (ts n) then
        (ts(n := (ts n)\<lparr>expires := expires (ts n) - expires (ts t)\<rparr>), t # n # le)
      else let (ts', le') = timer_insert (ts(t := (ts t)\<lparr>expires := expires (ts t) - expires (ts n)\<rparr>)) t le
           in (ts', n # le'))"

definition add_timer :: "nat \<Rightarrow> 'a kstate_scheme \<Rightarrow> 'a kstate_scheme option" where
  "add_timer t s = do {
     let (intr_flag, b) = intr_save (sie s);
     kassert (expires (timers s t) > 0);
     kassert (t \<notin> set (timer_list s));
     let (ts, le) = timer_insert (timers s) t (timer_list s);
     Some (s\<lparr>timers := ts, timer_list := le, sie := intr_restore intr_flag b\<rparr>)
   }"

text \<open>The entry after \<open>t\<close> in the list, \<open>None\<close> for the list head.\<close>

fun next_timer :: "nat \<Rightarrow> nat list \<Rightarrow> nat option" where
  "next_timer t [] = None"
| "next_timer t [x] = None"
| "next_timer t (x # y # le) = (if x = t then Some y else next_timer t (y # le))"

definition del_timer :: "nat \<Rightarrow> 'a kstate_scheme \<Rightarrow> 'a kstate_scheme" where
  "del_timer t s =
     (let (intr_flag, b) = intr_save (sie s) in
      if t \<in> set (timer_list s) then
        let ts = (if expires (timers s t) \<noteq> 0 then
                    (case next_timer t (timer_list s) of
                       None \<Rightarrow> timers s
                     | Some n \<Rightarrow> (timers s)(n := (timers s n)\<lparr>expires := expires (timers s n) + expires (timers s t)\<rparr>))
                  else timers s)
        in s\<lparr>timers := ts, timer_list := remove1 t (timer_list s), sie := intr_restore intr_flag b\<rparr>
      else s\<lparr>sie := intr_restore intr_flag b\<rparr>)"

text \<open>The loop of \<^verbatim>\<open>run_timer_list\<close> over the expired timers; \<open>le\<close> is the rest of the list.\<close>

fun run_expired :: "nat list \<Rightarrow> nat \<Rightarrow> 'a kstate_scheme \<Rightarrow> 'a kstate_scheme option" where
  "run_expired le t s =
     (if expires (timers s t) = 0 then do {
        let p = timer_proc (timers s t);
        kassert (wait_state (procs s p) \<noteq> 0 \<longrightarrow> wait_state (procs s p) AND WT_INTERRUPTED \<noteq> 0);
        s1 \<leftarrow> wakeup_proc p s;
        let s2 = del_timer t s1;
        (case le of [] \<Rightarrow> Some s2 | t' # le' \<Rightarrow> run_expired le' t' s2)
      } else Some s)"

declare run_expired.simps [simp del]

definition run_timer_list :: "'a kstate_scheme \<Rightarrow> 'a kstate_scheme option" where
  "run_timer_list s = do {
     let (intr_flag, b) = intr_save (sie s);
     let s0 = s\<lparr>sie := b\<rparr>;
     s1 \<leftarrow> (case timer_list s0 of
              [] \<Rightarrow> Some s0
            | t # le \<Rightarrow> do {
                kassert (expires (timers s0 t) \<noteq> 0);
                run_expired le t (s0\<lparr>timers := (timers s0)(t := (timers s0 t)\<lparr>expires := expires (timers s0 t) - 1\<rparr>)\<rparr>)
              });
     let s2 = sched_class_proc_tick (current s1) s1;
     Some (s2\<lparr>sie := intr_restore intr_flag (sie s2)\<rparr>)
   }"

section \<open>The run queue holds the runnable processes\<close>

text \<open>\<open>waiting_to_run s P\<close>: the live processes that can run but are not running; the idle process is
  never queued.\<close>

definition waiting_to_run :: "'a kstate_scheme \<Rightarrow> nat set \<Rightarrow> nat set" where
  "waiting_to_run s P =
     {p \<in> P. state (procs s p) = PROC_RUNNABLE \<and> p \<noteq> current s \<and> p \<noteq> idleproc s}"

text \<open>\<open>rq_exact c I s P\<close>: class \<open>c\<close> is in use and its queue holds exactly those processes.\<close>

definition rq_exact ::
  "sched_class \<Rightarrow> (rq_state \<Rightarrow> nat set \<Rightarrow> bool) \<Rightarrow> 'a kstate_scheme \<Rightarrow> nat set \<Rightarrow> bool" where
  "rq_exact c I s P \<longleftrightarrow> cls s = c \<and> current s \<in> P \<and> idleproc s \<in> P \<and>
     state (procs s (idleproc s)) = PROC_RUNNABLE \<and> I (rq s, procs s) (waiting_to_run s P)"

lemma proc_run_eq: "proc_run p s = s\<lparr>current := p\<rparr>"
proof (cases "p = current s")
  case False
  obtain fl b where fb: "intr_save (sie s) = (fl, b)" by fastforce
  then have "intr_restore fl b = sie s" by simp
  then show ?thesis using False fb by (simp add: proc_run_def)
qed (simp add: proc_run_def)

lemma schedule_Some:
  assumes "intr_save (sie s) = (fl, b)"
    and "(let s1 = upd_proc (current s) (\<lambda>x. x\<lparr>need_resched := False\<rparr>) (s\<lparr>sie := b\<rparr>) in
       if state (procs s1 (current s1)) = PROC_RUNNABLE then sched_class_enqueue (current s1) s1 else Some s1) = Some s2"
    and "sched_class_pick_next s2 = Some (next, s3)"
    and "(case next of Some n \<Rightarrow> sched_class_dequeue n s3 | None \<Rightarrow> Some s3) = Some s4"
    and "n = (case next of Some n \<Rightarrow> n | None \<Rightarrow> idleproc s4)" and "sie s4 = b"
  shows "schedule s = Some ((upd_proc n (\<lambda>x. x\<lparr>runs := runs x + 1\<rparr>) s4)\<lparr>current := n, sie := sie s\<rparr>)"
proof -
  have re: "intr_restore fl b = sie s" using assms(1) by simp
  let ?t = "upd_proc n (\<lambda>x. x\<lparr>runs := runs x + 1\<rparr>) s4"
  have run: "(if n \<noteq> current s4 then proc_run n ?t else ?t) = ?t\<lparr>current := n\<rparr>"
    unfolding proc_run_eq by (simp add: upd_proc_def)
  have "schedule_switch (s\<lparr>sie := b\<rparr>) = Some (if n \<noteq> current s4 then proc_run n ?t else ?t)"
    using assms(2-4) unfolding schedule_switch_def Let_def assms(5)
    by (simp cong: if_cong split del: if_split)
  then have "schedule_switch (s\<lparr>sie := b\<rparr>) = Some (?t\<lparr>current := n\<rparr>)" unfolding run .
  then show ?thesis using assms(1,6) re by (simp add: schedule_def)
qed

text \<open>\<open>sched_same\<close>: what \<^verbatim>\<open>schedule\<close> leaves of a process.\<close>

definition sched_same :: "proc_struct \<Rightarrow> proc_struct \<Rightarrow> bool" where
  "sched_same p q \<longleftrightarrow> p\<lparr>on_rq := on_rq q, time_slice := time_slice q, lab6_stride := lab6_stride q,
     need_resched := need_resched q, runs := runs q\<rparr> = q"

lemma sched_same_refl [simp]: "sched_same p p" "sched_same p (p\<lparr>need_resched := b\<rparr>)" "sched_same p (p\<lparr>runs := n\<rparr>)"
  by (simp_all add: sched_same_def)

lemma sched_same_trans: "sched_same p q \<Longrightarrow> sched_same q r \<Longrightarrow> sched_same p r"
  by (cases p; cases q; cases r) (auto simp: sched_same_def)

lemma same_task_sched_same: "same_task p q \<Longrightarrow> sched_same p q"
  by (cases p; cases q) (auto simp: sched_same_def same_task_def)

lemma sched_same_fields:
  assumes "sched_same p q"
  shows "state q = state p" "pid q = pid p" "wait_state q = wait_state p" "parent q = parent p"
    "cptr q = cptr p" "yptr q = yptr p" "optr q = optr p" "exit_code q = exit_code p"
    "pr_flags q = pr_flags p" "pr_mm q = pr_mm p" "kstack q = kstack p" "filesp q = filesp p"
  using assms by (cases p; cases q; auto simp: sched_same_def)+

text \<open>The scheduler changes the run queue, the process table and, when it switches, \<open>current\<close>.\<close>

definition sched_shape :: "'a kstate_scheme \<Rightarrow> 'a kstate_scheme \<Rightarrow> bool" where
  "sched_shape s s' \<longleftrightarrow> kstate.more s' = kstate.more s \<and> cls s' = cls s \<and> idleproc s' = idleproc s \<and>
     initproc s' = initproc s \<and> timers s' = timers s \<and> timer_list s' = timer_list s"

lemma more_upd_proc [simp]: "kstate.more (upd_proc p f s) = kstate.more s"
  by (simp add: upd_proc_def)

lemma sched_shapeI:
  "sched_shape s s" "sched_shape s t \<Longrightarrow> sched_shape s (t\<lparr>sie := b\<rparr>)"
  "sched_shape s t \<Longrightarrow> sched_shape s (t\<lparr>current := c\<rparr>)" "sched_shape s t \<Longrightarrow> sched_shape s (t\<lparr>rq := q, procs := ps\<rparr>)"
  "sched_shape s t \<Longrightarrow> sched_shape s (upd_proc p f t)"
  by (simp_all add: sched_shape_def)

lemma sched_class_enqueue_shape: "sched_class_enqueue p t = Some s' \<Longrightarrow> sched_shape s t \<Longrightarrow> sched_shape s s'"
  by (auto simp: sched_class_enqueue_def kspec intro: sched_shapeI split: if_splits)

lemma wakeup_proc_shape: "wakeup_proc p s = Some s' \<Longrightarrow> sched_shape s s'"
  by (auto simp: wakeup_proc_def Let_def kspec intro!: sched_shapeI split: if_splits prod.splits
      dest!: sched_class_enqueue_shape [where s = s, OF _ sched_shapeI(5) [OF sched_shapeI(2) [OF sched_shapeI(1)]]])

lemma proc_run_shape: "sched_shape s t \<Longrightarrow> sched_shape s (proc_run n t)"
  by (auto simp: proc_run_def Let_def intro!: sched_shapeI split: prod.splits)

lemma schedule_shape: "schedule s = Some s' \<Longrightarrow> sched_shape s s'"
  unfolding schedule_def
proof (clarsimp simp: kspec split: prod.splits)
  fix fl b t assume "schedule_switch (s\<lparr>sie := b\<rparr>) = Some t"
  then have "sched_shape s t"
    by (auto simp: schedule_switch_def Let_def kspec sched_class_pick_next_def sched_class_dequeue_def
        intro!: sched_shapeI proc_run_shape split: if_splits option.splits
        dest!: sched_class_enqueue_shape [where s = s, OF _ sched_shapeI(5) [OF sched_shapeI(2) [OF sched_shapeI(1)]]])
  then show "sched_shape s (t\<lparr>sie := intr_restore fl (sie t)\<rparr>)" by (rule sched_shapeI)
qed

context sched_policy
begin

lemma enqueue_exact:
  assumes "cls s = c" "inv (rq s, procs s) Q" "p \<notin> Q" "p \<noteq> idleproc s"
  shows "\<exists>q ps. sched_class_enqueue p s = Some (s\<lparr>rq := q, procs := ps\<rparr>) \<and> inv (q, ps) (insert p Q) \<and>
    frame (procs s) ps p"
proof -
  from enqueue_ok [OF assms(2,3)] obtain q ps where
    q: "sc_enqueue c p (rq s, procs s) = Some (q, ps)" "inv (q, ps) (insert p Q)" "frame (procs s) ps p" by blast
  then have "sched_class_enqueue p s = Some (s\<lparr>rq := q, procs := ps\<rparr>)"
    using assms(1,4) by (simp add: sched_class_enqueue_def)
  then show ?thesis using q(2,3) by blast
qed

lemma frame_state: "frame ps ps' p \<Longrightarrow> state (ps' x) = state (ps x)"
  by (cases "x = p") (auto simp: frame_def same_task_fields)

lemma inv_upd:
  assumes "inv (q, ps) Q" "p \<notin> Q" shows "inv (q, ps(p := v)) Q"
  by (rule inv_frame [OF assms(1)]) (use assms(2) in auto)

lemma wakeup_exact:
  assumes e: "rq_exact c inv s P" and p: "p \<in> P" "state (procs s p) \<noteq> PROC_ZOMBIE"
  shows "\<exists>s'. wakeup_proc p s = Some s' \<and> rq_exact c inv s' P \<and> state (procs s' p) = PROC_RUNNABLE \<and>
    (\<forall>x. x \<noteq> p \<longrightarrow> procs s' x = procs s x) \<and> current s' = current s \<and> idleproc s' = idleproc s \<and>
    cls s' = cls s \<and> timer_list s' = timer_list s \<and> timers s' = timers s \<and> sie s' = sie s \<and>
    (wait_state (procs s' p) = 0 \<or> wait_state (procs s' p) = wait_state (procs s p)) \<and>
    lab6_priority (procs s' p) = lab6_priority (procs s p) \<and>
    (\<exists>w. same_task ((procs s p)\<lparr>state := PROC_RUNNABLE, wait_state := w\<rparr>) (procs s' p))"
proof -
  obtain fl b where fb: "intr_save (sie s) = (fl, b)" by fastforce
  have re: "intr_restore fl b = sie s" using fb by simp
  show ?thesis
  proof (cases "state (procs s p) = PROC_RUNNABLE")
    case True
    then have "wakeup_proc p s = Some (s\<lparr>sie := sie s\<rparr>)" using p(2) fb re by (simp add: wakeup_proc_def)
    moreover have "(procs s p)\<lparr>state := PROC_RUNNABLE, wait_state := wait_state (procs s p)\<rparr> = procs s p"
      using True by simp
    then have "\<exists>w. same_task ((procs s p)\<lparr>state := PROC_RUNNABLE, wait_state := w\<rparr>) (procs s p)"
      by (metis same_task_refl)
    ultimately show ?thesis using e True by (simp add: rq_exact_def waiting_to_run_def)
  next
    case False
    let ?s1 = "upd_proc p (\<lambda>x. x\<lparr>state := PROC_RUNNABLE, wait_state := 0\<rparr>) (s\<lparr>sie := b\<rparr>)"
    have pi: "p \<noteq> idleproc s" using e False by (auto simp: rq_exact_def)
    have Q: "p \<notin> waiting_to_run s P" using False by (simp add: waiting_to_run_def)
    have i1: "inv (rq ?s1, procs ?s1) (waiting_to_run s P)"
      using e inv_upd [OF _ Q] by (simp add: rq_exact_def)
    show ?thesis
    proof (cases "p = current s")
      case True
      then have "wakeup_proc p s = Some (?s1\<lparr>sie := sie s\<rparr>)"
        using p(2) False fb re by (simp add: wakeup_proc_def Let_def)
      moreover have "waiting_to_run (?s1\<lparr>sie := sie s\<rparr>) P = waiting_to_run s P"
        using True by (auto simp: waiting_to_run_def)
      moreover have "\<exists>w. same_task ((procs s p)\<lparr>state := PROC_RUNNABLE, wait_state := w\<rparr>) (procs (?s1\<lparr>sie := sie s\<rparr>) p)"
        by (rule exI [of _ 0]) simp
      ultimately show ?thesis using e i1 True pi by (simp add: rq_exact_def)
    next
      case cu: False
      have "cls ?s1 = c" "p \<noteq> idleproc ?s1" using e pi by (simp_all add: rq_exact_def)
      from enqueue_exact [OF this(1) i1 Q this(2)] obtain q ps where
        qp: "sched_class_enqueue p ?s1 = Some (?s1\<lparr>rq := q, procs := ps\<rparr>)"
        "inv (q, ps) (insert p (waiting_to_run s P))" "frame (procs ?s1) ps p" by blast
      let ?s2 = "?s1\<lparr>rq := q, procs := ps, sie := sie s\<rparr>"
      have "wakeup_proc p s = Some ?s2"
        using p(2) False fb re qp(1) cu by (simp add: wakeup_proc_def Let_def)
      moreover have st: "state (ps x) = (if x = p then PROC_RUNNABLE else state (procs s x))" for x
        using frame_state [OF qp(3), of x] by simp
      then have "waiting_to_run ?s2 P = insert p (waiting_to_run s P)"
        using p cu pi by (auto simp: waiting_to_run_def)
      moreover have "wait_state (ps p) = 0" "lab6_priority (ps p) = lab6_priority (procs s p)"
        using qp(3) by (auto simp: frame_def dest: same_task_fields(3,13))
      moreover have "\<exists>w. same_task ((procs s p)\<lparr>state := PROC_RUNNABLE, wait_state := w\<rparr>) (ps p)"
        using qp(3) by (intro exI [of _ 0]) (simp add: frame_def)
      ultimately show ?thesis using e qp(2,3) st pi by (auto simp: rq_exact_def frame_def)
    qed
  qed
qed

text \<open>Scheduling: the next process is taken from the queue, the idle process runs exactly when the
  queue is empty, and the queue is exact again.\<close>

lemma frame_sched_same: "frame ps ps' p \<Longrightarrow> sched_same (ps x) (ps' x)"
  by (cases "x = p") (auto simp: frame_def same_task_sched_same)

lemma schedule_exact:
  assumes e: "rq_exact c inv s P" and rd: "\<forall>p \<in> P. ready (procs s p)"
  shows "\<exists>s'. schedule s = Some s' \<and> rq_exact c inv s' P \<and>
    (let R = {p \<in> P. state (procs s p) = PROC_RUNNABLE \<and> p \<noteq> idleproc s} in
       (R = {} \<longrightarrow> current s' = idleproc s) \<and> (R \<noteq> {} \<longrightarrow> current s' \<in> R)) \<and>
    (\<forall>x. state (procs s' x) = state (procs s x)) \<and> idleproc s' = idleproc s \<and> sie s' = sie s \<and>
    (\<forall>x. sched_same (procs s x) (procs s' x))"
proof -
  obtain fl b where fb: "intr_save (sie s) = (fl, b)" by fastforce
  have re: "intr_restore fl b = sie s" using fb by simp
  let ?s = "s\<lparr>sie := b\<rparr>" and ?cu = "current s" and ?id = "idleproc s"
  let ?s1 = "upd_proc ?cu (\<lambda>x. x\<lparr>need_resched := False\<rparr>) ?s"
  let ?Q = "waiting_to_run s P"
  define R where "R = {p \<in> P. state (procs s p) = PROC_RUNNABLE \<and> p \<noteq> ?id}"
  have cuQ: "?cu \<notin> ?Q" by (simp add: waiting_to_run_def)
  have i1: "inv (rq ?s1, procs ?s1) ?Q" using e inv_upd [OF _ cuQ] by (simp add: rq_exact_def)
  obtain s2 where s2: "(if state (procs ?s1 ?cu) = PROC_RUNNABLE then sched_class_enqueue ?cu ?s1 else Some ?s1) = Some s2"
    "inv (rq s2, procs s2) R" "cls s2 = c" "current s2 = ?cu" "idleproc s2 = ?id" "sie s2 = b"
    "\<forall>x. state (procs s2 x) = state (procs s x)" "\<forall>x. lab6_priority (procs s2 x) = lab6_priority (procs s x)"
    "\<forall>x. sched_same (procs s x) (procs s2 x)"
  proof (cases "state (procs s ?cu) = PROC_RUNNABLE \<and> ?cu \<noteq> ?id")
    case True
    have "cls ?s1 = c" "?cu \<noteq> idleproc ?s1" using e True by (simp_all add: rq_exact_def)
    from enqueue_exact [OF this(1) i1 cuQ this(2)] obtain q ps where
      qp: "sched_class_enqueue ?cu ?s1 = Some (?s1\<lparr>rq := q, procs := ps\<rparr>)"
      "inv (q, ps) (insert ?cu ?Q)" "frame (procs ?s1) ps ?cu" by blast
    have "insert ?cu ?Q = R" using e True by (auto simp: R_def waiting_to_run_def rq_exact_def)
    moreover have "state (ps x) = state (procs s x)" for x using frame_state [OF qp(3), of x] by simp
    moreover have "lab6_priority (ps x) = lab6_priority (procs s x)" for x
      using qp(3) by (cases "x = ?cu") (auto simp: frame_def same_task_fields)
    moreover have "sched_same (procs s x) (ps x)" for x
      using frame_sched_same [OF qp(3), of x] sched_same_trans [of "procs s x" "procs ?s1 x" "ps x"] by simp
    ultimately show ?thesis using that [of "?s1\<lparr>rq := q, procs := ps\<rparr>"] qp True e by (simp add: rq_exact_def)
  next
    case False
    then have "?Q = R" by (auto simp: R_def waiting_to_run_def)
    moreover have "sched_class_enqueue ?id ?s1 = Some ?s1" by (simp add: sched_class_enqueue_def)
    ultimately show ?thesis using that [of ?s1] False e i1 by (auto simp: rq_exact_def)
  qed
  have s2': "(let s1 = upd_proc (current s) (\<lambda>x. x\<lparr>need_resched := False\<rparr>) (s\<lparr>sie := b\<rparr>) in
       if state (procs s1 (current s1)) = PROC_RUNNABLE then sched_class_enqueue (current s1) s1 else Some s1) = Some s2"
    using s2(1) unfolding Let_def by (simp cong: if_cong split del: if_split)
  show ?thesis
  proof (cases "R = {}")
    case True
    have pick: "sched_class_pick_next s2 = Some (None, s2)"
      using pick_empty [of "rq s2" "procs s2"] s2(2,3) True by (simp add: sched_class_pick_next_def)
    let ?t = "(upd_proc ?id (\<lambda>x. x\<lparr>runs := runs x + 1\<rparr>) s2)\<lparr>current := ?id, sie := sie s\<rparr>"
    have "schedule s = Some ?t" by (rule schedule_Some [OF fb s2' pick]) (simp_all add: s2(5,6))
    moreover have "sched_same (procs s x) (procs ?t x)" for x
      using s2(9) sched_same_trans [of "procs s x" "procs s2 x" "procs ?t x"] by simp
    moreover have st: "state (procs ?t x) = state (procs s x)" for x using s2(7) by simp
    moreover have "waiting_to_run ?t P = R" unfolding waiting_to_run_def R_def st using s2(5) by auto
    moreover have "inv (rq ?t, procs ?t) R" using inv_upd [OF s2(2), of ?id] True by simp
    ultimately show ?thesis using e s2(3,5,7) True unfolding R_def [symmetric] by (auto simp: rq_exact_def)
  next
    case False
    have "\<forall>x \<in> R. ready (procs s2 x)" using rd s2(8) ready_prio by (metis (mono_tags, lifting) R_def mem_Collect_eq)
    from pick_ok [OF s2(2) False this] obtain n q1 ps1 q2 where
      n: "sc_pick_next c (rq s2, procs s2) = Some (Some n, q1, ps1)" "n \<in> R" "frame (procs s2) ps1 n"
      "sc_dequeue c n (q1, ps1) = Some (q2, ps1)" "inv (q2, ps1) (R - {n})" by blast
    let ?s3 = "s2\<lparr>rq := q1, procs := ps1\<rparr>" and ?s4 = "s2\<lparr>rq := q2, procs := ps1\<rparr>"
    have pick: "sched_class_pick_next s2 = Some (Some n, ?s3)" "sched_class_dequeue n ?s3 = Some ?s4"
      using n(1,4) s2(3) by (simp_all add: sched_class_pick_next_def sched_class_dequeue_def)
    let ?t = "(upd_proc n (\<lambda>x. x\<lparr>runs := runs x + 1\<rparr>) ?s4)\<lparr>current := n, sie := sie s\<rparr>"
    have "schedule s = Some ?t" by (rule schedule_Some [OF fb s2' pick(1)]) (simp_all add: pick(2) s2(6))
    moreover have "sched_same (procs s x) (procs ?t x)" for x
      using s2(9) frame_sched_same [OF n(3), of x] sched_same_trans [of "procs s x" "procs s2 x" "ps1 x"]
        sched_same_trans [of "procs s x" "ps1 x" "procs ?t x"] by simp
    moreover have st: "state (procs ?t x) = state (procs s x)" for x
      using s2(7) frame_state [OF n(3), of x] by auto
    moreover have "waiting_to_run ?t P = R - {n}" unfolding waiting_to_run_def R_def st using s2(5) by auto
    moreover have "inv (rq ?t, procs ?t) (R - {n})" using inv_upd [OF n(5), of n] by simp
    moreover have "n \<in> P" using n(2) by (simp add: R_def)
    ultimately show ?thesis using e s2(3,5,7) n(2) False unfolding R_def [symmetric] by (auto simp: rq_exact_def)
  qed
qed

end

section \<open>Absolute expiry\<close>

text \<open>\<open>due e le t\<close>: the ticks from now until timer \<open>t\<close> of the list \<open>le\<close> expires, the sum of the relative
  expiries up to it.\<close>

fun due :: "(nat \<Rightarrow> nat) \<Rightarrow> nat list \<Rightarrow> nat \<Rightarrow> nat" where
  "due e [] t = 0"
| "due e (x # le) t = (if x = t then e x else e x + due e le t)"

abbreviation expiry :: "(nat \<Rightarrow> timer) \<Rightarrow> nat \<Rightarrow> nat" where "expiry ts \<equiv> \<lambda>t. expires (ts t)"

lemma due_cong: "\<forall>x \<in> set le. e' x = e x \<Longrightarrow> due e' le t = due e le t"
  by (induction le) auto

lemma timer_insert_sound:
  "timer_insert ts t le = (ts', le') \<Longrightarrow> t \<notin> set le \<Longrightarrow> distinct le \<Longrightarrow>
     due (expiry ts') le' t = expires (ts t) \<and> distinct le' \<and> set le' = insert t (set le) \<and>
     (\<forall>x \<in> set le. due (expiry ts') le' x = due (expiry ts) le x) \<and>
     (\<forall>x. x \<notin> set le' \<longrightarrow> ts' x = ts x) \<and> (\<forall>x. timer_proc (ts' x) = timer_proc (ts x)) \<and>
     (le \<noteq> [] \<and> hd le' \<noteq> t \<longrightarrow> hd le' = hd le \<and> expires (ts' (hd le)) = expires (ts (hd le)))"
proof (induction ts t le arbitrary: ts' le' rule: timer_insert.induct)
  case (1 ts t)
  then show ?case by auto
next
  case (2 ts t n le)
  show ?case
  proof (cases "expires (ts t) < expires (ts n)")
    case True
    then have e: "ts' = ts(n := (ts n)\<lparr>expires := expires (ts n) - expires (ts t)\<rparr>)" "le' = t # n # le"
      using "2.prems"(1) by simp_all
    have d: "due (expiry ts') le x = due (expiry ts) le x" for x
      by (rule due_cong) (use "2.prems" e in auto)
    show ?thesis using "2.prems" True d by (auto simp: e)
  next
    case False
    let ?ts = "ts(t := (ts t)\<lparr>expires := expires (ts t) - expires (ts n)\<rparr>)"
    obtain ts1 le1 where r: "timer_insert ?ts t le = (ts1, le1)" by fastforce
    have IH: "due (expiry ts1) le1 t = expires (?ts t) \<and> distinct le1 \<and> set le1 = insert t (set le) \<and>
     (\<forall>x \<in> set le. due (expiry ts1) le1 x = due (expiry ?ts) le x) \<and>
     (\<forall>x. x \<notin> set le1 \<longrightarrow> ts1 x = ?ts x) \<and> (\<forall>x. timer_proc (ts1 x) = timer_proc (?ts x))"
      using "2.IH" [OF False r] "2.prems" by auto
    have e: "ts' = ts1" "le' = n # le1" using "2.prems"(1) r False by simp_all
    have n: "n \<noteq> t" "n \<notin> set le1" using "2.prems" IH by auto
    have tn: "ts1 n = ts n" using IH n by simp
    have d: "due (expiry ?ts) le x = due (expiry ts) le x" for x
      by (rule due_cong) (use "2.prems" in auto)
    show ?thesis using IH n tn d "2.prems" False by (auto simp: e)
  qed
qed

lemma next_timer_in: "next_timer t le = Some n \<Longrightarrow> n \<in> set (tl le)"
  by (induction t le rule: next_timer.induct) (auto split: if_splits dest: list.set_sel(2))

lemma due_remove:
  "distinct le \<Longrightarrow> t \<in> set le \<Longrightarrow> x \<in> set le - {t} \<Longrightarrow>
     e' = (case next_timer t le of None \<Rightarrow> e | Some n \<Rightarrow> e(n := e n + e t)) \<Longrightarrow>
     due e' (remove1 t le) x = due e le x"
proof (induction t le arbitrary: e' rule: next_timer.induct)
  case (3 t y z le)
  show ?case
  proof (cases "y = t")
    case True
    then have e': "e' = e(z := e z + e t)" using "3.prems"(4) by (simp add: fun_upd_def)
    have "due e' le x = due e le x" by (rule due_cong) (use "3.prems" e' in auto)
    then have "due e' (z # le) x = (if z = x then e z + e t else e z + e t + due e le x)" using e' by simp
    then show ?thesis using True "3.prems"(1,3) by auto
  next
    case False
    have "e' y = e y" using "3.prems" False next_timer_in [of t "z # le"] by (auto split: option.splits)
    moreover have "due e' (remove1 t (z # le)) x = due e (z # le) x" if "y \<noteq> x"
      using "3.IH" [OF False, of e'] "3.prems" False that by simp
    ultimately show ?thesis using False by (cases "y = x") simp_all
  qed
qed auto

definition merged_expiry :: "nat \<Rightarrow> 'a kstate_scheme \<Rightarrow> nat \<Rightarrow> timer" where
  "merged_expiry t s = (if t \<in> set (timer_list s) then
     (case next_timer t (timer_list s) of
        None \<Rightarrow> timers s
      | Some n \<Rightarrow> (timers s)(n := (timers s n)\<lparr>expires := expires (timers s n) + expires (timers s t)\<rparr>))
     else timers s)"

lemma del_timer_eq: "del_timer t s = s\<lparr>timers := merged_expiry t s, timer_list := remove1 t (timer_list s)\<rparr>"
proof -
  obtain fl b where fb: "intr_save (sie s) = (fl, b)" by fastforce
  have "intr_restore fl b = sie s" using fb by simp
  then show ?thesis using fb
    by (auto simp: del_timer_def merged_expiry_def Let_def remove1_idem split: option.split)
qed

lemma del_timer_sel [simp]:
  "timer_list (del_timer t s) = remove1 t (timer_list s)" "procs (del_timer t s) = procs s" "rq (del_timer t s) = rq s"
  "cls (del_timer t s) = cls s" "current (del_timer t s) = current s" "idleproc (del_timer t s) = idleproc s"
  "sie (del_timer t s) = sie s" "timers (del_timer t s) = merged_expiry t s"
  by (simp_all add: del_timer_eq)

lemma merged_zero: "expires (timers s t) = 0 \<Longrightarrow> merged_expiry t s = timers s"
  by (auto simp: merged_expiry_def split: option.split)

lemma del_timer_sound:
  assumes "distinct (timer_list s)" "x \<in> set (timer_list s) - {t}"
  shows "due (expiry (timers (del_timer t s))) (timer_list (del_timer t s)) x = due (expiry (timers s)) (timer_list s) x"
proof (cases "t \<in> set (timer_list s)")
  case True
  let ?e = "expiry (timers s)"
  have e: "expiry (merged_expiry t s) = (case next_timer t (timer_list s) of None \<Rightarrow> ?e | Some n \<Rightarrow> ?e(n := ?e n + ?e t))"
    unfolding merged_expiry_def by (cases "next_timer t (timer_list s)") (use True in auto)
  show ?thesis using due_remove [OF assms(1) True assms(2) e] by simp
next
  case False
  then show ?thesis by (simp add: merged_expiry_def remove1_idem)
qed

text \<open>Dropping the expired front of the list.\<close>

lemma due_drop:
  "due e (dropWhile (\<lambda>x. e x = 0) le) x = due e le x \<or> e x = 0"
  by (induction le) auto

lemma set_dropWhile_due:
  "distinct le \<Longrightarrow> set (dropWhile (\<lambda>x. e x = 0) le) = {x \<in> set le. due e le x > 0}"
proof (induction le)
  case (Cons y le)
  show ?case
  proof (cases "e y = 0")
    case True
    then have "{x \<in> set (y # le). due e (y # le) x > 0} = {x \<in> set le. due e le x > 0}"
      using Cons.prems by (intro Collect_cong) (simp, metis less_irrefl)
    then show ?thesis using Cons.IH Cons.prems True by simp
  next
    case False
    then have "due e (y # le) x > 0" for x by (cases "x = y") simp_all
    then have "{x \<in> set (y # le). due e (y # le) x > 0} = set (y # le)" by blast
    then show ?thesis using False by simp
  qed
qed simp

text \<open>What the loop relies on for the process of an expired timer.\<close>

definition wakeable :: "'a kstate_scheme \<Rightarrow> nat set \<Rightarrow> nat \<Rightarrow> bool" where
  "wakeable s P p \<longleftrightarrow> p \<in> P \<and> state (procs s p) \<noteq> PROC_ZOMBIE \<and>
     (wait_state (procs s p) \<noteq> 0 \<longrightarrow> wait_state (procs s p) AND WT_INTERRUPTED \<noteq> 0)"

context sched_policy
begin

text \<open>The loop of \<^verbatim>\<open>run_timer_list\<close>: it wakes the processes of the expired timers at the front of the
  list and drops them.\<close>

lemma run_expired_sound:
  "rq_exact c inv s P \<Longrightarrow> timer_list s = t # le \<Longrightarrow> distinct (t # le) \<Longrightarrow>
   \<forall>x \<in> set (t # le). wakeable s P (timer_proc (timers s x)) \<Longrightarrow>
   \<exists>s'. run_expired le t s = Some s' \<and> rq_exact c inv s' P \<and> timers s' = timers s \<and> sie s' = sie s \<and>
     current s' = current s \<and> timer_list s' = dropWhile (\<lambda>x. expires (timers s x) = 0) (t # le) \<and>
     (\<forall>p. state (procs s' p) = (if \<exists>x \<in> set (takeWhile (\<lambda>x. expires (timers s x) = 0) (t # le)). timer_proc (timers s x) = p
        then PROC_RUNNABLE else state (procs s p)))"
proof (induction le t s rule: run_expired.induct)
  case (1 le t s)
  let ?p = "timer_proc (timers s t)"
  show ?case
  proof (cases "expires (timers s t) = 0")
    case False
    then have "run_expired le t s = Some s" by (subst run_expired.simps) simp
    then show ?thesis using "1.prems" False by simp
  next
    case True
    have w: "wakeable s P ?p" using "1.prems"(4) by simp
    obtain s1 where s1: "wakeup_proc ?p s = Some s1" "rq_exact c inv s1 P" "state (procs s1 ?p) = PROC_RUNNABLE"
      "\<forall>x. x \<noteq> ?p \<longrightarrow> procs s1 x = procs s x" "current s1 = current s" "idleproc s1 = idleproc s"
      "cls s1 = cls s" "timer_list s1 = timer_list s" "timers s1 = timers s" "sie s1 = sie s"
      "wait_state (procs s1 ?p) = 0 \<or> wait_state (procs s1 ?p) = wait_state (procs s ?p)"
      using wakeup_exact [OF "1.prems"(1), of ?p] w unfolding wakeable_def by blast
    let ?s2 = "del_timer t s1"
    have z: "expires (timers s1 t) = 0" using True s1(9) by simp
    have tl2: "timer_list ?s2 = le" "timers ?s2 = timers s" using "1.prems"(2) s1(8,9) merged_zero [OF z] by simp_all
    have e2: "rq_exact c inv ?s2 P" using s1(2) by (simp add: rq_exact_def waiting_to_run_def)
    have run: "run_expired le t s = (case le of [] \<Rightarrow> Some ?s2 | t' # le' \<Rightarrow> run_expired le' t' ?s2)"
      using True w s1(1) by (subst run_expired.simps) (simp add: wakeable_def Let_def)
    have wk: "wakeable ?s2 P (timer_proc (timers ?s2 x))" if "x \<in> set le" for x
    proof -
      have "wakeable s P (timer_proc (timers s x))" using "1.prems"(4) that by simp
      then show ?thesis using s1(3,4,11) tl2(2)
        by (cases "timer_proc (timers s x) = ?p") (auto simp: wakeable_def)
    qed
    show ?thesis
    proof (cases le)
      case Nil
      then show ?thesis using run True e2 tl2 s1(3,4,5,10) by simp
    next
      case (Cons t' le')
      have "\<exists>s'. run_expired le' t' ?s2 = Some s' \<and> rq_exact c inv s' P \<and> timers s' = timers ?s2 \<and> sie s' = sie ?s2 \<and>
       current s' = current ?s2 \<and> timer_list s' = dropWhile (\<lambda>x. expires (timers ?s2 x) = 0) (t' # le') \<and>
       (\<forall>p. state (procs s' p) = (if \<exists>x \<in> set (takeWhile (\<lambda>x. expires (timers ?s2 x) = 0) (t' # le')). timer_proc (timers ?s2 x) = p
          then PROC_RUNNABLE else state (procs ?s2 p)))"
        using "1.IH" [OF True refl _ s1(1) refl Cons] w e2 tl2(1) "1.prems"(3) wk Cons by (auto simp: wakeable_def)
      then show ?thesis using run True Cons tl2 s1(3,4,5,10) by auto
    qed
  qed
qed

end

definition timers_ok :: "'a kstate_scheme \<Rightarrow> bool" where
  "timers_ok s \<longleftrightarrow> distinct (timer_list s) \<and> (\<forall>t le. timer_list s = t # le \<longrightarrow> expires (timers s t) > 0)"

lemma drop_take_zero:
  "distinct le \<Longrightarrow> set (takeWhile (\<lambda>x. e x = 0) le) = {x \<in> set le. due e le x = 0}"
  "distinct le \<Longrightarrow> x \<in> set (dropWhile (\<lambda>x. e x = 0) le) \<Longrightarrow> due e (dropWhile (\<lambda>x. e x = 0) le) x = due e le x"
proof -
  assume d: "distinct le"
  have "set le = set (takeWhile (\<lambda>x. e x = 0) le) \<union> set (dropWhile (\<lambda>x. e x = 0) le)"
    by (metis set_append takeWhile_dropWhile_id)
  moreover have "set (takeWhile (\<lambda>x. e x = 0) le) \<inter> set (dropWhile (\<lambda>x. e x = 0) le) = {}"
    using d by (metis distinct_append takeWhile_dropWhile_id)
  ultimately have "set (takeWhile (\<lambda>x. e x = 0) le) = set le - set (dropWhile (\<lambda>x. e x = 0) le)" by blast
  moreover have "set le - {x \<in> set le. due e le x > 0} = {x \<in> set le. due e le x = 0}" by auto
  ultimately show "set (takeWhile (\<lambda>x. e x = 0) le) = {x \<in> set le. due e le x = 0}"
    by (simp only: set_dropWhile_due [OF d])
next
  assume d: "distinct le"
  assume "x \<in> set (dropWhile (\<lambda>x. e x = 0) le)"
  then show "due e (dropWhile (\<lambda>x. e x = 0) le) x = due e le x"
    using d by (induction le) (auto split: if_splits dest: set_dropWhileD)
qed

context sched_policy
begin

lemma tick_exact:
  assumes "rq_exact c inv s P"
  shows "rq_exact c inv (sched_class_proc_tick (current s) s) P"
    and "state (procs (sched_class_proc_tick (current s) s) p) = state (procs s p)"
    and "timers (sched_class_proc_tick (current s) s) = timers s"
    "timer_list (sched_class_proc_tick (current s) s) = timer_list s"
    "sie (sched_class_proc_tick (current s) s) = sie s"
proof -
  let ?v = "if current s \<noteq> idleproc s then sc_proc_tick (cls s) (procs s (current s))
    else (procs s (current s))\<lparr>need_resched := True\<rparr>"
  have eq: "sched_class_proc_tick (current s) s = s\<lparr>procs := (procs s)(current s := ?v)\<rparr>"
    by (simp add: sched_class_proc_tick_def upd_proc_def)
  have st: "state ?v = state (procs s (current s))"
    using same_task_fields(1) [OF tick_frame [of "procs s (current s)"]] assms by (simp add: rq_exact_def)
  then show 2: "state (procs (sched_class_proc_tick (current s) s) p) = state (procs s p)" for p
    unfolding eq by simp
  have "waiting_to_run (sched_class_proc_tick (current s) s) P = waiting_to_run s P"
    using 2 unfolding waiting_to_run_def by (simp add: eq)
  moreover have "current s \<notin> waiting_to_run s P" by (simp add: waiting_to_run_def)
  then have "inv (rq s, (procs s)(current s := ?v)) (waiting_to_run s P)"
    using assms inv_upd by (simp add: rq_exact_def)
  ultimately show "rq_exact c inv (sched_class_proc_tick (current s) s) P"
    using assms 2 by (simp add: rq_exact_def) (simp add: eq)
qed (simp_all add: sched_class_proc_tick_def)

lemma run_timer_list_sound:
  assumes e: "rq_exact c inv s P" and ok: "timers_ok s"
    and w: "\<forall>t \<in> set (timer_list s). wakeable s P (timer_proc (timers s t))"
  defines "d \<equiv> due (expiry (timers s)) (timer_list s)"
  shows "\<exists>s'. run_timer_list s = Some s' \<and> rq_exact c inv s' P \<and> timers_ok s' \<and> sie s' = sie s \<and>
    set (timer_list s') = {t \<in> set (timer_list s). d t > 1} \<and>
    (\<forall>t \<in> set (timer_list s'). due (expiry (timers s')) (timer_list s') t = d t - 1) \<and>
    (\<forall>p. state (procs s' p) = (if \<exists>t \<in> set (timer_list s). d t = 1 \<and> timer_proc (timers s t) = p
       then PROC_RUNNABLE else state (procs s p)))"
proof -
  obtain fl b where fb: "intr_save (sie s) = (fl, b)" by fastforce
  have re: "intr_restore fl b = sie s" using fb by simp
  show ?thesis
  proof (cases "timer_list s")
    case Nil
    let ?s = "s\<lparr>sie := b\<rparr>"
    have e0: "rq_exact c inv ?s P" using e by (simp add: rq_exact_def waiting_to_run_def)
    let ?t = "sched_class_proc_tick (current s) ?s"
    have "run_timer_list s = Some (?t\<lparr>sie := sie s\<rparr>)"
      using Nil fb re tick_exact(5) [OF e0] by (simp add: run_timer_list_def Let_def)
    moreover have "rq_exact c inv (?t\<lparr>sie := sie s\<rparr>) P"
      using tick_exact(1) [OF e0] by (simp add: rq_exact_def waiting_to_run_def)
    ultimately show ?thesis using Nil tick_exact(2-4) [OF e0] by (simp add: timers_ok_def)
  next
    case (Cons t le)
    define ts where "ts = (timers s)(t := (timers s t)\<lparr>expires := expires (timers s t) - 1\<rparr>)"
    let ?s1 = "s\<lparr>sie := b, timers := ts\<rparr>"
    have dis: "distinct (t # le)" and pos: "expires (timers s t) > 0" using ok Cons by (auto simp: timers_ok_def)
    have e1: "rq_exact c inv ?s1 P" using e by (simp add: rq_exact_def waiting_to_run_def)
    have tp: "timer_proc (ts x) = timer_proc (timers s x)" for x by (simp add: ts_def)
    have w1: "\<forall>x \<in> set (t # le). wakeable ?s1 P (timer_proc (timers ?s1 x))"
      using w Cons by (simp add: wakeable_def tp)
    have tl1: "timer_list ?s1 = t # le" using Cons by simp
    obtain s2 where s2: "run_expired le t ?s1 = Some s2" "rq_exact c inv s2 P" "timers s2 = ts" "sie s2 = b"
      "timer_list s2 = dropWhile (\<lambda>x. expiry ts x = 0) (t # le)"
      "\<forall>p. state (procs s2 p) = (if \<exists>x \<in> set (takeWhile (\<lambda>x. expiry ts x = 0) (t # le)). timer_proc (ts x) = p
        then PROC_RUNNABLE else state (procs s p))"
    proof -
      have "timers ?s1 = ts" "sie ?s1 = b" "procs ?s1 = procs s" by simp_all
      from run_expired_sound [OF e1 tl1 dis w1, unfolded this] show ?thesis using that by blast
    qed
    have du: "due (expiry ts) (t # le) x = d x - 1" for x
      using due_cong [of le "expiry ts" "expiry (timers s)" x] dis pos by (auto simp: d_def Cons ts_def)
    have dp: "d x \<noteq> 0" for x using pos by (auto simp: d_def Cons)
    have dp1: "d x - 1 = 0 \<longleftrightarrow> d x = 1" for x using dp [of x] by arith
    let ?t = "sched_class_proc_tick (current s2) s2"
    have run: "run_timer_list s = Some (?t\<lparr>sie := sie s\<rparr>)"
      using Cons fb re pos s2(1,4) tick_exact(5) [OF s2(2)] by (simp add: run_timer_list_def Let_def ts_def)
    have tl: "timer_list ?t = dropWhile (\<lambda>x. expiry ts x = 0) (t # le)" "timers ?t = ts"
      using tick_exact(3,4) [OF s2(2)] s2(3,5) by simp_all
    have set': "set (timer_list ?t) = {x \<in> set (timer_list s). d x > 1}"
      unfolding tl set_dropWhile_due [OF dis, of "expiry ts"] du Cons by auto
    moreover have "due (expiry (timers ?t)) (timer_list ?t) x = d x - 1" if "x \<in> set (timer_list ?t)" for x
      using drop_take_zero(2) [OF dis, of x "expiry ts"] that unfolding tl du by simp
    moreover have "expiry ts x > 0" if "dropWhile (\<lambda>x. expiry ts x = 0) (t # le) = x # xs" for x xs
      using hd_dropWhile [of "\<lambda>x. expiry ts x = 0" "t # le"] that by (metis gr0I list.sel(1) list.distinct(1))
    then have "timers_ok (?t\<lparr>sie := sie s\<rparr>)"
      using distinct_dropWhile [OF dis] unfolding timers_ok_def by (simp add: tl del: dropWhile.simps)
    moreover have "state (procs ?t p) = (if \<exists>x \<in> set (timer_list s). d x = 1 \<and> timer_proc (timers s x) = p
       then PROC_RUNNABLE else state (procs s p))" for p
    proof -
      have "(\<exists>x \<in> set (takeWhile (\<lambda>x. expiry ts x = 0) (t # le)). timer_proc (ts x) = p) \<longleftrightarrow>
          (\<exists>x \<in> set (timer_list s). d x = 1 \<and> timer_proc (timers s x) = p)"
        unfolding drop_take_zero(1) [OF dis, of "expiry ts"] du Cons tp dp1
        by auto
      then show ?thesis using tick_exact(2) [OF s2(2)] s2(6) by metis
    qed
    moreover have "rq_exact c inv (?t\<lparr>sie := sie s\<rparr>) P"
      using tick_exact(1) [OF s2(2)] by (simp add: rq_exact_def waiting_to_run_def)
    ultimately show ?thesis using run by simp
  qed
qed

end

section \<open>Properties\<close>


definition kernel0 :: kstate where
  "kernel0 = sched_init \<lparr>procs = (\<lambda>_. proc0\<lparr>lab6_priority := 1\<rparr>)(0 := proc0\<lparr>state := PROC_RUNNABLE, lab6_priority := 1\<rparr>),
     rq = queue0, cls = stride_sched_class, current = 0, idleproc = 0, initproc = 1, sie = True,
     timers = (\<lambda>_. \<lparr>expires = 1, timer_proc = 1\<rparr>), timer_list = []\<rparr>"

lemma kernel0_exact: "rq_exact stride_sched_class stride_inv kernel0 {0, 1, 2}"
proof -
  have "waiting_to_run kernel0 {0, 1, 2} = {}"
    by (auto simp: waiting_to_run_def kernel0_def sched_init_def Let_def proc0_def)
  moreover have "stride_inv (rq kernel0, procs kernel0) {}"
    by (auto simp: kernel0_def sched_init_def Let_def stride_inv_def stride_sched_class_def stride_init_def queue0_def
        intro!: exI [of _ "\<langle>\<rangle>"])
  ultimately show ?thesis by (simp add: rq_exact_def) (simp add: kernel0_def sched_init_def Let_def)
qed

lemma kernel0_sel [simp]:
  "state (procs kernel0 p) = (if p = 0 then PROC_RUNNABLE else PROC_UNINIT)" "lab6_priority (procs kernel0 p) = 1"
  "wait_state (procs kernel0 p) = 0" "current kernel0 = 0" "idleproc kernel0 = 0" "timer_list kernel0 = []"
  "expires (timers kernel0 t) = 1" "timer_proc (timers kernel0 t) = 1"
  by (simp_all add: kernel0_def sched_init_def Let_def proc0_def)


text \<open>\<^verbatim>\<open>wakeup_proc\<close> makes a process that is not a zombie runnable, clears its wait state unless it
  was runnable already, keeps the run queue exact (the process is enqueued once, and not at all when it
  is the current one) and touches no other process.\<close>

theorem wakeup_makes_runnable:
  assumes "rq_exact stride_sched_class stride_inv s P" and "p \<in> P" and "state (procs s p) \<noteq> PROC_ZOMBIE"
  shows "\<exists>s'. wakeup_proc p s = Some s' \<and> rq_exact stride_sched_class stride_inv s' P \<and>
    state (procs s' p) = PROC_RUNNABLE \<and> (\<forall>x. x \<noteq> p \<longrightarrow> procs s' x = procs s x) \<and>
    current s' = current s \<and> timer_list s' = timer_list s \<and> sie s' = sie s"
  using stride.wakeup_exact [OF assms] by blast

lemma wakeup_makes_runnable_witness: "\<exists>s'. wakeup_proc 2 kernel0 = Some s' \<and> state (procs s' 2) = PROC_RUNNABLE"
  using wakeup_makes_runnable [OF kernel0_exact, of 2] by auto

text \<open>\<^verbatim>\<open>add_timer\<close> puts the timer at its place in the relative list: it is due after the time asked
  for, and no other timer is moved.\<close>

theorem add_timer_due:
  assumes "timers_ok s" and "expires (timers s t) > 0" and "t \<notin> set (timer_list s)"
  shows "\<exists>s'. add_timer t s = Some s' \<and> timers_ok s' \<and> set (timer_list s') = insert t (set (timer_list s)) \<and>
    due (expiry (timers s')) (timer_list s') t = expires (timers s t) \<and>
    (\<forall>x \<in> set (timer_list s). due (expiry (timers s')) (timer_list s') x = due (expiry (timers s)) (timer_list s) x)"
proof -
  obtain ts le where i: "timer_insert (timers s) t (timer_list s) = (ts, le)" by fastforce
  obtain fl b where fb: "intr_save (sie s) = (fl, b)" by fastforce
  have S: "due (expiry ts) le t = expires (timers s t)" "distinct le" "set le = insert t (set (timer_list s))"
    "\<forall>x \<in> set (timer_list s). due (expiry ts) le x = due (expiry (timers s)) (timer_list s) x"
    "timer_list s \<noteq> [] \<and> hd le \<noteq> t \<longrightarrow> hd le = hd (timer_list s) \<and>
      expires (ts (hd (timer_list s))) = expires (timers s (hd (timer_list s)))"
    using timer_insert_sound [OF i assms(3)] assms(1) by (auto simp: timers_ok_def)
  have "expires (ts x) > 0" if le: "le = x # xs" for x xs
  proof (cases "x = t")
    case True
    then show ?thesis using S(1) le assms(2) by simp
  next
    case False
    then have "timer_list s \<noteq> []" using S(3) le by auto
    then obtain y ys where y: "timer_list s = y # ys" by (cases "timer_list s") auto
    then have "expires (timers s y) > 0" using assms(1) by (simp add: timers_ok_def)
    then show ?thesis using S(5) False le y by simp
  qed
  then have "timers_ok (s\<lparr>timers := ts, timer_list := le, sie := intr_restore fl b\<rparr>)"
    using S(2) by (simp add: timers_ok_def)
  moreover have "add_timer t s = Some (s\<lparr>timers := ts, timer_list := le, sie := intr_restore fl b\<rparr>)"
    using i fb assms(2,3) by (simp add: add_timer_def)
  ultimately show ?thesis using S by simp
qed

lemma add_timer_due_witness: "\<exists>s'. add_timer 5 kernel0 = Some s' \<and> due (expiry (timers s')) (timer_list s') 5 = 1"
  using add_timer_due [of kernel0 5] by (auto simp: timers_ok_def)

text \<open>C31. A tick of \<^verbatim>\<open>run_timer_list\<close>: exactly the timers that are due in one tick leave the list and their
  processes become runnable, every other timer comes one tick closer, the run queue stays exact and
  the head of the list is again in the future.\<close>

theorem timer_tick:
  assumes "rq_exact stride_sched_class stride_inv s P" and "timers_ok s"
    and "\<forall>t \<in> set (timer_list s). wakeable s P (timer_proc (timers s t))"
  shows "\<exists>s'. run_timer_list s = Some s' \<and> rq_exact stride_sched_class stride_inv s' P \<and> timers_ok s' \<and>
    set (timer_list s') = {t \<in> set (timer_list s). due (expiry (timers s)) (timer_list s) t > 1} \<and>
    (\<forall>t \<in> set (timer_list s'). due (expiry (timers s')) (timer_list s') t = due (expiry (timers s)) (timer_list s) t - 1) \<and>
    (\<forall>p. state (procs s' p) =
       (if \<exists>t \<in> set (timer_list s). due (expiry (timers s)) (timer_list s) t = 1 \<and> timer_proc (timers s t) = p
        then PROC_RUNNABLE else state (procs s p)))"
  using stride.run_timer_list_sound [OF assms] by blast

lemma timer_tick_witness:
  "\<exists>s'. run_timer_list (kernel0\<lparr>timer_list := [5]\<rparr>) = Some s' \<and> timer_list s' = [] \<and>
     state (procs s' 1) = PROC_RUNNABLE"
proof -
  let ?s = "kernel0\<lparr>timer_list := [5]\<rparr>"
  have "rq_exact stride_sched_class stride_inv ?s {0, 1, 2}"
    using kernel0_exact by (simp add: rq_exact_def waiting_to_run_def)
  moreover have "timers_ok ?s" "\<forall>t \<in> set (timer_list ?s). wakeable ?s {0, 1, 2} (timer_proc (timers ?s t))"
    by (simp_all add: timers_ok_def wakeable_def)
  ultimately obtain s' where s': "run_timer_list ?s = Some s'" "state (procs s' 1) = PROC_RUNNABLE"
    "set (timer_list s') = {t \<in> set (timer_list ?s). due (expiry (timers ?s)) (timer_list ?s) t > 1}"
    using timer_tick [of ?s "{0, 1, 2}"] by auto
  have "set (timer_list s') = {}" unfolding s'(3) by simp
  then show ?thesis using s'(1,2) by simp
qed

end
