(* ===== verification/ProcTable.thy ===== *)
theory ProcTable
  imports Sched
begin

text \<open>
  The process table of \<^verbatim>\<open>kern/process/proc.c\<close>: the allocation of process identifiers, the hash table by
  pid (with \<^verbatim>\<open>libs/hash.c\<close>), the list of all processes and the family links. The idle process is in
  none of them. Lists are HOL lists; \<^verbatim>\<open>list_add\<close> puts an entry at the front.
\<close>

section \<open>State\<close>

abbreviation (input) MAX_PROCESS :: int where "MAX_PROCESS \<equiv> 4096"
abbreviation (input) MAX_PID :: int where "MAX_PID \<equiv> 8192"

record ptable = kstate +
  proc_list :: "nat list"
  hash_list :: "u32 \<Rightarrow> nat list"
  nr_process :: int
  next_safe :: int
  last_pid :: int

lemma upd_proc_ptable [simp]:
  "proc_list (upd_proc p f s) = proc_list s" "hash_list (upd_proc p f s) = hash_list s"
  "nr_process (upd_proc p f s) = nr_process s" "next_safe (upd_proc p f s) = next_safe s"
  "last_pid (upd_proc p f s) = last_pid s"
  by (simp_all add: upd_proc_def)

section \<open>Process identifiers\<close>

text \<open>The loop of \<^verbatim>\<open>get_pid\<close> from \<^verbatim>\<open>repeat\<close>: \<open>all\<close> are the pids in the order of \<^verbatim>\<open>proc_list\<close>, \<open>rest\<close>
  those still to be looked at.\<close>

partial_function (option) pid_scan :: "int list \<Rightarrow> int list \<Rightarrow> int \<Rightarrow> int \<Rightarrow> (int \<times> int) option" where
  "pid_scan all rest lst safe =
     (case rest of
        [] \<Rightarrow> Some (lst, safe)
      | p # rest' \<Rightarrow>
          if p = lst then
            if lst + 1 \<ge> safe then pid_scan all all (if lst + 1 \<ge> MAX_PID then 1 else lst + 1) MAX_PID
            else pid_scan all rest' (lst + 1) safe
          else if p > lst \<and> safe > p then pid_scan all rest' lst p
          else pid_scan all rest' lst safe)"

declare pid_scan.simps [code]

definition get_pid :: "'a ptable_scheme \<Rightarrow> (int \<times> 'a ptable_scheme) option" where
  "get_pid s = do {
     let pids = map (\<lambda>p. pid (procs s p)) (proc_list s);
     let l = last_pid s + 1;
     (l', safe) \<leftarrow>
       (if l \<ge> MAX_PID then pid_scan pids pids 1 MAX_PID
        else if l \<ge> next_safe s then pid_scan pids pids l MAX_PID
        else Some (l, next_safe s));
     Some (l', s\<lparr>last_pid := l', next_safe := safe\<rparr>)
   }"

text \<open>\<open>gap pids lst safe\<close>: no pid in use lies strictly between \<open>lst\<close> and \<open>safe\<close>.\<close>

definition gap :: "int set \<Rightarrow> int \<Rightarrow> int \<Rightarrow> bool" where
  "gap P lst safe \<longleftrightarrow> (\<forall>p \<in> P. \<not> (lst < p \<and> p < safe))"

text \<open>What the scan returns: a pid that is not in use, with a gap up to \<^verbatim>\<open>next_safe\<close>.\<close>

definition pid_ok :: "int set \<Rightarrow> int \<times> int \<Rightarrow> bool" where
  "pid_ok P r \<longleftrightarrow> fst r \<notin> P \<and> 1 \<le> fst r \<and> fst r < MAX_PID \<and> gap P (fst r) (snd r)"

text \<open>The scan ends because a free pid \<open>f\<close> is never passed: the cyclic distance to it shrinks whenever
  \<open>lst\<close> moves.\<close>

definition pid_dist :: "int \<Rightarrow> int \<Rightarrow> nat" where
  "pid_dist lst f = nat (if lst \<le> f then f - lst else MAX_PID - 1 - lst + f)"

lemma pid_dist_next:
  assumes "1 \<le> lst" "lst < MAX_PID" "1 \<le> f" "f < MAX_PID" "lst \<noteq> f"
  shows "pid_dist (if lst + 1 \<ge> MAX_PID then 1 else lst + 1) f < pid_dist lst f"
  using assms by (auto simp: pid_dist_def)

lemma pid_scan_total:
  assumes f: "f \<notin> set all" "1 \<le> f" "f < MAX_PID"
  shows "1 \<le> lst \<Longrightarrow> lst < safe \<Longrightarrow> safe \<le> MAX_PID \<Longrightarrow> set all = set seen \<union> set rest \<Longrightarrow>
     \<forall>p \<in> set seen. \<not> (lst \<le> p \<and> p < safe) \<Longrightarrow>
     \<exists>r. pid_scan all rest lst safe = Some r \<and> pid_ok (set all) r"
proof (induction "(pid_dist lst f, length rest)" arbitrary: lst safe rest seen
    rule: wf_induct_rule [OF wf_lex_prod [OF wf_less wf_less]])
  case (1 lst rest safe dn)
  show ?case
  proof (cases rest)
    case Nil
    then have "pid_scan all rest lst safe = Some (lst, safe)" by (subst pid_scan.simps) simp
    moreover have "pid_ok (set all) (lst, safe)" using 1 Nil by (auto simp: pid_ok_def gap_def)
    ultimately show ?thesis by blast
  next
    case (Cons p rest')
    show ?thesis
    proof (cases "p = lst")
      case True
      have p: "p \<in> set all" using 1 Cons by simp
      then have nf: "lst \<noteq> f" using True f(1) by auto
      note D = pid_dist_next [OF 1(2) _ f(2,3) nf]
      show ?thesis
      proof (cases "lst + 1 \<ge> safe")
        case re: True
        let ?l = "if lst + 1 \<ge> MAX_PID then 1 else lst + 1"
        have "\<exists>r. pid_scan all all ?l MAX_PID = Some r \<and> pid_ok (set all) r"
          by (rule 1(1) [of ?l all MAX_PID "[]"]) (use D 1 in auto)
        then show ?thesis using True Cons re by (subst pid_scan.simps) simp
      next
        case False
        have "\<exists>r. pid_scan all rest' (lst + 1) safe = Some r \<and> pid_ok (set all) r"
          by (rule 1(1) [of "lst + 1" rest' safe "p # dn"]) (use D 1 True False Cons in auto)
        then show ?thesis using True Cons False by (subst pid_scan.simps) simp
      qed
    next
      case False
      show ?thesis
      proof (cases "p > lst \<and> safe > p")
        case True
        have "\<exists>r. pid_scan all rest' lst p = Some r \<and> pid_ok (set all) r"
          by (rule 1(1) [of lst rest' p "p # dn"]) (use 1 True Cons in auto)
        then show ?thesis using True Cons False by (subst pid_scan.simps) simp
      next
        case no: False
        have "\<exists>r. pid_scan all rest' lst safe = Some r \<and> pid_ok (set all) r"
          by (rule 1(1) [of lst rest' safe "p # dn"]) (use 1 no False Cons in auto)
        moreover have "pid_scan all rest lst safe = pid_scan all rest' lst safe"
          using no Cons False by (subst pid_scan.simps) auto
        ultimately show ?thesis by simp
      qed
    qed
  qed
qed

lemma free_pid_exists:
  assumes "length xs < 8191" shows "\<exists>f. f \<notin> set xs \<and> 1 \<le> f \<and> f < MAX_PID"
proof (rule ccontr)
  assume "\<not> ?thesis"
  then have "{1..<MAX_PID} \<subseteq> set xs" by auto
  then have "card {1..<MAX_PID} \<le> card (set xs)" by (rule card_mono [rotated]) simp
  moreover have "card (set xs) \<le> length xs" by (rule card_length)
  ultimately show False using assms by simp
qed

lemma get_pid_fresh:
  assumes len: "length (proc_list s) < 8191" and g: "gap P (last_pid s) (next_safe s)"
    and l: "0 \<le> last_pid s" and P: "P = pid ` procs s ` set (proc_list s)"
  shows "\<exists>r safe. get_pid s = Some (r, s\<lparr>last_pid := r, next_safe := safe\<rparr>) \<and> pid_ok P (r, safe)"
proof -
  let ?pids = "map (\<lambda>p. pid (procs s p)) (proc_list s)"
  have P': "P = set ?pids" by (simp add: P image_image)
  obtain f where f: "f \<notin> set ?pids" "1 \<le> f" "f < MAX_PID" using free_pid_exists [of ?pids] len by auto
  have scan: "\<exists>r. pid_scan ?pids ?pids x MAX_PID = Some r \<and> pid_ok (set ?pids) r" if "1 \<le> x" "x < MAX_PID" for x
    by (rule pid_scan_total [OF f, where seen = "[]"]) (use that in auto)
  show ?thesis
  proof (cases "last_pid s + 1 \<ge> MAX_PID \<or> last_pid s + 1 \<ge> next_safe s")
    case True
    let ?x = "if last_pid s + 1 \<ge> MAX_PID then 1 else last_pid s + 1"
    have "1 \<le> ?x" "?x < MAX_PID" using l by auto
    then obtain r where r: "pid_scan ?pids ?pids ?x MAX_PID = Some r" "pid_ok P r"
      using scan [of ?x] P' by auto
    obtain a b where ab: "r = (a, b)" by (cases r)
    show ?thesis
    proof (cases "last_pid s + 1 \<ge> MAX_PID")
      case True
      then have "get_pid s = Some (a, s\<lparr>last_pid := a, next_safe := b\<rparr>)"
        using r ab by (simp add: get_pid_def Let_def)
      then show ?thesis using r ab by blast
    next
      case False
      then have "next_safe s \<le> last_pid s + 1" using True by simp
      then have "get_pid s = Some (a, s\<lparr>last_pid := a, next_safe := b\<rparr>)"
        using r ab False by (simp add: get_pid_def Let_def)
      then show ?thesis using r ab by blast
    qed
  next
    case False
    then have "pid_ok P (last_pid s + 1, next_safe s)" using g l by (auto simp: pid_ok_def gap_def)
    moreover have "get_pid s = Some (last_pid s + 1, s\<lparr>last_pid := last_pid s + 1, next_safe := next_safe s\<rparr>)"
      using False by (simp add: get_pid_def Let_def)
    ultimately show ?thesis by blast
  qed
qed

lemma gap_insert: "gap P r safe \<Longrightarrow> gap (insert r P) r safe"
  by (simp add: gap_def)

section \<open>The hash table\<close>

definition pid_hashfn :: "int \<Rightarrow> u32" where
  "pid_hashfn x = hash32 (word_of_int x) 10"

definition hash_proc :: "nat \<Rightarrow> 'a ptable_scheme \<Rightarrow> 'a ptable_scheme" where
  "hash_proc p s = (let h = pid_hashfn (pid (procs s p))
     in s\<lparr>hash_list := (hash_list s)(h := p # hash_list s h)\<rparr>)"

text \<open>\<^verbatim>\<open>list_del(&(proc->hash_link))\<close>: the process leaves the chain it is linked in.\<close>

definition unhash_proc :: "nat \<Rightarrow> 'a ptable_scheme \<Rightarrow> 'a ptable_scheme" where
  "unhash_proc p s = s\<lparr>hash_list := (\<lambda>h. remove1 p (hash_list s h))\<rparr>"

definition find_proc :: "int \<Rightarrow> 'a ptable_scheme \<Rightarrow> nat option" where
  "find_proc i s =
     (if 0 < i \<and> i < MAX_PID then find (\<lambda>p. pid (procs s p) = i) (hash_list s (pid_hashfn i)) else None)"

text \<open>The hash value is an index of the table.\<close>

lemma pid_hashfn_bound: "unat (pid_hashfn i) < 1024"
proof -
  have "unat (pid_hashfn i) = unat (word_of_int i * 0x9e370001 :: u32) div 2 ^ 22"
    by (simp add: pid_hashfn_def hash32_def unat_drop_bit_eq drop_bit_eq_div unat_div)
  also have "\<dots> < 2 ^ 10"
  proof -
    have "unat (word_of_int i * 0x9e370001 :: u32) < 2 ^ LENGTH(32)" by (rule unsigned_less)
    then show ?thesis by (simp add: less_mult_imp_div_less)
  qed
  finally show ?thesis by simp
qed

text \<open>\<open>hash_ok s\<close>: every listed process is in the chain of its pid, once, and no other.\<close>

definition hash_ok :: "'a ptable_scheme \<Rightarrow> bool" where
  "hash_ok s \<longleftrightarrow> (\<forall>h. distinct (hash_list s h) \<and>
     set (hash_list s h) = {p \<in> set (proc_list s). pid_hashfn (pid (procs s p)) = h})"

definition pids_ok :: "'a ptable_scheme \<Rightarrow> bool" where
  "pids_ok s \<longleftrightarrow> distinct (proc_list s) \<and> inj_on (\<lambda>p. pid (procs s p)) (set (proc_list s)) \<and>
     (\<forall>p \<in> set (proc_list s). 1 \<le> pid (procs s p) \<and> pid (procs s p) < MAX_PID) \<and>
     gap (pid ` procs s ` set (proc_list s)) (last_pid s) (next_safe s) \<and> 0 \<le> last_pid s"

lemma pids_ok_cong:
  assumes "pids_ok s" "proc_list s' = proc_list s" "last_pid s' = last_pid s" "next_safe s' = next_safe s"
    and e: "\<forall>x \<in> set (proc_list s). pid (procs s' x) = pid (procs s x)"
  shows "pids_ok s'"
proof -
  have "inj_on (\<lambda>p. pid (procs s' p)) (set (proc_list s)) = inj_on (\<lambda>p. pid (procs s p)) (set (proc_list s))"
    by (rule inj_on_cong) (use e in auto)
  moreover have "pid ` procs s' ` set (proc_list s) = pid ` procs s ` set (proc_list s)"
    unfolding image_image by (rule image_cong) (use e in auto)
  ultimately show ?thesis using assms by (simp add: pids_ok_def)
qed

lemma find_proc_Some:
  assumes "hash_ok s" "pids_ok s"
  shows "find_proc i s = Some p \<longleftrightarrow> p \<in> set (proc_list s) \<and> pid (procs s p) = i"
proof
  assume "find_proc i s = Some p"
  then have "p \<in> set (hash_list s (pid_hashfn i))" "pid (procs s p) = i"
    by (auto simp: find_proc_def find_Some_iff split: if_splits)
  then show "p \<in> set (proc_list s) \<and> pid (procs s p) = i" using assms(1) by (auto simp: hash_ok_def)
next
  assume p: "p \<in> set (proc_list s) \<and> pid (procs s p) = i"
  then have r: "0 < i \<and> i < MAX_PID" using assms(2) by (force simp: pids_ok_def)
  have "p \<in> set (hash_list s (pid_hashfn i))" using p assms(1) by (simp add: hash_ok_def)
  then obtain q where q: "find (\<lambda>p. pid (procs s p) = i) (hash_list s (pid_hashfn i)) = Some q"
    using p by (metis (mono_tags, lifting) find_None_iff option.exhaust)
  then have "q \<in> set (proc_list s)" "pid (procs s q) = i"
    using assms(1) by (auto simp: find_Some_iff hash_ok_def dest: nth_mem)
  then have "q = p" using p assms(2) by (auto simp: pids_ok_def dest: inj_onD)
  then show "find_proc i s = Some p" using q r by (simp add: find_proc_def)
qed

section \<open>Family links\<close>

definition set_links :: "nat \<Rightarrow> 'a ptable_scheme \<Rightarrow> 'a ptable_scheme option" where
  "set_links p s = do {
     let s1 = s\<lparr>proc_list := p # proc_list s\<rparr>;
     let s2 = upd_proc p (\<lambda>x. x\<lparr>yptr := None\<rparr>) s1;
     par \<leftarrow> parent (procs s2 p);
     let o' = cptr (procs s2 par);
     let s3 = upd_proc p (\<lambda>x. x\<lparr>optr := o'\<rparr>) s2;
     let s4 = (case o' of Some q \<Rightarrow> upd_proc q (\<lambda>x. x\<lparr>yptr := Some p\<rparr>) s3 | None \<Rightarrow> s3);
     let s5 = upd_proc par (\<lambda>x. x\<lparr>cptr := Some p\<rparr>) s4;
     Some (s5\<lparr>nr_process := nr_process s5 + 1\<rparr>)
   }"

definition remove_links :: "nat \<Rightarrow> 'a ptable_scheme \<Rightarrow> 'a ptable_scheme option" where
  "remove_links p s = do {
     let s1 = s\<lparr>proc_list := remove1 p (proc_list s)\<rparr>;
     let s2 = (case optr (procs s1 p) of
         Some q \<Rightarrow> upd_proc q (\<lambda>x. x\<lparr>yptr := yptr (procs s1 p)\<rparr>) s1
       | None \<Rightarrow> s1);
     s3 \<leftarrow> (case yptr (procs s2 p) of
         Some q \<Rightarrow> Some (upd_proc q (\<lambda>x. x\<lparr>optr := optr (procs s2 p)\<rparr>) s2)
       | None \<Rightarrow> do {
           par \<leftarrow> parent (procs s2 p);
           Some (upd_proc par (\<lambda>x. x\<lparr>cptr := optr (procs s2 p)\<rparr>) s2)
         });
     Some (s3\<lparr>nr_process := nr_process s3 - 1\<rparr>)
   }"

text \<open>The children of a process form a list, youngest first: \<open>sibs ps y first xs\<close> says that the chain
  from \<open>first\<close> along \<^verbatim>\<open>optr\<close> is \<open>xs\<close>, with \<^verbatim>\<open>yptr\<close> pointing back (to \<open>y\<close> at the front).\<close>

fun sibs :: "proc_table \<Rightarrow> nat option \<Rightarrow> nat option \<Rightarrow> nat list \<Rightarrow> bool" where
  "sibs ps y first [] \<longleftrightarrow> first = None"
| "sibs ps y first (x # xs) \<longleftrightarrow> first = Some x \<and> yptr (ps x) = y \<and> sibs ps (Some x) (optr (ps x)) xs"

definition family :: "proc_table \<Rightarrow> (nat \<Rightarrow> nat list) \<Rightarrow> bool" where
  "family ps kids \<longleftrightarrow> (\<forall>p. sibs ps None (cptr (ps p)) (kids p) \<and> distinct (kids p) \<and> p \<notin> set (kids p)) \<and>
     (\<forall>p x. x \<in> set (kids p) \<longrightarrow> parent (ps x) = Some p)"

lemma sibs_cong:
  "\<forall>x \<in> set xs. yptr (ps' x) = yptr (ps x) \<and> optr (ps' x) = optr (ps x) \<Longrightarrow> sibs ps y f xs \<Longrightarrow> sibs ps' y f xs"
  by (induction xs arbitrary: y f) auto

definition hdo :: "'a list \<Rightarrow> 'a option" where
  "hdo xs = (case xs of [] \<Rightarrow> None | x # _ \<Rightarrow> Some x)"

lemma hdo_simps [simp]: "hdo [] = None" "hdo (x # xs) = Some x"
  by (simp_all add: hdo_def)

lemma hdo_mem: "hdo xs = Some x \<Longrightarrow> x \<in> set xs"
  by (cases xs) auto

lemma sibs_first: "sibs ps y f xs \<Longrightarrow> f = hdo xs"
  by (cases xs) auto

lemma sibs_at: "sibs ps y f (us @ p # vs) \<Longrightarrow>
    yptr (ps p) = (if us = [] then y else Some (last us)) \<and> optr (ps p) = hdo vs"
proof (induction us arbitrary: y f)
  case Nil
  then show ?case using sibs_first by auto
qed auto

lemma sibs_remove:
  "sibs ps y f (us @ p # vs) \<Longrightarrow> distinct (us @ p # vs) \<Longrightarrow>
   \<forall>x \<in> set us \<union> set vs. yptr (ps' x) = (if Some x = hdo vs then yptr (ps p) else yptr (ps x)) \<Longrightarrow>
   \<forall>x \<in> set us \<union> set vs. optr (ps' x) = (if us \<noteq> [] \<and> x = last us then optr (ps p) else optr (ps x)) \<Longrightarrow>
   sibs ps' y (if us = [] then optr (ps p) else f) (us @ vs)"
proof (induction us arbitrary: y f)
  case Nil
  show ?case
  proof (cases vs)
    case Nil
    then show ?thesis using Nil.prems by simp
  next
    case (Cons v ws)
    have "sibs ps' (Some v) (optr (ps v)) ws"
      by (rule sibs_cong [where ps = ps]) (use Nil.prems Cons in auto)
    then show ?thesis using Nil.prems Cons by auto
  qed
next
  case (Cons u us)
  have nu: "Some u \<noteq> hdo vs" using Cons.prems(2) by (cases vs) auto
  have "sibs ps' (Some u) (if us = [] then optr (ps p) else optr (ps u)) (us @ vs)"
    by (rule Cons.IH) (use Cons.prems in auto)
  moreover have "optr (ps' u) = (if us = [] then optr (ps p) else optr (ps u))"
    using Cons.prems(2,4) by auto
  ultimately show ?case using Cons.prems(1,3) nu by simp
qed

lemma familyD:
  assumes "family ps kids"
  shows "sibs ps None (cptr (ps p)) (kids p)" "distinct (kids p)" "p \<notin> set (kids p)"
    "x \<in> set (kids p) \<Longrightarrow> parent (ps x) = Some p"
  using assms unfolding family_def by blast+

lemma kids_cons: "(\<exists>q. x \<in> set ((kids(a := p # kids a)) q)) \<longleftrightarrow> x = p \<or> (\<exists>q. x \<in> set (kids q))"
proof
  assume "x = p \<or> (\<exists>q. x \<in> set (kids q))"
  then show "\<exists>q. x \<in> set ((kids(a := p # kids a)) q)"
  proof (elim disjE exE)
    fix q assume "x \<in> set (kids q)"
    then show ?thesis by (intro exI [of _ q]) auto
  qed (rule exI [of _ a], simp)
qed (auto split: if_splits)

lemma kids_move:
  assumes "a \<noteq> i"
  shows "(\<exists>q. x \<in> set ((kids(a := [], i := rev (kids a) @ kids i)) q)) \<longleftrightarrow> (\<exists>q. x \<in> set (kids q))"
proof
  assume "\<exists>q. x \<in> set (kids q)"
  then obtain q where q: "x \<in> set (kids q)" by blast
  show "\<exists>q. x \<in> set ((kids(a := [], i := rev (kids a) @ kids i)) q)"
  proof (cases "q = a \<or> q = i")
    case True
    then show ?thesis using q assms by (intro exI [of _ i]) auto
  next
    case False
    then show ?thesis using q by (intro exI [of _ q]) auto
  qed
qed (auto split: if_splits)

lemma family_disjoint: "family ps kids \<Longrightarrow> p \<noteq> q \<Longrightarrow> x \<in> set (kids p) \<Longrightarrow> x \<notin> set (kids q)"
  by (metis family_def option.inject)

lemma kids_remove:
  assumes f: "family ps kids" and p: "p \<in> set (kids a)"
  shows "(\<exists>q. x \<in> set ((kids(a := remove1 p (kids a))) q)) \<longleftrightarrow> x \<noteq> p \<and> (\<exists>q. x \<in> set (kids q))"
proof
  assume "\<exists>q. x \<in> set ((kids(a := remove1 p (kids a))) q)"
  then obtain q where q: "x \<in> set ((kids(a := remove1 p (kids a))) q)" by blast
  show "x \<noteq> p \<and> (\<exists>q. x \<in> set (kids q))"
  proof (cases "q = a")
    case True
    then show ?thesis using q familyD(2) [OF f, of a] by auto
  next
    case False
    then show ?thesis using q family_disjoint [OF f _ p, of q] by auto
  qed
next
  assume "x \<noteq> p \<and> (\<exists>q. x \<in> set (kids q))"
  then obtain q where "x \<noteq> p" "x \<in> set (kids q)" by blast
  then show "\<exists>q. x \<in> set ((kids(a := remove1 p (kids a))) q)"
    using familyD(2) [OF f, of a] by (intro exI [of _ q]) auto
qed

lemma set_links_family:
  assumes f: "family (procs s) kids" and p: "parent (procs s p) = Some par" "\<forall>q. p \<notin> set (kids q)" "p \<noteq> par"
  shows "\<exists>s'. set_links p s = Some s' \<and> family (procs s') (kids(par := p # kids par)) \<and>
    proc_list s' = p # proc_list s \<and> nr_process s' = nr_process s + 1 \<and> hash_list s' = hash_list s \<and>
    (\<forall>x. pid (procs s' x) = pid (procs s x) \<and> state (procs s' x) = state (procs s x))"
proof -
  let ?o = "cptr (procs s par)"
  let ?f1 = "(procs s)(p := (procs s p)\<lparr>yptr := None, optr := ?o\<rparr>)"
  let ?f2 = "case ?o of Some q \<Rightarrow> ?f1(q := (?f1 q)\<lparr>yptr := Some p\<rparr>) | None \<Rightarrow> ?f1"
  let ?ps = "?f2(par := (?f2 par)\<lparr>cptr := Some p\<rparr>)"
  have "sibs (procs s) None ?o (kids par)" using f by (simp add: family_def)
  then have o: "?o = hdo (kids par)" by (rule sibs_first)
  have nk: "par \<notin> set (kids par)" using f by (simp add: family_def)
  have oq: "q \<in> set (kids par)" "q \<noteq> p" "q \<noteq> par" if "?o = Some q" for q
  proof -
    show q: "q \<in> set (kids par)" using o that by (metis hdo_mem)
    show "q \<noteq> p" using q p(2) by metis
    show "q \<noteq> par" using q nk by metis
  qed
  let ?s' = "s\<lparr>procs := ?ps, proc_list := p # proc_list s, nr_process := nr_process s + 1\<rparr>"
  have s': "set_links p s = Some ?s'"
  proof (cases ?o)
    case None
    then show ?thesis using p(1,3) by (simp add: set_links_def Let_def upd_proc_def)
  next
    case (Some q)
    then show ?thesis using p(1,3) oq(2,3) [OF Some] by (simp add: set_links_def Let_def upd_proc_def)
  qed
  define ps where "ps = ?ps"
  have nkids: "p \<notin> set (kids par)" using p(2) by simp
  have y: "yptr (ps x) = (if x = p then None else if Some x = ?o then Some p else yptr (procs s x))"
    and op: "optr (ps x) = (if x = p then ?o else optr (procs s x))"
    and c: "cptr (ps x) = (if x = par then Some p else cptr (procs s x))"
    and r: "parent (ps x) = parent (procs s x)" "pid (ps x) = pid (procs s x)" "state (ps x) = state (procs s x)" for x
    unfolding ps_def using oq by (auto split: option.splits)
  have "family ps (kids(par := p # kids par))"
    unfolding family_def
  proof (intro conjI allI impI)
    fix q
    show "sibs ps None (cptr (ps q)) ((kids(par := p # kids par)) q)"
    proof (cases "q = par")
      case True
      have s0: "sibs (procs s) None ?o (kids par)" using f by (simp add: family_def)
      have "sibs ps (Some p) ?o (kids par)"
      proof (cases "kids par")
        case (Cons k ks)
        have d: "distinct (k # ks)" using familyD(2) [OF f] Cons by metis
        have "sibs ps (Some k) (optr (procs s k)) ks"
          by (rule sibs_cong [where ps = "procs s"]) (use s0 Cons d o nkids in \<open>auto simp: y op\<close>)
        then show ?thesis using s0 Cons o oq by (simp add: y op)
      qed (use o in simp)
      then show ?thesis using True by (simp add: c y op)
    next
      case False
      have ne: "x \<noteq> p \<and> Some x \<noteq> ?o" if "x \<in> set (kids q)" for x
        using that family_disjoint [OF f False] oq p(2) by metis
      have "sibs ps None (cptr (procs s q)) (kids q)"
        by (rule sibs_cong [OF _ familyD(1) [OF f]]) (auto simp: y op dest: ne)
      then show ?thesis using False by (simp add: c)
    qed
    show "distinct ((kids(par := p # kids par)) q)" "q \<notin> set ((kids(par := p # kids par)) q)"
      using p(2,3) familyD(2,3) [OF f] by auto
    fix x assume "x \<in> set ((kids(par := p # kids par)) q)"
    then show "parent (ps x) = Some q" using p(1) familyD(4) [OF f] by (auto simp: r split: if_splits)
  qed
  then show ?thesis using s' r by (simp add: ps_def [symmetric])
qed

lemma remove_links_eq:
  assumes sp: "yptr (procs s p) = (if us = [] then None else Some (last us))" "optr (procs s p) = hdo vs"
    and d: "distinct (us @ p # vs)" and par: "parent (procs s p) = Some par"
  shows "\<exists>s'. remove_links p s = Some s' \<and> proc_list s' = remove1 p (proc_list s) \<and>
    nr_process s' = nr_process s - 1 \<and> hash_list s' = hash_list s \<and> last_pid s' = last_pid s \<and>
    next_safe s' = next_safe s \<and>
    (\<forall>x. yptr (procs s' x) = (if Some x = hdo vs then yptr (procs s p) else yptr (procs s x)) \<and>
      optr (procs s' x) = (if us \<noteq> [] \<and> x = last us then optr (procs s p) else optr (procs s x)) \<and>
      cptr (procs s' x) = (if us = [] \<and> x = par then optr (procs s p) else cptr (procs s x)) \<and>
      parent (procs s' x) = parent (procs s x) \<and> pid (procs s' x) = pid (procs s x) \<and>
      state (procs s' x) = state (procs s x))"
proof (cases us rule: rev_cases)
  case Nil
  show ?thesis
  proof (cases vs)
    case vs: Nil
    then show ?thesis using sp par Nil by (simp add: remove_links_def)
  next
    case (Cons v ws)
    then have "v \<noteq> p" using d by auto
    then show ?thesis using sp par Nil Cons by (simp add: remove_links_def)
  qed
next
  case (snoc us' u)
  then have u: "u \<noteq> p" using d by auto
  show ?thesis
  proof (cases vs)
    case vs: Nil
    then show ?thesis using sp par snoc u by (simp add: remove_links_def)
  next
    case (Cons v ws)
    then have "v \<noteq> p" "v \<noteq> u" using d snoc by auto
    then show ?thesis using sp par snoc u Cons by (simp add: remove_links_def)
  qed
qed

lemma remove_links_family:
  assumes f: "family (procs s) kids" and p: "p \<in> set (kids par)"
  shows "\<exists>s'. remove_links p s = Some s' \<and> family (procs s') (kids(par := remove1 p (kids par))) \<and>
    proc_list s' = remove1 p (proc_list s) \<and> nr_process s' = nr_process s - 1 \<and> hash_list s' = hash_list s \<and>
    last_pid s' = last_pid s \<and> next_safe s' = next_safe s \<and>
    (\<forall>x. pid (procs s' x) = pid (procs s x) \<and> state (procs s' x) = state (procs s x))"
proof -
  obtain us vs where k: "kids par = us @ p # vs" using p by (meson split_list)
  have d: "distinct (us @ p # vs)" using familyD(2) [OF f, of par] k by simp
  have sb: "sibs (procs s) None (cptr (procs s par)) (us @ p # vs)" using familyD(1) [OF f, of par] k by simp
  have par: "parent (procs s p) = Some par" using familyD(4) [OF f p] .
  obtain s' where s': "remove_links p s = Some s'" "proc_list s' = remove1 p (proc_list s)"
      "nr_process s' = nr_process s - 1" "hash_list s' = hash_list s" "last_pid s' = last_pid s"
      "next_safe s' = next_safe s"
    and y: "\<And>x. yptr (procs s' x) = (if Some x = hdo vs then yptr (procs s p) else yptr (procs s x))"
    and op: "\<And>x. optr (procs s' x) = (if us \<noteq> [] \<and> x = last us then optr (procs s p) else optr (procs s x))"
    and c: "\<And>x. cptr (procs s' x) = (if us = [] \<and> x = par then optr (procs s p) else cptr (procs s x))"
    and r: "\<And>x. parent (procs s' x) = parent (procs s x)" "\<And>x. pid (procs s' x) = pid (procs s x)"
      "\<And>x. state (procs s' x) = state (procs s x)"
    using remove_links_eq [OF _ _ d par] sibs_at [OF sb] by blast
  have r1: "remove1 p (kids par) = us @ vs" using k d by (simp add: remove1_split)
  have "family (procs s') (kids(par := us @ vs))"
    unfolding family_def
  proof (intro conjI allI impI)
    fix q
    show "sibs (procs s') None (cptr (procs s' q)) ((kids(par := us @ vs)) q)"
    proof (cases "q = par")
      case True
      have "sibs (procs s') None (if us = [] then optr (procs s p) else cptr (procs s par)) (us @ vs)"
        by (rule sibs_remove [OF sb d]) (simp_all add: y op)
      then show ?thesis using True by (simp add: c split: if_splits)
    next
      case False
      have ne: "Some x \<noteq> hdo vs \<and> (us \<noteq> [] \<longrightarrow> x \<noteq> last us)" if "x \<in> set (kids q)" for x
        using family_disjoint [OF f False that] k hdo_mem [of vs x] by auto
      have "sibs (procs s') None (cptr (procs s q)) (kids q)"
        by (rule sibs_cong [OF _ familyD(1) [OF f]]) (auto simp: y op dest: ne)
      then show ?thesis using False by (simp add: c)
    qed
    show "distinct ((kids(par := us @ vs)) q)" "q \<notin> set ((kids(par := us @ vs)) q)"
      using d familyD(2,3) [OF f] familyD(3) [OF f, of par] k by (auto simp: fun_upd_def)
    fix x assume "x \<in> set ((kids(par := us @ vs)) q)"
    then have "x \<in> set (kids q)" using k by (auto split: if_splits)
    then show "parent (procs s' x) = Some q" using familyD(4) [OF f] by (simp add: r)
  qed
  then show ?thesis using s' r r1 by auto
qed

lemma sched_shape_ptable:
  assumes "sched_shape (s :: 'a ptable_scheme) s'"
  shows "proc_list s' = proc_list s" "hash_list s' = hash_list s" "nr_process s' = nr_process s"
    "next_safe s' = next_safe s" "last_pid s' = last_pid s" "ptable.more s' = ptable.more s"
    "idleproc s' = idleproc s" "initproc s' = initproc s"
  using assms by (cases s; cases s'; simp add: sched_shape_def)+

section \<open>The table as a whole\<close>

text \<open>The block of \<^verbatim>\<open>do_fork\<close> that enters the child (with its pid set) into the hash table, the list and
  the family of its parent, and the block of \<^verbatim>\<open>do_wait\<close> that takes it out again.\<close>

definition link_proc :: "nat \<Rightarrow> 'a ptable_scheme \<Rightarrow> 'a ptable_scheme option" where
  "link_proc p s = set_links p (hash_proc p s)"

definition unlink_proc :: "nat \<Rightarrow> 'a ptable_scheme \<Rightarrow> 'a ptable_scheme option" where
  "unlink_proc p s = remove_links p (unhash_proc p s)"

text \<open>\<^verbatim>\<open>nr_process\<close> also counts the idle process, which is not listed.\<close>

definition table_ok :: "'a ptable_scheme \<Rightarrow> (nat \<Rightarrow> nat list) \<Rightarrow> bool" where
  "table_ok s kids \<longleftrightarrow> pids_ok s \<and> hash_ok s \<and> family (procs s) kids \<and>
     nr_process s = int (length (proc_list s)) + 1"

lemma hash_proc_sel [simp]:
  "procs (hash_proc p s) = procs s" "proc_list (hash_proc p s) = proc_list s" "nr_process (hash_proc p s) = nr_process s"
  "last_pid (hash_proc p s) = last_pid s" "next_safe (hash_proc p s) = next_safe s"
  "hash_list (hash_proc p s) = (hash_list s)(pid_hashfn (pid (procs s p)) := p # hash_list s (pid_hashfn (pid (procs s p))))"
  by (simp_all add: hash_proc_def Let_def)

lemma unhash_proc_sel [simp]:
  "procs (unhash_proc p s) = procs s" "proc_list (unhash_proc p s) = proc_list s" "nr_process (unhash_proc p s) = nr_process s"
  "last_pid (unhash_proc p s) = last_pid s" "next_safe (unhash_proc p s) = next_safe s"
  "hash_list (unhash_proc p s) = (\<lambda>h. remove1 p (hash_list s h))"
  by (simp_all add: unhash_proc_def)

lemma set_links_pids: "set_links p s = Some s' \<Longrightarrow> last_pid s' = last_pid s \<and> next_safe s' = next_safe s"
  by (auto simp: set_links_def Let_def kspec split: option.splits)

lemma link_proc_ok:
  assumes h: "hash_ok s" and f: "family (procs s) kids" and n: "nr_process s = int (length (proc_list s)) + 1"
    and d: "distinct (proc_list s)" "inj_on (\<lambda>p. pid (procs s p)) (set (proc_list s))"
      "\<forall>p \<in> set (proc_list s). 1 \<le> pid (procs s p) \<and> pid (procs s p) < MAX_PID"
    and new: "pid_ok (pid ` procs s ` set (proc_list s)) (pid (procs s p), next_safe s)" "last_pid s = pid (procs s p)"
    and p: "p \<notin> set (proc_list s)" "\<forall>q. p \<notin> set (kids q)" "parent (procs s p) = Some par" "p \<noteq> par"
  shows "\<exists>s'. link_proc p s = Some s' \<and> table_ok s' (kids(par := p # kids par)) \<and>
    proc_list s' = p # proc_list s \<and> (\<forall>x. pid (procs s' x) = pid (procs s x) \<and> state (procs s' x) = state (procs s x))"
proof -
  have "family (procs (hash_proc p s)) kids" "parent (procs (hash_proc p s) p) = Some par" using f p(3) by simp_all
  from set_links_family [OF this p(2,4)] obtain s' where
    s0: "set_links p (hash_proc p s) = Some s'" "family (procs s') (kids(par := p # kids par))"
    "proc_list s' = p # proc_list (hash_proc p s)"
    "nr_process s' = nr_process (hash_proc p s) + 1" "hash_list s' = hash_list (hash_proc p s)"
    "\<forall>x. pid (procs s' x) = pid (procs (hash_proc p s) x) \<and> state (procs s' x) = state (procs (hash_proc p s) x)"
    by blast
  note s' = s0 [folded link_proc_def, unfolded hash_proc_sel]
  have lp: "last_pid s' = last_pid s" "next_safe s' = next_safe s"
    using set_links_pids [of p "hash_proc p s"] s'(1) by (simp_all add: link_proc_def)
  have hk: "hash_ok s'" using h p(1) unfolding hash_ok_def s'(5,3) by (auto simp: s'(6)) have "pid ` procs s' ` set (proc_list s') = insert (last_pid s) (pid ` procs s ` set (proc_list s))"
    using s'(3,6) new(2) by (auto simp: image_image)
  then have "gap (pid ` procs s' ` set (proc_list s')) (last_pid s') (next_safe s')"
    using new lp gap_insert [of _ "last_pid s"] by (simp add: pid_ok_def)
  moreover have "distinct (proc_list s')" using d(1) p(1) s'(3) by simp
  moreover have "inj_on (\<lambda>x. pid (procs s' x)) (set (proc_list s'))"
    using d(2) new(1) p(1) by (simp add: s'(3,6) pid_ok_def image_image)
  moreover have "\<forall>x \<in> set (proc_list s'). 1 \<le> pid (procs s' x) \<and> pid (procs s' x) < MAX_PID"
    using d(3) new(1) by (simp add: s'(3,6) pid_ok_def)
  moreover have "0 \<le> last_pid s'" using new lp by (simp add: pid_ok_def)
  ultimately have "pids_ok s'" by (simp add: pids_ok_def)
  moreover have "nr_process s' = int (length (proc_list s')) + 1" using s'(3,4) n by simp
  ultimately show ?thesis using hk s'(1,2,3,6) unfolding table_ok_def by blast
qed

lemma unlink_proc_ok:
  assumes t: "table_ok s kids" and p: "p \<in> set (kids par)" "p \<in> set (proc_list s)"
  shows "\<exists>s'. unlink_proc p s = Some s' \<and> table_ok s' (kids(par := remove1 p (kids par))) \<and>
    proc_list s' = remove1 p (proc_list s) \<and> (\<forall>x. pid (procs s' x) = pid (procs s x) \<and> state (procs s' x) = state (procs s x))"
proof -
  have f: "family (procs (unhash_proc p s)) kids" using t by (simp add: table_ok_def)
  from remove_links_family [OF f p(1)] obtain s' where
    s0: "remove_links p (unhash_proc p s) = Some s'" "family (procs s') (kids(par := remove1 p (kids par)))"
    "proc_list s' = remove1 p (proc_list (unhash_proc p s))" "nr_process s' = nr_process (unhash_proc p s) - 1"
    "hash_list s' = hash_list (unhash_proc p s)" "last_pid s' = last_pid (unhash_proc p s)" "next_safe s' = next_safe (unhash_proc p s)"
    "\<forall>x. pid (procs s' x) = pid (procs (unhash_proc p s) x) \<and> state (procs s' x) = state (procs (unhash_proc p s) x)"
    by blast
  note s' = s0 [folded unlink_proc_def, unfolded unhash_proc_sel]
  have d: "distinct (proc_list s)" using t by (simp add: table_ok_def pids_ok_def)
  have "hash_ok s'" using t d unfolding hash_ok_def table_ok_def s'(5,3) by (auto simp: s'(8))
  moreover have "gap (pid ` procs s' ` set (proc_list s')) (last_pid s') (next_safe s')"
    using t d s' by (auto simp: table_ok_def pids_ok_def gap_def image_image)
  then have "pids_ok s'" using t d
    by (auto simp: pids_ok_def table_ok_def s' inj_on_def)
  moreover have "length (proc_list s) = length (proc_list s') + 1"
    using p(2) s'(3) by (metis One_nat_def Suc_pred add.right_neutral add_Suc_right length_pos_if_in_set length_remove1)
  ultimately show ?thesis using s' t by (auto simp: table_ok_def)
qed

text \<open>The link operations change nothing but the family links, and leave the scheduler alone.\<close>

definition links_only :: "proc_struct \<Rightarrow> proc_struct \<Rightarrow> bool" where
  "links_only q q' \<longleftrightarrow> q\<lparr>parent := parent q', cptr := cptr q', yptr := yptr q', optr := optr q'\<rparr> = q'"

lemma links_onlyI [simp]:
  "links_only q q" "links_only q (q\<lparr>cptr := a\<rparr>)" "links_only q (q\<lparr>yptr := b\<rparr>)" "links_only q (q\<lparr>optr := d\<rparr>)"
  "links_only q (q\<lparr>parent := e\<rparr>)"
  by (simp_all add: links_only_def)

lemma links_only_trans: "links_only q r \<Longrightarrow> links_only r t \<Longrightarrow> links_only q t"
  by (cases q; cases r; cases t) (simp add: links_only_def)

lemma links_only_fields:
  assumes "links_only q q'"
  shows "state q' = state q" "pid q' = pid q" "on_rq q' = on_rq q" "lab6_stride q' = lab6_stride q"
    "lab6_priority q' = lab6_priority q" "wait_state q' = wait_state q" "exit_code q' = exit_code q"
    "kstack q' = kstack q" "pr_mm q' = pr_mm q" "filesp q' = filesp q" "tf q' = tf q" "pr_flags q' = pr_flags q"
    "ctx_ra q' = ctx_ra q" "ctx_sp q' = ctx_sp q" "pgdir q' = pgdir q"
  using assms by (cases q; cases q'; simp add: links_only_def)+

text \<open>\<open>links_step s s'\<close>: of the scheduler's state and of the descriptors only the links differ.\<close>

definition links_step :: "'a kstate_scheme \<Rightarrow> 'a kstate_scheme \<Rightarrow> bool" where
  "links_step s s' \<longleftrightarrow> (\<forall>x. links_only (procs s x) (procs s' x)) \<and> rq s' = rq s \<and> cls s' = cls s \<and>
     current s' = current s \<and> idleproc s' = idleproc s \<and> initproc s' = initproc s \<and> sie s' = sie s \<and>
     timers s' = timers s \<and> timer_list s' = timer_list s"

lemma links_step_refl [simp]: "links_step s s"
  by (simp add: links_step_def)

lemma links_step_upd:
  assumes "links_step s t" "\<And>q. links_only q (f q)" shows "links_step s (upd_proc p f t)"
proof -
  have "links_only (procs s p) (f (procs t p))"
    using assms links_only_trans [of "procs s p" "procs t p"] by (simp add: links_step_def)
  then show ?thesis using assms(1) by (simp add: links_step_def)
qed

lemma links_step_ptable [simp]:
  "links_step s (t\<lparr>proc_list := a\<rparr>) = links_step s t" "links_step s (t\<lparr>hash_list := b\<rparr>) = links_step s t"
  "links_step s (t\<lparr>nr_process := n\<rparr>) = links_step s t"
  by (simp_all add: links_step_def)

lemma set_links_step: "set_links p s = Some s' \<Longrightarrow> links_step s s'"
  by (auto simp: set_links_def Let_def kspec intro!: links_step_upd split: option.splits)

lemma remove_links_step: "remove_links p s = Some s' \<Longrightarrow> links_step s s'"
  by (auto simp: remove_links_def Let_def kspec intro!: links_step_upd split: option.splits)

lemma link_unlink_step:
  "link_proc p s = Some s' \<Longrightarrow> links_step s s'" "unlink_proc p s = Some s' \<Longrightarrow> links_step s s'"
proof -
  assume "link_proc p s = Some s'"
  then have "links_step (hash_proc p s) s'" unfolding link_proc_def by (rule set_links_step)
  then show "links_step s s'" by (simp add: links_step_def hash_proc_def Let_def)
next
  assume "unlink_proc p s = Some s'"
  then have "links_step (unhash_proc p s) s'" unfolding unlink_proc_def by (rule remove_links_step)
  then show "links_step s s'" by (simp add: links_step_def unhash_proc_def)
qed

text \<open>The table does not depend on the scheduler's part of the state.\<close>

lemma family_cong:
  assumes "family ps kids"
    and "\<forall>x. parent (ps' x) = parent (ps x) \<and> cptr (ps' x) = cptr (ps x) \<and> yptr (ps' x) = yptr (ps x) \<and> optr (ps' x) = optr (ps x)"
  shows "family ps' kids"
  using assms sibs_cong [of _ ps' ps] unfolding family_def by simp

lemma table_ok_cong:
  assumes t: "table_ok s kids" and "proc_list s' = proc_list s" "hash_list s' = hash_list s" "nr_process s' = nr_process s"
    "next_safe s' = next_safe s" "last_pid s' = last_pid s"
    and e: "\<forall>x. pid (procs s' x) = pid (procs s x) \<and> parent (procs s' x) = parent (procs s x) \<and>
      cptr (procs s' x) = cptr (procs s x) \<and> yptr (procs s' x) = yptr (procs s x) \<and> optr (procs s' x) = optr (procs s x)"
  shows "table_ok s' kids"
proof -
  have "family (procs s') kids" by (rule family_cong [of "procs s"]) (use t e in \<open>auto simp: table_ok_def\<close>)
  then show ?thesis using assms by (simp add: table_ok_def pids_ok_def hash_ok_def image_image)
qed

text \<open>The run queue depends on the scheduling fields and the states of the processes only.\<close>

context sched_policy
begin

lemma rq_exact_cong:
  assumes e: "rq_exact c inv s P" and "rq s' = rq s" "cls s' = cls s" "current s' = current s" "idleproc s' = idleproc s"
    and f: "\<forall>x \<in> P. state (procs s' x) = state (procs s x) \<and> on_rq (procs s' x) = on_rq (procs s x) \<and>
      lab6_stride (procs s' x) = lab6_stride (procs s x) \<and> lab6_priority (procs s' x) = lab6_priority (procs s x)"
    and p: "P' = P \<or> (\<exists>p. p \<notin> P \<and> P' = insert p P \<and> state (procs s' p) \<noteq> PROC_RUNNABLE)"
  shows "rq_exact c inv s' P'"
proof -
  have "waiting_to_run s' P' = waiting_to_run s P"
    using assms by (auto simp: waiting_to_run_def)
  moreover have "inv (rq s, procs s') (waiting_to_run s P)"
    by (rule inv_frame [of _ "procs s"]) (use e f in \<open>auto simp: rq_exact_def waiting_to_run_def\<close>)
  ultimately show ?thesis using assms by (auto simp: rq_exact_def)
qed

lemma rq_exact_links: "rq_exact c inv s P \<Longrightarrow> links_step s s' \<Longrightarrow> rq_exact c inv s' P"
  by (rule rq_exact_cong) (auto simp: links_step_def dest: links_only_fields)

end

section \<open>A concrete table\<close>

text \<open>The idle process 0, \<^verbatim>\<open>initproc\<close> 1 as the current process, and a zombie child 2 of it.\<close>

definition ptable0 :: ptable where
  "ptable0 = \<lparr>procs = (\<lambda>_. proc0\<lparr>lab6_priority := 1\<rparr>)
       (0 := proc0\<lparr>state := PROC_RUNNABLE, pid := 0, lab6_priority := 1, cptr := Some 1\<rparr>,
        1 := proc0\<lparr>state := PROC_RUNNABLE, pid := 1, lab6_priority := 1, parent := Some 0, cptr := Some 2,
          pr_mm := Some 4, filesp := Some 9\<rparr>,
        2 := proc0\<lparr>state := PROC_ZOMBIE, pid := 2, lab6_priority := 1, parent := Some 1, kstack := Some 77\<rparr>),
     rq = rq kernel0, cls = stride_sched_class, current = 1, idleproc = 0, initproc = 1, sie = True,
     timers = timers kernel0, timer_list = [],
     proc_list = [2, 1], hash_list = (\<lambda>h. filter (\<lambda>p. pid_hashfn (int p) = h) [2, 1]), nr_process = 3,
     next_safe = 8192, last_pid = 2\<rparr>"

definition kids0 :: "nat \<Rightarrow> nat list" where
  "kids0 = (\<lambda>_. [])(0 := [1], 1 := [2])"

lemma ptable0_sel [simp]:
  "proc_list ptable0 = [2, 1]" "nr_process ptable0 = 3" "next_safe ptable0 = 8192" "last_pid ptable0 = 2"
  "current ptable0 = 1" "idleproc ptable0 = 0" "initproc ptable0 = 1" "cls ptable0 = stride_sched_class"
  by (simp_all add: ptable0_def)

lemma proc0_ptr [simp]: "cptr proc0 = None" "yptr proc0 = None" "optr proc0 = None" "parent proc0 = None"
  by (simp_all add: proc0_def)

lemma ptable0_ok: "table_ok ptable0 kids0"
proof -
  have "pids_ok ptable0" by (auto simp: pids_ok_def ptable0_def gap_def)
  moreover have "hash_ok ptable0" by (auto simp: hash_ok_def ptable0_def)
  moreover have "family (procs ptable0) kids0" by (auto simp: family_def ptable0_def kids0_def)
  ultimately show ?thesis by (simp add: table_ok_def)
qed

lemma ptable0_exact: "rq_exact stride_sched_class stride_inv ptable0 {0, 1, 2}"
proof -
  have "waiting_to_run ptable0 {0, 1, 2} = {}" by (auto simp: waiting_to_run_def ptable0_def)
  moreover have "stride_inv (rq ptable0, procs ptable0) {}"
  proof -
    have "waiting_to_run kernel0 {0, 1, 2} = {}" by (auto simp: waiting_to_run_def)
    then have "stride_inv (rq kernel0, procs kernel0) {}" using kernel0_exact by (simp add: rq_exact_def)
    then have "stride_inv (rq kernel0, procs ptable0) {}" by (rule stride.inv_frame) simp
    then show ?thesis by (simp add: ptable0_def)
  qed
  ultimately show ?thesis by (simp add: rq_exact_def) (simp add: ptable0_def)
qed

section \<open>Properties\<close>

text \<open>C28. While fewer than \<^verbatim>\<open>MAX_PID - 1\<close> processes are listed, \<^verbatim>\<open>get_pid\<close> returns: its pid is in range,
  no listed process has it, and only \<^verbatim>\<open>last_pid\<close> and \<^verbatim>\<open>next_safe\<close> change, so that again no pid in use lies
  between them.\<close>

theorem get_pid_unique:
  assumes "pids_ok s" and "length (proc_list s) < 8191"
  shows "\<exists>r s'. get_pid s = Some (r, s') \<and> 1 \<le> r \<and> r < MAX_PID \<and> r \<notin> pid ` procs s ` set (proc_list s) \<and>
    s' = s\<lparr>last_pid := r, next_safe := next_safe s'\<rparr> \<and> pids_ok s'"
proof -
  obtain r safe where r: "get_pid s = Some (r, s\<lparr>last_pid := r, next_safe := safe\<rparr>)"
    "pid_ok (pid ` procs s ` set (proc_list s)) (r, safe)"
    using get_pid_fresh [OF assms(2) _ _ refl] assms(1) unfolding pids_ok_def by blast
  then have "pids_ok (s\<lparr>last_pid := r, next_safe := safe\<rparr>)" using assms(1) by (simp add: pids_ok_def pid_ok_def)
  then show ?thesis using r by (auto simp: pid_ok_def)
qed

lemma get_pid_unique_witness: "\<exists>r s'. get_pid ptable0 = Some (r, s') \<and> r \<noteq> 1 \<and> r \<noteq> 2"
  using get_pid_unique [of ptable0] ptable0_ok by (auto simp: table_ok_def ptable0_def)

text \<open>\<^verbatim>\<open>find_proc\<close> finds a process exactly when it is listed with that pid.\<close>

theorem find_proc_exact:
  assumes "table_ok s kids"
  shows "find_proc i s = Some p \<longleftrightarrow> p \<in> set (proc_list s) \<and> pid (procs s p) = i"
  using find_proc_Some assms by (auto simp: table_ok_def)

lemma find_proc_exact_witness: "find_proc 2 ptable0 = Some 2"
  by (subst find_proc_exact [OF ptable0_ok]) (simp add: ptable0_def)

end
