(* ===== verification/Proc.thy ===== *)
theory Proc
  imports ProcTable
begin

text \<open>
  The life cycle of processes, \<^verbatim>\<open>kern/process/proc.c\<close>: creation (\<^verbatim>\<open>do_fork\<close> with the copying of address
  space, files and trap frame, and the unwinding on its error paths), exit, wait, kill, sleep.

  The kernel objects a process owns are identified by their addresses; the state holds the sets of those
  that are allocated. What an allocation returns is an argument (\<open>fork_env\<close>), NULL as \<open>None\<close>; freeing an
  object that is not allocated is undefined in C and the value \<open>None\<close> of the operation here. The
  contents of an address space and of a file table are modelled in other theories; of an address space
  only the page directory, the reference count and whether it still maps user memory appear here.
\<close>

section \<open>State\<close>

record trapframe =
  gpr :: "nat \<Rightarrow> u64"
  status :: u64
  epc :: u64
  tval :: u64
  cause :: u64

record kernel = ptable +
  live_procs :: "nat set"
  live_kstacks :: "nat set"
  live_mms :: "nat set"
  live_pgdirs :: "u64 set"
  live_files :: "nat set"
  mm_pgdir :: "nat \<Rightarrow> u64"
  mm_count :: "nat \<Rightarrow> int"
  mm_mapped :: "nat set"
  files_count :: "nat \<Rightarrow> int"
  trapframes :: "u64 \<Rightarrow> trapframe"
  ustore :: "u64 \<Rightarrow> int"

text \<open>What the allocations and the copying of memory and files yield during one \<^verbatim>\<open>do_fork\<close>.\<close>

record fork_env =
  fe_proc :: "nat option"
  fe_kstack :: "nat option"
  fe_mm :: "nat option"
  fe_pgdir :: "u64 option"
  fe_dup_mmap :: int
  fe_files :: "nat option"
  fe_dup_files :: int

abbreviation (input) CLONE_VM :: u32 where "CLONE_VM \<equiv> 0x00000100"
abbreviation (input) CLONE_FS :: u32 where "CLONE_FS \<equiv> 0x00000800"
abbreviation (input) KERNBASE :: u64 where "KERNBASE \<equiv> 0xFFFFFFFFC0200000"
abbreviation (input) va_pa_offset :: u64 where "va_pa_offset \<equiv> 0xFFFFFFFF40000000"
abbreviation (input) KSTACKSIZE :: u64 where "KSTACKSIZE \<equiv> 8192"
abbreviation (input) SSTATUS_SIE :: u64 where "SSTATUS_SIE \<equiv> 0x00000002"
abbreviation (input) SSTATUS_SPIE :: u64 where "SSTATUS_SPIE \<equiv> 0x00000020"
abbreviation (input) SSTATUS_SPP :: u64 where "SSTATUS_SPP \<equiv> 0x00000100"

text \<open>Register numbers in \<^verbatim>\<open>struct pushregs\<close>.\<close>

abbreviation (input) reg_sp :: nat where "reg_sp \<equiv> 2"
abbreviation (input) reg_s0 :: nat where "reg_s0 \<equiv> 8"
abbreviation (input) reg_s1 :: nat where "reg_s1 \<equiv> 9"
abbreviation (input) reg_a0 :: nat where "reg_a0 \<equiv> 10"

definition PADDR :: "u64 \<Rightarrow> u64 option" where
  "PADDR kva = do { kassert (\<not> kva < KERNBASE); Some (kva - va_pa_offset) }"

section \<open>Objects owned by a process\<close>

definition init_proc :: "u64 \<Rightarrow> proc_struct" where
  "init_proc boot_pgdir_pa = \<lparr>state = PROC_UNINIT, pid = -1, runs = 0, kstack = None, need_resched = False,
     parent = None, pr_mm = None, ctx_ra = 0, ctx_sp = 0, tf = 0, pgdir = boot_pgdir_pa, pr_flags = 0,
     pr_name = [], exit_code = 0, wait_state = 0, cptr = None, yptr = None, optr = None, on_rq = False,
     time_slice = 0, lab6_stride = 0, lab6_priority = 0, filesp = None\<rparr>"

definition alloc_proc :: "u64 \<Rightarrow> nat option \<Rightarrow> 'a kernel_scheme \<Rightarrow> nat option \<times> 'a kernel_scheme" where
  "alloc_proc boot_pgdir_pa kmalloced s =
     (case kmalloced of
        None \<Rightarrow> (None, s)
      | Some p \<Rightarrow> (Some p, (upd_proc p (\<lambda>_. init_proc boot_pgdir_pa) s)\<lparr>live_procs := insert p (live_procs s)\<rparr>))"

definition kfree_proc :: "nat \<Rightarrow> 'a kernel_scheme \<Rightarrow> 'a kernel_scheme option" where
  "kfree_proc p s = do { kassert (p \<in> live_procs s); Some (s\<lparr>live_procs := live_procs s - {p}\<rparr>) }"

definition setup_kstack :: "nat option \<Rightarrow> nat \<Rightarrow> 'a kernel_scheme \<Rightarrow> int \<times> 'a kernel_scheme" where
  "setup_kstack page p s =
     (case page of
        Some k \<Rightarrow> (0, (upd_proc p (\<lambda>x. x\<lparr>kstack := Some k\<rparr>) s)\<lparr>live_kstacks := insert k (live_kstacks s)\<rparr>)
      | None \<Rightarrow> (- E_NO_MEM, s))"

definition put_kstack :: "nat \<Rightarrow> 'a kernel_scheme \<Rightarrow> 'a kernel_scheme option" where
  "put_kstack p s = do {
     k \<leftarrow> kstack (procs s p);
     kassert (k \<in> live_kstacks s);
     Some (s\<lparr>live_kstacks := live_kstacks s - {k}\<rparr>)
   }"

definition setup_pgdir :: "u64 option \<Rightarrow> nat \<Rightarrow> 'a kernel_scheme \<Rightarrow> int \<times> 'a kernel_scheme" where
  "setup_pgdir page m s =
     (case page of
        None \<Rightarrow> (- E_NO_MEM, s)
      | Some d \<Rightarrow> (0, s\<lparr>mm_pgdir := (mm_pgdir s)(m := d), live_pgdirs := insert d (live_pgdirs s)\<rparr>))"

definition put_pgdir :: "nat \<Rightarrow> 'a kernel_scheme \<Rightarrow> 'a kernel_scheme option" where
  "put_pgdir m s = do {
     kassert (mm_pgdir s m \<in> live_pgdirs s);
     Some (s\<lparr>live_pgdirs := live_pgdirs s - {mm_pgdir s m}\<rparr>)
   }"

text \<open>The part of \<^verbatim>\<open>mm_create\<close>, \<^verbatim>\<open>mm_destroy\<close> and \<^verbatim>\<open>exit_mmap\<close> that the life cycle sees.\<close>

definition mm_create_obj :: "nat option \<Rightarrow> 'a kernel_scheme \<Rightarrow> nat option \<times> 'a kernel_scheme" where
  "mm_create_obj kmalloced s =
     (case kmalloced of
        None \<Rightarrow> (None, s)
      | Some m \<Rightarrow> (Some m, s\<lparr>live_mms := insert m (live_mms s), mm_count := (mm_count s)(m := 0)\<rparr>))"

definition mm_destroy_obj :: "nat \<Rightarrow> 'a kernel_scheme \<Rightarrow> 'a kernel_scheme option" where
  "mm_destroy_obj m s = do {
     kassert (m \<in> live_mms s);
     kassert (mm_count s m = 0);
     Some (s\<lparr>live_mms := live_mms s - {m}\<rparr>)
   }"

definition exit_mmap_obj :: "nat \<Rightarrow> 'a kernel_scheme \<Rightarrow> 'a kernel_scheme option" where
  "exit_mmap_obj m s = do {
     kassert (mm_count s m = 0);
     Some (s\<lparr>mm_mapped := mm_mapped s - {m}\<rparr>)
   }"

definition dup_mmap_obj :: "int \<Rightarrow> nat \<Rightarrow> 'a kernel_scheme \<Rightarrow> int \<times> 'a kernel_scheme" where
  "dup_mmap_obj r m s = (r, s\<lparr>mm_mapped := insert m (mm_mapped s)\<rparr>)"

definition mm_count_inc :: "nat \<Rightarrow> 'a kernel_scheme \<Rightarrow> 'a kernel_scheme" where
  "mm_count_inc m s = s\<lparr>mm_count := (mm_count s)(m := mm_count s m + 1)\<rparr>"

definition mm_count_dec :: "nat \<Rightarrow> 'a kernel_scheme \<Rightarrow> int \<times> 'a kernel_scheme" where
  "mm_count_dec m s = (mm_count s m - 1, s\<lparr>mm_count := (mm_count s)(m := mm_count s m - 1)\<rparr>)"

text \<open>Dropping a reference to an address space; the last one frees it.\<close>

definition drop_mm :: "nat \<Rightarrow> 'a kernel_scheme \<Rightarrow> 'a kernel_scheme option" where
  "drop_mm m s = do {
     let (n, s1) = mm_count_dec m s;
     if n = 0 then do {
       s2 \<leftarrow> exit_mmap_obj m s1;
       s3 \<leftarrow> put_pgdir m s2;
       mm_destroy_obj m s3
     } else Some s1
   }"

definition copy_mm :: "fork_env \<Rightarrow> u32 \<Rightarrow> nat \<Rightarrow> 'a kernel_scheme \<Rightarrow> (int \<times> 'a kernel_scheme) option" where
  "copy_mm e clone_flags p s =
     (let good_mm = (\<lambda>m s. do {
            let s = mm_count_inc m s;
            pa \<leftarrow> PADDR (mm_pgdir s m);
            Some (0, upd_proc p (\<lambda>x. x\<lparr>pr_mm := Some m, pgdir := pa\<rparr>) s)
          })
      in case pr_mm (procs s (current s)) of
           None \<Rightarrow> Some (0, s)
         | Some oldmm \<Rightarrow>
             if clone_flags AND CLONE_VM \<noteq> 0 then good_mm oldmm s
             else
               (case mm_create_obj (fe_mm e) s of
                  (None, s1) \<Rightarrow> Some (- E_NO_MEM, s1)
                | (Some m, s1) \<Rightarrow>
                    (let (r, s2) = setup_pgdir (fe_pgdir e) m s1 in
                     if r \<noteq> 0 then do { s3 \<leftarrow> mm_destroy_obj m s2; Some (- E_NO_MEM, s3) }
                     else
                       (let (ret, s3) = dup_mmap_obj (fe_dup_mmap e) m s2 in
                        if ret \<noteq> 0 then do {
                          s4 \<leftarrow> exit_mmap_obj m s3;
                          s5 \<leftarrow> put_pgdir m s4;
                          s6 \<leftarrow> mm_destroy_obj m s5;
                          Some (ret, s6)
                        }
                        else good_mm m s3))))"

definition files_create_obj :: "nat option \<Rightarrow> 'a kernel_scheme \<Rightarrow> nat option \<times> 'a kernel_scheme" where
  "files_create_obj kmalloced s =
     (case kmalloced of
        None \<Rightarrow> (None, s)
      | Some f \<Rightarrow> (Some f, s\<lparr>live_files := insert f (live_files s), files_count := (files_count s)(f := 0)\<rparr>))"

definition files_destroy_obj :: "nat \<Rightarrow> 'a kernel_scheme \<Rightarrow> 'a kernel_scheme option" where
  "files_destroy_obj f s = do {
     kassert (f \<in> live_files s);
     kassert (files_count s f = 0);
     Some (s\<lparr>live_files := live_files s - {f}\<rparr>)
   }"

definition copy_files :: "fork_env \<Rightarrow> u32 \<Rightarrow> nat \<Rightarrow> 'a kernel_scheme \<Rightarrow> (int \<times> 'a kernel_scheme) option" where
  "copy_files e clone_flags p s = do {
     old_filesp \<leftarrow> filesp (procs s (current s));
     let good_files_struct = (\<lambda>f s. (0 :: int, upd_proc p (\<lambda>x. x\<lparr>filesp := Some f\<rparr>)
            (s\<lparr>files_count := (files_count s)(f := files_count s f + 1)\<rparr>)));
     if clone_flags AND CLONE_FS \<noteq> 0 then Some (good_files_struct old_filesp s)
     else
       (case files_create_obj (fe_files e) s of
          (None, s1) \<Rightarrow> Some (- E_NO_MEM, s1)
        | (Some f, s1) \<Rightarrow>
            if fe_dup_files e \<noteq> 0 then do { s2 \<leftarrow> files_destroy_obj f s1; Some (fe_dup_files e, s2) }
            else Some (good_files_struct f s1))
   }"

definition put_files :: "nat \<Rightarrow> 'a kernel_scheme \<Rightarrow> 'a kernel_scheme option" where
  "put_files p s =
     (case filesp (procs s p) of
        None \<Rightarrow> Some s
      | Some f \<Rightarrow>
          (let s1 = s\<lparr>files_count := (files_count s)(f := files_count s f - 1)\<rparr> in
           if files_count s1 f = 0 then files_destroy_obj f s1 else Some s1))"

text \<open>The frame of the new process is at the top of its kernel stack; \<open>forkret\<close> is the address of the
  function of that name.\<close>

definition copy_thread :: "u64 \<Rightarrow> nat \<Rightarrow> u64 \<Rightarrow> trapframe \<Rightarrow> 'a kernel_scheme \<Rightarrow> 'a kernel_scheme option" where
  "copy_thread forkret p esp regs s = do {
     k \<leftarrow> kstack (procs s p);
     let t = of_nat k + KSTACKSIZE - 288;
     let regs' = regs\<lparr>gpr := (gpr regs)(reg_a0 := 0, reg_sp := (if esp = 0 then t else esp))\<rparr>;
     Some ((upd_proc p (\<lambda>x. x\<lparr>tf := t, ctx_ra := forkret, ctx_sp := t\<rparr>) s)\<lparr>trapframes := (trapframes s)(t := regs')\<rparr>)
   }"

section \<open>Creation\<close>

text \<open>The error exits of \<^verbatim>\<open>do_fork\<close>, each falling into the next.\<close>

definition bad_fork_cleanup_proc :: "nat \<Rightarrow> int \<Rightarrow> 'a kernel_scheme \<Rightarrow> (int \<times> 'a kernel_scheme) option" where
  "bad_fork_cleanup_proc p ret s = do { s1 \<leftarrow> kfree_proc p s; Some (ret, s1) }"

definition bad_fork_cleanup_kstack :: "nat \<Rightarrow> int \<Rightarrow> 'a kernel_scheme \<Rightarrow> (int \<times> 'a kernel_scheme) option" where
  "bad_fork_cleanup_kstack p ret s = do { s1 \<leftarrow> put_kstack p s; bad_fork_cleanup_proc p ret s1 }"

definition bad_fork_cleanup_mm :: "nat \<Rightarrow> int \<Rightarrow> 'a kernel_scheme \<Rightarrow> (int \<times> 'a kernel_scheme) option" where
  "bad_fork_cleanup_mm p ret s = do {
     s1 \<leftarrow> (case pr_mm (procs s p) of Some m \<Rightarrow> drop_mm m s | None \<Rightarrow> Some s);
     bad_fork_cleanup_kstack p ret s1
   }"

text \<open>From \<^verbatim>\<open>proc->pid = get_pid()\<close> on nothing fails.\<close>

definition fork_publish :: "u64 \<Rightarrow> nat \<Rightarrow> u64 \<Rightarrow> trapframe \<Rightarrow> 'a kernel_scheme \<Rightarrow> (int \<times> 'a kernel_scheme) option" where
  "fork_publish forkret p stack regs s = do {
     (r, s1) \<leftarrow> get_pid s;
     let s2 = upd_proc p (\<lambda>x. x\<lparr>pid := r\<rparr>) s1;
     let s3 = upd_proc p (\<lambda>x. x\<lparr>parent := Some (current s2)\<rparr>) s2;
     let s4 = upd_proc (current s3) (\<lambda>x. x\<lparr>wait_state := 0\<rparr>) s3;
     s5 \<leftarrow> copy_thread forkret p stack regs s4;
     s6 \<leftarrow> link_proc p s5;
     s7 \<leftarrow> wakeup_proc p s6;
     Some (pid (procs s7 p), s7)
   }"

definition do_fork ::
  "u64 \<Rightarrow> u64 \<Rightarrow> fork_env \<Rightarrow> u32 \<Rightarrow> u64 \<Rightarrow> trapframe \<Rightarrow> 'a kernel_scheme \<Rightarrow> (int \<times> 'a kernel_scheme) option" where
  "do_fork boot_pgdir_pa forkret e clone_flags stack regs s =
     (if nr_process s \<ge> MAX_PROCESS then Some (- E_NO_FREE_PROC, s)
      else
        (case alloc_proc boot_pgdir_pa (fe_proc e) s of
           (None, s1) \<Rightarrow> Some (- E_NO_MEM, s1)
         | (Some p, s1) \<Rightarrow>
             (let (r, s2) = setup_kstack (fe_kstack e) p s1 in
              if r \<noteq> 0 then bad_fork_cleanup_proc p (- E_NO_MEM) s2
              else do {
                (r, s3) \<leftarrow> copy_mm e clone_flags p s2;
                if r \<noteq> 0 then bad_fork_cleanup_kstack p (- E_NO_MEM) s3
                else do {
                  (r, s4) \<leftarrow> copy_files e clone_flags p s3;
                  if r \<noteq> 0 then bad_fork_cleanup_mm p (- E_NO_MEM) s4
                  else fork_publish forkret p stack regs s4
                }
              })))"

definition kernel_thread ::
  "u64 \<Rightarrow> u64 \<Rightarrow> u64 \<Rightarrow> fork_env \<Rightarrow> u64 \<Rightarrow> u64 \<Rightarrow> u64 \<Rightarrow> u32 \<Rightarrow> 'a kernel_scheme \<Rightarrow> (int \<times> 'a kernel_scheme) option" where
  "kernel_thread boot_pgdir_pa forkret entry e sstatus f arg clone_flags s =
     (let regs = \<lparr>gpr = (\<lambda>_. 0)(reg_s0 := f, reg_s1 := arg),
           status = (sstatus OR SSTATUS_SPP OR SSTATUS_SPIE) AND NOT SSTATUS_SIE,
           epc = entry, tval = 0, cause = 0\<rparr>
      in do_fork boot_pgdir_pa forkret e (clone_flags OR CLONE_VM) 0 regs s)"

section \<open>Exit\<close>

text \<open>One turn of the loop of \<^verbatim>\<open>do_exit\<close> that hands a child over to \<^verbatim>\<open>initproc\<close>.\<close>

definition adopt_child :: "nat \<Rightarrow> 'a kernel_scheme \<Rightarrow> 'a kernel_scheme option" where
  "adopt_child p s = do {
     let s1 = upd_proc (current s) (\<lambda>x. x\<lparr>cptr := optr (procs s p)\<rparr>) s;
     let s2 = upd_proc p (\<lambda>x. x\<lparr>yptr := None\<rparr>) s1;
     let first = cptr (procs s2 (initproc s2));
     let s3 = upd_proc p (\<lambda>x. x\<lparr>optr := first\<rparr>) s2;
     let s4 = (case first of Some q \<Rightarrow> upd_proc q (\<lambda>x. x\<lparr>yptr := Some p\<rparr>) s3 | None \<Rightarrow> s3);
     let s5 = upd_proc p (\<lambda>x. x\<lparr>parent := Some (initproc s4)\<rparr>) s4;
     let s6 = upd_proc (initproc s5) (\<lambda>x. x\<lparr>cptr := Some p\<rparr>) s5;
     if state (procs s6 p) = PROC_ZOMBIE \<and> wait_state (procs s6 (initproc s6)) = WT_CHILD
     then wakeup_proc (initproc s6) s6
     else Some s6
   }"

partial_function (option) adopt_children :: "'a kernel_scheme \<Rightarrow> 'a kernel_scheme option" where
  "adopt_children s =
     (case cptr (procs s (current s)) of
        None \<Rightarrow> Some s
      | Some p \<Rightarrow> Option.bind (adopt_child p s) adopt_children)"

definition exit_resources :: "'a kernel_scheme \<Rightarrow> 'a kernel_scheme option" where
  "exit_resources s =
     (case pr_mm (procs s (current s)) of
        None \<Rightarrow> Some s
      | Some m \<Rightarrow> do {
          s1 \<leftarrow> drop_mm m s;
          let s2 = upd_proc (current s1) (\<lambda>x. x\<lparr>pr_mm := None\<rparr>) s1;
          put_files (current s2) s2
        })"

text \<open>The family part runs with interrupts off. The result is the state in which the next process
  continues; control does not come back to the exiting one.\<close>

definition exit_family :: "'a kernel_scheme \<Rightarrow> 'a kernel_scheme option" where
  "exit_family s = do {
     let (intr_flag, b) = intr_save (sie s);
     let s0 = s\<lparr>sie := b\<rparr>;
     par \<leftarrow> parent (procs s0 (current s0));
     s1 \<leftarrow> (if wait_state (procs s0 par) = WT_CHILD then wakeup_proc par s0 else Some s0);
     s2 \<leftarrow> adopt_children s1;
     Some (s2\<lparr>sie := intr_restore intr_flag (sie s2)\<rparr>)
   }"

definition do_exit :: "int \<Rightarrow> 'a kernel_scheme \<Rightarrow> 'a kernel_scheme option" where
  "do_exit error_code s = do {
     kassert (current s \<noteq> idleproc s);
     kassert (current s \<noteq> initproc s);
     s1 \<leftarrow> exit_resources s;
     let s2 = upd_proc (current s1) (\<lambda>x. x\<lparr>state := PROC_ZOMBIE, exit_code := error_code\<rparr>) s1;
     s3 \<leftarrow> exit_family s2;
     schedule s3
   }"

section \<open>Wait\<close>

text \<open>The walk along the children for a zombie: the first one, and whether there was any child.\<close>

partial_function (option) child_scan :: "proc_table \<Rightarrow> nat option \<Rightarrow> bool \<Rightarrow> (nat option \<times> bool) option" where
  "child_scan ps child haskid =
     (case child of
        None \<Rightarrow> Some (None, haskid)
      | Some p \<Rightarrow> if state (ps p) = PROC_ZOMBIE then Some (Some p, True) else child_scan ps (optr (ps p)) True)"

definition wait_search :: "int \<Rightarrow> 'a kernel_scheme \<Rightarrow> (nat option \<times> bool) option" where
  "wait_search i s =
     (if i \<noteq> 0 then
        Some (case find_proc i s of
           Some p \<Rightarrow> if parent (procs s p) = Some (current s)
             then (if state (procs s p) = PROC_ZOMBIE then (Some p, True) else (None, True))
             else (None, False)
         | None \<Rightarrow> (None, False))
      else child_scan (procs s) (cptr (procs s (current s))) False)"

text \<open>The label \<^verbatim>\<open>found\<close>.\<close>

definition wait_reap :: "u64 option \<Rightarrow> nat \<Rightarrow> 'a kernel_scheme \<Rightarrow> 'a kernel_scheme option" where
  "wait_reap code_store p s = do {
     kassert (\<not> (p = idleproc s \<or> p = initproc s));
     let s1 = (case code_store of
         Some a \<Rightarrow> s\<lparr>ustore := (ustore s)(a := exit_code (procs s p))\<rparr> | None \<Rightarrow> s);
     let (intr_flag, b) = intr_save (sie s1);
     s2 \<leftarrow> unlink_proc p (s1\<lparr>sie := b\<rparr>);
     let s3 = s2\<lparr>sie := intr_restore intr_flag (sie s2)\<rparr>;
     s4 \<leftarrow> put_kstack p s3;
     kfree_proc p s4
   }"

text \<open>The body of \<^verbatim>\<open>repeat\<close>: \<^verbatim>\<open>do_wait\<close> returns, or the process has given up the processor and resumes
  in \<open>wait_resume\<close> when it is scheduled again.\<close>

datatype wait_result = Waited int | Blocked

definition wait_pass :: "int \<Rightarrow> u64 option \<Rightarrow> 'a kernel_scheme \<Rightarrow> (wait_result \<times> 'a kernel_scheme) option" where
  "wait_pass i code_store s = do {
     (found, haskid) \<leftarrow> wait_search i s;
     (case found of
        Some p \<Rightarrow> do { s' \<leftarrow> wait_reap code_store p s; Some (Waited 0, s') }
      | None \<Rightarrow>
          if haskid then do {
            s' \<leftarrow> schedule (upd_proc (current s) (\<lambda>x. x\<lparr>state := PROC_SLEEPING, wait_state := WT_CHILD\<rparr>) s);
            Some (Blocked, s')
          } else Some (Waited (- E_BAD_PROC), s))
   }"

text \<open>\<open>checked\<close> is the answer of \<^verbatim>\<open>user_mem_check\<close>.\<close>

definition do_wait :: "bool \<Rightarrow> int \<Rightarrow> u64 option \<Rightarrow> 'a kernel_scheme \<Rightarrow> (wait_result \<times> 'a kernel_scheme) option" where
  "do_wait checked i code_store s =
     (if code_store \<noteq> None \<and> \<not> checked then Some (Waited (- E_INVAL), s) else wait_pass i code_store s)"

definition wait_resume :: "int \<Rightarrow> u64 option \<Rightarrow> 'a kernel_scheme \<Rightarrow> (wait_result \<times> 'a kernel_scheme) option" where
  "wait_resume i code_store s =
     (if pr_flags (procs s (current s)) AND PF_EXITING \<noteq> 0
      then do { s' \<leftarrow> do_exit (- E_KILLED) s; Some (Blocked, s') }
      else wait_pass i code_store s)"

section \<open>Kill, yield, sleep, priority, name\<close>

definition do_kill :: "int \<Rightarrow> 'a kernel_scheme \<Rightarrow> (int \<times> 'a kernel_scheme) option" where
  "do_kill i s =
     (case find_proc i s of
        None \<Rightarrow> Some (- E_INVAL, s)
      | Some p \<Rightarrow>
          if pr_flags (procs s p) AND PF_EXITING = 0 then do {
            let s1 = upd_proc p (\<lambda>x. x\<lparr>pr_flags := pr_flags x OR PF_EXITING\<rparr>) s;
            s2 \<leftarrow> (if wait_state (procs s1 p) AND WT_INTERRUPTED \<noteq> 0 then wakeup_proc p s1 else Some s1);
            Some (0, s2)
          } else Some (- E_KILLED, s))"

definition do_yield :: "'a kernel_scheme \<Rightarrow> int \<times> 'a kernel_scheme" where
  "do_yield s = (0, upd_proc (current s) (\<lambda>x. x\<lparr>need_resched := True\<rparr>) s)"

text \<open>\<^verbatim>\<open>do_sleep\<close> up to the switch, with the timer \<open>t\<close> on its stack, and what it does when scheduled again.\<close>

definition do_sleep :: "nat \<Rightarrow> u32 \<Rightarrow> 'a kernel_scheme \<Rightarrow> (int option \<times> 'a kernel_scheme) option" where
  "do_sleep t time s =
     (if time = 0 then Some (Some 0, s)
      else do {
        let (intr_flag, b) = intr_save (sie s);
        let s1 = s\<lparr>sie := b, timers := (timers s)(t := \<lparr>expires = unat time, timer_proc = current s\<rparr>)\<rparr>;
        let s2 = upd_proc (current s1) (\<lambda>x. x\<lparr>state := PROC_SLEEPING, wait_state := WT_TIMER\<rparr>) s1;
        s3 \<leftarrow> add_timer t s2;
        s4 \<leftarrow> schedule (s3\<lparr>sie := intr_restore intr_flag (sie s3)\<rparr>);
        Some (None, s4)
      })"

definition sleep_resume :: "nat \<Rightarrow> 'a kernel_scheme \<Rightarrow> int \<times> 'a kernel_scheme" where
  "sleep_resume t s = (0, del_timer t s)"

definition set_priority :: "u32 \<Rightarrow> 'a kernel_scheme \<Rightarrow> 'a kernel_scheme" where
  "set_priority priority s =
     (if priority = 0 then upd_proc (current s) (\<lambda>x. x\<lparr>lab6_priority := 1\<rparr>) s
      else upd_proc (current s) (\<lambda>x. x\<lparr>lab6_priority := priority\<rparr>) s)"

text \<open>\<^verbatim>\<open>memcpy\<close> of \<^verbatim>\<open>PROC_NAME_LEN\<close> characters from a string, the rest of the field being zero.\<close>

definition set_proc_name :: "nat \<Rightarrow> string \<Rightarrow> 'a kernel_scheme \<Rightarrow> 'a kernel_scheme" where
  "set_proc_name p name s = upd_proc p (\<lambda>x. x\<lparr>pr_name := take 15 name\<rparr>) s"

section \<open>Creation unwinds without leaks\<close>

definition mm_valid :: "'a kernel_scheme \<Rightarrow> bool" where
  "mm_valid s \<longleftrightarrow> (\<forall>m. pr_mm (procs s (current s)) = Some m \<longrightarrow>
     m \<in> live_mms s \<and> 1 \<le> mm_count s m \<and> mm_pgdir s m \<in> live_pgdirs s \<and> KERNBASE \<le> mm_pgdir s m)"

text \<open>What the allocators promise: new objects, pages at kernel addresses.\<close>

definition fresh_mm :: "fork_env \<Rightarrow> 'a kernel_scheme \<Rightarrow> bool" where
  "fresh_mm e s \<longleftrightarrow> (\<forall>m. fe_mm e = Some m \<longrightarrow> m \<notin> live_mms s) \<and>
     (\<forall>d. fe_pgdir e = Some d \<longrightarrow> d \<notin> live_pgdirs s \<and> KERNBASE \<le> d)"

definition fresh_files :: "fork_env \<Rightarrow> 'a kernel_scheme \<Rightarrow> bool" where
  "fresh_files e s \<longleftrightarrow> (\<forall>f. fe_files e = Some f \<longrightarrow> f \<notin> live_files s)"

definition env_fresh :: "fork_env \<Rightarrow> 'a kernel_scheme \<Rightarrow> bool" where
  "env_fresh e s \<longleftrightarrow> fresh_mm e s \<and> fresh_files e s \<and>
     (\<forall>p. fe_proc e = Some p \<longrightarrow> p \<notin> live_procs s) \<and> (\<forall>k. fe_kstack e = Some k \<longrightarrow> k \<notin> live_kstacks s)"

definition mm_fails :: "fork_env \<Rightarrow> u32 \<Rightarrow> 'a kernel_scheme \<Rightarrow> bool" where
  "mm_fails e fl s \<longleftrightarrow> pr_mm (procs s (current s)) \<noteq> None \<and> fl AND CLONE_VM = 0 \<and>
     (fe_mm e = None \<or> fe_pgdir e = None \<or> fe_dup_mmap e \<noteq> 0)"

definition files_fail :: "fork_env \<Rightarrow> u32 \<Rightarrow> bool" where
  "files_fail e fl \<longleftrightarrow> fl AND CLONE_FS = 0 \<and> (fe_files e = None \<or> fe_dup_files e \<noteq> 0)"

definition fork_fails :: "fork_env \<Rightarrow> u32 \<Rightarrow> 'a kernel_scheme \<Rightarrow> bool" where
  "fork_fails e fl s \<longleftrightarrow> nr_process s \<ge> MAX_PROCESS \<or> fe_proc e = None \<or> fe_kstack e = None \<or>
     mm_fails e fl s \<or> files_fail e fl"

text \<open>The objects are those of before, with the same reference counts.\<close>

definition objs_same :: "'a kernel_scheme \<Rightarrow> 'a kernel_scheme \<Rightarrow> bool" where
  "objs_same s s' \<longleftrightarrow> live_procs s' = live_procs s \<and> live_kstacks s' = live_kstacks s \<and>
     live_mms s' = live_mms s \<and> live_pgdirs s' = live_pgdirs s \<and> live_files s' = live_files s \<and>
     (\<forall>m \<in> live_mms s. mm_count s' m = mm_count s m \<and> mm_pgdir s' m = mm_pgdir s m \<and>
        (m \<in> mm_mapped s' \<longleftrightarrow> m \<in> mm_mapped s)) \<and>
     (\<forall>f \<in> live_files s. files_count s' f = files_count s f)"

lemma objs_same_refl [simp]: "objs_same s s"
  by (simp add: objs_same_def)

lemma objs_same_trans [trans]: "objs_same s t \<Longrightarrow> objs_same t u \<Longrightarrow> objs_same s u"
  by (simp add: objs_same_def)

text \<open>The process table and the scheduler are untouched.\<close>

definition table_part :: "'a ptable_scheme \<Rightarrow> ptable" where
  "table_part s = ptable.truncate s"

lemma table_part_simps [simp]:
  "table_part (s\<lparr>live_procs := a\<rparr>) = table_part s" "table_part (s\<lparr>live_kstacks := b\<rparr>) = table_part s"
  "table_part (s\<lparr>live_mms := c\<rparr>) = table_part s" "table_part (s\<lparr>live_pgdirs := d\<rparr>) = table_part s"
  "table_part (s\<lparr>live_files := e\<rparr>) = table_part s" "table_part (s\<lparr>mm_pgdir := f\<rparr>) = table_part s"
  "table_part (s\<lparr>mm_count := g\<rparr>) = table_part s" "table_part (s\<lparr>mm_mapped := h\<rparr>) = table_part s"
  "table_part (s\<lparr>files_count := i\<rparr>) = table_part s" "table_part (s\<lparr>trapframes := j\<rparr>) = table_part s"
  "table_part (s\<lparr>ustore := k\<rparr>) = table_part s"
  by (simp_all add: table_part_def ptable.truncate_def)

lemma table_part_procs: "table_part s = table_part t \<Longrightarrow> procs s = procs t \<and> current s = current t \<and>
    proc_list s = proc_list t \<and> nr_process s = nr_process t"
  by (cases s; cases t) (simp add: table_part_def ptable.truncate_def)

lemma PADDR_kernel: "KERNBASE \<le> d \<Longrightarrow> PADDR d = Some (d - va_pa_offset)"
  by (simp add: PADDR_def)

lemmas life_defs = mm_create_obj_def setup_pgdir_def dup_mmap_obj_def exit_mmap_obj_def put_pgdir_def
  mm_destroy_obj_def mm_count_inc_def mm_count_dec_def drop_mm_def

lemma copy_mm_fail:
  assumes e: "fresh_mm e s" and f: "mm_fails e fl s"
  shows "\<exists>r s'. copy_mm e fl p s = Some (r, s') \<and> r \<noteq> 0 \<and> objs_same s s' \<and> table_part s' = table_part s"
proof -
  obtain oldmm where o: "pr_mm (procs s (current s)) = Some oldmm" "fl AND CLONE_VM = 0"
    using f by (auto simp: mm_fails_def)
  consider "fe_mm e = None" | m where "fe_mm e = Some m" "fe_pgdir e = None"
    | m d where "fe_mm e = Some m" "fe_pgdir e = Some d" "fe_dup_mmap e \<noteq> 0"
    using f by (auto simp: mm_fails_def)
  then show ?thesis
  proof cases
    case 1
    then show ?thesis using o by (simp add: copy_mm_def life_defs)
  next
    case 2
    then show ?thesis using o e by (auto simp: copy_mm_def life_defs objs_same_def fresh_mm_def)
  next
    case 3
    then show ?thesis using o e by (auto simp: copy_mm_def life_defs objs_same_def fresh_mm_def)
  qed
qed

text \<open>After a successful \<^verbatim>\<open>copy_mm\<close> the child refers to an address space (or to none, for a kernel
  thread) and dropping that reference gives the objects of before.\<close>

lemma copy_mm_undo:
  assumes e: "fresh_mm e s" and v: "mm_valid s" and f: "\<not> mm_fails e fl s" and p: "pr_mm (procs s p) = None" "p \<noteq> current s"
  shows "\<exists>s' mm pa. copy_mm e fl p s = Some (0, s') \<and> table_part s' = table_part (upd_proc p (\<lambda>x. x\<lparr>pr_mm := mm, pgdir := pa\<rparr>) s) \<and>
    (mm = None \<longleftrightarrow> pr_mm (procs s (current s)) = None) \<and>
    live_procs s' = live_procs s \<and> live_kstacks s' = live_kstacks s \<and> live_files s' = live_files s \<and>
    (\<forall>f \<in> live_files s. files_count s' f = files_count s f) \<and>
    (\<forall>t. objs_same s' t \<longrightarrow> table_part t = table_part s' \<longrightarrow>
      (\<exists>u. (case mm of Some m \<Rightarrow> drop_mm m t | None \<Rightarrow> Some t) = Some u \<and> objs_same s u \<and> table_part u = table_part t))"
proof (cases "pr_mm (procs s (current s))")
  case None
  have "upd_proc p (\<lambda>x. x\<lparr>pr_mm := None, pgdir := pgdir (procs s p)\<rparr>) s = s"
    using p(1) by (simp add: upd_proc_def fun_upd_idem)
  then show ?thesis using None
    by (intro exI [of _ s] exI [of _ None] exI [of _ "pgdir (procs s p)"]) (simp add: copy_mm_def)
next
  case (Some oldmm)
  have old: "oldmm \<in> live_mms s" "1 \<le> mm_count s oldmm" "KERNBASE \<le> mm_pgdir s oldmm"
    using v Some by (auto simp: mm_valid_def)
  show ?thesis
  proof (cases "fl AND CLONE_VM = 0")
    case False
    let ?s' = "upd_proc p (\<lambda>x. x\<lparr>pr_mm := Some oldmm, pgdir := mm_pgdir s oldmm - va_pa_offset\<rparr>) (mm_count_inc oldmm s)"
    have "copy_mm e fl p s = Some (0, ?s')"
      using Some False old by (simp add: copy_mm_def Let_def mm_count_inc_def PADDR_kernel)
    moreover have "\<exists>u. drop_mm oldmm t = Some u \<and> objs_same s u \<and> table_part u = table_part t"
      if "objs_same ?s' t" "table_part t = table_part ?s'" for t
      using that old by (auto simp: drop_mm_def mm_count_dec_def mm_count_inc_def objs_same_def upd_proc_def)
    ultimately show ?thesis using Some
      by (intro exI [of _ ?s'] exI [of _ "Some oldmm"] exI [of _ "mm_pgdir s oldmm - va_pa_offset"])
        (simp add: mm_count_inc_def upd_proc_def table_part_def ptable.truncate_def)
  next
    case True
    then obtain m d where md: "fe_mm e = Some m" "fe_pgdir e = Some d" "fe_dup_mmap e = 0"
      using f Some by (auto simp: mm_fails_def)
    have fr: "m \<notin> live_mms s" "d \<notin> live_pgdirs s" "KERNBASE \<le> d" using e md by (auto simp: fresh_mm_def)
    let ?s' = "upd_proc p (\<lambda>x. x\<lparr>pr_mm := Some m, pgdir := d - va_pa_offset\<rparr>)
      (s\<lparr>live_mms := insert m (live_mms s), mm_pgdir := (mm_pgdir s)(m := d), live_pgdirs := insert d (live_pgdirs s),
        mm_mapped := insert m (mm_mapped s), mm_count := (mm_count s)(m := 1)\<rparr>)"
    have "copy_mm e fl p s = Some (0, ?s')"
      using Some True md fr by (simp add: copy_mm_def Let_def life_defs PADDR_kernel upd_proc_def)
    moreover have "\<exists>u. drop_mm m t = Some u \<and> objs_same s u \<and> table_part u = table_part t"
      if "objs_same ?s' t" "table_part t = table_part ?s'" for t
      using that fr by (auto simp: life_defs objs_same_def upd_proc_def)
    ultimately show ?thesis using Some
      by (intro exI [of _ ?s'] exI [of _ "Some m"] exI [of _ "d - va_pa_offset"])
        (simp add: upd_proc_def table_part_def ptable.truncate_def)
  qed
qed

lemma copy_files_fail:
  assumes e: "fresh_files e s" and f: "files_fail e fl" and c: "filesp (procs s (current s)) \<noteq> None"
  shows "\<exists>r s'. copy_files e fl p s = Some (r, s') \<and> r \<noteq> 0 \<and> objs_same s s' \<and> table_part s' = table_part s"
proof -
  obtain old where o: "filesp (procs s (current s)) = Some old" using c by auto
  consider "fe_files e = None" "fl AND CLONE_FS = 0"
    | g where "fe_files e = Some g" "fe_dup_files e \<noteq> 0" "fl AND CLONE_FS = 0"
    using f by (auto simp: files_fail_def)
  then show ?thesis
  proof cases
    case 1
    then show ?thesis using o by (simp add: copy_files_def files_create_obj_def)
  next
    case 2
    then show ?thesis using o e
      by (auto simp: copy_files_def files_create_obj_def files_destroy_obj_def objs_same_def fresh_files_def)
  qed
qed

lemma copy_files_ok:
  assumes f: "\<not> files_fail e fl" and c: "filesp (procs s (current s)) \<noteq> None"
  shows "\<exists>g s'. copy_files e fl p s = Some (0, s') \<and> table_part s' = table_part (upd_proc p (\<lambda>x. x\<lparr>filesp := Some g\<rparr>) s) \<and>
    live_procs s' = live_procs s \<and> live_kstacks s' = live_kstacks s \<and> live_mms s' = live_mms s \<and> live_pgdirs s' = live_pgdirs s"
proof -
  obtain old where o: "filesp (procs s (current s)) = Some old" using c by auto
  show ?thesis
  proof (cases "fl AND CLONE_FS = 0")
    case False
    then show ?thesis using o
      by (intro exI [of _ old])
        (auto simp: copy_files_def Let_def upd_proc_def table_part_def ptable.truncate_def)
  next
    case True
    then obtain g where g: "fe_files e = Some g" "fe_dup_files e = 0" using f by (auto simp: files_fail_def)
    then show ?thesis using o True
      by (intro exI [of _ g])
        (auto simp: copy_files_def Let_def files_create_obj_def upd_proc_def table_part_def ptable.truncate_def)
  qed
qed

text \<open>Only the descriptor of the new process may differ.\<close>

definition table_frame :: "'a kernel_scheme \<Rightarrow> 'a kernel_scheme \<Rightarrow> bool" where
  "table_frame s s' \<longleftrightarrow> table_part s' = table_part (s\<lparr>procs := procs s'\<rparr>) \<and>
     (\<forall>x \<in> live_procs s. procs s' x = procs s x)"

lemma kfree_new:
  assumes o: "objs_same s0 u" and s0: "live_procs s0 = insert p L" "p \<notin> L"
    "live_kstacks s0 = live_kstacks s" "live_mms s0 = live_mms s" "live_pgdirs s0 = live_pgdirs s" "live_files s0 = live_files s"
    "mm_count s0 = mm_count s" "mm_pgdir s0 = mm_pgdir s" "mm_mapped s0 = mm_mapped s" "files_count s0 = files_count s"
    and L: "L = live_procs s"
  shows "\<exists>s'. bad_fork_cleanup_proc p r u = Some (r, s') \<and> objs_same s s' \<and> table_part s' = table_part u"
  using assms by (auto simp: bad_fork_cleanup_proc_def kfree_proc_def objs_same_def)

text \<open>The states on the way: the descriptor and the stack of the child are allocated.\<close>

definition fork_state :: "u64 \<Rightarrow> nat \<Rightarrow> nat \<Rightarrow> 'a kernel_scheme \<Rightarrow> 'a kernel_scheme" where
  "fork_state b p k s = snd (setup_kstack (Some k) p (snd (alloc_proc b (Some p) s)))"

lemma fork_state_sel [simp]:
  "procs (fork_state b p k s) = (procs s)(p := (init_proc b)\<lparr>kstack := Some k\<rparr>)"
  "current (fork_state b p k s) = current s" "live_procs (fork_state b p k s) = insert p (live_procs s)"
  "live_kstacks (fork_state b p k s) = insert k (live_kstacks s)" "live_mms (fork_state b p k s) = live_mms s"
  "live_pgdirs (fork_state b p k s) = live_pgdirs s" "live_files (fork_state b p k s) = live_files s"
  "mm_count (fork_state b p k s) = mm_count s" "mm_pgdir (fork_state b p k s) = mm_pgdir s"
  "mm_mapped (fork_state b p k s) = mm_mapped s" "files_count (fork_state b p k s) = files_count s"
  "table_part (fork_state b p k s) = table_part (s\<lparr>procs := (procs s)(p := (init_proc b)\<lparr>kstack := Some k\<rparr>)\<rparr>)"
  by (simp_all add: fork_state_def alloc_proc_def setup_kstack_def upd_proc_def table_part_def ptable.truncate_def)

lemma fork_state_table [simp]:
  "rq (fork_state b p k s) = rq s" "cls (fork_state b p k s) = cls s" "idleproc (fork_state b p k s) = idleproc s"
  "initproc (fork_state b p k s) = initproc s" "sie (fork_state b p k s) = sie s" "timers (fork_state b p k s) = timers s"
  "timer_list (fork_state b p k s) = timer_list s" "proc_list (fork_state b p k s) = proc_list s"
  "hash_list (fork_state b p k s) = hash_list s" "nr_process (fork_state b p k s) = nr_process s"
  "next_safe (fork_state b p k s) = next_safe s" "last_pid (fork_state b p k s) = last_pid s"
  by (simp_all add: fork_state_def alloc_proc_def setup_kstack_def upd_proc_def)

lemma do_fork_start:
  assumes "nr_process s < MAX_PROCESS" "fe_proc e = Some p" "fe_kstack e = Some k"
  shows "do_fork b forkret e fl stack regs s = do {
     (r, s3) \<leftarrow> copy_mm e fl p (fork_state b p k s);
     if r \<noteq> 0 then bad_fork_cleanup_kstack p (- E_NO_MEM) s3
     else do {
       (r, s4) \<leftarrow> copy_files e fl p s3;
       if r \<noteq> 0 then bad_fork_cleanup_mm p (- E_NO_MEM) s4
       else fork_publish forkret p stack regs s4
     }}"
  using assms by (simp add: do_fork_def alloc_proc_def setup_kstack_def fork_state_def)

text \<open>Unwinding from the label \<^verbatim>\<open>bad_fork_cleanup_kstack\<close>.\<close>

lemma cleanup_kstack:
  assumes o: "objs_same (fork_state b p k s) u" and t: "kstack (procs u p) = Some k"
    and fresh: "p \<notin> live_procs s" "k \<notin> live_kstacks s"
  shows "\<exists>s'. bad_fork_cleanup_kstack p r u = Some (r, s') \<and> objs_same s s' \<and> table_part s' = table_part u"
  using assms
  by (auto simp: bad_fork_cleanup_kstack_def put_kstack_def bad_fork_cleanup_proc_def kfree_proc_def objs_same_def)

lemma table_frame_part:
  assumes "table_part s' = table_part (upd_proc p f s)" "p \<notin> live_procs s"
  shows "table_frame s s'"
proof -
  have "procs s' = procs (upd_proc p f s)" using assms(1) table_part_procs by blast
  then show ?thesis using assms by (auto simp: table_frame_def upd_proc_def)
qed

lemma fork_failure:
  assumes e: "env_fresh e s" and v: "mm_valid s" and c: "current s \<in> live_procs s" "filesp (procs s (current s)) \<noteq> None"
    and f: "fork_fails e fl s"
  shows "\<exists>s'. do_fork b forkret e fl stack regs s =
      Some (if nr_process s \<ge> MAX_PROCESS then - E_NO_FREE_PROC else - E_NO_MEM, s') \<and>
    objs_same s s' \<and> table_frame s s'"
proof -
  have refl: "table_frame s s" by (simp add: table_frame_def)
  consider "nr_process s \<ge> MAX_PROCESS" | "nr_process s < MAX_PROCESS" "fe_proc e = None"
    | p where "nr_process s < MAX_PROCESS" "fe_proc e = Some p" "fe_kstack e = None"
    | p k where "nr_process s < MAX_PROCESS" "fe_proc e = Some p" "fe_kstack e = Some k" "mm_fails e fl s \<or> files_fail e fl"
    using f by (cases "fe_proc e"; cases "fe_kstack e"; force simp: fork_fails_def)
  then show ?thesis
  proof cases
    case 1
    then show ?thesis using refl by (simp add: do_fork_def)
  next
    case 2
    then show ?thesis using refl by (simp add: do_fork_def alloc_proc_def)
  next
    case 3
    have p: "p \<notin> live_procs s" using e 3 by (simp add: env_fresh_def)
    let ?s1 = "(upd_proc p (\<lambda>_. init_proc b) s)\<lparr>live_procs := insert p (live_procs s)\<rparr>"
    have "\<exists>s'. bad_fork_cleanup_proc p (- E_NO_MEM) ?s1 = Some (- E_NO_MEM, s') \<and> objs_same s s' \<and> table_part s' = table_part ?s1"
      by (rule kfree_new [where L = "live_procs s", OF objs_same_refl]) (use p in \<open>simp_all add: upd_proc_def\<close>)
    then show ?thesis using 3 table_frame_part [OF _ p] by (auto simp: do_fork_def alloc_proc_def setup_kstack_def)
  next
    case 4
    have fresh: "p \<notin> live_procs s" "k \<notin> live_kstacks s" using e 4 by (simp_all add: env_fresh_def)
    have pc: "p \<noteq> current s" using fresh c(1) by auto
    let ?s2 = "fork_state b p k s"
    have e2: "fresh_mm e ?s2" "fresh_files e ?s2" using e by (simp_all add: env_fresh_def fresh_mm_def fresh_files_def)
    have v2: "mm_valid ?s2" using v pc by (simp add: mm_valid_def)
    have m2: "mm_fails e fl ?s2 = mm_fails e fl s" using pc by (simp add: mm_fails_def)
    note start = do_fork_start [OF 4(1-3), of b forkret fl stack regs]
    show ?thesis
    proof (cases "mm_fails e fl s")
      case True
      from copy_mm_fail [OF e2(1), of fl p] m2 True obtain r0 s3 where
        s3: "copy_mm e fl p ?s2 = Some (r0, s3)" "r0 \<noteq> 0" "objs_same ?s2 s3" "table_part s3 = table_part ?s2" by blast
      have "kstack (procs s3 p) = Some k" using table_part_procs [OF s3(4)] by simp
      from cleanup_kstack [OF s3(3) this fresh, of "- E_NO_MEM"] obtain s' where
        s': "bad_fork_cleanup_kstack p (- E_NO_MEM) s3 = Some (- E_NO_MEM, s')" "objs_same s s'" "table_part s' = table_part s3"
        by blast
      have "table_frame s s'"
        by (rule table_frame_part [of _ p "\<lambda>_. (init_proc b)\<lparr>kstack := Some k\<rparr>"]) (use s' s3 fresh in \<open>simp_all add: upd_proc_def\<close>)
      then show ?thesis using 4 start s3(1,2) s'(1,2) by auto
    next
      case False
      then have ff: "files_fail e fl" using 4 by simp
      have "\<not> mm_fails e fl ?s2" "pr_mm (procs ?s2 p) = None" "p \<noteq> current ?s2"
        using False m2 pc by (simp_all add: init_proc_def)
      from copy_mm_undo [OF e2(1) v2 this] obtain s3 mm pa where
        s3: "copy_mm e fl p ?s2 = Some (0, s3)" "table_part s3 = table_part (upd_proc p (\<lambda>x. x\<lparr>pr_mm := mm, pgdir := pa\<rparr>) ?s2)"
        "live_files s3 = live_files ?s2"
        and undo: "\<And>t. objs_same s3 t \<Longrightarrow> table_part t = table_part s3 \<Longrightarrow>
          \<exists>u. (case mm of Some m \<Rightarrow> drop_mm m t | None \<Rightarrow> Some t) = Some u \<and> objs_same ?s2 u \<and> table_part u = table_part t"
        by blast
      have p3: "procs s3 = procs (upd_proc p (\<lambda>x. x\<lparr>pr_mm := mm, pgdir := pa\<rparr>) ?s2)" "current s3 = current s"
        using table_part_procs [OF s3(2)] by simp_all
      have "fresh_files e s3" "filesp (procs s3 (current s3)) \<noteq> None"
        using e2(2) c(2) pc s3(3) by (simp_all add: fresh_files_def p3)
      from copy_files_fail [OF this(1) ff this(2), of p] obtain r4 s4 where
        s4: "copy_files e fl p s3 = Some (r4, s4)" "r4 \<noteq> 0" "objs_same s3 s4" "table_part s4 = table_part s3" by blast
      from undo [OF s4(3,4)] obtain u where
        u: "(case mm of Some m \<Rightarrow> drop_mm m s4 | None \<Rightarrow> Some s4) = Some u" "objs_same ?s2 u" "table_part u = table_part s4"
        by blast
      have p4: "procs s4 p = (init_proc b)\<lparr>kstack := Some k, pr_mm := mm, pgdir := pa\<rparr>"
        using table_part_procs [OF s4(4)] p3 by simp
      have "kstack (procs u p) = Some k" using table_part_procs [OF u(3)] p4 by simp
      from cleanup_kstack [OF u(2) this fresh, of "- E_NO_MEM"] obtain s' where
        s': "bad_fork_cleanup_kstack p (- E_NO_MEM) u = Some (- E_NO_MEM, s')" "objs_same s s'" "table_part s' = table_part u"
        by blast
      have "bad_fork_cleanup_mm p (- E_NO_MEM) s4 = Some (- E_NO_MEM, s')"
        using u(1) p4 s'(1) by (simp add: bad_fork_cleanup_mm_def)
      moreover have "table_frame s s'"
        by (rule table_frame_part [of _ p "\<lambda>_. (init_proc b)\<lparr>kstack := Some k, pr_mm := mm, pgdir := pa\<rparr>"])
          (use s'(3) u(3) s4(4) s3(2) fresh in \<open>simp_all add: upd_proc_def table_part_def ptable.truncate_def\<close>)
      ultimately show ?thesis using 4 start s3(1) s4(1,2) s'(2) by auto
    qed
  qed
qed

section \<open>Successful creation\<close>

lemma ptable_more_kernel:
  assumes "ptable.more (s' :: 'a kernel_scheme) = ptable.more s"
  shows "live_procs s' = live_procs s" "live_kstacks s' = live_kstacks s" "live_mms s' = live_mms s"
    "live_pgdirs s' = live_pgdirs s" "live_files s' = live_files s" "trapframes s' = trapframes s"
    "mm_count s' = mm_count s" "mm_pgdir s' = mm_pgdir s" "mm_mapped s' = mm_mapped s" "files_count s' = files_count s"
    "ustore s' = ustore s"
  using assms by (cases s; cases s'; simp)+

lemma ptable_more_trapframes:
  "ptable.more (t :: 'a kernel_scheme) = ptable.more t' \<Longrightarrow> ptable.more (t\<lparr>trapframes := f\<rparr>) = ptable.more (t'\<lparr>trapframes := f\<rparr>)"
  by (cases t; cases t') simp

lemma ptable_more_upd [simp]: "ptable.more (upd_proc p f s) = ptable.more s"
  by (simp add: upd_proc_def)

lemma link_more: "link_proc p s = Some s' \<Longrightarrow> ptable.more s' = ptable.more s"
  by (auto simp: link_proc_def hash_proc_def set_links_def Let_def kspec split: option.splits)

lemma unlink_more: "unlink_proc p s = Some s' \<Longrightarrow> ptable.more s' = ptable.more s"
  by (auto simp: unlink_proc_def unhash_proc_def remove_links_def Let_def kspec split: option.splits)

lemma table_part_all:
  assumes "table_part s = table_part t"
  shows "procs s = procs t" "rq s = rq t" "cls s = cls t" "current s = current t" "idleproc s = idleproc t"
    "initproc s = initproc t" "sie s = sie t" "proc_list s = proc_list t" "hash_list s = hash_list t"
    "nr_process s = nr_process t" "next_safe s = next_safe t" "last_pid s = last_pid t"
  using assms by (cases s; cases t; simp add: table_part_def ptable.truncate_def)+

text \<open>\<open>sys_ok c I s kids\<close>: the process table and the run queue agree on the live processes.\<close>

definition sys_ok :: "sched_class \<Rightarrow> (rq_state \<Rightarrow> nat set \<Rightarrow> bool) \<Rightarrow> 'a kernel_scheme \<Rightarrow> (nat \<Rightarrow> nat list) \<Rightarrow> bool" where
  "sys_ok c I s kids \<longleftrightarrow> table_ok s kids \<and> rq_exact c I s (live_procs s) \<and> set (proc_list s) \<subseteq> live_procs s \<and>
     (\<forall>x. x \<in> set (proc_list s) \<longleftrightarrow> (\<exists>q. x \<in> set (kids q))) \<and>
     (\<forall>q. q \<notin> live_procs s \<or> state (procs s q) = PROC_ZOMBIE \<longrightarrow> kids q = []) \<and>
     state (procs s (current s)) = PROC_RUNNABLE"

definition child_frame :: "u64 \<Rightarrow> u64 \<Rightarrow> trapframe \<Rightarrow> trapframe" where
  "child_frame t stack regs = regs\<lparr>gpr := (gpr regs)(reg_a0 := 0, reg_sp := (if stack = 0 then t else stack))\<rparr>"

context sched_policy
begin

lemma publish_ok:
  assumes sys: "sys_ok c inv s kids" and n: "nr_process s < MAX_PROCESS"
    and s4: "table_part s4 = table_part (s\<lparr>procs := (procs s)(p := q)\<rparr>)" and p: "p \<notin> live_procs s"
    and q: "state q = PROC_UNINIT" "kstack q = Some k" "cptr q = None"
  shows "\<exists>r s'. fork_publish forkret p stack regs s4 = Some (r, s') \<and> r \<notin> pid ` procs s ` set (proc_list s) \<and> 1 \<le> r \<and>
    table_ok s' (kids(current s := p # kids (current s))) \<and> rq_exact c inv s' (insert p (live_procs s)) \<and>
    proc_list s' = p # proc_list s \<and> pid (procs s' p) = r \<and> state (procs s' p) = PROC_RUNNABLE \<and>
    (\<forall>x. x \<noteq> p \<longrightarrow> state (procs s' x) = state (procs s x)) \<and> current s' = current s \<and>
    ptable.more s' = ptable.more (s4\<lparr>trapframes := (trapframes s4)
      (of_nat k + KSTACKSIZE - 288 := child_frame (of_nat k + KSTACKSIZE - 288) stack regs)\<rparr>) \<and>
    tf (procs s' p) = of_nat k + KSTACKSIZE - 288 \<and> ctx_ra (procs s' p) = forkret \<and> ctx_sp (procs s' p) = tf (procs s' p) \<and>
    kstack (procs s' p) = Some k \<and> pr_mm (procs s' p) = pr_mm q \<and> filesp (procs s' p) = filesp q"
proof -
  note e4 = table_part_all [OF s4]
  let ?cu = "current s" and ?L = "live_procs s" and ?t = "of_nat k + KSTACKSIZE - 288 :: u64"
  have tab: "table_ok s kids" "rq_exact c inv s ?L" "set (proc_list s) \<subseteq> ?L"
    "\<forall>x. x \<in> set (proc_list s) \<longleftrightarrow> (\<exists>q. x \<in> set (kids q))" "\<forall>q. q \<notin> ?L \<longrightarrow> kids q = []"
    using sys by (auto simp: sys_ok_def)
  have cu: "?cu \<in> ?L" "p \<noteq> ?cu" using tab(2) p by (auto simp: rq_exact_def)
  have pl: "p \<notin> set (proc_list s)" using tab(3) p by auto
  have pk: "p \<notin> set (kids q)" for q using tab(4) pl by blast
  have eq: "procs s4 x = procs s x" if "x \<noteq> p" for x using that by (simp add: e4)
  have pids: "pids_ok s4"
  proof (rule pids_ok_cong)
    show "pids_ok s" using tab(1) by (simp add: table_ok_def)
    show "\<forall>x \<in> set (proc_list s). pid (procs s4 x) = pid (procs s x)" using pl eq by metis
  qed (simp_all add: e4)
  have len: "length (proc_list s4) < 8191" using tab(1) n by (simp add: table_ok_def e4(8))
  have img: "pid ` procs s4 ` set (proc_list s4) = pid ` procs s ` set (proc_list s)"
    unfolding image_image e4(8) simp_thms ptable.simps
  proof (rule image_cong)
    fix x assume "x \<in> set (proc_list s)"
    then show "pid (procs s4 x) = pid (procs s x)" using pl eq by metis
  qed (simp add: e4)
  obtain r safe where gp: "get_pid s4 = Some (r, s4\<lparr>last_pid := r, next_safe := safe\<rparr>)"
    "pid_ok (pid ` procs s ` set (proc_list s)) (r, safe)"
    using get_pid_fresh [OF len _ _ refl] pids unfolding pids_ok_def img by blast
  let ?s1 = "s4\<lparr>last_pid := r, next_safe := safe\<rparr>"
  let ?s4 = "upd_proc ?cu (\<lambda>x. x\<lparr>wait_state := 0\<rparr>) (upd_proc p (\<lambda>x. x\<lparr>parent := Some ?cu\<rparr>) (upd_proc p (\<lambda>x. x\<lparr>pid := r\<rparr>) ?s1))"
  let ?s5 = "(upd_proc p (\<lambda>x. x\<lparr>tf := ?t, ctx_ra := forkret, ctx_sp := ?t\<rparr>) ?s4)
     \<lparr>trapframes := (trapframes s4)(?t := child_frame ?t stack regs)\<rparr>"
  have tfs: "trapframes ?s4 = trapframes s4" by (simp add: upd_proc_def)
  have "kstack (procs ?s4 p) = Some k" using q cu by (simp add: e4)
  then have ct: "copy_thread forkret p stack regs ?s4 = Some ?s5"
    by (simp add: copy_thread_def child_frame_def tfs Let_def)
  define s5 where "s5 = ?s5"
  have sel5: "procs s5 x = (if x = p then q\<lparr>pid := r, parent := Some ?cu, tf := ?t, ctx_ra := forkret, ctx_sp := ?t\<rparr>
      else if x = ?cu then (procs s x)\<lparr>wait_state := 0\<rparr> else procs s x)" for x
    using cu by (simp add: s5_def e4)
  have fld: "proc_list s5 = proc_list s" "hash_list s5 = hash_list s" "nr_process s5 = nr_process s"
    "last_pid s5 = r" "next_safe s5 = safe" "rq s5 = rq s" "cls s5 = cls s" "current s5 = ?cu" "idleproc s5 = idleproc s"
    by (simp_all add: s5_def e4)
  have same: "pid (procs s5 x) = pid (procs s x)" if "x \<in> set (proc_list s)" for x
    using that pl by (auto simp: sel5)
  have pidp: "pid (procs s5 p) = r" "parent (procs s5 p) = Some ?cu" by (simp_all add: sel5)
  have img5: "pid ` procs s5 ` set (proc_list s5) = pid ` procs s ` set (proc_list s)"
    unfolding fld image_image by (rule image_cong) (simp_all add: same)
  have fam: "family (procs s5) kids"
    unfolding family_def
  proof (intro conjI allI impI)
    fix y
    have "\<forall>x \<in> set (kids y). yptr (procs s5 x) = yptr (procs s x) \<and> optr (procs s5 x) = optr (procs s x)"
      using pk [of y] by (auto simp: sel5)
    moreover have "cptr (procs s5 y) = cptr (procs s y) \<or> y = p" by (simp add: sel5)
    moreover have "sibs (procs s5) None (cptr (procs s5 p)) (kids p)" using tab(5) p q(3) by (simp add: sel5)
    moreover have "family (procs s) kids" using tab(1) by (simp add: table_ok_def)
    ultimately show "sibs (procs s5) None (cptr (procs s5 y)) (kids y)"
      using sibs_cong [of "kids y" "procs s5" "procs s"] familyD(1) [of "procs s" kids y] by metis
  next
    have f: "family (procs s) kids" using tab(1) by (simp add: table_ok_def)
    fix y show "distinct (kids y)" "y \<notin> set (kids y)" using familyD(2,3) [OF f] by blast+
    fix x assume x: "x \<in> set (kids y)"
    then have "x \<noteq> p" using pk by auto
    then show "parent (procs s5 x) = Some y" using familyD(4) [OF f x] by (auto simp: sel5)
  qed
  have "hash_ok s5" "nr_process s5 = int (length (proc_list s5)) + 1" "distinct (proc_list s5)"
    "inj_on (\<lambda>x. pid (procs s5 x)) (set (proc_list s5))"
    "\<forall>x \<in> set (proc_list s5). 1 \<le> pid (procs s5 x) \<and> pid (procs s5 x) < MAX_PID"
    using tab(1) same unfolding table_ok_def pids_ok_def hash_ok_def fld
    by (auto cong: inj_on_cong)
  then obtain s6 where s6: "link_proc p s5 = Some s6" "table_ok s6 (kids(?cu := p # kids ?cu))" "proc_list s6 = p # proc_list s"
    using link_proc_ok [of s5 kids p ?cu] fam gp(2) img5 pl pk pidp cu(2) fld by metis
  have l6: "links_step s5 s6" "ptable.more s6 = ptable.more s5"
    using link_unlink_step(1) [OF s6(1)] link_more [OF s6(1)] .
  have lo: "links_only (procs s5 x) (procs s6 x)" for x using l6(1) by (simp add: links_step_def)
  have rq5: "rq_exact c inv s5 (insert p ?L)"
    by (rule rq_exact_cong [OF tab(2)]) (use p q(1) fld in \<open>auto simp: sel5\<close>)
  have rq6: "rq_exact c inv s6 (insert p ?L)" by (rule rq_exact_links [OF rq5 l6(1)])
  have st6: "state (procs s6 p) = PROC_UNINIT" using links_only_fields(1) [OF lo] q(1) by (simp add: sel5)
  obtain s' w where s': "wakeup_proc p s6 = Some s'" "rq_exact c inv s' (insert p ?L)" "state (procs s' p) = PROC_RUNNABLE"
    "\<forall>x. x \<noteq> p \<longrightarrow> procs s' x = procs s6 x" "current s' = current s6"
    "same_task ((procs s6 p)\<lparr>state := PROC_RUNNABLE, wait_state := w\<rparr>) (procs s' p)"
    using wakeup_exact [OF rq6, of p] st6 by auto
  note sh = sched_shape_ptable [OF wakeup_proc_shape [OF s'(1)]]
  have tk: "table_ok s' (kids(?cu := p # kids ?cu))"
    by (rule table_ok_cong [OF s6(2)]) (use sh s'(4) same_task_fields [OF s'(6)] in auto)
  have fp: "pid (procs s' p) = r" "tf (procs s' p) = ?t" "kstack (procs s' p) = Some k" "pr_mm (procs s' p) = pr_mm q"
    "filesp (procs s' p) = filesp q" "ctx_ra (procs s' p) = forkret" "ctx_sp (procs s' p) = ?t"
    using same_task_fields [OF s'(6)] links_only_fields [OF lo, of p] q by (simp_all add: sel5)
  have stx: "state (procs s' x) = state (procs s x)" if "x \<noteq> p" for x
    using that s'(4) links_only_fields(1) [OF lo, of x] by (simp add: sel5)
  have cus: "current s' = ?cu" using s'(5) l6(1) fld by (simp add: links_step_def)
  have fin: "fork_publish forkret p stack regs s4 = Some (r, s')"
    using gp(1) ct [folded s5_def] s6(1) s'(1) fp(1) e4(4) by (simp add: fork_publish_def Let_def)
  have "ptable.more s' = ptable.more (s4\<lparr>trapframes := (trapframes s4)(?t := child_frame ?t stack regs)\<rparr>)"
    unfolding sh(6) l6(2) s5_def by (rule ptable_more_trapframes) simp
  then show ?thesis using fin gp(2) tk s'(2,3) sh(1) s6(3) fp stx cus by (simp add: pid_ok_def)
qed

end

context sched_policy
begin

lemma fork_success:
  assumes sys: "sys_ok c inv s kids" and e: "env_fresh e s" and v: "mm_valid s"
    and fs: "filesp (procs s (current s)) \<noteq> None" and f: "\<not> fork_fails e fl s"
  shows "\<exists>r s' p. do_fork b forkret e fl stack regs s = Some (r, s') \<and> fe_proc e = Some p \<and>
    1 \<le> r \<and> r \<notin> pid ` procs s ` set (proc_list s) \<and>
    sys_ok c inv s' (kids(current s := p # kids (current s))) \<and> live_procs s' = insert p (live_procs s) \<and>
    pid (procs s' p) = r \<and> state (procs s' p) = PROC_RUNNABLE \<and> ctx_ra (procs s' p) = forkret \<and>
    trapframes s' (tf (procs s' p)) = child_frame (tf (procs s' p)) stack regs \<and>
    (pr_mm (procs s' p) = None \<longleftrightarrow> pr_mm (procs s (current s)) = None) \<and> filesp (procs s' p) \<noteq> None"
proof -
  obtain p k where pk: "fe_proc e = Some p" "fe_kstack e = Some k" "nr_process s < MAX_PROCESS"
    "\<not> mm_fails e fl s" "\<not> files_fail e fl"
    using f by (auto simp: fork_fails_def)
  have fresh: "p \<notin> live_procs s" "k \<notin> live_kstacks s" using e pk by (simp_all add: env_fresh_def)
  have cu: "current s \<in> live_procs s" using sys by (simp add: sys_ok_def rq_exact_def)
  have pc: "p \<noteq> current s" using fresh cu by auto
  let ?s2 = "fork_state b p k s" and ?t = "of_nat k + KSTACKSIZE - 288 :: u64"
  have e2: "fresh_mm e ?s2" using e by (simp add: env_fresh_def fresh_mm_def)
  have v2: "mm_valid ?s2" using v pc by (simp add: mm_valid_def)
  have "\<not> mm_fails e fl ?s2" "pr_mm (procs ?s2 p) = None" "p \<noteq> current ?s2"
    using pk pc by (simp_all add: init_proc_def mm_fails_def)
  from copy_mm_undo [OF e2 v2 this] obtain s3 mm pa where
    s3: "copy_mm e fl p ?s2 = Some (0, s3)" "table_part s3 = table_part (upd_proc p (\<lambda>x. x\<lparr>pr_mm := mm, pgdir := pa\<rparr>) ?s2)"
    "mm = None \<longleftrightarrow> pr_mm (procs ?s2 (current ?s2)) = None" "live_procs s3 = live_procs ?s2"
    by (elim exE conjE) (rule that)
  have p3: "procs s3 = procs (upd_proc p (\<lambda>x. x\<lparr>pr_mm := mm, pgdir := pa\<rparr>) ?s2)" "current s3 = current s"
    using table_part_procs [OF s3(2)] by simp_all
  have "filesp (procs s3 (current s3)) \<noteq> None" using fs pc by (simp add: p3)
  from copy_files_ok [OF pk(5) this, of p] obtain g s4 where
    s4: "copy_files e fl p s3 = Some (0, s4)" "table_part s4 = table_part (upd_proc p (\<lambda>x. x\<lparr>filesp := Some g\<rparr>) s3)"
    "live_procs s4 = live_procs s3" by blast
  let ?q = "(init_proc b)\<lparr>kstack := Some k, pr_mm := mm, pgdir := pa, filesp := Some g\<rparr>"
  have t4: "table_part s4 = table_part (s\<lparr>procs := (procs s)(p := ?q)\<rparr>)"
    using s4(2) s3(2) by (simp add: upd_proc_def table_part_def ptable.truncate_def)
  obtain r s' where
    s': "fork_publish forkret p stack regs s4 = Some (r, s')" "r \<notin> pid ` procs s ` set (proc_list s)" "1 \<le> r"
    "table_ok s' (kids(current s := p # kids (current s)))" "rq_exact c inv s' (insert p (live_procs s))"
    "proc_list s' = p # proc_list s" "pid (procs s' p) = r" "state (procs s' p) = PROC_RUNNABLE"
    "ptable.more s' = ptable.more (s4\<lparr>trapframes := (trapframes s4)(?t := child_frame ?t stack regs)\<rparr>)"
    "tf (procs s' p) = ?t" "ctx_ra (procs s' p) = forkret" "pr_mm (procs s' p) = mm" "filesp (procs s' p) = Some g"
    "\<forall>x. x \<noteq> p \<longrightarrow> state (procs s' x) = state (procs s x)" "current s' = current s"
    using publish_ok [OF sys pk(3) t4 fresh(1), of k forkret stack regs] by (auto simp: init_proc_def)
  note m = ptable_more_kernel [OF s'(9)]
  have l: "live_procs s' = insert p (live_procs s)" using m(1) s4(3) s3(4) by simp
  have "trapframes s' (tf (procs s' p)) = child_frame (tf (procs s' p)) stack regs" using m(6) s'(10) by simp
  moreover have "sys_ok c inv s' (kids(current s := p # kids (current s)))"
    unfolding sys_ok_def kids_cons
  proof (intro conjI)
    show "\<forall>q. q \<notin> live_procs s' \<or> state (procs s' q) = PROC_ZOMBIE \<longrightarrow> (kids(current s := p # kids (current s))) q = []"
    proof (intro allI impI)
      fix q assume q: "q \<notin> live_procs s' \<or> state (procs s' q) = PROC_ZOMBIE"
      then have qp: "q \<noteq> p" using l s'(8) by auto
      then have qz: "q \<notin> live_procs s \<or> state (procs s q) = PROC_ZOMBIE" using q l s'(14) by simp
      then have "q \<noteq> current s" using cu sys by (auto simp: sys_ok_def)
      then show "(kids(current s := p # kids (current s))) q = []" using sys qz by (simp add: sys_ok_def)
    qed
    show "state (procs s' (current s')) = PROC_RUNNABLE" using sys s'(14,15) pc by (simp add: sys_ok_def)
    show "\<forall>x. (x \<in> set (proc_list s')) = (x = p \<or> (\<exists>q. x \<in> set (kids q)))" "set (proc_list s') \<subseteq> live_procs s'"
      using sys s'(6) l by (auto simp: sys_ok_def)
  qed (use s'(4,5) l in simp_all)
  moreover have "do_fork b forkret e fl stack regs s = Some (r, s')"
    using s3(1) s4(1) s'(1) by (simp add: do_fork_start [OF pk(3,1,2)])
  moreover have "mm = None \<longleftrightarrow> pr_mm (procs s (current s)) = None" using s3(3) pc by simp
  ultimately show ?thesis using pk(1) s' l by auto
qed

end

section \<open>Properties\<close>

text \<open>The table of \<open>ptable0\<close>; process 1 has an address space 4 and a file table 9.\<close>

definition frame0 :: trapframe where
  "frame0 = \<lparr>gpr = \<lambda>_. 0, status = 0, epc = 0, tval = 0, cause = 0\<rparr>"

definition kernel1 :: kernel where
  "kernel1 = ptable.extend ptable0 (kernel.fields {0, 1, 2} {77} {4} {0xFFFFFFFFC0300000} {9}
     (\<lambda>_. 0xFFFFFFFFC0300000) (\<lambda>_. 1) {4} (\<lambda>_. 1) (\<lambda>_. frame0) (\<lambda>_. 0))"

lemma kernel1_sel [simp]:
  "procs kernel1 = procs ptable0" "proc_list kernel1 = [2, 1]" "nr_process kernel1 = 3" "current kernel1 = 1"
  "idleproc kernel1 = 0" "initproc kernel1 = 1" "live_procs kernel1 = {0, 1, 2}" "live_kstacks kernel1 = {77}"
  "live_mms kernel1 = {4}" "live_pgdirs kernel1 = {0xFFFFFFFFC0300000}" "live_files kernel1 = {9}"
  "mm_pgdir kernel1 = (\<lambda>_. 0xFFFFFFFFC0300000)" "mm_count kernel1 = (\<lambda>_. 1)" "mm_mapped kernel1 = {4}"
  "files_count kernel1 = (\<lambda>_. 1)" "rq kernel1 = rq ptable0" "cls kernel1 = stride_sched_class"
  "hash_list kernel1 = hash_list ptable0" "next_safe kernel1 = 8192" "last_pid kernel1 = 2"
  by (simp_all add: kernel1_def ptable.extend_def kernel.fields_def)

lemma ptable0_procs [simp]:
  "state (procs ptable0 (Suc 0)) = PROC_RUNNABLE" "state (procs ptable0 2) = PROC_ZOMBIE"
  "pr_mm (procs ptable0 (Suc 0)) = Some 4" "filesp (procs ptable0 (Suc 0)) = Some 9" "kstack (procs ptable0 2) = Some 77" "parent (procs ptable0 2) = Some 1"
  "pid (procs ptable0 2) = 2" "wait_state (procs ptable0 x) = 0" "pr_flags (procs ptable0 x) = 0"
  "state (procs ptable0 0) = PROC_RUNNABLE" "exit_code (procs ptable0 2) = 0" "lab6_priority (procs ptable0 x) = 1"
  by (simp_all add: ptable0_def proc0_def)

lemma kernel1_ok: "sys_ok stride_sched_class stride_inv kernel1 kids0"
proof -
  have "table_ok kernel1 kids0" using ptable0_ok by (simp add: table_ok_def pids_ok_def hash_ok_def)
  moreover have "rq_exact stride_sched_class stride_inv kernel1 {0, 1, 2}"
    using ptable0_exact by (simp add: rq_exact_def waiting_to_run_def)
  ultimately show ?thesis by (auto simp: sys_ok_def kids0_def)
qed

text \<open>A \<^verbatim>\<open>do_fork\<close> in which every allocation succeeds.\<close>

definition env1 :: fork_env where
  "env1 = \<lparr>fe_proc = Some 3, fe_kstack = Some 88, fe_mm = Some 5, fe_pgdir = Some 0xFFFFFFFFC0400000,
     fe_dup_mmap = 0, fe_files = Some 10, fe_dup_files = 0\<rparr>"

lemma env1_fresh: "env_fresh env1 kernel1" "mm_valid kernel1"
  by (simp_all add: env_fresh_def fresh_mm_def fresh_files_def env1_def mm_valid_def)



text \<open>C11. When nothing fails, \<^verbatim>\<open>do_fork\<close> returns a pid no listed process has; the new process carries it,
  is the youngest child of the caller, runnable and queued, starts at \<^verbatim>\<open>forkret\<close> on a copy of the trap
  frame whose return value is 0, and shares or copies the address space; process table, hash table,
  family links and run queue stay consistent.\<close>

theorem do_fork_success:
  assumes "sys_ok stride_sched_class stride_inv s kids" and "env_fresh e s" and "mm_valid s"
    and "filesp (procs s (current s)) \<noteq> None" and "\<not> fork_fails e fl s"
  shows "\<exists>r s' p. do_fork b forkret e fl stack regs s = Some (r, s') \<and> fe_proc e = Some p \<and>
    1 \<le> r \<and> r \<notin> pid ` procs s ` set (proc_list s) \<and>
    sys_ok stride_sched_class stride_inv s' (kids(current s := p # kids (current s))) \<and>
    live_procs s' = insert p (live_procs s) \<and>
    pid (procs s' p) = r \<and> state (procs s' p) = PROC_RUNNABLE \<and> ctx_ra (procs s' p) = forkret \<and>
    trapframes s' (tf (procs s' p)) = child_frame (tf (procs s' p)) stack regs \<and>
    (pr_mm (procs s' p) = None \<longleftrightarrow> pr_mm (procs s (current s)) = None) \<and> filesp (procs s' p) \<noteq> None"
  by (rule stride.fork_success [OF assms])

lemma do_fork_success_witness:
  "\<exists>r s'. do_fork 0 64 env1 0 0 frame0 kernel1 = Some (r, s') \<and> r \<noteq> 1 \<and> r \<noteq> 2 \<and> state (procs s' 3) = PROC_RUNNABLE"
proof -
  have "\<not> fork_fails env1 0 kernel1" by (simp add: fork_fails_def files_fail_def mm_fails_def env1_def)
  from do_fork_success [OF kernel1_ok env1_fresh _ this, of 0 64 0 frame0] show ?thesis
    by (auto simp: env1_def ptable0_def)
qed

end
