(* ===== verification/ProcExit.thy ===== *)
theory ProcExit
  imports Proc
begin

text \<open>
  The end of a process: the lemmas and properties of \<^verbatim>\<open>do_exit\<close>, \<^verbatim>\<open>do_wait\<close>, \<^verbatim>\<open>do_kill\<close> and \<^verbatim>\<open>do_sleep\<close>
  (\<^verbatim>\<open>kern/process/proc.c\<close>; the operations are defined in \<open>Proc\<close>). They are proved from the contract of
  the scheduling class and stated for the stride class, which the kernel uses.
\<close>

section \<open>Handing the children over\<close>

text \<open>While the loop of \<^verbatim>\<open>do_exit\<close> runs, the \<^verbatim>\<open>yptr\<close> of the first remaining child of the exiting process
  still points to a sibling that has moved; all else is a family.\<close>

definition family_upto :: "nat \<Rightarrow> proc_table \<Rightarrow> (nat \<Rightarrow> nat list) \<Rightarrow> bool" where
  "family_upto cur ps kids \<longleftrightarrow>
     (\<forall>p. (\<exists>y. (p \<noteq> cur \<longrightarrow> y = None) \<and> sibs ps y (cptr (ps p)) (kids p)) \<and> distinct (kids p) \<and> p \<notin> set (kids p)) \<and>
     (\<forall>p x. x \<in> set (kids p) \<longrightarrow> parent (ps x) = Some p)"

lemma family_imp_upto: "family ps kids \<Longrightarrow> family_upto cur ps kids"
  unfolding family_def family_upto_def by blast

lemma upto_imp_family: "family_upto cur ps kids \<Longrightarrow> kids cur = [] \<Longrightarrow> family ps kids"
  unfolding family_def family_upto_def by (metis sibs.simps(1))

lemma uptoD:
  assumes "family_upto cur ps kids"
  shows "\<exists>y. (p \<noteq> cur \<longrightarrow> y = None) \<and> sibs ps y (cptr (ps p)) (kids p)" "distinct (kids p)" "p \<notin> set (kids p)"
    "x \<in> set (kids p) \<Longrightarrow> parent (ps x) = Some p"
  using assms unfolding family_upto_def by blast+

lemma upto_disjoint: "family_upto cur ps kids \<Longrightarrow> p \<noteq> q \<Longrightarrow> x \<in> set (kids p) \<Longrightarrow> x \<notin> set (kids q)"
  by (metis uptoD(4) option.inject)

lemma family_upto_cong:
  assumes "family_upto cur ps kids"
    and "\<forall>x. parent (ps' x) = parent (ps x) \<and> cptr (ps' x) = cptr (ps x) \<and> yptr (ps' x) = yptr (ps x) \<and> optr (ps' x) = optr (ps x)"
  shows "family_upto cur ps' kids"
  unfolding family_upto_def
proof (intro conjI allI impI)
  fix p
  obtain y where "p \<noteq> cur \<longrightarrow> y = None" "sibs ps y (cptr (ps p)) (kids p)" using uptoD(1) [OF assms(1), of p] by blast
  moreover then have "sibs ps' y (cptr (ps p)) (kids p)" by (intro sibs_cong [of "kids p" ps' ps]) (use assms(2) in auto)
  ultimately show "\<exists>y. (p \<noteq> cur \<longrightarrow> y = None) \<and> sibs ps' y (cptr (ps' p)) (kids p)" using assms(2) by auto
  show "distinct (kids p)" "p \<notin> set (kids p)" using uptoD(2,3) [OF assms(1)] by blast+
  fix x assume "x \<in> set (kids p)"
  then show "parent (ps' x) = Some p" using uptoD(4) [OF assms(1)] assms(2) by simp
qed

text \<open>The links after one child \<open>p\<close> of \<open>cur\<close> has moved to \<open>i\<close>.\<close>

definition moved :: "nat \<Rightarrow> nat \<Rightarrow> nat \<Rightarrow> proc_table \<Rightarrow> proc_table \<Rightarrow> bool" where
  "moved cur i p ps ps' \<longleftrightarrow>
     (\<forall>x. yptr (ps' x) = (if x = p then None else if Some x = cptr (ps i) then Some p else yptr (ps x)) \<and>
        optr (ps' x) = (if x = p then cptr (ps i) else optr (ps x)) \<and>
        cptr (ps' x) = (if x = i then Some p else if x = cur then optr (ps p) else cptr (ps x)) \<and>
        parent (ps' x) = (if x = p then Some i else parent (ps x)))"

lemma moved_family:
  assumes m: "moved cur i p ps ps'" and f: "family_upto cur ps kids" and k: "kids cur = p # ks" and ci: "cur \<noteq> i"
    and pi: "p \<noteq> i"
  shows "family_upto cur ps' (kids(cur := ks, i := p # kids i))"
proof -
  let ?k = "kids(cur := ks, i := p # kids i)" and ?o = "cptr (ps i)"
  have y: "yptr (ps' x) = (if x = p then None else if Some x = ?o then Some p else yptr (ps x))"
    and op: "optr (ps' x) = (if x = p then ?o else optr (ps x))"
    and cp: "cptr (ps' x) = (if x = i then Some p else if x = cur then optr (ps p) else cptr (ps x))"
    and pa: "parent (ps' x) = (if x = p then Some i else parent (ps x))" for x
    using m by (simp_all add: moved_def)
  have pc: "p \<in> set (kids cur)" using k by simp
  have si: "sibs ps None ?o (kids i)" using uptoD(1) [OF f, of i] ci by auto
  have oh: "?o = hdo (kids i)" by (rule sibs_first [OF si])
  have oi: "z \<in> set (kids i)" if "?o = Some z" for z using oh that by (metis hdo_mem)
  have pni: "p \<notin> set (kids i)" by (rule upto_disjoint [OF f ci pc])
  have frame: "sibs ps' w g xs" if "sibs ps w g xs" "p \<notin> set xs" "set xs \<inter> set (kids i) = {}" for w g xs
    by (rule sibs_cong [OF _ that(1)]) (use that(2,3) oi in \<open>auto simp: y op\<close>)
  show ?thesis
    unfolding family_upto_def
  proof (intro conjI allI impI)
    fix q
    show "\<exists>w. (q \<noteq> cur \<longrightarrow> w = None) \<and> sibs ps' w (cptr (ps' q)) (?k q)"
    proof -
      consider "q = i" | "q = cur" | "q \<noteq> i" "q \<noteq> cur" by blast
      then show ?thesis
      proof cases
        case 1
        have "sibs ps' (Some p) ?o (kids i)"
        proof (cases "kids i")
          case (Cons z zs)
          have d: "distinct (z # zs)" using uptoD(2) [OF f, of i] Cons by simp
          have "sibs ps (Some z) (optr (ps z)) zs" using si Cons by simp
          then have "sibs ps' (Some z) (optr (ps z)) zs"
            by (rule sibs_cong [rotated]) (use d oh Cons pni in \<open>auto simp: y op\<close>)
          then show ?thesis using oh Cons pni by (auto simp: y op)
        qed (use oh in simp)
        then show ?thesis using 1 by (simp add: cp y op)
      next
        case 2
        obtain w where "sibs ps w (cptr (ps cur)) (p # ks)" using uptoD(1) [OF f, of cur] k by auto
        then have s: "sibs ps (Some p) (optr (ps p)) ks" by simp
        have "p \<notin> set ks" using uptoD(2) [OF f, of cur] k by simp
        moreover have "set ks \<inter> set (kids i) = {}" using upto_disjoint [OF f ci] k by auto
        ultimately have "sibs ps' (Some p) (optr (ps p)) ks" using frame [OF s] by simp
        then show ?thesis using 2 ci by (auto simp: cp)
      next
        case 3
        have "sibs ps None (cptr (ps q)) (kids q)" using uptoD(1) [OF f, of q] 3 by auto
        moreover have "p \<notin> set (kids q)" using upto_disjoint [OF f _ pc, of q] 3 by auto
        moreover have "set (kids q) \<inter> set (kids i) = {}" using upto_disjoint [OF f 3(1)] by auto
        ultimately have "sibs ps' None (cptr (ps q)) (kids q)" by (rule frame)
        then show ?thesis using 3 by (simp add: cp)
      qed
    qed
    show "distinct (?k q)" "q \<notin> set (?k q)"
      using uptoD(2,3) [OF f, of q] uptoD(2,3) [OF f, of cur] k pni pi by auto
    fix x assume x: "x \<in> set (?k q)"
    have "p \<notin> set ks" using uptoD(2) [OF f, of cur] k by simp
    then show "parent (ps' x) = Some q"
      using x uptoD(4) [OF f, of x q] uptoD(4) [OF f pc] uptoD(4) [OF f, of x cur] k pni
      by (auto simp: pa split: if_splits)
  qed
qed

text \<open>What one turn of the loop does: the links move, and \<^verbatim>\<open>initproc\<close> is woken for a zombie.\<close>

definition adopt_links :: "nat \<Rightarrow> 'a kernel_scheme \<Rightarrow> 'a kernel_scheme" where
  "adopt_links p s =
     (let s2 = upd_proc p (\<lambda>x. x\<lparr>yptr := None\<rparr>) (upd_proc (current s) (\<lambda>x. x\<lparr>cptr := optr (procs s p)\<rparr>) s);
          first = cptr (procs s2 (initproc s2));
          s3 = upd_proc p (\<lambda>x. x\<lparr>optr := first\<rparr>) s2;
          s4 = (case first of Some q \<Rightarrow> upd_proc q (\<lambda>x. x\<lparr>yptr := Some p\<rparr>) s3 | None \<Rightarrow> s3);
          s5 = upd_proc p (\<lambda>x. x\<lparr>parent := Some (initproc s4)\<rparr>) s4
      in upd_proc (initproc s5) (\<lambda>x. x\<lparr>cptr := Some p\<rparr>) s5)"

lemma adopt_child_eq: "adopt_child p s = (let s6 = adopt_links p s in
    if state (procs s6 p) = PROC_ZOMBIE \<and> wait_state (procs s6 (initproc s6)) = WT_CHILD
    then wakeup_proc (initproc s6) s6 else Some s6)"
  unfolding adopt_child_def adopt_links_def Let_def by (rule refl)

lemma adopt_links_step: "links_step s (adopt_links p s)"
  by (auto simp: adopt_links_def Let_def intro!: links_step_upd split: option.splits)

lemma adopt_links_more: "ptable.more (adopt_links p s) = ptable.more s"
  by (simp add: adopt_links_def Let_def split: option.splits)

lemma adopt_links_table:
  "proc_list (adopt_links p s) = proc_list s" "hash_list (adopt_links p s) = hash_list s"
  "nr_process (adopt_links p s) = nr_process s" "next_safe (adopt_links p s) = next_safe s"
  "last_pid (adopt_links p s) = last_pid s"
  by (simp_all add: adopt_links_def Let_def split: option.splits)

lemma adopt_links_moved:
  assumes ci: "current s \<noteq> initproc s" and pi: "p \<noteq> initproc s" "p \<noteq> current s"
    and f: "family_upto (current s) (procs s) kids" and pk: "p \<in> set (kids (current s))"
  shows "moved (current s) (initproc s) p (procs s) (procs (adopt_links p s))"
proof -
  let ?i = "initproc s" and ?c = "current s"
  have s0: "sibs (procs s) None (cptr (procs s ?i)) (kids ?i)" using uptoD(1) [OF f, of ?i] ci by auto
  have q: "z \<noteq> p \<and> z \<noteq> ?i" if "cptr (procs s ?i) = Some z" for z
  proof -
    have "z \<in> set (kids ?i)" using sibs_first [OF s0] that by (metis hdo_mem)
    then show ?thesis using upto_disjoint [OF f ci pk] uptoD(3) [OF f, of ?i] by auto
  qed
  show ?thesis
  proof (cases "cptr (procs s ?i)")
    case None
    then show ?thesis using ci pi by (simp add: moved_def adopt_links_def Let_def)
  next
    case (Some z)
    then show ?thesis using ci pi q [OF Some] by (simp add: moved_def adopt_links_def Let_def)
  qed
qed

text \<open>What the exiting process leaves of the other processes: their links, and the state of the woken.\<close>

definition woken_only :: "proc_struct \<Rightarrow> proc_struct \<Rightarrow> bool" where
  "woken_only q q' \<longleftrightarrow> pid q' = pid q \<and> exit_code q' = exit_code q \<and> lab6_priority q' = lab6_priority q \<and>
     kstack q' = kstack q \<and> pr_mm q' = pr_mm q \<and> filesp q' = filesp q \<and> pr_flags q' = pr_flags q \<and>
     (state q' = state q \<and> wait_state q' = wait_state q \<or> state q \<noteq> PROC_ZOMBIE \<and> state q' = PROC_RUNNABLE)"

lemma woken_only_refl [simp]: "woken_only q q"
  by (simp add: woken_only_def)

lemma woken_only_trans: "woken_only q r \<Longrightarrow> woken_only r t \<Longrightarrow> woken_only q t"
  by (auto simp: woken_only_def)

lemma links_woken: "links_only q q' \<Longrightarrow> woken_only q q'"
  using links_only_fields by (simp add: woken_only_def)

lemma wake_woken: "same_task (q\<lparr>state := PROC_RUNNABLE, wait_state := w\<rparr>) q' \<Longrightarrow> state q \<noteq> PROC_ZOMBIE \<Longrightarrow> woken_only q q'"
  using same_task_fields [of "q\<lparr>state := PROC_RUNNABLE, wait_state := w\<rparr>" q'] by (simp add: woken_only_def)

text \<open>The parts of the kernel that the family part of \<^verbatim>\<open>do_exit\<close> does not touch.\<close>

definition frame_step :: "'a kernel_scheme \<Rightarrow> 'a kernel_scheme \<Rightarrow> bool" where
  "frame_step s s' \<longleftrightarrow> current s' = current s \<and> idleproc s' = idleproc s \<and> initproc s' = initproc s \<and> sie s' = sie s \<and>
     proc_list s' = proc_list s \<and> hash_list s' = hash_list s \<and> nr_process s' = nr_process s \<and>
     next_safe s' = next_safe s \<and> last_pid s' = last_pid s \<and> ptable.more s' = ptable.more s \<and>
     (\<forall>x. woken_only (procs s x) (procs s' x))"

lemma frame_step_refl [simp]: "frame_step s s"
  by (simp add: frame_step_def)

lemma frame_step_trans: "frame_step s t \<Longrightarrow> frame_step t u \<Longrightarrow> frame_step s u"
  unfolding frame_step_def using woken_only_trans by (metis (no_types, lifting))

context sched_policy
begin

lemma wakeup_frame:
  assumes e: "rq_exact c inv s P" and p: "p \<in> P" "state (procs s p) \<noteq> PROC_ZOMBIE"
  shows "\<exists>s'. wakeup_proc p s = Some s' \<and> rq_exact c inv s' P \<and> state (procs s' p) = PROC_RUNNABLE \<and> frame_step s s' \<and>
    (\<forall>x. x \<noteq> p \<longrightarrow> procs s' x = procs s x) \<and>
    (\<forall>x. parent (procs s' x) = parent (procs s x) \<and> cptr (procs s' x) = cptr (procs s x) \<and>
       yptr (procs s' x) = yptr (procs s x) \<and> optr (procs s' x) = optr (procs s x))"
proof -
  obtain s' w where s': "wakeup_proc p s = Some s'" "rq_exact c inv s' P" "state (procs s' p) = PROC_RUNNABLE"
    "\<forall>x. x \<noteq> p \<longrightarrow> procs s' x = procs s x" "current s' = current s" "sie s' = sie s"
    "same_task ((procs s p)\<lparr>state := PROC_RUNNABLE, wait_state := w\<rparr>) (procs s' p)"
    using wakeup_exact [OF e p] by blast
  note sh = sched_shape_ptable [OF wakeup_proc_shape [OF s'(1)]]
  have "woken_only (procs s x) (procs s' x)" for x
    using s'(4) wake_woken [OF s'(7) p(2)] by (cases "x = p") auto
  then have "frame_step s s'" using sh s'(5,6) by (simp add: frame_step_def)
  moreover have "parent (procs s' x) = parent (procs s x) \<and> cptr (procs s' x) = cptr (procs s x) \<and>
       yptr (procs s' x) = yptr (procs s x) \<and> optr (procs s' x) = optr (procs s x)" for x
    using s'(4) same_task_fields [OF s'(7)] by (cases "x = p") auto
  ultimately show ?thesis using s'(1-4) by blast
qed

lemma adopt_child_ok:
  assumes e: "rq_exact c inv s P" and f: "family_upto (current s) (procs s) kids" and k: "kids (current s) = p # ks"
    and ci: "current s \<noteq> initproc s" and i: "initproc s \<in> P" "state (procs s (initproc s)) \<noteq> PROC_ZOMBIE"
      "initproc s \<notin> set (kids (current s))"
  shows "\<exists>s'. adopt_child p s = Some s' \<and> rq_exact c inv s' P \<and> frame_step s s' \<and>
    family_upto (current s) (procs s') (kids(current s := ks, initproc s := p # kids (initproc s))) \<and>
    (state (procs s p) = PROC_ZOMBIE \<and> wait_state (procs s (initproc s)) = WT_CHILD \<longrightarrow>
       state (procs s' (initproc s)) = PROC_RUNNABLE) \<and>
    (\<forall>x. x \<noteq> initproc s \<longrightarrow> state (procs s' x) = state (procs s x))"
proof -
  let ?i = "initproc s" and ?t = "adopt_links p s"
  have pk: "p \<in> set (kids (current s))" "p \<noteq> ?i" "p \<noteq> current s"
    using k i(3) uptoD(3) [OF f, of "current s"] by auto
  note ls = adopt_links_step [of s p]
  have fam: "family_upto (current s) (procs ?t) (kids(current s := ks, ?i := p # kids ?i))"
    by (rule moved_family [OF adopt_links_moved [OF ci pk(2,3) f pk(1)] f k ci pk(2)])
  have lo: "links_only (procs s x) (procs ?t x)" for x using ls by (simp add: links_step_def)
  have rq1: "rq_exact c inv ?t P" by (rule rq_exact_links [OF e ls])
  have fs: "frame_step s ?t"
    using ls adopt_links_table [of p s] adopt_links_more [of p s] links_woken [OF lo]
    by (simp add: frame_step_def links_step_def)
  have st: "state (procs ?t x) = state (procs s x)" "wait_state (procs ?t x) = wait_state (procs s x)" for x
    using links_only_fields [OF lo] by auto
  have ii: "initproc ?t = ?i" "current ?t = current s" using fs by (simp_all add: frame_step_def)
  show ?thesis
  proof (cases "state (procs s p) = PROC_ZOMBIE \<and> wait_state (procs s ?i) = WT_CHILD")
    case True
    have nz: "state (procs ?t ?i) \<noteq> PROC_ZOMBIE" using i(2) st by simp
    from wakeup_frame [OF rq1 i(1) nz] obtain s' where
      s': "wakeup_proc ?i ?t = Some s'" "rq_exact c inv s' P" "state (procs s' ?i) = PROC_RUNNABLE" "frame_step ?t s'"
      "\<forall>x. x \<noteq> ?i \<longrightarrow> procs s' x = procs ?t x"
      and eqs: "\<forall>x. parent (procs s' x) = parent (procs ?t x) \<and> cptr (procs s' x) = cptr (procs ?t x) \<and>
       yptr (procs s' x) = yptr (procs ?t x) \<and> optr (procs s' x) = optr (procs ?t x)" by blast
    have "family_upto (current s) (procs s') (kids(current s := ks, ?i := p # kids ?i))"
      by (rule family_upto_cong [OF fam eqs])
    moreover have "adopt_child p s = Some s'"
      using True s'(1) by (simp add: adopt_child_eq Let_def st ii)
    ultimately show ?thesis using s'(2-5) frame_step_trans [OF fs s'(4)] st by auto
  next
    case False
    then have "adopt_child p s = Some ?t" by (auto simp: adopt_child_eq Let_def st ii)
    then show ?thesis using rq1 fs fam False st by auto
  qed
qed

end

context sched_policy
begin

lemma adopt_children_ok:
  assumes "rq_exact c inv s P" and "family_upto (current s) (procs s) kids" and "kids (current s) = xs"
    and "current s \<noteq> initproc s" and "initproc s \<in> P" "state (procs s (initproc s)) \<noteq> PROC_ZOMBIE" "initproc s \<notin> set xs"
  shows "\<exists>s'. adopt_children s = Some s' \<and> rq_exact c inv s' P \<and> frame_step s s' \<and>
    family (procs s') (kids(current s := [], initproc s := rev xs @ kids (initproc s))) \<and>
    ((\<exists>z \<in> set xs. state (procs s z) = PROC_ZOMBIE) \<and> wait_state (procs s (initproc s)) = WT_CHILD \<longrightarrow>
       state (procs s' (initproc s)) = PROC_RUNNABLE) \<and>
    (\<forall>x. x \<noteq> initproc s \<longrightarrow> state (procs s' x) = state (procs s x))"
  using assms
proof (induction xs arbitrary: s kids)
  case Nil
  have "cptr (procs s (current s)) = None" using uptoD(1) [OF Nil.prems(2), of "current s"] Nil.prems(3) by auto
  then have "adopt_children s = Some s" by (subst adopt_children.simps) simp
  moreover have eq: "kids(current s := [], initproc s := rev [] @ kids (initproc s)) = kids" using Nil.prems(3,4) by auto
  ultimately show ?case unfolding eq using Nil.prems upto_imp_family [OF Nil.prems(2,3)] by simp
next
  case (Cons p ks)
  let ?c = "current s" and ?i = "initproc s"
  have ik: "?i \<notin> set (kids ?c)" using Cons.prems(3,7) by simp
  obtain s1 where s1: "adopt_child p s = Some s1" "rq_exact c inv s1 P" "frame_step s s1"
    "family_upto ?c (procs s1) (kids(?c := ks, ?i := p # kids ?i))"
    "state (procs s p) = PROC_ZOMBIE \<and> wait_state (procs s ?i) = WT_CHILD \<longrightarrow> state (procs s1 ?i) = PROC_RUNNABLE"
    "\<forall>x. x \<noteq> ?i \<longrightarrow> state (procs s1 x) = state (procs s x)"
    using adopt_child_ok [OF Cons.prems(1,2,3,4,5,6) ik] by blast
  have eq: "current s1 = ?c" "initproc s1 = ?i" using s1(3) by (simp_all add: frame_step_def)
  have wi: "woken_only (procs s ?i) (procs s1 ?i)" using s1(3) by (simp add: frame_step_def)
  have nz: "state (procs s1 ?i) \<noteq> PROC_ZOMBIE" using wi Cons.prems(6) by (auto simp: woken_only_def)
  define k' where "k' = kids(?c := ks, ?i := p # kids ?i)"
  have kc: "k' ?c = ks" "k' ?i = p # kids ?i" using Cons.prems(4) by (simp_all add: k'_def)
  have ni: "?i \<notin> set ks" using Cons.prems(7) by simp
  obtain s' where s': "adopt_children s1 = Some s'" "rq_exact c inv s' P" "frame_step s1 s'"
    "family (procs s') (k'(?c := [], ?i := rev ks @ p # kids ?i))"
    "(\<exists>z \<in> set ks. state (procs s1 z) = PROC_ZOMBIE) \<and> wait_state (procs s1 ?i) = WT_CHILD \<longrightarrow>
       state (procs s' ?i) = PROC_RUNNABLE"
    "\<forall>x. x \<noteq> ?i \<longrightarrow> state (procs s' x) = state (procs s1 x)"
    using Cons.IH [of s1 k', unfolded eq kc, OF s1(2) s1(4) [folded k'_def] refl Cons.prems(4,5) nz ni] by blast
  have "cptr (procs s ?c) = Some p" using uptoD(1) [OF Cons.prems(2), of ?c] Cons.prems(3) by auto
  then have "adopt_children s = Some s'" using s1(1) s'(1) by (subst adopt_children.simps) simp
  moreover have "k'(?c := [], ?i := rev ks @ p # kids ?i) = kids(?c := [], ?i := rev (p # ks) @ kids ?i)"
    using Cons.prems(4) by (auto simp: k'_def)
  then have "family (procs s') (kids(?c := [], ?i := rev (p # ks) @ kids ?i))" using s'(4) by argo
  moreover have "state (procs s' ?i) = PROC_RUNNABLE"
    if z: "\<exists>z \<in> set (p # ks). state (procs s z) = PROC_ZOMBIE" and w: "wait_state (procs s ?i) = WT_CHILD"
  proof (cases "state (procs s1 ?i) = PROC_RUNNABLE")
    case True
    have "woken_only (procs s1 ?i) (procs s' ?i)" using s'(3) by (simp add: frame_step_def)
    then show ?thesis using True by (auto simp: woken_only_def)
  next
    case False
    then have "state (procs s p) \<noteq> PROC_ZOMBIE" using s1(5) w by blast
    then obtain z where zz: "z \<in> set ks" "state (procs s z) = PROC_ZOMBIE" using z by auto
    then have "z \<noteq> ?i" using Cons.prems(7) by auto
    then have "state (procs s1 z) = PROC_ZOMBIE" using zz(2) s1(6) by simp
    moreover have "wait_state (procs s1 ?i) = WT_CHILD" using wi w False by (auto simp: woken_only_def)
    ultimately show ?thesis using s'(5) zz(1) by blast
  qed
  moreover have "\<forall>x. x \<noteq> ?i \<longrightarrow> state (procs s' x) = state (procs s x)" using s'(6) s1(6) by simp
  ultimately show ?case using s'(2) frame_step_trans [OF s1(3) s'(3)] by blast
qed

end

section \<open>Giving back the resources\<close>

definition files_valid :: "'a kernel_scheme \<Rightarrow> bool" where
  "files_valid s \<longleftrightarrow> (\<forall>f. filesp (procs s (current s)) = Some f \<longrightarrow> f \<in> live_files s \<and> 1 \<le> files_count s f)"

text \<open>\<open>released s s'\<close>: the current process has dropped its references; an object whose last reference
  this was is free.\<close>

definition released :: "'a kernel_scheme \<Rightarrow> 'a kernel_scheme \<Rightarrow> bool" where
  "released s s' \<longleftrightarrow>
     (\<forall>m. pr_mm (procs s (current s)) = Some m \<longrightarrow>
        (if mm_count s m = 1 then m \<notin> live_mms s' \<and> mm_pgdir s m \<notin> live_pgdirs s' \<and> m \<notin> mm_mapped s'
         else live_mms s' = live_mms s \<and> live_pgdirs s' = live_pgdirs s \<and> mm_count s' m = mm_count s m - 1)) \<and>
     (\<forall>f. pr_mm (procs s (current s)) \<noteq> None \<and> filesp (procs s (current s)) = Some f \<longrightarrow>
        (if files_count s f = 1 then f \<notin> live_files s' else live_files s' = live_files s \<and> files_count s' f = files_count s f - 1))"

lemma released_cong:
  assumes "ptable.more s'' = ptable.more s'" "released s s'" shows "released s s''"
  using assms(2) unfolding released_def ptable_more_kernel [OF assms(1)] .

lemma exit_resources_ok:
  assumes v: "mm_valid s" and f: "files_valid s"
  shows "\<exists>s'. exit_resources s = Some s' \<and> table_part s' = table_part (upd_proc (current s) (\<lambda>x. x\<lparr>pr_mm := None\<rparr>) s) \<and>
    live_procs s' = live_procs s \<and> live_kstacks s' = live_kstacks s \<and> released s s'"
proof (cases "pr_mm (procs s (current s))")
  case None
  have "upd_proc (current s) (\<lambda>x. x\<lparr>pr_mm := None\<rparr>) s = s" using None by (simp add: upd_proc_def fun_upd_idem)
  then show ?thesis using None by (simp add: exit_resources_def released_def)
next
  case (Some m)
  have m: "m \<in> live_mms s" "1 \<le> mm_count s m" "mm_pgdir s m \<in> live_pgdirs s" using v Some by (auto simp: mm_valid_def)
  define s1 where "s1 = (if mm_count s m = 1
    then s\<lparr>mm_count := (mm_count s)(m := 0), mm_mapped := mm_mapped s - {m}, live_pgdirs := live_pgdirs s - {mm_pgdir s m},
           live_mms := live_mms s - {m}\<rparr>
    else s\<lparr>mm_count := (mm_count s)(m := mm_count s m - 1)\<rparr>)"
  have d: "drop_mm m s = Some s1" using m by (simp add: s1_def drop_mm_def mm_count_dec_def exit_mmap_obj_def put_pgdir_def mm_destroy_obj_def)
  let ?s2 = "upd_proc (current s) (\<lambda>x. x\<lparr>pr_mm := None\<rparr>) s1"
  have cu: "current s1 = current s" "procs s1 = procs s" "live_files s1 = live_files s" "files_count s1 = files_count s"
    "live_procs s1 = live_procs s" "live_kstacks s1 = live_kstacks s" by (simp_all add: s1_def)
  have part: "table_part ?s2 = table_part (upd_proc (current s) (\<lambda>x. x\<lparr>pr_mm := None\<rparr>) s)"
    by (simp add: s1_def upd_proc_def table_part_def ptable.truncate_def)
  have sel: "live_files ?s2 = live_files s" "files_count ?s2 = files_count s" "live_procs ?s2 = live_procs s"
    "live_kstacks ?s2 = live_kstacks s" "live_mms ?s2 = live_mms s1" "live_pgdirs ?s2 = live_pgdirs s1"
    "mm_mapped ?s2 = mm_mapped s1" "mm_count ?s2 = mm_count s1" by (simp_all add: cu upd_proc_def)
  have fp: "filesp (procs ?s2 (current s)) = filesp (procs s (current s))" by (simp add: cu)
  have ex: "exit_resources s = put_files (current s) ?s2" using Some d cu by (simp add: exit_resources_def Let_def)
  show ?thesis
  proof (cases "filesp (procs s (current s))")
    case None
    then have "exit_resources s = Some ?s2" using ex fp by (simp add: put_files_def)
    then show ?thesis using part sel Some None by (simp add: released_def) (simp add: s1_def)
  next
    case (Some g)
    have g: "g \<in> live_files s" "1 \<le> files_count s g" using f Some by (auto simp: files_valid_def)
    let ?s3 = "?s2\<lparr>files_count := (files_count s)(g := files_count s g - 1)\<rparr>"
    have e: "exit_resources s = (if files_count s g = 1 then Some (?s3\<lparr>live_files := live_files s - {g}\<rparr>) else Some ?s3)"
      using ex fp Some g sel by (simp add: put_files_def files_destroy_obj_def Let_def)
    then show ?thesis using part sel Some \<open>pr_mm (procs s (current s)) = Some m\<close>
      by (cases "files_count s g = 1") (simp add: released_def, simp add: s1_def)+
  qed
qed

section \<open>Exit\<close>

context sched_policy
begin

lemma do_exit_ok:
  assumes sys: "sys_ok c inv s kids" and v: "mm_valid s" "files_valid s"
    and cu: "current s \<noteq> idleproc s" "current s \<noteq> initproc s"
    and par: "parent (procs s (current s)) = Some par" "par \<in> live_procs s" "state (procs s par) \<noteq> PROC_ZOMBIE" "par \<noteq> current s"
    and i: "initproc s \<in> live_procs s" "state (procs s (initproc s)) \<noteq> PROC_ZOMBIE" "initproc s \<notin> set (kids (current s))"
    and rd: "\<forall>p \<in> live_procs s. ready (procs s p)"
  shows "\<exists>s'. do_exit code s = Some s' \<and>
    sys_ok c inv s' (kids(current s := [], initproc s := rev (kids (current s)) @ kids (initproc s))) \<and>
    state (procs s' (current s)) = PROC_ZOMBIE \<and> exit_code (procs s' (current s)) = code \<and> current s' \<noteq> current s \<and>
    live_procs s' = live_procs s \<and> live_kstacks s' = live_kstacks s \<and> released s s' \<and>
    (wait_state (procs s par) = WT_CHILD \<longrightarrow> state (procs s' par) = PROC_RUNNABLE) \<and>
    ((\<exists>z \<in> set (kids (current s)). state (procs s z) = PROC_ZOMBIE) \<and> wait_state (procs s (initproc s)) = WT_CHILD \<longrightarrow>
       state (procs s' (initproc s)) = PROC_RUNNABLE)"
proof -
  let ?c = "current s" and ?i = "initproc s" and ?L = "live_procs s"
  have tab: "table_ok s kids" "rq_exact c inv s ?L" using sys by (simp_all add: sys_ok_def)
  obtain s1 where s1: "exit_resources s = Some s1" "table_part s1 = table_part (upd_proc ?c (\<lambda>x. x\<lparr>pr_mm := None\<rparr>) s)"
    "live_procs s1 = ?L" "live_kstacks s1 = live_kstacks s" "released s s1"
    using exit_resources_ok [OF v] by blast
  note t1 = table_part_all [OF s1(2), simplified]
  obtain fl b where fb: "intr_save (sie s) = (fl, b)" by fastforce
  have re: "intr_restore fl b = sie s" using fb by simp
  let ?q = "(procs s ?c)\<lparr>pr_mm := None, state := PROC_ZOMBIE, exit_code := code\<rparr>"
  let ?s2 = "upd_proc ?c (\<lambda>x. x\<lparr>state := PROC_ZOMBIE, exit_code := code\<rparr>) s1"
  define s2 where "s2 = ?s2\<lparr>sie := b\<rparr>"
  have p2: "procs s2 x = (if x = ?c then ?q else procs s x)" for x by (simp add: s2_def t1)
  have f2: "rq s2 = rq s" "cls s2 = cls s" "current s2 = ?c" "idleproc s2 = idleproc s" "initproc s2 = ?i" "sie s2 = b"
    "proc_list s2 = proc_list s" "hash_list s2 = hash_list s" "nr_process s2 = nr_process s"
    "next_safe s2 = next_safe s" "last_pid s2 = last_pid s"
    by (simp_all add: s2_def t1)
  have more2: "ptable.more s2 = ptable.more s1" by (simp add: s2_def)
  have rq2: "rq_exact c inv s2 ?L"
  proof -
    have "waiting_to_run s2 ?L = waiting_to_run s ?L" by (auto simp: waiting_to_run_def p2 f2)
    moreover have "inv (rq s, procs s2) (waiting_to_run s ?L)"
      by (rule inv_frame [of _ "procs s"]) (use tab(2) in \<open>auto simp: rq_exact_def waiting_to_run_def p2\<close>)
    ultimately show ?thesis using tab(2) cu by (auto simp: rq_exact_def f2 p2)
  qed
  have links2: "\<forall>x. parent (procs s2 x) = parent (procs s x) \<and> cptr (procs s2 x) = cptr (procs s x) \<and>
      yptr (procs s2 x) = yptr (procs s x) \<and> optr (procs s2 x) = optr (procs s x)" by (simp add: p2)
  have tab2: "table_ok s2 kids" by (rule table_ok_cong [OF tab(1)]) (use links2 f2 in \<open>auto simp: p2\<close>)
  have par2: "parent (procs s2 ?c) = Some par" "procs s2 par = procs s par" using par by (simp_all add: p2)
  obtain s3 where s3: "(if wait_state (procs s2 par) = WT_CHILD then wakeup_proc par s2 else Some s2) = Some s3"
    "rq_exact c inv s3 ?L" "frame_step s2 s3" "family (procs s3) kids"
    "wait_state (procs s par) = WT_CHILD \<longrightarrow> state (procs s3 par) = PROC_RUNNABLE"
    "\<forall>x. x \<noteq> par \<longrightarrow> procs s3 x = procs s2 x"
  proof (cases "wait_state (procs s par) = WT_CHILD")
    case True
    have "state (procs s2 par) \<noteq> PROC_ZOMBIE" using par by (simp add: par2)
    from wakeup_frame [OF rq2 par(2) this] obtain s3 where
      w: "wakeup_proc par s2 = Some s3" "rq_exact c inv s3 ?L" "state (procs s3 par) = PROC_RUNNABLE" "frame_step s2 s3"
      "\<forall>x. x \<noteq> par \<longrightarrow> procs s3 x = procs s2 x"
      and eqs: "\<forall>x. parent (procs s3 x) = parent (procs s2 x) \<and> cptr (procs s3 x) = cptr (procs s2 x) \<and>
       yptr (procs s3 x) = yptr (procs s2 x) \<and> optr (procs s3 x) = optr (procs s2 x)" by blast
    have "family (procs s3) kids" by (rule family_cong [OF _ eqs]) (use tab2 in \<open>simp add: table_ok_def\<close>)
    then show ?thesis using that [of s3] w True par2 by simp
  next
    case False
    then show ?thesis using that [of s2] rq2 par2 tab2 by (simp add: table_ok_def)
  qed
  have e3: "current s3 = ?c" "initproc s3 = ?i" "ptable.more s3 = ptable.more s2" "sie s3 = b"
    using s3(3) f2 by (simp_all add: frame_step_def)
  have wo: "woken_only (procs s2 x) (procs s3 x)" for x using s3(3) by (simp add: frame_step_def)
  have i3: "state (procs s3 ?i) \<noteq> PROC_ZOMBIE" using wo [of ?i] i(2) cu by (auto simp: woken_only_def p2)
  obtain s4 where s4: "adopt_children s3 = Some s4" "rq_exact c inv s4 ?L" "frame_step s3 s4"
    "family (procs s4) (kids(?c := [], ?i := rev (kids ?c) @ kids ?i))"
    "(\<exists>z \<in> set (kids ?c). state (procs s3 z) = PROC_ZOMBIE) \<and> wait_state (procs s3 ?i) = WT_CHILD \<longrightarrow>
       state (procs s4 ?i) = PROC_RUNNABLE"
    "\<forall>x. x \<noteq> ?i \<longrightarrow> state (procs s4 x) = state (procs s3 x)"
    using adopt_children_ok [OF s3(2) family_imp_upto [OF s3(4)] refl, of] i i3 cu e3 by auto
  have fs: "frame_step s2 s4" by (rule frame_step_trans [OF s3(3) s4(3)])
  let ?s5 = "s4\<lparr>sie := sie s\<rparr>"
  have s2e: "sie ?s2 = sie s" by (simp add: t1)
  have "sie s4 = b" using fs f2 by (simp add: frame_step_def)
  then have ef: "exit_family ?s2 = Some ?s5"
    using s3(1) s4(1) re par2 f2(3) unfolding exit_family_def s2e fb Let_def prod.case s2_def [symmetric]
    by (simp split del: if_split)
  let ?k = "kids(?c := [], ?i := rev (kids ?c) @ kids ?i)"
  have wo4: "woken_only (procs s2 x) (procs s4 x)" for x using fs by (simp add: frame_step_def)
  have rq5: "rq_exact c inv ?s5 ?L" using s4(2) by (simp add: rq_exact_def waiting_to_run_def)
  have rd5: "\<forall>p \<in> ?L. ready (procs ?s5 p)"
  proof
    fix p assume "p \<in> ?L"
    then have "ready (procs s p)" using rd by blast
    moreover have "lab6_priority (procs ?s5 p) = lab6_priority (procs s p)" using wo4 [of p] by (simp add: woken_only_def p2)
    ultimately show "ready (procs ?s5 p)" using ready_prio by blast
  qed
  let ?R = "{p \<in> ?L. state (procs ?s5 p) = PROC_RUNNABLE \<and> p \<noteq> idleproc ?s5}"
  obtain s6 where s6: "schedule ?s5 = Some s6" "rq_exact c inv s6 ?L"
    "?R = {} \<longrightarrow> current s6 = idleproc ?s5" "?R \<noteq> {} \<longrightarrow> current s6 \<in> ?R"
    "\<forall>x. state (procs s6 x) = state (procs s4 x)" "\<forall>x. sched_same (procs s4 x) (procs s6 x)"
    using schedule_exact [OF rq5 rd5] by (auto simp: Let_def)
  note sh = sched_shape_ptable [OF schedule_shape [OF s6(1)]]
  have de: "do_exit code s = Some s6"
    using cu s1(1) ef s6(1) t1 by (simp add: do_exit_def Let_def)
  have f4: "proc_list s4 = proc_list s" "hash_list s4 = hash_list s" "nr_process s4 = nr_process s"
    "next_safe s4 = next_safe s" "last_pid s4 = last_pid s" "idleproc s4 = idleproc s" "ptable.more s4 = ptable.more s1"
    using fs f2 more2 by (simp_all add: frame_step_def)
  have pid4: "pid (procs s4 x) = pid (procs s x)" for x using wo4 [of x] by (simp add: woken_only_def p2)
  have "table_ok s4 ?k"
    unfolding table_ok_def
  proof (intro conjI)
    show "pids_ok s4" by (rule pids_ok_cong [of s]) (use tab(1) f4 pid4 in \<open>auto simp: table_ok_def\<close>)
    show "hash_ok s4" "nr_process s4 = int (length (proc_list s4)) + 1"
      using tab(1) f4 pid4 by (simp_all add: table_ok_def hash_ok_def)
    show "family (procs s4) ?k" by (rule s4(4))
  qed
  then have "table_ok s6 ?k"
    by (rule table_ok_cong) (use sh sched_same_fields [OF s6(6) [rule_format]] in auto)
  moreover have live: "ptable.more s6 = ptable.more s1" using sh(6) f4(7) by simp
  then have "live_procs s6 = ?L" "live_kstacks s6 = live_kstacks s"
    using ptable_more_kernel [OF live] s1(3,4) by simp_all
  moreover have "released s s6" by (rule released_cong [OF live s1(5)])
  moreover have zc: "state (procs s4 ?c) = PROC_ZOMBIE" "exit_code (procs s4 ?c) = code"
    using wo4 [of ?c] by (auto simp: woken_only_def p2)
  moreover have "current s6 \<noteq> ?c" using s6(3,4) zc(1) cu(1) f4(6) by (cases "?R = {}") auto
  moreover have keep: "state (procs s6 x) = PROC_RUNNABLE" if "state (procs s3 x) = PROC_RUNNABLE" for x
  proof -
    have "woken_only (procs s3 x) (procs s4 x)" using s4(3) by (simp add: frame_step_def)
    then show ?thesis using that s6(5) by (auto simp: woken_only_def)
  qed
  moreover have "state (procs s6 ?i) = PROC_RUNNABLE"
    if z: "\<exists>z \<in> set (kids ?c). state (procs s z) = PROC_ZOMBIE" and w: "wait_state (procs s ?i) = WT_CHILD"
  proof (cases "par = ?i")
    case True
    then show ?thesis using s3(5) w keep by simp
  next
    case False
    obtain z where zz: "z \<in> set (kids ?c)" "state (procs s z) = PROC_ZOMBIE" using z by blast
    have "z \<noteq> ?c" using familyD(3) [of "procs s" kids ?c] zz tab(1) by (auto simp: table_ok_def)
    then have "state (procs s3 z) = PROC_ZOMBIE" using zz(2) wo [of z] by (auto simp: woken_only_def p2)
    moreover have "wait_state (procs s3 ?i) = WT_CHILD" using s3(6) False w cu by (simp add: p2)
    ultimately have "state (procs s4 ?i) = PROC_RUNNABLE" using s4(5) zz(1) by blast
    then show ?thesis using s6(5) by simp
  qed
  moreover have "exit_code (procs s6 ?c) = exit_code (procs s4 ?c)" using sched_same_fields [OF s6(6) [rule_format]] by simp
  moreover have "set (proc_list s6) \<subseteq> ?L" "\<forall>x. x \<in> set (proc_list s6) \<longleftrightarrow> (\<exists>q. x \<in> set (?k q))"
    using sys sh(1) f4(1) unfolding sys_ok_def kids_move [OF cu(2)] by auto
  moreover have "\<forall>q. q \<notin> ?L \<or> state (procs s6 q) = PROC_ZOMBIE \<longrightarrow> ?k q = []"
  proof (intro allI impI)
    fix q assume q: "q \<notin> ?L \<or> state (procs s6 q) = PROC_ZOMBIE"
    have "state (procs s6 q) = PROC_ZOMBIE \<Longrightarrow> q \<noteq> ?c \<Longrightarrow> state (procs s q) = PROC_ZOMBIE"
      using s6(5) wo4 [of q] by (auto simp: woken_only_def p2 split: if_splits)
    then have "q = ?c \<or> q \<notin> ?L \<or> state (procs s q) = PROC_ZOMBIE" using q by blast
    moreover have "q \<noteq> ?i" using q i(1,2) cu(2) s6(5) wo4 [of ?i] by (auto simp: woken_only_def p2)
    ultimately show "?k q = []" using sys by (auto simp: sys_ok_def)
  qed
  moreover have "state (procs s6 (current s6)) = PROC_RUNNABLE"
  proof (cases "?R = {}")
    case True
    then show ?thesis using s6(2,3) sh(7) by (simp add: rq_exact_def)
  next
    case False
    then show ?thesis using s6(4,5) by auto
  qed
  ultimately show ?thesis using de s3(5) s6(2,5) unfolding sys_ok_def by simp
qed

end

section \<open>Wait\<close>

abbreviation (input) is_zombie :: "proc_table \<Rightarrow> nat \<Rightarrow> bool" where
  "is_zombie ps \<equiv> (\<lambda>p. state (ps p) = PROC_ZOMBIE)"

lemma child_scan_find:
  "sibs ps y f xs \<Longrightarrow> child_scan ps f b = Some (find (is_zombie ps) xs, b \<or> xs \<noteq> [])"
proof (induction xs arbitrary: y f b)
  case Nil
  then show ?case by (subst child_scan.simps) simp
next
  case (Cons x xs)
  then show ?case by (subst child_scan.simps) auto
qed

text \<open>The children that \<^verbatim>\<open>do_wait(i, ...)\<close> waits for.\<close>

definition waited :: "int \<Rightarrow> 'a kernel_scheme \<Rightarrow> (nat \<Rightarrow> nat list) \<Rightarrow> nat list" where
  "waited i s kids = filter (\<lambda>p. i = 0 \<or> pid (procs s p) = i) (kids (current s))"

lemma find_single: "distinct xs \<Longrightarrow> x \<in> set xs \<Longrightarrow> \<forall>y \<in> set xs. Q y \<longleftrightarrow> y = x \<Longrightarrow> filter Q xs = [x]"
proof (induction xs)
  case (Cons z zs)
  show ?case
  proof (cases "z = x")
    case True
    have "filter Q zs = []" using Cons.prems True by (auto simp: filter_empty_conv)
    then show ?thesis using Cons.prems True by simp
  qed (use Cons in auto)
qed simp

lemma wait_search_ok:
  assumes t: "table_ok s kids" and u: "\<forall>x. x \<in> set (proc_list s) \<longleftrightarrow> (\<exists>q. x \<in> set (kids q))"
  shows "wait_search i s = Some (find (is_zombie (procs s)) (waited i s kids), waited i s kids \<noteq> [])"
proof (cases "i = 0")
  case True
  have "sibs (procs s) None (cptr (procs s (current s))) (kids (current s))"
    using familyD(1) [of "procs s" kids] t by (simp add: table_ok_def)
  from child_scan_find [OF this, of False] show ?thesis using True by (simp add: wait_search_def waited_def)
next
  case False
  have f: "family (procs s) kids" using t by (simp add: table_ok_def)
  have P: "find_proc i s = Some p \<longleftrightarrow> p \<in> set (proc_list s) \<and> pid (procs s p) = i" for p
    using find_proc_Some t by (auto simp: table_ok_def)
  show ?thesis
  proof (cases "waited i s kids")
    case Nil
    have "\<not> (p \<in> set (proc_list s) \<and> pid (procs s p) = i \<and> parent (procs s p) = Some (current s))" for p
    proof
      assume a: "p \<in> set (proc_list s) \<and> pid (procs s p) = i \<and> parent (procs s p) = Some (current s)"
      then obtain q where q: "p \<in> set (kids q)" using u by blast
      then have "q = current s" using familyD(4) [OF f] a by (metis option.inject)
      then show False using q a Nil by (auto simp: waited_def filter_empty_conv)
    qed
    then show ?thesis using False Nil P by (auto simp: wait_search_def split: option.splits)
  next
    case (Cons p ps)
    then have "p \<in> set (waited i s kids)" by simp
    then have p: "p \<in> set (kids (current s))" "pid (procs s p) = i" using False by (simp_all add: waited_def)
    have fp: "find_proc i s = Some p" using P p u by blast
    have "y = p" if "y \<in> set (kids (current s))" "pid (procs s y) = i" for y
    proof -
      have "find_proc i s = Some y" using P that u by blast
      then show ?thesis using fp by simp
    qed
    then have "\<forall>y \<in> set (kids (current s)). (i = 0 \<or> pid (procs s y) = i) \<longleftrightarrow> y = p" using p(2) False by auto
    then have w: "waited i s kids = [p]" unfolding waited_def by (rule find_single [OF familyD(2) [OF f] p(1)])
    have "parent (procs s p) = Some (current s)" using familyD(4) [OF f p(1)] .
    then show ?thesis using False fp by (simp add: wait_search_def w)
  qed
qed

lemma waited_child: "p \<in> set (waited i s kids) \<Longrightarrow> p \<in> set (kids (current s))"
  by (simp add: waited_def)

context sched_policy
begin

lemma wait_reap_ok:
  assumes sys: "sys_ok c inv s kids" and p: "p \<in> set (kids (current s))" "state (procs s p) = PROC_ZOMBIE"
    and np: "p \<noteq> idleproc s" "p \<noteq> initproc s" and k: "kstack (procs s p) = Some k" "k \<in> live_kstacks s"
  shows "\<exists>s'. wait_reap code_store p s = Some s' \<and>
    sys_ok c inv s' (kids(current s := remove1 p (kids (current s)))) \<and>
    live_procs s' = live_procs s - {p} \<and> live_kstacks s' = live_kstacks s - {k} \<and> p \<notin> set (proc_list s') \<and>
    current s' = current s \<and>
    (\<forall>a. code_store = Some a \<longrightarrow> ustore s' a = exit_code (procs s p))"
proof -
  let ?c = "current s" and ?L = "live_procs s"
  have tab: "table_ok s kids" "rq_exact c inv s ?L" "set (proc_list s) \<subseteq> ?L"
    "\<forall>x. x \<in> set (proc_list s) \<longleftrightarrow> (\<exists>q. x \<in> set (kids q))" using sys by (simp_all add: sys_ok_def)
  have f: "family (procs s) kids" using tab(1) by (simp add: table_ok_def)
  have pl: "p \<in> set (proc_list s)" using tab(4) p(1) by blast
  have pc: "p \<noteq> ?c" using familyD(3) [OF f, of ?c] p(1) by auto
  obtain fl b where fb: "intr_save (sie s) = (fl, b)" by fastforce
  have re: "intr_restore fl b = sie s" using fb by simp
  define s1 where "s1 = (case code_store of Some a \<Rightarrow> s\<lparr>ustore := (ustore s)(a := exit_code (procs s p))\<rparr> | None \<Rightarrow> s)\<lparr>sie := b\<rparr>"
  have e1: "procs s1 = procs s" "rq s1 = rq s" "cls s1 = cls s" "current s1 = ?c" "idleproc s1 = idleproc s"
    "proc_list s1 = proc_list s" "hash_list s1 = hash_list s" "nr_process s1 = nr_process s" "next_safe s1 = next_safe s"
    "last_pid s1 = last_pid s" "live_procs s1 = ?L" "live_kstacks s1 = live_kstacks s"
    "\<forall>a. code_store = Some a \<longrightarrow> ustore s1 a = exit_code (procs s p)"
    by (cases code_store; simp add: s1_def)+
  have "table_ok s1 kids" by (rule table_ok_cong [OF tab(1)]) (simp_all add: e1)
  then obtain s2 where s2: "unlink_proc p s1 = Some s2" "table_ok s2 (kids(?c := remove1 p (kids ?c)))"
    "proc_list s2 = remove1 p (proc_list s)" "\<forall>x. pid (procs s2 x) = pid (procs s1 x) \<and> state (procs s2 x) = state (procs s1 x)"
    using unlink_proc_ok [of s1 kids p ?c] p(1) pl e1(6) by auto
  note ls = link_unlink_step(2) [OF s2(1)]
  note m2 = ptable_more_kernel [OF unlink_more [OF s2(1)]]
  have lo: "links_only (procs s1 x) (procs s2 x)" for x using ls by (simp add: links_step_def)
  have "rq_exact c inv s1 ?L" by (rule rq_exact_cong [OF tab(2)]) (simp_all add: e1)
  then have "rq_exact c inv s2 ?L" by (rule rq_exact_links [OF _ ls])
  then have rq2: "rq_exact c inv s2 (?L - {p})"
  proof -
    assume e: "rq_exact c inv s2 ?L"
    have "waiting_to_run s2 (?L - {p}) = waiting_to_run s2 ?L"
      using s2(4) p(2) by (auto simp: waiting_to_run_def e1(1))
    moreover have "current s2 = ?c" "idleproc s2 = idleproc s" using ls e1 by (simp_all add: links_step_def)
    ultimately show ?thesis using e pc np by (simp add: rq_exact_def)
  qed
  let ?s4 = "s2\<lparr>sie := sie s, live_kstacks := live_kstacks s - {k}, live_procs := ?L - {p}\<rparr>"
  have "kstack (procs s2 p) = Some k" using links_only_fields [OF lo, of p] k(1) by (simp add: e1(1))
  moreover have "sie s2 = b" using ls by (simp add: links_step_def s1_def)
  moreover have "p \<in> ?L" using pl tab(3) by auto
  moreover have "(case code_store of Some a \<Rightarrow> s\<lparr>ustore := (ustore s)(a := exit_code (procs s p))\<rparr> | None \<Rightarrow> s)\<lparr>sie := b\<rparr> = s1"
    "sie (case code_store of Some a \<Rightarrow> s\<lparr>ustore := (ustore s)(a := exit_code (procs s p))\<rparr> | None \<Rightarrow> s) = sie s"
    by (simp_all add: s1_def split: option.splits)
  ultimately have wr: "wait_reap code_store p s = Some ?s4"
    using np s2(1) fb re k(2) m2(1,2) e1(11,12)
    by (simp add: wait_reap_def put_kstack_def kfree_proc_def Let_def)
  have d: "distinct (proc_list s)" using tab(1) by (simp add: table_ok_def pids_ok_def)
  have st: "state (procs s2 x) = state (procs s x)" for x using s2(4) by (simp add: e1(1))
  have c4: "current ?s4 = ?c" using ls e1 by (simp add: links_step_def)
  have "sys_ok c inv ?s4 (kids(?c := remove1 p (kids ?c)))"
    unfolding sys_ok_def kids_remove [OF f p(1)]
  proof (intro conjI)
    show "table_ok ?s4 (kids(?c := remove1 p (kids ?c)))" using s2(2) by (simp add: table_ok_def pids_ok_def hash_ok_def)
    show "rq_exact c inv ?s4 (live_procs ?s4)" using rq2 by (simp add: rq_exact_def waiting_to_run_def)
    show "set (proc_list ?s4) \<subseteq> live_procs ?s4" using s2(3) tab(3) d by auto
    show "\<forall>x. x \<in> set (proc_list ?s4) \<longleftrightarrow> x \<noteq> p \<and> (\<exists>q. x \<in> set (kids q))" using s2(3) d tab(4) by auto
    show "\<forall>q. q \<notin> live_procs ?s4 \<or> state (procs ?s4 q) = PROC_ZOMBIE \<longrightarrow> (kids(?c := remove1 p (kids ?c))) q = []"
    proof (intro allI impI)
      fix q assume "q \<notin> live_procs ?s4 \<or> state (procs ?s4 q) = PROC_ZOMBIE"
      then have "q = p \<or> q \<notin> ?L \<or> state (procs s q) = PROC_ZOMBIE" using st by auto
      then have "kids q = []" using sys p(2) by (auto simp: sys_ok_def)
      then show "(kids(?c := remove1 p (kids ?c))) q = []" by auto
    qed
    show "state (procs ?s4 (current ?s4)) = PROC_RUNNABLE" using sys c4 st by (simp add: sys_ok_def)
  qed
  moreover have "\<forall>a. code_store = Some a \<longrightarrow> ustore ?s4 a = exit_code (procs s p)" using m2(11) e1(13) by simp
  moreover have "p \<notin> set (proc_list ?s4)" using s2(3) d by simp
  ultimately show ?thesis using wr c4 by (intro exI [of _ ?s4]) (simp del: fun_upd_apply)
qed

end

context sched_policy
begin

lemma wait_block_ok:
  assumes sys: "sys_ok c inv s kids" and cu: "current s \<noteq> idleproc s" and rd: "\<forall>p \<in> live_procs s. ready (procs s p)"
  shows "\<exists>s'. schedule (upd_proc (current s) (\<lambda>x. x\<lparr>state := PROC_SLEEPING, wait_state := w\<rparr>) s) = Some s' \<and>
    sys_ok c inv s' kids \<and> current s' \<noteq> current s \<and> state (procs s' (current s)) = PROC_SLEEPING \<and>
    wait_state (procs s' (current s)) = w \<and> ptable.more s' = ptable.more s"
proof -
  let ?c = "current s" and ?L = "live_procs s"
  let ?t = "upd_proc ?c (\<lambda>x. x\<lparr>state := PROC_SLEEPING, wait_state := w\<rparr>) s"
  have tab: "table_ok s kids" "rq_exact c inv s ?L" using sys by (simp_all add: sys_ok_def)
  have mt: "ptable.more ?t = ptable.more s" by simp
  have lt: "live_procs ?t = ?L" using ptable_more_kernel [OF mt] by simp
  have rq: "rq_exact c inv ?t ?L"
  proof -
    have "waiting_to_run ?t ?L = waiting_to_run s ?L" by (auto simp: waiting_to_run_def)
    moreover have "inv (rq s, procs ?t) (waiting_to_run s ?L)"
      by (rule inv_frame [of _ "procs s"]) (use tab(2) in \<open>auto simp: rq_exact_def waiting_to_run_def\<close>)
    ultimately show ?thesis using tab(2) cu by (auto simp: rq_exact_def)
  qed
  have rdt: "\<forall>p \<in> ?L. ready (procs ?t p)"
  proof
    fix p assume "p \<in> ?L"
    moreover have "lab6_priority (procs ?t p) = lab6_priority (procs s p)" by simp
    ultimately show "ready (procs ?t p)" using rd ready_prio by blast
  qed
  let ?R = "{p \<in> ?L. state (procs ?t p) = PROC_RUNNABLE \<and> p \<noteq> idleproc ?t}"
  obtain s' where s': "schedule ?t = Some s'" "rq_exact c inv s' ?L"
    "?R = {} \<longrightarrow> current s' = idleproc ?t" "?R \<noteq> {} \<longrightarrow> current s' \<in> ?R"
    "\<forall>x. state (procs s' x) = state (procs ?t x)" "\<forall>x. sched_same (procs ?t x) (procs s' x)"
    using schedule_exact [OF rq rdt] by (auto simp: Let_def)
  note sh = sched_shape_ptable [OF schedule_shape [OF s'(1)]]
  have more: "ptable.more s' = ptable.more s" using sh(6) by simp
  note k = ptable_more_kernel [OF more]
  have "table_ok ?t kids" by (rule table_ok_cong [OF tab(1)]) auto
  then have "table_ok s' kids"
    by (rule table_ok_cong) (use sh sched_same_fields [OF s'(6) [rule_format]] in auto)
  moreover have st: "state (procs s' x) = (if x = ?c then PROC_SLEEPING else state (procs s x))" for x
    using s'(5) by simp
  moreover have run: "state (procs s' (current s')) = PROC_RUNNABLE"
  proof (cases "?R = {}")
    case True
    then show ?thesis using s'(2,3) sh(7) by (simp add: rq_exact_def)
  next
    case False
    then show ?thesis using s'(4,5) by auto
  qed
  ultimately have "sys_ok c inv s' kids"
    using sys s'(2) sh(1) k(1) unfolding sys_ok_def by (auto split: if_splits)
  moreover have "current s' \<noteq> ?c" using st run by auto
  moreover have "wait_state (procs s' ?c) = w" using sched_same_fields(3) [OF s'(6) [rule_format], of ?c] by simp
  ultimately show ?thesis using s'(1) st more by simp
qed

lemma do_wait_ok:
  assumes sys: "sys_ok c inv s kids" and cu: "current s \<noteq> idleproc s" and rd: "\<forall>p \<in> live_procs s. ready (procs s p)"
    and ch: "\<forall>p \<in> set (kids (current s)). p \<noteq> idleproc s \<and> p \<noteq> initproc s \<and> (\<exists>k \<in> live_kstacks s. kstack (procs s p) = Some k)"
    and ok: "code_store = None \<or> checked"
  shows "\<exists>r s'. do_wait checked i code_store s = Some (r, s') \<and>
    (case find (is_zombie (procs s)) (waited i s kids) of
       Some p \<Rightarrow> r = Waited 0 \<and> sys_ok c inv s' (kids(current s := remove1 p (kids (current s)))) \<and>
         live_procs s' = live_procs s - {p} \<and> live_kstacks s' = live_kstacks s - {the (kstack (procs s p))} \<and>
         p \<notin> set (proc_list s') \<and> (\<forall>a. code_store = Some a \<longrightarrow> ustore s' a = exit_code (procs s p))
     | None \<Rightarrow>
         if waited i s kids = [] then r = Waited (- E_BAD_PROC) \<and> s' = s
         else r = Blocked \<and> sys_ok c inv s' kids \<and> current s' \<noteq> current s \<and>
           state (procs s' (current s)) = PROC_SLEEPING \<and> wait_state (procs s' (current s)) = WT_CHILD)"
proof -
  have t: "table_ok s kids" "\<forall>x. x \<in> set (proc_list s) \<longleftrightarrow> (\<exists>q. x \<in> set (kids q))"
    using sys by (simp_all add: sys_ok_def)
  note ws = wait_search_ok [OF t, of i]
  have dw: "do_wait checked i code_store s = wait_pass i code_store s" using ok by (auto simp: do_wait_def)
  show ?thesis
  proof (cases "find (is_zombie (procs s)) (waited i s kids)")
    case (Some p)
    then have p: "p \<in> set (waited i s kids)" "state (procs s p) = PROC_ZOMBIE" by (auto simp: find_Some_iff dest: nth_mem)
    have pk: "p \<in> set (kids (current s))" using waited_child [OF p(1)] .
    then obtain k where k: "kstack (procs s p) = Some k" "k \<in> live_kstacks s" "p \<noteq> idleproc s" "p \<noteq> initproc s" using ch by blast
    obtain s' where s': "wait_reap code_store p s = Some s'"
      "sys_ok c inv s' (kids(current s := remove1 p (kids (current s))))" "live_procs s' = live_procs s - {p}"
      "live_kstacks s' = live_kstacks s - {k}" "p \<notin> set (proc_list s')"
      "\<forall>a. code_store = Some a \<longrightarrow> ustore s' a = exit_code (procs s p)"
      using wait_reap_ok [OF sys pk p(2) k(3,4,1,2), of code_store] by blast
    have "wait_pass i code_store s = Some (Waited 0, s')" using ws Some s'(1) by (simp add: wait_pass_def)
    then show ?thesis using Some s' k(1) dw by simp
  next
    case None
    show ?thesis
    proof (cases "waited i s kids = []")
      case True
      then have "wait_pass i code_store s = Some (Waited (- E_BAD_PROC), s)" using ws None by (simp add: wait_pass_def)
      then show ?thesis using True dw by simp
    next
      case False
      obtain s' where s': "schedule (upd_proc (current s) (\<lambda>x. x\<lparr>state := PROC_SLEEPING, wait_state := WT_CHILD\<rparr>) s) = Some s'"
        "sys_ok c inv s' kids" "current s' \<noteq> current s" "state (procs s' (current s)) = PROC_SLEEPING"
        "wait_state (procs s' (current s)) = WT_CHILD"
        using wait_block_ok [OF sys cu rd, of WT_CHILD] by blast
      have "wait_pass i code_store s = Some (Blocked, s')" using ws None False s'(1) by (simp add: wait_pass_def)
      then show ?thesis using False None s' dw by simp
    qed
  qed
qed

end

section \<open>Kill\<close>

context sched_policy
begin

lemma do_kill_ok:
  assumes sys: "sys_ok c inv s kids"
    and that: "\<forall>p. find_proc i s = Some p \<longrightarrow> state (procs s p) = PROC_ZOMBIE \<longrightarrow> wait_state (procs s p) AND WT_INTERRUPTED = 0"
  shows "\<exists>r s'. do_kill i s = Some (r, s') \<and>
    (case find_proc i s of
       None \<Rightarrow> r = - E_INVAL \<and> s' = s
     | Some p \<Rightarrow>
         if pr_flags (procs s p) AND PF_EXITING \<noteq> 0 then r = - E_KILLED \<and> s' = s
         else r = 0 \<and> pr_flags (procs s' p) = pr_flags (procs s p) OR PF_EXITING \<and>
           rq_exact c inv s' (live_procs s) \<and> table_ok s' kids \<and>
           (wait_state (procs s p) AND WT_INTERRUPTED \<noteq> 0 \<longrightarrow> state (procs s' p) = PROC_RUNNABLE) \<and>
           (\<forall>x. x \<noteq> p \<longrightarrow> procs s' x = procs s x))"
proof (cases "find_proc i s")
  case None
  then show ?thesis by (simp add: do_kill_def)
next
  case (Some p)
  have tab: "table_ok s kids" "rq_exact c inv s (live_procs s)" "set (proc_list s) \<subseteq> live_procs s"
    using sys by (simp_all add: sys_ok_def)
  show ?thesis
  proof (cases "pr_flags (procs s p) AND PF_EXITING = 0")
    case False
    then show ?thesis using Some by (simp add: do_kill_def)
  next
    case True
    let ?s1 = "upd_proc p (\<lambda>x. x\<lparr>pr_flags := pr_flags x OR PF_EXITING\<rparr>) s"
    have pl: "p \<in> live_procs s" using find_proc_Some [of s i p] Some tab(1,3) by (auto simp: table_ok_def)
    have rq1: "rq_exact c inv ?s1 (live_procs s)" by (rule rq_exact_cong [OF tab(2)]) auto
    have t1: "table_ok ?s1 kids" by (rule table_ok_cong [OF tab(1)]) auto
    show ?thesis
    proof (cases "wait_state (procs s p) AND WT_INTERRUPTED = 0")
      case wait: True
      then have "do_kill i s = Some (0, ?s1)" using Some True by (simp add: do_kill_def Let_def)
      then show ?thesis using Some True wait rq1 t1 by simp
    next
      case wait: False
      have nz: "state (procs ?s1 p) \<noteq> PROC_ZOMBIE" using that Some wait by auto
      obtain s' where s': "wakeup_proc p ?s1 = Some s'" "rq_exact c inv s' (live_procs s)" "state (procs s' p) = PROC_RUNNABLE"
        "frame_step ?s1 s'" "\<forall>x. x \<noteq> p \<longrightarrow> procs s' x = procs ?s1 x"
        and eqs: "\<forall>x. parent (procs s' x) = parent (procs ?s1 x) \<and> cptr (procs s' x) = cptr (procs ?s1 x) \<and>
          yptr (procs s' x) = yptr (procs ?s1 x) \<and> optr (procs s' x) = optr (procs ?s1 x)"
        using wakeup_frame [OF rq1 pl nz] by blast
      have wo: "woken_only (procs ?s1 x) (procs s' x)" for x using s'(4) by (simp add: frame_step_def)
      have "table_ok s' kids"
        by (rule table_ok_cong [OF t1]) (use s'(4) eqs wo in \<open>auto simp: frame_step_def woken_only_def\<close>)
      moreover have "do_kill i s = Some (0, s')" using Some True wait s'(1) by (simp add: do_kill_def Let_def)
      moreover have "pr_flags (procs s' p) = pr_flags (procs s p) OR PF_EXITING" using wo [of p] by (simp add: woken_only_def)
      ultimately show ?thesis using Some True s'(2,3,5) by simp
    qed
  qed
qed

end

section \<open>Properties\<close>

text \<open>Process 2 runs, its parent 1, the \<^verbatim>\<open>initproc\<close>, waits for it.\<close>

definition kernel2 :: kernel where
  "kernel2 = kernel1\<lparr>current := 2, procs := (procs ptable0)
     (1 := (procs ptable0 1)\<lparr>state := PROC_SLEEPING, wait_state := WT_CHILD\<rparr>,
      2 := (procs ptable0 2)\<lparr>state := PROC_RUNNABLE, pr_mm := Some 4, filesp := Some 9\<rparr>)\<rparr>"

lemma kernel2_sel [simp]:
  "current kernel2 = 2" "idleproc kernel2 = 0" "initproc kernel2 = 1" "live_procs kernel2 = {0, 1, 2}"
  "live_mms kernel2 = {4}" "mm_count kernel2 = (\<lambda>_. 1)" "live_files kernel2 = {9}" "files_count kernel2 = (\<lambda>_. 1)"
  "mm_pgdir kernel2 = (\<lambda>_. 0xFFFFFFFFC0300000)" "live_pgdirs kernel2 = {0xFFFFFFFFC0300000}"
  by (simp_all add: kernel2_def)

lemma kernel2_ok: "sys_ok stride_sched_class stride_inv kernel2 kids0"
proof -
  have t: "table_ok kernel1 kids0" "rq_exact stride_sched_class stride_inv kernel1 {0, 1, 2}"
    using kernel1_ok by (simp_all add: sys_ok_def)
  have "table_ok kernel2 kids0" by (rule table_ok_cong [OF t(1)]) (simp_all add: kernel2_def)
  moreover have "waiting_to_run kernel2 {0, 1, 2} = {}" "waiting_to_run kernel1 {0, 1, 2} = {}"
    by (auto simp: waiting_to_run_def kernel2_def)
  then have "rq_exact stride_sched_class stride_inv kernel2 {0, 1, 2}"
    using t(2) stride.inv_frame [of "rq kernel1" "procs kernel1" "{}" "procs kernel2"]
    by (simp add: rq_exact_def) (simp add: kernel2_def)
  ultimately show ?thesis by (auto simp: sys_ok_def kids0_def kernel2_def)
qed





text \<open>\<^verbatim>\<open>do_kill\<close> marks the process found by its pid as exiting and makes it runnable if its wait can be
  interrupted; an unknown pid gives \<^verbatim>\<open>-E_INVAL\<close>, a process already marked \<^verbatim>\<open>-E_KILLED\<close>, and both change
  nothing. No other process is touched.\<close>

theorem do_kill_correct:
  assumes "sys_ok stride_sched_class stride_inv s kids"
    and "\<forall>p. find_proc i s = Some p \<longrightarrow> state (procs s p) = PROC_ZOMBIE \<longrightarrow> wait_state (procs s p) AND WT_INTERRUPTED = 0"
  shows "\<exists>r s'. do_kill i s = Some (r, s') \<and>
    (case find_proc i s of
       None \<Rightarrow> r = - E_INVAL \<and> s' = s
     | Some p \<Rightarrow>
         if pr_flags (procs s p) AND PF_EXITING \<noteq> 0 then r = - E_KILLED \<and> s' = s
         else r = 0 \<and> pr_flags (procs s' p) = pr_flags (procs s p) OR PF_EXITING \<and>
           rq_exact stride_sched_class stride_inv s' (live_procs s) \<and> table_ok s' kids \<and>
           (wait_state (procs s p) AND WT_INTERRUPTED \<noteq> 0 \<longrightarrow> state (procs s' p) = PROC_RUNNABLE) \<and>
           (\<forall>x. x \<noteq> p \<longrightarrow> procs s' x = procs s x))"
  by (rule stride.do_kill_ok [OF assms])

lemma do_kill_correct_witness: "\<exists>s'. do_kill 1 kernel2 = Some (0, s') \<and> state (procs s' 1) = PROC_RUNNABLE"
proof -
  have f: "find_proc 1 kernel2 = Some 1"
    using kernel2_ok by (subst find_proc_Some) (auto simp: sys_ok_def table_ok_def kernel2_def ptable0_def)
  have "pr_flags (procs kernel2 1) = 0" "wait_state (procs kernel2 1) = WT_CHILD" "state (procs kernel2 1) = PROC_SLEEPING"
    by (simp_all add: kernel2_def)
  then show ?thesis using do_kill_correct [OF kernel2_ok, of 1] f by auto
qed

end
