(* ===== verification/Bitmap.thy ===== *)
theory Bitmap
  imports Prelude
begin

text \<open>
  The bitmap of \<^verbatim>\<open>kern/fs/sfs/bitmap.c\<close>: an array of 32-bit words in which a set bit marks a free block. The
  abstraction \<open>free_bits\<close> is the set of the indices whose bit is set; every operation is proved against it.
  \<^verbatim>\<open>uint32_t\<close> indices and counts are numbers; the words are words.
\<close>

section \<open>Operations\<close>

record bitmap =
  nbits :: nat
  nwords :: nat
  bmap :: "u32 list"

abbreviation (input) WORD_BITS :: nat where "WORD_BITS \<equiv> 32"

definition bit_mask :: "nat \<Rightarrow> u32" where
  "bit_mask offset = push_bit offset 1"

text \<open>The loop that marks the left-over bits of the last word in use.\<close>

fun clear_over :: "nat \<Rightarrow> nat \<Rightarrow> u32 \<Rightarrow> u32" where
  "clear_over 0 overbits w = w"
| "clear_over (Suc n) overbits w = clear_over n (Suc overbits) (w XOR bit_mask overbits)"

text \<open>The result is \<open>None\<close> for a failed assertion, \<open>Some None\<close> when an allocation fails.\<close>

definition bitmap_create :: "bool \<Rightarrow> bool \<Rightarrow> nat \<Rightarrow> bitmap option option" where
  "bitmap_create got_bitmap got_map n = do {
     kassert (n \<noteq> 0 \<and> n + WORD_BITS < 2 ^ 32);
     let nw = (n + WORD_BITS - 1) div WORD_BITS;
     if \<not> got_bitmap \<or> \<not> got_map then Some None
     else do {
       let m = replicate nw 0xFFFFFFFF;
       if n \<noteq> nw * WORD_BITS then do {
         let ix = nw - 1;
         let overbits = n - ix * WORD_BITS;
         kassert (n div WORD_BITS = ix);
         kassert (overbits > 0 \<and> overbits < WORD_BITS);
         Some (Some \<lparr>nbits = n, nwords = nw, bmap = m[ix := clear_over (WORD_BITS - overbits) overbits (m ! ix)]\<rparr>)
       } else Some (Some \<lparr>nbits = n, nwords = nw, bmap = m\<rparr>)
     }
   }"

text \<open>The inner loop of \<^verbatim>\<open>bitmap_alloc\<close>: the first set bit of a word from \<open>offset\<close> on.\<close>

function scan_word :: "u32 \<Rightarrow> nat \<Rightarrow> nat option" where
  "scan_word w offset =
     (if offset < WORD_BITS then if w AND bit_mask offset \<noteq> 0 then Some offset else scan_word w (offset + 1)
      else None)"
  by auto
termination by (relation "measure (\<lambda>(w, offset). WORD_BITS - offset)") auto

declare scan_word.simps [simp del]

fun alloc_scan :: "u32 list \<Rightarrow> nat \<Rightarrow> (nat \<times> u32 list) option option" where
  "alloc_scan [] ix = Some None"
| "alloc_scan (w # ws) ix =
     (if w \<noteq> 0 then
        (case scan_word w 0 of
           Some offset \<Rightarrow> Some (Some (ix * WORD_BITS + offset, (w XOR bit_mask offset) # ws))
         | None \<Rightarrow> panic)
      else do {
        r \<leftarrow> alloc_scan ws (ix + 1);
        Some (map_option (\<lambda>(i, ws'). (i, w # ws')) r)
      })"

definition bitmap_alloc :: "bitmap \<Rightarrow> (int \<times> nat \<times> bitmap) option" where
  "bitmap_alloc b = do {
     r \<leftarrow> alloc_scan (take (nwords b) (bmap b)) 0;
     (case r of
        Some (i, ws) \<Rightarrow> Some (0, i, b\<lparr>bmap := ws @ drop (nwords b) (bmap b)\<rparr>)
      | None \<Rightarrow> Some (- E_NO_MEM, 0, b))
   }"

definition bitmap_translate :: "bitmap \<Rightarrow> nat \<Rightarrow> (nat \<times> u32) option" where
  "bitmap_translate b index = do {
     kassert (index < nbits b);
     Some (index div WORD_BITS, bit_mask (index mod WORD_BITS))
   }"

definition bitmap_test :: "bitmap \<Rightarrow> nat \<Rightarrow> bool option" where
  "bitmap_test b index = do {
     (ix, mask) \<leftarrow> bitmap_translate b index;
     Some ((bmap b ! ix) AND mask \<noteq> 0)
   }"

definition bitmap_free :: "bitmap \<Rightarrow> nat \<Rightarrow> bitmap option" where
  "bitmap_free b index = do {
     (ix, mask) \<leftarrow> bitmap_translate b index;
     kassert ((bmap b ! ix) AND mask = 0);
     Some (b\<lparr>bmap := (bmap b)[ix := (bmap b ! ix) OR mask]\<rparr>)
   }"

definition bitmap_getdata :: "bitmap \<Rightarrow> nat \<times> u32 list" where
  "bitmap_getdata b = (4 * nwords b, bmap b)"

section \<open>The set of free indices\<close>

definition free_bits :: "bitmap \<Rightarrow> nat set" where
  "free_bits b = {i. i < WORD_BITS * length (bmap b) \<and> bit (bmap b ! (i div WORD_BITS)) (i mod WORD_BITS)}"

definition bitmap_ok :: "bitmap \<Rightarrow> bool" where
  "bitmap_ok b \<longleftrightarrow> length (bmap b) = nwords b \<and> nbits b \<le> WORD_BITS * nwords b \<and> free_bits b \<subseteq> {..<nbits b}"

lemma bit_mask_bit: "bit (bit_mask n) m \<longleftrightarrow> m = n \<and> n < 32"
  by (auto simp: bit_mask_def bit_exp_iff)

lemma and_mask: "n < 32 \<Longrightarrow> w AND bit_mask n \<noteq> 0 \<longleftrightarrow> bit w n"
  by (auto simp: bit_eq_iff [where 'a = u32] bit_and_iff bit_mask_bit)

lemma word_nonzero_bit: "w \<noteq> 0 \<Longrightarrow> \<exists>n < 32. bit w n" for w :: u32
  by (auto simp: bit_eq_iff [where 'a = u32] dest: bit_imp_le_length)

lemma scan_word_Some:
  "scan_word w k = Some n \<Longrightarrow> k \<le> n \<and> n < 32 \<and> bit w n \<and> (\<forall>m. k \<le> m \<and> m < n \<longrightarrow> \<not> bit w m)"
proof (induction w k rule: scan_word.induct)
  case (1 w k)
  show ?case
  proof (cases "k < 32 \<and> \<not> bit w k")
    case True
    then have "scan_word w (k + 1) = Some n" using 1(2) and_mask [of k w] by (subst (asm) scan_word.simps) auto
    from 1(1) [OF _ _ this] True and_mask [of k w] show ?thesis
      by (metis Suc_eq_plus1 Suc_leI le_neq_implies_less less_imp_le_nat order_less_le_trans less_add_one)
  next
    case False
    then have "n = k \<and> k < 32 \<and> bit w k" using 1(2) and_mask [of k w] by (subst (asm) scan_word.simps) (auto split: if_splits)
    then show ?thesis by auto
  qed
qed

lemma scan_word_None: "scan_word w k = None \<Longrightarrow> k \<le> m \<Longrightarrow> m < 32 \<Longrightarrow> \<not> bit w m"
proof (induction w k rule: scan_word.induct)
  case (1 w k)
  have k: "k < 32" using 1 by simp
  have a: "\<not> (w AND bit_mask k \<noteq> 0)" using 1(2) k by (subst (asm) scan_word.simps) (auto split: if_splits)
  then have n: "scan_word w (k + 1) = None" using 1(2) k by (subst (asm) scan_word.simps) simp
  show ?case
  proof (cases "m = k")
    case True
    then show ?thesis using a and_mask [OF k] by blast
  next
    case False
    then show ?thesis using 1(1) [OF k a n] 1(3,4) by simp
  qed
qed

fun bits_from :: "u32 list \<Rightarrow> nat \<Rightarrow> nat set" where
  "bits_from [] ix = {}"
| "bits_from (w # ws) ix = {ix * WORD_BITS + j | j. j < WORD_BITS \<and> bit w j} \<union> bits_from ws (ix + 1)"

lemma bits_from_iff:
  "i \<in> bits_from ws ix \<longleftrightarrow> ix * 32 \<le> i \<and> i < (ix + length ws) * 32 \<and> bit (ws ! (i div 32 - ix)) (i mod 32)"
proof (induction ws arbitrary: ix)
  case (Cons w ws)
  show ?case
  proof (cases "i div 32 = ix")
    case True
    then have i: "i = ix * 32 + i mod 32" by (metis div_mult_mod_eq mult.commute)
    have "i \<in> {ix * 32 + j | j. j < 32 \<and> bit w j} \<longleftrightarrow> bit w (i mod 32)"
    proof
      assume "bit w (i mod 32)"
      then show "i \<in> {ix * 32 + j | j. j < 32 \<and> bit w j}" using i by (intro CollectI exI [of _ "i mod 32"]) auto
    qed auto
    moreover have "ix * 32 \<le> i" "i < ix * 32 + 32" using i by linarith+
    ultimately show ?thesis using True Cons by auto
  next
    case False
    then have "i \<notin> {ix * 32 + j | j. j < 32 \<and> bit w j}" by auto
    moreover have "ix * 32 \<le> i \<longleftrightarrow> Suc ix * 32 \<le> i" using False by (auto simp: div_nat_eqI)
    moreover have "(w # ws) ! (i div 32 - ix) = ws ! (i div 32 - Suc ix)" if "Suc ix * 32 \<le> i"
    proof -
      have "Suc ix \<le> i div 32" using that by (metis div_le_mono div_mult_self_is_m zero_less_numeral)
      then have "i div 32 - ix = Suc (i div 32 - Suc ix)" by simp
      then show ?thesis by simp
    qed
    ultimately show ?thesis using Cons by auto
  qed
qed simp

lemma free_bits_from: "free_bits b = bits_from (bmap b) 0"
  by (auto simp: free_bits_def bits_from_iff mult.commute)

lemma bit_flip: "n < 32 \<Longrightarrow> bit w n \<Longrightarrow> bit (w XOR bit_mask n) m \<longleftrightarrow> bit w m \<and> m \<noteq> n"
  by (auto simp: bit_xor_iff bit_mask_bit)

lemma bits_from_ge: "i \<in> bits_from ws ix \<Longrightarrow> ix * 32 \<le> i"
  by (simp add: bits_from_iff)

lemma alloc_scan_ok:
  "(bits_from ws ix = {} \<longrightarrow> alloc_scan ws ix = Some None) \<and>
   (bits_from ws ix \<noteq> {} \<longrightarrow> (\<exists>i ws'. alloc_scan ws ix = Some (Some (i, ws')) \<and> i \<in> bits_from ws ix \<and>
      (\<forall>j \<in> bits_from ws ix. i \<le> j) \<and> bits_from ws' ix = bits_from ws ix - {i} \<and> length ws' = length ws))"
proof (induction ws arbitrary: ix)
  case (Cons w ws)
  let ?B = "{ix * 32 + j | j. j < 32 \<and> bit w j}"
  show ?case
  proof (cases "w = 0")
    case True
    then have "?B = {}" by simp
    then show ?thesis using Cons [of "ix + 1"] True by auto
  next
    case False
    then obtain m where "m < 32" "bit w m" using word_nonzero_bit by blast
    then obtain n where n: "scan_word w 0 = Some n" using scan_word_None [of w 0 m] by (cases "scan_word w 0") auto
    note s = scan_word_Some [OF n]
    have a: "alloc_scan (w # ws) ix = Some (Some (ix * 32 + n, (w XOR bit_mask n) # ws))" using False n by simp
    have i: "ix * 32 + n \<in> ?B" using s by auto
    have "\<forall>j \<in> bits_from (w # ws) ix. ix * 32 + n \<le> j"
    proof
      fix j assume "j \<in> bits_from (w # ws) ix"
      then consider k where "j = ix * 32 + k" "k < 32" "bit w k" | "j \<in> bits_from ws (ix + 1)" by auto
      then show "ix * 32 + n \<le> j"
      proof cases
        case 1
        then show ?thesis using s by (metis add_left_mono le0 not_le_imp_less)
      next
        case 2
        then show ?thesis using bits_from_ge [OF 2] s by simp
      qed
    qed
    moreover have "bits_from ((w XOR bit_mask n) # ws) ix = bits_from (w # ws) ix - {ix * 32 + n}"
    proof -
      have "{ix * 32 + j | j. j < 32 \<and> bit (w XOR bit_mask n) j} = ?B - {ix * 32 + n}"
        using s bit_flip [of n w] by auto
      moreover have "ix * 32 + n \<notin> bits_from ws (ix + 1)" using bits_from_ge [of "ix * 32 + n" ws "ix + 1"] s by auto
      ultimately show ?thesis by auto
    qed
    ultimately show ?thesis using a i by auto
  qed
qed simp

lemma bitmap_alloc_ok:
  assumes "bitmap_ok b"
  shows "if free_bits b = {} then bitmap_alloc b = Some (- E_NO_MEM, 0, b)
    else \<exists>b'. bitmap_alloc b = Some (0, Min (free_bits b), b') \<and> free_bits b' = free_bits b - {Min (free_bits b)} \<and>
      bitmap_ok b' \<and> nbits b' = nbits b"
proof -
  have len: "length (bmap b) = nwords b" using assms by (simp add: bitmap_ok_def)
  have fin: "finite (free_bits b)" using assms by (meson bitmap_ok_def finite_lessThan finite_subset)
  note A = alloc_scan_ok [of "bmap b" 0, folded free_bits_from]
  show ?thesis
  proof (cases "free_bits b = {}")
    case True
    then show ?thesis using A len by (simp add: bitmap_alloc_def)
  next
    case False
    then obtain i ws' where i: "alloc_scan (bmap b) 0 = Some (Some (i, ws'))" "i \<in> free_bits b" "\<forall>j \<in> free_bits b. i \<le> j"
      "bits_from ws' 0 = free_bits b - {i}" "length ws' = length (bmap b)" using A by blast
    have "Min (free_bits b) = i" using fin i(2,3) by (simp add: Min_eqI)
    moreover have "free_bits (b\<lparr>bmap := ws'\<rparr>) = free_bits b - {i}" using i(4) by (simp add: free_bits_from)
    ultimately show ?thesis using False i(1,5) len assms by (auto simp: bitmap_alloc_def bitmap_ok_def)
  qed
qed

text \<open>\<^verbatim>\<open>bitmap_alloc\<close> returns the least free index and marks it in use, and nothing else; it reports
  \<^verbatim>\<open>-E_NO_MEM\<close> exactly when no index is free, and leaves the map alone then.\<close>

theorem bitmap_alloc_least:
  assumes "bitmap_ok b"
  shows "if free_bits b = {} then bitmap_alloc b = Some (- E_NO_MEM, 0, b)
    else \<exists>b'. bitmap_alloc b = Some (0, Min (free_bits b), b') \<and> free_bits b' = free_bits b - {Min (free_bits b)} \<and>
      bitmap_ok b' \<and> nbits b' = nbits b"
  by (rule bitmap_alloc_ok [OF assms])

lemma bitmap_test_eq: "bitmap_ok b \<Longrightarrow> i < nbits b \<Longrightarrow> bitmap_test b i = Some (i \<in> free_bits b)"
  by (auto simp: bitmap_test_def bitmap_translate_def and_mask free_bits_def bitmap_ok_def)

lemma bitmap_free_eq:
  assumes "bitmap_ok b" "i < nbits b"
  shows "bitmap_free b i = (if i \<in> free_bits b then None
    else Some (b\<lparr>bmap := (bmap b)[i div 32 := (bmap b ! (i div 32)) OR bit_mask (i mod 32)]\<rparr>))"
proof -
  have "(bmap b ! (i div 32)) AND bit_mask (i mod 32) = 0 \<longleftrightarrow> i \<notin> free_bits b"
    using and_mask [of "i mod 32"] assms by (auto simp: free_bits_def bitmap_ok_def)
  then show ?thesis by (simp add: bitmap_free_def bitmap_translate_def assms)
qed

lemma free_bits_or:
  assumes "bitmap_ok b" "i < nbits b"
  shows "free_bits (b\<lparr>bmap := (bmap b)[i div 32 := (bmap b ! (i div 32)) OR bit_mask (i mod 32)]\<rparr>) = insert i (free_bits b)"
proof -
  have l: "i div 32 < length (bmap b)" using assms by (auto simp: bitmap_ok_def)
  have "j = i" if "j div 32 = i div 32" "j mod 32 = i mod 32" for j
    using that by (metis div_mult_mod_eq)
  then show ?thesis using l
    by (auto simp: free_bits_def nth_list_update bit_or_iff bit_mask_bit split: if_splits)
qed

lemma bitmap_free_ok:
  assumes "bitmap_ok b" and "i < nbits b"
  shows "if i \<in> free_bits b then bitmap_free b i = None
    else \<exists>b'. bitmap_free b i = Some b' \<and> free_bits b' = insert i (free_bits b) \<and> bitmap_ok b' \<and> nbits b' = nbits b"
  using bitmap_free_eq [OF assms] free_bits_or [OF assms] assms
  by (auto simp: bitmap_ok_def)

lemma free_bits_inject:
  assumes "free_bits b = free_bits c" "length (bmap b) = length (bmap c)" "nbits b = nbits c" "nwords b = nwords c"
  shows "(b :: bitmap) = c"
proof -
  have "bmap b = bmap c"
  proof (rule nth_equalityI)
    fix i assume i: "i < length (bmap b)"
    show "bmap b ! i = bmap c ! i"
    proof (rule bit_word_eqI)
      fix k assume "k < LENGTH(32)"
      then have k: "k < 32" by simp
      have "i * 32 + k \<in> free_bits b \<longleftrightarrow> i * 32 + k \<in> free_bits c" using assms(1) by simp
      moreover have "i * 32 + k < 32 * length (bmap b)" using i k by linarith
      ultimately show "bit (bmap b ! i) k \<longleftrightarrow> bit (bmap c ! i) k" using k assms(2) by (simp add: free_bits_def)
    qed
  qed (fact assms(2))
  then show ?thesis using assms by simp
qed

text \<open>Allocation followed by release is the identity on the whole map: the index returned is in use in between,
  \<^verbatim>\<open>bitmap_free\<close> gives back the very map \<^verbatim>\<open>bitmap_alloc\<close> was called on, and releasing the index once more stops the
  kernel at the assertion.\<close>

theorem bitmap_free_restores:
  assumes "bitmap_ok b" and "bitmap_alloc b = Some (0, i, b')"
  shows "bitmap_test b i = Some True \<and> bitmap_test b' i = Some False \<and>
    bitmap_free b' i = Some b \<and> bitmap_free b i = None"
proof -
  have ne: "free_bits b \<noteq> {}" using bitmap_alloc_ok [OF assms(1)] assms(2) by auto
  then have a: "i = Min (free_bits b)" "free_bits b' = free_bits b - {i}" "bitmap_ok b'" "nbits b' = nbits b"
    using bitmap_alloc_ok [OF assms(1)] assms(2) by auto
  have i: "i \<in> free_bits b" "i < nbits b"
    using a(1) ne assms(1) by (auto simp: bitmap_ok_def dest: finite_subset intro!: Min_in)
  have t: "bitmap_test b i = Some True" "bitmap_test b' i = Some False"
    using bitmap_test_eq [of b i] bitmap_test_eq [of b' i] a i assms(1) by simp_all
  obtain c where c: "bitmap_free b' i = Some c" "free_bits c = free_bits b" "bitmap_ok c" "nbits c = nbits b"
    using bitmap_free_ok [of b' i] a i insert_absorb [OF i(1)] by auto
  have "nwords b' = nwords b" using assms(2) by (auto simp: bitmap_alloc_def bind_eq_Some_conv split: option.splits)
  then have "nwords c = nwords b" using c(1) by (auto simp: bitmap_free_def bitmap_translate_def)
  then have "c = b" using c assms(1) by (intro free_bits_inject) (simp_all add: bitmap_ok_def)
  moreover have "bitmap_free b i = None" using bitmap_free_ok [OF assms(1) i(2)] i(1) by simp
  ultimately show ?thesis using c(1) t by simp
qed

text \<open>A fresh map: every index below the number of bits is free and no left-over bit is.\<close>

lemma clear_over_bit: "k + n \<le> 32 \<Longrightarrow> bit (clear_over n k w) m \<longleftrightarrow> (if k \<le> m \<and> m < k + n then \<not> bit w m else bit w m)"
proof (induction n arbitrary: k w)
  case (Suc n)
  then have IH: "bit (clear_over n (Suc k) v) m \<longleftrightarrow> (if Suc k \<le> m \<and> m < Suc k + n then \<not> bit v m else bit v m)" for v by simp
  show ?case using Suc.prems by (auto simp: IH bit_xor_iff bit_mask_bit)
qed auto

lemma all_ones_bit: "k < 32 \<Longrightarrow> bit (0xFFFFFFFF :: u32) k"
proof -
  assume k: "k < 32"
  have e: "(0xFFFFFFFF :: u32) = - 1" by simp
  show ?thesis unfolding e using k by simp
qed

lemma clear_over_ones: "ov \<le> 32 \<Longrightarrow> k < 32 \<Longrightarrow> bit (clear_over (32 - ov) ov 0xFFFFFFFF) k \<longleftrightarrow> k < ov"
  using all_ones_bit [of k] by (auto simp: clear_over_bit)

lemma bitmap_create_ok:
  assumes n: "0 < n" "n + 32 < 2 ^ 32"
  shows "\<exists>b. bitmap_create True True n = Some (Some b) \<and> bitmap_ok b \<and> free_bits b = {..<n} \<and> nbits b = n"
proof -
  let ?nw = "(n + 31) div 32" and ?m = "replicate ((n + 31) div 32) (0xFFFFFFFF :: u32)"
  have nw: "n \<le> ?nw * 32" "0 < ?nw" "?nw * 32 < n + 32" using n by linarith+
  note all = all_ones_bit
  show ?thesis
  proof (cases "n = ?nw * 32")
    case True
    let ?b = "\<lparr>nbits = n, nwords = ?nw, bmap = ?m\<rparr>"
    have e: "(31 + n) div 32 * 32 = n" using True by (simp add: add.commute)
    have "free_bits ?b = {..<n}" using True all by (auto simp: free_bits_def mult.commute)
    moreover have "bitmap_create True True n = Some (Some ?b)" using n by (simp add: bitmap_create_def Let_def e)
    ultimately show ?thesis using True nw by (auto simp: bitmap_ok_def)
  next
    case False
    let ?ix = "?nw - 1" and ?o = "n - (?nw - 1) * 32"
    let ?w = "clear_over (32 - ?o) ?o 0xFFFFFFFF"
    let ?b = "\<lparr>nbits = n, nwords = ?nw, bmap = ?m[?ix := ?w]\<rparr>"
    have ix: "n div 32 = ?ix" "0 < ?o" "?o < 32" using nw False by linarith+
    have e: "n + WORD_BITS - 1 = n + 31" by simp
    have g: "n \<noteq> 0 \<and> n + WORD_BITS < 2 ^ 32" using n by simp
    have b: "bitmap_create True True n = Some (Some ?b)"
      unfolding bitmap_create_def Let_def e using g False ix nw(2)
      by (simp del: diff_diff_cancel diff_diff_left add: bind_def cong: if_cong)
    have "i \<in> free_bits ?b \<longleftrightarrow> i < n" for i
    proof -
      have lt: "i < n \<Longrightarrow> i < 32 * ?nw" using nw by linarith
      have "bit (?m[?ix := ?w] ! (i div 32)) (i mod 32) \<longleftrightarrow> i < n" if i: "i < 32 * ?nw"
      proof (cases "i div 32 = ?ix")
        case True
        have "bit ?w (i mod 32) \<longleftrightarrow> i mod 32 < ?o" using ix by (intro clear_over_ones) simp_all
        also have "\<dots> \<longleftrightarrow> i < n"
        proof -
          have "i = ?ix * 32 + i mod 32" using True by (metis div_mult_mod_eq)
          then show ?thesis using ix nw by linarith
        qed
        finally show ?thesis using True nw(2) by simp
      next
        case False
        then have "i div 32 < ?ix" using i by (metis less_mult_imp_div_less mult.commute Suc_diff_1 nw(2) less_SucE)
        moreover then have "i < n" using ix(1) by (metis div_le_mono linorder_not_less)
        moreover have "i div 32 < ?nw" using calculation(1) by simp
        ultimately show ?thesis using all by simp
      qed
      then show ?thesis using lt by (auto simp: free_bits_def)
    qed
    then have "free_bits ?b = {..<n}" by auto
    then show ?thesis using b nw by (auto simp: bitmap_ok_def)
  qed
qed

text \<open>A map of 40 blocks, for the examples.\<close>

definition bitmap0 :: bitmap where
  "bitmap0 = the (the (bitmap_create True True 40))"

lemma bitmap0_ok: "bitmap_ok bitmap0" "free_bits bitmap0 = {..<40}" "nbits bitmap0 = 40"
proof -
  obtain b where "bitmap_create True True 40 = Some (Some b)" "bitmap_ok b" "free_bits b = {..<40}" "nbits b = 40"
    using bitmap_create_ok [of 40] by auto
  then show "bitmap_ok bitmap0" "free_bits bitmap0 = {..<40}" "nbits bitmap0 = 40" by (simp_all add: bitmap0_def)
qed

lemma bitmap0_free: "free_bits bitmap0 \<noteq> {}" "Min (free_bits bitmap0) = 0" "free_bits bitmap0 - {0} = {1..<40}"
proof -
  have "(0 :: nat) \<in> {..<40}" by simp
  then show "free_bits bitmap0 \<noteq> {}" unfolding bitmap0_ok(2) by blast
  show "Min (free_bits bitmap0) = 0" unfolding bitmap0_ok(2) by (rule Min_eqI) auto
  show "free_bits bitmap0 - {0} = {1..<40}" unfolding bitmap0_ok(2) by auto
qed

lemma bitmap_alloc_least_witness: "\<exists>b'. bitmap_alloc bitmap0 = Some (0, 0, b') \<and> free_bits b' = {1..<40}"
  using bitmap_alloc_least [OF bitmap0_ok(1)] bitmap0_free by auto

lemma bitmap_free_restores_witness:
  "\<exists>b'. bitmap_alloc bitmap0 = Some (0, 0, b') \<and> bitmap_free b' 0 = Some bitmap0"
proof -
  obtain b' where "bitmap_alloc bitmap0 = Some (0, 0, b')"
    using bitmap_alloc_ok [OF bitmap0_ok(1)] bitmap0_free by auto
  then show ?thesis using bitmap_free_restores [OF bitmap0_ok(1)] by blast
qed

end
