(* ===== verification/Disk.thy ===== *)
theory Disk
  imports Bytes
begin

text \<open>
  The block device below the file system: I/O buffers (\<^verbatim>\<open>kern/fs/iobuf.c\<close>), the RAM disk and the IDE layer in
  front of it (\<^verbatim>\<open>kern/driver/ramdisk.c\<close>, \<^verbatim>\<open>kern/driver/ide.c\<close>) and the device \<^verbatim>\<open>disk0\<close>
  (\<^verbatim>\<open>kern/fs/devs/dev_disk0.c\<close>). A memory access outside the buffer a pointer refers to has no result
  (\<open>None\<close>), as a failed assertion has. The locale \<open>block_device\<close> states what the file system relies on,
  and \<open>disk0\<close> is proved to provide it. The semaphore around the transfers of \<^verbatim>\<open>disk0\<close> is left out: a
  transfer is one step.
\<close>

section \<open>I/O buffers\<close>

text \<open>\<open>io_base\<close> is the index of the pointer \<^verbatim>\<open>io_base\<close> in the buffer \<open>io_mem\<close> it points into.\<close>

record iobuf =
  io_mem :: "u8 list"
  io_base :: nat
  io_offset :: int
  io_len :: nat
  io_resid :: nat

definition iobuf_init :: "u8 list \<Rightarrow> nat \<Rightarrow> int \<Rightarrow> iobuf" where
  "iobuf_init base n offset = \<lparr>io_mem = base, io_base = 0, io_offset = offset, io_len = n, io_resid = n\<rparr>"

definition iobuf_used :: "iobuf \<Rightarrow> nat" where
  "iobuf_used iob = io_len iob - io_resid iob"

definition iobuf_skip :: "iobuf \<Rightarrow> nat \<Rightarrow> iobuf option" where
  "iobuf_skip iob n = do {
     kassert (io_resid iob \<ge> n);
     Some (iob\<lparr>io_base := io_base iob + n, io_offset := io_offset iob + int n, io_resid := io_resid iob - n\<rparr>)
   }"

text \<open>The results are the return code, \<^verbatim>\<open>*copiedp\<close>, the memory at \<^verbatim>\<open>data\<close> and the I/O buffer.\<close>

definition iobuf_move :: "iobuf \<Rightarrow> u8 list \<Rightarrow> nat \<Rightarrow> bool \<Rightarrow> (int \<times> nat \<times> u8 list \<times> iobuf) option" where
  "iobuf_move iob data n m2b = do {
     let alen = (if io_resid iob > n then n else io_resid iob);
     if alen > 0 then do {
       kassert (io_base iob + alen \<le> length (io_mem iob) \<and> alen \<le> length data);
       let iob1 = (if m2b then iob\<lparr>io_mem := overwrite (io_mem iob) (io_base iob) (take alen data)\<rparr> else iob);
       let data1 = (if m2b then data else overwrite data 0 (chunk (io_base iob) alen (io_mem iob)));
       iob2 \<leftarrow> iobuf_skip iob1 alen;
       Some (if n - alen = 0 then 0 else - E_NO_MEM, alen, data1, iob2)
     } else Some (if n = 0 then 0 else - E_NO_MEM, alen, data, iob)
   }"

definition iobuf_move_zeros :: "iobuf \<Rightarrow> nat \<Rightarrow> (int \<times> nat \<times> iobuf) option" where
  "iobuf_move_zeros iob n = do {
     let alen = (if io_resid iob > n then n else io_resid iob);
     if alen > 0 then do {
       kassert (io_base iob + alen \<le> length (io_mem iob));
       iob1 \<leftarrow> iobuf_skip (iob\<lparr>io_mem := overwrite (io_mem iob) (io_base iob) (replicate alen 0)\<rparr>) alen;
       Some (if n - alen = 0 then 0 else - E_NO_MEM, alen, iob1)
     } else Some (if n = 0 then 0 else - E_NO_MEM, alen, iob)
   }"

section \<open>The RAM disk and the IDE layer\<close>

abbreviation (input) SECTSIZE :: nat where "SECTSIZE \<equiv> 512"
abbreviation (input) MAX_IDE :: nat where "MAX_IDE \<equiv> 4"
abbreviation (input) MAX_NSECS :: nat where "MAX_NSECS \<equiv> 128"
abbreviation (input) MAX_DISK_NSECS :: nat where "MAX_DISK_NSECS \<equiv> 0x10000000"
abbreviation (input) SWAP_DEV_NO :: nat where "SWAP_DEV_NO \<equiv> 1"
abbreviation (input) DISK0_DEV_NO :: nat where "DISK0_DEV_NO \<equiv> 2"

text \<open>\<open>ide_mem\<close> is the memory from the address \<^verbatim>\<open>iobase\<close> on; the device owns the first \<open>ide_size\<close> sectors of it.\<close>

record ide_device =
  ide_valid :: bool
  ide_size :: nat
  ide_mem :: "nat \<Rightarrow> u8"

text \<open>Subtraction of \<^verbatim>\<open>size_t\<close> values, which wraps.\<close>

definition sub64 :: "nat \<Rightarrow> nat \<Rightarrow> nat" where
  "sub64 a b = nat ((int a - int b) mod 2 ^ 64)"

definition ramdisk_read :: "ide_device \<Rightarrow> nat \<Rightarrow> u8 list \<Rightarrow> nat \<Rightarrow> (int \<times> u8 list) option" where
  "ramdisk_read d secno dst nsecs = do {
     let n = min nsecs (sub64 (ide_size d) secno);
     kassert (n * SECTSIZE \<le> length dst);
     Some (0, overwrite dst 0 (mem_read (ide_mem d) (secno * SECTSIZE) (n * SECTSIZE)))
   }"

definition ramdisk_write :: "ide_device \<Rightarrow> nat \<Rightarrow> u8 list \<Rightarrow> nat \<Rightarrow> (int \<times> ide_device) option" where
  "ramdisk_write d secno src nsecs = do {
     let n = min nsecs (sub64 (ide_size d) secno);
     kassert (n * SECTSIZE \<le> length src);
     Some (0, d\<lparr>ide_mem := mem_write (ide_mem d) (secno * SECTSIZE) (take (n * SECTSIZE) src)\<rparr>)
   }"

text \<open>The images of the swap area and of the file system that the build links into the kernel: their length and
  the memory from their first byte on.\<close>

type_synonym image = "nat \<times> (nat \<Rightarrow> u8)"

definition check_initrd :: "image \<Rightarrow> bool" where
  "check_initrd img \<longleftrightarrow> fst img \<noteq> 0"

definition ramdisk_init :: "image \<Rightarrow> image \<Rightarrow> nat \<Rightarrow> ide_device option" where
  "ramdisk_init swap_img sfs_img devno = do {
     img \<leftarrow> (if devno = SWAP_DEV_NO then Some swap_img
            else if devno = DISK0_DEV_NO then Some sfs_img
            else panic);
     Some (if check_initrd img
           then \<lparr>ide_valid = True, ide_size = fst img mod 2 ^ 32 div SECTSIZE, ide_mem = snd img\<rparr>
           else \<lparr>ide_valid = False, ide_size = 0, ide_mem = snd img\<rparr>)
   }"

definition VALID_IDE :: "(nat \<Rightarrow> ide_device) \<Rightarrow> nat \<Rightarrow> bool" where
  "VALID_IDE devs ideno \<longleftrightarrow> ideno < MAX_IDE \<and> ide_valid (devs ideno)"

definition ide_init :: "image \<Rightarrow> image \<Rightarrow> (nat \<Rightarrow> ide_device) \<Rightarrow> (nat \<Rightarrow> ide_device) option" where
  "ide_init swap_img sfs_img devs = do {
     let devs1 = (\<lambda>i. if i < MAX_IDE then (devs i)\<lparr>ide_valid := False\<rparr> else devs i);
     d1 \<leftarrow> ramdisk_init swap_img sfs_img SWAP_DEV_NO;
     let devs2 = devs1(SWAP_DEV_NO := d1);
     kassert (VALID_IDE devs2 SWAP_DEV_NO);
     d2 \<leftarrow> ramdisk_init swap_img sfs_img DISK0_DEV_NO;
     let devs3 = devs2(DISK0_DEV_NO := d2);
     kassert (VALID_IDE devs3 DISK0_DEV_NO);
     Some devs3
   }"

definition ide_device_valid :: "(nat \<Rightarrow> ide_device) \<Rightarrow> nat \<Rightarrow> bool" where
  "ide_device_valid devs ideno = VALID_IDE devs ideno"

definition ide_device_size :: "(nat \<Rightarrow> ide_device) \<Rightarrow> nat \<Rightarrow> nat" where
  "ide_device_size devs ideno = (if ide_device_valid devs ideno then ide_size (devs ideno) else 0)"

definition ide_read_secs :: "(nat \<Rightarrow> ide_device) \<Rightarrow> nat \<Rightarrow> nat \<Rightarrow> u8 list \<Rightarrow> nat \<Rightarrow> (int \<times> u8 list) option" where
  "ide_read_secs devs ideno secno dst nsecs = do {
     kassert (nsecs \<le> MAX_NSECS \<and> VALID_IDE devs ideno);
     kassert (secno < MAX_DISK_NSECS \<and> secno + nsecs \<le> MAX_DISK_NSECS);
     ramdisk_read (devs ideno) secno dst nsecs
   }"

definition ide_write_secs ::
  "(nat \<Rightarrow> ide_device) \<Rightarrow> nat \<Rightarrow> nat \<Rightarrow> u8 list \<Rightarrow> nat \<Rightarrow> (int \<times> (nat \<Rightarrow> ide_device)) option" where
  "ide_write_secs devs ideno secno src nsecs = do {
     kassert (nsecs \<le> MAX_NSECS \<and> VALID_IDE devs ideno);
     kassert (secno < MAX_DISK_NSECS \<and> secno + nsecs \<le> MAX_DISK_NSECS);
     (ret, d) \<leftarrow> ramdisk_write (devs ideno) secno src nsecs;
     Some (ret, devs(ideno := d))
   }"

section \<open>The device disk0\<close>

abbreviation (input) DISK0_BLKSIZE :: nat where "DISK0_BLKSIZE \<equiv> 4096"
abbreviation (input) DISK0_BUFSIZE :: nat where "DISK0_BUFSIZE \<equiv> 16384"
abbreviation (input) DISK0_BLK_NSECT :: nat where "DISK0_BLK_NSECT \<equiv> 8"

record disk0 =
  ide_devices :: "nat \<Rightarrow> ide_device"
  disk0_buffer :: "u8 list"

definition disk0_read_blks_nolock :: "nat \<Rightarrow> nat \<Rightarrow> disk0 \<Rightarrow> disk0 option" where
  "disk0_read_blks_nolock blkno nblks d = do {
     let sectno = blkno * DISK0_BLK_NSECT mod 2 ^ 32;
     let nsecs = nblks * DISK0_BLK_NSECT mod 2 ^ 32;
     (ret, buf) \<leftarrow> ide_read_secs (ide_devices d) DISK0_DEV_NO sectno (disk0_buffer d) nsecs;
     if ret \<noteq> 0 then panic else Some (d\<lparr>disk0_buffer := buf\<rparr>)
   }"

definition disk0_write_blks_nolock :: "nat \<Rightarrow> nat \<Rightarrow> disk0 \<Rightarrow> disk0 option" where
  "disk0_write_blks_nolock blkno nblks d = do {
     let sectno = blkno * DISK0_BLK_NSECT mod 2 ^ 32;
     let nsecs = nblks * DISK0_BLK_NSECT mod 2 ^ 32;
     (ret, devs) \<leftarrow> ide_write_secs (ide_devices d) DISK0_DEV_NO sectno (disk0_buffer d) nsecs;
     if ret \<noteq> 0 then panic else Some (d\<lparr>ide_devices := devs\<rparr>)
   }"

text \<open>One round of the transfer loop: the number of bytes it copied, the buffer and the device.\<close>

definition disk0_round :: "bool \<Rightarrow> nat \<Rightarrow> nat \<Rightarrow> iobuf \<Rightarrow> disk0 \<Rightarrow> (nat \<times> nat \<times> iobuf \<times> disk0) option" where
  "disk0_round wr blkno resid iob d =
     (if wr then do {
        (_, copied, buf, iob1) \<leftarrow> iobuf_move iob (disk0_buffer d) DISK0_BUFSIZE False;
        kassert (copied \<noteq> 0 \<and> copied \<le> resid \<and> copied mod DISK0_BLKSIZE = 0);
        let nblks = copied div DISK0_BLKSIZE;
        d1 \<leftarrow> disk0_write_blks_nolock blkno nblks (d\<lparr>disk0_buffer := buf\<rparr>);
        Some (copied, nblks, iob1, d1)
      } else do {
        let alen = (if DISK0_BUFSIZE > resid then resid else DISK0_BUFSIZE);
        let nblks = alen div DISK0_BLKSIZE;
        d1 \<leftarrow> disk0_read_blks_nolock blkno nblks d;
        (_, copied, buf, iob1) \<leftarrow> iobuf_move iob (disk0_buffer d1) alen True;
        kassert (copied = alen \<and> copied mod DISK0_BLKSIZE = 0);
        Some (copied, nblks, iob1, d1)
      })"

lemma disk0_round_copied:
  assumes "disk0_round wr blkno resid iob d = Some (copied, r)" "resid \<noteq> 0"
  shows "0 < copied \<and> copied \<le> resid"
  using assms by (auto simp: disk0_round_def Let_def bind_eq_Some_conv split: if_splits)

function disk0_loop :: "bool \<Rightarrow> nat \<Rightarrow> nat \<Rightarrow> iobuf \<Rightarrow> disk0 \<Rightarrow> (iobuf \<times> disk0) option" where
  "disk0_loop wr blkno resid iob d =
     (if resid = 0 then Some (iob, d)
      else case disk0_round wr blkno resid iob d of
        None \<Rightarrow> None
      | Some (copied, nblks, iob1, d1) \<Rightarrow> disk0_loop wr ((blkno + nblks) mod 2 ^ 32) (resid - copied) iob1 d1)"
  by pat_completeness auto
termination
  by (relation "measure (\<lambda>(wr, blkno, resid, iob, d). resid)") (auto dest!: disk0_round_copied)

declare disk0_loop.simps [simp del]

text \<open>\<^verbatim>\<open>disk0_io\<close>; its first argument is \<^verbatim>\<open>dev->d_blocks\<close>. The quotient of the offset is used only when the offset
  is a multiple of the block size, where rounding down and rounding to zero agree.\<close>

definition disk0_io :: "nat \<Rightarrow> disk0 \<Rightarrow> iobuf \<Rightarrow> bool \<Rightarrow> (int \<times> iobuf \<times> disk0) option" where
  "disk0_io d_blocks d iob wr = do {
     let offset = io_offset iob;
     let resid = io_resid iob;
     let blkno = nat (offset div int DISK0_BLKSIZE mod 2 ^ 32);
     let nblks = resid div DISK0_BLKSIZE mod 2 ^ 32;
     if offset mod int DISK0_BLKSIZE \<noteq> 0 \<or> resid mod DISK0_BLKSIZE \<noteq> 0 then Some (- E_INVAL, iob, d)
     else if (blkno + nblks) mod 2 ^ 32 > d_blocks then Some (- E_INVAL, iob, d)
     else if nblks = 0 then Some (0, iob, d)
     else do {
       (iob1, d1) \<leftarrow> disk0_loop wr blkno resid iob d;
       Some (0, iob1, d1)
     }
   }"

text \<open>A device as its users see it, with its operations as members: \<^verbatim>\<open>d_io\<close> gets the state of the device.\<close>

record 'd device =
  d_blocks :: nat
  d_blocksize :: nat
  d_open :: "nat \<Rightarrow> int"
  d_close :: int
  d_io :: "'d \<Rightarrow> iobuf \<Rightarrow> bool \<Rightarrow> (int \<times> iobuf \<times> 'd) option"
  d_ioctl :: "nat \<Rightarrow> u8 list \<Rightarrow> int"

definition disk0_open :: "nat \<Rightarrow> int" where
  "disk0_open open_flags = 0"

definition disk0_close :: int where
  "disk0_close = 0"

definition disk0_ioctl :: "nat \<Rightarrow> u8 list \<Rightarrow> int" where
  "disk0_ioctl opn data = - E_UNIMP"

definition disk0_dev :: "nat \<Rightarrow> disk0 device" where
  "disk0_dev n = \<lparr>d_blocks = n, d_blocksize = DISK0_BLKSIZE, d_open = disk0_open, d_close = disk0_close,
     d_io = disk0_io n, d_ioctl = disk0_ioctl\<rparr>"

text \<open>\<open>buf\<close> is the outcome of the allocation of the transfer buffer.\<close>

definition disk0_device_init ::
  "u8 list option \<Rightarrow> (nat \<Rightarrow> ide_device) \<Rightarrow> (disk0 device \<times> disk0) option" where
  "disk0_device_init buf devs = do {
     kassert (ide_device_valid devs DISK0_DEV_NO);
     let n = ide_device_size devs DISK0_DEV_NO div DISK0_BLK_NSECT;
     (case buf of
        None \<Rightarrow> panic
      | Some b \<Rightarrow> Some (disk0_dev n, \<lparr>ide_devices = devs, disk0_buffer = b\<rparr>))
   }"

section \<open>What a transfer does\<close>

definition disk0_ok :: "nat \<Rightarrow> disk0 \<Rightarrow> bool" where
  "disk0_ok n d \<longleftrightarrow> VALID_IDE (ide_devices d) DISK0_DEV_NO \<and> ide_size (ide_devices d DISK0_DEV_NO) \<le> MAX_DISK_NSECS \<and>
     n = ide_size (ide_devices d DISK0_DEV_NO) div DISK0_BLK_NSECT \<and> length (disk0_buffer d) = DISK0_BUFSIZE"

definition disk0_mem :: "disk0 \<Rightarrow> nat \<Rightarrow> u8" where
  "disk0_mem d = ide_mem (ide_devices d DISK0_DEV_NO)"

definition disk0_set :: "(nat \<Rightarrow> u8) \<Rightarrow> u8 list \<Rightarrow> disk0 \<Rightarrow> disk0" where
  "disk0_set m buf d = d\<lparr>ide_devices := (ide_devices d)(DISK0_DEV_NO := (ide_devices d DISK0_DEV_NO)\<lparr>ide_mem := m\<rparr>),
     disk0_buffer := buf\<rparr>"

lemma disk0_set_simps [simp]:
  "disk0_mem (disk0_set m buf d) = m"
  "disk0_set m buf (disk0_set m' buf' d) = disk0_set m buf d"
  "disk0_buffer (disk0_set m buf d) = buf"
  "length buf = DISK0_BUFSIZE \<Longrightarrow> disk0_ok n (disk0_set m buf d) \<longleftrightarrow> disk0_ok n (d\<lparr>disk0_buffer := buf\<rparr>)"
  by (auto simp: disk0_mem_def disk0_set_def disk0_ok_def VALID_IDE_def)

lemma disk0_set_same: "disk0_set (disk0_mem d) (disk0_buffer d) d = d"
  by (simp add: disk0_set_def disk0_mem_def)

definition iobuf_advance :: "nat \<Rightarrow> iobuf \<Rightarrow> iobuf" where
  "iobuf_advance n iob = iob\<lparr>io_base := io_base iob + n, io_offset := io_offset iob + int n, io_resid := io_resid iob - n\<rparr>"

definition iobuf_fill :: "u8 list \<Rightarrow> iobuf \<Rightarrow> iobuf" where
  "iobuf_fill bs iob = iobuf_advance (length bs) (iob\<lparr>io_mem := overwrite (io_mem iob) (io_base iob) bs\<rparr>)"

lemma iobuf_move_in:
  assumes "0 < c" "c \<le> io_resid iob" "io_base iob + c \<le> length (io_mem iob)" "c \<le> length data"
  shows "iobuf_move iob data c True = Some (0, c, data, iobuf_fill (take c data) iob)"
proof -
  have c: "(if c < io_resid iob then c else io_resid iob) = c" using assms(2) by simp
  show ?thesis unfolding iobuf_move_def c Let_def
    using assms by (simp add: iobuf_skip_def iobuf_fill_def iobuf_advance_def)
qed

lemma sectors_ok:
  assumes "disk0_ok n d" "blkno + k \<le> n" "0 < k" "k \<le> 4"
  shows "blkno * DISK0_BLK_NSECT mod 2 ^ 32 = blkno * 8" "k * DISK0_BLK_NSECT mod 2 ^ 32 = k * 8"
    "blkno * 8 < MAX_DISK_NSECS" "blkno * 8 + k * 8 \<le> MAX_DISK_NSECS" "k * 8 \<le> MAX_NSECS"
    "min (k * 8) (sub64 (ide_size (ide_devices d DISK0_DEV_NO)) (blkno * 8)) = k * 8"
proof -
  have b: "blkno * 8 + k * 8 \<le> ide_size (ide_devices d 2)" "ide_size (ide_devices d 2) \<le> 268435456"
    using assms(1,2) by (auto simp: disk0_ok_def)
  then show "blkno * DISK0_BLK_NSECT mod 2 ^ 32 = blkno * 8" "k * DISK0_BLK_NSECT mod 2 ^ 32 = k * 8"
    "blkno * 8 < MAX_DISK_NSECS" "blkno * 8 + k * 8 \<le> MAX_DISK_NSECS" "k * 8 \<le> MAX_NSECS"
    using assms(3,4) by simp_all
  have "sub64 (ide_size (ide_devices d 2)) (blkno * 8) = ide_size (ide_devices d 2) - blkno * 8"
  proof -
    have "(int (ide_size (ide_devices d 2)) - int (blkno * 8)) mod 2 ^ 64 = int (ide_size (ide_devices d 2)) - int (blkno * 8)"
      using b by (intro mod_pos_pos_trivial) (simp_all add: of_nat_diff flip: of_nat_mult)
    then show ?thesis by (simp add: sub64_def)
  qed
  then show "min (k * 8) (sub64 (ide_size (ide_devices d DISK0_DEV_NO)) (blkno * 8)) = k * 8" using b by simp
qed

lemma read_blks:
  assumes "disk0_ok n d" "blkno + k \<le> n" "0 < k" "k \<le> 4"
  shows "disk0_read_blks_nolock blkno k d =
    Some (d\<lparr>disk0_buffer := overwrite (disk0_buffer d) 0 (mem_read (disk0_mem d) (blkno * DISK0_BLKSIZE) (k * DISK0_BLKSIZE))\<rparr>)"
  using assms(1,4) sectors_ok [OF assms]
  by (simp add: disk0_read_blks_nolock_def ide_read_secs_def ramdisk_read_def disk0_ok_def disk0_mem_def Let_def mult.commute)

lemma write_blks:
  assumes "disk0_ok n d" "blkno + k \<le> n" "0 < k" "k \<le> 4"
  shows "disk0_write_blks_nolock blkno k d =
    Some (disk0_set (mem_write (disk0_mem d) (blkno * DISK0_BLKSIZE) (take (k * DISK0_BLKSIZE) (disk0_buffer d))) (disk0_buffer d) d)"
  using assms(1,4) sectors_ok [OF assms]
  by (simp add: disk0_write_blks_nolock_def ide_write_secs_def ramdisk_write_def disk0_ok_def disk0_mem_def disk0_set_def Let_def
      mult.commute)

lemma blocks_of_chunk:
  assumes "resid mod DISK0_BLKSIZE = 0" "resid \<noteq> 0" "blkno + resid div DISK0_BLKSIZE \<le> n"
  shows "min resid DISK0_BUFSIZE mod DISK0_BLKSIZE = 0" "0 < min resid DISK0_BUFSIZE div DISK0_BLKSIZE"
    "min resid DISK0_BUFSIZE div DISK0_BLKSIZE \<le> 4" "blkno + min resid DISK0_BUFSIZE div DISK0_BLKSIZE \<le> n"
    "min resid DISK0_BUFSIZE div DISK0_BLKSIZE * DISK0_BLKSIZE = min resid DISK0_BUFSIZE"
    "(resid - min resid DISK0_BUFSIZE) mod DISK0_BLKSIZE = 0"
    "(resid - min resid DISK0_BUFSIZE) div DISK0_BLKSIZE = resid div DISK0_BLKSIZE - min resid DISK0_BUFSIZE div DISK0_BLKSIZE"
proof -
  obtain q where "resid = 4096 * q" "0 < q" using assms(1,2) by (auto elim!: dvdE simp: mod_eq_0_iff_dvd)
  moreover then have "min resid 16384 = 4096 * min q 4" by (simp add: min_def)
  moreover have "4096 * q - 4096 * min q 4 = 4096 * (q - min q 4)" by simp
  ultimately show "min resid DISK0_BUFSIZE mod DISK0_BLKSIZE = 0" "0 < min resid DISK0_BUFSIZE div DISK0_BLKSIZE"
    "min resid DISK0_BUFSIZE div DISK0_BLKSIZE \<le> 4" "blkno + min resid DISK0_BUFSIZE div DISK0_BLKSIZE \<le> n"
    "min resid DISK0_BUFSIZE div DISK0_BLKSIZE * DISK0_BLKSIZE = min resid DISK0_BUFSIZE"
    "(resid - min resid DISK0_BUFSIZE) mod DISK0_BLKSIZE = 0"
    "(resid - min resid DISK0_BUFSIZE) div DISK0_BLKSIZE = resid div DISK0_BLKSIZE - min resid DISK0_BUFSIZE div DISK0_BLKSIZE"
    using assms(3) by simp_all
qed

lemma disk0_round_read:
  assumes "disk0_ok n d" "resid mod DISK0_BLKSIZE = 0" "resid \<noteq> 0" "blkno + resid div DISK0_BLKSIZE \<le> n"
    "io_resid iob = resid" "io_base iob + resid \<le> length (io_mem iob)"
  shows "\<exists>buf. disk0_round False blkno resid iob d = Some (min resid DISK0_BUFSIZE, min resid DISK0_BUFSIZE div DISK0_BLKSIZE,
      iobuf_fill (mem_read (disk0_mem d) (blkno * DISK0_BLKSIZE) (min resid DISK0_BUFSIZE)) iob, disk0_set (disk0_mem d) buf d) \<and>
    length buf = DISK0_BUFSIZE"
proof -
  let ?c = "min resid DISK0_BUFSIZE"
  note c = blocks_of_chunk [OF assms(2,3,4)]
  have alen: "(if DISK0_BUFSIZE > resid then resid else DISK0_BUFSIZE) = ?c" by (simp add: min_def)
  let ?buf = "overwrite (disk0_buffer d) 0 (mem_read (disk0_mem d) (blkno * DISK0_BLKSIZE) ?c)"
  have len: "length (disk0_buffer d) = DISK0_BUFSIZE" using assms(1) by (simp add: disk0_ok_def)
  have r: "disk0_read_blks_nolock blkno (?c div DISK0_BLKSIZE) d = Some (d\<lparr>disk0_buffer := ?buf\<rparr>)"
    using read_blks [OF assms(1) c(4) c(2) c(3)] c(5) by simp
  have t: "take ?c ?buf = mem_read (disk0_mem d) (blkno * DISK0_BLKSIZE) ?c" by (simp add: overwrite_def)
  have "iobuf_move iob ?buf ?c True = Some (0, ?c, ?buf, iobuf_fill (take ?c ?buf) iob)"
    using assms(3,5,6) len by (intro iobuf_move_in) simp_all
  then have "disk0_round False blkno resid iob d = Some (?c, ?c div DISK0_BLKSIZE, iobuf_fill (take ?c ?buf) iob, d\<lparr>disk0_buffer := ?buf\<rparr>)"
    using c(1) by (simp add: disk0_round_def alen r Let_def)
  moreover have "d\<lparr>disk0_buffer := ?buf\<rparr> = disk0_set (disk0_mem d) ?buf d" by (simp add: disk0_set_def disk0_mem_def)
  moreover have "length ?buf = DISK0_BUFSIZE" using len by simp
  ultimately show ?thesis using t by auto
qed

lemma disk0_round_write:
  assumes "disk0_ok n d" "resid mod DISK0_BLKSIZE = 0" "resid \<noteq> 0" "blkno + resid div DISK0_BLKSIZE \<le> n"
    "io_resid iob = resid" "io_base iob + resid \<le> length (io_mem iob)"
  shows "\<exists>buf. disk0_round True blkno resid iob d = Some (min resid DISK0_BUFSIZE, min resid DISK0_BUFSIZE div DISK0_BLKSIZE,
      iobuf_advance (min resid DISK0_BUFSIZE) iob,
      disk0_set (mem_write (disk0_mem d) (blkno * DISK0_BLKSIZE) (chunk (io_base iob) (min resid DISK0_BUFSIZE) (io_mem iob))) buf d) \<and>
    length buf = DISK0_BUFSIZE"
proof -
  let ?c = "min resid DISK0_BUFSIZE"
  let ?src = "chunk (io_base iob) ?c (io_mem iob)"
  note c = blocks_of_chunk [OF assms(2,3,4)]
  let ?buf = "overwrite (disk0_buffer d) 0 ?src"
  have len: "length (disk0_buffer d) = DISK0_BUFSIZE" using assms(1) by (simp add: disk0_ok_def)
  have sl: "length ?src = ?c" using assms(6) by simp
  have alen: "(if io_resid iob > DISK0_BUFSIZE then DISK0_BUFSIZE else io_resid iob) = ?c" using assms(5) by (simp add: min_def)
  have m: "\<exists>ret. iobuf_move iob (disk0_buffer d) DISK0_BUFSIZE False = Some (ret, ?c, ?buf, iobuf_advance ?c iob)"
    unfolding iobuf_move_def alen Let_def using assms(3,5,6) len
    by (simp add: iobuf_skip_def iobuf_advance_def)
  have ok: "disk0_ok n (d\<lparr>disk0_buffer := ?buf\<rparr>)" using assms(1) len sl by (simp add: disk0_ok_def)
  have t: "take ?c ?buf = ?src" using sl by (simp add: overwrite_def)
  have "disk0_write_blks_nolock blkno (?c div DISK0_BLKSIZE) (d\<lparr>disk0_buffer := ?buf\<rparr>) =
      Some (disk0_set (mem_write (disk0_mem d) (blkno * DISK0_BLKSIZE) ?src) ?buf d)"
    using write_blks [OF ok c(4) c(2) c(3)] c(5) t by (simp add: disk0_mem_def disk0_set_def)
  then show ?thesis using m c(1) assms(3) len sl by (auto simp: disk0_round_def Let_def)
qed

lemma iobuf_advance_simps [simp]:
  "io_mem (iobuf_advance n iob) = io_mem iob" "io_base (iobuf_advance n iob) = io_base iob + n"
  "io_offset (iobuf_advance n iob) = io_offset iob + int n" "io_resid (iobuf_advance n iob) = io_resid iob - n"
  "iobuf_advance m (iobuf_advance n iob) = iobuf_advance (n + m) iob" "iobuf_advance 0 iob = iob"
  by (simp_all add: iobuf_advance_def)

lemma iobuf_fill_simps [simp]:
  "io_mem (iobuf_fill bs iob) = overwrite (io_mem iob) (io_base iob) bs" "io_base (iobuf_fill bs iob) = io_base iob + length bs"
  "io_offset (iobuf_fill bs iob) = io_offset iob + int (length bs)" "io_resid (iobuf_fill bs iob) = io_resid iob - length bs"
  "iobuf_fill [] iob = iob"
  by (simp_all add: iobuf_fill_def)

lemma iobuf_fill_append:
  "io_base iob + length xs + length ys \<le> length (io_mem iob) \<Longrightarrow> iobuf_fill ys (iobuf_fill xs iob) = iobuf_fill (xs @ ys) iob"
  by (simp add: iobuf_fill_def iobuf_advance_def overwrite_append)

lemma disk0_ok_set: "disk0_ok n d \<Longrightarrow> length buf = DISK0_BUFSIZE \<Longrightarrow> disk0_ok n (disk0_set m buf d)"
  by (simp add: disk0_ok_def disk0_set_def VALID_IDE_def)

text \<open>The loop as a whole: the rounds add up to one transfer of \<open>resid\<close> bytes.\<close>

lemma disk0_loop_read:
  assumes "disk0_ok n d" "resid mod DISK0_BLKSIZE = 0" "blkno + resid div DISK0_BLKSIZE \<le> n"
    "io_resid iob = resid" "io_base iob + resid \<le> length (io_mem iob)"
  shows "\<exists>buf. disk0_loop False blkno resid iob d =
      Some (iobuf_fill (mem_read (disk0_mem d) (blkno * DISK0_BLKSIZE) resid) iob, disk0_set (disk0_mem d) buf d) \<and>
    length buf = DISK0_BUFSIZE"
  using assms
proof (induction resid arbitrary: blkno iob d rule: less_induct)
  case (less resid)
  show ?case
  proof (cases "resid = 0")
    case True
    then show ?thesis using less.prems(1)
      by (auto simp: disk0_loop.simps [of False] disk0_set_same disk0_ok_def intro!: exI [of _ "disk0_buffer d"])
  next
    case False
    define C where "C = min resid DISK0_BUFSIZE"
    define K where "K = C div DISK0_BLKSIZE"
    let ?bs = "mem_read (disk0_mem d) (blkno * DISK0_BLKSIZE) C"
    note c = blocks_of_chunk [OF less.prems(2) False less.prems(3), folded C_def, folded K_def]
    have C: "0 < C" "C \<le> resid" using False by (simp_all add: C_def)
    have le: "blkno + K + (resid - C) div DISK0_BLKSIZE \<le> n" "io_base iob + C + (resid - C) \<le> length (io_mem iob)"
      using less.prems(3,5) c(4,7) C by linarith+
    obtain buf where r: "disk0_round False blkno resid iob d = Some (C, K, iobuf_fill ?bs iob, disk0_set (disk0_mem d) buf d)"
      "length buf = DISK0_BUFSIZE"
      using disk0_round_read [OF less.prems(1,2) False less.prems(3,4,5), folded C_def, folded K_def] by blast
    have n: "n \<le> 2 ^ 25" using less.prems(1) by (auto simp: disk0_ok_def)
    then have m: "(blkno + K) mod 2 ^ 32 = blkno + K" using c(4) by simp
    have "\<exists>buf'. disk0_loop False (blkno + K) (resid - C) (iobuf_fill ?bs iob) (disk0_set (disk0_mem d) buf d) =
        Some (iobuf_fill (mem_read (disk0_mem d) ((blkno + K) * DISK0_BLKSIZE) (resid - C)) (iobuf_fill ?bs iob),
          disk0_set (disk0_mem d) buf' (disk0_set (disk0_mem d) buf d)) \<and> length buf' = DISK0_BUFSIZE"
      using less.IH [of "resid - C" "disk0_set (disk0_mem d) buf d" "blkno + K" "iobuf_fill ?bs iob"]
        less.prems(4,5) C le c(6) disk0_ok_set [OF less.prems(1) r(2)] by simp
    moreover have "iobuf_fill (mem_read (disk0_mem d) ((blkno + K) * DISK0_BLKSIZE) (resid - C)) (iobuf_fill ?bs iob) =
        iobuf_fill (mem_read (disk0_mem d) (blkno * DISK0_BLKSIZE) resid) iob"
    proof -
      have "mem_read (disk0_mem d) (blkno * DISK0_BLKSIZE) resid =
          ?bs @ mem_read (disk0_mem d) ((blkno + K) * DISK0_BLKSIZE) (resid - C)"
        using mem_read_add [of "disk0_mem d" "blkno * DISK0_BLKSIZE" C "resid - C"] c(5) C(2) by (simp add: add_mult_distrib)
      then show ?thesis using less.prems(5) C(2) by (simp add: iobuf_fill_append)
    qed
    ultimately show ?thesis using False r m by (auto simp: disk0_loop.simps [of False blkno])
  qed
qed

lemma disk0_loop_write:
  assumes "disk0_ok n d" "resid mod DISK0_BLKSIZE = 0" "blkno + resid div DISK0_BLKSIZE \<le> n"
    "io_resid iob = resid" "io_base iob + resid \<le> length (io_mem iob)"
  shows "\<exists>buf. disk0_loop True blkno resid iob d = Some (iobuf_advance resid iob,
      disk0_set (mem_write (disk0_mem d) (blkno * DISK0_BLKSIZE) (chunk (io_base iob) resid (io_mem iob))) buf d) \<and>
    length buf = DISK0_BUFSIZE"
  using assms
proof (induction resid arbitrary: blkno iob d rule: less_induct)
  case (less resid)
  show ?case
  proof (cases "resid = 0")
    case True
    then show ?thesis using less.prems(1)
      by (auto simp: disk0_loop.simps [of True] disk0_set_same disk0_ok_def intro!: exI [of _ "disk0_buffer d"])
  next
    case False
    define C where "C = min resid DISK0_BUFSIZE"
    define K where "K = C div DISK0_BLKSIZE"
    let ?bs = "chunk (io_base iob) C (io_mem iob)"
    let ?m = "mem_write (disk0_mem d) (blkno * DISK0_BLKSIZE) ?bs"
    note c = blocks_of_chunk [OF less.prems(2) False less.prems(3), folded C_def, folded K_def]
    have C: "0 < C" "C \<le> resid" using False by (simp_all add: C_def)
    have le: "blkno + K + (resid - C) div DISK0_BLKSIZE \<le> n" "io_base iob + C + (resid - C) \<le> length (io_mem iob)"
      using less.prems(3,5) c(4,7) C by linarith+
    obtain buf where r: "disk0_round True blkno resid iob d = Some (C, K, iobuf_advance C iob, disk0_set ?m buf d)"
      "length buf = DISK0_BUFSIZE"
      using disk0_round_write [OF less.prems(1,2) False less.prems(3,4,5), folded C_def, folded K_def] by blast
    have n: "n \<le> 2 ^ 25" using less.prems(1) by (auto simp: disk0_ok_def)
    then have m: "(blkno + K) mod 2 ^ 32 = blkno + K" using c(4) by simp
    have "\<exists>buf'. disk0_loop True (blkno + K) (resid - C) (iobuf_advance C iob) (disk0_set ?m buf d) =
        Some (iobuf_advance (resid - C) (iobuf_advance C iob),
          disk0_set (mem_write ?m ((blkno + K) * DISK0_BLKSIZE) (chunk (io_base iob + C) (resid - C) (io_mem iob))) buf'
            (disk0_set ?m buf d)) \<and> length buf' = DISK0_BUFSIZE"
      using less.IH [of "resid - C" "disk0_set ?m buf d" "blkno + K" "iobuf_advance C iob"]
        less.prems(4,5) C le c(6) disk0_ok_set [OF less.prems(1) r(2)] by simp
    moreover have "mem_write ?m ((blkno + K) * DISK0_BLKSIZE) (chunk (io_base iob + C) (resid - C) (io_mem iob)) =
        mem_write (disk0_mem d) (blkno * DISK0_BLKSIZE) (chunk (io_base iob) resid (io_mem iob))"
    proof -
      have "length ?bs = C" using less.prems(5) C by simp
      then have "(blkno + K) * DISK0_BLKSIZE = blkno * DISK0_BLKSIZE + length ?bs" using c(5) by (simp add: add_mult_distrib)
      then show ?thesis
        using chunk_add [of "io_base iob" C "resid - C" "io_mem iob"] C(2) by (simp only: mem_write_append) simp
    qed
    ultimately show ?thesis using False r m C(2) by (auto simp: disk0_loop.simps [of True blkno])
  qed
qed

lemma disk0_transfer:
  assumes "disk0_ok n d" and "io_offset iob = int (blkno * 4096)" and "io_resid iob = nblks * 4096"
    and "blkno + nblks \<le> n" and "io_base iob + nblks * 4096 \<le> length (io_mem iob)"
  shows "\<exists>d'. disk0_io n d iob wr =
      Some (0, if wr then iobuf_advance (nblks * 4096) iob
               else iobuf_fill (mem_read (disk0_mem d) (blkno * 4096) (nblks * 4096)) iob, d') \<and>
    disk0_ok n d' \<and>
    disk0_mem d' = (if wr then mem_write (disk0_mem d) (blkno * 4096) (chunk (io_base iob) (nblks * 4096) (io_mem iob))
                    else disk0_mem d)"
proof -
  have n: "n \<le> 2 ^ 25" using assms(1) by (auto simp: disk0_ok_def)
  have b: "nat (io_offset iob div int DISK0_BLKSIZE mod 2 ^ 32) = blkno"
  proof -
    have "io_offset iob div int DISK0_BLKSIZE = int blkno" using assms(2) by simp
    moreover have "int blkno mod 2 ^ 32 = int blkno" using n assms(4) by simp
    ultimately show ?thesis by simp
  qed
  have k: "io_resid iob div DISK0_BLKSIZE mod 2 ^ 32 = nblks" using n assms(3,4) by simp
  have s: "(blkno + nblks) mod 2 ^ 32 = blkno + nblks" using n assms(4) by simp
  have al: "io_offset iob mod int DISK0_BLKSIZE = 0" "io_resid iob mod DISK0_BLKSIZE = 0" using assms(2,3) by simp_all
  show ?thesis
  proof (cases "nblks = 0")
    case True
    then show ?thesis
      unfolding disk0_io_def Let_def b k s using assms(1,3,4) al by (auto simp: chunk_def)
  next
    case False
    note pre = assms(1) al(2) _ refl
    have le: "blkno + io_resid iob div DISK0_BLKSIZE \<le> n" "io_base iob + io_resid iob \<le> length (io_mem iob)"
      using assms(3,4,5) by simp_all
    obtain buf where "disk0_loop wr blkno (io_resid iob) iob d =
        Some (if wr then iobuf_advance (nblks * 4096) iob
               else iobuf_fill (mem_read (disk0_mem d) (blkno * 4096) (nblks * 4096)) iob,
          disk0_set (if wr then mem_write (disk0_mem d) (blkno * 4096) (chunk (io_base iob) (nblks * 4096) (io_mem iob))
                    else disk0_mem d) buf d)" "length buf = DISK0_BUFSIZE"
      using disk0_loop_read [OF assms(1) al(2) le(1) refl le(2)] disk0_loop_write [OF assms(1) al(2) le(1) refl le(2)] assms(3)
      by (cases wr) auto
    then show ?thesis
      unfolding disk0_io_def Let_def b k s using False assms(4) al disk0_ok_set [OF assms(1)] by auto
  qed
qed

text \<open>\<^verbatim>\<open>disk0_io\<close> moves exactly the bytes asked for: a transfer that is aligned to blocks and lies within the
  device returns 0, advances the I/O buffer by its length, and either copies the bytes of the disk at the offset into the
  buffer, the disk unchanged, or replaces just those bytes of the disk by the bytes of the buffer. The number of rounds
  through the 16 KiB transfer buffer does not matter.\<close>

theorem disk0_io_transfers:
  assumes "disk0_ok n d" and "io_offset iob = int (blkno * 4096)" and "io_resid iob = nblks * 4096"
    and "blkno + nblks \<le> n" and "io_base iob + nblks * 4096 \<le> length (io_mem iob)"
  shows "\<exists>d'. disk0_io n d iob wr =
      Some (0, if wr then iobuf_advance (nblks * 4096) iob
               else iobuf_fill (mem_read (disk0_mem d) (blkno * 4096) (nblks * 4096)) iob, d') \<and>
    disk0_ok n d' \<and>
    disk0_mem d' = (if wr then mem_write (disk0_mem d) (blkno * 4096) (chunk (io_base iob) (nblks * 4096) (io_mem iob))
                    else disk0_mem d)"
  by (rule disk0_transfer [OF assms])

text \<open>The RAM disk bounds a request by the number of sectors left, but computes that number without looking at the
  order of the two operands: a request that starts beyond the last sector is served in full from the memory behind the
  image and reported as successful (the test for a negative count can never succeed on an unsigned value).\<close>

theorem ide_read_past_end:
  assumes "VALID_IDE devs ideno" and "ide_size (devs ideno) < secno" and "secno + nsecs \<le> MAX_DISK_NSECS"
    and "0 < nsecs" and "nsecs \<le> MAX_NSECS" and "nsecs * SECTSIZE \<le> length dst"
  shows "ide_read_secs devs ideno secno dst nsecs =
    Some (0, overwrite dst 0 (mem_read (ide_mem (devs ideno)) (secno * SECTSIZE) (nsecs * SECTSIZE)))"
proof -
  let ?s = "ide_size (devs ideno)"
  have "(int ?s - int secno) mod 2 ^ 64 = int ?s - int secno + 2 ^ 64"
    using mod_pos_pos_trivial [of "int ?s - int secno + 2 ^ 64" "2 ^ 64"] assms(2-5) by simp
  then have "nsecs \<le> sub64 ?s secno" using assms(2-5) by (simp add: sub64_def)
  then show ?thesis using assms by (simp add: ide_read_secs_def ramdisk_read_def min_def Let_def)
qed

section \<open>The interface of a block device\<close>

text \<open>What a client of \<^verbatim>\<open>dop_io\<close> relies on: reading or writing one aligned block within the device succeeds, reading gives
  the content of the block, and writing changes that block only. \<open>blk\<close> is the content by block.\<close>

locale block_device =
  fixes dev :: "'d device" and dinv :: "'d \<Rightarrow> bool" and blk :: "'d \<Rightarrow> nat \<Rightarrow> u8 list"
  assumes blksize: "d_blocksize dev = 4096"
    and blk_length: "dinv d \<Longrightarrow> length (blk d b) = 4096"
    and io_read: "dinv d \<Longrightarrow> b < d_blocks dev \<Longrightarrow> length buf = 4096 \<Longrightarrow>
      \<exists>d'. d_io dev d (iobuf_init buf 4096 (int (b * 4096))) False =
        Some (0, iobuf_fill (blk d b) (iobuf_init buf 4096 (int (b * 4096))), d') \<and> dinv d' \<and> blk d' = blk d"
    and io_write: "dinv d \<Longrightarrow> b < d_blocks dev \<Longrightarrow> length buf = 4096 \<Longrightarrow>
      \<exists>d'. d_io dev d (iobuf_init buf 4096 (int (b * 4096))) True =
        Some (0, iobuf_advance 4096 (iobuf_init buf 4096 (int (b * 4096))), d') \<and> dinv d' \<and> blk d' = (blk d)(b := buf)"

definition disk0_blk :: "disk0 \<Rightarrow> nat \<Rightarrow> u8 list" where
  "disk0_blk d b = mem_read (disk0_mem d) (b * 4096) 4096"

lemma disk0_blk_cong: "disk0_mem d' = disk0_mem d \<Longrightarrow> disk0_blk d' = disk0_blk d"
  by (rule ext) (simp add: disk0_blk_def)

lemma disk0_blk_write:
  assumes "disk0_mem d' = mem_write (disk0_mem d) (b * 4096) buf" "length buf = 4096"
  shows "disk0_blk d' = (disk0_blk d)(b := buf)"
proof
  fix c
  show "disk0_blk d' c = ((disk0_blk d)(b := buf)) c"
  proof (cases "c = b")
    case False
    then have "b * 4096 + length buf \<le> c * 4096 \<or> c * 4096 + 4096 \<le> b * 4096" using assms(2) by linarith
    then show ?thesis using False by (simp add: disk0_blk_def assms(1) mem_read_write_disjoint)
  qed (use assms in \<open>simp add: disk0_blk_def mem_read_write_same\<close>)
qed


lemma iobuf_init_simps [simp]:
  "io_mem (iobuf_init m n k) = m" "io_base (iobuf_init m n k) = 0" "io_offset (iobuf_init m n k) = k"
  "io_resid (iobuf_init m n k) = n"
  by (simp_all add: iobuf_init_def)

interpretation d0: block_device "disk0_dev n" "disk0_ok n" disk0_blk for n
proof unfold_locales
  show "d_blocksize (disk0_dev n) = 4096" by (simp add: disk0_dev_def)
next
  fix d b show "length (disk0_blk d b) = 4096" by (simp add: disk0_blk_def)
next
  fix d :: disk0 and b :: nat and buf :: "u8 list"
  assume d: "disk0_ok n d" and b: "b < d_blocks (disk0_dev n)" and l: "length buf = 4096"
  let ?iob = "iobuf_init buf 4096 (int (b * 4096))"
  have T: "\<exists>d'. disk0_io n d ?iob wr =
      Some (0, if wr then iobuf_advance 4096 ?iob else iobuf_fill (mem_read (disk0_mem d) (b * 4096) 4096) ?iob, d') \<and>
    disk0_ok n d' \<and>
    disk0_mem d' = (if wr then mem_write (disk0_mem d) (b * 4096) buf else disk0_mem d)" for wr
    using disk0_transfer [OF d, of ?iob b 1 wr] b l unfolding mult_1 iobuf_init_simps
    by (cases wr) (simp_all add: disk0_dev_def)
  show "\<exists>d'. d_io (disk0_dev n) d ?iob False = Some (0, iobuf_fill (disk0_blk d b) ?iob, d') \<and> disk0_ok n d' \<and>
      disk0_blk d' = disk0_blk d"
  proof -
    obtain d' where "disk0_io n d ?iob False = Some (0, iobuf_fill (mem_read (disk0_mem d) (b * 4096) 4096) ?iob, d')"
      "disk0_ok n d'" "disk0_mem d' = disk0_mem d"
      using T [of False] by auto
    then show ?thesis using disk0_blk_cong [of d' d] by (simp add: disk0_dev_def disk0_blk_def [of d])
  qed
  obtain d' where "disk0_io n d ?iob True = Some (0, iobuf_advance 4096 ?iob, d')" "disk0_ok n d'"
    "disk0_mem d' = mem_write (disk0_mem d) (b * 4096) buf"
    using T [of True] by auto
  then show "\<exists>d'. d_io (disk0_dev n) d ?iob True = Some (0, iobuf_advance 4096 ?iob, d') \<and> disk0_ok n d' \<and>
      disk0_blk d' = (disk0_blk d)(b := buf)"
    using disk0_blk_write [of d' d b buf] l by (simp add: disk0_dev_def)
qed


text \<open>A disk of two blocks, for the examples.\<close>

definition disk0_ex :: disk0 where
  "disk0_ex = \<lparr>ide_devices = (\<lambda>i. \<lparr>ide_valid = True, ide_size = 16, ide_mem = (\<lambda>a. word_of_nat a)\<rparr>),
     disk0_buffer = replicate DISK0_BUFSIZE 0\<rparr>"

lemma disk0_ex_ok: "disk0_ok 2 disk0_ex"
  by (simp add: disk0_ok_def disk0_ex_def VALID_IDE_def)

lemma disk0_io_transfers_witness:
  "\<exists>d'. disk0_io 2 disk0_ex (iobuf_init (replicate 4096 7) 4096 4096) True =
      Some (0, iobuf_advance 4096 (iobuf_init (replicate 4096 7) 4096 4096), d') \<and>
    disk0_ok 2 d' \<and> disk0_mem d' = mem_write (disk0_mem disk0_ex) 4096 (replicate 4096 7)"
  using disk0_io_transfers [OF disk0_ex_ok, of "iobuf_init (replicate 4096 7) 4096 4096" 1 1 True]
  unfolding mult_1 iobuf_init_simps by simp

lemma ide_read_past_end_witness:
  "ide_read_secs (ide_devices disk0_ex) DISK0_DEV_NO 17 (replicate 512 0) 1 =
    Some (0, mem_read word_of_nat 8704 512)"
  using ide_read_past_end [of "ide_devices disk0_ex" DISK0_DEV_NO 17 1 "replicate 512 0"]
  by (simp add: VALID_IDE_def disk0_ex_def)

end
