(* ===== verification/SfsIO.thy ===== *)
theory SfsIO
  imports Bitmap Disk
begin

text \<open>
  The block layer of the simple file system: \<^verbatim>\<open>kern/fs/sfs/sfs_io.c\<close> and the superblock structure of
  \<^verbatim>\<open>kern/fs/sfs/sfs.h\<close>. The state of a mounted file system is a record with the members of \<^verbatim>\<open>struct sfs_fs\<close>;
  \<open>sfs_dst\<close> is the state of the device \<open>sfs_dev\<close>. The semaphores are left out: what runs under one of them is one
  step. The lemmas are proved once for every device with the interface \<open>block_device\<close>.
\<close>

section \<open>State\<close>

abbreviation (input) SFS_BLKSIZE :: nat where "SFS_BLKSIZE \<equiv> 4096"
abbreviation (input) SFS_BLKBITS :: nat where "SFS_BLKBITS \<equiv> 32768"
abbreviation (input) SFS_BLKN_SUPER :: nat where "SFS_BLKN_SUPER \<equiv> 0"
abbreviation (input) SFS_BLKN_ROOT :: nat where "SFS_BLKN_ROOT \<equiv> 1"
abbreviation (input) SFS_BLKN_FREEMAP :: nat where "SFS_BLKN_FREEMAP \<equiv> 2"

record sfs_super =
  sb_magic :: nat
  sb_blocks :: nat
  sb_unused :: nat
  sb_info :: "u8 list"

record 'd sfs_fs =
  super :: sfs_super
  sfs_dev :: "'d device"
  sfs_dst :: 'd
  freemap :: bitmap
  super_dirty :: bool
  sfs_buffer :: "u8 list"

section \<open>Block transfers\<close>

text \<open>The result is the return code, the buffer after the transfer and the file system.\<close>

definition sfs_rwblock_nolock ::
  "'d sfs_fs \<Rightarrow> u8 list \<Rightarrow> nat \<Rightarrow> bool \<Rightarrow> bool \<Rightarrow> (int \<times> u8 list \<times> 'd sfs_fs) option" where
  "sfs_rwblock_nolock s buf blkno wr check = do {
     kassert ((blkno \<noteq> 0 \<or> \<not> check) \<and> blkno < sb_blocks (super s));
     let iob = iobuf_init buf SFS_BLKSIZE (int (blkno * SFS_BLKSIZE mod 2 ^ 32));
     (ret, iob1, d) \<leftarrow> d_io (sfs_dev s) (sfs_dst s) iob wr;
     Some (ret, io_mem iob1, s\<lparr>sfs_dst := d\<rparr>)
   }"

fun sfs_rwblock :: "'d sfs_fs \<Rightarrow> u8 list \<Rightarrow> nat \<Rightarrow> nat \<Rightarrow> bool \<Rightarrow> (int \<times> u8 list \<times> 'd sfs_fs) option" where
  "sfs_rwblock s buf blkno 0 wr = Some (0, buf, s)"
| "sfs_rwblock s buf blkno (Suc nblks) wr = do {
     (ret, b, s1) \<leftarrow> sfs_rwblock_nolock s (take SFS_BLKSIZE buf) blkno wr True;
     if ret \<noteq> 0 then Some (ret, b @ drop SFS_BLKSIZE buf, s1)
     else do {
       (ret, rest, s2) \<leftarrow> sfs_rwblock s1 (drop SFS_BLKSIZE buf) (blkno + 1) nblks wr;
       Some (ret, b @ rest, s2)
     }
   }"

definition sfs_rblock :: "'d sfs_fs \<Rightarrow> u8 list \<Rightarrow> nat \<Rightarrow> nat \<Rightarrow> (int \<times> u8 list \<times> 'd sfs_fs) option" where
  "sfs_rblock s buf blkno nblks = sfs_rwblock s buf blkno nblks False"

definition sfs_wblock :: "'d sfs_fs \<Rightarrow> u8 list \<Rightarrow> nat \<Rightarrow> nat \<Rightarrow> (int \<times> u8 list \<times> 'd sfs_fs) option" where
  "sfs_wblock s buf blkno nblks = sfs_rwblock s buf blkno nblks True"

text \<open>\<^verbatim>\<open>sfs_rbuf\<close> returns the bytes it copies to the caller's buffer, none when the transfer fails.\<close>

definition sfs_rbuf :: "'d sfs_fs \<Rightarrow> nat \<Rightarrow> nat \<Rightarrow> int \<Rightarrow> (int \<times> u8 list \<times> 'd sfs_fs) option" where
  "sfs_rbuf s n blkno offset = do {
     kassert (offset \<ge> 0 \<and> offset < int SFS_BLKSIZE \<and> nat offset + n \<le> SFS_BLKSIZE);
     (ret, b, s1) \<leftarrow> sfs_rwblock_nolock s (sfs_buffer s) blkno False True;
     Some (ret, if ret = 0 then chunk (nat offset) n b else [], s1\<lparr>sfs_buffer := b\<rparr>)
   }"

definition sfs_wbuf :: "'d sfs_fs \<Rightarrow> u8 list \<Rightarrow> nat \<Rightarrow> int \<Rightarrow> (int \<times> 'd sfs_fs) option" where
  "sfs_wbuf s buf blkno offset = do {
     kassert (offset \<ge> 0 \<and> offset < int SFS_BLKSIZE \<and> nat offset + length buf \<le> SFS_BLKSIZE);
     (ret, b, s1) \<leftarrow> sfs_rwblock_nolock s (sfs_buffer s) blkno False True;
     if ret = 0 then do {
       let b1 = overwrite b (nat offset) buf;
       (ret, b2, s2) \<leftarrow> sfs_rwblock_nolock (s1\<lparr>sfs_buffer := b1\<rparr>) b1 blkno True True;
       Some (ret, s2\<lparr>sfs_buffer := b2\<rparr>)
     } else Some (ret, s1\<lparr>sfs_buffer := b\<rparr>)
   }"

definition super_bytes :: "sfs_super \<Rightarrow> u8 list" where
  "super_bytes sp = le_bytes 4 (sb_magic sp) @ le_bytes 4 (sb_blocks sp) @ le_bytes 4 (sb_unused sp) @ sb_info sp"

definition sfs_sync_super :: "'d sfs_fs \<Rightarrow> (int \<times> 'd sfs_fs) option" where
  "sfs_sync_super s = do {
     let b = overwrite (replicate SFS_BLKSIZE 0) 0 (super_bytes (super s));
     (ret, b1, s1) \<leftarrow> sfs_rwblock_nolock (s\<lparr>sfs_buffer := b\<rparr>) b SFS_BLKN_SUPER True False;
     Some (ret, s1\<lparr>sfs_buffer := b1\<rparr>)
   }"

definition sfs_freemap_bits :: "sfs_super \<Rightarrow> nat" where
  "sfs_freemap_bits sp = (sb_blocks sp + SFS_BLKBITS - 1) div SFS_BLKBITS * SFS_BLKBITS"

definition sfs_freemap_blocks :: "sfs_super \<Rightarrow> nat" where
  "sfs_freemap_blocks sp = (sb_blocks sp + SFS_BLKBITS - 1) div SFS_BLKBITS"

definition map_bytes :: "u32 list \<Rightarrow> u8 list" where
  "map_bytes ws = concat (map (\<lambda>w. le_bytes 4 (unat w)) ws)"

definition sfs_sync_freemap :: "'d sfs_fs \<Rightarrow> (int \<times> 'd sfs_fs) option" where
  "sfs_sync_freemap s = do {
     let nblks = sfs_freemap_blocks (super s);
     (ret, _, s1) \<leftarrow> sfs_wblock s (map_bytes (snd (bitmap_getdata (freemap s)))) SFS_BLKN_FREEMAP nblks;
     Some (ret, s1)
   }"

fun clear_blocks :: "'d sfs_fs \<Rightarrow> nat \<Rightarrow> nat \<Rightarrow> (int \<times> 'd sfs_fs) option" where
  "clear_blocks s blkno 0 = Some (0, s)"
| "clear_blocks s blkno (Suc nblks) = do {
     (ret, b, s1) \<leftarrow> sfs_rwblock_nolock s (sfs_buffer s) blkno True True;
     if ret \<noteq> 0 then Some (ret, s1\<lparr>sfs_buffer := b\<rparr>)
     else clear_blocks (s1\<lparr>sfs_buffer := b\<rparr>) (blkno + 1) nblks
   }"

text \<open>\<^verbatim>\<open>ret\<close> has no value in the source when no block is to be cleared; no caller asks for that.\<close>

definition sfs_clear_block :: "'d sfs_fs \<Rightarrow> nat \<Rightarrow> nat \<Rightarrow> (int \<times> 'd sfs_fs) option" where
  "sfs_clear_block s blkno nblks = do {
     kassert (nblks \<noteq> 0);
     clear_blocks (s\<lparr>sfs_buffer := replicate SFS_BLKSIZE 0\<rparr>) blkno nblks
   }"

section \<open>Free blocks (sfs_inode.c)\<close>

definition sfs_block_inuse :: "'d sfs_fs \<Rightarrow> nat \<Rightarrow> bool option" where
  "sfs_block_inuse s ino =
     (if ino \<noteq> 0 \<and> ino < sb_blocks (super s) then do {
        t \<leftarrow> bitmap_test (freemap s) ino;
        Some (\<not> t)
      } else panic)"

definition sfs_block_alloc :: "'d sfs_fs \<Rightarrow> (int \<times> nat \<times> 'd sfs_fs) option" where
  "sfs_block_alloc s = do {
     (ret, ino, fm) \<leftarrow> bitmap_alloc (freemap s);
     if ret \<noteq> 0 then Some (ret, ino, s\<lparr>freemap := fm\<rparr>)
     else do {
       kassert (sb_unused (super s) > 0);
       let s1 = s\<lparr>freemap := fm, super := (super s)\<lparr>sb_unused := sb_unused (super s) - 1\<rparr>, super_dirty := True\<rparr>;
       u \<leftarrow> sfs_block_inuse s1 ino;
       kassert u;
       (ret, s2) \<leftarrow> sfs_clear_block s1 ino 1;
       Some (ret, ino, s2)
     }
   }"

definition sfs_block_free :: "'d sfs_fs \<Rightarrow> nat \<Rightarrow> 'd sfs_fs option" where
  "sfs_block_free s ino = do {
     u \<leftarrow> sfs_block_inuse s ino;
     kassert u;
     fm \<leftarrow> bitmap_free (freemap s) ino;
     Some (s\<lparr>freemap := fm, super := (super s)\<lparr>sb_unused := sb_unused (super s) + 1\<rparr>, super_dirty := True\<rparr>)
   }"

section \<open>What the operations do to the content of the disk\<close>

text \<open>
  \<open>sfs_at\<close> describes a consistent state by what matters to the files: the content \<open>B\<close> of the blocks, the set \<open>F\<close> of the
  free ones and their number \<open>N\<close>. The superblock is never free, the count of unused blocks in the superblock is right, and
  the blocks fit the device and 32-bit byte offsets.
\<close>

definition sfs_at ::
  "'d device \<Rightarrow> ('d \<Rightarrow> bool) \<Rightarrow> ('d \<Rightarrow> nat \<Rightarrow> u8 list) \<Rightarrow> (nat \<Rightarrow> u8 list) \<Rightarrow> nat set \<Rightarrow> nat \<Rightarrow> 'd sfs_fs \<Rightarrow> bool" where
  "sfs_at dv di bl B F N s \<longleftrightarrow>
     sfs_dev s = dv \<and> di (sfs_dst s) \<and> bl (sfs_dst s) = B \<and> length (sfs_buffer s) = SFS_BLKSIZE \<and>
     bitmap_ok (freemap s) \<and> free_bits (freemap s) = F \<and> sb_blocks (super s) = N \<and> sb_unused (super s) = card F \<and>
     N \<le> d_blocks dv \<and> N \<le> 2 ^ 20 \<and> N \<le> nbits (freemap s) \<and> F \<subseteq> {0<..<N}"

lemma sfs_at_buffer:
  "length b = SFS_BLKSIZE \<Longrightarrow> sfs_at dv di bl B F N (s\<lparr>sfs_buffer := b\<rparr>) \<longleftrightarrow>
     sfs_at dv di bl B F N (s\<lparr>sfs_buffer := replicate SFS_BLKSIZE 0\<rparr>)"
  by (simp add: sfs_at_def)

context block_device begin

abbreviation fs_at :: "(nat \<Rightarrow> u8 list) \<Rightarrow> nat set \<Rightarrow> nat \<Rightarrow> 'd sfs_fs \<Rightarrow> bool" where
  "fs_at \<equiv> sfs_at dev dinv blk"

lemma rwblock_read:
  assumes "fs_at B F N s" "b < N" "b \<noteq> 0 \<or> \<not> check" "length buf = 4096"
  shows "\<exists>s'. sfs_rwblock_nolock s buf b False check = Some (0, B b, s') \<and> fs_at B F N s' \<and> s' = s\<lparr>sfs_dst := sfs_dst s'\<rparr>"
proof -
  have at: "dinv (sfs_dst s)" "b < d_blocks dev" "sfs_dev s = dev" "blk (sfs_dst s) = B" "b < sb_blocks (super s)" "N \<le> 2 ^ 20"
    using assms(1,2) by (auto simp: sfs_at_def)
  obtain d' where "d_io dev (sfs_dst s) (iobuf_init buf 4096 (int (b * 4096))) False =
      Some (0, iobuf_fill (B b) (iobuf_init buf 4096 (int (b * 4096))), d')" "dinv d'" "blk d' = B"
    using io_read [OF at(1,2) assms(4)] at(4) by auto
  moreover have "b * 4096 mod 2 ^ 32 = b * 4096" using assms(2) at(6) by simp
  moreover have "length (B b) = 4096" using blk_length [OF at(1), of b] at(4) by simp
  ultimately show ?thesis using assms at by (auto simp: sfs_rwblock_nolock_def sfs_at_def Let_def)
qed

lemma rwblock_write:
  assumes "fs_at B F N s" "b < N" "b \<noteq> 0 \<or> \<not> check" "length buf = 4096"
  shows "\<exists>s'. sfs_rwblock_nolock s buf b True check = Some (0, buf, s') \<and> fs_at (B(b := buf)) F N s' \<and>
    s' = s\<lparr>sfs_dst := sfs_dst s'\<rparr>"
proof -
  have at: "dinv (sfs_dst s)" "b < d_blocks dev" "sfs_dev s = dev" "blk (sfs_dst s) = B" "b < sb_blocks (super s)" "N \<le> 2 ^ 20"
    using assms(1,2) by (auto simp: sfs_at_def)
  obtain d' where "d_io dev (sfs_dst s) (iobuf_init buf 4096 (int (b * 4096))) True =
      Some (0, iobuf_advance 4096 (iobuf_init buf 4096 (int (b * 4096))), d')" "dinv d'" "blk d' = B(b := buf)"
    using io_write [OF at(1,2) assms(4)] at(4) by auto
  moreover have "b * 4096 mod 2 ^ 32 = b * 4096" using assms(2) at(6) by simp
  ultimately show ?thesis using assms at by (auto simp: sfs_rwblock_nolock_def sfs_at_def Let_def)
qed

lemma at_length: "fs_at B F N s \<Longrightarrow> length (B b) = 4096"
  using blk_length by (auto simp: sfs_at_def)

lemma at_buffer: "fs_at B F N s \<Longrightarrow> length b = 4096 \<Longrightarrow> fs_at B F N (s\<lparr>sfs_buffer := b\<rparr>)"
  by (simp add: sfs_at_def)

lemma rbuf_ok:
  assumes "fs_at B F N s" "b < N" "b \<noteq> 0" "off + n \<le> 4096" "off < 4096"
  shows "\<exists>s'. sfs_rbuf s n b (int off) = Some (0, chunk off n (B b), s') \<and> fs_at B F N s'"
proof -
  have "length (sfs_buffer s) = 4096" using assms(1) by (simp add: sfs_at_def)
  then obtain s1 where "sfs_rwblock_nolock s (sfs_buffer s) b False True = Some (0, B b, s1)" "fs_at B F N s1"
    using rwblock_read [OF assms(1,2), of True "sfs_buffer s"] assms(3) by auto
  then show ?thesis using assms at_length [OF assms(1)] by (auto simp: sfs_rbuf_def at_buffer)
qed

lemma wbuf_ok:
  assumes "fs_at B F N s" "b < N" "b \<noteq> 0" "off + length buf \<le> 4096" "off < 4096"
  shows "\<exists>s'. sfs_wbuf s buf b (int off) = Some (0, s') \<and> fs_at (B(b := overwrite (B b) off buf)) F N s'"
proof -
  have "length (sfs_buffer s) = 4096" using assms(1) by (simp add: sfs_at_def)
  then obtain s1 where s1: "sfs_rwblock_nolock s (sfs_buffer s) b False True = Some (0, B b, s1)" "fs_at B F N s1"
    using rwblock_read [OF assms(1,2), of True "sfs_buffer s"] assms(3) by auto
  let ?b1 = "overwrite (B b) off buf"
  have l: "length ?b1 = 4096" using at_length [OF assms(1)] assms(4) by simp
  obtain s2 where "sfs_rwblock_nolock (s1\<lparr>sfs_buffer := ?b1\<rparr>) ?b1 b True True = Some (0, ?b1, s2)" "fs_at (B(b := ?b1)) F N s2"
    using rwblock_write [OF at_buffer [OF s1(2) l] assms(2), of True ?b1] assms(3) l by auto
  then show ?thesis using assms s1 l by (auto simp: sfs_wbuf_def at_buffer Let_def)
qed

lemma wblock_ok:
  assumes "fs_at B F N s" "b < N" "b \<noteq> 0" "length buf = 4096"
  shows "\<exists>s'. sfs_wblock s buf b 1 = Some (0, buf, s') \<and> fs_at (B(b := buf)) F N s'"
  using rwblock_write [OF assms(1,2), of True buf] assms(3,4) by (auto simp: sfs_wblock_def)

lemma rblock_ok:
  assumes "fs_at B F N s" "b < N" "b \<noteq> 0" "length buf = 4096"
  shows "\<exists>s'. sfs_rblock s buf b 1 = Some (0, B b, s') \<and> fs_at B F N s'"
  using rwblock_read [OF assms(1,2), of True buf] assms(3,4) by (auto simp: sfs_rblock_def)

lemma clear_ok:
  assumes "fs_at B F N s" "b < N" "b \<noteq> 0"
  shows "\<exists>s'. sfs_clear_block s b 1 = Some (0, s') \<and> fs_at (B(b := replicate 4096 0)) F N s'"
proof -
  let ?z = "replicate 4096 (0 :: u8)"
  obtain s1 where "sfs_rwblock_nolock (s\<lparr>sfs_buffer := ?z\<rparr>) ?z b True True = Some (0, ?z, s1)" "fs_at (B(b := ?z)) F N s1"
    using rwblock_write [OF at_buffer [OF assms(1)] assms(2), of ?z True ?z] assms(3) by auto
  then show ?thesis by (auto simp: sfs_clear_block_def at_buffer)
qed

lemma inuse_ok: "fs_at B F N s \<Longrightarrow> b < N \<Longrightarrow> b \<noteq> 0 \<Longrightarrow> sfs_block_inuse s b = Some (b \<notin> F)"
  using bitmap_test_eq [of "freemap s" b] by (auto simp: sfs_at_def sfs_block_inuse_def)

lemma alloc_none:
  assumes "fs_at B {} N s"
  shows "\<exists>i. sfs_block_alloc s = Some (- E_NO_MEM, i, s)"
  using bitmap_alloc_ok [of "freemap s"] assms by (simp add: sfs_at_def sfs_block_alloc_def)

lemma alloc_ok:
  assumes at: "fs_at B F N s" and F: "F \<noteq> {}"
  shows "\<exists>s'. sfs_block_alloc s = Some (0, Min F, s') \<and> fs_at (B(Min F := replicate 4096 0)) (F - {Min F}) N s'"
proof -
  have fin: "finite F" using at finite_subset [of F "{0<..<N}"] by (auto simp: sfs_at_def)
  have m: "Min F \<in> F" using fin F by (rule Min_in)
  then have mN: "Min F < N" "Min F \<noteq> 0" using at by (auto simp: sfs_at_def)
  obtain fm where fm: "bitmap_alloc (freemap s) = Some (0, Min F, fm)" "free_bits fm = F - {Min F}" "bitmap_ok fm"
    "nbits fm = nbits (freemap s)"
    using bitmap_alloc_ok [of "freemap s"] at F by (auto simp: sfs_at_def)
  let ?s1 = "s\<lparr>freemap := fm, super := (super s)\<lparr>sb_unused := sb_unused (super s) - 1\<rparr>, super_dirty := True\<rparr>"
  have s1: "fs_at B (F - {Min F}) N ?s1" using at fm fin m by (auto simp: sfs_at_def)
  have u: "sb_unused (super s) > 0" using at fin F by (auto simp: sfs_at_def card_gt_0_iff)
  obtain s2 where "sfs_clear_block ?s1 (Min F) 1 = Some (0, s2)" "fs_at (B(Min F := replicate 4096 0)) (F - {Min F}) N s2"
    using clear_ok [OF s1 mN] by blast
  then show ?thesis using fm(1) u inuse_ok [OF s1 mN] by (simp add: sfs_block_alloc_def Let_def)
qed

lemma free_ok:
  assumes at: "fs_at B F N s" and b: "b < N" "b \<noteq> 0" "b \<notin> F"
  shows "\<exists>s'. sfs_block_free s b = Some s' \<and> fs_at B (insert b F) N s'"
proof -
  have fin: "finite F" using at finite_subset [of F "{0<..<N}"] by (auto simp: sfs_at_def)
  have bm: "bitmap_ok (freemap s)" "free_bits (freemap s) = F" "b < nbits (freemap s)" using at b by (auto simp: sfs_at_def)
  obtain fm where "bitmap_free (freemap s) b = Some fm" "free_bits fm = insert b F" "bitmap_ok fm"
    "nbits fm = nbits (freemap s)"
    using bitmap_free_ok [OF bm(1,3)] bm(2) b(3) by auto
  then show ?thesis using inuse_ok [OF at b(1,2)] b at fin by (auto simp: sfs_block_free_def sfs_at_def)
qed

lemma free_twice: "fs_at B F N s \<Longrightarrow> b \<in> F \<Longrightarrow> sfs_block_free s b = None"
  using inuse_ok [of B F N s b] by (auto simp: sfs_block_free_def sfs_at_def)

end

end
