(* ===== verification/SfsFile.thy ===== *)
theory SfsFile
  imports SfsIO
begin

text \<open>
  Files and directories of the simple file system (\<^verbatim>\<open>kern/fs/sfs/sfs_inode.c\<close>): the block map of an inode, reading,
  writing and truncating a file, and the entries of a directory. An operation gets the file system and the in-memory inode
  and returns the return code, its results and both of them; \<open>None\<close> is a panic. The semaphore of an inode is left out: what
  runs under it is one step.
\<close>

section \<open>Data\<close>

abbreviation (input) SFS_NDIRECT :: nat where "SFS_NDIRECT \<equiv> 12"
abbreviation (input) SFS_BLK_NENTRY :: nat where "SFS_BLK_NENTRY \<equiv> 1024"
abbreviation (input) SFS_MAX_FILE_SIZE :: int where "SFS_MAX_FILE_SIZE \<equiv> 134217728"
abbreviation (input) SFS_MAX_FNAME_LEN :: nat where "SFS_MAX_FNAME_LEN \<equiv> 255"
abbreviation (input) SFS_TYPE_FILE :: nat where "SFS_TYPE_FILE \<equiv> 1"
abbreviation (input) SFS_TYPE_DIR :: nat where "SFS_TYPE_DIR \<equiv> 2"
abbreviation (input) SFS_TYPE_LINK :: nat where "SFS_TYPE_LINK \<equiv> 3"

record sfs_disk_inode =
  di_size :: nat
  di_type :: nat
  di_nlinks :: nat
  di_blocks :: nat
  di_direct :: "nat list"
  di_indirect :: nat

record sfs_inode =
  din :: sfs_disk_inode
  ino :: nat
  dirty :: bool
  reclaim_count :: int

record sfs_disk_entry =
  de_ino :: nat
  de_name :: "u8 list"

abbreviation (input) upd_din :: "(sfs_disk_inode \<Rightarrow> sfs_disk_inode) \<Rightarrow> sfs_inode \<Rightarrow> sfs_inode" where
  "upd_din f sin \<equiv> sin\<lparr>din := f (din sin)\<rparr>"

text \<open>The layout of \<^verbatim>\<open>struct sfs_disk_entry\<close> on disk: a 32-bit number and 256 bytes of name, the last one set to 0 by the
  reader.\<close>

definition entry_of :: "u8 list \<Rightarrow> sfs_disk_entry" where
  "entry_of bs = \<lparr>de_ino = of_le (take 4 bs), de_name = (chunk 4 256 bs)[SFS_MAX_FNAME_LEN := 0]\<rparr>"

section \<open>The block map\<close>

text \<open>\<^verbatim>\<open>sfs_bmap_get_sub_nolock\<close>: \<open>entp\<close> is \<^verbatim>\<open>*entp\<close> on entry, and the second component of the result is its value on
  return. The first two definitions are the code from the allocation of the data block on, and the label
  \<^verbatim>\<open>failed_cleanup\<close>.\<close>

definition sub_cleanup :: "'d sfs_fs \<Rightarrow> nat \<Rightarrow> nat \<Rightarrow> int \<Rightarrow> (int \<times> nat \<times> nat \<times> 'd sfs_fs) option" where
  "sub_cleanup s entp ent ret =
     (if ent \<noteq> entp then do {
        s1 \<leftarrow> sfs_block_free s ent;
        Some (ret, entp, 0, s1)
      } else Some (ret, entp, 0, s))"

definition sub_alloc :: "'d sfs_fs \<Rightarrow> nat \<Rightarrow> nat \<Rightarrow> nat \<Rightarrow> (int \<times> nat \<times> nat \<times> 'd sfs_fs) option" where
  "sub_alloc s entp ent offset = do {
     (ret, i, s1) \<leftarrow> sfs_block_alloc s;
     if ret \<noteq> 0 then sub_cleanup s1 entp ent ret
     else do {
       (ret, s2) \<leftarrow> sfs_wbuf s1 (le_bytes 4 i) ent (int offset);
       if ret \<noteq> 0 then do {
         s3 \<leftarrow> sfs_block_free s2 i;
         sub_cleanup s3 entp ent ret
       } else Some (0, ent, i, s2)
     }
   }"

definition sfs_bmap_get_sub_nolock ::
  "'d sfs_fs \<Rightarrow> nat \<Rightarrow> nat \<Rightarrow> bool \<Rightarrow> (int \<times> nat \<times> nat \<times> 'd sfs_fs) option" where
  "sfs_bmap_get_sub_nolock s entp index create = do {
     kassert (index < SFS_BLK_NENTRY);
     let offset = index * 4;
     if entp \<noteq> 0 then do {
       (ret, b, s1) \<leftarrow> sfs_rbuf s 4 entp (int offset);
       if ret \<noteq> 0 then Some (ret, entp, 0, s1)
       else if of_le b \<noteq> 0 \<or> \<not> create then Some (0, entp, of_le b, s1)
       else sub_alloc s1 entp entp offset
     } else if \<not> create then Some (0, entp, 0, s)
     else do {
       (ret, ent, s1) \<leftarrow> sfs_block_alloc s;
       if ret \<noteq> 0 then Some (ret, entp, 0, s1) else sub_alloc s1 entp ent offset
     }
   }"

definition bmap_get_out ::
  "'d sfs_fs \<Rightarrow> sfs_inode \<Rightarrow> nat \<Rightarrow> (int \<times> nat \<times> sfs_inode \<times> 'd sfs_fs) option" where
  "bmap_get_out s sin i = do {
     u \<leftarrow> (if i = 0 then Some True else sfs_block_inuse s i);
     kassert u;
     Some (0, i, sin, s)
   }"

definition sfs_bmap_get_nolock ::
  "'d sfs_fs \<Rightarrow> sfs_inode \<Rightarrow> nat \<Rightarrow> bool \<Rightarrow> (int \<times> nat \<times> sfs_inode \<times> 'd sfs_fs) option" where
  "sfs_bmap_get_nolock s sin index create =
     (if index < SFS_NDIRECT then
        let i = di_direct (din sin) ! index in
        if i = 0 \<and> create then do {
          (ret, i, s1) \<leftarrow> sfs_block_alloc s;
          if ret \<noteq> 0 then Some (ret, 0, sin, s1)
          else bmap_get_out s1
            (upd_din (\<lambda>di. di\<lparr>di_direct := (di_direct di)[index := i]\<rparr>) sin\<lparr>dirty := True\<rparr>) i
        } else bmap_get_out s sin i
      else
        let index = index - SFS_NDIRECT in
        if index < SFS_BLK_NENTRY then do {
          (ret, ent, i, s1) \<leftarrow> sfs_bmap_get_sub_nolock s (di_indirect (din sin)) index create;
          if ret \<noteq> 0 then Some (ret, 0, sin, s1)
          else if ent \<noteq> di_indirect (din sin) then do {
            kassert (di_indirect (din sin) = 0);
            bmap_get_out s1 (upd_din (\<lambda>di. di\<lparr>di_indirect := ent\<rparr>) sin\<lparr>dirty := True\<rparr>) i
          } else bmap_get_out s1 sin i
        } else panic)"

definition sfs_bmap_free_sub_nolock :: "'d sfs_fs \<Rightarrow> nat \<Rightarrow> nat \<Rightarrow> (int \<times> 'd sfs_fs) option" where
  "sfs_bmap_free_sub_nolock s ent index = do {
     u \<leftarrow> sfs_block_inuse s ent;
     kassert (u \<and> index < SFS_BLK_NENTRY);
     let offset = index * 4;
     (ret, b, s1) \<leftarrow> sfs_rbuf s 4 ent (int offset);
     if ret \<noteq> 0 then Some (ret, s1)
     else if of_le b \<noteq> 0 then do {
       (ret, s2) \<leftarrow> sfs_wbuf s1 (le_bytes 4 0) ent (int offset);
       if ret \<noteq> 0 then Some (ret, s2)
       else do {
         s3 \<leftarrow> sfs_block_free s2 (of_le b);
         Some (0, s3)
       }
     } else Some (0, s1)
   }"

definition sfs_bmap_free_nolock :: "'d sfs_fs \<Rightarrow> sfs_inode \<Rightarrow> nat \<Rightarrow> (int \<times> sfs_inode \<times> 'd sfs_fs) option" where
  "sfs_bmap_free_nolock s sin index =
     (if index < SFS_NDIRECT then
        let i = di_direct (din sin) ! index in
        if i \<noteq> 0 then do {
          s1 \<leftarrow> sfs_block_free s i;
          Some (0, upd_din (\<lambda>di. di\<lparr>di_direct := (di_direct di)[index := 0]\<rparr>) sin\<lparr>dirty := True\<rparr>, s1)
        } else Some (0, sin, s)
      else
        let index = index - SFS_NDIRECT in
        if index < SFS_BLK_NENTRY then
          if di_indirect (din sin) \<noteq> 0 then do {
            (ret, s1) \<leftarrow> sfs_bmap_free_sub_nolock s (di_indirect (din sin)) index;
            if ret \<noteq> 0 then Some (ret, sin, s1) else Some (0, sin, s1)
          } else Some (0, sin, s)
        else Some (0, sin, s))"

definition sfs_bmap_load_nolock ::
  "'d sfs_fs \<Rightarrow> sfs_inode \<Rightarrow> nat \<Rightarrow> (int \<times> nat \<times> sfs_inode \<times> 'd sfs_fs) option" where
  "sfs_bmap_load_nolock s sin index = do {
     kassert (index \<le> di_blocks (din sin));
     let create = (index = di_blocks (din sin));
     (ret, i, sin1, s1) \<leftarrow> sfs_bmap_get_nolock s sin index create;
     if ret \<noteq> 0 then Some (ret, 0, sin1, s1)
     else do {
       u \<leftarrow> sfs_block_inuse s1 i;
       kassert u;
       Some (0, i, if create then upd_din (\<lambda>di. di\<lparr>di_blocks := di_blocks di + 1\<rparr>) sin1 else sin1, s1)
     }
   }"

definition sfs_bmap_truncate_nolock :: "'d sfs_fs \<Rightarrow> sfs_inode \<Rightarrow> (int \<times> sfs_inode \<times> 'd sfs_fs) option" where
  "sfs_bmap_truncate_nolock s sin = do {
     kassert (di_blocks (din sin) \<noteq> 0);
     (ret, sin1, s1) \<leftarrow> sfs_bmap_free_nolock s sin (di_blocks (din sin) - 1);
     if ret \<noteq> 0 then Some (ret, sin1, s1)
     else Some (0, upd_din (\<lambda>di. di\<lparr>di_blocks := di_blocks di - 1\<rparr>) sin1\<lparr>dirty := True\<rparr>, s1)
   }"

section \<open>Reading and writing\<close>

text \<open>The \<^verbatim>\<open>off_t\<close> value of a sum of 64-bit values.\<close>

definition sext64 :: "int \<Rightarrow> int" where
  "sext64 x = (x + 2 ^ 63) mod 2 ^ 64 - 2 ^ 63"

text \<open>\<^verbatim>\<open>sfs_buf_op\<close> and \<^verbatim>\<open>sfs_block_op\<close> on the \<open>n\<close> bytes of the buffer from \<open>pos\<close> on. An access outside the buffer has no
  result.\<close>

definition sfs_buf_op ::
  "bool \<Rightarrow> 'd sfs_fs \<Rightarrow> u8 list \<Rightarrow> nat \<Rightarrow> nat \<Rightarrow> nat \<Rightarrow> int \<Rightarrow> (int \<times> u8 list \<times> 'd sfs_fs) option" where
  "sfs_buf_op wr s buf pos n blkno offset = do {
     kassert (pos + n \<le> length buf);
     if wr then do {
       (ret, s1) \<leftarrow> sfs_wbuf s (chunk pos n buf) blkno offset;
       Some (ret, buf, s1)
     } else do {
       (ret, b, s1) \<leftarrow> sfs_rbuf s n blkno offset;
       Some (ret, if ret = 0 then overwrite buf pos b else buf, s1)
     }
   }"

definition sfs_block_op ::
  "bool \<Rightarrow> 'd sfs_fs \<Rightarrow> u8 list \<Rightarrow> nat \<Rightarrow> nat \<Rightarrow> nat \<Rightarrow> (int \<times> u8 list \<times> 'd sfs_fs) option" where
  "sfs_block_op wr s buf pos blkno nblks = do {
     kassert (pos + nblks * SFS_BLKSIZE \<le> length buf);
     (ret, b, s1) \<leftarrow>
       (if wr then sfs_wblock else sfs_rblock) s (chunk pos (nblks * SFS_BLKSIZE) buf) blkno nblks;
     Some (ret, overwrite buf pos b, s1)
   }"

type_synonym 'd io_result = "(int \<times> nat \<times> u8 list \<times> sfs_inode \<times> 'd sfs_fs) option"

text \<open>The three phases of \<^verbatim>\<open>sfs_io_nolock\<close>, last phase first: the bytes of the last block, the whole blocks, and the rest of
  the first block when the start is not aligned. \<open>alen\<close> is the number of bytes moved so far, which is also the position
  of \<^verbatim>\<open>buffer\<close> in the caller's buffer.\<close>

definition sfs_io_tail ::
  "bool \<Rightarrow> 'd sfs_fs \<Rightarrow> sfs_inode \<Rightarrow> u8 list \<Rightarrow> nat \<Rightarrow> nat \<Rightarrow> nat \<Rightarrow> 'd io_result" where
  "sfs_io_tail wr s sin buf endpos blkno alen = (
     let n = endpos mod SFS_BLKSIZE in
     if n \<noteq> 0 then do {
       (ret, i, sin1, s1) \<leftarrow> sfs_bmap_load_nolock s sin blkno;
       if ret \<noteq> 0 then Some (ret, alen, buf, sin1, s1)
       else do {
         (ret, buf1, s2) \<leftarrow> sfs_buf_op wr s1 buf alen n i 0;
         if ret \<noteq> 0 then Some (ret, alen, buf1, sin1, s2)
         else Some (0, alen + n, buf1, sin1, s2)
       }
     } else Some (0, alen, buf, sin, s))"

fun sfs_io_blocks ::
  "bool \<Rightarrow> 'd sfs_fs \<Rightarrow> sfs_inode \<Rightarrow> u8 list \<Rightarrow> nat \<Rightarrow> nat \<Rightarrow> nat \<Rightarrow> nat \<Rightarrow> 'd io_result" where
  "sfs_io_blocks wr s sin buf endpos blkno 0 alen = sfs_io_tail wr s sin buf endpos blkno alen"
| "sfs_io_blocks wr s sin buf endpos blkno (Suc nblks) alen = do {
     (ret, i, sin1, s1) \<leftarrow> sfs_bmap_load_nolock s sin blkno;
     if ret \<noteq> 0 then Some (ret, alen, buf, sin1, s1)
     else do {
       (ret, buf1, s2) \<leftarrow> sfs_block_op wr s1 buf alen i 1;
       if ret \<noteq> 0 then Some (ret, alen, buf1, sin1, s2)
       else sfs_io_blocks wr s2 sin1 buf1 endpos (blkno + 1) nblks (alen + SFS_BLKSIZE)
     }
   }"

definition sfs_io_head ::
  "bool \<Rightarrow> 'd sfs_fs \<Rightarrow> sfs_inode \<Rightarrow> u8 list \<Rightarrow> nat \<Rightarrow> nat \<Rightarrow> 'd io_result" where
  "sfs_io_head wr s sin buf offset endpos = (
     let blkno = offset div SFS_BLKSIZE;
         nblks = endpos div SFS_BLKSIZE - blkno;
         blkoff = offset mod SFS_BLKSIZE in
     if blkoff \<noteq> 0 then do {
       let n = (if nblks \<noteq> 0 then SFS_BLKSIZE - blkoff else endpos - offset);
       (ret, i, sin1, s1) \<leftarrow> sfs_bmap_load_nolock s sin blkno;
       if ret \<noteq> 0 then Some (ret, 0, buf, sin1, s1)
       else do {
         (ret, buf1, s2) \<leftarrow> sfs_buf_op wr s1 buf 0 n i (int blkoff);
         if ret \<noteq> 0 then Some (ret, 0, buf1, sin1, s2)
         else if nblks = 0 then Some (0, n, buf1, sin1, s2)
         else sfs_io_blocks wr s2 sin1 buf1 endpos (blkno + 1) (nblks - 1) n
       }
     } else sfs_io_blocks wr s sin buf endpos blkno nblks 0)"

definition sfs_io_nolock ::
  "'d sfs_fs \<Rightarrow> sfs_inode \<Rightarrow> u8 list \<Rightarrow> int \<Rightarrow> nat \<Rightarrow> bool \<Rightarrow> 'd io_result" where
  "sfs_io_nolock s sin buf offset alen wr = do {
     kassert (di_type (din sin) \<noteq> SFS_TYPE_DIR);
     let endpos = sext64 (offset + int alen);
     if offset < 0 \<or> offset \<ge> SFS_MAX_FILE_SIZE \<or> offset > endpos then Some (- E_INVAL, 0, buf, sin, s)
     else if offset = endpos then Some (0, 0, buf, sin, s)
     else do {
       let endpos1 = (if endpos > SFS_MAX_FILE_SIZE then SFS_MAX_FILE_SIZE else endpos);
       if \<not> wr \<and> offset \<ge> int (di_size (din sin)) then Some (0, 0, buf, sin, s)
       else do {
         let endpos2 = (if \<not> wr \<and> endpos1 > int (di_size (din sin)) then int (di_size (din sin)) else endpos1);
         (ret, n, buf1, sin1, s1) \<leftarrow> sfs_io_head wr s sin buf (nat offset) (nat endpos2);
         let sin2 = (if nat offset + n > di_size (din sin1)
                     then upd_din (\<lambda>di. di\<lparr>di_size := nat offset + n\<rparr>) sin1\<lparr>dirty := True\<rparr> else sin1);
         Some (ret, n, buf1, sin2, s1)
       }
     }
   }"

definition sfs_io :: "'d sfs_fs \<Rightarrow> sfs_inode \<Rightarrow> iobuf \<Rightarrow> bool \<Rightarrow> (int \<times> iobuf \<times> sfs_inode \<times> 'd sfs_fs) option" where
  "sfs_io s sin iob wr = do {
     (ret, alen, buf, sin1, s1) \<leftarrow>
       sfs_io_nolock s sin (drop (io_base iob) (io_mem iob)) (io_offset iob) (io_resid iob) wr;
     let iob1 = iob\<lparr>io_mem := take (io_base iob) (io_mem iob) @ buf\<rparr>;
     iob2 \<leftarrow> (if alen \<noteq> 0 then iobuf_skip iob1 alen else Some iob1);
     Some (ret, iob2, sin1, s1)
   }"

definition sfs_read :: "'d sfs_fs \<Rightarrow> sfs_inode \<Rightarrow> iobuf \<Rightarrow> (int \<times> iobuf \<times> sfs_inode \<times> 'd sfs_fs) option" where
  "sfs_read s sin iob = sfs_io s sin iob False"

definition sfs_write :: "'d sfs_fs \<Rightarrow> sfs_inode \<Rightarrow> iobuf \<Rightarrow> (int \<times> iobuf \<times> sfs_inode \<times> 'd sfs_fs) option" where
  "sfs_write s sin iob = sfs_io s sin iob True"

section \<open>Size and status\<close>

text \<open>The loops of \<^verbatim>\<open>sfs_truncfile\<close> that append and release blocks; the number counts the rounds left.\<close>

fun trunc_grow :: "'d sfs_fs \<Rightarrow> sfs_inode \<Rightarrow> nat \<Rightarrow> nat \<Rightarrow> (int \<times> sfs_inode \<times> 'd sfs_fs) option" where
  "trunc_grow s sin nblks 0 = Some (0, sin, s)"
| "trunc_grow s sin nblks (Suc k) = do {
     (ret, _, sin1, s1) \<leftarrow> sfs_bmap_load_nolock s sin nblks;
     if ret \<noteq> 0 then Some (ret, sin1, s1) else trunc_grow s1 sin1 (nblks + 1) k
   }"

fun trunc_shrink :: "'d sfs_fs \<Rightarrow> sfs_inode \<Rightarrow> nat \<Rightarrow> (int \<times> sfs_inode \<times> 'd sfs_fs) option" where
  "trunc_shrink s sin 0 = Some (0, sin, s)"
| "trunc_shrink s sin (Suc k) = do {
     (ret, sin1, s1) \<leftarrow> sfs_bmap_truncate_nolock s sin;
     if ret \<noteq> 0 then Some (ret, sin1, s1) else trunc_shrink s1 sin1 k
   }"

definition sfs_truncfile :: "'d sfs_fs \<Rightarrow> sfs_inode \<Rightarrow> int \<Rightarrow> (int \<times> sfs_inode \<times> 'd sfs_fs) option" where
  "sfs_truncfile s sin n =
     (if n < 0 \<or> n > SFS_MAX_FILE_SIZE then Some (- E_INVAL, sin, s)
      else do {
        let tblks = (nat n + SFS_BLKSIZE - 1) div SFS_BLKSIZE;
        if int (di_size (din sin)) = n then do {
          kassert (tblks = di_blocks (din sin));
          Some (0, sin, s)
        } else do {
          let nblks = di_blocks (din sin);
          (ret, sin1, s1) \<leftarrow>
            (if nblks < tblks then trunc_grow s sin nblks (tblks - nblks)
             else trunc_shrink s sin (nblks - tblks));
          if ret \<noteq> 0 then Some (ret, sin1, s1)
          else do {
            kassert (di_blocks (din sin1) = tblks);
            Some (0, upd_din (\<lambda>di. di\<lparr>di_size := nat n\<rparr>) sin1\<lparr>dirty := True\<rparr>, s1)
          }
        }
      })"

definition sfs_tryseek :: "'d sfs_fs \<Rightarrow> sfs_inode \<Rightarrow> int \<Rightarrow> (int \<times> sfs_inode \<times> 'd sfs_fs) option" where
  "sfs_tryseek s sin pos =
     (if pos < 0 \<or> pos \<ge> SFS_MAX_FILE_SIZE then Some (- E_INVAL, sin, s)
      else if pos > int (di_size (din sin)) then sfs_truncfile s sin pos
      else Some (0, sin, s))"

abbreviation (input) S_IFREG :: nat where "S_IFREG \<equiv> 0x1000"
abbreviation (input) S_IFDIR :: nat where "S_IFDIR \<equiv> 0x2000"
abbreviation (input) S_IFLNK :: nat where "S_IFLNK \<equiv> 0x3000"

definition sfs_gettype :: "sfs_inode \<Rightarrow> (int \<times> nat) option" where
  "sfs_gettype sin =
     (if di_type (din sin) = SFS_TYPE_DIR then Some (0, S_IFDIR)
      else if di_type (din sin) = SFS_TYPE_FILE then Some (0, S_IFREG)
      else if di_type (din sin) = SFS_TYPE_LINK then Some (0, S_IFLNK)
      else panic)"

record stat =
  st_mode :: nat
  st_nlinks :: nat
  st_blocks :: nat
  st_size :: nat

definition sfs_fstat :: "sfs_inode \<Rightarrow> (int \<times> stat) option" where
  "sfs_fstat sin = do {
     let st = \<lparr>st_mode = 0, st_nlinks = 0, st_blocks = 0, st_size = 0\<rparr>;
     (ret, ty) \<leftarrow> sfs_gettype sin;
     if ret \<noteq> 0 then Some (ret, st)
     else Some (0, \<lparr>st_mode = ty, st_nlinks = di_nlinks (din sin), st_blocks = di_blocks (din sin),
                  st_size = di_size (din sin)\<rparr>)
   }"

text \<open>The 64 bytes of \<^verbatim>\<open>struct sfs_disk_inode\<close>.\<close>

definition din_bytes :: "sfs_disk_inode \<Rightarrow> u8 list" where
  "din_bytes di = le_bytes 4 (di_size di) @ le_bytes 2 (di_type di) @ le_bytes 2 (di_nlinks di) @ le_bytes 4 (di_blocks di) @
     concat (map (le_bytes 4) (di_direct di)) @ le_bytes 4 (di_indirect di)"

definition din_of :: "u8 list \<Rightarrow> sfs_disk_inode" where
  "din_of bs = \<lparr>di_size = of_le (chunk 0 4 bs), di_type = of_le (chunk 4 2 bs), di_nlinks = of_le (chunk 6 2 bs),
     di_blocks = of_le (chunk 8 4 bs), di_direct = map (\<lambda>i. of_le (chunk (12 + 4 * i) 4 bs)) [0..<SFS_NDIRECT],
     di_indirect = of_le (chunk 60 4 bs)\<rparr>"

definition sfs_fsync :: "'d sfs_fs \<Rightarrow> sfs_inode \<Rightarrow> (int \<times> sfs_inode \<times> 'd sfs_fs) option" where
  "sfs_fsync s sin =
     (if dirty sin then do {
        (ret, s1) \<leftarrow> sfs_wbuf s (din_bytes (din sin)) (ino sin) 0;
        Some (ret, sin\<lparr>dirty := (ret \<noteq> 0)\<rparr>, s1)
      } else Some (0, sin, s))"

section \<open>Directories\<close>

definition sfs_dirent_read_nolock ::
  "'d sfs_fs \<Rightarrow> sfs_inode \<Rightarrow> nat \<Rightarrow> (int \<times> sfs_disk_entry \<times> sfs_inode \<times> 'd sfs_fs) option" where
  "sfs_dirent_read_nolock s sin slot = do {
     kassert (di_type (din sin) = SFS_TYPE_DIR \<and> slot < di_blocks (din sin));
     (ret, i, sin1, s1) \<leftarrow> sfs_bmap_load_nolock s sin slot;
     if ret \<noteq> 0 then Some (ret, entry_of [], sin1, s1)
     else do {
       u \<leftarrow> sfs_block_inuse s1 i;
       kassert u;
       (ret, b, s2) \<leftarrow> sfs_rbuf s1 260 i 0;
       if ret \<noteq> 0 then Some (ret, entry_of [], sin1, s2)
       else Some (0, entry_of b, sin1, s2)
     }
   }"

text \<open>A C string in a buffer: the bytes before the first 0.\<close>

definition cstr :: "u8 list \<Rightarrow> u8 list" where
  "cstr bs = takeWhile (\<lambda>b. b \<noteq> 0) bs"

text \<open>The loop of \<^verbatim>\<open>sfs_dirent_search_nolock\<close> from slot \<open>i\<close> on, with \<open>k\<close> slots left. The results are the return code, the
  inode number and the slot found, and the last empty slot seen.\<close>

fun dirent_search ::
  "'d sfs_fs \<Rightarrow> sfs_inode \<Rightarrow> u8 list \<Rightarrow> nat \<Rightarrow> nat \<Rightarrow> nat \<Rightarrow>
   (int \<times> nat \<times> nat \<times> nat \<times> sfs_inode \<times> 'd sfs_fs) option" where
  "dirent_search s sin name i 0 es = Some (- E_NOENT, 0, 0, es, sin, s)"
| "dirent_search s sin name i (Suc k) es = do {
     (ret, e, sin1, s1) \<leftarrow> sfs_dirent_read_nolock s sin i;
     if ret \<noteq> 0 then Some (ret, 0, 0, es, sin1, s1)
     else if de_ino e = 0 then dirent_search s1 sin1 name (i + 1) k i
     else if name = cstr (de_name e) then Some (0, de_ino e, i, es, sin1, s1)
     else dirent_search s1 sin1 name (i + 1) k es
   }"

text \<open>\<open>got\<close> is the outcome of the allocation of the entry buffer; the name has no 0 in it.\<close>

definition sfs_dirent_search_nolock ::
  "bool \<Rightarrow> 'd sfs_fs \<Rightarrow> sfs_inode \<Rightarrow> u8 list \<Rightarrow> (int \<times> nat \<times> nat \<times> nat \<times> sfs_inode \<times> 'd sfs_fs) option" where
  "sfs_dirent_search_nolock got s sin name = do {
     kassert (length name \<le> SFS_MAX_FNAME_LEN);
     if \<not> got then Some (- E_NO_MEM, 0, 0, 0, sin, s)
     else dirent_search s sin name 0 (di_blocks (din sin)) (di_blocks (din sin))
   }"

fun dirent_findino ::
  "'d sfs_fs \<Rightarrow> sfs_inode \<Rightarrow> nat \<Rightarrow> nat \<Rightarrow> nat \<Rightarrow> (int \<times> sfs_disk_entry \<times> sfs_inode \<times> 'd sfs_fs) option" where
  "dirent_findino s sin i slot 0 = Some (- E_NOENT, entry_of [], sin, s)"
| "dirent_findino s sin i slot (Suc k) = do {
     (ret, e, sin1, s1) \<leftarrow> sfs_dirent_read_nolock s sin slot;
     if ret \<noteq> 0 then Some (ret, e, sin1, s1)
     else if de_ino e = i then Some (0, e, sin1, s1)
     else dirent_findino s1 sin1 i (slot + 1) k
   }"

definition sfs_dirent_findino_nolock ::
  "'d sfs_fs \<Rightarrow> sfs_inode \<Rightarrow> nat \<Rightarrow> (int \<times> sfs_disk_entry \<times> sfs_inode \<times> 'd sfs_fs) option" where
  "sfs_dirent_findino_nolock s sin i = dirent_findino s sin i 0 (di_blocks (din sin))"

fun getdirentry_sub ::
  "'d sfs_fs \<Rightarrow> sfs_inode \<Rightarrow> nat \<Rightarrow> nat \<Rightarrow> nat \<Rightarrow> (int \<times> sfs_disk_entry \<times> sfs_inode \<times> 'd sfs_fs) option" where
  "getdirentry_sub s sin slot i 0 = Some (- E_NOENT, entry_of [], sin, s)"
| "getdirentry_sub s sin slot i (Suc k) = do {
     (ret, e, sin1, s1) \<leftarrow> sfs_dirent_read_nolock s sin i;
     if ret \<noteq> 0 then Some (ret, e, sin1, s1)
     else if de_ino e \<noteq> 0 then
       if slot = 0 then Some (0, e, sin1, s1) else getdirentry_sub s1 sin1 (slot - 1) (i + 1) k
     else getdirentry_sub s1 sin1 slot (i + 1) k
   }"

definition sfs_getdirentry_sub_nolock ::
  "'d sfs_fs \<Rightarrow> sfs_inode \<Rightarrow> nat \<Rightarrow> (int \<times> sfs_disk_entry \<times> sfs_inode \<times> 'd sfs_fs) option" where
  "sfs_getdirentry_sub_nolock s sin slot = getdirentry_sub s sin slot 0 (di_blocks (din sin))"

definition sfs_getdirentry ::
  "bool \<Rightarrow> 'd sfs_fs \<Rightarrow> sfs_inode \<Rightarrow> iobuf \<Rightarrow> (int \<times> iobuf \<times> sfs_inode \<times> 'd sfs_fs) option" where
  "sfs_getdirentry got s sin iob =
     (if \<not> got then Some (- E_NO_MEM, iob, sin, s)
      else
        let offset = io_offset iob in
        if offset < 0 \<or> offset mod 256 \<noteq> 0 then Some (- E_INVAL, iob, sin, s)
        else if nat (offset div 256) > di_blocks (din sin) then Some (- E_NOENT, iob, sin, s)
        else do {
          (ret, e, sin1, s1) \<leftarrow> sfs_getdirentry_sub_nolock s sin (nat (offset div 256));
          if ret \<noteq> 0 then Some (ret, iob, sin1, s1)
          else do {
            (ret, _, _, iob1) \<leftarrow> iobuf_move iob (de_name e) 256 True;
            Some (ret, iob1, sin1, s1)
          }
        })"

abbreviation (input) O_RDONLY :: nat where "O_RDONLY \<equiv> 0"
abbreviation (input) O_ACCMODE :: nat where "O_ACCMODE \<equiv> 3"
abbreviation (input) O_APPEND :: nat where "O_APPEND \<equiv> 0x20"

definition sfs_opendir :: "nat \<Rightarrow> int" where
  "sfs_opendir open_flags =
     (if open_flags AND O_ACCMODE \<noteq> O_RDONLY then - E_ISDIR
      else if open_flags AND O_APPEND \<noteq> 0 then - E_ISDIR
      else 0)"

definition sfs_openfile :: "nat \<Rightarrow> int" where
  "sfs_openfile open_flags = 0"

definition sfs_close :: "'d sfs_fs \<Rightarrow> sfs_inode \<Rightarrow> (int \<times> sfs_inode \<times> 'd sfs_fs) option" where
  "sfs_close s sin = sfs_fsync s sin"

end
