(* ===== verification/SfsMap.thy ===== *)
theory SfsMap
  imports SfsFile
begin

text \<open>
  What the block map of an inode means, and that the operations on it keep it consistent: \<open>fblk\<close> is the disk block of
  the \<open>i\<close>-th block of a file, \<open>file_ok\<close> says that a file owns its blocks.
\<close>

section \<open>The blocks of a file\<close>

definition ent_of :: "(nat \<Rightarrow> u8 list) \<Rightarrow> nat \<Rightarrow> nat \<Rightarrow> nat" where
  "ent_of B e k = of_le (chunk (k * 4) 4 (B e))"

definition fblk :: "(nat \<Rightarrow> u8 list) \<Rightarrow> sfs_disk_inode \<Rightarrow> nat \<Rightarrow> nat" where
  "fblk B di i =
     (if i < SFS_NDIRECT then di_direct di ! i
      else if di_indirect di = 0 then 0
      else ent_of B (di_indirect di) (i - SFS_NDIRECT))"

text \<open>The number of blocks an inode can address.\<close>

abbreviation (input) SFS_NBLKS :: nat where "SFS_NBLKS \<equiv> 1036"

text \<open>Exactly the first \<open>di_blocks\<close> entries of the map are set; the blocks they name are in use and different, and so is the
  indirect block, when there is one.\<close>

definition file_ok :: "(nat \<Rightarrow> u8 list) \<Rightarrow> nat set \<Rightarrow> nat \<Rightarrow> sfs_disk_inode \<Rightarrow> bool" where
  "file_ok B F N di \<longleftrightarrow>
     length (di_direct di) = SFS_NDIRECT \<and> di_blocks di \<le> SFS_NBLKS \<and>
     (\<forall>i < SFS_NBLKS. fblk B di i \<noteq> 0 \<longleftrightarrow> i < di_blocks di) \<and>
     (\<forall>i < di_blocks di. fblk B di i < N \<and> fblk B di i \<notin> F) \<and>
     inj_on (fblk B di) {..<di_blocks di} \<and>
     (di_indirect di \<noteq> 0 \<longrightarrow>
        di_indirect di < N \<and> di_indirect di \<notin> F \<and> di_indirect di \<notin> fblk B di ` {..<di_blocks di})"

lemma file_okD:
  assumes "file_ok B F N di"
  shows "length (di_direct di) = SFS_NDIRECT" "di_blocks di \<le> SFS_NBLKS"
    "i < SFS_NBLKS \<Longrightarrow> fblk B di i \<noteq> 0 \<longleftrightarrow> i < di_blocks di"
    "i < di_blocks di \<Longrightarrow> fblk B di i \<noteq> 0"
    "i < di_blocks di \<Longrightarrow> fblk B di i < N"
    "i < di_blocks di \<Longrightarrow> fblk B di i \<notin> F"
    "i < di_blocks di \<Longrightarrow> j < di_blocks di \<Longrightarrow> fblk B di i = fblk B di j \<longleftrightarrow> i = j"
    "di_indirect di \<noteq> 0 \<Longrightarrow> di_indirect di < N" "di_indirect di \<noteq> 0 \<Longrightarrow> di_indirect di \<notin> F"
    "di_indirect di \<noteq> 0 \<Longrightarrow> i < di_blocks di \<Longrightarrow> fblk B di i \<noteq> di_indirect di"
    "SFS_NDIRECT < di_blocks di \<Longrightarrow> di_indirect di \<noteq> 0"
proof -
  note A = assms [unfolded file_ok_def]
  show "length (di_direct di) = SFS_NDIRECT" "di_blocks di \<le> SFS_NBLKS"
    "i < SFS_NBLKS \<Longrightarrow> fblk B di i \<noteq> 0 \<longleftrightarrow> i < di_blocks di"
    "i < di_blocks di \<Longrightarrow> fblk B di i < N"
    "i < di_blocks di \<Longrightarrow> fblk B di i \<notin> F"
    "di_indirect di \<noteq> 0 \<Longrightarrow> di_indirect di < N" "di_indirect di \<noteq> 0 \<Longrightarrow> di_indirect di \<notin> F"
    using A by blast+
  show "i < di_blocks di \<Longrightarrow> fblk B di i \<noteq> 0" using A by auto
  show "i < di_blocks di \<Longrightarrow> j < di_blocks di \<Longrightarrow> fblk B di i = fblk B di j \<longleftrightarrow> i = j"
    using A by (auto simp: inj_on_eq_iff)
  show "di_indirect di \<noteq> 0 \<Longrightarrow> i < di_blocks di \<Longrightarrow> fblk B di i \<noteq> di_indirect di" using A by (metis image_eqI lessThan_iff)
  show "SFS_NDIRECT < di_blocks di \<Longrightarrow> di_indirect di \<noteq> 0"
  proof
    assume "SFS_NDIRECT < di_blocks di" "di_indirect di = 0"
    moreover then have "fblk B di 12 \<noteq> 0" using A by auto
    ultimately show False by (simp add: fblk_def)
  qed
qed

text \<open>The entries of an indirect block after one of them has been written, and of a block of zeros.\<close>

lemma ent_of_overwrite:
  assumes "length b = 4096" "j < SFS_BLK_NENTRY" "k < SFS_BLK_NENTRY" "v < 2 ^ 32"
  shows "of_le (chunk (j * 4) 4 (overwrite b (k * 4) (le_bytes 4 v))) = (if j = k then v else of_le (chunk (j * 4) 4 b))"
proof (cases "j = k")
  case True
  have "chunk (k * 4) 4 (overwrite b (k * 4) (le_bytes 4 v)) = le_bytes 4 v"
    using assms by (intro chunk_overwrite_same) simp_all
  then show ?thesis using True assms(4) by (simp only: of_le_bytes) simp
next
  case False
  then have "j * 4 + 4 \<le> k * 4 \<or> k * 4 + 4 \<le> j * 4" by linarith
  then have "chunk (j * 4) 4 (overwrite b (k * 4) (le_bytes 4 v)) = chunk (j * 4) 4 b"
    using assms by (intro chunk_overwrite_disjoint) (auto simp del: le_bytes.simps)
  then show ?thesis using False by (simp only: if_False)
qed

lemma of_le_zeros: "of_le (replicate n 0) = 0"
  by (induction n) auto

lemma ent_of_zeros: "j < SFS_BLK_NENTRY \<Longrightarrow> of_le (chunk (j * 4) 4 (replicate 4096 0)) = 0"
  by (simp add: chunk_def of_le_zeros min_def)

text \<open>The map depends on the disk only through the indirect block.\<close>

lemma fblk_cong: "di_direct di' = di_direct di \<Longrightarrow> di_indirect di' = di_indirect di \<Longrightarrow>
    (di_indirect di \<noteq> 0 \<Longrightarrow> B' (di_indirect di) = B (di_indirect di)) \<Longrightarrow> fblk B' di' i = fblk B di i"
  by (auto simp: fblk_def ent_of_def)

lemma file_ok_cong:
  assumes "file_ok B F N di" "di_direct di' = di_direct di" "di_indirect di' = di_indirect di" "di_blocks di' = di_blocks di"
    "di_indirect di \<noteq> 0 \<Longrightarrow> B' (di_indirect di) = B (di_indirect di)"
  shows "file_ok B' F N di'"
proof -
  have "fblk B' di' = fblk B di" by (intro ext fblk_cong) (use assms in auto)
  then show ?thesis using assms by (simp add: file_ok_def)
qed

section \<open>Looking a block up\<close>

context block_device begin

lemma get_sub_ok:
  assumes "fs_at B F N s" "e < N" "e \<noteq> 0" "k < SFS_BLK_NENTRY" "ent_of B e k \<noteq> 0 \<or> \<not> create"
  shows "\<exists>s'. sfs_bmap_get_sub_nolock s e k create = Some (0, e, ent_of B e k, s') \<and> fs_at B F N s'"
proof -
  obtain s1 where "sfs_rbuf s 4 e (int (k * 4)) = Some (0, chunk (k * 4) 4 (B e), s1)" "fs_at B F N s1"
    using rbuf_ok [OF assms(1-3), of "k * 4" 4] assms(4) by auto
  then show ?thesis using assms(3-5) by (simp add: sfs_bmap_get_sub_nolock_def Let_def ent_of_def)
qed

lemma get_out_ok: "fs_at B F N s \<Longrightarrow> b < N \<Longrightarrow> b \<notin> F \<Longrightarrow> bmap_get_out s sin b = Some (0, b, sin, s)"
  using inuse_ok [of B F N s b] by (auto simp: bmap_get_out_def)

lemma get_ok:
  assumes at: "fs_at B F N s" and ok: "file_ok B F N (din sin)" and i: "i < di_blocks (din sin)"
  shows "\<exists>s'. sfs_bmap_get_nolock s sin i create = Some (0, fblk B (din sin) i, sin, s') \<and> fs_at B F N s'"
proof -
  note f = file_okD [OF ok]
  show ?thesis
  proof (cases "i < SFS_NDIRECT")
    case True
    then have "di_direct (din sin) ! i = fblk B (din sin) i" by (simp add: fblk_def)
    then show ?thesis using True at get_out_ok [OF at f(5) [OF i] f(6) [OF i]] f(4) [OF i]
      by (simp add: sfs_bmap_get_nolock_def Let_def)
  next
    case False
    let ?e = "di_indirect (din sin)"
    have e: "?e < N" "?e \<noteq> 0" using f(8,11) i False f(4) [of 12] by (auto simp: fblk_def)
    have b: "fblk B (din sin) i = ent_of B ?e (i - 12)" using False e by (simp add: fblk_def)
    have k: "i - 12 < SFS_BLK_NENTRY" using i f(2) False by linarith
    obtain s1 where "sfs_bmap_get_sub_nolock s ?e (i - 12) create = Some (0, ?e, ent_of B ?e (i - 12), s1)" "fs_at B F N s1"
      using get_sub_ok [OF at e k] f(4) [OF i] b by auto
    then show ?thesis using False k e get_out_ok [of B F N s1 "fblk B (din sin) i" sin] f(5,6) [OF i] b
      by (simp add: sfs_bmap_get_nolock_def Let_def)
  qed
qed

lemma load_ok:
  assumes at: "fs_at B F N s" and ok: "file_ok B F N (din sin)" and i: "i < di_blocks (din sin)"
  shows "\<exists>s'. sfs_bmap_load_nolock s sin i = Some (0, fblk B (din sin) i, sin, s') \<and> fs_at B F N s'"
proof -
  obtain s' where "sfs_bmap_get_nolock s sin i False = Some (0, fblk B (din sin) i, sin, s')" "fs_at B F N s'"
    using get_ok [OF at ok i] by blast
  then show ?thesis using i inuse_ok [of B F N s' "fblk B (din sin) i"] file_okD(4-6) [OF ok i]
    by (auto simp: sfs_bmap_load_nolock_def Let_def)
qed

end

section \<open>Appending a block\<close>

text \<open>The number of free blocks appending takes: two when the indirect block has to be allocated as well.\<close>

definition grow_need :: "sfs_disk_inode \<Rightarrow> nat" where
  "grow_need di = (if di_blocks di = SFS_NDIRECT \<and> di_indirect di = 0 then 2 else 1)"

text \<open>What appending a block to a file means: the file gets one more block \<open>b\<close>, taken from the free blocks and filled with
  zeros; its other blocks stay, and no block that was in use is written, except the file's indirect block.\<close>

definition grown ::
  "(nat \<Rightarrow> u8 list) \<Rightarrow> nat set \<Rightarrow> nat \<Rightarrow> sfs_disk_inode \<Rightarrow> nat \<Rightarrow>
   (nat \<Rightarrow> u8 list) \<Rightarrow> nat set \<Rightarrow> sfs_disk_inode \<Rightarrow> bool" where
  "grown B F N di b B' F' di' \<longleftrightarrow>
     file_ok B' F' N di' \<and> b \<in> F \<and> B' b = replicate SFS_BLKSIZE 0 \<and>
     di_blocks di' = di_blocks di + 1 \<and> fblk B' di' (di_blocks di) = b \<and>
     (\<forall>j < di_blocks di. fblk B' di' j = fblk B di j) \<and>
     (\<forall>c. c \<notin> F \<longrightarrow> (c = di_indirect di \<longrightarrow> c = 0) \<longrightarrow> B' c = B c) \<and>
     (di_indirect di' \<noteq> di_indirect di \<longrightarrow> di_indirect di' \<in> F) \<and>
     F' = F - {b} - (if di_indirect di' = di_indirect di then {} else {di_indirect di'}) \<and>
     (di_indirect di \<noteq> 0 \<longrightarrow> di_indirect di' = di_indirect di) \<and>
     di_size di' = di_size di \<and> di_type di' = di_type di \<and> di_nlinks di' = di_nlinks di"

lemma file_ok_grow:
  assumes ok: "file_ok B F N di" and blocks: "di_blocks di < SFS_NBLKS" and F: "b \<in> F" "F \<subseteq> {0<..<N}"
    and di': "length (di_direct di') = SFS_NDIRECT" "di_blocks di' = di_blocks di + 1"
    and map: "\<And>j. j < SFS_NBLKS \<Longrightarrow> fblk B' di' j = (if j = di_blocks di then b else fblk B di j)"
    and F': "F' \<subseteq> F - {b}" and ind: "di_indirect di' = di_indirect di \<or> di_indirect di' \<in> F - {b} - F'"
  shows "file_ok B' F' N di'"
proof -
  note f = file_okD [OF ok]
  have map': "fblk B' di' j = (if j = di_blocks di then b else fblk B di j)" if "j < di_blocks di'" for j
    using map that di'(2) blocks by simp
  have "fblk B' di' i \<noteq> 0 \<longleftrightarrow> i < di_blocks di'" if "i < SFS_NBLKS" for i
    using map [OF that] f(3) [OF that] F di'(2) by auto
  moreover have "fblk B' di' i < N \<and> fblk B' di' i \<notin> F'" if "i < di_blocks di'" for i
    using map' [OF that] that di'(2) F F' f(5) [of i] f(6) [of i] by auto
  moreover have "inj_on (fblk B' di') {..<di_blocks di'}"
  proof (rule inj_onI)
    fix i j assume ij: "i \<in> {..<di_blocks di'}" "j \<in> {..<di_blocks di'}" "fblk B' di' i = fblk B' di' j"
    have "fblk B di k \<noteq> b" if "k < di_blocks di" for k using f(6) [OF that] F(1) by metis
    note nb = this
    have e: "(if i = di_blocks di then b else fblk B di i) = (if j = di_blocks di then b else fblk B di j)"
      using ij map' [of i] map' [of j] by simp
    have lt: "i \<noteq> di_blocks di \<Longrightarrow> i < di_blocks di" "j \<noteq> di_blocks di \<Longrightarrow> j < di_blocks di" using ij di'(2) by auto
    show "i = j"
    proof (cases "i = di_blocks di"; cases "j = di_blocks di")
      assume "i \<noteq> di_blocks di" "j \<noteq> di_blocks di"
      then show ?thesis using e f(7) [OF lt] by simp
    qed (use e nb [of i] nb [of j] lt in auto)
  qed
  moreover have "di_indirect di' < N \<and> di_indirect di' \<notin> F' \<and> di_indirect di' \<notin> fblk B' di' ` {..<di_blocks di'}"
    if "di_indirect di' \<noteq> 0"
  proof -
    have "fblk B' di' i \<noteq> di_indirect di'" if "i < di_blocks di'" for i
      using map' [OF that] that di'(2) ind F(1) f(6) [of i] f(9) f(10) [of i] \<open>di_indirect di' \<noteq> 0\<close>
      by (auto simp: less_Suc_eq)
    then have "di_indirect di' \<notin> fblk B' di' ` {..<di_blocks di'}" by force
    then show ?thesis using ind f(8,9) F F' that by auto
  qed
  ultimately show ?thesis using di' blocks by (auto simp: file_ok_def)
qed

context block_device begin

lemma sub_alloc_ok:
  assumes at: "fs_at B F N s" and F: "F \<noteq> {}" and e: "e < N" "e \<noteq> 0" "e \<notin> F" and k: "k < SFS_BLK_NENTRY"
  shows "\<exists>s'. sub_alloc s entp e (k * 4) = Some (0, e, Min F, s') \<and>
    fs_at (B(Min F := replicate 4096 0, e := overwrite (B e) (k * 4) (le_bytes 4 (Min F)))) (F - {Min F}) N s'"
proof -
  let ?B = "B(Min F := replicate 4096 0)"
  obtain s1 where s1: "sfs_block_alloc s = Some (0, Min F, s1)" "fs_at ?B (F - {Min F}) N s1"
    using alloc_ok [OF at F] by blast
  have "e \<noteq> Min F" using Min_in [OF _ F] at e(3) finite_subset [of F "{0<..<N}"] by (auto simp: sfs_at_def)
  then have "?B e = B e" by simp
  then obtain s2 where "sfs_wbuf s1 (le_bytes 4 (Min F)) e (int (k * 4)) = Some (0, s2)"
    "fs_at (?B(e := overwrite (B e) (k * 4) (le_bytes 4 (Min F)))) (F - {Min F}) N s2"
    using wbuf_ok [OF s1(2) e(1,2), of "k * 4" "le_bytes 4 (Min F)"] k by auto
  then show ?thesis using s1 by (simp add: sub_alloc_def)
qed

lemma sub_alloc_none:
  assumes "fs_at B {} N s" "e < N" "e \<noteq> 0"
  shows "\<exists>s'. sub_alloc s entp e off = Some (- E_NO_MEM, entp, 0, s') \<and> fs_at B (if e = entp then {} else {e}) N s'"
  using alloc_none [OF assms(1)] free_ok [OF assms] assms(1) by (auto simp: sub_alloc_def sub_cleanup_def)

text \<open>Appending to the direct blocks, to an existing indirect block, and with a new indirect block.\<close>

lemma grow_direct:
  assumes at: "fs_at B F N s" and ok: "file_ok B F N (din sin)" and i: "di_blocks (din sin) < SFS_NDIRECT" and F: "F \<noteq> {}"
  defines "di' \<equiv> (din sin)\<lparr>di_direct := (di_direct (din sin))[di_blocks (din sin) := Min F],
    di_blocks := di_blocks (din sin) + 1\<rparr>"
  shows "\<exists>B' s'. sfs_bmap_load_nolock s sin (di_blocks (din sin)) = Some (0, Min F, sin\<lparr>din := di', dirty := True\<rparr>, s') \<and>
    fs_at B' (F - {Min F}) N s' \<and> grown B F N (din sin) (Min F) B' (F - {Min F}) di'"
proof -
  let ?n = "di_blocks (din sin)" and ?B = "B(Min F := replicate 4096 0)"
  note f = file_okD [OF ok]
  have FN: "finite F" "F \<subseteq> {0<..<N}" using at finite_subset [of F "{0<..<N}"] by (auto simp: sfs_at_def)
  have m: "Min F \<in> F" "Min F < N" "Min F \<noteq> 0" using Min_in [OF FN(1) F] FN(2) by auto
  have ind: "di_indirect (din sin) \<noteq> Min F" using f(9) m by metis
  obtain s1 where s1: "sfs_block_alloc s = Some (0, Min F, s1)" "fs_at ?B (F - {Min F}) N s1" using alloc_ok [OF at F] by blast
  have z: "di_direct (din sin) ! ?n = 0" using f(3) [of ?n] i by (simp add: fblk_def)
  have "sfs_bmap_load_nolock s sin ?n = Some (0, Min F, sin\<lparr>din := di', dirty := True\<rparr>, s1)"
    using i z s1(1) get_out_ok [OF s1(2) m(2)] inuse_ok [OF s1(2) m(2,3)] m
    by (simp add: sfs_bmap_load_nolock_def sfs_bmap_get_nolock_def Let_def di'_def)
  moreover have "grown B F N (din sin) (Min F) ?B (F - {Min F}) di'"
  proof -
    have map: "fblk ?B di' j = (if j = ?n then Min F else fblk B (din sin) j)" if "j < SFS_NBLKS" for j
      using i f(1) ind by (auto simp: di'_def fblk_def ent_of_def)
    have "file_ok ?B (F - {Min F}) N di'"
      by (rule file_ok_grow [OF ok _ m(1) FN(2) _ _ map]) (use i f(1) in \<open>auto simp: di'_def\<close>)
    then show ?thesis using map i m by (auto simp: grown_def di'_def)
  qed
  ultimately show ?thesis using s1(2) by blast
qed

lemma grow_indirect:
  assumes at: "fs_at B F N s" and ok: "file_ok B F N (din sin)" and i: "SFS_NDIRECT \<le> di_blocks (din sin)"
    "di_blocks (din sin) < SFS_NBLKS" and F: "F \<noteq> {}" and e: "di_indirect (din sin) \<noteq> 0"
  defines "di' \<equiv> (din sin)\<lparr>di_blocks := di_blocks (din sin) + 1\<rparr>"
  shows "\<exists>B' s'. sfs_bmap_load_nolock s sin (di_blocks (din sin)) = Some (0, Min F, sin\<lparr>din := di'\<rparr>, s') \<and>
    fs_at B' (F - {Min F}) N s' \<and> grown B F N (din sin) (Min F) B' (F - {Min F}) di'"
proof -
  let ?n = "di_blocks (din sin)" and ?e = "di_indirect (din sin)"
  let ?k = "?n - 12"
  let ?B = "B(Min F := replicate 4096 0, ?e := overwrite (B ?e) (?k * 4) (le_bytes 4 (Min F)))"
  note f = file_okD [OF ok]
  have FN: "finite F" "F \<subseteq> {0<..<N}" "N \<le> 2 ^ 20" using at finite_subset [of F "{0<..<N}"] by (auto simp: sfs_at_def)
  have m: "Min F \<in> F" "Min F < N" "Min F \<noteq> 0" using Min_in [OF FN(1) F] FN(2) by auto
  have em: "?e \<noteq> Min F" using f(9) e m by metis
  have k: "?k < SFS_BLK_NENTRY" using i by linarith
  have z: "ent_of B ?e ?k = 0" using f(3) [of ?n] i e by (simp add: fblk_def)
  obtain s0 where s0: "sfs_rbuf s 4 ?e (int (?k * 4)) = Some (0, chunk (?k * 4) 4 (B ?e), s0)" "fs_at B F N s0"
    using rbuf_ok [OF at f(8) [OF e] e, of "?k * 4" 4] k by auto
  obtain s1 where s1: "sub_alloc s0 ?e ?e (?k * 4) = Some (0, ?e, Min F, s1)" "fs_at ?B (F - {Min F}) N s1"
    using sub_alloc_ok [OF s0(2) F f(8) [OF e] e f(9) [OF e] k] by blast
  have "sfs_bmap_get_sub_nolock s ?e ?k True = Some (0, ?e, Min F, s1)"
    using k e s0(1) s1(1) z by (simp add: sfs_bmap_get_sub_nolock_def ent_of_def Let_def)
  then have "sfs_bmap_load_nolock s sin ?n = Some (0, Min F, sin\<lparr>din := di'\<rparr>, s1)"
    using i k get_out_ok [OF s1(2) m(2)] inuse_ok [OF s1(2) m(2,3)] m
    by (simp add: sfs_bmap_load_nolock_def sfs_bmap_get_nolock_def Let_def di'_def)
  moreover have "grown B F N (din sin) (Min F) ?B (F - {Min F}) di'"
  proof -
    have "ent_of ?B ?e j = (if j = ?k then Min F else ent_of B ?e j)" if "j < SFS_BLK_NENTRY" for j
      using ent_of_overwrite [OF at_length [OF at] that k, of "Min F" ?e] m(2) FN(3) by (simp add: ent_of_def)
    then have map: "fblk ?B di' j = (if j = ?n then Min F else fblk B (din sin) j)" if "j < SFS_NBLKS" for j
      using that i e by (auto simp: di'_def fblk_def)
    have "file_ok ?B (F - {Min F}) N di'"
      by (rule file_ok_grow [OF ok _ m(1) FN(2) _ _ map]) (use i f(1) in \<open>auto simp: di'_def\<close>)
    then show ?thesis using map i m em e by (auto simp: grown_def di'_def)
  qed
  ultimately show ?thesis using s1(2) by blast
qed

lemma grow_new_indirect:
  assumes at: "fs_at B F N s" and ok: "file_ok B F N (din sin)" and i: "di_blocks (din sin) = SFS_NDIRECT"
    and F: "2 \<le> card F" and e: "di_indirect (din sin) = 0"
  defines "di' \<equiv> (din sin)\<lparr>di_indirect := Min F, di_blocks := di_blocks (din sin) + 1\<rparr>"
  shows "\<exists>B' b s'. sfs_bmap_load_nolock s sin (di_blocks (din sin)) = Some (0, b, sin\<lparr>din := di', dirty := True\<rparr>, s') \<and>
    fs_at B' (F - {b} - {Min F}) N s' \<and> grown B F N (din sin) b B' (F - {b} - {Min F}) di'"
proof -
  let ?e = "Min F" and ?F1 = "F - {Min F}"
  let ?b = "Min ?F1" and ?B1 = "B(Min F := replicate 4096 0)"
  let ?B = "?B1(?b := replicate 4096 0, ?e := overwrite (?B1 ?e) (0 * 4) (le_bytes 4 ?b))"
  note f = file_okD [OF ok]
  have FN: "finite F" "F \<subseteq> {0<..<N}" "N \<le> 2 ^ 20" using at finite_subset [of F "{0<..<N}"] by (auto simp: sfs_at_def)
  have F0: "F \<noteq> {}" using F by auto
  have m: "?e \<in> F" "?e < N" "?e \<noteq> 0" using Min_in [OF FN(1) F0] FN(2) by auto
  have "card ?F1 = card F - 1" using FN(1) m(1) by simp
  then have "card ?F1 \<noteq> 0" using F by linarith
  then have F1: "?F1 \<noteq> {}" by (metis card.empty)
  have b: "?b \<in> ?F1" "?b \<in> F" "?b < N" "?b \<noteq> 0" "?b \<noteq> ?e" using Min_in [OF _ F1] FN by auto
  obtain s1 where s1: "sfs_block_alloc s = Some (0, ?e, s1)" "fs_at ?B1 ?F1 N s1" using alloc_ok [OF at F0] by blast
  obtain s2 where s2: "sub_alloc s1 0 ?e (0 * 4) = Some (0, ?e, ?b, s2)" "fs_at ?B (?F1 - {?b}) N s2"
    using sub_alloc_ok [OF s1(2) F1 m(2,3), of 0 0] by auto
  have s2': "fs_at ?B (F - {?b} - {?e}) N s2" using s2(2) by (simp add: Diff_insert2 [symmetric] insert_commute)
  have "sfs_bmap_get_sub_nolock s 0 0 True = Some (0, ?e, ?b, s2)"
    using s1(1) s2(1) by (simp add: sfs_bmap_get_sub_nolock_def Let_def)
  then have "sfs_bmap_load_nolock s sin SFS_NDIRECT = Some (0, ?b, sin\<lparr>din := di', dirty := True\<rparr>, s2)"
    using i e m(3) get_out_ok [OF s2' b(3)] inuse_ok [OF s2' b(3,4)] b
    by (simp add: sfs_bmap_load_nolock_def sfs_bmap_get_nolock_def Let_def di'_def)
  moreover have "grown B F N (din sin) ?b ?B (F - {?b} - {?e}) di'"
  proof -
    have "ent_of ?B ?e j = (if j = 0 then ?b else 0)" if "j < SFS_BLK_NENTRY" for j
      using ent_of_overwrite [of "replicate 4096 0" j 0 ?b] ent_of_zeros [OF that] that b(3) FN(3) by (simp add: ent_of_def)
    moreover have "fblk B (din sin) j = 0" if "12 \<le> j" for j using that e by (simp add: fblk_def)
    ultimately have map: "fblk ?B di' j = (if j = di_blocks (din sin) then ?b else fblk B (din sin) j)" if "j < SFS_NBLKS" for j
      using that i e m(3) by (auto simp: di'_def fblk_def)
    have "file_ok ?B (F - {?b} - {?e}) N di'"
      by (rule file_ok_grow [OF ok _ b(2) FN(2) _ _ map]) (use i f(1) m b in \<open>auto simp: di'_def\<close>)
    then show ?thesis using map i m b e by (auto simp: grown_def di'_def)
  qed
  ultimately show ?thesis using s2' i by auto
qed

end


text \<open>Appending in every case, and what happens when the disk is full.\<close>

lemma grow_need_card:
  assumes "grow_need di \<le> card F"
  shows "F \<noteq> {}"
  using assms by (auto simp: grow_need_def split: if_splits)

context block_device begin

lemma grow_ok:
  assumes at: "fs_at B F N s" and ok: "file_ok B F N (din sin)" and i: "di_blocks (din sin) < SFS_NBLKS"
    and F: "grow_need (din sin) \<le> card F"
  shows "\<exists>B' F' di' b s'. sfs_bmap_load_nolock s sin (di_blocks (din sin)) =
      Some (0, b, sin\<lparr>din := di', dirty := dirty sin \<or> di_blocks (din sin) < SFS_NDIRECT \<or> di_indirect (din sin) = 0\<rparr>, s') \<and>
    fs_at B' F' N s' \<and> grown B F N (din sin) b B' F' di'"
proof -
  note F0 = grow_need_card [OF F]
  consider "di_blocks (din sin) < SFS_NDIRECT" | "SFS_NDIRECT \<le> di_blocks (din sin)" "di_indirect (din sin) \<noteq> 0"
    | "di_blocks (din sin) = SFS_NDIRECT" "di_indirect (din sin) = 0"
    using file_okD(11) [OF ok] by force
  then show ?thesis
  proof cases
    case 1
    then have d: "(dirty sin \<or> di_blocks (din sin) < SFS_NDIRECT \<or> di_indirect (din sin) = 0) = True" by simp
    show ?thesis unfolding d using grow_direct [OF at ok 1 F0] by blast
  next
    case 2
    then have d: "(dirty sin \<or> di_blocks (din sin) < SFS_NDIRECT \<or> di_indirect (din sin) = 0) = dirty sin" by simp
    have e: "sin\<lparr>din := di', dirty := dirty sin\<rparr> = sin\<lparr>din := di'\<rparr>" for di' by simp
    show ?thesis unfolding d e using grow_indirect [OF at ok 2(1) i F0 2(2)] by blast
  next
    case 3
    then have d: "(dirty sin \<or> di_blocks (din sin) < SFS_NDIRECT \<or> di_indirect (din sin) = 0) = True" by simp
    have "2 \<le> card F" using F 3 by (simp add: grow_need_def)
    then show ?thesis unfolding d using grow_new_indirect [OF at ok 3(1) _ 3(2)] by blast
  qed
qed

lemma grow_full:
  assumes at: "fs_at B F N s" and ok: "file_ok B F N (din sin)" and i: "di_blocks (din sin) < SFS_NBLKS"
    and F: "card F < grow_need (din sin)"
  shows "\<exists>B' s'. sfs_bmap_load_nolock s sin (di_blocks (din sin)) = Some (- E_NO_MEM, 0, sin, s') \<and>
    fs_at B' F N s' \<and> (\<forall>c. c \<notin> F \<longrightarrow> B' c = B c)"
proof -
  let ?n = "di_blocks (din sin)" and ?e = "di_indirect (din sin)"
  note f = file_okD [OF ok]
  have FN: "finite F" "F \<subseteq> {0<..<N}" using at finite_subset [of F "{0<..<N}"] by (auto simp: sfs_at_def)
  consider "?n < SFS_NDIRECT" "F = {}" | "SFS_NDIRECT \<le> ?n" "?e \<noteq> 0" "F = {}"
    | "?n = SFS_NDIRECT" "?e = 0" "F = {}" | "?n = SFS_NDIRECT" "?e = 0" "card F = 1"
  proof (cases "?n = SFS_NDIRECT \<and> ?e = 0")
    case True
    then have "card F = 0 \<or> card F = 1" using F by (auto simp: grow_need_def)
    then show ?thesis using True that(3,4) FN(1) by auto
  next
    case False
    then have "F = {}" using F FN(1) by (simp add: grow_need_def split: if_splits)
    then show ?thesis using False that(1,2) f(11) by (metis le_neq_implies_less linorder_not_less)
  qed
  then show ?thesis
  proof cases
    case 1
    have z: "di_direct (din sin) ! ?n = 0" using f(3) [of ?n] 1 by (simp add: fblk_def)
    then show ?thesis using 1 alloc_none [of B N s] at
      by (auto simp: sfs_bmap_load_nolock_def sfs_bmap_get_nolock_def Let_def)
  next
    case 2
    have k: "?n - 12 < SFS_BLK_NENTRY" using i 2 by linarith
    have z: "ent_of B ?e (?n - 12) = 0" using f(3) [of ?n] i 2 by (simp add: fblk_def)
    obtain s0 where s0: "sfs_rbuf s 4 ?e (int ((?n - 12) * 4)) = Some (0, chunk ((?n - 12) * 4) 4 (B ?e), s0)" "fs_at B F N s0"
      using rbuf_ok [OF at f(8) [OF 2(2)] 2(2), of "(?n - 12) * 4" 4] k by auto
    obtain s1 where "sub_alloc s0 ?e ?e ((?n - 12) * 4) = Some (- E_NO_MEM, ?e, 0, s1)" "fs_at B F N s1"
      using sub_alloc_none [of B N s0 ?e ?e] s0(2) 2 f(8) [OF 2(2)] by auto
    then have "sfs_bmap_get_sub_nolock s ?e (?n - 12) True = Some (- E_NO_MEM, ?e, 0, s1)" "fs_at B F N s1"
      using k 2(2) s0(1) z by (simp_all add: sfs_bmap_get_sub_nolock_def ent_of_def Let_def)
    then show ?thesis using 2 k by (auto simp: sfs_bmap_load_nolock_def sfs_bmap_get_nolock_def Let_def)
  next
    case 3
    then show ?thesis using alloc_none [of B N s] at
      by (auto simp: sfs_bmap_load_nolock_def sfs_bmap_get_nolock_def sfs_bmap_get_sub_nolock_def Let_def)
  next
    case 4
    then obtain e where e: "F = {e}" by (auto simp: card_1_singleton_iff)
    then have eN: "e < N" "e \<noteq> 0" using FN by auto
    obtain s1 where s1: "sfs_block_alloc s = Some (0, e, s1)" "fs_at (B(e := replicate 4096 0)) {} N s1"
      using alloc_ok [OF at] e by auto
    obtain s2 where "sub_alloc s1 0 e 0 = Some (- E_NO_MEM, 0, 0, s2)" "fs_at (B(e := replicate 4096 0)) {e} N s2"
      using sub_alloc_none [OF s1(2) eN, of 0 0] eN by auto
    then show ?thesis using 4 s1 e
      by (auto simp: sfs_bmap_load_nolock_def sfs_bmap_get_nolock_def sfs_bmap_get_sub_nolock_def Let_def)
  qed
qed

end

section \<open>Releasing the last block\<close>

definition shrunk ::
  "(nat \<Rightarrow> u8 list) \<Rightarrow> nat set \<Rightarrow> nat \<Rightarrow> sfs_disk_inode \<Rightarrow> (nat \<Rightarrow> u8 list) \<Rightarrow> nat set \<Rightarrow> sfs_disk_inode \<Rightarrow> bool" where
  "shrunk B F N di B' F' di' \<longleftrightarrow>
     file_ok B' F' N di' \<and> di_blocks di = di_blocks di' + 1 \<and> F' = insert (fblk B di (di_blocks di')) F \<and>
     (\<forall>j < di_blocks di'. fblk B' di' j = fblk B di j) \<and>
     (\<forall>c. (c = di_indirect di \<longrightarrow> c = 0) \<longrightarrow> B' c = B c) \<and> di_indirect di' = di_indirect di \<and>
     di_size di' = di_size di \<and> di_type di' = di_type di \<and> di_nlinks di' = di_nlinks di"

lemma file_ok_shrink:
  assumes ok: "file_ok B F N di" and di': "length (di_direct di') = SFS_NDIRECT" "di_blocks di = di_blocks di' + 1"
    "di_indirect di' = di_indirect di"
    and map: "\<And>j. j < SFS_NBLKS \<Longrightarrow> fblk B' di' j = (if j = di_blocks di' then 0 else fblk B di j)"
  shows "file_ok B' (insert (fblk B di (di_blocks di')) F) N di'"
proof -
  note f = file_okD [OF ok]
  have map': "fblk B' di' j = fblk B di j" if "j < di_blocks di'" for j using map [of j] that di'(2) f(2) by simp
  have "fblk B' di' i \<noteq> 0 \<longleftrightarrow> i < di_blocks di'" if "i < SFS_NBLKS" for i
    using map [OF that] f(3) [OF that] di'(2) by auto
  moreover have "fblk B' di' i < N \<and> fblk B' di' i \<notin> insert (fblk B di (di_blocks di')) F" if "i < di_blocks di'" for i
    using map' [OF that] that di'(2) f(5) [of i] f(6) [of i] f(7) [of i "di_blocks di'"] by simp
  moreover have "inj_on (fblk B' di') {..<di_blocks di'}"
    using map' f(7) di'(2) by (intro inj_onI) simp
  moreover have "di_indirect di' < N \<and> di_indirect di' \<notin> insert (fblk B di (di_blocks di')) F \<and>
      di_indirect di' \<notin> fblk B' di' ` {..<di_blocks di'}" if "di_indirect di' \<noteq> 0"
  proof -
    have "fblk B' di' j \<noteq> di_indirect di'" if "j < di_blocks di'" for j
      using map' [OF that] that f(10) [of j] \<open>di_indirect di' \<noteq> 0\<close> di'(2,3) by simp
    then have "di_indirect di' \<notin> fblk B' di' ` {..<di_blocks di'}" by force
    then show ?thesis using that f(8,9) f(10) [of "di_blocks di'"] di'(2,3) by simp
  qed
  ultimately show ?thesis using di' f(2) by (auto simp: file_ok_def)
qed

context block_device begin

lemma shrink_ok:
  assumes at: "fs_at B F N s" and ok: "file_ok B F N (din sin)" and n: "di_blocks (din sin) = Suc n"
  shows "\<exists>B' di' s'. sfs_bmap_truncate_nolock s sin = Some (0, sin\<lparr>din := di', dirty := True\<rparr>, s') \<and>
    fs_at B' (insert (fblk B (din sin) n) F) N s' \<and> shrunk B F N (din sin) B' (insert (fblk B (din sin) n) F) di'"
proof -
  let ?b = "fblk B (din sin) n" and ?e = "di_indirect (din sin)"
  note f = file_okD [OF ok]
  have b: "?b < N" "?b \<noteq> 0" "?b \<notin> F" using f(4-6) [of n] n by auto
  show ?thesis
  proof (cases "n < SFS_NDIRECT")
    case True
    let ?di = "(din sin)\<lparr>di_direct := (di_direct (din sin))[n := 0], di_blocks := n\<rparr>"
    have bd: "di_direct (din sin) ! n = ?b" using True by (simp add: fblk_def)
    obtain s' where "sfs_block_free s ?b = Some s'" "fs_at B (insert ?b F) N s'" using free_ok [OF at b] by blast
    then have "sfs_bmap_truncate_nolock s sin = Some (0, sin\<lparr>din := ?di, dirty := True\<rparr>, s')" "fs_at B (insert ?b F) N s'"
      using n True b(2) bd by (simp_all add: sfs_bmap_truncate_nolock_def sfs_bmap_free_nolock_def Let_def)
    moreover have "shrunk B F N (din sin) B (insert ?b F) ?di"
    proof -
      have map: "fblk B ?di j = (if j = n then 0 else fblk B (din sin) j)" if "j < SFS_NBLKS" for j
        using True f(1) by (auto simp: fblk_def)
      have "file_ok B (insert ?b F) N ?di" using file_ok_shrink [OF ok, of ?di B] map f(1) n by simp
      then show ?thesis using map f(2) n by (auto simp: shrunk_def)
    qed
    ultimately show ?thesis by blast
  next
    case False
    let ?di = "(din sin)\<lparr>di_blocks := n\<rparr>"
    let ?k = "n - 12"
    let ?B = "B(?e := overwrite (B ?e) (?k * 4) (le_bytes 4 0))"
    have k: "?k < SFS_BLK_NENTRY" using f(2) n False by linarith
    have e: "?e \<noteq> 0" using b(2) False by (simp add: fblk_def split: if_splits)
    have be: "ent_of B ?e ?k = ?b" using False e by (simp add: fblk_def)
    obtain s1 where s1: "sfs_rbuf s 4 ?e (int (?k * 4)) = Some (0, chunk (?k * 4) 4 (B ?e), s1)" "fs_at B F N s1"
      using rbuf_ok [OF at f(8) [OF e] e, of "?k * 4" 4] k by auto
    obtain s2 where s2: "sfs_wbuf s1 (le_bytes 4 0) ?e (int (?k * 4)) = Some (0, s2)" "fs_at ?B F N s2"
      using wbuf_ok [OF s1(2) f(8) [OF e] e, of "?k * 4" "le_bytes 4 0"] k by auto
    obtain s3 where s3: "sfs_block_free s2 ?b = Some s3" "fs_at ?B (insert ?b F) N s3" using free_ok [OF s2(2) b] by blast
    have "sfs_bmap_free_sub_nolock s ?e ?k = Some (0, s3)"
      using s1(1) s2(1) s3(1) k b(2) be inuse_ok [OF at f(8) [OF e] e] f(9) [OF e]
      by (simp add: sfs_bmap_free_sub_nolock_def ent_of_def Let_def del: le_bytes.simps)
    then have "sfs_bmap_truncate_nolock s sin = Some (0, sin\<lparr>din := ?di, dirty := True\<rparr>, s3)"
      using n False k e by (simp add: sfs_bmap_truncate_nolock_def sfs_bmap_free_nolock_def Let_def)
    moreover have "shrunk B F N (din sin) ?B (insert ?b F) ?di"
    proof -
      have "ent_of ?B ?e j = (if j = ?k then 0 else ent_of B ?e j)" if "j < SFS_BLK_NENTRY" for j
        using ent_of_overwrite [OF at_length [OF at] that k, of 0 ?e] by (simp add: ent_of_def del: le_bytes.simps)
      then have map: "fblk ?B ?di j = (if j = n then 0 else fblk B (din sin) j)" if "j < SFS_NBLKS" for j
        using that False e by (auto simp: fblk_def)
      have "file_ok ?B (insert ?b F) N ?di" using file_ok_shrink [OF ok, of ?di ?B] map f(1) n by simp
      then show ?thesis using map f(2) n e by (auto simp: shrunk_def)
    qed
    ultimately show ?thesis using s3(2) by blast
  qed
qed

end

end
