(* ===== verification/SfsRw.thy ===== *)
theory SfsRw
  imports SfsMap
begin

text \<open>
  Reading, writing and resizing a file, against an abstract file: the content of a file is a function from byte positions
  (zero beyond the allocated blocks), and \<^verbatim>\<open>sfs_io_nolock\<close> and \<^verbatim>\<open>sfs_truncfile\<close> are proved to read and write memory of that
  kind. \<open>same_space\<close> says that an operation on one file neither loses blocks nor touches the blocks of others.
\<close>

section \<open>The content of a file\<close>

definition fcontent :: "(nat \<Rightarrow> u8 list) \<Rightarrow> sfs_disk_inode \<Rightarrow> nat \<Rightarrow> u8" where
  "fcontent B di p =
     (if p div SFS_BLKSIZE < di_blocks di then B (fblk B di (p div SFS_BLKSIZE)) ! (p mod SFS_BLKSIZE) else 0)"

definition owned :: "(nat \<Rightarrow> u8 list) \<Rightarrow> sfs_disk_inode \<Rightarrow> nat set" where
  "owned B di = fblk B di ` {..<di_blocks di} \<union> (if di_indirect di = 0 then {} else {di_indirect di})"

definition same_space ::
  "(nat \<Rightarrow> u8 list) \<Rightarrow> nat set \<Rightarrow> sfs_disk_inode \<Rightarrow> (nat \<Rightarrow> u8 list) \<Rightarrow> nat set \<Rightarrow> sfs_disk_inode \<Rightarrow> bool" where
  "same_space B F di B' F' di' \<longleftrightarrow>
     owned B' di' \<union> F' = owned B di \<union> F \<and> (\<forall>c. c \<notin> owned B di \<union> F \<longrightarrow> B' c = B c)"

lemma same_space_refl [simp]: "same_space B F di B F di"
  by (simp add: same_space_def)

lemma same_space_trans:
  "same_space B F di B' F' di' \<Longrightarrow> same_space B' F' di' B'' F'' di'' \<Longrightarrow> same_space B F di B'' F'' di''"
  unfolding same_space_def by metis

text \<open>A step of an operation on one file, with respect to everything except its content.\<close>

definition fstep ::
  "nat \<Rightarrow> (nat \<Rightarrow> u8 list) \<Rightarrow> nat set \<Rightarrow> sfs_inode \<Rightarrow> (nat \<Rightarrow> u8 list) \<Rightarrow> nat set \<Rightarrow> sfs_inode \<Rightarrow> bool" where
  "fstep N B F sin B' F' sin' \<longleftrightarrow>
     file_ok B' F' N (din sin') \<and> same_space B F (din sin) B' F' (din sin') \<and>
     di_size (din sin') = di_size (din sin) \<and> di_type (din sin') = di_type (din sin) \<and>
     di_nlinks (din sin') = di_nlinks (din sin) \<and> ino sin' = ino sin \<and> reclaim_count sin' = reclaim_count sin \<and>
     (dirty sin \<longrightarrow> dirty sin')"

lemma fstep_refl: "file_ok B F N (din sin) \<Longrightarrow> fstep N B F sin B F sin"
  by (simp add: fstep_def)

lemma fstep_trans:
  "fstep N B F sin B' F' sin' \<Longrightarrow> fstep N B' F' sin' B'' F'' sin'' \<Longrightarrow> fstep N B F sin B'' F'' sin''"
  unfolding fstep_def using same_space_trans by metis

section \<open>The block operations on contents\<close>

lemma grown_content:
  assumes "file_ok B F N di" "grown B F N di b B' F' di'"
  shows "fcontent B' di' = fcontent B di"
proof
  fix p
  note g = assms(2) [unfolded grown_def]
  let ?i = "p div SFS_BLKSIZE"
  consider "?i < di_blocks di" | "?i = di_blocks di" | "di_blocks di < ?i" by linarith
  then show "fcontent B' di' p = fcontent B di p"
  proof cases
    case 1
    have "fblk B di ?i \<noteq> di_indirect di"
      using file_okD(10) [OF assms(1) _ 1] file_okD(4) [OF assms(1) 1] by metis
    then have "B' (fblk B di ?i) = B (fblk B di ?i)" using g file_okD(6) [OF assms(1) 1] by blast
    then show ?thesis using 1 g by (simp add: fcontent_def)
  next
    case 2
    then have "fblk B' di' ?i = b" "B' b = replicate SFS_BLKSIZE 0" using g by simp_all
    then show ?thesis using 2 g by (simp add: fcontent_def)
  next
    case 3
    then show ?thesis using g by (simp add: fcontent_def)
  qed
qed

lemma grown_space:
  assumes "file_ok B F N di" "grown B F N di b B' F' di'" "F \<subseteq> {0<..<N}"
  shows "same_space B F di B' F' di'"
proof -
  note g = assms(2) [unfolded grown_def]
  have img: "fblk B' di' ` {..<di_blocks di'} = insert b (fblk B di ` {..<di_blocks di})"
    using g by (auto simp: lessThan_Suc image_iff)
  have "owned B' di' \<union> F' = owned B di \<union> F"
  proof (cases "di_indirect di' = di_indirect di")
    case True
    then show ?thesis using g img by (auto simp: owned_def)
  next
    case False
    then have i: "di_indirect di = 0" "F' = F - {b} - {di_indirect di'}" using g by auto
    have "file_ok B' F' N di'" using g by blast
    moreover have "di_indirect di' \<noteq> 0" "di_blocks di < di_blocks di'" "fblk B' di' (di_blocks di) = b" using g False i by simp_all
    ultimately have "di_indirect di' \<noteq> b" using file_okD(10) [of B' F' N di' "di_blocks di"] by simp
    moreover have "di_indirect di' \<in> F" "di_indirect di' \<noteq> 0" "b \<in> F" using g False i by auto
    ultimately show ?thesis unfolding owned_def img i(2) by (simp add: i(1)) blast
  qed
  moreover have "B' c = B c" if "c \<notin> owned B di \<union> F" for c
  proof -
    have "c \<notin> F" "c = di_indirect di \<longrightarrow> c = 0" using that by (auto simp: owned_def)
    then show ?thesis using g by blast
  qed
  ultimately show ?thesis by (simp add: same_space_def)
qed

lemma shrunk_content:
  assumes "file_ok B F N di" "shrunk B F N di B' F' di'"
  shows "fcontent B' di' p = (if p div SFS_BLKSIZE < di_blocks di' then fcontent B di p else 0)"
proof -
  note g = assms(2) [unfolded shrunk_def]
  let ?i = "p div SFS_BLKSIZE"
  show ?thesis
  proof (cases "?i < di_blocks di'")
    case True
    then have i: "?i < di_blocks di" using g by simp
    have "fblk B di ?i = di_indirect di \<longrightarrow> fblk B di ?i = 0"
      using file_okD(10) [OF assms(1) _ i] by auto
    then have "B' (fblk B di ?i) = B (fblk B di ?i)" using g by blast
    then show ?thesis using True i g by (simp add: fcontent_def)
  qed (simp add: fcontent_def)
qed

lemma shrunk_space:
  assumes "file_ok B F N di" "shrunk B F N di B' F' di'"
  shows "same_space B F di B' F' di'"
proof -
  note g = assms(2) [unfolded shrunk_def]
  have img: "fblk B di ` {..<di_blocks di} = insert (fblk B di (di_blocks di')) (fblk B' di' ` {..<di_blocks di'})"
    using g by (auto simp: lessThan_Suc image_iff)
  have "owned B' di' \<union> F' = owned B di \<union> F" using g unfolding owned_def img by auto
  moreover have "B' c = B c" if "c \<notin> owned B di \<union> F" for c
  proof -
    have "c = di_indirect di \<longrightarrow> c = 0" using that by (auto simp: owned_def)
    then show ?thesis using g by blast
  qed
  ultimately show ?thesis by (simp add: same_space_def)
qed

lemma chunk_content:
  assumes "i < di_blocks di" "off + n \<le> SFS_BLKSIZE" "length (B (fblk B di i)) = SFS_BLKSIZE"
  shows "chunk off n (B (fblk B di i)) = mem_read (fcontent B di) (i * SFS_BLKSIZE + off) n"
proof (rule nth_equalityI)
  fix k assume "k < length (chunk off n (B (fblk B di i)))"
  then have k: "k < n" "off + k < 4096" using assms by simp_all
  have d: "(i * 4096 + (off + k)) div 4096 = i" "(i * 4096 + (off + k)) mod 4096 = off + k" using k(2) by simp_all
  show "chunk off n (B (fblk B di i)) ! k = mem_read (fcontent B di) (i * SFS_BLKSIZE + off) n ! k"
    using k assms by (simp add: nth_chunk nth_mem_read fcontent_def d add.assoc)
qed (use assms in simp)

lemma put_content:
  assumes ok: "file_ok B F N di" and i: "i < di_blocks di" and n: "off + length bs \<le> SFS_BLKSIZE"
    and l: "length (B (fblk B di i)) = SFS_BLKSIZE"
  defines "B' \<equiv> B(fblk B di i := overwrite (B (fblk B di i)) off bs)"
  shows "file_ok B' F N di" "fcontent B' di = mem_write (fcontent B di) (i * SFS_BLKSIZE + off) bs"
    "same_space B F di B' F di"
proof -
  note f = file_okD [OF ok]
  have ind: "di_indirect di \<noteq> 0 \<Longrightarrow> B' (di_indirect di) = B (di_indirect di)" using f(10) [OF _ i] by (auto simp: B'_def)
  have map: "fblk B' di j = fblk B di j" for j by (rule fblk_cong) (use ind in auto)
  have Bi: "B' (fblk B di i) = overwrite (B (fblk B di i)) off bs" by (simp add: B'_def)
  show "file_ok B' F N di" by (rule file_ok_cong [OF ok]) (use ind in auto)
  have own: "owned B' di = owned B di" by (simp add: owned_def map)
  have "fblk B di i \<in> owned B di" using i by (simp add: owned_def)
  then show "same_space B F di B' F di" unfolding same_space_def own by (auto simp: B'_def)
  show "fcontent B' di = mem_write (fcontent B di) (i * SFS_BLKSIZE + off) bs"
  proof
    fix p
    let ?j = "p div SFS_BLKSIZE" and ?o = "p mod SFS_BLKSIZE"
    have o: "?o < SFS_BLKSIZE" by simp
    have p: "p = ?j * SFS_BLKSIZE + ?o" by simp
    show "fcontent B' di p = mem_write (fcontent B di) (i * SFS_BLKSIZE + off) bs p"
    proof (cases "?j = i")
      case True
      have r: "(i * 4096 + off \<le> p \<and> p < i * 4096 + off + length bs) = (off \<le> ?o \<and> ?o < off + length bs)"
        "p - (i * 4096 + off) = ?o - off"
        using p True by linarith+
      show ?thesis
        unfolding mem_write_def r using True i n l by (simp add: fcontent_def map Bi nth_overwrite)
    next
      case False
      then have r: "\<not> (i * 4096 + off \<le> p \<and> p < i * 4096 + off + length bs)" using p o n by linarith
      have "B' (fblk B di ?j) = B (fblk B di ?j)" if "?j < di_blocks di" using f(7) [OF that i] False by (simp add: B'_def)
      then show ?thesis unfolding mem_write_def using r by (auto simp: fcontent_def map)
    qed
  qed
qed

section \<open>Reading\<close>

context block_device begin

lemma read_piece:
  assumes at: "fs_at B F N s" and ok: "file_ok B F N (din sin)" and i: "i < di_blocks (din sin)"
    and n: "off + n \<le> SFS_BLKSIZE" "off < SFS_BLKSIZE" and l: "pos + n \<le> length buf"
  shows "\<exists>s'. sfs_buf_op False s buf pos n (fblk B (din sin) i) (int off) =
      Some (0, overwrite buf pos (mem_read (fcontent B (din sin)) (i * SFS_BLKSIZE + off) n), s') \<and> fs_at B F N s'"
proof -
  have c: "chunk off n (B (fblk B (din sin) i)) = mem_read (fcontent B (din sin)) (i * SFS_BLKSIZE + off) n"
    using i n(1) at_length [OF at] by (rule chunk_content)
  show ?thesis
    using rbuf_ok [OF at file_okD(5) [OF ok i] file_okD(4) [OF ok i] n] l by (auto simp: sfs_buf_op_def c)
qed

lemma read_block:
  assumes at: "fs_at B F N s" and ok: "file_ok B F N (din sin)" and i: "i < di_blocks (din sin)"
    and l: "pos + SFS_BLKSIZE \<le> length buf"
  shows "\<exists>s'. sfs_block_op False s buf pos (fblk B (din sin) i) 1 =
      Some (0, overwrite buf pos (mem_read (fcontent B (din sin)) (i * SFS_BLKSIZE) SFS_BLKSIZE), s') \<and> fs_at B F N s'"
proof -
  have c: "B (fblk B (din sin) i) = mem_read (fcontent B (din sin)) (i * SFS_BLKSIZE) SFS_BLKSIZE"
    using chunk_content [OF i, of 0 SFS_BLKSIZE] at_length [OF at] by simp
  obtain s' where "sfs_rblock s (chunk pos SFS_BLKSIZE buf) (fblk B (din sin) i) 1 = Some (0, B (fblk B (din sin) i), s')" "fs_at B F N s'"
    using rblock_ok [OF at file_okD(5) [OF ok i] file_okD(4) [OF ok i], of "chunk pos SFS_BLKSIZE buf"] l by auto
  then show ?thesis using l by (simp add: sfs_block_op_def flip: c)
qed

lemma blocks_read:
  assumes "fs_at B F N s" "file_ok B F N (din sin)" "endpos div SFS_BLKSIZE = blkno + nblks"
    "endpos \<le> di_blocks (din sin) * SFS_BLKSIZE" "alen + (endpos - blkno * SFS_BLKSIZE) \<le> length buf"
  shows "\<exists>s'. sfs_io_blocks False s sin buf endpos blkno nblks alen =
      Some (0, alen + (endpos - blkno * SFS_BLKSIZE),
        overwrite buf alen (mem_read (fcontent B (din sin)) (blkno * SFS_BLKSIZE) (endpos - blkno * SFS_BLKSIZE)), sin, s') \<and>
    fs_at B F N s'"
  using assms
proof (induction nblks arbitrary: s buf blkno alen)
  case 0
  let ?n = "endpos mod SFS_BLKSIZE"
  have e: "endpos - blkno * SFS_BLKSIZE = ?n" using 0(3) by (metis add.right_neutral modulo_nat_def mult.commute minus_div_mult_eq_mod)
  show ?case
  proof (cases "?n = 0")
    case True
    then show ?thesis using 0 e by (simp add: sfs_io_tail_def)
  next
    case False
    have i: "blkno < di_blocks (din sin)" using 0(3,4) False
      by (metis add.right_neutral div_less_iff_less_mult le_neq_implies_less mod_mult_self2_is_0 zero_less_numeral)
    obtain s1 where s1: "sfs_bmap_load_nolock s sin blkno = Some (0, fblk B (din sin) blkno, sin, s1)" "fs_at B F N s1"
      using load_ok [OF 0(1,2) i] by blast
    obtain s2 where "sfs_buf_op False s1 buf alen ?n (fblk B (din sin) blkno) 0 =
        Some (0, overwrite buf alen (mem_read (fcontent B (din sin)) (blkno * SFS_BLKSIZE) ?n), s2)" "fs_at B F N s2"
      using read_piece [OF s1(2) 0(2) i, of 0 ?n alen buf] 0(5) e by auto
    then show ?thesis using False s1(1) by (simp add: sfs_io_tail_def Let_def e)
  qed
next
  case (Suc k)
  have i: "blkno < di_blocks (din sin)" using Suc.prems(3,4) by (metis add_lessD1 add_Suc_right div_le_mono div_mult_self_is_m
        less_add_Suc1 order_less_le_trans zero_less_numeral)
  have ge: "blkno * SFS_BLKSIZE + SFS_BLKSIZE \<le> endpos"
    using Suc.prems(3) div_times_less_eq_dividend [of endpos SFS_BLKSIZE] by (simp add: add_mult_distrib)
  let ?bs = "mem_read (fcontent B (din sin)) (blkno * SFS_BLKSIZE) SFS_BLKSIZE"
  let ?buf = "overwrite buf alen ?bs"
  obtain s1 where s1: "sfs_bmap_load_nolock s sin blkno = Some (0, fblk B (din sin) blkno, sin, s1)" "fs_at B F N s1"
    using load_ok [OF Suc.prems(1,2) i] by blast
  have lb: "alen + SFS_BLKSIZE \<le> length buf" using Suc.prems(5) ge by linarith
  obtain s2 where s2: "sfs_block_op False s1 buf alen (fblk B (din sin) blkno) 1 = Some (0, ?buf, s2)" "fs_at B F N s2"
    using read_block [OF s1(2) Suc.prems(2) i lb] by blast
  have len: "alen + SFS_BLKSIZE + (endpos - (blkno + 1) * SFS_BLKSIZE) \<le> length ?buf" using Suc.prems(5) ge by simp
  obtain s3 where s3: "sfs_io_blocks False s2 sin ?buf endpos (blkno + 1) k (alen + SFS_BLKSIZE) =
      Some (0, alen + SFS_BLKSIZE + (endpos - (blkno + 1) * SFS_BLKSIZE), overwrite ?buf (alen + SFS_BLKSIZE)
        (mem_read (fcontent B (din sin)) ((blkno + 1) * SFS_BLKSIZE) (endpos - (blkno + 1) * SFS_BLKSIZE)), sin, s3)"
    "fs_at B F N s3"
    using Suc.IH [OF s2(2) Suc.prems(2) _ Suc.prems(4) len] Suc.prems(3) by auto
  let ?rest = "mem_read (fcontent B (din sin)) ((blkno + 1) * SFS_BLKSIZE) (endpos - (blkno + 1) * SFS_BLKSIZE)"
  have n: "endpos - blkno * SFS_BLKSIZE = SFS_BLKSIZE + (endpos - (blkno + 1) * SFS_BLKSIZE)" using ge by simp
  have m: "mem_read (fcontent B (din sin)) (blkno * SFS_BLKSIZE) (endpos - blkno * SFS_BLKSIZE) = ?bs @ ?rest"
    unfolding n mem_read_add by (simp add: add.commute)
  have "overwrite ?buf (alen + SFS_BLKSIZE) ?rest = overwrite buf alen (?bs @ ?rest)"
    using overwrite_append [of alen ?bs ?rest buf] Suc.prems(5) ge by simp
  then show ?case using s1 s2 s3 by (simp add: m) (simp add: n)
qed

end


section \<open>Writing\<close>

text \<open>The block count that covers \<open>n\<close> bytes.\<close>

definition nblks_of :: "nat \<Rightarrow> nat" where
  "nblks_of n = (n + SFS_BLKSIZE - 1) div SFS_BLKSIZE"

context block_device begin

text \<open>The block an access needs: it exists, or it is appended, or the disk is full.\<close>

lemma load_cases:
  assumes at: "fs_at B F N s" and ok: "file_ok B F N (din sin)" and i: "i \<le> di_blocks (din sin)" "i < SFS_NBLKS"
  obtains
    (got) B' F' sin' s' where "sfs_bmap_load_nolock s sin i = Some (0, fblk B' (din sin') i, sin', s')" "fs_at B' F' N s'"
      "fstep N B F sin B' F' sin'" "fcontent B' (din sin') = fcontent B (din sin)"
      "di_blocks (din sin') = max (di_blocks (din sin)) (i + 1)"
  | (full) B' s' where "sfs_bmap_load_nolock s sin i = Some (- E_NO_MEM, 0, sin, s')" "fs_at B' F N s'"
      "fstep N B F sin B' F sin" "fcontent B' (din sin) = fcontent B (din sin)"
      "i = di_blocks (din sin)" "card F < grow_need (din sin)"
proof (cases "i < di_blocks (din sin)")
  case True
  then show ?thesis using load_ok [OF at ok True] got [of B sin _ F] fstep_refl [OF ok] by (auto simp: max_def)
next
  case False
  then have i': "i = di_blocks (din sin)" "di_blocks (din sin) < SFS_NBLKS" using i by simp_all
  have FN: "F \<subseteq> {0<..<N}" using at by (simp add: sfs_at_def)
  show ?thesis
  proof (cases "grow_need (din sin) \<le> card F")
    case True
    obtain B' F' di' b s' where g: "sfs_bmap_load_nolock s sin i =
        Some (0, b, sin\<lparr>din := di', dirty := dirty sin \<or> di_blocks (din sin) < SFS_NDIRECT \<or> di_indirect (din sin) = 0\<rparr>, s')"
      "fs_at B' F' N s'" "grown B F N (din sin) b B' F' di'"
      using grow_ok [OF at ok i'(2) True] unfolding i'(1) by blast
    note d = g(3) [unfolded grown_def]
    show ?thesis
      by (rule got [OF _ g(2)]) (use g(1) d i'(1) grown_content [OF ok g(3)] grown_space [OF ok g(3) FN] in \<open>auto simp: fstep_def\<close>)
  next
    case False
    then obtain B' s' where g: "sfs_bmap_load_nolock s sin i = Some (- E_NO_MEM, 0, sin, s')" "fs_at B' F N s'"
      "\<forall>c. c \<notin> F \<longrightarrow> B' c = B c"
      using grow_full [OF at ok i'(2)] i'(1) by auto
    have "di_indirect (din sin) \<noteq> 0 \<Longrightarrow> B' (di_indirect (din sin)) = B (di_indirect (din sin))"
      using g(3) file_okD(9) [OF ok] by blast
    then have map: "fblk B' (din sin) j = fblk B (din sin) j" "file_ok B' F N (din sin)" for j
      using fblk_cong [of "din sin" "din sin" B' B j] file_ok_cong [OF ok, of "din sin" B'] by blast+
    have "fcontent B' (din sin) = fcontent B (din sin)"
      using g(3) file_okD(6) [OF ok] by (auto simp: fcontent_def map fun_eq_iff)
    moreover have "fstep N B F sin B' F sin"
      using map g(3) by (auto simp: fstep_def same_space_def owned_def)
    ultimately show ?thesis using full [OF g(1,2)] i'(1) False by simp
  qed
qed

lemma write_piece:
  assumes at: "fs_at B F N s" and ok: "file_ok B F N (din sin)" and i: "i < di_blocks (din sin)"
    and n: "off + n \<le> SFS_BLKSIZE" "off < SFS_BLKSIZE" and l: "pos + n \<le> length buf"
  shows "\<exists>B' s'. sfs_buf_op True s buf pos n (fblk B (din sin) i) (int off) = Some (0, buf, s') \<and> fs_at B' F N s' \<and>
    fstep N B F sin B' F sin \<and>
    fcontent B' (din sin) = mem_write (fcontent B (din sin)) (i * SFS_BLKSIZE + off) (chunk pos n buf)"
proof -
  let ?b = "fblk B (din sin) i"
  have c: "length (chunk pos n buf) = n" using l by simp
  obtain s' where s': "sfs_wbuf s (chunk pos n buf) ?b (int off) = Some (0, s')"
    "fs_at (B(?b := overwrite (B ?b) off (chunk pos n buf))) F N s'"
    using wbuf_ok [OF at file_okD(5) [OF ok i] file_okD(4) [OF ok i], of off "chunk pos n buf"] n c by auto
  note p = put_content [OF ok i _ at_length [OF at], of off "chunk pos n buf", unfolded c, OF n(1)]
  have "fstep N B F sin (B(?b := overwrite (B ?b) off (chunk pos n buf))) F sin" using p(1,3) by (simp add: fstep_def)
  then show ?thesis using s' p(2) l by (auto simp: sfs_buf_op_def)
qed

lemma write_block:
  assumes at: "fs_at B F N s" and ok: "file_ok B F N (din sin)" and i: "i < di_blocks (din sin)"
    and l: "pos + SFS_BLKSIZE \<le> length buf"
  shows "\<exists>B' s'. sfs_block_op True s buf pos (fblk B (din sin) i) 1 = Some (0, buf, s') \<and> fs_at B' F N s' \<and>
    fstep N B F sin B' F sin \<and>
    fcontent B' (din sin) = mem_write (fcontent B (din sin)) (i * SFS_BLKSIZE) (chunk pos SFS_BLKSIZE buf)"
proof -
  let ?b = "fblk B (din sin) i" and ?c = "chunk pos SFS_BLKSIZE buf"
  have c: "length ?c = SFS_BLKSIZE" using l by simp
  obtain s' where s': "sfs_wblock s ?c ?b 1 = Some (0, ?c, s')" "fs_at (B(?b := ?c)) F N s'"
    using wblock_ok [OF at file_okD(5) [OF ok i] file_okD(4) [OF ok i] c] by blast
  have o: "overwrite (B ?b) 0 ?c = ?c" using c at_length [OF at] by simp
  note p = put_content [OF ok i _ at_length [OF at], of 0 ?c, unfolded c o, simplified]
  have "fstep N B F sin (B(?b := ?c)) F sin" using p(1,3) by (simp add: fstep_def)
  moreover have "overwrite buf pos ?c = buf"
    using l by (intro nth_equalityI) (auto simp: nth_overwrite nth_chunk)
  ultimately show ?thesis using s' p(2) l by (auto simp: sfs_block_op_def)
qed

end


lemma ceil_block: "(b * SFS_BLKSIZE + SFS_BLKSIZE - 1) div SFS_BLKSIZE = b"
  by simp

lemma nblks_of_block: "nblks_of (b * SFS_BLKSIZE) = b" "0 < n \<Longrightarrow> n \<le> SFS_BLKSIZE \<Longrightarrow> nblks_of (b * SFS_BLKSIZE + n) = b + 1"
  by (simp_all add: nblks_of_def)

lemma nblks_of_mono: "m \<le> n \<Longrightarrow> nblks_of m \<le> nblks_of n"
  by (simp add: nblks_of_def div_le_mono)

lemma nblks_of_le: "nblks_of n \<le> b \<longleftrightarrow> n \<le> b * SFS_BLKSIZE"
  by (simp add: nblks_of_def) linarith

lemma nblks_of_max: "nblks_of (max m n) = max (nblks_of m) (nblks_of n)"
  by (cases "m \<le> n") (simp_all add: nblks_of_mono max_absorb1 max_absorb2)

text \<open>The outcome of writing the \<open>n\<close> bytes of a buffer from \<open>pos\<close> on to the file at position \<open>a\<close>: all of them, or a
  part of them because the disk is full.\<close>

definition wrote ::
  "nat \<Rightarrow> (nat \<Rightarrow> u8 list) \<Rightarrow> nat set \<Rightarrow> sfs_inode \<Rightarrow> nat \<Rightarrow> u8 list \<Rightarrow> nat \<Rightarrow> nat \<Rightarrow>
   int \<Rightarrow> nat \<Rightarrow> (nat \<Rightarrow> u8 list) \<Rightarrow> nat set \<Rightarrow> sfs_inode \<Rightarrow> bool" where
  "wrote N B F sin a buf pos n ret m B' F' sin' \<longleftrightarrow>
     fstep N B F sin B' F' sin' \<and>
     fcontent B' (din sin') = mem_write (fcontent B (din sin)) a (chunk pos m buf) \<and>
     (ret = 0 \<and> m = n \<or> ret = - E_NO_MEM \<and> m < n \<and> card F' < grow_need (din sin')) \<and>
     di_blocks (din sin') = max (di_blocks (din sin)) (nblks_of (a + m))"

lemma wrote_more: "wrote N B F sin a buf pos n (- E_NO_MEM) m B' F' sin' \<Longrightarrow> n \<le> n' \<Longrightarrow>
    wrote N B F sin a buf pos n' (- E_NO_MEM) m B' F' sin'"
  by (auto simp: wrote_def)

lemma wrote_then:
  assumes 1: "wrote N B F sin a buf pos n 0 n B1 F1 sin1" and 2: "wrote N B1 F1 sin1 (a + n) buf (pos + n) k ret m B2 F2 sin2"
    and l: "pos + n \<le> length buf"
  shows "wrote N B F sin a buf pos (n + k) ret (n + m) B2 F2 sin2"
proof -
  have "mem_write (mem_write (fcontent B (din sin)) a (chunk pos n buf)) (a + n) (chunk (pos + n) m buf) =
      mem_write (fcontent B (din sin)) a (chunk pos (n + m) buf)"
    using mem_write_append [of "fcontent B (din sin)" a "chunk pos n buf" "chunk (pos + n) m buf"] l by (simp add: chunk_add)
  moreover have "nblks_of (a + n) \<le> nblks_of (a + n + m)" by (rule nblks_of_mono) simp
  ultimately show ?thesis using 1 2 fstep_trans [of N B F sin B1 F1 sin1 B2 F2 sin2] by (auto simp: wrote_def add.assoc)
qed

context block_device begin

text \<open>One access of the write path: find or append the block, then write into it.\<close>

lemma write_one:
  assumes at: "fs_at B F N s" and ok: "file_ok B F N (din sin)" and i: "i \<le> di_blocks (din sin)" "i < SFS_NBLKS"
    and n: "off + n \<le> SFS_BLKSIZE" "0 < n" and l: "pos + n \<le> length buf"
    and tight: "off = 0 \<or> i < di_blocks (din sin)"
  obtains
    (got) B1 F1 sin1 s1 b where "sfs_bmap_load_nolock s sin i = Some (0, b, sin1, s1)" "fs_at B1 F1 N s1"
      "file_ok B1 F1 N (din sin1)" "i < di_blocks (din sin1)" "b = fblk B1 (din sin1) i"
      "\<And>B2. fstep N B1 F1 sin1 B2 F1 sin1 \<Longrightarrow>
        fcontent B2 (din sin1) = mem_write (fcontent B1 (din sin1)) (i * SFS_BLKSIZE + off) (chunk pos n buf) \<Longrightarrow>
        wrote N B F sin (i * SFS_BLKSIZE + off) buf pos n 0 n B2 F1 sin1"
  | (full) B1 s1 where "sfs_bmap_load_nolock s sin i = Some (- E_NO_MEM, 0, sin, s1)" "fs_at B1 F N s1"
      "wrote N B F sin (i * SFS_BLKSIZE + off) buf pos n (- E_NO_MEM) 0 B1 F sin"
  using at ok i
proof (cases rule: load_cases)
  case (got B1 F1 sin1 s1)
  have nb: "nblks_of (i * SFS_BLKSIZE + off + n) = i + 1" using nblks_of_block(2) [of "off + n" i] n by (simp add: add.assoc)
  show ?thesis
  proof (rule that(1) [OF got(1,2)])
    fix B2 assume "fstep N B1 F1 sin1 B2 F1 sin1"
      "fcontent B2 (din sin1) = mem_write (fcontent B1 (din sin1)) (i * SFS_BLKSIZE + off) (chunk pos n buf)"
    then show "wrote N B F sin (i * SFS_BLKSIZE + off) buf pos n 0 n B2 F1 sin1"
      using fstep_trans [OF got(3)] got(4,5) nb by (simp add: wrote_def)
  qed (use got in \<open>auto simp: fstep_def\<close>)
next
  case (full B1 s1)
  have "off = 0" using tight full(5) by simp
  then have "nblks_of (i * SFS_BLKSIZE + off) = di_blocks (din sin)" using nblks_of_block(1) [of i] full(5) by simp
  then show ?thesis using that(2) [OF full(1,2)] full n(2) by (simp add: wrote_def)
qed

lemma blocks_write:
  assumes "fs_at B F N s" "file_ok B F N (din sin)" "endpos div SFS_BLKSIZE = blkno + nblks"
    "blkno \<le> di_blocks (din sin)" "endpos \<le> SFS_NBLKS * SFS_BLKSIZE"
    "alen + (endpos - blkno * SFS_BLKSIZE) \<le> length buf"
  shows "\<exists>ret m B' F' sin' s'. sfs_io_blocks True s sin buf endpos blkno nblks alen = Some (ret, alen + m, buf, sin', s') \<and>
    fs_at B' F' N s' \<and>
    wrote N B F sin (blkno * SFS_BLKSIZE) buf alen (endpos - blkno * SFS_BLKSIZE) ret m B' F' sin'"
  using assms
proof (induction nblks arbitrary: s sin B F blkno alen)
  case 0
  let ?n = "endpos mod SFS_BLKSIZE"
  have e: "endpos - blkno * SFS_BLKSIZE = ?n" using 0(3) by (metis add.right_neutral minus_div_mult_eq_mod)
  show ?case
  proof (cases "?n = 0")
    case True
    have "wrote N B F sin (blkno * SFS_BLKSIZE) buf alen 0 0 0 B F sin"
      using 0(2,4) nblks_of_block(1) [of blkno] by (simp add: wrote_def fstep_refl)
    then show ?thesis unfolding e True using True 0(1) by (auto simp: sfs_io_tail_def)
  next
    case False
    have bN: "blkno < SFS_NBLKS" using e 0(5) False by linarith
    have n: "?n \<le> SFS_BLKSIZE" "?n < SFS_BLKSIZE" by simp_all
    have l: "alen + ?n \<le> length buf" using 0(6) e by simp
    from 0(1,2,4) bN show ?thesis
    proof (rule write_one [of B F N s sin blkno 0 ?n alen buf])
      fix B1 F1 sin1 s1 b
      assume g: "sfs_bmap_load_nolock s sin blkno = Some (0, b, sin1, s1)" "fs_at B1 F1 N s1" "file_ok B1 F1 N (din sin1)"
        "blkno < di_blocks (din sin1)" "b = fblk B1 (din sin1) blkno"
        "\<And>B2. fstep N B1 F1 sin1 B2 F1 sin1 \<Longrightarrow>
          fcontent B2 (din sin1) = mem_write (fcontent B1 (din sin1)) (blkno * SFS_BLKSIZE + 0) (chunk alen ?n buf) \<Longrightarrow>
          wrote N B F sin (blkno * SFS_BLKSIZE + 0) buf alen ?n 0 ?n B2 F1 sin1"
      obtain B2 s2 where p: "sfs_buf_op True s1 buf alen ?n b (int 0) = Some (0, buf, s2)" "fs_at B2 F1 N s2"
        "fstep N B1 F1 sin1 B2 F1 sin1"
        "fcontent B2 (din sin1) = mem_write (fcontent B1 (din sin1)) (blkno * SFS_BLKSIZE + 0) (chunk alen ?n buf)"
        using write_piece [OF g(2,3,4), of 0 ?n alen buf] n l g(5) by auto
      have "wrote N B F sin (blkno * SFS_BLKSIZE) buf alen ?n 0 ?n B2 F1 sin1" using g(6) [OF p(3,4)] by simp
      then show ?thesis using False g(1) p(1,2) by (auto simp: sfs_io_tail_def Let_def e)
    next
      fix B1 s1 assume "sfs_bmap_load_nolock s sin blkno = Some (- E_NO_MEM, 0, sin, s1)" "fs_at B1 F N s1"
        "wrote N B F sin (blkno * SFS_BLKSIZE + 0) buf alen ?n (- E_NO_MEM) 0 B1 F sin"
      then show ?thesis using False by (auto simp: sfs_io_tail_def Let_def e)
    qed (use n l False in auto)
  qed
next
  case (Suc k)
  have ge: "blkno * SFS_BLKSIZE + SFS_BLKSIZE \<le> endpos"
    using Suc.prems(3) div_times_less_eq_dividend [of endpos SFS_BLKSIZE] by (simp add: add_mult_distrib)
  have bN: "blkno < SFS_NBLKS" using Suc.prems(5) ge by linarith
  have l: "alen + SFS_BLKSIZE \<le> length buf" using Suc.prems(6) ge by linarith
  have n: "endpos - blkno * SFS_BLKSIZE = SFS_BLKSIZE + (endpos - (blkno + 1) * SFS_BLKSIZE)" using ge by simp
  from Suc.prems(1,2,4) bN show ?case
  proof (rule write_one [of B F N s sin blkno 0 SFS_BLKSIZE alen buf])
    fix B1 F1 sin1 s1 b
    assume g: "sfs_bmap_load_nolock s sin blkno = Some (0, b, sin1, s1)" "fs_at B1 F1 N s1" "file_ok B1 F1 N (din sin1)"
      "blkno < di_blocks (din sin1)" "b = fblk B1 (din sin1) blkno"
      "\<And>B2. fstep N B1 F1 sin1 B2 F1 sin1 \<Longrightarrow>
        fcontent B2 (din sin1) = mem_write (fcontent B1 (din sin1)) (blkno * SFS_BLKSIZE + 0) (chunk alen SFS_BLKSIZE buf) \<Longrightarrow>
        wrote N B F sin (blkno * SFS_BLKSIZE + 0) buf alen SFS_BLKSIZE 0 SFS_BLKSIZE B2 F1 sin1"
    obtain B2 s2 where p: "sfs_block_op True s1 buf alen b 1 = Some (0, buf, s2)" "fs_at B2 F1 N s2"
      "fstep N B1 F1 sin1 B2 F1 sin1"
      "fcontent B2 (din sin1) = mem_write (fcontent B1 (din sin1)) (blkno * SFS_BLKSIZE) (chunk alen SFS_BLKSIZE buf)"
      using write_block [OF g(2,3,4) l] g(5) by blast
    have w: "wrote N B F sin (blkno * SFS_BLKSIZE) buf alen SFS_BLKSIZE 0 SFS_BLKSIZE B2 F1 sin1" using g(6) [OF p(3)] p(4) by simp
    have "file_ok B2 F1 N (din sin1)" using p(3) by (simp add: fstep_def)
    moreover have "alen + SFS_BLKSIZE + (endpos - (blkno + 1) * SFS_BLKSIZE) \<le> length buf" using Suc.prems(6) n by linarith
    ultimately obtain ret m B' F' sin' s' where
      "sfs_io_blocks True s2 sin1 buf endpos (blkno + 1) k (alen + SFS_BLKSIZE) = Some (ret, alen + SFS_BLKSIZE + m, buf, sin', s')"
      "fs_at B' F' N s'"
      "wrote N B2 F1 sin1 ((blkno + 1) * SFS_BLKSIZE) buf (alen + SFS_BLKSIZE) (endpos - (blkno + 1) * SFS_BLKSIZE) ret m B' F' sin'"
      using Suc.IH [OF p(2), of sin1 "blkno + 1" "alen + SFS_BLKSIZE"] Suc.prems(3,5) g(4) by auto
    moreover from this(3) have "wrote N B F sin (blkno * SFS_BLKSIZE) buf alen (endpos - blkno * SFS_BLKSIZE) ret (SFS_BLKSIZE + m) B' F' sin'"
      unfolding n using w l by (intro wrote_then [where n = SFS_BLKSIZE]) (simp_all add: add.commute)
    ultimately show ?thesis using g(1) p(1) by (auto simp: add.assoc)
  next
    fix B1 s1 assume f: "sfs_bmap_load_nolock s sin blkno = Some (- E_NO_MEM, 0, sin, s1)" "fs_at B1 F N s1"
      "wrote N B F sin (blkno * SFS_BLKSIZE + 0) buf alen SFS_BLKSIZE (- E_NO_MEM) 0 B1 F sin"
    have "sfs_io_blocks True s sin buf endpos blkno (Suc k) alen = Some (- E_NO_MEM, alen + 0, buf, sin, s1)"
      using f(1) by simp
    moreover have "wrote N B F sin (blkno * SFS_BLKSIZE) buf alen (endpos - blkno * SFS_BLKSIZE) (- E_NO_MEM) 0 B1 F sin"
      by (rule wrote_more [OF f(3) [unfolded add_0_right]]) (use ge in linarith)
    ultimately show ?thesis using f(2) by blast
  qed (use l in auto)
qed

end


lemma sext64_id: "- (2 ^ 63) \<le> x \<Longrightarrow> x < 2 ^ 63 \<Longrightarrow> sext64 x = x"
  by (simp add: sext64_def)

text \<open>The size of the first piece of an access that does not start at a block.\<close>

lemma head_size:
  fixes off endpos :: nat
  assumes "off < endpos"
  defines "k \<equiv> if endpos div SFS_BLKSIZE - off div SFS_BLKSIZE \<noteq> 0 then SFS_BLKSIZE - off mod SFS_BLKSIZE else endpos - off"
  shows "off mod SFS_BLKSIZE + k \<le> SFS_BLKSIZE \<and> k \<le> endpos - off \<and> 0 < k"
proof -
  have o: "off mod 4096 < 4096" "off div 4096 * 4096 + off mod 4096 = off" by simp_all
  have e: "endpos div 4096 * 4096 \<le> endpos" "endpos < endpos div 4096 * 4096 + 4096"
    using dividend_less_times_div [of 4096 endpos] by simp_all
  show ?thesis
  proof (cases "endpos div 4096 - off div 4096 = 0")
    case True
    then have "k = endpos - off" by (simp add: k_def)
    moreover have "endpos div 4096 * 4096 \<le> off div 4096 * 4096" using True by simp
    ultimately show ?thesis using o e assms(1) by (intro conjI) linarith+
  next
    case False
    then have "k = 4096 - off mod 4096" by (simp add: k_def)
    moreover have "(off div 4096 + 1) * 4096 \<le> endpos div 4096 * 4096" using False by (intro mult_le_mono1) simp
    ultimately show ?thesis using o e unfolding add_mult_distrib by (intro conjI) linarith+
  qed
qed

lemma next_block: "(off div SFS_BLKSIZE + 1) * SFS_BLKSIZE = off + (SFS_BLKSIZE - off mod SFS_BLKSIZE)"
proof -
  have "(q + 1) * 4096 = off + (4096 - r)" if "q * 4096 + r = off" "r < 4096" for q r using that by simp
  then show ?thesis by simp
qed

context block_device begin

text \<open>The three phases together.\<close>

lemma head_read:
  assumes at: "fs_at B F N s" and ok: "file_ok B F N (din sin)" and e: "off < endpos" "endpos \<le> di_blocks (din sin) * SFS_BLKSIZE"
    and l: "endpos - off \<le> length buf"
  shows "\<exists>s'. sfs_io_head False s sin buf off endpos =
      Some (0, endpos - off, overwrite buf 0 (mem_read (fcontent B (din sin)) off (endpos - off)), sin, s') \<and> fs_at B F N s'"
proof -
  let ?b = "off div SFS_BLKSIZE" and ?o = "off mod SFS_BLKSIZE"
  let ?n = "endpos div SFS_BLKSIZE - ?b"
  have bo: "?b * SFS_BLKSIZE + ?o = off" by simp
  have b: "?b < di_blocks (din sin)" using e by (simp add: less_mult_imp_div_less)
  have le: "?b \<le> endpos div SFS_BLKSIZE" using e by (simp add: div_le_mono)
  show ?thesis
  proof (cases "?o = 0")
    case True
    then have off: "?b * SFS_BLKSIZE = off" using bo by simp
    show ?thesis
      using blocks_read [OF at ok, of endpos ?b ?n 0 buf] le e l True unfolding off by (simp add: sfs_io_head_def Let_def)
  next
    case False
    let ?k = "if ?n \<noteq> 0 then SFS_BLKSIZE - ?o else endpos - off"
    let ?buf = "overwrite buf 0 (mem_read (fcontent B (din sin)) off ?k)"
    have o: "?o < SFS_BLKSIZE" by simp
    have end_n: "?n = 0 \<Longrightarrow> endpos < ?b * SFS_BLKSIZE + SFS_BLKSIZE"
      using le dividend_less_times_div [of SFS_BLKSIZE endpos] by simp
    have end_ge: "?n \<noteq> 0 \<Longrightarrow> ?b * SFS_BLKSIZE + SFS_BLKSIZE \<le> endpos"
      using div_times_less_eq_dividend [of endpos SFS_BLKSIZE] by linarith
    have k: "?o + ?k \<le> SFS_BLKSIZE" "?k \<le> endpos - off" using head_size [OF e(1)] by blast+
    obtain s1 where s1: "sfs_bmap_load_nolock s sin ?b = Some (0, fblk B (din sin) ?b, sin, s1)" "fs_at B F N s1"
      using load_ok [OF at ok b] by blast
    obtain s2 where s2: "sfs_buf_op False s1 buf 0 ?k (fblk B (din sin) ?b) (int ?o) = Some (0, ?buf, s2)" "fs_at B F N s2"
      using read_piece [OF s1(2) ok b k(1) o, of 0 buf] k(2) l unfolding bo by auto
    show ?thesis
    proof (cases "?n = 0")
      case True
      then show ?thesis using False s1(1) s2 by (simp add: sfs_io_head_def Let_def)
    next
      case nz: False
      let ?e = "endpos - (?b + 1) * SFS_BLKSIZE" and ?m = "SFS_BLKSIZE - ?o"
      have m: "?k = ?m" using nz by simp
      have be: "(?b + 1) * SFS_BLKSIZE = off + ?m" by (rule next_block)
      have tot: "endpos - off = ?m + ?e" using be end_ge [OF nz] by (simp add: add_mult_distrib)
      let ?rest = "mem_read (fcontent B (din sin)) ((?b + 1) * SFS_BLKSIZE) ?e"
      have q: "endpos div SFS_BLKSIZE = ?b + 1 + (?n - 1)" using le nz by simp
      have "length ?buf = length buf" using k(2) l by simp
      then have lq: "?m + ?e \<le> length ?buf" using l unfolding tot by (simp only:)
      obtain s3 where r: "sfs_io_blocks False s2 sin ?buf endpos (?b + 1) (?n - 1) ?m =
          Some (0, ?m + ?e, overwrite ?buf ?m ?rest, sin, s3)" "fs_at B F N s3"
        using blocks_read [OF s2(2) ok q e(2) lq] by blast
      have ow: "overwrite ?buf ?m ?rest = overwrite buf 0 (mem_read (fcontent B (din sin)) off (endpos - off))"
      proof -
        have "mem_read (fcontent B (din sin)) off (endpos - off) = mem_read (fcontent B (din sin)) off ?m @ ?rest"
          unfolding tot mem_read_add be ..
        then show ?thesis
          using overwrite_append [of 0 "mem_read (fcontent B (din sin)) off ?m" ?rest buf] l tot m by simp
      qed
      have h: "sfs_io_head False s sin buf off endpos = sfs_io_blocks False s2 sin ?buf endpos (?b + 1) (?n - 1) ?m"
        using False nz s1(1) s2(1) m by (simp add: sfs_io_head_def Let_def)
      show ?thesis unfolding h r(1) ow tot [symmetric] using r(2) by blast
    qed
  qed
qed

lemma head_write:
  assumes at: "fs_at B F N s" and ok: "file_ok B F N (din sin)" and e: "off < endpos" "endpos \<le> SFS_NBLKS * SFS_BLKSIZE"
    and o: "off \<le> di_blocks (din sin) * SFS_BLKSIZE" and l: "endpos - off \<le> length buf"
  shows "\<exists>ret m B' F' sin' s'. sfs_io_head True s sin buf off endpos = Some (ret, m, buf, sin', s') \<and> fs_at B' F' N s' \<and>
    wrote N B F sin off buf 0 (endpos - off) ret m B' F' sin'"
proof -
  let ?b = "off div SFS_BLKSIZE" and ?o = "off mod SFS_BLKSIZE"
  let ?n = "endpos div SFS_BLKSIZE - ?b"
  have bo: "?b * SFS_BLKSIZE + ?o = off" by simp
  have b: "?b \<le> di_blocks (din sin)" using o by (metis div_le_mono div_mult_self_is_m zero_less_numeral)
  have bN: "?b < SFS_NBLKS" using e by (simp add: less_mult_imp_div_less)
  have le: "?b \<le> endpos div SFS_BLKSIZE" using e by (simp add: div_le_mono)
  show ?thesis
  proof (cases "?o = 0")
    case True
    then have off: "?b * SFS_BLKSIZE = off" using bo by simp
    show ?thesis
      using blocks_write [OF at ok, of endpos ?b ?n 0 buf] le e b l True unfolding off by (simp add: sfs_io_head_def Let_def)
  next
    case False
    let ?k = "if ?n \<noteq> 0 then SFS_BLKSIZE - ?o else endpos - off"
    have o': "?o < SFS_BLKSIZE" by simp
    have end_n: "?n = 0 \<Longrightarrow> endpos < ?b * SFS_BLKSIZE + SFS_BLKSIZE"
      using le dividend_less_times_div [of SFS_BLKSIZE endpos] by simp
    have end_ge: "?n \<noteq> 0 \<Longrightarrow> ?b * SFS_BLKSIZE + SFS_BLKSIZE \<le> endpos"
      using div_times_less_eq_dividend [of endpos SFS_BLKSIZE] by linarith
    have k: "?o + ?k \<le> SFS_BLKSIZE" "?k \<le> endpos - off" "0 < ?k" using head_size [OF e(1)] by blast+
    have tight: "?b < di_blocks (din sin)" using False b o bo by (metis add_cancel_right_right le_neq_implies_less nat_add_left_cancel_le le_add1 le_antisym)
    have l0: "0 + ?k \<le> length buf" using k(2) l by linarith
    from at ok b bN k(1,3) l0 disjI2 [OF tight] show ?thesis
    proof (rule write_one)
      fix B1 F1 sin1 s1 blk1
      assume g: "sfs_bmap_load_nolock s sin ?b = Some (0, blk1, sin1, s1)" "fs_at B1 F1 N s1" "file_ok B1 F1 N (din sin1)"
        "?b < di_blocks (din sin1)" "blk1 = fblk B1 (din sin1) ?b"
        "\<And>B2. fstep N B1 F1 sin1 B2 F1 sin1 \<Longrightarrow>
          fcontent B2 (din sin1) = mem_write (fcontent B1 (din sin1)) (?b * SFS_BLKSIZE + ?o) (chunk 0 ?k buf) \<Longrightarrow>
          wrote N B F sin (?b * SFS_BLKSIZE + ?o) buf 0 ?k 0 ?k B2 F1 sin1"
      obtain B2 s2 where p: "sfs_buf_op True s1 buf 0 ?k blk1 (int ?o) = Some (0, buf, s2)" "fs_at B2 F1 N s2"
        "fstep N B1 F1 sin1 B2 F1 sin1"
        "fcontent B2 (din sin1) = mem_write (fcontent B1 (din sin1)) (?b * SFS_BLKSIZE + ?o) (chunk 0 ?k buf)"
        using write_piece [OF g(2,3,4) k(1) o' l0] unfolding g(5) by blast
      have w: "wrote N B F sin off buf 0 ?k 0 ?k B2 F1 sin1" using g(6) [OF p(3,4)] unfolding bo .
      show ?thesis
      proof (cases "?n = 0")
        case True
        then show ?thesis using False g(1) p(1,2) w by (auto simp: sfs_io_head_def Let_def)
      next
        case nz: False
        let ?e = "endpos - (?b + 1) * SFS_BLKSIZE" and ?m = "SFS_BLKSIZE - ?o"
        have m: "?k = ?m" using nz by simp
        have be: "(?b + 1) * SFS_BLKSIZE = off + ?m" by (rule next_block)
        have tot: "endpos - off = ?m + ?e" using be end_ge [OF nz] by (simp add: add_mult_distrib)
        have ok2: "file_ok B2 F1 N (din sin1)" using p(3) by (simp add: fstep_def)
        have q: "endpos div SFS_BLKSIZE = ?b + 1 + (?n - 1)" using le nz by simp
        have b1: "?b + 1 \<le> di_blocks (din sin1)" using g(4) by simp
        have lq: "?m + ?e \<le> length buf" using l tot by simp
        obtain ret m B' F' sin' s' where r: "sfs_io_blocks True s2 sin1 buf endpos (?b + 1) (?n - 1) ?m = Some (ret, ?m + m, buf, sin', s')"
          "fs_at B' F' N s'" "wrote N B2 F1 sin1 ((?b + 1) * SFS_BLKSIZE) buf ?m ?e ret m B' F' sin'"
          using blocks_write [OF p(2) ok2 q b1 e(2) lq] by blast
        have "wrote N B F sin off buf 0 (endpos - off) ret (?m + m) B' F' sin'"
          unfolding tot using w r(3) l0 unfolding m be by (intro wrote_then [where n = ?m]) simp_all
        then show ?thesis using False nz g(1) p(1) r(1,2) m by (auto simp: sfs_io_head_def Let_def)
      qed
    next
      fix B1 s1 assume f: "sfs_bmap_load_nolock s sin ?b = Some (- E_NO_MEM, 0, sin, s1)" "fs_at B1 F N s1"
        "wrote N B F sin (?b * SFS_BLKSIZE + ?o) buf 0 ?k (- E_NO_MEM) 0 B1 F sin"
      have "wrote N B F sin off buf 0 (endpos - off) (- E_NO_MEM) 0 B1 F sin"
        by (rule wrote_more [OF f(3) [unfolded bo] k(2)])
      then show ?thesis using False f(1,2) by (auto simp: sfs_io_head_def Let_def)
    qed
  qed
qed

lemma io_read_ok:
  assumes at: "fs_at B F N s" and ok: "file_ok B F N (din sin)" and dir: "di_type (din sin) \<noteq> SFS_TYPE_DIR"
    and sz: "di_blocks (din sin) = nblks_of (di_size (din sin))"
    and off: "int off < SFS_MAX_FILE_SIZE" "off + n < 2 ^ 63"
    and l: "min n (di_size (din sin) - off) \<le> length buf"
  shows "\<exists>s'. sfs_io_nolock s sin buf (int off) n False =
      Some (0, min n (di_size (din sin) - off),
        overwrite buf 0 (mem_read (fcontent B (din sin)) off (min n (di_size (din sin) - off))), sin, s') \<and> fs_at B F N s'"
proof -
  let ?sz = "di_size (din sin)"
  have e: "sext64 (int off + int n) = int (off + n)" using off(2) by (subst sext64_id) simp_all
  have szN: "?sz \<le> di_blocks (din sin) * SFS_BLKSIZE" using sz nblks_of_le [of ?sz "di_blocks (din sin)"] by simp
  have szM: "?sz \<le> 4243456" using szN file_okD(2) [OF ok] by linarith
  show ?thesis
  proof (cases "n = 0 \<or> ?sz \<le> off")
    case True
    then show ?thesis using at dir off(1) by (auto simp: sfs_io_nolock_def e Let_def)
  next
    case False
    let ?e = "min (off + n) ?sz"
    have oe: "off < ?e" "?e - off = min n (?sz - off)" using False by auto
    obtain s' where s': "sfs_io_head False s sin buf off ?e =
        Some (0, ?e - off, overwrite buf 0 (mem_read (fcontent B (din sin)) off (?e - off)), sin, s')" "fs_at B F N s'"
      using head_read [OF at ok oe(1) min.coboundedI2 [OF szN], of buf] l unfolding oe(2) by blast
    have ep: "nat (if int (off + n) > SFS_MAX_FILE_SIZE \<and> SFS_MAX_FILE_SIZE > int ?sz \<or>
        \<not> int (off + n) > SFS_MAX_FILE_SIZE \<and> int (off + n) > int ?sz then int ?sz else int (off + n)) = ?e"
      using szM by auto
    have "\<not> ?sz < off + (?e - off)" using oe by linarith
    then show ?thesis using s' False dir off(1) szM unfolding oe(2)
      by (simp add: sfs_io_nolock_def e Let_def min_def nat_int_add split: if_splits)
  qed
qed

lemma io_write_ok:
  assumes at: "fs_at B F N s" and ok: "file_ok B F N (din sin)" and dir: "di_type (din sin) \<noteq> SFS_TYPE_DIR"
    and sz: "di_blocks (din sin) = nblks_of (di_size (din sin))"
    and off: "off \<le> di_size (din sin)" "off + n \<le> SFS_NBLKS * SFS_BLKSIZE" and l: "n \<le> length buf"
  shows "\<exists>ret m B' F' sin' s'. sfs_io_nolock s sin buf (int off) n True = Some (ret, m, buf, sin', s') \<and> fs_at B' F' N s' \<and>
    (ret = 0 \<and> m = n \<or> ret = - E_NO_MEM \<and> m < n \<and> card F' < grow_need (din sin')) \<and>
    fcontent B' (din sin') = mem_write (fcontent B (din sin)) off (take m buf) \<and>
    di_size (din sin') = max (di_size (din sin)) (off + m) \<and> di_type (din sin') = di_type (din sin) \<and>
    file_ok B' F' N (din sin') \<and> di_blocks (din sin') = nblks_of (di_size (din sin')) \<and>
    same_space B F (din sin) B' F' (din sin')"
proof -
  let ?sz = "di_size (din sin)"
  have e: "sext64 (int off + int n) = int (off + n)" using off(2) by (subst sext64_id) simp_all
  have szM: "?sz \<le> 4243456"
    using sz nblks_of_le [of ?sz "di_blocks (din sin)"] file_okD(2) [OF ok] by simp
  show ?thesis
  proof (cases "n = 0")
    case True
    have "sext64 (int off) = int off" using e True by simp
    then have "sfs_io_nolock s sin buf (int off) n True = Some (0, 0, buf, sin, s)"
      using True dir off szM by (simp add: sfs_io_nolock_def Let_def)
    then show ?thesis using True at ok off sz
      by (intro exI [of _ "0 :: int"] exI [of _ "0 :: nat"] exI [of _ B] exI [of _ F] exI [of _ sin] exI [of _ s])
        (auto simp: max_absorb1)
  next
    case False
    have "?sz \<le> di_blocks (din sin) * SFS_BLKSIZE" using sz nblks_of_le [of ?sz "di_blocks (din sin)"] by simp
    then obtain ret m B' F' sin' s' where h: "sfs_io_head True s sin buf off (off + n) = Some (ret, m, buf, sin', s')"
      "fs_at B' F' N s'" "wrote N B F sin off buf 0 n ret m B' F' sin'"
      using head_write [OF at ok, of off "off + n" buf] False off l by auto
    note w = h(3) [unfolded wrote_def fstep_def]
    let ?sin = "if off + m > di_size (din sin')
                     then upd_din (\<lambda>di. di\<lparr>di_size := off + m\<rparr>) sin'\<lparr>dirty := True\<rparr> else sin'"
    have c: "chunk 0 m buf = take m buf" by (simp add: chunk_def)
    have dd: "di_direct (din ?sin) = di_direct (din sin')" "di_indirect (din ?sin) = di_indirect (din sin')"
      "di_blocks (din ?sin) = di_blocks (din sin')" "di_type (din ?sin) = di_type (din sin')" by simp_all
    have "fblk B' (din ?sin) = fblk B' (din sin')" by (intro ext fblk_cong dd) simp
    then have eq: "fcontent B' (din ?sin) = fcontent B' (din sin')" "owned B' (din ?sin) = owned B' (din sin')"
      by (auto simp: fcontent_def owned_def fun_eq_iff)
    have "file_ok B' F' N (din ?sin)" using w by (intro file_ok_cong [OF _ dd(1,2,3)]) auto
    moreover have "same_space B F (din sin) B' F' (din ?sin)" using w unfolding same_space_def eq by blast
    moreover have size: "di_size (din ?sin) = max ?sz (off + m)" using w by (simp add: max_def)
    moreover have "di_blocks (din ?sin) = nblks_of (di_size (din ?sin))" unfolding size dd nblks_of_max using w sz by simp
    moreover have "grow_need (din ?sin) = grow_need (din sin')" by (simp only: grow_need_def dd)
    moreover have "sfs_io_nolock s sin buf (int off) n True = Some (ret, m, buf, ?sin, s')"
      using h(1) False dir off by (simp add: sfs_io_nolock_def e Let_def nat_add_distrib)
    ultimately show ?thesis using w h(2) eq(1) dd(4) unfolding c by metis
  qed
qed

end


section \<open>Resizing\<close>

context block_device begin

lemma trunc_grow_ok:
  assumes "fs_at B F N s" "file_ok B F N (din sin)" "di_blocks (din sin) + k \<le> SFS_NBLKS"
  shows "\<exists>ret j B' F' sin' s'. trunc_grow s sin (di_blocks (din sin)) k = Some (ret, sin', s') \<and> fs_at B' F' N s' \<and>
    fstep N B F sin B' F' sin' \<and> fcontent B' (din sin') = fcontent B (din sin) \<and>
    di_blocks (din sin') = di_blocks (din sin) + j \<and>
    (ret = 0 \<and> j = k \<or> ret = - E_NO_MEM \<and> j < k \<and> card F' < grow_need (din sin')) \<and>
    (grow_need (din sin) \<le> card F \<longrightarrow> 0 < k \<longrightarrow> 0 < j)"
  using assms
proof (induction k arbitrary: s sin B F)
  case 0
  then show ?case using fstep_refl [OF 0(2)]
    by (intro exI [of _ "0 :: int"] exI [of _ "0 :: nat"] exI [of _ B] exI [of _ F] exI [of _ sin] exI [of _ s]) simp
next
  case (Suc k)
  have i: "di_blocks (din sin) \<le> di_blocks (din sin)" "di_blocks (din sin) < SFS_NBLKS" using Suc.prems(3) by simp_all
  from Suc.prems(1,2) i show ?case
  proof (cases rule: load_cases)
    case (got B1 F1 sin1 s1)
    have b1: "di_blocks (din sin1) = di_blocks (din sin) + 1" using got(5) by simp
    have le1: "di_blocks (din sin1) + k \<le> SFS_NBLKS" using b1 Suc.prems(3) by simp
    have "file_ok B1 F1 N (din sin1)" using got(3) by (simp add: fstep_def)
    then obtain ret j B' F' sin' s' where r: "trunc_grow s1 sin1 (di_blocks (din sin1)) k = Some (ret, sin', s')" "fs_at B' F' N s'"
      "fstep N B1 F1 sin1 B' F' sin'" "fcontent B' (din sin') = fcontent B1 (din sin1)"
      "di_blocks (din sin') = di_blocks (din sin1) + j"
      "ret = 0 \<and> j = k \<or> ret = - E_NO_MEM \<and> j < k \<and> card F' < grow_need (din sin')"
      using Suc.IH [OF got(2) _ le1] by blast
    have "trunc_grow s sin (di_blocks (din sin)) (Suc k) = Some (ret, sin', s')" using got(1) r(1) b1 by simp
    then show ?thesis using r(2,4,5,6) got(4) b1 fstep_trans [OF got(3) r(3)]
      by (intro exI [of _ ret] exI [of _ "Suc j"] exI [of _ B'] exI [of _ F'] exI [of _ sin'] exI [of _ s']) auto
  next
    case (full B1 s1)
    then have "trunc_grow s sin (di_blocks (din sin)) (Suc k) = Some (- E_NO_MEM, sin, s1)" by simp
    then show ?thesis using full
      by (intro exI [of _ "- E_NO_MEM"] exI [of _ "0 :: nat"] exI [of _ B1] exI [of _ F] exI [of _ sin] exI [of _ s1]) auto
  qed
qed

lemma trunc_shrink_ok:
  assumes "fs_at B F N s" "file_ok B F N (din sin)" "k \<le> di_blocks (din sin)"
  shows "\<exists>B' F' sin' s'. trunc_shrink s sin k = Some (0, sin', s') \<and> fs_at B' F' N s' \<and> fstep N B F sin B' F' sin' \<and>
    di_blocks (din sin') = di_blocks (din sin) - k \<and>
    fcontent B' (din sin') = (\<lambda>p. if p < (di_blocks (din sin) - k) * SFS_BLKSIZE then fcontent B (din sin) p else 0)"
  using assms
proof (induction k arbitrary: s sin B F)
  case 0
  have "fcontent B (din sin) = (\<lambda>p. if p < di_blocks (din sin) * SFS_BLKSIZE then fcontent B (din sin) p else 0)"
    by (auto simp: fcontent_def fun_eq_iff div_less_iff_less_mult)
  then show ?case using 0(1) fstep_refl [OF 0(2)] by auto
next
  case (Suc k)
  then obtain n where n: "di_blocks (din sin) = Suc n" by (cases "di_blocks (din sin)") auto
  obtain B1 di1 s1 where g: "sfs_bmap_truncate_nolock s sin = Some (0, sin\<lparr>din := di1, dirty := True\<rparr>, s1)"
    "fs_at B1 (insert (fblk B (din sin) n) F) N s1" "shrunk B F N (din sin) B1 (insert (fblk B (din sin) n) F) di1"
    using shrink_ok [OF Suc.prems(1,2) n] by blast
  let ?F1 = "insert (fblk B (din sin) n) F" and ?sin1 = "sin\<lparr>din := di1, dirty := True\<rparr>"
  note d = g(3) [unfolded shrunk_def]
  have ok1: "file_ok B1 ?F1 N (din ?sin1)" using conjunct1 [OF d] by simp
  have b1: "di_blocks (din ?sin1) = n" using d n by simp
  have st: "fstep N B F sin B1 ?F1 ?sin1"
    unfolding fstep_def using ok1 d shrunk_space [OF Suc.prems(2) g(3)] by simp
  obtain B' F' sin' s' where r: "trunc_shrink s1 ?sin1 k = Some (0, sin', s')" "fs_at B' F' N s'" "fstep N B1 ?F1 ?sin1 B' F' sin'"
    "di_blocks (din sin') = n - k"
    "fcontent B' (din sin') = (\<lambda>p. if p < (n - k) * SFS_BLKSIZE then fcontent B1 (din ?sin1) p else 0)"
    using Suc.IH [OF g(2) ok1] b1 Suc.prems(3) n by auto
  have "fcontent B' (din sin') = (\<lambda>p. if p < (n - k) * SFS_BLKSIZE then fcontent B (din sin) p else 0)"
  proof
    fix p
    have "p < (n - k) * SFS_BLKSIZE \<Longrightarrow> p div SFS_BLKSIZE < di_blocks di1" using b1 by (simp add: less_mult_imp_div_less less_le_trans)
    then show "fcontent B' (din sin') p = (if p < (n - k) * SFS_BLKSIZE then fcontent B (din sin) p else 0)"
      using shrunk_content [OF Suc.prems(2) g(3), of p] r(5) by simp
  qed
  then show ?case using g(1) r(1,2,4) n fstep_trans [OF st r(3)] by auto
qed

lemma truncfile_ok:
  assumes at: "fs_at B F N s" and ok: "file_ok B F N (din sin)"
    and sz: "di_blocks (din sin) = nblks_of (di_size (din sin))" and n: "n \<le> SFS_NBLKS * SFS_BLKSIZE"
  shows "\<exists>ret B' F' sin' s'. sfs_truncfile s sin (int n) = Some (ret, sin', s') \<and> fs_at B' F' N s' \<and>
    file_ok B' F' N (din sin') \<and> same_space B F (din sin) B' F' (din sin') \<and>
    (ret = 0 \<and> di_size (din sin') = n \<and> di_blocks (din sin') = nblks_of n \<and>
       fcontent B' (din sin') = (\<lambda>p. if p < nblks_of n * SFS_BLKSIZE then fcontent B (din sin) p else 0)
     \<or> ret = - E_NO_MEM \<and> di_size (din sin') = di_size (din sin) \<and> fcontent B' (din sin') = fcontent B (din sin) \<and>
       di_blocks (din sin) \<le> di_blocks (din sin') \<and> di_blocks (din sin') < nblks_of n \<and> card F' < grow_need (din sin') \<and>
       (grow_need (din sin) \<le> card F \<longrightarrow> di_blocks (din sin) < di_blocks (din sin')))"
proof -
  let ?b = "di_blocks (din sin)" and ?t = "nblks_of n"
  have t: "(nat (int n) + SFS_BLKSIZE - 1) div SFS_BLKSIZE = ?t" by (simp add: nblks_of_def)
  have tN: "?t \<le> SFS_NBLKS" using n nblks_of_le by simp
  have c0: "fcontent B (din sin) p = 0" if "?b * SFS_BLKSIZE \<le> p" for p
    using that by (auto simp: fcontent_def div_less_iff_less_mult)
  have upd: "file_ok B' F' N (din (upd_din (\<lambda>di. di\<lparr>di_size := n\<rparr>) sin'\<lparr>dirty := True\<rparr>))"
    "same_space B F (din sin) B' F' (din (upd_din (\<lambda>di. di\<lparr>di_size := n\<rparr>) sin'\<lparr>dirty := True\<rparr>))"
    "fcontent B' (din (upd_din (\<lambda>di. di\<lparr>di_size := n\<rparr>) sin'\<lparr>dirty := True\<rparr>)) = fcontent B' (din sin')"
    if "fstep N B F sin B' F' sin'" for B' F' sin'
  proof -
    let ?s = "upd_din (\<lambda>di. di\<lparr>di_size := n\<rparr>) sin'\<lparr>dirty := True\<rparr>"
    have m: "fblk B' (din ?s) = fblk B' (din sin')" by (intro ext fblk_cong) auto
    then have o: "owned B' (din ?s) = owned B' (din sin')" by (simp add: owned_def)
    show "fcontent B' (din ?s) = fcontent B' (din sin')" using m by (simp add: fcontent_def fun_eq_iff)
    have f: "file_ok B' F' N (din sin')" "same_space B F (din sin) B' F' (din sin')" using that by (simp_all add: fstep_def)
    show "file_ok B' F' N (din ?s)" by (rule file_ok_cong [OF f(1)]) simp_all
    show "same_space B F (din sin) B' F' (din ?s)" using f(2) unfolding same_space_def o .
  qed
  consider "di_size (din sin) = n" | "di_size (din sin) \<noteq> n" "?b < ?t" | "di_size (din sin) \<noteq> n" "?t \<le> ?b" by linarith
  then show ?thesis
  proof cases
    case 1
    have "fcontent B (din sin) = (\<lambda>p. if p < ?t * SFS_BLKSIZE then fcontent B (din sin) p else 0)" using c0 sz 1 by auto
    moreover have "sfs_truncfile s sin (int n) = Some (0, sin, s)" using 1 sz n unfolding sfs_truncfile_def t Let_def by simp
    ultimately show ?thesis using at ok sz 1 same_space_refl by blast
  next
    case 2
    obtain ret j B' F' sin' s' where g: "trunc_grow s sin ?b (?t - ?b) = Some (ret, sin', s')" "fs_at B' F' N s'"
      "fstep N B F sin B' F' sin'" "fcontent B' (din sin') = fcontent B (din sin)" "di_blocks (din sin') = ?b + j"
      "ret = 0 \<and> j = ?t - ?b \<or> ret = - E_NO_MEM \<and> j < ?t - ?b \<and> card F' < grow_need (din sin')"
      "grow_need (din sin) \<le> card F \<longrightarrow> 0 < ?t - ?b \<longrightarrow> 0 < j"
      using trunc_grow_ok [OF at ok, of "?t - ?b"] tN 2 by auto
    show ?thesis
    proof (cases "ret = 0")
      case True
      then have "sfs_truncfile s sin (int n) = Some (0, upd_din (\<lambda>di. di\<lparr>di_size := n\<rparr>) sin'\<lparr>dirty := True\<rparr>, s')"
        using g 2 n unfolding sfs_truncfile_def t Let_def by simp
      moreover have "fcontent B (din sin) = (\<lambda>p. if p < ?t * SFS_BLKSIZE then fcontent B (din sin) p else 0)"
        using c0 mult_le_mono1 [of ?b ?t SFS_BLKSIZE] 2 by (auto simp: fun_eq_iff)
      ultimately show ?thesis using g(2,4,5,6) upd [OF g(3)] True 2 by auto
    next
      case False
      then have "sfs_truncfile s sin (int n) = Some (ret, sin', s')" using g(1) 2 n unfolding sfs_truncfile_def t Let_def by simp
      moreover have "file_ok B' F' N (din sin')" "same_space B F (din sin) B' F' (din sin')" "di_size (din sin') = di_size (din sin)"
        using g(3) by (simp_all add: fstep_def)
      ultimately show ?thesis using g(2,4,5,6,7) False 2
        by (intro exI [of _ ret] exI [of _ B'] exI [of _ F'] exI [of _ sin'] exI [of _ s']) auto
    qed
  next
    case 3
    obtain B' F' sin' s' where g: "trunc_shrink s sin (?b - ?t) = Some (0, sin', s')" "fs_at B' F' N s'" "fstep N B F sin B' F' sin'"
      "di_blocks (din sin') = ?b - (?b - ?t)"
      "fcontent B' (din sin') = (\<lambda>p. if p < (?b - (?b - ?t)) * SFS_BLKSIZE then fcontent B (din sin) p else 0)"
      using trunc_shrink_ok [OF at ok, of "?b - ?t"] by auto
    have bt: "?b - (?b - ?t) = ?t" using 3 by simp
    have "sfs_truncfile s sin (int n) = Some (0, upd_din (\<lambda>di. di\<lparr>di_size := n\<rparr>) sin'\<lparr>dirty := True\<rparr>, s')"
      using g(1,4) 3 n bt unfolding sfs_truncfile_def t Let_def by simp
    then show ?thesis using g(2,4,5) upd [OF g(3)] unfolding bt by auto
  qed
qed

end

end
