(* ===== verification/SfsCache.thy ===== *)
theory SfsCache
  imports SfsRw
begin

text \<open>
  The in-memory side of the simple file system: the inodes in memory with their reference counts and the two lists
  that index them (\<^verbatim>\<open>sfs_inode.c\<close>, with the counters of \<^verbatim>\<open>kern/fs/vfs/inode.c\<close>), looking up names, and mounting, writing
  back and unmounting a file system (\<^verbatim>\<open>sfs_fs.c\<close>). Inodes in memory are numbered; a number stands for the address of a
  \<^verbatim>\<open>struct inode\<close>.
\<close>

section \<open>Inodes in memory\<close>

record vnode =
  vsin :: sfs_inode
  ref_count :: int
  open_count :: int

record 'd mnt =
  fs :: "'d sfs_fs"
  nodes :: "nat \<Rightarrow> vnode"
  inode_list :: "nat list"
  sfs_hash :: "nat \<Rightarrow> nat list"

definition no_node :: vnode where
  "no_node = \<lparr>vsin = \<lparr>din = din_of [], ino = 0, dirty = False, reclaim_count = 0\<rparr>, ref_count = 0, open_count = 0\<rparr>"

abbreviation (input) MAX_INODE_COUNT :: int where "MAX_INODE_COUNT \<equiv> 0x10000"

definition set_node :: "nat \<Rightarrow> vnode \<Rightarrow> 'd mnt \<Rightarrow> 'd mnt" where
  "set_node n v m = m\<lparr>nodes := (nodes m)(n := v)\<rparr>"

definition set_sin :: "nat \<Rightarrow> sfs_inode \<Rightarrow> 'd sfs_fs \<Rightarrow> 'd mnt \<Rightarrow> 'd mnt" where
  "set_sin n i s m = set_node n ((nodes m n)\<lparr>vsin := i\<rparr>) (m\<lparr>fs := s\<rparr>)"

text \<open>\<^verbatim>\<open>inode_check\<close>, which every \<^verbatim>\<open>vop_\<close> call runs first.\<close>

definition inode_check :: "'d mnt \<Rightarrow> nat \<Rightarrow> unit option" where
  "inode_check m n = (let r = ref_count (nodes m n); c = open_count (nodes m n) in
     do {
       kassert (r \<ge> c \<and> c \<ge> 0);
       kassert (r < MAX_INODE_COUNT \<and> c < MAX_INODE_COUNT)
     })"

definition inode_ref_inc :: "nat \<Rightarrow> 'd mnt \<Rightarrow> int \<times> 'd mnt" where
  "inode_ref_inc n m = (let r = ref_count (nodes m n) + 1 in (r, set_node n ((nodes m n)\<lparr>ref_count := r\<rparr>) m))"

definition inode_open_inc :: "nat \<Rightarrow> 'd mnt \<Rightarrow> int \<times> 'd mnt" where
  "inode_open_inc n m = (let c = open_count (nodes m n) + 1 in (c, set_node n ((nodes m n)\<lparr>open_count := c\<rparr>) m))"

definition inode_init :: "nat \<Rightarrow> sfs_inode \<Rightarrow> 'd mnt \<Rightarrow> 'd mnt" where
  "inode_init n i m = snd (inode_ref_inc n (set_node n \<lparr>vsin = i, ref_count = 0, open_count = 0\<rparr> m))"

definition inode_kill :: "'d mnt \<Rightarrow> nat \<Rightarrow> unit option" where
  "inode_kill m n = do {
     kassert (ref_count (nodes m n) = 0);
     kassert (open_count (nodes m n) = 0)
   }"

definition sin_hashfn :: "nat \<Rightarrow> nat" where
  "sin_hashfn x = unat (hash32 (word_of_nat x) 10)"

definition sfs_set_links :: "nat \<Rightarrow> 'd mnt \<Rightarrow> 'd mnt" where
  "sfs_set_links n m = (let h = sin_hashfn (ino (vsin (nodes m n))) in
     m\<lparr>inode_list := n # inode_list m, sfs_hash := (sfs_hash m)(h := n # sfs_hash m h)\<rparr>)"

definition sfs_remove_links :: "nat \<Rightarrow> 'd mnt \<Rightarrow> 'd mnt" where
  "sfs_remove_links n m = (let h = sin_hashfn (ino (vsin (nodes m n))) in
     m\<lparr>inode_list := remove1 n (inode_list m), sfs_hash := (sfs_hash m)(h := remove1 n (sfs_hash m h))\<rparr>)"

definition sfs_get_ops :: "nat \<Rightarrow> unit option" where
  "sfs_get_ops ty = kassert (ty = SFS_TYPE_DIR \<or> ty = SFS_TYPE_FILE)"

text \<open>\<open>node\<close> is the outcome of the allocation of the inode.\<close>

definition sfs_create_inode ::
  "nat option \<Rightarrow> sfs_disk_inode \<Rightarrow> nat \<Rightarrow> 'd mnt \<Rightarrow> (int \<times> nat \<times> 'd mnt) option" where
  "sfs_create_inode node di i m =
     (case node of
        Some n \<Rightarrow> do {
          sfs_get_ops (di_type di);
          Some (0, n, inode_init n \<lparr>din = di, ino = i, dirty = False, reclaim_count = 1\<rparr> m)
        }
      | None \<Rightarrow> Some (- E_NO_MEM, 0, m))"

text \<open>\<^verbatim>\<open>lookup_sfs_nolock\<close>: the first inode with the number in its hash list gets one more reference.\<close>

definition lookup_sfs_nolock :: "nat \<Rightarrow> 'd mnt \<Rightarrow> (nat \<times> 'd mnt) option" where
  "lookup_sfs_nolock i m =
     (case find (\<lambda>n. ino (vsin (nodes m n)) = i) (sfs_hash m (sin_hashfn i)) of
        None \<Rightarrow> None
      | Some n \<Rightarrow>
          let (r, m1) = inode_ref_inc n m;
              sn = vsin (nodes m1 n) in
          Some (n, if r = 1 then set_sin n (sn\<lparr>reclaim_count := reclaim_count sn + 1\<rparr>) (fs m1) m1 else m1))"

text \<open>\<open>got\<close> is the outcome of the allocation of the buffer for the inode on disk.\<close>

definition sfs_load_inode ::
  "bool \<Rightarrow> nat option \<Rightarrow> nat \<Rightarrow> 'd mnt \<Rightarrow> (int \<times> nat \<times> 'd mnt) option" where
  "sfs_load_inode got node i m =
     (case lookup_sfs_nolock i m of
        Some (n, m1) \<Rightarrow> Some (0, n, m1)
      | None \<Rightarrow>
          if \<not> got then Some (- E_NO_MEM, 0, m)
          else do {
            u \<leftarrow> sfs_block_inuse (fs m) i;
            kassert u;
            (ret, b, s1) \<leftarrow> sfs_rbuf (fs m) 64 i 0;
            let m1 = m\<lparr>fs := s1\<rparr>;
            if ret \<noteq> 0 then Some (ret, 0, m1)
            else do {
              kassert (di_nlinks (din_of b) \<noteq> 0);
              (ret, n, m2) \<leftarrow> sfs_create_inode node (din_of b) i m1;
              if ret \<noteq> 0 then Some (ret, 0, m2)
              else Some (0, n, sfs_set_links n m2)
            }
          })"

definition vop_fsync :: "nat \<Rightarrow> 'd mnt \<Rightarrow> (int \<times> 'd mnt) option" where
  "vop_fsync n m = do {
     inode_check m n;
     (ret, i, s1) \<leftarrow> sfs_fsync (fs m) (vsin (nodes m n));
     Some (ret, set_sin n i s1 m)
   }"

text \<open>Only the operations of regular files have a \<^verbatim>\<open>vop_truncate\<close>.\<close>

definition vop_truncate :: "nat \<Rightarrow> int \<Rightarrow> 'd mnt \<Rightarrow> (int \<times> 'd mnt) option" where
  "vop_truncate n len m = do {
     kassert (di_type (din (vsin (nodes m n))) = SFS_TYPE_FILE);
     inode_check m n;
     (ret, i, s1) \<leftarrow> sfs_truncfile (fs m) (vsin (nodes m n)) len;
     Some (ret, set_sin n i s1 m)
   }"

definition sfs_reclaim :: "nat \<Rightarrow> 'd mnt \<Rightarrow> (int \<times> 'd mnt) option" where
  "sfs_reclaim n m = do {
     let sn = vsin (nodes m n);
     kassert (reclaim_count sn > 0);
     let m1 = set_sin n (sn\<lparr>reclaim_count := reclaim_count sn - 1\<rparr>) (fs m) m;
     if reclaim_count sn - 1 \<noteq> 0 \<or> ref_count (nodes m1 n) \<noteq> 0 then Some (- E_BUSY, m1)
     else do {
       (ret, m2) \<leftarrow> (if di_nlinks (din (vsin (nodes m1 n))) = 0 then vop_truncate n 0 m1 else Some (0, m1));
       if ret \<noteq> 0 then Some (ret, m2)
       else do {
         (ret, m3) \<leftarrow> (if dirty (vsin (nodes m2 n)) then vop_fsync n m2 else Some (0, m2));
         if ret \<noteq> 0 then Some (ret, m3)
         else do {
           let m4 = sfs_remove_links n m3;
           let di = din (vsin (nodes m4 n));
           m5 \<leftarrow> (if di_nlinks di = 0 then do {
                     s1 \<leftarrow> sfs_block_free (fs m4) (ino (vsin (nodes m4 n)));
                     s2 \<leftarrow> (if di_indirect di \<noteq> 0 then sfs_block_free s1 (di_indirect di) else Some s1);
                     Some (m4\<lparr>fs := s2\<rparr>)
                   } else Some m4);
           inode_kill m5 n;
           Some (0, m5)
         }
       }
     }
   }"

definition inode_ref_dec :: "nat \<Rightarrow> 'd mnt \<Rightarrow> (int \<times> 'd mnt) option" where
  "inode_ref_dec n m = do {
     kassert (ref_count (nodes m n) > 0);
     let r = ref_count (nodes m n) - 1;
     let m1 = set_node n ((nodes m n)\<lparr>ref_count := r\<rparr>) m;
     if r = 0 then do {
       inode_check m1 n;
       (_, m2) \<leftarrow> sfs_reclaim n m1;
       Some (r, m2)
     } else Some (r, m1)
   }"

definition inode_open_dec :: "nat \<Rightarrow> 'd mnt \<Rightarrow> (int \<times> 'd mnt) option" where
  "inode_open_dec n m = do {
     kassert (open_count (nodes m n) > 0);
     let c = open_count (nodes m n) - 1;
     let m1 = set_node n ((nodes m n)\<lparr>open_count := c\<rparr>) m;
     if c = 0 then do {
       (_, m2) \<leftarrow> vop_fsync n m1;
       Some (c, m2)
     } else Some (c, m1)
   }"

section \<open>Names\<close>

text \<open>Outcomes of the allocations that a lookup makes: the entry buffer, the inode on disk and the inode in memory.\<close>

type_synonym lookup_env = "bool \<times> bool \<times> nat option"

definition sfs_lookup_once ::
  "lookup_env \<Rightarrow> nat \<Rightarrow> u8 list \<Rightarrow> 'd mnt \<Rightarrow> (int \<times> nat \<times> nat \<times> 'd mnt) option" where
  "sfs_lookup_once e n name m = (case e of (got_entry, got_din, node) \<Rightarrow> do {
     (ret, i, slot, _, sn, s1) \<leftarrow> sfs_dirent_search_nolock got_entry (fs m) (vsin (nodes m n)) name;
     let m1 = set_sin n sn s1 m;
     if ret = 0 then do {
       (ret, sub, m2) \<leftarrow> sfs_load_inode got_din node i m1;
       Some (ret, sub, slot, m2)
     } else Some (ret, 0, slot, m1)
   })"

definition sfs_lookup :: "lookup_env \<Rightarrow> nat \<Rightarrow> u8 list \<Rightarrow> 'd mnt \<Rightarrow> (int \<times> nat \<times> 'd mnt) option" where
  "sfs_lookup e n path m = do {
     kassert (path \<noteq> [] \<and> hd path \<noteq> 47);
     let m1 = snd (inode_ref_inc n m);
     if di_type (din (vsin (nodes m1 n))) \<noteq> SFS_TYPE_DIR then do {
       (_, m2) \<leftarrow> inode_ref_dec n m1;
       Some (- E_NOTDIR, 0, m2)
     } else do {
       (ret, sub, _, m2) \<leftarrow> sfs_lookup_once e n path m1;
       (_, m3) \<leftarrow> inode_ref_dec n m2;
       Some (ret, sub, m3)
     }
   }"

section \<open>Mounting\<close>

abbreviation (input) SFS_MAGIC :: nat where "SFS_MAGIC \<equiv> 0x2f8dbe2a"

definition sfs_init_read :: "'d device \<Rightarrow> nat \<Rightarrow> u8 list \<Rightarrow> 'd \<Rightarrow> (int \<times> u8 list \<times> 'd) option" where
  "sfs_init_read dv blkno buf d = do {
     (ret, iob, d1) \<leftarrow> d_io dv d (iobuf_init buf SFS_BLKSIZE (int (blkno * SFS_BLKSIZE mod 2 ^ 32))) False;
     Some (ret, io_mem iob, d1)
   }"

text \<open>The words of a bitmap whose memory holds the bytes.\<close>

fun bytes_map :: "u8 list \<Rightarrow> u32 list" where
  "bytes_map (a # b # c # d # bs) = word_of_nat (of_le [a, b, c, d]) # bytes_map bs"
| "bytes_map _ = []"

fun init_freemap :: "'d device \<Rightarrow> nat \<Rightarrow> nat \<Rightarrow> u8 list \<Rightarrow> 'd \<Rightarrow> (int \<times> u8 list \<times> 'd) option" where
  "init_freemap dv blkno 0 data d = Some (0, data, d)"
| "init_freemap dv blkno (Suc nblks) data d = do {
     (ret, b, d1) \<leftarrow> sfs_init_read dv blkno (take SFS_BLKSIZE data) d;
     if ret \<noteq> 0 then Some (ret, b @ drop SFS_BLKSIZE data, d1)
     else do {
       (ret, rest, d2) \<leftarrow> init_freemap dv (blkno + 1) nblks (drop SFS_BLKSIZE data) d1;
       Some (ret, b @ rest, d2)
     }
   }"

definition sfs_init_freemap :: "'d device \<Rightarrow> bitmap \<Rightarrow> nat \<Rightarrow> nat \<Rightarrow> 'd \<Rightarrow> (int \<times> bitmap \<times> 'd) option" where
  "sfs_init_freemap dv fm blkno nblks d = do {
     kassert (fst (bitmap_getdata fm) = nblks * SFS_BLKSIZE);
     (ret, data, d1) \<leftarrow> init_freemap dv blkno nblks (map_bytes (bmap fm)) d;
     Some (ret, fm\<lparr>bmap := bytes_map data\<rparr>, d1)
   }"

fun count_unused :: "bitmap \<Rightarrow> nat \<Rightarrow> nat \<Rightarrow> nat option" where
  "count_unused fm i 0 = Some 0"
| "count_unused fm i (Suc k) = do {
     t \<leftarrow> bitmap_test fm i;
     n \<leftarrow> count_unused fm (i + 1) k;
     Some (if t then n + 1 else n)
   }"

definition super_of :: "u8 list \<Rightarrow> sfs_super" where
  "super_of bs = \<lparr>sb_magic = of_le (chunk 0 4 bs), sb_blocks = of_le (chunk 4 4 bs), sb_unused = of_le (chunk 8 4 bs),
     sb_info = chunk 12 32 bs\<rparr>"

text \<open>Outcomes of the allocations of \<^verbatim>\<open>sfs_do_mount\<close>, in order: the file system, its buffer, the hash lists, the bitmap
  and its words.\<close>

record mount_env =
  got_fs :: bool
  got_buffer :: "u8 list option"
  got_hash :: bool
  got_bitmap :: bool
  got_map :: bool

definition sfs_do_mount :: "mount_env \<Rightarrow> 'd device \<Rightarrow> 'd \<Rightarrow> (int \<times> 'd mnt option \<times> 'd) option" where
  "sfs_do_mount e dv d =
     (if d_blocksize dv \<noteq> SFS_BLKSIZE then Some (- E_NA_DEV, None, d)
      else if \<not> got_fs e then Some (- E_NO_MEM, None, d)
      else case got_buffer e of
        None \<Rightarrow> Some (- E_NO_MEM, None, d)
      | Some buf \<Rightarrow> do {
          (ret, b, d1) \<leftarrow> sfs_init_read dv SFS_BLKN_SUPER buf d;
          if ret \<noteq> 0 then Some (ret, None, d1)
          else do {
            let sp = super_of b;
            if sb_magic sp \<noteq> SFS_MAGIC then Some (- E_INVAL, None, d1)
            else if sb_blocks sp > d_blocks dv then Some (- E_INVAL, None, d1)
            else do {
              let sp = sp\<lparr>sb_info := (sb_info sp)[31 := 0]\<rparr>;
              if \<not> got_hash e then Some (- E_NO_MEM, None, d1)
              else do {
                fm \<leftarrow> bitmap_create (got_bitmap e) (got_map e) (sfs_freemap_bits sp);
                (case fm of
                   None \<Rightarrow> Some (- E_NO_MEM, None, d1)
                 | Some fm \<Rightarrow> do {
                     (ret, fm1, d2) \<leftarrow> sfs_init_freemap dv fm SFS_BLKN_FREEMAP (sfs_freemap_blocks sp) d1;
                     if ret \<noteq> 0 then Some (ret, None, d2)
                     else do {
                       unused \<leftarrow> count_unused fm1 0 (sfs_freemap_bits sp);
                       kassert (unused = sb_unused sp);
                       Some (0, Some
                         \<lparr>fs = \<lparr>super = sp, sfs_dev = dv, sfs_dst = d2, freemap = fm1, super_dirty = False,
                                  sfs_buffer = b[43 := 0]\<rparr>,
                          nodes = (\<lambda>_. no_node), inode_list = [], sfs_hash = (\<lambda>_. [])\<rparr>, d2)
                     }
                   })
              }
            }
          }
        })"

section \<open>Writing back and unmounting\<close>

fun sync_inodes :: "nat list \<Rightarrow> 'd mnt \<Rightarrow> 'd mnt option" where
  "sync_inodes [] m = Some m"
| "sync_inodes (n # ns) m = do {
     (_, m1) \<leftarrow> vop_fsync n m;
     sync_inodes ns m1
   }"

definition sfs_sync :: "'d mnt \<Rightarrow> (int \<times> 'd mnt) option" where
  "sfs_sync m = do {
     m1 \<leftarrow> sync_inodes (inode_list m) m;
     if super_dirty (fs m1) then do {
       (ret, s2) \<leftarrow> sfs_sync_super ((fs m1)\<lparr>super_dirty := False\<rparr>);
       if ret \<noteq> 0 then Some (ret, m1\<lparr>fs := s2\<lparr>super_dirty := True\<rparr>\<rparr>)
       else do {
         (ret, s3) \<leftarrow> sfs_sync_freemap s2;
         if ret \<noteq> 0 then Some (ret, m1\<lparr>fs := s3\<lparr>super_dirty := True\<rparr>\<rparr>)
         else Some (0, m1\<lparr>fs := s3\<rparr>)
       }
     } else Some (0, m1)
   }"

definition sfs_get_root :: "bool \<Rightarrow> nat option \<Rightarrow> 'd mnt \<Rightarrow> (nat \<times> 'd mnt) option" where
  "sfs_get_root got node m = do {
     (ret, n, m1) \<leftarrow> sfs_load_inode got node SFS_BLKN_ROOT m;
     if ret \<noteq> 0 then panic else Some (n, m1)
   }"

text \<open>A successful \<^verbatim>\<open>sfs_unmount\<close> releases the memory of the file system, which has no further state.\<close>

definition sfs_unmount :: "'d mnt \<Rightarrow> int option" where
  "sfs_unmount m =
     (if inode_list m \<noteq> [] then Some (- E_BUSY)
      else do {
        kassert (\<not> super_dirty (fs m));
        Some 0
      })"

fun cleanup_sync :: "nat \<Rightarrow> 'd mnt \<Rightarrow> (int \<times> 'd mnt) option" where
  "cleanup_sync 0 m = sfs_sync m"
| "cleanup_sync (Suc k) m = do {
     (ret, m1) \<leftarrow> sfs_sync m;
     if ret = 0 then Some (0, m1) else cleanup_sync k m1
   }"

definition sfs_cleanup :: "'d mnt \<Rightarrow> 'd mnt option" where
  "sfs_cleanup m = map_option snd (cleanup_sync 31 m)"

end
