(* ===== verification/SfsProps.thy ===== *)
theory SfsProps
  imports SfsRw
begin

text \<open>
  The properties of files and directories for a file system on \<^verbatim>\<open>disk0\<close>, and their examples. The lemmas of the library
  hold for every block device; here they are used for the device the kernel mounts.
\<close>

section \<open>A file system on disk0\<close>

abbreviation disk0_fs :: "nat \<Rightarrow> (nat \<Rightarrow> u8 list) \<Rightarrow> nat set \<Rightarrow> nat \<Rightarrow> disk0 sfs_fs \<Rightarrow> bool" where
  "disk0_fs n \<equiv> sfs_at (disk0_dev n) (disk0_ok n) disk0_blk"

text \<open>32 blocks: the superblock, one block in use, and the rest free, or only block 5 free.\<close>

definition sfs_with :: "u32 \<Rightarrow> nat \<Rightarrow> disk0 sfs_fs" where
  "sfs_with w unused =
     \<lparr>super = \<lparr>sb_magic = 0x2f8dbe2a, sb_blocks = 32, sb_unused = unused, sb_info = replicate 32 0\<rparr>,
      sfs_dev = disk0_dev 32,
      sfs_dst = \<lparr>ide_devices = (\<lambda>i. \<lparr>ide_valid = True, ide_size = 256, ide_mem = (\<lambda>a. 0)\<rparr>),
        disk0_buffer = replicate DISK0_BUFSIZE 0\<rparr>,
      freemap = \<lparr>nbits = 32, nwords = 1, bmap = [w]\<rparr>, super_dirty = False, sfs_buffer = replicate SFS_BLKSIZE 0\<rparr>"

definition sfs0 :: "disk0 sfs_fs" where
  "sfs0 = sfs_with (NOT (mask 2)) 30"

definition sfs_full :: "disk0 sfs_fs" where
  "sfs_full = sfs_with (bit_mask 5) 1"

definition sin0 :: sfs_inode where
  "sin0 = \<lparr>din = \<lparr>di_size = 0, di_type = SFS_TYPE_FILE, di_nlinks = 1, di_blocks = 0, di_direct = replicate 12 0,
     di_indirect = 0\<rparr>, ino = 1, dirty = False, reclaim_count = 1\<rparr>"

lemma free_bits_word: "free_bits \<lparr>nbits = n, nwords = Suc 0, bmap = [w]\<rparr> = {i. i < 32 \<and> bit w i}"
  by (auto simp: free_bits_def)

lemma sfs_with_ok:
  assumes "F = {i. i < 32 \<and> bit w i}" "F \<subseteq> {0<..<32}" "card F = unused"
  shows "disk0_fs 32 (\<lambda>b. replicate 4096 0) F 32 (sfs_with w unused)"
proof -
  have "disk0_blk (sfs_dst (sfs_with w unused)) = (\<lambda>b. replicate 4096 0)"
    by (rule ext) (simp add: disk0_blk_def disk0_mem_def sfs_with_def mem_read_def map_replicate_const)
  then show ?thesis using assms
    by (auto simp: sfs_at_def sfs_with_def disk0_dev_def disk0_ok_def VALID_IDE_def bitmap_ok_def free_bits_word)
qed

lemma sfs0_ok: "disk0_fs 32 (\<lambda>b. replicate 4096 0) {2..<32} 32 sfs0"
  unfolding sfs0_def by (rule sfs_with_ok) (auto simp: bit_not_iff bit_mask_iff)

lemma sfs_full_ok: "disk0_fs 32 (\<lambda>b. replicate 4096 0) {5} 32 sfs_full"
  unfolding sfs_full_def by (rule sfs_with_ok) (auto simp: bit_mask_bit)

lemma sin0_ok: "file_ok B F N (din sin0)" "di_blocks (din sin0) = nblks_of (di_size (din sin0))"
  "fcontent B (din sin0) = (\<lambda>p. 0)" "owned B (din sin0) = {}"
  by (auto simp: file_ok_def sin0_def fblk_def nblks_of_def fcontent_def owned_def)

lemma sin0_simps: "di_type (din sin0) = SFS_TYPE_FILE" "di_size (din sin0) = 0" "di_type (din sin0) \<noteq> SFS_TYPE_DIR"
  "di_blocks (din sin0) = 0" "di_indirect (din sin0) = 0"
  by (simp_all add: sin0_def)

section \<open>Reading and writing\<close>

text \<open>C26. Reading a file returns exactly its bytes: the number returned is the number asked for, cut at the end of the file;
  the buffer holds the bytes of the file from the offset on and is unchanged behind them; neither the file nor the disk
  changes. The alignment of the request to blocks does not matter.\<close>

theorem sfs_read_exact:
  assumes "disk0_fs d B F N s" and "file_ok B F N (din sin)" and "di_type (din sin) \<noteq> SFS_TYPE_DIR"
    and "di_blocks (din sin) = nblks_of (di_size (din sin))"
    and "int off < SFS_MAX_FILE_SIZE" and "off + n < 2 ^ 63" and "min n (di_size (din sin) - off) \<le> length buf"
  shows "\<exists>s'. sfs_io_nolock s sin buf (int off) n False =
      Some (0, min n (di_size (din sin) - off),
        overwrite buf 0 (mem_read (fcontent B (din sin)) off (min n (di_size (din sin) - off))), sin, s') \<and>
    disk0_fs d B F N s'"
  by (rule d0.io_read_ok [OF assms])

text \<open>C16. Writing a file from a position within it replaces exactly the bytes written: it returns 0 and writes everything, or
  it stops with \<^verbatim>\<open>-E_NO_MEM\<close> after a prefix because the disk is full. The bytes written are the prefix of the buffer, all
  other bytes of the file stay, the size grows to the end of what was written, the inode keeps exactly the blocks its size
  needs, no block is lost, and no block of another file is touched.\<close>

theorem sfs_write_exact:
  assumes "disk0_fs d B F N s" and "file_ok B F N (din sin)" and "di_type (din sin) \<noteq> SFS_TYPE_DIR"
    and "di_blocks (din sin) = nblks_of (di_size (din sin))"
    and "off \<le> di_size (din sin)" and "off + n \<le> SFS_NBLKS * SFS_BLKSIZE" and "n \<le> length buf"
  shows "\<exists>ret m B' F' sin' s'. sfs_io_nolock s sin buf (int off) n True = Some (ret, m, buf, sin', s') \<and> disk0_fs d B' F' N s' \<and>
    (ret = 0 \<and> m = n \<or> ret = - E_NO_MEM \<and> m < n \<and> card F' < grow_need (din sin')) \<and>
    fcontent B' (din sin') = mem_write (fcontent B (din sin)) off (take m buf) \<and>
    di_size (din sin') = max (di_size (din sin)) (off + m) \<and> di_type (din sin') = di_type (din sin) \<and>
    file_ok B' F' N (din sin') \<and> di_blocks (din sin') = nblks_of (di_size (din sin')) \<and>
    same_space B F (din sin) B' F' (din sin')"
  by (rule d0.io_write_ok [OF assms])

text \<open>A small file is written completely to the example disk.\<close>

lemma hello_written:
  obtains B' F' sin' s' where "sfs_io_nolock sfs0 sin0 [104, 105] (int 0) 2 True = Some (0, 2, [104, 105], sin', s')"
    "disk0_fs 32 B' F' 32 s'" "fcontent B' (din sin') = mem_write (\<lambda>p. 0) 0 [104, 105]" "di_size (din sin') = 2"
    "file_ok B' F' 32 (din sin')" "di_type (din sin') = SFS_TYPE_FILE" "di_blocks (din sin') = nblks_of (di_size (din sin'))"
proof -
  have sz: "0 \<le> di_size (din sin0)" "0 + 2 \<le> SFS_NBLKS * SFS_BLKSIZE" "2 \<le> length [104, 105 :: u8]" by simp_all
  obtain ret m B' F' sin' s' where w: "sfs_io_nolock sfs0 sin0 [104, 105] (int 0) 2 True = Some (ret, m, [104, 105], sin', s')"
    "disk0_fs 32 B' F' 32 s'" "ret = 0 \<and> m = 2 \<or> ret = - E_NO_MEM \<and> m < 2 \<and> card F' < grow_need (din sin')"
    "fcontent B' (din sin') = mem_write (\<lambda>p. 0) 0 (take m [104, 105])" "di_size (din sin') = max 0 (0 + m)"
    "file_ok B' F' 32 (din sin')" "di_blocks (din sin') = nblks_of (di_size (din sin'))"
    "same_space (\<lambda>b. replicate 4096 0) {2..<32} (din sin0) B' F' (din sin')" "di_type (din sin') = SFS_TYPE_FILE"
    using d0.io_write_ok [OF sfs0_ok sin0_ok(1) sin0_simps(3) sin0_ok(2) sz] unfolding sin0_ok(3) sin0_simps(1,2) by blast
  have "\<not> card F' < grow_need (din sin')"
  proof -
    have o: "owned B' (din sin') \<union> F' = {2..<32}" using w(8) by (simp add: same_space_def sin0_ok(4))
    have "m \<le> 2" using w(3) by auto
    then have "di_blocks (din sin') \<le> 1" using w(5,7) nblks_of_le [of m 1] by simp
    then have "{..<di_blocks (din sin')} \<subseteq> {0}" by auto
    then have "fblk B' (din sin') ` {..<di_blocks (din sin')} \<subseteq> {fblk B' (din sin') 0}" by blast
    then have "owned B' (din sin') \<subseteq> {fblk B' (din sin') 0, di_indirect (din sin')}" by (auto simp: owned_def)
    then have "card (owned B' (din sin')) \<le> card {fblk B' (din sin') 0, di_indirect (din sin')}" by (rule card_mono [rotated]) simp
    also have "\<dots> \<le> 2" by (simp add: card_insert_if)
    finally have "card (owned B' (din sin')) \<le> 2" .
    moreover have "card ({2..<32} :: nat set) \<le> card (owned B' (din sin')) + card F'" unfolding o [symmetric] by (rule card_Un_le)
    ultimately show ?thesis by (simp add: grow_need_def)
  qed
  then have m: "ret = 0" "m = 2" using w(3) by auto
  show ?thesis by (rule that [OF _ w(2) _ _ w(6,9,7)]) (use w(1,4,5) m in simp_all)
qed

lemma sfs_write_exact_witness:
  "\<exists>ret m B' F' sin' s'. sfs_io_nolock sfs0 sin0 [104, 105] (int 0) 2 True = Some (ret, m, [104, 105], sin', s') \<and>
    disk0_fs 32 B' F' 32 s' \<and> file_ok B' F' 32 (din sin')"
proof -
  have sz: "0 \<le> di_size (din sin0)" "0 + 2 \<le> SFS_NBLKS * SFS_BLKSIZE" "2 \<le> length [104, 105 :: u8]" by simp_all
  show ?thesis using sfs_write_exact [OF sfs0_ok sin0_ok(1) sin0_simps(3) sin0_ok(2) sz] by blast
qed

lemma sfs_read_exact_witness:
  "\<exists>sin' s' s''. sfs_io_nolock sfs0 sin0 [104, 105] (int 0) 2 True = Some (0, 2, [104, 105], sin', s') \<and>
    sfs_io_nolock s' sin' [0, 0, 9] (int 1) 7 False = Some (0, 1, [105, 0, 9], sin', s'')"
proof -
  obtain B' F' sin' s' where w: "sfs_io_nolock sfs0 sin0 [104, 105] (int 0) 2 True = Some (0, 2, [104, 105], sin', s')"
    "disk0_fs 32 B' F' 32 s'" "fcontent B' (din sin') = mem_write (\<lambda>p. 0) 0 [104, 105]" "di_size (din sin') = 2"
    "file_ok B' F' 32 (din sin')" "di_type (din sin') = SFS_TYPE_FILE" "di_blocks (din sin') = nblks_of (di_size (din sin'))"
    by (rule hello_written)
  have d: "di_type (din sin') \<noteq> SFS_TYPE_DIR" using w(6) by simp
  have "min 7 (2 - 1) = (1 :: nat)" by simp
  moreover have "overwrite [0, 0, 9] 0 (mem_read (mem_write (\<lambda>p. 0) 0 [104, 105]) 1 1) = [105, 0, 9 :: u8]"
    by (simp add: mem_read_def mem_write_def overwrite_def)
  ultimately have "\<exists>s''. sfs_io_nolock s' sin' [0, 0, 9] (int 1) 7 False = Some (0, 1, [105, 0, 9], sin', s'')"
    using sfs_read_exact [OF w(2,5) d w(7), of 1 7 "[0, 0, 9]"] unfolding w(3,4) by auto
  then show ?thesis using w(1) by blast
qed

text \<open>What was written is read back: after a complete write, reading the same range returns the bytes of the buffer.\<close>

theorem sfs_write_then_read:
  assumes "disk0_fs d B F N s" and "file_ok B F N (din sin)" and "di_type (din sin) \<noteq> SFS_TYPE_DIR"
    and "di_blocks (din sin) = nblks_of (di_size (din sin))"
    and "off \<le> di_size (din sin)" and "off + length bs \<le> SFS_NBLKS * SFS_BLKSIZE" and "length buf = length bs"
    and "sfs_io_nolock s sin bs (int off) (length bs) True = Some (0, m, b, sin', s')"
  shows "\<exists>s''. sfs_io_nolock s' sin' buf (int off) (length bs) False = Some (0, length bs, bs, sin', s'')"
proof -
  let ?n = "length bs"
  obtain B' F' where w: "disk0_fs d B' F' N s'" "m = ?n" "fcontent B' (din sin') = mem_write (fcontent B (din sin)) off (take m bs)"
    "di_size (din sin') = max (di_size (din sin)) (off + m)" "di_type (din sin') = di_type (din sin)" "file_ok B' F' N (din sin')"
    "di_blocks (din sin') = nblks_of (di_size (din sin'))"
    using d0.io_write_ok [OF assms(1-6) order.refl] assms(8) by auto
  have dir: "di_type (din sin') \<noteq> SFS_TYPE_DIR" using w(5) assms(3) by simp
  have n: "min ?n (di_size (din sin') - off) = ?n" using w(2,4) by simp
  have o: "int off < SFS_MAX_FILE_SIZE" "off + ?n < 2 ^ 63" "min ?n (di_size (din sin') - off) \<le> length buf"
    using assms(6,7) by simp_all
  have "overwrite buf 0 (mem_read (fcontent B' (din sin')) off ?n) = bs"
    unfolding w(3) w(2) using assms(7) by (simp add: mem_read_write_same)
  then show ?thesis using d0.io_read_ok [OF w(1,6) dir w(7) o] unfolding n by auto
qed

lemma sfs_write_then_read_witness:
  "\<exists>sin' s' s''. sfs_io_nolock sfs0 sin0 [104, 105] (int 0) 2 True = Some (0, 2, [104, 105], sin', s') \<and>
    sfs_io_nolock s' sin' [0, 0] (int 0) 2 False = Some (0, 2, [104, 105], sin', s'')"
proof -
  have sz: "0 \<le> di_size (din sin0)" "0 + length [104, 105 :: u8] \<le> SFS_NBLKS * SFS_BLKSIZE"
    "length [0, 0 :: u8] = length [104, 105 :: u8]" by simp_all
  have two: "length [104, 105 :: u8] = 2" by simp
  obtain sin' s' where w: "sfs_io_nolock sfs0 sin0 [104, 105] (int 0) 2 True = Some (0, 2, [104, 105], sin', s')"
    using hello_written by metis
  show ?thesis
    using sfs_write_then_read [OF sfs0_ok sin0_ok(1) sin0_simps(3) sin0_ok(2) sz] w unfolding two by blast
qed

text \<open>The block map addresses 1036 blocks, a little over 4 MiB, but \<^verbatim>\<open>SFS_MAX_FILE_SIZE\<close>, which \<^verbatim>\<open>sfs_io_nolock\<close> and
  \<^verbatim>\<open>sfs_truncfile\<close> check their arguments against, is 128 MiB: a write between the two bounds is not refused but stops the
  kernel, whatever the state of the file and of the disk.\<close>

theorem sfs_write_beyond_map:
  assumes "int (SFS_NBLKS * SFS_BLKSIZE) \<le> off" and "off < SFS_MAX_FILE_SIZE" and "0 < n" and "n < 2 ^ 62"
  shows "sfs_io_nolock s sin buf off n True = None"
proof -
  have load: "sfs_bmap_load_nolock s sin b = None" if "SFS_NBLKS \<le> b" for b
    using that by (auto simp: sfs_bmap_load_nolock_def sfs_bmap_get_nolock_def kassert_def panic_def Let_def)
  have e: "sext64 (off + int n) = off + int n" using assms by (intro sext64_id) simp_all
  let ?e = "if off + int n > SFS_MAX_FILE_SIZE then SFS_MAX_FILE_SIZE else off + int n"
  have b: "SFS_NBLKS \<le> nat off div SFS_BLKSIZE" using assms(1) by linarith
  have lt: "nat off < nat ?e" using assms by auto
  have "sfs_io_head True s sin buf (nat off) (nat ?e) = None"
  proof (cases "nat off mod SFS_BLKSIZE = 0")
    case False
    then show ?thesis using load [OF b] by (simp add: sfs_io_head_def Let_def)
  next
    case True
    show ?thesis
    proof (cases "nat ?e div SFS_BLKSIZE - nat off div SFS_BLKSIZE")
      case 0
      have "nat off div SFS_BLKSIZE * SFS_BLKSIZE = nat off" using True by auto
      moreover have "nat ?e div SFS_BLKSIZE \<le> nat off div SFS_BLKSIZE" using 0 by simp
      ultimately have "nat ?e mod SFS_BLKSIZE \<noteq> 0" using lt by (metis div_mult_mod_eq add.right_neutral linorder_not_less mult_le_mono1)
      then show ?thesis using True 0 load [OF b] unfolding sfs_io_head_def Let_def 0 by (simp add: sfs_io_tail_def Let_def)
    next
      case (Suc k)
      then show ?thesis using True load [OF b] unfolding sfs_io_head_def Let_def Suc by simp
    qed
  qed
  then show ?thesis using assms by (auto simp: sfs_io_nolock_def e Let_def kassert_def)
qed

lemma sfs_write_beyond_map_witness: "sfs_io_nolock sfs0 sin0 [1] 4243456 1 True = None"
  by (rule sfs_write_beyond_map) simp_all

section \<open>Resizing\<close>



text \<open>When growing a file fails half way because the disk is full, the blocks appended so far stay in the inode, so that
  the number of blocks no longer fits the size; any later request to set the file to the size it has stops the kernel at
  the assertion that compares the two. An empty file on a disk with one free block gets there by being extended to two
  blocks and then truncated to 0.\<close>

theorem sfs_truncfile_after_failure:
  assumes "disk0_fs d B F N s" and "file_ok B F N (din sin)"
    and "di_blocks (din sin) = nblks_of (di_size (din sin))" and "n \<le> SFS_NBLKS * SFS_BLKSIZE"
    and "grow_need (din sin) \<le> card F" and "sfs_truncfile s sin (int n) = Some (- E_NO_MEM, sin', s')"
  shows "di_size (din sin') = di_size (din sin) \<and> sfs_truncfile s' sin' (int (di_size (din sin))) = None"
proof -
  have g: "di_size (din sin') = di_size (din sin)" "di_blocks (din sin) < di_blocks (din sin')"
    using d0.truncfile_ok [OF assms(1-4)] assms(5,6) by auto
  let ?sz = "di_size (din sin)"
  have "nblks_of ?sz \<le> SFS_NBLKS" unfolding assms(3) [symmetric] by (rule file_okD(2) [OF assms(2)])
  then have "?sz \<le> SFS_NBLKS * SFS_BLKSIZE" using nblks_of_le by blast
  then have r: "\<not> (int ?sz < 0 \<or> int ?sz > SFS_MAX_FILE_SIZE)" by simp
  have "(nat (int ?sz) + SFS_BLKSIZE - 1) div SFS_BLKSIZE = nblks_of ?sz" by (simp add: nblks_of_def)
  then have "((nat (int ?sz) + SFS_BLKSIZE - 1) div SFS_BLKSIZE = di_blocks (din sin')) = False" using g(2) assms(3) by simp
  then have "sfs_truncfile s' sin' (int ?sz) = None"
    unfolding sfs_truncfile_def if_not_P [OF r] Let_def g(1) kassert_def by simp
  then show ?thesis using g by simp
qed

lemma sfs_truncfile_after_failure_witness:
  "\<exists>sin' s'. sfs_truncfile sfs_full sin0 (int 8192) = Some (- E_NO_MEM, sin', s') \<and> sfs_truncfile s' sin' (int 0) = None"
proof -
  have n: "8192 \<le> SFS_NBLKS * SFS_BLKSIZE" by simp
  obtain ret B' F' sin' s' where t: "sfs_truncfile sfs_full sin0 (int 8192) = Some (ret, sin', s')" "file_ok B' F' 32 (din sin')"
    "same_space (\<lambda>b. replicate 4096 0) {5} (din sin0) B' F' (din sin')"
    "ret = 0 \<and> di_blocks (din sin') = nblks_of 8192 \<or> ret = - E_NO_MEM"
    using d0.truncfile_ok [OF sfs_full_ok sin0_ok(1,2) n] by blast
  have "ret \<noteq> 0"
  proof
    assume "ret = 0"
    then have b: "di_blocks (din sin') = 2" using t(4) by (simp add: nblks_of_def)
    then have o: "fblk B' (din sin') 0 \<in> owned B' (din sin')" "fblk B' (din sin') 1 \<in> owned B' (din sin')" by (auto simp: owned_def)
    have "owned B' (din sin') \<subseteq> {5}" using t(3) by (auto simp: same_space_def sin0_ok(4))
    from subsetD [OF this o(1)] subsetD [OF this o(2)] have "fblk B' (din sin') 0 = fblk B' (din sin') 1" by simp
    then show False using file_okD(7) [OF t(2), of 0 1] b by simp
  qed
  then have "sfs_truncfile sfs_full sin0 (int 8192) = Some (- E_NO_MEM, sin', s')" using t(1,4) by simp
  moreover have "grow_need (din sin0) \<le> card {5 :: nat}" by (simp add: grow_need_def sin0_simps)
  ultimately show ?thesis
    using sfs_truncfile_after_failure [OF sfs_full_ok sin0_ok(1,2) n] unfolding sin0_simps(2) by blast
qed

end
