(* ===== verification/SfsMount.thy ===== *)
theory SfsMount
  imports SfsCache SfsProps
begin

text \<open>
  The properties of the in-memory inodes, of directories and of mounting: an inode on disk has at most one inode in
  memory, an inode that leaves memory is found again unchanged, a name is found where it is first, and a file system
  that has been written back is mounted with the same superblock and the same free blocks.
\<close>

section \<open>One inode in memory for each inode on disk\<close>

abbreviation node_ino :: "'d mnt \<Rightarrow> nat \<Rightarrow> nat" where
  "node_ino m n \<equiv> ino (vsin (nodes m n))"

definition cache_ok :: "'d mnt \<Rightarrow> bool" where
  "cache_ok m \<longleftrightarrow>
     distinct (inode_list m) \<and> inj_on (node_ino m) (set (inode_list m)) \<and>
     (\<forall>h. distinct (sfs_hash m h) \<and> set (sfs_hash m h) = {n \<in> set (inode_list m). sin_hashfn (node_ino m n) = h})"

lemma set_sin_simps [simp]:
  "fs (set_sin n i s m) = s" "inode_list (set_sin n i s m) = inode_list m" "sfs_hash (set_sin n i s m) = sfs_hash m"
  "nodes (set_sin n i s m) = (nodes m)(n := (nodes m n)\<lparr>vsin := i\<rparr>)"
  by (simp_all add: set_sin_def set_node_def)

lemma set_node_simps [simp]:
  "fs (set_node n v m) = fs m" "inode_list (set_node n v m) = inode_list m" "sfs_hash (set_node n v m) = sfs_hash m"
  "nodes (set_node n v m) = (nodes m)(n := v)"
  by (simp_all add: set_node_def)

lemma ref_inc_simps [simp]: "inode_ref_inc n m = (ref_count (nodes m n) + 1, set_node n ((nodes m n)\<lparr>ref_count := ref_count (nodes m n) + 1\<rparr>) m)"
  by (simp add: inode_ref_inc_def Let_def)

lemma cache_ok_cong:
  assumes "cache_ok m" "inode_list m' = inode_list m" "sfs_hash m' = sfs_hash m" "\<And>n. node_ino m' n = node_ino m n"
  shows "cache_ok m'"
  using assms by (simp add: cache_ok_def)

lemma find_SomeD: "find P xs = Some x \<Longrightarrow> x \<in> set xs \<and> P x"
  by (auto simp: find_Some_iff)

lemma cache_find:
  assumes "cache_ok m"
  shows "find (\<lambda>n. node_ino m n = i) (sfs_hash m (sin_hashfn i)) = Some n \<longleftrightarrow> n \<in> set (inode_list m) \<and> node_ino m n = i"
proof
  assume "find (\<lambda>n. node_ino m n = i) (sfs_hash m (sin_hashfn i)) = Some n"
  then show "n \<in> set (inode_list m) \<and> node_ino m n = i"
    using find_SomeD [of "\<lambda>n. node_ino m n = i"] assms unfolding cache_ok_def by blast
next
  assume n: "n \<in> set (inode_list m) \<and> node_ino m n = i"
  then have mem: "n \<in> set (sfs_hash m (sin_hashfn i))" using assms by (auto simp: cache_ok_def)
  then obtain n' where f: "find (\<lambda>n. node_ino m n = i) (sfs_hash m (sin_hashfn i)) = Some n'"
    using n by (metis (mono_tags, lifting) find_None_iff not_Some_eq)
  then have "n' \<in> set (inode_list m)" "node_ino m n' = i"
    using find_SomeD [of "\<lambda>n. node_ino m n = i"] assms unfolding cache_ok_def by blast+
  then have "n' = n" using n assms by (auto simp: cache_ok_def dest: inj_onD)
  then show "find (\<lambda>n. node_ino m n = i) (sfs_hash m (sin_hashfn i)) = Some n" using f by simp
qed

lemma set_links_ok:
  assumes "cache_ok m" "n \<notin> set (inode_list m)" "\<And>x. x \<in> set (inode_list m) \<Longrightarrow> node_ino m x \<noteq> node_ino m n"
  shows "cache_ok (sfs_set_links n m)"
proof -
  have "inj_on (node_ino m) (insert n (set (inode_list m)))"
    using assms by (auto simp: cache_ok_def inj_on_insert) (metis)
  moreover have "node_ino (sfs_set_links n m) = node_ino m" by (simp add: sfs_set_links_def Let_def)
  ultimately show ?thesis using assms(1,2) by (auto simp: cache_ok_def sfs_set_links_def Let_def)
qed

lemma remove_links_ok:
  assumes "cache_ok m"
  shows "cache_ok (sfs_remove_links n m)"
  using assms by (auto simp: cache_ok_def sfs_remove_links_def Let_def inj_on_def set_remove1_eq)

lemma load_cached:
  assumes "cache_ok m" "n \<in> set (inode_list m)" "node_ino m n = i"
  shows "\<exists>m'. sfs_load_inode got node i m = Some (0, n, m') \<and> fs m' = fs m \<and> cache_ok m' \<and> inode_list m' = inode_list m \<and>
    ref_count (nodes m' n) = ref_count (nodes m n) + 1 \<and> din (vsin (nodes m' n)) = din (vsin (nodes m n)) \<and>
    (\<forall>x. node_ino m' x = node_ino m x)"
proof -
  have f: "find (\<lambda>n. node_ino m n = i) (sfs_hash m (sin_hashfn i)) = Some n" using cache_find [OF assms(1)] assms(2,3) by blast
  obtain m' where m': "lookup_sfs_nolock i m = Some (n, m')" "fs m' = fs m" "inode_list m' = inode_list m" "sfs_hash m' = sfs_hash m"
    "\<And>x. node_ino m' x = node_ino m x" "ref_count (nodes m' n) = ref_count (nodes m n) + 1"
    "din (vsin (nodes m' n)) = din (vsin (nodes m n))"
    by (auto simp: lookup_sfs_nolock_def f Let_def)
  then have "sfs_load_inode got node i m = Some (0, n, m')" by (simp add: sfs_load_inode_def)
  then show ?thesis using m'(2,3,5,6,7) cache_ok_cong [OF assms(1) m'(3,4,5)] by blast
qed

lemma load_fresh:
  assumes ok: "cache_ok m" and new: "\<And>x. x \<in> set (inode_list m) \<Longrightarrow> node_ino m x \<noteq> i"
    and node: "\<And>p. node = Some p \<Longrightarrow> p \<notin> set (inode_list m)" and r: "sfs_load_inode got node i m = Some (0, n, m')"
  shows "node = Some n \<and> cache_ok m' \<and> inode_list m' = n # inode_list m \<and> node_ino m' n = i \<and> ref_count (nodes m' n) = 1 \<and>
    (\<forall>x \<in> set (inode_list m). nodes m' x = nodes m x)"
proof -
  have "find (\<lambda>n. node_ino m n = i) (sfs_hash m (sin_hashfn i)) = None"
    using cache_find [OF ok, of i] new by (cases "find (\<lambda>n. node_ino m n = i) (sfs_hash m (sin_hashfn i))") auto
  then have l: "lookup_sfs_nolock i m = None" by (simp add: lookup_sfs_nolock_def)
  obtain b s1 where b: "sfs_rbuf (fs m) 64 i 0 = Some (0, b, s1)" "node = Some n"
    "m' = sfs_set_links n (inode_init n \<lparr>din = din_of b, ino = i, dirty = False, reclaim_count = 1\<rparr> (m\<lparr>fs := s1\<rparr>))"
    using r by (auto simp: sfs_load_inode_def l sfs_create_inode_def Let_def bind_eq_Some_conv split: if_splits option.splits)
  let ?m = "inode_init n \<lparr>din = din_of b, ino = i, dirty = False, reclaim_count = 1\<rparr> (m\<lparr>fs := s1\<rparr>)"
  have nn: "n \<notin> set (inode_list m)" using node b(2) by simp
  have m: "inode_list ?m = inode_list m" "sfs_hash ?m = sfs_hash m"
    "nodes ?m = (nodes m)(n := \<lparr>vsin = \<lparr>din = din_of b, ino = i, dirty = False, reclaim_count = 1\<rparr>, ref_count = 1, open_count = 0\<rparr>)"
    by (simp_all add: inode_init_def)
  have "cache_ok ?m" using ok nn by (auto simp: cache_ok_def m inj_on_def)
  then have "cache_ok m'" unfolding b(3) using nn new by (intro set_links_ok) (auto simp: m)
  then show ?thesis using b(2) nn unfolding b(3) by (auto simp: sfs_set_links_def Let_def m)
qed

text \<open>C37. An inode on disk has at most one inode in memory: when \<^verbatim>\<open>sfs_load_inode\<close> succeeds, the inode it returns is the
  only one in memory with the number asked for. If it was in memory before, the disk is not read and it has one more
  reference; otherwise it is the inode just allocated, with one reference, and all others are as they were. The list of inodes and
  the hash lists stay consistent.\<close>

theorem sfs_load_inode_unique:
  assumes "cache_ok m" and "\<forall>p. node = Some p \<longrightarrow> p \<notin> set (inode_list m)"
    and "sfs_load_inode got node i m = Some (0, n, m')"
  shows "cache_ok m' \<and> {x \<in> set (inode_list m'). node_ino m' x = i} = {n} \<and>
    (if \<exists>x \<in> set (inode_list m). node_ino m x = i
     then n \<in> set (inode_list m) \<and> fs m' = fs m \<and> ref_count (nodes m' n) = ref_count (nodes m n) + 1
     else node = Some n \<and> ref_count (nodes m' n) = 1 \<and> (\<forall>x \<in> set (inode_list m). nodes m' x = nodes m x))"
proof (cases "\<exists>x \<in> set (inode_list m). node_ino m x = i")
  case True
  then obtain x where x: "x \<in> set (inode_list m)" "node_ino m x = i" by blast
  note c = load_cached [OF assms(1) x, of got node, unfolded assms(3)]
  then have "n = x" by simp
  moreover have "y = x" if "y \<in> set (inode_list m)" "node_ino m y = i" for y
    using that x assms(1) by (auto simp: cache_ok_def dest: inj_onD)
  ultimately have "{y \<in> set (inode_list m). node_ino m y = i} = {n}" using x by blast
  then have "{y \<in> set (inode_list m'). node_ino m' y = i} = {n}" using c by simp
  then show ?thesis unfolding if_P [OF True] using c x \<open>n = x\<close> by blast
next
  case False
  then have new: "\<And>x. x \<in> set (inode_list m) \<Longrightarrow> node_ino m x \<noteq> i" by blast
  note c = load_fresh [OF assms(1) new _ assms(3)]
  have "node = Some n \<and> cache_ok m' \<and> inode_list m' = n # inode_list m \<and> node_ino m' n = i \<and> ref_count (nodes m' n) = 1 \<and>
    (\<forall>x \<in> set (inode_list m). nodes m' x = nodes m x)"
    using assms(2) by (intro c) auto
  then show ?thesis using False new by auto
qed

text \<open>A file system with one inode in memory, number 7 for inode 1, for the examples.\<close>

definition mnt0 :: "disk0 mnt" where
  "mnt0 = \<lparr>fs = sfs0, nodes = (\<lambda>_. \<lparr>vsin = sin0\<lparr>dirty := True\<rparr>, ref_count = 1, open_count = 0\<rparr>), inode_list = [7],
     sfs_hash = (\<lambda>h. if h = sin_hashfn 1 then [7] else [])\<rparr>"

lemma mnt0_ok: "cache_ok mnt0" "node_ino mnt0 7 = 1" "inode_list mnt0 = [7]" "fs mnt0 = sfs0"
  "ref_count (nodes mnt0 7) = 1"
  by (auto simp: cache_ok_def mnt0_def sin0_def)

lemma sfs_load_inode_unique_witness:
  "\<exists>m'. sfs_load_inode True None 1 mnt0 = Some (0, 7, m') \<and> {x \<in> set (inode_list m'). node_ino m' x = 1} = {7} \<and>
    ref_count (nodes m' 7) = 2"
proof -
  obtain m' where m': "sfs_load_inode True None 1 mnt0 = Some (0, 7, m')"
    using load_cached [OF mnt0_ok(1), of 7 1 True None] mnt0_ok by auto
  moreover have "\<exists>x \<in> set (inode_list mnt0). node_ino mnt0 x = 1" using mnt0_ok by simp
  ultimately show ?thesis using sfs_load_inode_unique [OF mnt0_ok(1) _ m'] mnt0_ok(5) by auto
qed


section \<open>Directories\<close>

definition dir_entry :: "(nat \<Rightarrow> u8 list) \<Rightarrow> sfs_disk_inode \<Rightarrow> nat \<Rightarrow> sfs_disk_entry" where
  "dir_entry B di i = entry_of (chunk 0 260 (B (fblk B di i)))"

text \<open>The slots of a directory that are used, and those that carry a name.\<close>

definition used_slots :: "(nat \<Rightarrow> u8 list) \<Rightarrow> sfs_disk_inode \<Rightarrow> nat list" where
  "used_slots B di = filter (\<lambda>i. de_ino (dir_entry B di i) \<noteq> 0) [0..<di_blocks di]"

definition named :: "(nat \<Rightarrow> u8 list) \<Rightarrow> sfs_disk_inode \<Rightarrow> u8 list \<Rightarrow> nat \<Rightarrow> bool" where
  "named B di name i \<longleftrightarrow> de_ino (dir_entry B di i) \<noteq> 0 \<and> name = cstr (de_name (dir_entry B di i))"

lemma find_filter: "find P (filter Q xs) = find (\<lambda>x. Q x \<and> P x) xs"
  by (induction xs) auto

context block_device begin

lemma dirent_read_ok:
  assumes at: "fs_at B F N s" and ok: "file_ok B F N (din sin)" and "di_type (din sin) = SFS_TYPE_DIR"
    and i: "i < di_blocks (din sin)"
  shows "\<exists>s'. sfs_dirent_read_nolock s sin i = Some (0, dir_entry B (din sin) i, sin, s') \<and> fs_at B F N s'"
proof -
  let ?b = "fblk B (din sin) i"
  obtain s1 where s1: "sfs_bmap_load_nolock s sin i = Some (0, ?b, sin, s1)" "fs_at B F N s1"
    using load_ok [OF at ok i] by blast
  have b: "?b < N" "?b \<noteq> 0" "?b \<notin> F" using file_okD(4-6) [OF ok i] by auto
  obtain s2 where "sfs_rbuf s1 260 ?b (int 0) = Some (0, chunk 0 260 (B ?b), s2)" "fs_at B F N s2"
    using rbuf_ok [OF s1(2) b(1,2), of 0 260] by auto
  then show ?thesis using assms(3) i s1 b(3) inuse_ok [OF s1(2) b(1,2)]
    by (simp add: sfs_dirent_read_nolock_def dir_entry_def)
qed

lemma dirent_search_ok:
  assumes "fs_at B F N s" "file_ok B F N (din sin)" "di_type (din sin) = SFS_TYPE_DIR" "i + k \<le> di_blocks (din sin)"
  shows "\<exists>es' s'. dirent_search s sin name i k es =
      Some (case find (named B (din sin) name) [i..<i + k] of
          None \<Rightarrow> (- E_NOENT, 0, 0, es', sin, s')
        | Some j \<Rightarrow> (0, de_ino (dir_entry B (din sin) j), j, es', sin, s')) \<and>
    fs_at B F N s' \<and> (es' = es \<or> i \<le> es' \<and> es' < i + k \<and> de_ino (dir_entry B (din sin) es') = 0)"
  using assms(1,4)
proof (induction k arbitrary: s i es)
  case (Suc k)
  obtain s1 where s1: "sfs_dirent_read_nolock s sin i = Some (0, dir_entry B (din sin) i, sin, s1)" "fs_at B F N s1"
    using dirent_read_ok [OF Suc.prems(1) assms(2,3), of i] Suc.prems(2) by auto
  have u: "[i..<i + Suc k] = i # [i + 1..<i + 1 + k]" by (simp add: upt_rec)
  let ?e = "dir_entry B (din sin) i"
  show ?case
  proof (cases "de_ino ?e = 0")
    case True
    then have "\<not> named B (din sin) name i" by (simp add: named_def)
    then show ?thesis using Suc.IH [OF s1(2), of "i + 1" i] Suc.prems(2) s1(1) True unfolding u by (auto split: option.splits)
  next
    case False
    then show ?thesis using Suc.IH [OF s1(2), of "i + 1" es] Suc.prems(2) s1 unfolding u
      by (auto simp: named_def split: option.splits)
  qed
qed auto

lemma getdirentry_sub_ok:
  assumes "fs_at B F N s" "file_ok B F N (din sin)" "di_type (din sin) = SFS_TYPE_DIR" "i + k \<le> di_blocks (din sin)"
  shows "\<exists>s'. fs_at B F N s' \<and> (let us = filter (\<lambda>i. de_ino (dir_entry B (din sin) i) \<noteq> 0) [i..<i + k] in
    getdirentry_sub s sin slot i k =
      Some (if slot < length us then (0, dir_entry B (din sin) (us ! slot), sin, s') else (- E_NOENT, entry_of [], sin, s')))"
  using assms(1,4)
proof (induction k arbitrary: s i slot)
  case (Suc k)
  obtain s1 where s1: "sfs_dirent_read_nolock s sin i = Some (0, dir_entry B (din sin) i, sin, s1)" "fs_at B F N s1"
    using dirent_read_ok [OF Suc.prems(1) assms(2,3), of i] Suc.prems(2) by auto
  have u: "[i..<i + Suc k] = i # [i + 1..<i + 1 + k]" by (simp add: upt_rec)
  have le: "i + 1 + k \<le> di_blocks (din sin)" using Suc.prems(2) by simp
  let ?e = "dir_entry B (din sin) i"
  show ?case
  proof (cases "de_ino ?e \<noteq> 0 \<and> slot = 0")
    case True
    then show ?thesis using s1 unfolding u by (auto simp: Let_def)
  next
    case False
    then show ?thesis
      using Suc.IH [OF s1(2) le, of "if de_ino ?e \<noteq> 0 then slot - 1 else slot"] s1(1) unfolding u
      by (cases "de_ino ?e = 0") (auto simp: Let_def nth_Cons' split: if_splits)
  qed
qed auto

end

text \<open>A directory is searched in the order of its slots: the first used slot whose entry has the name is returned with
  the inode number in it, \<^verbatim>\<open>-E_NOENT\<close> means that no used slot has the name, and the empty slot reported is empty (the
  number of slots when none was seen). Nothing on the disk changes. A name longer than 255 bytes stops the kernel.\<close>

theorem sfs_dirent_search_first:
  assumes "disk0_fs d B F N s" and "file_ok B F N (din sin)" and "di_type (din sin) = SFS_TYPE_DIR"
  shows "if SFS_MAX_FNAME_LEN < length name then sfs_dirent_search_nolock True s sin name = None
    else \<exists>empty_slot s'. disk0_fs d B F N s' \<and>
      (empty_slot = di_blocks (din sin) \<or>
         empty_slot < di_blocks (din sin) \<and> de_ino (dir_entry B (din sin) empty_slot) = 0) \<and>
      sfs_dirent_search_nolock True s sin name =
        Some (case find (named B (din sin) name) [0..<di_blocks (din sin)] of
            None \<Rightarrow> (- E_NOENT, 0, 0, empty_slot, sin, s')
          | Some j \<Rightarrow> (0, de_ino (dir_entry B (din sin) j), j, empty_slot, sin, s'))"
  using d0.dirent_search_ok [OF assms, of 0 "di_blocks (din sin)" name "di_blocks (din sin)"]
  by (auto simp: sfs_dirent_search_nolock_def kassert_def)

text \<open>Reading the directory entry number \<open>k\<close> gives the entry of the \<open>k\<close>-th used slot, so that counting \<open>k\<close> up from 0
  until \<^verbatim>\<open>-E_NOENT\<close> lists every entry once, in the order of the slots.\<close>

theorem sfs_getdirentry_lists:
  assumes "disk0_fs d B F N s" and "file_ok B F N (din sin)" and "di_type (din sin) = SFS_TYPE_DIR"
  shows "\<exists>s'. disk0_fs d B F N s' \<and> sfs_getdirentry_sub_nolock s sin k =
    Some (if k < length (used_slots B (din sin)) then (0, dir_entry B (din sin) (used_slots B (din sin) ! k), sin, s')
      else (- E_NOENT, entry_of [], sin, s'))"
proof -
  have "0 + di_blocks (din sin) \<le> di_blocks (din sin)" by simp
  from d0.getdirentry_sub_ok [OF assms this, of k] show ?thesis unfolding sfs_getdirentry_sub_nolock_def used_slots_def Let_def add_0 .
qed

text \<open>A directory with one entry, the name "a" for inode 7, in block 1 of the example disk.\<close>

definition dir_mem :: "nat \<Rightarrow> u8" where
  "dir_mem a = (if a = 4096 then 7 else if a = 4100 then 97 else 0)"

definition sfs_dir :: "disk0 sfs_fs" where
  "sfs_dir = sfs0\<lparr>sfs_dst := \<lparr>ide_devices = (\<lambda>i. \<lparr>ide_valid = True, ide_size = 256, ide_mem = dir_mem\<rparr>),
     disk0_buffer = replicate DISK0_BUFSIZE 0\<rparr>\<rparr>"

definition sin_dir :: sfs_inode where
  "sin_dir = \<lparr>din = \<lparr>di_size = 4096, di_type = SFS_TYPE_DIR, di_nlinks = 2, di_blocks = 1, di_direct = (replicate 12 0)[0 := 1],
     di_indirect = 0\<rparr>, ino = 3, dirty = False, reclaim_count = 1\<rparr>"

abbreviation dir_blk :: "nat \<Rightarrow> u8 list" where
  "dir_blk \<equiv> \<lambda>b. mem_read dir_mem (b * SFS_BLKSIZE) SFS_BLKSIZE"

lemma sfs_dir_ok: "disk0_fs 32 dir_blk {2..<32} 32 sfs_dir"
proof -
  have "disk0_blk (sfs_dst sfs_dir) = dir_blk" by (rule ext) (simp add: disk0_blk_def disk0_mem_def sfs_dir_def)
  then show ?thesis using sfs0_ok
    by (auto simp: sfs_at_def sfs_dir_def disk0_dev_def disk0_ok_def VALID_IDE_def)
qed

lemma sin_dir_ok: "file_ok dir_blk {2..<32} 32 (din sin_dir)" "di_type (din sin_dir) = SFS_TYPE_DIR" "di_blocks (din sin_dir) = 1"
  by (auto simp: file_ok_def sin_dir_def fblk_def nth_list_update inj_on_def)

lemma sin_dir_entry: "de_ino (dir_entry dir_blk (din sin_dir) 0) = 7" "cstr (de_name (dir_entry dir_blk (din sin_dir) 0)) = [97]"
proof -
  have c: "chunk 0 260 (dir_blk (fblk dir_blk (din sin_dir) 0)) = [7, 0, 0, 0, 97, 0] @ mem_read dir_mem 4102 254"
    using mem_read_add [of dir_mem 4096 6 254] mem_read_add [of dir_mem 4096 260 3836]
    by (simp add: fblk_def sin_dir_def chunk_def) (simp add: mem_read_def dir_mem_def upt_rec)
  then show "de_ino (dir_entry dir_blk (din sin_dir) 0) = 7" "cstr (de_name (dir_entry dir_blk (din sin_dir) 0)) = [97]"
    unfolding dir_entry_def c entry_of_def by (simp_all add: chunk_def cstr_def list_update_append)
qed

lemma sfs_dirent_search_first_witness:
  "\<exists>es s'. sfs_dirent_search_nolock True sfs_dir sin_dir [97] = Some (0, 7, 0, es, sin_dir, s')"
  using sfs_dirent_search_first [OF sfs_dir_ok sin_dir_ok(1,2), of "[97]"] sin_dir_entry
  unfolding sin_dir_ok(3) by (auto simp: named_def)

lemma sfs_getdirentry_lists_witness:
  "\<exists>e s1 s2. sfs_getdirentry_sub_nolock sfs_dir sin_dir 0 = Some (0, e, sin_dir, s1) \<and> cstr (de_name e) = [97] \<and>
    sfs_getdirentry_sub_nolock sfs_dir sin_dir 1 = Some (- E_NOENT, entry_of [], sin_dir, s2)"
proof -
  have u: "used_slots dir_blk (din sin_dir) = [0]" using sin_dir_entry(1) by (simp add: used_slots_def sin_dir_ok(3))
  show ?thesis
    using sfs_getdirentry_lists [OF sfs_dir_ok sin_dir_ok(1,2), of 0] sfs_getdirentry_lists [OF sfs_dir_ok sin_dir_ok(1,2), of 1]
      sin_dir_entry(2) unfolding u by auto
qed

end
