(* ===== verification/SfsSync.thy ===== *)
theory SfsSync
  imports SfsMount
begin

text \<open>
  Writing back and mounting again: what \<^verbatim>\<open>sfs_sync\<close> leaves on the device is what \<^verbatim>\<open>sfs_do_mount\<close> and
  \<^verbatim>\<open>sfs_load_inode\<close> find there.
\<close>

section \<open>The layout on disk\<close>

definition din_ok :: "sfs_disk_inode \<Rightarrow> bool" where
  "din_ok di \<longleftrightarrow> di_size di < 2 ^ 32 \<and> di_type di < 2 ^ 16 \<and> di_nlinks di < 2 ^ 16 \<and> di_blocks di < 2 ^ 32 \<and>
     length (di_direct di) = SFS_NDIRECT \<and> (\<forall>b \<in> set (di_direct di). b < 2 ^ 32) \<and> di_indirect di < 2 ^ 32"

definition super_ok :: "sfs_super \<Rightarrow> bool" where
  "super_ok sp \<longleftrightarrow> sb_magic sp = SFS_MAGIC \<and> sb_blocks sp < 2 ^ 32 \<and> sb_unused sp < 2 ^ 32 \<and> length (sb_info sp) = 32 \<and>
     sb_info sp ! 31 = 0"

lemma chunk_append:
  "k + n \<le> length xs \<Longrightarrow> chunk k n (xs @ ys) = chunk k n xs"
  "length xs \<le> k \<Longrightarrow> chunk k n (xs @ ys) = chunk (k - length xs) n ys"
  by (simp_all add: chunk_def)

lemma length_words: "length (concat (map (le_bytes k) xs)) = k * length xs"
  by (induction xs) auto

lemma chunk_words: "i < length xs \<Longrightarrow> chunk (k * i) k (concat (map (le_bytes k) xs)) = le_bytes k (xs ! i)"
proof (induction xs arbitrary: i)
  case (Cons x xs)
  show ?case
  proof (cases i)
    case 0 then show ?thesis by (simp add: chunk_append)
  next
    case (Suc j)
    then show ?thesis using Cons by (simp add: chunk_append)
  qed
qed simp

lemma of_le_word: "x < 256 ^ k \<Longrightarrow> of_le (le_bytes k x) = x"
  by (simp add: of_le_bytes)

lemma length_din_bytes: "length (di_direct di) = SFS_NDIRECT \<Longrightarrow> length (din_bytes di) = 64"
  by (simp add: din_bytes_def length_words del: le_bytes.simps)

lemma din_of_bytes:
  assumes "din_ok di"
  shows "din_of (din_bytes di) = di"
proof -
  let ?w = "concat (map (le_bytes 4) (di_direct di))"
  have l: "length (di_direct di) = 12" "length ?w = 48" using assms by (simp_all add: din_ok_def length_words)
  have "of_le (chunk (4 * i) 4 ?w) = di_direct di ! i" if "i < 12" for i
    using chunk_words [of i "di_direct di" 4] that l(1) assms of_le_word [of _ 4] by (simp add: din_ok_def del: le_bytes.simps)
  moreover have "chunk (12 + 4 * i) 4 (din_bytes di) = chunk (4 * i) 4 ?w" if "i < 12" for i
    using that l(2) by (simp add: din_bytes_def chunk_append del: le_bytes.simps)
  ultimately have d: "map (\<lambda>i. of_le (chunk (12 + 4 * i) 4 (din_bytes di))) [0..<12] = di_direct di"
    using l(1) by (intro nth_equalityI) auto
  have "chunk 0 4 (din_bytes di) = le_bytes 4 (di_size di)" "chunk 4 2 (din_bytes di) = le_bytes 2 (di_type di)"
    "chunk 6 2 (din_bytes di) = le_bytes 2 (di_nlinks di)" "chunk 8 4 (din_bytes di) = le_bytes 4 (di_blocks di)"
    "chunk 60 4 (din_bytes di) = le_bytes 4 (di_indirect di)"
    using l by (simp_all add: din_bytes_def chunk_append del: le_bytes.simps)
  then show ?thesis using assms unfolding din_of_def d by (simp add: din_ok_def of_le_word del: le_bytes.simps)
qed

lemma length_super_bytes: "super_ok sp \<Longrightarrow> length (super_bytes sp) = 44"
  by (simp add: super_bytes_def super_ok_def del: le_bytes.simps)

lemma super_of_bytes:
  assumes "super_ok sp"
  shows "super_of (super_bytes sp @ rest) = sp"
proof -
  let ?b = "super_bytes sp @ rest"
  have "chunk 0 4 ?b = le_bytes 4 (sb_magic sp)" "chunk 4 4 ?b = le_bytes 4 (sb_blocks sp)"
    "chunk 8 4 ?b = le_bytes 4 (sb_unused sp)" "chunk 12 32 ?b = sb_info sp"
    using assms by (simp_all add: super_ok_def super_bytes_def chunk_append del: le_bytes.simps)
  then show ?thesis using assms by (simp add: super_of_def super_ok_def of_le_word del: le_bytes.simps)
qed

lemma length_map_bytes: "length (map_bytes ws) = 4 * length ws"
  by (induction ws) (auto simp: map_bytes_def simp del: le_bytes.simps)

lemma bytes_map_bytes: "bytes_map (map_bytes ws) = ws"
proof (induction ws)
  case (Cons w ws)
  have b: "map_bytes (w # ws) = le_bytes 4 (unat w) @ map_bytes ws" by (simp add: map_bytes_def del: le_bytes.simps)
  have "length (le_bytes 4 (unat w)) = Suc (Suc (Suc (Suc 0)))" by (simp only: length_le_bytes)
  then obtain p q r t where l: "le_bytes 4 (unat w) = [p, q, r, t]" unfolding length_Suc_conv length_0_conv by blast
  have "of_le [p, q, r, t] = unat w" unfolding l [symmetric] using unsigned_less [of w] by (intro of_le_word) simp
  then show ?case unfolding b l using Cons by simp
qed (simp add: map_bytes_def)


section \<open>Writing back\<close>

text \<open>What a transfer leaves alone.\<close>

definition same_fs :: "'d sfs_fs \<Rightarrow> 'd sfs_fs \<Rightarrow> bool" where
  "same_fs s s' \<longleftrightarrow> super s' = super s \<and> sfs_dev s' = sfs_dev s \<and> freemap s' = freemap s \<and> super_dirty s' = super_dirty s"

lemma same_fs_refl [simp]: "same_fs s s"
  by (simp add: same_fs_def)

lemma same_fs_trans: "same_fs s t \<Longrightarrow> same_fs t u \<Longrightarrow> same_fs s u"
  by (simp add: same_fs_def)

lemma rwblock_same: "sfs_rwblock_nolock s buf b wr check = Some (r, buf', s') \<Longrightarrow> same_fs s s'"
  by (auto simp: sfs_rwblock_nolock_def same_fs_def Let_def bind_eq_Some_conv)

lemma wbuf_same: "sfs_wbuf s buf b off = Some (r, s') \<Longrightarrow> same_fs s s'"
  by (auto simp: sfs_wbuf_def Let_def bind_eq_Some_conv same_fs_def split: if_splits dest!: rwblock_same)

lemma rbuf_same: "sfs_rbuf s n b off = Some (r, buf, s') \<Longrightarrow> same_fs s s'"
  by (auto simp: sfs_rbuf_def Let_def bind_eq_Some_conv same_fs_def dest!: rwblock_same)

text \<open>An inode in memory can be written back: its counters are in range, its block is one of the file system, in use and not
  part of the free map, and when it is clean, its block already holds it.\<close>

definition node_ok :: "(nat \<Rightarrow> u8 list) \<Rightarrow> nat \<Rightarrow> 'd mnt \<Rightarrow> nat \<Rightarrow> bool" where
  "node_ok B N m n \<longleftrightarrow> inode_check m n = Some () \<and> din_ok (din (vsin (nodes m n))) \<and>
     node_ino m n \<noteq> 0 \<and> node_ino m n < N \<and>
     (\<not> dirty (vsin (nodes m n)) \<longrightarrow> take 64 (B (node_ino m n)) = din_bytes (din (vsin (nodes m n))))"

text \<open>Writing consecutive blocks.\<close>

definition put_blocks :: "(nat \<Rightarrow> u8 list) \<Rightarrow> nat \<Rightarrow> u8 list \<Rightarrow> nat \<Rightarrow> u8 list" where
  "put_blocks B b buf i = (if b \<le> i \<and> i * SFS_BLKSIZE < b * SFS_BLKSIZE + length buf
     then chunk ((i - b) * SFS_BLKSIZE) SFS_BLKSIZE buf else B i)"

lemma put_blocks_Nil: "put_blocks B b [] = B"
  by (auto simp: put_blocks_def fun_eq_iff)

lemma put_blocks_first:
  assumes "length buf = (k + 1) * SFS_BLKSIZE"
  shows "put_blocks (B(b := take SFS_BLKSIZE buf)) (b + 1) (drop SFS_BLKSIZE buf) = put_blocks B b buf"
proof
  fix i
  consider "i < b" | "i = b" | j where "i = b + 1 + j"
    by (metis add.commute less_imp_add_positive linorder_neqE_nat Suc_eq_plus1 add_Suc_right gr0_implies_Suc add.assoc)
  then show "put_blocks (B(b := take SFS_BLKSIZE buf)) (b + 1) (drop SFS_BLKSIZE buf) i = put_blocks B b buf i"
  proof cases
    case 3
    have "drop (j * SFS_BLKSIZE) (drop SFS_BLKSIZE buf) = drop ((j + 1) * SFS_BLKSIZE) buf" by (simp add: add.commute)
    moreover have "(b + 1) * SFS_BLKSIZE + (length buf - SFS_BLKSIZE) = b * SFS_BLKSIZE + length buf"
      unfolding assms by (simp add: ac_simps)
    ultimately show ?thesis using 3 unfolding put_blocks_def by (simp add: chunk_def)
  qed (use assms in \<open>simp_all add: put_blocks_def chunk_def\<close>)
qed

context block_device begin

lemma vop_fsync_ok:
  assumes at: "fs_at B F N (fs m)" and ok: "node_ok B N m n"
  shows "\<exists>m' B'. vop_fsync n m = Some (0, m') \<and> fs_at B' F N (fs m') \<and> same_fs (fs m) (fs m') \<and>
    nodes m' = (nodes m)(n := (nodes m n)\<lparr>vsin := (vsin (nodes m n))\<lparr>dirty := False\<rparr>\<rparr>) \<and>
    inode_list m' = inode_list m \<and> sfs_hash m' = sfs_hash m \<and>
    take 64 (B' (node_ino m n)) = din_bytes (din (vsin (nodes m n))) \<and> (\<forall>b. b \<noteq> node_ino m n \<longrightarrow> B' b = B b)"
proof -
  let ?i = "vsin (nodes m n)"
  have c: "inode_check m n = Some ()" and d: "din_ok (din ?i)" and i: "ino ?i < N" "ino ?i \<noteq> 0" using ok by (auto simp: node_ok_def)
  have l: "length (din_bytes (din ?i)) = 64" using d by (simp add: length_din_bytes din_ok_def)
  show ?thesis
  proof (cases "dirty ?i")
    case True
    let ?B = "B(ino ?i := overwrite (B (ino ?i)) 0 (din_bytes (din ?i)))"
    obtain s' where s': "sfs_wbuf (fs m) (din_bytes (din ?i)) (ino ?i) (int 0) = Some (0, s')" "fs_at ?B F N s'"
      using wbuf_ok [OF at i, of 0 "din_bytes (din ?i)"] l by auto
    have "take 64 (overwrite (B (ino ?i)) 0 (din_bytes (din ?i))) = din_bytes (din ?i)"
      using l by (simp add: overwrite_def)
    then have B: "take 64 (?B (ino ?i)) = din_bytes (din ?i)" "\<forall>b. b \<noteq> ino ?i \<longrightarrow> ?B b = B b" by simp_all
    have "vop_fsync n m = Some (0, set_sin n (?i\<lparr>dirty := False\<rparr>) s' m)"
      using c s'(1) True by (simp add: vop_fsync_def sfs_fsync_def)
    then show ?thesis using B s'(2) wbuf_same [OF s'(1)]
      by (intro exI [of _ "set_sin n (?i\<lparr>dirty := False\<rparr>) s' m"] exI [of _ ?B] conjI) simp_all
  next
    case False
    then have i: "?i\<lparr>dirty := False\<rparr> = ?i" by simp
    have "vop_fsync n m = Some (0, set_sin n (?i\<lparr>dirty := False\<rparr>) (fs m) m)"
      unfolding i using c False by (simp add: vop_fsync_def sfs_fsync_def)
    then show ?thesis using at False ok
      by (intro exI [of _ "set_sin n (?i\<lparr>dirty := False\<rparr>) (fs m) m"] exI [of _ B] conjI) (simp_all add: node_ok_def)
  qed
qed

lemma sync_inodes_ok:
  assumes "fs_at B F N (fs m)" "\<forall>n \<in> set ns. node_ok B N m n" "distinct ns" "inj_on (node_ino m) (set ns)"
  shows "\<exists>m' B'. sync_inodes ns m = Some m' \<and> fs_at B' F N (fs m') \<and> same_fs (fs m) (fs m') \<and>
    inode_list m' = inode_list m \<and> sfs_hash m' = sfs_hash m \<and>
    (\<forall>n. din (vsin (nodes m' n)) = din (vsin (nodes m n)) \<and> node_ino m' n = node_ino m n) \<and>
    (\<forall>n \<in> set ns. take 64 (B' (node_ino m n)) = din_bytes (din (vsin (nodes m n)))) \<and>
    (\<forall>b. b \<notin> node_ino m ` set ns \<longrightarrow> B' b = B b)"
  using assms
proof (induction ns arbitrary: m B)
  case Nil
  then show ?case by auto
next
  case (Cons n ns)
  have "node_ok B N m n" using Cons.prems(2) by simp
  from vop_fsync_ok [OF Cons.prems(1) this]
  obtain m1 B1 where m1: "vop_fsync n m = Some (0, m1)" "fs_at B1 F N (fs m1)" "same_fs (fs m) (fs m1)"
    "nodes m1 = (nodes m)(n := (nodes m n)\<lparr>vsin := (vsin (nodes m n))\<lparr>dirty := False\<rparr>\<rparr>)"
    "inode_list m1 = inode_list m" "sfs_hash m1 = sfs_hash m"
    "take 64 (B1 (node_ino m n)) = din_bytes (din (vsin (nodes m n)))" "\<forall>b. b \<noteq> node_ino m n \<longrightarrow> B1 b = B b"
    by blast
  have ino: "din (vsin (nodes m1 x)) = din (vsin (nodes m x))" "node_ino m1 x = node_ino m x" for x by (simp_all add: m1(4))
  have i1: "node_ino m1 = node_ino m" by (rule ext) (rule ino)
  have other: "node_ino m x \<noteq> node_ino m n" if "x \<in> set ns" for x
    using that Cons.prems(3,4) by simp (metis image_eqI)
  have "node_ok B1 N m1 x" if x: "x \<in> set ns" for x
  proof -
    have "x \<noteq> n" using x Cons.prems(3) by auto
    then have "nodes m1 x = nodes m x" by (simp add: m1(4))
    moreover have "B1 (node_ino m x) = B (node_ino m x)" using m1(8) other [OF x] by simp
    ultimately show ?thesis using Cons.prems(2) x by (simp add: node_ok_def inode_check_def Let_def)
  qed
  then obtain m2 B2 where m2: "sync_inodes ns m1 = Some m2" "fs_at B2 F N (fs m2)" "same_fs (fs m1) (fs m2)"
    "inode_list m2 = inode_list m1" "sfs_hash m2 = sfs_hash m1"
    "\<forall>n. din (vsin (nodes m2 n)) = din (vsin (nodes m1 n)) \<and> node_ino m2 n = node_ino m1 n"
    "\<forall>n \<in> set ns. take 64 (B2 (node_ino m1 n)) = din_bytes (din (vsin (nodes m1 n)))"
    "\<forall>b. b \<notin> node_ino m1 ` set ns \<longrightarrow> B2 b = B1 b"
    using Cons.IH [of B1 m1] m1(2) Cons.prems(3,4) unfolding i1 by auto
  have "node_ino m n \<notin> node_ino m ` set ns" using other by force
  then have "B2 (node_ino m n) = B1 (node_ino m n)" using m2(8) unfolding i1 by blast
  moreover have "sync_inodes (n # ns) m = Some m2" using m1(1) m2(1) by simp
  ultimately show ?case using m1(5-8) m2 same_fs_trans [OF m1(3) m2(3)] unfolding i1 ino
    by (intro exI [of _ m2] exI [of _ B2] conjI) simp_all
qed

lemma sync_super_ok:
  assumes at: "fs_at B F N s" and "0 < N" and sp: "super_ok (super s)"
  shows "\<exists>s' b. sfs_sync_super s = Some (0, s') \<and> fs_at (B(0 := super_bytes (super s) @ b)) F N s' \<and> same_fs s s'"
proof -
  let ?b = "overwrite (replicate SFS_BLKSIZE 0) 0 (super_bytes (super s))"
  have l: "length ?b = 4096" using length_super_bytes [OF sp] by simp
  obtain s1 where s1: "sfs_rwblock_nolock (s\<lparr>sfs_buffer := ?b\<rparr>) ?b 0 True False = Some (0, ?b, s1)" "fs_at (B(0 := ?b)) F N s1"
    using rwblock_write [OF at_buffer [OF at l] assms(2) _ l, of False] by auto
  have "?b = super_bytes (super s) @ replicate (SFS_BLKSIZE - 44) 0"
    using length_super_bytes [OF sp] by (simp add: overwrite_def)
  moreover have "same_fs s (s1\<lparr>sfs_buffer := ?b\<rparr>)" using rwblock_same [OF s1(1)] by (simp add: same_fs_def)
  ultimately show ?thesis using s1 at_buffer [OF s1(2) l] by (auto simp: sfs_sync_super_def)
qed

lemma rwblock_write_many:
  assumes "fs_at B F N s" "b \<noteq> 0" "b + k \<le> N" "length buf = k * SFS_BLKSIZE"
  shows "\<exists>s'. sfs_rwblock s buf b k True = Some (0, buf, s') \<and> fs_at (put_blocks B b buf) F N s' \<and> same_fs s s'"
  using assms
proof (induction k arbitrary: s B b buf)
  case 0
  then show ?case by (simp add: put_blocks_Nil)
next
  case (Suc k)
  let ?b = "take SFS_BLKSIZE buf" and ?r = "drop SFS_BLKSIZE buf"
  have l: "length ?b = 4096" "length ?r = k * SFS_BLKSIZE" using Suc.prems(4) by simp_all
  have bN: "b < N" using Suc.prems(3) by simp
  obtain s1 where s1: "sfs_rwblock_nolock s ?b b True True = Some (0, ?b, s1)" "fs_at (B(b := ?b)) F N s1"
    using rwblock_write [OF Suc.prems(1) bN _ l(1), of True] Suc.prems(2) by auto
  have b1: "b + 1 \<noteq> 0" "b + 1 + k \<le> N" using Suc.prems(3) by simp_all
  obtain s2 where s2: "sfs_rwblock s1 ?r (b + 1) k True = Some (0, ?r, s2)" "fs_at (put_blocks (B(b := ?b)) (b + 1) ?r) F N s2"
    "same_fs s1 s2"
    using Suc.IH [OF s1(2) b1 l(2)] by blast
  have len: "length buf = (k + 1) * SFS_BLKSIZE" using Suc.prems(4) by simp
  have "sfs_rwblock s buf b (Suc k) True = Some (0, buf, s2)" using s1(1) s2(1) by simp
  then show ?case using s2(2) same_fs_trans [OF rwblock_same [OF s1(1)] s2(3)]
    unfolding put_blocks_first [OF len] by blast
qed

lemma sync_freemap_ok:
  assumes at: "fs_at B F N s" and "2 + sfs_freemap_blocks (super s) \<le> N" and "nwords (freemap s) = 1024 * sfs_freemap_blocks (super s)"
  shows "\<exists>s'. sfs_sync_freemap s = Some (0, s') \<and> fs_at (put_blocks B 2 (map_bytes (bmap (freemap s)))) F N s' \<and> same_fs s s'"
proof -
  have "length (bmap (freemap s)) = nwords (freemap s)" using at by (simp add: sfs_at_def bitmap_ok_def)
  then have "length (map_bytes (bmap (freemap s))) = sfs_freemap_blocks (super s) * SFS_BLKSIZE"
    using assms(3) by (simp add: length_map_bytes)
  from rwblock_write_many [OF at _ assms(2) this] show ?thesis
    by (auto simp: sfs_sync_freemap_def sfs_wblock_def bitmap_getdata_def)
qed

end


section \<open>Mounting what was written\<close>

lemma put_blocks_concat:
  "length buf = k * SFS_BLKSIZE \<Longrightarrow> concat (map (put_blocks B b buf) [b..<b + k]) = buf"
proof (induction k arbitrary: B b buf)
  case (Suc k)
  have l: "length buf = (k + 1) * SFS_BLKSIZE" "length (drop SFS_BLKSIZE buf) = k * SFS_BLKSIZE" using Suc.prems by simp_all
  have u: "[b..<b + Suc k] = b # [b + 1..<b + 1 + k]" by (simp add: upt_rec)
  have "put_blocks B b buf b = take SFS_BLKSIZE buf" using l(1) by (simp add: put_blocks_def chunk_def)
  moreover have "concat (map (put_blocks B b buf) [b + 1..<b + 1 + k]) = drop SFS_BLKSIZE buf"
    unfolding put_blocks_first [OF l(1), symmetric] by (rule Suc.IH [OF l(2)])
  ultimately show ?case unfolding u by simp
qed simp

lemma count_unused_ok:
  "bitmap_ok fm \<Longrightarrow> i + k \<le> nbits fm \<Longrightarrow> count_unused fm i k = Some (card (free_bits fm \<inter> {i..<i + k}))"
proof (induction k arbitrary: i)
  case (Suc k)
  have IH: "count_unused fm (i + 1) k = Some (card (free_bits fm \<inter> {i + 1..<i + 1 + k}))"
    using Suc.prems by (intro Suc.IH) simp_all
  have t: "bitmap_test fm i = Some (i \<in> free_bits fm)" using Suc.prems by (intro bitmap_test_eq) simp_all
  have "{i..<i + Suc k} = insert i {i + 1..<i + 1 + k}" by auto
  then have "free_bits fm \<inter> {i..<i + Suc k} = (if i \<in> free_bits fm then insert i else id) (free_bits fm \<inter> {i + 1..<i + 1 + k})"
    by simp
  then have "card (free_bits fm \<inter> {i..<i + Suc k}) =
      (if i \<in> free_bits fm then 1 else 0) + card (free_bits fm \<inter> {i + 1..<i + 1 + k})" by simp
  then show ?case using t IH by simp
qed simp

text \<open>What is on a device that holds a file system with superblock \<open>sp\<close> and free map \<open>fm\<close>.\<close>

definition on_disk :: "(nat \<Rightarrow> u8 list) \<Rightarrow> sfs_super \<Rightarrow> bitmap \<Rightarrow> bool" where
  "on_disk B sp fm \<longleftrightarrow>
     (\<exists>b. B 0 = super_bytes sp @ b) \<and> concat (map B [2..<2 + sfs_freemap_blocks sp]) = map_bytes (bmap fm)"

text \<open>A superblock and a free map that fit each other.\<close>

definition layout_ok :: "sfs_super \<Rightarrow> bitmap \<Rightarrow> bool" where
  "layout_ok sp fm \<longleftrightarrow> super_ok sp \<and> bitmap_ok fm \<and> 2 + sfs_freemap_blocks sp \<le> sb_blocks sp \<and> sb_blocks sp \<le> 2 ^ 20 \<and>
     nbits fm = sfs_freemap_bits sp \<and> nwords fm = 1024 * sfs_freemap_blocks sp \<and> card (free_bits fm) = sb_unused sp"

definition all_got :: "mount_env \<Rightarrow> bool" where
  "all_got e \<longleftrightarrow> got_fs e \<and> (\<exists>b. got_buffer e = Some b \<and> length b = SFS_BLKSIZE) \<and> got_hash e \<and> got_bitmap e \<and> got_map e"

text \<open>The state of a file system just mounted.\<close>

definition mounted :: "'d device \<Rightarrow> 'd \<Rightarrow> sfs_super \<Rightarrow> bitmap \<Rightarrow> u8 list \<Rightarrow> 'd mnt" where
  "mounted dv d sp fm b =
     \<lparr>fs = \<lparr>super = sp, sfs_dev = dv, sfs_dst = d, freemap = fm, super_dirty = False, sfs_buffer = b\<rparr>,
      nodes = (\<lambda>_. no_node), inode_list = [], sfs_hash = (\<lambda>_. [])\<rparr>"

context block_device begin

lemma init_read_ok:
  assumes "dinv d" "b < d_blocks dev" "b < 2 ^ 20" "length buf = 4096"
  shows "\<exists>d'. sfs_init_read dev b buf d = Some (0, blk d b, d') \<and> dinv d' \<and> blk d' = blk d"
proof -
  have "b * 4096 mod 2 ^ 32 = b * 4096" using assms(3) by simp
  then show ?thesis using io_read [OF assms(1,2,4)] blk_length [OF assms(1), of b] assms(4)
    by (auto simp: sfs_init_read_def)
qed

lemma init_freemap_ok:
  assumes "dinv d" "b + k \<le> d_blocks dev" "b + k \<le> 2 ^ 20" "length data = k * SFS_BLKSIZE"
  shows "\<exists>d'. init_freemap dev b k data d = Some (0, concat (map (blk d) [b..<b + k]), d') \<and> dinv d' \<and> blk d' = blk d"
  using assms
proof (induction k arbitrary: d b data)
  case (Suc k)
  have u: "[b..<b + Suc k] = b # [b + 1..<b + 1 + k]" by (simp add: upt_rec)
  have b: "b < d_blocks dev" "b < 2 ^ 20" "length (take SFS_BLKSIZE data) = 4096"
    "b + 1 + k \<le> d_blocks dev" "b + 1 + k \<le> 2 ^ 20" "length (drop SFS_BLKSIZE data) = k * SFS_BLKSIZE"
    using Suc.prems by simp_all
  obtain d1 where d1: "sfs_init_read dev b (take SFS_BLKSIZE data) d = Some (0, blk d b, d1)" "dinv d1" "blk d1 = blk d"
    using init_read_ok [OF Suc.prems(1) b(1-3)] by blast
  obtain d2 where "init_freemap dev (b + 1) k (drop SFS_BLKSIZE data) d1 = Some (0, concat (map (blk d) [b + 1..<b + 1 + k]), d2)"
    "dinv d2" "blk d2 = blk d"
    using Suc.IH [OF d1(2) b(4-6)] unfolding d1(3) by blast
  then show ?case using d1(1) unfolding u by simp
qed simp

lemma mount_ok:
  assumes d: "dinv d" and l: "layout_ok sp fm" and o: "on_disk (blk d) sp fm" and e: "all_got e" and n: "sb_blocks sp \<le> d_blocks dev"
  shows "\<exists>d' b. sfs_do_mount e dev d = Some (0, Some (mounted dev d' sp fm b), d') \<and> dinv d' \<and> blk d' = blk d \<and> length b = SFS_BLKSIZE"
proof -
  note l = l [unfolded layout_ok_def]
  let ?k = "sfs_freemap_blocks sp" and ?n = "sfs_freemap_bits sp"
  obtain buf where buf: "got_buffer e = Some buf" "length buf = SFS_BLKSIZE" using e by (auto simp: all_got_def)
  have k: "?n = ?k * 32768" "?k \<le> 32" "0 < ?k" using l by (auto simp: sfs_freemap_bits_def sfs_freemap_blocks_def)
  have z: "0 < d_blocks dev" using l n by linarith
  obtain d1 where d1: "sfs_init_read dev 0 buf d = Some (0, blk d 0, d1)" "dinv d1" "blk d1 = blk d"
    using init_read_ok [OF d z _ buf(2)] by auto
  have sp: "super_of (blk d 0) = sp" using o l super_of_bytes by (auto simp: on_disk_def)
  have sup: "sb_magic sp = SFS_MAGIC" "\<not> sb_blocks sp > d_blocks dev" "sp\<lparr>sb_info := (sb_info sp)[31 := 0]\<rparr> = sp"
    using l n list_update_id [of "sb_info sp" 31] by (auto simp: super_ok_def)
  let ?fm0 = "\<lparr>nbits = ?n, nwords = 1024 * ?k, bmap = replicate (1024 * ?k) 0xFFFFFFFF\<rparr>"
  have "(?n + 32 - 1) div 32 = 1024 * ?k" unfolding k(1) by simp
  then have fm0: "bitmap_create True True ?n = Some (Some ?fm0)"
    using k unfolding bitmap_create_def by (simp add: Let_def)
  have "length (map_bytes (bmap ?fm0)) = ?k * SFS_BLKSIZE" by (simp add: length_map_bytes)
  from init_freemap_ok [OF d1(2) _ _ this, of 2]
  obtain d2 where d2: "init_freemap dev 2 ?k (map_bytes (bmap ?fm0)) d1 = Some (0, concat (map (blk d) [2..<2 + ?k]), d2)"
    "dinv d2" "blk d2 = blk d" using l n unfolding d1(3) by auto
  have "?fm0\<lparr>bmap := bmap fm\<rparr> = fm" using l by (cases fm) simp
  then have init: "sfs_init_freemap dev ?fm0 2 ?k d1 = Some (0, fm, d2)"
    using d2(1) o by (simp add: sfs_init_freemap_def bitmap_getdata_def on_disk_def bytes_map_bytes)
  have "free_bits fm \<inter> {0..<0 + ?n} = free_bits fm" using l by (auto simp: bitmap_ok_def)
  then have cnt: "count_unused fm 0 ?n = Some (sb_unused sp)" using count_unused_ok [of fm 0 ?n] l by simp
  have "sfs_do_mount e dev d = Some (0, Some (mounted dev d2 sp fm ((blk d 0)[43 := 0])), d2)"
    using e buf d1(1) sup fm0 init cnt
    by (simp add: sfs_do_mount_def blksize all_got_def sp Let_def mounted_def)
  moreover have "length ((blk d 0)[43 := 0]) = SFS_BLKSIZE" using blk_length [OF d] by simp
  ultimately show ?thesis using d2(2,3) by blast
qed

end


text \<open>An inode in memory that a fresh mount can load: in use, linked, a file or a directory, and not in the free map.\<close>

definition live_ok :: "nat set \<Rightarrow> 'd mnt \<Rightarrow> nat \<Rightarrow> bool" where
  "live_ok F m n \<longleftrightarrow> (let di = din (vsin (nodes m n)) in
     node_ino m n \<notin> F \<and> (node_ino m n < 2 \<or> 2 + sfs_freemap_blocks (super (fs m)) \<le> node_ino m n) \<and>
     di_nlinks di \<noteq> 0 \<and> (di_type di = SFS_TYPE_DIR \<or> di_type di = SFS_TYPE_FILE))"

lemma put_blocks_other: "length buf = k * SFS_BLKSIZE \<Longrightarrow> i < b \<or> b + k \<le> i \<Longrightarrow> put_blocks B b buf i = B i"
proof -
  assume l: "length buf = k * SFS_BLKSIZE" and i: "i < b \<or> b + k \<le> i"
  have "b * SFS_BLKSIZE + length buf = (b + k) * SFS_BLKSIZE" unfolding l by (simp add: add_mult_distrib)
  then show ?thesis using i unfolding put_blocks_def by (auto simp: mult_less_cancel2)
qed

context block_device begin

lemma sfs_sync_ok:
  assumes at: "fs_at B F N (fs m)" and lay: "layout_ok (super (fs m)) (freemap (fs m))" and c: "cache_ok m"
    and clean: "super_dirty (fs m) \<or> on_disk B (super (fs m)) (freemap (fs m))"
    and nodes: "\<forall>n \<in> set (inode_list m). node_ok B N m n \<and> live_ok F m n"
  shows "\<exists>m' B'. sfs_sync m = Some (0, m') \<and> fs_at B' F N (fs m') \<and> super (fs m') = super (fs m) \<and>
    freemap (fs m') = freemap (fs m) \<and> \<not> super_dirty (fs m') \<and> inode_list m' = inode_list m \<and>
    on_disk B' (super (fs m)) (freemap (fs m)) \<and>
    (\<forall>n \<in> set (inode_list m). take 64 (B' (node_ino m n)) = din_bytes (din (vsin (nodes m n))))"
proof -
  let ?k = "sfs_freemap_blocks (super (fs m))" and ?ws = "map_bytes (bmap (freemap (fs m)))"
  have c: "distinct (inode_list m)" "inj_on (node_ino m) (set (inode_list m))" using c by (auto simp: cache_ok_def)
  have nodes': "\<forall>n \<in> set (inode_list m). node_ok B N m n" using nodes by blast
  obtain m1 B1 where m1: "sync_inodes (inode_list m) m = Some m1" "fs_at B1 F N (fs m1)" "same_fs (fs m) (fs m1)"
    "inode_list m1 = inode_list m"
    "\<forall>n \<in> set (inode_list m). take 64 (B1 (node_ino m n)) = din_bytes (din (vsin (nodes m n)))"
    "\<forall>b. b \<notin> node_ino m ` set (inode_list m) \<longrightarrow> B1 b = B b"
    using sync_inodes_ok [OF at nodes' c] by blast
  have sp: "super (fs m1) = super (fs m)" "freemap (fs m1) = freemap (fs m)" "super_dirty (fs m1) = super_dirty (fs m)"
    using m1(3) by (auto simp: same_fs_def)
  have ino: "node_ino m n \<noteq> 0" "node_ino m n < 2 \<or> 2 + ?k \<le> node_ino m n" if "n \<in> set (inode_list m)" for n
    using nodes that by (auto simp: node_ok_def live_ok_def Let_def)
  show ?thesis
  proof (cases "super_dirty (fs m)")
    case False
    have "0 \<notin> node_ino m ` set (inode_list m)" using ino(1) by fastforce
    then have "B1 0 = B 0" using m1(6) by blast
    moreover have "B1 b = B b" if "b \<in> set [2..<2 + ?k]" for b
    proof -
      have "b \<notin> node_ino m ` set (inode_list m)" using ino(2) that by fastforce
      then show ?thesis using m1(6) by blast
    qed
    then have "map B1 [2..<2 + ?k] = map B [2..<2 + ?k]" by (rule map_cong [OF refl])
    ultimately have "on_disk B1 (super (fs m)) (freemap (fs m))"
      using clean False unfolding on_disk_def by (simp only: simp_thms)
    moreover have "sfs_sync m = Some (0, m1)" using m1(1) sp(3) False by (simp add: sfs_sync_def)
    ultimately show ?thesis using m1(2,4,5) sp False by blast
  next
    case True
    have lay1: "super_ok (super (fs m))" "2 + ?k \<le> N" "0 < N" "nwords (freemap (fs m)) = 1024 * ?k"
      "length ?ws = ?k * SFS_BLKSIZE"
      using lay at by (auto simp: layout_ok_def sfs_at_def bitmap_ok_def length_map_bytes)
    let ?s1 = "(fs m1)\<lparr>super_dirty := False\<rparr>"
    have at1: "fs_at B1 F N ?s1" using m1(2) by (simp add: sfs_at_def)
    obtain s2 b where s2: "sfs_sync_super ?s1 = Some (0, s2)" "fs_at (B1(0 := super_bytes (super (fs m)) @ b)) F N s2" "same_fs ?s1 s2"
      using sync_super_ok [OF at1 lay1(3)] lay1(1) sp by auto
    let ?B2 = "put_blocks (B1(0 := super_bytes (super (fs m)) @ b)) 2 ?ws"
    have eq: "super s2 = super (fs m)" "freemap s2 = freemap (fs m)" "\<not> super_dirty s2" using s2(3) sp by (auto simp: same_fs_def)
    obtain s3 where s3: "sfs_sync_freemap s2 = Some (0, s3)" "fs_at ?B2 F N s3" "same_fs s2 s3"
      using sync_freemap_ok [OF s2(2)] lay1(2,4) unfolding eq by blast
    have "sfs_sync m = Some (0, m1\<lparr>fs := s3\<rparr>)" using m1(1) sp(3) True s2(1) s3(1) by (simp add: sfs_sync_def)
    moreover have "on_disk ?B2 (super (fs m)) (freemap (fs m))"
      using put_blocks_concat [OF lay1(5), of _ 2] put_blocks_other [OF lay1(5), of 0 2] by (auto simp: on_disk_def)
    moreover have "?B2 (node_ino m n) = B1 (node_ino m n)" if "n \<in> set (inode_list m)" for n
      using put_blocks_other [OF lay1(5) ino(2) [OF that]] ino(1) [OF that] by simp
    ultimately show ?thesis using m1(4,5) s3(2,3) eq
      by (intro exI [of _ "m1\<lparr>fs := s3\<rparr>"] exI [of _ ?B2]) (auto simp: same_fs_def)
  qed
qed

lemma load_mounted:
  assumes d: "dinv d" "length b = SFS_BLKSIZE" "free_bits fm = F" "blk d = B" and lay: "layout_ok sp fm" "sb_blocks sp \<le> d_blocks dev"
    "F \<subseteq> {0<..<sb_blocks sp}"
    and i: "i \<noteq> 0" "i < sb_blocks sp" "i \<notin> F" "take 64 (B i) = din_bytes di" and di: "din_ok di" "di_nlinks di \<noteq> 0"
    "di_type di = SFS_TYPE_DIR \<or> di_type di = SFS_TYPE_FILE"
  shows "\<exists>m'. sfs_load_inode True (Some p) i (mounted dev d sp fm b) = Some (0, p, m') \<and> din (vsin (nodes m' p)) = di"
proof -
  let ?m = "mounted dev d sp fm b"
  have "sb_blocks sp \<le> sfs_freemap_bits sp" unfolding sfs_freemap_bits_def by linarith
  then have at: "fs_at B F (sb_blocks sp) (fs ?m)" using d lay by (simp add: sfs_at_def mounted_def layout_ok_def)
  obtain s1 where s1: "sfs_rbuf (fs ?m) 64 i 0 = Some (0, din_bytes di, s1)"
    using rbuf_ok [OF at i(2,1), of 0 64] i(4) by (auto simp: chunk_def)
  have "lookup_sfs_nolock i ?m = None" by (simp add: lookup_sfs_nolock_def mounted_def)
  then show ?thesis using s1 inuse_ok [OF at i(2,1)] i(3) di
    by (auto simp: sfs_load_inode_def din_of_bytes sfs_create_inode_def sfs_get_ops_def inode_init_def sfs_set_links_def Let_def)
qed

end


text \<open>C21. Writing back a file system and mounting the device again gives the file system back: \<^verbatim>\<open>sfs_sync\<close> succeeds and leaves
  nothing to write; mounting what is then on the device, with memory available, succeeds with the same superblock and the
  same free map; and loading any inode that was in memory from the fresh mount gives the inode it was.\<close>

theorem sfs_sync_then_mount:
  assumes "disk0_fs d B F N (fs m)" and "layout_ok (super (fs m)) (freemap (fs m))" and "cache_ok m"
    and "super_dirty (fs m) \<or> on_disk B (super (fs m)) (freemap (fs m))"
    and "\<forall>n \<in> set (inode_list m). node_ok B N m n \<and> live_ok F m n" and "all_got e"
  shows "\<exists>m' d' b. sfs_sync m = Some (0, m') \<and> \<not> super_dirty (fs m') \<and>
    sfs_do_mount e (disk0_dev d) (sfs_dst (fs m')) =
      Some (0, Some (mounted (disk0_dev d) d' (super (fs m)) (freemap (fs m)) b), d') \<and>
    (\<forall>n \<in> set (inode_list m). \<forall>p. \<exists>m''.
       sfs_load_inode True (Some p) (node_ino m n) (mounted (disk0_dev d) d' (super (fs m)) (freemap (fs m)) b) = Some (0, p, m'') \<and>
       din (vsin (nodes m'' p)) = din (vsin (nodes m n)))"
proof -
  obtain m' B' where m': "sfs_sync m = Some (0, m')" "disk0_fs d B' F N (fs m')" "\<not> super_dirty (fs m')"
    "on_disk B' (super (fs m)) (freemap (fs m))"
    "\<forall>n \<in> set (inode_list m). take 64 (B' (node_ino m n)) = din_bytes (din (vsin (nodes m n)))"
    using d0.sfs_sync_ok [OF assms(1-5)] by blast
  have at: "disk0_ok d (sfs_dst (fs m'))" "disk0_blk (sfs_dst (fs m')) = B'" using m'(2) by (auto simp: sfs_at_def)
  have N: "sb_blocks (super (fs m)) = N" "N \<le> d_blocks (disk0_dev d)" "free_bits (freemap (fs m)) = F" "F \<subseteq> {0<..<N}"
    using assms(1) by (auto simp: sfs_at_def)
  obtain d' b where d': "sfs_do_mount e (disk0_dev d) (sfs_dst (fs m')) =
      Some (0, Some (mounted (disk0_dev d) d' (super (fs m)) (freemap (fs m)) b), d')"
    "disk0_ok d d'" "disk0_blk d' = B'" "length b = SFS_BLKSIZE"
    using d0.mount_ok [OF at(1) assms(2) _ assms(6)] m'(4) N(1,2) unfolding at(2) by blast
  have "\<exists>m''. sfs_load_inode True (Some p) (node_ino m n) (mounted (disk0_dev d) d' (super (fs m)) (freemap (fs m)) b) = Some (0, p, m'') \<and>
      din (vsin (nodes m'' p)) = din (vsin (nodes m n))" if "n \<in> set (inode_list m)" for n p
    by (rule d0.load_mounted [OF d'(2,4) N(3) d'(3) assms(2)])
      (use N assms(5) m'(5) that in \<open>auto simp: node_ok_def live_ok_def Let_def\<close>)
  then show ?thesis using m'(1,3) d'(1) by blast
qed

text \<open>A file system of 32 blocks whose free map fills block 2, with one changed inode in memory, for the example.\<close>

definition mnt1 :: "disk0 mnt" where
  "mnt1 = mnt0\<lparr>fs := sfs0\<lparr>super := (super sfs0)\<lparr>sb_unused := 29\<rparr>, super_dirty := True,
     freemap := \<lparr>nbits = 32768, nwords = 1024, bmap = NOT (mask 3) # replicate 1023 0\<rparr>\<rparr>\<rparr>"

definition mount_env1 :: mount_env where
  "mount_env1 = \<lparr>got_fs = True, got_buffer = Some (replicate SFS_BLKSIZE 0), got_hash = True, got_bitmap = True, got_map = True\<rparr>"

lemma mnt1_bits: "free_bits \<lparr>nbits = 32768, nwords = 1024, bmap = NOT (mask 3) # replicate 1023 0\<rparr> = {3..<32}" (is "?F = _")
proof (rule set_eqI)
  fix i
  show "i \<in> ?F \<longleftrightarrow> i \<in> {3..<32}"
    by (cases "i < 32") (auto simp: free_bits_def bit_not_iff bit_mask_iff nth_Cons')
qed

lemma mnt1_ok: "disk0_fs 32 (\<lambda>b. replicate 4096 0) {3..<32} 32 (fs mnt1)" "layout_ok (super (fs mnt1)) (freemap (fs mnt1))"
  "cache_ok mnt1" "super_dirty (fs mnt1)" "inode_list mnt1 = [7]" "node_ino mnt1 7 = 1"
  "\<forall>n \<in> set (inode_list mnt1). node_ok (\<lambda>b. replicate 4096 0) 32 mnt1 n \<and> live_ok {3..<32} mnt1 n"
proof -
  have f: "super (fs mnt1) = (super sfs0)\<lparr>sb_unused := 29\<rparr>"
    "freemap (fs mnt1) = \<lparr>nbits = 32768, nwords = 1024, bmap = NOT (mask 3) # replicate 1023 0\<rparr>"
    "sfs_dev (fs mnt1) = sfs_dev sfs0" "sfs_dst (fs mnt1) = sfs_dst sfs0" "sfs_buffer (fs mnt1) = sfs_buffer sfs0"
    by (simp_all add: mnt1_def)
  show "disk0_fs 32 (\<lambda>b. replicate 4096 0) {3..<32} 32 (fs mnt1)"
    using sfs0_ok mnt1_bits by (auto simp: sfs_at_def f bitmap_ok_def)
  show "layout_ok (super (fs mnt1)) (freemap (fs mnt1))"
    using mnt1_bits by (auto simp: layout_ok_def f super_ok_def sfs0_def sfs_with_def sfs_freemap_bits_def sfs_freemap_blocks_def bitmap_ok_def)
  show "cache_ok mnt1" using mnt0_ok(1) by (simp add: cache_ok_def mnt1_def)
  show "super_dirty (fs mnt1)" by (simp add: mnt1_def)
  show "inode_list mnt1 = [7]" "node_ino mnt1 7 = 1" using mnt0_ok by (simp_all add: mnt1_def)
  show "\<forall>n \<in> set (inode_list mnt1). node_ok (\<lambda>b. replicate 4096 0) 32 mnt1 n \<and> live_ok {3..<32} mnt1 n"
    by (simp add: mnt1_def mnt0_def node_ok_def live_ok_def inode_check_def din_ok_def sin0_def Let_def)
qed

lemma sfs_sync_then_mount_witness:
  "\<exists>m' m1 d' m2. sfs_sync mnt1 = Some (0, m') \<and> sfs_do_mount mount_env1 (disk0_dev 32) (sfs_dst (fs m')) = Some (0, Some m1, d') \<and>
    sfs_load_inode True (Some 9) 1 m1 = Some (0, 9, m2) \<and> din (vsin (nodes m2 9)) = din sin0"
proof -
  have e: "all_got mount_env1" by (simp add: all_got_def mount_env1_def)
  have d: "din (vsin (nodes mnt1 7)) = din sin0" by (simp add: mnt1_def mnt0_def)
  show ?thesis
    using sfs_sync_then_mount [OF mnt1_ok(1-3) disjI1 [OF mnt1_ok(4)] mnt1_ok(7) e] d mnt1_ok(6) unfolding mnt1_ok(5) by fastforce
qed

end
