(* ===== verification/Semaphore.thy ===== *)
theory Semaphore
  imports Sched
begin

text \<open>
  Wait queues and semaphores (\<^verbatim>\<open>kern/sync/wait.c\<close>, \<^verbatim>\<open>kern/sync/sem.c\<close>). A \<^verbatim>\<open>wait_t\<close> and a semaphore are addresses; the
  list of a wait queue is the HOL list of its entries, and \<open>wait_link\<close> tells whether an entry is in a list. A process
  that has to wait gives up the processor in the middle of \<^verbatim>\<open>__down\<close>: the part before \<^verbatim>\<open>schedule\<close> and the part after it
  are two operations.
\<close>

section \<open>State\<close>

record wait_t =
  wait_proc :: "nat option"
  wakeup_flags :: u32
  wait_queue :: nat
  wait_link :: bool

record sync = kstate +
  waits :: "nat \<Rightarrow> wait_t"
  wait_heads :: "nat \<Rightarrow> nat list"
  sem_value :: "nat \<Rightarrow> int"

definition upd_wait :: "nat \<Rightarrow> (wait_t \<Rightarrow> wait_t) \<Rightarrow> 'a sync_scheme \<Rightarrow> 'a sync_scheme" where
  "upd_wait w f s = s\<lparr>waits := (waits s)(w := f (waits s w))\<rparr>"

definition upd_queue :: "nat \<Rightarrow> nat list \<Rightarrow> 'a sync_scheme \<Rightarrow> 'a sync_scheme" where
  "upd_queue q ws s = s\<lparr>wait_heads := (wait_heads s)(q := ws)\<rparr>"

section \<open>Wait queues\<close>

definition wait_init :: "nat \<Rightarrow> nat \<Rightarrow> 'a sync_scheme \<Rightarrow> 'a sync_scheme" where
  "wait_init w p = upd_wait w (\<lambda>x. x\<lparr>wait_proc := Some p, wakeup_flags := WT_INTERRUPTED, wait_link := False\<rparr>)"

definition wait_queue_init :: "nat \<Rightarrow> 'a sync_scheme \<Rightarrow> 'a sync_scheme" where
  "wait_queue_init q = upd_queue q []"

definition wait_queue_add :: "nat \<Rightarrow> nat \<Rightarrow> 'a sync_scheme \<Rightarrow> 'a sync_scheme option" where
  "wait_queue_add q w s = do {
     kassert (\<not> wait_link (waits s w) \<and> wait_proc (waits s w) \<noteq> None);
     let s1 = upd_wait w (\<lambda>x. x\<lparr>wait_queue := q\<rparr>) s;
     Some (upd_queue q (wait_heads s1 q @ [w]) (upd_wait w (\<lambda>x. x\<lparr>wait_link := True\<rparr>) s1))
   }"

definition wait_queue_del :: "nat \<Rightarrow> nat \<Rightarrow> 'a sync_scheme \<Rightarrow> 'a sync_scheme option" where
  "wait_queue_del q w s = do {
     kassert (wait_link (waits s w) \<and> wait_queue (waits s w) = q);
     Some (upd_queue q (remove1 w (wait_heads s q)) (upd_wait w (\<lambda>x. x\<lparr>wait_link := False\<rparr>) s))
   }"

fun next_in :: "nat \<Rightarrow> nat list \<Rightarrow> nat option" where
  "next_in w (x # y # xs) = (if x = w then Some y else next_in w (y # xs))"
| "next_in w xs = None"

definition wait_queue_next :: "nat \<Rightarrow> nat \<Rightarrow> 'a sync_scheme \<Rightarrow> nat option option" where
  "wait_queue_next q w s = do {
     kassert (wait_link (waits s w) \<and> wait_queue (waits s w) = q);
     Some (next_in w (wait_heads s q))
   }"

definition wait_queue_prev :: "nat \<Rightarrow> nat \<Rightarrow> 'a sync_scheme \<Rightarrow> nat option option" where
  "wait_queue_prev q w s = do {
     kassert (wait_link (waits s w) \<and> wait_queue (waits s w) = q);
     Some (next_in w (rev (wait_heads s q)))
   }"

definition wait_queue_first :: "nat \<Rightarrow> 'a sync_scheme \<Rightarrow> nat option" where
  "wait_queue_first q s = (case wait_heads s q of [] \<Rightarrow> None | w # _ \<Rightarrow> Some w)"

definition wait_queue_last :: "nat \<Rightarrow> 'a sync_scheme \<Rightarrow> nat option" where
  "wait_queue_last q s = (case rev (wait_heads s q) of [] \<Rightarrow> None | w # _ \<Rightarrow> Some w)"

definition wait_queue_empty :: "nat \<Rightarrow> 'a sync_scheme \<Rightarrow> bool" where
  "wait_queue_empty q s \<longleftrightarrow> wait_heads s q = []"

definition wait_in_queue :: "nat \<Rightarrow> 'a sync_scheme \<Rightarrow> bool" where
  "wait_in_queue w s \<longleftrightarrow> wait_link (waits s w)"

definition wakeup_wait :: "nat \<Rightarrow> nat \<Rightarrow> u32 \<Rightarrow> bool \<Rightarrow> 'a sync_scheme \<Rightarrow> 'a sync_scheme option" where
  "wakeup_wait q w fl del s = do {
     s1 \<leftarrow> (if del then wait_queue_del q w s else Some s);
     let s2 = upd_wait w (\<lambda>x. x\<lparr>wakeup_flags := fl\<rparr>) s1;
     p \<leftarrow> wait_proc (waits s2 w);
     wakeup_proc p s2
   }"

definition wakeup_first :: "nat \<Rightarrow> u32 \<Rightarrow> bool \<Rightarrow> 'a sync_scheme \<Rightarrow> 'a sync_scheme option" where
  "wakeup_first q fl del s =
     (case wait_queue_first q s of Some w \<Rightarrow> wakeup_wait q w fl del s | None \<Rightarrow> Some s)"

text \<open>The two loops of \<^verbatim>\<open>wakeup_queue\<close>, entered with an entry \<open>w\<close> of the queue.\<close>

partial_function (option) wakeup_del :: "nat \<Rightarrow> u32 \<Rightarrow> nat \<Rightarrow> 'a sync_scheme \<Rightarrow> 'a sync_scheme option" where
  "wakeup_del q fl w s = do {
     s1 \<leftarrow> wakeup_wait q w fl True s;
     (case wait_queue_first q s1 of Some w1 \<Rightarrow> wakeup_del q fl w1 s1 | None \<Rightarrow> Some s1)
   }"

partial_function (option) wakeup_keep :: "nat \<Rightarrow> u32 \<Rightarrow> nat \<Rightarrow> 'a sync_scheme \<Rightarrow> 'a sync_scheme option" where
  "wakeup_keep q fl w s = do {
     s1 \<leftarrow> wakeup_wait q w fl False s;
     n \<leftarrow> wait_queue_next q w s1;
     (case n of Some w1 \<Rightarrow> wakeup_keep q fl w1 s1 | None \<Rightarrow> Some s1)
   }"

definition wakeup_queue :: "nat \<Rightarrow> u32 \<Rightarrow> bool \<Rightarrow> 'a sync_scheme \<Rightarrow> 'a sync_scheme option" where
  "wakeup_queue q fl del s =
     (case wait_queue_first q s of
        None \<Rightarrow> Some s
      | Some w \<Rightarrow> if del then wakeup_del q fl w s else wakeup_keep q fl w s)"

definition wait_current_set :: "nat \<Rightarrow> nat \<Rightarrow> u32 \<Rightarrow> 'a sync_scheme \<Rightarrow> 'a sync_scheme option" where
  "wait_current_set q w ws s =
     (let s1 = wait_init w (current s) s;
          s2 = upd_proc (current s1) (\<lambda>x. x\<lparr>state := PROC_SLEEPING, wait_state := ws\<rparr>) s1
      in wait_queue_add q w s2)"

definition wait_current_del :: "nat \<Rightarrow> nat \<Rightarrow> 'a sync_scheme \<Rightarrow> 'a sync_scheme option" where
  "wait_current_del q w s = (if wait_in_queue w s then wait_queue_del q w s else Some s)"

section \<open>Semaphores\<close>

definition set_value :: "nat \<Rightarrow> int \<Rightarrow> 'a sync_scheme \<Rightarrow> 'a sync_scheme" where
  "set_value q v s = s\<lparr>sem_value := (sem_value s)(q := v)\<rparr>"

definition sem_init :: "nat \<Rightarrow> int \<Rightarrow> 'a sync_scheme \<Rightarrow> 'a sync_scheme" where
  "sem_init q val s = wait_queue_init q (set_value q val s)"

definition up_sem :: "nat \<Rightarrow> u32 \<Rightarrow> 'a sync_scheme \<Rightarrow> 'a sync_scheme option" where
  "up_sem q ws s = do {
     let (intr_flag, b) = intr_save (sie s);
     let s1 = s\<lparr>sie := b\<rparr>;
     s2 \<leftarrow> (case wait_queue_first q s1 of
              None \<Rightarrow> Some (set_value q (sem_value s1 q + 1) s1)
            | Some w \<Rightarrow> do {
                p \<leftarrow> wait_proc (waits s1 w);
                kassert (wait_state (procs s1 p) = ws);
                wakeup_wait q w ws True s1
              });
     Some (s2\<lparr>sie := intr_restore intr_flag (sie s2)\<rparr>)
   }"

text \<open>\<^verbatim>\<open>__down\<close> up to \<^verbatim>\<open>schedule\<close>; \<open>w\<close> is the address of its local \<^verbatim>\<open>wait_t\<close>. The flag tells whether it has returned 0
  without waiting. \<open>down_end\<close> is the rest, when the process runs again, with the value returned.\<close>

definition down_begin :: "nat \<Rightarrow> nat \<Rightarrow> u32 \<Rightarrow> 'a sync_scheme \<Rightarrow> (bool \<times> 'a sync_scheme) option" where
  "down_begin q w ws s = do {
     let (intr_flag, b) = intr_save (sie s);
     let s1 = s\<lparr>sie := b\<rparr>;
     if sem_value s1 q > 0 then
       let s2 = set_value q (sem_value s1 q - 1) s1
       in Some (True, s2\<lparr>sie := intr_restore intr_flag (sie s2)\<rparr>)
     else do {
       s2 \<leftarrow> wait_current_set q w ws s1;
       s3 \<leftarrow> schedule (s2\<lparr>sie := intr_restore intr_flag (sie s2)\<rparr>);
       Some (False, s3)
     }
   }"

definition down_end :: "nat \<Rightarrow> nat \<Rightarrow> u32 \<Rightarrow> 'a sync_scheme \<Rightarrow> (u32 \<times> 'a sync_scheme) option" where
  "down_end q w ws s = do {
     let (intr_flag, b) = intr_save (sie s);
     s1 \<leftarrow> wait_current_del q w (s\<lparr>sie := b\<rparr>);
     let s2 = s1\<lparr>sie := intr_restore intr_flag (sie s1)\<rparr>;
     Some (if wakeup_flags (waits s2 w) \<noteq> ws then wakeup_flags (waits s2 w) else 0, s2)
   }"

definition up :: "nat \<Rightarrow> 'a sync_scheme \<Rightarrow> 'a sync_scheme option" where
  "up q s = up_sem q WT_KSEM s"

definition down :: "nat \<Rightarrow> nat \<Rightarrow> 'a sync_scheme \<Rightarrow> (bool \<times> 'a sync_scheme) option" where
  "down q w s = down_begin q w WT_KSEM s"

definition down_return :: "nat \<Rightarrow> nat \<Rightarrow> 'a sync_scheme \<Rightarrow> 'a sync_scheme option" where
  "down_return q w s = do {
     (fl, s1) \<leftarrow> down_end q w WT_KSEM s;
     kassert (fl = 0);
     Some s1
   }"

definition try_down :: "nat \<Rightarrow> 'a sync_scheme \<Rightarrow> bool \<times> 'a sync_scheme" where
  "try_down q s =
     (let (intr_flag, b) = intr_save (sie s); s1 = s\<lparr>sie := b\<rparr>;
          (ret, s2) = (if sem_value s1 q > 0 then (True, set_value q (sem_value s1 q - 1) s1) else (False, s1))
      in (ret, s2\<lparr>sie := intr_restore intr_flag (sie s2)\<rparr>))"


section \<open>Well-formed semaphores\<close>

text \<open>\<open>S\<close> are the semaphores in use, \<open>P\<close> the live processes. The entries in a queue belong to different processes, which
  sleep until the semaphore is signalled, and nobody waits while the value is positive.\<close>

definition queue_ok :: "'a sync_scheme \<Rightarrow> nat set \<Rightarrow> nat \<Rightarrow> bool" where
  "queue_ok s P q \<longleftrightarrow> distinct (wait_heads s q) \<and> (\<forall>w\<in>set (wait_heads s q). wait_link (waits s w) \<and> wait_queue (waits s w) = q \<and>
     (\<exists>p\<in>P. wait_proc (waits s w) = Some p \<and> state (procs s p) = PROC_SLEEPING \<and> wait_state (procs s p) = WT_KSEM))"

definition one_wait :: "'a sync_scheme \<Rightarrow> nat set \<Rightarrow> bool" where
  "one_wait s S \<longleftrightarrow> inj_on (\<lambda>w. wait_proc (waits s w)) (\<Union>q\<in>S. set (wait_heads s q))"

definition sync_ok :: "'a sync_scheme \<Rightarrow> nat set \<Rightarrow> nat set \<Rightarrow> bool" where
  "sync_ok s P S \<longleftrightarrow> rq_exact stride_sched_class stride_inv s P \<and> (\<forall>p\<in>P. lab6_priority (procs s p) \<noteq> 0) \<and>
     (\<forall>q\<in>S. 0 \<le> sem_value s q \<and> (0 < sem_value s q \<longrightarrow> wait_heads s q = []) \<and> queue_ok s P q) \<and> one_wait s S"

text \<open>The abstract semaphore: its value and the processes waiting, first come first served.\<close>

definition sem_abs :: "'a sync_scheme \<Rightarrow> nat \<Rightarrow> int \<times> nat list" where
  "sem_abs s q = (sem_value s q, map (\<lambda>w. the (wait_proc (waits s w))) (wait_heads s q))"

fun spec_up :: "int \<times> 'p list \<Rightarrow> int \<times> 'p list" where
  "spec_up (v, []) = (v + 1, [])"
| "spec_up (v, p # ps) = (v, ps)"

fun spec_down :: "'p \<Rightarrow> int \<times> 'p list \<Rightarrow> int \<times> 'p list" where
  "spec_down p (v, ps) = (if v > 0 then (v - 1, ps) else (v, ps @ [p]))"

lemma sched_shape_sync:
  assumes "sched_shape (s :: 'a sync_scheme) s'"
  shows "waits s' = waits s" "wait_heads s' = wait_heads s" "sem_value s' = sem_value s" "sync.more s' = sync.more s"
    "idleproc s' = idleproc s"
  using assms by (cases s; cases s'; simp add: sched_shape_def)+

lemma sync_upd [simp]:
  "procs (upd_wait w f s) = procs s" "rq (upd_wait w f s) = rq s" "cls (upd_wait w f s) = cls s"
  "current (upd_wait w f s) = current s" "idleproc (upd_wait w f s) = idleproc s" "sie (upd_wait w f s) = sie s"
  "waits (upd_wait w f s) = (waits s)(w := f (waits s w))" "wait_heads (upd_wait w f s) = wait_heads s"
  "sem_value (upd_wait w f s) = sem_value s"
  "procs (upd_queue q ws s) = procs s" "rq (upd_queue q ws s) = rq s" "cls (upd_queue q ws s) = cls s"
  "current (upd_queue q ws s) = current s" "idleproc (upd_queue q ws s) = idleproc s" "sie (upd_queue q ws s) = sie s"
  "waits (upd_queue q ws s) = waits s" "wait_heads (upd_queue q ws s) = (wait_heads s)(q := ws)"
  "sem_value (upd_queue q ws s) = sem_value s"
  "procs (set_value q v s) = procs s" "rq (set_value q v s) = rq s" "cls (set_value q v s) = cls s"
  "current (set_value q v s) = current s" "idleproc (set_value q v s) = idleproc s" "sie (set_value q v s) = sie s"
  "waits (set_value q v s) = waits s" "wait_heads (set_value q v s) = wait_heads s"
  "sem_value (set_value q v s) = (sem_value s)(q := v)"
  "waits (upd_proc p g s) = waits s" "wait_heads (upd_proc p g s) = wait_heads s" "sem_value (upd_proc p g s) = sem_value s"
  by (simp_all add: upd_wait_def upd_queue_def set_value_def upd_proc_def)

text \<open>The run queue and the process table do not depend on the wait queues.\<close>

lemma rq_exact_eq:
  assumes "rq_exact c I s P" "procs t = procs s" "rq t = rq s" "cls t = cls s" "current t = current s" "idleproc t = idleproc s"
  shows "rq_exact c I t P"
  using assms by (simp add: rq_exact_def waiting_to_run_def)

lemma sync_okD:
  assumes "sync_ok s P S" "q \<in> S"
  shows "0 \<le> sem_value s q" "0 < sem_value s q \<Longrightarrow> wait_heads s q = []" "queue_ok s P q"
  using assms by (auto simp: sync_ok_def)

text \<open>Two queued entries of one process are one entry of one queue.\<close>

lemma sync_ok_same_proc:
  assumes "sync_ok s P S" "q \<in> S" "r \<in> S" "v \<in> set (wait_heads s q)" "w \<in> set (wait_heads s r)"
    "wait_proc (waits s v) = wait_proc (waits s w)"
  shows "v = w \<and> q = r"
proof -
  have "v = w" using assms unfolding sync_ok_def one_wait_def by (elim conjE, elim inj_onD) auto
  moreover have "wait_queue (waits s v) = q" "wait_queue (waits s w) = r"
    using sync_okD(3) [OF assms(1,2)] sync_okD(3) [OF assms(1,3)] assms(4,5) by (auto simp: queue_ok_def)
  ultimately show ?thesis by simp
qed

section \<open>Signalling\<close>

lemma up_no_waiter:
  assumes "sync_ok s P S" "q \<in> S" "wait_heads s q = []"
  shows "up q s = Some (set_value q (sem_value s q + 1) s)" "sync_ok (set_value q (sem_value s q + 1) s) P S"
proof -
  obtain fl b where fb: "intr_save (sie s) = (fl, b)" by fastforce
  have re: "intr_restore fl b = sie s" using fb by simp
  show "up q s = Some (set_value q (sem_value s q + 1) s)"
    using assms(3) fb re by (simp add: up_def up_sem_def wait_queue_first_def set_value_def)
  show "sync_ok (set_value q (sem_value s q + 1) s) P S"
    using assms by (auto simp: sync_ok_def queue_ok_def one_wait_def intro: rq_exact_eq)
qed

lemma up_waiter:
  assumes ok: "sync_ok s P S" "q \<in> S" and w: "wait_heads s q = w # ws" and p: "wait_proc (waits s w) = Some p"
  shows "\<exists>s'. up q s = Some s' \<and> sync_ok s' P S \<and> waits s' = (waits s)(w := (waits s w)\<lparr>wait_link := False, wakeup_flags := WT_KSEM\<rparr>) \<and>
    wait_heads s' = (wait_heads s)(q := ws) \<and> sem_value s' = sem_value s \<and> state (procs s' p) = PROC_RUNNABLE \<and>
    (\<forall>x. x \<noteq> p \<longrightarrow> procs s' x = procs s x) \<and> current s' = current s \<and> sie s' = sie s"
proof -
  obtain fl b where fb: "intr_save (sie s) = (fl, b)" by fastforce
  have re: "intr_restore fl b = sie s" using fb by simp
  have qo: "queue_ok s P q" using sync_okD(3) [OF ok] .
  have wq: "wait_link (waits s w)" "wait_queue (waits s w) = q" "p \<in> P" "state (procs s p) = PROC_SLEEPING"
    "wait_state (procs s p) = WT_KSEM" "w \<notin> set ws"
    using qo w p by (auto simp: queue_ok_def)
  define t where "t = upd_wait w (\<lambda>x. x\<lparr>wakeup_flags := WT_KSEM\<rparr>)
    (upd_queue q ws (upd_wait w (\<lambda>x. x\<lparr>wait_link := False\<rparr>) (s\<lparr>sie := b\<rparr>)))"
  have "rq_exact stride_sched_class stride_inv t P"
    using ok by (auto simp: t_def sync_ok_def intro: rq_exact_eq)
  from stride.wakeup_exact [OF this wq(3)] wq(4) obtain u where
    u: "wakeup_proc p t = Some u" "rq_exact stride_sched_class stride_inv u P" "state (procs u p) = PROC_RUNNABLE"
      "\<forall>x. x \<noteq> p \<longrightarrow> procs u x = procs s x" "current u = current s" "sie u = b"
      "lab6_priority (procs u p) = lab6_priority (procs s p)"
    by (auto simp: t_def)
  note sh = sched_shape_sync [OF wakeup_proc_shape [OF u(1)]]
  let ?s' = "u\<lparr>sie := sie s\<rparr>"
  have wh: "wait_heads ?s' = (wait_heads s)(q := ws)" using sh(2) by (simp add: t_def)
  have wt: "waits ?s' = (waits s)(w := (waits s w)\<lparr>wait_link := False, wakeup_flags := WT_KSEM\<rparr>)"
    using sh(1) by (simp add: t_def)
  have sv: "sem_value ?s' = sem_value s" using sh(3) by (simp add: t_def)
  have upq: "up q s = Some ?s'"
    using w p wq fb re u(1,6)
    by (simp add: up_def up_sem_def wait_queue_first_def wakeup_wait_def wait_queue_del_def t_def Let_def)
  have other: "v \<noteq> w \<and> wait_proc (waits s v) \<noteq> Some p" if "r \<in> S" "v \<in> set (wait_heads ?s' r)" for r v
  proof -
    have v: "v \<in> set (wait_heads s r)" using that(2) w unfolding wh by (auto split: if_splits)
    have "v = w \<Longrightarrow> r = q" using sync_ok_same_proc [OF ok(1) that(1) ok(2) v, of w] w by simp
    then have "v \<noteq> w" using that(2) wq(6) unfolding wh by auto
    moreover from this have "wait_proc (waits s v) \<noteq> wait_proc (waits s w)"
      using sync_ok_same_proc [OF ok(1) that(1) ok(2) v, of w] w by auto
    ultimately show ?thesis using p by simp
  qed
  have "queue_ok ?s' P r" if r: "r \<in> S" for r
  proof -
    have q: "queue_ok s P r" using sync_okD(3) [OF ok(1) r] .
    have d: "distinct (wait_heads ?s' r)" using q w unfolding wh queue_ok_def by auto
    have "wait_link (waits ?s' v) \<and> wait_queue (waits ?s' v) = r \<and> (\<exists>p\<in>P. wait_proc (waits ?s' v) = Some p \<and>
        state (procs ?s' p) = PROC_SLEEPING \<and> wait_state (procs ?s' p) = WT_KSEM)" if v: "v \<in> set (wait_heads ?s' r)" for v
    proof -
      have "v \<in> set (wait_heads s r)" using v w unfolding wh by (auto split: if_splits)
      then obtain x where "wait_link (waits s v)" "wait_queue (waits s v) = r" "x \<in> P" "wait_proc (waits s v) = Some x"
        "state (procs s x) = PROC_SLEEPING" "wait_state (procs s x) = WT_KSEM" using q by (auto simp: queue_ok_def)
      moreover have "v \<noteq> w" "x \<noteq> p" using other [OF r v] calculation(4) by auto
      ultimately show ?thesis using u(4) unfolding wt by auto
    qed
    then show ?thesis using d unfolding queue_ok_def by blast
  qed
  moreover have "one_wait ?s' S"
  proof -
    have "(\<Union>q\<in>S. set (wait_heads ?s' q)) \<subseteq> (\<Union>q\<in>S. set (wait_heads s q)) - {w}"
      using other w unfolding wh by (auto split: if_splits)
    moreover have "inj_on (\<lambda>v. wait_proc (waits ?s' v)) ((\<Union>q\<in>S. set (wait_heads s q)) - {w})"
      using ok(1) unfolding sync_ok_def one_wait_def wt by (auto simp: inj_on_def)
    ultimately show ?thesis unfolding one_wait_def by (rule inj_on_subset [rotated])
  qed
  moreover have "lab6_priority (procs ?s' x) \<noteq> 0" if "x \<in> P" for x
    using u(4,7) ok(1) that by (cases "x = p") (auto simp: sync_ok_def)
  ultimately have "sync_ok ?s' P S"
    using ok(1) rq_exact_eq [OF u(2), of ?s'] w unfolding sync_ok_def sv wh by auto
  then show ?thesis using upq wt wh sv u by auto
qed


section \<open>Waiting\<close>

lemma queue_ok_cong:
  assumes "queue_ok s P q" "waits t = waits s" "wait_heads t = wait_heads s" "\<And>x. state (procs t x) = state (procs s x)"
    "\<And>x. wait_state (procs t x) = wait_state (procs s x)"
  shows "queue_ok t P q"
  using assms by (simp add: queue_ok_def)

lemma down_no_wait:
  assumes "sync_ok s P S" "q \<in> S" "0 < sem_value s q"
  shows "down q w s = Some (True, set_value q (sem_value s q - 1) s)" "sync_ok (set_value q (sem_value s q - 1) s) P S"
proof -
  obtain fl b where fb: "intr_save (sie s) = (fl, b)" by fastforce
  have re: "intr_restore fl b = sie s" using fb by simp
  show "down q w s = Some (True, set_value q (sem_value s q - 1) s)"
    using assms(3) fb re by (simp add: down_def down_begin_def Let_def set_value_def)
  show "sync_ok (set_value q (sem_value s q - 1) s) P S"
    using assms by (auto simp: sync_ok_def queue_ok_def one_wait_def intro: rq_exact_eq)
qed

text \<open>The state of the current process is made sleeping and its entry is the last of the queue.\<close>

lemma wait_current_set_ok:
  assumes ok: "sync_ok s P S" "q \<in> S" "sem_value s q = 0" and c: "current s \<noteq> idleproc s" "state (procs s (current s)) = PROC_RUNNABLE"
    and w: "\<forall>r\<in>S. w \<notin> set (wait_heads s r)"
  shows "\<exists>t. wait_current_set q w WT_KSEM s = Some t \<and> sync_ok t P S \<and> state (procs t (current s)) = PROC_SLEEPING \<and>
    wait_heads t = (wait_heads s)(q := wait_heads s q @ [w]) \<and> sem_value t = sem_value s \<and>
    waits t = (waits s)(w := (waits s w)\<lparr>wait_proc := Some (current s), wakeup_flags := WT_INTERRUPTED, wait_queue := q, wait_link := True\<rparr>) \<and>
    (\<forall>x. x \<noteq> current s \<longrightarrow> procs t x = procs s x) \<and> current t = current s \<and> idleproc t = idleproc s \<and> sie t = sie s"
proof -
  let ?c = "current s"
  define t where "t = upd_queue q (wait_heads s q @ [w]) (upd_wait w (\<lambda>x. x\<lparr>wait_link := True\<rparr>) (upd_wait w (\<lambda>x. x\<lparr>wait_queue := q\<rparr>)
    (upd_proc ?c (\<lambda>x. x\<lparr>state := PROC_SLEEPING, wait_state := WT_KSEM\<rparr>) (wait_init w ?c s))))"
  have set: "wait_current_set q w WT_KSEM s = Some t"
    by (simp add: wait_current_set_def wait_queue_add_def wait_init_def t_def)
  have wh: "wait_heads t = (wait_heads s)(q := wait_heads s q @ [w])" by (simp add: t_def wait_init_def)
  have wt: "waits t = (waits s)(w := (waits s w)\<lparr>wait_proc := Some ?c, wakeup_flags := WT_INTERRUPTED, wait_queue := q, wait_link := True\<rparr>)"
    by (simp add: t_def wait_init_def)
  have sv: "sem_value t = sem_value s" by (simp add: t_def wait_init_def)
  have pr: "procs t = (procs s)(?c := (procs s ?c)\<lparr>state := PROC_SLEEPING, wait_state := WT_KSEM\<rparr>)"
    by (simp add: t_def wait_init_def)
  have cu: "rq t = rq s" "cls t = cls s" "current t = ?c" "idleproc t = idleproc s" "sie t = sie s"
    by (simp_all add: t_def wait_init_def)
  have rq: "rq_exact stride_sched_class stride_inv s P" using ok(1) by (simp add: sync_ok_def)
  have cP: "?c \<in> P" using rq by (simp add: rq_exact_def)
  have wr: "waiting_to_run t P = waiting_to_run s P"
    unfolding waiting_to_run_def pr cu by auto
  have "?c \<notin> waiting_to_run s P" by (simp add: waiting_to_run_def)
  then have "stride_inv (rq t, procs t) (waiting_to_run t P)"
    using rq stride.inv_upd unfolding wr pr cu rq_exact_def by blast
  then have rqt: "rq_exact stride_sched_class stride_inv t P"
    using rq c(1) unfolding rq_exact_def cu pr by simp
  have np: "wait_proc (waits s v) \<noteq> Some ?c" if "r \<in> S" "v \<in> set (wait_heads s r)" for r v
    using sync_okD(3) [OF ok(1) that(1)] that(2) c(2) by (auto simp: queue_ok_def)
  have "queue_ok t P r" if r: "r \<in> S" for r
  proof -
    have q: "queue_ok s P r" using sync_okD(3) [OF ok(1) r] .
    have "distinct (wait_heads t r)" using q w r unfolding wh queue_ok_def by auto
    moreover have "wait_link (waits t v) \<and> wait_queue (waits t v) = r \<and> (\<exists>p\<in>P. wait_proc (waits t v) = Some p \<and>
        state (procs t p) = PROC_SLEEPING \<and> wait_state (procs t p) = WT_KSEM)" if v: "v \<in> set (wait_heads t r)" for v
    proof (cases "v = w")
      case True
      then have "r = q" using v w r unfolding wh by (auto split: if_splits)
      then show ?thesis using True cP unfolding wt pr by simp
    next
      case False
      then have vs: "v \<in> set (wait_heads s r)" using v unfolding wh by (auto split: if_splits)
      then obtain x where "wait_link (waits s v)" "wait_queue (waits s v) = r" "x \<in> P" "wait_proc (waits s v) = Some x"
        "state (procs s x) = PROC_SLEEPING" "wait_state (procs s x) = WT_KSEM" using q by (auto simp: queue_ok_def)
      moreover have "x \<noteq> ?c" using np [OF r vs] calculation(4) by auto
      ultimately show ?thesis using False unfolding wt pr by auto
    qed
    ultimately show ?thesis unfolding queue_ok_def by blast
  qed
  moreover have "one_wait t S"
  proof -
    have "(\<Union>q\<in>S. set (wait_heads t q)) \<subseteq> insert w (\<Union>q\<in>S. set (wait_heads s q))"
      unfolding wh by (auto split: if_splits)
    moreover have "inj_on (\<lambda>v. wait_proc (waits t v)) (insert w (\<Union>q\<in>S. set (wait_heads s q)))"
    proof (rule inj_on_insert [THEN iffD2], intro conjI)
      have "inj_on (\<lambda>v. wait_proc (waits s v)) (\<Union>q\<in>S. set (wait_heads s q))"
        using ok(1) by (simp add: sync_ok_def one_wait_def)
      then show "inj_on (\<lambda>v. wait_proc (waits t v)) (\<Union>q\<in>S. set (wait_heads s q))"
        by (rule inj_on_cong [THEN iffD1, rotated]) (use w in \<open>auto simp: wt\<close>)
      show "wait_proc (waits t w) \<notin> (\<lambda>v. wait_proc (waits t v)) ` ((\<Union>q\<in>S. set (wait_heads s q)) - {w})"
        using np by (auto simp: wt) metis
    qed
    ultimately show ?thesis unfolding one_wait_def by (rule inj_on_subset [rotated])
  qed
  moreover have "\<forall>p\<in>P. lab6_priority (procs t p) \<noteq> 0" using ok(1) unfolding pr by (simp add: sync_ok_def)
  ultimately have "sync_ok t P S"
    using ok rqt unfolding sync_ok_def sv wh by (auto simp: fun_upd_def)
  then show ?thesis using set wh wt sv pr cu by simp
qed

lemma sched_same_prio: "sched_same p q \<Longrightarrow> lab6_priority q = lab6_priority p"
  by (cases p; cases q) (auto simp: sched_same_def)

lemma schedule_sync:
  assumes "sync_ok s P S"
  shows "\<exists>s'. schedule s = Some s' \<and> sync_ok s' P S \<and> waits s' = waits s \<and> wait_heads s' = wait_heads s \<and>
    sem_value s' = sem_value s \<and> sie s' = sie s \<and> (\<forall>x. state (procs s' x) = state (procs s x)) \<and>
    (current s' = idleproc s \<or> state (procs s (current s')) = PROC_RUNNABLE)"
proof -
  have rd: "\<forall>p\<in>P. lab6_priority (procs s p) \<noteq> 0" using assms by (simp add: sync_ok_def)
  obtain s' where s': "schedule s = Some s'" "rq_exact stride_sched_class stride_inv s' P"
    "let R = {p \<in> P. state (procs s p) = PROC_RUNNABLE \<and> p \<noteq> idleproc s} in
       (R = {} \<longrightarrow> current s' = idleproc s) \<and> (R \<noteq> {} \<longrightarrow> current s' \<in> R)"
    "\<forall>x. state (procs s' x) = state (procs s x)" "sie s' = sie s" "\<forall>x. sched_same (procs s x) (procs s' x)"
    using stride.schedule_exact [OF _ rd] assms unfolding sync_ok_def by blast
  note sh = sched_shape_sync [OF schedule_shape [OF s'(1)]]
  have pf: "wait_state (procs s' x) = wait_state (procs s x)" "lab6_priority (procs s' x) = lab6_priority (procs s x)" for x
    using s'(6) sched_same_fields(3) sched_same_prio by blast+
  have "sync_ok s' P S"
    using assms s'(2) queue_ok_cong [OF _ sh(1,2), of P] s'(4) pf unfolding sync_ok_def one_wait_def sh by auto
  moreover have "current s' = idleproc s \<or> state (procs s (current s')) = PROC_RUNNABLE"
    using s'(3) unfolding Let_def by blast
  ultimately show ?thesis using s' sh by blast
qed


section \<open>Properties\<close>


text \<open>Process 1 runs, process 2 waits for semaphore 7.\<close>

definition sync0 :: sync where
  "sync0 = \<lparr>procs = (\<lambda>_. proc0\<lparr>lab6_priority := 1\<rparr>)(0 := proc0\<lparr>state := PROC_RUNNABLE, lab6_priority := 1\<rparr>,
       1 := proc0\<lparr>state := PROC_RUNNABLE, lab6_priority := 1\<rparr>,
       2 := proc0\<lparr>state := PROC_SLEEPING, wait_state := WT_KSEM, lab6_priority := 1\<rparr>),
     rq = rq kernel0, cls = stride_sched_class, current = 1, idleproc = 0, initproc = 1, sie = True,
     timers = (\<lambda>_. \<lparr>expires = 1, timer_proc = 1\<rparr>), timer_list = [],
     waits = (\<lambda>w. \<lparr>wait_proc = Some 2, wakeup_flags = WT_INTERRUPTED, wait_queue = 7, wait_link = (w = 20)\<rparr>),
     wait_heads = (\<lambda>_. [])(7 := [20]), sem_value = (\<lambda>_. 0)\<rparr>"

lemma sync0_sel [simp]:
  "wait_heads sync0 q = (if q = 7 then [20] else [])" "sem_value sync0 q = 0" "current sync0 = 1" "idleproc sync0 = 0"
  "wait_proc (waits sync0 w) = Some 2" "state (procs sync0 p) = (if p = 0 \<or> p = 1 then PROC_RUNNABLE else if p = 2 then PROC_SLEEPING else PROC_UNINIT)"
  by (simp_all add: sync0_def proc0_def)

lemma sync0_ok: "sync_ok sync0 {0, 1, 2} {7}"
proof -
  have w: "waiting_to_run sync0 {0, 1, 2} = {}" by (auto simp: waiting_to_run_def sync0_def)
  have "stride_inv (rq sync0, procs sync0) {}"
    by (auto simp: sync0_def kernel0_def sched_init_def Let_def stride_inv_def stride_sched_class_def stride_init_def queue0_def
        intro!: exI [of _ "\<langle>\<rangle>"])
  then have "rq_exact stride_sched_class stride_inv sync0 {0, 1, 2}"
    unfolding rq_exact_def w by (simp add: sync0_def)
  then show ?thesis by (simp add: sync_ok_def queue_ok_def one_wait_def) (simp add: sync0_def)
qed





end
