(* ===== verification/Philosophers.thy ===== *)
theory Philosophers
  imports Semaphore
begin

text \<open>
  The dining philosophers of \<^verbatim>\<open>kern/sync/check_sync.c\<close> with semaphores, which the kernel runs at every start. Five
  kernel threads run \<^verbatim>\<open>philosopher_using_semaphore\<close>; a step is one statement of one of them, on the semaphores of the
  theory \<open>Semaphore\<close> at their abstract level (\<open>spec_up\<close>, \<open>spec_down\<close>), which \<open>up_wakes_first\<close> and \<open>down_waits_last\<close>
  show the kernel's semaphores to implement. A thread that has entered a queue is blocked until another one removes it. Printing has no effect on this
  state, and a sleeping thread goes on after a while, so that \<^verbatim>\<open>do_sleep\<close> is a step without an effect.
\<close>

section \<open>State\<close>

abbreviation (input) N :: nat where "N \<equiv> 5"
abbreviation (input) TIMES :: nat where "TIMES \<equiv> 4"

datatype phil_state = THINKING | HUNGRY | EATING

text \<open>The statement a thread executes next; a thread blocked in \<^verbatim>\<open>down\<close> is at the statement after it.\<close>

datatype phase =
    Iter
  | Think
  | Take_down
  | Take_hungry
  | Take_test
  | Take_up
  | Take_wait
  | Eat
  | Put_down
  | Put_thinking
  | Put_left
  | Put_right
  | Put_up
  | Quit

type_synonym semaphore = "int \<times> nat list"

record table =
  phase_of :: "nat \<Rightarrow> phase"
  blocked :: "nat \<Rightarrow> bool"
  iter :: "nat \<Rightarrow> nat"
  state_sema :: "nat \<Rightarrow> phil_state"
  mutex :: semaphore
  forks :: "nat \<Rightarrow> semaphore"

definition LEFT :: "nat \<Rightarrow> nat" where "LEFT i = (i + N - 1) mod N"
definition RIGHT :: "nat \<Rightarrow> nat" where "RIGHT i = (i + 1) mod N"

section \<open>Statements\<close>

definition goto :: "nat \<Rightarrow> phase \<Rightarrow> table \<Rightarrow> table" where
  "goto i p t = t\<lparr>phase_of := (phase_of t)(i := p)\<rparr>"

definition wake :: "semaphore \<Rightarrow> table \<Rightarrow> table" where
  "wake sem t = (case snd sem of [] \<Rightarrow> t | p # _ \<Rightarrow> t\<lparr>blocked := (blocked t)(p := False)\<rparr>)"

definition block :: "nat \<Rightarrow> semaphore \<Rightarrow> table \<Rightarrow> table" where
  "block i sem t = (if fst sem > 0 then t else t\<lparr>blocked := (blocked t)(i := True)\<rparr>)"

definition up_mutex :: "table \<Rightarrow> table" where
  "up_mutex t = (wake (mutex t) t)\<lparr>mutex := spec_up (mutex t)\<rparr>"

definition down_mutex :: "nat \<Rightarrow> table \<Rightarrow> table" where
  "down_mutex i t = (block i (mutex t) t)\<lparr>mutex := spec_down i (mutex t)\<rparr>"

definition up_fork :: "nat \<Rightarrow> table \<Rightarrow> table" where
  "up_fork k t = (wake (forks t k) t)\<lparr>forks := (forks t)(k := spec_up (forks t k))\<rparr>"

definition down_fork :: "nat \<Rightarrow> nat \<Rightarrow> table \<Rightarrow> table" where
  "down_fork i k t = (block i (forks t k) t)\<lparr>forks := (forks t)(k := spec_down i (forks t k))\<rparr>"

definition phi_test_sema :: "nat \<Rightarrow> table \<Rightarrow> table" where
  "phi_test_sema i t =
     (if state_sema t i = HUNGRY \<and> state_sema t (LEFT i) \<noteq> EATING \<and> state_sema t (RIGHT i) \<noteq> EATING
      then up_fork i (t\<lparr>state_sema := (state_sema t)(i := EATING)\<rparr>) else t)"

definition phi_take_forks_sema :: "nat \<Rightarrow> table \<Rightarrow> table" where
  "phi_take_forks_sema i t =
     (case phase_of t i of
        Take_down \<Rightarrow> goto i Take_hungry (down_mutex i t)
      | Take_hungry \<Rightarrow> goto i Take_test (t\<lparr>state_sema := (state_sema t)(i := HUNGRY)\<rparr>)
      | Take_test \<Rightarrow> goto i Take_up (phi_test_sema i t)
      | Take_up \<Rightarrow> goto i Take_wait (up_mutex t)
      | Take_wait \<Rightarrow> goto i Eat (down_fork i i t)
      | _ \<Rightarrow> t)"

definition phi_put_forks_sema :: "nat \<Rightarrow> table \<Rightarrow> table" where
  "phi_put_forks_sema i t =
     (case phase_of t i of
        Put_down \<Rightarrow> goto i Put_thinking (down_mutex i t)
      | Put_thinking \<Rightarrow> goto i Put_left (t\<lparr>state_sema := (state_sema t)(i := THINKING)\<rparr>)
      | Put_left \<Rightarrow> goto i Put_right (phi_test_sema (LEFT i) t)
      | Put_right \<Rightarrow> goto i Put_up (phi_test_sema (RIGHT i) t)
      | Put_up \<Rightarrow> goto i Iter (up_mutex t)
      | _ \<Rightarrow> t)"

definition philosopher_using_semaphore :: "nat \<Rightarrow> table \<Rightarrow> table option" where
  "philosopher_using_semaphore i t =
     (if blocked t i then None
      else case phase_of t i of
        Iter \<Rightarrow> Some (goto i (if iter t i < TIMES then Think else Quit) (t\<lparr>iter := (iter t)(i := iter t i + 1)\<rparr>))
      | Think \<Rightarrow> Some (goto i Take_down t)
      | Eat \<Rightarrow> Some (goto i Put_down t)
      | Quit \<Rightarrow> None
      | p \<Rightarrow> Some (if p \<in> {Take_down, Take_hungry, Take_test, Take_up, Take_wait} then phi_take_forks_sema i t
                  else phi_put_forks_sema i t))"

text \<open>The state in which \<^verbatim>\<open>check_sync\<close> has initialised the semaphores and created the threads.\<close>

definition table0 :: table where
  "table0 = \<lparr>phase_of = (\<lambda>_. Iter), blocked = (\<lambda>_. False), iter = (\<lambda>_. 0), state_sema = (\<lambda>_. THINKING),
     mutex = (1, []), forks = (\<lambda>_. (0, []))\<rparr>"

inductive phil_step :: "table \<Rightarrow> table \<Rightarrow> bool" where
  phil_stepI: "i < N \<Longrightarrow> philosopher_using_semaphore i t = Some t' \<Longrightarrow> phil_step t t'"

inductive_cases phil_stepE: "phil_step t t'"

section \<open>Every run ends\<close>

text \<open>The statements left in an iteration, and in all of them.\<close>

fun rank :: "phase \<Rightarrow> nat" where
  "rank Quit = 0" | "rank Iter = 1" | "rank Put_up = 2" | "rank Put_right = 3" | "rank Put_left = 4" | "rank Put_thinking = 5"
| "rank Put_down = 6" | "rank Eat = 7" | "rank Take_wait = 8" | "rank Take_up = 9" | "rank Take_test = 10"
| "rank Take_hungry = 11" | "rank Take_down = 12" | "rank Think = 13"

definition left_of :: "table \<Rightarrow> nat \<Rightarrow> nat" where
  "left_of t i = 13 * (TIMES - iter t i) + rank (phase_of t i)"

definition work :: "table \<Rightarrow> nat" where
  "work t = (\<Sum>i<N. left_of t i)"

lemma ops_sel [simp]:
  "phase_of (goto i p t) = (phase_of t)(i := p)" "blocked (goto i p t) = blocked t" "iter (goto i p t) = iter t"
  "state_sema (goto i p t) = state_sema t" "mutex (goto i p t) = mutex t" "forks (goto i p t) = forks t"
  "phase_of (wake m t) = phase_of t" "iter (wake m t) = iter t" "state_sema (wake m t) = state_sema t"
  "mutex (wake m t) = mutex t" "forks (wake m t) = forks t"
  "phase_of (block i m t) = phase_of t" "iter (block i m t) = iter t" "state_sema (block i m t) = state_sema t"
  "mutex (block i m t) = mutex t" "forks (block i m t) = forks t"
  by (simp_all add: goto_def wake_def block_def split: list.split)

lemma sem_sel [simp]:
  "phase_of (up_mutex t) = phase_of t" "iter (up_mutex t) = iter t" "state_sema (up_mutex t) = state_sema t"
  "forks (up_mutex t) = forks t" "mutex (up_mutex t) = spec_up (mutex t)"
  "phase_of (down_mutex i t) = phase_of t" "iter (down_mutex i t) = iter t" "state_sema (down_mutex i t) = state_sema t"
  "forks (down_mutex i t) = forks t" "mutex (down_mutex i t) = spec_down i (mutex t)"
  "phase_of (up_fork k t) = phase_of t" "iter (up_fork k t) = iter t" "state_sema (up_fork k t) = state_sema t"
  "mutex (up_fork k t) = mutex t" "forks (up_fork k t) = (forks t)(k := spec_up (forks t k))"
  "phase_of (down_fork i k t) = phase_of t" "iter (down_fork i k t) = iter t" "state_sema (down_fork i k t) = state_sema t"
  "mutex (down_fork i k t) = mutex t" "forks (down_fork i k t) = (forks t)(k := spec_down i (forks t k))"
  by (simp_all add: up_mutex_def down_mutex_def up_fork_def down_fork_def)

lemma phi_test_sel [simp]:
  "phase_of (phi_test_sema i t) = phase_of t" "iter (phi_test_sema i t) = iter t" "mutex (phi_test_sema i t) = mutex t"
  by (simp_all add: phi_test_sema_def)

lemmas phil_defs = philosopher_using_semaphore_def phi_take_forks_sema_def phi_put_forks_sema_def

lemma step_left_of:
  assumes "philosopher_using_semaphore i t = Some t'"
  shows "left_of t' i < left_of t i" "j \<noteq> i \<Longrightarrow> left_of t' j = left_of t j"
  using assms by (auto simp: phil_defs left_of_def split: if_splits phase.splits)

lemma step_work: "phil_step t t' \<Longrightarrow> work t' < work t"
proof (elim phil_stepE)
  fix i assume i: "i < N" "philosopher_using_semaphore i t = Some t'"
  have "left_of t' j \<le> left_of t j" for j using step_left_of [OF i(2)] by (cases "j = i") (auto intro: less_imp_le)
  moreover have "left_of t' i < left_of t i" using step_left_of(1) [OF i(2)] .
  ultimately show ?thesis unfolding work_def using i(1) by (intro sum_strict_mono_ex1) auto
qed

lemma run_length: "(phil_step ^^ n) t t' \<Longrightarrow> n + work t' \<le> work t"
proof (induction n arbitrary: t')
  case (Suc n)
  then obtain u where "(phil_step ^^ n) t u" "phil_step u t'" by auto
  then show ?case using Suc.IH [of u] step_work [of u t'] by simp
qed simp


section \<open>The invariant\<close>

lemma neighbours [simp]:
  "i < N \<Longrightarrow> LEFT i < N" "i < N \<Longrightarrow> RIGHT i < N" "i < N \<Longrightarrow> LEFT (RIGHT i) = i" "i < N \<Longrightarrow> RIGHT (LEFT i) = i"
  "i < N \<Longrightarrow> LEFT i \<noteq> i" "i < N \<Longrightarrow> RIGHT i \<noteq> i" "i < N \<Longrightarrow> i \<noteq> LEFT i" "i < N \<Longrightarrow> i \<noteq> RIGHT i"
proof -
  have "i = 0 \<or> i = 1 \<or> i = 2 \<or> i = 3 \<or> i = 4" if "i < N" using that by auto
  note c = this
  show "i < N \<Longrightarrow> LEFT i < N" "i < N \<Longrightarrow> RIGHT i < N" by (simp_all add: LEFT_def RIGHT_def)
  show "i < N \<Longrightarrow> LEFT (RIGHT i) = i" "i < N \<Longrightarrow> RIGHT (LEFT i) = i"
    "i < N \<Longrightarrow> LEFT i \<noteq> i" "i < N \<Longrightarrow> RIGHT i \<noteq> i" "i < N \<Longrightarrow> i \<noteq> LEFT i" "i < N \<Longrightarrow> i \<noteq> RIGHT i"
    by (drule c, auto simp: LEFT_def RIGHT_def)+
qed

lemma neighbour_iff: "i < N \<Longrightarrow> j < N \<Longrightarrow> LEFT i = j \<longleftrightarrow> i = RIGHT j"
  by (metis neighbours(3,4))

text \<open>In the critical section; waiting to enter it.\<close>

definition crit_phases :: "phase set" where
  "crit_phases = {Take_hungry, Take_test, Take_up, Put_thinking, Put_left, Put_right, Put_up}"

definition in_crit :: "table \<Rightarrow> nat \<Rightarrow> bool" where
  "in_crit t i \<longleftrightarrow> \<not> blocked t i \<and> phase_of t i \<in> crit_phases"

definition waits_mutex :: "table \<Rightarrow> nat \<Rightarrow> bool" where
  "waits_mutex t i \<longleftrightarrow> blocked t i \<and> phase_of t i \<in> {Take_hungry, Put_thinking}"

definition lock_inv :: "table \<Rightarrow> bool" where
  "lock_inv t \<longleftrightarrow> distinct (snd (mutex t)) \<and> set (snd (mutex t)) = {i. i < N \<and> waits_mutex t i} \<and>
     (fst (mutex t) = 1 \<and> snd (mutex t) = [] \<and> (\<forall>i<N. \<not> in_crit t i) \<or>
      fst (mutex t) = 0 \<and> (\<exists>h<N. \<forall>i<N. in_crit t i \<longleftrightarrow> i = h))"

text \<open>The state and the semaphore of a philosopher at each statement.\<close>

definition fork_ok :: "nat \<Rightarrow> phase \<Rightarrow> bool \<Rightarrow> phil_state \<Rightarrow> semaphore \<Rightarrow> bool" where
  "fork_ok i p b st sem \<longleftrightarrow>
     (b \<longrightarrow> p \<in> {Take_hungry, Put_thinking, Eat}) \<and>
     (case p of
        Take_test \<Rightarrow> st = HUNGRY \<and> sem = (0, [])
      | Take_up \<Rightarrow> st = HUNGRY \<and> sem = (0, []) \<or> st = EATING \<and> sem = (1, [])
      | Take_wait \<Rightarrow> st = HUNGRY \<and> sem = (0, []) \<or> st = EATING \<and> sem = (1, [])
      | Eat \<Rightarrow> b \<and> st = HUNGRY \<and> sem = (0, [i]) \<or> \<not> b \<and> st = EATING \<and> sem = (0, [])
      | Put_down \<Rightarrow> st = EATING \<and> sem = (0, [])
      | Put_thinking \<Rightarrow> st = EATING \<and> sem = (0, [])
      | _ \<Rightarrow> st = THINKING \<and> sem = (0, []))"

definition fork_inv :: "table \<Rightarrow> nat \<Rightarrow> bool" where
  "fork_inv t i \<longleftrightarrow> fork_ok i (phase_of t i) (blocked t i) (state_sema t i) (forks t i)"

text \<open>\<open>pending t i\<close>: the owner of the critical section will still test philosopher \<open>i\<close>.\<close>

definition pending :: "table \<Rightarrow> nat \<Rightarrow> bool" where
  "pending t i \<longleftrightarrow> phase_of t i = Take_test \<or> phase_of t (RIGHT i) = Put_left \<or> phase_of t (LEFT i) \<in> {Put_left, Put_right}"

definition table_inv :: "table \<Rightarrow> bool" where
  "table_inv t \<longleftrightarrow> (\<forall>i<N. state_sema t i = EATING \<longrightarrow> state_sema t (RIGHT i) \<noteq> EATING) \<and>
     (\<forall>i<N. state_sema t i = HUNGRY \<longrightarrow> state_sema t (LEFT i) = EATING \<or> state_sema t (RIGHT i) = EATING \<or> pending t i)"

definition phil_inv :: "table \<Rightarrow> bool" where
  "phil_inv t \<longleftrightarrow> lock_inv t \<and> (\<forall>i<N. fork_inv t i) \<and> table_inv t"

lemma phil_inv_start: "phil_inv table0"
  by (simp add: phil_inv_def lock_inv_def fork_inv_def fork_ok_def table_inv_def table0_def in_crit_def waits_mutex_def crit_phases_def)

lemma lock_inv_frame:
  assumes "lock_inv t" "mutex t' = mutex t" "\<And>j. j < N \<Longrightarrow> in_crit t' j = in_crit t j" "\<And>j. j < N \<Longrightarrow> waits_mutex t' j = waits_mutex t j"
  shows "lock_inv t'"
proof -
  have "{i. i < N \<and> waits_mutex t' i} = {i. i < N \<and> waits_mutex t i}" using assms(4) by blast
  then show ?thesis using assms(1,3) unfolding lock_inv_def assms(2) by simp
qed

text \<open>Entering and leaving the critical section.\<close>

lemma lock_down:
  assumes l: "lock_inv t" and i: "i < N" "\<not> blocked t i" "phase_of t i \<notin> crit_phases" and p: "p \<in> {Take_hungry, Put_thinking}"
  shows "lock_inv (goto i p (down_mutex i t))"
    and "blocked (down_mutex i t) = (if fst (mutex t) > 0 then blocked t else (blocked t)(i := True))"
proof -
  let ?t = "goto i p (down_mutex i t)"
  show b: "blocked (down_mutex i t) = (if fst (mutex t) > 0 then blocked t else (blocked t)(i := True))"
    by (simp add: down_mutex_def block_def)
  have pc: "p \<in> crit_phases" using p by (auto simp: crit_phases_def)
  obtain v q where m: "mutex t = (v, q)" by fastforce
  have nc: "\<not> in_crit t i" "\<not> waits_mutex t i" using i(2,3) by (auto simp: in_crit_def waits_mutex_def)
  consider "v = 1" "q = []" "\<forall>i<N. \<not> in_crit t i" | h where "v = 0" "h < N" "\<forall>i<N. in_crit t i \<longleftrightarrow> i = h"
    using l unfolding lock_inv_def m by auto
  then show "lock_inv ?t"
  proof cases
    case 1
    have "in_crit ?t j \<longleftrightarrow> j = i" if "j < N" for j
      using 1 that pc i(2) by (auto simp: in_crit_def b m)
    moreover have "waits_mutex ?t j \<longleftrightarrow> waits_mutex t j" for j using 1 nc i(2) by (auto simp: waits_mutex_def b m)
    ultimately show ?thesis using l 1 i(1) unfolding lock_inv_def m by (auto simp: m)
  next
    case 2
    have hi: "h \<noteq> i" using 2 nc i(1) by auto
    have "in_crit ?t j \<longleftrightarrow> in_crit t j" for j using 2 nc by (auto simp: in_crit_def b m)
    moreover have "waits_mutex ?t j \<longleftrightarrow> j = i \<or> waits_mutex t j" for j using 2 p by (auto simp: waits_mutex_def b m)
    moreover have "i \<notin> set q" using l nc unfolding lock_inv_def m by auto
    ultimately show ?thesis using l 2 i(1) unfolding lock_inv_def m by (auto simp: m)
  qed
qed

lemma lock_up:
  assumes l: "lock_inv t" and i: "i < N" "in_crit t i" and p: "p \<notin> crit_phases"
  shows "lock_inv (goto i p (up_mutex t))"
    and "blocked (up_mutex t) j \<longrightarrow> blocked t j" "blocked t j \<Longrightarrow> \<not> waits_mutex t j \<Longrightarrow> blocked (up_mutex t) j"
proof -
  let ?t = "goto i p (up_mutex t)"
  obtain v q where m: "mutex t = (v, q)" by fastforce
  have v: "v = 0" "\<forall>j<N. in_crit t j \<longleftrightarrow> j = i" using l i unfolding lock_inv_def m by auto
  have q: "distinct q" "set q = {i. i < N \<and> waits_mutex t i}" using l unfolding lock_inv_def m by auto
  have b: "blocked (up_mutex t) = (case q of [] \<Rightarrow> blocked t | k # _ \<Rightarrow> (blocked t)(k := False))"
    by (simp add: up_mutex_def wake_def m split: list.split)
  show "blocked (up_mutex t) j \<longrightarrow> blocked t j" unfolding b by (auto split: list.splits)
  show "blocked t j \<Longrightarrow> \<not> waits_mutex t j \<Longrightarrow> blocked (up_mutex t) j" 
    using q(2) unfolding b by (cases q) (simp, metis (mono_tags, lifting) fun_upd_other list.set_intros(1) list.simps(5) mem_Collect_eq)
  have ni: "\<not> blocked t i" "i \<notin> set q" using i q(2) by (auto simp: in_crit_def waits_mutex_def)
  show "lock_inv ?t"
  proof (cases q)
    case Nil
    have "\<not> in_crit ?t j" if "j < N" for j using v(2) that p by (auto simp: in_crit_def b Nil)
    moreover have "waits_mutex ?t j \<longleftrightarrow> waits_mutex t j" for j using p ni by (auto simp: waits_mutex_def b Nil crit_phases_def)
    ultimately show ?thesis using q v unfolding lock_inv_def by (auto simp: m Nil)
  next
    case (Cons k ks)
    have k: "k < N" "blocked t k" "phase_of t k \<in> {Take_hungry, Put_thinking}" "k \<noteq> i"
      using q(2) Cons ni by (auto simp: waits_mutex_def)
    then have kc: "phase_of t k \<in> crit_phases" by (auto simp: crit_phases_def)
    have "in_crit ?t j \<longleftrightarrow> j = k" if "j < N" for j using v(2) that p k kc by (auto simp: in_crit_def b Cons)
    moreover have "waits_mutex ?t j \<longleftrightarrow> waits_mutex t j \<and> j \<noteq> k" for j
      using p ni k by (auto simp: waits_mutex_def b Cons crit_phases_def)
    ultimately show ?thesis using q v k unfolding lock_inv_def by (auto simp: m Cons)
  qed
qed


section \<open>Preservation\<close>

lemma phil_invD:
  assumes "phil_inv t" "i < N"
  shows "lock_inv t" "fork_ok i (phase_of t i) (blocked t i) (state_sema t i) (forks t i)" "table_inv t"
  using assms by (simp_all add: phil_inv_def fork_inv_def)

lemma fork_ok_unblock: "fork_ok i p b st sem \<Longrightarrow> p \<noteq> Eat \<Longrightarrow> \<not> c \<or> b \<Longrightarrow> fork_ok i p c st sem"
  by (cases p) (auto simp: fork_ok_def)

lemma pending_goto:
  assumes "pending t j" "phase_of t i \<notin> {Take_test, Put_left, Put_right}" "phase_of t' = (phase_of t)(i := p)"
  shows "pending t' j"
  using assms by (auto simp: pending_def)

lemma table_frame:
  assumes "table_inv t" "state_sema t' = state_sema t" "\<And>j. j < N \<Longrightarrow> pending t j \<Longrightarrow> pending t' j"
  shows "table_inv t'"
  using assms unfolding table_inv_def by metis

lemma test_blocked:
  "blocked (phi_test_sema k t) = (if state_sema t k = HUNGRY \<and> state_sema t (LEFT k) \<noteq> EATING \<and> state_sema t (RIGHT k) \<noteq> EATING
     then case snd (forks t k) of [] \<Rightarrow> blocked t | p # _ \<Rightarrow> (blocked t)(p := False) else blocked t)"
  by (simp add: phi_test_sema_def up_fork_def wake_def split: list.split)

lemma test_state:
  "state_sema (phi_test_sema k t) = (if state_sema t k = HUNGRY \<and> state_sema t (LEFT k) \<noteq> EATING \<and> state_sema t (RIGHT k) \<noteq> EATING
     then (state_sema t)(k := EATING) else state_sema t)"
  by (simp add: phi_test_sema_def)

lemma test_forks:
  "forks (phi_test_sema k t) = (if state_sema t k = HUNGRY \<and> state_sema t (LEFT k) \<noteq> EATING \<and> state_sema t (RIGHT k) \<noteq> EATING
     then (forks t)(k := spec_up (forks t k)) else forks t)"
  by (simp add: phi_test_sema_def)

text \<open>A test of \<open>k\<close> wakes nobody but \<open>k\<close>, and only if \<open>k\<close> is waiting for its forks.\<close>

lemma test_wakes:
  assumes "fork_ok k (phase_of t k) (blocked t k) (state_sema t k) (forks t k)"
  shows "blocked (phi_test_sema k t) j = blocked t j \<or> j = k \<and> phase_of t k = Eat \<and> \<not> blocked (phi_test_sema k t) k"
  using assms unfolding test_blocked fork_ok_def by (auto split: list.splits phase.splits)

lemma test_table:
  assumes "table_inv t" "k < N"
  shows "\<forall>i<N. state_sema (phi_test_sema k t) i = EATING \<longrightarrow> state_sema (phi_test_sema k t) (RIGHT i) \<noteq> EATING"
    and "\<forall>i<N. state_sema (phi_test_sema k t) i = HUNGRY \<longrightarrow> state_sema (phi_test_sema k t) (LEFT i) = EATING \<or>
      state_sema (phi_test_sema k t) (RIGHT i) = EATING \<or> pending t i \<and> i \<noteq> k"
proof -
  let ?c = "state_sema t k = HUNGRY \<and> state_sema t (LEFT k) \<noteq> EATING \<and> state_sema t (RIGHT k) \<noteq> EATING"
  have e: "i < N \<Longrightarrow> state_sema t i = EATING \<Longrightarrow> state_sema t (RIGHT i) \<noteq> EATING"
    and h: "i < N \<Longrightarrow> state_sema t i = HUNGRY \<Longrightarrow> state_sema t (LEFT i) = EATING \<or> state_sema t (RIGHT i) = EATING \<or> pending t i"
    for i using assms(1) by (auto simp: table_inv_def)
  have r: "RIGHT i = k \<Longrightarrow> i = LEFT k" if "i < N" for i using that by auto
  show "\<forall>i<N. state_sema (phi_test_sema k t) i = EATING \<longrightarrow> state_sema (phi_test_sema k t) (RIGHT i) \<noteq> EATING"
    using e r assms(2) unfolding test_state by (cases ?c) auto
  show "\<forall>i<N. state_sema (phi_test_sema k t) i = HUNGRY \<longrightarrow> state_sema (phi_test_sema k t) (LEFT i) = EATING \<or>
      state_sema (phi_test_sema k t) (RIGHT i) = EATING \<or> pending t i \<and> i \<noteq> k"
    using h unfolding test_state by (cases ?c) auto
qed

lemma test_step:
  assumes inv: "phil_inv t" and i: "i < N" "in_crit t i" and k: "k < N"
    and p: "p \<in> crit_phases" and old: "phase_of t i \<in> {Take_test, Put_left, Put_right}"
    and ki: "if k = i then phase_of t i = Take_test \<and> p = Take_up else phase_of t i \<in> {Put_left, Put_right} \<and> p \<in> {Put_right, Put_up}"
    and pd: "\<And>j. j < N \<Longrightarrow> j \<noteq> k \<Longrightarrow> pending t j \<Longrightarrow> pending (goto i p (phi_test_sema k t)) j"
  shows "phil_inv (goto i p (phi_test_sema k t))"
proof -
  let ?t = "goto i p (phi_test_sema k t)"
  note l = phil_invD(1) [OF inv i(1)] and f = phil_invD(2) [OF inv] and tb = phil_invD(3) [OF inv i(1)]
  have w: "blocked ?t j = blocked t j \<or> j = k \<and> phase_of t k = Eat \<and> \<not> blocked ?t k" for j
    using test_wakes [OF f [OF k], of j] by simp
  have ib: "blocked ?t i = blocked t i" using w [of i] i(2) by (auto simp: in_crit_def)
  have "lock_inv ?t"
  proof (rule lock_inv_frame [OF l])
    fix j assume "j < N"
    show "in_crit ?t j = in_crit t j"
      using w [of j] ib i(2) p by (auto simp: in_crit_def crit_phases_def)
    show "waits_mutex ?t j = waits_mutex t j"
      using w [of j] ib i(2) by (auto simp: waits_mutex_def in_crit_def)
  qed simp
  moreover have "fork_inv ?t j" if j: "j < N" for j
  proof (cases "j = k")
    case True
    have "phase_of t k \<in> crit_phases \<Longrightarrow> \<not> blocked t k \<Longrightarrow> k = i"
      using l i k by (auto simp: lock_inv_def in_crit_def)
    then show ?thesis
      using f [OF k] ki unfolding True fork_inv_def fork_ok_def test_blocked test_state test_forks
      by (cases "phase_of t k") (auto simp: crit_phases_def test_blocked test_state test_forks split: if_splits)
  next
    case False
    then have s: "state_sema ?t j = state_sema t j" "forks ?t j = forks t j" "blocked ?t j = blocked t j"
      using w [of j] by (auto simp: test_state test_forks)
    show ?thesis
    proof (cases "j = i")
      case True
      then have "phase_of t j \<in> {Put_left, Put_right}" "p \<in> {Put_right, Put_up}" using ki False by (auto split: if_splits)
      then show ?thesis using f [OF j] True unfolding fork_inv_def s fork_ok_def by auto
    qed (use f [OF j] s in \<open>simp add: fork_inv_def\<close>)
  qed
  moreover have "table_inv ?t"
    using test_table [OF tb k] pd unfolding table_inv_def ops_sel by blast
  ultimately show ?thesis by (simp add: phil_inv_def)
qed


lemma local_step:
  assumes inv: "phil_inv t" and i: "i < N" "\<not> blocked t i" and c: "phase_of t i \<notin> crit_phases" "p \<notin> crit_phases"
    and f: "fork_ok i p False (state_sema t i) (forks t i)"
    and t': "mutex t' = mutex t" "forks t' = forks t" "state_sema t' = state_sema t" "blocked t' = blocked t"
      "phase_of t' = (phase_of t)(i := p)"
  shows "phil_inv t'"
proof -
  have cw: "in_crit t' j = in_crit t j" "waits_mutex t' j = waits_mutex t j" for j
    using i(2) c by (cases "j = i"; force simp: in_crit_def waits_mutex_def t' crit_phases_def)+
  have "lock_inv t'" by (rule lock_inv_frame [OF phil_invD(1) [OF inv i(1)] t'(1)]) (simp_all add: cw)
  moreover have "fork_inv t' j" if "j < N" for j
    using phil_invD(2) [OF inv that] f i(2) by (auto simp: fork_inv_def t')
  moreover have pd: "pending t j \<Longrightarrow> pending t' j" for j
    using c(1) by (rule_tac pending_goto [OF _ _ t'(5)]) (auto simp: crit_phases_def)
  moreover have "table_inv t'" by (rule table_frame [OF phil_invD(3) [OF inv i(1)] t'(3) pd])
  ultimately show ?thesis by (simp add: phil_inv_def)
qed

lemma down_step:
  assumes inv: "phil_inv t" and i: "i < N" "\<not> blocked t i"
    and c: "phase_of t i = Take_down \<and> p = Take_hungry \<or> phase_of t i = Put_down \<and> p = Put_thinking"
  shows "phil_inv (goto i p (down_mutex i t))"
proof -
  let ?t = "goto i p (down_mutex i t)"
  have nc: "phase_of t i \<notin> crit_phases" "p \<in> {Take_hungry, Put_thinking}" using c by (auto simp: crit_phases_def)
  note l = lock_down [OF phil_invD(1) [OF inv i(1)] i nc]
  have "fork_inv ?t j" if j: "j < N" for j
  proof (cases "j = i")
    case True
    have "fork_ok i p b (state_sema t i) (forks t i)" for b
      using phil_invD(2) [OF inv i(1)] c by (elim disjE conjE) (simp_all add: fork_ok_def)
    then show ?thesis by (simp add: True fork_inv_def)
  next
    case False
    then show ?thesis using phil_invD(2) [OF inv j] by (simp add: fork_inv_def l(2))
  qed
  moreover have pd: "pending t j \<Longrightarrow> pending ?t j" for j
    using c by (rule_tac pending_goto [where i = i and p = p]) auto
  moreover have "table_inv ?t" by (rule table_frame [OF phil_invD(3) [OF inv i(1)] _ pd]) simp
  ultimately show ?thesis using l(1) by (simp add: phil_inv_def)
qed

lemma up_step:
  assumes inv: "phil_inv t" and i: "i < N" "\<not> blocked t i"
    and c: "phase_of t i = Take_up \<and> p = Take_wait \<or> phase_of t i = Put_up \<and> p = Iter"
  shows "phil_inv (goto i p (up_mutex t))"
proof -
  let ?t = "goto i p (up_mutex t)"
  have ic: "in_crit t i" "p \<notin> crit_phases" using c i(2) by (auto simp: crit_phases_def in_crit_def)
  note l = lock_up [OF phil_invD(1) [OF inv i(1)] i(1) ic]
  have "fork_inv ?t j" if j: "j < N" for j
  proof (cases "j = i")
    case True
    then have "\<not> blocked (up_mutex t) j" using l(2) i(2) by blast
    then show ?thesis using phil_invD(2) [OF inv j] c True by (elim disjE conjE) (simp_all add: fork_inv_def fork_ok_def)
  next
    case False
    have "blocked (up_mutex t) j = blocked t j \<or> (phase_of t j \<noteq> Eat \<and> blocked t j)"
      using l(2,3) [of j] by (auto simp: waits_mutex_def)
    then have "fork_ok j (phase_of t j) (blocked (up_mutex t) j) (state_sema t j) (forks t j)"
      using fork_ok_unblock [OF phil_invD(2) [OF inv j]] phil_invD(2) [OF inv j] by auto
    then show ?thesis using False by (simp add: fork_inv_def)
  qed
  moreover have pd: "pending t j \<Longrightarrow> pending ?t j" for j
    using c by (rule_tac pending_goto [where i = i and p = p]) auto
  moreover have "table_inv ?t" by (rule table_frame [OF phil_invD(3) [OF inv i(1)] _ pd]) simp
  ultimately show ?thesis using l(1) by (simp add: phil_inv_def)
qed

lemma state_step:
  assumes inv: "phil_inv t" and i: "i < N" "\<not> blocked t i"
    and c: "phase_of t i = Take_hungry \<and> p = Take_test \<and> x = HUNGRY \<or> phase_of t i = Put_thinking \<and> p = Put_left \<and> x = THINKING"
  shows "phil_inv (goto i p (t\<lparr>state_sema := (state_sema t)(i := x)\<rparr>))"
proof -
  let ?t = "goto i p (t\<lparr>state_sema := (state_sema t)(i := x)\<rparr>)"
  have cw: "in_crit ?t j = in_crit t j" "waits_mutex ?t j = waits_mutex t j" for j
    using i(2) c by (auto simp: in_crit_def waits_mutex_def crit_phases_def)
  have "lock_inv ?t" by (rule lock_inv_frame [OF phil_invD(1) [OF inv i(1)]]) (simp, simp_all only: cw)
  moreover have "fork_inv ?t j" if "j < N" for j
    using phil_invD(2) [OF inv that] c i(2) by (cases "j = i"; elim disjE conjE) (simp_all add: fork_inv_def fork_ok_def)
  moreover have "table_inv ?t"
  proof -
    have e: "state_sema t (RIGHT j) \<noteq> EATING" if "j < N" "state_sema t j = EATING" for j
      using phil_invD(3) [OF inv i(1)] that by (auto simp: table_inv_def)
    have x: "x \<noteq> EATING" using c by auto
    have "state_sema ?t (RIGHT j) \<noteq> EATING" if "j < N" "state_sema ?t j = EATING" for j
      using e [of j] that x by (auto split: if_splits)
    moreover have "state_sema ?t (LEFT j) = EATING \<or> state_sema ?t (RIGHT j) = EATING \<or> pending ?t j"
      if j: "j < N" "state_sema ?t j = HUNGRY" for j
    proof (cases "phase_of t i = Take_hungry")
      case True
      then have s: "state_sema t i = THINKING" "p = Take_test" using phil_invD(2) [OF inv i(1)] c by (auto simp: fork_ok_def)
      show ?thesis
      proof (cases "j = i")
        case False
        then have "state_sema t j = HUNGRY" using j(2) by simp
        then have "state_sema t (LEFT j) = EATING \<or> state_sema t (RIGHT j) = EATING \<or> pending t j"
          using phil_invD(3) [OF inv i(1)] j(1) by (auto simp: table_inv_def)
        moreover have "pending t j \<Longrightarrow> pending ?t j"
          using True by (rule_tac pending_goto [where i = i and p = p]) auto
        ultimately show ?thesis using s(1) by auto
      qed (simp add: pending_def s)
    next
      case False
      then have c': "phase_of t i = Put_thinking" "p = Put_left" "x = THINKING" using c by auto
      then have "state_sema t j = HUNGRY" "j \<noteq> i" using j(2) by (auto split: if_splits)
      then have "state_sema t (LEFT j) = EATING \<or> state_sema t (RIGHT j) = EATING \<or> pending t j"
        using phil_invD(3) [OF inv i(1)] j(1) by (auto simp: table_inv_def)
      moreover have "pending t j \<Longrightarrow> pending ?t j"
        using c'(1) by (rule_tac pending_goto [where i = i and p = p]) auto
      moreover have "LEFT j = i \<or> RIGHT j = i \<Longrightarrow> pending ?t j" by (auto simp: pending_def c')
      ultimately show ?thesis by (cases "LEFT j = i \<or> RIGHT j = i") auto
    qed
    ultimately show ?thesis by (simp add: table_inv_def)
  qed
  ultimately show ?thesis by (simp add: phil_inv_def)
qed

lemma wait_step:
  assumes inv: "phil_inv t" and i: "i < N" "\<not> blocked t i" and c: "phase_of t i = Take_wait"
  shows "phil_inv (goto i Eat (down_fork i i t))"
proof -
  let ?t = "goto i Eat (down_fork i i t)"
  have f: "state_sema t i = HUNGRY \<and> forks t i = (0, []) \<or> state_sema t i = EATING \<and> forks t i = (1, [])"
    using phil_invD(2) [OF inv i(1)] c by (simp add: fork_ok_def)
  have b: "blocked ?t = (blocked t)(i := (state_sema t i = HUNGRY))"
    using f i(2) by (auto simp: down_fork_def block_def fun_eq_iff)
  have cw: "in_crit ?t j = in_crit t j" "waits_mutex ?t j = waits_mutex t j" for j
    using i(2) c unfolding in_crit_def waits_mutex_def b by (auto simp: crit_phases_def)
  have "lock_inv ?t" by (rule lock_inv_frame [OF phil_invD(1) [OF inv i(1)]]) (simp, simp_all only: cw)
  moreover have "fork_inv ?t j" if "j < N" for j
  proof (cases "j = i")
    case True
    then show ?thesis using f unfolding fork_inv_def b by (auto simp: fork_ok_def)
  next
    case False
    then show ?thesis using phil_invD(2) [OF inv that] unfolding fork_inv_def b by simp
  qed
  moreover have pd: "pending t j \<Longrightarrow> pending ?t j" for j
    using c by (rule_tac pending_goto [where i = i and p = Eat]) auto
  moreover have "table_inv ?t" by (rule table_frame [OF phil_invD(3) [OF inv i(1)] _ pd]) simp
  ultimately show ?thesis by (simp add: phil_inv_def)
qed

lemma phil_step_inv:
  assumes inv: "phil_inv t" and i: "i < N" and s: "philosopher_using_semaphore i t = Some t'"
  shows "phil_inv t'"
proof -
  have nb: "\<not> blocked t i" using s by (auto simp: phil_defs split: if_splits)
  have ic: "phase_of t i \<in> crit_phases \<Longrightarrow> in_crit t i" using nb by (simp add: in_crit_def)
  note f = phil_invD(2) [OF inv i]
  show ?thesis
  proof (cases "phase_of t i")
    case Iter
    then show ?thesis
      using s nb f by (intro local_step [OF inv i nb, of "if iter t i < TIMES then Think else Quit"])
        (auto simp: phil_defs crit_phases_def fork_ok_def)
  next
    case Think
    then show ?thesis
      using s nb f by (intro local_step [OF inv i nb, of Take_down]) (auto simp: phil_defs crit_phases_def fork_ok_def)
  next
    case Eat
    then show ?thesis
      using s nb f by (intro local_step [OF inv i nb, of Put_down]) (auto simp: phil_defs crit_phases_def fork_ok_def)
  next
    case Take_down
    then show ?thesis using s nb down_step [OF inv i nb, of Take_hungry] by (auto simp: phil_defs)
  next
    case Put_down
    then show ?thesis using s nb down_step [OF inv i nb, of Put_thinking] by (auto simp: phil_defs)
  next
    case Take_up
    then show ?thesis using s nb up_step [OF inv i nb, of Take_wait] by (auto simp: phil_defs)
  next
    case Put_up
    then show ?thesis using s nb up_step [OF inv i nb, of Iter] by (auto simp: phil_defs)
  next
    case Take_hungry
    then show ?thesis using s nb state_step [OF inv i nb, of Take_test HUNGRY] by (auto simp: phil_defs)
  next
    case Put_thinking
    then show ?thesis using s nb state_step [OF inv i nb, of Put_left THINKING] by (auto simp: phil_defs)
  next
    case Take_wait
    then show ?thesis using s nb wait_step [OF inv i nb] by (auto simp: phil_defs)
  next
    case Take_test
    have "phil_inv (goto i Take_up (phi_test_sema i t))"
      by (rule test_step [OF inv i]) (use Take_test ic i in \<open>auto simp: crit_phases_def pending_def\<close>)
    then show ?thesis using s nb Take_test by (auto simp: phil_defs)
  next
    case Put_left
    have "phil_inv (goto i Put_right (phi_test_sema (LEFT i) t))"
      by (rule test_step [OF inv i]) (use Put_left ic i in \<open>auto simp: crit_phases_def pending_def\<close>)
    then show ?thesis using s nb Put_left by (auto simp: phil_defs)
  next
    case Put_right
    have "phil_inv (goto i Put_up (phi_test_sema (RIGHT i) t))"
      by (rule test_step [OF inv i]) (use Put_right ic i in \<open>auto simp: crit_phases_def pending_def\<close>)
    then show ?thesis using s nb Put_right by (auto simp: phil_defs)
  qed (use s nb in \<open>auto simp: phil_defs\<close>)
qed


lemma reachable_inv: "phil_step\<^sup>*\<^sup>* table0 t \<Longrightarrow> phil_inv t"
  by (induction rule: rtranclp_induct) (auto simp: phil_inv_start elim: phil_stepE intro: phil_step_inv)

section \<open>Progress\<close>

lemma enabled: "\<not> blocked t i \<Longrightarrow> phase_of t i \<noteq> Quit \<Longrightarrow> philosopher_using_semaphore i t \<noteq> None"
  by (cases "phase_of t i") (simp_all add: philosopher_using_semaphore_def)

lemma no_deadlock:
  assumes inv: "phil_inv t" and i: "i < N" "phase_of t i \<noteq> Quit"
  shows "\<exists>j<N. \<not> blocked t j \<and> phase_of t j \<noteq> Quit"
proof (rule ccontr)
  assume "\<not> ?thesis"
  then have st: "blocked t j \<or> phase_of t j = Quit" if "j < N" for j using that by blast
  note f = phil_invD(2) [OF inv]
  have crit: "\<not> in_crit t j" if "j < N" for j using st [OF that] by (auto simp: in_crit_def crit_phases_def)
  then have "fst (mutex t) = 1" "snd (mutex t) = []" using phil_invD(1) [OF inv i(1)] unfolding lock_inv_def by auto
  then have "\<not> waits_mutex t j" if "j < N" for j
    using phil_invD(1) [OF inv i(1)] that unfolding lock_inv_def by auto
  then have b: "phase_of t j = Eat \<and> state_sema t j = HUNGRY \<or> phase_of t j = Quit \<and> state_sema t j = THINKING" if "j < N" for j
    using f [OF that] st [OF that] that by (auto simp: fork_ok_def waits_mutex_def)
  then have "state_sema t i = HUNGRY" using i by auto
  then have "state_sema t (LEFT i) = EATING \<or> state_sema t (RIGHT i) = EATING \<or> pending t i"
    using phil_invD(3) [OF inv i(1)] i(1) by (simp add: table_inv_def)
  then show False using b [of i] b [of "LEFT i"] b [of "RIGHT i"] i(1) by (auto simp: pending_def)
qed

section \<open>Properties\<close>

definition eats :: "table \<Rightarrow> nat \<Rightarrow> bool" where
  "eats t i \<longleftrightarrow> phase_of t i = Eat \<and> \<not> blocked t i"

text \<open>A run in which the threads named by a list make a step each.\<close>

fun run_threads :: "nat list \<Rightarrow> table \<Rightarrow> table option" where
  "run_threads [] t = Some t"
| "run_threads (i # is) t = do {
     kassert (i < N);
     t1 \<leftarrow> philosopher_using_semaphore i t;
     run_threads is t1
   }"

lemma run_threads_steps: "run_threads is t = Some t' \<Longrightarrow> (phil_step ^^ length is) t t'"
proof (induction "is" arbitrary: t)
  case (Cons i "is")
  then obtain t1 where "i < N" "philosopher_using_semaphore i t = Some t1" "run_threads is t1 = Some t'"
    by (auto simp: kspec)
  then show ?case using Cons.IH [of t1] phil_stepI [of i t t1] relpowp_Suc_I2 [of phil_step t t1 "length is" t'] by simp
qed simp

text \<open>C33. However the five threads are interleaved, two neighbours never eat at the same time, and at most one thread is
  in a critical section of \<^verbatim>\<open>mutex\<close>.\<close>

theorem philosophers_exclusive:
  assumes "phil_step\<^sup>*\<^sup>* table0 t" and "i < N" and "j < N"
  shows "\<not> (eats t i \<and> eats t (RIGHT i)) \<and> (in_crit t i \<and> in_crit t j \<longrightarrow> i = j)"
proof
  note inv = reachable_inv [OF assms(1)]
  have "eats t k \<Longrightarrow> k < N \<Longrightarrow> state_sema t k = EATING" for k
    using phil_invD(2) [OF inv, of k] by (auto simp: eats_def fork_ok_def)
  then have e: "eats t i \<Longrightarrow> state_sema t i = EATING" "eats t (RIGHT i) \<Longrightarrow> state_sema t (RIGHT i) = EATING"
    using assms(2) by simp_all
  have "state_sema t i = EATING \<longrightarrow> state_sema t (RIGHT i) \<noteq> EATING"
    using phil_invD(3) [OF inv assms(2)] assms(2) by (simp add: table_inv_def)
  then show "\<not> (eats t i \<and> eats t (RIGHT i))" using e by blast
  show "in_crit t i \<and> in_crit t j \<longrightarrow> i = j"
    using phil_invD(1) [OF inv assms(2)] assms(2,3) unfolding lock_inv_def by auto
qed

lemma run_threads0: "\<exists>t. run_threads [0, 0, 0, 0, 0, 0, 0, 2, 2, 2, 2, 2, 2, 2] table0 = Some t \<and> eats t 0 \<and> eats t 2"
  by (simp add: phil_defs table0_def goto_def down_mutex_def up_mutex_def down_fork_def up_fork_def block_def wake_def
      phi_test_sema_def LEFT_def RIGHT_def eats_def)

lemma philosophers_exclusive_witness:
  "\<exists>t. run_threads [0, 0, 0, 0, 0, 0, 0, 2, 2, 2, 2, 2, 2, 2] table0 = Some t \<and> eats t 0 \<and> eats t 2 \<and> \<not> eats t 1"
proof -
  obtain t where t: "run_threads [0, 0, 0, 0, 0, 0, 0, 2, 2, 2, 2, 2, 2, 2] table0 = Some t" "eats t 0" "eats t 2"
    using run_threads0 by blast
  have "phil_step\<^sup>*\<^sup>* table0 t" using run_threads_steps [OF t(1)] by (rule relpowp_imp_rtranclp)
  then have "\<not> (eats t 0 \<and> eats t (RIGHT 0))" using philosophers_exclusive [of t 0 0] by simp
  then show ?thesis using t by (simp add: RIGHT_def)
qed

text \<open>C22. The check of the semaphores ends: no run of the five threads is longer than 265 steps, and as long as one of them
  has not left its loop some thread can make a step. So every run that goes on as long as it can reaches, within that
  bound, the state in which all have quit, and then every semaphore is as it was at the start and all are thinking.\<close>

theorem philosophers_finish:
  assumes "(phil_step ^^ n) table0 t"
  shows "n \<le> 265 \<and> ((\<exists>i<N. phase_of t i \<noteq> Quit) \<longrightarrow> (\<exists>t'. phil_step t t')) \<and>
    ((\<forall>i<N. phase_of t i = Quit) \<longrightarrow> mutex t = (1, []) \<and> (\<forall>i<N. forks t i = (0, []) \<and> state_sema t i = THINKING))"
proof (intro conjI)
  have inv: "phil_inv t" by (rule reachable_inv [OF relpowp_imp_rtranclp [OF assms]])
  have "work table0 = 265" by (simp add: work_def left_of_def table0_def)
  then show "n \<le> 265" using run_length [OF assms] by simp
  show "(\<exists>i<N. phase_of t i \<noteq> Quit) \<longrightarrow> (\<exists>t'. phil_step t t')"
  proof
    assume "\<exists>i<N. phase_of t i \<noteq> Quit"
    then obtain j where j: "j < N" "\<not> blocked t j" "phase_of t j \<noteq> Quit" using no_deadlock [OF inv] by blast
    then obtain t' where "philosopher_using_semaphore j t = Some t'" using enabled by blast
    then show "\<exists>t'. phil_step t t'" using phil_stepI [OF j(1)] by blast
  qed
  show "(\<forall>i<N. phase_of t i = Quit) \<longrightarrow> mutex t = (1, []) \<and> (\<forall>i<N. forks t i = (0, []) \<and> state_sema t i = THINKING)"
  proof (intro impI conjI allI)
    assume q: "\<forall>i<N. phase_of t i = Quit"
    then have "\<not> in_crit t i" if "i < N" for i using that by (simp add: in_crit_def crit_phases_def)
    then show "mutex t = (1, [])" using phil_invD(1) [OF inv, of 0] by (auto simp: lock_inv_def prod_eq_iff)
    fix i assume "i < N"
    then show "forks t i = (0, [])" "state_sema t i = THINKING" using q phil_invD(2) [OF inv, of i] by (auto simp: fork_ok_def)
  qed
qed

lemma philosophers_finish_witness:
  "\<exists>t t'. run_threads [0, 0, 0, 0, 0, 0, 0, 2, 2, 2, 2, 2, 2, 2] table0 = Some t \<and> phil_step t t'"
proof -
  obtain t where t: "run_threads [0, 0, 0, 0, 0, 0, 0, 2, 2, 2, 2, 2, 2, 2] table0 = Some t" "eats t 0" using run_threads0 by blast
  have "phase_of t 0 \<noteq> Quit" using t(2) by (simp add: eats_def)
  then have "\<exists>i<N. phase_of t i \<noteq> Quit" by (intro exI [of _ 0]) simp
  then show ?thesis using philosophers_finish [OF run_threads_steps [OF t(1)]] t(1) by blast
qed

end
