(* ===== verification/Monitor.thy ===== *)
theory Monitor
  imports Semaphore
begin

text \<open>
  Monitors with condition variables (\<^verbatim>\<open>kern/sync/monitor.c\<close>): any number of threads enter the monitor, wait on and
  signal condition variables and leave in any order. A step is one statement of one thread; the semaphores are those of
  the theory \<open>Semaphore\<close> at their abstract level. A thread blocked in \<^verbatim>\<open>down\<close> is at the statement after it.
\<close>

section \<open>State\<close>

datatype mphase =
    Out
  | In
  | Sig_inc nat
  | Sig_up nat
  | Sig_next
  | Sig_dec
  | Wait_up nat
  | Wait_down nat
  | Wait_dec nat

record condvar =
  cv_sem :: "int \<times> nat list"
  cv_count :: int

record monitor =
  mt_mutex :: "int \<times> nat list"
  mt_next :: "int \<times> nat list"
  next_count :: int
  cv :: "nat \<Rightarrow> condvar"
  mpc :: "nat \<Rightarrow> mphase"
  mblocked :: "nat \<Rightarrow> bool"

definition monitor_init :: "bool \<Rightarrow> nat \<Rightarrow> monitor option" where
  "monitor_init got num_cv = do {
     kassert (num_cv > 0);
     kassert got;
     Some \<lparr>mt_mutex = (1, []), mt_next = (0, []), next_count = 0, cv = (\<lambda>_. \<lparr>cv_sem = (0, []), cv_count = 0\<rparr>),
       mpc = (\<lambda>_. Out), mblocked = (\<lambda>_. False)\<rparr>
   }"

section \<open>Statements\<close>

definition mgoto :: "nat \<Rightarrow> mphase \<Rightarrow> monitor \<Rightarrow> monitor" where
  "mgoto i p m = m\<lparr>mpc := (mpc m)(i := p)\<rparr>"

text \<open>The effect of \<^verbatim>\<open>up\<close> and \<^verbatim>\<open>down\<close> on the blocked threads.\<close>

definition unblock :: "int \<times> nat list \<Rightarrow> (nat \<Rightarrow> bool) \<Rightarrow> nat \<Rightarrow> bool" where
  "unblock sem b = (case snd sem of [] \<Rightarrow> b | p # _ \<Rightarrow> b(p := False))"

definition enqueue :: "nat \<Rightarrow> int \<times> nat list \<Rightarrow> (nat \<Rightarrow> bool) \<Rightarrow> nat \<Rightarrow> bool" where
  "enqueue i sem b = (if fst sem > 0 then b else b(i := True))"

definition mup_mutex :: "monitor \<Rightarrow> monitor" where
  "mup_mutex m = m\<lparr>mt_mutex := spec_up (mt_mutex m), mblocked := unblock (mt_mutex m) (mblocked m)\<rparr>"

definition mdown_mutex :: "nat \<Rightarrow> monitor \<Rightarrow> monitor" where
  "mdown_mutex i m = m\<lparr>mt_mutex := spec_down i (mt_mutex m), mblocked := enqueue i (mt_mutex m) (mblocked m)\<rparr>"

definition up_next :: "monitor \<Rightarrow> monitor" where
  "up_next m = m\<lparr>mt_next := spec_up (mt_next m), mblocked := unblock (mt_next m) (mblocked m)\<rparr>"

definition down_next :: "nat \<Rightarrow> monitor \<Rightarrow> monitor" where
  "down_next i m = m\<lparr>mt_next := spec_down i (mt_next m), mblocked := enqueue i (mt_next m) (mblocked m)\<rparr>"

definition up_cv :: "nat \<Rightarrow> monitor \<Rightarrow> monitor" where
  "up_cv c m = m\<lparr>cv := (cv m)(c := (cv m c)\<lparr>cv_sem := spec_up (cv_sem (cv m c))\<rparr>),
     mblocked := unblock (cv_sem (cv m c)) (mblocked m)\<rparr>"

definition down_cv :: "nat \<Rightarrow> nat \<Rightarrow> monitor \<Rightarrow> monitor" where
  "down_cv i c m = m\<lparr>cv := (cv m)(c := (cv m c)\<lparr>cv_sem := spec_down i (cv_sem (cv m c))\<rparr>),
     mblocked := enqueue i (cv_sem (cv m c)) (mblocked m)\<rparr>"

definition add_count :: "nat \<Rightarrow> int \<Rightarrow> monitor \<Rightarrow> monitor" where
  "add_count c k m = m\<lparr>cv := (cv m)(c := (cv m c)\<lparr>cv_count := cv_count (cv m c) + k\<rparr>)\<rparr>"

text \<open>Passing the monitor on, at the end of a routine and in \<^verbatim>\<open>cond_wait\<close>.\<close>

definition leave_monitor :: "monitor \<Rightarrow> monitor" where
  "leave_monitor m = (if next_count m > 0 then up_next m else mup_mutex m)"

text \<open>The statements after the first one of \<^verbatim>\<open>cond_signal\<close> and \<^verbatim>\<open>cond_wait\<close>.\<close>

definition cond_signal :: "nat \<Rightarrow> monitor \<Rightarrow> monitor option" where
  "cond_signal i m =
     (case mpc m i of
        Sig_inc c \<Rightarrow> Some (mgoto i (Sig_up c) (m\<lparr>next_count := next_count m + 1\<rparr>))
      | Sig_up c \<Rightarrow> Some (mgoto i Sig_next (up_cv c m))
      | Sig_next \<Rightarrow> Some (mgoto i Sig_dec (down_next i m))
      | Sig_dec \<Rightarrow> Some (mgoto i In (m\<lparr>next_count := next_count m - 1\<rparr>))
      | _ \<Rightarrow> None)"

definition cond_wait :: "nat \<Rightarrow> monitor \<Rightarrow> monitor option" where
  "cond_wait i m =
     (case mpc m i of
        Wait_up c \<Rightarrow> Some (mgoto i (Wait_down c) (leave_monitor m))
      | Wait_down c \<Rightarrow> Some (mgoto i (Wait_dec c) (down_cv i c m))
      | Wait_dec c \<Rightarrow> Some (mgoto i In (add_count c (- 1) m))
      | _ \<Rightarrow> None)"

text \<open>What a thread in the monitor may call, and the first statement of it.\<close>

datatype mcall = Enter | Leave | Signal nat | Wait nat

definition call :: "nat \<Rightarrow> mcall \<Rightarrow> monitor \<Rightarrow> monitor option" where
  "call i k m =
     (case (mpc m i, k) of
        (Out, Enter) \<Rightarrow> Some (mgoto i In (mdown_mutex i m))
      | (In, Leave) \<Rightarrow> Some (mgoto i Out (leave_monitor m))
      | (In, Signal c) \<Rightarrow> Some (if cv_count (cv m c) > 0 then mgoto i (Sig_inc c) m else m)
      | (In, Wait c) \<Rightarrow> Some (mgoto i (Wait_up c) (add_count c 1 m))
      | _ \<Rightarrow> None)"

inductive mon_step :: "nat \<Rightarrow> monitor \<Rightarrow> monitor \<Rightarrow> bool" for M :: nat where
  mon_call: "i < M \<Longrightarrow> \<not> mblocked m i \<Longrightarrow> call i k m = Some m' \<Longrightarrow> mon_step M m m'"
| mon_signal: "i < M \<Longrightarrow> \<not> mblocked m i \<Longrightarrow> cond_signal i m = Some m' \<Longrightarrow> mon_step M m m'"
| mon_wait: "i < M \<Longrightarrow> \<not> mblocked m i \<Longrightarrow> cond_wait i m = Some m' \<Longrightarrow> mon_step M m m'"

inductive_cases mon_stepE: "mon_step M m m'"

section \<open>The invariant\<close>

text \<open>The right to be in the monitor is a token: it is in a semaphore or with the one thread that is active.\<close>

datatype token = At_mutex | At_next | At_cv nat | With nat

definition active :: "monitor \<Rightarrow> nat \<Rightarrow> bool" where
  "active m i \<longleftrightarrow> \<not> mblocked m i \<and> (case mpc m i of Out \<Rightarrow> False | Sig_next \<Rightarrow> False | Wait_down _ \<Rightarrow> False | _ \<Rightarrow> True)"

definition sem_inv :: "int \<times> nat list \<Rightarrow> bool \<Rightarrow> nat set \<Rightarrow> bool" where
  "sem_inv sem here ws \<longleftrightarrow> fst sem = of_bool here \<and> distinct (snd sem) \<and> set (snd sem) = ws \<and> (here \<longrightarrow> ws = {})"

definition mwaits :: "nat \<Rightarrow> monitor \<Rightarrow> mphase \<Rightarrow> nat set" where
  "mwaits M m p = {i. i < M \<and> mblocked m i \<and> mpc m i = p}"

definition signallers :: "nat \<Rightarrow> monitor \<Rightarrow> nat set" where
  "signallers M m = {i. i < M \<and> (case mpc m i of Sig_up _ \<Rightarrow> True | Sig_next \<Rightarrow> True | Sig_dec \<Rightarrow> True | _ \<Rightarrow> False)}"

definition waiters :: "nat \<Rightarrow> monitor \<Rightarrow> nat \<Rightarrow> nat set" where
  "waiters M m c = {i. i < M \<and> mpc m i \<in> {Wait_up c, Wait_down c, Wait_dec c}}"

definition sem_at :: "monitor \<Rightarrow> token \<Rightarrow> int \<times> nat list" where
  "sem_at m l = (case l of At_mutex \<Rightarrow> mt_mutex m | At_next \<Rightarrow> mt_next m | At_cv c \<Rightarrow> cv_sem (cv m c) | With _ \<Rightarrow> (0, []))"

fun wait_phase :: "token \<Rightarrow> mphase" where
  "wait_phase At_mutex = In"
| "wait_phase At_next = Sig_dec"
| "wait_phase (At_cv c) = Wait_dec c"
| "wait_phase (With i) = Out"

definition at_sem :: "token \<Rightarrow> bool" where
  "at_sem l \<longleftrightarrow> (case l of With _ \<Rightarrow> False | _ \<Rightarrow> True)"

definition token_inv :: "nat \<Rightarrow> token \<Rightarrow> monitor \<Rightarrow> bool" where
  "token_inv M k m \<longleftrightarrow>
     (\<forall>l. at_sem l \<longrightarrow> sem_inv (sem_at m l) (k = l) (mwaits M m (wait_phase l))) \<and>
     (\<forall>i<M. active m i \<longleftrightarrow> k = With i) \<and>
     (\<forall>i<M. mblocked m i \<longrightarrow> (\<exists>l. at_sem l \<and> mpc m i = wait_phase l))"

definition count_inv :: "nat \<Rightarrow> token \<Rightarrow> monitor \<Rightarrow> bool" where
  "count_inv M k m \<longleftrightarrow> next_count m = int (card (signallers M m)) \<and> (\<forall>c. cv_count (cv m c) = int (card (waiters M m c))) \<and>
     (\<forall>i<M. \<forall>c. mpc m i = Sig_inc c \<or> mpc m i = Sig_up c \<longrightarrow> waiters M m c \<noteq> {}) \<and>
     (k = At_mutex \<longrightarrow> signallers M m = {}) \<and> (k = At_next \<longrightarrow> (\<exists>i<M. mpc m i = Sig_next)) \<and>
     (\<forall>c. k = At_cv c \<longrightarrow> (\<exists>i<M. mpc m i = Wait_down c))"

definition mon_inv :: "nat \<Rightarrow> monitor \<Rightarrow> bool" where
  "mon_inv M m \<longleftrightarrow> (\<exists>k. token_inv M k m \<and> count_inv M k m)"


lemma wait_phase_inj: "at_sem l \<Longrightarrow> at_sem k \<Longrightarrow> wait_phase l = wait_phase k \<longleftrightarrow> l = k"
  by (cases l; cases k) (auto simp: at_sem_def)

definition idle_phase :: "mphase \<Rightarrow> bool" where
  "idle_phase p \<longleftrightarrow> (case p of Out \<Rightarrow> True | Sig_next \<Rightarrow> True | Wait_down _ \<Rightarrow> True | _ \<Rightarrow> False)"

lemma active_iff: "active m i \<longleftrightarrow> \<not> mblocked m i \<and> \<not> idle_phase (mpc m i)"
  by (auto simp: active_def idle_phase_def split: mphase.split)

lemma wait_not_idle: "at_sem l \<Longrightarrow> \<not> idle_phase (wait_phase l)"
  by (cases l) (auto simp: at_sem_def idle_phase_def)

lemma not_With [simp]: "at_sem k \<Longrightarrow> With i \<noteq> k" "at_sem k \<Longrightarrow> k \<noteq> With i"
  by (auto simp: at_sem_def)

section \<open>How the token moves\<close>

lemma sem_up:
  assumes "sem_inv sem False ws"
  shows "ws = {} \<and> sem_inv (spec_up sem) True {} \<and> unblock sem b = b \<or>
    (\<exists>j. j \<in> ws \<and> sem_inv (spec_up sem) False (ws - {j}) \<and> unblock sem b = b(j := False))"
  using assms by (cases sem; cases "snd sem") (auto simp: sem_inv_def unblock_def)

lemma sem_down:
  assumes "sem_inv sem here ws" "i \<notin> ws"
  shows "if here then sem_inv (spec_down i sem) False ws \<and> enqueue i sem b = b
    else sem_inv (spec_down i sem) False (insert i ws) \<and> enqueue i sem b = b(i := True)"
  using assms by (cases sem) (auto simp: sem_inv_def enqueue_def)

text \<open>The active thread gives the token to a semaphore, which may hand it to the first thread waiting there.\<close>

lemma token_up:
  assumes t: "token_inv M (With i) m" and i: "i < M" and l: "at_sem l" and p: "idle_phase q"
    and m': "sem_at m' l = spec_up (sem_at m l)" "\<And>k. k \<noteq> l \<Longrightarrow> sem_at m' k = sem_at m k"
      "mblocked m' = unblock (sem_at m l) (mblocked m)" "mpc m' = (mpc m)(i := q)"
  shows "mwaits M m (wait_phase l) = {} \<and> token_inv M l m' \<or>
    (\<exists>j \<in> mwaits M m (wait_phase l). token_inv M (With j) m')"
proof -
  let ?w = "mwaits M m (wait_phase l)"
  have s: "sem_inv (sem_at m k) False (mwaits M m (wait_phase k))" if "at_sem k" for k
    using t that unfolding token_inv_def by fastforce
  have ai: "active m i" and act: "\<And>x. x < M \<Longrightarrow> active m x \<longleftrightarrow> x = i" using t i by (auto simp: token_inv_def)
  have nw: "i \<notin> mwaits M m x" for x using ai by (simp add: mwaits_def active_iff)
  have qw: "at_sem k \<Longrightarrow> q \<noteq> wait_phase k" for k using p wait_not_idle by auto
  consider "?w = {}" "sem_inv (sem_at m' l) True {}" "mblocked m' = mblocked m"
    | j where "j \<in> ?w" "sem_inv (sem_at m' l) False (?w - {j})" "mblocked m' = (mblocked m)(j := False)"
    using sem_up [OF s [OF l], of "mblocked m"] unfolding m'(1) [symmetric] m'(3) [symmetric] by blast
  then show ?thesis
  proof cases
    case 1
    have w: "mwaits M m' (wait_phase k) = mwaits M m (wait_phase k)" if "at_sem k" for k
      using qw [OF that] nw [of "wait_phase k"] by (auto simp: mwaits_def m'(4) 1(3))
    have "sem_inv (sem_at m' k) (l = k) (mwaits M m' (wait_phase k))" if "at_sem k" for k
      using 1 s [OF that] w [OF that] m'(2) [of k] by (cases "l = k") auto
    moreover have "\<not> active m' x" if "x < M" for x
      using act [OF that] p by (auto simp: active_iff m'(4) 1(3))
    moreover have "\<exists>k. at_sem k \<and> mpc m' x = wait_phase k" if "x < M" "mblocked m' x" for x
      using t that nw ai unfolding token_inv_def by (auto simp: m'(4) 1(3) active_iff)
    ultimately have "token_inv M l m'" using l unfolding token_inv_def by (auto simp: at_sem_def)
    then show ?thesis using 1(1) by blast
  next
    case 2
    have j: "j < M" "mblocked m j" "mpc m j = wait_phase l" "j \<noteq> i" using 2(1) nw by (auto simp: mwaits_def)
    have w: "mwaits M m' (wait_phase k) = (if k = l then ?w - {j} else mwaits M m (wait_phase k))" if "at_sem k" for k
      using qw [OF that] nw [of "wait_phase k"] j wait_phase_inj [OF l that] by (auto simp: mwaits_def m'(4) 2(3))
    have "sem_inv (sem_at m' k) (With j = k) (mwaits M m' (wait_phase k))" if "at_sem k" for k
      using 2 s [OF that] w [OF that] m'(2) [of k] that by (cases "l = k") auto
    moreover have "active m' x \<longleftrightarrow> x = j" if "x < M" for x
      using act [OF that] p j wait_not_idle [OF l] by (auto simp: active_iff m'(4) 2(3))
    moreover have "\<exists>k. at_sem k \<and> mpc m' x = wait_phase k" if "x < M" "mblocked m' x" for x
      using t that nw ai unfolding token_inv_def by (auto simp: m'(4) 2(3) active_iff split: if_splits)
    ultimately have "token_inv M (With j) m'" unfolding token_inv_def by auto
    then show ?thesis using 2(1) by blast
  qed
qed

text \<open>A thread outside takes the token from a semaphore or waits there.\<close>

lemma token_down:
  assumes t: "token_inv M k m" and i: "i < M" "\<not> mblocked m i" "idle_phase (mpc m i)" and l: "at_sem l"
    and m': "sem_at m' l = spec_down i (sem_at m l)" "\<And>k. k \<noteq> l \<Longrightarrow> sem_at m' k = sem_at m k"
      "mblocked m' = enqueue i (sem_at m l) (mblocked m)" "mpc m' = (mpc m)(i := wait_phase l)"
  shows "token_inv M (if k = l then With i else k) m'"
proof -
  let ?w = "mwaits M m (wait_phase l)"
  have nw: "i \<notin> mwaits M m x" for x using i(2) by (simp add: mwaits_def)
  have s: "sem_inv (sem_at m x) (k = x) (mwaits M m (wait_phase x))" if "at_sem x" for x
    using t that unfolding token_inv_def by blast
  have act: "\<And>x. x < M \<Longrightarrow> active m x \<longleftrightarrow> k = With x" using t by (auto simp: token_inv_def)
  have ki: "k \<noteq> With i" using act [OF i(1)] i by (auto simp: active_iff)
  note d = sem_down [OF s [OF l] nw, of "mblocked m", folded m'(1,3)]
  have blk: "\<exists>y. at_sem y \<and> mpc m' x = wait_phase y" if "x < M" "mblocked m x" for x
    using t that i(2) unfolding token_inv_def by (auto simp: m'(4))
  show ?thesis
  proof (cases "k = l")
    case True
    have w: "mwaits M m' (wait_phase x) = mwaits M m (wait_phase x)" if "at_sem x" for x
      using d True i(2) by (auto simp: mwaits_def m'(4))
    have "sem_inv (sem_at m' x) (With i = x) (mwaits M m' (wait_phase x))" if "at_sem x" for x
      using d True s [OF that] w [OF that] m'(2) [of x] that by (cases "x = l") auto
    moreover have "active m' x \<longleftrightarrow> x = i" if "x < M" for x
      using d True act [OF that] i(2) l wait_not_idle [OF l] by (auto simp: active_iff m'(4) at_sem_def)
    ultimately show ?thesis using True d blk unfolding token_inv_def by auto
  next
    case False
    have w: "mwaits M m' (wait_phase x) = (if x = l then insert i ?w else mwaits M m (wait_phase x))" if "at_sem x" for x
      using d False i(1,2) wait_phase_inj [OF l that] by (auto simp: mwaits_def m'(4))
    have "sem_inv (sem_at m' x) (k = x) (mwaits M m' (wait_phase x))" if "at_sem x" for x
      using d False s [OF that] w [OF that] m'(2) [of x] by (cases "x = l") auto
    moreover have "active m' x \<longleftrightarrow> k = With x" if "x < M" for x
      using d False act [OF that] ki by (auto simp: active_iff m'(4))
    moreover have "\<exists>y. at_sem y \<and> mpc m' x = wait_phase y" if "x < M" "mblocked m' x" for x
      using blk [OF that(1)] that(2) d False l by (cases "x = i") (auto simp: m'(4))
    ultimately show ?thesis using False unfolding token_inv_def by auto
  qed
qed

lemma token_local:
  assumes t: "token_inv M (With i) m" and i: "i < M" and p: "\<not> idle_phase q"
    and m': "\<And>k. sem_at m' k = sem_at m k" "mblocked m' = mblocked m" "mpc m' = (mpc m)(i := q)"
  shows "token_inv M (With i) m'"
proof -
  have ai: "\<not> mblocked m i" and act: "\<And>x. x < M \<Longrightarrow> active m x \<longleftrightarrow> x = i" using t i by (auto simp: token_inv_def active_iff)
  have "mwaits M m' x = mwaits M m x" for x using ai by (auto simp: mwaits_def m')
  moreover have "active m' x \<longleftrightarrow> x = i" if "x < M" for x using act [OF that] p ai by (auto simp: active_iff m')
  moreover have "\<exists>y. at_sem y \<and> mpc m' x = wait_phase y" if "x < M" "mblocked m' x" for x
    using t that ai unfolding token_inv_def by (auto simp: m')
  ultimately show ?thesis using t unfolding token_inv_def m'(1) by auto
qed


section \<open>Preservation\<close>

lemma sem_at_ops [simp]:
  "sem_at (mgoto i p m) = sem_at m" "sem_at (m\<lparr>next_count := n\<rparr>) = sem_at m" "sem_at (add_count c k m) = sem_at m"
  "sem_at (mup_mutex m) l = (if l = At_mutex then spec_up (sem_at m l) else sem_at m l)"
  "sem_at (mdown_mutex i m) l = (if l = At_mutex then spec_down i (sem_at m l) else sem_at m l)"
  "sem_at (up_next m) l = (if l = At_next then spec_up (sem_at m l) else sem_at m l)"
  "sem_at (down_next i m) l = (if l = At_next then spec_down i (sem_at m l) else sem_at m l)"
  "sem_at (up_cv c m) l = (if l = At_cv c then spec_up (sem_at m l) else sem_at m l)"
  "sem_at (down_cv i c m) l = (if l = At_cv c then spec_down i (sem_at m l) else sem_at m l)"
  by (auto simp: sem_at_def mgoto_def add_count_def mup_mutex_def mdown_mutex_def up_next_def down_next_def up_cv_def down_cv_def
      fun_eq_iff split: token.split)

lemma mon_ops [simp]:
  "mpc (mgoto i p m) = (mpc m)(i := p)" "mblocked (mgoto i p m) = mblocked m" "next_count (mgoto i p m) = next_count m"
  "cv (mgoto i p m) = cv m"
  "mpc (mup_mutex m) = mpc m" "next_count (mup_mutex m) = next_count m" "cv (mup_mutex m) = cv m"
  "mpc (mdown_mutex i m) = mpc m" "next_count (mdown_mutex i m) = next_count m" "cv (mdown_mutex i m) = cv m"
  "mpc (up_next m) = mpc m" "next_count (up_next m) = next_count m" "cv (up_next m) = cv m"
  "mpc (down_next i m) = mpc m" "next_count (down_next i m) = next_count m" "cv (down_next i m) = cv m"
  "mpc (up_cv c m) = mpc m" "next_count (up_cv c m) = next_count m" "cv_count (cv (up_cv c m) d) = cv_count (cv m d)"
  "mpc (down_cv i c m) = mpc m" "next_count (down_cv i c m) = next_count m" "cv_count (cv (down_cv i c m) d) = cv_count (cv m d)"
  "mpc (add_count c k m) = mpc m" "next_count (add_count c k m) = next_count m" "mblocked (add_count c k m) = mblocked m"
  "cv_count (cv (add_count c k m) d) = cv_count (cv m d) + (if d = c then k else 0)"
  by (simp_all add: mgoto_def mup_mutex_def mdown_mutex_def up_next_def down_next_def up_cv_def down_cv_def add_count_def)

lemma blocked_ops:
  "mblocked (mup_mutex m) = unblock (sem_at m At_mutex) (mblocked m)"
  "mblocked (mdown_mutex i m) = enqueue i (sem_at m At_mutex) (mblocked m)"
  "mblocked (up_next m) = unblock (sem_at m At_next) (mblocked m)"
  "mblocked (down_next i m) = enqueue i (sem_at m At_next) (mblocked m)"
  "mblocked (up_cv c m) = unblock (sem_at m (At_cv c)) (mblocked m)"
  "mblocked (down_cv i c m) = enqueue i (sem_at m (At_cv c)) (mblocked m)"
  by (simp_all add: sem_at_def mup_mutex_def mdown_mutex_def up_next_def down_next_def up_cv_def down_cv_def)

text \<open>The counters as sets of threads by the statement they are at.\<close>

definition sig_phase :: "mphase \<Rightarrow> bool" where
  "sig_phase p \<longleftrightarrow> (case p of Sig_up _ \<Rightarrow> True | Sig_next \<Rightarrow> True | Sig_dec \<Rightarrow> True | _ \<Rightarrow> False)"

lemma signallers_upd:
  assumes "i < M" "mpc m' = (mpc m)(i := q)"
  shows "signallers M m' = (if sig_phase q then insert i (signallers M m) else signallers M m - {i})"
  using assms by (auto simp: signallers_def sig_phase_def)

lemma waiters_upd:
  assumes "i < M" "mpc m' = (mpc m)(i := q)"
  shows "waiters M m' c = (if q \<in> {Wait_up c, Wait_down c, Wait_dec c} then insert i (waiters M m c) else waiters M m c - {i})"
  using assms by (auto simp: waiters_def)

lemma signallers_same:
  assumes "mpc m' = (mpc m)(i := q)" "sig_phase q = sig_phase (mpc m i)"
  shows "signallers M m' = signallers M m"
proof -
  have "signallers M x = {i. i < M \<and> sig_phase (mpc x i)}" for x by (simp add: signallers_def sig_phase_def)
  then show ?thesis using assms by auto
qed

definition wait_phases :: "nat \<Rightarrow> mphase set" where
  "wait_phases c = {Wait_up c, Wait_down c, Wait_dec c}"

lemma waiters_same:
  assumes "mpc m' = (mpc m)(i := q)" "q \<in> wait_phases c \<longleftrightarrow> mpc m i \<in> wait_phases c"
  shows "waiters M m' c = waiters M m c"
  using assms unfolding waiters_def wait_phases_def [symmetric] by auto

lemma fin [simp]: "finite (signallers M m)" "finite (waiters M m c)"
  by (auto simp: signallers_def waiters_def intro: finite_subset [of _ "{..<M}"])

text \<open>Only the active thread is between the tests and the statements that depend on them.\<close>

lemma token_at:
  assumes "token_inv M k m" "i < M" "\<not> idle_phase (mpc m i)" "\<And>l. at_sem l \<Longrightarrow> mpc m i \<noteq> wait_phase l"
  shows "k = With i" "\<not> mblocked m i"
  using assms unfolding token_inv_def active_iff by blast+

lemma token_with:
  assumes "token_inv M k m" "i < M" "\<not> mblocked m i" "\<not> idle_phase (mpc m i)"
  shows "k = With i"
  using assms unfolding token_inv_def active_iff by blast

lemma next_waiting:
  assumes t: "token_inv M (With i) m" and i: "i < M" "\<not> sig_phase (mpc m i)" and ne: "signallers M m \<noteq> {}"
    and mt: "mwaits M m Sig_dec = {}"
  shows "\<exists>j<M. j \<noteq> i \<and> mpc m j = Sig_next"
proof -
  obtain j where j: "j < M" "sig_phase (mpc m j)" using ne by (auto simp: signallers_def sig_phase_def)
  have "j \<noteq> i" using i j by auto
  then have "\<not> active m j" using t j(1) by (auto simp: token_inv_def)
  moreover have "mblocked m j \<Longrightarrow> mpc m j = Sig_dec"
    using t j unfolding token_inv_def by (metis sig_phase_def at_sem_def mphase.simps token.exhaust token.simps wait_phase.simps)
  ultimately have "mpc m j = Sig_next"
    using j mt by (cases "mpc m j") (auto simp: active_def sig_phase_def mwaits_def)
  then show ?thesis using j(1) \<open>j \<noteq> i\<close> by blast
qed

lemma cv_waiting:
  assumes t: "token_inv M (With i) m" and i: "i < M" "i \<notin> waiters M m c" and ne: "waiters M m c \<noteq> {}"
    and mt: "mwaits M m (Wait_dec c) = {}"
  shows "\<exists>j<M. j \<noteq> i \<and> mpc m j = Wait_down c"
proof -
  obtain j where j: "j < M" "mpc m j \<in> {Wait_up c, Wait_down c, Wait_dec c}" "j \<noteq> i" using ne i by (auto simp: waiters_def)
  have na: "\<not> active m j" using t j(1,3) by (auto simp: token_inv_def)
  have b: "mblocked m j \<Longrightarrow> \<exists>l. at_sem l \<and> mpc m j = wait_phase l" using t j(1) by (auto simp: token_inv_def)
  have "mblocked m j \<Longrightarrow> mpc m j \<noteq> Wait_up c"
    using b by (metis at_sem_def mphase.distinct mphase.simps token.exhaust token.simps wait_phase.simps)
  then have "mpc m j = Wait_down c"
    using j na mt by (auto simp: active_def mwaits_def)
  then show ?thesis using j by blast
qed


lemma count_invD:
  assumes "count_inv M k m"
  shows "next_count m = int (card (signallers M m))" "cv_count (cv m c) = int (card (waiters M m c))"
    "i < M \<Longrightarrow> mpc m i = Sig_inc c \<or> mpc m i = Sig_up c \<Longrightarrow> waiters M m c \<noteq> {}"
    "k = At_mutex \<Longrightarrow> signallers M m = {}" "k = At_next \<Longrightarrow> \<exists>i<M. mpc m i = Sig_next"
    "k = At_cv d \<Longrightarrow> \<exists>i<M. mpc m i = Wait_down d"
  using assms unfolding count_inv_def by blast+

text \<open>Leaving: the first signaller goes on if there is one, else the monitor is free or the next thread enters.\<close>

lemma leave_inv:
  assumes t: "token_inv M (With i) m" and n: "count_inv M (With i) m" and i: "i < M"
    and p: "mpc m i = In \<and> q = Out \<or> (\<exists>c. mpc m i = Wait_up c \<and> q = Wait_down c)"
  shows "mon_inv M (mgoto i q (leave_monitor m))"
proof -
  let ?m = "mgoto i q (leave_monitor m)" and ?l = "if next_count m > 0 then At_next else At_mutex"
  have mp: "mpc ?m = (mpc m)(i := q)" by (simp add: leave_monitor_def)
  have q: "idle_phase q" "\<not> sig_phase q" "\<not> sig_phase (mpc m i)" using p by (auto simp: idle_phase_def sig_phase_def)
  have l: "at_sem ?l" by (simp add: at_sem_def)
  have tk: "mwaits M m (wait_phase ?l) = {} \<and> token_inv M ?l ?m \<or> (\<exists>j \<in> mwaits M m (wait_phase ?l). token_inv M (With j) ?m)"
    by (rule token_up [OF t i l q(1)]) (auto simp: leave_monitor_def blocked_ops)
  have sg: "signallers M ?m = signallers M m"
    by (rule signallers_same [OF mp]) (use q in simp)
  have wt: "waiters M ?m c = waiters M m c" for c
    by (rule waiters_same [OF mp]) (use p in \<open>auto simp: wait_phases_def\<close>)
  have nc: "next_count ?m = next_count m" "cv_count (cv ?m c) = cv_count (cv m c)" for c by (simp_all add: leave_monitor_def)
  have no: "x < M \<Longrightarrow> mpc ?m x = Sig_inc c \<or> mpc ?m x = Sig_up c \<Longrightarrow> waiters M ?m c \<noteq> {}" for x c
    using count_invD(3) [OF n, of x c] p unfolding wt mp by (cases "x = i") auto
  have "count_inv M k ?m" if k: "k = ?l \<and> mwaits M m (wait_phase ?l) = {} \<or> (\<exists>j. k = With j)" for k
  proof -
    have "signallers M m = {}" if "k = At_mutex"
    proof -
      have "\<not> next_count m > 0" using that k by (auto split: if_splits)
      then show ?thesis using count_invD(1) [OF n] by simp
    qed
    moreover have "\<exists>x<M. mpc ?m x = Sig_next" if "k = At_next"
    proof -
      have a: "next_count m > 0" "mwaits M m Sig_dec = {}" using that k by (auto split: if_splits)
      then have "signallers M m \<noteq> {}" using count_invD(1) [OF n] by auto
      from next_waiting [OF t i q(3) this a(2)] show ?thesis unfolding mp by auto
    qed
    moreover have "k \<noteq> At_cv c" for c using k by (auto split: if_splits)
    ultimately show ?thesis
      using count_invD(1,2) [OF n] no unfolding count_inv_def sg wt nc by auto
  qed
  then show ?thesis using tk unfolding mon_inv_def by blast
qed

lemma local_inv:
  assumes t: "token_inv M (With i) m" and i: "i < M" and q: "\<not> idle_phase q"
    and m': "sem_at m' = sem_at m" "mblocked m' = mblocked m" "mpc m' = (mpc m)(i := q)"
    and n: "next_count m' = int (card (signallers M m'))" "\<And>c. cv_count (cv m' c) = int (card (waiters M m' c))"
      "\<And>c. q = Sig_inc c \<or> q = Sig_up c \<Longrightarrow> waiters M m' c \<noteq> {}"
  shows "mon_inv M m'"
proof -
  have tk: "token_inv M (With i) m'" by (rule token_local [OF t i q]) (simp_all add: m')
  have "waiters M m' c \<noteq> {}" if x: "x < M" "mpc m' x = Sig_inc c \<or> mpc m' x = Sig_up c" for x c
  proof -
    have "With i = With x" by (rule token_at(1) [OF tk x(1)]) (use x(2) in \<open>auto simp: idle_phase_def at_sem_def split: token.splits\<close>)
    then show ?thesis using x(2) n(3) m'(3) by simp
  qed
  then have "count_inv M (With i) m'" using n(1,2) by (auto simp: count_inv_def)
  then show ?thesis using tk by (auto simp: mon_inv_def)
qed

text \<open>Taking the token, or waiting for it, at a semaphore \<open>l\<close>.\<close>

lemma down_inv:
  assumes t: "token_inv M k m" and n: "count_inv M k m" and i: "i < M" "\<not> mblocked m i"
    and l: "l = At_mutex \<and> mpc m i = Out \<or> l = At_next \<and> mpc m i = Sig_next \<or> (\<exists>c. l = At_cv c \<and> mpc m i = Wait_down c)"
    and m': "sem_at m' l = spec_down i (sem_at m l)" "\<And>k. k \<noteq> l \<Longrightarrow> sem_at m' k = sem_at m k"
      "mblocked m' = enqueue i (sem_at m l) (mblocked m)" "mpc m' = (mpc m)(i := wait_phase l)"
      "next_count m' = next_count m" "\<And>c. cv_count (cv m' c) = cv_count (cv m c)"
  shows "mon_inv M m'"
proof -
  let ?k = "if k = l then With i else k"
  have ls: "at_sem l" "idle_phase (mpc m i)" using l by (auto simp: at_sem_def idle_phase_def)
  have tk: "token_inv M ?k m'" by (rule token_down [OF t i(1,2) ls(2,1) m'(1-4)])
  have sg: "signallers M m' = signallers M m"
    by (rule signallers_same [OF m'(4)]) (use l in \<open>auto simp: sig_phase_def\<close>)
  have wt: "waiters M m' c = waiters M m c" for c
    by (rule waiters_same [OF m'(4)]) (use l in \<open>auto simp: wait_phases_def\<close>)
  have "x < M \<Longrightarrow> mpc m' x = Sig_inc c \<or> mpc m' x = Sig_up c \<Longrightarrow> waiters M m' c \<noteq> {}" for x c
    using count_invD(3) [OF n, of x c] l unfolding wt m'(4) by (cases "x = i") auto
  moreover have "\<exists>x<M. mpc m' x = Sig_next" if "?k = At_next"
  proof -
    have "k = At_next" "l \<noteq> At_next" using that by (auto split: if_splits)
    then obtain x where "x < M" "mpc m x = Sig_next" using count_invD(5) [OF n] by blast
    then show ?thesis using l \<open>l \<noteq> At_next\<close> unfolding m'(4) by auto
  qed
  moreover have "\<exists>x<M. mpc m' x = Wait_down c" if "?k = At_cv c" for c
  proof -
    have "k = At_cv c" "l \<noteq> At_cv c" using that by (auto split: if_splits)
    then obtain x where "x < M" "mpc m x = Wait_down c" using count_invD(6) [OF n] by blast
    then show ?thesis using l \<open>l \<noteq> At_cv c\<close> unfolding m'(4) by auto
  qed
  moreover have "signallers M m' = {}" if "?k = At_mutex"
    using that count_invD(4) [OF n] unfolding sg by (auto split: if_splits)
  ultimately have "count_inv M ?k m'" using count_invD(1,2) [OF n] unfolding count_inv_def sg wt m'(5,6) by blast
  then show ?thesis using tk unfolding mon_inv_def by blast
qed

lemma sig_up_inv:
  assumes t: "token_inv M (With i) m" and n: "count_inv M (With i) m" and i: "i < M" and p: "mpc m i = Sig_up c"
  shows "mwaits M m (Wait_dec c) = {} \<and> token_inv M (At_cv c) (mgoto i Sig_next (up_cv c m)) \<and>
      (\<exists>j<M. mpc (mgoto i Sig_next (up_cv c m)) j = Wait_down c) \<or>
      (\<exists>j \<in> mwaits M m (Wait_dec c). token_inv M (With j) (mgoto i Sig_next (up_cv c m)))"
    and "mon_inv M (mgoto i Sig_next (up_cv c m))"
proof -
  let ?m = "mgoto i Sig_next (up_cv c m)"
  have mp: "mpc ?m = (mpc m)(i := Sig_next)" by simp
  have ne: "waiters M m c \<noteq> {}" using count_invD(3) [OF n i] p by blast
  have iw: "i \<notin> waiters M m c" using p by (auto simp: waiters_def)
  have tk: "mwaits M m (Wait_dec c) = {} \<and> token_inv M (At_cv c) ?m \<or> (\<exists>j \<in> mwaits M m (Wait_dec c). token_inv M (With j) ?m)"
    by (rule token_up [OF t i, of "At_cv c", unfolded wait_phase.simps]) (auto simp: idle_phase_def at_sem_def blocked_ops)
  have wd: "\<exists>j<M. mpc ?m j = Wait_down c" if "mwaits M m (Wait_dec c) = {}"
    using cv_waiting [OF t i iw ne that] by auto
  show a: "mwaits M m (Wait_dec c) = {} \<and> token_inv M (At_cv c) ?m \<and> (\<exists>j<M. mpc ?m j = Wait_down c) \<or>
      (\<exists>j \<in> mwaits M m (Wait_dec c). token_inv M (With j) ?m)"
    using tk wd by blast
  have sg: "signallers M ?m = signallers M m"
    by (rule signallers_same [OF mp]) (simp add: p sig_phase_def)
  have wt: "waiters M ?m d = waiters M m d" for d
    by (rule waiters_same [OF mp]) (simp add: p wait_phases_def)
  have no: "x < M \<Longrightarrow> mpc ?m x = Sig_inc d \<or> mpc ?m x = Sig_up d \<Longrightarrow> waiters M ?m d \<noteq> {}" for x d
    using count_invD(3) [OF n, of x d] unfolding wt mp by (cases "x = i") auto
  have "count_inv M k ?m" if "k = At_cv c \<and> (\<exists>j<M. mpc ?m j = Wait_down c) \<or> (\<exists>j. k = With j)" for k
    using that count_invD(1,2) [OF n] no unfolding count_inv_def sg wt by (auto simp del: mon_ops(1) fun_upd_apply)
  then show "mon_inv M ?m" using a unfolding mon_inv_def by blast
qed

lemma mon_step_inv:
  assumes inv: "mon_inv M m" and s: "mon_step M m m'"
  shows "mon_inv M m'"
proof -
  obtain k where t: "token_inv M k m" and n: "count_inv M k m" using inv by (auto simp: mon_inv_def)
  have w: "k = With i" if "i < M" "\<not> mblocked m i" "\<not> idle_phase (mpc m i)" for i
    using token_with [OF t that] .
  note cn = count_invD(1,2) [OF n]
  from s show ?thesis
  proof cases
    case (mon_call i c)
    note i = mon_call(1,2)
    consider "mpc m i = Out" "m' = mgoto i In (mdown_mutex i m)" | "mpc m i = In" "m' = mgoto i Out (leave_monitor m)"
      | d where "mpc m i = In" "m' = (if cv_count (cv m d) > 0 then mgoto i (Sig_inc d) m else m)"
      | d where "mpc m i = In" "m' = mgoto i (Wait_up d) (add_count d 1 m)"
      using mon_call(3) by (auto simp: call_def split: mphase.splits mcall.splits)
    then show ?thesis
    proof cases
      case 1
      then show ?thesis by (intro down_inv [OF t n i, of At_mutex]) (auto simp: blocked_ops)
    next
      case 2
      then have "k = With i" using w i by (simp add: idle_phase_def)
      then show ?thesis using t n 2 leave_inv i(1) by blast
    next
      case 3
      then have k: "k = With i" using w i by (simp add: idle_phase_def)
      show ?thesis
      proof (cases "cv_count (cv m d) > 0")
        case True
        then have mp: "mpc m' = (mpc m)(i := Sig_inc d)" "m' = mgoto i (Sig_inc d) m" using 3 by simp_all
        have sg: "signallers M m' = signallers M m" "\<And>c. waiters M m' c = waiters M m c"
          by (rule signallers_same [OF mp(1)], simp add: 3(1) sig_phase_def, rule waiters_same [OF mp(1)], simp add: 3(1) wait_phases_def)
        have "waiters M m d \<noteq> {}" using True cn(2) [of d] by auto
        then show ?thesis
          using cn unfolding mp(2) by (intro local_inv [OF t [unfolded k] i(1), of "Sig_inc d"])
            (auto simp: idle_phase_def sg [unfolded mp(2)])
      qed (use 3 inv in simp)
    next
      case 4
      then have k: "k = With i" using w i by (simp add: idle_phase_def)
      have mp: "mpc m' = (mpc m)(i := Wait_up d)" using 4 by simp
      have ni: "i \<notin> waiters M m c" for c using 4(1) by (simp add: waiters_def)
      have sg: "signallers M m' = signallers M m" "\<And>c. waiters M m' c = (if c = d then insert i (waiters M m c) else waiters M m c)"
        by (rule signallers_same [OF mp], simp add: 4(1) sig_phase_def) (simp add: waiters_upd [OF i(1) mp] ni)
      have "i \<notin> waiters M m d" using 4(1) by (auto simp: waiters_def)
      then show ?thesis
        using cn sg 4(2) by (intro local_inv [OF t [unfolded k] i(1), of "Wait_up d"]) (auto simp: idle_phase_def)
    qed
  next
    case (mon_signal i)
    note i = mon_signal(1,2)
    consider c where "mpc m i = Sig_inc c" "m' = mgoto i (Sig_up c) (m\<lparr>next_count := next_count m + 1\<rparr>)"
      | c where "mpc m i = Sig_up c" "m' = mgoto i Sig_next (up_cv c m)" | "mpc m i = Sig_next" "m' = mgoto i Sig_dec (down_next i m)"
      | "mpc m i = Sig_dec" "m' = mgoto i In (m\<lparr>next_count := next_count m - 1\<rparr>)"
      using mon_signal(3) by (auto simp: cond_signal_def split: mphase.splits)
    then show ?thesis
    proof cases
      case 1
      then have k: "k = With i" using w i by (simp add: idle_phase_def)
      have mp: "mpc m' = (mpc m)(i := Sig_up c)" using 1 by simp
      have sg: "signallers M m' = insert i (signallers M m)" "\<And>d. waiters M m' d = waiters M m d"
        by (simp add: signallers_upd [OF i(1) mp] sig_phase_def, rule waiters_same [OF mp], simp add: 1(1) wait_phases_def)
      have "i \<notin> signallers M m" using 1(1) by (auto simp: signallers_def)
      then show ?thesis
        using cn sg 1 count_invD(3) [OF n i(1), of c]
        by (intro local_inv [OF t [unfolded k] i(1), of "Sig_up c"]) (auto simp: idle_phase_def)
    next
      case 2
      then have "k = With i" using w i by (simp add: idle_phase_def)
      then show ?thesis using t n 2 sig_up_inv(2) i(1) by blast
    next
      case 3
      then show ?thesis by (intro down_inv [OF t n i, of At_next]) (auto simp: blocked_ops)
    next
      case 4
      then have k: "k = With i" using w i by (simp add: idle_phase_def)
      have mp: "mpc m' = (mpc m)(i := In)" using 4 by simp
      have sg: "signallers M m' = signallers M m - {i}" "\<And>d. waiters M m' d = waiters M m d"
        by (simp add: signallers_upd [OF i(1) mp] sig_phase_def, rule waiters_same [OF mp], simp add: 4(1) wait_phases_def)
      have "i \<in> signallers M m" using 4(1) i(1) by (auto simp: signallers_def)
      then have "0 < card (signallers M m)" by (auto simp: card_gt_0_iff)
      then show ?thesis
        using cn sg 4 \<open>i \<in> signallers M m\<close> by (intro local_inv [OF t [unfolded k] i(1), of In]) (auto simp: idle_phase_def)
    qed
  next
    case (mon_wait i)
    note i = mon_wait(1,2)
    consider c where "mpc m i = Wait_up c" "m' = mgoto i (Wait_down c) (leave_monitor m)"
      | c where "mpc m i = Wait_down c" "m' = mgoto i (Wait_dec c) (down_cv i c m)"
      | c where "mpc m i = Wait_dec c" "m' = mgoto i In (add_count c (- 1) m)"
      using mon_wait(3) by (auto simp: cond_wait_def split: mphase.splits)
    then show ?thesis
    proof cases
      case 1
      then have "k = With i" using w i by (simp add: idle_phase_def)
      then show ?thesis using t n 1 leave_inv i(1) by blast
    next
      case 2
      then show ?thesis by (intro down_inv [OF t n i, of "At_cv c"]) (auto simp: blocked_ops)
    next
      case 3
      then have k: "k = With i" using w i by (simp add: idle_phase_def)
      have mp: "mpc m' = (mpc m)(i := In)" using 3 by simp
      have ni: "d \<noteq> c \<Longrightarrow> i \<notin> waiters M m d" for d using 3(1) by (simp add: waiters_def)
      have sg: "signallers M m' = signallers M m" "\<And>d. waiters M m' d = (if d = c then waiters M m d - {i} else waiters M m d)"
        by (rule signallers_same [OF mp], simp add: 3(1) sig_phase_def) (simp add: waiters_upd [OF i(1) mp] ni)
      have iw: "i \<in> waiters M m c" using 3(1) i(1) by (auto simp: waiters_def)
      then have "0 < card (waiters M m c)" by (auto simp: card_gt_0_iff)
      then show ?thesis
        using cn sg 3 iw by (intro local_inv [OF t [unfolded k] i(1), of In]) (auto simp: idle_phase_def)
    qed
  qed
qed


lemma monitor_init_inv: "monitor_init got K = Some m \<Longrightarrow> mon_inv M m"
  unfolding mon_inv_def
  by (rule exI [of _ At_mutex])
    (auto simp: monitor_init_def kspec token_inv_def count_inv_def sem_inv_def sem_at_def mwaits_def signallers_def waiters_def
      active_def at_sem_def split: token.splits)

lemma reachable_mon_inv: "(mon_step M)\<^sup>*\<^sup>* m0 m \<Longrightarrow> mon_inv M m0 \<Longrightarrow> mon_inv M m"
  by (induction rule: rtranclp_induct) (auto intro: mon_step_inv)

section \<open>Properties\<close>

text \<open>C23. A monitor admits one thread at a time: in whatever order any number of threads enter, wait, signal and leave, at
  most one of them is active in it, one that has signalled or waits is not; and while the monitor is free no signaller is
  left suspended in \<^verbatim>\<open>cond_signal\<close>.\<close>

theorem monitor_exclusive:
  assumes "monitor_init got K = Some m0" and "(mon_step M)\<^sup>*\<^sup>* m0 m"
  shows "(\<forall>i<M. \<forall>j<M. active m i \<and> active m j \<longrightarrow> i = j) \<and>
    (0 < fst (mt_mutex m) \<longrightarrow> (\<forall>i<M. \<not> active m i \<and> mpc m i \<noteq> Sig_next \<and> mpc m i \<noteq> Sig_dec))"
proof -
  obtain k where k: "token_inv M k m" "count_inv M k m"
    using reachable_mon_inv [OF assms(2) monitor_init_inv [OF assms(1)]] by (auto simp: mon_inv_def)
  have "k = At_mutex" if "0 < fst (mt_mutex m)"
    using k(1) that unfolding token_inv_def by (auto simp: sem_inv_def at_sem_def sem_at_def dest!: spec [of _ At_mutex])
  then have "0 < fst (mt_mutex m) \<Longrightarrow> \<forall>i<M. \<not> active m i \<and> mpc m i \<noteq> Sig_next \<and> mpc m i \<noteq> Sig_dec"
    using k count_invD(4) [OF k(2)] unfolding token_inv_def by (auto simp: signallers_def)
  moreover have "\<forall>i<M. \<forall>j<M. active m i \<and> active m j \<longrightarrow> i = j" using k(1) by (auto simp: token_inv_def)
  ultimately show ?thesis by blast
qed

text \<open>A monitor with one condition variable: thread 0 waits for it, thread 1 signals.\<close>

fun run_monitor :: "(nat \<times> mcall option) list \<Rightarrow> monitor \<Rightarrow> monitor option" where
  "run_monitor [] m = Some m"
| "run_monitor ((i, k) # ks) m = do {
     kassert (i < 2 \<and> \<not> mblocked m i);
     m1 \<leftarrow> (case k of Some c \<Rightarrow> call i c m | None \<Rightarrow> (case cond_signal i m of Some m1 \<Rightarrow> Some m1 | None \<Rightarrow> cond_wait i m));
     run_monitor ks m1
   }"

lemma run_monitor_steps: "run_monitor ks m = Some m' \<Longrightarrow> (mon_step 2)\<^sup>*\<^sup>* m m'"
proof (induction ks arbitrary: m)
  case (Cons a ks)
  obtain i k where a: "a = (i, k)" by fastforce
  obtain m1 where m1: "i < 2" "\<not> mblocked m i" "run_monitor ks m1 = Some m'"
    "(case k of Some c \<Rightarrow> call i c m | None \<Rightarrow> (case cond_signal i m of Some m1 \<Rightarrow> Some m1 | None \<Rightarrow> cond_wait i m)) = Some m1"
    using Cons.prems by (auto simp: a kspec)
  have "mon_step 2 m m1"
    using m1(4) mon_call [OF m1(1,2)] mon_signal [OF m1(1,2)] mon_wait [OF m1(1,2)] by (auto split: option.splits)
  then show ?case using Cons.IH [OF m1(3)] by (rule converse_rtranclp_into_rtranclp)
qed simp

definition mon0 :: monitor where
  "mon0 = \<lparr>mt_mutex = (1, []), mt_next = (0, []), next_count = 0, cv = (\<lambda>_. \<lparr>cv_sem = (0, []), cv_count = 0\<rparr>),
     mpc = (\<lambda>_. Out), mblocked = (\<lambda>_. False)\<rparr>"

lemma mon0_init: "monitor_init True 1 = Some mon0"
  by (simp add: monitor_init_def mon0_def)

lemma run_monitor0:
  "\<exists>m. run_monitor [(0, Some Enter), (0, Some (Wait 5)), (0, None), (0, None), (1, Some Enter), (1, Some (Signal 5)), (1, None)] mon0 = Some m \<and>
     mpc m 1 = Sig_up 5 \<and> mwaits 2 m (Wait_dec 5) = {0} \<and> active m 1"
  by (simp add: call_def cond_signal_def cond_wait_def mon0_def mgoto_def mdown_mutex_def mup_mutex_def leave_monitor_def
      down_cv_def add_count_def unblock_def enqueue_def active_def mwaits_def)

lemma monitor_exclusive_witness:
  "\<exists>m. run_monitor [(0, Some Enter), (0, Some (Wait 5)), (0, None), (0, None), (1, Some Enter), (1, Some (Signal 5)), (1, None)] mon0 = Some m \<and>
     active m 1 \<and> \<not> active m 0"
proof -
  let ?ks = "[(0, Some Enter), (0, Some (Wait 5)), (0, None), (0, None), (1, Some Enter), (1, Some (Signal 5)), (1, None)]"
  obtain m where m: "run_monitor ?ks mon0 = Some m" "active m 1" using run_monitor0 by blast
  have "\<forall>i<2. \<forall>j<2. active m i \<and> active m j \<longrightarrow> i = j"
    using monitor_exclusive [OF mon0_init run_monitor_steps [OF m(1)]] by blast
  then have "active m 0 \<and> active m 1 \<longrightarrow> (0 :: nat) = 1" by (metis one_less_numeral_iff semiring_norm(76) zero_less_numeral)
  then have "\<not> active m 0" using m(2) by simp
  then show ?thesis using m by blast
qed

text \<open>A signal is never lost nor stolen: when a thread in the monitor signals a condition variable on which threads
  wait, the monitor passes to a waiter of that variable before any other thread can enter: to a blocked one at once, or,
  if none is blocked yet, to one that is on its way to block, for which the semaphore holds the signal.\<close>

theorem cond_signal_hands_over:
  assumes "monitor_init got K = Some m0" and "(mon_step M)\<^sup>*\<^sup>* m0 m" and "i < M" and "mpc m i = Sig_up c"
  shows "\<exists>m'. cond_signal i m = Some m' \<and> fst (mt_mutex m') = 0 \<and> fst (mt_next m') = 0 \<and>
    ((\<exists>j \<in> mwaits M m (Wait_dec c). active m' j) \<or>
     mwaits M m (Wait_dec c) = {} \<and> fst (cv_sem (cv m' c)) = 1 \<and> (\<exists>j<M. mpc m' j = Wait_down c) \<and> (\<forall>j<M. \<not> active m' j))"
proof -
  let ?m = "mgoto i Sig_next (up_cv c m)"
  obtain k where k: "token_inv M k m" "count_inv M k m"
    using reachable_mon_inv [OF assms(2) monitor_init_inv [OF assms(1)]] by (auto simp: mon_inv_def)
  have "k = With i" by (rule token_at(1) [OF k(1) assms(3)]) (auto simp: assms(4) idle_phase_def at_sem_def split: token.splits)
  note s = sig_up_inv(1) [OF k [unfolded this] assms(3,4)]
  have e: "fst (mt_mutex ?m) = of_bool (l = At_mutex)" "fst (mt_next ?m) = of_bool (l = At_next)"
    "fst (cv_sem (cv ?m c)) = of_bool (l = At_cv c)" if "token_inv M l ?m" for l
  proof -
    have a: "at_sem x \<Longrightarrow> fst (sem_at ?m x) = of_bool (l = x)" for x using that by (auto simp: token_inv_def sem_inv_def)
    show "fst (mt_mutex ?m) = of_bool (l = At_mutex)" "fst (mt_next ?m) = of_bool (l = At_next)"
      "fst (cv_sem (cv ?m c)) = of_bool (l = At_cv c)"
      using a [of At_mutex] a [of At_next] a [of "At_cv c"] by (simp_all add: at_sem_def sem_at_def del: sem_at_ops)
  qed
  have "cond_signal i m = Some ?m" by (simp add: cond_signal_def assms(4))
  moreover from s have "fst (mt_mutex ?m) = 0 \<and> fst (mt_next ?m) = 0 \<and> ((\<exists>j \<in> mwaits M m (Wait_dec c). active ?m j) \<or>
     mwaits M m (Wait_dec c) = {} \<and> fst (cv_sem (cv ?m c)) = 1 \<and> (\<exists>j<M. mpc ?m j = Wait_down c) \<and> (\<forall>j<M. \<not> active ?m j))"
  proof
    assume a: "mwaits M m (Wait_dec c) = {} \<and> token_inv M (At_cv c) ?m \<and> (\<exists>j<M. mpc ?m j = Wait_down c)"
    then have "\<forall>j<M. \<not> active ?m j" by (auto simp: token_inv_def)
    then show ?thesis using a e [of "At_cv c"] by simp
  next
    assume "\<exists>j\<in>mwaits M m (Wait_dec c). token_inv M (With j) ?m"
    then obtain j where j: "j \<in> mwaits M m (Wait_dec c)" "token_inv M (With j) ?m" by blast
    then have "active ?m j" by (auto simp: token_inv_def mwaits_def)
    then show ?thesis using j e [OF j(2)] by auto
  qed
  ultimately show ?thesis by blast
qed

lemma cond_signal_hands_over_witness:
  "\<exists>m m'. run_monitor [(0, Some Enter), (0, Some (Wait 5)), (0, None), (0, None), (1, Some Enter), (1, Some (Signal 5)), (1, None)] mon0 = Some m \<and>
     cond_signal 1 m = Some m' \<and> active m' 0"
proof -
  let ?ks = "[(0, Some Enter), (0, Some (Wait 5)), (0, None), (0, None), (1, Some Enter), (1, Some (Signal 5)), (1, None)]"
  obtain m where m: "run_monitor ?ks mon0 = Some m" "mpc m 1 = Sig_up 5" "mwaits 2 m (Wait_dec 5) = {0}" using run_monitor0 by blast
  have "\<exists>m'. cond_signal 1 m = Some m' \<and> active m' 0"
    using cond_signal_hands_over [OF mon0_init run_monitor_steps [OF m(1)] _ m(2)] unfolding m(3) by auto
  then show ?thesis using m(1) by blast
qed

end
