(* ===== verification/Vfs.thy ===== *)
theory Vfs
  imports SfsMount
begin

text \<open>
  The virtual file system (\<^verbatim>\<open>kern/fs/vfs\<close>): the list of devices, the boot file system, the working directory, path
  lookup, and opening and closing an inode. The operations of an inode and of a file system are those of the tables
  \<^verbatim>\<open>struct inode_ops\<close> and \<^verbatim>\<open>struct fs\<close>, a record here; \<open>sfs_vops\<close> is the table of the simple file system. A path is the
  list of its bytes. A missing operation and a failed assertion have no result. The locks are left out: what runs under one
  is one step.
\<close>

section \<open>Inode and file system operations\<close>

record 'w vops =
  v_ref_inc :: "nat \<Rightarrow> 'w \<Rightarrow> 'w option"
  v_ref_dec :: "nat \<Rightarrow> 'w \<Rightarrow> 'w option"
  v_open_inc :: "nat \<Rightarrow> 'w \<Rightarrow> 'w option"
  v_open_dec :: "nat \<Rightarrow> 'w \<Rightarrow> 'w option"
  v_in_fs :: "nat \<Rightarrow> 'w \<Rightarrow> nat option"
  v_open :: "nat \<Rightarrow> nat \<Rightarrow> 'w \<Rightarrow> (int \<times> 'w) option"
  v_read :: "nat \<Rightarrow> iobuf \<Rightarrow> 'w \<Rightarrow> (int \<times> iobuf \<times> 'w) option"
  v_write :: "nat \<Rightarrow> iobuf \<Rightarrow> 'w \<Rightarrow> (int \<times> iobuf \<times> 'w) option"
  v_fstat :: "nat \<Rightarrow> 'w \<Rightarrow> (int \<times> stat \<times> 'w) option"
  v_fsync :: "nat \<Rightarrow> 'w \<Rightarrow> (int \<times> 'w) option"
  v_gettype :: "nat \<Rightarrow> 'w \<Rightarrow> (int \<times> nat) option"
  v_tryseek :: "nat \<Rightarrow> int \<Rightarrow> 'w \<Rightarrow> (int \<times> 'w) option"
  v_truncate :: "nat \<Rightarrow> int \<Rightarrow> 'w \<Rightarrow> (int \<times> 'w) option"
  v_getdirentry :: "nat \<Rightarrow> iobuf \<Rightarrow> 'w \<Rightarrow> (int \<times> iobuf \<times> 'w) option"
  v_namefile :: "nat \<Rightarrow> iobuf \<Rightarrow> 'w \<Rightarrow> (int \<times> iobuf \<times> 'w) option"
  v_create :: "nat \<Rightarrow> u8 list \<Rightarrow> bool \<Rightarrow> 'w \<Rightarrow> (int \<times> nat \<times> 'w) option"
  v_lookup :: "nat \<Rightarrow> u8 list \<Rightarrow> 'w \<Rightarrow> (int \<times> nat \<times> 'w) option"
  fs_get_root :: "nat \<Rightarrow> 'w \<Rightarrow> (nat \<times> 'w) option"
  fs_sync :: "nat \<Rightarrow> 'w \<Rightarrow> (int \<times> 'w) option"
  fs_unmount :: "nat \<Rightarrow> 'w \<Rightarrow> (int \<times> 'w) option"
  fs_cleanup :: "nat \<Rightarrow> 'w \<Rightarrow> 'w option"

text \<open>The tables \<^verbatim>\<open>sfs_node_dirops\<close> and \<^verbatim>\<open>sfs_node_fileops\<close>, of which \<^verbatim>\<open>sfs_get_ops\<close> takes the one for the type of the
  inode, and the operations that \<^verbatim>\<open>sfs_do_mount\<close> sets. The only file system has number 0; \<open>e\<close> are the outcomes of the
  allocations. \<open>names\<close> stands for \<^verbatim>\<open>sfs_namefile\<close>.\<close>

definition is_dir :: "nat \<Rightarrow> 'd mnt \<Rightarrow> bool" where
  "is_dir n m \<longleftrightarrow> di_type (din (vsin (nodes m n))) = SFS_TYPE_DIR"

definition is_file :: "nat \<Rightarrow> 'd mnt \<Rightarrow> bool" where
  "is_file n m \<longleftrightarrow> di_type (din (vsin (nodes m n))) = SFS_TYPE_FILE"

definition sfs_vop ::
  "nat \<Rightarrow> ('d sfs_fs \<Rightarrow> sfs_inode \<Rightarrow> (int \<times> 'r \<times> sfs_inode \<times> 'd sfs_fs) option) \<Rightarrow> 'd mnt \<Rightarrow> (int \<times> 'r \<times> 'd mnt) option" where
  "sfs_vop n f m = do {
     inode_check m n;
     (ret, r, i, s1) \<leftarrow> f (fs m) (vsin (nodes m n));
     Some (ret, r, set_sin n i s1 m)
   }"

definition sfs_vops ::
  "lookup_env \<Rightarrow> (nat \<Rightarrow> iobuf \<Rightarrow> 'd mnt \<Rightarrow> (int \<times> iobuf \<times> 'd mnt) option) \<Rightarrow> 'd mnt vops" where
  "sfs_vops e names = \<lparr>
     v_ref_inc = (\<lambda>n m. Some (snd (inode_ref_inc n m))),
     v_ref_dec = (\<lambda>n m. map_option snd (inode_ref_dec n m)),
     v_open_inc = (\<lambda>n m. Some (snd (inode_open_inc n m))),
     v_open_dec = (\<lambda>n m. map_option snd (inode_open_dec n m)),
     v_in_fs = (\<lambda>n m. Some 0),
     v_open = (\<lambda>n fl m. do {
       kassert (is_dir n m \<or> is_file n m);
       inode_check m n;
       Some (if is_dir n m then sfs_opendir fl else sfs_openfile fl, m)
     }),
     v_read = (\<lambda>n iob m. do {
       kassert (is_file n m);
       sfs_vop n (\<lambda>s i. sfs_read s i iob) m
     }),
     v_write = (\<lambda>n iob m. do {
       kassert (is_file n m);
       sfs_vop n (\<lambda>s i. sfs_write s i iob) m
     }),
     v_fstat = (\<lambda>n m. do {
       inode_check m n;
       (ret, st) \<leftarrow> sfs_fstat (vsin (nodes m n));
       Some (ret, st, m)
     }),
     v_fsync = vop_fsync,
     v_gettype = (\<lambda>n m. do {
       inode_check m n;
       sfs_gettype (vsin (nodes m n))
     }),
     v_tryseek = (\<lambda>n pos m. do {
       kassert (is_file n m);
       (ret, _, m1) \<leftarrow> sfs_vop n (\<lambda>s i. do { (ret, i1, s1) \<leftarrow> sfs_tryseek s i pos; Some (ret, (), i1, s1) }) m;
       Some (ret, m1)
     }),
     v_truncate = vop_truncate,
     v_getdirentry = (\<lambda>n iob m. do {
       kassert (is_dir n m);
       sfs_vop n (\<lambda>s i. sfs_getdirentry (fst e) s i iob) m
     }),
     v_namefile = (\<lambda>n iob m. do {
       kassert (is_dir n m);
       inode_check m n;
       names n iob m
     }),
     v_create = (\<lambda>n name excl m. None),
     v_lookup = (\<lambda>n path m. do {
       kassert (is_dir n m);
       inode_check m n;
       sfs_lookup e n path m
     }),
     fs_get_root = (\<lambda>f m. sfs_get_root (fst (snd e)) (snd (snd e)) m),
     fs_sync = (\<lambda>f m. sfs_sync m),
     fs_unmount = (\<lambda>f m. map_option (\<lambda>ret. (ret, m)) (sfs_unmount m)),
     fs_cleanup = (\<lambda>f m. sfs_cleanup m)
   \<rparr>"

section \<open>State\<close>

datatype fd_status = FD_NONE | FD_INIT | FD_OPENED | FD_CLOSED

record fd_file =
  f_status :: fd_status
  f_readable :: bool
  f_writable :: bool
  f_fd :: int
  f_pos :: int
  f_node :: "nat option"
  f_count :: int

record files_struct =
  pwd :: "nat option"
  fd_array :: "nat \<Rightarrow> fd_file"
  files_count :: int

record vfs_dev_t =
  devname :: "u8 list"
  devnode :: "nat option"
  dev_fs :: "nat option"
  mountable :: bool

text \<open>\<open>cur_files\<close> is \<^verbatim>\<open>current->filesp\<close>.\<close>

record 'w vfs =
  fstructs :: "nat \<Rightarrow> files_struct"
  cur_files :: "nat option"
  bootfs_node :: "nat option"
  vdev_list :: "vfs_dev_t list"
  inodes :: 'w

text \<open>An operation on the inodes as an operation on the whole.\<close>

definition on_inodes :: "('w \<Rightarrow> 'w option) \<Rightarrow> 'w vfs \<Rightarrow> 'w vfs option" where
  "on_inodes f s = map_option (\<lambda>w. s\<lparr>inodes := w\<rparr>) (f (inodes s))"

definition with_inodes :: "('w \<Rightarrow> ('r \<times> 'w) option) \<Rightarrow> 'w vfs \<Rightarrow> ('r \<times> 'w vfs) option" where
  "with_inodes f s = map_option (\<lambda>(r, w). (r, s\<lparr>inodes := w\<rparr>)) (f (inodes s))"

definition with_inodes2 :: "('w \<Rightarrow> ('r \<times> 'q \<times> 'w) option) \<Rightarrow> 'w vfs \<Rightarrow> ('r \<times> 'q \<times> 'w vfs) option" where
  "with_inodes2 f s = map_option (\<lambda>(r, q, w). (r, q, s\<lparr>inodes := w\<rparr>)) (f (inodes s))"

definition upd_files :: "nat \<Rightarrow> (files_struct \<Rightarrow> files_struct) \<Rightarrow> 'w vfs \<Rightarrow> 'w vfs" where
  "upd_files p f s = s\<lparr>fstructs := (fstructs s)(p := f (fstructs s p))\<rparr>"

section \<open>Working directory\<close>

definition get_cwd_nolock :: "'w vfs \<Rightarrow> nat option option" where
  "get_cwd_nolock s = map_option (\<lambda>p. pwd (fstructs s p)) (cur_files s)"

definition set_cwd_nolock :: "nat option \<Rightarrow> 'w vfs \<Rightarrow> 'w vfs option" where
  "set_cwd_nolock d s = map_option (\<lambda>p. upd_files p (\<lambda>f. f\<lparr>pwd := d\<rparr>) s) (cur_files s)"

definition vfs_get_curdir :: "'w vops \<Rightarrow> 'w vfs \<Rightarrow> (int \<times> nat \<times> 'w vfs) option" where
  "vfs_get_curdir ops s = do {
     node \<leftarrow> get_cwd_nolock s;
     (case node of
        Some n \<Rightarrow> do {
          s1 \<leftarrow> on_inodes (v_ref_inc ops n) s;
          Some (0, n, s1)
        }
      | None \<Rightarrow> Some (- E_NOENT, 0, s))
   }"

abbreviation (input) S_IFMT :: nat where "S_IFMT \<equiv> 0x7000"

definition S_ISDIR :: "nat \<Rightarrow> bool" where
  "S_ISDIR mode \<longleftrightarrow> mode AND S_IFMT = S_IFDIR"

definition vfs_set_curdir :: "'w vops \<Rightarrow> nat option \<Rightarrow> 'w vfs \<Rightarrow> (int \<times> 'w vfs) option" where
  "vfs_set_curdir ops dir s = do {
     old_dir \<leftarrow> get_cwd_nolock s;
     if old_dir = dir then Some (0, s)
     else do {
       (ret, s1) \<leftarrow> (case dir of
           None \<Rightarrow> Some (0, s)
         | Some d \<Rightarrow> do {
             (ret, ty) \<leftarrow> v_gettype ops d (inodes s);
             if ret \<noteq> 0 then Some (ret, s)
             else if \<not> S_ISDIR ty then Some (- E_NOTDIR, s)
             else do {
               s1 \<leftarrow> on_inodes (v_ref_inc ops d) s;
               Some (0, s1)
             }
           });
       if ret \<noteq> 0 then Some (ret, s1)
       else do {
         s2 \<leftarrow> set_cwd_nolock dir s1;
         s3 \<leftarrow> (case old_dir of None \<Rightarrow> Some s2 | Some o' \<Rightarrow> on_inodes (v_ref_dec ops o') s2);
         Some (0, s3)
       }
     }
   }"

section \<open>Devices\<close>

definition vfs_devlist_init :: "'w vfs \<Rightarrow> 'w vfs" where
  "vfs_devlist_init s = s\<lparr>vdev_list := []\<rparr>"

definition vfs_init :: "'w vfs \<Rightarrow> 'w vfs" where
  "vfs_init s = vfs_devlist_init s"

fun cleanup_devs :: "'w vops \<Rightarrow> vfs_dev_t list \<Rightarrow> 'w vfs \<Rightarrow> 'w vfs option" where
  "cleanup_devs ops [] s = Some s"
| "cleanup_devs ops (v # vs) s = do {
     s1 \<leftarrow> (case dev_fs v of Some f \<Rightarrow> on_inodes (fs_cleanup ops f) s | None \<Rightarrow> Some s);
     cleanup_devs ops vs s1
   }"

definition vfs_cleanup :: "'w vops \<Rightarrow> 'w vfs \<Rightarrow> 'w vfs option" where
  "vfs_cleanup ops s = (if vdev_list s \<noteq> [] then cleanup_devs ops (vdev_list s) s else Some s)"

definition vfs_get_root :: "'w vops \<Rightarrow> u8 list \<Rightarrow> 'w vfs \<Rightarrow> (int \<times> nat \<times> 'w vfs) option" where
  "vfs_get_root ops name s =
     (case find (\<lambda>v. name = devname v) (vdev_list s) of
        None \<Rightarrow> Some (- E_NO_DEV, 0, s)
      | Some v \<Rightarrow>
          (case dev_fs v of
             Some f \<Rightarrow> do {
               (n, s1) \<leftarrow> with_inodes (fs_get_root ops f) s;
               Some (0, n, s1)
             }
           | None \<Rightarrow>
               if \<not> mountable v then do {
                 n \<leftarrow> devnode v;
                 s1 \<leftarrow> on_inodes (v_ref_inc ops n) s;
                 Some (0, n, s1)
               } else Some (- E_NA_DEV, 0, s)))"

definition vfs_get_devname :: "nat \<Rightarrow> 'w vfs \<Rightarrow> u8 list option" where
  "vfs_get_devname f s = map_option devname (find (\<lambda>v. dev_fs v = Some f) (vdev_list s))"

definition check_devname_conflict :: "u8 list \<Rightarrow> 'w vfs \<Rightarrow> bool" where
  "check_devname_conflict name s = list_all (\<lambda>v. devname v \<noteq> name) (vdev_list s)"

text \<open>\<open>e\<close> are the outcomes of the two allocations; \<open>is_device\<close> tells whether an inode is that of a device.\<close>

definition vfs_do_add ::
  "bool \<times> bool \<Rightarrow> (nat \<Rightarrow> bool) \<Rightarrow> u8 list \<Rightarrow> nat option \<Rightarrow> nat option \<Rightarrow> bool \<Rightarrow> 'w vfs \<Rightarrow> (int \<times> 'w vfs) option" where
  "vfs_do_add e is_device name node f mnt s = do {
     kassert ((node = None \<and> \<not> mnt) \<or> (\<exists>n \<in> set_option node. is_device n));
     if length name > 31 then Some (- E_TOO_BIG, s)
     else if \<not> fst e then Some (- E_NO_MEM, s)
     else if \<not> snd e then Some (- E_NO_MEM, s)
     else if \<not> check_devname_conflict name s then Some (- E_EXISTS, s)
     else Some (0, s\<lparr>vdev_list := \<lparr>devname = name, devnode = node, dev_fs = f, mountable = mnt\<rparr> # vdev_list s\<rparr>)
   }"

definition vfs_add_fs :: "bool \<times> bool \<Rightarrow> u8 list \<Rightarrow> nat option \<Rightarrow> 'w vfs \<Rightarrow> (int \<times> 'w vfs) option" where
  "vfs_add_fs e name f s = vfs_do_add e (\<lambda>_. False) name None f False s"

definition vfs_add_dev :: "bool \<times> bool \<Rightarrow> (nat \<Rightarrow> bool) \<Rightarrow> u8 list \<Rightarrow> nat option \<Rightarrow> bool \<Rightarrow> 'w vfs \<Rightarrow> (int \<times> 'w vfs) option" where
  "vfs_add_dev e is_device name node mnt s = vfs_do_add e is_device name node None mnt s"

text \<open>\<^verbatim>\<open>find_mount\<close>: the position of the device, so that it can be changed.\<close>

fun find_mount :: "u8 list \<Rightarrow> vfs_dev_t list \<Rightarrow> nat option" where
  "find_mount name [] = None"
| "find_mount name (v # vs) = (if mountable v \<and> devname v = name then Some 0 else map_option Suc (find_mount name vs))"

definition set_dev_fs :: "nat \<Rightarrow> nat option \<Rightarrow> 'w vfs \<Rightarrow> 'w vfs" where
  "set_dev_fs k f s = s\<lparr>vdev_list := (vdev_list s)[k := (vdev_list s ! k)\<lparr>dev_fs := f\<rparr>]\<rparr>"

text \<open>\<open>mountfunc\<close> gets the inode of the device and returns a code and what it has stored in \<^verbatim>\<open>vdev->fs\<close>.\<close>

definition vfs_mount ::
  "u8 list \<Rightarrow> (nat option \<Rightarrow> 'w \<Rightarrow> (int \<times> nat option \<times> 'w) option) \<Rightarrow> 'w vfs \<Rightarrow> (int \<times> 'w vfs) option" where
  "vfs_mount name mountfunc s =
     (case find_mount name (vdev_list s) of
        None \<Rightarrow> Some (- E_NO_DEV, s)
      | Some k \<Rightarrow>
          let v = vdev_list s ! k in
          if dev_fs v \<noteq> None then Some (- E_BUSY, s)
          else do {
            (ret, f, s1) \<leftarrow> with_inodes2 (mountfunc (devnode v)) s;
            if ret = 0 then do {
              kassert (f \<noteq> None);
              Some (ret, set_dev_fs k f s1)
            } else Some (ret, set_dev_fs k f s1)
          })"

definition vfs_unmount :: "'w vops \<Rightarrow> u8 list \<Rightarrow> 'w vfs \<Rightarrow> (int \<times> 'w vfs) option" where
  "vfs_unmount ops name s =
     (case find_mount name (vdev_list s) of
        None \<Rightarrow> Some (- E_NO_DEV, s)
      | Some k \<Rightarrow>
          (case dev_fs (vdev_list s ! k) of
             None \<Rightarrow> Some (- E_INVAL, s)
           | Some f \<Rightarrow> do {
               (ret, s1) \<leftarrow> with_inodes (fs_sync ops f) s;
               if ret \<noteq> 0 then Some (ret, s1)
               else do {
                 (ret, s2) \<leftarrow> with_inodes (fs_unmount ops f) s1;
                 Some (ret, if ret = 0 then set_dev_fs k None s2 else s2)
               }
             }))"

fun unmount_devs :: "'w vops \<Rightarrow> nat list \<Rightarrow> 'w vfs \<Rightarrow> 'w vfs option" where
  "unmount_devs ops [] s = Some s"
| "unmount_devs ops (k # ks) s =
     (case (mountable (vdev_list s ! k), dev_fs (vdev_list s ! k)) of
        (True, Some f) \<Rightarrow> do {
          (ret, s1) \<leftarrow> with_inodes (fs_sync ops f) s;
          if ret \<noteq> 0 then unmount_devs ops ks s1
          else do {
            (ret, s2) \<leftarrow> with_inodes (fs_unmount ops f) s1;
            unmount_devs ops ks (if ret = 0 then set_dev_fs k None s2 else s2)
          }
        }
      | _ \<Rightarrow> unmount_devs ops ks s)"

definition vfs_unmount_all :: "'w vops \<Rightarrow> 'w vfs \<Rightarrow> (int \<times> 'w vfs) option" where
  "vfs_unmount_all ops s = do {
     s1 \<leftarrow> unmount_devs ops [0..<length (vdev_list s)] s;
     Some (0, s1)
   }"

section \<open>Boot file system\<close>

definition change_bootfs :: "'w vops \<Rightarrow> nat option \<Rightarrow> 'w vfs \<Rightarrow> 'w vfs option" where
  "change_bootfs ops node s =
     (let s1 = s\<lparr>bootfs_node := node\<rparr> in
      case bootfs_node s of
        Some old \<Rightarrow> on_inodes (v_ref_dec ops old) s1
      | None \<Rightarrow> Some s1)"

definition vfs_get_bootfs :: "'w vops \<Rightarrow> 'w vfs \<Rightarrow> (int \<times> nat \<times> 'w vfs) option" where
  "vfs_get_bootfs ops s =
     (case bootfs_node s of
        Some node \<Rightarrow> do {
          s1 \<leftarrow> on_inodes (v_ref_inc ops node) s;
          Some (0, node, s1)
        }
      | None \<Rightarrow> Some (- E_NOENT, 0, s))"

section \<open>Paths\<close>

text \<open>The loop at the start of \<^verbatim>\<open>get_device\<close>: the positions of a slash and of a colon, whichever comes first, or -1.\<close>

fun scan_path :: "u8 list \<Rightarrow> int \<Rightarrow> int \<times> int" where
  "scan_path [] i = (- 1, - 1)"
| "scan_path (c # cs) i = (if c = 58 then (- 1, i) else if c = 47 then (i, - 1) else scan_path cs (i + 1))"

abbreviation skip_slashes :: "u8 list \<Rightarrow> u8 list" where
  "skip_slashes \<equiv> dropWhile (\<lambda>c. c = 47)"

text \<open>\<open>get_device\<close> returns its code, what it leaves in \<^verbatim>\<open>path\<close> (it cuts the path at a colon), the rest of the path, the
  inode to start from, and the state.\<close>

definition get_device :: "'w vops \<Rightarrow> u8 list \<Rightarrow> 'w vfs \<Rightarrow> (int \<times> u8 list \<times> u8 list \<times> nat \<times> 'w vfs) option" where
  "get_device ops path s =
     (case scan_path path 0 of (slash, colon) \<Rightarrow>
        if colon < 0 \<and> slash \<noteq> 0 then do {
          (ret, node, s1) \<leftarrow> vfs_get_curdir ops s;
          Some (ret, path, path, node, s1)
        } else if colon > 0 then do {
          let dev = take (nat colon) path;
          (ret, node, s1) \<leftarrow> vfs_get_root ops dev s;
          Some (ret, dev, skip_slashes (drop (nat colon + 1) path), node, s1)
        } else if hd path = 47 then do {
          (ret, node, s1) \<leftarrow> vfs_get_bootfs ops s;
          Some (ret, path, if ret \<noteq> 0 then path else skip_slashes (tl path), node, s1)
        } else do {
          kassert (hd path = 58);
          (ret, node, s1) \<leftarrow> vfs_get_curdir ops s;
          if ret \<noteq> 0 then Some (ret, path, path, 0, s1)
          else do {
            f \<leftarrow> v_in_fs ops node (inodes s1);
            (root, s2) \<leftarrow> with_inodes (fs_get_root ops f) s1;
            s3 \<leftarrow> on_inodes (v_ref_dec ops node) s2;
            Some (0, path, skip_slashes (tl path), root, s3)
          }
        })"

text \<open>Both lookups also return what is left in the caller's path.\<close>

definition vfs_lookup :: "'w vops \<Rightarrow> u8 list \<Rightarrow> 'w vfs \<Rightarrow> (int \<times> u8 list \<times> nat \<times> 'w vfs) option" where
  "vfs_lookup ops path s = do {
     (ret, left, sub, node, s1) \<leftarrow> get_device ops path s;
     if ret \<noteq> 0 then Some (ret, left, 0, s1)
     else if sub \<noteq> [] then do {
       (ret, found, s2) \<leftarrow> with_inodes2 (v_lookup ops node sub) s1;
       s3 \<leftarrow> on_inodes (v_ref_dec ops node) s2;
       Some (ret, left, found, s3)
     } else Some (0, left, node, s1)
   }"

definition vfs_lookup_parent :: "'w vops \<Rightarrow> u8 list \<Rightarrow> 'w vfs \<Rightarrow> (int \<times> u8 list \<times> nat \<times> 'w vfs) option" where
  "vfs_lookup_parent ops path s = do {
     (ret, _, sub, node, s1) \<leftarrow> get_device ops path s;
     Some (ret, sub, node, s1)
   }"

definition vfs_chdir :: "'w vops \<Rightarrow> u8 list \<Rightarrow> 'w vfs \<Rightarrow> (int \<times> 'w vfs) option" where
  "vfs_chdir ops path s = do {
     (ret, _, node, s1) \<leftarrow> vfs_lookup ops path s;
     if ret = 0 then do {
       (ret, s2) \<leftarrow> vfs_set_curdir ops (Some node) s1;
       s3 \<leftarrow> on_inodes (v_ref_dec ops node) s2;
       Some (ret, s3)
     } else Some (ret, s1)
   }"

definition vfs_set_bootfs :: "'w vops \<Rightarrow> u8 list option \<Rightarrow> 'w vfs \<Rightarrow> (int \<times> 'w vfs) option" where
  "vfs_set_bootfs ops fsname s =
     (case fsname of
        None \<Rightarrow> do {
          s1 \<leftarrow> change_bootfs ops None s;
          Some (0, s1)
        }
      | Some name \<Rightarrow>
          if dropWhile (\<lambda>c. c \<noteq> 58) name \<noteq> [58] then Some (- E_INVAL, s)
          else do {
            (ret, s1) \<leftarrow> vfs_chdir ops name s;
            if ret \<noteq> 0 then Some (ret, s1)
            else do {
              (ret, node, s2) \<leftarrow> vfs_get_curdir ops s1;
              if ret \<noteq> 0 then Some (ret, s2)
              else do {
                s3 \<leftarrow> change_bootfs ops (Some node) s2;
                Some (0, s3)
              }
            }
          })"

definition vfs_getcwd :: "'w vops \<Rightarrow> iobuf \<Rightarrow> 'w vfs \<Rightarrow> (int \<times> iobuf \<times> 'w vfs) option" where
  "vfs_getcwd ops iob s = do {
     (ret, node, s1) \<leftarrow> vfs_get_curdir ops s;
     if ret \<noteq> 0 then Some (ret, iob, s1)
     else do {
       f \<leftarrow> v_in_fs ops node (inodes s1);
       name \<leftarrow> vfs_get_devname f s1;
       (ret, _, _, iob1) \<leftarrow> iobuf_move iob name (length name) True;
       if ret \<noteq> 0 then do {
         s2 \<leftarrow> on_inodes (v_ref_dec ops node) s1;
         Some (ret, iob1, s2)
       } else do {
         (ret, _, _, iob2) \<leftarrow> iobuf_move iob1 [58] 1 True;
         if ret \<noteq> 0 then do {
           s2 \<leftarrow> on_inodes (v_ref_dec ops node) s1;
           Some (ret, iob2, s2)
         } else do {
           (ret, iob3, s2) \<leftarrow> with_inodes2 (v_namefile ops node iob2) s1;
           s3 \<leftarrow> on_inodes (v_ref_dec ops node) s2;
           Some (ret, iob3, s3)
         }
       }
     }
   }"

section \<open>Opening and closing\<close>

abbreviation (input) O_WRONLY :: nat where "O_WRONLY \<equiv> 1"
abbreviation (input) O_RDWR :: nat where "O_RDWR \<equiv> 2"
abbreviation (input) O_CREAT :: nat where "O_CREAT \<equiv> 0x4"
abbreviation (input) O_EXCL :: nat where "O_EXCL \<equiv> 0x8"
abbreviation (input) O_TRUNC :: nat where "O_TRUNC \<equiv> 0x10"

text \<open>The part of \<^verbatim>\<open>vfs_open\<close> behind the lookup. A failed \<^verbatim>\<open>vop_create\<close> leaves the inode undefined, so that the code behind
  it has no result.\<close>

definition open_node :: "'w vops \<Rightarrow> nat \<Rightarrow> nat \<Rightarrow> 'w vfs \<Rightarrow> (int \<times> nat \<times> 'w vfs) option" where
  "open_node ops node fl s = do {
     (ret, s1) \<leftarrow> with_inodes (v_open ops node fl) s;
     if ret \<noteq> 0 then do {
       s2 \<leftarrow> on_inodes (v_ref_dec ops node) s1;
       Some (ret, 0, s2)
     } else do {
       s2 \<leftarrow> on_inodes (v_open_inc ops node) s1;
       if fl AND O_TRUNC \<noteq> 0 \<or> fl AND O_CREAT \<noteq> 0 then do {
         (ret, s3) \<leftarrow> with_inodes (v_truncate ops node 0) s2;
         if ret \<noteq> 0 then do {
           s4 \<leftarrow> on_inodes (v_open_dec ops node) s3;
           s5 \<leftarrow> on_inodes (v_ref_dec ops node) s4;
           Some (ret, 0, s5)
         } else Some (0, node, s3)
       } else Some (0, node, s2)
     }
   }"

definition vfs_open :: "'w vops \<Rightarrow> u8 list \<Rightarrow> nat \<Rightarrow> 'w vfs \<Rightarrow> (int \<times> nat \<times> 'w vfs) option" where
  "vfs_open ops path fl s =
     (if fl AND O_ACCMODE \<notin> {O_RDONLY, O_WRONLY, O_RDWR} then Some (- E_INVAL, 0, s)
      else if fl AND O_TRUNC \<noteq> 0 \<and> fl AND O_ACCMODE = O_RDONLY then Some (- E_INVAL, 0, s)
      else do {
        let excl = (fl AND O_EXCL \<noteq> 0);
        let creat = (fl AND O_CREAT \<noteq> 0);
        (ret, left, node, s1) \<leftarrow> vfs_lookup ops path s;
        if ret \<noteq> 0 then
          if ret = - 16 \<and> creat then do {
            (ret, name, dir, s2) \<leftarrow> vfs_lookup_parent ops left s1;
            if ret \<noteq> 0 then Some (ret, 0, s2)
            else do {
              (ret, node, s3) \<leftarrow> with_inodes2 (v_create ops dir name excl) s2;
              kassert (ret = 0);
              open_node ops node fl s3
            }
          } else Some (ret, 0, s1)
        else if excl \<and> creat then Some (- E_EXISTS, 0, s1)
        else open_node ops node fl s1
      })"

definition vfs_close :: "'w vops \<Rightarrow> nat \<Rightarrow> 'w vfs \<Rightarrow> (int \<times> 'w vfs) option" where
  "vfs_close ops node s = do {
     s1 \<leftarrow> on_inodes (v_open_dec ops node) s;
     s2 \<leftarrow> on_inodes (v_ref_dec ops node) s1;
     Some (0, s2)
   }"

definition vfs_unlink :: "u8 list \<Rightarrow> int" where "vfs_unlink path = - E_UNIMP"
definition vfs_rename :: "u8 list \<Rightarrow> u8 list \<Rightarrow> int" where "vfs_rename old_path new_path = - E_UNIMP"
definition vfs_link :: "u8 list \<Rightarrow> u8 list \<Rightarrow> int" where "vfs_link old_path new_path = - E_UNIMP"

end
