(* ===== verification/FileTable.thy ===== *)
theory FileTable
  imports Vfs
begin

text \<open>
  The open files of a process (\<^verbatim>\<open>kern/fs/file.c\<close>) and the life of the whole table (\<^verbatim>\<open>kern/fs/fs.c\<close>). A \<^verbatim>\<open>struct file\<close> is
  named by the \<^verbatim>\<open>files_struct\<close> it belongs to and its index there. File offsets are 64-bit: an unsigned addition to one
  wraps, a signed overflow has no result.
\<close>

section \<open>Table entries\<close>

text \<open>A \<^verbatim>\<open>struct files_struct\<close> has 48 bytes and a \<^verbatim>\<open>struct file\<close> 56, since a \<^verbatim>\<open>bool\<close> is a \<^verbatim>\<open>long long\<close>.\<close>

definition FILES_STRUCT_NENTRY :: nat where
  "FILES_STRUCT_NENTRY = (4096 - 48) div 56"

lemma nentry [simp]: "FILES_STRUCT_NENTRY = 72"
  by (simp add: FILES_STRUCT_NENTRY_def)

abbreviation (input) NO_FD :: int where "NO_FD \<equiv> - 0x9527"

definition testfd :: "int \<Rightarrow> bool" where
  "testfd fd \<longleftrightarrow> fd \<ge> 0 \<and> fd < int FILES_STRUCT_NENTRY"

definition entry :: "'w vfs \<Rightarrow> nat \<Rightarrow> nat \<Rightarrow> fd_file" where
  "entry s p i = fd_array (fstructs s p) i"

definition upd_entry :: "nat \<Rightarrow> nat \<Rightarrow> (fd_file \<Rightarrow> fd_file) \<Rightarrow> 'w vfs \<Rightarrow> 'w vfs" where
  "upd_entry p i f s = upd_files p (\<lambda>F. F\<lparr>fd_array := (fd_array F)(i := f (fd_array F i))\<rparr>) s"

definition fopen_count_inc :: "nat \<Rightarrow> nat \<Rightarrow> 'w vfs \<Rightarrow> int \<times> 'w vfs" where
  "fopen_count_inc p i s = (f_count (entry s p i) + 1, upd_entry p i (\<lambda>f. f\<lparr>f_count := f_count f + 1\<rparr>) s)"

definition fopen_count_dec :: "nat \<Rightarrow> nat \<Rightarrow> 'w vfs \<Rightarrow> int \<times> 'w vfs" where
  "fopen_count_dec p i s = (f_count (entry s p i) - 1, upd_entry p i (\<lambda>f. f\<lparr>f_count := f_count f - 1\<rparr>) s)"

text \<open>\<open>get_fd_array\<close> gives the number of the current \<^verbatim>\<open>files_struct\<close>.\<close>

definition get_fd_array :: "'w vfs \<Rightarrow> nat option" where
  "get_fd_array s = do {
     p \<leftarrow> cur_files s;
     kassert (files_count (fstructs s p) > 0);
     Some p
   }"

definition fd_array_init :: "(nat \<Rightarrow> fd_file) \<Rightarrow> nat \<Rightarrow> fd_file" where
  "fd_array_init a = (\<lambda>i. if i < FILES_STRUCT_NENTRY then (a i)\<lparr>f_count := 0, f_status := FD_NONE, f_fd := int i\<rparr> else a i)"

definition fd_found :: "nat \<Rightarrow> nat \<Rightarrow> 'w vfs \<Rightarrow> (int \<times> nat \<times> 'w vfs) option" where
  "fd_found p i s = do {
     kassert (f_count (entry s p i) = 0);
     Some (0, i, upd_entry p i (\<lambda>f. f\<lparr>f_status := FD_INIT, f_node := None\<rparr>) s)
   }"

definition fd_array_alloc :: "int \<Rightarrow> 'w vfs \<Rightarrow> (int \<times> nat \<times> 'w vfs) option" where
  "fd_array_alloc fd s = do {
     p \<leftarrow> get_fd_array s;
     if fd = NO_FD then
       (case find (\<lambda>i. f_status (entry s p i) = FD_NONE) [0..<FILES_STRUCT_NENTRY] of
          Some i \<Rightarrow> fd_found p i s
        | None \<Rightarrow> Some (- E_MAX_OPEN, 0, s))
     else if testfd fd then
       if f_status (entry s p (nat fd)) = FD_NONE then fd_found p (nat fd) s
       else Some (- E_BUSY, 0, s)
     else Some (- E_INVAL, 0, s)
   }"

definition fd_array_free :: "'w vops \<Rightarrow> nat \<Rightarrow> nat \<Rightarrow> 'w vfs \<Rightarrow> 'w vfs option" where
  "fd_array_free ops p i s = do {
     kassert (f_status (entry s p i) = FD_INIT \<or> f_status (entry s p i) = FD_CLOSED);
     kassert (f_count (entry s p i) = 0);
     s1 \<leftarrow> (if f_status (entry s p i) = FD_CLOSED then do {
               n \<leftarrow> f_node (entry s p i);
               (_, s1) \<leftarrow> vfs_close ops n s;
               Some s1
             } else Some s);
     Some (upd_entry p i (\<lambda>f. f\<lparr>f_status := FD_NONE\<rparr>) s1)
   }"

definition fd_array_acquire :: "nat \<Rightarrow> nat \<Rightarrow> 'w vfs \<Rightarrow> 'w vfs option" where
  "fd_array_acquire p i s = do {
     kassert (f_status (entry s p i) = FD_OPENED);
     Some (snd (fopen_count_inc p i s))
   }"

definition fd_array_release :: "'w vops \<Rightarrow> nat \<Rightarrow> nat \<Rightarrow> 'w vfs \<Rightarrow> 'w vfs option" where
  "fd_array_release ops p i s = do {
     kassert (f_status (entry s p i) = FD_OPENED \<or> f_status (entry s p i) = FD_CLOSED);
     kassert (f_count (entry s p i) > 0);
     let (c, s1) = fopen_count_dec p i s;
     if c = 0 then fd_array_free ops p i s1 else Some s1
   }"

definition fd_array_open :: "nat \<Rightarrow> nat \<Rightarrow> 'w vfs \<Rightarrow> 'w vfs option" where
  "fd_array_open p i s = do {
     kassert (f_status (entry s p i) = FD_INIT \<and> f_node (entry s p i) \<noteq> None);
     Some (snd (fopen_count_inc p i (upd_entry p i (\<lambda>f. f\<lparr>f_status := FD_OPENED\<rparr>) s)))
   }"

definition fd_array_close :: "'w vops \<Rightarrow> nat \<Rightarrow> nat \<Rightarrow> 'w vfs \<Rightarrow> 'w vfs option" where
  "fd_array_close ops p i s = do {
     kassert (f_status (entry s p i) = FD_OPENED);
     kassert (f_count (entry s p i) > 0);
     let (c, s1) = fopen_count_dec p i (upd_entry p i (\<lambda>f. f\<lparr>f_status := FD_CLOSED\<rparr>) s);
     if c = 0 then fd_array_free ops p i s1 else Some s1
   }"

text \<open>\<^verbatim>\<open>fd_array_dup\<close> from entry \<open>j\<close> of \<open>q\<close> to entry \<open>i\<close> of \<open>p\<close>.\<close>

definition fd_array_dup :: "'w vops \<Rightarrow> nat \<Rightarrow> nat \<Rightarrow> nat \<Rightarrow> nat \<Rightarrow> 'w vfs \<Rightarrow> 'w vfs option" where
  "fd_array_dup ops p i q j s = do {
     kassert (f_status (entry s p i) = FD_INIT \<and> f_status (entry s q j) = FD_OPENED);
     let from = entry s q j;
     let s1 = upd_entry p i (\<lambda>f. f\<lparr>f_pos := f_pos from, f_readable := f_readable from, f_writable := f_writable from\<rparr>) s;
     n \<leftarrow> f_node from;
     s2 \<leftarrow> on_inodes (v_ref_inc ops n) s1;
     s3 \<leftarrow> on_inodes (v_open_inc ops n) s2;
     fd_array_open p i (upd_entry p i (\<lambda>f. f\<lparr>f_node := Some n\<rparr>) s3)
   }"

definition fd2file :: "int \<Rightarrow> 'w vfs \<Rightarrow> (int \<times> nat \<times> nat) option" where
  "fd2file fd s =
     (if testfd fd then do {
        p \<leftarrow> get_fd_array s;
        let f = entry s p (nat fd);
        if f_status f = FD_OPENED \<and> f_fd f = fd then Some (0, p, nat fd) else Some (- E_INVAL, 0, 0)
      } else Some (- E_INVAL, 0, 0))"

definition file_testfd :: "int \<Rightarrow> bool \<Rightarrow> bool \<Rightarrow> 'w vfs \<Rightarrow> bool option" where
  "file_testfd fd readable writable s = do {
     (ret, p, i) \<leftarrow> fd2file fd s;
     Some (if ret \<noteq> 0 then False
           else if readable \<and> \<not> f_readable (entry s p i) then False
           else if writable \<and> \<not> f_writable (entry s p i) then False
           else True)
   }"

section \<open>Operations on open files\<close>

definition file_open :: "'w vops \<Rightarrow> u8 list \<Rightarrow> nat \<Rightarrow> 'w vfs \<Rightarrow> (int \<times> 'w vfs) option" where
  "file_open ops path fl s =
     (if fl AND O_ACCMODE \<notin> {O_RDONLY, O_WRONLY, O_RDWR} then Some (- E_INVAL, s)
      else do {
        let readable = (fl AND O_ACCMODE \<noteq> O_WRONLY);
        let writable = (fl AND O_ACCMODE \<noteq> O_RDONLY);
        p \<leftarrow> get_fd_array s;
        (ret, i, s1) \<leftarrow> fd_array_alloc NO_FD s;
        if ret \<noteq> 0 then Some (ret, s1)
        else do {
          (ret, node, s2) \<leftarrow> vfs_open ops path fl s1;
          if ret \<noteq> 0 then do {
            s3 \<leftarrow> fd_array_free ops p i s2;
            Some (ret, s3)
          } else do {
            let s3 = upd_entry p i (\<lambda>f. f\<lparr>f_pos := 0\<rparr>) s2;
            (ret, s4) \<leftarrow> (if fl AND O_APPEND \<noteq> 0 then do {
                (ret, st, s4) \<leftarrow> with_inodes2 (v_fstat ops node) s3;
                if ret \<noteq> 0 then do {
                  (_, s5) \<leftarrow> vfs_close ops node s4;
                  s6 \<leftarrow> fd_array_free ops p i s5;
                  Some (ret, s6)
                } else Some (0, upd_entry p i (\<lambda>f. f\<lparr>f_pos := sext64 (int (st_size st))\<rparr>) s4)
              } else Some (0, s3));
            if ret \<noteq> 0 then Some (ret, s4)
            else do {
              s5 \<leftarrow> fd_array_open p i
                (upd_entry p i (\<lambda>f. f\<lparr>f_node := Some node, f_readable := readable, f_writable := writable\<rparr>) s4);
              Some (f_fd (entry s5 p i), s5)
            }
          }
        }
      })"

definition file_close :: "'w vops \<Rightarrow> int \<Rightarrow> 'w vfs \<Rightarrow> (int \<times> 'w vfs) option" where
  "file_close ops fd s = do {
     (ret, p, i) \<leftarrow> fd2file fd s;
     if ret \<noteq> 0 then Some (ret, s)
     else do {
       s1 \<leftarrow> fd_array_close ops p i s;
       Some (0, s1)
     }
   }"

text \<open>The common part of \<^verbatim>\<open>file_read\<close> and \<^verbatim>\<open>file_write\<close>, which call \<open>vop\<close> on an I/O buffer over \<open>buf\<close>. The results are
  the code, the number of bytes copied, the buffer and the state.\<close>

definition file_xfer ::
  "('w vops \<Rightarrow> nat \<Rightarrow> iobuf \<Rightarrow> 'w \<Rightarrow> (int \<times> iobuf \<times> 'w) option) \<Rightarrow> 'w vops \<Rightarrow> nat \<Rightarrow> nat \<Rightarrow> u8 list \<Rightarrow> nat \<Rightarrow> 'w vfs \<Rightarrow>
   (int \<times> nat \<times> u8 list \<times> 'w vfs) option" where
  "file_xfer vop ops p i buf n s = do {
     s1 \<leftarrow> fd_array_acquire p i s;
     let iob = iobuf_init buf n (f_pos (entry s1 p i));
     node \<leftarrow> f_node (entry s1 p i);
     (ret, iob1, s2) \<leftarrow> with_inodes2 (vop ops node iob) s1;
     let copied = iobuf_used iob1;
     let s3 = (if f_status (entry s2 p i) = FD_OPENED
               then upd_entry p i (\<lambda>f. f\<lparr>f_pos := sext64 (f_pos f + int copied)\<rparr>) s2 else s2);
     s4 \<leftarrow> fd_array_release ops p i s3;
     Some (ret, copied, io_mem iob1, s4)
   }"

definition file_read ::
  "'w vops \<Rightarrow> int \<Rightarrow> u8 list \<Rightarrow> nat \<Rightarrow> 'w vfs \<Rightarrow> (int \<times> nat \<times> u8 list \<times> 'w vfs) option" where
  "file_read ops fd buf n s = do {
     (ret, p, i) \<leftarrow> fd2file fd s;
     if ret \<noteq> 0 then Some (ret, 0, buf, s)
     else if \<not> f_readable (entry s p i) then Some (- E_INVAL, 0, buf, s)
     else file_xfer v_read ops p i buf n s
   }"

definition file_write ::
  "'w vops \<Rightarrow> int \<Rightarrow> u8 list \<Rightarrow> nat \<Rightarrow> 'w vfs \<Rightarrow> (int \<times> nat \<times> u8 list \<times> 'w vfs) option" where
  "file_write ops fd buf n s = do {
     (ret, p, i) \<leftarrow> fd2file fd s;
     if ret \<noteq> 0 then Some (ret, 0, buf, s)
     else if \<not> f_writable (entry s p i) then Some (- E_INVAL, 0, buf, s)
     else file_xfer v_write ops p i buf n s
   }"

abbreviation (input) LSEEK_SET :: int where "LSEEK_SET \<equiv> 0"
abbreviation (input) LSEEK_CUR :: int where "LSEEK_CUR \<equiv> 1"
abbreviation (input) LSEEK_END :: int where "LSEEK_END \<equiv> 2"

definition seek_target :: "'w vops \<Rightarrow> nat \<Rightarrow> int \<Rightarrow> int \<Rightarrow> int \<Rightarrow> 'w vfs \<Rightarrow> (int \<times> int \<times> 'w vfs) option" where
  "seek_target ops node cur pos whence s =
     (if whence = LSEEK_SET then Some (0, pos, s)
      else if whence = LSEEK_CUR then do {
        kassert (- (2 ^ 63) \<le> pos + cur \<and> pos + cur < 2 ^ 63);
        Some (0, pos + cur, s)
      } else if whence = LSEEK_END then do {
        (ret, st, s1) \<leftarrow> with_inodes2 (v_fstat ops node) s;
        Some (ret, if ret = 0 then sext64 (pos + int (st_size st)) else pos, s1)
      } else Some (- E_INVAL, pos, s))"

definition file_seek :: "'w vops \<Rightarrow> int \<Rightarrow> int \<Rightarrow> int \<Rightarrow> 'w vfs \<Rightarrow> (int \<times> 'w vfs) option" where
  "file_seek ops fd pos whence s = do {
     (ret, p, i) \<leftarrow> fd2file fd s;
     if ret \<noteq> 0 then Some (ret, s)
     else do {
       s1 \<leftarrow> fd_array_acquire p i s;
       node \<leftarrow> f_node (entry s1 p i);
       (ret, pos1, s2) \<leftarrow> seek_target ops node (f_pos (entry s1 p i)) pos whence s1;
       (ret, s3) \<leftarrow> (if ret = 0 then do {
           (ret, s3) \<leftarrow> with_inodes (v_tryseek ops node pos1) s2;
           Some (ret, if ret = 0 then upd_entry p i (\<lambda>f. f\<lparr>f_pos := pos1\<rparr>) s3 else s3)
         } else Some (ret, s2));
       s4 \<leftarrow> fd_array_release ops p i s3;
       Some (ret, s4)
     }
   }"

definition file_fstat :: "'w vops \<Rightarrow> int \<Rightarrow> stat \<Rightarrow> 'w vfs \<Rightarrow> (int \<times> stat \<times> 'w vfs) option" where
  "file_fstat ops fd st s = do {
     (ret, p, i) \<leftarrow> fd2file fd s;
     if ret \<noteq> 0 then Some (ret, st, s)
     else do {
       s1 \<leftarrow> fd_array_acquire p i s;
       node \<leftarrow> f_node (entry s1 p i);
       (ret, st1, s2) \<leftarrow> with_inodes2 (v_fstat ops node) s1;
       s3 \<leftarrow> fd_array_release ops p i s2;
       Some (ret, st1, s3)
     }
   }"

definition file_fsync :: "'w vops \<Rightarrow> int \<Rightarrow> 'w vfs \<Rightarrow> (int \<times> 'w vfs) option" where
  "file_fsync ops fd s = do {
     (ret, p, i) \<leftarrow> fd2file fd s;
     if ret \<noteq> 0 then Some (ret, s)
     else do {
       s1 \<leftarrow> fd_array_acquire p i s;
       node \<leftarrow> f_node (entry s1 p i);
       (ret, s2) \<leftarrow> with_inodes (v_fsync ops node) s1;
       s3 \<leftarrow> fd_array_release ops p i s2;
       Some (ret, s3)
     }
   }"

record dirent =
  d_offset :: int
  d_name :: "u8 list"

definition file_getdirentry :: "'w vops \<Rightarrow> int \<Rightarrow> dirent \<Rightarrow> 'w vfs \<Rightarrow> (int \<times> dirent \<times> 'w vfs) option" where
  "file_getdirentry ops fd d s = do {
     (ret, p, i) \<leftarrow> fd2file fd s;
     if ret \<noteq> 0 then Some (ret, d, s)
     else do {
       s1 \<leftarrow> fd_array_acquire p i s;
       node \<leftarrow> f_node (entry s1 p i);
       (ret, iob, s2) \<leftarrow> with_inodes2 (v_getdirentry ops node (iobuf_init (d_name d) 256 (d_offset d))) s1;
       let d1 = d\<lparr>d_name := io_mem iob\<rparr>;
       s3 \<leftarrow> fd_array_release ops p i s2;
       Some (ret, if ret = 0 then d1\<lparr>d_offset := sext64 (d_offset d + int (iobuf_used iob))\<rparr> else d1, s3)
     }
   }"

definition file_dup :: "'w vops \<Rightarrow> int \<Rightarrow> int \<Rightarrow> 'w vfs \<Rightarrow> (int \<times> 'w vfs) option" where
  "file_dup ops fd1 fd2 s = do {
     (ret, p, i) \<leftarrow> fd2file fd1 s;
     if ret \<noteq> 0 then Some (ret, s)
     else do {
       (ret, j, s1) \<leftarrow> fd_array_alloc fd2 s;
       if ret \<noteq> 0 then Some (ret, s1)
       else do {
         s2 \<leftarrow> fd_array_dup ops p j p i s1;
         Some (f_fd (entry s2 p j), s2)
       }
     }
   }"

section \<open>Tables of processes\<close>

text \<open>\<open>p\<close> is the new table, \<open>None\<close> when the allocation fails; the entries start with what the memory held.\<close>

definition files_create :: "nat option \<Rightarrow> 'w vfs \<Rightarrow> nat option \<times> 'w vfs" where
  "files_create p s =
     (case p of
        None \<Rightarrow> (None, s)
      | Some q \<Rightarrow>
          (Some q, upd_files q (\<lambda>F. F\<lparr>pwd := None, files_count := 0, fd_array := fd_array_init (fd_array F)\<rparr>) s))"

fun destroy_entries :: "'w vops \<Rightarrow> nat \<Rightarrow> nat list \<Rightarrow> 'w vfs \<Rightarrow> 'w vfs option" where
  "destroy_entries ops p [] s = Some s"
| "destroy_entries ops p (i # is) s = do {
     s1 \<leftarrow> (if f_status (entry s p i) = FD_OPENED then fd_array_close ops p i s else Some s);
     kassert (f_status (entry s1 p i) = FD_NONE);
     destroy_entries ops p is s1
   }"

definition files_destroy :: "'w vops \<Rightarrow> nat option \<Rightarrow> 'w vfs \<Rightarrow> 'w vfs option" where
  "files_destroy ops filesp s = do {
     p \<leftarrow> filesp;
     kassert (files_count (fstructs s p) = 0);
     s1 \<leftarrow> (case pwd (fstructs s p) of Some d \<Rightarrow> on_inodes (v_ref_dec ops d) s | None \<Rightarrow> Some s);
     destroy_entries ops p [0..<FILES_STRUCT_NENTRY] s1
   }"

fun close_entries :: "'w vops \<Rightarrow> nat \<Rightarrow> nat list \<Rightarrow> 'w vfs \<Rightarrow> 'w vfs option" where
  "close_entries ops p [] s = Some s"
| "close_entries ops p (i # is) s = do {
     s1 \<leftarrow> (if f_status (entry s p i) = FD_OPENED then fd_array_close ops p i s else Some s);
     close_entries ops p is s1
   }"

definition files_closeall :: "'w vops \<Rightarrow> nat option \<Rightarrow> 'w vfs \<Rightarrow> 'w vfs option" where
  "files_closeall ops filesp s = do {
     p \<leftarrow> filesp;
     kassert (files_count (fstructs s p) > 0);
     close_entries ops p [2..<FILES_STRUCT_NENTRY] s
   }"

fun dup_entries :: "'w vops \<Rightarrow> nat \<Rightarrow> nat \<Rightarrow> nat list \<Rightarrow> 'w vfs \<Rightarrow> 'w vfs option" where
  "dup_entries ops p q [] s = Some s"
| "dup_entries ops p q (i # is) s = do {
     s1 \<leftarrow> (if f_status (entry s q i) = FD_OPENED
            then fd_array_dup ops p i q i (upd_entry p i (\<lambda>f. f\<lparr>f_status := FD_INIT\<rparr>) s)
            else Some s);
     dup_entries ops p q is s1
   }"

definition dup_files :: "'w vops \<Rightarrow> nat option \<Rightarrow> nat option \<Rightarrow> 'w vfs \<Rightarrow> (int \<times> 'w vfs) option" where
  "dup_files ops to from s = do {
     p \<leftarrow> to;
     q \<leftarrow> from;
     kassert (files_count (fstructs s p) = 0 \<and> files_count (fstructs s q) > 0);
     let d = pwd (fstructs s q);
     let s1 = upd_files p (\<lambda>F. F\<lparr>pwd := d\<rparr>) s;
     s2 \<leftarrow> (case d of Some n \<Rightarrow> on_inodes (v_ref_inc ops n) s1 | None \<Rightarrow> Some s1);
     s3 \<leftarrow> dup_entries ops p q [0..<FILES_STRUCT_NENTRY] s2;
     Some (0, s3)
   }"

end
