(* ===== verification/FileCounts.thy ===== *)
theory FileCounts
  imports FileTable
begin

text \<open>
  What the file tables rely on from the inode layer, as two contracts: closing and opening an inode move its open count by
  one and leave every other open count alone (\<open>counted_opens\<close>), and as long as references remain, taking and dropping one
  changes nothing but the counts (\<open>counted_inodes\<close>). Both are proved of the simple file system. The lemmas of the second
  give the exact effect of copying and of destroying a file table.
\<close>

section \<open>Entries\<close>

lemma entry_upd [simp]: "entry (upd_entry p i f s) q j = (if q = p \<and> j = i then f (entry s p i) else entry s q j)"
  by (simp add: entry_def upd_entry_def upd_files_def)

lemma entry_inodes [simp]: "entry (s\<lparr>inodes := w\<rparr>) p i = entry s p i"
  by (simp add: entry_def)

lemma upd_entry_sel [simp]:
  "inodes (upd_entry p i f s) = inodes s" "cur_files (upd_entry p i f s) = cur_files s"
  "pwd (fstructs (upd_entry p i f s) q) = pwd (fstructs s q)"
  "files_count (fstructs (upd_entry p i f s) q) = files_count (fstructs s q)"
  "bootfs_node (upd_entry p i f s) = bootfs_node s" "vdev_list (upd_entry p i f s) = vdev_list s"
  "q \<noteq> p \<Longrightarrow> fstructs (upd_entry p i f s) q = fstructs s q"
  by (simp_all add: upd_entry_def upd_files_def)

lemma upd_entry_twice [simp]: "upd_entry p i f (upd_entry p i g s) = upd_entry p i (\<lambda>e. f (g e)) s"
  by (simp add: upd_entry_def upd_files_def)

lemma upd_entry_inodes [simp]: "upd_entry p i f (s\<lparr>inodes := w\<rparr>) = (upd_entry p i f s)\<lparr>inodes := w\<rparr>"
  by (simp add: upd_entry_def upd_files_def)

lemma upd_entry_cong: "f (entry s p i) = g (entry s p i) \<Longrightarrow> upd_entry p i f s = upd_entry p i g s"
  by (simp add: upd_entry_def upd_files_def entry_def)

lemma on_inodes_Some: "on_inodes f s = Some s' \<longleftrightarrow> (\<exists>w. f (inodes s) = Some w \<and> s' = s\<lparr>inodes := w\<rparr>)"
  by (auto simp: on_inodes_def)

lemma with_inodes_Some: "with_inodes f s = Some (r, s') \<longleftrightarrow> (\<exists>w. f (inodes s) = Some (r, w) \<and> s' = s\<lparr>inodes := w\<rparr>)"
  by (auto simp: with_inodes_def)

lemma fopen_count_dec_simp: "fopen_count_dec p i s = (f_count (entry s p i) - 1, upd_entry p i (\<lambda>f. f\<lparr>f_count := f_count f - 1\<rparr>) s)"
  by (simp add: fopen_count_dec_def)

text \<open>What a successful \<open>open_node\<close> has called.\<close>

lemma open_node_calls:
  assumes "open_node ops n fl s = Some (0, n', s')"
  shows "\<exists>w1 w2. v_open ops n fl (inodes s) = Some (0, w1) \<and> v_open_inc ops n w1 = Some w2 \<and> n' = n \<and>
    (if fl AND O_TRUNC \<noteq> 0 \<or> fl AND O_CREAT \<noteq> 0
     then \<exists>w3. v_truncate ops n 0 w2 = Some (0, w3) \<and> s' = s\<lparr>inodes := w3\<rparr> else s' = s\<lparr>inodes := w2\<rparr>)"
proof -
  obtain s1 where s1: "with_inodes (v_open ops n fl) s = Some (0, s1)"
    and r1: "on_inodes (v_open_inc ops n) s1 \<bind> (\<lambda>s2. if fl AND O_TRUNC \<noteq> 0 \<or> fl AND O_CREAT \<noteq> 0
      then with_inodes (v_truncate ops n 0) s2 \<bind> (\<lambda>(ret, s3). if ret \<noteq> 0
        then on_inodes (v_open_dec ops n) s3 \<bind> (\<lambda>s4. on_inodes (v_ref_dec ops n) s4 \<bind> (\<lambda>s5. Some (ret, 0, s5)))
        else Some (0, n, s3)) else Some (0, n, s2)) = Some (0, n', s')"
    using assms unfolding open_node_def by (cases "with_inodes (v_open ops n fl) s") (auto simp: bind_Some_conv split: if_splits)
  obtain s2 where s2: "on_inodes (v_open_inc ops n) s1 = Some s2"
    and r2: "(if fl AND O_TRUNC \<noteq> 0 \<or> fl AND O_CREAT \<noteq> 0
      then with_inodes (v_truncate ops n 0) s2 \<bind> (\<lambda>(ret, s3). if ret \<noteq> 0
        then on_inodes (v_open_dec ops n) s3 \<bind> (\<lambda>s4. on_inodes (v_ref_dec ops n) s4 \<bind> (\<lambda>s5. Some (ret, 0, s5)))
        else Some (0, n, s3)) else Some (0, n, s2)) = Some (0, n', s')"
    using r1 by (cases "on_inodes (v_open_inc ops n) s1") simp_all
  obtain w1 where w1: "v_open ops n fl (inodes s) = Some (0, w1)" "s1 = s\<lparr>inodes := w1\<rparr>" using s1 by (auto simp: with_inodes_Some)
  obtain w2 where w2: "v_open_inc ops n w1 = Some w2" "s2 = s\<lparr>inodes := w2\<rparr>" using s2 w1(2) by (auto simp: on_inodes_Some)
  show ?thesis
  proof (cases "fl AND O_TRUNC \<noteq> 0 \<or> fl AND O_CREAT \<noteq> 0")
    case True
    then obtain s3 where s3: "with_inodes (v_truncate ops n 0) s2 = Some (0, s3)" "n' = n" "s' = s3"
      using r2 by (cases "with_inodes (v_truncate ops n 0) s2") (auto simp: bind_Some_conv split: if_splits)
    then obtain w3 where "v_truncate ops n 0 w2 = Some (0, w3)" "s' = s\<lparr>inodes := w3\<rparr>" using w2(2) by (auto simp: with_inodes_Some)
    then show ?thesis using w1 w2 True s3(2) by auto
  next
    case False
    then show ?thesis using r2 w1 w2 by auto
  qed
qed

section \<open>Contracts of the inode layer\<close>

text \<open>The number of entries among \<open>is\<close> that hold the inode \<open>n\<close> open.\<close>

definition holds :: "nat \<Rightarrow> fd_file \<Rightarrow> bool" where
  "holds n f \<longleftrightarrow> (f_status f = FD_OPENED \<or> f_status f = FD_CLOSED) \<and> f_node f = Some n"

definition held :: "nat list \<Rightarrow> (nat \<Rightarrow> fd_file) \<Rightarrow> nat \<Rightarrow> int" where
  "held is a n = (\<Sum>i\<leftarrow>is. of_bool (holds n (a i)))"

lemma held_simps [simp]:
  "held [] a n = 0" "held (i # is) a n = of_bool (holds n (a i)) + held is a n"
  by (simp_all add: held_def)

lemma held_nonneg [simp]: "0 \<le> held is a n"
  by (induction "is") auto

lemma held_cong: "(\<And>i. i \<in> set is \<Longrightarrow> holds n (a i) = holds n (b i)) \<Longrightarrow> held is a n = held is b n"
  by (induction "is") auto

lemma held_none: "(\<And>i. i \<in> set is \<Longrightarrow> \<not> holds n (a i)) \<Longrightarrow> held is a n = 0"
  by (induction "is") auto

lemma held_upd: "distinct is \<Longrightarrow> i \<in> set is \<Longrightarrow>
  held is (a(i := f)) n = held is a n - of_bool (holds n (a i)) + of_bool (holds n f)"
proof (induction "is")
  case (Cons k ks)
  show ?case
  proof (cases "k = i")
    case True
    then have "held ks (a(i := f)) n = held ks a n" using Cons.prems by (intro held_cong) auto
    then show ?thesis using True by (simp add: fun_upd_def)
  qed (use Cons in auto)
qed simp

lemma held_pos: "i \<in> set is \<Longrightarrow> holds n (a i) \<Longrightarrow> 1 \<le> held is a n"
  by (induction "is") (auto simp: add_increasing2)

locale counted_opens =
  fixes ops :: "'w vops" and opens :: "'w \<Rightarrow> nat \<Rightarrow> int"
  assumes inc_opens: "v_open_inc ops n w = Some w' \<Longrightarrow> opens w' = (opens w)(n := opens w n + 1)"
    and dec_opens: "v_open_dec ops n w = Some w' \<Longrightarrow> opens w' = (opens w)(n := opens w n - 1)"
    and ref_inc_opens: "v_ref_inc ops n w = Some w' \<Longrightarrow> opens w' = opens w"
    and ref_dec_opens: "v_ref_dec ops n w = Some w' \<Longrightarrow> opens w' = opens w"
    and open_opens: "v_open ops n fl w = Some (ret, w') \<Longrightarrow> opens w' = opens w"
    and truncate_opens: "v_truncate ops n len w = Some (ret, w') \<Longrightarrow> opens w' = opens w"

abbreviation one_at :: "nat \<Rightarrow> nat \<Rightarrow> int" where "one_at n \<equiv> (\<lambda>k. of_bool (k = n))"

locale counted_inodes = counted_opens +
  fixes refs :: "'w \<Rightarrow> nat \<Rightarrow> int" and bump :: "(nat \<Rightarrow> int) \<Rightarrow> (nat \<Rightarrow> int) \<Rightarrow> 'w \<Rightarrow> 'w"
  assumes bump_zero: "bump (\<lambda>k. 0) (\<lambda>k. 0) w = w"
    and bump_bump: "bump r c (bump r' c' w) = bump (\<lambda>k. r k + r' k) (\<lambda>k. c k + c' k) w"
    and bump_counts: "refs (bump r c w) n = refs w n + r n" "opens (bump r c w) n = opens w n + c n"
    and inc_bump: "v_ref_inc ops n w = Some (bump (one_at n) (\<lambda>k. 0) w)" "v_open_inc ops n w = Some (bump (\<lambda>k. 0) (one_at n) w)"
    and ref_dec_bump: "1 < refs w n \<Longrightarrow> v_ref_dec ops n w = Some (bump (\<lambda>k. - one_at n k) (\<lambda>k. 0) w)"
    and open_dec_bump: "1 < opens w n \<Longrightarrow> v_open_dec ops n w = Some (bump (\<lambda>k. 0) (\<lambda>k. - one_at n k) w)"

section \<open>The contracts hold of the simple file system\<close>

definition sfs_opens :: "'d mnt \<Rightarrow> nat \<Rightarrow> int" where
  "sfs_opens m n = open_count (nodes m n)"

definition sfs_refs :: "'d mnt \<Rightarrow> nat \<Rightarrow> int" where
  "sfs_refs m n = ref_count (nodes m n)"

definition sfs_bump :: "(nat \<Rightarrow> int) \<Rightarrow> (nat \<Rightarrow> int) \<Rightarrow> 'd mnt \<Rightarrow> 'd mnt" where
  "sfs_bump r c m = m\<lparr>nodes := (\<lambda>k. (nodes m k)\<lparr>ref_count := ref_count (nodes m k) + r k,
     open_count := open_count (nodes m k) + c k\<rparr>)\<rparr>"

lemma sfs_opens_set [simp]:
  "sfs_opens (set_node n v m) = (sfs_opens m)(n := open_count v)"
  "sfs_opens (set_sin n i s m) = sfs_opens m"
  "sfs_opens (m\<lparr>fs := s\<rparr>) = sfs_opens m" "sfs_opens (sfs_remove_links n m) = sfs_opens m"
  by (auto simp: sfs_opens_def set_node_def set_sin_def sfs_remove_links_def Let_def fun_eq_iff)

lemma sfs_truncate_opens: "vop_truncate n len m = Some (ret, m') \<Longrightarrow> sfs_opens m' = sfs_opens m"
  by (auto simp: vop_truncate_def bind_Some_conv split: prod.splits)

lemma sfs_fsync_opens: "vop_fsync n m = Some (ret, m') \<Longrightarrow> sfs_opens m' = sfs_opens m"
  by (auto simp: vop_fsync_def bind_Some_conv split: prod.splits)

text \<open>Every result of a computation satisfies \<open>P\<close>.\<close>

definition keeps :: "('m \<Rightarrow> bool) \<Rightarrow> ('r \<times> 'm) option \<Rightarrow> bool" where
  "keeps P x \<longleftrightarrow> (\<forall>r m. x = Some (r, m) \<longrightarrow> P m)"

lemma keepsD: "keeps P x \<Longrightarrow> x = Some (r, m) \<Longrightarrow> P m"
  by (simp add: keeps_def)

lemma keeps_Some: "P m \<Longrightarrow> keeps P (Some (r, m))"
  by (simp add: keeps_def)

lemma keeps_bind: "(\<And>y. x = Some y \<Longrightarrow> keeps P (f y)) \<Longrightarrow> keeps P (Option.bind x f)"
  by (cases x) (simp_all add: keeps_def)

lemma keeps_pair: "(\<And>a b. p = (a, b) \<Longrightarrow> keeps P (f a b)) \<Longrightarrow> keeps P (case p of (a, b) \<Rightarrow> f a b)"
  by (cases p) simp

lemma keeps_if: "(b \<Longrightarrow> keeps P x) \<Longrightarrow> (\<not> b \<Longrightarrow> keeps P y) \<Longrightarrow> keeps P (if b then x else y)"
  by simp

lemmas keeps_intros = keeps_Some keeps_bind keeps_pair keeps_if

lemma sfs_reclaim_opens: "keeps (\<lambda>m'. sfs_opens m' = sfs_opens m) (sfs_reclaim n m)"
  unfolding sfs_reclaim_def Let_def
  by (intro keeps_intros)
    (auto simp: bind_Some_conv split: if_splits dest!: sfs_truncate_opens sfs_fsync_opens)

interpretation sv: counted_opens "sfs_vops e names" sfs_opens
proof unfold_locales
  fix n and m m' :: "'a mnt"
  show "v_open_inc (sfs_vops e names) n m = Some m' \<Longrightarrow> sfs_opens m' = (sfs_opens m)(n := sfs_opens m n + 1)"
    by (auto simp: sfs_vops_def inode_open_inc_def Let_def) (simp add: sfs_opens_def)
  show "v_open_dec (sfs_vops e names) n m = Some m' \<Longrightarrow> sfs_opens m' = (sfs_opens m)(n := sfs_opens m n - 1)"
    by (auto simp: sfs_vops_def inode_open_dec_def Let_def bind_Some_conv split: if_splits dest!: sfs_fsync_opens)
      (simp_all add: sfs_opens_def)
  show "v_ref_inc (sfs_vops e names) n m = Some m' \<Longrightarrow> sfs_opens m' = sfs_opens m"
    by (auto simp: sfs_vops_def inode_ref_inc_def Let_def) (simp add: sfs_opens_def fun_eq_iff)
  show "v_ref_dec (sfs_vops e names) n m = Some m' \<Longrightarrow> sfs_opens m' = sfs_opens m"
    by (auto simp: sfs_vops_def inode_ref_dec_def Let_def bind_Some_conv split: if_splits dest!: keepsD [OF sfs_reclaim_opens])
      (simp_all add: sfs_opens_def fun_eq_iff)
  show "v_open (sfs_vops e names) n fl m = Some (ret, m') \<Longrightarrow> sfs_opens m' = sfs_opens m" for fl ret
    by (auto simp: sfs_vops_def bind_Some_conv)
  show "v_truncate (sfs_vops e names) n len m = Some (ret, m') \<Longrightarrow> sfs_opens m' = sfs_opens m" for len ret
    by (auto simp: sfs_vops_def dest: sfs_truncate_opens)
qed

interpretation sc: counted_inodes "sfs_vops e names" sfs_opens sfs_refs sfs_bump
proof unfold_locales
  fix n and w :: "'a mnt" and r c r' c' :: "nat \<Rightarrow> int"
  show "sfs_bump (\<lambda>k. 0) (\<lambda>k. 0) w = w" by (simp add: sfs_bump_def)
  show "sfs_bump r c (sfs_bump r' c' w) = sfs_bump (\<lambda>k. r k + r' k) (\<lambda>k. c k + c' k) w"
    by (simp add: sfs_bump_def fun_eq_iff algebra_simps)
  show "sfs_refs (sfs_bump r c w) n = sfs_refs w n + r n" "sfs_opens (sfs_bump r c w) n = sfs_opens w n + c n"
    by (simp_all add: sfs_bump_def sfs_refs_def sfs_opens_def)
  show "v_ref_inc (sfs_vops e names) n w = Some (sfs_bump (one_at n) (\<lambda>k. 0) w)"
    "v_open_inc (sfs_vops e names) n w = Some (sfs_bump (\<lambda>k. 0) (one_at n) w)"
    by (simp_all add: sfs_vops_def inode_ref_inc_def inode_open_inc_def set_node_def sfs_bump_def Let_def fun_eq_iff)
  show "1 < sfs_refs w n \<Longrightarrow> v_ref_dec (sfs_vops e names) n w = Some (sfs_bump (\<lambda>k. - one_at n k) (\<lambda>k. 0) w)"
    by (simp add: sfs_vops_def inode_ref_dec_def set_node_def sfs_bump_def sfs_refs_def Let_def fun_eq_iff)
  show "1 < sfs_opens w n \<Longrightarrow> v_open_dec (sfs_vops e names) n w = Some (sfs_bump (\<lambda>k. 0) (\<lambda>k. - one_at n k) w)"
    by (simp add: sfs_vops_def inode_open_dec_def set_node_def sfs_bump_def sfs_opens_def Let_def fun_eq_iff)
qed

section \<open>Copying and destroying a table\<close>

definition copies :: "nat list \<Rightarrow> (nat \<Rightarrow> fd_file) \<Rightarrow> nat \<Rightarrow> int" where
  "copies is a n = (\<Sum>i\<leftarrow>is. of_bool (f_status (a i) = FD_OPENED \<and> f_node (a i) = Some n))"

lemma copies_simps [simp]:
  "copies [] a n = 0"
  "copies (i # is) a n = of_bool (f_status (a i) = FD_OPENED \<and> f_node (a i) = Some n) + copies is a n"
  by (simp_all add: copies_def)

lemma copies_nonneg [simp]: "0 \<le> copies is a n"
  by (induction "is") auto

lemma copies_cong:
  "(\<And>i. i \<in> set is \<Longrightarrow> (f_status (a i) = FD_OPENED) = (f_status (b i) = FD_OPENED) \<and>
     (f_status (a i) = FD_OPENED \<longrightarrow> f_node (a i) = f_node (b i))) \<Longrightarrow> copies is a = copies is b"
  by (rule ext, induction "is") auto

lemma copies_none: "(\<And>i. i \<in> set is \<Longrightarrow> f_status (a i) \<noteq> FD_OPENED) \<Longrightarrow> copies is a n = 0"
  by (induction "is") auto

lemma copies_upd: "i \<notin> set is \<Longrightarrow> copies is (a(i := f)) = copies is a"
  by (rule copies_cong) auto

lemma copies_pos: "i \<in> set is \<Longrightarrow> f_status (a i) = FD_OPENED \<Longrightarrow> f_node (a i) = Some n \<Longrightarrow> 0 < copies is a n"
  by (induction "is") (auto simp: add_increasing2 add_pos_nonneg)

lemma copies_posD: "0 < copies is a n \<Longrightarrow> \<exists>i\<in>set is. f_status (a i) = FD_OPENED \<and> f_node (a i) = Some n"
  by (induction "is") (auto simp: of_bool_def split: if_splits)

definition upd_entries :: "nat \<Rightarrow> nat list \<Rightarrow> (nat \<Rightarrow> fd_file \<Rightarrow> fd_file) \<Rightarrow> 'w vfs \<Rightarrow> 'w vfs" where
  "upd_entries p is g s = upd_files p (\<lambda>F. F\<lparr>fd_array := (\<lambda>i. if i \<in> set is then g i (fd_array F i) else fd_array F i)\<rparr>) s"

lemma upd_entries_simps:
  "upd_entries p [] g s = s"
  "i \<notin> set is \<Longrightarrow> upd_entries p is g (upd_entry p i (g i) s) = upd_entries p (i # is) g s"
  by (auto simp: upd_entries_def upd_entry_def upd_files_def fun_eq_iff)

lemma upd_entries_sel [simp]:
  "entry (upd_entries p is g s) q i = (if q = p \<and> i \<in> set is then g i (entry s p i) else entry s q i)"
  "inodes (upd_entries p is g s) = inodes s" "cur_files (upd_entries p is g s) = cur_files s"
  "pwd (fstructs (upd_entries p is g s) q) = pwd (fstructs s q)"
  "files_count (fstructs (upd_entries p is g s) q) = files_count (fstructs s q)"
  "q \<noteq> p \<Longrightarrow> fstructs (upd_entries p is g s) q = fstructs s q"
  by (simp_all add: upd_entries_def upd_files_def entry_def)

lemma upd_entries_inodes [simp]: "upd_entries p is g (s\<lparr>inodes := w\<rparr>) = (upd_entries p is g s)\<lparr>inodes := w\<rparr>"
  by (simp add: upd_entries_def upd_files_def cong: if_cong)

lemma upd_entries_cong:
  "(\<And>i. i \<in> set is \<Longrightarrow> g i (entry s p i) = h i (entry s p i)) \<Longrightarrow> upd_entries p is g s = upd_entries p is h s"
  by (auto simp: upd_entries_def upd_files_def entry_def fun_eq_iff)

definition dup_entry :: "fd_file \<Rightarrow> fd_file \<Rightarrow> fd_file" where
  "dup_entry from to = (if f_status from = FD_OPENED
     then to\<lparr>f_pos := f_pos from, f_readable := f_readable from, f_writable := f_writable from, f_node := f_node from,
       f_status := FD_OPENED, f_count := f_count to + 1\<rparr>
     else to)"

definition shut_entry :: "fd_file \<Rightarrow> fd_file" where
  "shut_entry f = (if f_status f = FD_OPENED then f\<lparr>f_count := 0, f_status := FD_NONE\<rparr> else f)"

definition entry_free :: "fd_file \<Rightarrow> bool" where
  "entry_free f \<longleftrightarrow> f_status f = FD_NONE \<and> f_count f = 0"

definition entry_idle :: "fd_file \<Rightarrow> bool" where
  "entry_idle f \<longleftrightarrow> f_status f = FD_NONE \<or> f_status f = FD_OPENED \<and> f_count f = 1 \<and> f_node f \<noteq> None"

context counted_inodes
begin

lemma array_dup:
  assumes "p \<noteq> q" "f_status (entry s q i) = FD_OPENED" "f_node (entry s q i) = Some n"
  shows "fd_array_dup ops p i q i (upd_entry p i (\<lambda>f. f\<lparr>f_status := FD_INIT\<rparr>) s) =
    Some ((upd_entry p i (dup_entry (entry s q i)) s)\<lparr>inodes := bump (one_at n) (one_at n) (inodes s)\<rparr>)"
  using assms by (simp add: fd_array_dup_def fd_array_open_def fopen_count_inc_def Let_def on_inodes_def inc_bump bump_bump
      dup_entry_def cong: upd_entry_cong)

lemma dup_entries_exact:
  assumes "p \<noteq> q" "distinct is" "\<And>i. i \<in> set is \<Longrightarrow> f_status (entry s q i) = FD_OPENED \<Longrightarrow> f_node (entry s q i) \<noteq> None"
  shows "dup_entries ops p q is s =
    Some ((upd_entries p is (\<lambda>i. dup_entry (entry s q i)) s)\<lparr>inodes := bump (copies is (entry s q)) (copies is (entry s q)) (inodes s)\<rparr>)"
  using assms(2,3)
proof (induction "is" arbitrary: s)
  case Nil
  then show ?case by (simp add: upd_entries_simps copies_def bump_zero)
next
  case (Cons i "is")
  show ?case
  proof (cases "f_status (entry s q i) = FD_OPENED")
    case True
    then obtain n where n: "f_node (entry s q i) = Some n" using Cons.prems by auto
    let ?s1 = "(upd_entry p i (dup_entry (entry s q i)) s)\<lparr>inodes := bump (one_at n) (one_at n) (inodes s)\<rparr>"
    have e: "entry ?s1 q = entry s q" using assms(1) by (auto simp: fun_eq_iff)
    have "dup_entries ops p q is ?s1 = Some ((upd_entries p is (\<lambda>i. dup_entry (entry ?s1 q i)) ?s1)\<lparr>inodes :=
        bump (copies is (entry ?s1 q)) (copies is (entry ?s1 q)) (inodes ?s1)\<rparr>)"
      using Cons.prems by (intro Cons.IH) (auto simp: e)
    then show ?thesis using True n Cons.prems(1) unfolding e
      by (simp add: array_dup [OF assms(1)] upd_entries_simps(2) [where g = "\<lambda>i. dup_entry (entry s q i)"] bump_bump
          copies_simps(2) [abs_def] eq_commute [of n] add.commute)
  next
    case False
    have "upd_entry p i (dup_entry (entry s q i)) s = s" using False by (simp add: dup_entry_def upd_entry_def upd_files_def)
    then show ?thesis using False Cons upd_entries_simps(2) [of i "is" p "\<lambda>i. dup_entry (entry s q i)" s]
      by (simp add: copies_simps(2) [abs_def])
  qed
qed

lemma array_close:
  assumes "f_status (entry s p i) = FD_OPENED" "f_count (entry s p i) = 1" "f_node (entry s p i) = Some n"
    and "1 < opens (inodes s) n" "1 < refs (inodes s) n"
  shows "fd_array_close ops p i s =
    Some ((upd_entry p i shut_entry s)\<lparr>inodes := bump (\<lambda>k. - one_at n k) (\<lambda>k. - one_at n k) (inodes s)\<rparr>)"
proof -
  have r: "1 < refs (bump (\<lambda>k. 0) (\<lambda>k. - one_at n k) (inodes s)) n" using assms(5) by (simp add: bump_counts)
  have "upd_entry p i (\<lambda>f. f\<lparr>f_count := f_count f - 1, f_status := FD_NONE\<rparr>) s = upd_entry p i shut_entry s"
    using assms by (intro upd_entry_cong) (simp add: shut_entry_def)
  then show ?thesis using assms r
    by (simp add: fd_array_close_def fopen_count_dec_simp fd_array_free_def vfs_close_def on_inodes_def open_dec_bump ref_dec_bump
        bump_bump)
qed

lemma destroy_entries_exact:
  assumes "distinct is" "\<And>i. i \<in> set is \<Longrightarrow> entry_idle (entry s p i)"
    and "\<And>n. 0 < copies is (entry s p) n \<Longrightarrow>
      copies is (entry s p) n < opens (inodes s) n \<and> copies is (entry s p) n < refs (inodes s) n"
  shows "destroy_entries ops p is s = Some ((upd_entries p is (\<lambda>i. shut_entry) s)\<lparr>inodes :=
    bump (\<lambda>n. - copies is (entry s p) n) (\<lambda>n. - copies is (entry s p) n) (inodes s)\<rparr>)"
  using assms
proof (induction "is" arbitrary: s)
  case Nil
  then show ?case by (simp add: upd_entries_simps copies_def bump_zero)
next
  case (Cons i "is")
  have i: "i \<notin> set is" "distinct is" using Cons.prems(1) by auto
  show ?case
  proof (cases "f_status (entry s p i) = FD_OPENED")
    case True
    then obtain n where n: "f_node (entry s p i) = Some n" "f_count (entry s p i) = 1"
      using Cons.prems(2) [of i] by (auto simp: entry_idle_def)
    have c: "copies (i # is) (entry s p) k = one_at n k + copies is (entry s p) k" for k using True n by auto
    have b: "1 + copies is (entry s p) n < opens (inodes s) n" "1 + copies is (entry s p) n < refs (inodes s) n"
      using Cons.prems(3) [of n] copies_nonneg [of "is" "entry s p" n] unfolding c by (simp_all add: add_pos_nonneg)
    then have cl: "fd_array_close ops p i s =
      Some ((upd_entry p i shut_entry s)\<lparr>inodes := bump (\<lambda>k. - one_at n k) (\<lambda>k. - one_at n k) (inodes s)\<rparr>)"
      (is "_ = Some ?s1") using copies_nonneg [of "is" "entry s p" n] by (intro array_close True n) linarith+
    have e: "copies is (entry ?s1 p) = copies is (entry s p)" using i by (intro copies_cong) auto
    have "destroy_entries ops p is ?s1 = Some ((upd_entries p is (\<lambda>i. shut_entry) ?s1)\<lparr>inodes :=
      bump (\<lambda>n. - copies is (entry ?s1 p) n) (\<lambda>n. - copies is (entry ?s1 p) n) (inodes ?s1)\<rparr>)"
    proof (intro Cons.IH i)
      show "entry_idle (entry ?s1 p k)" if "k \<in> set is" for k using Cons.prems(2) [of k] that i by auto
      show "copies is (entry ?s1 p) k < opens (inodes ?s1) k \<and> copies is (entry ?s1 p) k < refs (inodes ?s1) k"
        if "0 < copies is (entry ?s1 p) k" for k
        using Cons.prems(3) [of k] b that unfolding e c by (cases "k = n") (auto simp: bump_counts)
    qed
    moreover have "f_status (entry ?s1 p i) = FD_NONE" using True by (simp add: shut_entry_def)
    ultimately show ?thesis using True i unfolding e
      by (simp add: cl upd_entries_simps(2) [where g = "\<lambda>i. shut_entry"] bump_bump c n algebra_simps eq_commute [of n])
  next
    case False
    then have none: "f_status (entry s p i) = FD_NONE" using Cons.prems(2) [of i] by (auto simp: entry_idle_def)
    have c: "copies (i # is) (entry s p) = copies is (entry s p)" using False by auto
    have sh: "upd_entry p i shut_entry s = s" using False by (simp add: shut_entry_def upd_entry_def upd_files_def entry_def)
    have "destroy_entries ops p is s = Some ((upd_entries p is (\<lambda>i. shut_entry) s)\<lparr>inodes :=
      bump (\<lambda>n. - copies is (entry s p) n) (\<lambda>n. - copies is (entry s p) n) (inodes s)\<rparr>)"
      by (rule Cons.IH [OF i(2)]) (use Cons.prems(2,3) [unfolded c] in auto)
    then show ?thesis using False none i upd_entries_simps(2) [of i "is" p "\<lambda>i. shut_entry" s] sh by (simp add: c)
  qed
qed

end

end
