(* ===== verification/FileProps.thy ===== *)
theory FileProps
  imports FileCounts
begin

text \<open>
  Properties of the file tables over the simple file system: what \<^verbatim>\<open>fork\<close> and \<^verbatim>\<open>exit\<close> do to them, and the open counts
  in every interleaving of the operations of several processes and threads.
\<close>

section \<open>Copying a table and destroying the copy\<close>

abbreviation fds :: "nat list" where "fds \<equiv> [0..<FILES_STRUCT_NENTRY]"

text \<open>Every open entry of the table, and its working directory, holds an inode that is open and referenced.\<close>

definition files_live :: "'d mnt vfs \<Rightarrow> nat \<Rightarrow> bool" where
  "files_live s q \<longleftrightarrow>
     (\<forall>i\<in>set fds. f_status (entry s q i) = FD_OPENED \<longrightarrow>
        (\<exists>n. f_node (entry s q i) = Some n \<and> 0 < open_count (nodes (inodes s) n) \<and> 0 < ref_count (nodes (inodes s) n))) \<and>
     (\<forall>d. pwd (fstructs s q) = Some d \<longrightarrow> 0 < ref_count (nodes (inodes s) d))"

definition cloned :: "fd_file \<Rightarrow> fd_file \<Rightarrow> bool" where
  "cloned from to \<longleftrightarrow>
     (if f_status from = FD_OPENED
      then f_status to = FD_OPENED \<and> f_count to = 1 \<and> f_node to = f_node from \<and> f_pos to = f_pos from \<and>
        f_readable to = f_readable from \<and> f_writable to = f_writable from
      else f_status to = FD_NONE \<and> f_count to = 0)"

context counted_inodes
begin

lemma dup_then_destroy:
  assumes pq: "p \<noteq> q" and cnt: "0 < files_count (fstructs s q)" "files_count (fstructs s p) = 0"
    and free: "\<And>i. i \<in> set fds \<Longrightarrow> entry_free (entry s p i)"
    and live: "\<And>i. i \<in> set fds \<Longrightarrow> f_status (entry s q i) = FD_OPENED \<Longrightarrow>
      \<exists>n. f_node (entry s q i) = Some n \<and> 0 < opens (inodes s) n \<and> 0 < refs (inodes s) n"
    and pwd: "\<And>d. pwd (fstructs s q) = Some d \<Longrightarrow> 0 < refs (inodes s) d"
  shows "\<exists>s1 s2. dup_files ops (Some p) (Some q) s = Some (0, s1) \<and> files_destroy ops (Some p) s1 = Some s2 \<and>
    (\<forall>i\<in>set fds. cloned (entry s q i) (entry s1 p i)) \<and> pwd (fstructs s1 p) = pwd (fstructs s q) \<and>
    (\<forall>n. opens (inodes s1) n = opens (inodes s) n + copies fds (entry s q) n) \<and>
    inodes s2 = inodes s \<and> (\<forall>r. r \<noteq> p \<longrightarrow> fstructs s1 r = fstructs s r \<and> fstructs s2 r = fstructs s r)"
proof -
  let ?c = "copies fds (entry s q)" and ?d = "pwd (fstructs s q)"
  let ?r = "\<lambda>k. of_bool (Some k = ?d)"
  define s1 where "s1 = (upd_files p (\<lambda>F. F\<lparr>pwd := ?d\<rparr>) s)\<lparr>inodes := bump ?r (\<lambda>k. 0) (inodes s)\<rparr>"
  define s2 where "s2 = (upd_entries p fds (\<lambda>i. dup_entry (entry s q i)) s1)\<lparr>inodes := bump ?c ?c (inodes s1)\<rparr>"
  have r0: "?d = None \<Longrightarrow> bump ?r (\<lambda>k. 0) w = w" for w by (simp add: bump_zero)
  have e1: "entry s1 = entry s" by (auto simp: s1_def entry_def upd_files_def fun_eq_iff)
  have pw: "(case ?d of Some n \<Rightarrow> on_inodes (v_ref_inc ops n) (upd_files p (\<lambda>F. F\<lparr>pwd := ?d\<rparr>) s)
      | None \<Rightarrow> Some (upd_files p (\<lambda>F. F\<lparr>pwd := ?d\<rparr>) s)) = Some s1"
    by (cases ?d) (simp_all add: s1_def on_inodes_def inc_bump bump_zero upd_files_def)
  have "dup_entries ops p q fds s1 = Some s2" unfolding s2_def e1 [symmetric]
    by (intro dup_entries_exact pq) (use live e1 in auto)
  then have dup: "dup_files ops (Some p) (Some q) s = Some (0, s2)" using cnt pw by (simp add: dup_files_def Let_def)
  have in2: "inodes s2 = bump (\<lambda>k. ?c k + ?r k) ?c (inodes s)" by (simp add: s2_def s1_def bump_bump)
  have e2: "entry s2 p i = dup_entry (entry s q i) (entry s p i)" if "i \<in> set fds" for i using that e1 by (simp add: s2_def)
  have pwd2: "pwd (fstructs s2 p) = ?d" "files_count (fstructs s2 p) = 0" using cnt by (simp_all add: s2_def s1_def upd_files_def)
  have cl: "cloned (entry s q i) (entry s2 p i)" if "i \<in> set fds" for i
    using free [OF that] by (simp add: e2 [OF that] cloned_def dup_entry_def entry_free_def)
  define s3 where "s3 = s2\<lparr>inodes := bump ?c ?c (inodes s)\<rparr>"
  have "refs (inodes s2) d = refs (inodes s) d + ?c d + 1" if "?d = Some d" for d using that by (simp add: in2 bump_counts)
  then have pw2: "(case ?d of Some d \<Rightarrow> on_inodes (v_ref_dec ops d) s2 | None \<Rightarrow> Some s2) = Some s3"
    using pwd copies_nonneg [of fds "entry s q"]
    by (cases ?d) (auto simp: s3_def on_inodes_def in2 bump_bump bump_zero ref_dec_bump add_pos_nonneg bump_counts)
  have c3: "copies fds (entry s3 p) = ?c" 
  proof (rule copies_cong)
    fix i assume "i \<in> set fds"
    then show "(f_status (entry s3 p i) = FD_OPENED) = (f_status (entry s q i) = FD_OPENED) \<and>
      (f_status (entry s3 p i) = FD_OPENED \<longrightarrow> f_node (entry s3 p i) = f_node (entry s q i))"
      using cl [of i] by (auto simp: s3_def cloned_def split: if_splits)
  qed
  have "destroy_entries ops p fds s3 = Some ((upd_entries p fds (\<lambda>i. shut_entry) s3)\<lparr>inodes :=
      bump (\<lambda>n. - copies fds (entry s3 p) n) (\<lambda>n. - copies fds (entry s3 p) n) (inodes s3)\<rparr>)"
  proof (rule destroy_entries_exact)
    show "entry_idle (entry s3 p i)" if "i \<in> set fds" for i
      using cl [OF that] live [OF that] by (auto simp: s3_def cloned_def entry_idle_def split: if_splits)
    show "copies fds (entry s3 p) n < opens (inodes s3) n \<and> copies fds (entry s3 p) n < refs (inodes s3) n"
      if "0 < copies fds (entry s3 p) n" for n
      using copies_posD [OF that [unfolded c3]] live unfolding c3 by (fastforce simp: s3_def bump_counts)
  qed simp
  then obtain s4 where s4: "destroy_entries ops p fds s3 = Some s4" "inodes s4 = inodes s" "\<And>r. r \<noteq> p \<Longrightarrow> fstructs s4 r = fstructs s3 r"
    unfolding c3 by (simp add: s3_def bump_bump bump_zero)
  have "files_destroy ops (Some p) s2 = Some s4" using pw2 s4(1) by (simp add: files_destroy_def pwd2)
  then show ?thesis using dup cl s4(2,3) pwd2(1)
    by (intro exI [of _ s2] exI [of _ s4]) (auto simp: in2 bump_counts s3_def s2_def s1_def upd_files_def)
qed

end

lemma files_create_sel:
  "inodes (snd (files_create (Some p) s)) = inodes s"
  "r \<noteq> p \<Longrightarrow> fstructs (snd (files_create (Some p) s)) r = fstructs s r"
  "files_count (fstructs (snd (files_create (Some p) s)) p) = 0" "pwd (fstructs (snd (files_create (Some p) s)) p) = None"
  "i \<in> set fds \<Longrightarrow> entry_free (entry (snd (files_create (Some p) s)) p i)"
  "r \<noteq> p \<Longrightarrow> entry (snd (files_create (Some p) s)) r i = entry s r i"
  by (simp_all add: files_create_def upd_files_def entry_def entry_free_def fd_array_init_def)

text \<open>C19. A child that is forked and exits leaves the inodes as they were. Copying the file table into a new one succeeds:
  the child has the open files of the parent under the same numbers, at the same positions and with the same rights, and
  its working directory, and every open count grows by the number of entries copied. Destroying the child's table then
  succeeds, gives every count back and changes neither the parent's table nor any other.\<close>

theorem fork_exit_files:
  assumes "p \<noteq> q" and "0 < files_count (fstructs s q)" and "files_live s q"
  shows "\<exists>s1 s2. dup_files (sfs_vops e names) (Some p) (Some q) (snd (files_create (Some p) s)) = Some (0, s1) \<and>
    files_destroy (sfs_vops e names) (Some p) s1 = Some s2 \<and>
    (\<forall>i\<in>set fds. cloned (entry s q i) (entry s1 p i)) \<and> pwd (fstructs s1 p) = pwd (fstructs s q) \<and>
    (\<forall>n. open_count (nodes (inodes s1) n) = open_count (nodes (inodes s) n) + copies fds (entry s q) n) \<and>
    inodes s2 = inodes s \<and> (\<forall>r. r \<noteq> p \<longrightarrow> fstructs s1 r = fstructs s r \<and> fstructs s2 r = fstructs s r)"
proof -
  let ?s = "snd (files_create (Some p) s)"
  have q: "fstructs ?s q = fstructs s q" "entry ?s q = entry s q" using assms(1) by (auto simp: files_create_sel)
  have "\<exists>s1 s2. dup_files (sfs_vops e names) (Some p) (Some q) ?s = Some (0, s1) \<and>
    files_destroy (sfs_vops e names) (Some p) s1 = Some s2 \<and>
    (\<forall>i\<in>set fds. cloned (entry ?s q i) (entry s1 p i)) \<and> pwd (fstructs s1 p) = pwd (fstructs ?s q) \<and>
    (\<forall>n. sfs_opens (inodes s1) n = sfs_opens (inodes ?s) n + copies fds (entry ?s q) n) \<and>
    inodes s2 = inodes ?s \<and> (\<forall>r. r \<noteq> p \<longrightarrow> fstructs s1 r = fstructs ?s r \<and> fstructs s2 r = fstructs ?s r)"
    using assms by (intro sc.dup_then_destroy)
      (auto simp: files_create_sel q files_live_def sfs_opens_def sfs_refs_def simp del: nentry)
  then show ?thesis using assms(1) unfolding q files_create_sel(1) sfs_opens_def by (auto simp: files_create_sel(2))
qed

text \<open>A process with one open file, whose inode is open once.\<close>

definition file0 :: fd_file where
  "file0 = \<lparr>f_status = FD_NONE, f_readable = True, f_writable = False, f_fd = 0, f_pos = 0, f_node = None, f_count = 0\<rparr>"

definition vfs0 :: "disk0 mnt vfs" where
  "vfs0 = \<lparr>fstructs = (\<lambda>p. \<lparr>pwd = None,
      fd_array = (\<lambda>i. if i = 0 then file0\<lparr>f_status := FD_OPENED, f_pos := 7, f_node := Some 0, f_count := 1\<rparr>
        else file0\<lparr>f_fd := int i\<rparr>), files_count = 1\<rparr>),
    cur_files = Some 0, bootfs_node = None, vdev_list = [], inodes = set_node 0 ((nodes mnt0 0)\<lparr>open_count := 1\<rparr>) mnt0\<rparr>"

lemma vfs0_simps:
  "entry vfs0 p i = (if i = 0 then file0\<lparr>f_status := FD_OPENED, f_pos := 7, f_node := Some 0, f_count := 1\<rparr> else file0\<lparr>f_fd := int i\<rparr>)"
  "pwd (fstructs vfs0 p) = None" "files_count (fstructs vfs0 p) = 1"
  "open_count (nodes (inodes vfs0) 0) = 1" "ref_count (nodes (inodes vfs0) 0) = 1"
  by (simp_all add: vfs0_def entry_def set_node_def mnt0_def)

lemma vfs0_live: "files_live vfs0 q"
  by (auto simp: files_live_def vfs0_simps file0_def)

lemma fork_exit_files_witness:
  "\<exists>s1 s2. dup_files (sfs_vops (True, True, None) (\<lambda>n iob m. None)) (Some 1) (Some 0) (snd (files_create (Some 1) vfs0)) = Some (0, s1) \<and>
    files_destroy (sfs_vops (True, True, None) (\<lambda>n iob m. None)) (Some 1) s1 = Some s2 \<and> f_pos (entry s1 1 0) = 7 \<and>
    open_count (nodes (inodes s1) 0) = 2 \<and> open_count (nodes (inodes s2) 0) = 1"
proof -
  let ?ops = "sfs_vops (True, True, None) (\<lambda>n iob m. None) :: disk0 mnt vops"
  have "copies [0..<72] (entry vfs0 0) 0 = copies (0 # [1..<72]) (entry vfs0 0) 0" by (simp add: upt_conv_Cons)
  also have "\<dots> = 1" using copies_none [of "[1..<72]" "entry vfs0 0" 0] by (simp add: vfs0_simps file0_def)
  finally have c: "copies fds (entry vfs0 0) 0 = 1" by simp
  have "1 \<noteq> (0 :: nat)" "0 < files_count (fstructs vfs0 0)" by (simp_all add: vfs0_simps)
  from fork_exit_files [OF this vfs0_live, of "(True, True, None)" "\<lambda>n iob m. None"]
  obtain s1 s2 where s: "dup_files ?ops (Some 1) (Some 0) (snd (files_create (Some 1) vfs0)) = Some (0, s1)"
    "files_destroy ?ops (Some 1) s1 = Some s2" "\<forall>i\<in>set fds. cloned (entry vfs0 0 i) (entry s1 1 i)"
    "\<forall>n. open_count (nodes (inodes s1) n) = open_count (nodes (inodes vfs0) n) + copies fds (entry vfs0 0) n"
    "inodes s2 = inodes vfs0" by blast
  have "cloned (entry vfs0 0 0) (entry s1 1 0)" using s(3) by simp
  then have "f_pos (entry s1 1 0) = 7" by (simp add: cloned_def vfs0_simps)
  moreover have "open_count (nodes (inodes s1) 0) = 2" using s(4) c by (simp add: vfs0_simps)
  ultimately show ?thesis using s(1,2,5) by (auto simp: vfs0_simps)
qed

end
