(* ===== verification/FileRuns.thy ===== *)
theory FileRuns
  imports FileProps
begin

text \<open>
  Runs of the file layer: processes and threads allocate, open, use, duplicate and close table entries, fork and exit, in
  any order. An operation on an open file is three steps, \<^verbatim>\<open>fd_array_acquire\<close>, what the file system does, and
  \<^verbatim>\<open>fd_array_release\<close>, between which other threads that share the table run. The invariant ties the count of an
  entry to the operations in progress on it, and the open count of an inode to the entries that hold it.
\<close>

section \<open>Steps\<close>

type_synonym 'w fd_run = "'w vfs \<times> nat set \<times> (nat \<Rightarrow> nat \<Rightarrow> nat)"

text \<open>The state, the tables in use and the number of operations in progress on each entry. Rule \<open>other\<close> stands for the
  operations of the file system, which leave the open counts alone, \<open>share\<close> for the process table, which counts the
  processes that use a table.\<close>

inductive fd_step :: "'w vops \<Rightarrow> ('w \<Rightarrow> nat \<Rightarrow> int) \<Rightarrow> 'w fd_run \<Rightarrow> 'w fd_run \<Rightarrow> bool" for ops opens where
  switch: "p \<in> T \<Longrightarrow> fd_step ops opens (s, T, P) (s\<lparr>cur_files := Some p\<rparr>, T, P)"
| other: "opens w = opens (inodes s) \<Longrightarrow> fd_step ops opens (s, T, P) (s\<lparr>inodes := w\<rparr>, T, P)"
| share: "fd_step ops opens (s, T, P) (upd_files p (\<lambda>F. F\<lparr>files_count := c\<rparr>) s, T, P)"
| create: "p \<notin> T \<Longrightarrow> files_create (Some p) s = (Some p, s') \<Longrightarrow>
    fd_step ops opens (s, T, P) (s', insert p T, P(p := (\<lambda>_. 0)))"
| alloc: "cur_files s = Some p \<Longrightarrow> p \<in> T \<Longrightarrow> fd_array_alloc fd s = Some (0, i, s') \<Longrightarrow> fd_step ops opens (s, T, P) (s', T, P)"
| cancel: "p \<in> T \<Longrightarrow> i \<in> set fds \<Longrightarrow> f_status (entry s p i) = FD_INIT \<Longrightarrow> fd_array_free ops p i s = Some s' \<Longrightarrow>
    fd_step ops opens (s, T, P) (s', T, P)"
| opened: "p \<in> T \<Longrightarrow> i \<in> set fds \<Longrightarrow> f_status (entry s p i) = FD_INIT \<Longrightarrow> open_node ops n fl s = Some (0, n', s1) \<Longrightarrow>
    fd_array_open p i (upd_entry p i (\<lambda>f. f\<lparr>f_pos := pos, f_node := Some n', f_readable := r, f_writable := w\<rparr>) s1) = Some s' \<Longrightarrow>
    fd_step ops opens (s, T, P) (s', T, P)"
| acquire: "p \<in> T \<Longrightarrow> i \<in> set fds \<Longrightarrow> fd_array_acquire p i s = Some s' \<Longrightarrow>
    fd_step ops opens (s, T, P) (s', T, P(p := (P p)(i := P p i + 1)))"
| moved: "p \<in> T \<Longrightarrow> i \<in> set fds \<Longrightarrow> 0 < P p i \<Longrightarrow> fd_step ops opens (s, T, P) (upd_entry p i (\<lambda>f. f\<lparr>f_pos := pos\<rparr>) s, T, P)"
| release: "p \<in> T \<Longrightarrow> i \<in> set fds \<Longrightarrow> 0 < P p i \<Longrightarrow> fd_array_release ops p i s = Some s' \<Longrightarrow>
    fd_step ops opens (s, T, P) (s', T, P(p := (P p)(i := P p i - 1)))"
| close: "p \<in> T \<Longrightarrow> i \<in> set fds \<Longrightarrow> fd_array_close ops p i s = Some s' \<Longrightarrow> fd_step ops opens (s, T, P) (s', T, P)"
| dup: "p \<in> T \<Longrightarrow> i \<in> set fds \<Longrightarrow> j \<in> set fds \<Longrightarrow> fd_array_dup ops p j p i s = Some s' \<Longrightarrow> fd_step ops opens (s, T, P) (s', T, P)"
| fork: "q \<in> T \<Longrightarrow> p \<notin> T \<Longrightarrow> dup_files ops (Some p) (Some q) (snd (files_create (Some p) s)) = Some (ret, s') \<Longrightarrow>
    fd_step ops opens (s, T, P) (s', insert p T, P(p := (\<lambda>_. 0)))"
| exit: "p \<in> T \<Longrightarrow> (\<forall>i\<in>set fds. P p i = 0) \<Longrightarrow> files_destroy ops (Some p) s = Some s' \<Longrightarrow>
    fd_step ops opens (s, T, P) (s', T - {p}, P)"

inductive fd_reach :: "'w vops \<Rightarrow> ('w \<Rightarrow> nat \<Rightarrow> int) \<Rightarrow> 'w fd_run \<Rightarrow> 'w fd_run \<Rightarrow> bool" for ops opens r0 where
  start: "fd_reach ops opens r0 r0"
| step: "fd_reach ops opens r0 r \<Longrightarrow> fd_step ops opens r r' \<Longrightarrow> fd_reach ops opens r0 r'"

section \<open>Invariant\<close>

definition entry_ok :: "fd_file \<Rightarrow> nat \<Rightarrow> bool" where
  "entry_ok f m \<longleftrightarrow>
     (case f_status f of
        FD_NONE \<Rightarrow> f_count f = 0 \<and> m = 0
      | FD_INIT \<Rightarrow> f_count f = 0 \<and> m = 0
      | FD_OPENED \<Rightarrow> f_count f = 1 + int m \<and> f_node f \<noteq> None
      | FD_CLOSED \<Rightarrow> f_count f = int m \<and> 0 < m \<and> f_node f \<noteq> None)"

definition total :: "nat set \<Rightarrow> 'w vfs \<Rightarrow> nat \<Rightarrow> int" where
  "total T s n = (\<Sum>p\<in>T. held fds (entry s p) n)"

definition fd_inv :: "('w \<Rightarrow> nat \<Rightarrow> int) \<Rightarrow> (nat \<Rightarrow> int) \<Rightarrow> 'w fd_run \<Rightarrow> bool" where
  "fd_inv opens base r \<longleftrightarrow> (case r of (s, T, P) \<Rightarrow>
     finite T \<and> (\<forall>p\<in>T. \<forall>i\<in>set fds. entry_ok (entry s p i) (P p i)) \<and>
     (\<forall>n. opens (inodes s) n = base n + total T s n))"

lemma total_cong: "(\<And>p i. p \<in> T \<Longrightarrow> i \<in> set fds \<Longrightarrow> entry s' p i = entry s p i) \<Longrightarrow> total T s' n = total T s n"
  unfolding total_def by (intro sum.cong refl held_cong) (simp del: nentry)

lemma total_upd:
  fixes s s' :: "'w vfs"
  assumes "finite T" "p \<in> T" "i \<in> set fds"
    and e: "\<And>q j. q \<in> T \<Longrightarrow> j \<in> set fds \<Longrightarrow> entry s' q j = (if q = p \<and> j = i then f' else entry s q j)"
  shows "total T s' n = total T s n - of_bool (holds n (entry s p i)) + of_bool (holds n f')"
proof -
  have t: "total T t n = held fds (entry t p) n + (\<Sum>q\<in>T - {p}. held fds (entry t q) n)" for t :: "'w vfs"
    unfolding total_def using assms(1,2) by (rule sum.remove)
  have "held fds (entry s' p) n = held fds ((entry s p)(i := f')) n"
    using e [OF assms(2)] by (intro held_cong) (simp del: nentry)
  also have "\<dots> = held fds (entry s p) n - of_bool (holds n (entry s p i)) + of_bool (holds n f')"
    using assms(3) by (intro held_upd) simp_all
  finally have "held fds (entry s' p) n = held fds (entry s p) n - of_bool (holds n (entry s p i)) + of_bool (holds n f')" .
  moreover have "(\<Sum>q\<in>T - {p}. held fds (entry s' q) n) = (\<Sum>q\<in>T - {p}. held fds (entry s q) n)"
    using e by (intro sum.cong refl held_cong) (simp del: nentry)
  ultimately show ?thesis by (simp add: t)
qed

lemma fd_inv_upd:
  assumes inv: "fd_inv opens base (s, T, P)" and pi: "p \<in> T" "i \<in> set fds"
    and e: "\<And>q j. q \<in> T \<Longrightarrow> j \<in> set fds \<Longrightarrow> entry s' q j = (if q = p \<and> j = i then f' else entry s q j)"
    and ok: "entry_ok f' m'"
    and o: "\<And>n. opens (inodes s') n = opens (inodes s) n - of_bool (holds n (entry s p i)) + of_bool (holds n f')"
  shows "fd_inv opens base (s', T, P(p := (P p)(i := m')))"
proof -
  have "finite T" using inv by (simp add: fd_inv_def)
  from total_upd [OF this pi e]
  have "total T s' n = total T s n - of_bool (holds n (entry s p i)) + of_bool (holds n f')" for n by blast
  then show ?thesis using inv ok o by (auto simp: fd_inv_def e simp del: nentry)
qed

lemma fd_inv_upd_same:
  assumes "fd_inv opens base (s, T, P)" "p \<in> T" "i \<in> set fds"
    and "\<And>q j. q \<in> T \<Longrightarrow> j \<in> set fds \<Longrightarrow> entry s' q j = (if q = p \<and> j = i then f' else entry s q j)"
    and "entry_ok f' (P p i)"
    and "\<And>n. opens (inodes s') n = opens (inodes s) n - of_bool (holds n (entry s p i)) + of_bool (holds n f')"
  shows "fd_inv opens base (s', T, P)"
  using fd_inv_upd [OF assms] by simp

lemma fd_inv_same:
  assumes "fd_inv opens base (s, T, P)" "\<And>q j. q \<in> T \<Longrightarrow> j \<in> set fds \<Longrightarrow> entry s' q j = entry s q j"
    and "opens (inodes s') = opens (inodes s)"
  shows "fd_inv opens base (s', T, P)"
  using assms(1,3) total_cong [of T s' s] assms(2) by (simp add: fd_inv_def del: nentry)

lemma fd_inv_entry: "fd_inv opens base (s, T, P) \<Longrightarrow> p \<in> T \<Longrightarrow> i \<in> set fds \<Longrightarrow> entry_ok (entry s p i) (P p i)"
  by (simp add: fd_inv_def del: nentry)

lemma fd_inv_held:
  assumes "fd_inv opens base (s, T, P)" "p \<in> T" "i \<in> set fds" "holds n (entry s p i)"
  shows "base n < opens (inodes s) n"
proof -
  have "held fds (entry s p) n \<le> total T s n"
    unfolding total_def by (rule member_le_sum) (use assms(1,2) in \<open>auto simp: fd_inv_def\<close>)
  then show ?thesis using held_pos [where a = "entry s p", OF assms(3,4)] assms(1) by (simp add: fd_inv_def)
qed

section \<open>What the operations do to entries and open counts\<close>

definition entry_upd :: "nat \<Rightarrow> nat \<Rightarrow> fd_file \<Rightarrow> 'w vfs \<Rightarrow> 'w vfs \<Rightarrow> bool" where
  "entry_upd p i f s s' \<longleftrightarrow> (\<forall>q j. entry s' q j = (if q = p \<and> j = i then f else entry s q j))"

lemma holds_simps:
  "holds n f \<longleftrightarrow> (f_status f = FD_OPENED \<or> f_status f = FD_CLOSED) \<and> f_node f = Some n"
  by (simp add: holds_def)

context counted_opens
begin

lemma vfs_close_eff:
  "vfs_close ops n s = Some (r, s') \<Longrightarrow> entry s' = entry s \<and> opens (inodes s') = (opens (inodes s))(n := opens (inodes s) n - 1)"
  by (auto simp: vfs_close_def bind_Some_conv on_inodes_Some fun_eq_iff dest!: dec_opens ref_dec_opens)

lemma array_free_eff:
  assumes "fd_array_free ops p i s = Some s'"
  shows "entry_upd p i ((entry s p i)\<lparr>f_status := FD_NONE\<rparr>) s s' \<and> f_count (entry s p i) = 0 \<and>
    (\<forall>n. opens (inodes s') n = opens (inodes s) n - of_bool (holds n (entry s p i)))"
  using assms by (auto simp: fd_array_free_def bind_Some_conv entry_upd_def holds_def split: if_splits dest!: vfs_close_eff)

lemma array_close_eff:
  assumes "fd_array_close ops p i s = Some s'" and ok: "entry_ok (entry s p i) m"
  shows "\<exists>f. entry_upd p i f s s' \<and> entry_ok f m \<and> (f_status f = FD_NONE \<or> f_status f = FD_CLOSED) \<and>
    (\<forall>n. opens (inodes s') n = opens (inodes s) n - of_bool (holds n (entry s p i)) + of_bool (holds n f))"
proof -
  let ?e = "(entry s p i)\<lparr>f_status := FD_CLOSED, f_count := f_count (entry s p i) - 1\<rparr>"
  let ?s1 = "upd_entry p i (\<lambda>e. e\<lparr>f_status := FD_CLOSED, f_count := f_count e - 1\<rparr>) s"
  have o: "f_status (entry s p i) = FD_OPENED" "f_count (entry s p i) = 1 + int m" "f_node (entry s p i) \<noteq> None"
    and r: "(if f_count (entry s p i) = 1 then fd_array_free ops p i ?s1 else Some ?s1) = Some s'"
    using assms by (auto simp: fd_array_close_def fopen_count_dec_simp entry_ok_def split: if_splits)
  show ?thesis
  proof (cases "m = 0")
    case True
    then have "fd_array_free ops p i ?s1 = Some s'" using r o by simp
    from array_free_eff [OF this] show ?thesis using o True
      by (intro exI [of _ "?e\<lparr>f_status := FD_NONE\<rparr>"]) (auto simp: entry_upd_def entry_ok_def holds_def)
  next
    case False
    then show ?thesis using r o by (intro exI [of _ ?e]) (auto simp: entry_upd_def entry_ok_def holds_def)
  qed
qed

lemma array_release_eff:
  assumes "fd_array_release ops p i s = Some s'" and ok: "entry_ok (entry s p i) (Suc m)"
  shows "\<exists>f. entry_upd p i f s s' \<and> entry_ok f m \<and>
    (\<forall>n. opens (inodes s') n = opens (inodes s) n - of_bool (holds n (entry s p i)) + of_bool (holds n f))"
proof -
  let ?e = "(entry s p i)\<lparr>f_count := f_count (entry s p i) - 1\<rparr>"
  let ?s1 = "upd_entry p i (\<lambda>e. e\<lparr>f_count := f_count e - 1\<rparr>) s"
  have r: "(if f_count (entry s p i) = 1 then fd_array_free ops p i ?s1 else Some ?s1) = Some s'"
    using assms by (auto simp: fd_array_release_def fopen_count_dec_simp entry_ok_def split: if_splits)
  show ?thesis
  proof (cases "f_count (entry s p i) = 1")
    case True
    then have c: "f_status (entry s p i) = FD_CLOSED" "m = 0" using ok by (cases "f_status (entry s p i)"; simp add: entry_ok_def)+
    from True r have "fd_array_free ops p i ?s1 = Some s'" by simp
    from array_free_eff [OF this] show ?thesis using True c ok
      by (intro exI [of _ "?e\<lparr>f_status := FD_NONE\<rparr>"]) (auto simp: entry_upd_def entry_ok_def holds_def)
  next
    case False
    then have "s' = ?s1" using r by simp
    moreover have "entry_ok ?e m" using ok False by (cases "f_status (entry s p i)"; simp add: entry_ok_def)
    ultimately show ?thesis by (intro exI [of _ ?e]) (auto simp: entry_upd_def holds_def)
  qed
qed

lemma array_dup_eff:
  assumes "fd_array_dup ops p i q j s = Some s'" and "entry_ok (entry s p i) 0"
  shows "\<exists>f. entry_upd p i f s s' \<and> entry_ok f 0 \<and> f_status f = FD_OPENED \<and> f_status (entry s p i) = FD_INIT \<and>
    f_status (entry s q j) = FD_OPENED \<and>
    (\<forall>n. opens (inodes s') n = opens (inodes s) n - of_bool (holds n (entry s p i)) + of_bool (holds n f))"
  using assms
  by (auto simp: fd_array_dup_def fd_array_open_def fopen_count_inc_def Let_def bind_Some_conv on_inodes_Some entry_upd_def
      entry_ok_def holds_def fun_upd_def dest!: inc_opens ref_inc_opens split: if_splits)

lemma open_node_eff:
  assumes "open_node ops n fl s = Some (0, n', s')"
  shows "n' = n \<and> entry s' = entry s \<and> opens (inodes s') = (opens (inodes s))(n := opens (inodes s) n + 1)"
  using open_node_calls [OF assms] by (auto simp: fun_eq_iff split: if_splits dest!: inc_opens open_opens truncate_opens)

lemma dup_entries_eff:
  assumes "dup_entries ops p q is s = Some s'" and "p \<noteq> q" "distinct is" "\<And>i. i \<in> set is \<Longrightarrow> entry_free (entry s p i)"
  shows "(\<forall>r j. r \<noteq> p \<or> j \<notin> set is \<longrightarrow> entry s' r j = entry s r j) \<and> (\<forall>i\<in>set is. entry_ok (entry s' p i) 0) \<and>
    (\<forall>n. opens (inodes s') n = opens (inodes s) n + held is (entry s' p) n)"
  using assms
proof (induction "is" arbitrary: s)
  case (Cons i "is")
  let ?s0 = "upd_entry p i (\<lambda>f. f\<lparr>f_status := FD_INIT\<rparr>) s"
  obtain s1 where s1: "(if f_status (entry s q i) = FD_OPENED then fd_array_dup ops p i q i ?s0 else Some s) = Some s1"
    and rest: "dup_entries ops p q is s1 = Some s'"
    using Cons.prems(1) by (auto simp: bind_Some_conv simp del: upd_entry_sel)
  have fr: "entry_free (entry s p i)" and i: "i \<notin> set is" "distinct is" using Cons.prems(3,4) by auto
  have e1: "\<exists>f. entry_upd p i f s s1 \<and> entry_ok f 0 \<and>
    (\<forall>n. opens (inodes s1) n = opens (inodes s) n + of_bool (holds n f))"
  proof (cases "f_status (entry s q i) = FD_OPENED")
    case True
    then have d: "fd_array_dup ops p i q i ?s0 = Some s1" using s1 by simp
    have ok: "entry_ok (entry ?s0 p i) 0" "\<And>n. \<not> holds n (entry ?s0 p i)"
      using fr by (simp_all add: entry_ok_def entry_free_def holds_def)
    obtain f where f: "entry_upd p i f ?s0 s1" "entry_ok f 0"
      "\<forall>n. opens (inodes s1) n = opens (inodes ?s0) n - of_bool (holds n (entry ?s0 p i)) + of_bool (holds n f)"
      using array_dup_eff [OF d ok(1)] by blast
    have "entry_upd p i f s s1" using f(1) by (auto simp: entry_upd_def)
    moreover have "opens (inodes s1) n = opens (inodes s) n + of_bool (holds n f)" for n
      using f(3) ok(2) by (simp only: upd_entry_sel) simp
    ultimately show ?thesis using f(2) by blast
  next
    case False
    then have "s1 = s" using s1 by simp
    then show ?thesis using fr by (intro exI [of _ "entry s p i"]) (auto simp: entry_upd_def entry_ok_def entry_free_def holds_def)
  qed
  then obtain f where f: "\<And>r j. entry s1 r j = (if r = p \<and> j = i then f else entry s r j)" "entry_ok f 0"
    "\<And>n. opens (inodes s1) n = opens (inodes s) n + of_bool (holds n f)" by (auto simp: entry_upd_def)
  have IH: "(\<forall>r j. r \<noteq> p \<or> j \<notin> set is \<longrightarrow> entry s' r j = entry s1 r j) \<and> (\<forall>i\<in>set is. entry_ok (entry s' p i) 0) \<and>
    (\<forall>n. opens (inodes s') n = opens (inodes s1) n + held is (entry s' p) n)"
    by (rule Cons.IH [OF rest assms(2) i(2)]) (use Cons.prems(4) i f(1) in auto)
  then have "entry s' p i = f" using i f(1) by simp
  then show ?case using IH f by auto
qed simp

lemma destroy_entries_eff:
  assumes "destroy_entries ops p is s = Some s'" and "distinct is" "\<And>i. i \<in> set is \<Longrightarrow> entry_ok (entry s p i) 0"
  shows "(\<forall>r j. r \<noteq> p \<longrightarrow> entry s' r j = entry s r j) \<and>
    (\<forall>n. opens (inodes s') n = opens (inodes s) n - held is (entry s p) n)"
  using assms
proof (induction "is" arbitrary: s)
  case (Cons i "is")
  obtain s1 where s1: "(if f_status (entry s p i) = FD_OPENED then fd_array_close ops p i s else Some s) = Some s1"
    and none: "f_status (entry s1 p i) = FD_NONE" and rest: "destroy_entries ops p is s1 = Some s'"
    using Cons.prems(1) by (auto simp: bind_Some_conv)
  have i: "i \<notin> set is" "distinct is" using Cons.prems(2) by auto
  have e1: "(\<forall>r j. \<not> (r = p \<and> j = i) \<longrightarrow> entry s1 r j = entry s r j) \<and>
    (\<forall>n. opens (inodes s1) n = opens (inodes s) n - of_bool (holds n (entry s p i)))"
  proof (cases "f_status (entry s p i) = FD_OPENED")
    case True
    then have d: "fd_array_close ops p i s = Some s1" using s1 by simp
    from array_close_eff [OF d Cons.prems(3) [of i]] obtain f where f: "entry_upd p i f s s1"
      "\<forall>n. opens (inodes s1) n = opens (inodes s) n - of_bool (holds n (entry s p i)) + of_bool (holds n f)" by auto
    then have "f_status f = FD_NONE" using none by (simp add: entry_upd_def)
    then show ?thesis using f by (auto simp: entry_upd_def holds_def)
  next
    case False
    then show ?thesis using s1 none by (auto simp: holds_def)
  qed
  then have e2: "entry s1 p k = entry s p k" if "k \<in> set is" for k using that i by (cases "k = i") auto
  have IH: "(\<forall>r j. r \<noteq> p \<longrightarrow> entry s' r j = entry s1 r j) \<and>
    (\<forall>n. opens (inodes s') n = opens (inodes s1) n - held is (entry s1 p) n)"
    by (rule Cons.IH [OF rest i(2)]) (simp add: e2 Cons.prems(3))
  moreover have "held is (entry s1 p) n = held is (entry s p) n" for n by (rule held_cong) (simp add: e2)
  ultimately show ?case using e1 by auto
qed simp

lemma fork_eff:
  assumes "dup_files ops (Some p) (Some q) (snd (files_create (Some p) s)) = Some (ret, s')" and "p \<noteq> q"
  shows "(\<forall>r i. r \<noteq> p \<longrightarrow> entry s' r i = entry s r i) \<and> (\<forall>i\<in>set fds. entry_ok (entry s' p i) 0) \<and>
    (\<forall>n. opens (inodes s') n = opens (inodes s) n + held fds (entry s' p) n)"
proof -
  let ?s0 = "snd (files_create (Some p) s)"
  let ?s1 = "upd_files p (\<lambda>F. F\<lparr>pwd := pwd (fstructs ?s0 q)\<rparr>) ?s0"
  obtain s2 where s2: "(case pwd (fstructs ?s0 q) of Some n \<Rightarrow> on_inodes (v_ref_inc ops n) ?s1 | None \<Rightarrow> Some ?s1) = Some s2"
    and d: "dup_entries ops p q fds s2 = Some s'"
    using assms(1) by (auto simp: dup_files_def Let_def bind_Some_conv simp del: nentry)
  have e: "entry ?s1 r i = entry ?s0 r i" for r i by (simp add: entry_def upd_files_def)
  have s2e: "entry s2 r i = entry ?s0 r i \<and> opens (inodes s2) = opens (inodes s)" for r i
    using s2 by (cases "pwd (fstructs ?s0 q)")
      (auto simp: on_inodes_Some e upd_files_def files_create_sel(1) entry_def dest!: ref_inc_opens)
  have "(\<forall>r j. r \<noteq> p \<or> j \<notin> set fds \<longrightarrow> entry s' r j = entry s2 r j) \<and> (\<forall>i\<in>set fds. entry_ok (entry s' p i) 0) \<and>
    (\<forall>n. opens (inodes s') n = opens (inodes s2) n + held fds (entry s' p) n)"
    by (rule dup_entries_eff [OF d assms(2)]) (simp_all add: s2e files_create_sel(5) del: nentry)
  then show ?thesis by (simp add: s2e files_create_sel(6) del: nentry)
qed

lemma exit_eff:
  assumes "files_destroy ops (Some p) s = Some s'" and "\<And>i. i \<in> set fds \<Longrightarrow> entry_ok (entry s p i) 0"
  shows "(\<forall>r i. r \<noteq> p \<longrightarrow> entry s' r i = entry s r i) \<and>
    (\<forall>n. opens (inodes s') n = opens (inodes s) n - held fds (entry s p) n)"
proof -
  obtain s1 where s1: "(case pwd (fstructs s p) of Some d \<Rightarrow> on_inodes (v_ref_dec ops d) s | None \<Rightarrow> Some s) = Some s1"
    and d: "destroy_entries ops p fds s1 = Some s'"
    using assms(1) by (auto simp: files_destroy_def bind_Some_conv simp del: nentry)
  have s1e: "entry s1 = entry s \<and> opens (inodes s1) = opens (inodes s)"
    using s1 by (cases "pwd (fstructs s p)") (auto simp: on_inodes_Some fun_eq_iff dest!: ref_dec_opens)
  show ?thesis using destroy_entries_eff [OF d] assms(2) by (simp add: s1e del: nentry)
qed

section \<open>Every step keeps the invariant\<close>

lemma total_insert:
  "finite T \<Longrightarrow> p \<notin> T \<Longrightarrow> (\<And>q i. q \<in> T \<Longrightarrow> i \<in> set fds \<Longrightarrow> entry s' q i = entry s q i) \<Longrightarrow>
    total (insert p T) s' n = total T s n + held fds (entry s' p) n"
  using total_cong [of T s' s n] by (simp add: total_def del: nentry)

lemma fd_inv_insert:
  assumes inv: "fd_inv opens base (s, T, P)" and p: "p \<notin> T"
    and e: "\<And>q i. q \<in> T \<Longrightarrow> entry s' q i = entry s q i" "\<And>i. i \<in> set fds \<Longrightarrow> entry_ok (entry s' p i) 0"
    and o: "\<And>n. opens (inodes s') n = opens (inodes s) n + held fds (entry s' p) n"
  shows "fd_inv opens base (s', insert p T, P(p := (\<lambda>_. 0)))"
  using inv p e o total_insert [of T p s' s] by (auto simp: fd_inv_def simp del: nentry)

lemma fd_inv_remove:
  assumes inv: "fd_inv opens base (s, T, P)" and p: "p \<in> T"
    and e: "\<And>q i. q \<noteq> p \<Longrightarrow> entry s' q i = entry s q i"
    and o: "\<And>n. opens (inodes s') n = opens (inodes s) n - held fds (entry s p) n"
  shows "fd_inv opens base (s', T - {p}, P)"
proof -
  have "total T s n = held fds (entry s p) n + total (T - {p}) s n" for n
    unfolding total_def using inv p by (intro sum.remove) (simp_all add: fd_inv_def)
  moreover have "total (T - {p}) s' n = total (T - {p}) s n" for n by (rule total_cong) (simp add: e)
  ultimately show ?thesis using inv o e by (simp add: fd_inv_def del: nentry)
qed

lemma alloc_eff:
  assumes "fd_array_alloc fd s = Some (0, i, s')"
  shows "\<exists>p. cur_files s = Some p \<and> i \<in> set fds \<and> f_status (entry s p i) = FD_NONE \<and> f_count (entry s p i) = 0 \<and>
    s' = upd_entry p i (\<lambda>f. f\<lparr>f_status := FD_INIT, f_node := None\<rparr>) s"
  using assms
  by (auto simp: fd_array_alloc_def get_fd_array_def bind_Some_conv fd_found_def testfd_def find_Some_iff
      split: if_splits option.splits)

lemma step_inv:
  assumes "fd_step ops opens r r'" and "fd_inv opens base r"
  shows "fd_inv opens base r'"
  using assms
proof cases
  case (switch p T s P)
  then show ?thesis using assms(2) by (auto intro: fd_inv_same simp: entry_def)
next
  case (other w s T P)
  then show ?thesis using assms(2) by (auto intro: fd_inv_same)
next
  case (share s T P p c)
  then show ?thesis using assms(2) by (auto intro: fd_inv_same simp: entry_def upd_files_def)
next
  case (create p T s s' P)
  then have s': "s' = snd (files_create (Some p) s)" by simp
  have free: "entry_free (entry s' p i)" if "i \<in> set fds" for i unfolding s' by (rule files_create_sel(5) [OF that])
  have e: "entry s' q i = entry s q i" if "q \<in> T" for q i
    unfolding s' by (rule files_create_sel(6)) (use that create(3) in auto)
  have "entry_ok (entry s' p i) 0" if "i \<in> set fds" for i using free [OF that] by (simp add: entry_ok_def entry_free_def)
  moreover have "held fds (entry s' p) n = 0" for n
    using free by (intro held_none) (simp add: holds_def entry_free_def del: nentry)
  ultimately show ?thesis unfolding create
    by (intro fd_inv_insert [OF assms(2) [unfolded create]] create e) (simp_all add: s' files_create_sel(1))
next
  case (alloc s p T fd i s' P)
  from alloc_eff [OF alloc(5)] alloc(3) have a: "i \<in> set fds" "f_status (entry s p i) = FD_NONE" "f_count (entry s p i) = 0"
    "s' = upd_entry p i (\<lambda>f. f\<lparr>f_status := FD_INIT, f_node := None\<rparr>) s" by auto
  have "entry_ok (entry s p i) (P p i)" by (rule fd_inv_entry [OF assms(2) [unfolded alloc]]) (use alloc a in auto)
  then have "entry_ok (entry s' p i) (P p i)" using a by (simp add: entry_ok_def)
  then show ?thesis unfolding alloc
    by (intro fd_inv_upd_same [OF assms(2) [unfolded alloc] alloc(4) a(1), of s' "entry s' p i"]) (auto simp: a(2,4) holds_def)
next
  case (cancel p T i s s' P)
  note inv = assms(2) [unfolded cancel]
  have ok: "entry_ok (entry s p i) (P p i)" by (rule fd_inv_entry [OF inv]) (use cancel in auto)
  from array_free_eff [OF cancel(6)] show ?thesis unfolding cancel
    by (intro fd_inv_upd_same [OF inv cancel(3,4), of s' "(entry s p i)\<lparr>f_status := FD_NONE\<rparr>"])
      (use ok cancel(5) in \<open>auto simp: entry_upd_def entry_ok_def holds_def\<close>)
next
  case (opened p T i s n fl n' s1 pos rd wr s' P)
  note inv = assms(2) [unfolded opened]
  have ok: "entry_ok (entry s p i) (P p i)" by (rule fd_inv_entry [OF inv]) (use opened in auto)
  note o = open_node_eff [OF opened(6)]
  show ?thesis unfolding opened
    by (intro fd_inv_upd_same [OF inv opened(3,4), of s' "entry s' p i"])
      (use ok o opened(5,7) in \<open>auto simp: fd_array_open_def fopen_count_inc_def entry_ok_def holds_def\<close>)
next
  case (acquire p T i s s' P)
  note inv = assms(2) [unfolded acquire]
  have ok: "entry_ok (entry s p i) (P p i)" by (rule fd_inv_entry [OF inv]) (use acquire in auto)
  show ?thesis unfolding acquire
    by (intro fd_inv_upd [OF inv acquire(3,4), of s' "entry s' p i"])
      (use ok acquire(5) in \<open>auto simp: fd_array_acquire_def fopen_count_inc_def entry_ok_def holds_def\<close>)
next
  case (moved p T i P s pos)
  note inv = assms(2) [unfolded moved]
  have ok: "entry_ok (entry s p i) (P p i)" by (rule fd_inv_entry [OF inv]) (use moved in auto)
  show ?thesis unfolding moved
    by (intro fd_inv_upd_same [OF inv moved(3,4), of _ "(entry s p i)\<lparr>f_pos := pos\<rparr>"])
      (use ok in \<open>auto simp: entry_ok_def holds_def split: fd_status.splits\<close>)
next
  case (release p T i P s s')
  note inv = assms(2) [unfolded release]
  have "entry_ok (entry s p i) (Suc (P p i - 1))" using fd_inv_entry [OF inv release(3,4)] release(5) by simp
  from array_release_eff [OF release(6) this] obtain f where "entry_upd p i f s s'" "entry_ok f (P p i - 1)"
    "\<forall>n. opens (inodes s') n = opens (inodes s) n - of_bool (holds n (entry s p i)) + of_bool (holds n f)" by blast
  then show ?thesis unfolding release by (intro fd_inv_upd [OF inv release(3,4)]) (auto simp: entry_upd_def)
next
  case (close p T i s s' P)
  note inv = assms(2) [unfolded close]
  from array_close_eff [OF close(5) fd_inv_entry [OF inv close(3,4)]] obtain f where "entry_upd p i f s s'" "entry_ok f (P p i)"
    "\<forall>n. opens (inodes s') n = opens (inodes s) n - of_bool (holds n (entry s p i)) + of_bool (holds n f)" by blast
  then show ?thesis unfolding close by (intro fd_inv_upd_same [OF inv close(3,4)]) (auto simp: entry_upd_def)
next
  case (dup p T i j s s' P)
  note inv = assms(2) [unfolded dup]
  have "f_status (entry s p j) = FD_INIT" using dup(6) by (simp add: fd_array_dup_def)
  then have ok: "entry_ok (entry s p j) 0" "P p j = 0" using fd_inv_entry [OF inv dup(3,5)] by (auto simp: entry_ok_def)
  from array_dup_eff [OF dup(6) ok(1)] obtain f where "entry_upd p j f s s'" "entry_ok f 0"
    "\<forall>n. opens (inodes s') n = opens (inodes s) n - of_bool (holds n (entry s p j)) + of_bool (holds n f)" by blast
  then show ?thesis unfolding dup by (intro fd_inv_upd_same [OF inv dup(3,5)]) (auto simp: entry_upd_def ok(2))
next
  case (fork q T p s ret s' P)
  have "p \<noteq> q" using fork by auto
  from fork_eff [OF fork(5) this] show ?thesis unfolding fork
    by (intro fd_inv_insert [OF assms(2) [unfolded fork]] fork) (use fork(4) in auto)
next
  case (exit p T P s s')
  note inv = assms(2) [unfolded exit]
  have "entry_ok (entry s p i) 0" if "i \<in> set fds" for i using fd_inv_entry [OF inv exit(3) that] exit(4) that by simp
  from exit_eff [OF exit(5) this] show ?thesis unfolding exit by (intro fd_inv_remove [OF inv exit(3)]) auto
qed

lemma reach_inv: "fd_reach ops opens r0 r \<Longrightarrow> fd_inv opens base r0 \<Longrightarrow> fd_inv opens base r"
  by (induction rule: fd_reach.induct) (auto intro: step_inv)

end

section \<open>Runs over the simple file system\<close>

lemma fd_inv_start: "fd_inv opens (opens (inodes s)) (s, {}, P)"
  by (simp add: fd_inv_def total_def)

lemma close_in_use:
  assumes "entry_ok (entry s p i) m" "0 < m" "f_status (entry s p i) = FD_OPENED"
  shows "\<exists>s'. fd_array_close ops p i s = Some s' \<and> inodes s' = inodes s"
  using assms by (simp add: fd_array_close_def fopen_count_dec_simp entry_ok_def)

text \<open>C8. However processes and threads allocate, open, use, duplicate and close table entries, fork and exit, the open count
  of an inode is the number of table entries that hold it open, beside what it was at the start: each opening is closed
  exactly once. The count of an entry is one for the table, while it is open, and one for each operation in progress. An
  operation in progress therefore finds its inode open even when another thread has closed the entry meanwhile, and
  closing an entry that is in use succeeds and leaves the inodes alone.\<close>

theorem fd_runs_exact:
  assumes "fd_reach (sfs_vops e names) sfs_opens (s0, {}, P0) (s, T, P)"
  shows "(\<forall>n. open_count (nodes (inodes s) n) = open_count (nodes (inodes s0) n) + total T s n) \<and>
    (\<forall>p\<in>T. \<forall>i\<in>set fds. entry_ok (entry s p i) (P p i) \<and>
      (0 < P p i \<longrightarrow> (\<exists>n. holds n (entry s p i) \<and> open_count (nodes (inodes s0) n) < open_count (nodes (inodes s) n))) \<and>
      (0 < P p i \<and> f_status (entry s p i) = FD_OPENED \<longrightarrow>
        (\<exists>s'. fd_array_close (sfs_vops e names) p i s = Some s' \<and> inodes s' = inodes s)))"
proof -
  have inv: "fd_inv sfs_opens (sfs_opens (inodes s0)) (s, T, P)"
    by (rule sv.reach_inv [OF assms fd_inv_start])
  have "\<exists>n. holds n (entry s p i) \<and> sfs_opens (inodes s0) n < sfs_opens (inodes s) n"
    if p: "p \<in> T" "i \<in> set fds" "0 < P p i" for p i
  proof -
    have "\<exists>n. holds n (entry s p i)" using fd_inv_entry [OF inv p(1,2)] p(3)
      by (auto simp: entry_ok_def holds_def split: fd_status.splits)
    then show ?thesis using fd_inv_held [OF inv p(1,2)] by blast
  qed
  moreover have "\<exists>s'. fd_array_close (sfs_vops e names) p i s = Some s' \<and> inodes s' = inodes s"
    if "p \<in> T" "i \<in> set fds" "0 < P p i" "f_status (entry s p i) = FD_OPENED" for p i
    by (rule close_in_use [OF fd_inv_entry [OF inv that(1,2)] that(3,4)])
  moreover have "sfs_opens (inodes s) n = sfs_opens (inodes s0) n + total T s n" for n using inv by (simp add: fd_inv_def)
  ultimately show ?thesis using fd_inv_entry [OF inv] unfolding sfs_opens_def by blast
qed

text \<open>A run in which an entry is opened, used, and closed while the operation is in progress.\<close>

definition run0 :: "disk0 mnt vfs" where
  "run0 = vfs0\<lparr>inodes := mnt0\<rparr>"

lemma run0_created:
  fixes ops :: "disk0 mnt vops"
  obtains s P where "fd_reach ops opens (run0, {}, P0) (s, {0}, P)" "inodes s = mnt0" "cur_files s = Some 0"
    "files_count (fstructs s 0) = 1" "P 0 0 = 0" "\<And>i. i \<in> set fds \<Longrightarrow> entry_free (entry s 0 i)"
proof -
  let ?s1 = "snd (files_create (Some 0) run0)"
  let ?s2 = "upd_files 0 (\<lambda>F. F\<lparr>files_count := 1\<rparr>) ?s1"
  let ?P = "P0(0 := (\<lambda>_. 0 :: nat))"
  have "files_create (Some 0) run0 = (Some 0, ?s1)" by (simp add: files_create_def)
  then have "fd_reach ops opens (run0, {}, P0) (?s1, {0}, ?P)" by (blast intro: fd_reach.intros fd_step.intros)
  then have "fd_reach ops opens (run0, {}, P0) (?s2, {0}, ?P)" by (blast intro: fd_reach.intros fd_step.intros)
  moreover have "entry ?s2 0 i = entry ?s1 0 i" for i by (simp add: entry_def upd_files_def)
  moreover have "cur_files ?s2 = Some 0" by (simp add: upd_files_def files_create_def run0_def vfs0_def)
  moreover have "inodes ?s2 = mnt0" by (simp add: upd_files_def files_create_def run0_def)
  ultimately show ?thesis using that files_create_sel(5) [of _ 0 run0] by (simp add: upd_files_def del: nentry)
qed

lemma mnt0_open:
  "v_open (sfs_vops e names) 0 1 mnt0 = Some (0, mnt0)" "v_open_inc (sfs_vops e names) 0 mnt0 = Some (sfs_bump (\<lambda>k. 0) (one_at 0) mnt0)"
  by (simp_all add: sfs_vops_def is_dir_def is_file_def mnt0_def sin0_simps inode_check_def sfs_openfile_def
      inode_open_inc_def set_node_def sfs_bump_def Let_def fun_eq_iff)

lemma fd_runs_exact_witness:
  "\<exists>s T P. fd_reach (sfs_vops (True, True, None) (\<lambda>n iob m. None)) sfs_opens (run0, {}, \<lambda>p i. 0) (s, T, P) \<and>
    f_status (entry s 0 0) = FD_CLOSED \<and> P 0 0 = 1 \<and> 0 < open_count (nodes (inodes s) 0)"
proof -
  let ?ops = "sfs_vops (True, True, None) (\<lambda>n iob m. None) :: disk0 mnt vops"
  obtain s P where s: "fd_reach ?ops sfs_opens (run0, {}, \<lambda>p i. 0) (s, {0}, P)" "inodes s = mnt0" "cur_files s = Some 0"
    "files_count (fstructs s 0) = 1" "P 0 0 = 0" "\<And>i. i \<in> set fds \<Longrightarrow> entry_free (entry s 0 i)"
    by (rule run0_created [of ?ops sfs_opens "\<lambda>p i. 0"]) blast
  have fr: "f_status (entry s 0 0) = FD_NONE" "f_count (entry s 0 0) = 0" using s(6) [of 0] by (simp_all add: entry_free_def)
  define s1 where "s1 = upd_entry 0 0 (\<lambda>f. f\<lparr>f_status := FD_INIT, f_node := None\<rparr>) s"
  have "fd_array_alloc 0 s = Some (0, 0, s1)"
    using s(3,4) fr by (simp add: fd_array_alloc_def get_fd_array_def testfd_def fd_found_def s1_def)
  then have r1: "fd_reach ?ops sfs_opens (run0, {}, \<lambda>p i. 0) (s1, {0}, P)"
    using fd_reach.step [OF s(1) fd_step.alloc [OF s(3)]] by blast
  define s2 where "s2 = s1\<lparr>inodes := sfs_bump (\<lambda>k. 0) (one_at 0) mnt0\<rparr>"
  have on: "open_node ?ops 0 1 s1 = Some (0, 0, s2)"
    using mnt0_open [of "(True, True, None)" "\<lambda>n iob m. None"] s(2)
    by (simp add: open_node_def with_inodes_def on_inodes_def s1_def s2_def)
  define s3 where "s3 = upd_entry 0 0 (\<lambda>f. f\<lparr>f_pos := 0, f_node := Some 0, f_readable := True, f_writable := True\<rparr>) s2"
  define s4 where "s4 = upd_entry 0 0 (\<lambda>f. f\<lparr>f_status := FD_OPENED, f_count := 1\<rparr>) s3"
  have "fd_array_open 0 0 s3 = Some s4"
    using fr unfolding s4_def s3_def s2_def s1_def by (simp add: fd_array_open_def fopen_count_inc_def cong: upd_entry_cong)
  then have r4: "fd_reach ?ops sfs_opens (run0, {}, \<lambda>p i. 0) (s4, {0}, P)"
    unfolding s3_def by (intro fd_reach.step [OF r1] fd_step.opened [OF _ _ _ on]) (simp_all add: s1_def)
  define s5 where "s5 = upd_entry 0 0 (\<lambda>f. f\<lparr>f_count := f_count f + 1\<rparr>) s4"
  have "fd_array_acquire 0 0 s4 = Some s5" by (simp add: fd_array_acquire_def fopen_count_inc_def s5_def s4_def)
  then have r5: "fd_reach ?ops sfs_opens (run0, {}, \<lambda>p i. 0) (s5, {0}, P(0 := (P 0)(0 := P 0 0 + 1)))"
    by (intro fd_reach.step [OF r4] fd_step.acquire) simp_all
  have st: "f_status (entry s5 0 0) = FD_OPENED" "f_count (entry s5 0 0) = 2" by (simp_all add: s5_def s4_def)
  obtain s6 where s6: "fd_array_close ?ops 0 0 s5 = Some s6"
    using fd_runs_exact [OF r5] st s(5) by auto
  have r6: "fd_reach ?ops sfs_opens (run0, {}, \<lambda>p i. 0) (s6, {0}, P(0 := (P 0)(0 := P 0 0 + 1)))"
    by (rule fd_reach.step [OF r5 fd_step.close [OF _ _ s6]]) simp_all
  have "f_status (entry s6 0 0) = FD_CLOSED" using s6 st by (auto simp: fd_array_close_def fopen_count_dec_simp)
  moreover have "f_node (entry s6 0 0) = Some 0"
    using s6 st by (auto simp: fd_array_close_def fopen_count_dec_simp s5_def s4_def s3_def)
  ultimately show ?thesis using fd_runs_exact [OF r6] r6 s(5)
    by (intro exI [of _ s6] exI [of _ "{0}"] exI [of _ "P(0 := (P 0)(0 := P 0 0 + 1))"])
      (auto simp: holds_def run0_def mnt0_def)
qed

end
