(* ===== verification/FileTypes.thy ===== *)
theory FileTypes
  imports FileRuns
begin

text \<open>
  Types of open files: the operations of an inode depend on its type, and a call of an operation that the type does not have
  stops the kernel. What opening a file checks, and what it leaves to chance.
\<close>

section \<open>No operation changes the type of an inode\<close>

abbreviation same_type :: "sfs_inode \<Rightarrow> sfs_inode \<times> 'd sfs_fs \<Rightarrow> bool" where
  "same_type sin \<equiv> (\<lambda>(sin', s'). di_type (din sin') = di_type (din sin))"

lemma keeps_panic [simp]: "keeps P None"
  by (simp add: keeps_def)

lemma bmap_get_type: "keeps (\<lambda>(i, sin', s'). same_type sin (sin', s')) (sfs_bmap_get_nolock s sin index create)"
  unfolding sfs_bmap_get_nolock_def bmap_get_out_def panic_def Let_def by (intro keeps_intros keeps_panic) auto

lemma bmap_load_type: "keeps (\<lambda>(i, sin', s'). same_type sin (sin', s')) (sfs_bmap_load_nolock s sin index)"
  unfolding sfs_bmap_load_nolock_def Let_def by (intro keeps_intros) (auto dest!: keepsD [OF bmap_get_type])

lemma bmap_truncate_type: "keeps (same_type sin) (sfs_bmap_truncate_nolock s sin)"
  unfolding sfs_bmap_truncate_nolock_def sfs_bmap_free_nolock_def Let_def
  by (intro keeps_intros) (auto simp: bind_Some_conv split: if_splits)

lemma trunc_grow_type: "keeps (same_type sin) (trunc_grow s sin nblks k)"
proof (induction k arbitrary: s sin nblks)
  case (Suc k)
  show ?case unfolding trunc_grow.simps
    by (intro keeps_intros) (auto simp: keeps_def dest!: keepsD [OF bmap_load_type] keepsD [OF Suc])
qed (simp add: keeps_def)

lemma trunc_shrink_type: "keeps (same_type sin) (trunc_shrink s sin k)"
proof (induction k arbitrary: s sin)
  case (Suc k)
  show ?case unfolding trunc_shrink.simps
    by (intro keeps_intros) (auto simp: keeps_def dest!: keepsD [OF bmap_truncate_type] keepsD [OF Suc])
qed (simp add: keeps_def)

lemma truncfile_type: "keeps (same_type sin) (sfs_truncfile s sin n)"
  unfolding sfs_truncfile_def Let_def
  by (intro keeps_intros) (auto split: if_splits dest!: keepsD [OF trunc_grow_type] keepsD [OF trunc_shrink_type])

definition node_type :: "'d mnt \<Rightarrow> nat \<Rightarrow> nat" where
  "node_type m n = di_type (din (vsin (nodes m n)))"

lemma is_dir_type: "is_dir n m \<longleftrightarrow> node_type m n = SFS_TYPE_DIR" "is_file n m \<longleftrightarrow> node_type m n = SFS_TYPE_FILE"
  by (simp_all add: is_dir_def is_file_def node_type_def)

lemma truncate_type: "vop_truncate n len m = Some (ret, m') \<Longrightarrow> node_type m' = node_type m"
  by (auto simp: vop_truncate_def bind_Some_conv node_type_def set_sin_def set_node_def fun_eq_iff split: prod.splits
      dest!: keepsD [OF truncfile_type])

section \<open>Opening\<close>

lemma open_inc_type: "v_open_inc (sfs_vops e names) n m = Some m' \<Longrightarrow> node_type m' = node_type m"
  by (auto simp: sfs_vops_def inode_open_inc_def Let_def node_type_def set_node_def fun_eq_iff)

lemma open_node_typed:
  assumes "open_node (sfs_vops e names) n fl s = Some (0, n', s')"
  shows "n' = n \<and> entry s' = entry s \<and> cur_files s' = cur_files s \<and> node_type (inodes s') = node_type (inodes s) \<and>
    (is_dir n (inodes s) \<or> is_file n (inodes s)) \<and>
    (is_dir n (inodes s) \<longrightarrow> fl AND O_ACCMODE = O_RDONLY \<and> fl AND O_APPEND = 0 \<and> fl AND O_TRUNC = 0 \<and> fl AND O_CREAT = 0)"
proof -
  let ?ops = "sfs_vops e names"
  obtain w1 w2 where w: "v_open ?ops n fl (inodes s) = Some (0, w1)" "v_open_inc ?ops n w1 = Some w2" "n' = n"
    and t: "if fl AND O_TRUNC \<noteq> 0 \<or> fl AND O_CREAT \<noteq> 0
      then \<exists>w3. v_truncate ?ops n 0 w2 = Some (0, w3) \<and> s' = s\<lparr>inodes := w3\<rparr> else s' = s\<lparr>inodes := w2\<rparr>"
    using open_node_calls [OF assms] by blast
  have o: "w1 = inodes s" "is_dir n (inodes s) \<or> is_file n (inodes s)"
    "is_dir n (inodes s) \<longrightarrow> fl AND O_ACCMODE = O_RDONLY \<and> fl AND O_APPEND = 0"
    using w(1) by (auto simp: sfs_vops_def bind_Some_conv sfs_opendir_def split: if_splits)
  have ty: "node_type w2 = node_type (inodes s)" using open_inc_type [OF w(2)] o(1) by simp
  show ?thesis
  proof (cases "fl AND O_TRUNC \<noteq> 0 \<or> fl AND O_CREAT \<noteq> 0")
    case True
    then obtain w3 where w3: "vop_truncate n 0 w2 = Some (0, w3)" "s' = s\<lparr>inodes := w3\<rparr>" using t by (auto simp: sfs_vops_def)
    have "node_type w2 n = SFS_TYPE_FILE" using w3(1) by (simp add: vop_truncate_def node_type_def)
    then show ?thesis using truncate_type [OF w3(1)] w3(2) w(3) ty by (auto simp: is_dir_type fun_eq_iff)
  next
    case False
    then show ?thesis using t o w(3) ty by (auto simp: fun_eq_iff)
  qed
qed

text \<open>The simple file system has no \<^verbatim>\<open>vop_create\<close>, so that a successful \<open>vfs_open\<close> has opened what the lookup found.\<close>

lemma vfs_open_opened:
  assumes "vfs_open (sfs_vops e names) path fl s = Some (0, n, s')"
  shows "\<exists>s1. open_node (sfs_vops e names) n fl s1 = Some (0, n, s')"
proof -
  let ?ops = "sfs_vops e names"
  have acc: "fl AND O_ACCMODE \<in> {O_RDONLY, O_WRONLY, O_RDWR}" "\<not> (fl AND O_TRUNC \<noteq> 0 \<and> fl AND O_ACCMODE = O_RDONLY)"
    using assms by (auto simp: vfs_open_def split: if_splits)
  obtain ret left node s1 where l: "vfs_lookup ?ops path s = Some (ret, left, node, s1)"
    using assms acc by (cases "vfs_lookup ?ops path s") (auto simp: vfs_open_def)
  have create: "with_inodes2 (v_create ?ops dir name excl) s2 = None" for dir name excl s2
    by (simp add: with_inodes2_def sfs_vops_def)
  have ret0: "ret = 0"
  proof (rule ccontr)
    assume "ret \<noteq> 0"
    then show False using assms acc l unfolding vfs_open_def Let_def
      by (auto simp: bind_Some_conv create split: if_splits)
  qed
  then have "open_node ?ops node fl s1 = Some (0, n, s')" using assms acc l unfolding vfs_open_def Let_def
    by (auto split: if_splits)
  then show ?thesis using open_node_calls by blast
qed

lemma file_read_dir_stops:
  assumes "fd2file fd t = Some (0, p, i)" "f_readable (entry t p i)" "f_node (entry t p i) = Some n" "is_dir n (inodes t)"
  shows "file_read (sfs_vops e names) fd buf len t = None"
proof -
  have "v_read (sfs_vops e names) n iob (inodes t) = None" for iob using assms(4) by (simp add: sfs_vops_def is_dir_type)
  then show ?thesis using assms(1-3)
    by (simp add: file_read_def file_xfer_def fd_array_acquire_def fopen_count_inc_def with_inodes2_def Let_def kassert_def)
qed



text \<open>Opening an existing file with \<^verbatim>\<open>O_CREAT\<close> alone empties it.\<close>

lemma truncfile_empties: "sfs_truncfile s sin 0 = Some (0, sin', s') \<Longrightarrow> di_size (din sin') = 0"
  by (auto simp: sfs_truncfile_def Let_def bind_Some_conv split: if_splits dest!: arg_cong [where f = "\<lambda>x. di_size (din x)"])

lemma open_creat_empties:
  assumes "open_node (sfs_vops e names) n fl s = Some (0, n', s')" and "fl AND O_CREAT \<noteq> 0"
  shows "di_size (din (vsin (nodes (inodes s') n))) = 0"
proof -
  obtain w2 w3 where "vop_truncate n 0 w2 = Some (0, w3)" "s' = s\<lparr>inodes := w3\<rparr>"
    using open_node_calls [OF assms(1)] assms(2) by (auto simp: sfs_vops_def)
  then show ?thesis
    by (auto simp: vop_truncate_def bind_Some_conv set_sin_def set_node_def split: prod.splits dest: truncfile_empties)
qed

end
