(* ===== verification/UserString.thy ===== *)
theory UserString
  imports VmmProps
begin

text \<open>
  Strings in user memory: \<^verbatim>\<open>copy_string\<close> copies a string to the kernel exactly when all of it may be read and it fits.
\<close>

section \<open>Areas of whole pages\<close>

definition page_aligned :: "mm_struct \<Rightarrow> bool" where
  "page_aligned mm \<longleftrightarrow> (\<forall>v\<in>set (mmap_list mm). 4096 dvd unat (vm_start v) \<and> 4096 dvd unat (vm_end v))"

lemma page_aligned_cache [simp]: "page_aligned (mm\<lparr>mmap_cache := c\<rparr>) \<longleftrightarrow> page_aligned mm"
  by (simp add: page_aligned_def)

lemma dvd_le_page:
  fixes m a :: nat
  assumes "4096 dvd m"
  shows "m \<le> a \<longleftrightarrow> m div 4096 \<le> a div 4096" "a < m \<longleftrightarrow> a div 4096 < m div 4096"
  using assms by (auto simp: dvd_def)

lemma readable_page:
  assumes "mm_ok mm" "page_aligned mm" "unat a div 4096 = unat b div 4096"
  shows "accessible mm False a = accessible mm False b"
proof -
  have "in_vma a v = in_vma b v" if "v \<in> set (mmap_list mm)" for v
    using assms(2,3) that dvd_le_page by (simp add: page_aligned_def in_vma_def word_le_nat_alt word_less_nat_alt)
  then show ?thesis unfolding accessible_iff [OF assms(1)] by auto
qed

definition in_user :: "u64 \<Rightarrow> bool" where
  "in_user a \<longleftrightarrow> 0x200000 \<le> unat a \<and> unat a < 0x80000000"

lemma same_page:
  fixes a i n :: nat
  assumes "4096 dvd a + n" "n \<le> 4096" "i < n"
  shows "(a + i) div 4096 = a div 4096"
proof -
  obtain q where "a + n = 4096 * q" using assms(1) by (elim dvdE)
  then have "a div 4096 = q - 1" "(a + i) div 4096 = q - 1" using assms(2,3) by (auto intro!: div_nat_eqI)
  then show ?thesis by simp
qed

text \<open>A part that stays in the page of its first byte may be read exactly if that byte may be read.\<close>

lemma may_read_part:
  assumes ok: "mm_ok mm" "page_aligned mm"
    and p: "4096 dvd unat src + n" "n \<le> 4096" "0 < part" "unat part \<le> n"
  shows "may_access mm src part False \<longleftrightarrow> in_user src \<and> accessible mm False src"
proof
  assume m: "may_access mm src part False"
  have "unat src < unat src + unat part" using p(3) by (simp add: word_less_nat_alt)
  then have "in_user src" using m unfolding may_access_def in_user_def by linarith
  moreover have "accessible mm False (src + word_of_nat 0)"
    using m p(3) unfolding may_access_def word_less_nat_alt by (metis unat_0)
  ultimately show "in_user src \<and> accessible mm False src" by simp
next
  assume a: "in_user src \<and> accessible mm False src"
  obtain q where q: "unat src + n = 4096 * q" using p(1) by (elim dvdE)
  have b: "unat src + n \<le> 0x80000000"
  proof (rule ccontr)
    assume "\<not> ?thesis"
    then have "q > 0x80000" using q by simp
    then show False using a q p(2) by (simp add: in_user_def)
  qed
  have "accessible mm False (src + word_of_nat i)" if "i < unat part" for i
  proof -
    have "unat (src + word_of_nat i) = unat src + i" using that b p(4) by (intro unat_offset) simp
    then have "unat (src + word_of_nat i) div 4096 = unat src div 4096"
      using same_page [OF p(1,2), of i] that p(4) by simp
    then show ?thesis using readable_page [OF ok] a by blast
  qed
  then show "may_access mm src part False"
    using a p(3,4) b unfolding may_access_def in_user_def by simp
qed

section \<open>Strings\<close>

text \<open>\<open>ustr mm mem src k\<close>: a string of \<open>k\<close> bytes and its terminator start at \<open>src\<close>, and all of it may be read.\<close>

definition ustr :: "mm_struct \<Rightarrow> (nat \<Rightarrow> u8) \<Rightarrow> u64 \<Rightarrow> nat \<Rightarrow> bool" where
  "ustr mm mem src k \<longleftrightarrow> (\<forall>i<k. mem (unat src + i) \<noteq> 0) \<and> mem (unat src + k) = 0 \<and>
     0x200000 \<le> unat src \<and> unat src + k < 0x80000000 \<and> (\<forall>i\<le>k. accessible mm False (src + word_of_nat i))"

lemma ustr_unique: "ustr mm mem src k \<Longrightarrow> ustr mm mem src j \<Longrightarrow> k = j"
  unfolding ustr_def by (metis linorder_neqE_nat)

lemma strnlen_le: "strnlen mem a n \<le> n"
  unfolding strnlen_def using length_takeWhile_le [of _ "[a..<a + n]"] by (metis add_diff_cancel_left' length_upt)

lemma strnlen_nonzero: "i < strnlen mem a n \<Longrightarrow> mem (a + i) \<noteq> 0"
  using strnlen_le [of mem a n] nth_mem [of i "takeWhile (\<lambda>i. mem i \<noteq> 0) [a..<a + n]"]
    takeWhile_nth [of i "\<lambda>i. mem i \<noteq> 0" "[a..<a + n]"]
  by (auto simp: strnlen_def dest: set_takeWhileD)

lemma strnlen_zero: "strnlen mem a n < n \<Longrightarrow> mem (a + strnlen mem a n) = 0"
  unfolding strnlen_def using nth_length_takeWhile [of "\<lambda>i. mem i \<noteq> 0" "[a..<a + n]"] by simp


lemma ustr_cache [simp]: "ustr (mm\<lparr>mmap_cache := c\<rparr>) = ustr mm"
  by (simp add: ustr_def fun_eq_iff)

lemma ustr_mem_cong:
  "(\<And>a. a < 0x80000000 \<Longrightarrow> m a = n a) \<Longrightarrow> ustr mm m src k \<longleftrightarrow> ustr mm n src k"
  unfolding ustr_def by (auto simp: add.commute)

lemma ustr_start: "ustr mm mem src k \<Longrightarrow> in_user src \<and> accessible mm False src"
  unfolding ustr_def in_user_def by (auto dest: spec [of _ 0])

lemma all_shift:
  fixes p j :: nat
  assumes "\<forall>i<p. P i"
  shows "(\<forall>i<p + j. P i) \<longleftrightarrow> (\<forall>i<j. P (p + i))" "(\<forall>i\<le>p + j. P i) \<longleftrightarrow> (\<forall>i\<le>j. P (p + i))"
proof -
  have s: "P i" if "\<not> i < p" "P (p + (i - p))" for i using that by simp
  show "(\<forall>i<p + j. P i) \<longleftrightarrow> (\<forall>i<j. P (p + i))"
    using assms by (auto intro: s) (metis add_less_cancel_left le_add_diff_inverse linorder_not_less)
  show "(\<forall>i\<le>p + j. P i) \<longleftrightarrow> (\<forall>i\<le>j. P (p + i))"
    using assms by (auto intro: s) (metis add_le_cancel_left le_add_diff_inverse linorder_not_less)
qed

lemma ex_shift:
  fixes p n :: nat
  assumes "p \<le> n"
  shows "(\<exists>k<n - p. Q k) \<longleftrightarrow> (\<exists>k<n. p \<le> k \<and> Q (k - p))"
proof
  assume "\<exists>k<n - p. Q k"
  then obtain k where "k < n - p" "Q k" by blast
  then show "\<exists>k<n. p \<le> k \<and> Q (k - p)" by (intro exI [of _ "p + k"]) simp
next
  assume "\<exists>k<n. p \<le> k \<and> Q (k - p)"
  then obtain k where "k < n" "p \<le> k" "Q (k - p)" by blast
  then show "\<exists>k<n - p. Q k" by (intro exI [of _ "k - p"]) simp
qed

text \<open>A readable part without a terminator only moves the start of the string.\<close>

lemma ustr_shift:
  assumes b: "0x200000 \<le> unat src" "unat src + unat part \<le> 0x80000000"
    and nz: "\<forall>i<unat part. mem (unat src + i) \<noteq> 0" and acc: "\<forall>i<unat part. accessible mm False (src + word_of_nat i)"
  shows "ustr mm mem src k \<longleftrightarrow> unat part \<le> k \<and> ustr mm mem (src + part) (k - unat part)"
proof (cases "unat part \<le> k")
  case False
  then show ?thesis using nz by (auto simp: ustr_def)
next
  case True
  then obtain j where k: "k = unat part + j" using le_Suc_ex by blast
  have u: "unat (src + part) = unat src + unat part" using unat_offset [of src "unat part"] b by simp
  have w: "src + word_of_nat (unat part + i) = src + part + word_of_nat i" for i by simp
  note all_shift(1) [OF nz, of j] all_shift(2) [OF acc, of j]
  then show ?thesis using b unfolding ustr_def k u w by (simp add: add.assoc)
qed

section \<open>The copy\<close>

definition copied :: "mm_struct \<Rightarrow> (nat \<Rightarrow> u8) \<Rightarrow> u64 \<Rightarrow> u64 \<Rightarrow> u64 \<Rightarrow> bool \<times> (nat \<Rightarrow> u8) \<times> mm_struct option \<Rightarrow> bool" where
  "copied mm mem dst src maxn r \<longleftrightarrow>
     (case r of (ok, mem', mm') \<Rightarrow>
        (ok \<longleftrightarrow> (\<exists>k<unat maxn. ustr mm mem src k)) \<and>
        (\<forall>k. ok \<and> ustr mm mem src k \<longrightarrow> mem' = mem_write mem (unat dst) (mem_read mem (unat src) (k + 1))) \<and>
        (\<forall>a. a < unat dst \<or> unat dst + unat maxn \<le> a \<longrightarrow> mem' a = mem a) \<and>
        (\<exists>c. mm' = Some (mm\<lparr>mmap_cache := c\<rparr>) \<and> mm_ok (mm\<lparr>mmap_cache := c\<rparr>)))"

lemma copied_refused:
  assumes "mm_ok (mm\<lparr>mmap_cache := c\<rparr>)" "\<not> (\<exists>k<unat maxn. ustr mm mem src k)"
  shows "copied mm mem dst src maxn (False, mem, Some (mm\<lparr>mmap_cache := c\<rparr>))"
  using assms by (auto simp: copied_def)

lemma copied_last:
  assumes "mm_ok (mm\<lparr>mmap_cache := c\<rparr>)" "k < unat maxn" "ustr mm mem src k"
  shows "copied mm mem dst src maxn
    (True, mem_write mem (unat dst) (mem_read mem (unat src) (k + 1)), Some (mm\<lparr>mmap_cache := c\<rparr>))"
proof -
  have "j = k" if "ustr mm mem src j" for j using ustr_unique [OF that assms(3)] .
  moreover have "mem_write mem (unat dst) (mem_read mem (unat src) (k + 1)) a = mem a"
    if "a < unat dst \<or> unat dst + unat maxn \<le> a" for a using that assms(2) by (auto simp: mem_write_def)
  ultimately show ?thesis unfolding copied_def using assms by blast
qed

lemma copied_next:
  assumes r: "copied (mm\<lparr>mmap_cache := c\<rparr>) (mem_write mem (unat dst) (mem_read mem (unat src) (unat part))) (dst + part)
      (src + part) (maxn - part) r"
    and b: "0x200000 \<le> unat src" "unat src + unat part \<le> 0x80000000" "0x80000000 \<le> unat dst" "unat dst + unat maxn \<le> 2 ^ 64"
      "part < maxn"
    and nz: "\<forall>i<unat part. mem (unat src + i) \<noteq> 0" and acc: "\<forall>i<unat part. accessible mm False (src + word_of_nat i)"
  shows "copied mm mem dst src maxn r"
proof -
  let ?m = "mem_write mem (unat dst) (mem_read mem (unat src) (unat part))"
  obtain ok mem' mm' where e: "r = (ok, mem', mm')" by (cases r)
  have p: "unat part < unat maxn" using b(5) by (simp add: word_less_nat_alt)
  have u: "unat (src + part) = unat src + unat part" "unat (dst + part) = unat dst + unat part"
    "unat (maxn - part) = unat maxn - unat part"
    using unat_offset [of src "unat part"] unat_offset [of dst "unat part"] b p
      unat_sub [OF less_imp_le [OF b(5)]] by simp_all
  have m: "ustr mm ?m s k \<longleftrightarrow> ustr mm mem s k" for s k
    by (rule ustr_mem_cong) (use b(3) in \<open>simp add: mem_write_def\<close>)
  have s: "ustr mm mem src k \<longleftrightarrow> unat part \<le> k \<and> ustr mm mem (src + part) (k - unat part)" for k
    by (rule ustr_shift [OF b(1,2) nz acc])
  have k: "(\<exists>k<unat maxn - unat part. ustr mm mem (src + part) k) \<longleftrightarrow> (\<exists>k<unat maxn. ustr mm mem src k)"
    unfolding s using ex_shift [OF less_imp_le [OF p]] by simp
  have "mem' = mem_write mem (unat dst) (mem_read mem (unat src) (k + 1))" if ks: ok "ustr mm mem src k" for k
  proof -
    obtain j where j: "k = unat part + j" "ustr mm mem (src + part) j"
      using ks(2) unfolding s by (metis le_add_diff_inverse)
    then have "unat src + unat part + j < 0x80000000" unfolding ustr_def u by simp
    then have "mem_read ?m (unat src + unat part) (j + 1) = mem_read mem (unat src + unat part) (j + 1)"
      using b(3) by (intro mem_read_write_disjoint) simp
    then have "mem' = mem_write ?m (unat dst + unat part) (mem_read mem (unat src + unat part) (j + 1))"
      using r ks(1) j(2) unfolding e copied_def u by (simp add: m)
    also have "\<dots> = mem_write mem (unat dst) (mem_read mem (unat src) (unat part) @ mem_read mem (unat src + unat part) (j + 1))"
      using mem_write_append [of mem "unat dst" "mem_read mem (unat src) (unat part)"] by simp
    finally show ?thesis unfolding j(1) mem_read_add [symmetric] by (simp add: add.assoc)
  qed
  moreover have "mem' a = mem a" if "a < unat dst \<or> unat dst + unat maxn \<le> a" for a
  proof -
    have "mem' a = ?m a" using r that p unfolding e copied_def u by auto
    then show ?thesis using that p by (auto simp: mem_write_def)
  qed
  ultimately show ?thesis using r k unfolding e copied_def u by (simp add: m)
qed


text \<open>The state of the loop: the next part ends with the page of \<open>src\<close>.\<close>

lemma copy_str_loop_exact:
  assumes "mm_ok mm" "page_aligned mm" "0 < part0" "unat part0 \<le> 4096" "4096 dvd unat src + unat part0"
    "0x80000000 \<le> unat dst" "unat dst + unat maxn \<le> 2 ^ 64"
  shows "copied mm mem dst src maxn (copy_str_loop (Some mm) mem dst src maxn part0)"
  using assms
proof (induction "unat maxn" arbitrary: mm mem dst src maxn part0 rule: less_induct)
  case less
  define part where "part = (if part0 > maxn then maxn else part0)"
  have part: "unat part \<le> unat part0" "unat part \<le> unat maxn" "part \<noteq> maxn \<Longrightarrow> part = part0 \<and> part < maxn"
  proof -
    show "unat part \<le> unat part0" "unat part \<le> unat maxn" by (simp_all add: part_def word_less_nat_alt)
    show "part \<noteq> maxn \<Longrightarrow> part = part0 \<and> part < maxn" by (auto simp: part_def not_less split: if_splits)
  qed
  obtain c where c: "user_mem_check (Some mm) src part False = (may_access mm src part False, Some (mm\<lparr>mmap_cache := c\<rparr>))"
      "mm_ok (mm\<lparr>mmap_cache := c\<rparr>)"
    using user_mem_check_eq [OF less.prems(1)] by blast
  define n where "n = strnlen mem (unat src) (unat part)"
  let ?mm = "mm\<lparr>mmap_cache := c\<rparr>" and ?copy = "\<lambda>n. mem_write mem (unat dst) (mem_read mem (unat src) n)"
  have eq: "copy_str_loop (Some mm) mem dst src maxn part0 =
      (if \<not> may_access mm src part False then (False, mem, Some ?mm)
       else if n < unat part then (True, ?copy (n + 1), Some ?mm)
       else if part = maxn then (False, mem, Some ?mm)
       else copy_str_loop (Some ?mm) (?copy (unat part)) (dst + part) (src + part) (maxn - part) PGSIZE)"
    by (subst copy_str_loop.simps) (simp only: Let_def part_def [symmetric] c(1) fst_conv snd_conv n_def [symmetric] if_not_P)
  show ?case
  proof (cases "may_access mm src part False")
    case False
    have "part = 0 \<or> \<not> (in_user src \<and> accessible mm False src)"
      using may_read_part [OF less.prems(1,2,5,4)] False part(1) word_neq_0_conv by blast
    then have "\<not> (\<exists>k<unat maxn. ustr mm mem src k)"
      using ustr_start less.prems(3) by (auto simp: part_def split: if_splits)
    then show ?thesis using False c(2) copied_refused unfolding eq by simp
  next
    case True
    then have b: "0x200000 \<le> unat src" "unat src + unat part \<le> 0x80000000"
      and acc: "\<forall>i<unat part. accessible mm False (src + word_of_nat i)" by (simp_all add: may_access_def)
    show ?thesis
    proof (cases "n < unat part")
      case n: True
      have "ustr mm mem src n"
        using n b acc strnlen_nonzero strnlen_zero unfolding ustr_def n_def by fastforce
      then show ?thesis using True n part(2) copied_last [OF c(2)] unfolding eq by simp
    next
      case n: False
      then have "n = unat part" using strnlen_le unfolding n_def by (metis le_neq_implies_less)
      then have nz: "\<forall>i<unat part. mem (unat src + i) \<noteq> 0" using strnlen_nonzero unfolding n_def by metis
      show ?thesis
      proof (cases "part = maxn")
        case full: True
        then have "\<not> (\<exists>k<unat maxn. ustr mm mem src k)" using nz by (auto simp: ustr_def)
        then show ?thesis using True n full c(2) copied_refused unfolding eq by simp
      next
        case more: False
        then have p: "part = part0" "part < maxn" using part(3) by auto
        have u: "unat (src + part) = unat src + unat part" "unat (dst + part) = unat dst + unat part"
          "unat (maxn - part) = unat maxn - unat part" "unat part < unat maxn" "0 < unat part"
          using unat_offset [of src "unat part"] unat_offset [of dst "unat part"] b p less.prems(3,6,7)
            unat_sub [OF less_imp_le [OF p(2)]] by (simp_all add: word_less_nat_alt)
        have "copied ?mm (?copy (unat part)) (dst + part) (src + part) (maxn - part)
            (copy_str_loop (Some ?mm) (?copy (unat part)) (dst + part) (src + part) (maxn - part) PGSIZE)"
          using less.prems c(2) u(4,5) by (intro less.hyps) (simp_all add: u(1,2,3) p(1) [symmetric])
        then show ?thesis
          using True n more copied_next [OF _ b less.prems(6,7) p(2) nz acc] unfolding eq by simp
      qed
    qed
  qed
qed

lemma first_part:
  "0 < ROUNDDOWN (src + PGSIZE) PGSIZE - src" "unat (ROUNDDOWN (src + PGSIZE) PGSIZE - src) \<le> 4096"
  "4096 dvd unat src + unat (ROUNDDOWN (src + PGSIZE) PGSIZE - src)"
proof -
  have "unat ((src + PGSIZE) mod PGSIZE) = unat (src + PGSIZE) mod 4096" by (simp add: unat_mod)
  also have "\<dots> = unat src mod 4096"
    by (simp add: unat_word_ariths mod_mod_cancel [where a = "_ :: nat" and b = 18446744073709551616 and c = 4096])
  finally have m: "unat ((src + PGSIZE) mod PGSIZE) = unat src mod 4096" .
  have e: "ROUNDDOWN (src + PGSIZE) PGSIZE - src = PGSIZE - (src + PGSIZE) mod PGSIZE" by (simp add: ROUNDDOWN_def)
  have "(src + PGSIZE) mod PGSIZE \<le> PGSIZE" using m by (simp add: word_le_nat_alt)
  then have u: "unat (ROUNDDOWN (src + PGSIZE) PGSIZE - src) = 4096 - unat src mod 4096"
    unfolding e by (subst unat_sub) (simp_all add: m)
  show "unat (ROUNDDOWN (src + PGSIZE) PGSIZE - src) \<le> 4096" unfolding u by simp
  have "0 < unat (ROUNDDOWN (src + PGSIZE) PGSIZE - src)" unfolding u by simp
  then show "0 < ROUNDDOWN (src + PGSIZE) PGSIZE - src" by (simp add: word_less_nat_alt)
  have r: "s + (4096 - r) = 4096 * (q + 1)" if "4096 * q + r = s" "r < 4096" for q r s :: nat using that by arith
  have "unat src + (4096 - unat src mod 4096) = 4096 * (unat src div 4096 + 1)"
    by (rule r [OF mult_div_mod_eq]) simp
  then show "4096 dvd unat src + unat (ROUNDDOWN (src + PGSIZE) PGSIZE - src)" unfolding u by simp
qed

text \<open>C34. \<^verbatim>\<open>copy_string\<close> into a kernel buffer of \<open>maxn\<close> bytes returns, and succeeds exactly when a string shorter than
  \<open>maxn\<close> starts at \<open>src\<close>, it lies in user space, and every byte of it and its terminator may be read. It then copies the
  string with its terminator; otherwise it may have written to the buffer, but not outside.\<close>

theorem copy_string_exact:
  assumes "mm_ok mm" and "page_aligned mm" and "0x80000000 \<le> unat dst" and "unat dst + unat maxn \<le> 2 ^ 64"
  shows "case copy_string (Some mm) mem dst src maxn of (ok, mem', mm') \<Rightarrow>
    (ok \<longleftrightarrow> (\<exists>k<unat maxn. ustr mm mem src k)) \<and>
    (\<forall>k. ok \<and> ustr mm mem src k \<longrightarrow> mem' = mem_write mem (unat dst) (mem_read mem (unat src) (k + 1))) \<and>
    (\<forall>a. a < unat dst \<or> unat dst + unat maxn \<le> a \<longrightarrow> mem' a = mem a) \<and>
    (\<exists>c. mm' = Some (mm\<lparr>mmap_cache := c\<rparr>) \<and> mm_ok (mm\<lparr>mmap_cache := c\<rparr>))"
  using copy_str_loop_exact [OF assms(1,2) first_part assms(3,4)] unfolding copied_def copy_string_def .

lemma copy_string_exact_witness:
  "ustr mm0 (\<lambda>a. if a < 0x800FFE then 0 else if a < 0x801003 then 65 else 0) 0x800FFE 5 \<and>
   fst (copy_string (Some mm0) (\<lambda>a. if a < 0x800FFE then 0 else if a < 0x801003 then 65 else 0) 0x90000000 0x800FFE 16)"
proof -
  let ?mem = "\<lambda>a. if a < 0x800FFE then 0 else if a < 0x801003 then 65 else 0 :: u8"
  have "accessible mm0 False (0x800FFE + word_of_nat i)" if "i \<le> 5" for i
  proof -
    have "i \<in> {0, 1, 2, 3, 4, 5}" using that by auto
    then show ?thesis by (auto simp: accessible_def area_def mm0_def in_vma_def)
  qed
  then have u: "ustr mm0 ?mem 0x800FFE 5" by (simp add: ustr_def)
  have "page_aligned mm0" by (simp add: page_aligned_def mm0_def)
  then show ?thesis
    using u exI [of "\<lambda>k. k < unat (16 :: u64) \<and> ustr mm0 ?mem 0x800FFE k" 5]
      copy_string_exact [OF mm0_ok, where dst = "0x90000000" and src = "0x800FFE" and maxn = 16 and mem = ?mem]
    by (auto split: prod.splits)
qed

end
