(* ===== verification/Sysfile.thy ===== *)
theory Sysfile
  imports FileProps UserString
begin

text \<open>
  The file system calls (\<^verbatim>\<open>kern/fs/sysfile.c\<close>): they move paths, buffers and records between user and kernel memory and
  call the file layer. Memory is one map from addresses to bytes, for kernel and user addresses. The addresses of kernel
  buffers are parameters, \<open>None\<close> when the allocation fails; releasing a buffer has no further effect. The lock of the
  address space is left out.
\<close>

section \<open>State\<close>

record 'w sysf =
  vf :: "'w vfs"
  umem :: "nat \<Rightarrow> u8"
  cmm :: "mm_struct option"

definition on_vf :: "('w vfs \<Rightarrow> (int \<times> 'w vfs) option) \<Rightarrow> 'w sysf \<Rightarrow> (int \<times> 'w sysf) option" where
  "on_vf f st = map_option (\<lambda>(ret, s). (ret, st\<lparr>vf := s\<rparr>)) (f (vf st))"

definition to_user :: "u64 \<Rightarrow> u64 \<Rightarrow> u64 \<Rightarrow> 'w sysf \<Rightarrow> bool \<times> 'w sysf" where
  "to_user dst src len st =
     (case copy_to_user (cmm st) (umem st) dst src len of (ok, mem, mm) \<Rightarrow> (ok, st\<lparr>umem := mem, cmm := mm\<rparr>))"

definition from_user :: "u64 \<Rightarrow> u64 \<Rightarrow> u64 \<Rightarrow> bool \<Rightarrow> 'w sysf \<Rightarrow> bool \<times> 'w sysf" where
  "from_user dst src len wr st =
     (case copy_from_user (cmm st) (umem st) dst src len wr of (ok, mem, mm) \<Rightarrow> (ok, st\<lparr>umem := mem, cmm := mm\<rparr>))"

section \<open>Paths\<close>

text \<open>The results are the code, the string in the new buffer and the state.\<close>

definition copy_path :: "u64 option \<Rightarrow> u64 \<Rightarrow> 'w sysf \<Rightarrow> int \<times> u8 list \<times> 'w sysf" where
  "copy_path buffer from st =
     (case buffer of
        None \<Rightarrow> (- E_NO_MEM, [], st)
      | Some b \<Rightarrow>
          (case copy_string (cmm st) (umem st) b from 4096 of (ok, mem, mm) \<Rightarrow>
             let st1 = st\<lparr>umem := mem, cmm := mm\<rparr> in
             if \<not> ok then (- E_INVAL, [], st1)
             else (0, cstr (mem_read mem (unat b) 4096), st1)))"

definition sysfile_open :: "'w vops \<Rightarrow> u64 option \<Rightarrow> u64 \<Rightarrow> nat \<Rightarrow> 'w sysf \<Rightarrow> (int \<times> 'w sysf) option" where
  "sysfile_open ops b upath fl st =
     (case copy_path b upath st of (ret, path, st1) \<Rightarrow>
        if ret \<noteq> 0 then Some (ret, st1) else on_vf (file_open ops path fl) st1)"

definition sysfile_close :: "'w vops \<Rightarrow> int \<Rightarrow> 'w sysf \<Rightarrow> (int \<times> 'w sysf) option" where
  "sysfile_close ops fd st = on_vf (file_close ops fd) st"

definition sysfile_chdir :: "'w vops \<Rightarrow> u64 option \<Rightarrow> u64 \<Rightarrow> 'w sysf \<Rightarrow> (int \<times> 'w sysf) option" where
  "sysfile_chdir ops b upath st =
     (case copy_path b upath st of (ret, path, st1) \<Rightarrow>
        if ret \<noteq> 0 then Some (ret, st1) else on_vf (vfs_chdir ops path) st1)"

definition sysfile_link :: "u64 option \<Rightarrow> u64 option \<Rightarrow> u64 \<Rightarrow> u64 \<Rightarrow> 'w sysf \<Rightarrow> int \<times> 'w sysf" where
  "sysfile_link b1 b2 upath1 upath2 st =
     (case copy_path b1 upath1 st of (ret, old_path, st1) \<Rightarrow>
        if ret \<noteq> 0 then (ret, st1)
        else (case copy_path b2 upath2 st1 of (ret, new_path, st2) \<Rightarrow>
          if ret \<noteq> 0 then (ret, st2) else (vfs_link old_path new_path, st2)))"

definition sysfile_rename :: "u64 option \<Rightarrow> u64 option \<Rightarrow> u64 \<Rightarrow> u64 \<Rightarrow> 'w sysf \<Rightarrow> int \<times> 'w sysf" where
  "sysfile_rename b1 b2 upath1 upath2 st =
     (case copy_path b1 upath1 st of (ret, old_path, st1) \<Rightarrow>
        if ret \<noteq> 0 then (ret, st1)
        else (case copy_path b2 upath2 st1 of (ret, new_path, st2) \<Rightarrow>
          if ret \<noteq> 0 then (ret, st2) else (vfs_rename old_path new_path, st2)))"

definition sysfile_unlink :: "u64 option \<Rightarrow> u64 \<Rightarrow> 'w sysf \<Rightarrow> int \<times> 'w sysf" where
  "sysfile_unlink b upath st =
     (case copy_path b upath st of (ret, path, st1) \<Rightarrow> if ret \<noteq> 0 then (ret, st1) else (vfs_unlink path, st1))"

section \<open>Reading and writing\<close>

abbreviation (input) IOBUF_SIZE :: u64 where "IOBUF_SIZE \<equiv> 4096"

text \<open>One round of the loop of \<^verbatim>\<open>sysfile_read\<close>. The results are \<^verbatim>\<open>ret\<close>, \<^verbatim>\<open>alen\<close>, \<^verbatim>\<open>base\<close>, \<^verbatim>\<open>len\<close>, \<^verbatim>\<open>copied\<close> and the
  state.\<close>

definition read_round ::
  "'w vops \<Rightarrow> int \<Rightarrow> u64 \<Rightarrow> u64 \<Rightarrow> u64 \<Rightarrow> u64 \<Rightarrow> 'w sysf \<Rightarrow> (int \<times> u64 \<times> u64 \<times> u64 \<times> u64 \<times> 'w sysf) option" where
  "read_round ops fd buffer base len cnt st = do {
     let want = (if IOBUF_SIZE > len then len else IOBUF_SIZE);
     (ret, n, buf, s1) \<leftarrow> file_read ops fd (mem_read (umem st) (unat buffer) 4096) (unat want) (vf st);
     let st1 = st\<lparr>vf := s1, umem := mem_write (umem st) (unat buffer) buf\<rparr>;
     let alen = word_of_nat n;
     if alen \<noteq> 0 then
       (case to_user base buffer alen st1 of (ok, st2) \<Rightarrow>
          if ok then do {
            kassert (len \<ge> alen);
            Some (ret, alen, base + alen, len - alen, cnt + alen, st2)
          } else Some (if ret = 0 then - E_INVAL else ret, alen, base, len, cnt, st2))
     else Some (ret, alen, base, len, cnt, st1)
   }"

lemma read_round_shrinks:
  assumes "read_round ops fd buffer base len cnt st = Some (0, alen, base', len', cnt', st')" and "alen \<noteq> 0"
  shows "len' = len - alen \<and> alen \<le> len"
proof -
  define want where "want = unat (if IOBUF_SIZE > len then len else IOBUF_SIZE)"
  obtain ret n buf s1 where r: "file_read ops fd (mem_read (umem st) (unat buffer) 4096) want (vf st) = Some (ret, n, buf, s1)"
    using assms(1) by (cases "file_read ops fd (mem_read (umem st) (unat buffer) 4096) want (vf st)")
      (auto simp: read_round_def want_def [symmetric])
  define st1 where "st1 = st\<lparr>vf := s1, umem := mem_write (umem st) (unat buffer) buf\<rparr>"
  obtain ok st2 where u: "to_user base buffer (word_of_nat n) st1 = (ok, st2)" by fastforce
  show ?thesis using assms unfolding read_round_def Let_def want_def [symmetric] r Option.bind.bind_lunit prod.case
      st1_def [symmetric] u by (auto split: if_splits)
qed

lemma word_shrinks: "a \<noteq> 0 \<Longrightarrow> a \<le> (n :: 'w::len word) \<Longrightarrow> unat (n - a) < unat n"
  by (simp add: unat_sub word_le_nat_alt unat_gt_0 [symmetric] del: unat_gt_0)

function read_loop ::
  "'w vops \<Rightarrow> int \<Rightarrow> u64 \<Rightarrow> u64 \<Rightarrow> u64 \<Rightarrow> u64 \<Rightarrow> 'w sysf \<Rightarrow> (int \<times> u64 \<times> 'w sysf) option" where
  "read_loop ops fd buffer base len cnt st =
     (if len \<noteq> 0 then
        (case read_round ops fd buffer base len cnt st of
           None \<Rightarrow> None
         | Some (ret, alen, base1, len1, cnt1, st1) \<Rightarrow>
             if ret \<noteq> 0 \<or> alen = 0 then Some (ret, cnt1, st1)
             else read_loop ops fd buffer base1 len1 cnt1 st1)
      else Some (0, cnt, st))"
  by pat_completeness auto
termination
  by (relation "measure (\<lambda>(ops, fd, buffer, base, len, cnt, st). unat len)")
    (auto dest!: read_round_shrinks intro: word_shrinks)

declare read_loop.simps [simp del]

text \<open>The \<^verbatim>\<open>size_t\<close> result is returned as an \<^verbatim>\<open>int\<close>.\<close>

definition c_int :: "u64 \<Rightarrow> int" where
  "c_int x = (uint x + 2 ^ 31) mod 2 ^ 32 - 2 ^ 31"

definition sysfile_read :: "'w vops \<Rightarrow> u64 option \<Rightarrow> int \<Rightarrow> u64 \<Rightarrow> u64 \<Rightarrow> 'w sysf \<Rightarrow> (int \<times> 'w sysf) option" where
  "sysfile_read ops buffer fd base len st =
     (if len = 0 then Some (0, st)
      else do {
        ok \<leftarrow> file_testfd fd True False (vf st);
        if \<not> ok then Some (- E_INVAL, st)
        else
          (case buffer of
             None \<Rightarrow> Some (- E_NO_MEM, st)
           | Some b \<Rightarrow> do {
               (ret, cnt, st1) \<leftarrow> read_loop ops fd b base len 0 st;
               Some (if cnt \<noteq> 0 then c_int cnt else ret, st1)
             })
      })"

text \<open>One round of the loop of \<^verbatim>\<open>sysfile_write\<close>.\<close>

definition write_round ::
  "'w vops \<Rightarrow> int \<Rightarrow> u64 \<Rightarrow> u64 \<Rightarrow> u64 \<Rightarrow> u64 \<Rightarrow> 'w sysf \<Rightarrow> (int \<times> u64 \<times> u64 \<times> u64 \<times> u64 \<times> 'w sysf) option" where
  "write_round ops fd buffer base len cnt st = do {
     let want = (if IOBUF_SIZE > len then len else IOBUF_SIZE);
     (case from_user buffer base want False st of (ok, st1) \<Rightarrow>
        if ok then do {
          (ret, n, _, s1) \<leftarrow> file_write ops fd (mem_read (umem st1) (unat buffer) 4096) (unat want) (vf st1);
          let st2 = st1\<lparr>vf := s1\<rparr>;
          let alen = word_of_nat n;
          if alen \<noteq> 0 then do {
            kassert (len \<ge> alen);
            Some (ret, alen, base + alen, len - alen, cnt + alen, st2)
          } else Some (ret, alen, base, len, cnt, st2)
        } else Some (- E_INVAL, want, base, len, cnt, st1))
   }"

lemma write_round_shrinks:
  "write_round ops fd buffer base len cnt st = Some (0, alen, base', len', cnt', st') \<Longrightarrow> alen \<noteq> 0 \<Longrightarrow>
    len' = len - alen \<and> alen \<le> len"
  by (auto simp: write_round_def Let_def bind_Some_conv split: prod.splits if_splits)

function write_loop ::
  "'w vops \<Rightarrow> int \<Rightarrow> u64 \<Rightarrow> u64 \<Rightarrow> u64 \<Rightarrow> u64 \<Rightarrow> 'w sysf \<Rightarrow> (int \<times> u64 \<times> 'w sysf) option" where
  "write_loop ops fd buffer base len cnt st =
     (if len \<noteq> 0 then
        (case write_round ops fd buffer base len cnt st of
           None \<Rightarrow> None
         | Some (ret, alen, base1, len1, cnt1, st1) \<Rightarrow>
             if ret \<noteq> 0 \<or> alen = 0 then Some (ret, cnt1, st1)
             else write_loop ops fd buffer base1 len1 cnt1 st1)
      else Some (0, cnt, st))"
  by pat_completeness auto
termination
  by (relation "measure (\<lambda>(ops, fd, buffer, base, len, cnt, st). unat len)")
    (auto dest!: write_round_shrinks intro: word_shrinks)

declare write_loop.simps [simp del]

definition sysfile_write :: "'w vops \<Rightarrow> u64 option \<Rightarrow> int \<Rightarrow> u64 \<Rightarrow> u64 \<Rightarrow> 'w sysf \<Rightarrow> (int \<times> 'w sysf) option" where
  "sysfile_write ops buffer fd base len st =
     (if len = 0 then Some (0, st)
      else do {
        ok \<leftarrow> file_testfd fd False True (vf st);
        if \<not> ok then Some (- E_INVAL, st)
        else
          (case buffer of
             None \<Rightarrow> Some (- E_NO_MEM, st)
           | Some b \<Rightarrow> do {
               (ret, cnt, st1) \<leftarrow> write_loop ops fd b base len 0 st;
               Some (if cnt \<noteq> 0 then c_int cnt else ret, st1)
             })
      })"

section \<open>The other calls\<close>

definition sysfile_seek :: "'w vops \<Rightarrow> int \<Rightarrow> int \<Rightarrow> int \<Rightarrow> 'w sysf \<Rightarrow> (int \<times> 'w sysf) option" where
  "sysfile_seek ops fd pos whence st = on_vf (file_seek ops fd pos whence) st"

text \<open>The local \<^verbatim>\<open>struct stat\<close> lies at \<open>local\<close>; four bytes of padding follow its first field.\<close>

definition stat_bytes :: "u8 list \<Rightarrow> stat \<Rightarrow> u8 list" where
  "stat_bytes pad x = le_bytes 4 (st_mode x) @ pad @ le_bytes 8 (st_nlinks x) @ le_bytes 8 (st_blocks x) @ le_bytes 8 (st_size x)"

definition sysfile_fstat :: "'w vops \<Rightarrow> u64 \<Rightarrow> stat \<Rightarrow> int \<Rightarrow> u64 \<Rightarrow> 'w sysf \<Rightarrow> (int \<times> 'w sysf) option" where
  "sysfile_fstat ops loc undef fd ustat st = do {
     (ret, x, s1) \<leftarrow> file_fstat ops fd undef (vf st);
     let st1 = st\<lparr>vf := s1\<rparr>;
     if ret \<noteq> 0 then Some (ret, st1)
     else do {
       let st2 = st1\<lparr>umem := mem_write (umem st1) (unat loc) (stat_bytes (mem_read (umem st1) (unat loc + 4) 4) x)\<rparr>;
       (case to_user ustat loc 32 st2 of (ok, st3) \<Rightarrow> Some (if \<not> ok then - E_INVAL else ret, st3))
     }
   }"

definition sysfile_fsync :: "'w vops \<Rightarrow> int \<Rightarrow> 'w sysf \<Rightarrow> (int \<times> 'w sysf) option" where
  "sysfile_fsync ops fd st = on_vf (file_fsync ops fd) st"

text \<open>The I/O buffer of \<^verbatim>\<open>sysfile_getcwd\<close> is the user's.\<close>

definition sysfile_getcwd :: "'w vops \<Rightarrow> u64 \<Rightarrow> u64 \<Rightarrow> 'w sysf \<Rightarrow> (int \<times> 'w sysf) option" where
  "sysfile_getcwd ops buf len st =
     (if len = 0 then Some (- E_INVAL, st)
      else (case user_mem_check (cmm st) buf len True of (ok, mm) \<Rightarrow>
        let st1 = st\<lparr>cmm := mm\<rparr> in
        if ok then do {
          (ret, iob, s1) \<leftarrow> vfs_getcwd ops (iobuf_init (mem_read (umem st1) (unat buf) (unat len)) (unat len) 0) (vf st1);
          Some (ret, st1\<lparr>vf := s1, umem := mem_write (umem st1) (unat buf) (io_mem iob)\<rparr>)
        } else Some (- E_INVAL, st1)))"

text \<open>A \<^verbatim>\<open>struct dirent\<close> is an 8-byte offset and 256 bytes of name.\<close>

definition dirent_at :: "(nat \<Rightarrow> u8) \<Rightarrow> nat \<Rightarrow> dirent" where
  "dirent_at mem a = \<lparr>d_offset = sext64 (int (of_le (mem_read mem a 8))), d_name = mem_read mem (a + 8) 256\<rparr>"

definition dirent_bytes :: "dirent \<Rightarrow> u8 list" where
  "dirent_bytes d = le_bytes 8 (nat (d_offset d mod 2 ^ 64)) @ d_name d"

definition sysfile_getdirentry :: "'w vops \<Rightarrow> u64 option \<Rightarrow> int \<Rightarrow> u64 \<Rightarrow> 'w sysf \<Rightarrow> (int \<times> 'w sysf) option" where
  "sysfile_getdirentry ops buffer fd udirent st =
     (case buffer of
        None \<Rightarrow> Some (- E_NO_MEM, st)
      | Some b \<Rightarrow>
          (case from_user b udirent 8 True st of (ok, st1) \<Rightarrow>
             if \<not> ok then Some (- E_INVAL, st1)
             else do {
               (ret, d, s1) \<leftarrow> file_getdirentry ops fd (dirent_at (umem st1) (unat b)) (vf st1);
               let st2 = st1\<lparr>vf := s1, umem := mem_write (umem st1) (unat b) (dirent_bytes d)\<rparr>;
               if ret \<noteq> 0 then Some (ret, st2)
               else (case to_user udirent b 264 st2 of (ok, st3) \<Rightarrow> Some (if \<not> ok then - E_INVAL else ret, st3))
             }))"

definition sysfile_dup :: "'w vops \<Rightarrow> int \<Rightarrow> int \<Rightarrow> 'w sysf \<Rightarrow> (int \<times> 'w sysf) option" where
  "sysfile_dup ops fd1 fd2 st = on_vf (file_dup ops fd1 fd2) st"

end
