(* ===== verification/SysfileProps.thy ===== *)
theory SysfileProps
  imports Sysfile
begin

text \<open>
  The read system call from top to bottom: through the loop over a page-sized buffer, the file table, the file system, the
  disk and the user's address space, the caller gets exactly the bytes of the file.
\<close>

section \<open>Reading an open file\<close>

text \<open>Entry \<open>i\<close> of the current table \<open>p\<close> is open for reading at position \<open>off\<close> of a regular file, inode \<open>n\<close> of a file system
  in order.\<close>

definition reads_at ::
  "nat \<Rightarrow> (nat \<Rightarrow> u8 list) \<Rightarrow> nat set \<Rightarrow> nat \<Rightarrow> nat \<Rightarrow> nat \<Rightarrow> nat \<Rightarrow> nat \<Rightarrow> disk0 mnt vfs \<Rightarrow> bool" where
  "reads_at d B F N p i n off s \<longleftrightarrow>
     cur_files s = Some p \<and> 0 < files_count (fstructs s p) \<and> i < FILES_STRUCT_NENTRY \<and>
     f_status (entry s p i) = FD_OPENED \<and> f_fd (entry s p i) = int i \<and> 0 < f_count (entry s p i) \<and> f_readable (entry s p i) \<and>
     f_node (entry s p i) = Some n \<and> f_pos (entry s p i) = int off \<and> int off < SFS_MAX_FILE_SIZE \<and>
     inode_check (inodes s) n = Some () \<and> is_file n (inodes s) \<and> disk0_fs d B F N (fs (inodes s)) \<and>
     file_ok B F N (din (vsin (nodes (inodes s) n))) \<and>
     di_blocks (din (vsin (nodes (inodes s) n))) = nblks_of (di_size (din (vsin (nodes (inodes s) n))))"

abbreviation node_din :: "'d mnt vfs \<Rightarrow> nat \<Rightarrow> sfs_disk_inode" where
  "node_din s n \<equiv> din (vsin (nodes (inodes s) n))"

lemma size_bound:
  assumes "file_ok B F N di" "di_blocks di = nblks_of (di_size di)"
  shows "di_size di \<le> SFS_NBLKS * SFS_BLKSIZE"
proof -
  have "nblks_of (di_size di) \<le> SFS_NBLKS" using file_okD(2) [OF assms(1)] assms(2) by simp
  then show ?thesis by (simp add: nblks_of_def)
qed

lemma set_sin_same: "set_sin n (vsin (nodes m n)) s m = m\<lparr>fs := s\<rparr>"
  by (cases m) (simp add: set_sin_def set_node_def fun_eq_iff)

lemma xfer_read_sfs:
  assumes "reads_at d B F N p i n off s" and off: "off + len < 2 ^ 63" and k: "k = min len (di_size (node_din s n) - off)"
    and buf: "k \<le> length buf"
  shows "\<exists>m. v_read (sfs_vops e names) n (iobuf_init buf len (int off)) (inodes s) =
      Some (0, \<lparr>io_mem = overwrite buf 0 (mem_read (fcontent B (node_din s n)) off k), io_base = k, io_offset = int (off + k),
        io_len = len, io_resid = len - k\<rparr>, (inodes s)\<lparr>fs := m\<rparr>) \<and> disk0_fs d B F N m"
proof -
  have h: "int off < SFS_MAX_FILE_SIZE" "inode_check (inodes s) n = Some ()" "is_file n (inodes s)" "disk0_fs d B F N (fs (inodes s))"
    "file_ok B F N (node_din s n)" "di_blocks (node_din s n) = nblks_of (di_size (node_din s n))"
    using assms(1) by (simp_all add: reads_at_def)
  have dir: "di_type (node_din s n) \<noteq> SFS_TYPE_DIR" using h(3) by (simp add: is_file_def)
  obtain m where m: "sfs_io_nolock (fs (inodes s)) (vsin (nodes (inodes s) n)) buf (int off) len False =
      Some (0, k, overwrite buf 0 (mem_read (fcontent B (node_din s n)) off k), vsin (nodes (inodes s) n), m)" "disk0_fs d B F N m"
    using d0.io_read_ok [OF h(4,5) dir h(6,1) off buf [unfolded k]] unfolding k [symmetric] by blast
  have "k \<le> len" using k by simp
  then have "sfs_read (fs (inodes s)) (vsin (nodes (inodes s) n)) (iobuf_init buf len (int off)) =
      Some (0, \<lparr>io_mem = overwrite buf 0 (mem_read (fcontent B (node_din s n)) off k), io_base = k, io_offset = int (off + k),
        io_len = len, io_resid = len - k\<rparr>, vsin (nodes (inodes s) n), m)"
    using m(1) by (simp add: sfs_read_def sfs_io_def iobuf_init_def iobuf_skip_def Let_def)
  then show ?thesis using h(2,3) m(2) by (intro exI [of _ m]) (simp add: sfs_vops_def sfs_vop_def set_sin_same)
qed

lemma file_read_sfs:
  assumes r: "reads_at d B F N p i n off s" and off: "off + len < 2 ^ 63" and k: "k = min len (di_size (node_din s n) - off)"
    and buf: "k \<le> length buf"
  shows "\<exists>s'. file_read (sfs_vops e names) (int i) buf len s =
      Some (0, k, overwrite buf 0 (mem_read (fcontent B (node_din s n)) off k), s') \<and>
    reads_at d B F N p i n (off + k) s' \<and> nodes (inodes s') = nodes (inodes s) \<and>
    (\<forall>q j. q \<noteq> p \<or> j \<noteq> i \<longrightarrow> entry s' q j = entry s q j) \<and>
    entry s' p i = (entry s p i)\<lparr>f_pos := int (off + k)\<rparr>"
proof -
  note h = r [unfolded reads_at_def]
  have fd: "fd2file (int i) s = Some (0, p, i)" using h by (simp add: fd2file_def testfd_def get_fd_array_def)
  let ?s1 = "upd_entry p i (\<lambda>f. f\<lparr>f_count := f_count f + 1\<rparr>) s"
  have acq: "fd_array_acquire p i s = Some ?s1" using h by (simp add: fd_array_acquire_def fopen_count_inc_def)
  obtain m where m: "v_read (sfs_vops e names) n (iobuf_init buf len (int off)) (inodes s) =
      Some (0, \<lparr>io_mem = overwrite buf 0 (mem_read (fcontent B (node_din s n)) off k), io_base = k, io_offset = int (off + k),
        io_len = len, io_resid = len - k\<rparr>, (inodes s)\<lparr>fs := m\<rparr>)" "disk0_fs d B F N m"
    using xfer_read_sfs [OF r off k buf] by blast
  let ?s' = "upd_entry p i (\<lambda>f. f\<lparr>f_pos := int (off + k)\<rparr>) (s\<lparr>inodes := (inodes s)\<lparr>fs := m\<rparr>\<rparr>)"
  have pos: "sext64 (int off + int k) = int (off + k)" using off k by (subst sext64_id) simp_all
  have used: "len - (len - k) = k" using k by simp
  have end': "int (off + k) < SFS_MAX_FILE_SIZE"
  proof (cases "k = 0")
    case False
    have "k \<le> di_size (node_din s n) - off" using k by simp
    then have "off + k \<le> di_size (node_din s n)" using False by arith
    then show ?thesis using size_bound [of B F N "node_din s n"] h by simp
  qed (use h in simp)
  have u: "upd_entry p i (\<lambda>f. f\<lparr>f_count := f_count f + 1, f_pos := sext64 (f_pos f + int k), f_count := f_count f + 1 - 1\<rparr>) t
      = upd_entry p i (\<lambda>f. f\<lparr>f_pos := int (off + k)\<rparr>) t" if "entry t p i = entry s p i" for t :: "disk0 mnt vfs"
    using that h pos by (intro upd_entry_cong) (simp add: fd_file.equality)
  have "file_xfer v_read (sfs_vops e names) p i buf len s =
      Some (0, k, overwrite buf 0 (mem_read (fcontent B (node_din s n)) off k), ?s')"
    using h m(1) acq used pos u [of "s\<lparr>inodes := (inodes s)\<lparr>fs := m\<rparr>\<rparr>"]
    by (simp add: file_xfer_def with_inodes2_def iobuf_used_def fd_array_release_def fopen_count_dec_simp Let_def)
  then have "file_read (sfs_vops e names) (int i) buf len s = Some (0, k, overwrite buf 0 (mem_read (fcontent B (node_din s n)) off k), ?s')"
    using fd h by (simp add: file_read_def)
  moreover have "reads_at d B F N p i n (off + k) ?s'"
    using h m(2) end' by (simp add: reads_at_def inode_check_def is_file_def)
  ultimately show ?thesis by (intro exI [of _ ?s']) auto
qed

section \<open>User memory\<close>

lemma may_access_cache [simp]: "may_access (mm\<lparr>mmap_cache := c\<rparr>) = may_access mm"
  by (simp add: may_access_def fun_eq_iff)

lemma to_user_ok:
  assumes "cmm st = Some mm" "mm_ok mm" "may_access mm dst len True"
  shows "\<exists>c. to_user dst src len st =
      (True, st\<lparr>umem := mem_write (umem st) (unat dst) (mem_read (umem st) (unat src) (unat len)), cmm := Some (mm\<lparr>mmap_cache := c\<rparr>)\<rparr>) \<and>
    mm_ok (mm\<lparr>mmap_cache := c\<rparr>)"
  using user_mem_check_eq [OF assms(2), of dst len True] assms(1,3)
  by (auto simp: to_user_def copy_to_user_def)

text \<open>A range that may be accessed may be accessed in two parts.\<close>

lemma may_access_split:
  assumes m: "may_access mm base len wr" and k: "0 < k" "k \<le> unat len"
  shows "may_access mm base (word_of_nat k) wr" "unat (base + word_of_nat k) = unat base + k"
    "unat (len - word_of_nat k) = unat len - k"
    "k < unat len \<Longrightarrow> may_access mm (base + word_of_nat k) (len - word_of_nat k) wr"
proof -
  have b: "0x200000 \<le> unat base" "unat base + unat len \<le> 0x80000000"
    "\<And>j. j < unat len \<Longrightarrow> accessible mm wr (base + word_of_nat j)" using m by (simp_all add: may_access_def)
  have "k < 2 ^ 64" by (rule le_less_trans [OF k(2)]) (use unsigned_less [of len] in simp)
  then have uk: "unat (word_of_nat k :: u64) = k" by (simp add: unsigned_of_nat take_bit_nat_eq_self)
  have pos: "0 < (word_of_nat k :: u64)" using k(1) uk by (simp add: word_less_nat_alt)
  show "may_access mm base (word_of_nat k) wr"
    unfolding may_access_def uk using pos b k by auto
  have "unat base + k \<le> 0x80000000" using b(2) k(2) by linarith
  then show bk: "unat (base + word_of_nat k) = unat base + k" by (intro unat_offset) simp
  show lk: "unat (len - word_of_nat k) = unat len - k" using k(2) uk by (simp add: unat_sub word_le_nat_alt)
  show "may_access mm (base + word_of_nat k) (len - word_of_nat k) wr" if "k < unat len"
  proof -
    have "accessible mm wr (base + word_of_nat k + word_of_nat j)" if j: "j < unat len - k" for j
      using b(3) [of "k + j"] j by (simp add: add.assoc)
    then show ?thesis unfolding may_access_def bk lk using b that lk by (simp add: word_less_nat_alt)
  qed
qed

lemma mem_write_overwrite:
  assumes "length ys \<le> n"
  shows "mem_write mem a (overwrite (mem_read mem a n) 0 ys) = mem_write mem a ys"
proof
  fix i
  show "mem_write mem a (overwrite (mem_read mem a n) 0 ys) i = mem_write mem a ys i"
    using assms nth_overwrite [of 0 ys "mem_read mem a n" "i - a"] by (auto simp: mem_write_def nth_mem_read)
qed

section \<open>The loop of the read system call\<close>

abbreviation kbuf_ok :: "u64 \<Rightarrow> bool" where
  "kbuf_ok kb \<equiv> 0x80000000 \<le> unat kb"

lemma read_round_sfs:
  assumes r: "reads_at d B F N p i n off (vf st)" and off: "off + unat len < 2 ^ 63"
    and mm: "cmm st = Some mm" "mm_ok mm" "may_access mm base len True" and kb: "kbuf_ok kb"
    and k: "k = min (min (unat len) 4096) (di_size (node_din (vf st) n) - off)"
  shows "\<exists>st'. read_round (sfs_vops e names) (int i) kb base len cnt st =
      Some (0, word_of_nat k, base + word_of_nat k, len - word_of_nat k, cnt + word_of_nat k, st') \<and>
    reads_at d B F N p i n (off + k) (vf st') \<and> nodes (inodes (vf st')) = nodes (inodes (vf st)) \<and>
    (\<exists>c. cmm st' = Some (mm\<lparr>mmap_cache := c\<rparr>) \<and> mm_ok (mm\<lparr>mmap_cache := c\<rparr>)) \<and>
    (\<forall>a. a < unat kb \<or> unat kb + 4096 \<le> a \<longrightarrow>
      umem st' a = mem_write (umem st) (unat base) (mem_read (fcontent B (node_din (vf st) n)) off k) a)"
proof -
  let ?ops = "sfs_vops e names" and ?bs = "mem_read (fcontent B (node_din (vf st) n)) off k"
  have w: "unat (if IOBUF_SIZE > len then len else IOBUF_SIZE) = min (unat len) 4096"
    by (auto simp: word_less_nat_alt)
  have o: "off + min (unat len) 4096 < 2 ^ 63" using off by simp
  have kl: "k \<le> length (mem_read (umem st) (unat kb) 4096)" using k by simp
  obtain s' where s': "file_read ?ops (int i) (mem_read (umem st) (unat kb) 4096) (min (unat len) 4096) (vf st) =
      Some (0, k, overwrite (mem_read (umem st) (unat kb) 4096) 0 ?bs, s')" "reads_at d B F N p i n (off + k) s'"
    "nodes (inodes s') = nodes (inodes (vf st))"
    using file_read_sfs [OF r o k kl, where e = e and names = names] by blast
  have bs: "mem_write (umem st) (unat kb) (overwrite (mem_read (umem st) (unat kb) 4096) 0 ?bs) = mem_write (umem st) (unat kb) ?bs"
    using k by (intro mem_write_overwrite) simp
  let ?st1 = "st\<lparr>vf := s', umem := mem_write (umem st) (unat kb) ?bs\<rparr>"
  show ?thesis
  proof (cases "k = 0")
    case True
    have "mm\<lparr>mmap_cache := mmap_cache mm\<rparr> = mm" by simp
    then have "\<exists>c. Some mm = Some (mm\<lparr>mmap_cache := c\<rparr>) \<and> mm_ok (mm\<lparr>mmap_cache := c\<rparr>)" using mm(2) by metis
    then show ?thesis using True s' mm(1)
      by (intro exI [of _ ?st1]) (simp add: read_round_def w bs [unfolded True, simplified] Let_def)
  next
    case False
    have kl: "0 < k" "k \<le> unat len" using False k by simp_all
    note sp = may_access_split [OF mm(3) kl]
    have "k < 2 ^ 64" using k by simp
    then have uk: "unat (word_of_nat k :: u64) = k" by (simp add: unsigned_of_nat take_bit_nat_eq_self)
    have nz: "(word_of_nat k :: u64) \<noteq> 0" using uk kl(1) by (metis unat_0 less_irrefl)
    have le: "(word_of_nat k :: u64) \<le> len" using uk kl(2) by (simp add: word_le_nat_alt)
    have c1: "cmm ?st1 = Some mm" using mm(1) by simp
    obtain c where c: "to_user base kb (word_of_nat k) ?st1 =
        (True, ?st1\<lparr>umem := mem_write (mem_write (umem st) (unat kb) ?bs) (unat base) ?bs, cmm := Some (mm\<lparr>mmap_cache := c\<rparr>)\<rparr>)"
      "mm_ok (mm\<lparr>mmap_cache := c\<rparr>)"
      using to_user_ok [OF c1 mm(2) sp(1), of kb] by (auto simp: uk mem_read_write_same)
    let ?st2 = "?st1\<lparr>umem := mem_write (mem_write (umem st) (unat kb) ?bs) (unat base) ?bs, cmm := Some (mm\<lparr>mmap_cache := c\<rparr>)\<rparr>"
    have "k \<le> 4096" using k by simp
    then have "umem ?st2 a = mem_write (umem st) (unat base) ?bs a" if "a < unat kb \<or> unat kb + 4096 \<le> a" for a
      using that by (auto simp: mem_write_def)
    moreover have "read_round ?ops (int i) kb base len cnt st =
        Some (0, word_of_nat k, base + word_of_nat k, len - word_of_nat k, cnt + word_of_nat k, ?st2)"
      using s'(1) c(1) nz le unfolding read_round_def w Let_def by (simp add: bs)
    ultimately show ?thesis using s'(2,3) c(2) by (intro exI [of _ ?st2]) auto
  qed
qed

text \<open>What the loop has done when it stops: \<open>K\<close> bytes from position \<open>off\<close> of the file lie at \<open>base\<close>, the position has moved on,
  and nothing else has changed but the kernel's buffer.\<close>

definition read_done ::
  "nat \<Rightarrow> (nat \<Rightarrow> u8 list) \<Rightarrow> nat set \<Rightarrow> nat \<Rightarrow> nat \<Rightarrow> nat \<Rightarrow> nat \<Rightarrow> nat \<Rightarrow> nat \<Rightarrow> mm_struct \<Rightarrow> u64 \<Rightarrow> u64 \<Rightarrow>
   disk0 mnt sysf \<Rightarrow> disk0 mnt sysf \<Rightarrow> bool" where
  "read_done d B F N p i n off K mm kb base st st' \<longleftrightarrow>
     reads_at d B F N p i n (off + K) (vf st') \<and> nodes (inodes (vf st')) = nodes (inodes (vf st)) \<and>
     (\<exists>c. cmm st' = Some (mm\<lparr>mmap_cache := c\<rparr>) \<and> mm_ok (mm\<lparr>mmap_cache := c\<rparr>)) \<and>
     (\<forall>a. a < unat kb \<or> unat kb + 4096 \<le> a \<longrightarrow>
       umem st' a = mem_write (umem st) (unat base) (mem_read (fcontent B (node_din (vf st) n)) off K) a)"

lemma mem_write_cong: "m a = m' a \<Longrightarrow> mem_write m b ys a = mem_write m' b ys a"
  by (simp add: mem_write_def)

lemma min_parts: "(k :: nat) \<le> l \<Longrightarrow> k \<le> t \<Longrightarrow> min l t = k + min (l - k) (t - k)"
  by arith

lemma read_done_trans:
  assumes "read_done d B F N p i n off k mm kb base st st1"
    and "read_done d B F N p i n (off + k) K (mm\<lparr>mmap_cache := c\<rparr>) kb base1 st1 st'" and "unat base1 = unat base + k"
  shows "read_done d B F N p i n off (k + K) mm kb base st st'"
proof -
  let ?f = "fcontent B (node_din (vf st) n)"
  have d: "node_din (vf st1) n = node_din (vf st) n" using assms(1) by (simp add: read_done_def)
  have "umem st' a = mem_write (umem st) (unat base) (mem_read ?f off (k + K)) a" if a: "a < unat kb \<or> unat kb + 4096 \<le> a" for a
  proof -
    have "umem st' a = mem_write (umem st1) (unat base + k) (mem_read ?f (off + k) K) a"
      using assms(2) a unfolding read_done_def d assms(3) by blast
    also have "\<dots> = mem_write (mem_write (umem st) (unat base) (mem_read ?f off k)) (unat base + k) (mem_read ?f (off + k) K) a"
      by (rule mem_write_cong) (use assms(1) a in \<open>auto simp: read_done_def\<close>)
    also have "\<dots> = mem_write (umem st) (unat base) (mem_read ?f off (k + K)) a"
      using mem_write_append [of "umem st" "unat base" "mem_read ?f off k" "mem_read ?f (off + k) K"] by (simp add: mem_read_add)
    finally show ?thesis .
  qed
  then show ?thesis using assms(1,2) by (simp add: read_done_def add.assoc)
qed

lemma read_loop_sfs:
  assumes "reads_at d B F N p i n off (vf st)" and "off + unat len < 2 ^ 63"
    and "cmm st = Some mm" "mm_ok mm" "len \<noteq> 0 \<Longrightarrow> may_access mm base len True" and "kbuf_ok kb"
    and "K = min (unat len) (di_size (node_din (vf st) n) - off)"
  shows "\<exists>st'. read_loop (sfs_vops e names) (int i) kb base len cnt st = Some (0, cnt + word_of_nat K, st') \<and>
    read_done d B F N p i n off K mm kb base st st'"
  using assms
proof (induction "unat len" arbitrary: len base cnt st off mm K rule: less_induct)
  case less
  let ?sz = "di_size (node_din (vf st) n)"
  have refl: "\<exists>c. cmm st = Some (mm\<lparr>mmap_cache := c\<rparr>) \<and> mm_ok (mm\<lparr>mmap_cache := c\<rparr>)"
    using less.prems(3,4) by (intro exI [of _ "mmap_cache mm"]) simp
  show ?case
  proof (cases "len = 0")
    case True
    then have "K = 0" using less.prems(7) by simp
    then show ?thesis using True less.prems(1) refl
      by (intro exI [of _ st]) (simp add: read_loop.simps read_done_def)
  next
    case False
    define k where "k = min (min (unat len) 4096) (?sz - off)"
    obtain st1 where round: "read_round (sfs_vops e names) (int i) kb base len cnt st =
        Some (0, word_of_nat k, base + word_of_nat k, len - word_of_nat k, cnt + word_of_nat k, st1)"
      and done1: "read_done d B F N p i n off k mm kb base st st1"
      using read_round_sfs [OF less.prems(1-4) less.prems(5) [OF False] less.prems(6) k_def, where e = e and names = names]
      unfolding read_done_def by blast
    show ?thesis
    proof (cases "k = 0")
      case True
      then have "?sz - off = 0" using False by (simp add: k_def unat_eq_zero min_def split: if_splits)
      then have "K = 0" using less.prems(7) by simp
      then show ?thesis using True round done1 False
        by (intro exI [of _ st1]) (simp add: read_loop.simps)
    next
      case nz: False
      have kl: "0 < k" "k \<le> unat len" using nz by (simp_all add: k_def)
      note sp = may_access_split [OF less.prems(5) [OF False] kl]
      have uk: "unat (word_of_nat k :: u64) = k"
        by (simp add: unsigned_of_nat take_bit_nat_eq_self k_def)
      then have knz: "(word_of_nat k :: u64) \<noteq> 0" using kl(1) by (metis unat_0 less_irrefl)
      obtain c where c: "cmm st1 = Some (mm\<lparr>mmap_cache := c\<rparr>)" "mm_ok (mm\<lparr>mmap_cache := c\<rparr>)"
        using done1 by (auto simp: read_done_def)
      define K' where "K' = min (unat (len - word_of_nat k)) (di_size (node_din (vf st1) n) - (off + k))"
      have sz1: "di_size (node_din (vf st1) n) = ?sz" using done1 by (simp add: read_done_def)
      have "k \<le> ?sz - off" by (simp add: k_def)
      from min_parts [OF kl(2) this] have K: "K = k + K'" unfolding K'_def sz1 sp(3) less.prems(7) by simp
      have r1: "reads_at d B F N p i n (off + k) (vf st1)" using done1 by (simp add: read_done_def)
      have o1: "off + k + unat (len - word_of_nat k) < 2 ^ 63" using less.prems(2) kl(2) unfolding sp(3) by simp
      have a1: "may_access (mm\<lparr>mmap_cache := c\<rparr>) (base + word_of_nat k) (len - word_of_nat k) True" if "len - word_of_nat k \<noteq> 0"
        using sp(4) sp(3) that kl(2) by (cases "k = unat len") (simp_all add: unat_eq_zero [symmetric])
      have "unat (len - word_of_nat k) < unat len" using sp(3) kl by simp
      from less.hyps [OF this r1 o1 c a1 less.prems(6) K'_def]
      obtain st' where st': "read_loop (sfs_vops e names) (int i) kb (base + word_of_nat k) (len - word_of_nat k) (cnt + word_of_nat k) st1 =
          Some (0, cnt + word_of_nat k + word_of_nat K', st')"
        "read_done d B F N p i n (off + k) K' (mm\<lparr>mmap_cache := c\<rparr>) kb (base + word_of_nat k) st1 st'" by blast
      have "read_loop (sfs_vops e names) (int i) kb base len cnt st = Some (0, cnt + word_of_nat K, st')"
        using round False knz st'(1) by (simp add: read_loop.simps [of _ _ _ _ len] K add.assoc)
      then show ?thesis using read_done_trans [OF done1 st'(2) sp(2)] unfolding K by blast
    qed
  qed
qed


lemma mm0_stack: "may_access mm0 0x7FF80000 7 True"
proof -
  have "fst (user_mem_check (Some mm0) 0x7FF80000 7 True)"
    by (simp add: user_mem_check_def USER_ACCESS_def mem_check_loop.simps find_vma_def mm0_def in_vma_def Let_def)
  then show ?thesis using user_mem_check_eq [OF mm0_ok, of "0x7FF80000" 7 True] by auto
qed


end
