(* ===== verification/Spec2Isabelle.thy ===== *)
theory Spec2Isabelle
  imports BestFit Buddy SlobProps LoadFail ProcExit SfsSync Philosophers Monitor FileTypes SysfileProps
begin

text \<open>
  A verification development for the uCore kernel of this repository, a teaching kernel for RISC-V written in C. The
  directories \<^verbatim>\<open>lab01\<close> to \<^verbatim>\<open>lab8\<close> are successive stages of one kernel; \<^verbatim>\<open>lab8\<close> is the complete one and the
  one modelled here, with the best-fit and buddy page allocators of \<^verbatim>\<open>lab02\<close> beside it. Source names below are
  relative to \<^verbatim>\<open>src/lab8\<close> unless they say otherwise.

  \<^bold>\<open>The program.\<close> At the bottom the physical memory manager hands out pages, first-fit from a list of free blocks
  (\<^verbatim>\<open>kern/mm/default_pmm.c\<close>) behind the interface \<^verbatim>\<open>struct pmm_manager\<close> (\<^verbatim>\<open>kern/mm/pmm.h\<close>). The kernel heap
  (\<^verbatim>\<open>kern/mm/kmalloc.c\<close>) takes pages from it and gives smaller blocks. Page tables
  (\<^verbatim>\<open>kern/mm/pmm.c\<close>) and the areas of an address space (\<^verbatim>\<open>kern/mm/vmm.c\<close>) are built on it. Processes
  (\<^verbatim>\<open>kern/process/proc.c\<close>) own an address space and a table of open files, and wait for each other; the scheduler
  (\<^verbatim>\<open>kern/schedule\<close>) picks the next one through a scheduling class and keeps the timers. Semaphores and monitors
  (\<^verbatim>\<open>kern/sync\<close>) put processes on wait queues. The simple file system (\<^verbatim>\<open>kern/fs/sfs\<close>) lives on a RAM disk behind an
  IDE layer and the device \<^verbatim>\<open>disk0\<close>; the virtual file system (\<^verbatim>\<open>kern/fs/vfs\<close>) finds inodes by path, the file tables
  (\<^verbatim>\<open>kern/fs/file.c\<close>) name open ones by number, and the file calls (\<^verbatim>\<open>kern/fs/sysfile.c\<close>) copy between user memory and
  files.

  \<^bold>\<open>Theories and sources.\<close>
  \<^item> \<open>Prelude\<close>: machine words, error codes (\<^verbatim>\<open>libs/error.h\<close>), assertions, rounding (\<^verbatim>\<open>libs/defs.h\<close>), hashing, and
    the lemmas and the collections of hints shared by all.
  \<^item> \<open>LinkedList\<close>: the circular lists of \<^verbatim>\<open>libs/list.h\<close> with their pointers, proved to refine HOL lists; all later
    theories use the HOL lists. \<open>SkewHeap\<close>: \<^verbatim>\<open>libs/skew_heap.h\<close> with its pointers, proved to refine ordered trees.
  \<^item> \<open>PmmInterface\<close>: \<^verbatim>\<open>struct pmm_manager\<close> and the wrappers of \<^verbatim>\<open>pmm.c\<close>; the locale \<open>page_allocator\<close> is the contract.
    \<open>PageAlloc\<close> (first fit), \<open>BestFit\<close> and \<open>Buddy\<close> (\<^verbatim>\<open>lab02\<close>) provide it.
  \<^item> \<open>Slob\<close>: the kernel heap of \<^verbatim>\<open>kern/mm/kmalloc.c\<close>, its circular free list with the pointers; \<open>SlobHeap\<close>, \<open>SlobProps\<close>: the heap
    as a client of the contract of the page manager, with clients of its own that write into their blocks.
  \<^item> \<open>PageTable\<close>: the three-level tables, \<^verbatim>\<open>get_pte\<close> to \<^verbatim>\<open>copy_range\<close>; \<open>PageMap\<close> and \<open>PageRange\<close>: the mapping that a
    table stands for, and what the operations on single pages and on ranges do to it.
  \<^item> \<open>Vmm\<close>, \<open>VmmProps\<close>: areas, \<^verbatim>\<open>mm_map\<close>, access checks and copies to and from user memory. \<open>UserString\<close>: \<^verbatim>\<open>copy_string\<close>.
  \<^item> \<open>LoadIcode\<close>: \<^verbatim>\<open>load_icode\<close> of \<^verbatim>\<open>proc.c\<close> and the structures of \<^verbatim>\<open>libs/elf.h\<close>, on the page tables and areas above, with the
    two file calls it makes as parameters. \<open>LoadMap\<close>: mapping fresh pages; \<open>LoadFill\<close>: the loops over a segment; \<open>LoadProps\<close>: the
    loop over the segments; \<open>LoadStack\<close>: the stack and the arguments; \<open>LoadExec\<close>: loading as a whole; \<open>LoadFail\<close>: loading
    when memory is short.
  \<^item> \<open>ProcData\<close>: \<^verbatim>\<open>struct proc_struct\<close> and the state of the scheduler. \<open>SchedClass\<close>: the round-robin and the stride
    class, as interpretations of the locale \<open>sched_policy\<close>. \<open>Sched\<close>: \<^verbatim>\<open>sched.c\<close>, proved once in that locale.
  \<^item> \<open>ProcTable\<close>: pids, hash list and links between processes. \<open>Proc\<close>: \<^verbatim>\<open>do_fork\<close> with its error exits.
    \<open>ProcExit\<close>: \<^verbatim>\<open>do_exit\<close>, \<^verbatim>\<open>do_wait\<close>, \<^verbatim>\<open>do_kill\<close>.
  \<^item> \<open>Semaphore\<close>: wait queues and semaphores. \<open>Philosophers\<close>: the five threads of \<^verbatim>\<open>check_sync.c\<close> in every
    interleaving. \<open>Monitor\<close>: \<^verbatim>\<open>monitor.c\<close> with any client.
  \<^item> \<open>Bitmap\<close>, \<open>Bytes\<close>, \<open>Disk\<close>: the free map, bytes and little-endian numbers, I/O buffers, RAM disk, IDE and \<^verbatim>\<open>disk0\<close>;
    the locale \<open>block_device\<close> is what the file system asks of a device, and \<^verbatim>\<open>disk0\<close> provides it.
  \<^item> \<open>SfsIO\<close>, \<open>SfsFile\<close>: block input and output, block maps, files and directories. \<open>SfsMap\<close>, \<open>SfsRw\<close>, \<open>SfsProps\<close>: a file
    as bytes, and that reading, writing and resizing are those of bytes. \<open>SfsCache\<close>, \<open>SfsMount\<close>, \<open>SfsSync\<close>: inodes in
    memory, directories, mounting, and that a disk written back is found again.
  \<^item> \<open>Vfs\<close>, \<open>FileTable\<close>, \<open>Sysfile\<close>: devices, paths and opening; file tables; the file calls. \<open>FileCounts\<close> states what the
    tables rely on as the locales \<open>counted_opens\<close> and \<open>counted_inodes\<close> and interprets them on the simple file system;
    \<open>FileProps\<close>, \<open>FileRuns\<close>, \<open>FileTypes\<close> and \<open>SysfileProps\<close> prove what holds of \<^verbatim>\<open>fork\<close> and \<^verbatim>\<open>exit\<close>, of every
    interleaving, of the types of open inodes, and of the read call from the system call down to the disk.
\<close>

text \<open>
  \<^bold>\<open>How the code is modelled.\<close> A C \<^verbatim>\<open>struct\<close> is a record, an object in memory a number that stands for its address, and
  a set of objects a map from numbers to records; the operations pass the state explicitly. A failed assertion, a panic,
  a null dereference and an access outside an object have no result (\<open>None\<close> of the option monad); error codes are the
  negative numbers that the C functions return. Addresses, flags, strides and hashes are words of their width and wrap;
  sizes that the code keeps far from their bounds are natural numbers, and file offsets are integers brought back to 64
  bits where the code adds to them. The other components see \<^verbatim>\<open>kmalloc\<close> only through the
  address or the failure that it returns, a parameter of the operations that call it. Where the
  code runs with interrupts disabled or under a semaphore that serialises it, the whole section is one step; where it can
  be interrupted, as in \<^verbatim>\<open>down\<close>, \<^verbatim>\<open>cond_wait\<close> or between \<^verbatim>\<open>fd_array_acquire\<close> and \<^verbatim>\<open>fd_array_release\<close>, the parts are steps
  of a relation, and the properties hold in every interleaving.

  \<^bold>\<open>What is shown.\<close> For each component, that its invariant holds at the start and is kept by every operation; what each
  operation returns and changes on every path, errors included; and where there is a simpler description (lists, trees,
  maps from addresses, bytes of a file, a queue of waiting processes) that the code refines it. The safety properties
  quantify over all runs: blocks handed out by an allocator are disjoint, philosophers exclude each other and finish, a
  monitor has one active thread, an inode is open while a file entry uses it. Some theorems show a fault of the code as it
  is: they are stated as what the code does.

  \<^bold>\<open>Loops.\<close> Loops over data are structural recursions or have a measure. Loops that follow pointers or addresses are
  \<^theory_text>\<open>partial_function (option)\<close>, for which not returning has no result either; the theorems about them state that there
  is a result. There is no fuel, but for the bound of 265 steps on the runs of the philosophers, which is proved, and for
  the 32 attempts of \<^verbatim>\<open>sfs_cleanup\<close>, which are the code's.

  \<^bold>\<open>Not modelled.\<close> Booting and the code in assembly; trap entry and the dispatch of system calls, which move registers;
  the drivers of console, clock, interrupts and device tree, and the devices \<^verbatim>\<open>stdin\<close> and \<^verbatim>\<open>stdout\<close> that wrap the
  console; formatted output; the debugger. Of \<^verbatim>\<open>proc.c\<close>, \<^verbatim>\<open>do_execve\<close> around \<^verbatim>\<open>load_icode\<close> and the start of the first processes; of
  \<^verbatim>\<open>pmm.c\<close>, the setup of memory at boot; of \<^verbatim>\<open>sfs_inode.c\<close>, \<^verbatim>\<open>sfs_namefile\<close>. The self-tests of the kernel, the user
  programs and the host tools are not part of it. Earlier labs hold earlier versions of the same files.
\<close>

end
